(* ===== verification/Prelude.thy ===== *)
theory Prelude
  imports Main "HOL-Library.Word" "HOL-Library.Monad_Syntax"
begin

text \<open>
  Shared vocabulary of the development: the machine-integer types, Rust's three-way
  \<open>Ordering\<close>, \<open>Vec::resize\<close>, and the generic facts on words, bits and lists that the
  component theories rewrite with. A Rust panic (a failed \<open>assert!\<close>, an index out of
  range, an underflow in a checked build) is the value \<open>None\<close> of an \<open>option\<close>
  result; code that cannot panic is a plain function.
\<close>

unbundle bit_operations_syntax

type_synonym u32 = "32 word"
type_synonym u64 = "64 word"
type_synonym u128 = "128 word"

named_theorems limb_simps \<open>values of limb-vector routines as natural numbers\<close>
named_theorems bits_simps \<open>bits of vectors, words and values\<close>

subsection \<open>Three-way comparison\<close>

datatype Ordering = Less | Equal | Greater

definition cmp :: "'a::linorder \<Rightarrow> 'a \<Rightarrow> Ordering" where
  "cmp a b = (if a < b then Less else if a = b then Equal else Greater)"

fun then_with :: "Ordering \<Rightarrow> Ordering \<Rightarrow> Ordering" where
  "then_with Equal r = r"
| "then_with Less r = Less"
| "then_with Greater r = Greater"

fun reverse_ord :: "Ordering \<Rightarrow> Ordering" where
  "reverse_ord Less = Greater"
| "reverse_ord Equal = Equal"
| "reverse_ord Greater = Less"

text \<open>\<open>Iterator::cmp\<close>: lexicographic, a proper prefix first.\<close>

fun iter_cmp :: "'a::linorder list \<Rightarrow> 'a list \<Rightarrow> Ordering" where
  "iter_cmp [] [] = Equal"
| "iter_cmp [] (y # ys) = Less"
| "iter_cmp (x # xs) [] = Greater"
| "iter_cmp (x # xs) (y # ys) = then_with (cmp x y) (iter_cmp xs ys)"

lemma cmp_simps [simp]:
  "cmp a b = Less \<longleftrightarrow> a < b" "cmp a b = Equal \<longleftrightarrow> a = b" "cmp a b = Greater \<longleftrightarrow> b < a"
  by (auto simp: cmp_def)

lemma cmp_less [simp]: "a < b \<Longrightarrow> cmp a b = Less"
  by simp

lemma cmp_greater [simp]: "b < a \<Longrightarrow> cmp a b = Greater"
  by simp

lemma cmp_refl [simp]: "cmp a a = Equal"
  by simp

lemma reverse_cmp [simp]: "reverse_ord (cmp a b) = cmp b a"
  by (auto simp: cmp_def)

lemma reverse_then_with [simp]:
  "reverse_ord (then_with r s) = then_with (reverse_ord r) (reverse_ord s)"
  by (cases r) simp_all

lemma then_with_Equal [simp]: "then_with r s = Equal \<longleftrightarrow> r = Equal \<and> s = Equal"
  by (cases r) simp_all

lemma cmp_strict_mono:
  "(\<And>x y. x < y \<Longrightarrow> f x < f y) \<Longrightarrow> cmp (f a) (f b) = cmp a (b :: 'a::linorder)"
  by (metis cmp_def less_irrefl not_less_iff_gr_or_eq)

subsection \<open>\<open>Vec::resize\<close>\<close>

definition resize :: "'a list \<Rightarrow> nat \<Rightarrow> 'a \<Rightarrow> 'a list" where
  "resize xs n v = take n xs @ replicate (n - length xs) v"

lemma length_resize [simp]: "length (resize xs n v) = n"
  by (simp add: resize_def)

lemma nth_resize: "i < n \<Longrightarrow> resize xs n v ! i = (if i < length xs then xs ! i else v)"
  by (simp add: resize_def nth_append)

lemma resize_same [simp]: "resize xs (length xs) v = xs"
  by (simp add: resize_def)

subsection \<open>Vector elements\<close>

text \<open>Reading and assigning an element of a vector, \<open>None\<close> out of range; and the loops of an iterator over a
  function that may panic.\<close>

definition nth_opt :: "'a list \<Rightarrow> nat \<Rightarrow> 'a option" where
  "nth_opt xs i = (if i < length xs then Some (xs ! i) else None)"

definition set_opt :: "'a list \<Rightarrow> nat \<Rightarrow> 'a \<Rightarrow> 'a list option" where
  "set_opt xs i v = (if i < length xs then Some (xs[i := v]) else None)"

fun filter_opt :: "('a \<Rightarrow> bool option) \<Rightarrow> 'a list \<Rightarrow> 'a list option" where
  "filter_opt p [] = Some []"
| "filter_opt p (x # xs) = do {
     keep \<leftarrow> p x;
     rest \<leftarrow> filter_opt p xs;
     Some (if keep then x # rest else rest)
   }"

fun map_opt :: "('a \<Rightarrow> 'b option) \<Rightarrow> 'a list \<Rightarrow> 'b list option" where
  "map_opt f [] = Some []"
| "map_opt f (x # xs) = do {
     y \<leftarrow> f x;
     rest \<leftarrow> map_opt f xs;
     Some (y # rest)
   }"

lemma filter_opt_total: "(\<And>x. x \<in> set xs \<Longrightarrow> f x = Some (g x)) \<Longrightarrow> filter_opt f xs = Some (filter g xs)"
  by (induction xs) simp_all

lemma map_opt_total: "(\<And>x. x \<in> set xs \<Longrightarrow> f x = Some (g x)) \<Longrightarrow> map_opt f xs = Some (map g xs)"
  by (induction xs) simp_all

lemma map_opt_Some: "map_opt f xs = Some ys \<longleftrightarrow> list_all2 (\<lambda>x y. f x = Some y) xs ys"
proof (induction xs arbitrary: ys)
  case (Cons x xs)
  have "map_opt f (x # xs) = Some ys \<longleftrightarrow> (\<exists>y zs. f x = Some y \<and> map_opt f xs = Some zs \<and> ys = y # zs)"
    by (auto split: bind_splits)
  then show ?case
    by (auto simp: Cons.IH list_all2_Cons1)
qed auto

subsection \<open>Bits of numbers and words\<close>

lemma nat_bit_lt:
  fixes n :: nat
  assumes "n < 2 ^ w" "bit n i"
  shows "i < w"
proof (rule ccontr)
  assume "\<not> i < w"
  then have "n < 2 ^ i"
    using assms(1) by (meson le_less_linear less_le_trans one_le_numeral power_increasing)
  then show False using assms(2) by (simp add: bit_iff_odd)
qed

lemma nat_lt_pow_iff_bits:
  fixes n :: nat
  shows "n < 2 ^ w \<longleftrightarrow> (\<forall>i. bit n i \<longrightarrow> i < w)"
proof
  assume "\<forall>i. bit n i \<longrightarrow> i < w"
  then have "take_bit w n = n"
    by (intro bit_eqI) (auto simp: bit_take_bit_iff)
  then show "n < 2 ^ w"
    by (metis take_bit_nat_less_exp)
qed (use nat_bit_lt in blast)

lemma nat_mod_pow_bit [bits_simps]:
  "bit (n mod 2 ^ w) i \<longleftrightarrow> i < w \<and> bit (n :: nat) i"
  by (metis bit_take_bit_iff take_bit_eq_mod)

lemma unat_and [bits_simps]: "unat (a AND b) = unat a AND unat (b :: 'a::len word)"
  by (rule bit_eqI) (simp add: bit_unsigned_iff bit_and_iff)

lemma unat_or [bits_simps]: "unat (a OR b) = unat a OR unat (b :: 'a::len word)"
  by (rule bit_eqI) (simp add: bit_unsigned_iff bit_or_iff)

lemma unat_xor [bits_simps]: "unat (a XOR b) = unat a XOR unat (b :: 'a::len word)"
  by (rule bit_eqI) (simp add: bit_unsigned_iff bit_xor_iff)

lemma unat_push_bit_1: "r < 64 \<Longrightarrow> unat (push_bit r 1 :: u64) = 2 ^ r"
  by (rule bit_eqI) (auto simp: bit_unsigned_iff bit_push_bit_iff bit_1_iff bit_exp_iff)

lemma unat_drop_bit: "unat (drop_bit n x) = unat (x :: 'a::len word) div 2 ^ n"
  using unat_drop_bit_eq [of n x] by (simp only: drop_bit_eq_div)

lemma unat_lt64: "unat (x :: u64) < 2 ^ 64"
  using unsigned_less [of x] by simp

lemma uint_range64: "0 \<le> uint (x :: u64)" "uint x < 2 ^ 64"
  using unsigned_less [of x, where 'a = int] by simp_all

lemma mod_step_nat:
  fixes n x B K :: nat
  shows "n mod B + B * ((x + n div B) mod K) = (n + B * x) mod (B * K)"
  by (cases "B = 0") (simp_all add: mod_mult2_eq add.commute)

lemma mod_step_int:
  fixes n x B K :: int
  shows "0 \<le> K \<Longrightarrow> n mod B + B * ((x + n div B) mod K) = (n + B * x) mod (B * K)"
  by (cases "B = 0") (simp_all add: zmod_zmult2_eq add.commute)

lemma bit64_imp: "bit (x :: u64) i \<Longrightarrow> i < 64"
  using bit_imp_le_length by force

subsection \<open>The length of a number in bits\<close>

fun bit_length :: "nat \<Rightarrow> nat" where
  "bit_length n = (if n = 0 then 0 else Suc (bit_length (n div 2)))"

declare bit_length.simps [simp del]

lemma bit_length_bounds: "n < 2 ^ bit_length n" "0 < n \<Longrightarrow> 2 ^ (bit_length n - 1) \<le> n"
proof -
  have "n < 2 ^ bit_length n \<and> (0 < n \<longrightarrow> 2 ^ (bit_length n - 1) \<le> n)"
  proof (induction n rule: bit_length.induct)
    case (1 n)
    show ?case
    proof (cases "n < 2")
      case True
      then show ?thesis by (cases "n = 0") (auto simp: bit_length.simps [of n] bit_length.simps [of 0])
    next
      case False
      then have "0 < bit_length (n div 2)" by (subst bit_length.simps) auto
      then obtain k where k: "bit_length (n div 2) = Suc k" by (metis gr0_implies_Suc)
      then show ?thesis using 1 False by (subst (1 2) bit_length.simps) auto
    qed
  qed
  then show "n < 2 ^ bit_length n" "0 < n \<Longrightarrow> 2 ^ (bit_length n - 1) \<le> n" by simp_all
qed

lemma bit_length_unique:
  assumes "n < 2 ^ m" "2 ^ (m - 1) \<le> n" "0 < m"
  shows "bit_length n = m"
proof -
  have n: "0 < n" using assms(2) by (metis gr0I not_le zero_less_numeral zero_less_power)
  have "(2 :: nat) ^ (bit_length n - 1) < 2 ^ m" "(2 :: nat) ^ (m - 1) < 2 ^ bit_length n"
    using le_less_trans [OF bit_length_bounds(2) [OF n] assms(1)] le_less_trans [OF assms(2) bit_length_bounds(1)]
    by blast+
  then have "bit_length n - 1 < m" "m - 1 < bit_length n" by (simp_all add: power_strict_increasing_iff)
  then show ?thesis using assms(3) by linarith
qed

end
