(* ===== verification/Limbs.thy ===== *)
theory Limbs
  imports Prelude
begin

text \<open>
  The limb-vector routines of \<open>libs/adt/src/apint.rs\<close> (\<open>limb_count\<close>, \<open>add_words\<close>,
  \<open>sub_words\<close>, \<open>mul_words\<close>, \<open>shl_words\<close>, \<open>lshr_words\<close>, \<open>cmp_words\<close>,
  \<open>divrem_words\<close>): vectors of 64-bit limbs, least significant first. \<open>limbs_val\<close> reads a
  vector as a natural number; each routine is shown to compute its arithmetic on it.
\<close>

subsection \<open>The value of a limb vector\<close>

fun limbs_val :: "u64 list \<Rightarrow> nat" where
  "limbs_val [] = 0"
| "limbs_val (x # xs) = unat x + 2 ^ 64 * limbs_val xs"

subsection \<open>The routines\<close>

definition limb_count :: "nat \<Rightarrow> nat" where
  "limb_count width = (width + 63) div 64"

definition overflowing_add :: "u64 \<Rightarrow> u64 \<Rightarrow> u64 \<times> bool" where
  "overflowing_add a b = (a + b, 2 ^ 64 \<le> unat a + unat b)"

definition overflowing_sub :: "u64 \<Rightarrow> u64 \<Rightarrow> u64 \<times> bool" where
  "overflowing_sub a b = (a - b, unat a < unat b)"

fun add_words_carry :: "u64 list \<Rightarrow> u64 list \<Rightarrow> bool \<Rightarrow> u64 list" where
  "add_words_carry (a # as) (b # bs) carry =
     (let (sum, first) = overflowing_add a b;
          (sum, second) = overflowing_add sum (of_bool carry)
      in sum # add_words_carry as bs (first \<or> second))"
| "add_words_carry _ _ carry = []"

definition add_words :: "u64 list \<Rightarrow> u64 list \<Rightarrow> u64 list" where
  "add_words a b = add_words_carry a b False"

fun sub_words_borrow :: "u64 list \<Rightarrow> u64 list \<Rightarrow> bool \<Rightarrow> u64 list" where
  "sub_words_borrow (a # as) (b # bs) borrow =
     (let (difference, first) = overflowing_sub a b;
          (difference, second) = overflowing_sub difference (of_bool borrow)
      in difference # sub_words_borrow as bs (first \<or> second))"
| "sub_words_borrow _ _ borrow = []"

definition sub_words :: "u64 list \<Rightarrow> u64 list \<Rightarrow> u64 list" where
  "sub_words a b = sub_words_borrow a b False"

text \<open>The inner loop of \<open>mul_words\<close>: \<open>k\<close> is \<open>i + j\<close>.\<close>

fun mul_words_inner :: "u64 \<Rightarrow> u64 list \<Rightarrow> nat \<Rightarrow> u64 list \<Rightarrow> u128 \<Rightarrow> u64 list" where
  "mul_words_inner a [] k product carry = product"
| "mul_words_inner a (b # bs) k product carry =
     (let current = ucast a * ucast b + ucast (product ! k) + carry
      in mul_words_inner a bs (Suc k) (product[k := ucast current]) (drop_bit 64 current))"

fun mul_words_outer :: "nat \<Rightarrow> u64 list \<Rightarrow> u64 list \<Rightarrow> u64 list \<Rightarrow> u64 list" where
  "mul_words_outer i [] b product = product"
| "mul_words_outer i (a # as) b product =
     mul_words_outer (Suc i) as b
       (mul_words_inner a (take (length product - i) b) i product 0)"

definition mul_words :: "u64 list \<Rightarrow> u64 list \<Rightarrow> u64 list" where
  "mul_words a b = mul_words_outer 0 a b (replicate (length a) 0)"

definition shl_words :: "u64 list \<Rightarrow> nat \<Rightarrow> u64 list" where
  "shl_words words shift =
     (let limbs = shift div 64; bits = shift mod 64
      in map (\<lambda>i. let at = (\<lambda>k. if k \<le> i then words ! (i - k) else 0)
                  in if bits = 0 then at limbs
                     else push_bit bits (at limbs) OR drop_bit (64 - bits) (at (limbs + 1)))
           [0..<length words])"

definition lshr_words :: "u64 list \<Rightarrow> nat \<Rightarrow> u64 list" where
  "lshr_words words shift =
     (let limbs = shift div 64; bits = shift mod 64
      in map (\<lambda>i. let at = (\<lambda>k. if i + k < length words then words ! (i + k) else 0)
                  in if bits = 0 then at limbs
                     else drop_bit bits (at limbs) OR push_bit (64 - bits) (at (limbs + 1)))
           [0..<length words])"

definition cmp_words :: "u64 list \<Rightarrow> u64 list \<Rightarrow> Ordering" where
  "cmp_words a b = iter_cmp (rev a) (rev b)"

text \<open>The loop of \<open>divrem_words\<close>, from bit \<open>n - 1\<close> down to bit 0.\<close>

fun divrem_loop ::
  "u64 list \<Rightarrow> u64 list \<Rightarrow> nat \<Rightarrow> u64 list \<Rightarrow> u64 list \<Rightarrow> u64 list \<times> u64 list" where
  "divrem_loop a divisor 0 quot remainder = (quot, remainder)"
| "divrem_loop a divisor (Suc bt) quot remainder =
     (let remainder = shl_words remainder 1;
          remainder = remainder[0 := remainder ! 0 OR (drop_bit (bt mod 64) (a ! (bt div 64)) AND 1)]
      in if cmp_words remainder divisor \<noteq> Less
         then divrem_loop a divisor bt
                (quot[bt div 64 := quot ! (bt div 64) OR push_bit (bt mod 64) 1])
                (sub_words remainder divisor)
         else divrem_loop a divisor bt quot remainder)"

definition divrem_words :: "u64 list \<Rightarrow> u64 list \<Rightarrow> nat \<Rightarrow> u64 list \<times> u64 list" where
  "divrem_words a b width =
     (let (quot, remainder) =
            divrem_loop a (b @ [0]) width (replicate (length a) 0) (replicate (length a + 1) 0)
      in (quot, butlast remainder))"

subsection \<open>Reading limb vectors\<close>

lemma limbs_val_lt: "limbs_val ws < 2 ^ (64 * length ws)"
proof (induction ws)
  case (Cons x xs)
  have "unat x + 2 ^ 64 * limbs_val xs < 2 ^ 64 + 2 ^ 64 * limbs_val xs"
    using unat_lt64 [of x] by simp
  also have "\<dots> = 2 ^ 64 * (limbs_val xs + 1)"
    by simp
  also have "\<dots> \<le> 2 ^ 64 * 2 ^ (64 * length xs)"
    using Cons by (intro mult_le_mono2) simp
  finally show ?case by (simp add: power_add)
qed simp

lemma limbs_val_append [limb_simps]:
  "limbs_val (xs @ ys) = limbs_val xs + 2 ^ (64 * length xs) * limbs_val ys"
  by (induction xs) (simp_all add: power_add algebra_simps)

lemma limbs_val_replicate0 [simp]: "limbs_val (replicate n 0) = 0"
  by (induction n) simp_all

lemma bit_add_shifted:
  fixes x y :: nat
  assumes "x < 2 ^ k"
  shows "bit (x + 2 ^ k * y) i \<longleftrightarrow> (if i < k then bit x i else bit y (i - k))"
proof (cases "i < k")
  case True
  then have "(2::nat) ^ k = 2 ^ i * 2 ^ (k - i)"
    by (simp flip: power_add)
  then have "(x + 2 ^ k * y) div 2 ^ i = x div 2 ^ i + 2 ^ (k - i) * y"
    by (simp add: mult.assoc)
  then show ?thesis using True by (simp add: bit_iff_odd)
next
  case False
  then have "(2::nat) ^ i = 2 ^ k * 2 ^ (i - k)"
    by (simp flip: power_add)
  then have "(x + 2 ^ k * y) div 2 ^ i = y div 2 ^ (i - k)"
    using assms by (simp add: div_mult2_eq)
  then show ?thesis using False by (simp add: bit_iff_odd)
qed

lemma bit_limbs_val [bits_simps]:
  "bit (limbs_val ws) i \<longleftrightarrow> i div 64 < length ws \<and> bit (ws ! (i div 64)) (i mod 64)"
proof (induction ws arbitrary: i)
  case (Cons x xs)
  have "bit (limbs_val (x # xs)) i \<longleftrightarrow> (if i < 64 then bit x i else bit (limbs_val xs) (i - 64))"
    using bit_add_shifted [OF unat_lt64 [of x]] by (simp add: bit_unsigned_iff)
  also have "\<dots> \<longleftrightarrow> i div 64 < length (x # xs) \<and> bit ((x # xs) ! (i div 64)) (i mod 64)"
  proof (cases "i < 64")
    case False
    then have "i div 64 = Suc ((i - 64) div 64)" "i mod 64 = (i - 64) mod 64"
      by (simp_all add: le_div_geq le_mod_geq not_less)
    then show ?thesis using False by (simp add: Cons.IH)
  qed simp
  finally show ?case .
qed (simp add: bit_iff_odd)

lemma limbs_val_inject:
  assumes "length xs = length ys" "limbs_val xs = limbs_val ys"
  shows "xs = ys"
  using assms
proof (induction xs ys rule: list_induct2)
  case (Cons x xs y ys)
  from Cons.prems have eq: "unat x + 2 ^ 64 * limbs_val xs = unat y + 2 ^ 64 * limbs_val ys"
    by simp
  from arg_cong [OF eq, of "\<lambda>n. n mod 2 ^ 64"] have "unat x = unat y"
    using unat_lt64 [of x] unat_lt64 [of y] by simp
  with eq Cons.IH show ?case by (simp add: unsigned_word_eqI)
qed simp

lemma limbs_val_0_iff: "limbs_val ws = 0 \<longleftrightarrow> (\<forall>w \<in> set ws. w = 0)"
  by (induction ws) (auto simp: unat_eq_zero)

lemma limb_count_pos [simp]: "0 < limb_count w \<longleftrightarrow> 0 < w"
  by (auto simp: limb_count_def)

lemma limb_count_eq_1: "0 < w \<Longrightarrow> w \<le> 64 \<Longrightarrow> limb_count w = 1"
  unfolding limb_count_def by arith

lemma limb_count_gt_1: "64 < w \<Longrightarrow> 1 < limb_count w"
  unfolding limb_count_def by arith

lemma limb_count_bounds: "w \<le> 64 * limb_count w" "0 < w \<Longrightarrow> 64 * (limb_count w - 1) < w"
  unfolding limb_count_def by arith+

lemma limb_index_lt: "i < w \<Longrightarrow> i div 64 < limb_count w"
  unfolding limb_count_def by (simp add: div_less_iff_less_mult)


subsection \<open>Addition and subtraction\<close>

lemma add_limb:
  fixes a b :: u64
  shows "unat (a + b + of_bool c) = (unat a + unat b + of_bool c) mod 2 ^ 64"
    and "(2 ^ 64 \<le> unat a + unat b \<or> 2 ^ 64 \<le> unat (a + b) + unat (of_bool c :: u64)) \<longleftrightarrow>
      2 ^ 64 \<le> unat a + unat b + of_bool c"
proof -
  have add: "unat (a + b) = (unat a + unat b) mod 2 ^ 64" for a b :: u64
    by (simp add: unat_word_ariths)
  then show "unat (a + b + of_bool c) = (unat a + unat b + of_bool c) mod 2 ^ 64"
    by (cases c) (simp_all add: mod_simps)
  show "(2 ^ 64 \<le> unat a + unat b \<or> 2 ^ 64 \<le> unat (a + b) + unat (of_bool c :: u64)) \<longleftrightarrow>
      2 ^ 64 \<le> unat a + unat b + of_bool c"
    by (cases "2 ^ 64 \<le> unat a + unat b") (auto simp: add)
qed

lemma add_words_carry_Cons:
  "add_words_carry (a # as) (b # bs) c =
     (a + b + of_bool c) # add_words_carry as bs (2 ^ 64 \<le> unat a + unat b + of_bool c)"
  by (simp only: add_words_carry.simps overflowing_add_def Let_def prod.case add_limb(2))

lemma length_add_words_carry [simp]:
  "length a = length b \<Longrightarrow> length (add_words_carry a b c) = length b"
  by (induction a b arbitrary: c rule: list_induct2) (simp_all add: add_words_carry_Cons del: add_words_carry.simps(1))

lemma carry_out:
  "n < 2 * 2 ^ 64 \<Longrightarrow> n div 2 ^ 64 = (of_bool (2 ^ 64 \<le> n) :: nat)"
  by (cases "2 ^ 64 \<le> n") (auto simp: div_nat_eqI)

lemma add_words_carry_val:
  "length a = length b \<Longrightarrow> limbs_val (add_words_carry a b c)
     = (limbs_val a + limbs_val b + of_bool c) mod 2 ^ (64 * length b)"
proof (induction a b arbitrary: c rule: list_induct2)
  case (Cons a as b bs)
  define n where "n = unat a + unat b + (of_bool c :: nat)"
  define k where "k = 64 * length bs"
  have "n < 2 * 2 ^ 64"
    using unat_lt64 [of a] unat_lt64 [of b] by (cases c) (simp_all add: n_def)
  then have carry: "(of_bool (2 ^ 64 \<le> n) :: nat) = n div 2 ^ 64"
    by (rule carry_out [symmetric])
  have "limbs_val (add_words_carry (a # as) (b # bs) c)
      = n mod 2 ^ 64 + 2 ^ 64 * ((limbs_val as + limbs_val bs + n div 2 ^ 64) mod 2 ^ k)"
    unfolding add_words_carry_Cons limbs_val.simps Cons.IH add_limb(1) carry k_def
      n_def [symmetric] ..
  also have "\<dots> = (n + 2 ^ 64 * (limbs_val as + limbs_val bs)) mod (2 ^ 64 * 2 ^ k)"
    by (rule mod_step_nat)
  also have "\<dots> = (limbs_val (a # as) + limbs_val (b # bs) + of_bool c) mod 2 ^ (64 * length (b # bs))"
    by (simp add: n_def k_def power_add algebra_simps)
  finally show ?case .
qed simp

lemma add_words_val [limb_simps]:
  "length a = length b \<Longrightarrow>
     limbs_val (add_words a b) = (limbs_val a + limbs_val b) mod 2 ^ (64 * length b)"
  by (simp add: add_words_def add_words_carry_val)

lemma length_add_words [simp]: "length a = length b \<Longrightarrow> length (add_words a b) = length b"
  by (simp add: add_words_def)

lemma sub_limb:
  fixes a b :: u64
  shows "uint (a - b - of_bool c) = (uint a - uint b - of_bool c) mod 2 ^ 64"
    and "(unat a < unat b \<or> unat (a - b) < unat (of_bool c :: u64)) \<longleftrightarrow>
      uint a - uint b - of_bool c < 0"
proof -
  have sub: "uint (a - b) = (uint a - uint b) mod 2 ^ 64" for a b :: u64
    by (simp add: uint_word_ariths)
  then show "uint (a - b - of_bool c) = (uint a - uint b - of_bool c) mod 2 ^ 64"
    by (cases c) (simp_all add: mod_simps)
  have "uint b \<le> uint a \<Longrightarrow> uint (a - b) = uint a - uint b"
    using uint_range64 [of a] uint_range64 [of b] by (subst sub, intro mod_pos_pos_trivial) linarith+
  moreover have "(unat a < unat b \<or> unat (a - b) < unat (of_bool c :: u64)) \<longleftrightarrow>
      (uint a < uint b \<or> uint (a - b) < of_bool c)"
    unfolding word_less_nat_alt [symmetric] word_less_def by (cases c) simp_all
  ultimately show "(unat a < unat b \<or> unat (a - b) < unat (of_bool c :: u64)) \<longleftrightarrow>
      uint a - uint b - of_bool c < 0"
    by (cases "uint b \<le> uint a"; cases c) (simp_all only: of_bool_eq, linarith+)
qed

lemma sub_words_borrow_Cons:
  "sub_words_borrow (a # as) (b # bs) c =
     (a - b - of_bool c) # sub_words_borrow as bs (uint a - uint b - of_bool c < 0)"
  by (simp only: sub_words_borrow.simps overflowing_sub_def Let_def prod.case sub_limb(2))

lemma length_sub_words_borrow [simp]:
  "length a = length b \<Longrightarrow> length (sub_words_borrow a b c) = length b"
  by (induction a b arbitrary: c rule: list_induct2) (simp_all add: sub_words_borrow_Cons del: sub_words_borrow.simps(1))

lemma borrow_out:
  "- (2 ^ 64) \<le> n \<Longrightarrow> n < 2 ^ 64 \<Longrightarrow> n div 2 ^ 64 = (- of_bool (n < 0) :: int)"
  by (cases "n < 0") (auto simp: div_pos_pos_trivial intro: int_div_pos_eq)

lemma sub_words_borrow_val:
  "length a = length b \<Longrightarrow> int (limbs_val (sub_words_borrow a b c))
     = (int (limbs_val a) - int (limbs_val b) - of_bool c) mod 2 ^ (64 * length b)"
proof (induction a b arbitrary: c rule: list_induct2)
  case (Cons a as b bs)
  define n :: int where "n = uint a - uint b - of_bool c"
  define k where "k = 64 * length bs"
  have "- (2 ^ 64) \<le> n \<and> n < 2 ^ 64"
    using uint_range64 [of a] uint_range64 [of b] by (cases c; (simp only: n_def of_bool_eq; linarith))
  then have borrow: "(of_bool (n < 0) :: int) = - (n div 2 ^ 64)"
    using borrow_out [of n] by linarith
  have "int (limbs_val (sub_words_borrow (a # as) (b # bs) c))
      = n mod 2 ^ 64 + 2 ^ 64 * ((int (limbs_val as) - int (limbs_val bs) - - (n div 2 ^ 64)) mod 2 ^ k)"
    unfolding sub_words_borrow_Cons limbs_val.simps of_nat_add of_nat_mult Cons.IH int_nat_eq
      sub_limb(1) borrow k_def n_def [symmetric] by (simp add: sub_limb(1) n_def)
  also have "\<dots> = (n + 2 ^ 64 * (int (limbs_val as) - int (limbs_val bs))) mod (2 ^ 64 * 2 ^ k)"
    by (simp only: diff_minus_eq_add mod_step_int zero_le_numeral zero_le_power)
  also have "\<dots> = (int (limbs_val (a # as)) - int (limbs_val (b # bs)) - of_bool c)
      mod 2 ^ (64 * length (b # bs))"
    by (simp add: n_def k_def power_add algebra_simps)
  finally show ?case .
qed simp

lemma sub_words_val [limb_simps]:
  "length a = length b \<Longrightarrow>
     int (limbs_val (sub_words a b)) = (int (limbs_val a) - int (limbs_val b)) mod 2 ^ (64 * length b)"
  by (simp add: sub_words_def sub_words_borrow_val)

lemma sub_words_le:
  assumes "length a = length b" "limbs_val b \<le> limbs_val a"
  shows "limbs_val (sub_words a b) = limbs_val a - limbs_val b"
proof -
  have "int (limbs_val a) < 2 ^ (64 * length b)"
    using limbs_val_lt [of a] assms(1) by (metis of_nat_less_numeral_power_cancel_iff)
  then have "int (limbs_val (sub_words a b)) = int (limbs_val a) - int (limbs_val b)"
    using assms by (simp only: sub_words_val) (intro mod_pos_pos_trivial; linarith)
  then show ?thesis using assms(2) by (simp flip: of_nat_diff)
qed

lemma length_sub_words [simp]: "length a = length b \<Longrightarrow> length (sub_words a b) = length b"
  by (simp add: sub_words_def)

subsection \<open>Slices and single-limb updates\<close>

lemma limbs_val_take [limb_simps]: "limbs_val (take m ws) = limbs_val ws mod 2 ^ (64 * m)"
proof (rule bit_eqI)
  fix i
  have "i div 64 < m \<longleftrightarrow> i < 64 * m"
    by (simp add: div_less_iff_less_mult mult.commute)
  then show "bit (limbs_val (take m ws)) i \<longleftrightarrow> bit (limbs_val ws mod 2 ^ (64 * m)) i"
    by (auto simp: bits_simps)
qed

lemma limbs_val_butlast:
  "ws \<noteq> [] \<Longrightarrow> limbs_val ws < 2 ^ (64 * (length ws - 1)) \<Longrightarrow> limbs_val (butlast ws) = limbs_val ws"
  by (simp add: butlast_conv_take limbs_val_take)

lemma limbs_val_update:
  "k < length ws \<Longrightarrow>
     limbs_val (ws[k := v]) + 2 ^ (64 * k) * unat (ws ! k) = limbs_val ws + 2 ^ (64 * k) * unat v"
proof (induction ws arbitrary: k)
  case (Cons x ws)
  show ?case
  proof (cases k)
    case (Suc j)
    with Cons have "2 ^ 64 * (limbs_val (ws[j := v]) + 2 ^ (64 * j) * unat (ws ! j))
        = 2 ^ 64 * (limbs_val ws + 2 ^ (64 * j) * unat v)"
      by simp
    then show ?thesis by (simp add: Suc distrib_left power_add mult.assoc)
  qed simp
qed simp

lemma slot_iff:
  "i div 64 = k \<and> P (i mod 64) \<longleftrightarrow> 64 * k \<le> i \<and> i - 64 * k < 64 \<and> P (i - 64 * (k::nat))"
proof -
  have "i div 64 = k \<longleftrightarrow> 64 * k \<le> i \<and> i - 64 * k < 64"
    by linarith
  moreover have "i div 64 = k \<Longrightarrow> i mod 64 = i - 64 * k"
    using minus_mult_div_eq_mod [of i 64] by simp
  ultimately show ?thesis by metis
qed

lemma limbs_val_update_or:
  assumes "k < length ws"
  shows "limbs_val (ws[k := ws ! k OR x]) = limbs_val ws OR push_bit (64 * k) (unat x)"
proof (rule bit_eqI)
  fix i
  have "i div 64 = k \<and> bit x (i mod 64) \<longleftrightarrow> 64 * k \<le> i \<and> bit x (i - 64 * k)"
    using bit64_imp [of x "i - 64 * k"] by (auto simp only: slot_iff)
  then show "bit (limbs_val (ws[k := ws ! k OR x])) i \<longleftrightarrow>
      bit (limbs_val ws OR push_bit (64 * k) (unat x)) i"
    using assms by (auto simp: bits_simps bit_or_iff bit_push_bit_iff bit_unsigned_iff nth_list_update)
qed

subsection \<open>Multiplication\<close>

lemma mul_step_fits:
  fixes a b p :: u64 and c :: u128
  assumes "unat c < 2 ^ 64"
  defines "m \<equiv> (ucast a * ucast b + ucast p + c :: u128)"
  shows "unat m = unat a * unat b + unat p + unat c"
    and "unat (ucast m :: u64) = unat m mod 2 ^ 64"
    and "unat (drop_bit 64 m) = unat m div 2 ^ 64"
    and "unat (drop_bit 64 m) < 2 ^ 64"
proof -
  have "unat a * unat b + unat p + unat c \<le> (2 ^ 64 - 1) * (2 ^ 64 - 1) + (2 ^ 64 - 1) + (2 ^ 64 - 1)"
    using unat_lt64 [of a] unat_lt64 [of b] unat_lt64 [of p] assms(1)
    by (intro add_mono mult_le_mono) simp_all
  also have "\<dots> < 2 ^ 128"
    by simp
  finally have lt: "unat a * unat b + unat p + unat c < 2 ^ 128" .
  have "unat (ucast a :: u128) = unat a" "unat (ucast b :: u128) = unat b" "unat (ucast p :: u128) = unat p"
    by (simp_all add: unsigned_ucast_eq take_bit_nat_eq_self order_less_le_trans [OF unat_lt64])
  then show m: "unat m = unat a * unat b + unat p + unat c"
    using lt by (simp add: m_def unat_word_ariths mod_simps)
  show "unat (ucast m :: u64) = unat m mod 2 ^ 64"
    by (simp add: unsigned_ucast_eq take_bit_eq_mod)
  show "unat (drop_bit 64 m) = unat m div 2 ^ 64"
    by (rule unat_drop_bit)
  then show "unat (drop_bit 64 m) < 2 ^ 64"
    using lt m by (simp add: div_less_iff_less_mult)
qed

lemma length_mul_words_inner [simp]:
  "length (mul_words_inner a bs k product c) = length product"
  by (induction a bs k product c rule: mul_words_inner.induct) (simp_all add: Let_def)

lemma mul_words_inner_val:
  assumes "unat c < 2 ^ 64" "k + length bs = length product"
  shows "limbs_val (mul_words_inner a bs k product c)
    = (limbs_val product + 2 ^ (64 * k) * (unat a * limbs_val bs + unat c)) mod 2 ^ (64 * length product)"
  using assms
proof (induction a bs k product c rule: mul_words_inner.induct)
  case (1 a k product c)
  then show ?case using limbs_val_lt [of product] by simp
next
  case (2 a b bs k product c)
  define m :: u128 where "m = ucast a * ucast b + ucast (product ! k) + c"
  define p' where "p' = product[k := ucast m]"
  note fits = mul_step_fits [OF "2.prems"(1), of a b "product ! k", folded m_def]
  have k: "k < length product" using "2.prems" by simp
  have "limbs_val (mul_words_inner a (b # bs) k product c)
      = (limbs_val p' + 2 ^ (64 * Suc k) * (unat a * limbs_val bs + unat m div 2 ^ 64))
          mod 2 ^ (64 * length product)"
    using "2.IH" [OF m_def] "2.prems"(2) fits(3,4) by (simp add: Let_def p'_def flip: m_def)
  also have "limbs_val p' + 2 ^ (64 * Suc k) * (unat a * limbs_val bs + unat m div 2 ^ 64)
      = limbs_val product + 2 ^ (64 * k) * (unat a * limbs_val (b # bs) + unat c)"
  proof -
    have "limbs_val p' + 2 ^ (64 * k) * unat (product ! k)
        = limbs_val product + 2 ^ (64 * k) * (unat m mod 2 ^ 64)"
      using limbs_val_update [OF k, of "ucast m"] by (simp only: p'_def fits(2))
    moreover have "2 ^ (64 * k) * (unat m mod 2 ^ 64) + 2 ^ (64 * Suc k) * (unat m div 2 ^ 64)
        = 2 ^ (64 * k) * unat m"
      by (simp only: mult_Suc_right power_add mult.assoc mult.left_commute [of "2 ^ 64"]
            distrib_left [symmetric] mod_mult_div_eq)
    ultimately show ?thesis
      by (simp add: fits(1) power_add algebra_simps)
  qed
  finally show ?case .
qed

lemma length_mul_words_outer [simp]: "length (mul_words_outer i as b product) = length product"
  by (induction i as b product rule: mul_words_outer.induct) simp_all

lemma mul_words_outer_val:
  assumes "i + length as = length product" "length b = length product"
  shows "limbs_val (mul_words_outer i as b product)
    = (limbs_val product + 2 ^ (64 * i) * (limbs_val as * limbs_val b)) mod 2 ^ (64 * length product)"
  using assms
proof (induction i as b product rule: mul_words_outer.induct)
  case (1 i b product)
  then show ?case using limbs_val_lt [of product] by simp
next
  case (2 i a as b product)
  define n where "n = length product"
  define M where "M = (2::nat) ^ (64 * n)"
  define p' where "p' = mul_words_inner a (take (n - i) b) i product 0"
  have i: "i < n" "i + length (take (n - i) b) = length product"
    using "2.prems" by (simp_all add: n_def)
  have M: "M = 2 ^ (64 * i) * 2 ^ (64 * (n - i))"
    using i by (simp add: M_def flip: power_add distrib_left)
  have "limbs_val p' = (limbs_val product + 2 ^ (64 * i) * (unat a * (limbs_val b mod 2 ^ (64 * (n - i))))) mod M"
    using mul_words_inner_val [of 0 i "take (n - i) b" product a] i
    by (simp add: p'_def M_def n_def limb_simps)
  also have "\<dots> = (limbs_val product + 2 ^ (64 * i) * (unat a * limbs_val b)) mod M"
    unfolding M by (metis (no_types) mod_add_right_eq mod_mult_mult1 mod_mult_right_eq)
  finally have p': "limbs_val p' = (limbs_val product + 2 ^ (64 * i) * (unat a * limbs_val b)) mod M" .
  have "limbs_val (mul_words_outer i (a # as) b product)
      = (limbs_val p' + 2 ^ (64 * Suc i) * (limbs_val as * limbs_val b)) mod M"
    using "2.IH" "2.prems" by (simp add: p'_def n_def M_def)
  also have "\<dots> = (limbs_val product + 2 ^ (64 * i) * (unat a * limbs_val b)
      + 2 ^ (64 * Suc i) * (limbs_val as * limbs_val b)) mod M"
    unfolding p' by (rule mod_add_left_eq)
  also have "\<dots> = (limbs_val product + 2 ^ (64 * i) * (limbs_val (a # as) * limbs_val b)) mod M"
    by (simp add: power_add algebra_simps)
  finally show ?case by (simp only: M_def n_def)
qed

lemma mul_words_val [limb_simps]:
  "length a = length b \<Longrightarrow>
     limbs_val (mul_words a b) = (limbs_val a * limbs_val b) mod 2 ^ (64 * length b)"
  by (simp add: mul_words_def mul_words_outer_val)

lemma length_mul_words [simp]: "length (mul_words a b) = length a"
  by (simp add: mul_words_def)

subsection \<open>Shifts\<close>

lemma length_shl_words [simp]: "length (shl_words ws s) = length ws"
  by (simp add: shl_words_def Let_def)

lemma length_lshr_words [simp]: "length (lshr_words ws s) = length ws"
  by (simp add: lshr_words_def Let_def)

text \<open>Bit \<open>r\<close> of limb \<open>q\<close> of a shifted vector, as a bit of the vector itself.\<close>

lemma bit_limbs_slot:
  "r < 64 \<Longrightarrow> bit (limbs_val ws) (64 * q + r) \<longleftrightarrow> q < length ws \<and> bit (ws ! q) r"
  by (simp add: bit_limbs_val)

lemma shl_index:
  fixes q r l b :: nat
  assumes "r < 64" "b < 64"
  shows "64 * l + b \<le> 64 * q + r \<longleftrightarrow> (if b \<le> r then l \<le> q else l + 1 \<le> q)"
    and "64 * l + b \<le> 64 * q + r \<Longrightarrow> 64 * q + r - (64 * l + b) =
      (if b \<le> r then 64 * (q - l) + (r - b) else 64 * (q - (l + 1)) + (r + (64 - b)))"
  using assms by auto

lemma bit_shl_words:
  assumes "q < length ws" "r < 64" "b < 64"
  shows "bit (shl_words ws (64 * l + b) ! q) r \<longleftrightarrow>
    64 * l + b \<le> 64 * q + r \<and> bit (limbs_val ws) (64 * q + r - (64 * l + b))"
proof -
  define at where "at = (\<lambda>k. if k \<le> q then ws ! (q - k) else (0 :: u64))"
  have len: "q - k < length ws" for k using assms(1) by simp
  have "shl_words ws (64 * l + b) ! q
      = (if b = 0 then at l else push_bit b (at l) OR drop_bit (64 - b) (at (l + 1)))"
    using assms by (simp add: shl_words_def at_def Let_def)
  then have "bit (shl_words ws (64 * l + b) ! q) r \<longleftrightarrow>
      (if b \<le> r then bit (at l) (r - b) else bit (at (l + 1)) (r + (64 - b)))"
    using assms bit64_imp [of "at (l + 1)" "64 - b + r"]
    by (auto simp: bit_or_iff bit_push_bit_iff bit_drop_bit_eq add.commute)
  also have "\<dots> \<longleftrightarrow> 64 * l + b \<le> 64 * q + r \<and> bit (limbs_val ws) (64 * q + r - (64 * l + b))"
  proof (cases "64 * l + b \<le> 64 * q + r")
    case True
    then have "if b \<le> r then l \<le> q else l + 1 \<le> q"
      using shl_index(1) [OF assms(2,3)] by blast
    then show ?thesis
      unfolding shl_index(2) [OF assms(2,3) True]
      using True len [of l] len [of "l + 1"] assms(2,3)
        bit_limbs_slot [of "r - b" ws "q - l"] bit_limbs_slot [of "r + (64 - b)" ws "q - (l + 1)"]
      by (cases "b \<le> r") (simp_all only: at_def if_True if_False, simp_all)
  next
    case False
    then have "if b \<le> r then \<not> l \<le> q else \<not> l + 1 \<le> q"
      using shl_index(1) [OF assms(2,3), of l q] by (simp split: if_splits)
    then show ?thesis using False by (cases "b \<le> r") (simp_all add: at_def)
  qed
  finally show ?thesis .
qed

lemma shl_words_val [limb_simps]:
  "limbs_val (shl_words ws s) = (limbs_val ws * 2 ^ s) mod 2 ^ (64 * length ws)"
proof (rule bit_eqI)
  fix i
  have "i div 64 < length ws \<longleftrightarrow> i < 64 * length ws"
    by (simp add: div_less_iff_less_mult mult.commute)
  then show "bit (limbs_val (shl_words ws s)) i
      \<longleftrightarrow> bit ((limbs_val ws * 2 ^ s) mod 2 ^ (64 * length ws)) i"
    using bit_shl_words [of "i div 64" ws "i mod 64" "s mod 64" "s div 64"]
    by (auto simp: bit_limbs_val [of "shl_words ws s"] nat_mod_pow_bit bit_push_bit_iff
        simp flip: push_bit_eq_mult)
qed

lemma lshr_index:
  fixes q r l b :: nat
  assumes "r < 64" "b < 64"
  shows "64 * q + r + (64 * l + b) =
    (if b + r < 64 then 64 * (q + l) + (b + r) else 64 * (q + (l + 1)) + (r - (64 - b)))"
  using assms by auto

lemma bit_lshr_words:
  assumes "q < length ws" "r < 64" "b < 64"
  shows "bit (lshr_words ws (64 * l + b) ! q) r \<longleftrightarrow> bit (limbs_val ws) (64 * q + r + (64 * l + b))"
proof -
  define at where "at = (\<lambda>k. if q + k < length ws then ws ! (q + k) else (0 :: u64))"
  have "lshr_words ws (64 * l + b) ! q
      = (if b = 0 then at l else drop_bit b (at l) OR push_bit (64 - b) (at (l + 1)))"
    using assms by (simp add: lshr_words_def at_def Let_def)
  then have "bit (lshr_words ws (64 * l + b) ! q) r \<longleftrightarrow>
      (if b + r < 64 then bit (at l) (b + r) else bit (at (l + 1)) (r - (64 - b)))"
    using assms bit64_imp [of "at l" "b + r"]
    by (auto simp: bit_or_iff bit_push_bit_iff bit_drop_bit_eq add.commute)
  also have "\<dots> \<longleftrightarrow> bit (limbs_val ws) (64 * q + r + (64 * l + b))"
    unfolding lshr_index [OF assms(2,3)]
    using assms(2,3) bit_limbs_slot [of "b + r" ws "q + l"]
      bit_limbs_slot [of "r - (64 - b)" ws "q + (l + 1)"]
    by (cases "b + r < 64") (simp_all only: at_def if_True if_False, simp_all)
  finally show ?thesis .
qed

lemma lshr_words_val [limb_simps]: "limbs_val (lshr_words ws s) = limbs_val ws div 2 ^ s"
proof (rule bit_eqI)
  fix i
  have "bit (limbs_val ws) (i + s) \<Longrightarrow> i div 64 < length ws"
    by (metis add_leD1 bit_limbs_val div_le_mono le_add1 le_less_trans)
  then show "bit (limbs_val (lshr_words ws s)) i \<longleftrightarrow> bit (limbs_val ws div 2 ^ s) i"
    using bit_lshr_words [of "i div 64" ws "i mod 64" "s mod 64" "s div 64"]
    by (auto simp: bit_limbs_val [of "lshr_words ws s"] bit_drop_bit_eq add.commute
        simp flip: drop_bit_eq_div)
qed

subsection \<open>Comparison\<close>

lemma iter_cmp_snoc:
  "length xs = length ys \<Longrightarrow>
     iter_cmp (xs @ [x]) (ys @ [y]) = then_with (iter_cmp xs ys) (cmp x y)"
proof (induction xs ys rule: list_induct2)
  case (Cons u us v vs)
  then show ?case by (cases "cmp u v") simp_all
qed (cases "cmp x y"; simp)

lemma cmp_limb:
  fixes x y :: u64
  shows "cmp (unat x + 2 ^ 64 * X) (unat y + 2 ^ 64 * Y) = then_with (cmp X Y) (cmp x y)"
proof (cases X Y rule: linorder_cases)
  case less
  then have "2 ^ 64 * (X + 1) \<le> 2 ^ 64 * Y" by (intro mult_le_mono2) simp
  then have "unat x + 2 ^ 64 * X < unat y + 2 ^ 64 * Y"
    using unat_lt64 [of x] by simp
  then show ?thesis using less by simp
next
  case equal
  then show ?thesis by (simp add: cmp_def word_less_nat_alt word_unat_eq_iff)
next
  case greater
  then have "2 ^ 64 * (Y + 1) \<le> 2 ^ 64 * X" by (intro mult_le_mono2) simp
  then have "unat y + 2 ^ 64 * Y < unat x + 2 ^ 64 * X"
    using unat_lt64 [of y] by simp
  then show ?thesis using greater by simp
qed

lemma cmp_words_val [limb_simps]:
  "length a = length b \<Longrightarrow> cmp_words a b = cmp (limbs_val a) (limbs_val b)"
proof (induction a b rule: list_induct2)
  case (Cons x xs y ys)
  then show ?case
    by (simp only: cmp_words_def rev.simps iter_cmp_snoc length_rev limbs_val.simps cmp_limb)
qed (simp add: cmp_words_def)

subsection \<open>Division\<close>

text \<open>
  Restoring division: with the bits from \<open>n\<close> up consumed, the remainder is the remainder
  of the dividend's high part and the quotient holds its quotient, shifted to place.
\<close>

lemma or_one_even: "even (n::nat) \<Longrightarrow> n OR of_bool c = n + of_bool c"
  by (rule disjunctive_add_eq_or [symmetric]) (cases c; simp add: and_Suc_0_eq)

lemma or_pow_clear: "\<not> bit (n::nat) k \<Longrightarrow> n OR 2 ^ k = n + 2 ^ k"
  by (rule disjunctive_add_eq_or [symmetric]) (simp add: and_exp_eq_0_iff_not_bit)

lemma divrem_remainder_step:
  assumes "rem \<noteq> []" "2 * limbs_val rem < 2 ^ (64 * length rem)" "bt div 64 < length a"
  defines "r \<equiv> shl_words rem 1"
  shows "limbs_val (r[0 := r ! 0 OR (drop_bit (bt mod 64) (a ! (bt div 64)) AND 1)])
    = 2 * limbs_val rem + of_bool (bit (limbs_val a) bt)"
proof -
  have r: "limbs_val r = 2 * limbs_val rem"
    using assms(2) by (simp add: r_def limb_simps mult.commute)
  have b: "unat (drop_bit (bt mod 64) (a ! (bt div 64)) AND 1) = of_bool (bit (limbs_val a) bt)"
    using assms(3) by (simp add: and_one_eq bit_limbs_val mod_2_eq_odd flip: bit_iff_odd_drop_bit)
  have "limbs_val (r[0 := r ! 0 OR (drop_bit (bt mod 64) (a ! (bt div 64)) AND 1)])
      = limbs_val r OR of_bool (bit (limbs_val a) bt)"
    using assms(1) by (subst limbs_val_update_or) (simp_all only: r_def length_shl_words b, simp_all)
  then show ?thesis by (simp add: r or_one_even)
qed

lemma divrem_quotient_step:
  assumes "bt div 64 < length quot" "\<not> bit (limbs_val quot) bt"
  shows "limbs_val (quot[bt div 64 := quot ! (bt div 64) OR push_bit (bt mod 64) 1])
    = limbs_val quot + 2 ^ bt"
proof -
  have "push_bit (64 * (bt div 64)) (unat (push_bit (bt mod 64) 1 :: u64)) = (2::nat) ^ bt"
    unfolding unat_push_bit_1 [OF mod_less_divisor [OF zero_less_numeral]]
    by (simp only: push_bit_eq_mult power_add [symmetric] mod_mult_div_eq)
  then show ?thesis
    using assms by (simp only: limbs_val_update_or or_pow_clear not_False_eq_True)
qed

lemma div_mod_double:
  fixes A D n :: nat
  defines "h \<equiv> A div 2 ^ Suc n"
  defines "r \<equiv> 2 * (h mod D) + of_bool (bit A n)"
  assumes D: "0 < D"
  shows "(A div 2 ^ n) mod D = (if D \<le> r then r - D else r)"
    and "(A div 2 ^ n) div D = 2 * (h div D) + of_bool (D \<le> r)"
proof -
  have h: "A div 2 ^ n = 2 * h + of_bool (bit A n)"
    unfolding h_def bit_iff_odd power_Suc2 div_mult2_eq by (cases "odd (A div 2 ^ n)") simp_all
  have "h = h div D * D + h mod D" by simp
  then have "2 * h = 2 * (h div D) * D + 2 * (h mod D)" by (metis distrib_left mult.assoc)
  then have eq: "A div 2 ^ n = r + (2 * (h div D)) * D" using h by (simp add: r_def)
  have "h mod D < D" using D by simp
  then have "r < 2 * D" by (cases "bit A n") (simp_all add: r_def)
  then show "(A div 2 ^ n) mod D = (if D \<le> r then r - D else r)"
    unfolding eq mod_mult_self1 by (cases "D \<le> r") (simp_all add: le_mod_geq)
  show "(A div 2 ^ n) div D = 2 * (h div D) + of_bool (D \<le> r)"
    unfolding eq div_mult_self1 [OF D [THEN less_imp_neq, symmetric]]
    using \<open>r < 2 * D\<close> D by (cases "D \<le> r") (simp_all add: div_nat_eqI)
qed

lemma divrem_loop_val:
  assumes D: "0 < limbs_val b" and len: "length b = length a" and w: "n \<le> 64 * length a"
    and lens: "length quot = length a" "length rem = length a + 1"
    and rem: "limbs_val rem = (limbs_val a div 2 ^ n) mod limbs_val b"
    and quot: "limbs_val quot = 2 ^ n * ((limbs_val a div 2 ^ n) div limbs_val b)"
    and res: "divrem_loop a (b @ [0]) n quot rem = (q, r)"
  shows "limbs_val q = limbs_val a div limbs_val b \<and> limbs_val r = limbs_val a mod limbs_val b \<and>
    length q = length a \<and> length r = length a + 1"
  using w lens rem quot res
proof (induction n arbitrary: quot rem)
  case (Suc bt)
  let ?A = "limbs_val a" and ?D = "limbs_val b"
  let ?sh = "shl_words rem 1"
  let ?r = "2 * limbs_val rem + of_bool (bit ?A bt)"
  define rem' where "rem' = ?sh[0 := ?sh ! 0 OR (drop_bit (bt mod 64) (a ! (bt div 64)) AND 1)]"
  define quot' where "quot' = quot[bt div 64 := quot ! (bt div 64) OR push_bit (bt mod 64) 1]"
  have slot: "bt div 64 < length a"
    using Suc.prems(1) by (simp add: div_less_iff_less_mult)
  have "limbs_val rem < ?D" using D Suc.prems(4) by simp
  have Dlt: "?D < 2 ^ (64 * length a)" using limbs_val_lt [of b] len by simp
  have "(2::nat) ^ (64 * length rem) = 2 ^ 64 * 2 ^ (64 * length a)"
    by (simp add: Suc.prems(3) power_add)
  then have fits: "2 * ?D < 2 ^ (64 * length rem)" using Dlt by simp
  have rem': "limbs_val rem' = ?r"
    unfolding rem'_def using slot Suc.prems(3) fits \<open>limbs_val rem < ?D\<close>
    by (intro divrem_remainder_step) auto
  note dm = div_mod_double [OF D, of ?A bt, folded Suc.prems(4)]
  have cl: "length rem' = length (b @ [0])" and Db: "limbs_val (b @ [0]) = ?D"
    by (simp_all add: rem'_def Suc.prems(3) len limb_simps)
  then have cmp: "cmp_words rem' (b @ [0]) \<noteq> Less \<longleftrightarrow> ?D \<le> ?r"
    using cmp_words_val [OF cl] by (simp add: rem' not_less)
  have "\<not> bit (limbs_val quot) bt"
    unfolding Suc.prems(5) by (simp add: bit_iff_odd power_Suc2 mult.assoc)
  then have quot': "limbs_val quot' = limbs_val quot + 2 ^ bt"
    unfolding quot'_def using slot Suc.prems(2) by (intro divrem_quotient_step) simp_all
  have qq: "2 ^ bt * (?A div 2 ^ bt div ?D) = limbs_val quot + 2 ^ bt * of_bool (?D \<le> ?r)"
    unfolding dm(2) Suc.prems(5) by (simp add: algebra_simps)
  show ?case
  proof (cases "?D \<le> ?r")
    case True
    then have "limbs_val (sub_words rem' (b @ [0])) = ?A div 2 ^ bt mod ?D"
      using sub_words_le [OF cl] dm(1) by (simp add: Db rem')
    moreover have "divrem_loop a (b @ [0]) bt quot' (sub_words rem' (b @ [0])) = (q, r)"
      using Suc.prems(6) cmp True by (simp add: Let_def rem'_def quot'_def)
    ultimately show ?thesis
      using Suc.IH [of quot' "sub_words rem' (b @ [0])"] Suc.prems quot' qq True cl
      by (simp add: quot'_def len)
  next
    case False
    have "divrem_loop a (b @ [0]) bt quot rem' = (q, r)"
      using Suc.prems(6) cmp False by (simp add: Let_def rem'_def)
    then show ?thesis
      using Suc.IH [of quot rem'] Suc.prems qq False rem' dm(1) cl len by simp
  qed
qed simp_all

lemma divrem_words_val:
  assumes "0 < limbs_val b" "length b = length a" "w \<le> 64 * length a" "limbs_val a < 2 ^ w"
    and "divrem_words a b w = (q, r)"
  shows "limbs_val q = limbs_val a div limbs_val b" "limbs_val r = limbs_val a mod limbs_val b"
    "length q = length a" "length r = length a"
proof -
  obtain r' where loop:
    "divrem_loop a (b @ [0]) w (replicate (length a) 0) (replicate (length a + 1) 0) = (q, r')"
    and r: "r = butlast r'"
    using assms(5) by (auto simp: divrem_words_def Let_def split: prod.splits)
  have z: "limbs_val a div 2 ^ w = 0" using assms(4) by simp
  note val = divrem_loop_val [OF assms(1-3) _ _ _ _ loop, unfolded z, simplified]
  then show "limbs_val q = limbs_val a div limbs_val b" "length q = length a"
    by simp_all
  have "limbs_val a mod limbs_val b < 2 ^ (64 * length a)"
    using limbs_val_lt [of b] mod_less_divisor [OF assms(1), of "limbs_val a"]
    unfolding assms(2) by (rule less_trans [rotated])
  moreover have "r' \<noteq> []" using val by auto
  ultimately show "limbs_val r = limbs_val a mod limbs_val b" "length r = length a"
    using val limbs_val_butlast [of r'] by (simp_all add: r)
qed

end
