(* ===== verification/APInt.thy ===== *)
theory APInt
  imports Limbs
begin

text \<open>
  The arbitrary-precision integer of \<open>libs/adt/src/apint.rs\<close>: its structure, its
  constructors and views, width changes, shifts and bitwise operations. A value of at most 64
  bits is one word; a wider one keeps the limbs above its low word beside it. Widths are
  natural numbers (the source's \<open>u64\<close>: no value whose limbs fit in memory has a width near
  \<open>2 ^ 63\<close>, so sums and doublings of widths do not wrap). A failed \<open>assert!\<close> is
  \<open>None\<close>.

  \<open>ap_wf\<close> is the type invariant the source states for \<open>high\<close>; \<open>ap_uval\<close> reads a
  value as a natural number, \<open>ap_of\<close> is the value of a given width, flag and number, and
  every operation is shown to be \<open>ap_of\<close> of the arithmetic on \<open>ap_uval\<close>.
\<close>

type_synonym i64 = "64 word"

record APInt =
  ap_width :: nat
  ap_signed :: bool
  ap_value :: u64
  ap_high :: "u64 list option"

subsection \<open>Constructors\<close>

definition mask_for_width :: "nat \<Rightarrow> u64" where
  "mask_for_width width = (if 64 \<le> width then - 1 else push_bit width 1 - 1)"

definition from_words :: "nat \<Rightarrow> bool \<Rightarrow> u64 list \<Rightarrow> APInt option" where
  "from_words width sgd words =
     (let words = resize words (limb_count width) 0;
          top = length words - 1;
          words = (if words = [] then words
                   else words[top := words ! top AND mask_for_width (width - 64 * (limb_count width - 1))]);
          high = (if 64 < width then Some (tl words) else None)
      in case words of
           [] \<Rightarrow> None
         | value # _ \<Rightarrow>
             Some \<lparr>ap_width = width, ap_signed = sgd, ap_value = value, ap_high = high\<rparr>)"

definition ap_new :: "nat \<Rightarrow> u64 \<Rightarrow> APInt option" where
  "ap_new width value =
     (if width = 0 then None
      else if 64 < width then from_words width False [value]
      else Some \<lparr>ap_width = width, ap_signed = False,
                 ap_value = value AND mask_for_width width, ap_high = None\<rparr>)"

definition ap_new_signed :: "nat \<Rightarrow> i64 \<Rightarrow> APInt option" where
  "ap_new_signed width value =
     (if width = 0 then None
      else if 64 < width then
        (let fill = (if sint value < 0 then - 1 else 0);
             words = replicate (limb_count width) fill
         in from_words width True (words[0 := value]))
      else Some \<lparr>ap_width = width, ap_signed = True,
                 ap_value = value AND mask_for_width width, ap_high = None\<rparr>)"

definition ap_from_limbs :: "nat \<Rightarrow> u64 list \<Rightarrow> APInt option" where
  "ap_from_limbs width limbs = (if width = 0 then None else from_words width False limbs)"

definition ap_limbs :: "APInt \<Rightarrow> u64 list" where
  "ap_limbs a = ap_value a # (case ap_high a of None \<Rightarrow> [] | Some high \<Rightarrow> high)"

definition ap_from_u64 :: "u64 \<Rightarrow> APInt option" where
  "ap_from_u64 value = ap_new 64 value"

definition ap_from_i64 :: "i64 \<Rightarrow> APInt option" where
  "ap_from_i64 value = ap_new_signed 64 value"

definition ap_zero :: "nat \<Rightarrow> APInt option" where
  "ap_zero width = ap_new width 0"

definition ap_one :: "nat \<Rightarrow> APInt option" where
  "ap_one width = ap_new width 1"

subsection \<open>Views\<close>

definition ap_to_u64 :: "APInt \<Rightarrow> u64" where
  "ap_to_u64 a = ap_value a"

definition ap_high_limbs :: "APInt \<Rightarrow> u64 list" where
  "ap_high_limbs a = (case ap_high a of None \<Rightarrow> [] | Some high \<Rightarrow> high)"

definition ap_bit :: "APInt \<Rightarrow> nat \<Rightarrow> bool" where
  "ap_bit a index =
     (let limb = (if index div 64 = 0 then ap_value a
                  else case ap_high a of None \<Rightarrow> 0 | Some high \<Rightarrow> high ! (index div 64 - 1))
      in drop_bit (index mod 64) limb AND 1 \<noteq> 0)"

definition ap_top_bit :: "APInt \<Rightarrow> bool" where
  "ap_top_bit a = ap_bit a (ap_width a - 1)"

definition ap_is_negative :: "APInt \<Rightarrow> bool" where
  "ap_is_negative a = (ap_signed a \<and> ap_top_bit a)"

definition ap_is_zero :: "APInt \<Rightarrow> bool" where
  "ap_is_zero a =
     (ap_value a = 0 \<and> (case ap_high a of None \<Rightarrow> True | Some high \<Rightarrow> list_all (\<lambda>limb. limb = 0) high))"

definition ap_to_i64 :: "APInt \<Rightarrow> i64" where
  "ap_to_i64 a =
     (if ap_signed a \<and> ap_is_negative a
      then ap_value a OR (if 64 \<le> ap_width a then 0 else push_bit (ap_width a) (- 1))
      else ap_value a)"

definition ap_signed_at_width :: "APInt \<Rightarrow> i64" where
  "ap_signed_at_width a =
     (if 64 \<le> ap_width a then ap_value a
      else let shift = 64 - ap_width a in signed_drop_bit shift (push_bit shift (ap_value a)))"

definition ap_with_signed :: "APInt \<Rightarrow> bool \<Rightarrow> APInt" where
  "ap_with_signed a sgd = a\<lparr>ap_signed := sgd\<rparr>"

subsection \<open>Width changes\<close>

definition ap_zero_extend :: "APInt \<Rightarrow> nat \<Rightarrow> APInt option" where
  "ap_zero_extend a new_width =
     (if new_width < ap_width a then None else from_words new_width False (ap_limbs a))"

definition ap_sign_extend :: "APInt \<Rightarrow> nat \<Rightarrow> APInt option" where
  "ap_sign_extend a new_width =
     (if new_width < ap_width a then None
      else if \<not> ap_is_negative a then from_words new_width (ap_signed a) (ap_limbs a)
      else
        (let words = ap_limbs a;
             top = length words - 1;
             words = words[top := words ! top OR NOT (mask_for_width (ap_width a - 64 * top))]
         in from_words new_width True (resize words (limb_count new_width) (- 1))))"

definition ap_truncate :: "APInt \<Rightarrow> nat \<Rightarrow> APInt option" where
  "ap_truncate a new_width =
     (if ap_width a < new_width then None else from_words new_width (ap_signed a) (ap_limbs a))"

definition ap_extract_bits :: "APInt \<Rightarrow> nat \<Rightarrow> nat \<Rightarrow> APInt option" where
  "ap_extract_bits a high low =
     (if high < low then None
      else if ap_width a \<le> high then None
      else
        (let new_width = high - low + 1
         in if 64 < ap_width a then from_words new_width False (lshr_words (ap_limbs a) low)
            else Some \<lparr>ap_width = new_width, ap_signed = False,
                       ap_value = drop_bit low (ap_value a) AND mask_for_width new_width,
                       ap_high = None\<rparr>))"

subsection \<open>Shifts\<close>

definition ap_shl :: "APInt \<Rightarrow> nat \<Rightarrow> APInt option" where
  "ap_shl a shift =
     (if ap_width a \<le> shift then ap_zero (ap_width a)
      else if 64 < ap_width a then
        from_words (ap_width a) (ap_signed a) (shl_words (ap_limbs a) shift)
      else Some \<lparr>ap_width = ap_width a, ap_signed = ap_signed a,
                 ap_value = push_bit shift (ap_value a) AND mask_for_width (ap_width a),
                 ap_high = None\<rparr>)"

definition ap_lshr :: "APInt \<Rightarrow> nat \<Rightarrow> APInt option" where
  "ap_lshr a shift =
     (if ap_width a \<le> shift then ap_zero (ap_width a)
      else if 64 < ap_width a then
        from_words (ap_width a) False (lshr_words (ap_limbs a) shift)
      else Some \<lparr>ap_width = ap_width a, ap_signed = False,
                 ap_value = drop_bit shift (ap_value a), ap_high = None\<rparr>)"

definition ap_not :: "APInt \<Rightarrow> APInt option" where
  "ap_not a =
     (if 64 < ap_width a then from_words (ap_width a) (ap_signed a) (map (\<lambda>limb. NOT limb) (ap_limbs a))
      else Some \<lparr>ap_width = ap_width a, ap_signed = ap_signed a,
                 ap_value = NOT (ap_value a) AND mask_for_width (ap_width a), ap_high = None\<rparr>)"

definition ap_ashr :: "APInt \<Rightarrow> nat \<Rightarrow> APInt option" where
  "ap_ashr a shift =
     (if shift = 0 then Some a
      else if 64 < ap_width a then
        (if \<not> ap_is_negative a then ap_lshr a shift
         else do {
           inverted \<leftarrow> ap_not a;
           shifted \<leftarrow> ap_lshr inverted shift;
           filled \<leftarrow> ap_not shifted;
           Some (ap_with_signed filled (ap_signed a))
         })
      else if ap_width a \<le> shift then
        (if ap_is_negative a
         then Some \<lparr>ap_width = ap_width a, ap_signed = ap_signed a,
                    ap_value = mask_for_width (ap_width a), ap_high = None\<rparr>
         else ap_zero (ap_width a))
      else if ap_signed a \<and> ap_is_negative a then
        (let mask = mask_for_width (ap_width a);
             sign_extension = push_bit (ap_width a - shift) mask AND mask
         in Some \<lparr>ap_width = ap_width a, ap_signed = ap_signed a,
                  ap_value = drop_bit shift (ap_value a) OR sign_extension, ap_high = None\<rparr>)
      else ap_lshr a shift)"

definition ap_max_value :: "nat \<Rightarrow> bool \<Rightarrow> APInt option" where
  "ap_max_value width sgd =
     (if 64 < width then do {
        ones \<leftarrow> from_words width sgd (replicate (limb_count width) (- 1));
        if sgd then do {
          shifted \<leftarrow> ap_lshr ones 1;
          Some (ap_with_signed shifted True)
        } else Some ones
      }
      else if sgd then
        (if width = 0 then None
         else let mask = mask_for_width width; sign_bit = push_bit (width - 1) 1
              in Some \<lparr>ap_width = width, ap_signed = True,
                       ap_value = mask AND NOT sign_bit, ap_high = None\<rparr>)
      else Some \<lparr>ap_width = width, ap_signed = False,
                 ap_value = mask_for_width width, ap_high = None\<rparr>)"

subsection \<open>Bitwise operations\<close>

definition ap_limbwise :: "APInt \<Rightarrow> APInt \<Rightarrow> (u64 \<Rightarrow> u64 \<Rightarrow> u64) \<Rightarrow> APInt option" where
  "ap_limbwise a b f =
     (if ap_width a \<noteq> ap_width b then None
      else from_words (ap_width a) (ap_signed a \<and> ap_signed b)
             (map (\<lambda>(x, y). f x y) (zip (ap_limbs a) (ap_limbs b))))"

definition ap_and :: "APInt \<Rightarrow> APInt \<Rightarrow> APInt option" where
  "ap_and a b =
     (if 64 < ap_width a then ap_limbwise a b (AND)
      else if ap_width a \<noteq> ap_width b then None
      else Some \<lparr>ap_width = ap_width a, ap_signed = ap_signed a \<and> ap_signed b,
                 ap_value = ap_value a AND ap_value b, ap_high = None\<rparr>)"

definition ap_or :: "APInt \<Rightarrow> APInt \<Rightarrow> APInt option" where
  "ap_or a b =
     (if 64 < ap_width a then ap_limbwise a b (OR)
      else if ap_width a \<noteq> ap_width b then None
      else Some \<lparr>ap_width = ap_width a, ap_signed = ap_signed a \<and> ap_signed b,
                 ap_value = ap_value a OR ap_value b, ap_high = None\<rparr>)"

definition ap_xor :: "APInt \<Rightarrow> APInt \<Rightarrow> APInt option" where
  "ap_xor a b =
     (if 64 < ap_width a then ap_limbwise a b (XOR)
      else if ap_width a \<noteq> ap_width b then None
      else Some \<lparr>ap_width = ap_width a, ap_signed = ap_signed a \<and> ap_signed b,
                 ap_value = ap_value a XOR ap_value b, ap_high = None\<rparr>)"

subsection \<open>The invariant and the number a value stands for\<close>

definition ap_wf :: "APInt \<Rightarrow> bool" where
  "ap_wf a \<longleftrightarrow> 0 < ap_width a \<and> (ap_high a = None \<longleftrightarrow> ap_width a \<le> 64) \<and>
     length (ap_limbs a) = limb_count (ap_width a) \<and> limbs_val (ap_limbs a) < 2 ^ ap_width a"

definition ap_uval :: "APInt \<Rightarrow> nat" where
  "ap_uval a = limbs_val (ap_limbs a)"

definition ap_sval :: "APInt \<Rightarrow> int" where
  "ap_sval a = (if bit (ap_uval a) (ap_width a - 1) then int (ap_uval a) - 2 ^ ap_width a
                else int (ap_uval a))"

fun limbs_of :: "nat \<Rightarrow> nat \<Rightarrow> u64 list" where
  "limbs_of 0 n = []"
| "limbs_of (Suc k) n = of_nat n # limbs_of k (n div 2 ^ 64)"

definition ap_of :: "nat \<Rightarrow> bool \<Rightarrow> nat \<Rightarrow> APInt" where
  "ap_of width sgd n =
     (let words = limbs_of (limb_count width) (n mod 2 ^ width)
      in \<lparr>ap_width = width, ap_signed = sgd, ap_value = hd words,
          ap_high = (if 64 < width then Some (tl words) else None)\<rparr>)"

subsection \<open>Masks, limbs of a number, and the canonical value\<close>

lemma bit_mask_for_width [bits_simps]: "bit (mask_for_width w) i \<longleftrightarrow> i < w \<and> i < 64"
  by (auto simp: mask_for_width_def bit_mask_iff simp flip: mask_eq_exp_minus_1 mask_eq_decr_exp)

lemma unat_and_mask: "w \<le> 64 \<Longrightarrow> unat (x AND mask_for_width w) = unat x mod 2 ^ w"
  by (rule bit_eqI) (auto simp: bits_simps bit_and_iff bit_unsigned_iff dest: bit64_imp)

lemma length_limbs_of [simp]: "length (limbs_of k n) = k"
  by (induction k n rule: limbs_of.induct) simp_all

lemma limbs_of_val: "limbs_val (limbs_of k n) = n mod 2 ^ (64 * k)"
proof (induction k n rule: limbs_of.induct)
  case (2 k n)
  have "limbs_val (limbs_of (Suc k) n) = n mod 2 ^ 64 + 2 ^ 64 * ((0 + n div 2 ^ 64) mod 2 ^ (64 * k))"
    unfolding limbs_of.simps limbs_val.simps 2 by (simp add: unat_of_nat)
  also have "\<dots> = n mod 2 ^ (64 * Suc k)"
    unfolding mod_step_nat by (simp add: power_add)
  finally show ?case .
qed simp

lemma limbs_of_unique:
  "length ws = k \<Longrightarrow> limbs_val ws = n \<Longrightarrow> limbs_of k n = ws"
  by (rule limbs_val_inject) (use limbs_val_lt [of ws] in \<open>auto simp: limbs_of_val\<close>)

lemma limbs_of_nonempty: "0 < w \<Longrightarrow> limbs_of (limb_count w) n \<noteq> []"
  using length_limbs_of [of "limb_count w" n] limb_count_pos [of w] by (metis length_greater_0_conv)

lemma ap_of_simps [simp]:
  "ap_width (ap_of w s n) = w" "ap_signed (ap_of w s n) = s"
  by (simp_all add: ap_of_def Let_def)

lemma ap_limbs_of: "0 < w \<Longrightarrow> ap_limbs (ap_of w s n) = limbs_of (limb_count w) (n mod 2 ^ w)"
proof -
  assume w: "0 < w"
  let ?ws = "limbs_of (limb_count w) (n mod 2 ^ w)"
  obtain x xs where ws: "?ws = x # xs"
    using limbs_of_nonempty [OF w] by (cases ?ws) auto
  have "\<not> 64 < w \<Longrightarrow> xs = []"
    using limb_count_eq_1 [OF w] ws length_limbs_of [of "limb_count w" "n mod 2 ^ w"] by auto
  then show ?thesis using ws by (auto simp: ap_limbs_def ap_of_def Let_def)
qed

lemma ap_of_uval: "0 < w \<Longrightarrow> ap_uval (ap_of w s n) = n mod 2 ^ w"
proof -
  assume "0 < w"
  moreover have "n mod 2 ^ w < 2 ^ (64 * limb_count w)"
    using limb_count_bounds(1) [of w] by (meson le_less_trans mod_less_divisor
        less_le_trans one_le_numeral power_increasing zero_less_numeral zero_less_power)
  ultimately show ?thesis
    by (simp add: ap_uval_def ap_limbs_of limbs_of_val)
qed

lemma ap_of_wf: "0 < w \<Longrightarrow> ap_wf (ap_of w s n)"
  using ap_of_uval [of w s n]
  by (simp add: ap_wf_def ap_limbs_of ap_uval_def) (simp add: ap_of_def Let_def)

lemma ap_wf_pos: "ap_wf a \<Longrightarrow> 0 < ap_width a"
  by (simp add: ap_wf_def)

lemma ap_uval_lt: "ap_wf a \<Longrightarrow> ap_uval a < 2 ^ ap_width a"
  by (simp add: ap_wf_def ap_uval_def)

lemma ap_limbs_length: "ap_wf a \<Longrightarrow> length (ap_limbs a) = limb_count (ap_width a)"
  by (simp add: ap_wf_def)

text \<open>A well-formed value is determined by its width, its flag and its number.\<close>

lemma ap_eqI:
  assumes wf: "ap_wf a" "ap_wf b" and eq: "ap_width a = ap_width b" "ap_signed a = ap_signed b"
    "ap_uval a = ap_uval b"
  shows "a = b"
proof -
  have "ap_limbs a = ap_limbs b"
    using wf eq by (intro limbs_val_inject) (simp_all add: ap_wf_def ap_uval_def)
  moreover have "ap_high a = None \<longleftrightarrow> ap_high b = None"
    using wf eq by (simp add: ap_wf_def)
  ultimately show ?thesis using eq
    by (intro APInt.equality) (auto simp: ap_limbs_def split: option.splits)
qed

lemma ap_of_self: "ap_wf a \<Longrightarrow> ap_of (ap_width a) (ap_signed a) (ap_uval a) = a"
  using ap_wf_pos [of a] ap_uval_lt [of a]
  by (intro ap_eqI) (simp_all add: ap_of_wf ap_of_uval)

lemma ap_of_cong_mod: "0 < w \<Longrightarrow> m mod 2 ^ w = n mod 2 ^ w \<Longrightarrow> ap_of w s m = ap_of w s n"
  by (simp add: ap_of_def)

lemma ap_of_eq_iff: "0 < w \<Longrightarrow> ap_of w s m = ap_of w t n \<longleftrightarrow> s = t \<and> m mod 2 ^ w = n mod 2 ^ w"
  by (auto dest: arg_cong [of _ _ ap_signed] arg_cong [of _ _ ap_uval] intro: ap_of_cong_mod
      simp: ap_of_uval)

lemma from_words_bits:
  fixes words :: "u64 list"
  assumes "0 < w"
  defines "k \<equiv> limb_count w"
  defines "ws \<equiv> resize words k 0"
  shows "limbs_val (ws[k - 1 := ws ! (k - 1) AND mask_for_width (w - 64 * (k - 1))])
    = limbs_val words mod 2 ^ w"
proof (rule bit_eqI)
  fix i :: nat
  define q r where "q = i div 64" and "r = i mod 64"
  have i: "i = 64 * q + r" "r < 64" by (simp_all add: q_def r_def)
  have k: "0 < k" "w \<le> 64 * k" "64 * (k - 1) < w"
    using assms(1) limb_count_bounds [of w] by (simp_all add: k_def)
  have top: "q = k - 1 \<Longrightarrow> i < w \<longleftrightarrow> r < w - 64 * (k - 1)"
    using i by linarith
  have low: "q < k - 1 \<Longrightarrow> i < w"
    using i k by (metis (no_types, lifting) add_mono_thms_linordered_field(4) div_less_iff_less_mult
        less_trans mult.commute not_less_iff_gr_or_eq q_def zero_less_numeral)
  have high: "\<not> q < k \<Longrightarrow> \<not> i < w"
    using i k by (metis limb_index_lt k_def q_def)
  have "bit (limbs_val (ws[k - 1 := ws ! (k - 1) AND mask_for_width (w - 64 * (k - 1))])) i \<longleftrightarrow>
      q < k \<and> bit (ws ! q) r \<and> (q = k - 1 \<longrightarrow> r < w - 64 * (k - 1))"
    using k i(2) by (auto simp: bit_limbs_val ws_def nth_list_update bit_and_iff bits_simps
        simp flip: q_def r_def)
  also have "\<dots> \<longleftrightarrow> i < w \<and> bit (limbs_val words) i"
  proof (cases "q < k")
    case True
    then have "i < w \<longleftrightarrow> (q = k - 1 \<longrightarrow> r < w - 64 * (k - 1))"
      using top low by (cases "q = k - 1") auto
    then show ?thesis
      using True by (auto simp: bit_limbs_val ws_def nth_resize simp flip: q_def r_def)
  qed (use high in auto)
  finally show "bit (limbs_val (ws[k - 1 := ws ! (k - 1) AND mask_for_width (w - 64 * (k - 1))])) i
      \<longleftrightarrow> bit (limbs_val words mod 2 ^ w) i"
    by (simp add: nat_mod_pow_bit)
qed

lemma from_words_eq: "0 < w \<Longrightarrow> from_words w s words = Some (ap_of w s (limbs_val words))"
proof -
  assume w: "0 < w"
  define k where "k = limb_count w"
  define ws where "ws = resize words k 0"
  define ws' where "ws' = ws[k - 1 := ws ! (k - 1) AND mask_for_width (w - 64 * (k - 1))]"
  have k: "0 < k" using w by (simp add: k_def)
  then have ne: "ws \<noteq> []" "ws' \<noteq> []" "length ws = k" "length ws' = k"
    by (auto simp: ws_def ws'_def resize_def)
  have "limbs_of k (limbs_val words mod 2 ^ w) = ws'"
    using from_words_bits [OF w, of words] ne
    by (intro limbs_of_unique) (simp_all add: ws'_def ws_def k_def)
  moreover have "from_words w s words = (case ws' of [] \<Rightarrow> None
      | v # _ \<Rightarrow> Some \<lparr>ap_width = w, ap_signed = s, ap_value = v,
          ap_high = (if 64 < w then Some (tl ws') else None)\<rparr>)"
    unfolding from_words_def Let_def k_def [symmetric] ws_def [symmetric]
    using ne by (simp only: ws'_def if_False)
  ultimately show ?thesis
    using ne by (cases ws') (simp_all add: ap_of_def Let_def flip: k_def)
qed

lemma narrow_eq:
  assumes "0 < w" "w \<le> 64" "unat v = n mod 2 ^ w"
  shows "\<lparr>ap_width = w, ap_signed = s, ap_value = v, ap_high = None\<rparr> = ap_of w s n"
proof (rule ap_eqI)
  show "ap_wf \<lparr>ap_width = w, ap_signed = s, ap_value = v, ap_high = None\<rparr>"
    using assms limb_count_eq_1 by (simp add: ap_wf_def ap_limbs_def)
qed (use assms in \<open>simp_all add: ap_of_wf ap_of_uval\<close>, simp add: ap_uval_def ap_limbs_def)

lemma narrow_uval: "ap_wf a \<Longrightarrow> ap_width a \<le> 64 \<Longrightarrow> ap_uval a = unat (ap_value a)"
  by (auto simp: ap_uval_def ap_limbs_def ap_wf_def)

subsection \<open>Constructors build the number\<close>

named_theorems ap_ops \<open>operations on well-formed values as canonical values\<close>

lemma ap_new_eq [ap_ops]: "0 < w \<Longrightarrow> ap_new w v = Some (ap_of w False (unat v))"
  by (auto simp: ap_new_def from_words_eq unat_and_mask intro!: narrow_eq)

lemma ap_zero_eq [ap_ops]: "0 < w \<Longrightarrow> ap_zero w = Some (ap_of w False 0)"
  by (simp add: ap_zero_def ap_new_eq)

lemma ap_one_eq [ap_ops]: "0 < w \<Longrightarrow> ap_one w = Some (ap_of w False 1)"
  by (simp add: ap_one_def ap_new_eq)

lemma ap_from_limbs_eq [ap_ops]: "0 < w \<Longrightarrow> ap_from_limbs w ws = Some (ap_of w False (limbs_val ws))"
  by (simp add: ap_from_limbs_def from_words_eq)

lemma limbs_val_ones: "limbs_val (replicate k (- 1)) = 2 ^ (64 * k) - 1"
proof (rule bit_eqI)
  fix i
  have "i div 64 < k \<longleftrightarrow> i < 64 * k"
    by (simp add: div_less_iff_less_mult mult.commute)
  then show "bit (limbs_val (replicate k (- 1))) i \<longleftrightarrow> bit (2 ^ (64 * k) - 1 :: nat) i"
    unfolding mask_eq_exp_minus_1 [symmetric] by (auto simp: bit_limbs_val bit_mask_iff)
qed

lemma mod_pow_le: "m \<le> n \<Longrightarrow> (x mod 2 ^ n) mod 2 ^ m = (x :: int) mod 2 ^ m"
  by (simp add: mod_mod_cancel le_imp_power_dvd)

lemma sint_eq_uint: "sint (v :: i64) = uint v - (if sint v < 0 then 2 ^ 64 else 0)"
  using sint_uint [of v] uint_range64 [of v]
  by (simp add: signed_take_bit_eq_take_bit_minus take_bit_int_eq_self bit_uint_iff not_le
      split: if_splits)

lemma ap_new_signed_eq [ap_ops]:
  assumes w: "0 < w"
  shows "ap_new_signed w v = Some (ap_of w True (nat (sint v mod 2 ^ w)))"
proof (cases "64 < w")
  case True
  define k where "k = limb_count w"
  define fill :: u64 where "fill = (if sint v < 0 then - 1 else 0)"
  obtain j where k: "k = Suc j" using w by (metis k_def limb_count_pos gr0_implies_Suc)
  have "int (limbs_val (v # replicate j fill)) mod 2 ^ (64 * k) = sint v mod 2 ^ (64 * k)"
  proof (cases "sint v < 0")
    case True
    have "int (limbs_val (v # replicate j fill)) = uint v + 2 ^ 64 * (2 ^ (64 * j) - 1)"
      using True by (simp add: fill_def limbs_val_ones of_nat_diff)
    also have "\<dots> = sint v + 2 ^ (64 * k)"
      using True sint_eq_uint [of v] by (simp add: k power_add algebra_simps)
    finally show ?thesis by simp
  next
    case False
    then show ?thesis using sint_eq_uint [of v] by (simp add: fill_def)
  qed
  from arg_cong [OF this, of "\<lambda>x. x mod 2 ^ w"]
  have "int (limbs_val (v # replicate j fill) mod 2 ^ w) = sint v mod 2 ^ w"
    using limb_count_bounds(1) [of w] by (simp add: mod_pow_le of_nat_mod flip: k_def)
  then have "limbs_val (v # replicate j fill) mod 2 ^ w = nat (sint v mod 2 ^ w) mod 2 ^ w"
    by (metis mod_mod_trivial nat_int)
  note cong = ap_of_cong_mod [OF w this, of True]
  have "ap_new_signed w v = from_words w True (v # replicate j fill)"
    using True w k by (simp add: ap_new_signed_def Let_def flip: k_def fill_def)
  then show ?thesis by (simp only: from_words_eq [OF w] cong)
next
  case False
  have "uint v mod 2 ^ w = sint v mod 2 ^ w"
  proof -
    have "uint v mod 2 ^ 64 = sint v mod 2 ^ 64"
      by (subst sint_eq_uint) simp
    then show ?thesis using False by (metis mod_pow_le not_less)
  qed
  then have "int (unat v mod 2 ^ w) = sint v mod 2 ^ w"
    by (simp add: of_nat_mod)
  then have "unat (v AND mask_for_width w) = nat (sint v mod 2 ^ w) mod 2 ^ w"
    using False by (simp add: unat_and_mask)
  then show ?thesis using False w by (simp add: ap_new_signed_def narrow_eq)
qed

subsection \<open>Views read the number\<close>

lemma ap_bit_eq: "ap_wf a \<Longrightarrow> i < ap_width a \<Longrightarrow> ap_bit a i \<longleftrightarrow> bit (ap_uval a) i"
proof -
  assume wf: "ap_wf a" and i: "i < ap_width a"
  then have len: "i div 64 < length (ap_limbs a)"
    by (simp add: ap_limbs_length limb_index_lt)
  have "(if i div 64 = 0 then ap_value a
      else case ap_high a of None \<Rightarrow> 0 | Some high \<Rightarrow> high ! (i div 64 - 1)) = ap_limbs a ! (i div 64)"
    using len by (auto simp: ap_limbs_def nth_Cons' split: option.splits)
  then have "ap_bit a i \<longleftrightarrow> drop_bit (i mod 64) (ap_limbs a ! (i div 64)) AND 1 \<noteq> 0"
    by (simp only: ap_bit_def Let_def)
  then show ?thesis
    using len by (simp add: ap_uval_def bit_limbs_val and_one_eq mod_2_eq_odd flip: bit_iff_odd_drop_bit)
qed

lemma ap_top_bit_eq: "ap_wf a \<Longrightarrow> ap_top_bit a \<longleftrightarrow> bit (ap_uval a) (ap_width a - 1)"
  by (simp add: ap_top_bit_def ap_bit_eq ap_wf_pos)

lemma top_bit_ge: "(n::nat) < 2 ^ w \<Longrightarrow> 0 < w \<Longrightarrow> bit n (w - 1) \<longleftrightarrow> 2 ^ (w - 1) \<le> n"
proof -
  assume n: "n < 2 ^ w" and w: "0 < w"
  have "(2::nat) ^ w = 2 * 2 ^ (w - 1)" using w by (metis power_eq_if not_gr_zero)
  then have "n div 2 ^ (w - 1) < 2" using n by (simp add: div_less_iff_less_mult)
  then have "odd (n div 2 ^ (w - 1)) \<longleftrightarrow> n div 2 ^ (w - 1) \<noteq> 0" by (auto simp: less_2_cases_iff)
  then show ?thesis by (simp add: bit_iff_odd div_eq_0_iff not_less)
qed

lemma ap_sval_range:
  assumes "ap_wf a"
  shows "- (2 ^ (ap_width a - 1)) \<le> ap_sval a" "ap_sval a < 2 ^ (ap_width a - 1)"
    "ap_sval a < 0 \<longleftrightarrow> ap_top_bit a" "ap_sval a mod 2 ^ ap_width a = int (ap_uval a)"
proof -
  let ?w = "ap_width a" and ?n = "ap_uval a"
  have w: "0 < ?w" "?n < 2 ^ ?w" using assms by (simp_all add: ap_wf_pos ap_uval_lt)
  have p: "(2::int) ^ ?w = 2 * 2 ^ (?w - 1)" using w(1) by (metis power_eq_if not_gr_zero)
  have n: "int ?n < 2 ^ ?w" using w(2) by (metis of_nat_less_numeral_power_cancel_iff)
  have t: "bit ?n (?w - 1) \<longleftrightarrow> 2 ^ (?w - 1) \<le> int ?n"
    using top_bit_ge [OF w(2,1)] by (metis numeral_power_le_of_nat_cancel_iff)
  show "- (2 ^ (?w - 1)) \<le> ap_sval a" "ap_sval a < 2 ^ (?w - 1)" "ap_sval a < 0 \<longleftrightarrow> ap_top_bit a"
    using p n t ap_top_bit_eq [OF assms] by (auto simp: ap_sval_def)
  show "ap_sval a mod 2 ^ ?w = int ?n"
    using n by (simp add: ap_sval_def)
qed

lemma ap_is_zero_eq: "ap_is_zero a \<longleftrightarrow> ap_uval a = 0"
  unfolding ap_uval_def limbs_val_0_iff
  by (auto simp: ap_is_zero_def ap_limbs_def list_all_iff split: option.splits)

lemma ap_with_signed_eq [ap_ops]: "ap_wf a \<Longrightarrow> ap_with_signed a s = ap_of (ap_width a) s (ap_uval a)"
  by (rule ap_eqI)
    (auto simp: ap_with_signed_def ap_of_wf ap_of_uval ap_wf_pos ap_uval_lt,
     auto simp: ap_wf_def ap_limbs_def ap_uval_def)

text \<open>The sign-extended word the 64-bit paths compute with.\<close>

lemma sint_shift_out_in:
  fixes v :: u64
  assumes k: "k < 64"
  shows "sint (signed_drop_bit k (push_bit k v)) = signed_take_bit (63 - k) (uint v)"
proof (rule bit_eqI)
  fix n
  have "bit (sint (signed_drop_bit k (push_bit k v))) n \<longleftrightarrow> bit v (if n < 64 - k then n else 63 - k)"
    using k unfolding sint_uint
    by (cases n "63::nat" rule: linorder_cases; cases "k = 0")
      (auto simp: bit_signed_take_bit_iff bit_uint_iff bit_signed_drop_bit_iff bit_push_bit_iff
        min_def not_less)
  moreover have "(if n < 64 - k then n else 63 - k) = min (63 - k) n"
    using k by (auto simp: min_def)
  ultimately show "bit (sint (signed_drop_bit k (push_bit k v))) n \<longleftrightarrow>
      bit (signed_take_bit (63 - k) (uint v)) n"
    using k by (auto simp: bit_signed_take_bit_iff bit_uint_iff)
qed

lemma sint_sign_extended:
  fixes v :: u64
  assumes "0 < w" "w \<le> 64" "unat v < 2 ^ w"
  shows "sint (signed_drop_bit (64 - w) (push_bit (64 - w) v)) =
    (if bit v (w - 1) then uint v - 2 ^ w else uint v)"
proof -
  have "uint v < 2 ^ w"
    using assms(3) by (metis of_nat_less_numeral_power_cancel_iff uint_nat)
  then have "take_bit w (uint v) = uint v"
    by (simp add: take_bit_int_eq_self)
  moreover have "63 - (64 - w) = w - 1" "Suc (w - 1) = w" "w - 1 < 64"
    using assms by simp_all
  ultimately show ?thesis
    using sint_shift_out_in [of "64 - w" v] assms(1)
    by (simp add: signed_take_bit_eq_take_bit_minus bit_uint_iff)
qed

lemma ap_signed_at_width_eq:
  assumes "ap_wf a" "ap_width a \<le> 64"
  shows "sint (ap_signed_at_width a) = ap_sval a"
proof -
  have w: "0 < ap_width a" "unat (ap_value a) < 2 ^ ap_width a" "ap_uval a = unat (ap_value a)"
    using assms ap_uval_lt [of a] by (simp_all add: ap_wf_pos narrow_uval)
  have "ap_signed_at_width a =
      signed_drop_bit (64 - ap_width a) (push_bit (64 - ap_width a) (ap_value a))"
    by (simp add: ap_signed_at_width_def Let_def)
  then show ?thesis
    using sint_sign_extended [OF w(1) assms(2) w(2)]
    by (simp add: ap_sval_def w(3) bit_unsigned_iff)
qed

lemma ap_to_i64_signed:
  assumes "ap_wf a" "ap_width a \<le> 64" "ap_signed a"
  shows "ap_to_i64 a = ap_signed_at_width a"
proof (rule bit_word_eqI)
  fix i assume i: "i < LENGTH(64)"
  have top: "ap_is_negative a \<longleftrightarrow> bit (ap_value a) (ap_width a - 1)"
    using assms by (simp add: ap_is_negative_def ap_top_bit_eq narrow_uval bit_unsigned_iff)
  have "unat (ap_value a) < 2 ^ ap_width a"
    using assms ap_uval_lt [of a] by (simp add: narrow_uval)
  then have hi: "ap_width a \<le> i \<Longrightarrow> \<not> bit (ap_value a) i"
    using nat_bit_lt [of "unat (ap_value a)" "ap_width a" i] by (auto simp: bit_unsigned_iff)
  show "bit (ap_to_i64 a) i \<longleftrightarrow> bit (ap_signed_at_width a) i"
    using assms i hi ap_wf_pos [of a]
    by (cases "i < ap_width a")
      (auto simp: ap_to_i64_def ap_signed_at_width_def top Let_def bit_or_iff bit_push_bit_iff bit_not_iff
        bit_mask_iff bit_signed_drop_bit_iff min_def)
qed

subsection \<open>Width changes keep the number\<close>

lemma ap_zero_extend_eq [ap_ops]:
  "ap_wf a \<Longrightarrow> ap_width a \<le> w \<Longrightarrow> ap_zero_extend a w = Some (ap_of w False (ap_uval a))"
  using ap_wf_pos [of a] by (simp add: ap_zero_extend_def from_words_eq ap_uval_def)

lemma ap_truncate_eq [ap_ops]:
  "0 < w \<Longrightarrow> w \<le> ap_width a \<Longrightarrow> ap_truncate a w = Some (ap_of w (ap_signed a) (ap_uval a))"
  by (simp add: ap_truncate_def from_words_eq ap_uval_def)

lemma ap_extract_bits_eq [ap_ops]:
  assumes "ap_wf a" "low \<le> high" "high < ap_width a"
  shows "ap_extract_bits a high low = Some (ap_of (high - low + 1) False (ap_uval a div 2 ^ low))"
proof (cases "64 < ap_width a")
  case True
  then show ?thesis
    using assms by (simp add: ap_extract_bits_def from_words_eq ap_uval_def limb_simps)
next
  case False
  have "unat (drop_bit low (ap_value a) AND mask_for_width (Suc (high - low)))
      = (ap_uval a div 2 ^ low) mod 2 ^ Suc (high - low)"
    using False assms by (simp add: unat_and_mask narrow_uval unat_drop_bit)
  then show ?thesis
    using False assms by (simp add: ap_extract_bits_def Let_def narrow_eq)
qed

lemma ap_sign_extend_nonneg [ap_ops]:
  "ap_wf a \<Longrightarrow> ap_width a \<le> w \<Longrightarrow> \<not> ap_is_negative a \<Longrightarrow>
     ap_sign_extend a w = Some (ap_of w (ap_signed a) (ap_uval a))"
  using ap_wf_pos [of a] by (simp add: ap_sign_extend_def from_words_eq ap_uval_def)

lemma sign_fill_bits:
  assumes wf: "ap_wf a" and w: "ap_width a \<le> w"
  defines "ws \<equiv> ap_limbs a"
  defines "t \<equiv> length ws - 1"
  shows "limbs_val (resize (ws[t := ws ! t OR NOT (mask_for_width (ap_width a - 64 * t))]) (limb_count w) (- 1))
    = ap_uval a + (2 ^ (64 * limb_count w) - 2 ^ ap_width a)"
proof -
  let ?n = "ap_width a" and ?k = "limb_count w"
  have len: "length ws = limb_count ?n" using wf by (simp add: ws_def ap_limbs_length)
  have n: "0 < ?n" "ap_uval a < 2 ^ ?n" using wf by (simp_all add: ap_wf_pos ap_uval_lt)
  have t: "t < length ws" "64 * t < ?n" "?n \<le> 64 * (t + 1)"
    using limb_count_bounds [of ?n] n(1) limb_count_pos [of ?n] by (simp_all add: t_def len)
  have kk: "limb_count ?n \<le> ?k" "?n \<le> 64 * ?k"
    using w limb_count_bounds(1) [of w] by (auto simp: limb_count_def div_le_mono)
  have "(2::nat) ^ (64 * ?k) - 2 ^ ?n = push_bit ?n (2 ^ (64 * ?k - ?n) - 1)"
    using kk(2) by (simp add: push_bit_eq_mult diff_mult_distrib flip: power_add)
  then have e1: "ap_uval a + (2 ^ (64 * ?k) - 2 ^ ?n) = ap_uval a OR push_bit ?n (mask (64 * ?k - ?n))"
  proof -
    have "ap_uval a AND push_bit ?n (mask (64 * ?k - ?n)) = 0"
      using nat_bit_lt [OF n(2)] by (intro bit_eqI) (fastforce simp: bit_and_iff bit_push_bit_iff)
    then show ?thesis
      unfolding \<open>(2::nat) ^ (64 * ?k) - 2 ^ ?n = push_bit ?n (2 ^ (64 * ?k - ?n) - 1)\<close>
        mask_eq_exp_minus_1 [symmetric] by (rule disjunctive_add_eq_or)
  qed
  have e2: "bit (limbs_val (resize (ws[t := ws ! t OR NOT (mask_for_width (?n - 64 * t))]) ?k (- 1))) i
      \<longleftrightarrow> bit (ap_uval a) i \<or> (?n \<le> i \<and> i < 64 * ?k)" for i
  proof -
    define q r where "q = i div 64" and "r = i mod 64"
    have i: "i = 64 * q + r" "r < 64" by (simp_all add: q_def r_def)
    have qk: "q < ?k \<longleftrightarrow> i < 64 * ?k" using i by auto
    have "bit (ap_uval a) i \<Longrightarrow> i < ?n" using nat_bit_lt [OF n(2)] .
    moreover have "q < length ws \<Longrightarrow> q \<noteq> t \<Longrightarrow> i < ?n"
    proof -
      assume "q < length ws" "q \<noteq> t"
      then have "q + 1 \<le> t" by (simp add: t_def)
      then have "64 * (q + 1) \<le> 64 * t" by (rule mult_le_mono2)
      then show "i < ?n" using i t(2) by simp
    qed
    moreover have "\<not> q < length ws \<Longrightarrow> ?n \<le> i"
    proof -
      assume "\<not> q < length ws"
      then have "t + 1 \<le> q" using t by simp
      then have "64 * (t + 1) \<le> 64 * q" by (rule mult_le_mono2)
      then show "?n \<le> i" using i(1) t(3) by simp
    qed
    moreover have "q = t \<Longrightarrow> r < ?n - 64 * t \<longleftrightarrow> i < ?n" using i by linarith
    ultimately show ?thesis
      using i(2) t(1) kk qk len
      by (cases "q < length ws"; cases "q = t") (auto simp: bit_limbs_val ap_uval_def nth_resize nth_list_update bit_or_iff bit_not_iff
          bits_simps simp flip: q_def r_def ws_def)
  qed
  show ?thesis
    unfolding e1 using kk(2)
    by (intro bit_eqI) (auto simp: e2 bit_or_iff bit_push_bit_iff bit_mask_iff less_diff_conv2)
qed

lemma ap_sign_extend_neg [ap_ops]:
  assumes "ap_wf a" "ap_width a \<le> w" "ap_is_negative a"
  shows "ap_sign_extend a w = Some (ap_of w True (nat (ap_sval a mod 2 ^ w)))"
proof -
  let ?n = "ap_width a" and ?k = "limb_count w"
  have w: "0 < w" using assms ap_wf_pos [of a] by simp
  have "bit (ap_uval a) (?n - 1)"
    using assms by (simp add: ap_is_negative_def ap_top_bit_eq)
  then have s: "ap_sval a = int (ap_uval a) - 2 ^ ?n" by (simp add: ap_sval_def)
  have k: "w \<le> 64 * ?k" by (rule limb_count_bounds)
  then have "(2::nat) ^ ?n \<le> 2 ^ (64 * ?k)" using assms(2) by (intro power_increasing) simp_all
  then have "int (ap_uval a + (2 ^ (64 * ?k) - 2 ^ ?n)) = ap_sval a + 2 ^ (64 * ?k)"
    by (simp only: s of_nat_add of_nat_diff of_nat_power of_nat_numeral)
  then have "int ((ap_uval a + (2 ^ (64 * ?k) - 2 ^ ?n)) mod 2 ^ w) = ap_sval a mod 2 ^ w"
    unfolding of_nat_mod of_nat_power of_nat_numeral
    using k by (metis mod_add_self2 mod_pow_le)
  then have "(ap_uval a + (2 ^ (64 * ?k) - 2 ^ ?n)) mod 2 ^ w = nat (ap_sval a mod 2 ^ w) mod 2 ^ w"
    by (metis mod_mod_trivial nat_int)
  from ap_of_cong_mod [OF w this] show ?thesis
    using assms w sign_fill_bits [OF assms(1,2)]
    by (simp add: ap_sign_extend_def Let_def from_words_eq)
qed

subsection \<open>Shifts and bitwise operations\<close>

lemma ap_shl_eq [ap_ops]:
  assumes "ap_wf a"
  shows "ap_shl a k = Some (ap_of (ap_width a) (ap_signed a \<and> k < ap_width a) (ap_uval a * 2 ^ k))"
proof (cases "k < ap_width a")
  case False
  then have "(2::nat) ^ ap_width a dvd 2 ^ k" by (simp add: le_imp_power_dvd)
  then have "(ap_uval a * 2 ^ k) mod 2 ^ ap_width a = 0" by simp
  then show ?thesis
    using False assms ap_wf_pos [of a] by (simp add: ap_shl_def ap_zero_eq) (simp add: ap_of_eq_iff)
next
  case k: True
  have "unat (push_bit k (ap_value a) AND mask_for_width (ap_width a))
      = (unat (ap_value a) * 2 ^ k) mod 2 ^ ap_width a" if "ap_width a \<le> 64"
    using that by (intro bit_eqI) (auto simp: bits_simps bit_and_iff bit_unsigned_iff bit_push_bit_iff
        simp flip: push_bit_eq_mult)
  then show ?thesis
    using k assms ap_wf_pos [of a] narrow_uval [of a]
    by (cases "64 < ap_width a")
      (auto simp: ap_shl_def from_words_eq ap_uval_def limb_simps ap_limbs_length narrow_eq
        ap_of_eq_iff mod_mod_cancel le_imp_power_dvd limb_count_bounds)
qed

lemma ap_lshr_eq [ap_ops]:
  assumes "ap_wf a"
  shows "ap_lshr a k = Some (ap_of (ap_width a) False (ap_uval a div 2 ^ k))"
proof (cases "k < ap_width a")
  case False
  then have "ap_uval a < 2 ^ k"
    using ap_uval_lt [OF assms] by (meson not_less one_le_numeral order_less_le_trans power_increasing)
  then show ?thesis using False assms ap_wf_pos [of a] by (simp add: ap_lshr_def ap_zero_eq)
next
  case k: True
  have "ap_uval a div 2 ^ k < 2 ^ ap_width a"
    using ap_uval_lt [OF assms] by (meson div_le_dividend le_less_trans)
  then show ?thesis
    using k assms ap_wf_pos [of a]
    by (cases "64 < ap_width a")
      (auto simp: ap_lshr_def from_words_eq ap_uval_def limb_simps narrow_eq unat_drop_bit
        simp flip: narrow_uval)
qed

lemma limbs_val_map_not: "limbs_val (map (\<lambda>x. NOT x) ws) = 2 ^ (64 * length ws) - 1 - limbs_val ws"
proof -
  have "limbs_val (map (\<lambda>x. NOT x) ws) + limbs_val ws = 2 ^ (64 * length ws) - 1"
  proof (induction ws)
    case (Cons x xs)
    have "unat (NOT x) + unat x = mask 64"
      by (subst disjunctive_add_eq_or)
        (auto intro!: bit_eqI simp: bit_and_iff bit_or_iff bit_unsigned_iff bit_not_iff bit_mask_iff
          dest: bit64_imp)
    then have "unat (NOT x) + unat x = 2 ^ 64 - 1"
      by (simp only: mask_eq_exp_minus_1)
    then have "unat (NOT x) + unat x + 2 ^ 64 * (limbs_val (map (\<lambda>x. NOT x) xs) + limbs_val xs)
        = 2 ^ 64 - 1 + 2 ^ 64 * (2 ^ (64 * length xs) - 1)"
      by (simp only: Cons.IH)
    also have "\<dots> = 2 ^ 64 * 2 ^ (64 * length xs) - (1::nat)"
      by (simp add: diff_mult_distrib2)
    finally show ?case by (simp add: power_add algebra_simps)
  qed simp
  then show ?thesis by linarith
qed

lemma unat_not_mask:
  assumes "unat v < 2 ^ w" "w \<le> 64"
  shows "unat (NOT v AND mask_for_width w) = mask w - unat (v :: u64)"
proof -
  have b: "bit v i \<Longrightarrow> i < w" for i
    using nat_bit_lt [OF assms(1), of i] by (auto simp: bit_unsigned_iff dest: bit64_imp)
  have "unat (NOT v AND mask_for_width w) AND unat v = 0"
    by (rule bit_eqI) (auto simp: bit_and_iff bit_unsigned_iff bit_not_iff)
  then have "unat (NOT v AND mask_for_width w) + unat v = unat (NOT v AND mask_for_width w) OR unat v"
    by (rule disjunctive_add_eq_or)
  also have "\<dots> = mask w"
    using assms(2) by (intro bit_eqI) (auto simp: bits_simps bit_and_iff bit_or_iff bit_unsigned_iff bit_not_iff
        bit_mask_iff dest: b bit64_imp)
  finally show ?thesis by linarith
qed

lemma dvd_add_mod: "d dvd a \<Longrightarrow> (a + b) mod d = b mod (d :: nat)"
  by (auto elim!: dvdE)

lemma ap_not_eq [ap_ops]:
  assumes "ap_wf a"
  shows "ap_not a = Some (ap_of (ap_width a) (ap_signed a) (2 ^ ap_width a - 1 - ap_uval a))"
proof (cases "64 < ap_width a")
  case True
  have n: "ap_uval a < 2 ^ ap_width a" using assms by (rule ap_uval_lt)
  have le: "(2::nat) ^ ap_width a \<le> 2 ^ (64 * limb_count (ap_width a))"
    using limb_count_bounds(1) by (intro power_increasing) simp_all
  have dv: "(2::nat) ^ ap_width a dvd 2 ^ (64 * limb_count (ap_width a))"
    using limb_count_bounds(1) by (rule le_imp_power_dvd)
  have "2 ^ (64 * limb_count (ap_width a)) - 1 - ap_uval a
      = (2 ^ (64 * limb_count (ap_width a)) - 2 ^ ap_width a) + (2 ^ ap_width a - 1 - ap_uval a)"
    using n le by linarith
  moreover have "(2::nat) ^ ap_width a dvd 2 ^ (64 * limb_count (ap_width a)) - 2 ^ ap_width a"
    using dv by (simp add: dvd_diff_nat)
  ultimately have "(2 ^ (64 * limb_count (ap_width a)) - 1 - ap_uval a) mod 2 ^ ap_width a
      = (2 ^ ap_width a - 1 - ap_uval a) mod 2 ^ ap_width a"
    by (simp only: dvd_add_mod)
  then show ?thesis
    using True assms ap_wf_pos [of a]
    by (simp add: ap_not_def from_words_eq limbs_val_map_not ap_limbs_length ap_of_eq_iff
        flip: ap_uval_def)
next
  case False
  have lt: "unat (ap_value a) < 2 ^ ap_width a"
    using False ap_uval_lt [OF assms] narrow_uval [OF assms] by simp
  have "unat (NOT (ap_value a) AND mask_for_width (ap_width a)) = mask (ap_width a) - unat (ap_value a)"
    using False lt by (intro unat_not_mask) simp_all
  also have "\<dots> = (2 ^ ap_width a - 1 - unat (ap_value a)) mod 2 ^ ap_width a"
    unfolding mask_eq_exp_minus_1 by (subst mod_less) (simp_all add: less_imp_diff_less)
  finally have "unat (NOT (ap_value a) AND mask_for_width (ap_width a))
      = (2 ^ ap_width a - 1 - unat (ap_value a)) mod 2 ^ ap_width a" .
  then show ?thesis
    using False assms ap_wf_pos [of a] narrow_uval [OF assms]
    by (auto simp: ap_not_def intro!: narrow_eq)
qed

lemma bit_complement:
  assumes "(x :: nat) < 2 ^ w"
  shows "bit (2 ^ w - 1 - x) i \<longleftrightarrow> i < w \<and> \<not> bit x i"
proof -
  have b: "bit x i \<Longrightarrow> i < w" for i using assms by (rule nat_bit_lt)
  define y where "y = mask w AND NOT (int x)"
  have y: "0 \<le> y" by (simp add: y_def)
  have "y AND int x = 0" by (rule bit_eqI) (auto simp: y_def bit_and_iff bit_not_iff)
  then have "y + int x = y OR int x" by (rule disjunctive_add_eq_or)
  also have "\<dots> = mask w"
    by (rule bit_eqI) (auto simp: y_def bit_and_iff bit_or_iff bit_not_iff bit_mask_iff bit_of_nat_iff dest: b)
  finally have "nat y = 2 ^ w - 1 - x"
    unfolding mask_eq_exp_minus_1 using y by (simp add: nat_eq_iff of_nat_diff Suc_leI assms)
  moreover have "bit (nat y) i \<longleftrightarrow> i < w \<and> \<not> bit x i"
    using y by (simp add: bit_nat_iff y_def bit_and_iff bit_not_iff bit_mask_iff bit_of_nat_iff)
  ultimately show ?thesis by simp
qed

lemma complement_div_lt: "(2 ^ w - 1 - u) div 2 ^ k < (2 :: nat) ^ w"
proof -
  have "2 ^ w - 1 - u < (2 :: nat) ^ w" by (simp add: less_imp_diff_less)
  then show ?thesis by (rule le_less_trans [OF div_le_dividend])
qed

lemma div_complement: "0 < K \<Longrightarrow> (- x - 1) div K = - (x div K) - (1 :: int)"
proof -
  assume K: "0 < K"
  define q r where "q = x div K" and "r = x mod K"
  have x: "x = K * q + r" and r: "0 \<le> r" "r < K" using K by (simp_all add: q_def r_def)
  have "- x - 1 = (K - 1 - r) + K * (- q - 1)" unfolding x by (simp add: algebra_simps)
  then have "(- x - 1) div K = (K - 1 - r) div K + (- q - 1)"
    using K by (simp only: div_mult_self2)
  moreover have "(K - 1 - r) div K = 0" using r by (intro div_pos_pos_trivial) linarith+
  ultimately show ?thesis by (simp add: q_def)
qed

lemma ashr_neg_val:
  assumes u: "u < 2 ^ w"
  shows "2 ^ w - 1 - ((2 ^ w - 1 - u) div 2 ^ k) = nat ((int u - 2 ^ w) div 2 ^ k mod 2 ^ w)"
proof -
  define d where "d = (2 ^ w - 1 - u) div 2 ^ k"
  have lt: "d < 2 ^ w" unfolding d_def by (rule complement_div_lt)
  then have lti: "int d < 2 ^ w" by (metis of_nat_less_iff of_nat_numeral of_nat_power)
  have "int u - 2 ^ w = - int (2 ^ w - 1 - u) - 1" using u by (simp add: of_nat_diff Suc_leI)
  then have "(int u - 2 ^ w) div 2 ^ k = - int d - 1"
    by (simp only: div_complement d_def of_nat_div of_nat_power of_nat_numeral zero_less_power zero_less_numeral)
  then have "(int u - 2 ^ w) div 2 ^ k mod 2 ^ w = (- int d - 1 + 2 ^ w) mod 2 ^ w"
    by simp
  also have "\<dots> = - int d - 1 + 2 ^ w"
    by (rule mod_pos_pos_trivial) (use lti in linarith)+
  also have "\<dots> = int (2 ^ w - 1 - d)" using lt by (simp add: of_nat_diff Suc_leI)
  finally show ?thesis by (simp add: d_def)
qed

lemma ashr_word:
  assumes v: "unat v < 2 ^ w" and w: "w \<le> 64" and k: "k \<le> w"
  shows "unat (drop_bit k v OR (push_bit (w - k) (mask_for_width w) AND mask_for_width w))
    = 2 ^ w - 1 - ((2 ^ w - 1 - unat v) div 2 ^ k)"
proof (rule bit_eqI)
  fix i
  define c where "c = 2 ^ w - 1 - unat v"
  have c: "bit c j \<longleftrightarrow> j < w \<and> \<not> bit (unat v) j" for j unfolding c_def by (rule bit_complement [OF v])
  have "c div 2 ^ k < 2 ^ w" unfolding c_def by (rule complement_div_lt)
  from bit_complement [OF this, of i]
  have r: "bit (2 ^ w - 1 - c div 2 ^ k) i \<longleftrightarrow> i < w \<and> \<not> bit c (k + i)"
    by (simp add: bit_drop_bit_eq flip: drop_bit_eq_div)
  have "bit v j \<Longrightarrow> j < w" for j
    using nat_bit_lt [OF v, of j] by (auto simp: bit_unsigned_iff dest: bit64_imp)
  then show "bit (unat (drop_bit k v OR (push_bit (w - k) (mask_for_width w) AND mask_for_width w))) i
      = bit (2 ^ w - 1 - ((2 ^ w - 1 - unat v) div 2 ^ k)) i"
    using w k unfolding c_def [symmetric] r c
    by (fastforce simp: bits_simps bit_unsigned_iff bit_drop_bit_eq bit_or_iff bit_and_iff bit_push_bit_iff)
qed

lemma ap_ashr_nonneg [ap_ops]:
  assumes "ap_wf a" "\<not> ap_is_negative a"
  shows "ap_ashr a k = Some (ap_of (ap_width a) (ap_signed a \<and> k = 0) (ap_uval a div 2 ^ k))"
proof -
  have "ap_uval a div 2 ^ k = 0" if "ap_width a \<le> k"
    using ap_uval_lt [OF assms(1)] that by (simp add: div_eq_0_iff)
      (meson one_le_numeral order_less_le_trans power_increasing)
  then show ?thesis
    using assms ap_wf_pos [of a]
    by (auto simp: ap_ashr_def ap_lshr_eq ap_zero_eq ap_of_self)
qed

lemma ap_ashr_neg [ap_ops]:
  assumes "ap_wf a" "ap_is_negative a"
  shows "ap_ashr a k = Some (ap_of (ap_width a) True (nat (ap_sval a div 2 ^ k mod 2 ^ ap_width a)))"
proof -
  let ?w = "ap_width a" and ?u = "ap_uval a"
  have w: "0 < ?w" and u: "?u < 2 ^ ?w" using assms ap_wf_pos ap_uval_lt by auto
  have top: "bit ?u (?w - 1)" and sg: "ap_signed a"
    using assms by (simp_all add: ap_is_negative_def ap_top_bit_eq)
  have sv: "ap_sval a = int ?u - 2 ^ ?w" using top by (simp add: ap_sval_def)
  note val = ashr_neg_val [OF u, of k, folded sv]
  have lt: "2 ^ ?w - 1 - ?u < 2 ^ ?w" "(2 ^ ?w - 1 - ?u) div 2 ^ k < (2 :: nat) ^ ?w"
    using complement_div_lt [of ?w ?u 0] complement_div_lt [of ?w ?u k] by simp_all
  consider "k = 0" | "k \<noteq> 0" "64 < ?w" | "k \<noteq> 0" "?w \<le> 64" "?w \<le> k" | "k \<noteq> 0" "?w \<le> 64" "k < ?w" by linarith
  then show ?thesis
  proof cases
    case 1
    then show ?thesis using sg ap_of_self [OF assms(1)] ap_sval_range(4) [OF assms(1)] by (simp add: ap_ashr_def)
  next
    case 2
    then show ?thesis
      using assms w lt sg unfolding val [symmetric]
      by (simp add: ap_ashr_def ap_not_eq ap_lshr_eq ap_with_signed_eq ap_of_wf ap_of_uval)
  next
    case 3
    have "(2 ^ ?w - 1 - ?u) div 2 ^ k = 0"
      using less_le_trans [OF lt(1) power_increasing [OF 3(3), of 2]] by simp
    moreover have "unat (mask_for_width ?w) = 2 ^ ?w - 1"
      using 3(2) unfolding mask_eq_exp_minus_1 [symmetric]
      by (intro bit_eqI) (auto simp: bits_simps bit_unsigned_iff bit_mask_iff)
    ultimately show ?thesis
      using 3 assms sg w unfolding val [symmetric]
      by (auto simp: ap_ashr_def intro!: narrow_eq)
  next
    case 4
    have "unat (ap_value a) = ?u" using 4 assms by (simp add: narrow_uval)
    then show ?thesis
      using 4 assms sg w u ashr_word [of "ap_value a" ?w k] unfolding val [symmetric]
      by (auto simp: ap_ashr_def Let_def less_imp_diff_less intro!: narrow_eq)
  qed
qed

subsection \<open>Bitwise operations limb by limb\<close>

lemma limbs_val_zip_and:
  "length a = length b \<Longrightarrow> limbs_val (map (\<lambda>(x, y). x AND y) (zip a b)) = limbs_val a AND limbs_val b"
  by (rule bit_eqI) (auto simp: bits_simps bit_and_iff)

lemma limbs_val_zip_or:
  "length a = length b \<Longrightarrow> limbs_val (map (\<lambda>(x, y). x OR y) (zip a b)) = limbs_val a OR limbs_val b"
  by (rule bit_eqI) (auto simp: bits_simps bit_or_iff)

lemma limbs_val_zip_xor:
  "length a = length b \<Longrightarrow> limbs_val (map (\<lambda>(x, y). x XOR y) (zip a b)) = limbs_val a XOR limbs_val b"
  by (rule bit_eqI) (auto simp: bits_simps bit_xor_iff)

lemma bitwise_lt:
  assumes "(m :: nat) < 2 ^ w" "n < 2 ^ w"
  shows "m AND n < 2 ^ w" "m OR n < 2 ^ w" "m XOR n < 2 ^ w"
  using nat_bit_lt [OF assms(1)] nat_bit_lt [OF assms(2)]
  by (auto simp: nat_lt_pow_iff_bits bit_and_iff bit_or_iff bit_xor_iff)

lemma limbs_val_ap: "limbs_val (ap_limbs a) = ap_uval a"
  by (simp add: ap_uval_def)

lemma narrow_self_eq: "0 < w \<Longrightarrow> w \<le> 64 \<Longrightarrow> unat v = n \<Longrightarrow> n < 2 ^ w \<Longrightarrow>
    \<lparr>ap_width = w, ap_signed = s, ap_value = v, ap_high = None\<rparr> = ap_of w s n"
  by (simp add: narrow_eq)

lemma ap_bitwise_eq [ap_ops]:
  assumes "ap_wf a" "ap_wf b" "ap_width a = ap_width b"
  shows "ap_and a b = Some (ap_of (ap_width a) (ap_signed a \<and> ap_signed b) (ap_uval a AND ap_uval b))"
    "ap_or a b = Some (ap_of (ap_width a) (ap_signed a \<and> ap_signed b) (ap_uval a OR ap_uval b))"
    "ap_xor a b = Some (ap_of (ap_width a) (ap_signed a \<and> ap_signed b) (ap_uval a XOR ap_uval b))"
proof -
  have len: "length (ap_limbs a) = length (ap_limbs b)" using assms by (simp add: ap_limbs_length)
  note wide = ap_limbwise_def from_words_eq limbs_val_ap limbs_val_zip_and limbs_val_zip_or limbs_val_zip_xor
  have lt: "ap_uval a < 2 ^ ap_width b" "ap_uval b < 2 ^ ap_width b"
    using assms ap_uval_lt [of a] ap_uval_lt [of b] by simp_all
  note facts = assms len ap_wf_pos [of b] bitwise_lt [OF lt]
  show "ap_and a b = Some (ap_of (ap_width a) (ap_signed a \<and> ap_signed b) (ap_uval a AND ap_uval b))"
    using facts by (cases "64 < ap_width b")
      (auto simp: ap_and_def wide, auto simp: narrow_uval unat_and intro!: narrow_self_eq)
  show "ap_or a b = Some (ap_of (ap_width a) (ap_signed a \<and> ap_signed b) (ap_uval a OR ap_uval b))"
    using facts by (cases "64 < ap_width b")
      (auto simp: ap_or_def wide, auto simp: narrow_uval unat_or intro!: narrow_self_eq)
  show "ap_xor a b = Some (ap_of (ap_width a) (ap_signed a \<and> ap_signed b) (ap_uval a XOR ap_uval b))"
    using facts by (cases "64 < ap_width b")
      (auto simp: ap_xor_def wide, auto simp: narrow_uval unat_xor intro!: narrow_self_eq)
qed

lemma ap_max_value_eq [ap_ops]:
  assumes w: "0 < w"
  shows "ap_max_value w s = Some (ap_of w s (if s then 2 ^ (w - 1) - 1 else 2 ^ w - 1))"
proof -
  have d: "(2::nat) ^ (64 * limb_count w) - 1 = (2 ^ (64 * limb_count w) - 2 ^ w) + (2 ^ w - 1)"
    using power_increasing [OF limb_count_bounds(1), of "2 :: nat" w] by simp
  have "(2::nat) ^ w dvd 2 ^ (64 * limb_count w) - 2 ^ w"
    using limb_count_bounds(1) [of w] by (simp add: dvd_diff_nat le_imp_power_dvd)
  then have "(2 ^ (64 * limb_count w) - 1) mod 2 ^ w = (2 ^ w - 1) mod (2::nat) ^ w"
    unfolding d by (rule dvd_add_mod)
  then have ones: "ap_of w t (2 ^ (64 * limb_count w) - 1) = ap_of w t (2 ^ w - 1)" for t
    using w by (simp add: ap_of_eq_iff)
  have p: "2 ^ w = 2 * (2::nat) ^ (w - 1)" "0 < (2::nat) ^ (w - 1)"
    using w by (metis power_eq_if not_gr_zero, simp)
  then have half: "(2 ^ w - 1) div 2 = (2::nat) ^ (w - 1) - 1" "(2::nat) ^ (w - 1) - 1 < 2 ^ w"
    by linarith+
  have m: "w \<le> 64 \<Longrightarrow> unat (mask_for_width w) = 2 ^ w - 1"
    unfolding mask_eq_exp_minus_1 [symmetric]
    by (intro bit_eqI) (auto simp: bits_simps bit_unsigned_iff bit_mask_iff)
  have h: "w \<le> 64 \<Longrightarrow> unat (mask_for_width w AND NOT (push_bit (w - 1) 1)) = 2 ^ (w - 1) - 1"
    unfolding mask_eq_exp_minus_1 [symmetric]
    by (intro bit_eqI) (auto simp: bits_simps bit_unsigned_iff bit_mask_iff bit_and_iff bit_not_iff
        bit_push_bit_iff bit_1_iff bit_exp_iff)
  show ?thesis
  proof (cases "64 < w")
    case True
    then show ?thesis
      using w half ones [simplified] by (cases s)
        (simp_all add: ap_max_value_def from_words_eq limbs_val_ones ap_lshr_eq ap_with_signed_eq ap_of_wf
          ap_of_uval)
  next
    case False
    then show ?thesis
      using w half m h unfolding ap_max_value_def Let_def
      by (cases s) (simp_all add: narrow_self_eq)
  qed
qed

end
