(* ===== verification/APIntArith.thy ===== *)
theory APIntArith
  imports APInt "HOL-Library.Signed_Division" "HOL-Library.Product_Lexorder"
begin

text \<open>
  The arithmetic, the comparisons and the bit counts of \<open>libs/adt/src/apint.rs\<close>. Every
  operation on well-formed values is shown to be the arithmetic on the numbers they stand for,
  reduced to the width: \<open>ap_of_int\<close> is the value of a given width and flag for an integer,
  \<open>ap_uval\<close> and \<open>ap_sval\<close> read a value as unsigned and as two's complement, and
  \<open>ap_num\<close> reads it by its own flag.
\<close>

subsection \<open>Addition, subtraction, negation\<close>

definition ap_add :: "APInt \<Rightarrow> APInt \<Rightarrow> APInt option" where
  "ap_add a b =
     (if ap_width a \<noteq> ap_width b then None
      else if 64 < ap_width a then
        from_words (ap_width a) (ap_signed a \<and> ap_signed b) (add_words (ap_limbs a) (ap_limbs b))
      else Some \<lparr>ap_width = ap_width a, ap_signed = ap_signed a \<and> ap_signed b,
                 ap_value = (ap_value a + ap_value b) AND mask_for_width (ap_width a), ap_high = None\<rparr>)"

definition ap_sub :: "APInt \<Rightarrow> APInt \<Rightarrow> APInt option" where
  "ap_sub a b =
     (if ap_width a \<noteq> ap_width b then None
      else if 64 < ap_width a then
        from_words (ap_width a) (ap_signed a \<and> ap_signed b) (sub_words (ap_limbs a) (ap_limbs b))
      else Some \<lparr>ap_width = ap_width a, ap_signed = ap_signed a \<and> ap_signed b,
                 ap_value = (ap_value a - ap_value b) AND mask_for_width (ap_width a), ap_high = None\<rparr>)"

definition ap_neg :: "APInt \<Rightarrow> APInt option" where
  "ap_neg a =
     (if 64 < ap_width a then do {
        z \<leftarrow> ap_zero (ap_width a);
        d \<leftarrow> ap_sub z a;
        Some (ap_with_signed d (ap_signed a))
      }
      else Some \<lparr>ap_width = ap_width a, ap_signed = ap_signed a,
                 ap_value = (NOT (ap_value a) + 1) AND mask_for_width (ap_width a), ap_high = None\<rparr>)"

definition ap_abs :: "APInt \<Rightarrow> APInt option" where
  "ap_abs a = (if ap_is_negative a then ap_neg a else Some a)"

subsection \<open>Multiplication\<close>

definition ap_mul :: "APInt \<Rightarrow> APInt \<Rightarrow> APInt option" where
  "ap_mul a b =
     (if ap_width a \<noteq> ap_width b then None
      else if 64 < ap_width a then
        from_words (ap_width a) (ap_signed a \<and> ap_signed b) (mul_words (ap_limbs a) (ap_limbs b))
      else
        (let full_result = (ucast (ap_value a) * ucast (ap_value b) :: u128)
         in Some \<lparr>ap_width = ap_width a, ap_signed = ap_signed a \<and> ap_signed b,
                  ap_value = ucast full_result AND mask_for_width (ap_width a), ap_high = None\<rparr>))"

definition ap_mulhu :: "APInt \<Rightarrow> APInt \<Rightarrow> APInt option" where
  "ap_mulhu a b =
     (if ap_width a \<noteq> ap_width b then None
      else if 64 < ap_width a then do {
        let double = 2 * ap_width a;
        x \<leftarrow> ap_zero_extend a double;
        y \<leftarrow> ap_zero_extend b double;
        product \<leftarrow> ap_mul x y;
        ap_extract_bits product (double - 1) (ap_width a)
      }
      else
        (let full_result = (ucast (ap_value a) * ucast (ap_value b) :: u128);
             high_bits = ucast (drop_bit (ap_width a) full_result)
         in Some \<lparr>ap_width = ap_width a, ap_signed = False,
                  ap_value = high_bits AND mask_for_width (ap_width a), ap_high = None\<rparr>))"

definition ap_sext_u128 :: "APInt \<Rightarrow> u128" where
  "ap_sext_u128 a =
     (if ap_is_negative a then ucast (ap_value a) OR push_bit (ap_width a) (- 1)
      else ucast (ap_value a))"

definition ap_mulh :: "APInt \<Rightarrow> APInt \<Rightarrow> APInt option" where
  "ap_mulh a b =
     (if ap_width a \<noteq> ap_width b then None
      else if 64 < ap_width a then do {
        let double = 2 * ap_width a;
        x \<leftarrow> ap_sign_extend a double;
        y \<leftarrow> ap_sign_extend b double;
        product \<leftarrow> ap_mul x y;
        high_half \<leftarrow> ap_extract_bits product (double - 1) (ap_width a);
        Some (ap_with_signed high_half True)
      }
      else
        (let full_result = ap_sext_u128 a * ap_sext_u128 b;
             high_bits = ucast (drop_bit (ap_width a) full_result)
         in Some \<lparr>ap_width = ap_width a, ap_signed = True,
                  ap_value = high_bits AND mask_for_width (ap_width a), ap_high = None\<rparr>))"

subsection \<open>Division\<close>

text \<open>\<open>i64::wrapping_div\<close> and \<open>i64::wrapping_rem\<close>: truncating, and \<open>MIN / -1\<close> wraps.\<close>

definition wrapping_div :: "i64 \<Rightarrow> i64 \<Rightarrow> i64" where
  "wrapping_div x y = word_of_int (sint x sdiv sint y)"

definition wrapping_rem :: "i64 \<Rightarrow> i64 \<Rightarrow> i64" where
  "wrapping_rem x y = word_of_int (sint x smod sint y)"

definition ap_magnitude :: "APInt \<Rightarrow> u64 list option" where
  "ap_magnitude a = (if ap_top_bit a then map_option ap_limbs (ap_neg a) else Some (ap_limbs a))"

definition ap_signed_divrem :: "APInt \<Rightarrow> APInt \<Rightarrow> (APInt \<times> APInt) option" where
  "ap_signed_divrem a b = do {
     lhs \<leftarrow> ap_magnitude a;
     rhs \<leftarrow> ap_magnitude b;
     let (q, r) = divrem_words lhs rhs (ap_width a);
     quo \<leftarrow> from_words (ap_width a) True q;
     remainder \<leftarrow> from_words (ap_width a) True r;
     quo \<leftarrow> (if ap_top_bit a \<noteq> ap_top_bit b then ap_neg quo else Some quo);
     remainder \<leftarrow> (if ap_top_bit a then ap_neg remainder else Some remainder);
     Some (quo, remainder)
   }"

definition ap_divrem :: "APInt \<Rightarrow> APInt \<Rightarrow> bool \<Rightarrow> (APInt \<times> APInt) option" where
  "ap_divrem a b sgd =
     (if ap_width a \<noteq> ap_width b then None
      else if ap_is_zero b then None
      else if 64 < ap_width a \<and> sgd then ap_signed_divrem a b
      else if 64 < ap_width a then do {
        let (q, r) = divrem_words (ap_limbs a) (ap_limbs b) (ap_width a);
        quo \<leftarrow> from_words (ap_width a) False q;
        remainder \<leftarrow> from_words (ap_width a) False r;
        Some (quo, remainder)
      }
      else
        (let (q, r) =
           (if sgd
            then (let lhs = ap_signed_at_width a; rhs = ap_signed_at_width b
                  in (wrapping_div lhs rhs, wrapping_rem lhs rhs))
            else (ap_value a div ap_value b, ap_value a mod ap_value b));
             word = (\<lambda>value. \<lparr>ap_width = ap_width a, ap_signed = sgd,
                              ap_value = value AND mask_for_width (ap_width a), ap_high = None\<rparr>)
         in Some (word q, word r)))"

definition ap_udiv :: "APInt \<Rightarrow> APInt \<Rightarrow> APInt option" where
  "ap_udiv a b = map_option fst (ap_divrem a b False)"

definition ap_sdiv :: "APInt \<Rightarrow> APInt \<Rightarrow> APInt option" where
  "ap_sdiv a b = map_option fst (ap_divrem a b True)"

definition ap_urem :: "APInt \<Rightarrow> APInt \<Rightarrow> APInt option" where
  "ap_urem a b = map_option snd (ap_divrem a b False)"

definition ap_srem :: "APInt \<Rightarrow> APInt \<Rightarrow> APInt option" where
  "ap_srem a b = map_option snd (ap_divrem a b True)"

subsection \<open>Comparison\<close>

definition ap_ucmp :: "APInt \<Rightarrow> APInt \<Rightarrow> Ordering option" where
  "ap_ucmp a b =
     (if ap_width a \<noteq> ap_width b then None
      else if 64 < ap_width a then Some (cmp_words (ap_limbs a) (ap_limbs b))
      else Some (cmp (ap_value a) (ap_value b)))"

definition ap_scmp :: "APInt \<Rightarrow> APInt \<Rightarrow> Ordering option" where
  "ap_scmp a b =
     (if ap_width a \<noteq> ap_width b then None
      else if 64 < ap_width a then
        Some (then_with (cmp (ap_top_bit b) (ap_top_bit a)) (cmp_words (ap_limbs a) (ap_limbs b)))
      else Some (cmp (sint (ap_signed_at_width a)) (sint (ap_signed_at_width b))))"

definition ap_numeric_key :: "APInt \<Rightarrow> int" where
  "ap_numeric_key a = (if ap_signed a then sint (ap_to_i64 a) else uint (ap_value a))"

definition ap_widen :: "nat \<Rightarrow> APInt \<Rightarrow> APInt option" where
  "ap_widen width a = (if ap_is_negative a then ap_sign_extend a width else ap_zero_extend a width)"

definition ap_numeric_cmp :: "APInt \<Rightarrow> APInt \<Rightarrow> Ordering option" where
  "ap_numeric_cmp a b =
     (if ap_width a \<le> 64 \<and> ap_width b \<le> 64 then Some (cmp (ap_numeric_key a) (ap_numeric_key b))
      else do {
        let width = max (ap_width a) (ap_width b) + 1;
        x \<leftarrow> ap_widen width a;
        y \<leftarrow> ap_widen width b;
        ap_scmp x y
      })"

definition ap_cmp :: "APInt \<Rightarrow> APInt \<Rightarrow> Ordering option" where
  "ap_cmp a b = map_option (\<lambda>numeric. then_with (then_with numeric (cmp (ap_width a) (ap_width b)))
                                        (cmp (ap_signed a) (ap_signed b))) (ap_numeric_cmp a b)"

definition ap_ult :: "APInt \<Rightarrow> APInt \<Rightarrow> bool option" where
  "ap_ult a b = map_option (\<lambda>c. c = Less) (ap_ucmp a b)"

definition ap_ule :: "APInt \<Rightarrow> APInt \<Rightarrow> bool option" where
  "ap_ule a b = map_option (\<lambda>c. c = Less \<or> c = Equal) (ap_ucmp a b)"

definition ap_ugt :: "APInt \<Rightarrow> APInt \<Rightarrow> bool option" where
  "ap_ugt a b = map_option (\<lambda>c. c = Greater) (ap_ucmp a b)"

definition ap_uge :: "APInt \<Rightarrow> APInt \<Rightarrow> bool option" where
  "ap_uge a b = map_option (\<lambda>c. c = Greater \<or> c = Equal) (ap_ucmp a b)"

definition ap_slt :: "APInt \<Rightarrow> APInt \<Rightarrow> bool option" where
  "ap_slt a b = map_option (\<lambda>c. c = Less) (ap_scmp a b)"

definition ap_sle :: "APInt \<Rightarrow> APInt \<Rightarrow> bool option" where
  "ap_sle a b = map_option (\<lambda>c. c = Less \<or> c = Equal) (ap_scmp a b)"

definition ap_sgt :: "APInt \<Rightarrow> APInt \<Rightarrow> bool option" where
  "ap_sgt a b = map_option (\<lambda>c. c = Greater) (ap_scmp a b)"

definition ap_sge :: "APInt \<Rightarrow> APInt \<Rightarrow> bool option" where
  "ap_sge a b = map_option (\<lambda>c. c = Greater \<or> c = Equal) (ap_scmp a b)"

subsection \<open>Bit counts\<close>

text \<open>\<open>u64::leading_zeros\<close>, \<open>trailing_zeros\<close> and \<open>count_ones\<close>, and the slice searches
  \<open>position\<close> and \<open>rposition\<close>.\<close>

definition leading_zeros :: "u64 \<Rightarrow> nat" where
  "leading_zeros x = length (takeWhile (\<lambda>i. \<not> bit x i) (rev [0..<64]))"

definition trailing_zeros :: "u64 \<Rightarrow> nat" where
  "trailing_zeros x = length (takeWhile (\<lambda>i. \<not> bit x i) [0..<64])"

definition count_ones :: "u64 \<Rightarrow> nat" where
  "count_ones x = length (filter (bit x) [0..<64])"

definition position :: "('a \<Rightarrow> bool) \<Rightarrow> 'a list \<Rightarrow> nat option" where
  "position P xs = (let k = length (takeWhile (\<lambda>x. \<not> P x) xs) in if k < length xs then Some k else None)"

definition rposition :: "('a \<Rightarrow> bool) \<Rightarrow> 'a list \<Rightarrow> nat option" where
  "rposition P xs = map_option (\<lambda>k. length xs - 1 - k) (position P (rev xs))"

definition unwrap_or :: "'a option \<Rightarrow> 'a \<Rightarrow> 'a" where
  "unwrap_or x d = (case x of None \<Rightarrow> d | Some y \<Rightarrow> y)"

definition ap_count_leading_zeros :: "APInt \<Rightarrow> nat" where
  "ap_count_leading_zeros a =
     (if ap_is_zero a then ap_width a
      else if 64 < ap_width a then
        (let limbs = ap_limbs a;
             top = unwrap_or (rposition (\<lambda>limb. limb \<noteq> 0) limbs) 0;
             set = 64 * top + 64 - leading_zeros (limbs ! top)
         in ap_width a - set)
      else
        (let effective_value = ap_value a AND mask_for_width (ap_width a)
         in leading_zeros effective_value - (64 - ap_width a)))"

definition ap_count_trailing_zeros :: "APInt \<Rightarrow> nat" where
  "ap_count_trailing_zeros a =
     (if ap_is_zero a then ap_width a
      else if 64 < ap_width a then
        (let limbs = ap_limbs a;
             low = unwrap_or (position (\<lambda>limb. limb \<noteq> 0) limbs) 0
         in 64 * low + trailing_zeros (limbs ! low))
      else min (trailing_zeros (ap_value a)) (ap_width a))"

definition ap_count_ones :: "APInt \<Rightarrow> nat" where
  "ap_count_ones a =
     (if 64 < ap_width a then sum_list (map count_ones (ap_limbs a))
      else count_ones (ap_value a AND mask_for_width (ap_width a)))"

subsection \<open>The value of an integer\<close>

definition ap_of_int :: "nat \<Rightarrow> bool \<Rightarrow> int \<Rightarrow> APInt" where
  "ap_of_int w s i = ap_of w s (nat (i mod 2 ^ w))"

definition ap_num :: "APInt \<Rightarrow> int" where
  "ap_num a = (if ap_signed a then ap_sval a else int (ap_uval a))"

lemma ap_of_int_simps [simp]:
  "ap_width (ap_of_int w s i) = w" "ap_signed (ap_of_int w s i) = s"
  by (simp_all add: ap_of_int_def)

lemma ap_of_int_wf: "0 < w \<Longrightarrow> ap_wf (ap_of_int w s i)"
  by (simp add: ap_of_int_def ap_of_wf)

lemma ap_of_int_cong: "i mod 2 ^ w = j mod 2 ^ w \<Longrightarrow> ap_of_int w s i = ap_of_int w s j"
  by (simp add: ap_of_int_def)

lemma ap_of_eq_int: "0 < w \<Longrightarrow> ap_of w s n = ap_of_int w s (int n)"
proof -
  assume w: "0 < w"
  have "int n mod 2 ^ w = int (n mod 2 ^ w)" by (simp add: of_nat_mod)
  then have "nat (int n mod 2 ^ w) = n mod 2 ^ w" by simp
  then show ?thesis using w by (simp add: ap_of_int_def ap_of_eq_iff)
qed

lemma ap_of_int_uval: "0 < w \<Longrightarrow> int (ap_uval (ap_of_int w s i)) = i mod 2 ^ w"
proof -
  assume w: "0 < w"
  have "int (nat (i mod 2 ^ w) mod 2 ^ w) = (i mod 2 ^ w) mod 2 ^ w"
    by (subst of_nat_mod) simp
  then show ?thesis using w by (simp add: ap_of_int_def ap_of_uval)
qed

lemma ap_sval_mod: "ap_wf a \<Longrightarrow> ap_sval a mod 2 ^ ap_width a = int (ap_uval a)"
  by (rule ap_sval_range)

lemma ap_num_mod: "ap_wf a \<Longrightarrow> ap_num a mod 2 ^ ap_width a = int (ap_uval a)"
  using ap_uval_lt [of a] by (simp add: ap_num_def ap_sval_mod flip: of_nat_less_iff)

lemma signed_repr_unique:
  assumes "0 < w" "- (2 ^ (w - 1)) \<le> i" "i < 2 ^ (w - 1)" "- (2 ^ (w - 1)) \<le> j" "j < 2 ^ (w - 1)"
    and "i mod 2 ^ w = j mod (2 :: int) ^ w"
  shows "i = j"
proof -
  have "(2 :: int) ^ w = 2 * 2 ^ (w - 1)" using assms(1) by (metis power_eq_if not_gr_zero)
  then have "\<bar>i - j\<bar> < 2 ^ w" using assms by linarith
  moreover have "2 ^ w dvd i - j" using assms(6) by (simp add: mod_eq_dvd_iff)
  ultimately show ?thesis by (metis abs_of_nonneg dvd_imp_le_int not_less right_minus_eq abs_ge_zero abs_abs
        abs_power2 abs_numeral power_abs)
qed

lemma ap_of_int_sval:
  assumes "0 < w" "- (2 ^ (w - 1)) \<le> i" "i < 2 ^ (w - 1)"
  shows "ap_sval (ap_of_int w s i) = i"
proof -
  have wf: "ap_wf (ap_of_int w s i)" using assms by (simp add: ap_of_int_wf)
  note r = ap_sval_range [OF wf, unfolded ap_of_int_simps ap_of_int_uval [OF assms(1)]]
  show ?thesis by (rule signed_repr_unique [OF assms(1) r(1,2) assms(2,3) r(4)])
qed

lemma ap_of_int_self: "ap_wf a \<Longrightarrow> ap_of_int (ap_width a) (ap_signed a) (int (ap_uval a)) = a"
  by (metis ap_of_eq_int ap_of_self ap_wf_pos)

lemma narrow_int_eq:
  assumes "0 < w" "w \<le> 64" "uint v mod 2 ^ w = i mod 2 ^ w"
  shows "\<lparr>ap_width = w, ap_signed = s, ap_value = v AND mask_for_width w, ap_high = None\<rparr> = ap_of_int w s i"
proof -
  have "int (unat v mod 2 ^ w) = i mod 2 ^ w" using assms(3) by (simp add: of_nat_mod)
  then have "unat v mod 2 ^ w = nat (i mod 2 ^ w) mod 2 ^ w" by (metis mod_mod_trivial nat_int)
  then show ?thesis
    unfolding ap_of_int_def using assms by (intro narrow_eq) (simp_all add: unat_and_mask)
qed

lemma uint_word64_mod: "w \<le> 64 \<Longrightarrow> uint (word_of_int i :: u64) mod 2 ^ w = i mod 2 ^ w"
  unfolding uint_word_of_int by (simp only: mod_pow_le len_of_numeral_defs(2,3) len_num1 mult_1_right)

lemma uint_arith64_mod:
  assumes "w \<le> 64"
  shows "uint (x + y :: u64) mod 2 ^ w = (uint x + uint y) mod 2 ^ w"
    "uint (x - y :: u64) mod 2 ^ w = (uint x - uint y) mod 2 ^ w"
  using mod_pow_le [OF assms] by (simp_all add: uint_word_arith_bintrs take_bit_eq_mod)

lemma ap_uval_uint: "ap_wf a \<Longrightarrow> ap_width a \<le> 64 \<Longrightarrow> uint (ap_value a) = int (ap_uval a)"
  by (simp add: narrow_uval)

subsection \<open>Addition, subtraction and negation are modular\<close>

lemma ap_add_eq [ap_ops]:
  assumes "ap_wf a" "ap_wf b" "ap_width a = ap_width b"
  shows "ap_add a b = Some (ap_of_int (ap_width a) (ap_signed a \<and> ap_signed b) (int (ap_uval a) + int (ap_uval b)))"
proof (cases "64 < ap_width b")
  case True
  have "int (limbs_val (add_words (ap_limbs a) (ap_limbs b))) mod 2 ^ ap_width b
      = (int (ap_uval a) + int (ap_uval b)) mod 2 ^ ap_width b"
    using assms ap_limbs_length [of a] ap_limbs_length [of b] limb_count_bounds(1) [of "ap_width b"]
    by (simp add: add_words_val limbs_val_ap of_nat_mod mod_pow_le)
  then show ?thesis
    using True assms ap_wf_pos [of b]
    by (simp add: ap_add_def from_words_eq ap_of_eq_int) (rule ap_of_int_cong)
next
  case False
  then show ?thesis
    using assms ap_wf_pos [of b]
    by (auto simp: ap_add_def uint_arith64_mod ap_uval_uint intro!: narrow_int_eq)
qed

lemma ap_sub_eq [ap_ops]:
  assumes "ap_wf a" "ap_wf b" "ap_width a = ap_width b"
  shows "ap_sub a b = Some (ap_of_int (ap_width a) (ap_signed a \<and> ap_signed b) (int (ap_uval a) - int (ap_uval b)))"
proof (cases "64 < ap_width b")
  case True
  have "int (limbs_val (sub_words (ap_limbs a) (ap_limbs b))) mod 2 ^ ap_width b
      = (int (ap_uval a) - int (ap_uval b)) mod 2 ^ ap_width b"
    using assms ap_limbs_length [of a] ap_limbs_length [of b] limb_count_bounds(1) [of "ap_width b"]
    by (simp add: sub_words_val limbs_val_ap mod_pow_le)
  then show ?thesis
    using True assms ap_wf_pos [of b]
    by (simp add: ap_sub_def from_words_eq ap_of_eq_int) (rule ap_of_int_cong)
next
  case False
  then show ?thesis
    using assms ap_wf_pos [of b]
    by (auto simp: ap_sub_def uint_arith64_mod ap_uval_uint intro!: narrow_int_eq)
qed

lemma ap_with_signed_int: "0 < w \<Longrightarrow> ap_with_signed (ap_of_int w s i) t = ap_of_int w t i"
  by (simp add: ap_with_signed_eq ap_of_int_wf ap_of_eq_int ap_of_int_uval) (rule ap_of_int_cong, simp)

lemma ap_neg_eq [ap_ops]:
  assumes "ap_wf a"
  shows "ap_neg a = Some (ap_of_int (ap_width a) (ap_signed a) (- int (ap_uval a)))"
proof (cases "64 < ap_width a")
  case True
  then show ?thesis
    using assms ap_wf_pos [of a]
    by (simp add: ap_neg_def ap_zero_eq ap_sub_eq ap_of_wf ap_of_uval ap_with_signed_int)
next
  case False
  have "NOT (ap_value a) + 1 = 0 - ap_value a" by (simp add: minus_eq_not_plus_1)
  then have "uint (NOT (ap_value a) + 1) mod 2 ^ ap_width a = (- int (ap_uval a)) mod 2 ^ ap_width a"
    using uint_arith64_mod(2) [of "ap_width a" 0 "ap_value a"] False ap_uval_uint [OF assms] by simp
  then show ?thesis
    using False assms ap_wf_pos [of a] by (auto simp: ap_neg_def intro!: narrow_int_eq)
qed

lemma ap_is_negative_num: "ap_wf a \<Longrightarrow> ap_is_negative a \<longleftrightarrow> ap_num a < 0"
  by (auto simp: ap_is_negative_def ap_num_def ap_sval_range(3))

lemma ap_abs_eq [ap_ops]:
  assumes "ap_wf a"
  shows "ap_abs a = Some (ap_of_int (ap_width a) (ap_signed a) \<bar>ap_num a\<bar>)"
proof (cases "ap_num a < 0")
  case True
  have "(- int (ap_uval a)) mod 2 ^ ap_width a = (- ap_num a) mod 2 ^ ap_width a"
    by (simp add: mod_minus_eq flip: ap_num_mod [OF assms])
  then show ?thesis
    using True assms by (simp add: ap_abs_def ap_is_negative_num ap_neg_eq) (rule ap_of_int_cong)
next
  case False
  have "ap_of_int (ap_width a) (ap_signed a) (ap_num a) = a"
    using ap_of_int_self [OF assms] ap_of_int_cong [of "ap_num a" "ap_width a" "int (ap_uval a)"]
      ap_num_mod [OF assms] by (metis mod_mod_trivial)
  then show ?thesis using False assms by (simp add: ap_abs_def ap_is_negative_num)
qed

subsection \<open>Multiplication keeps the low or the high half of the product\<close>

lemma high_half_mod:
  assumes "2 * w \<le> m"
  shows "(i mod 2 ^ m) div 2 ^ w mod 2 ^ w = i div 2 ^ w mod (2 :: int) ^ w"
  unfolding take_bit_eq_mod [symmetric] drop_bit_eq_div [symmetric]
  by (rule bit_eqI) (use assms in \<open>auto simp: bit_take_bit_iff bit_drop_bit_eq\<close>)

lemma u128_product: "uint (word_of_int i * word_of_int j :: u128) = take_bit 128 (i * j)"
  by (simp only: wi_hom_mult uint_word_of_int_eq) simp

lemma u128_low_half:
  assumes "w \<le> 64"
  shows "uint (ucast (word_of_int i * word_of_int j :: u128) :: u64) mod 2 ^ w = i * j mod 2 ^ w"
  unfolding take_bit_eq_mod [symmetric] unsigned_ucast_eq u128_product
  using assms by simp

lemma u128_high_half:
  assumes "w \<le> 64"
  shows "uint (ucast (drop_bit w (word_of_int i * word_of_int j :: u128)) :: u64) mod 2 ^ w
    = i * j div 2 ^ w mod 2 ^ w"
  unfolding take_bit_eq_mod [symmetric] drop_bit_eq_div [symmetric] unsigned_ucast_eq unsigned_drop_bit_eq
    u128_product
  by (rule bit_eqI) (use assms in \<open>auto simp: bit_take_bit_iff bit_drop_bit_eq\<close>)

lemma ucast_u128: "ucast v = (word_of_int (uint (v :: u64)) :: u128)"
  by simp

lemma ap_mul_eq [ap_ops]:
  assumes "ap_wf a" "ap_wf b" "ap_width a = ap_width b"
  shows "ap_mul a b = Some (ap_of_int (ap_width a) (ap_signed a \<and> ap_signed b) (int (ap_uval a) * int (ap_uval b)))"
proof (cases "64 < ap_width b")
  case True
  have "int (limbs_val (mul_words (ap_limbs a) (ap_limbs b))) mod 2 ^ ap_width b
      = (int (ap_uval a) * int (ap_uval b)) mod 2 ^ ap_width b"
    using assms ap_limbs_length [of a] ap_limbs_length [of b] limb_count_bounds(1) [of "ap_width b"]
    by (simp add: mul_words_val limbs_val_ap of_nat_mod mod_pow_le)
  then show ?thesis
    using True assms ap_wf_pos [of b]
    by (simp add: ap_mul_def from_words_eq ap_of_eq_int) (rule ap_of_int_cong)
next
  case False
  have u: "uint (ap_value a) = int (ap_uval a)" "uint (ap_value b) = int (ap_uval b)"
    using False assms by (simp_all add: ap_uval_uint)
  show ?thesis
    using False assms ap_wf_pos [of b] unfolding ap_mul_def Let_def ucast_u128 u
    by (auto simp del: of_int_of_nat_eq simp: u128_low_half intro!: narrow_int_eq)
qed

lemma ap_extract_high:
  assumes "0 < w"
  shows "ap_extract_bits (ap_of_int (2 * w) s i) (2 * w - 1) w = Some (ap_of_int w False (i div 2 ^ w))"
proof -
  let ?a = "ap_of_int (2 * w) s i"
  have e: "2 * w - 1 - w + 1 = w" using assms by simp
  have "ap_extract_bits ?a (2 * w - 1) w = Some (ap_of w False (ap_uval ?a div 2 ^ w))"
    using ap_extract_bits_eq [of ?a w "2 * w - 1"] assms unfolding e by (simp add: ap_of_int_wf)
  also have "ap_of w False (ap_uval ?a div 2 ^ w) = ap_of_int w False (int (ap_uval ?a) div 2 ^ w)"
    using assms by (simp add: ap_of_eq_int of_nat_div)
  also have "\<dots> = ap_of_int w False (i div 2 ^ w)"
    using assms by (intro ap_of_int_cong) (simp add: ap_of_int_uval high_half_mod)
  finally show ?thesis .
qed

lemma ap_mulhu_eq [ap_ops]:
  assumes "ap_wf a" "ap_wf b" "ap_width a = ap_width b"
  shows "ap_mulhu a b = Some (ap_of_int (ap_width a) False (int (ap_uval a) * int (ap_uval b) div 2 ^ ap_width a))"
proof (cases "64 < ap_width b")
  case True
  let ?w = "ap_width b"
  have w: "0 < ?w" using assms ap_wf_pos by simp
  have "ap_uval x mod 2 ^ (2 * ?w) = ap_uval x" if "ap_uval x < 2 ^ ?w" for x
    using less_le_trans [OF that power_increasing [of ?w "2 * ?w" 2]] by simp
  then have "ap_uval (ap_of (2 * ?w) False (ap_uval a)) = ap_uval a"
    "ap_uval (ap_of (2 * ?w) False (ap_uval b)) = ap_uval b"
    using assms w ap_uval_lt [of a] ap_uval_lt [of b] by (simp_all add: ap_of_uval)
  then show ?thesis
    using True assms w
    by (simp add: ap_mulhu_def Let_def ap_zero_extend_eq ap_mul_eq ap_of_wf ap_extract_high [OF w, simplified])
next
  case False
  have u: "uint (ap_value a) = int (ap_uval a)" "uint (ap_value b) = int (ap_uval b)"
    using False assms by (simp_all add: ap_uval_uint)
  show ?thesis
    using False assms ap_wf_pos [of b] unfolding ap_mulhu_def Let_def ucast_u128 u
    by (auto simp del: of_int_of_nat_eq simp: u128_high_half intro!: narrow_int_eq)
qed

lemma ap_sign_extend_eq:
  assumes "ap_wf a" "ap_width a \<le> w"
  shows "ap_sign_extend a w = Some (ap_of_int w (ap_signed a) (ap_num a))"
proof (cases "ap_is_negative a")
  case True
  then have "ap_signed a" by (simp add: ap_is_negative_def)
  then show ?thesis using True assms by (simp add: ap_sign_extend_neg ap_of_int_def ap_num_def)
next
  case False
  then have "ap_num a = int (ap_uval a)"
    using assms by (auto simp: ap_num_def ap_is_negative_def ap_sval_def ap_top_bit_eq)
  then show ?thesis
    using False assms ap_wf_pos [of a] by (simp add: ap_sign_extend_nonneg ap_of_eq_int)
qed

lemma ap_sext_u128_eq:
  assumes "ap_wf a" "ap_width a \<le> 64"
  shows "ap_sext_u128 a = word_of_int (ap_num a)"
proof (cases "ap_is_negative a")
  case True
  have lt: "bit (ap_value a) i \<Longrightarrow> i < ap_width a" for i
    using nat_bit_lt [OF ap_uval_lt [OF assms(1)], of i] narrow_uval [OF assms]
    by (auto simp: bit_unsigned_iff dest: bit64_imp)
  have "(ucast (ap_value a) :: u128) AND push_bit (ap_width a) (- 1) = 0"
    by (rule bit_word_eqI) (auto simp: bit_and_iff bit_unsigned_iff bit_push_bit_iff bit_not_iff bit_mask_iff dest: lt)
  then have "ap_sext_u128 a = ucast (ap_value a) + push_bit (ap_width a) (- 1)"
    using True by (simp add: ap_sext_u128_def disjunctive_add_eq_or)
  also have "\<dots> = word_of_int (int (ap_uval a) - 2 ^ ap_width a)"
    using narrow_uval [OF assms] by (simp add: push_bit_eq_mult)
  also have "int (ap_uval a) - 2 ^ ap_width a = ap_num a"
    using True assms by (simp add: ap_is_negative_def ap_num_def ap_sval_def ap_top_bit_eq)
  finally show ?thesis .
next
  case False
  then have "ap_num a = int (ap_uval a)"
    using assms by (auto simp: ap_num_def ap_is_negative_def ap_sval_def ap_top_bit_eq)
  then show ?thesis using False narrow_uval [OF assms] by (simp add: ap_sext_u128_def)
qed

lemma ap_mulh_eq [ap_ops]:
  assumes "ap_wf a" "ap_wf b" "ap_width a = ap_width b"
  shows "ap_mulh a b = Some (ap_of_int (ap_width a) True (ap_num a * ap_num b div 2 ^ ap_width a))"
proof (cases "64 < ap_width b")
  case True
  let ?w = "ap_width b"
  have w: "0 < ?w" using assms ap_wf_pos by simp
  have e: "ap_of_int (2 * ?w) s (int (ap_uval (ap_of_int (2 * ?w) t i)) * int (ap_uval (ap_of_int (2 * ?w) u j)))
      = ap_of_int (2 * ?w) s (i * j)" for s t u i j
    using w by (intro ap_of_int_cong) (simp add: ap_of_int_uval mod_mult_eq)
  show ?thesis
    using True assms w
    by (simp add: ap_mulh_def Let_def ap_sign_extend_eq ap_mul_eq ap_of_int_wf e
        ap_extract_high [OF w, simplified] ap_with_signed_int)
next
  case False
  then have "ap_sext_u128 a = word_of_int (ap_num a)" "ap_sext_u128 b = word_of_int (ap_num b)"
    using assms by (simp_all add: ap_sext_u128_eq)
  then show ?thesis
    using False assms ap_wf_pos [of b]
    by (auto simp: ap_mulh_def Let_def u128_high_half intro!: narrow_int_eq)
qed

subsection \<open>Division truncates\<close>

lemma ap_neg_int: "0 < w \<Longrightarrow> ap_neg (ap_of_int w s i) = Some (ap_of_int w s (- i))"
  by (simp add: ap_neg_eq ap_of_int_wf ap_of_int_uval) (rule ap_of_int_cong, simp add: mod_minus_eq)

lemma ap_magnitude_eq:
  assumes "ap_wf a"
  obtains ws where "ap_magnitude a = Some ws" "length ws = limb_count (ap_width a)"
    "int (limbs_val ws) = \<bar>ap_sval a\<bar>" "limbs_val ws < 2 ^ ap_width a"
proof (cases "ap_top_bit a")
  case True
  let ?n = "ap_of_int (ap_width a) (ap_signed a) (- int (ap_uval a))"
  have w: "0 < ap_width a" using assms by (rule ap_wf_pos)
  have wf: "ap_wf ?n" using w by (rule ap_of_int_wf)
  have p: "(2 :: int) ^ ap_width a = 2 * 2 ^ (ap_width a - 1)" using w by (metis power_eq_if not_gr_zero)
  have neg: "ap_sval a < 0" using True ap_sval_range(3) [OF assms] by simp
  have "(- int (ap_uval a)) mod 2 ^ ap_width a = (- ap_sval a) mod 2 ^ ap_width a"
    by (simp add: mod_minus_eq flip: ap_sval_mod [OF assms])
  also have "\<dots> = \<bar>ap_sval a\<bar>"
    using neg ap_sval_range(1) [OF assms] p
    by (subst mod_pos_pos_trivial) linarith+
  finally have "int (ap_uval ?n) = \<bar>ap_sval a\<bar>" using w by (simp add: ap_of_int_uval)
  moreover have "ap_magnitude a = Some (ap_limbs ?n)"
    using True assms by (simp add: ap_magnitude_def ap_neg_eq)
  ultimately show ?thesis
    using that [of "ap_limbs ?n"] ap_limbs_length [OF wf] ap_uval_lt [OF wf] by (simp add: limbs_val_ap)
next
  case False
  then have "ap_sval a = int (ap_uval a)" using assms by (simp add: ap_sval_def ap_top_bit_eq)
  then show ?thesis
    using that [of "ap_limbs a"] False ap_limbs_length [OF assms] ap_uval_lt [OF assms]
    by (simp add: ap_magnitude_def limbs_val_ap)
qed

lemma sdiv_abs: "x sdiv y = sgn x * sgn y * (\<bar>x\<bar> div \<bar>y\<bar>)" "x smod y = sgn x * (\<bar>x\<bar> mod \<bar>y :: int\<bar>)"
  by (simp_all add: signed_divide_int_def signed_modulo_int_def)

lemma ap_signed_divrem_eq:
  assumes "ap_wf a" "ap_wf b" "ap_width a = ap_width b" "ap_sval b \<noteq> 0"
  shows "ap_signed_divrem a b = Some (ap_of_int (ap_width a) True (ap_sval a sdiv ap_sval b),
    ap_of_int (ap_width a) True (ap_sval a smod ap_sval b))"
proof -
  let ?w = "ap_width b"
  obtain la where la: "ap_magnitude a = Some la" "length la = limb_count (ap_width a)"
      "int (limbs_val la) = \<bar>ap_sval a\<bar>" "limbs_val la < 2 ^ ap_width a"
    using assms(1) by (rule ap_magnitude_eq)
  obtain lb where lb: "ap_magnitude b = Some lb" "length lb = limb_count (ap_width b)"
      "int (limbs_val lb) = \<bar>ap_sval b\<bar>" "limbs_val lb < 2 ^ ap_width b"
    using assms(2) by (rule ap_magnitude_eq)
  obtain q r where qr: "divrem_words la lb ?w = (q, r)" by fastforce
  have w: "0 < ?w" using assms(2) by (rule ap_wf_pos)
  have "0 < limbs_val lb" using lb(3) assms(4) by linarith
  from divrem_words_val [OF this _ _ _ qr]
  have val: "int (limbs_val q) = \<bar>ap_sval a\<bar> div \<bar>ap_sval b\<bar>" "int (limbs_val r) = \<bar>ap_sval a\<bar> mod \<bar>ap_sval b\<bar>"
    using la lb assms(3) limb_count_bounds(1) [of ?w] by (simp_all add: of_nat_div of_nat_mod)
  have neg: "ap_top_bit a \<longleftrightarrow> ap_sval a < 0" "ap_top_bit b \<longleftrightarrow> ap_sval b < 0"
    using assms ap_sval_range(3) by auto
  have q: "(if ap_top_bit a \<noteq> ap_top_bit b then ap_neg (ap_of_int ?w True (\<bar>ap_sval a\<bar> div \<bar>ap_sval b\<bar>))
        else Some (ap_of_int ?w True (\<bar>ap_sval a\<bar> div \<bar>ap_sval b\<bar>)))
      = Some (ap_of_int ?w True (ap_sval a sdiv ap_sval b))"
    using w assms(4) by (cases "ap_sval a = 0") (auto simp: neg ap_neg_int sdiv_abs sgn_if)
  have r: "(if ap_top_bit a then ap_neg (ap_of_int ?w True (\<bar>ap_sval a\<bar> mod \<bar>ap_sval b\<bar>))
        else Some (ap_of_int ?w True (\<bar>ap_sval a\<bar> mod \<bar>ap_sval b\<bar>)))
      = Some (ap_of_int ?w True (ap_sval a smod ap_sval b))"
    using w by (cases "ap_sval a = 0") (auto simp: neg ap_neg_int sdiv_abs sgn_if)
  have "from_words ?w True q = Some (ap_of_int ?w True (\<bar>ap_sval a\<bar> div \<bar>ap_sval b\<bar>))"
    "from_words ?w True r = Some (ap_of_int ?w True (\<bar>ap_sval a\<bar> mod \<bar>ap_sval b\<bar>))"
    using w by (simp_all add: from_words_eq ap_of_eq_int val)
  then show ?thesis
    unfolding ap_signed_divrem_def la(1) lb(1) assms(3) Let_def
    by (simp only: Option.bind.simps qr prod.case q r)
qed

lemma ap_sval_0_iff: "ap_wf a \<Longrightarrow> ap_sval a = 0 \<longleftrightarrow> ap_uval a = 0"
  using ap_sval_mod [of a] ap_uval_lt [of a] by (cases "ap_uval a = 0") (auto simp: ap_sval_def)

lemma ap_udivrem_eq [ap_ops]:
  assumes "ap_wf a" "ap_wf b" "ap_width a = ap_width b" "ap_uval b \<noteq> 0"
  shows "ap_divrem a b False = Some (ap_of_int (ap_width a) False (int (ap_uval a div ap_uval b)),
    ap_of_int (ap_width a) False (int (ap_uval a mod ap_uval b)))"
proof (cases "64 < ap_width b")
  case True
  obtain q r where qr: "divrem_words (ap_limbs a) (ap_limbs b) (ap_width b) = (q, r)" by fastforce
  have "limbs_val q = ap_uval a div ap_uval b" "limbs_val r = ap_uval a mod ap_uval b"
    using divrem_words_val [OF _ _ _ _ qr] assms ap_limbs_length [of a] ap_limbs_length [of b]
      ap_uval_lt [of a] limb_count_bounds(1) [of "ap_width b"] by (simp_all add: limbs_val_ap)
  then show ?thesis
    using True assms ap_wf_pos [of b]
    by (simp add: ap_divrem_def ap_is_zero_eq qr from_words_eq ap_of_eq_int)
next
  case False
  have "uint (ap_value a) = int (ap_uval a)" "uint (ap_value b) = int (ap_uval b)"
    using False assms by (simp_all add: ap_uval_uint)
  then show ?thesis
    using False assms ap_wf_pos [of b]
    by (auto simp: ap_divrem_def ap_is_zero_eq uint_div_distrib uint_mod_distrib of_nat_div of_nat_mod
        intro!: narrow_int_eq)
qed

lemma ap_sdivrem_eq [ap_ops]:
  assumes "ap_wf a" "ap_wf b" "ap_width a = ap_width b" "ap_uval b \<noteq> 0"
  shows "ap_divrem a b True = Some (ap_of_int (ap_width a) True (ap_sval a sdiv ap_sval b),
    ap_of_int (ap_width a) True (ap_sval a smod ap_sval b))"
proof (cases "64 < ap_width b")
  case True
  then show ?thesis
    using assms by (simp add: ap_divrem_def ap_is_zero_eq ap_signed_divrem_eq ap_sval_0_iff)
next
  case False
  then have "sint (ap_signed_at_width a) = ap_sval a" "sint (ap_signed_at_width b) = ap_sval b"
    using assms by (simp_all add: ap_signed_at_width_eq)
  then show ?thesis
    using False assms ap_wf_pos [of b]
    by (auto simp: ap_divrem_def ap_is_zero_eq Let_def wrapping_div_def wrapping_rem_def uint_word64_mod
        intro!: narrow_int_eq)
qed

lemma ap_divrem_zero: "ap_wf b \<Longrightarrow> ap_uval b = 0 \<Longrightarrow> ap_divrem a b s = None"
  by (simp add: ap_divrem_def ap_is_zero_eq)

subsection \<open>Comparisons order the numbers\<close>

lemma ap_ucmp_eq [ap_ops]:
  assumes "ap_wf a" "ap_wf b" "ap_width a = ap_width b"
  shows "ap_ucmp a b = Some (cmp (ap_uval a) (ap_uval b))"
proof (cases "64 < ap_width b")
  case True
  then show ?thesis
    using assms by (simp add: ap_ucmp_def cmp_words_val ap_limbs_length limbs_val_ap)
next
  case False
  then show ?thesis
    using assms by (simp add: ap_ucmp_def narrow_uval cmp_def word_less_nat_alt word_unat_eq_iff)
qed

lemma ap_scmp_eq [ap_ops]:
  assumes "ap_wf a" "ap_wf b" "ap_width a = ap_width b"
  shows "ap_scmp a b = Some (cmp (ap_sval a) (ap_sval b))"
proof (cases "64 < ap_width b")
  case True
  have "then_with (cmp (ap_top_bit b) (ap_top_bit a)) (cmp (ap_uval a) (ap_uval b)) = cmp (ap_sval a) (ap_sval b)"
  proof (cases "ap_top_bit a = ap_top_bit b")
    case True
    then have "ap_sval a - ap_sval b = int (ap_uval a) - int (ap_uval b)"
      using assms by (simp add: ap_sval_def ap_top_bit_eq)
    then show ?thesis using True by (auto simp: cmp_def)
  next
    case False
    then show ?thesis
      using assms ap_sval_range(3) [of a] ap_sval_range(3) [of b] by (cases "ap_top_bit a") auto
  qed
  then show ?thesis
    using True assms by (simp add: ap_scmp_def cmp_words_val ap_limbs_length limbs_val_ap)
next
  case False
  then show ?thesis
    using assms by (simp add: ap_scmp_def ap_signed_at_width_eq)
qed

lemma ap_predicates_eq [ap_ops]:
  assumes "ap_wf a" "ap_wf b" "ap_width a = ap_width b"
  shows "ap_ult a b = Some (ap_uval a < ap_uval b)" "ap_ule a b = Some (ap_uval a \<le> ap_uval b)"
    "ap_ugt a b = Some (ap_uval b < ap_uval a)" "ap_uge a b = Some (ap_uval b \<le> ap_uval a)"
    "ap_slt a b = Some (ap_sval a < ap_sval b)" "ap_sle a b = Some (ap_sval a \<le> ap_sval b)"
    "ap_sgt a b = Some (ap_sval b < ap_sval a)" "ap_sge a b = Some (ap_sval b \<le> ap_sval a)"
  using assms
  by (auto simp: ap_ult_def ap_ule_def ap_ugt_def ap_uge_def ap_slt_def ap_sle_def ap_sgt_def ap_sge_def
      ap_ucmp_eq ap_scmp_eq)

lemma ap_numeric_key_eq: "ap_wf a \<Longrightarrow> ap_width a \<le> 64 \<Longrightarrow> ap_numeric_key a = ap_num a"
  by (simp add: ap_numeric_key_def ap_num_def ap_to_i64_signed ap_signed_at_width_eq ap_uval_uint)

lemma ap_num_range:
  assumes "ap_wf a" "ap_width a < w"
  shows "- (2 ^ (w - 1)) \<le> ap_num a" "ap_num a < 2 ^ (w - 1)"
proof -
  have le: "(2 :: int) ^ (ap_width a - 1) \<le> 2 ^ (w - 1)" "(2 :: int) ^ ap_width a \<le> 2 ^ (w - 1)"
    using assms(2) by (auto intro: power_increasing)
  have "int (ap_uval a) < 2 ^ ap_width a"
    using ap_uval_lt [OF assms(1)] by (metis of_nat_less_iff of_nat_numeral of_nat_power)
  moreover have "(0 :: int) < 2 ^ (w - 1)" by simp
  ultimately have "- (2 ^ (w - 1)) \<le> ap_num a \<and> ap_num a < 2 ^ (w - 1)"
    using ap_sval_range(1,2) [OF assms(1)] le unfolding ap_num_def
    by (cases "ap_signed a"; simp only: if_True if_False; linarith)
  then show "- (2 ^ (w - 1)) \<le> ap_num a" "ap_num a < 2 ^ (w - 1)" by simp_all
qed

lemma ap_widen_eq:
  assumes "ap_wf a" "ap_width a < w"
  shows "\<exists>s. ap_widen w a = Some (ap_of_int w s (ap_num a))"
proof (cases "ap_is_negative a")
  case True
  then show ?thesis using assms by (auto simp: ap_widen_def ap_sign_extend_eq)
next
  case False
  then have "ap_num a = int (ap_uval a)"
    using assms by (auto simp: ap_num_def ap_is_negative_def ap_sval_def ap_top_bit_eq)
  then show ?thesis using False assms by (auto simp: ap_widen_def ap_zero_extend_eq ap_of_eq_int)
qed

lemma ap_numeric_cmp_eq [ap_ops]:
  assumes "ap_wf a" "ap_wf b"
  shows "ap_numeric_cmp a b = Some (cmp (ap_num a) (ap_num b))"
proof (cases "ap_width a \<le> 64 \<and> ap_width b \<le> 64")
  case True
  then show ?thesis using assms by (simp add: ap_numeric_cmp_def ap_numeric_key_eq)
next
  case False
  let ?w = "max (ap_width a) (ap_width b) + 1"
  have lt: "ap_width a < ?w" "ap_width b < ?w" by (simp_all add: less_Suc_eq_le)
  obtain s t where x: "ap_widen ?w a = Some (ap_of_int ?w s (ap_num a))"
      "ap_widen ?w b = Some (ap_of_int ?w t (ap_num b))"
    using ap_widen_eq [OF assms(1) lt(1)] ap_widen_eq [OF assms(2) lt(2)] by blast
  have "ap_sval (ap_of_int ?w s (ap_num a)) = ap_num a" "ap_sval (ap_of_int ?w t (ap_num b)) = ap_num b"
    using ap_num_range [OF assms(1) lt(1)] ap_num_range [OF assms(2) lt(2)] by (intro ap_of_int_sval; simp)+
  then show ?thesis
    unfolding ap_numeric_cmp_def if_not_P [OF False] Let_def x by (simp add: ap_scmp_eq ap_of_int_wf)
qed

lemma ap_cmp_eq [ap_ops]:
  assumes "ap_wf a" "ap_wf b"
  shows "ap_cmp a b = Some (cmp (ap_num a, ap_width a, ap_signed a) (ap_num b, ap_width b, ap_signed b))"
  using assms by (auto simp: ap_cmp_def ap_numeric_cmp_eq cmp_def)

lemma ap_num_inject:
  assumes "ap_wf a" "ap_wf b" "ap_num a = ap_num b" "ap_width a = ap_width b" "ap_signed a = ap_signed b"
  shows "a = b"
  using assms ap_num_mod [of a] ap_num_mod [of b] by (intro ap_eqI) simp_all

subsection \<open>Bit counts\<close>

lemma position_Some:
  assumes "\<exists>x \<in> set xs. P x"
  obtains k where "position P xs = Some k" "k < length xs" "P (xs ! k)" "\<And>i. i < k \<Longrightarrow> \<not> P (xs ! i)"
proof -
  let ?k = "length (takeWhile (\<lambda>x. \<not> P x) xs)"
  have "?k < length xs"
    using assms by (metis length_takeWhile_le nat_less_le set_takeWhileD takeWhile_eq_all_conv takeWhile_eq_take
        take_all_iff)
  moreover have "\<not> P (xs ! i)" if "i < ?k" for i
    using that by (metis nth_mem set_takeWhileD takeWhile_nth)
  ultimately show ?thesis
    using that [of ?k] nth_length_takeWhile [of "\<lambda>x. \<not> P x" xs] by (simp add: position_def Let_def)
qed

lemma rposition_Some:
  assumes "\<exists>x \<in> set xs. P x"
  obtains k where "rposition P xs = Some k" "k < length xs" "P (xs ! k)"
    "\<And>i. k < i \<Longrightarrow> i < length xs \<Longrightarrow> \<not> P (xs ! i)"
proof -
  obtain k where k: "position P (rev xs) = Some k" "k < length xs" "P (rev xs ! k)"
      "\<And>i. i < k \<Longrightarrow> \<not> P (rev xs ! i)"
    using position_Some [of "rev xs" P] assms by auto
  have "\<not> P (xs ! i)" if "length xs - 1 - k < i" "i < length xs" for i
    using k(4) [of "length xs - 1 - i"] that k(2) by (simp add: rev_nth)
  then show ?thesis
    using that [of "length xs - 1 - k"] k by (simp add: rposition_def rev_nth)
qed

lemma leading_zeros_word:
  assumes "x \<noteq> 0"
  obtains t where "leading_zeros x = 63 - t" "t < 64" "bit x t" "\<And>i. t < i \<Longrightarrow> \<not> bit x i"
proof -
  obtain j where "bit x j" using assms by (auto simp: bit_eq_iff)
  then have ex: "\<exists>i \<in> set [0..<64]. bit x i" using bit64_imp by auto
  then obtain t where t: "rposition (bit x) [0..<64] = Some t" "t < 64" "bit x t"
      "\<And>i. t < i \<Longrightarrow> i < 64 \<Longrightarrow> \<not> bit x i"
    by (rule rposition_Some) force
  then have "leading_zeros x = 63 - t"
    by (auto simp: rposition_def position_def leading_zeros_def Let_def split: if_splits)
  then show ?thesis using t that bit64_imp by metis
qed

lemma trailing_zeros_word:
  assumes "x \<noteq> 0"
  shows "bit x (trailing_zeros x)" "trailing_zeros x < 64" "i < trailing_zeros x \<Longrightarrow> \<not> bit x i"
proof -
  obtain j where "bit x j" using assms by (auto simp: bit_eq_iff)
  then have "\<exists>i \<in> set [0..<64]. bit x i" using bit64_imp by auto
  then obtain k where "position (bit x) [0..<64] = Some k" "k < length [0..<64]"
      "bit x ([0..<64] ! k)" "\<And>i. i < k \<Longrightarrow> \<not> bit x ([0..<64] ! i)"
    by (rule position_Some) blast
  then show "bit x (trailing_zeros x)" "trailing_zeros x < 64" "i < trailing_zeros x \<Longrightarrow> \<not> bit x i"
    by (auto simp: position_def trailing_zeros_def Let_def split: if_splits)
qed

lemma ap_leading_top:
  assumes "ap_wf a" "ap_uval a \<noteq> 0"
  obtains t where "ap_count_leading_zeros a = ap_width a - 1 - t" "t < ap_width a" "bit (ap_uval a) t"
    "\<And>i. t < i \<Longrightarrow> \<not> bit (ap_uval a) i"
proof (cases "64 < ap_width a")
  case True
  let ?ls = "ap_limbs a"
  have "\<exists>x \<in> set ?ls. x \<noteq> 0" using assms(2) by (simp add: ap_uval_def limbs_val_0_iff)
  then obtain k where k: "rposition (\<lambda>l. l \<noteq> 0) ?ls = Some k" "k < length ?ls" "?ls ! k \<noteq> 0"
      "\<And>i. k < i \<Longrightarrow> i < length ?ls \<Longrightarrow> ?ls ! i = 0"
    by (rule rposition_Some) auto
  obtain t where t: "leading_zeros (?ls ! k) = 63 - t" "t < 64" "bit (?ls ! k) t"
      "\<And>i. t < i \<Longrightarrow> \<not> bit (?ls ! k) i"
    using k(3) by (rule leading_zeros_word) blast
  have b: "bit (ap_uval a) (64 * k + t)"
    using t k(2) by (simp add: ap_uval_def bit_limbs_val)
  then have lt: "64 * k + t < ap_width a" using nat_bit_lt ap_uval_lt assms(1) by blast
  have "\<not> bit (ap_uval a) i" if "64 * k + t < i" for i
  proof (cases "i div 64 = k")
    case True
    then have "t < i mod 64" using that mult_div_mod_eq [of 64 i] by linarith
    then show ?thesis using t(4) True by (simp add: ap_uval_def bit_limbs_val)
  next
    case False
    then have "k < i div 64" using that by linarith
    then show ?thesis using k(4) by (auto simp: ap_uval_def bit_limbs_val)
  qed
  moreover have "ap_count_leading_zeros a = ap_width a - 1 - (64 * k + t)"
    using True assms k t lt by (simp add: ap_count_leading_zeros_def ap_is_zero_eq Let_def unwrap_or_def)
  ultimately show ?thesis using that b lt by blast
next
  case False
  have u: "ap_uval a = unat (ap_value a)" using False assms by (simp add: narrow_uval)
  then have e: "ap_value a AND mask_for_width (ap_width a) = ap_value a"
    using ap_uval_lt [OF assms(1)] False by (simp add: word_unat_eq_iff unat_and_mask)
  have "ap_value a \<noteq> 0" using assms(2) u by (auto simp: unat_eq_0)
  then obtain t where t: "leading_zeros (ap_value a) = 63 - t" "t < 64" "bit (ap_value a) t"
      "\<And>i. t < i \<Longrightarrow> \<not> bit (ap_value a) i"
    by (rule leading_zeros_word) blast
  have b: "bit (ap_uval a) t" using t u by (simp add: bit_unsigned_iff)
  then have lt: "t < ap_width a" using nat_bit_lt ap_uval_lt assms(1) by blast
  then show ?thesis
    using that [of t] False assms e t b u
    by (simp add: ap_count_leading_zeros_def ap_is_zero_eq bit_unsigned_iff)
qed

lemma ap_trailing_low:
  assumes "ap_wf a" "ap_uval a \<noteq> 0"
  shows "bit (ap_uval a) (ap_count_trailing_zeros a)"
    "i < ap_count_trailing_zeros a \<Longrightarrow> \<not> bit (ap_uval a) i"
proof -
  have "bit (ap_uval a) (ap_count_trailing_zeros a) \<and> (\<forall>i < ap_count_trailing_zeros a. \<not> bit (ap_uval a) i)"
  proof (cases "64 < ap_width a")
    case True
    let ?ls = "ap_limbs a"
    have "\<exists>x \<in> set ?ls. x \<noteq> 0" using assms(2) by (simp add: ap_uval_def limbs_val_0_iff)
    then obtain k where k: "position (\<lambda>l. l \<noteq> 0) ?ls = Some k" "k < length ?ls" "?ls ! k \<noteq> 0"
        "\<And>i. i < k \<Longrightarrow> ?ls ! i = 0"
      by (rule position_Some) auto
    note t = trailing_zeros_word [OF k(3)]
    have c: "ap_count_trailing_zeros a = 64 * k + trailing_zeros (?ls ! k)"
      using True assms k by (simp add: ap_count_trailing_zeros_def ap_is_zero_eq Let_def unwrap_or_def)
    have "\<not> bit (ap_uval a) i" if "i < 64 * k + trailing_zeros (?ls ! k)" for i
    proof (cases "i div 64 = k")
      case True
      then have "i mod 64 < trailing_zeros (?ls ! k)" using that mult_div_mod_eq [of 64 i] by linarith
      then show ?thesis using t(3) True by (simp add: ap_uval_def bit_limbs_val)
    next
      case False
      then have "i div 64 < k" using that t(2) by linarith
      then show ?thesis using k(4) by (auto simp: ap_uval_def bit_limbs_val)
    qed
    moreover have "bit (ap_uval a) (64 * k + trailing_zeros (?ls ! k))"
      using t k(2) by (simp add: ap_uval_def bit_limbs_val)
    ultimately show ?thesis by (simp add: c)
  next
    case False
    have u: "ap_uval a = unat (ap_value a)" using False assms by (simp add: narrow_uval)
    then have "ap_value a \<noteq> 0" using assms(2) by (auto simp: unat_eq_0)
    note t = trailing_zeros_word [OF this]
    have "bit (ap_uval a) (trailing_zeros (ap_value a))" using t u by (simp add: bit_unsigned_iff)
    moreover from this have "trailing_zeros (ap_value a) < ap_width a"
      using nat_bit_lt ap_uval_lt assms(1) by blast
    ultimately show ?thesis
      using False assms t(3) u by (simp add: ap_count_trailing_zeros_def ap_is_zero_eq bit_unsigned_iff)
  qed
  then show "bit (ap_uval a) (ap_count_trailing_zeros a)"
    "i < ap_count_trailing_zeros a \<Longrightarrow> \<not> bit (ap_uval a) i" by auto
qed

lemma count_ones_card: "count_ones x = card {i. bit (unat x) i}"
proof -
  have "{i. bit (unat x) i} = set (filter (bit x) [0..<64])"
    by (auto simp: bit_unsigned_iff dest: bit64_imp)
  then show ?thesis by (simp only: count_ones_def distinct_card distinct_filter distinct_upt)
qed

lemma card_bits_shifted:
  assumes "x < (2 :: nat) ^ k"
  shows "card {i. bit (x + 2 ^ k * y) i} = card {i. bit x i} + card {i. bit y i}"
proof -
  have b: "bit x i \<Longrightarrow> i < k" for i using assms by (rule nat_bit_lt)
  have "{i. bit (x + 2 ^ k * y) i} = {i. bit x i} \<union> (\<lambda>i. i + k) ` {i. bit y i}"
    using b by (auto simp: bit_add_shifted [OF assms] image_iff split: if_splits)
      (metis le_add_diff_inverse2 not_less)+
  moreover have "{i. bit x i} \<inter> (\<lambda>i. i + k) ` {i. bit y i} = {}" using b by auto
  moreover have "finite {i. bit x i}" using b by (auto intro: finite_subset [of _ "{..<k}"])
  moreover have "finite {i. bit y i}"
    using nat_bit_lt [OF less_exp [of y]] by (auto intro!: finite_subset [of _ "{..<y}"])
  ultimately show ?thesis by (simp add: card_Un_disjoint card_image)
qed

lemma count_ones_limbs: "sum_list (map count_ones ws) = card {i. bit (limbs_val ws) i}"
  by (induction ws) (simp_all add: count_ones_card card_bits_shifted [where k = 64, simplified] unat_lt64 [simplified])

lemma ap_count_ones_eq [ap_ops]:
  assumes "ap_wf a"
  shows "ap_count_ones a = card {i. bit (ap_uval a) i}"
proof (cases "64 < ap_width a")
  case False
  then have "unat (ap_value a AND mask_for_width (ap_width a)) = ap_uval a"
    using assms ap_uval_lt [of a] by (simp add: unat_and_mask narrow_uval)
  then show ?thesis using False by (simp add: ap_count_ones_def count_ones_card)
qed (simp add: ap_count_ones_def count_ones_limbs ap_uval_def)

lemma signed_quotient_range:
  fixes x y M :: int
  assumes "- M \<le> x" "x < M" "- M \<le> y" "y < M" "y \<noteq> 0" "\<not> (x = - M \<and> y = - 1)"
  shows "- M \<le> x sdiv y \<and> x sdiv y < M"
proof -
  have q: "0 \<le> \<bar>x\<bar> div \<bar>y\<bar>" "\<bar>x\<bar> div \<bar>y\<bar> \<le> \<bar>x\<bar>"
    using assms(5) zdiv_mono2 [of "\<bar>x\<bar>" 1 "\<bar>y\<bar>"] by (simp_all add: pos_imp_zdiv_nonneg_iff)
  have s: "x sdiv y = \<bar>x\<bar> div \<bar>y\<bar> \<or> x sdiv y = - (\<bar>x\<bar> div \<bar>y\<bar>)"
    unfolding sdiv_abs by (auto simp: sgn_if)
  show ?thesis
  proof (cases "x = - M")
    case False
    then show ?thesis using q s assms by linarith
  next
    case True
    then have x: "x < 0" using assms by linarith
    show ?thesis
    proof (cases "0 < y")
      case y: True
      then have "x sdiv y \<le> 0" using x q(1) unfolding sdiv_abs by (simp add: sgn_if)
      then show ?thesis using q s assms(1) x True by linarith
    next
      case False
      then have "2 \<le> \<bar>y\<bar>" using assms(5,6) True by linarith
      then have "\<bar>x\<bar> div \<bar>y\<bar> \<le> \<bar>x\<bar> div 2" by (simp add: zdiv_mono2)
      also have "\<dots> < \<bar>x\<bar>" using x by linarith
      finally show ?thesis using s True x q by linarith
    qed
  qed
qed

lemma ap_num_sign_extended:
  assumes "ap_wf a" "ap_width a \<le> w"
  shows "ap_num (ap_of_int w (ap_signed a) (ap_num a)) = ap_num a"
proof -
  have w: "0 < ap_width a" "0 < w" using assms ap_wf_pos [of a] by auto
  have le: "(2 :: int) ^ (ap_width a - 1) \<le> 2 ^ (w - 1)"
    using assms(2) by (auto intro: power_increasing)
  show ?thesis
  proof (cases "ap_signed a")
    case True
    have "- (2 ^ (w - 1)) \<le> ap_sval a" "ap_sval a < 2 ^ (w - 1)"
      using ap_sval_range(1,2) [OF assms(1)] le by linarith+
    then show ?thesis using True w by (simp add: ap_num_def ap_of_int_sval)
  next
    case False
    have "ap_uval a < 2 ^ w"
      using less_le_trans [OF ap_uval_lt [OF assms(1)] power_increasing [OF assms(2), of 2]] by simp
    then have "int (ap_uval a) < 2 ^ w" by (metis of_nat_less_iff of_nat_numeral of_nat_power)
    then show ?thesis using False w by (simp add: ap_num_def ap_of_int_uval)
  qed
qed

lemma ap_ashr_int:
  assumes "ap_wf a"
  shows "\<exists>s. ap_ashr a k = Some (ap_of_int (ap_width a) s (ap_num a div 2 ^ k))"
proof (cases "ap_is_negative a")
  case True
  then have "ap_num a = ap_sval a" by (simp add: ap_is_negative_def ap_num_def)
  then show ?thesis using True assms by (auto simp: ap_ashr_neg ap_of_int_def)
next
  case False
  then have n: "ap_num a = int (ap_uval a)"
    using assms by (auto simp: ap_num_def ap_is_negative_def ap_sval_def ap_top_bit_eq)
  show ?thesis
    using False assms ap_wf_pos [of a] unfolding n by (auto simp: ap_ashr_nonneg ap_of_eq_int of_nat_div)
qed

section \<open>Properties\<close>

text \<open>Two concrete wide values for the witnesses: \<open>-1\<close> and \<open>3\<close> at 72 bits.\<close>

definition minus_one_72 :: APInt where
  "minus_one_72 = \<lparr>ap_width = 72, ap_signed = True, ap_value = 18446744073709551615, ap_high = Some [255]\<rparr>"

definition three_72 :: APInt where
  "three_72 = \<lparr>ap_width = 72, ap_signed = True, ap_value = 3, ap_high = Some [0]\<rparr>"

lemma wide_examples:
  "ap_wf minus_one_72" "ap_wf three_72" "ap_width minus_one_72 = 72" "ap_width three_72 = 72"
  "ap_uval minus_one_72 = 2 ^ 72 - 1" "ap_uval three_72 = 3" "ap_signed minus_one_72" "ap_signed three_72"
  by (simp_all add: ap_wf_def ap_limbs_def limb_count_def minus_one_72_def three_72_def ap_uval_def)

text \<open>C5: addition, subtraction, multiplication and negation of well-formed values of one width never
  panic, give well-formed values of that width, and compute the sum, difference, product and
  negation of the unsigned numbers modulo \<open>2 ^ width\<close>, at every width.\<close>

theorem apint_ring:
  assumes "ap_wf a" "ap_wf b" "ap_width a = ap_width b"
  shows "\<exists>s d p n. ap_add a b = Some s \<and> ap_sub a b = Some d \<and> ap_mul a b = Some p \<and> ap_neg a = Some n \<and>
    ap_wf s \<and> ap_wf d \<and> ap_wf p \<and> ap_wf n \<and>
    ap_width s = ap_width a \<and> ap_width d = ap_width a \<and> ap_width p = ap_width a \<and> ap_width n = ap_width a \<and>
    int (ap_uval s) = (int (ap_uval a) + int (ap_uval b)) mod 2 ^ ap_width a \<and>
    int (ap_uval d) = (int (ap_uval a) - int (ap_uval b)) mod 2 ^ ap_width a \<and>
    int (ap_uval p) = (int (ap_uval a) * int (ap_uval b)) mod 2 ^ ap_width a \<and>
    int (ap_uval n) = (- int (ap_uval a)) mod 2 ^ ap_width a"
  using assms ap_wf_pos [of b]
  by (simp add: ap_add_eq ap_sub_eq ap_mul_eq ap_neg_eq ap_of_int_wf ap_of_int_uval)

theorem apint_ring_witness:
  "\<exists>s d p n. ap_add minus_one_72 three_72 = Some s \<and> ap_sub minus_one_72 three_72 = Some d \<and>
    ap_mul minus_one_72 three_72 = Some p \<and> ap_neg minus_one_72 = Some n \<and>
    int (ap_uval s) = 2 \<and> int (ap_uval n) = 1"
  using apint_ring [of minus_one_72 three_72] by (auto simp: wide_examples)

text \<open>C6: unsigned division of well-formed values of one width by a nonzero divisor never panics, and
  its quotient and remainder are those of Euclidean division; a zero divisor or a width mismatch
  panics.\<close>

theorem apint_unsigned_division:
  assumes "ap_wf a" "ap_wf b"
  shows "(ap_width a = ap_width b \<and> ap_uval b \<noteq> 0 \<longrightarrow>
      (\<exists>q r. ap_udiv a b = Some q \<and> ap_urem a b = Some r \<and> ap_wf q \<and> ap_wf r \<and>
        ap_width q = ap_width a \<and> ap_width r = ap_width a \<and>
        ap_uval a = ap_uval q * ap_uval b + ap_uval r \<and> ap_uval r < ap_uval b)) \<and>
    (ap_width a \<noteq> ap_width b \<or> ap_uval b = 0 \<longrightarrow> ap_udiv a b = None \<and> ap_urem a b = None)"
proof -
  have "ap_uval (ap_of_int (ap_width a) False (int n)) = n" if "n \<le> ap_uval a" for n
  proof -
    have "n mod 2 ^ ap_width a = n" using that ap_uval_lt [OF assms(1)] by (intro mod_less) linarith
    then show ?thesis using ap_wf_pos [OF assms(1)] by (simp add: ap_of_uval flip: ap_of_eq_int)
  qed
  note small = this
  show ?thesis
    using assms ap_wf_pos [OF assms(1)] small [OF div_le_dividend] small [OF mod_less_eq_dividend]
    by (auto simp: ap_udiv_def ap_urem_def ap_udivrem_eq ap_of_int_wf)
      (auto simp: ap_divrem_def ap_is_zero_eq)
qed

theorem apint_unsigned_division_witness:
  "\<exists>q r. ap_udiv minus_one_72 three_72 = Some q \<and> ap_urem minus_one_72 three_72 = Some r \<and>
    2 ^ 72 - 1 = ap_uval q * 3 + ap_uval r \<and> ap_uval r < 3"
  using apint_unsigned_division [of minus_one_72 three_72] by (auto simp: wide_examples)

text \<open>C7: signed division reads both operands as two's complement whatever their flag says, truncates
  toward zero, gives the remainder the dividend's sign, and wraps only at the least value
  divided by \<open>-1\<close>, where the quotient is the dividend again.\<close>

theorem apint_signed_division:
  assumes "ap_wf a" "ap_wf b" "ap_width a = ap_width b" "ap_uval b \<noteq> 0"
  shows "\<exists>q r. ap_sdiv a b = Some q \<and> ap_srem a b = Some r \<and> ap_wf q \<and> ap_wf r \<and>
    ap_width q = ap_width a \<and> ap_width r = ap_width a \<and>
    ap_sval r = ap_sval a smod ap_sval b \<and>
    (if ap_sval a = - (2 ^ (ap_width a - 1)) \<and> ap_sval b = - 1 then ap_sval q = ap_sval a
     else ap_sval q = ap_sval a sdiv ap_sval b)"
proof -
  let ?w = "ap_width a" and ?M = "(2 :: int) ^ (ap_width a - 1)"
  have w: "0 < ?w" using assms ap_wf_pos by simp
  note ra = ap_sval_range(1,2) [OF assms(1)] and rb = ap_sval_range(1,2) [OF assms(2), folded assms(3)]
  have nz: "ap_sval b \<noteq> 0" using assms by (simp add: ap_sval_0_iff)
  have "\<bar>ap_sval a\<bar> mod \<bar>ap_sval b\<bar> < \<bar>ap_sval b\<bar>" "0 \<le> \<bar>ap_sval a\<bar> mod \<bar>ap_sval b\<bar>" using nz by simp_all
  then have r: "- ?M \<le> ap_sval a smod ap_sval b" "ap_sval a smod ap_sval b < ?M"
    using rb unfolding sdiv_abs by (cases "ap_sval a" "0 :: int" rule: linorder_cases; simp; linarith)+
  have q: "ap_sval (ap_of_int ?w True (ap_sval a sdiv ap_sval b)) = ap_sval a sdiv ap_sval b"
    if "\<not> (ap_sval a = - ?M \<and> ap_sval b = - 1)"
    using signed_quotient_range [OF ra rb nz] that w by (intro ap_of_int_sval) auto
  have "(2 :: int) ^ ?w = 2 * ?M" using w by (metis power_eq_if not_gr_zero)
  then have "ap_of_int ?w True ?M = ap_of_int ?w True (- ?M)"
    by (intro ap_of_int_cong) (simp only: mod_eq_dvd_iff, simp)
  then have o: "ap_sval (ap_of_int ?w True (ap_sval a sdiv ap_sval b)) = ap_sval a"
    if "ap_sval a = - ?M" "ap_sval b = - 1"
    using that w by (simp add: ap_of_int_sval)
  show ?thesis
    using assms w r q o by (auto simp: ap_sdiv_def ap_srem_def ap_sdivrem_eq ap_of_int_wf ap_of_int_sval)
qed

theorem apint_signed_division_witness:
  "\<exists>q r. ap_sdiv minus_one_72 three_72 = Some q \<and> ap_srem minus_one_72 three_72 = Some r \<and>
    ap_sval r = ap_sval minus_one_72 smod ap_sval three_72"
  using apint_signed_division [of minus_one_72 three_72] by (auto simp: wide_examples)

text \<open>C21: the high halves: \<open>mulhu\<close> is the upper half of the unsigned double-width product, and
  \<open>mulh\<close> the upper half of the product of the values as their own flags read them.\<close>

theorem apint_mul_high:
  assumes "ap_wf a" "ap_wf b" "ap_width a = ap_width b"
  shows "\<exists>u s. ap_mulhu a b = Some u \<and> ap_mulh a b = Some s \<and> ap_wf u \<and> ap_wf s \<and>
    ap_width u = ap_width a \<and> ap_width s = ap_width a \<and>
    ap_uval u = ap_uval a * ap_uval b div 2 ^ ap_width a \<and>
    int (ap_uval s) = (ap_num a * ap_num b div 2 ^ ap_width a) mod 2 ^ ap_width a"
proof -
  have "ap_uval a * ap_uval b < 2 ^ ap_width a * 2 ^ ap_width a"
    using assms ap_uval_lt [of a] ap_uval_lt [of b] by (intro mult_strict_mono) simp_all
  then have "ap_uval a * ap_uval b div 2 ^ ap_width a < 2 ^ ap_width a"
    by (simp add: div_less_iff_less_mult)
  moreover have "int (ap_uval a) * int (ap_uval b) div 2 ^ ap_width a
      = int (ap_uval a * ap_uval b div 2 ^ ap_width a)" by (simp add: of_nat_div)
  ultimately have u: "ap_uval (ap_of_int (ap_width a) False (int (ap_uval a) * int (ap_uval b) div 2 ^ ap_width a))
      = ap_uval a * ap_uval b div 2 ^ ap_width a"
    using assms ap_wf_pos [of b] by (simp only: ap_of_eq_int [symmetric] ap_of_uval mod_less)
  show ?thesis
    using assms ap_wf_pos [of b] u by (simp add: ap_mulhu_eq ap_mulh_eq ap_of_int_wf ap_of_int_uval)
qed

theorem apint_mul_high_witness:
  "\<exists>u s. ap_mulhu minus_one_72 three_72 = Some u \<and> ap_mulh minus_one_72 three_72 = Some s \<and>
    ap_uval u = (2 ^ 72 - 1) * 3 div 2 ^ 72"
  using apint_mul_high [of minus_one_72 three_72] by (auto simp: wide_examples)

text \<open>C22: \<open>Ord for APInt\<close> never panics on well-formed values of any widths and is a total order:
  \<open>Equal\<close> only on equal values, reversed when the arguments are swapped, transitive, and
  refining the order of the numbers the values stand for.\<close>

theorem apint_total_order:
  assumes "ap_wf a" "ap_wf b" "ap_wf c"
  shows "\<exists>r. ap_cmp a b = Some r \<and> ap_cmp b a = Some (reverse_ord r) \<and> (r = Equal \<longleftrightarrow> a = b) \<and>
    (ap_num a < ap_num b \<longrightarrow> r = Less) \<and>
    (r = Less \<and> ap_cmp b c = Some Less \<longrightarrow> ap_cmp a c = Some Less)"
  using assms ap_num_inject [OF assms(1,2)] by (auto simp: ap_cmp_eq)

theorem apint_total_order_witness:
  "\<exists>r. ap_cmp minus_one_72 three_72 = Some r \<and> ap_cmp three_72 minus_one_72 = Some (reverse_ord r)"
  using apint_total_order [of minus_one_72 three_72 three_72] by (auto simp: wide_examples)

text \<open>C23: the bit counts: the leading-zero count leaves exactly the bits up to the highest set one, the
  trailing-zero count is the position of the lowest, and the population count is the number of
  set bits; a zero value has \<open>width\<close> leading and trailing zeros.\<close>

theorem apint_bit_counts:
  assumes "ap_wf a"
  shows "ap_count_ones a = card {i. bit (ap_uval a) i} \<and>
    (ap_uval a = 0 \<longrightarrow> ap_count_leading_zeros a = ap_width a \<and> ap_count_trailing_zeros a = ap_width a) \<and>
    (ap_uval a \<noteq> 0 \<longrightarrow>
      2 ^ (ap_width a - 1 - ap_count_leading_zeros a) \<le> ap_uval a \<and>
      ap_uval a < 2 ^ (ap_width a - ap_count_leading_zeros a) \<and>
      2 ^ ap_count_trailing_zeros a dvd ap_uval a \<and> \<not> 2 ^ (ap_count_trailing_zeros a + 1) dvd ap_uval a)"
proof -
  have lead: "2 ^ (ap_width a - 1 - ap_count_leading_zeros a) \<le> ap_uval a \<and>
      ap_uval a < 2 ^ (ap_width a - ap_count_leading_zeros a)" if nz: "ap_uval a \<noteq> 0"
  proof -
    obtain t where t: "ap_count_leading_zeros a = ap_width a - 1 - t" "t < ap_width a" "bit (ap_uval a) t"
        "\<And>i. t < i \<Longrightarrow> \<not> bit (ap_uval a) i"
      using ap_leading_top [OF assms nz] by blast
    have lt: "ap_uval a < 2 ^ Suc t" unfolding nat_lt_pow_iff_bits using t(4) not_less_eq by blast
    moreover have "2 ^ t \<le> ap_uval a" using top_bit_ge [OF lt] t(3) by simp
    moreover have "ap_width a - 1 - (ap_width a - 1 - t) = t" "ap_width a - (ap_width a - 1 - t) = Suc t"
      using t(2) by simp_all
    ultimately show ?thesis unfolding t(1) by (simp only: simp_thms)
  qed
  have trail: "2 ^ ap_count_trailing_zeros a dvd ap_uval a \<and> \<not> 2 ^ (ap_count_trailing_zeros a + 1) dvd ap_uval a"
    if "ap_uval a \<noteq> 0"
  proof -
    note t = ap_trailing_low [OF assms that]
    have dvd: "2 ^ k dvd n \<longleftrightarrow> (\<forall>i < k. \<not> bit n i)" for k and n :: nat
      by (auto simp: bit_eq_iff bit_take_bit_iff simp flip: take_bit_eq_0_iff)
    show ?thesis unfolding dvd using t by auto
  qed
  show ?thesis
    using lead trail assms by (auto simp: ap_count_ones_eq ap_count_leading_zeros_def ap_count_trailing_zeros_def ap_is_zero_eq)
qed

theorem apint_bit_counts_witness:
  "2 ^ (71 - ap_count_leading_zeros three_72) \<le> (3 :: nat) \<and> (3 :: nat) < 2 ^ (72 - ap_count_leading_zeros three_72)"
  using apint_bit_counts [of three_72] by (simp add: wide_examples)

text \<open>C24: shifts and width changes act on the number: a left shift multiplies and drops what passes the
  width, a logical right shift divides the unsigned number, an arithmetic one floors the
  division of the number by its own flag, zero and sign extension keep the number, truncation
  keeps the low bits, and \<open>extract_bits\<close> takes the field from \<open>low\<close> to \<open>high\<close>.\<close>

theorem apint_shift_extend:
  assumes "ap_wf a" "ap_width a \<le> w" "0 < v" "v \<le> ap_width a" "low \<le> high" "high < ap_width a"
  shows "\<exists>l r z s t x. ap_shl a k = Some l \<and> ap_lshr a k = Some r \<and> ap_zero_extend a w = Some z \<and>
    ap_sign_extend a w = Some s \<and> ap_truncate a v = Some t \<and> ap_extract_bits a high low = Some x \<and>
    list_all ap_wf [l, r, z, s, t, x] \<and>
    map ap_width [l, r, z, s, t, x] = [ap_width a, ap_width a, w, w, v, high - low + 1] \<and>
    ap_uval l = ap_uval a * 2 ^ k mod 2 ^ ap_width a \<and> ap_uval r = ap_uval a div 2 ^ k \<and>
    ap_uval z = ap_uval a \<and> ap_num s = ap_num a \<and> ap_uval t = ap_uval a mod 2 ^ v \<and>
    ap_uval x = ap_uval a div 2 ^ low mod 2 ^ (high - low + 1)"
proof -
  have w: "0 < ap_width a" "0 < w" using assms(1,2) ap_wf_pos [of a] by auto
  have u: "ap_uval a < 2 ^ ap_width a" using assms(1) by (rule ap_uval_lt)
  then have "ap_uval a mod 2 ^ w = ap_uval a"
    using less_le_trans [OF u power_increasing [OF assms(2), of "2 :: nat"]] by simp
  moreover have "ap_uval a div 2 ^ k mod 2 ^ ap_width a = ap_uval a div 2 ^ k"
    using u by (meson div_le_dividend le_less_trans mod_less)
  moreover have "ap_num (ap_of_int w (ap_signed a) (ap_num a)) = ap_num a"
    using assms(1,2) by (rule ap_num_sign_extended)
  ultimately show ?thesis
    using assms w
    by (simp add: ap_shl_eq ap_lshr_eq ap_zero_extend_eq ap_sign_extend_eq ap_truncate_eq ap_extract_bits_eq
        ap_of_wf ap_of_int_wf ap_of_uval)
qed

theorem apint_shift_extend_witness:
  "\<exists>l s. ap_shl minus_one_72 1 = Some l \<and> ap_sign_extend minus_one_72 80 = Some s \<and>
    ap_uval l = (2 ^ 72 - 1) * 2 mod 2 ^ 72 \<and> ap_num s = ap_num minus_one_72"
  using apint_shift_extend [of minus_one_72 80 8 0 7 1] by (auto simp: wide_examples)

text \<open>The arithmetic right shift floors the division by \<open>2 ^ k\<close> of the number the value's own flag
  reads, at any shift amount; a flagged nonnegative value loses its flag on the way.\<close>

theorem apint_ashr:
  assumes "ap_wf a"
  shows "\<exists>r. ap_ashr a k = Some r \<and> ap_wf r \<and> ap_width r = ap_width a \<and>
    int (ap_uval r) = (ap_num a div 2 ^ k) mod 2 ^ ap_width a"
  using ap_ashr_int [OF assms, of k] ap_wf_pos [OF assms] by (auto simp: ap_of_int_wf ap_of_int_uval)

theorem apint_ashr_witness:
  "\<exists>r. ap_ashr minus_one_72 5 = Some r \<and> int (ap_uval r) = (ap_num minus_one_72 div 2 ^ 5) mod 2 ^ 72"
  using apint_ashr [of minus_one_72 5] by (auto simp: wide_examples)

text \<open>C25: \<open>and\<close>, \<open>or\<close>, \<open>xor\<close> and \<open>not\<close> act bit by bit below the width, in the one-word
  and in the limb-wise representation alike.\<close>

theorem apint_bitwise:
  assumes "ap_wf a" "ap_wf b" "ap_width a = ap_width b"
  shows "\<exists>c d x n. ap_and a b = Some c \<and> ap_or a b = Some d \<and> ap_xor a b = Some x \<and> ap_not a = Some n \<and>
    list_all ap_wf [c, d, x, n] \<and> map ap_width [c, d, x, n] = replicate 4 (ap_width a) \<and>
    (\<forall>i. bit (ap_uval c) i = (bit (ap_uval a) i \<and> bit (ap_uval b) i) \<and>
         bit (ap_uval d) i = (bit (ap_uval a) i \<or> bit (ap_uval b) i) \<and>
         bit (ap_uval x) i = (bit (ap_uval a) i \<noteq> bit (ap_uval b) i) \<and>
         bit (ap_uval n) i = (i < ap_width a \<and> \<not> bit (ap_uval a) i))"
proof -
  have lt: "ap_uval a < 2 ^ ap_width b" "ap_uval b < 2 ^ ap_width b"
    using assms ap_uval_lt [of a] ap_uval_lt [of b] by simp_all
  have c: "2 ^ ap_width b - 1 - ap_uval a < 2 ^ ap_width b" by (simp add: less_imp_diff_less)
  show ?thesis
    using assms ap_wf_pos [of b] bitwise_lt [OF lt] c bit_complement [OF lt(1)]
    by (simp add: ap_bitwise_eq ap_not_eq ap_of_wf ap_of_uval bit_and_iff bit_or_iff bit_xor_iff)
      (simp add: numeral_eq_Suc)
qed

theorem apint_bitwise_witness:
  "\<exists>c. ap_and minus_one_72 three_72 = Some c \<and> bit (ap_uval c) 1 = (bit (2 ^ 72 - 1 :: nat) 1 \<and> bit (3 :: nat) 1)"
  using apint_bitwise [of minus_one_72 three_72] by (auto simp: wide_examples)

end
