(* ===== verification/APIntText.thy ===== *)
theory APIntText
  imports APIntArith
begin

text \<open>
  The text of an \<open>APInt\<close> (\<open>libs/adt/src/apint.rs\<close>): decimal, \<open>Display\<close>, \<open>Binary\<close>,
  \<open>LowerHex\<close> and \<open>UpperHex\<close> formatting, and the \<open>FromStr\<close> parser. A string is the list of
  its characters, each a code point below 256. The standard library's formatting of a machine
  integer (\<open>to_string\<close>, \<open>{:x}\<close> and the zero-padded \<open>{:016x}\<close>, \<open>{:019}\<close>) is
  \<open>radix_digits\<close> and \<open>pad_zeros\<close>.
\<close>

subsection \<open>Standard-library text\<close>

definition digit_char :: "nat \<Rightarrow> char" where
  "digit_char d = char_of (if d < 10 then 48 + d else 87 + d)"

function radix_digits :: "nat \<Rightarrow> nat \<Rightarrow> string" where
  "radix_digits b n = (if n < b \<or> b < 2 then [digit_char n]
                       else radix_digits b (n div b) @ [digit_char (n mod b)])"
  by pat_completeness auto
termination
  by (relation "measure snd") auto

declare radix_digits.simps [simp del]

definition pad_zeros :: "nat \<Rightarrow> string \<Rightarrow> string" where
  "pad_zeros k s = replicate (k - length s) (CHR ''0'') @ s"

text \<open>\<open>char::to_digit\<close>, \<open>char::is_whitespace\<close>, \<open>str::trim\<close> and
  \<open>char::to_uppercase\<close> on ASCII text.\<close>

definition to_digit :: "nat \<Rightarrow> char \<Rightarrow> nat option" where
  "to_digit radix c =
     (let n = of_char c :: nat;
          d = (if 48 \<le> n \<and> n \<le> 57 then n - 48
               else if 97 \<le> n \<and> n \<le> 122 then n - 87
               else if 65 \<le> n \<and> n \<le> 90 then n - 55 else 36)
      in if d < radix then Some d else None)"

definition is_whitespace :: "char \<Rightarrow> bool" where
  "is_whitespace c = (let n = of_char c :: nat in 9 \<le> n \<and> n \<le> 13 \<or> n = 32 \<or> n = 133 \<or> n = 160)"

definition trim :: "string \<Rightarrow> string" where
  "trim s = rev (dropWhile is_whitespace (rev (dropWhile is_whitespace s)))"

definition to_uppercase :: "char \<Rightarrow> char" where
  "to_uppercase c = (let n = of_char c :: nat in if 97 \<le> n \<and> n \<le> 122 then char_of (n - 32) else c)"

fun strip_prefix :: "string \<Rightarrow> string \<Rightarrow> string option" where
  "strip_prefix s [] = Some s"
| "strip_prefix [] (p # ps) = None"
| "strip_prefix (c # s) (p # ps) = (if c = p then strip_prefix s ps else None)"

subsection \<open>Formatting\<close>

definition chunk :: u64 where
  "chunk = 10000000000000000000"

text \<open>One pass of the division by \<open>CHUNK\<close>, from the top limb down.\<close>

fun chunk_pass :: "u64 list \<Rightarrow> u128 \<Rightarrow> u64 list \<times> u128" where
  "chunk_pass [] remainder = ([], remainder)"
| "chunk_pass (word # words) remainder =
     (let current = push_bit 64 remainder OR ucast word;
          (words', remainder') = chunk_pass words (current mod ucast chunk)
      in (ucast (current div ucast chunk) # words', remainder'))"

lemma unat_chunk: "unat chunk = 10 ^ 19" "unat (ucast chunk :: u128) = 10 ^ 19"
  by (simp_all add: chunk_def)

lemma chunk_step:
  fixes r :: u128 and x :: u64
  assumes "unat r < 10 ^ 19"
  defines "c \<equiv> push_bit 64 r OR ucast x"
  shows "unat c = unat r * 2 ^ 64 + unat x" "unat (c mod ucast chunk) < 10 ^ 19"
    "unat (ucast (c div ucast chunk) :: u64) = unat c div 10 ^ 19" "unat (c mod ucast chunk) = unat c mod 10 ^ 19"
proof -
  have r: "bit r i \<Longrightarrow> i < 64" for i
    using nat_bit_lt [of "unat r" 64 i] assms(1) by (auto simp: bit_unsigned_iff dest: bit_imp_le_length)
  have x: "unat x < 2 ^ 64" by (rule unat_lt64)
  have "unat c = unat x + 2 ^ 64 * unat r"
  proof (rule bit_eqI)
    fix i
    show "bit (unat c) i = bit (unat x + 2 ^ 64 * unat r) i"
      unfolding bit_add_shifted [OF x] c_def
      using r [of "i - 64"] bit64_imp [of x i]
      by (auto simp: bit_unsigned_iff bit_or_iff bit_push_bit_iff)
  qed
  then show c: "unat c = unat r * 2 ^ 64 + unat x" by simp
  show "unat (c mod ucast chunk) = unat c mod 10 ^ 19" by (simp only: unat_mod_distrib unat_chunk)
  then show "unat (c mod ucast chunk) < 10 ^ 19" by simp
  have "unat c < 10 ^ 19 * 2 ^ 64" using assms(1) x unfolding c by simp
  then have "unat c div 10 ^ 19 < 2 ^ 64" by (simp add: div_less_iff_less_mult)
  then show "unat (ucast (c div ucast chunk) :: u64) = unat c div 10 ^ 19"
    by (simp add: unat_div_distrib unat_chunk unsigned_ucast_eq take_bit_nat_eq_self)
qed

lemma chunk_pass_val:
  assumes "unat r < 10 ^ 19" "chunk_pass bs r = (qs, r')"
  shows "unat r * 2 ^ (64 * length bs) + limbs_val (rev bs) = 10 ^ 19 * limbs_val (rev qs) + unat r'
    \<and> unat r' < 10 ^ 19 \<and> length qs = length bs"
  using assms
proof (induction bs arbitrary: r qs)
  case (Cons x bs)
  define c where "c = push_bit 64 r OR ucast x"
  obtain ts where t: "chunk_pass bs (c mod ucast chunk) = (ts, r')" "qs = ucast (c div ucast chunk) # ts"
    using Cons.prems(2) by (auto simp: c_def Let_def split: prod.splits)
  note st = chunk_step [OF Cons.prems(1), of x, folded c_def]
  note IH = Cons.IH [OF st(2) t(1)]
  let ?P = "(2 :: nat) ^ (64 * length bs)"
  have "limbs_val (rev qs) = limbs_val (rev ts) + ?P * (unat c div 10 ^ 19)"
    using IH by (simp only: t rev.simps limbs_val_append limbs_val.simps length_rev st(3)) simp
  moreover have "unat c * ?P = 10 ^ 19 * (unat c div 10 ^ 19) * ?P + (unat c mod 10 ^ 19) * ?P"
    by (simp only: mult_div_mod_eq flip: add_mult_distrib)
  moreover have "unat (c mod ucast chunk) * ?P + limbs_val (rev bs) = 10 ^ 19 * limbs_val (rev ts) + unat r'"
    using IH by blast
  ultimately have "unat c * ?P + limbs_val (rev bs) = 10 ^ 19 * limbs_val (rev qs) + unat r'"
    unfolding st(4) by (simp only: add_mult_distrib2 ac_simps)
  moreover have "unat r * 2 ^ (64 * length (x # bs)) + limbs_val (rev (x # bs)) = unat c * ?P + limbs_val (rev bs)"
    unfolding st(1) by (simp add: limbs_val_append power_add algebra_simps)
  ultimately show ?case using IH t by simp
qed simp

function decimal_chunks :: "u64 list \<Rightarrow> u64 list" where
  "decimal_chunks words =
     (if list_ex (\<lambda>word. word \<noteq> 0) words
      then (let (words', remainder) = chunk_pass (rev words) 0
            in ucast remainder # decimal_chunks (rev words'))
      else [])"
  by pat_completeness auto
termination
proof (relation "measure limbs_val", simp)
  fix words x words' remainder
  assume "list_ex (\<lambda>word. word \<noteq> 0) words" "x = chunk_pass (rev words) 0" "(words', remainder) = x"
  moreover from this have "0 < limbs_val words" using limbs_val_0_iff [of words] by (auto simp: list_ex_iff)
  ultimately show "(rev words', words) \<in> measure limbs_val"
    using chunk_pass_val [of 0 "rev words" words' remainder] by simp
qed

declare decimal_chunks.simps [simp del]

text \<open>The chunks are pushed lowest first, the highest popped as the text's head.\<close>

definition ap_decimal :: "APInt \<Rightarrow> string" where
  "ap_decimal a =
     (if ap_width a \<le> 64 then radix_digits 10 (unat (ap_value a))
      else
        (let chunks = decimal_chunks (ap_limbs a);
             text = radix_digits 10 (if chunks = [] then 0 else unat (last chunks))
         in text @ concat (map (\<lambda>c. pad_zeros 19 (radix_digits 10 (unat c))) (rev (butlast chunks)))))"

definition i64_to_string :: "i64 \<Rightarrow> string" where
  "i64_to_string v = (if sint v < 0 then CHR ''-'' # radix_digits 10 (nat (- sint v))
                      else radix_digits 10 (nat (sint v)))"

definition ap_display :: "APInt \<Rightarrow> string option" where
  "ap_display a =
     (if ap_signed a \<and> ap_width a \<le> 64 then Some (i64_to_string (ap_to_i64 a))
      else if ap_is_negative a then do { n \<leftarrow> ap_neg a; Some (CHR ''-'' # ap_decimal n) }
      else Some (ap_decimal a))"

definition ap_binary :: "APInt \<Rightarrow> string" where
  "ap_binary a = map (\<lambda>b. if ap_bit a b then CHR ''1'' else CHR ''0'') (rev [0..<ap_width a])"

definition ap_lower_hex :: "APInt \<Rightarrow> string" where
  "ap_lower_hex a =
     (let limbs = ap_limbs a; top = unwrap_or (rposition (\<lambda>limb. limb \<noteq> 0) limbs) 0
      in radix_digits 16 (unat (limbs ! top)) @
         concat (map (\<lambda>limb. pad_zeros 16 (radix_digits 16 (unat limb))) (rev (take top limbs))))"

definition ap_upper_hex :: "APInt \<Rightarrow> string" where
  "ap_upper_hex a = map to_uppercase (ap_lower_hex a)"

subsection \<open>Parsing\<close>

datatype ParseError = EmptyString | NoDigits string | InvalidDigit char nat

definition split_radix :: "string \<Rightarrow> nat \<times> string" where
  "split_radix s =
     (case strip_prefix s ''0x'' of Some rest \<Rightarrow> (16, rest) | None \<Rightarrow>
      (case strip_prefix s ''0X'' of Some rest \<Rightarrow> (16, rest) | None \<Rightarrow>
      (case strip_prefix s ''0o'' of Some rest \<Rightarrow> (8, rest) | None \<Rightarrow>
      (case strip_prefix s ''0O'' of Some rest \<Rightarrow> (8, rest) | None \<Rightarrow>
      (case strip_prefix s ''0b'' of Some rest \<Rightarrow> (2, rest) | None \<Rightarrow>
      (case strip_prefix s ''0B'' of Some rest \<Rightarrow> (2, rest) | None \<Rightarrow> (10, s)))))))"

fun mul_add_words :: "u64 list \<Rightarrow> u128 \<Rightarrow> u128 \<Rightarrow> u64 list \<times> u128" where
  "mul_add_words [] radix carry = ([], carry)"
| "mul_add_words (word # words) radix carry =
     (let current = ucast word * radix + carry;
          (words', carry') = mul_add_words words radix (drop_bit 64 current)
      in (ucast current # words', carry'))"

fun parse_words :: "nat \<Rightarrow> string \<Rightarrow> u64 list \<Rightarrow> ParseError + u64 list" where
  "parse_words radix [] words = Inr words"
| "parse_words radix (ch # rest) words =
     (case to_digit radix ch of
        None \<Rightarrow> Inl (InvalidDigit ch radix)
      | Some digit \<Rightarrow>
          (let (words', carry) = mul_add_words words (of_nat radix) (of_nat digit)
           in parse_words radix rest (if carry \<noteq> 0 then words' @ [ucast carry] else words')))"

definition ap_from_str :: "string \<Rightarrow> ParseError + APInt option" where
  "ap_from_str input =
     (let s = trim input
      in if s = [] then Inl EmptyString
         else
           (let (radix, digits) = split_radix s;
                clean = filter (\<lambda>c. c \<noteq> CHR ''_'') digits
            in if clean = [] then Inl (NoDigits s)
               else
                 (case parse_words radix clean [0] of
                    Inl e \<Rightarrow> Inl e
                  | Inr words \<Rightarrow>
                      (let top = length words - 1;
                           width = max (64 * top + 64 - leading_zeros (words ! top)) 1
                       in Inr (from_words width False words)))))"

subsection \<open>Digits of a number\<close>

fun fixed_digits :: "nat \<Rightarrow> nat \<Rightarrow> nat \<Rightarrow> string" where
  "fixed_digits b 0 x = []"
| "fixed_digits b (Suc k) x = fixed_digits b k (x div b) @ [digit_char (x mod b)]"

lemma radix_digits_small: "n < b \<Longrightarrow> radix_digits b n = [digit_char n]"
  by (simp add: radix_digits.simps)

lemma radix_digits_step: "2 \<le> b \<Longrightarrow> b \<le> n \<Longrightarrow> radix_digits b n = radix_digits b (n div b) @ [digit_char (n mod b)]"
  by (subst radix_digits.simps) simp

lemma digit_char_0: "digit_char 0 = CHR ''0''"
  by code_simp

lemma digit_char_1: "digit_char (Suc 0) = CHR ''1''"
  by code_simp

lemma fixed_digits_0: "fixed_digits b k 0 = replicate k (digit_char 0)"
  by (induction k) (simp_all add: replicate_append_same)

lemma pad_fixed:
  assumes "2 \<le> b" "0 < k" "x < b ^ k"
  shows "length (radix_digits b x) \<le> k \<and> pad_zeros k (radix_digits b x) = fixed_digits b k x"
  using assms(2,3)
proof (induction k arbitrary: x)
  case (Suc j)
  show ?case
  proof (cases "x < b")
    case True
    then show ?thesis
      by (simp add: radix_digits_small fixed_digits_0 pad_zeros_def digit_char_0)
  next
    case False
    then have "0 < j" using Suc.prems(2) by (cases j) simp_all
    moreover have "x div b < b ^ j"
      using Suc.prems(2) assms(1) by (simp add: div_less_iff_less_mult mult.commute)
    ultimately show ?thesis
      using False assms(1) Suc.IH [of "x div b"] by (simp add: radix_digits_step pad_zeros_def)
  qed
qed simp

lemma radix_digits_shift:
  assumes "2 \<le> b" "0 < y" "x < b ^ k"
  shows "radix_digits b (y * b ^ k + x) = radix_digits b y @ fixed_digits b k x"
  using assms(3)
proof (induction k arbitrary: x)
  case (Suc k)
  have le: "b \<le> y * b ^ Suc k + x"
    using assms(1,2) by (simp add: trans_le_add1)
  have "x div b < b ^ k" using Suc.prems assms(1) by (simp add: div_less_iff_less_mult mult.commute)
  moreover have "(y * b ^ Suc k + x) div b = y * b ^ k + x div b" "(y * b ^ Suc k + x) mod b = x mod b"
    using assms(1) by (simp_all add: mult.left_commute [of y b])
  ultimately show ?case using Suc.IH [of "x div b"] radix_digits_step [OF assms(1) le] by simp
qed simp

lemma radix_digits_pad:
  assumes "2 \<le> b" "0 < y" "0 < k" "x < b ^ k"
  shows "radix_digits b (y * b ^ k + x) = radix_digits b y @ pad_zeros k (radix_digits b x)"
  using radix_digits_shift [OF assms(1,2,4)] pad_fixed [OF assms(1,3,4)] by simp

subsection \<open>Formatting prints the number\<close>

definition chunks_text :: "u64 list \<Rightarrow> string" where
  "chunks_text cs = radix_digits 10 (if cs = [] then 0 else unat (last cs)) @
     concat (map (\<lambda>c. pad_zeros 19 (radix_digits 10 (unat c))) (rev (butlast cs)))"

lemma chunks_text_Cons:
  "cs \<noteq> [] \<Longrightarrow> chunks_text (c # cs) = chunks_text cs @ pad_zeros 19 (radix_digits 10 (unat c))"
  by (simp add: chunks_text_def)

lemma decimal_chunks_text:
  "chunks_text (decimal_chunks words) = radix_digits 10 (limbs_val words) \<and>
   (decimal_chunks words = [] \<longleftrightarrow> limbs_val words = 0)"
proof (induction words rule: decimal_chunks.induct)
  case (1 words)
  show ?case
  proof (cases "list_ex (\<lambda>word. word \<noteq> 0) words")
    case False
    then have "limbs_val words = 0" using limbs_val_0_iff [of words] by (auto simp: list_ex_iff)
    then show ?thesis using False by (simp add: decimal_chunks.simps [of words] chunks_text_def)
  next
    case True
    obtain ws r where p: "chunk_pass (rev words) 0 = (ws, r)" by fastforce
    let ?v = "limbs_val (rev ws)"
    have v: "limbs_val words = 10 ^ 19 * ?v + unat r" "unat r < 10 ^ 19"
      using chunk_pass_val [OF _ p] by simp_all
    have nz: "limbs_val words \<noteq> 0" using limbs_val_0_iff [of words] True by (auto simp: list_ex_iff)
    have e: "decimal_chunks words = ucast r # decimal_chunks (rev ws)"
      using True p by (subst decimal_chunks.simps) simp
    have ur: "unat (ucast r :: u64) = unat r"
      using v(2) by (simp add: unsigned_ucast_eq take_bit_nat_eq_self)
    have IH: "chunks_text (decimal_chunks (rev ws)) = radix_digits 10 ?v"
        "decimal_chunks (rev ws) = [] \<longleftrightarrow> ?v = 0"
      using 1 [OF True p [symmetric] refl] by simp_all
    show ?thesis
    proof (cases "?v = 0")
      case True
      then show ?thesis using IH e v ur nz by (simp add: chunks_text_def)
    next
      case False
      then have "radix_digits 10 (?v * 10 ^ 19 + unat r) = radix_digits 10 ?v @ pad_zeros 19 (radix_digits 10 (unat r))"
        using v(2) by (intro radix_digits_pad) simp_all
      then show ?thesis
        using False IH e ur nz unfolding v(1) mult.commute [of "10 ^ 19"] by (simp add: chunks_text_Cons)
    qed
  qed
qed

lemma ap_decimal_eq: "ap_wf a \<Longrightarrow> ap_decimal a = radix_digits 10 (ap_uval a)"
  using decimal_chunks_text [of "ap_limbs a"]
  by (auto simp: ap_decimal_def narrow_uval chunks_text_def Let_def limbs_val_ap)

lemma hex_limbs:
  assumes "0 < y"
  shows "radix_digits 16 (limbs_val xs + 2 ^ (64 * length xs) * y)
    = radix_digits 16 y @ concat (map (\<lambda>l. pad_zeros 16 (radix_digits 16 (unat l))) (rev xs))"
proof (induction xs)
  case (Cons x xs)
  let ?z = "limbs_val xs + 2 ^ (64 * length xs) * y"
  have e: "limbs_val (x # xs) + 2 ^ (64 * length (x # xs)) * y = ?z * 16 ^ 16 + unat x"
    by (simp add: power_add algebra_simps)
  have "radix_digits 16 (?z * 16 ^ 16 + unat x) = radix_digits 16 ?z @ pad_zeros 16 (radix_digits 16 (unat x))"
    using assms unat_lt64 [of x] by (intro radix_digits_pad) simp_all
  then show ?case unfolding e using Cons.IH by simp
qed simp

lemma ap_lower_hex_eq:
  assumes "ap_wf a"
  shows "ap_lower_hex a = radix_digits 16 (ap_uval a)"
proof (cases "ap_uval a = 0")
  case True
  then have z: "\<forall>l \<in> set (ap_limbs a). l = 0" by (simp add: ap_uval_def limbs_val_0_iff)
  then have t: "takeWhile (\<lambda>l. l = 0) (rev (ap_limbs a)) = rev (ap_limbs a)"
    by (simp add: takeWhile_eq_all_conv)
  then have "rposition (\<lambda>l. l \<noteq> 0) (ap_limbs a) = None"
    unfolding rposition_def position_def Let_def not_not t by simp
  moreover have "ap_limbs a ! 0 = 0" using z by (auto simp: ap_limbs_def)
  ultimately show ?thesis using True by (simp add: ap_lower_hex_def unwrap_or_def)
next
  case False
  let ?ls = "ap_limbs a"
  have "\<exists>x \<in> set ?ls. x \<noteq> 0" using False by (simp add: ap_uval_def limbs_val_0_iff)
  then obtain k where k: "rposition (\<lambda>l. l \<noteq> 0) ?ls = Some k" "k < length ?ls" "?ls ! k \<noteq> 0"
      "\<And>i. k < i \<Longrightarrow> i < length ?ls \<Longrightarrow> ?ls ! i = 0"
    by (rule rposition_Some) auto
  have d: "limbs_val (drop (Suc k) ?ls) = 0"
    using k(4) by (auto simp: limbs_val_0_iff in_set_conv_nth)
  have "?ls = take k ?ls @ ?ls ! k # drop (Suc k) ?ls" using k(2) by (rule id_take_nth_drop)
  then have "limbs_val ?ls = limbs_val (take k ?ls @ ?ls ! k # drop (Suc k) ?ls)" by simp
  also have "\<dots> = limbs_val (take k ?ls) + 2 ^ (64 * k) * unat (?ls ! k)"
    using d k(2) by (simp add: limbs_val_append)
  finally show ?thesis
    using hex_limbs [of "unat (?ls ! k)" "take k ?ls"] k
    by (simp add: ap_lower_hex_def unwrap_or_def ap_uval_def unat_gt_0 min_def Let_def)
qed

subsection \<open>Parsing reads the number\<close>

fun str_val :: "nat \<Rightarrow> nat \<Rightarrow> string \<Rightarrow> nat option" where
  "str_val radix acc [] = Some acc"
| "str_val radix acc (c # s) =
     (case to_digit radix c of None \<Rightarrow> None | Some d \<Rightarrow> str_val radix (acc * radix + d) s)"

lemma str_val_append:
  "str_val radix acc (s @ t) = Option.bind (str_val radix acc s) (\<lambda>v. str_val radix v t)"
  by (induction s arbitrary: acc) (auto split: option.splits)

lemma to_digit_char: "d < radix \<Longrightarrow> radix \<le> 16 \<Longrightarrow> to_digit radix (digit_char d) = Some d"
  by (auto simp: to_digit_def digit_char_def Let_def)

lemma str_val_radix_digits:
  assumes "2 \<le> b" "b \<le> 16"
  shows "str_val b 0 (radix_digits b n) = Some n"
proof (induction n rule: less_induct)
  case (less n)
  show ?case
  proof (cases "n < b")
    case True
    then show ?thesis using assms by (simp add: radix_digits_small to_digit_char)
  next
    case False
    then have "n div b < n" using assms by simp
    then show ?thesis
      using False assms less.IH [of "n div b"]
      by (simp add: radix_digits_step str_val_append to_digit_char)
  qed
qed

lemma mul_add_step:
  fixes x :: u64 and c r :: u128
  assumes "unat c < unat r" "unat r \<le> 16"
  defines "cur \<equiv> ucast x * r + c"
  shows "unat (ucast cur :: u64) + 2 ^ 64 * unat (drop_bit 64 cur) = unat x * unat r + unat c"
    "unat (drop_bit 64 cur) < unat r"
proof -
  have x: "unat x < 2 ^ 64" by (rule unat_lt64)
  have le: "unat x * unat r + unat c < unat r * 2 ^ 64"
  proof -
    have "(unat x + 1) * unat r \<le> 2 ^ 64 * unat r" using x by (intro mult_le_mono1) simp
    then have "unat x * unat r + unat r \<le> unat r * 2 ^ 64"
      by (simp only: add_mult_distrib mult_1 mult.commute [of _ "unat r"] add_mult_distrib2 mult_1_right)
    then show ?thesis using assms(1) by linarith
  qed
  moreover have "unat r * 2 ^ 64 \<le> 2 ^ 68" using assms(2) by simp
  ultimately have lt: "unat x * unat r + unat c < 2 ^ 128" by simp
  have ux: "unat (ucast x :: u128) = unat x" 
    using less_trans [OF x, of "2 ^ 128"] by (simp add: unsigned_ucast_eq take_bit_nat_eq_self)
  have "unat x * unat r < 2 ^ 128" using lt by linarith
  then have "unat (ucast x * r) = unat x * unat r"
    unfolding unat_word_ariths ux by simp
  then have cur: "unat cur = unat x * unat r + unat c"
    unfolding cur_def using lt by (subst unat_add_lem [THEN iffD1]) simp_all
  have "unat (ucast cur :: u64) = unat cur mod 2 ^ 64"
    by (simp add: unsigned_ucast_eq take_bit_eq_mod)
  moreover have d: "unat (drop_bit 64 cur) = unat cur div 2 ^ 64" by (rule unat_drop_bit)
  ultimately show "unat (ucast cur :: u64) + 2 ^ 64 * unat (drop_bit 64 cur) = unat x * unat r + unat c"
    by (simp only: mod_mult_div_eq cur)
  show "unat (drop_bit 64 cur) < unat r"
    unfolding d cur using le by (simp add: div_less_iff_less_mult)
qed

lemma mul_add_words_val:
  assumes "unat c < unat r" "unat r \<le> 16" "mul_add_words ws r c = (ws', c')"
  shows "limbs_val ws' + 2 ^ (64 * length ws) * unat c' = limbs_val ws * unat r + unat c
    \<and> unat c' < unat r \<and> length ws' = length ws"
  using assms
proof (induction ws arbitrary: c ws')
  case (Cons x ws)
  define cur where "cur = ucast x * r + c"
  obtain ts where t: "mul_add_words ws r (drop_bit 64 cur) = (ts, c')" "ws' = ucast cur # ts"
    using Cons.prems(3) by (auto simp: cur_def Let_def split: prod.splits)
  note st = mul_add_step [OF Cons.prems(1,2), of x, folded cur_def]
  note IH = Cons.IH [OF st(2) Cons.prems(2) t(1)]
  have "limbs_val ws' + 2 ^ (64 * length (x # ws)) * unat c'
      = unat (ucast cur :: u64) + 2 ^ 64 * (limbs_val ts + 2 ^ (64 * length ws) * unat c')"
    by (simp add: t power_add algebra_simps)
  also have "\<dots> = unat (ucast cur :: u64) + 2 ^ 64 * unat (drop_bit 64 cur) + 2 ^ 64 * (limbs_val ws * unat r)"
    using IH by (simp only: add_mult_distrib2 ac_simps)
  also have "\<dots> = limbs_val (x # ws) * unat r + unat c"
    unfolding st(1) by (simp add: algebra_simps)
  finally show ?case using IH t by simp
qed simp

definition canonical_words :: "u64 list \<Rightarrow> bool" where
  "canonical_words ws \<longleftrightarrow> ws \<noteq> [] \<and> (length ws = 1 \<or> last ws \<noteq> 0)"

lemma limbs_val_last:
  "ws \<noteq> [] \<Longrightarrow> limbs_val ws = limbs_val (butlast ws) + 2 ^ (64 * (length ws - 1)) * unat (last ws)"
  using limbs_val_append [of "butlast ws" "[last ws]"] by simp

lemma canonical_ge: "canonical_words ws \<Longrightarrow> 1 < length ws \<Longrightarrow> 2 ^ (64 * (length ws - 1)) \<le> limbs_val ws"
proof -
  assume "canonical_words ws" "1 < length ws"
  then have "ws \<noteq> []" "1 \<le> unat (last ws)"
    using unat_gt_0 [of "last ws"] by (auto simp: canonical_words_def Suc_leI)
  then show ?thesis
    using limbs_val_last [of ws] mult_le_mono2 [of 1 "unat (last ws)" "2 ^ (64 * (length ws - 1))"] by linarith
qed

lemma canonicalI:
  assumes "ws \<noteq> []" "1 < length ws \<Longrightarrow> 2 ^ (64 * (length ws - 1)) \<le> limbs_val ws"
  shows "canonical_words ws"
proof (rule ccontr)
  assume "\<not> canonical_words ws"
  then have l: "1 < length ws" "last ws = 0" using assms(1) by (cases ws; auto simp: canonical_words_def)+
  then have "limbs_val ws = limbs_val (butlast ws)" using limbs_val_last [OF assms(1)] by simp
  moreover have "limbs_val (butlast ws) < 2 ^ (64 * (length ws - 1))" using limbs_val_lt [of "butlast ws"] by simp
  ultimately show False using assms(2) [OF l(1)] by simp
qed

lemma to_digit_lt: "to_digit radix c = Some d \<Longrightarrow> d < radix"
  by (auto simp: to_digit_def Let_def split: if_splits)

lemma parse_step:
  assumes "canonical_words ws" "1 < radix" "radix \<le> 16" "d < radix"
    and "mul_add_words ws (of_nat radix) (of_nat d) = (ws', c)"
  defines "vs \<equiv> if c \<noteq> 0 then ws' @ [ucast c] else ws'"
  shows "canonical_words vs" "limbs_val vs = limbs_val ws * radix + d"
proof -
  have u: "unat (of_nat radix :: u128) = radix" "unat (of_nat d :: u128) = d"
    using assms(3,4) by (simp_all add: unat_of_nat)
  from mul_add_words_val [OF _ _ assms(5)] u assms(3,4)
  have val: "limbs_val ws' + 2 ^ (64 * length ws) * unat c = limbs_val ws * radix + d"
    and c: "unat c < 16" and len: "length ws' = length ws" by auto
  have uc: "unat (ucast c :: u64) = unat c"
    using c by (simp add: unsigned_ucast_eq take_bit_nat_eq_self)
  then show vs: "limbs_val vs = limbs_val ws * radix + d"
    using val len by (auto simp: vs_def limbs_val_append)
  show "canonical_words vs"
  proof (cases "c = 0")
    case True
    have "limbs_val ws * 1 \<le> limbs_val ws * radix" using assms(2) by (intro mult_le_mono2) simp
    then have "limbs_val ws \<le> limbs_val vs" unfolding vs by linarith
    then show ?thesis
      using True canonical_ge [OF assms(1)] assms(1) len
      by (intro canonicalI) (auto simp: vs_def canonical_words_def)
  next
    case False
    then have "(ucast c :: u64) \<noteq> 0" using uc by (metis unat_eq_0)
    then show ?thesis using False by (simp add: vs_def canonical_words_def)
  qed
qed

lemma parse_words_val:
  assumes "canonical_words ws" "1 < radix" "radix \<le> 16"
  shows "(\<forall>n. str_val radix (limbs_val ws) s = Some n \<longrightarrow>
      (\<exists>vs. parse_words radix s ws = Inr vs \<and> canonical_words vs \<and> limbs_val vs = n)) \<and>
    (str_val radix (limbs_val ws) s = None \<longrightarrow>
      (\<exists>ch \<in> set s. to_digit radix ch = None \<and> parse_words radix s ws = Inl (InvalidDigit ch radix)))"
  using assms(1)
proof (induction s arbitrary: ws)
  case (Cons ch s)
  show ?case
  proof (cases "to_digit radix ch")
    case (Some d)
    obtain ws' c where m: "mul_add_words ws (of_nat radix) (of_nat d) = (ws', c)" by fastforce
    define vs where "vs = (if c \<noteq> 0 then ws' @ [ucast c] else ws')"
    note st = parse_step [OF Cons.prems assms(2,3) to_digit_lt [OF Some] m, folded vs_def]
    have "parse_words radix (ch # s) ws = parse_words radix s vs"
      using Some m by (simp add: vs_def)
    then show ?thesis using Cons.IH [OF st(1)] Some by (auto simp: st(2))
  qed simp
qed simp

lemma canonical_width:
  assumes "canonical_words ws"
  shows "64 * (length ws - 1) + 64 - leading_zeros (ws ! (length ws - 1)) = bit_length (limbs_val ws)"
proof -
  have ne: "ws \<noteq> []" using assms by (simp add: canonical_words_def)
  then have l: "ws ! (length ws - 1) = last ws" by (simp add: last_conv_nth)
  show ?thesis
  proof (cases "last ws = 0")
    case True
    then have "ws = [0]" using assms by (cases ws) (auto simp: canonical_words_def)
    moreover have "leading_zeros 0 = 64" by (simp add: leading_zeros_def takeWhile_eq_all_conv [THEN iffD2])
    ultimately show ?thesis by (simp add: bit_length.simps)
  next
    case False
    then obtain t where t: "leading_zeros (last ws) = 63 - t" "t < 64" "bit (last ws) t"
        "\<And>i. t < i \<Longrightarrow> \<not> bit (last ws) i"
      by (rule leading_zeros_word) blast
    have u: "unat (last ws) < 2 ^ Suc t" "bit (unat (last ws)) t"
      using t(3,4) unfolding nat_lt_pow_iff_bits by (auto simp: bit_unsigned_iff) (metis not_less_eq)
    then have ge: "2 ^ t \<le> unat (last ws)" using top_bit_ge [of "unat (last ws)" "Suc t"] by simp
    let ?k = "64 * (length ws - 1)"
    have b: "limbs_val (butlast ws) < 2 ^ ?k" using limbs_val_lt [of "butlast ws"] by simp
    have v: "limbs_val ws = limbs_val (butlast ws) + 2 ^ ?k * unat (last ws)" by (rule limbs_val_last [OF ne])
    have "limbs_val ws < 2 ^ ?k * (1 + unat (last ws))" unfolding v using b by (simp add: add_mult_distrib2)
    also have "\<dots> \<le> 2 ^ ?k * 2 ^ Suc t" using u(1) by (intro mult_le_mono2) simp
    finally have hi: "limbs_val ws < 2 ^ (?k + Suc t)" by (simp only: power_add)
    have "2 ^ (?k + t) \<le> limbs_val ws" unfolding v power_add using mult_le_mono2 [OF ge] by (rule trans_le_add2)
    then have "bit_length (limbs_val ws) = ?k + Suc t" using hi by (intro bit_length_unique) simp_all
    then show ?thesis using t(1,2) unfolding l by simp
  qed
qed

lemma split_radix_cases: "fst (split_radix s) \<in> {2, 8, 10, 16}"
  by (auto simp: split_radix_def split: option.splits)

lemma ap_from_str_eq:
  assumes "trim input \<noteq> []" "split_radix (trim input) = (radix, digits)"
    and "filter (\<lambda>c. c \<noteq> CHR ''_'') digits = clean" "clean \<noteq> []" "str_val radix 0 clean = Some n"
  shows "ap_from_str input = Inr (Some (ap_of (max (bit_length n) 1) False n))"
proof -
  have r: "1 < radix" "radix \<le> 16" using split_radix_cases [of "trim input"] assms(2) by auto
  have "canonical_words [0]" by (simp add: canonical_words_def)
  from parse_words_val [OF this r, of clean] assms(5)
  obtain vs where "parse_words radix clean [0] = Inr vs" "canonical_words vs" "limbs_val vs = n" by auto
  then show ?thesis
    using assms canonical_width [of vs] unfolding ap_from_str_def Let_def by (simp add: from_words_eq)
qed

subsection \<open>Printing and parsing\<close>

lemma radix_digits_chars:
  assumes "2 \<le> b" "b \<le> 16" "c \<in> set (radix_digits b n)"
  shows "\<exists>d < b. c = digit_char d"
  using assms(3)
proof (induction n rule: less_induct)
  case (less n)
  show ?case
  proof (cases "n < b")
    case False
    have d: "n div b < n" using False assms by simp
    consider "c \<in> set (radix_digits b (n div b))" | "c = digit_char (n mod b)"
      using less.prems False assms by (auto simp: radix_digits_step)
    then show ?thesis
    proof cases
      case 1
      with d show ?thesis by (rule less.IH)
    next
      case 2
      then show ?thesis using assms(1) by (intro exI [of _ "n mod b"]) simp
    qed
  qed (use less in \<open>auto simp: radix_digits_small\<close>)
qed

lemma radix_digits_nonempty [simp]: "radix_digits b n \<noteq> []"
  by (subst radix_digits.simps) simp

lemma digit_not_special:
  "d < 16 \<Longrightarrow> \<not> is_whitespace (digit_char d) \<and> digit_char d \<noteq> CHR ''_''"
  "d < 10 \<Longrightarrow> digit_char d \<notin> {CHR ''x'', CHR ''X'', CHR ''o'', CHR ''O'', CHR ''b'', CHR ''B''}"
proof -
  have n: "of_char (digit_char d) = (if d < 10 then 48 + d else 87 + d)" if "d < 16"
    using that by (simp add: digit_char_def)
  show "d < 16 \<Longrightarrow> \<not> is_whitespace (digit_char d) \<and> digit_char d \<noteq> CHR ''_''"
    using n by (auto simp: is_whitespace_def Let_def split: if_splits dest: arg_cong [of _ _ "of_char :: char \<Rightarrow> nat"])
  show "d < 10 \<Longrightarrow> digit_char d \<notin> {CHR ''x'', CHR ''X'', CHR ''o'', CHR ''O'', CHR ''b'', CHR ''B''}"
    using n by (auto dest!: arg_cong [of _ _ "of_char :: char \<Rightarrow> nat"])
qed

lemma trim_id: "\<forall>c \<in> set s. \<not> is_whitespace c \<Longrightarrow> trim s = s"
  by (simp add: trim_def dropWhile_id) (metis dropWhile_eq_self_iff hd_in_set rev_rev_ident set_rev)

lemma radix_digits_clean:
  assumes "2 \<le> b" "b \<le> 16" "c \<in> set (radix_digits b n)"
  shows "\<not> is_whitespace c" "c \<noteq> CHR ''_''"
proof -
  obtain d where "d < b" "c = digit_char d" using radix_digits_chars [OF assms] by blast
  then show "\<not> is_whitespace c" "c \<noteq> CHR ''_''" using digit_not_special(1) [of d] assms(2) by auto
qed

lemma filter_clean:
  "2 \<le> b \<Longrightarrow> b \<le> 16 \<Longrightarrow> filter (\<lambda>c. c \<noteq> CHR ''_'') (radix_digits b n) = radix_digits b n"
  using radix_digits_clean(2) [of b _ n] by (intro filter_True) blast

lemmas radix_digits_trim = radix_digits_clean(1)

lemma split_radix_plain:
  assumes "\<forall>c \<in> set s. c \<notin> {CHR ''x'', CHR ''X'', CHR ''o'', CHR ''O'', CHR ''b'', CHR ''B''}"
  shows "split_radix s = (10, s)"
proof -
  have "strip_prefix s [p, q] = None" if "q \<in> {CHR ''x'', CHR ''X'', CHR ''o'', CHR ''O'', CHR ''b'', CHR ''B''}"
    for p q
    using assms that by (cases s; cases "tl s") auto
  then show ?thesis by (simp add: split_radix_def)
qed

lemma from_str_decimal: "ap_from_str (radix_digits 10 n) = Inr (Some (ap_of (max (bit_length n) 1) False n))"
proof -
  let ?s = "radix_digits 10 n"
  have t: "trim ?s = ?s" using radix_digits_trim [of 10 _ n] by (intro trim_id) auto
  have "split_radix ?s = (10, ?s)"
    using radix_digits_chars [of 10 _ n] digit_not_special(2) by (intro split_radix_plain) fastforce
  then show ?thesis
    using str_val_radix_digits [of 10 n] filter_clean [of 10 n] t
    by (intro ap_from_str_eq [of _ 10 ?s ?s]) simp_all
qed

lemma from_str_hex: "ap_from_str (''0x'' @ radix_digits 16 n) = Inr (Some (ap_of (max (bit_length n) 1) False n))"
proof -
  let ?s = "radix_digits 16 n"
  have "\<not> is_whitespace (CHR ''0'')" "\<not> is_whitespace (CHR ''x'')" by (simp_all add: is_whitespace_def)
  then have t: "trim (''0x'' @ ?s) = ''0x'' @ ?s" using radix_digits_trim [of 16 _ n] by (intro trim_id) auto
  moreover have "split_radix (''0x'' @ ?s) = (16, ?s)" by (simp add: split_radix_def)
  ultimately show ?thesis
    using str_val_radix_digits [of 16 n] filter_clean [of 16 n]
    by (intro ap_from_str_eq [of _ 16 ?s ?s]) simp_all
qed

section \<open>Properties\<close>

text \<open>C26: printing and parsing are inverse on the number: the decimal text and the \<open>0x\<close>-prefixed
  hexadecimal text of a well-formed value parse to the unsigned value of the same number at
  the least width that holds it.\<close>

theorem apint_text_roundtrip:
  assumes "ap_wf a"
  shows "\<exists>r. ap_from_str (ap_decimal a) = Inr (Some r) \<and> ap_from_str (''0x'' @ ap_lower_hex a) = Inr (Some r) \<and>
    ap_wf r \<and> \<not> ap_signed r \<and> ap_uval r = ap_uval a \<and>
    (ap_uval a \<noteq> 0 \<longrightarrow> 2 ^ (ap_width r - 1) \<le> ap_uval a)"
proof -
  have "ap_uval a mod 2 ^ max (bit_length (ap_uval a)) 1 = ap_uval a"
    using bit_length_bounds(1) [of "ap_uval a"]
      power_increasing [of "bit_length (ap_uval a)" "max (bit_length (ap_uval a)) 1" "2 :: nat"]
    by (intro mod_less) linarith
  moreover have "ap_uval a \<noteq> 0 \<Longrightarrow> 0 < bit_length (ap_uval a)" by (simp add: bit_length.simps)
  ultimately show ?thesis
    using assms bit_length_bounds(2) [of "ap_uval a"]
    by (simp add: ap_decimal_eq ap_lower_hex_eq from_str_decimal from_str_hex [simplified] ap_of_wf ap_of_uval max_def)
qed

theorem apint_text_roundtrip_witness:
  "\<exists>r. ap_from_str (ap_decimal minus_one_72) = Inr (Some r) \<and> ap_uval r = 2 ^ 72 - 1"
  using apint_text_roundtrip [of minus_one_72] by (auto simp: wide_examples)

text \<open>\<open>Display\<close> prints the number the value's own flag reads: the decimal digits of its
  magnitude, after a minus sign exactly when it is negative.\<close>

theorem apint_display:
  assumes "ap_wf a"
  shows "ap_display a = Some (if ap_num a < 0 then CHR ''-'' # radix_digits 10 (nat (- ap_num a))
    else radix_digits 10 (nat (ap_num a)))"
proof -
  have w: "0 < ap_width a" using assms by (rule ap_wf_pos)
  have nn: "\<not> ap_num a < 0 \<Longrightarrow> nat (ap_num a) = ap_uval a"
    using assms ap_sval_range(3) [OF assms] by (auto simp: ap_num_def ap_sval_def ap_top_bit_eq)
  have neg: "ap_num a < 0 \<Longrightarrow> \<exists>n. ap_neg a = Some n \<and> ap_wf n \<and> ap_uval n = nat (- ap_num a)"
  proof -
    assume lt: "ap_num a < 0"
    then have s: "ap_num a = ap_sval a" by (auto simp: ap_num_def split: if_splits)
    obtain ws where "ap_magnitude a = Some ws" "int (limbs_val ws) = \<bar>ap_sval a\<bar>"
      using assms by (rule ap_magnitude_eq)
    then show ?thesis
      using lt s assms ap_sval_range(3) [OF assms] w ap_neg_eq [OF assms]
      by (auto simp: ap_magnitude_def ap_of_int_wf limbs_val_ap)
  qed
  show ?thesis
  proof (cases "ap_signed a \<and> ap_width a \<le> 64")
    case True
    then show ?thesis
      using assms by (simp add: ap_display_def i64_to_string_def ap_to_i64_signed ap_signed_at_width_eq ap_num_def)
  next
    case False
    then show ?thesis
      using neg nn assms ap_is_negative_num [OF assms]
      by (auto simp: ap_display_def ap_decimal_eq)
  qed
qed

theorem apint_display_witness: "ap_display minus_one_72 = Some ''-1''"
proof -
  have "ap_num minus_one_72 = - 1"
    by (simp add: ap_num_def ap_sval_def wide_examples bit_iff_odd)
  then show ?thesis
    using apint_display [OF wide_examples(1)] digit_char_1 by (simp add: radix_digits_small)
qed

end
