(* ===== verification/SatBase.thy ===== *)
theory SatBase
  imports Prelude
begin

text \<open>
  The data of the CDCL solver of \<open>libs/symbolic/src/sat/mod.rs\<close>: variables, literals, the
  solver's tables, and the operations that read and extend the assignment. A literal is packed as
  in the source, \<open>var << 1 | negated\<close>, here a natural number (a solver with \<open>2 ^ 31\<close>
  variables does not fit in memory, so the source's \<open>u32\<close> does not wrap). The slot of an
  unqueued variable, \<open>usize::MAX\<close>, is \<open>None\<close>.

  Activities are \<open>f64\<close>. The solver only ever holds nonnegative finite ones, and every such number
  is a multiple of \<open>2 ^ -1074\<close>: the model keeps that multiple, a natural number, and rounds the
  exact result of each operation to 53 significant bits, ties to even. The rescaling in
  \<open>bump\<close> keeps activities near \<open>1e100\<close>, far below the overflow threshold, so
  infinities are not modelled.
\<close>

subsection \<open>Nonnegative finite \<open>f64\<close>\<close>

definition round_ratio :: "nat \<Rightarrow> nat \<Rightarrow> nat" where
  "round_ratio p q =
     (let k = bit_length (p div q) - 53;
          u = q * 2 ^ k;
          d = p div u;
          r = p mod u
      in (if u < 2 * r \<or> (2 * r = u \<and> odd d) then d + 1 else d) * 2 ^ k)"

definition f64_add :: "nat \<Rightarrow> nat \<Rightarrow> nat" where
  "f64_add a b = round_ratio (a + b) 1"

definition f64_mul :: "nat \<Rightarrow> nat \<Rightarrow> nat" where
  "f64_mul a b = round_ratio (a * b) (2 ^ 1074)"

definition f64_div :: "nat \<Rightarrow> nat \<Rightarrow> nat" where
  "f64_div a b = round_ratio (a * 2 ^ 1074) b"

text \<open>The literals \<open>1.0\<close>, \<open>1e100\<close>, \<open>1e-100\<close> and \<open>0.95\<close>, each the nearest double.\<close>

definition f64_1 :: nat where
  "f64_1 = 2 ^ 1074"

definition f64_1e100 :: nat where
  "f64_1e100 = 5147557589468029 * 2 ^ 1354"

definition f64_1em100 :: nat where
  "f64_1em100 = 7880401239278896 * 2 ^ 689"

definition f64_0_95 :: nat where
  "f64_0_95 = 8556839292003942 * 2 ^ 1021"

subsection \<open>Literals\<close>

type_synonym Lit = nat
type_synonym Var = nat

definition lit_new :: "Var \<Rightarrow> bool \<Rightarrow> Lit" where
  "lit_new v negated = 2 * v + of_bool negated"

definition lit_var :: "Lit \<Rightarrow> Var" where
  "lit_var l = l div 2"

definition lit_is_negated :: "Lit \<Rightarrow> bool" where
  "lit_is_negated l = odd l"

definition lit_negate :: "Lit \<Rightarrow> Lit" where
  "lit_negate l = l XOR 1"

datatype SatResult = Sat "bool list" | Unsat | Unknown

subsection \<open>The solver\<close>

record Solver =
  sv_clauses :: "Lit list list"
  sv_watches :: "nat list list"
  sv_assign :: "bool option list"
  sv_level :: "nat list"
  sv_reason :: "nat option list"
  sv_phase :: "bool list"
  sv_activity :: "nat list"
  sv_var_inc :: nat
  sv_trail :: "Lit list"
  sv_qhead :: nat
  sv_trail_lim :: "nat list"
  sv_unsat :: bool
  sv_order :: "nat list"
  sv_order_slot :: "nat option list"
  sv_seen :: "bool list"

definition solver_new :: Solver where
  "solver_new = \<lparr>sv_clauses = [], sv_watches = [], sv_assign = [], sv_level = [], sv_reason = [],
     sv_phase = [], sv_activity = [], sv_var_inc = f64_1, sv_trail = [], sv_qhead = 0,
     sv_trail_lim = [], sv_unsat = False, sv_order = [], sv_order_slot = [], sv_seen = []\<rparr>"

abbreviation num_vars :: "Solver \<Rightarrow> nat" where
  "num_vars s \<equiv> length (sv_assign s)"

abbreviation decision_level :: "Solver \<Rightarrow> nat" where
  "decision_level s \<equiv> length (sv_trail_lim s)"

definition value_lit :: "Solver \<Rightarrow> Lit \<Rightarrow> bool option" where
  "value_lit s l = map_option (\<lambda>b. b \<noteq> lit_is_negated l) (sv_assign s ! lit_var l)"

definition sv_value :: "Solver \<Rightarrow> Var \<Rightarrow> bool" where
  "sv_value s v = (case sv_assign s ! v of None \<Rightarrow> False | Some b \<Rightarrow> b)"

definition sv_model :: "Solver \<Rightarrow> bool list" where
  "sv_model s = map (\<lambda>a. case a of None \<Rightarrow> False | Some b \<Rightarrow> b) (sv_assign s)"

text \<open>\<open>enqueue\<close> reports whether the literal holds afterwards.\<close>

definition enqueue :: "Solver \<Rightarrow> Lit \<Rightarrow> nat option \<Rightarrow> bool \<times> Solver" where
  "enqueue s l reason =
     (case value_lit s l of
        Some True \<Rightarrow> (True, s)
      | Some False \<Rightarrow> (False, s)
      | None \<Rightarrow>
          (let v = lit_var l
           in (True, s\<lparr>sv_assign := (sv_assign s)[v := Some (\<not> lit_is_negated l)],
                       sv_level := (sv_level s)[v := decision_level s],
                       sv_reason := (sv_reason s)[v := reason],
                       sv_trail := sv_trail s @ [l]\<rparr>)))"

definition add_watched_clause :: "Solver \<Rightarrow> Lit list \<Rightarrow> nat \<times> Solver" where
  "add_watched_clause s lits =
     (let cref = length (sv_clauses s);
          w = (sv_watches s)[lits ! 0 := sv_watches s ! (lits ! 0) @ [cref]];
          w = w[lits ! 1 := w ! (lits ! 1) @ [cref]]
      in (cref, s\<lparr>sv_watches := w, sv_clauses := sv_clauses s @ [lits]\<rparr>))"

subsection \<open>The Luby sequence\<close>

text \<open>The source's two loops: grow \<open>size\<close> to the first \<open>2 ^ k - 1\<close> past \<open>x\<close>, then
  descend. \<open>seq -= 1\<close> below zero and \<open>x %= 0\<close> would panic: \<open>None\<close>.\<close>

function luby_up :: "nat \<Rightarrow> nat \<Rightarrow> nat \<Rightarrow> nat \<times> nat" where
  "luby_up x sz seq = (if sz < x + 1 then luby_up x (2 * sz + 1) (seq + 1) else (sz, seq))"
  by pat_completeness auto
termination
  by (relation "measure (\<lambda>(x, sz, seq). x + 1 - sz)") auto

declare luby_up.simps [simp del]

fun luby_down :: "nat \<Rightarrow> nat \<Rightarrow> nat \<Rightarrow> nat option" where
  "luby_down seq sz x =
     (if sz - 1 = x then Some (2 ^ seq)
      else case seq of
        0 \<Rightarrow> None
      | Suc seq' \<Rightarrow>
          (let sz' = (sz - 1) div 2
           in if sz' = 0 then None else luby_down seq' sz' (x mod sz')))"

declare luby_down.simps [simp del]

definition luby :: "nat \<Rightarrow> nat option" where
  "luby x = (let (sz, seq) = luby_up x 1 0 in luby_down seq sz x)"

subsection \<open>Literal and Luby lemmas\<close>

lemma lit_negate_eq: "lit_negate l = (if even l then l + 1 else l - 1)"
  unfolding lit_negate_def xor_one_eq by auto

lemma lit_simps [simp]:
  "lit_var (lit_negate l) = lit_var l" "lit_negate (lit_negate l) = l" "lit_negate l \<noteq> l"
  "lit_is_negated (lit_negate l) \<longleftrightarrow> \<not> lit_is_negated l"
  "lit_var (lit_new v b) = v" "lit_is_negated (lit_new v b) = b"
  by (auto simp: lit_negate_eq lit_var_def lit_is_negated_def lit_new_def) presburger+

lemma lit_eq_iff: "l = m \<longleftrightarrow> lit_var l = lit_var m \<and> lit_is_negated l = lit_is_negated m"
  by (auto simp: lit_var_def lit_is_negated_def) presburger

lemma lit_var_eq: "lit_var l = lit_var m \<longleftrightarrow> l = m \<or> l = lit_negate m"
  by (auto simp: lit_eq_iff [of l m] lit_eq_iff [of l "lit_negate m"])

lemma lit_var_lt: "lit_var l < n \<longleftrightarrow> l < 2 * n"
  by (auto simp: lit_var_def)

lemma lit_new_var [simp]: "lit_new (lit_var l) (lit_is_negated l) = l"
  by (simp add: lit_eq_iff)

lemma lit_negate_lt [simp]: "lit_negate l < 2 * n \<longleftrightarrow> l < 2 * n"
  by (simp flip: lit_var_lt)

text \<open>The Luby sequence as its recurrence, counted from one.\<close>

function luby_spec :: "nat \<Rightarrow> nat" where
  "luby_spec i =
     (let k = bit_length i
      in if i = 0 then 0 else if i + 1 = 2 ^ k then 2 ^ (k - 1) else luby_spec (i - (2 ^ (k - 1) - 1)))"
  by pat_completeness auto
termination
proof (relation "measure id", simp)
  fix i k :: nat
  assume a: "k = bit_length i" "i \<noteq> 0" "i + 1 \<noteq> 2 ^ k"
  have "k \<noteq> 1"
    using a bit_length_bounds [of i] by (cases "i = 1") auto
  moreover have "k \<noteq> 0" using a by (simp add: bit_length.simps)
  ultimately have "1 \<le> k - 1" by linarith
  then have "(2 :: nat) ^ 1 \<le> 2 ^ (k - 1)" by (rule power_increasing) simp
  then show "(i - (2 ^ (k - 1) - 1), i) \<in> measure id" using a by simp
qed

declare luby_spec.simps [simp del]

lemma mersenne_step:
  "0 < (2 :: nat) ^ (k + 1) - 1" "(2 :: nat) ^ (Suc k + 1) - 1 = 2 * (2 ^ (k + 1) - 1) + 1"
  "(2 :: nat) ^ (k + 1) = 2 ^ (k + 1) - 1 + 1" "(2 :: nat) ^ k \<le> 2 ^ (k + 1) - 1"
proof -
  have "(1 :: nat) \<le> p \<Longrightarrow> 0 < 2 * p - 1 \<and> 2 * (2 * p) - 1 = 2 * (2 * p - 1) + 1 \<and> 2 * p = 2 * p - 1 + 1 \<and> p \<le> 2 * p - 1"
    for p by linarith
  from this [of "2 ^ k"] show "0 < (2 :: nat) ^ (k + 1) - 1" "(2 :: nat) ^ (Suc k + 1) - 1 = 2 * (2 ^ (k + 1) - 1) + 1"
    "(2 :: nat) ^ (k + 1) = 2 ^ (k + 1) - 1 + 1" "(2 :: nat) ^ k \<le> 2 ^ (k + 1) - 1"
    unfolding Suc_eq_plus1 [symmetric] power_Suc by simp_all
qed

lemma luby_down_spec:
  "x < 2 ^ (seq + 1) - 1 \<Longrightarrow> luby_down seq (2 ^ (seq + 1) - 1) x = Some (luby_spec (x + 1))"
proof (induction seq arbitrary: x)
  case 0
  then show ?case by (simp add: luby_down.simps luby_spec.simps bit_length.simps)
next
  case (Suc seq)
  define m :: nat where "m = 2 ^ (seq + 1) - 1"
  have m: "0 < m" "(2::nat) ^ (Suc seq + 1) - 1 = 2 * m + 1" "2 ^ (seq + 1) = m + 1" "2 ^ seq \<le> m"
    using mersenne_step [of seq] by (simp_all only: m_def)
  show ?case
  proof (cases "x = 2 * m")
    case True
    then have "bit_length (x + 1) = Suc seq + 1"
      using m by (intro bit_length_unique) simp_all
    then show ?thesis
      using True m by (subst luby_down.simps, subst luby_spec.simps) (simp add: Let_def)
  next
    case False
    then have lt: "x < 2 * m" using Suc.prems m by simp
    have down: "luby_down (Suc seq) (2 ^ (Suc seq + 1) - 1) x = luby_down seq m (x mod m)"
      using False m by (subst luby_down.simps) simp
    have ih: "luby_down seq m (x mod m) = Some (luby_spec (x mod m + 1))"
      using Suc.IH [of "x mod m", folded m_def] m(1) by simp
    have "luby_spec (x mod m + 1) = luby_spec (x + 1)"
    proof (cases "x < m")
      case False
      then have "x mod m = x - m" using lt by (simp add: mod_if)
      moreover have "bit_length (x + 1) = Suc seq + 1"
        using m lt False by (intro bit_length_unique) simp_all
      ultimately show ?thesis
        using False lt m by (subst (2) luby_spec.simps) (simp add: Let_def Suc_diff_le)
    qed simp
    then show ?thesis using down ih by simp
  qed
qed

lemma luby_up_spec:
  "2 ^ seq \<le> x + 1 \<Longrightarrow> \<exists>k. luby_up x (2 ^ (seq + 1) - 1) seq = (2 ^ (k + 1) - 1, k) \<and> x < 2 ^ (k + 1) - 1"
proof (induction "x + 1 - (2 ^ (seq + 1) - 1)" arbitrary: seq rule: less_induct)
  case less
  define sz :: nat where "sz = 2 ^ (seq + 1) - 1"
  have sz: "2 * sz + 1 = 2 ^ (Suc seq + 1) - 1" "0 < sz" "2 ^ Suc seq = sz + 1"
    using mersenne_step [of seq] by (simp_all only: sz_def Suc_eq_plus1)
  show ?case
  proof (cases "sz < x + 1")
    case True
    then have "x + 1 - (2 ^ (Suc seq + 1) - 1) < x + 1 - (2 ^ (seq + 1) - 1)"
      using sz(2) unfolding sz(1) [symmetric] sz_def [symmetric] by simp
    from less.hyps [OF this] show ?thesis
      using True sz by (subst luby_up.simps) (simp add: sz_def [symmetric])
  next
    case False
    then show ?thesis
      by (subst luby_up.simps) (auto simp: sz_def [symmetric] intro!: exI [of _ seq] simp: sz_def)
  qed
qed

lemma luby_eq: "luby x = Some (luby_spec (x + 1))"
proof -
  obtain k where "luby_up x 1 0 = (2 ^ (k + 1) - 1, k)" "x < 2 ^ (k + 1) - 1"
    using luby_up_spec [of 0 x] by auto
  then show ?thesis using luby_down_spec [of x k] by (simp add: luby_def)
qed

end
