(* ===== verification/SatHeap.thy ===== *)
theory SatHeap
  imports SatBase
begin

text \<open>
  The branching order of the SAT solver (\<open>libs/symbolic/src/sat/mod.rs\<close>): a binary max-heap of
  variables on \<open>(activity, index)\<close> with a slot table, and the activity updates. The heap
  operations touch four of the solver's fields; \<open>core\<close> forgets exactly those, and every
  operation here keeps the core.
\<close>

subsection \<open>Heap operations\<close>

definition ahead :: "Solver \<Rightarrow> nat \<Rightarrow> nat \<Rightarrow> bool" where
  "ahead s a b = (sv_activity s ! b < sv_activity s ! a \<or> (sv_activity s ! b = sv_activity s ! a \<and> b < a))"

definition swap_slots :: "Solver \<Rightarrow> nat \<Rightarrow> nat \<Rightarrow> Solver" where
  "swap_slots s a b =
     (let order = (sv_order s)[a := sv_order s ! b, b := sv_order s ! a]
      in s\<lparr>sv_order := order,
           sv_order_slot := (sv_order_slot s)[order ! a := Some a, order ! b := Some b]\<rparr>)"

lemma length_order_swap_slots [simp]: "length (sv_order (swap_slots s a b)) = length (sv_order s)"
  by (simp add: swap_slots_def Let_def)

function sift_up :: "Solver \<Rightarrow> nat \<Rightarrow> Solver" where
  "sift_up s slot =
     (if slot = 0 then s
      else
        (let parent = (slot - 1) div 2
         in if \<not> ahead s (sv_order s ! slot) (sv_order s ! parent) then s
            else sift_up (swap_slots s slot parent) parent))"
  by pat_completeness auto
termination
  by (relation "measure snd") auto

definition first_child :: "Solver \<Rightarrow> nat \<Rightarrow> nat" where
  "first_child s slot =
     fold (\<lambda>child first. if child < length (sv_order s) \<and> ahead s (sv_order s ! child) (sv_order s ! first)
                         then child else first) [2 * slot + 1, 2 * slot + 2] slot"

lemma first_child_cases:
  "first_child s slot = slot \<or> slot < first_child s slot \<and> first_child s slot < length (sv_order s)"
  by (auto simp: first_child_def)

function sift_down :: "Solver \<Rightarrow> nat \<Rightarrow> Solver" where
  "sift_down s slot =
     (let first = first_child s slot
      in if first = slot then s else sift_down (swap_slots s slot first) first)"
  by pat_completeness auto
termination
proof (relation "measure (\<lambda>(s, slot). length (sv_order s) - slot)", simp)
  fix s :: Solver and slot first
  assume "first = first_child s slot" "first \<noteq> slot"
  then have "slot < first" "first < length (sv_order s)" using first_child_cases [of s slot] by auto
  then show "((swap_slots s slot first, first), s, slot) \<in> measure (\<lambda>(s, slot). length (sv_order s) - slot)"
    by simp
qed

declare sift_up.simps [simp del] sift_down.simps [simp del]

definition queue :: "Solver \<Rightarrow> nat \<Rightarrow> Solver" where
  "queue s var =
     (if sv_order_slot s ! var = None then
        (let s = s\<lparr>sv_order_slot := (sv_order_slot s)[var := Some (length (sv_order s))]\<rparr>;
             s = s\<lparr>sv_order := sv_order s @ [var]\<rparr>
         in sift_up s (length (sv_order s) - 1))
      else s)"

text \<open>\<open>Vec::swap_remove(0)\<close>: the last element takes the removed one's place.\<close>

definition swap_remove0 :: "'a list \<Rightarrow> 'a list" where
  "swap_remove0 xs = (if length xs \<le> 1 then [] else (butlast xs)[0 := last xs])"

definition unqueue_top :: "Solver \<Rightarrow> Solver" where
  "unqueue_top s =
     (let top = sv_order s ! 0;
          s = s\<lparr>sv_order := swap_remove0 (sv_order s), sv_order_slot := (sv_order_slot s)[top := None]\<rparr>
      in case sv_order s of
           [] \<Rightarrow> s
         | moved # _ \<Rightarrow> sift_down (s\<lparr>sv_order_slot := (sv_order_slot s)[moved := Some 0]\<rparr>) 0)"

definition heapify :: "Solver \<Rightarrow> Solver" where
  "heapify s = fold (\<lambda>slot s. sift_down s slot) (rev [0..<length (sv_order s) div 2]) s"

definition bump :: "Solver \<Rightarrow> nat \<Rightarrow> Solver" where
  "bump s var =
     (let a = f64_add (sv_activity s ! var) (sv_var_inc s);
          s = s\<lparr>sv_activity := (sv_activity s)[var := a]\<rparr>;
          s = (if f64_1e100 < a
               then heapify (s\<lparr>sv_activity := map (\<lambda>act. f64_mul act f64_1em100) (sv_activity s),
                               sv_var_inc := f64_mul (sv_var_inc s) f64_1em100\<rparr>)
               else s)
      in case sv_order_slot s ! var of None \<Rightarrow> s | Some slot \<Rightarrow> sift_up s slot)"

definition decay :: "Solver \<Rightarrow> Solver" where
  "decay s = s\<lparr>sv_var_inc := f64_div (sv_var_inc s) f64_0_95\<rparr>"

subsection \<open>What the heap operations leave alone\<close>

definition core :: "Solver \<Rightarrow> Solver" where
  "core s = s\<lparr>sv_order := [], sv_order_slot := [], sv_activity := [], sv_var_inc := 0\<rparr>"

lemma core_fields:
  assumes "core s = core t"
  shows "sv_clauses s = sv_clauses t" "sv_watches s = sv_watches t" "sv_assign s = sv_assign t"
    "sv_level s = sv_level t" "sv_reason s = sv_reason t" "sv_phase s = sv_phase t" "sv_trail s = sv_trail t"
    "sv_qhead s = sv_qhead t" "sv_trail_lim s = sv_trail_lim t" "sv_unsat s = sv_unsat t" "sv_seen s = sv_seen t"
  using assms by (cases s; cases t; simp add: core_def)+

lemma core_swap_slots [simp]: "core (swap_slots s a b) = core s"
  by (simp add: core_def swap_slots_def Let_def)

lemma core_sift_up [simp]: "core (sift_up s k) = core s"
  by (induction s k rule: sift_up.induct) (subst sift_up.simps, simp add: Let_def)

lemma core_sift_down [simp]: "core (sift_down s k) = core s"
  by (induction s k rule: sift_down.induct) (subst sift_down.simps, simp add: Let_def)

lemma core_queue [simp]: "core (queue s v) = core s"
  by (simp add: queue_def Let_def) (simp add: core_def)

lemma core_unqueue_top [simp]: "core (unqueue_top s) = core s"
  by (simp add: unqueue_top_def Let_def split: list.splits) (simp add: core_def)

lemma core_heapify_fold: "core (fold (\<lambda>slot s. sift_down s slot) ks s) = core s"
  by (induction ks arbitrary: s) simp_all

lemma core_bump [simp]: "core (bump s v) = core s"
  by (simp add: bump_def Let_def heapify_def core_heapify_fold split: option.splits) (simp add: core_def)

lemma core_decay [simp]: "core (decay s) = core s"
  by (simp add: core_def decay_def)

subsection \<open>Slots and membership\<close>

definition slots_ok :: "Solver \<Rightarrow> bool" where
  "slots_ok s \<longleftrightarrow> distinct (sv_order s) \<and> (\<forall>v \<in> set (sv_order s). v < length (sv_order_slot s)) \<and>
     (\<forall>i < length (sv_order s). sv_order_slot s ! (sv_order s ! i) = Some i) \<and>
     (\<forall>v < length (sv_order_slot s). v \<notin> set (sv_order s) \<longrightarrow> sv_order_slot s ! v = None)"

lemma slots_okD:
  assumes "slots_ok s" "v < length (sv_order_slot s)"
  shows "sv_order_slot s ! v = None \<longleftrightarrow> v \<notin> set (sv_order s)"
    "sv_order_slot s ! v = Some i \<Longrightarrow> i < length (sv_order s) \<and> sv_order s ! i = v"
proof -
  show "sv_order_slot s ! v = None \<longleftrightarrow> v \<notin> set (sv_order s)"
    using assms by (auto simp: slots_ok_def in_set_conv_nth)
  show "sv_order_slot s ! v = Some i \<Longrightarrow> i < length (sv_order s) \<and> sv_order s ! i = v"
    using assms by (cases "v \<in> set (sv_order s)") (auto simp: slots_ok_def in_set_conv_nth)
qed

lemma nth_swap:
  "a < length xs \<Longrightarrow> b < length xs \<Longrightarrow> i < length xs \<Longrightarrow>
     xs[a := xs ! b, b := xs ! a] ! i = xs ! (if i = a then b else if i = b then a else i)"
  by (auto simp: nth_list_update)

lemma swap_slots_props:
  assumes "a < length (sv_order s)" "b < length (sv_order s)"
  shows "set (sv_order (swap_slots s a b)) = set (sv_order s)"
    "length (sv_order_slot (swap_slots s a b)) = length (sv_order_slot s)"
    "slots_ok s \<Longrightarrow> slots_ok (swap_slots s a b)"
    "sv_activity (swap_slots s a b) = sv_activity s"
proof -
  let ?o = "sv_order s" and ?l = "sv_order_slot s"
  let ?o' = "?o[a := ?o ! b, b := ?o ! a]"
  show "set (sv_order (swap_slots s a b)) = set (sv_order s)"
    "length (sv_order_slot (swap_slots s a b)) = length (sv_order_slot s)"
    "sv_activity (swap_slots s a b) = sv_activity s"
    using assms by (simp_all add: swap_slots_def Let_def set_swap)
  assume ok: "slots_ok s"
  have d: "distinct ?o'" "set ?o' = set ?o"
    using ok assms by (simp_all add: slots_ok_def distinct_swap set_swap)
  have "?l[?o' ! a := Some a, ?o' ! b := Some b] ! (?o' ! i) = Some i" if "i < length ?o" for i
  proof -
    have lt: "?o' ! i < length ?l" "?o' ! a < length ?l" "?o' ! b < length ?l"
      using ok that assms d(2) nth_mem [of i ?o'] nth_mem [of a ?o'] nth_mem [of b ?o']
      by (simp_all add: slots_ok_def)
    have inj: "?o' ! i = ?o' ! j \<longleftrightarrow> i = j" if "j < length ?o" for j
      using nth_eq_iff_index_eq [OF d(1), of i j] that \<open>i < length ?o\<close> by simp
    show ?thesis
      using lt inj [OF assms(1)] inj [OF assms(2)] ok that assms
      by (cases "i = a"; cases "i = b") (auto simp: nth_list_update slots_ok_def nth_swap)
  qed
  moreover have "?l[?o' ! a := Some a, ?o' ! b := Some b] ! v = None" if "v < length ?l" "v \<notin> set ?o" for v
    using that ok assms d nth_mem [of a ?o'] nth_mem [of b ?o']
    by (auto simp: slots_ok_def nth_list_update)
  ultimately show "slots_ok (swap_slots s a b)"
    using ok d by (simp add: slots_ok_def swap_slots_def Let_def)
qed

lemma sift_up_props:
  assumes "k < length (sv_order s)"
  shows "set (sv_order (sift_up s k)) = set (sv_order s) \<and> length (sv_order (sift_up s k)) = length (sv_order s) \<and>
    length (sv_order_slot (sift_up s k)) = length (sv_order_slot s) \<and>
    sv_activity (sift_up s k) = sv_activity s \<and> sv_var_inc (sift_up s k) = sv_var_inc s \<and>
    (slots_ok s \<longrightarrow> slots_ok (sift_up s k))"
  using assms
proof (induction s k rule: sift_up.induct)
  case (1 s k)
  let ?p = "(k - 1) div 2"
  show ?case
  proof (cases "k = 0 \<or> \<not> ahead s (sv_order s ! k) (sv_order s ! ?p)")
    case True
    then show ?thesis by (subst (1 2 3 4 5 6) sift_up.simps) auto
  next
    case False
    then have e: "sift_up s k = sift_up (swap_slots s k ?p) ?p" by (subst sift_up.simps) (simp add: Let_def)
    have p: "?p < length (sv_order s)" using 1(2) by linarith
    have "sv_var_inc (swap_slots s k ?p) = sv_var_inc s" by (simp add: swap_slots_def Let_def)
    then show ?thesis
      using 1(1) [OF _ refl] False p swap_slots_props [OF 1(2) p] unfolding e by auto
  qed
qed

lemma sift_down_props:
  assumes "k < length (sv_order s)"
  shows "set (sv_order (sift_down s k)) = set (sv_order s) \<and> length (sv_order (sift_down s k)) = length (sv_order s) \<and>
    length (sv_order_slot (sift_down s k)) = length (sv_order_slot s) \<and>
    sv_activity (sift_down s k) = sv_activity s \<and> sv_var_inc (sift_down s k) = sv_var_inc s \<and>
    (slots_ok s \<longrightarrow> slots_ok (sift_down s k))"
  using assms
proof (induction s k rule: sift_down.induct)
  case (1 s k)
  let ?c = "first_child s k"
  show ?case
  proof (cases "?c = k")
    case True
    then show ?thesis by (subst (1 2 3 4 5 6) sift_down.simps) auto
  next
    case False
    then have e: "sift_down s k = sift_down (swap_slots s k ?c) ?c" by (subst sift_down.simps) (simp add: Let_def)
    have c: "?c < length (sv_order s)" using first_child_cases [of s k] False by simp
    have "sv_var_inc (swap_slots s k ?c) = sv_var_inc s" by (simp add: swap_slots_def Let_def)
    then show ?thesis
      using 1(1) [OF refl False] c swap_slots_props [OF 1(2) c] unfolding e by auto
  qed
qed

lemma heapify_fold_props:
  assumes "\<forall>k \<in> set ks. k < length (sv_order s)"
  shows "set (sv_order (fold (\<lambda>k s. sift_down s k) ks s)) = set (sv_order s) \<and>
    length (sv_order (fold (\<lambda>k s. sift_down s k) ks s)) = length (sv_order s) \<and>
    length (sv_order_slot (fold (\<lambda>k s. sift_down s k) ks s)) = length (sv_order_slot s) \<and>
    sv_activity (fold (\<lambda>k s. sift_down s k) ks s) = sv_activity s \<and>
    sv_var_inc (fold (\<lambda>k s. sift_down s k) ks s) = sv_var_inc s \<and>
    (slots_ok s \<longrightarrow> slots_ok (fold (\<lambda>k s. sift_down s k) ks s))"
  using assms
proof (induction ks arbitrary: s)
  case (Cons k ks)
  then show ?case using sift_down_props [of k s] Cons.IH [of "sift_down s k"] by auto
qed simp

lemma heapify_props:
  "set (sv_order (heapify s)) = set (sv_order s) \<and> length (sv_order (heapify s)) = length (sv_order s) \<and>
    length (sv_order_slot (heapify s)) = length (sv_order_slot s) \<and>
    sv_activity (heapify s) = sv_activity s \<and> sv_var_inc (heapify s) = sv_var_inc s \<and>
    (slots_ok s \<longrightarrow> slots_ok (heapify s))"
  unfolding heapify_def by (rule heapify_fold_props) auto

lemma slots_ok_cong:
  "sv_order s = sv_order t \<Longrightarrow> sv_order_slot s = sv_order_slot t \<Longrightarrow> slots_ok s = slots_ok t"
  by (simp add: slots_ok_def)

lemma queue_props:
  assumes "slots_ok s" "v < length (sv_order_slot s)"
  shows "set (sv_order (queue s v)) = insert v (set (sv_order s))" "slots_ok (queue s v)"
    "length (sv_order_slot (queue s v)) = length (sv_order_slot s)" "sv_activity (queue s v) = sv_activity s"
    "sv_var_inc (queue s v) = sv_var_inc s"
proof -
  let ?t = "s\<lparr>sv_order_slot := (sv_order_slot s)[v := Some (length (sv_order s))], sv_order := sv_order s @ [v]\<rparr>"
  have "set (sv_order (queue s v)) = insert v (set (sv_order s)) \<and> slots_ok (queue s v) \<and>
    length (sv_order_slot (queue s v)) = length (sv_order_slot s) \<and> sv_activity (queue s v) = sv_activity s \<and>
    sv_var_inc (queue s v) = sv_var_inc s"
  proof (cases "sv_order_slot s ! v = None")
    case True
    then have n: "v \<notin> set (sv_order s)" using slots_okD(1) [OF assms] by simp
    have "sv_order s ! i \<noteq> v" if "i < length (sv_order s)" for i using n that nth_mem by metis
    then have "slots_ok ?t"
      using assms n by (auto simp: slots_ok_def nth_append nth_list_update less_Suc_eq)
    moreover have "queue s v = sift_up ?t (length (sv_order s))"
      using True by (simp add: queue_def Let_def)
    ultimately show ?thesis using sift_up_props [of "length (sv_order s)" ?t] by simp
  next
    case False
    then have "v \<in> set (sv_order s)" using slots_okD(1) [OF assms] by simp
    then show ?thesis using False assms by (auto simp: queue_def)
  qed
  then show "set (sv_order (queue s v)) = insert v (set (sv_order s))" "slots_ok (queue s v)"
    "length (sv_order_slot (queue s v)) = length (sv_order_slot s)" "sv_activity (queue s v) = sv_activity s"
    "sv_var_inc (queue s v) = sv_var_inc s"
    by simp_all
qed

lemma swap_remove0_props:
  assumes "distinct xs" "xs \<noteq> []"
  shows "set (swap_remove0 xs) = set xs - {xs ! 0}" "distinct (swap_remove0 xs)"
    "length (swap_remove0 xs) = length xs - 1"
    "i < length xs - 1 \<Longrightarrow> swap_remove0 xs ! i = (if i = 0 then last xs else xs ! i)"
proof -
  obtain x ys where xs: "xs = x # ys" using assms(2) by (cases xs) auto
  show "set (swap_remove0 xs) = set xs - {xs ! 0}" "distinct (swap_remove0 xs)"
    "length (swap_remove0 xs) = length xs - 1"
    "i < length xs - 1 \<Longrightarrow> swap_remove0 xs ! i = (if i = 0 then last xs else xs ! i)"
    using assms(1) unfolding xs swap_remove0_def
    by (cases ys rule: rev_cases; auto simp: nth_list_update nth_append nth_Cons split: nat.splits)+
qed

lemma unqueue_top_props:
  assumes "slots_ok s" "sv_order s \<noteq> []"
  shows "set (sv_order (unqueue_top s)) = set (sv_order s) - {sv_order s ! 0}" "slots_ok (unqueue_top s)"
    "length (sv_order_slot (unqueue_top s)) = length (sv_order_slot s)"
    "sv_activity (unqueue_top s) = sv_activity s"
    "length (sv_order (unqueue_top s)) = length (sv_order s) - 1"
proof -
  let ?xs = "swap_remove0 (sv_order s)" and ?top = "sv_order s ! 0"
  have d: "distinct (sv_order s)" using assms(1) by (simp add: slots_ok_def)
  note sr = swap_remove0_props [OF d assms(2)]
  have tl: "?top \<in> set (sv_order s)" "?top < length (sv_order_slot s)"
    using assms nth_mem [of 0 "sv_order s"] by (auto simp: slots_ok_def)
  have "set (sv_order (unqueue_top s)) = set (sv_order s) - {?top} \<and> slots_ok (unqueue_top s) \<and>
    length (sv_order_slot (unqueue_top s)) = length (sv_order_slot s) \<and> sv_activity (unqueue_top s) = sv_activity s \<and>
    length (sv_order (unqueue_top s)) = length (sv_order s) - 1"
  proof (cases ?xs)
    case Nil
    then have one: "set (sv_order s) = {?top}" using sr(1) tl(1) by auto
    have "slots_ok (unqueue_top s)"
      using Nil assms(1) tl one by (auto simp: unqueue_top_def Let_def slots_ok_def nth_list_update)
    then show ?thesis using Nil sr one by (simp add: unqueue_top_def Let_def)
  next
    case (Cons m ms)
    let ?t = "s\<lparr>sv_order := ?xs, sv_order_slot := (sv_order_slot s)[?top := None, m := Some 0]\<rparr>"
    have len: "length (sv_order s) = Suc (length ?xs)" using assms(2) sr(3) by (cases "sv_order s") auto
    have m: "m \<in> set ?xs" "m \<noteq> ?top" "m < length (sv_order_slot s)"
      using Cons sr(1) assms(1) by (auto simp: slots_ok_def)
    have ix: "?xs ! i = (if i = 0 then m else sv_order s ! i)" if "i < length ?xs" for i
      using that sr(4) [of i] Cons len by (cases i) simp_all
    have ne: "?xs ! i \<noteq> ?top" if "i < length ?xs" for i using nth_mem [OF that] sr(1) by auto
    have inj: "?xs ! i = m \<longleftrightarrow> i = 0" if "i < length ?xs" for i
      using nth_eq_iff_index_eq [OF sr(2) that, of 0] ix [of 0] Cons by simp
    have "sv_order_slot ?t ! (?xs ! i) = Some i" if i: "i < length ?xs" for i
      using i ix [OF i] ne [OF i] inj [OF i] assms(1) len m nth_mem [OF i] sr(1)
      by (cases "i = 0") (auto simp: nth_list_update slots_ok_def)
    moreover have "sv_order_slot ?t ! v = None" if "v < length (sv_order_slot s)" "v \<notin> set ?xs" for v
      using that m tl(2) sr(1) assms(1) by (auto simp: nth_list_update slots_ok_def)
    ultimately have "slots_ok ?t" using sr assms(1) by (auto simp: slots_ok_def)
    moreover have "unqueue_top s = sift_down ?t 0"
      using Cons by (simp add: unqueue_top_def Let_def)
    ultimately show ?thesis using sift_down_props [of 0 ?t] sr Cons by simp
  qed
  then show "set (sv_order (unqueue_top s)) = set (sv_order s) - {sv_order s ! 0}" "slots_ok (unqueue_top s)"
    "length (sv_order_slot (unqueue_top s)) = length (sv_order_slot s)" "sv_activity (unqueue_top s) = sv_activity s"
    "length (sv_order (unqueue_top s)) = length (sv_order s) - 1"
    by simp_all
qed

lemma bump_props:
  assumes "slots_ok s" "v < length (sv_order_slot s)"
  shows "set (sv_order (bump s v)) = set (sv_order s)" "slots_ok (bump s v)"
    "length (sv_order_slot (bump s v)) = length (sv_order_slot s)"
    "length (sv_activity (bump s v)) = length (sv_activity s)"
proof -
  define a where "a = f64_add (sv_activity s ! v) (sv_var_inc s)"
  define t where "t = s\<lparr>sv_activity := (sv_activity s)[v := a]\<rparr>"
  define u where "u = (if f64_1e100 < a
      then heapify (t\<lparr>sv_activity := map (\<lambda>act. f64_mul act f64_1em100) (sv_activity t),
                      sv_var_inc := f64_mul (sv_var_inc t) f64_1em100\<rparr>) else t)"
  have b: "bump s v = (case sv_order_slot u ! v of None \<Rightarrow> u | Some slot \<Rightarrow> sift_up u slot)"
    unfolding bump_def Let_def u_def t_def a_def by (rule refl)
  have t: "slots_ok t" "sv_order t = sv_order s" "sv_order_slot t = sv_order_slot s"
      "length (sv_activity t) = length (sv_activity s)"
    using assms(1) by (simp_all add: t_def slots_ok_def)
  have u: "slots_ok u" "set (sv_order u) = set (sv_order s)" "length (sv_order_slot u) = length (sv_order_slot s)"
      "length (sv_activity u) = length (sv_activity s)"
    using t heapify_props [of "t\<lparr>sv_activity := map (\<lambda>act. f64_mul act f64_1em100) (sv_activity t),
        sv_var_inc := f64_mul (sv_var_inc t) f64_1em100\<rparr>"]
    by (auto simp: u_def slots_ok_cong [of "t\<lparr>sv_activity := _, sv_var_inc := _\<rparr>" t])
  have "sv_order_slot u ! v = Some k \<Longrightarrow> k < length (sv_order u)" for k
    using slots_okD(2) [OF u(1), of v k] u(3) assms(2) by simp
  then show "set (sv_order (bump s v)) = set (sv_order s)" "slots_ok (bump s v)"
    "length (sv_order_slot (bump s v)) = length (sv_order_slot s)"
    "length (sv_activity (bump s v)) = length (sv_activity s)"
    using u sift_up_props [of _ u] unfolding b by (auto split: option.splits)
qed

subsection \<open>The heap order\<close>

text \<open>\<open>heap_from m\<close>: every slot whose parent is at or past \<open>m\<close> is not ahead of it. The whole
  heap is \<open>heap_from 0\<close>; the rebuild after a rescaling extends \<open>m\<close> downwards.\<close>

definition behind :: "Solver \<Rightarrow> nat \<Rightarrow> nat \<Rightarrow> bool" where
  "behind s i j = (\<not> ahead s (sv_order s ! i) (sv_order s ! j))"

definition heap_from :: "nat \<Rightarrow> Solver \<Rightarrow> bool" where
  "heap_from m s = (\<forall>i < length (sv_order s). 0 < i \<and> m \<le> (i - 1) div 2 \<longrightarrow> behind s i ((i - 1) div 2))"

abbreviation heap_ok :: "Solver \<Rightarrow> bool" where
  "heap_ok \<equiv> heap_from 0"

lemma ahead_linear:
  "\<not> ahead s a a" "ahead s a b \<Longrightarrow> \<not> ahead s b a" "ahead s a b \<Longrightarrow> ahead s b c \<Longrightarrow> ahead s a c"
  "\<not> ahead s a b \<Longrightarrow> \<not> ahead s b c \<Longrightarrow> \<not> ahead s a c" "a \<noteq> b \<Longrightarrow> ahead s a b \<or> ahead s b a"
  by (auto simp: ahead_def)

lemma behind_trans: "behind s i j \<Longrightarrow> behind s j k \<Longrightarrow> behind s i k"
  unfolding behind_def by (rule ahead_linear(4))

lemma behind_swap:
  assumes "a < length (sv_order s)" "b < length (sv_order s)" "i < length (sv_order s)" "j < length (sv_order s)"
  defines "\<sigma> \<equiv> \<lambda>i. if i = a then b else if i = b then a else i"
  shows "behind (swap_slots s a b) i j = behind s (\<sigma> i) (\<sigma> j)"
  using assms swap_slots_props(4) [OF assms(1,2)]
  by (simp add: behind_def ahead_def) (simp add: swap_slots_def Let_def nth_swap)

text \<open>Sifting up: the order may fail only between \<open>k\<close> and its parent, and what is below \<open>k\<close> is
  behind \<open>k\<close>'s parent too.\<close>

definition heap_but_up :: "nat \<Rightarrow> Solver \<Rightarrow> bool" where
  "heap_but_up k s \<longleftrightarrow> (\<forall>i < length (sv_order s). 0 < i \<and> i \<noteq> k \<longrightarrow> behind s i ((i - 1) div 2)) \<and>
     (\<forall>i < length (sv_order s). 0 < i \<and> (i - 1) div 2 = k \<and> 0 < k \<longrightarrow> behind s i ((k - 1) div 2))"

lemma heap_but_up_swap:
  assumes "heap_but_up k s" "0 < k" "k < length (sv_order s)"
    and "ahead s (sv_order s ! k) (sv_order s ! ((k - 1) div 2))"
  shows "heap_but_up ((k - 1) div 2) (swap_slots s k ((k - 1) div 2))"
proof -
  let ?p = "(k - 1) div 2" and ?n = "length (sv_order s)"
  let ?\<sigma> = "\<lambda>i. if i = k then ?p else if i = ?p then k else i"
  have p: "?p < k" "?p < ?n" using assms(2,3) by linarith+
  have up: "behind s ?p k" using assms(4) ahead_linear(2) by (auto simp: behind_def)
  note H = assms(1) [unfolded heap_but_up_def]
  have b: "behind (swap_slots s k ?p) i j = behind s (?\<sigma> i) (?\<sigma> j)" if "i < ?n" "j < ?n" for i j
    using behind_swap [OF assms(3) p(2) that] by simp
  have 1: "behind (swap_slots s k ?p) i ((i - 1) div 2)" if i: "i < ?n" "0 < i" "i \<noteq> ?p" for i
  proof -
    have j: "(i - 1) div 2 < ?n" using i by linarith
    consider "i = k" | "i \<noteq> k" "(i - 1) div 2 = k" | "i \<noteq> k" "(i - 1) div 2 = ?p"
      | "i \<noteq> k" "(i - 1) div 2 \<noteq> k" "(i - 1) div 2 \<noteq> ?p" by blast
    then show ?thesis
    proof cases
      case 1
      then show ?thesis using b [OF i(1) j] up p by simp
    next
      case 2
      then have "behind s i ?p" using H i assms(2) by blast
      then show ?thesis using b [OF i(1) j] 2 i p by simp
    next
      case 3
      then have "behind s i ?p" using H i by metis
      then have "behind s i k" using up behind_trans by blast
      then show ?thesis using b [OF i(1) j] 3 i p by simp
    next
      case 4
      then show ?thesis using b [OF i(1) j] H i by simp
    qed
  qed
  have 2: "behind (swap_slots s k ?p) i ((?p - 1) div 2)" if i: "i < ?n" "0 < i" "(i - 1) div 2 = ?p" "0 < ?p" for i
  proof -
    have j: "(?p - 1) div 2 < ?n" "(?p - 1) div 2 < ?p" using i p by linarith+
    have pp: "behind s ?p ((?p - 1) div 2)" using H i p by simp
    show ?thesis
    proof (cases "i = k")
      case True
      then show ?thesis using b [OF i(1) j(1)] j pp p by simp
    next
      case False
      then have "behind s i ?p" using H i by metis
      then have "behind s i ((?p - 1) div 2)" using pp behind_trans by blast
      moreover have "i \<noteq> ?p" "(?p - 1) div 2 \<noteq> k" "(?p - 1) div 2 \<noteq> ?p" using i j p by linarith+
      ultimately show ?thesis using b [OF i(1) j(1)] False by (simp only: if_False)
    qed
  qed
  show ?thesis using 1 2 by (simp add: heap_but_up_def)
qed

lemma sift_up_heap:
  assumes "heap_but_up k s" "k < length (sv_order s)"
  shows "heap_ok (sift_up s k)"
  using assms
proof (induction s k rule: sift_up.induct)
  case (1 s k)
  let ?p = "(k - 1) div 2"
  show ?case
  proof (cases "k = 0 \<or> behind s k ?p")
    case True
    then have "sift_up s k = s" by (subst sift_up.simps) (auto simp: behind_def)
    then show ?thesis using 1(2) True by (auto simp: heap_but_up_def heap_from_def)
  next
    case False
    then have a: "ahead s (sv_order s ! k) (sv_order s ! ?p)" "0 < k" by (auto simp: behind_def)
    have e: "sift_up s k = sift_up (swap_slots s k ?p) ?p" using a by (subst sift_up.simps) (simp add: Let_def)
    have "?p < length (sv_order s)" using 1(3) by linarith
    then show ?thesis
      using 1(1) [OF _ refl] a heap_but_up_swap [OF 1(2) a(2) 1(3) a(1)] unfolding e by simp
  qed
qed

text \<open>Sifting down: the order from \<open>m\<close> on may fail only between \<open>k\<close> and its children.\<close>

definition heap_but_down :: "nat \<Rightarrow> nat \<Rightarrow> Solver \<Rightarrow> bool" where
  "heap_but_down m k s \<longleftrightarrow>
     (\<forall>i < length (sv_order s). 0 < i \<and> m \<le> (i - 1) div 2 \<and> (i - 1) div 2 \<noteq> k \<longrightarrow> behind s i ((i - 1) div 2)) \<and>
     (\<forall>i < length (sv_order s). 0 < i \<and> (i - 1) div 2 = k \<and> 0 < k \<and> m \<le> (k - 1) div 2 \<longrightarrow> behind s i ((k - 1) div 2))"

lemma first_child_max:
  assumes "k < length (sv_order s)"
  shows "behind s k (first_child s k)"
    "i < length (sv_order s) \<Longrightarrow> 0 < i \<Longrightarrow> (i - 1) div 2 = k \<Longrightarrow> behind s i (first_child s k)"
    "first_child s k \<noteq> k \<Longrightarrow> (first_child s k - 1) div 2 = k \<and> first_child s k < length (sv_order s)"
proof -
  let ?L = "2 * k + 1" and ?R = "2 * k + 2" and ?n = "length (sv_order s)"
  define f where "f = (if ?L < ?n \<and> ahead s (sv_order s ! ?L) (sv_order s ! k) then ?L else k)"
  have fc: "first_child s k = (if ?R < ?n \<and> ahead s (sv_order s ! ?R) (sv_order s ! f) then ?R else f)"
    by (simp add: first_child_def f_def)
  have f: "behind s k f" "?L < ?n \<Longrightarrow> behind s ?L f"
    using ahead_linear(1,2) by (auto simp: f_def behind_def)
  have m: "behind s f (first_child s k)" "?R < ?n \<Longrightarrow> behind s ?R (first_child s k)"
    using ahead_linear(1,2) unfolding fc by (auto simp: behind_def)
  show "behind s k (first_child s k)" using f(1) m(1) behind_trans by blast
  show "behind s i (first_child s k)" if i: "i < ?n" "0 < i" "(i - 1) div 2 = k"
  proof -
    consider "i = ?L" | "i = ?R" using i by linarith
    then show ?thesis using f(2) m i(1) behind_trans by cases blast+
  qed
  show "first_child s k \<noteq> k \<Longrightarrow> (first_child s k - 1) div 2 = k \<and> first_child s k < ?n"
    by (auto simp: fc f_def split: if_splits)
qed

lemma heap_but_down_swap:
  assumes "heap_but_down m k s" "k < length (sv_order s)" "m \<le> k" "first_child s k \<noteq> k"
  shows "heap_but_down m (first_child s k) (swap_slots s k (first_child s k))"
proof -
  let ?c = "first_child s k" and ?n = "length (sv_order s)"
  let ?\<sigma> = "\<lambda>i. if i = k then ?c else if i = ?c then k else i"
  note mx = first_child_max [OF assms(2)]
  have c: "(?c - 1) div 2 = k" "?c < ?n" using mx(3) assms(4) by auto
  have kc: "k < ?c" using first_child_cases [of s k] assms(4) by simp
  note H = assms(1) [unfolded heap_but_down_def]
  have b: "behind (swap_slots s k ?c) i j = behind s (?\<sigma> i) (?\<sigma> j)" if "i < ?n" "j < ?n" for i j
    using behind_swap [OF assms(2) c(2) that] by simp
  have 1: "behind (swap_slots s k ?c) i ((i - 1) div 2)"
    if i: "i < ?n" "0 < i" "m \<le> (i - 1) div 2" "(i - 1) div 2 \<noteq> ?c" for i
  proof -
    have j: "(i - 1) div 2 < ?n" "(i - 1) div 2 < i" using i by linarith+
    consider "(i - 1) div 2 = k" | "i = k" "(i - 1) div 2 \<noteq> k" | "i \<noteq> k" "(i - 1) div 2 \<noteq> k" by blast
    then show ?thesis
    proof cases
      case 1
      then have "behind s (?\<sigma> i) ?c" using mx(1,2) i by auto
      then show ?thesis using b [OF i(1) j(1)] 1 by simp
    next
      case 2
      then have "behind s ?c ((k - 1) div 2)" using H c kc i by auto
      then show ?thesis using b [OF i(1) j(1)] 2 i by simp
    next
      case 3
      then have "i \<noteq> ?c" using c by auto
      then show ?thesis using b [OF i(1) j(1)] 3 i H by simp
    qed
  qed
  have 2: "behind (swap_slots s k ?c) i ((?c - 1) div 2)"
    if i: "i < ?n" "0 < i" "(i - 1) div 2 = ?c" "0 < ?c" "m \<le> (?c - 1) div 2" for i
  proof -
    have "behind s i ?c" using H i c kc assms(3) by auto
    moreover have "i \<noteq> k" "i \<noteq> ?c" using i kc by linarith+
    ultimately show ?thesis using b [OF i(1) assms(2)] c by simp
  qed
  show ?thesis using 1 2 by (simp add: heap_but_down_def)
qed

lemma sift_down_heap:
  assumes "heap_but_down m k s" "k < length (sv_order s)" "m \<le> k"
  shows "heap_from m (sift_down s k)"
  using assms
proof (induction s k rule: sift_down.induct)
  case (1 s k)
  let ?c = "first_child s k"
  show ?case
  proof (cases "?c = k")
    case True
    then have "sift_down s k = s" by (subst sift_down.simps) simp
    then show ?thesis
      using 1(2) first_child_max(2) [OF 1(3)] True by (auto simp: heap_but_down_def heap_from_def)
  next
    case False
    have e: "sift_down s k = sift_down (swap_slots s k ?c) ?c" using False by (subst sift_down.simps) (simp add: Let_def)
    have "k < ?c" "?c < length (sv_order s)" using first_child_cases [of s k] False by auto
    then show ?thesis
      using 1(1) [OF refl False] heap_but_down_swap [OF 1(2,3,4) False] 1(4) unfolding e by simp
  qed
qed

lemma heapify_heap: "heap_ok (heapify s)"
proof -
  have step: "heap_from 0 (fold (\<lambda>k s. sift_down s k) (rev [0..<m]) s)"
    if "heap_from m s" "m \<le> length (sv_order s)" for m and s :: Solver
    using that
  proof (induction m arbitrary: s)
    case (Suc m)
    have "heap_but_down m m s"
      using Suc.prems(1) by (auto simp: heap_but_down_def heap_from_def) 
    then have "heap_from m (sift_down s m)" using Suc.prems(2) by (intro sift_down_heap) simp_all
    then show ?case using Suc.IH [of "sift_down s m"] sift_down_props [of m s] Suc.prems(2) by simp
  qed simp
  have "heap_from (length (sv_order s) div 2) s" by (auto simp: heap_from_def)
  then show ?thesis unfolding heapify_def by (intro step) simp_all
qed

lemma heap_top:
  assumes "heap_ok s" "i < length (sv_order s)"
  shows "behind s i 0"
  using assms(2)
proof (induction i rule: less_induct)
  case (less i)
  show ?case
  proof (cases "i = 0")
    case True
    then show ?thesis by (simp add: behind_def ahead_linear)
  next
    case False
    then have "(i - 1) div 2 < i" by linarith
    then have "behind s ((i - 1) div 2) 0" using less by simp
    moreover have "behind s i ((i - 1) div 2)" using assms(1) less.prems False by (simp add: heap_from_def)
    ultimately show ?thesis using behind_trans by blast
  qed
qed

subsection \<open>Rounded activities only grow\<close>

definition f64_ok :: "nat \<Rightarrow> bool" where
  "f64_ok n \<longleftrightarrow> (\<exists>m k. n = m * 2 ^ k \<and> m < 2 ^ 53)"

lemma round_ratio_ok: "f64_ok (round_ratio p q)"
proof -
  define k where "k = bit_length (p div q) - 53"
  define d where "d = p div (q * 2 ^ k)"
  have "p div q < 2 ^ (53 + k)"
    by (rule less_le_trans [OF bit_length_bounds(1)], rule power_increasing) (simp_all add: k_def)
  then have d: "d < 2 ^ 53"
    unfolding d_def div_mult2_eq by (subst div_less_iff_less_mult) (simp_all only: power_add zero_less_power zero_less_numeral)
  define e where "e = (if q * 2 ^ k < 2 * (p mod (q * 2 ^ k)) \<or> (2 * (p mod (q * 2 ^ k)) = q * 2 ^ k \<and> odd d)
      then d + 1 else d)"
  have r: "round_ratio p q = e * 2 ^ k"
    unfolding round_ratio_def Let_def e_def d_def k_def by (rule refl)
  have e: "e \<le> 2 ^ 53" using d by (simp add: e_def)
  show ?thesis
  proof (cases "e = 2 ^ 53")
    case True
    define A :: nat where "A = 2 ^ 52"
    have A: "e = A * 2" "A < 2 ^ 53" using True by (simp_all add: A_def)
    have "round_ratio p q = A * 2 ^ (k + 1)" unfolding r A(1) by simp
    then show ?thesis unfolding f64_ok_def using A(2) by blast
  next
    case False
    then show ?thesis unfolding f64_ok_def r using e by (intro exI [of _ e] exI [of _ k]) simp
  qed
qed

lemma f64_add_ge:
  assumes "f64_ok a"
  shows "a \<le> f64_add a b"
proof -
  define p where "p = a + b"
  define k where "k = bit_length p - 53"
  have "p div 2 ^ k * 2 ^ k \<le> f64_add a b"
    by (auto simp: f64_add_def round_ratio_def Let_def p_def [symmetric] k_def [symmetric])
  moreover have "a \<le> p div 2 ^ k * 2 ^ k"
  proof (cases "k = 0")
    case True
    then show ?thesis by (simp add: p_def)
  next
    case False
    then have bl: "bit_length p = 53 + k" "0 < p"
      by (auto simp: k_def bit_length.simps [of 0] intro!: gr0I)
    obtain m j where a: "a = m * 2 ^ j" "m < 2 ^ 53" using assms by (auto simp: f64_ok_def)
    show ?thesis
    proof (cases "k \<le> j")
      case True
      then have "a = m * 2 ^ (j - k) * 2 ^ k" by (simp add: a flip: power_add)
      moreover from this have "m * 2 ^ (j - k) \<le> p div 2 ^ k"
        by (simp add: less_eq_div_iff_mult_less_eq p_def)
      ultimately show ?thesis by simp
    next
      case False
      have "bit_length p - 1 = 52 + k" using bl(1) by simp
      then have "2 ^ (52 + k) \<le> p" using bit_length_bounds(2) [OF bl(2)] by simp
      then have "2 ^ 52 \<le> p div 2 ^ k" by (simp only: less_eq_div_iff_mult_less_eq power_add zero_less_power zero_less_numeral)
      then have "2 ^ 52 * 2 ^ k \<le> p div 2 ^ k * 2 ^ k" by (rule mult_le_mono1)
      moreover have "a \<le> 2 ^ 53 * 2 ^ j" unfolding a(1) using a(2) by (intro mult_le_mono1) simp
      moreover have "(2::nat) ^ 53 * 2 ^ j \<le> 2 ^ 52 * 2 ^ k"
        unfolding power_add [symmetric] using False by (intro power_increasing) simp_all
      ultimately show ?thesis by linarith
    qed
  qed
  ultimately show ?thesis by linarith
qed

definition activities_ok :: "Solver \<Rightarrow> bool" where
  "activities_ok s = (\<forall>a \<in> set (sv_activity s). f64_ok a)"

lemma heap_ok_but_up: "heap_ok s \<Longrightarrow> heap_but_up k s"
  using behind_trans by (fastforce simp: heap_from_def heap_but_up_def)

lemma queue_heap:
  assumes "slots_ok s" "v < length (sv_order_slot s)" "heap_ok s"
  shows "heap_ok (queue s v)"
proof (cases "sv_order_slot s ! v = None")
  case True
  let ?t = "s\<lparr>sv_order_slot := (sv_order_slot s)[v := Some (length (sv_order s))], sv_order := sv_order s @ [v]\<rparr>"
  have "behind ?t i j = behind s i j" if "i < length (sv_order s)" "j < length (sv_order s)" for i j
    using that by (simp add: behind_def ahead_def nth_append)
  note same = this
  have "heap_but_up (length (sv_order s)) ?t"
    unfolding heap_but_up_def
  proof (intro conjI allI impI)
    fix i assume "i < length (sv_order ?t)" "0 < i \<and> i \<noteq> length (sv_order s)"
    then have i: "i < length (sv_order s)" "0 < i" by auto
    then have "(i - 1) div 2 < length (sv_order s)" by linarith
    then show "behind ?t i ((i - 1) div 2)" using same assms(3) i by (simp add: heap_from_def)
  next
    fix i assume "i < length (sv_order ?t)" "0 < i \<and> (i - 1) div 2 = length (sv_order s) \<and> 0 < length (sv_order s)"
    then have "i < length (sv_order s) + 1" "(i - 1) div 2 = length (sv_order s)" "0 < length (sv_order s)" by simp_all
    then have False by linarith
    then show "behind ?t i ((length (sv_order s) - 1) div 2)" ..
  qed
  moreover have "queue s v = sift_up ?t (length (sv_order s))"
    using True by (simp add: queue_def Let_def)
  ultimately show ?thesis using sift_up_heap [of "length (sv_order s)" ?t] by simp
next
  case False
  then show ?thesis using assms(3) by (auto simp: queue_def)
qed

lemma unqueue_top_heap:
  assumes "slots_ok s" "sv_order s \<noteq> []" "heap_ok s"
  shows "heap_ok (unqueue_top s)"
proof -
  let ?xs = "swap_remove0 (sv_order s)" and ?top = "sv_order s ! 0"
  have d: "distinct (sv_order s)" using assms(1) by (simp add: slots_ok_def)
  note sr = swap_remove0_props [OF d assms(2)]
  show ?thesis
  proof (cases ?xs)
    case Nil
    then show ?thesis by (simp add: unqueue_top_def Let_def heap_from_def)
  next
    case (Cons m ms)
    let ?t = "s\<lparr>sv_order := ?xs, sv_order_slot := (sv_order_slot s)[?top := None, m := Some 0]\<rparr>"
    have "behind ?t i j = behind s i j" if "i < length ?xs" "j < length ?xs" "0 < i" "0 < j" for i j
      using that sr(3,4) by (simp add: behind_def ahead_def)
    then have "heap_but_down 0 0 ?t"
      using assms(3) sr(3) by (auto simp: heap_but_down_def heap_from_def)
    moreover have "unqueue_top s = sift_down ?t 0" using Cons by (simp add: unqueue_top_def Let_def)
    ultimately show ?thesis using sift_down_heap [of 0 0 ?t] Cons by simp
  qed
qed

lemma raise_heap:
  assumes "heap_ok s" "slots_ok s" "v < length (sv_activity s)" "sv_activity s ! v \<le> a"
    and "sv_order_slot s ! v = Some k" "v < length (sv_order_slot s)"
  shows "heap_but_up k (s\<lparr>sv_activity := (sv_activity s)[v := a]\<rparr>)"
proof -
  let ?t = "s\<lparr>sv_activity := (sv_activity s)[v := a]\<rparr>"
  have k: "k < length (sv_order s)" "sv_order s ! k = v" using slots_okD(2) [OF assms(2,6,5)] by auto
  have d: "distinct (sv_order s)" using assms(2) by (simp add: slots_ok_def)
  have ne: "sv_order s ! i = v \<longleftrightarrow> i = k" if "i < length (sv_order s)" for i
    using nth_eq_iff_index_eq [OF d that k(1)] k(2) by simp
  have b: "behind ?t i j" if "behind s i j" "i < length (sv_order s)" "j < length (sv_order s)" "i \<noteq> k" for i j
    using that ne [of i] ne [of j] assms(3,4) k
    by (cases "j = k") (auto simp: behind_def ahead_def)
  have up: "behind s i ((k - 1) div 2)" if "i < length (sv_order s)" "0 < i" "(i - 1) div 2 = k" "0 < k" for i
    using heap_ok_but_up [OF assms(1), of k] that by (auto simp: heap_but_up_def)
  show ?thesis
    unfolding heap_but_up_def
  proof (intro conjI allI impI)
    fix i assume i: "i < length (sv_order ?t)" "0 < i \<and> i \<noteq> k"
    then show "behind ?t i ((i - 1) div 2)" using assms(1) by (intro b) (auto simp: heap_from_def)
  next
    fix i assume i: "i < length (sv_order ?t)" "0 < i \<and> (i - 1) div 2 = k \<and> 0 < k"
    then have "(i - 1) div 2 < i" by linarith
    then show "behind ?t i ((k - 1) div 2)" using i up k(1) by (intro b) auto
  qed
qed

lemma bump_heap:
  assumes "slots_ok s" "v < length (sv_order_slot s)" "heap_ok s" "activities_ok s"
    and "length (sv_activity s) = length (sv_order_slot s)"
  shows "heap_ok (bump s v)" "activities_ok (bump s v)"
proof -
  define a where "a = f64_add (sv_activity s ! v) (sv_var_inc s)"
  define t where "t = s\<lparr>sv_activity := (sv_activity s)[v := a]\<rparr>"
  define t' where "t' = t\<lparr>sv_activity := map (\<lambda>act. f64_mul act f64_1em100) (sv_activity t),
      sv_var_inc := f64_mul (sv_var_inc t) f64_1em100\<rparr>"
  define u where "u = (if f64_1e100 < a then heapify t' else t)"
  have b: "bump s v = (case sv_order_slot u ! v of None \<Rightarrow> u | Some slot \<Rightarrow> sift_up u slot)"
    unfolding bump_def Let_def u_def t'_def t_def a_def by (rule refl)
  have le: "sv_activity s ! v \<le> a" "f64_ok a"
    using assms f64_add_ge [of "sv_activity s ! v" "sv_var_inc s"] unfolding a_def
    by (simp add: activities_ok_def) (simp add: f64_add_def round_ratio_ok)
  have ok: "slots_ok t" "slots_ok t'" using assms(1) by (simp_all add: t_def t'_def slots_ok_def)
  have u: "slots_ok u" "length (sv_order_slot u) = length (sv_order_slot s)"
    using ok heapify_props [of t'] by (auto simp: u_def t_def t'_def)
  have act: "activities_ok u"
    using assms(4) le(2) heapify_props [of t'] set_update_subset_insert [of "sv_activity s" v a]
    by (auto simp: u_def t_def t'_def activities_ok_def f64_mul_def round_ratio_ok)
  have k: "k < length (sv_order u)" if "sv_order_slot u ! v = Some k" for k
    using slots_okD(2) [OF u(1), of v k] u(2) assms(2) that by simp
  have "heap_but_up k u" if "sv_order_slot u ! v = Some k" for k
  proof (cases "f64_1e100 < a")
    case True
    then show ?thesis using heap_ok_but_up [OF heapify_heap [of t']] by (simp add: u_def)
  next
    case False
    then show ?thesis
      using raise_heap [OF assms(3,1) _ le(1) _ assms(2), of k] that assms(2,5) by (simp add: u_def t_def)
  qed
  moreover have "heap_ok u" if "sv_order_slot u ! v = None"
  proof (cases "f64_1e100 < a")
    case True
    then show ?thesis by (simp add: u_def heapify_heap)
  next
    case False
    then have "v \<notin> set (sv_order s)" using that slots_okD(1) [OF assms(1,2)] by (simp add: u_def t_def)
    then have ne: "sv_order s ! i \<noteq> v" if "i < length (sv_order s)" for i using that nth_mem by metis
    have "behind u i j = behind s i j" if "i < length (sv_order s)" "j < length (sv_order s)" for i j
      using ne [OF that(1)] ne [OF that(2)] False by (simp add: u_def t_def behind_def ahead_def)
    then show ?thesis using assms(3) False by (auto simp: heap_from_def u_def t_def)
  qed
  ultimately show "heap_ok (bump s v)"
    using k sift_up_heap unfolding b by (auto split: option.splits)
  show "activities_ok (bump s v)"
    using act k sift_up_props [of _ u] unfolding b by (auto simp: activities_ok_def split: option.splits)
qed

subsection \<open>Choosing the branching variable\<close>

lemma length_unqueue_top: "sv_order s \<noteq> [] \<Longrightarrow> length (sv_order (unqueue_top s)) < length (sv_order s)"
proof -
  assume ne: "sv_order s \<noteq> []"
  have l: "length (swap_remove0 (sv_order s)) = length (sv_order s) - 1"
    by (simp add: swap_remove0_def)
  show ?thesis
  proof (cases "swap_remove0 (sv_order s)")
    case Nil
    then show ?thesis using ne by (simp add: unqueue_top_def Let_def)
  next
    case (Cons m ms)
    then have "Suc (length ms) = length (sv_order s) - 1" using l by simp
    moreover have "0 < length (sv_order s)" using ne by simp
    ultimately show ?thesis
      using Cons sift_down_props [of 0 "s\<lparr>sv_order := m # ms, sv_order_slot := (sv_order_slot s)[sv_order s ! 0 := None, m := Some 0]\<rparr>"]
      by (simp add: unqueue_top_def Let_def)
  qed
qed

function pick_branch :: "Solver \<Rightarrow> Lit option \<times> Solver" where
  "pick_branch s =
     (case sv_order s of
        [] \<Rightarrow> (None, s)
      | tp # _ \<Rightarrow>
          (let s' = unqueue_top s
           in if sv_assign s' ! tp = None then (Some (lit_new tp (\<not> sv_phase s' ! tp)), s')
              else pick_branch s'))"
  by pat_completeness auto
termination
proof (relation "measure (\<lambda>s. length (sv_order s))", simp)
  fix s tp rest x
  assume "sv_order s = tp # rest" "x = unqueue_top s"
  then show "(x, s) \<in> measure (\<lambda>s. length (sv_order s))" using length_unqueue_top [of s] by simp
qed

declare pick_branch.simps [simp del]

text \<open>Every unassigned variable is queued.\<close>

definition queue_complete :: "Solver \<Rightarrow> bool" where
  "queue_complete s \<longleftrightarrow> slots_ok s \<and> length (sv_order_slot s) = num_vars s \<and>
     (\<forall>v < num_vars s. sv_assign s ! v = None \<longrightarrow> v \<in> set (sv_order s))"

lemma pick_branch_props:
  assumes "slots_ok s" "length (sv_order_slot s) = num_vars s"
    and "\<forall>v < num_vars s. sv_assign s ! v = None \<longrightarrow> v \<in> set (sv_order s)"
    and "pick_branch s = (r, t)"
  shows "core t = core s \<and> slots_ok t \<and> length (sv_order_slot t) = num_vars s \<and> sv_activity t = sv_activity s \<and>
    (heap_ok s \<longrightarrow> heap_ok t) \<and>
    (r = None \<longrightarrow> (\<forall>v < num_vars s. sv_assign s ! v \<noteq> None)) \<and>
    (\<forall>l. r = Some l \<longrightarrow> lit_var l < num_vars s \<and> sv_assign s ! lit_var l = None \<and>
      lit_is_negated l = (\<not> sv_phase s ! lit_var l) \<and>
      (\<forall>v < num_vars s. sv_assign s ! v = None \<and> v \<noteq> lit_var l \<longrightarrow> v \<in> set (sv_order t)) \<and>
      (heap_ok s \<longrightarrow> (\<forall>v < num_vars s. sv_assign s ! v = None \<longrightarrow> \<not> ahead s v (lit_var l))))"
  using assms
proof (induction s rule: pick_branch.induct)
  case (1 s)
  show ?case
  proof (cases "sv_order s")
    case Nil
    then show ?thesis using 1 by (auto simp: pick_branch.simps [of s])
  next
    case (Cons tp rest)
    let ?u = "unqueue_top s"
    have ne: "sv_order s \<noteq> []" and tp: "sv_order s ! 0 = tp" "tp \<in> set (sv_order s)" using Cons by auto
    note up = unqueue_top_props [OF 1(2) ne]
    have cu: "core ?u = core s" by simp
    note cf = core_fields [OF cu]
    have tl: "tp < num_vars s" using tp 1(2,3) by (auto simp: slots_ok_def)
    show ?thesis
    proof (cases "sv_assign ?u ! tp = None")
      case True
      then have rt: "r = Some (lit_new tp (\<not> sv_phase ?u ! tp))" "t = ?u"
        using 1(5) Cons by (auto simp: pick_branch.simps [of s] Let_def)
      have "\<not> ahead s v tp" if h: "heap_ok s" "v < num_vars s" "sv_assign s ! v = None" for v
      proof -
        obtain i where "i < length (sv_order s)" "sv_order s ! i = v"
          using 1(4) h by (metis in_set_conv_nth)
        then show ?thesis using heap_top [OF h(1), of i] tp by (simp add: behind_def)
      qed
      then show ?thesis
        using True 1(2,3,4) up cf tl rt tp unqueue_top_heap [OF 1(2) ne] by auto
    next
      case False
      then have pb: "pick_branch ?u = (r, t)" using 1(5) Cons by (auto simp: pick_branch.simps [of s])
      have rest: "\<forall>v < num_vars ?u. sv_assign ?u ! v = None \<longrightarrow> v \<in> set (sv_order ?u)"
        using 1(4) False up(1) tp by (auto simp: cf)
      have ah: "ahead ?u a b = ahead s a b" for a b by (simp add: ahead_def up(4))
      show ?thesis
        using 1(1) [OF Cons refl False up(2) _ rest pb] up(3,4) 1(3) unqueue_top_heap [OF 1(2) ne]
        by (auto simp: cf ah)
    qed
  qed
qed

end
