(* ===== verification/SatSolver.thy ===== *)
theory SatSolver
  imports SatHeap
begin

text \<open>
  The operations of the CDCL solver (\<open>libs/symbolic/src/sat/mod.rs\<close>): building the formula,
  propagation over two watched literals, first-UIP conflict analysis, learning, backjumping, and
  the search loop with Luby restarts and an optional conflict budget. The loops of \<open>propagate\<close>
  and \<open>solve_with_budget\<close> are \<open>partial_function (option)\<close>: not returning is
  \<open>None\<close>, and so is every panic (\<open>unwrap\<close>, \<open>expect\<close>, an index or a count below
  zero).
\<close>

subsection \<open>Building the formula\<close>

definition new_var :: "Solver \<Rightarrow> Var \<times> Solver" where
  "new_var s =
     (let v = length (sv_assign s);
          s = s\<lparr>sv_assign := sv_assign s @ [None], sv_level := sv_level s @ [0],
                sv_reason := sv_reason s @ [None], sv_phase := sv_phase s @ [False],
                sv_activity := sv_activity s @ [0], sv_watches := sv_watches s @ [[], []],
                sv_order_slot := sv_order_slot s @ [None], sv_seen := sv_seen s @ [False]\<rparr>
      in (v, queue s v))"

text \<open>The literals of a clause without repetitions; \<open>None\<close> for a tautology.\<close>

fun dedup_clause :: "Lit list \<Rightarrow> Lit list \<Rightarrow> Lit list option" where
  "dedup_clause [] cl = Some cl"
| "dedup_clause (l # ls) cl =
     (if lit_negate l \<in> set cl then None
      else if l \<notin> set cl then dedup_clause ls (cl @ [l])
      else dedup_clause ls cl)"

definition add_clause :: "Solver \<Rightarrow> Lit list \<Rightarrow> Solver" where
  "add_clause s lits =
     (if sv_unsat s then s
      else case dedup_clause lits [] of
        None \<Rightarrow> s
      | Some cl \<Rightarrow>
          (if length cl = 0 then s\<lparr>sv_unsat := True\<rparr>
           else if length cl = 1 then
             (case enqueue s (cl ! 0) None of
                (True, s') \<Rightarrow> s'
              | (False, s') \<Rightarrow> s'\<lparr>sv_unsat := True\<rparr>)
           else snd (add_watched_clause s cl)))"

subsection \<open>Propagation\<close>

definition swap_lits :: "Solver \<Rightarrow> nat \<Rightarrow> nat \<Rightarrow> nat \<Rightarrow> Solver" where
  "swap_lits s cref i j =
     (let lits = sv_clauses s ! cref
      in s\<lparr>sv_clauses := (sv_clauses s)[cref := lits[i := lits ! j, j := lits ! i]]\<rparr>)"

definition push_watch :: "Solver \<Rightarrow> Lit \<Rightarrow> nat \<Rightarrow> Solver" where
  "push_watch s l cref = s\<lparr>sv_watches := (sv_watches s)[l := sv_watches s ! l @ [cref]]\<rparr>"

text \<open>The first replacement watch among the literals from the third on.\<close>

definition find_watch :: "Solver \<Rightarrow> nat \<Rightarrow> nat option" where
  "find_watch s cref =
     (let lits = sv_clauses s ! cref
      in find (\<lambda>k. value_lit s (lits ! k) \<noteq> Some False) [2..<length lits])"

text \<open>One clause of the watch list: its watch is kept (the clause is true, or became unit and was
  enqueued), moved to another literal, or the clause is the conflict.\<close>

datatype Visit = Keep | Moved | Conflict

definition visit_watch :: "Lit \<Rightarrow> nat \<Rightarrow> Solver \<Rightarrow> Solver \<times> Visit" where
  "visit_watch false_lit cref s =
     (let s = (if sv_clauses s ! cref ! 0 = false_lit then swap_lits s cref 0 1 else s);
          w0 = sv_clauses s ! cref ! 0
      in if value_lit s w0 = Some True then (s, Keep)
         else case find_watch s cref of
           Some k \<Rightarrow>
             (let s = swap_lits s cref 1 k
              in (push_watch s (sv_clauses s ! cref ! 1) cref, Moved))
         | None \<Rightarrow>
             (if value_lit s w0 = Some False then (s, Conflict)
              else (snd (enqueue s w0 (Some cref)), Keep)))"

text \<open>The loop over the watch list taken from \<open>false_lit\<close>: the state, the kept watches and the
  conflicting clause, after which the rest of the list is kept unvisited.\<close>

fun propagate_watches ::
  "nat list \<Rightarrow> Lit \<Rightarrow> Solver \<Rightarrow> nat list \<Rightarrow> Solver \<times> nat list \<times> nat option" where
  "propagate_watches [] false_lit s new_ws = (s, new_ws, None)"
| "propagate_watches (cref # ws) false_lit s new_ws =
     (case visit_watch false_lit cref s of
        (s', Keep) \<Rightarrow> propagate_watches ws false_lit s' (new_ws @ [cref])
      | (s', Moved) \<Rightarrow> propagate_watches ws false_lit s' new_ws
      | (s', Conflict) \<Rightarrow> (s', new_ws @ [cref] @ ws, Some cref))"

definition propagate_lit :: "Solver \<Rightarrow> Solver \<times> nat option" where
  "propagate_lit s =
     (let p = sv_trail s ! sv_qhead s;
          s = s\<lparr>sv_qhead := sv_qhead s + 1\<rparr>;
          false_lit = lit_negate p;
          ws = sv_watches s ! false_lit;
          s = s\<lparr>sv_watches := (sv_watches s)[false_lit := []]\<rparr>;
          (s, new_ws, conflict) = propagate_watches ws false_lit s []
      in (s\<lparr>sv_watches := (sv_watches s)[false_lit := new_ws]\<rparr>, conflict))"

partial_function (option) propagate :: "Solver \<Rightarrow> (nat option \<times> Solver) option" where
  [code]: "propagate s =
     (if sv_qhead s < length (sv_trail s)
      then (case propagate_lit s of
              (s', Some c) \<Rightarrow> Some (Some c, s'\<lparr>sv_qhead := length (sv_trail s')\<rparr>)
            | (s', None) \<Rightarrow> propagate s')
      else Some (None, s))"

subsection \<open>Conflict analysis\<close>

fun analyze_scan ::
  "Lit list \<Rightarrow> Solver \<Rightarrow> bool list \<Rightarrow> nat list \<Rightarrow> Lit list \<Rightarrow> nat
    \<Rightarrow> Solver \<times> bool list \<times> nat list \<times> Lit list \<times> nat" where
  "analyze_scan [] s seen marked learnt path_c = (s, seen, marked, learnt, path_c)"
| "analyze_scan (q # qs) s seen marked learnt path_c =
     (let v = lit_var q
      in if \<not> seen ! v \<and> 0 < sv_level s ! v
         then (if decision_level s \<le> sv_level s ! v
               then analyze_scan qs (bump s v) (seen[v := True]) (marked @ [v]) learnt (path_c + 1)
               else analyze_scan qs (bump s v) (seen[v := True]) (marked @ [v]) (learnt @ [q]) path_c)
         else analyze_scan qs s seen marked learnt path_c)"

text \<open>The most recent seen literal below \<open>index\<close>; running off the trail would panic.\<close>

fun find_seen :: "bool list \<Rightarrow> Lit list \<Rightarrow> nat \<Rightarrow> nat option" where
  "find_seen seen trail 0 = None"
| "find_seen seen trail (Suc i) =
     (if seen ! lit_var (trail ! i) then Some i else find_seen seen trail i)"

lemma find_seen_lt: "find_seen seen trail i = Some j \<Longrightarrow> j < i"
  by (induction i) (auto split: if_splits)

function analyze_loop ::
  "Solver \<Rightarrow> bool list \<Rightarrow> nat list \<Rightarrow> Lit list \<Rightarrow> nat \<Rightarrow> nat \<Rightarrow> nat \<Rightarrow> nat
    \<Rightarrow> (Solver \<times> bool list \<times> nat list \<times> Lit list \<times> Lit) option" where
  "analyze_loop s seen marked learnt path_c start confl index =
     (case analyze_scan (drop start (sv_clauses s ! confl)) s seen marked learnt path_c of
        (s', seen', marked', learnt', path_c') \<Rightarrow>
          (case find_seen seen' (sv_trail s') index of
             None \<Rightarrow> None
           | Some i \<Rightarrow>
               (let pl = sv_trail s' ! i;
                    seen'' = seen'[lit_var pl := False]
                in if path_c' = 0 then None
                   else if path_c' - 1 = 0 then Some (s', seen'', marked', learnt', pl)
                   else case sv_reason s' ! lit_var pl of
                     None \<Rightarrow> None
                   | Some c \<Rightarrow> analyze_loop s' seen'' marked' learnt' (path_c' - 1) 1 c i)))"
  by pat_completeness auto
termination
  by (relation "measure (\<lambda>(s, seen, marked, learnt, path_c, start, confl, index). index)")
    (auto dest: find_seen_lt)

declare analyze_loop.simps [simp del]

definition lit_level :: "Solver \<Rightarrow> Lit \<Rightarrow> nat" where
  "lit_level s l = sv_level s ! lit_var l"

definition backjump_slot :: "Solver \<Rightarrow> Lit list \<Rightarrow> nat" where
  "backjump_slot s learnt =
     fold (\<lambda>k max_i. if lit_level s (learnt ! max_i) < lit_level s (learnt ! k) then k else max_i)
       [2..<length learnt] 1"

definition analyze :: "Solver \<Rightarrow> nat \<Rightarrow> ((Lit list \<times> nat) \<times> Solver) option" where
  "analyze s conflict =
     (case analyze_loop (s\<lparr>sv_seen := []\<rparr>) (sv_seen s) [] [0] 0 0 conflict (length (sv_trail s)) of
        None \<Rightarrow> None
      | Some (s, seen, marked, learnt, pl) \<Rightarrow>
          (let learnt = learnt[0 := lit_negate pl];
               seen = fold (\<lambda>v seen. seen[v := False]) marked seen;
               s = s\<lparr>sv_seen := seen\<rparr>
           in if length learnt = 1 then Some ((learnt, 0), s)
              else
                (let max_i = backjump_slot s learnt;
                     learnt = learnt[1 := learnt ! max_i, max_i := learnt ! 1]
                 in Some ((learnt, lit_level s (learnt ! 1)), s))))"

subsection \<open>Learning and backjumping\<close>

definition learn :: "Solver \<Rightarrow> Lit list \<Rightarrow> Solver" where
  "learn s learnt =
     (if length learnt = 1 then snd (enqueue s (learnt ! 0) None)
      else
        (let (cref, s) = add_watched_clause s learnt
         in snd (enqueue s (learnt ! 0) (Some cref))))"

function cancel_loop :: "nat \<Rightarrow> Solver \<Rightarrow> Solver option" where
  "cancel_loop target s =
     (if target < length (sv_trail s)
      then
        (let l = last (sv_trail s);
             v = lit_var l;
             s = s\<lparr>sv_trail := butlast (sv_trail s)\<rparr>
         in case sv_assign s ! v of
              None \<Rightarrow> None
            | Some b \<Rightarrow>
                cancel_loop target
                  (queue (s\<lparr>sv_phase := (sv_phase s)[v := b], sv_assign := (sv_assign s)[v := None],
                            sv_reason := (sv_reason s)[v := None]\<rparr>) v))
      else Some s)"
  by pat_completeness auto
termination
proof (relation "measure (\<lambda>(target, s). length (sv_trail s))", simp)
  fix target :: nat and s :: Solver and l v s' b
  assume a: "target < length (sv_trail s)" "s' = s\<lparr>sv_trail := butlast (sv_trail s)\<rparr>"
  show "((target, queue (s'\<lparr>sv_phase := (sv_phase s')[v := b], sv_assign := (sv_assign s')[v := None],
            sv_reason := (sv_reason s')[v := None]\<rparr>) v), target, s)
      \<in> measure (\<lambda>(target, s). length (sv_trail s))"
    using a core_fields(7) [OF core_queue] by simp
qed

declare cancel_loop.simps [simp del]

definition cancel_until :: "Solver \<Rightarrow> nat \<Rightarrow> Solver option" where
  "cancel_until s level =
     (if decision_level s \<le> level then Some s
      else
        (case cancel_loop (sv_trail_lim s ! level) s of
           None \<Rightarrow> None
         | Some s \<Rightarrow>
             Some (s\<lparr>sv_trail_lim := take level (sv_trail_lim s), sv_qhead := length (sv_trail s)\<rparr>)))"

subsection \<open>The search\<close>

definition decide :: "Solver \<Rightarrow> Lit \<Rightarrow> Solver" where
  "decide s lit = snd (enqueue (s\<lparr>sv_trail_lim := sv_trail_lim s @ [length (sv_trail s)]\<rparr>) lit None)"

text \<open>The handling of a conflict above level zero, up to the budget check.\<close>

definition resolve_conflict :: "Solver \<Rightarrow> nat \<Rightarrow> Solver option" where
  "resolve_conflict s confl = do {
     ((learnt, bt_level), s) \<leftarrow> analyze s confl;
     s \<leftarrow> cancel_until s bt_level;
     Some (decay (learn s learnt))
   }"

partial_function (option) solve_loop ::
  "Solver \<Rightarrow> nat \<Rightarrow> nat \<Rightarrow> nat \<Rightarrow> nat option \<Rightarrow> (SatResult \<times> Solver) option" where
  [code]: "solve_loop s conflicts restart_no limit max_conflicts =
     Option.bind (propagate s) (\<lambda>(confl, s).
       case confl of
         Some confl \<Rightarrow>
           (let conflicts = conflicts + 1
            in if decision_level s = 0 then Some (Unsat, s\<lparr>sv_unsat := True\<rparr>)
               else
                 Option.bind (resolve_conflict s confl) (\<lambda>s.
                   if (case max_conflicts of None \<Rightarrow> False | Some m \<Rightarrow> m \<le> conflicts) then Some (Unknown, s)
                   else if limit \<le> conflicts then
                     Option.bind (luby (restart_no + 1)) (\<lambda>step.
                       Option.bind (cancel_until s 0) (\<lambda>s.
                         solve_loop s conflicts (restart_no + 1) (conflicts + step * 100) max_conflicts))
                   else solve_loop s conflicts restart_no limit max_conflicts))
       | None \<Rightarrow>
           (case pick_branch s of
              (None, s) \<Rightarrow> Some (Sat (sv_model s), s)
            | (Some lit, s) \<Rightarrow> solve_loop (decide s lit) conflicts restart_no limit max_conflicts))"

definition solve_with_budget :: "Solver \<Rightarrow> nat option \<Rightarrow> (SatResult \<times> Solver) option" where
  "solve_with_budget s max_conflicts =
     (if sv_unsat s then Some (Unsat, s)
      else Option.bind (luby 0) (\<lambda>step. solve_loop s 0 0 (step * 100) max_conflicts))"

definition solve :: "Solver \<Rightarrow> (SatResult \<times> Solver) option" where
  "solve s = solve_with_budget s None"

end
