(* ===== verification/SatInv.thy ===== *)
theory SatInv
  imports SatSolver
begin

text \<open>
  The invariants of the CDCL solver: the tables have one entry per variable, the trail and the
  assignment agree, levels count the decisions below a literal, a reason clause is true at its
  first literal and false before it elsewhere, every clause is watched exactly by its first two
  literals, and a processed false watch has a true partner at no higher level
  (\<open>prop_to\<close>). \<open>holds\<close> reads the state as a formula.
\<close>

subsection \<open>Semantics\<close>

definition lit_true :: "(nat \<Rightarrow> bool) \<Rightarrow> Lit \<Rightarrow> bool" where
  "lit_true \<nu> l = (\<nu> (lit_var l) \<noteq> lit_is_negated l)"

definition clause_true :: "(nat \<Rightarrow> bool) \<Rightarrow> Lit list \<Rightarrow> bool" where
  "clause_true \<nu> c = (\<exists>l \<in> set c. lit_true \<nu> l)"

lemma lit_true_negate [simp]: "lit_true \<nu> (lit_negate l) \<longleftrightarrow> \<not> lit_true \<nu> l"
  by (auto simp: lit_true_def)

text \<open>The units of a state: literals asserted at level zero with no reason.\<close>

definition units :: "Solver \<Rightarrow> Lit set" where
  "units s = {l \<in> set (sv_trail s). lit_level s l = 0 \<and> sv_reason s ! lit_var l = None}"

definition holds :: "(nat \<Rightarrow> bool) \<Rightarrow> Solver \<Rightarrow> bool" where
  "holds \<nu> s \<longleftrightarrow> (\<forall>c \<in> set (sv_clauses s). clause_true \<nu> c) \<and> (\<forall>l \<in> units s. lit_true \<nu> l)"

subsection \<open>Invariants\<close>

definition sizes_ok :: "Solver \<Rightarrow> bool" where
  "sizes_ok s \<longleftrightarrow> length (sv_level s) = num_vars s \<and> length (sv_reason s) = num_vars s \<and>
     length (sv_phase s) = num_vars s \<and> length (sv_seen s) = num_vars s \<and>
     length (sv_watches s) = 2 * num_vars s"

definition trail_ok :: "Solver \<Rightarrow> bool" where
  "trail_ok s \<longleftrightarrow> (\<forall>l \<in> set (sv_trail s). l < 2 * num_vars s) \<and> distinct (map lit_var (sv_trail s)) \<and>
     (\<forall>v < num_vars s. \<forall>b. sv_assign s ! v = Some b \<longleftrightarrow> lit_new v (\<not> b) \<in> set (sv_trail s))"

definition levels_ok :: "Solver \<Rightarrow> bool" where
  "levels_ok s \<longleftrightarrow> sorted_wrt (<) (sv_trail_lim s) \<and> (\<forall>t \<in> set (sv_trail_lim s). t < length (sv_trail s)) \<and>
     (\<forall>i < length (sv_trail s). lit_level s (sv_trail s ! i) = length (filter (\<lambda>t. t \<le> i) (sv_trail_lim s)))"

definition clauses_ok :: "Solver \<Rightarrow> bool" where
  "clauses_ok s \<longleftrightarrow> (\<forall>c \<in> set (sv_clauses s). 2 \<le> length c \<and> distinct (map lit_var c) \<and>
     (\<forall>l \<in> set c. l < 2 * num_vars s))"

definition watch_ok :: "Lit list list \<Rightarrow> nat list list \<Rightarrow> bool" where
  "watch_ok cls W \<longleftrightarrow>
     (\<forall>l < length W. distinct (W ! l) \<and>
        (\<forall>c \<in> set (W ! l). c < length cls \<and> (cls ! c ! 0 = l \<or> cls ! c ! 1 = l))) \<and>
     (\<forall>c < length cls. c \<in> set (W ! (cls ! c ! 0)) \<and> c \<in> set (W ! (cls ! c ! 1)))"

definition reasons_ok :: "Solver \<Rightarrow> bool" where
  "reasons_ok s \<longleftrightarrow> (\<forall>i < length (sv_trail s).
     (case sv_reason s ! lit_var (sv_trail s ! i) of
        None \<Rightarrow> i \<in> set (sv_trail_lim s) \<or> lit_level s (sv_trail s ! i) = 0
      | Some c \<Rightarrow> c < length (sv_clauses s) \<and> sv_clauses s ! c ! 0 = sv_trail s ! i \<and>
          (\<forall>l \<in> set (tl (sv_clauses s ! c)). lit_negate l \<in> set (take i (sv_trail s)))))"

definition solver_inv :: "Solver \<Rightarrow> bool" where
  "solver_inv s \<longleftrightarrow> sizes_ok s \<and> trail_ok s \<and> levels_ok s \<and> clauses_ok s \<and> reasons_ok s"

text \<open>A clause's first literal position \<open>a\<close> and the other watch's \<open>b\<close>: the false one, if
  among the first \<open>k\<close> of the trail, forces the other true.\<close>

definition watch_done :: "Solver \<Rightarrow> nat \<Rightarrow> nat \<Rightarrow> nat \<Rightarrow> nat \<Rightarrow> bool" where
  "watch_done s k c a b \<longleftrightarrow>
     (lit_negate (sv_clauses s ! c ! a) \<in> set (take k (sv_trail s)) \<longrightarrow>
      sv_clauses s ! c ! b \<in> set (sv_trail s) \<and>
      lit_level s (sv_clauses s ! c ! b) \<le> lit_level s (sv_clauses s ! c ! a))"

definition prop_to :: "nat \<Rightarrow> Solver \<Rightarrow> bool" where
  "prop_to k s \<longleftrightarrow> (\<forall>c < length (sv_clauses s). watch_done s k c 0 1 \<and> watch_done s k c 1 0)"

definition level_start :: "Solver \<Rightarrow> nat" where
  "level_start s = (if sv_trail_lim s = [] then 0 else last (sv_trail_lim s))"

lemmas inv_defs = solver_inv_def sizes_ok_def trail_ok_def levels_ok_def clauses_ok_def reasons_ok_def

subsection \<open>Values and levels\<close>

lemma trail_lt: "solver_inv s \<Longrightarrow> l \<in> set (sv_trail s) \<Longrightarrow> lit_var l < num_vars s"
  by (simp add: solver_inv_def trail_ok_def lit_var_lt)

lemma trail_consistent: "solver_inv s \<Longrightarrow> l \<in> set (sv_trail s) \<Longrightarrow> lit_negate l \<notin> set (sv_trail s)"
proof
  assume i: "solver_inv s" and l: "l \<in> set (sv_trail s)" "lit_negate l \<in> set (sv_trail s)"
  then obtain a b where "a < length (sv_trail s)" "sv_trail s ! a = l" "b < length (sv_trail s)"
      "sv_trail s ! b = lit_negate l" by (auto simp: in_set_conv_nth)
  moreover have "distinct (map lit_var (sv_trail s))" using i by (simp add: solver_inv_def trail_ok_def)
  ultimately have "a = b" by (metis length_map lit_simps(1) nth_eq_iff_index_eq nth_map)
  then show False using \<open>sv_trail s ! a = l\<close> \<open>sv_trail s ! b = lit_negate l\<close> by (metis lit_simps(3))
qed

lemma value_lit_iff:
  assumes "solver_inv s" "l < 2 * num_vars s"
  shows "value_lit s l = Some True \<longleftrightarrow> l \<in> set (sv_trail s)"
    "value_lit s l = Some False \<longleftrightarrow> lit_negate l \<in> set (sv_trail s)"
    "value_lit s l = None \<longleftrightarrow> sv_assign s ! lit_var l = None"
proof -
  have v: "lit_var l < num_vars s" using assms(2) by (simp add: lit_var_lt)
  have t: "sv_assign s ! lit_var l = Some b \<longleftrightarrow> lit_new (lit_var l) (\<not> b) \<in> set (sv_trail s)" for b
    using assms(1) v by (simp add: solver_inv_def trail_ok_def)
  have e: "lit_new (lit_var l) (lit_is_negated l) = l" "lit_new (lit_var l) (\<not> lit_is_negated l) = lit_negate l"
    by (simp_all add: lit_eq_iff)
  show "value_lit s l = Some True \<longleftrightarrow> l \<in> set (sv_trail s)"
    using t [of "\<not> lit_is_negated l"] e by (auto simp: value_lit_def) 
  show "value_lit s l = Some False \<longleftrightarrow> lit_negate l \<in> set (sv_trail s)"
    using t [of "lit_is_negated l"] e by (auto simp: value_lit_def)
  show "value_lit s l = None \<longleftrightarrow> sv_assign s ! lit_var l = None" by (simp add: value_lit_def)
qed

lemma unassigned_iff:
  "solver_inv s \<Longrightarrow> v < num_vars s \<Longrightarrow> sv_assign s ! v = None \<longleftrightarrow> v \<notin> lit_var ` set (sv_trail s)"
proof -
  assume i: "solver_inv s" and v: "v < num_vars s"
  have "(\<exists>b. sv_assign s ! v = Some b) \<longleftrightarrow> (\<exists>b. lit_new v (\<not> b) \<in> set (sv_trail s))"
    using i v by (simp add: solver_inv_def trail_ok_def)
  also have "\<dots> \<longleftrightarrow> v \<in> lit_var ` set (sv_trail s)"
  proof
    assume "v \<in> lit_var ` set (sv_trail s)"
    then obtain l where "l \<in> set (sv_trail s)" "v = lit_var l" by blast
    then have "lit_new v (\<not> (\<not> lit_is_negated l)) \<in> set (sv_trail s)" by simp
    then show "\<exists>b. lit_new v (\<not> b) \<in> set (sv_trail s)" by blast
  qed (metis imageI lit_simps(5))
  finally show ?thesis by (metis not_None_eq)
qed

lemma lit_level_negate [simp]: "lit_level s (lit_negate l) = lit_level s l"
  by (simp add: lit_level_def)

lemma filter_le_length: "i \<le> j \<Longrightarrow> length (filter (\<lambda>t. t \<le> i) ts) \<le> length (filter (\<lambda>t. t \<le> (j::nat)) ts)"
  by (induction ts) auto

lemma level_mono:
  "solver_inv s \<Longrightarrow> i \<le> j \<Longrightarrow> j < length (sv_trail s) \<Longrightarrow> lit_level s (sv_trail s ! i) \<le> lit_level s (sv_trail s ! j)"
  by (simp add: solver_inv_def levels_ok_def filter_le_length)

lemma level_le: "solver_inv s \<Longrightarrow> l \<in> set (sv_trail s) \<Longrightarrow> lit_level s l \<le> decision_level s"
  by (auto simp: solver_inv_def levels_ok_def in_set_conv_nth)

lemma level_current:
  assumes "solver_inv s" "i < length (sv_trail s)"
  shows "lit_level s (sv_trail s ! i) = decision_level s \<longleftrightarrow> level_start s \<le> i"
proof -
  have s: "sorted_wrt (<) (sv_trail_lim s)" using assms(1) by (simp add: solver_inv_def levels_ok_def)
  have "t \<le> last (sv_trail_lim s)" if "t \<in> set (sv_trail_lim s)" for t
    using s that by (cases "sv_trail_lim s" rule: rev_cases) (auto simp: sorted_wrt_append less_imp_le)
  then have "filter (\<lambda>t. t \<le> i) (sv_trail_lim s) = sv_trail_lim s \<longleftrightarrow> level_start s \<le> i"
    by (auto simp: level_start_def filter_id_conv intro: le_trans)
  moreover have "length (filter (\<lambda>t. t \<le> i) (sv_trail_lim s)) = decision_level s
      \<longleftrightarrow> filter (\<lambda>t. t \<le> i) (sv_trail_lim s) = sv_trail_lim s"
    by (metis length_filter_less filter_True less_irrefl)
  ultimately show ?thesis using assms by (simp add: solver_inv_def levels_ok_def)
qed

lemma level_start_le: "solver_inv s \<Longrightarrow> level_start s \<le> length (sv_trail s)"
  by (auto simp: solver_inv_def levels_ok_def level_start_def dest!: last_in_set intro: less_imp_le)

subsection \<open>Assigning a literal\<close>

text \<open>The state after an unassigned literal is put on the trail, possibly opening a level.\<close>

definition assign_lit :: "Solver \<Rightarrow> Lit \<Rightarrow> nat option \<Rightarrow> nat list \<Rightarrow> Solver" where
  "assign_lit s l r lims =
     s\<lparr>sv_trail_lim := lims, sv_assign := (sv_assign s)[lit_var l := Some (\<not> lit_is_negated l)],
       sv_level := (sv_level s)[lit_var l := length lims],
       sv_reason := (sv_reason s)[lit_var l := r], sv_trail := sv_trail s @ [l]\<rparr>"

lemma enqueue_cases:
  "enqueue s l r = (case value_lit s l of None \<Rightarrow> (True, assign_lit s l r (sv_trail_lim s)) | Some b \<Rightarrow> (b, s))"
  by (auto simp: enqueue_def assign_lit_def Let_def split: option.splits bool.splits)

lemma decide_eq:
  "value_lit s l = None \<Longrightarrow> decide s l = assign_lit s l None (sv_trail_lim s @ [length (sv_trail s)])"
  by (simp add: decide_def enqueue_cases value_lit_def) (simp add: assign_lit_def)

lemma assign_lit_fields [simp]:
  "sv_clauses (assign_lit s l r lims) = sv_clauses s" "sv_watches (assign_lit s l r lims) = sv_watches s"
  "sv_trail (assign_lit s l r lims) = sv_trail s @ [l]" "sv_trail_lim (assign_lit s l r lims) = lims"
  "sv_qhead (assign_lit s l r lims) = sv_qhead s" "sv_unsat (assign_lit s l r lims) = sv_unsat s"
  "length (sv_assign (assign_lit s l r lims)) = num_vars s" "sv_order (assign_lit s l r lims) = sv_order s"
  "sv_order_slot (assign_lit s l r lims) = sv_order_slot s" "sv_activity (assign_lit s l r lims) = sv_activity s"
  "sv_seen (assign_lit s l r lims) = sv_seen s" "sv_phase (assign_lit s l r lims) = sv_phase s"
  by (simp_all add: assign_lit_def)

definition fresh_lit :: "Solver \<Rightarrow> Lit \<Rightarrow> nat option \<Rightarrow> nat list \<Rightarrow> bool" where
  "fresh_lit s l r lims \<longleftrightarrow> solver_inv s \<and> l < 2 * num_vars s \<and> sv_assign s ! lit_var l = None \<and>
     (lims = sv_trail_lim s \<or> lims = sv_trail_lim s @ [length (sv_trail s)]) \<and>
     (case r of
        None \<Rightarrow> lims = sv_trail_lim s @ [length (sv_trail s)] \<or> lims = []
      | Some c \<Rightarrow> c < length (sv_clauses s) \<and> sv_clauses s ! c ! 0 = l \<and>
          (\<forall>m \<in> set (tl (sv_clauses s ! c)). lit_negate m \<in> set (sv_trail s)))"

lemma fresh_facts:
  assumes "fresh_lit s l r lims"
  shows "solver_inv s" "l < 2 * num_vars s" "lit_var l < num_vars s" "lit_var l \<notin> lit_var ` set (sv_trail s)"
    "lims = sv_trail_lim s \<or> lims = sv_trail_lim s @ [length (sv_trail s)]"
    "length (sv_level s) = num_vars s" "length (sv_reason s) = num_vars s"
    "case r of
        None \<Rightarrow> lims = sv_trail_lim s @ [length (sv_trail s)] \<or> lims = []
      | Some c \<Rightarrow> c < length (sv_clauses s) \<and> sv_clauses s ! c ! 0 = l \<and>
          (\<forall>m \<in> set (tl (sv_clauses s ! c)). lit_negate m \<in> set (sv_trail s))"
  using assms unassigned_iff [of s "lit_var l"]
  by (auto simp: fresh_lit_def lit_var_lt solver_inv_def sizes_ok_def)

lemma assign_old:
  assumes "fresh_lit s l r lims" "m \<in> set (sv_trail s)"
  shows "lit_level (assign_lit s l r lims) m = lit_level s m"
    "sv_reason (assign_lit s l r lims) ! lit_var m = sv_reason s ! lit_var m"
  using fresh_facts(4) [OF assms(1)] assms(2)
  by (auto simp: lit_level_def assign_lit_def nth_list_update image_iff)

lemma assign_new:
  assumes "fresh_lit s l r lims"
  shows "lit_level (assign_lit s l r lims) l = length lims" "sv_reason (assign_lit s l r lims) ! lit_var l = r"
  using fresh_facts [OF assms] by (simp_all add: lit_level_def assign_lit_def)

lemma trail_ok_assign:
  assumes f: "fresh_lit s l r lims"
  shows "trail_ok (assign_lit s l r lims)"
proof -
  have t: "trail_ok s" using fresh_facts(1) [OF f] by (simp add: solver_inv_def)
  have "sv_assign (assign_lit s l r lims) ! v = Some b \<longleftrightarrow> lit_new v (\<not> b) \<in> set (sv_trail s @ [l])"
    if "v < num_vars s" for v b
  proof (cases "v = lit_var l")
    case True
    have "lit_new (lit_var l) (\<not> b) \<notin> set (sv_trail s)" using fresh_facts(4) [OF f] by (metis imageI lit_simps(5))
    moreover have "lit_new (lit_var l) (\<not> b) = l \<longleftrightarrow> b = (\<not> lit_is_negated l)" by (auto simp: lit_eq_iff)
    ultimately show ?thesis using True fresh_facts(3) [OF f] by (auto simp: assign_lit_def)
  next
    case False
    then have "lit_new v (\<not> b) \<noteq> l" by (metis lit_simps(5))
    then show ?thesis using False t that by (simp add: assign_lit_def trail_ok_def)
  qed
  then show ?thesis using t fresh_facts(2,4) [OF f] by (auto simp: trail_ok_def)
qed

lemma lims_sorted:
  assumes f: "fresh_lit s l r lims"
  shows "sorted_wrt (<) lims" "\<forall>t \<in> set lims. t < Suc (length (sv_trail s))"
  using fresh_facts(5) [OF f] fresh_facts(1) [OF f] by (auto simp: solver_inv_def levels_ok_def sorted_wrt_append less_SucI)

lemma levels_ok_assign:
  assumes f: "fresh_lit s l r lims"
  shows "levels_ok (assign_lit s l r lims)"
proof -
  have old: "length (filter (\<lambda>t. t \<le> i) lims) = length (filter (\<lambda>t. t \<le> i) (sv_trail_lim s))"
    if "i < length (sv_trail s)" for i
    using fresh_facts(5) [OF f] that by auto
  have "filter (\<lambda>t. t \<le> length (sv_trail s)) lims = lims"
    using lims_sorted(2) [OF f] by (auto simp: filter_id_conv less_Suc_eq_le)
  then show ?thesis
    using lims_sorted [OF f] fresh_facts(1) [OF f] old assign_old(1) [OF f] assign_new(1) [OF f]
    by (auto simp: levels_ok_def solver_inv_def nth_append less_Suc_eq)
qed

lemma reasons_ok_assign:
  assumes f: "fresh_lit s l r lims"
  shows "reasons_ok (assign_lit s l r lims)"
  unfolding reasons_ok_def
proof (intro allI impI)
  fix i assume i: "i < length (sv_trail (assign_lit s l r lims))"
  let ?t = "assign_lit s l r lims"
  show "case sv_reason ?t ! lit_var (sv_trail ?t ! i) of
        None \<Rightarrow> i \<in> set (sv_trail_lim ?t) \<or> lit_level ?t (sv_trail ?t ! i) = 0
      | Some c \<Rightarrow> c < length (sv_clauses ?t) \<and> sv_clauses ?t ! c ! 0 = sv_trail ?t ! i \<and>
          (\<forall>l \<in> set (tl (sv_clauses ?t ! c)). lit_negate l \<in> set (take i (sv_trail ?t)))"
  proof (cases "i < length (sv_trail s)")
    case True
    then have m: "sv_trail s ! i \<in> set (sv_trail s)" "sv_trail ?t ! i = sv_trail s ! i" by (simp_all add: nth_append)
    have "set (sv_trail_lim s) \<subseteq> set lims" using fresh_facts(5) [OF f] by auto
    then show ?thesis
      using fresh_facts(1) [OF f] True m assign_old(2) [OF f m(1)] assign_old(1) [OF f m(1)]
      by (auto simp: solver_inv_def reasons_ok_def split: option.splits)
  next
    case False
    then have "sv_trail ?t ! i = l" "i = length (sv_trail s)" using i by (simp_all add: nth_append)
    then show ?thesis using fresh_facts(8) [OF f] assign_new(2) [OF f] assign_new(1) [OF f] by (auto split: option.splits)
  qed
qed

lemma inv_assign:
  assumes f: "fresh_lit s l r lims"
  shows "solver_inv (assign_lit s l r lims)"
  using fresh_facts(1) [OF f] trail_ok_assign [OF f] levels_ok_assign [OF f] reasons_ok_assign [OF f]
  by (auto simp: solver_inv_def sizes_ok_def clauses_ok_def assign_lit_def)

lemma watch_done_assign:
  assumes f: "fresh_lit s l r lims" and k: "k \<le> length (sv_trail s)"
  shows "watch_done s k c a b \<Longrightarrow> watch_done (assign_lit s l r lims) k c a b"
proof -
  assume w: "watch_done s k c a b"
  have "lit_negate (sv_clauses s ! c ! a) \<in> set (take k (sv_trail s)) \<Longrightarrow>
      lit_level (assign_lit s l r lims) (sv_clauses s ! c ! a) = lit_level s (sv_clauses s ! c ! a)"
    using assign_old(1) [OF f, of "lit_negate (sv_clauses s ! c ! a)"] by (auto dest: in_set_takeD)
  then show ?thesis using w k assign_old(1) [OF f] by (auto simp: watch_done_def)
qed

lemma prop_to_assign:
  "fresh_lit s l r lims \<Longrightarrow> k \<le> length (sv_trail s) \<Longrightarrow> prop_to k s \<Longrightarrow> prop_to k (assign_lit s l r lims)"
  using watch_done_assign by (simp add: prop_to_def)

lemma units_assign:
  assumes f: "fresh_lit s l r lims"
  shows "units (assign_lit s l r lims) = units s \<union> (if lims = [] \<and> r = None then {l} else {})"
  using assign_old(1) [OF f] assign_old(2) [OF f] assign_new(1) [OF f] assign_new(2) [OF f] by (auto simp: units_def)

end
