(* ===== verification/SatPropagate.thy ===== *)
theory SatPropagate
  imports SatInv
begin

text \<open>
  Propagation keeps the invariants, extends the trail by implied literals only, leaves the formula
  as it was, and ends either with every watch processed or with a clause whose literals are all
  false, one of them at the current level.
\<close>

subsection \<open>What propagation may change\<close>

definition frame :: "Solver \<Rightarrow> Solver \<Rightarrow> bool" where
  "frame s t \<longleftrightarrow> map set (sv_clauses t) = map set (sv_clauses s) \<and> num_vars t = num_vars s \<and>
     sv_trail_lim t = sv_trail_lim s \<and> sv_phase t = sv_phase s \<and> sv_activity t = sv_activity s \<and>
     sv_var_inc t = sv_var_inc s \<and> sv_unsat t = sv_unsat s \<and> sv_order t = sv_order s \<and>
     sv_order_slot t = sv_order_slot s \<and> sv_seen t = sv_seen s \<and>
     (\<exists>ys. sv_trail t = sv_trail s @ ys) \<and> units t = units s"

lemma frame_refl [simp]: "frame s s"
  by (auto simp: frame_def)

lemma frame_trans [trans]: "frame s t \<Longrightarrow> frame t u \<Longrightarrow> frame s u"
  by (auto simp: frame_def)

lemma frame_lengths: "frame s t \<Longrightarrow> length (sv_clauses t) = length (sv_clauses s)"
  by (auto simp: frame_def dest: map_eq_imp_length_eq)

lemma holds_cong:
  assumes "map set (sv_clauses t) = map set (sv_clauses s)" "units t = units s"
  shows "holds \<nu> t = holds \<nu> s"
proof -
  have "(\<forall>c \<in> set (sv_clauses u). clause_true \<nu> c) \<longleftrightarrow> (\<forall>C \<in> set (map set (sv_clauses u)). \<exists>l \<in> C. lit_true \<nu> l)" for u :: Solver
    by (auto simp: clause_true_def)
  then show ?thesis by (simp only: holds_def assms)
qed

lemma frame_holds: "frame s t \<Longrightarrow> holds \<nu> t = holds \<nu> s"
  by (rule holds_cong) (simp_all add: frame_def)

subsection \<open>Swapping two literals of a clause\<close>

lemma swap_lits_fields [simp]:
  "sv_watches (swap_lits s c i j) = sv_watches s" "sv_assign (swap_lits s c i j) = sv_assign s"
  "sv_level (swap_lits s c i j) = sv_level s" "sv_reason (swap_lits s c i j) = sv_reason s"
  "sv_trail (swap_lits s c i j) = sv_trail s" "sv_trail_lim (swap_lits s c i j) = sv_trail_lim s"
  "sv_qhead (swap_lits s c i j) = sv_qhead s" "length (sv_clauses (swap_lits s c i j)) = length (sv_clauses s)"
  "lit_level (swap_lits s c i j) = lit_level s" "units (swap_lits s c i j) = units s"
  "value_lit (swap_lits s c i j) = value_lit s"
  by (simp_all add: swap_lits_def Let_def lit_level_def fun_eq_iff units_def value_lit_def)

lemma swap_lits_clause:
  "c < length (sv_clauses s) \<Longrightarrow> sv_clauses (swap_lits s c i j) ! d =
     (if d = c then (sv_clauses s ! c)[i := sv_clauses s ! c ! j, j := sv_clauses s ! c ! i] else sv_clauses s ! d)"
  by (auto simp: swap_lits_def Let_def nth_list_update)

lemma swap_lits_frame:
  assumes "c < length (sv_clauses s)" "i < length (sv_clauses s ! c)" "j < length (sv_clauses s ! c)"
  shows "frame s (swap_lits s c i j)"
proof -
  have "map set (sv_clauses (swap_lits s c i j)) = map set (sv_clauses s)"
    using assms by (intro nth_equalityI) (simp_all add: swap_lits_clause set_swap)
  moreover have "sv_trail (swap_lits s c i j) = sv_trail s @ []" by simp
  ultimately show ?thesis
    unfolding frame_def by (auto simp: swap_lits_def Let_def)
      (auto simp: units_def lit_level_def)
qed

lemma set_tl_swap:
  assumes "0 < i" "0 < j" "i < length xs" "j < length xs"
  shows "set (tl (xs[i := xs ! j, j := xs ! i])) = set (tl xs)" "xs[i := xs ! j, j := xs ! i] ! 0 = xs ! 0"
proof -
  obtain x ys where xs: "xs = x # ys" using assms by (cases xs) auto
  obtain a b where ab: "i = Suc a" "j = Suc b" using assms by (metis gr0_implies_Suc)
  show "set (tl (xs[i := xs ! j, j := xs ! i])) = set (tl xs)" "xs[i := xs ! j, j := xs ! i] ! 0 = xs ! 0"
    using assms set_swap [of a ys b] unfolding xs ab by simp_all
qed

lemma distinct_map_swap:
  "i < length xs \<Longrightarrow> j < length xs \<Longrightarrow> distinct (map f (xs[i := xs ! j, j := xs ! i])) = distinct (map f xs)"
  by (simp add: map_update) (metis distinct_swap length_map nth_map)

lemma swap_lits_inv:
  assumes "solver_inv s" "c < length (sv_clauses s)" "i < length (sv_clauses s ! c)" "j < length (sv_clauses s ! c)"
    and "0 < i \<and> 0 < j \<or> sv_clauses s ! c ! 0 \<notin> set (sv_trail s)"
  shows "solver_inv (swap_lits s c i j)"
proof -
  let ?t = "swap_lits s c i j"
  have "clauses_ok ?t"
    unfolding clauses_ok_def
  proof
    fix d assume "d \<in> set (sv_clauses ?t)"
    then obtain k where k: "k < length (sv_clauses s)" "d = sv_clauses ?t ! k" by (auto simp: in_set_conv_nth)
    have "2 \<le> length (sv_clauses s ! k) \<and> distinct (map lit_var (sv_clauses s ! k)) \<and>
        (\<forall>l \<in> set (sv_clauses s ! k). l < 2 * num_vars s)"
      using assms(1) nth_mem [OF k(1)] unfolding solver_inv_def clauses_ok_def by blast
    then show "2 \<le> length d \<and> distinct (map lit_var d) \<and> (\<forall>l \<in> set d. l < 2 * num_vars ?t)"
      using assms(2-4) k by (auto simp: swap_lits_clause distinct_map_swap set_swap)
  qed
  moreover have "reasons_ok ?t"
    unfolding reasons_ok_def
  proof (intro allI impI)
    fix k assume k: "k < length (sv_trail ?t)"
    have old: "case sv_reason s ! lit_var (sv_trail s ! k) of
        None \<Rightarrow> k \<in> set (sv_trail_lim s) \<or> lit_level s (sv_trail s ! k) = 0
      | Some c \<Rightarrow> c < length (sv_clauses s) \<and> sv_clauses s ! c ! 0 = sv_trail s ! k \<and>
          (\<forall>l \<in> set (tl (sv_clauses s ! c)). lit_negate l \<in> set (take k (sv_trail s)))"
      using assms(1) k by (simp add: solver_inv_def reasons_ok_def)
    show "case sv_reason ?t ! lit_var (sv_trail ?t ! k) of
        None \<Rightarrow> k \<in> set (sv_trail_lim ?t) \<or> lit_level ?t (sv_trail ?t ! k) = 0
      | Some c \<Rightarrow> c < length (sv_clauses ?t) \<and> sv_clauses ?t ! c ! 0 = sv_trail ?t ! k \<and>
          (\<forall>l \<in> set (tl (sv_clauses ?t ! c)). lit_negate l \<in> set (take k (sv_trail ?t)))"
    proof (cases "sv_reason s ! lit_var (sv_trail s ! k) = Some c")
      case True
      then have "0 < i" "0 < j" using old assms(5) k nth_mem [of k "sv_trail s"] by auto
      then show ?thesis
        using old True assms(2-4) set_tl_swap [of i j "sv_clauses s ! c"] by (simp add: swap_lits_clause)
    next
      case False
      then show ?thesis using old assms(2) by (auto simp: swap_lits_clause split: option.splits)
    qed
  qed
  ultimately show ?thesis
    using assms(1) unfolding solver_inv_def
    by (simp add: sizes_ok_def trail_ok_def levels_ok_def) (simp add: swap_lits_def Let_def)
qed

lemma watch_done_swap_other:
  "c < length (sv_clauses s) \<Longrightarrow> d \<noteq> c \<Longrightarrow> watch_done (swap_lits s c i j) k d a b = watch_done s k d a b"
  by (simp add: watch_done_def swap_lits_clause)

subsection \<open>Watch tables\<close>

lemma watches_irrelevant:
  assumes "length w = length (sv_watches s)"
  shows "solver_inv (s\<lparr>sv_watches := w\<rparr>) = solver_inv s"
  using assms by (simp add: inv_defs lit_level_def cong: option.case_cong)

lemma watches_fields [simp]:
  "lit_level (s\<lparr>sv_watches := w\<rparr>) = lit_level s" "units (s\<lparr>sv_watches := w\<rparr>) = units s"
  "watch_done (s\<lparr>sv_watches := w\<rparr>) = watch_done s" "prop_to k (s\<lparr>sv_watches := w\<rparr>) = prop_to k s"
  "frame u (s\<lparr>sv_watches := w\<rparr>) = frame u s" "level_start (s\<lparr>sv_watches := w\<rparr>) = level_start s"
  by (simp_all add: lit_level_def units_def watch_done_def prop_to_def frame_def level_start_def fun_eq_iff)

lemma qhead_fields [simp]:
  "lit_level (s\<lparr>sv_qhead := q\<rparr>) = lit_level s" "units (s\<lparr>sv_qhead := q\<rparr>) = units s"
  "watch_done (s\<lparr>sv_qhead := q\<rparr>) = watch_done s" "prop_to k (s\<lparr>sv_qhead := q\<rparr>) = prop_to k s"
  "frame u (s\<lparr>sv_qhead := q\<rparr>) = frame u s" "level_start (s\<lparr>sv_qhead := q\<rparr>) = level_start s"
  "solver_inv (s\<lparr>sv_qhead := q\<rparr>) = solver_inv s"
  by (simp_all add: lit_level_def units_def watch_done_def prop_to_def frame_def level_start_def fun_eq_iff
      inv_defs cong: option.case_cong)

lemma watch_ok_cong:
  assumes "length cls' = length cls" "\<And>d. d < length cls \<Longrightarrow> {cls' ! d ! 0, cls' ! d ! 1} = {cls ! d ! 0, cls ! d ! 1}"
  shows "watch_ok cls' W = watch_ok cls W"
proof -
  define A where "A C c = {C ! c ! 0, C ! c ! 1}" for C :: "Lit list list" and c
  have "watch_ok C W \<longleftrightarrow> (\<forall>l < length W. distinct (W ! l) \<and> (\<forall>c \<in> set (W ! l). c < length C \<and> l \<in> A C c)) \<and>
      (\<forall>c < length C. \<forall>l \<in> A C c. c \<in> set (W ! l))" for C
    by (auto simp: watch_ok_def A_def)
  moreover have "A cls' d = A cls d" if "d < length cls" for d using assms(2) [OF that] by (simp only: A_def)
  ultimately show ?thesis using assms(1) by (simp cong: conj_cong)
qed

subsection \<open>Visiting one watched clause\<close>

text \<open>The invariant of the loop over the watches taken from \<open>fl\<close>, whose negation is the trail's
  literal \<open>q\<close>: \<open>W\<close> is the watch table with the list of \<open>fl\<close> put back, \<open>rest\<close> the part
  of it not visited yet.\<close>

definition pw_inv :: "Solver \<Rightarrow> Lit \<Rightarrow> nat \<Rightarrow> nat list list \<Rightarrow> nat list \<Rightarrow> bool" where
  "pw_inv s fl q W rest \<longleftrightarrow> solver_inv s \<and> watch_ok (sv_clauses s) W \<and> sv_watches s = W[fl := []] \<and>
     q < length (sv_trail s) \<and> sv_trail s ! q = lit_negate fl \<and> level_start s \<le> q \<and> prop_to q s \<and>
     set rest \<subseteq> set (W ! fl) \<and>
     (\<forall>c < length (sv_clauses s). c \<notin> set rest \<longrightarrow> watch_done s (Suc q) c 0 1 \<and> watch_done s (Suc q) c 1 0)"

lemma pw_facts:
  assumes "pw_inv s fl q W rest"
  shows "solver_inv s" "fl < 2 * num_vars s" "length W = 2 * num_vars s" "lit_negate fl \<in> set (sv_trail s)"
    "lit_level s fl = decision_level s" "fl \<notin> set (sv_trail s)"
    "set (take (Suc q) (sv_trail s)) = insert (lit_negate fl) (set (take q (sv_trail s)))"
proof -
  have q: "q < length (sv_trail s)" "sv_trail s ! q = lit_negate fl" using assms by (auto simp: pw_inv_def)
  show i: "solver_inv s" using assms by (simp add: pw_inv_def)
  show m: "lit_negate fl \<in> set (sv_trail s)" using q by (metis nth_mem)
  show "fl < 2 * num_vars s" using trail_lt [OF i m] by (simp add: lit_var_lt)
  have "sv_watches s = W[fl := []]" using assms by (simp add: pw_inv_def)
  then show "length W = 2 * num_vars s" using i by (auto simp: solver_inv_def sizes_ok_def)
  show "lit_level s fl = decision_level s"
    using level_current [OF i q(1)] q(2) assms by (metis lit_level_negate pw_inv_def)
  show "fl \<notin> set (sv_trail s)" using trail_consistent [OF i m] by simp
  show "set (take (Suc q) (sv_trail s)) = insert (lit_negate fl) (set (take q (sv_trail s)))"
    using q by (simp add: take_Suc_conv_app_nth)
qed

lemma watch_head:
  assumes "pw_inv s fl q W (cref # rest)"
  shows "cref < length (sv_clauses s)" "2 \<le> length (sv_clauses s ! cref)"
    "sv_clauses s ! cref ! 0 = fl \<or> sv_clauses s ! cref ! 1 = fl"
    "distinct (map lit_var (sv_clauses s ! cref))" "\<forall>l \<in> set (sv_clauses s ! cref). l < 2 * num_vars s"
proof -
  have "cref \<in> set (W ! fl)" "fl < length W" using assms pw_facts [OF assms] by (auto simp: pw_inv_def)
  then show c: "cref < length (sv_clauses s)" "sv_clauses s ! cref ! 0 = fl \<or> sv_clauses s ! cref ! 1 = fl"
    using assms by (auto simp: pw_inv_def watch_ok_def)
  show "2 \<le> length (sv_clauses s ! cref)" "distinct (map lit_var (sv_clauses s ! cref))"
    "\<forall>l \<in> set (sv_clauses s ! cref). l < 2 * num_vars s"
    using pw_facts(1) [OF assms] nth_mem [OF c(1)] unfolding solver_inv_def clauses_ok_def by blast+
qed

text \<open>After the first step the falsified literal is in slot 1.\<close>

lemma front_swap:
  assumes "pw_inv s fl q W (cref # rest)"
  defines "t \<equiv> if sv_clauses s ! cref ! 0 = fl then swap_lits s cref 0 1 else s"
  shows "pw_inv t fl q W (cref # rest)" "sv_clauses t ! cref ! 1 = fl" "frame s t"
proof -
  note f = pw_facts [OF assms(1)] and h = watch_head [OF assms(1)]
  have l2: "0 < length (sv_clauses s ! cref)" "Suc 0 < length (sv_clauses s ! cref)" "sv_clauses s ! cref \<noteq> []"
    using h(2) by auto
  show "sv_clauses t ! cref ! 1 = fl" using h by (auto simp: t_def swap_lits_clause)
  show fr: "frame s t" using h by (auto simp: t_def intro!: swap_lits_frame)
  show "pw_inv t fl q W (cref # rest)"
  proof (cases "sv_clauses s ! cref ! 0 = fl")
    case False
    then show ?thesis using assms by (simp add: t_def)
  next
    case True
    then have t: "t = swap_lits s cref 0 1" by (simp add: t_def)
    have "solver_inv t" unfolding t using h f True by (intro swap_lits_inv) auto
    moreover have c: "{sv_clauses t ! d ! 0, sv_clauses t ! d ! 1} = {sv_clauses s ! d ! 0, sv_clauses s ! d ! 1}"
      if "d < length (sv_clauses s)" for d
      using h l2 that by (cases "d = cref") (auto simp: t swap_lits_clause nth_list_update)
    moreover have "watch_ok (sv_clauses t) W"
      using assms(1) c watch_ok_cong [of "sv_clauses t" "sv_clauses s" W] by (simp add: pw_inv_def t)
    moreover have wd: "watch_done t k d 0 1 \<and> watch_done t k d 1 0 \<longleftrightarrow> watch_done s k d 0 1 \<and> watch_done s k d 1 0"
      if "d < length (sv_clauses s)" for d k
      using h l2 that by (cases "d = cref") (auto simp: t watch_done_def swap_lits_clause nth_list_update)
    ultimately show ?thesis
      using assms(1) by (auto simp: pw_inv_def t prop_to_def level_start_def)
  qed
qed

lemma visit_keep_true:
  assumes "pw_inv s fl q W (cref # rest)" "sv_clauses s ! cref ! 1 = fl" "sv_clauses s ! cref ! 0 \<in> set (sv_trail s)"
  shows "pw_inv s fl q W rest"
proof -
  note f = pw_facts [OF assms(1)]
  have "watch_done s (Suc q) cref 1 0"
    using assms(2,3) f(5) level_le [OF f(1) assms(3)] by (simp add: watch_done_def)
  moreover have "watch_done s (Suc q) cref 0 1"
    using trail_consistent [OF f(1) assms(3)] by (auto simp: watch_done_def dest: in_set_takeD)
  ultimately show ?thesis using assms(1) by (auto simp: pw_inv_def)
qed

lemma other_false_unprocessed:
  assumes "pw_inv s fl q W (cref # rest)" "sv_clauses s ! cref ! 1 = fl"
  shows "lit_negate (sv_clauses s ! cref ! 0) \<notin> set (take (Suc q) (sv_trail s))"
proof
  note f = pw_facts [OF assms(1)] and h = watch_head [OF assms(1)]
  assume a: "lit_negate (sv_clauses s ! cref ! 0) \<in> set (take (Suc q) (sv_trail s))"
  have "0 < length (sv_clauses s ! cref)" "1 < length (sv_clauses s ! cref)" using h(2) by linarith+
  then have "lit_var (sv_clauses s ! cref ! 0) \<noteq> lit_var (sv_clauses s ! cref ! 1)"
    using nth_eq_iff_index_eq [OF h(4), of 0 1] by simp
  then have "sv_clauses s ! cref ! 0 \<noteq> fl" using assms(2) by auto
  then have "lit_negate (sv_clauses s ! cref ! 0) \<in> set (take q (sv_trail s))"
    using a f(7) by (auto) (metis lit_simps(2))
  moreover have "watch_done s q cref 0 1" using assms(1) h(1) by (simp add: pw_inv_def prop_to_def)
  ultimately show False using assms(2) f(6) by (simp add: watch_done_def)
qed

lemma visit_moved:
  assumes "pw_inv s fl q W (cref # rest)" "sv_clauses s ! cref ! 1 = fl"
    and k: "2 \<le> k" "k < length (sv_clauses s ! cref)" "lit_negate (sv_clauses s ! cref ! k) \<notin> set (sv_trail s)"
    and W: "W ! fl = new_ws @ cref # rest"
  defines "nw \<equiv> sv_clauses s ! cref ! k"
  defines "t \<equiv> push_watch (swap_lits s cref 1 k) nw cref"
  shows "pw_inv t fl q ((W[fl := new_ws @ rest])[nw := W ! nw @ [cref]]) rest"
    "frame s t" "sv_clauses (swap_lits s cref 1 k) ! cref ! 1 = nw" "nw \<noteq> fl" "nw < 2 * num_vars s"
proof -
  note f = pw_facts [OF assms(1)] and h = watch_head [OF assms(1)]
  let ?u = "swap_lits s cref 1 k"
  have i: "solver_inv ?u" using h k f by (intro swap_lits_inv) auto
  show c1: "sv_clauses ?u ! cref ! 1 = nw" using h k by (simp add: swap_lits_clause nw_def)
  have c0: "sv_clauses ?u ! cref ! 0 = sv_clauses s ! cref ! 0" using h k by (simp add: swap_lits_clause)
  show nfl: "nw \<noteq> fl" using k(3) f(4) by (auto simp: nw_def)
  have "0 < length (sv_clauses s ! cref)" "1 < length (sv_clauses s ! cref)" using h(2) by linarith+
  then have "lit_var (sv_clauses s ! cref ! 0) \<noteq> lit_var nw"
    using nth_eq_iff_index_eq [OF h(4), of 0 k] k by (simp add: nw_def)
  then have n0: "nw \<noteq> sv_clauses s ! cref ! 0" by auto
  have nw: "nw \<in> set (sv_clauses s ! cref)" using k by (simp add: nw_def)
  show nl: "nw < 2 * num_vars s" using h(5) nw by blast
  have tf: "sv_clauses t = sv_clauses ?u" "sv_trail t = sv_trail s" "sv_trail_lim t = sv_trail_lim s"
      "lit_level t = lit_level s" "solver_inv t = solver_inv ?u"
    by (simp_all add: t_def push_watch_def watches_irrelevant)
  have "frame s ?u" using h k by (intro swap_lits_frame) auto
  then show "frame s t" by (simp add: t_def push_watch_def)
  have wo: "watch_ok (sv_clauses s) W" and ws: "sv_watches s = W[fl := []]" using assms(1) by (auto simp: pw_inv_def)
  let ?W = "(W[fl := new_ws @ rest])[nw := W ! nw @ [cref]]"
  have Wn: "?W ! l = (if l = nw then W ! nw @ [cref] else if l = fl then new_ws @ rest else W ! l)"
    if "l < 2 * num_vars s" for l
    using that nfl f(2,3) nl by (auto simp: nth_list_update)
  have notin: "cref \<notin> set (W ! nw)"
    using wo nl f(3) assms(2) nfl n0 unfolding watch_ok_def by metis
  have "distinct (W ! fl)" using wo f(2,3) by (simp add: watch_ok_def)
  then have dfl: "distinct (new_ws @ rest)" "cref \<notin> set (new_ws @ rest)" by (auto simp: W)
  have wt1: "watch_ok (sv_clauses t) ?W"
    unfolding watch_ok_def
  proof (intro conjI allI impI ballI)
    fix l assume "l < length ?W"
    then have l: "l < 2 * num_vars s" by (simp add: f(3))
    have old: "distinct (W ! l)" "\<forall>c \<in> set (W ! l). c < length (sv_clauses s) \<and> (sv_clauses s ! c ! 0 = l \<or> sv_clauses s ! c ! 1 = l)"
      using wo l f(3) by (auto simp: watch_ok_def)
    show "distinct (?W ! l)" using old(1) dfl(1) notin Wn [OF l] by auto
    fix c assume c: "c \<in> set (?W ! l)"
    have cc: "c = cref \<and> l = nw \<or> c \<noteq> cref \<and> c \<in> set (W ! l)
        \<or> c = cref \<and> c \<in> set (W ! l) \<and> l \<noteq> nw \<and> l \<noteq> fl"
      using c Wn [OF l] dfl W notin by (auto split: if_splits)
    then show "c < length (sv_clauses t)" using old(2) h(1) by (auto simp: tf)
    show "sv_clauses t ! c ! 0 = l \<or> sv_clauses t ! c ! 1 = l"
      using cc old(2) c0 c1 assms(2) h(1) by (auto simp: tf swap_lits_clause)
  next
    fix c assume "c < length (sv_clauses t)"
    then have c: "c < length (sv_clauses s)" by (simp add: tf)
    have old: "c \<in> set (W ! (sv_clauses s ! c ! 0))" "c \<in> set (W ! (sv_clauses s ! c ! 1))"
      using wo c by (auto simp: watch_ok_def)
    have lt: "sv_clauses s ! c ! 0 < 2 * num_vars s" "sv_clauses s ! c ! 1 < 2 * num_vars s"
      using f(1) nth_mem [OF c] nth_mem [of 0 "sv_clauses s ! c"] nth_mem [of 1 "sv_clauses s ! c"]
      unfolding solver_inv_def clauses_ok_def by fastforce+
    have "c \<in> set (?W ! (sv_clauses t ! c ! 0)) \<and> c \<in> set (?W ! (sv_clauses t ! c ! 1))"
    proof (cases "c = cref")
      case True
      have "sv_clauses s ! cref ! 0 \<noteq> fl"
        using other_false_unprocessed [OF assms(1,2)] f(7) by auto
      then show ?thesis using True c0 c1 old(1) lt n0 nl Wn by (simp add: tf)
    next
      case False
      then have "sv_clauses t ! c = sv_clauses s ! c" using h(1) by (simp add: tf swap_lits_clause)
      moreover have "c \<in> set (?W ! l)" if "c \<in> set (W ! l)" "l < 2 * num_vars s" for l
        using that False Wn [OF that(2)] W by (cases "l = fl") auto
      ultimately show ?thesis using old lt by simp
    qed
    then show "c \<in> set (?W ! (sv_clauses t ! c ! 0))" "c \<in> set (?W ! (sv_clauses t ! c ! 1))" by auto
  qed
  have wt2: "sv_watches t = ?W[fl := []]"
    using nfl f(2,3) nl ws by (simp add: t_def push_watch_def list_update_swap [of fl nw])
  have wd: "watch_done t m d a b = watch_done s m d a b" if "d \<noteq> cref" for m d a b
    using that h(1) by (simp add: watch_done_def tf swap_lits_clause)
  have "watch_done t m cref 0 1 \<and> watch_done t m cref 1 0" if "m \<le> Suc q" for m
  proof -
    have "set (take m (sv_trail s)) \<subseteq> set (take (Suc q) (sv_trail s))" using that by (simp add: set_take_subset_set_take)
    then show ?thesis
      using other_false_unprocessed [OF assms(1,2)] k(3) c0 c1
      by (auto simp: watch_done_def tf nw_def dest: in_set_takeD)
  qed
  note cr = this
  have dn: "watch_done t m d 0 1 \<and> watch_done t m d 1 0"
    if "m \<le> Suc q" "d \<noteq> cref \<Longrightarrow> watch_done s m d 0 1 \<and> watch_done s m d 1 0" for m d
    using cr [OF that(1)] wd [of d m] that(2) by (cases "d = cref") simp_all
  have "prop_to q t" using dn [of q] assms(1) by (simp add: prop_to_def tf pw_inv_def)
  moreover have "\<forall>c < length (sv_clauses t). c \<notin> set rest \<longrightarrow> watch_done t (Suc q) c 0 1 \<and> watch_done t (Suc q) c 1 0"
    using dn [of "Suc q"] assms(1) by (simp add: tf pw_inv_def)
  moreover have "set rest \<subseteq> set (?W ! fl)" using Wn [OF f(2)] nfl by auto
  ultimately show "pw_inv t fl q ?W rest"
    using assms(1) i wt1 wt2 unfolding pw_inv_def tf level_start_def by auto
qed

lemma visit_unit:
  assumes "pw_inv s fl q W (cref # rest)" "sv_clauses s ! cref ! 1 = fl"
    and un: "sv_assign s ! lit_var (sv_clauses s ! cref ! 0) = None"
    and rest: "\<forall>k. 2 \<le> k \<and> k < length (sv_clauses s ! cref) \<longrightarrow> lit_negate (sv_clauses s ! cref ! k) \<in> set (sv_trail s)"
  defines "t \<equiv> assign_lit s (sv_clauses s ! cref ! 0) (Some cref) (sv_trail_lim s)"
  shows "pw_inv t fl q W rest" "frame s t"
proof -
  note f = pw_facts [OF assms(1)] and h = watch_head [OF assms(1)]
  let ?c = "sv_clauses s ! cref"
  have l2: "0 < length ?c" using h(2) by linarith
  then have l0: "?c ! 0 \<in> set ?c" by (rule nth_mem)
  have "lit_negate m \<in> set (sv_trail s)" if m: "m \<in> set (tl ?c)" for m
  proof -
    obtain k where "Suc k < length ?c" "m = ?c ! Suc k"
      using m by (metis in_set_conv_nth length_tl less_diff_conv nth_tl Suc_eq_plus1)
    then show ?thesis using rest assms(2) f(4) by (cases k) auto
  qed
  then have fr: "fresh_lit s (?c ! 0) (Some cref) (sv_trail_lim s)"
    using f(1) h(1,5) l0 un by (simp add: fresh_lit_def)
  have q: "q < length (sv_trail s)" using assms(1) by (simp add: pw_inv_def)
  note wd = watch_done_assign [OF fr, folded t_def]
  have lv: "lit_level t fl = lit_level s fl" "lit_level t (?c ! 0) = decision_level s"
    using assign_old(1) [OF fr f(4)] assign_new(1) [OF fr] by (simp_all add: t_def)
  have nt: "lit_negate (?c ! 0) \<notin> set (sv_trail t)"
    using trail_consistent [OF inv_assign [OF fr], of "?c ! 0"] by (simp add: t_def)
  have dc: "watch_done t (Suc q) cref 0 1 \<and> watch_done t (Suc q) cref 1 0"
    using nt lv f(5) assms(2) by (auto simp: watch_done_def t_def dest: in_set_takeD)
  have "watch_done t (Suc q) c 0 1 \<and> watch_done t (Suc q) c 1 0"
    if "c < length (sv_clauses t)" "c \<notin> set rest" for c
    using wd [of "Suc q"] q that assms(1) dc by (cases "c = cref") (simp_all add: pw_inv_def t_def)
  moreover have "prop_to q t" using prop_to_assign [OF fr, of q] q assms(1) by (simp add: pw_inv_def t_def)
  ultimately show "pw_inv t fl q W rest"
    using assms(1) inv_assign [OF fr, folded t_def] q by (simp add: pw_inv_def) (simp add: t_def nth_append level_start_def split: if_splits)
  show "frame s t" using units_assign [OF fr] by (simp add: frame_def t_def) (simp add: assign_lit_def)
qed

definition conflict_clause :: "Solver \<Rightarrow> nat \<Rightarrow> bool" where
  "conflict_clause s c \<longleftrightarrow> c < length (sv_clauses s) \<and>
     (\<forall>l \<in> set (sv_clauses s ! c). lit_negate l \<in> set (sv_trail s)) \<and>
     (\<exists>l \<in> set (sv_clauses s ! c). lit_level s l = decision_level s)"

lemma find_watch_Some:
  "find_watch s c = Some k \<Longrightarrow> 2 \<le> k \<and> k < length (sv_clauses s ! c) \<and> value_lit s (sv_clauses s ! c ! k) \<noteq> Some False"
  by (auto simp: find_watch_def find_Some_iff Let_def)

lemma find_watch_None:
  "find_watch s c = None \<Longrightarrow> 2 \<le> k \<Longrightarrow> k < length (sv_clauses s ! c) \<Longrightarrow> value_lit s (sv_clauses s ! c ! k) = Some False"
  by (auto simp: find_watch_def find_None_iff Let_def)

lemma visit_watch_cases:
  assumes "pw_inv s fl q W (cref # rest)" "W ! fl = new_ws @ cref # rest" "visit_watch fl cref s = (t, v)"
  shows "frame s t \<and> sv_qhead t = sv_qhead s \<and>
    (case v of
       Keep \<Rightarrow> pw_inv t fl q W rest
     | Moved \<Rightarrow> (\<exists>W'. pw_inv t fl q W' rest \<and> W' ! fl = new_ws @ rest)
     | Conflict \<Rightarrow> pw_inv t fl q W (cref # rest) \<and> conflict_clause t cref)"
proof -
  define u where "u = (if sv_clauses s ! cref ! 0 = fl then swap_lits s cref 0 1 else s)"
  note fs = front_swap [OF assms(1), folded u_def]
  note f = pw_facts [OF fs(1)] and h = watch_head [OF fs(1)]
  let ?c = "sv_clauses u ! cref"
  have qh: "sv_qhead u = sv_qhead s" by (simp add: u_def)
  have w0: "?c ! 0 < 2 * num_vars u" "?c ! 0 \<in> set ?c" using h(2,5) nth_mem [of 0 ?c] by fastforce+
  have vk: "2 \<le> k \<Longrightarrow> k < length ?c \<Longrightarrow> value_lit u (?c ! k) = Some False \<longleftrightarrow> lit_negate (?c ! k) \<in> set (sv_trail u)" for k
    using value_lit_iff(2) [OF f(1)] h(5) nth_mem by blast
  consider (t) "value_lit u (?c ! 0) = Some True"
    | (m) k where "value_lit u (?c ! 0) \<noteq> Some True" "find_watch u cref = Some k"
    | (c) "find_watch u cref = None" "value_lit u (?c ! 0) = Some False"
    | (e) "find_watch u cref = None" "value_lit u (?c ! 0) = None"
    by (cases "value_lit u (?c ! 0)"; cases "find_watch u cref") auto
  then show ?thesis
  proof cases
    case t
    then have "t = u" "v = Keep" using assms(3) by (auto simp: visit_watch_def u_def [symmetric])
    moreover have "?c ! 0 \<in> set (sv_trail u)" using t value_lit_iff(1) [OF f(1) w0(1)] by simp
    ultimately show ?thesis using visit_keep_true [OF fs(1,2)] fs(3) qh by simp
  next
    case (m k)
    note k = find_watch_Some [OF m(2)]
    have nf: "lit_negate (?c ! k) \<notin> set (sv_trail u)" using k vk [of k] by blast
    have k': "2 \<le> k" "k < length ?c" using k by auto
    note mv = visit_moved [OF fs(1,2) k' nf assms(2)]
    have "t = push_watch (swap_lits u cref 1 k) (?c ! k) cref" "v = Moved"
      using assms(3) m mv(3) by (auto simp: visit_watch_def u_def [symmetric] Let_def)
    moreover have "((W[fl := new_ws @ rest])[?c ! k := W ! (?c ! k) @ [cref]]) ! fl = new_ws @ rest"
      using mv(4) f(2,3) by simp
    ultimately show ?thesis using mv(1,2) fs(3) qh by (auto intro: frame_trans simp: push_watch_def)
  next
    case c
    then have tv: "t = u" "v = Conflict" using assms(3) by (auto simp: visit_watch_def u_def [symmetric])
    have "lit_negate l \<in> set (sv_trail u)" if "l \<in> set ?c" for l
    proof -
      obtain k where k: "k < length ?c" "l = ?c ! k" using \<open>l \<in> set ?c\<close> by (metis in_set_conv_nth)
      consider "k = 0" | "k = 1" | "2 \<le> k" by linarith
      then show ?thesis
        using k c value_lit_iff(2) [OF f(1) w0(1)] fs(2) f(4) find_watch_None [OF c(1), of k] vk [of k] by cases auto
    qed
    moreover have "fl \<in> set ?c" using fs(2) h(2) nth_mem [of 1 ?c] by simp
    ultimately show ?thesis using tv fs(1,3) qh h(1) f(5) by (auto simp: conflict_clause_def)
  next
    case e
    then have tv: "t = assign_lit u (?c ! 0) (Some cref) (sv_trail_lim u)" "v = Keep"
      using assms(3) by (auto simp: visit_watch_def u_def [symmetric] enqueue_cases)
    have un: "sv_assign u ! lit_var (?c ! 0) = None" using e value_lit_iff(3) [OF f(1) w0(1)] by simp
    have "\<forall>k. 2 \<le> k \<and> k < length ?c \<longrightarrow> lit_negate (?c ! k) \<in> set (sv_trail u)"
      using find_watch_None [OF e(1)] vk by blast
    from visit_unit [OF fs(1,2) un this] show ?thesis using tv fs(3) qh by (auto intro: frame_trans)
  qed
qed

subsection \<open>The loops\<close>

lemma propagate_watches_inv:
  assumes "pw_inv s fl q W ws" "W ! fl = new_ws @ ws" "propagate_watches ws fl s new_ws = (t, out, confl)"
  shows "frame s t \<and> sv_qhead t = sv_qhead s \<and>
    (\<exists>W' rest. pw_inv t fl q W' rest \<and> W' ! fl = out \<and>
      (case confl of None \<Rightarrow> rest = [] | Some c \<Rightarrow> conflict_clause t c))"
  using assms
proof (induction ws arbitrary: s new_ws W)
  case (Cons cref ws)
  obtain u v where uv: "visit_watch fl cref s = (u, v)" by fastforce
  note vc = visit_watch_cases [OF Cons.prems(1,2) uv]
  show ?case
  proof (cases v)
    case Keep
    then have "propagate_watches ws fl u (new_ws @ [cref]) = (t, out, confl)" using Cons.prems(3) uv by simp
    from Cons.IH [OF _ _ this, of W] show ?thesis
      using vc Keep Cons.prems(2) by (auto intro: frame_trans)
  next
    case Moved
    then obtain W' where "pw_inv u fl q W' ws" "W' ! fl = new_ws @ ws" using vc by auto
    moreover have "propagate_watches ws fl u new_ws = (t, out, confl)" using Cons.prems(3) uv Moved by simp
    ultimately show ?thesis using Cons.IH [of u W' new_ws] vc by (auto intro: frame_trans)
  next
    case Conflict
    then have "t = u" "out = new_ws @ cref # ws" "confl = Some cref" using Cons.prems(3) uv by auto
    then show ?thesis using vc Conflict Cons.prems(2) by auto
  qed
qed auto

lemma prop_to_mono: "j \<le> k \<Longrightarrow> prop_to k s \<Longrightarrow> prop_to j s"
  using set_take_subset_set_take [of j k] by (fastforce simp: prop_to_def watch_done_def)

lemma propagate_lit_inv:
  assumes "solver_inv s" "watch_ok (sv_clauses s) (sv_watches s)" "prop_to (sv_qhead s) s"
    and "sv_qhead s < length (sv_trail s)" "level_start s \<le> sv_qhead s" "propagate_lit s = (t, confl)"
  shows "frame s t" "solver_inv t" "watch_ok (sv_clauses t) (sv_watches t)" "sv_qhead t = Suc (sv_qhead s)"
    "confl = None \<Longrightarrow> prop_to (Suc (sv_qhead s)) t"
    "confl = Some c \<Longrightarrow> conflict_clause t c \<and> prop_to (sv_qhead s) t"
proof -
  let ?q = "sv_qhead s"
  define fl where "fl = lit_negate (sv_trail s ! ?q)"
  define u where "u = s\<lparr>sv_qhead := ?q + 1, sv_watches := (sv_watches s)[fl := []]\<rparr>"
  obtain v out where p: "propagate_watches (sv_watches s ! fl) fl u [] = (v, out, confl)"
    and t: "t = v\<lparr>sv_watches := (sv_watches v)[fl := out]\<rparr>"
    using assms(6) by (auto simp: propagate_lit_def fl_def u_def Let_def split: prod.splits)
  have iu: "solver_inv u" "frame s u" "lit_level u = lit_level s"
    using assms(1) watches_irrelevant [of "(sv_watches s)[fl := []]" "s\<lparr>sv_qhead := ?q + 1\<rparr>"]
    by (simp_all add: u_def)
  have nf: "lit_negate fl = sv_trail s ! ?q" "lit_negate fl \<in> set (sv_trail s)" using assms(4) by (simp_all add: fl_def)
  have fl: "fl < 2 * num_vars s" using trail_lt [OF assms(1) nf(2)] by (simp add: lit_var_lt)
  have wl: "length (sv_watches s) = 2 * num_vars s" using assms(1) by (simp add: solver_inv_def sizes_ok_def)
  have "watch_done u (Suc ?q) c 0 1 \<and> watch_done u (Suc ?q) c 1 0"
    if "c < length (sv_clauses s)" "c \<notin> set (sv_watches s ! fl)" for c
  proof -
    have "sv_clauses s ! c ! 0 \<noteq> fl" "sv_clauses s ! c ! 1 \<noteq> fl" using assms(2) that by (auto simp: watch_ok_def)
    moreover have "set (take (Suc ?q) (sv_trail s)) = insert (lit_negate fl) (set (take ?q (sv_trail s)))"
      using assms(4) nf(1) by (simp add: take_Suc_conv_app_nth)
    ultimately show ?thesis
      using assms(3) that(1) unfolding prop_to_def watch_done_def iu(3) by (auto simp: u_def) (metis lit_simps(2))+
  qed
  then have "pw_inv u fl ?q (sv_watches s) (sv_watches s ! fl)"
    using assms iu nf by (simp add: pw_inv_def) (simp add: u_def)
  note pw = propagate_watches_inv [OF this _ p, simplified]
  then obtain W rest where W: "pw_inv v fl ?q W rest" "W ! fl = out"
      "case confl of None \<Rightarrow> rest = [] | Some c \<Rightarrow> conflict_clause v c" by blast
  note f = pw_facts [OF W(1)]
  have wt: "sv_watches t = W" using W(1,2) f(2,3) by (auto simp: t pw_inv_def list_update_id)
  show "frame s t" using pw iu(2) by (auto simp: t intro: frame_trans)
  show "solver_inv t" using f(1) by (simp add: t watches_irrelevant)
  have ct: "sv_clauses t = sv_clauses v" by (simp add: t)
  show "watch_ok (sv_clauses t) (sv_watches t)" using W(1) unfolding wt ct pw_inv_def by simp
  show "sv_qhead t = Suc ?q" using pw by (simp add: t u_def)
  show "confl = None \<Longrightarrow> prop_to (Suc ?q) t" using W by (simp add: t prop_to_def pw_inv_def)
  show "confl = Some c \<Longrightarrow> conflict_clause t c \<and> prop_to ?q t"
    using W by (simp add: t prop_to_def pw_inv_def conflict_clause_def)
qed

lemma trail_length: "solver_inv s \<Longrightarrow> length (sv_trail s) \<le> num_vars s"
proof -
  assume i: "solver_inv s"
  have "set (map lit_var (sv_trail s)) \<subseteq> {..<num_vars s}" using trail_lt [OF i] by auto
  then have "card (set (map lit_var (sv_trail s))) \<le> num_vars s" by (metis card_lessThan card_mono finite_lessThan)
  moreover have "distinct (map lit_var (sv_trail s))" using i by (simp add: solver_inv_def trail_ok_def)
  ultimately show ?thesis by (metis distinct_card length_map)
qed

text \<open>A state ready to propagate: everything below \<open>qhead\<close> is processed, and so is every level but
  the current one.\<close>

definition ready :: "Solver \<Rightarrow> bool" where
  "ready s \<longleftrightarrow> solver_inv s \<and> watch_ok (sv_clauses s) (sv_watches s) \<and> sv_qhead s \<le> length (sv_trail s) \<and>
     level_start s \<le> sv_qhead s \<and> prop_to (sv_qhead s) s"

lemma level_start_frame: "frame s t \<Longrightarrow> level_start t = level_start s"
  by (simp add: frame_def level_start_def)

lemma propagate_inv:
  assumes "ready s"
  shows "\<exists>r t. propagate s = Some (r, t) \<and> frame s t \<and> solver_inv t \<and> watch_ok (sv_clauses t) (sv_watches t) \<and>
    sv_qhead t = length (sv_trail t) \<and>
    (case r of None \<Rightarrow> prop_to (length (sv_trail t)) t
     | Some c \<Rightarrow> conflict_clause t c \<and> prop_to (level_start t) t)"
  using assms
proof (induction "num_vars s - sv_qhead s" arbitrary: s rule: less_induct)
  case less
  have r: "solver_inv s" "watch_ok (sv_clauses s) (sv_watches s)" "sv_qhead s \<le> length (sv_trail s)"
      "level_start s \<le> sv_qhead s" "prop_to (sv_qhead s) s"
    using less.prems by (auto simp: ready_def)
  show ?case
  proof (cases "sv_qhead s < length (sv_trail s)")
    case False
    then show ?thesis using r by (subst propagate.simps) auto
  next
    case True
    obtain u confl where u: "propagate_lit s = (u, confl)" by fastforce
    note pl = propagate_lit_inv [OF r(1,2,5) True r(4) u]
    show ?thesis
    proof (cases confl)
      case (Some c)
      have "prop_to (level_start u) u"
        using pl(6) [OF Some] level_start_frame [OF pl(1)] r(4) by (auto intro: prop_to_mono)
      then show ?thesis
        using True u Some pl(1-3) pl(6) [OF Some] by (subst propagate.simps) (simp add: conflict_clause_def)
    next
      case None
      obtain ys where ys: "sv_trail u = sv_trail s @ ys" "num_vars u = num_vars s"
        using pl(1) by (auto simp: frame_def)
      have "ready u"
        using pl None True r(4) ys level_start_frame [OF pl(1)] by (auto simp: ready_def)
      moreover have "num_vars u - sv_qhead u < num_vars s - sv_qhead s"
        using True trail_length [OF r(1)] pl(4) ys by simp
      ultimately obtain r' t where "propagate u = Some (r', t)" "frame u t" and rest: "solver_inv t"
          "watch_ok (sv_clauses t) (sv_watches t)" "sv_qhead t = length (sv_trail t)"
          "case r' of None \<Rightarrow> prop_to (length (sv_trail t)) t
           | Some c \<Rightarrow> conflict_clause t c \<and> prop_to (level_start t) t"
        using less.hyps by blast
      moreover have "propagate s = propagate u" using True u None by (subst propagate.simps) simp
      ultimately show ?thesis using frame_trans [OF pl(1)] by auto
    qed
  qed
qed

end
