(* ===== verification/SatAnalyze.thy ===== *)
theory SatAnalyze
  imports SatPropagate
begin

text \<open>
  Conflict analysis: from a clause whose literals are all false it returns, without panicking, a
  clause implied by the formula, false under the current assignment, with exactly one literal of
  the current level (the first unique implication point), and the highest level among the others.
  The resolvent at any moment is the set of seen variables.
\<close>

subsection \<open>Level zero\<close>

lemma root_implied:
  assumes "solver_inv s" "holds \<nu> s" "i < length (sv_trail s)" "lit_level s (sv_trail s ! i) = 0"
  shows "lit_true \<nu> (sv_trail s ! i)"
  using assms(3,4)
proof (induction i rule: less_induct)
  case (less i)
  let ?l = "sv_trail s ! i"
  have r: "case sv_reason s ! lit_var ?l of
        None \<Rightarrow> i \<in> set (sv_trail_lim s) \<or> lit_level s ?l = 0
      | Some c \<Rightarrow> c < length (sv_clauses s) \<and> sv_clauses s ! c ! 0 = ?l \<and>
          (\<forall>m \<in> set (tl (sv_clauses s ! c)). lit_negate m \<in> set (take i (sv_trail s)))"
    using assms(1) less.prems(1) by (simp add: solver_inv_def reasons_ok_def)
  show ?case
  proof (cases "sv_reason s ! lit_var ?l")
    case None
    then have "?l \<in> units s" using less.prems by (simp add: units_def)
    then show ?thesis using assms(2) by (simp add: holds_def)
  next
    case (Some c)
    then have c: "c < length (sv_clauses s)" "sv_clauses s ! c ! 0 = ?l"
        "\<forall>m \<in> set (tl (sv_clauses s ! c)). lit_negate m \<in> set (take i (sv_trail s))" using r by auto
    have "clause_true \<nu> (sv_clauses s ! c)" using assms(2) c(1) by (simp add: holds_def)
    then obtain m where m: "m \<in> set (sv_clauses s ! c)" "lit_true \<nu> m" by (auto simp: clause_true_def)
    have "\<not> lit_true \<nu> m" if tm: "m \<in> set (tl (sv_clauses s ! c))"
    proof -
      have "lit_negate m \<in> set (take i (sv_trail s))" using c(3) tm by blast
      then obtain j where j: "j < i" "j < length (sv_trail s)" "sv_trail s ! j = lit_negate m"
        by (auto simp: in_set_conv_nth)
      have "lit_level s (sv_trail s ! j) = 0" using level_mono [OF assms(1), of j i] j less.prems by simp
      then have "lit_true \<nu> (lit_negate m)" using less.IH [of j] j by simp
      then show ?thesis by simp
    qed
    then have "m = ?l" using m c(2) by (cases "sv_clauses s ! c") auto
    then show ?thesis using m by simp
  qed
qed

subsection \<open>The scan of one clause\<close>

text \<open>The state of the analysis of \<open>s\<close> below trail index \<open>index\<close>.\<close>

definition scan_ok :: "Solver \<Rightarrow> nat \<Rightarrow> bool list \<Rightarrow> nat list \<Rightarrow> Lit list \<Rightarrow> nat \<Rightarrow> bool" where
  "scan_ok s index seen marked learnt path_c \<longleftrightarrow> length seen = num_vars s \<and> learnt \<noteq> [] \<and>
     (\<forall>v < num_vars s. seen ! v \<longrightarrow> 0 < sv_level s ! v \<and> v \<in> lit_var ` set (take index (sv_trail s)) \<and> v \<in> set marked) \<and>
     (\<forall>v \<in> set marked. v < num_vars s) \<and>
     (\<forall>q \<in> set (tl learnt). lit_negate q \<in> set (sv_trail s) \<and> 0 < lit_level s q \<and>
        lit_level s q < decision_level s \<and> seen ! lit_var q) \<and>
     distinct (map lit_var (tl learnt)) \<and>
     (\<forall>v < num_vars s. seen ! v \<and> sv_level s ! v < decision_level s \<longrightarrow> v \<in> lit_var ` set (tl learnt)) \<and>
     path_c = card {v. v < num_vars s \<and> seen ! v \<and> decision_level s \<le> sv_level s ! v}"

text \<open>The heap's part of the invariant during the analysis.\<close>

definition heap_inv :: "Solver \<Rightarrow> bool" where
  "heap_inv s \<longleftrightarrow> slots_ok s \<and> length (sv_order_slot s) = num_vars s \<and> length (sv_activity s) = num_vars s \<and>
     heap_ok s \<and> activities_ok s"

lemma heap_inv_cong:
  assumes "sv_order s = sv_order t" "sv_order_slot s = sv_order_slot t" "sv_activity s = sv_activity t"
    and "num_vars s = num_vars t"
  shows "heap_inv s = heap_inv t"
  unfolding heap_inv_def slots_ok_def heap_from_def behind_def ahead_def activities_ok_def assms by (rule refl)

lemma heap_inv_bump:
  assumes "heap_inv s" "v < num_vars s"
  shows "heap_inv (bump s v)" "set (sv_order (bump s v)) = set (sv_order s)"
  using assms bump_props [of s v] bump_heap [of s v] core_fields(3) [OF core_bump, of s v]
  by (auto simp: heap_inv_def)

lemma card_insert_seen:
  fixes D :: nat
  assumes "v < n" "\<not> seen ! v" "length seen = n" "D \<le> lev v"
  shows "card {u. u < n \<and> seen[v := True] ! u \<and> D \<le> lev u} = Suc (card {u. u < n \<and> seen ! u \<and> D \<le> lev u})"
proof -
  have "{u. u < n \<and> seen[v := True] ! u \<and> D \<le> lev u} = insert v {u. u < n \<and> seen ! u \<and> D \<le> lev u}"
    using assms by (auto simp: nth_list_update)
  then show ?thesis using assms by simp
qed

lemma scan_ok_step:
  assumes sk: "scan_ok s index seen marked learnt path_c" and s: "solver_inv s"
    and q: "lit_negate q \<in> set (take index (sv_trail s))" "\<not> seen ! lit_var q" "0 < lit_level s q"
  shows "scan_ok s index (seen[lit_var q := True]) (marked @ [lit_var q])
      (if decision_level s \<le> lit_level s q then learnt else learnt @ [q])
      (if decision_level s \<le> lit_level s q then path_c + 1 else path_c)"
proof -
  let ?v = "lit_var q"
  have tr: "lit_negate q \<in> set (sv_trail s)" using q(1) by (rule in_set_takeD)
  have v: "?v < num_vars s" using trail_lt [OF s tr] by simp
  have len: "length seen = num_vars s" "learnt \<noteq> []" using sk by (auto simp: scan_ok_def)
  have im: "?v \<in> lit_var ` set (take index (sv_trail s))" using q(1) by (metis imageI lit_simps(1))
  have nl: "?v \<notin> lit_var ` set (tl learnt)" using sk q(2) by (auto simp: scan_ok_def)
  have lv: "lit_level s q = sv_level s ! ?v" by (simp add: lit_level_def)
  have set': "{u. u < num_vars s \<and> seen[?v := True] ! u \<and> decision_level s \<le> sv_level s ! u}
      = {u. u < num_vars s \<and> seen ! u \<and> decision_level s \<le> sv_level s ! u}" if "\<not> decision_level s \<le> sv_level s ! ?v"
    using that len v by (auto simp: nth_list_update)
  show ?thesis
  proof (cases "decision_level s \<le> lit_level s q")
    case True
    then show ?thesis
      using sk len v im q(3) card_insert_seen [OF v q(2) len(1), of "decision_level s" "\<lambda>u. sv_level s ! u"]
      unfolding scan_ok_def lv by (auto simp: nth_list_update)
  next
    case False
    then show ?thesis
      using sk len v im q(3) set' tr nl
      unfolding scan_ok_def lv by (auto simp: nth_list_update lit_level_def)
  qed
qed

lemma analyze_scan_ok:
  assumes "scan_ok s index seen marked learnt path_c" "solver_inv s" "heap_inv u" "core u = core (s\<lparr>sv_seen := []\<rparr>)"
    and "\<forall>q \<in> set qs. lit_negate q \<in> set (take index (sv_trail s))"
    and "analyze_scan qs u seen marked learnt path_c = (u', seen', marked', learnt', path_c')"
  shows "scan_ok s index seen' marked' learnt' path_c' \<and> heap_inv u' \<and> core u' = core u \<and>
    set (sv_order u') = set (sv_order u) \<and> path_c \<le> path_c' \<and>
    (\<forall>v < num_vars s. seen ! v \<longrightarrow> seen' ! v) \<and> (\<forall>q \<in> set qs. 0 < lit_level s q \<longrightarrow> seen' ! lit_var q)"
  using assms
proof (induction qs arbitrary: u seen marked learnt path_c)
  case Nil
  then show ?case by auto
next
  case (Cons q qs)
  note cf = core_fields [OF Cons.prems(4)]
  have lev: "sv_level u = sv_level s" "decision_level u = decision_level s" "num_vars u = num_vars s"
    using cf(3,4,9) by simp_all
  have q: "lit_negate q \<in> set (take index (sv_trail s))" using Cons.prems(5) by simp
  then have v: "lit_var q < num_vars s" using trail_lt [OF Cons.prems(2) in_set_takeD, of "lit_negate q"] by simp
  show ?case
  proof (cases "\<not> seen ! lit_var q \<and> 0 < lit_level s q")
    case False
    then have "analyze_scan qs u seen marked learnt path_c = (u', seen', marked', learnt', path_c')"
      using Cons.prems(6) lev by (auto simp: lit_level_def Let_def)
    from Cons.IH [OF Cons.prems(1-4) _ this] show ?thesis using Cons.prems(5) False v by auto
  next
    case True
    let ?p = "if decision_level s \<le> lit_level s q then path_c + 1 else path_c"
    have run: "analyze_scan qs (bump u (lit_var q)) (seen[lit_var q := True]) (marked @ [lit_var q])
        (if decision_level s \<le> lit_level s q then learnt else learnt @ [q]) ?p = (u', seen', marked', learnt', path_c')"
      using Cons.prems(6) True lev by (auto simp: lit_level_def Let_def)
    have st: "scan_ok s index (seen[lit_var q := True]) (marked @ [lit_var q])
        (if decision_level s \<le> lit_level s q then learnt else learnt @ [q]) ?p"
      using scan_ok_step [OF Cons.prems(1,2) q] True by simp
    have vu: "lit_var q < num_vars u" using v lev by simp
    note hb = heap_inv_bump [OF Cons.prems(3) vu]
    have cb: "core (bump u (lit_var q)) = core (s\<lparr>sv_seen := []\<rparr>)" using Cons.prems(4) by simp
    have "\<forall>q \<in> set qs. lit_negate q \<in> set (take index (sv_trail s))" using Cons.prems(5) by simp
    note ih = Cons.IH [OF st Cons.prems(2) hb(1) cb this run]
    have len: "length seen = num_vars s" using Cons.prems(1) by (simp add: scan_ok_def)
    have "seen' ! lit_var q" using ih v len by (metis nth_list_update_eq)
    moreover have "seen' ! w" if "w < num_vars s" "seen ! w" for w
      using ih that len by (cases "w = lit_var q") (auto simp: nth_list_update)
    ultimately show ?thesis using ih hb(2) v lev by (auto split: if_splits)
  qed
qed

subsection \<open>Resolving along the trail\<close>

lemma find_seen_spec:
  assumes "\<exists>j < index. seen ! lit_var (trail ! j)"
  obtains i where "find_seen seen trail index = Some i" "i < index" "seen ! lit_var (trail ! i)"
    "\<And>j. i < j \<Longrightarrow> j < index \<Longrightarrow> \<not> seen ! lit_var (trail ! j)"
  using assms
proof (induction index arbitrary: thesis)
  case (Suc n)
  show ?case
  proof (cases "seen ! lit_var (trail ! n)")
    case True
    then show ?thesis using Suc.prems(1) [of n] by simp
  next
    case False
    then have "\<exists>j < n. seen ! lit_var (trail ! j)" using Suc.prems(2) less_Suc_eq by auto
    then obtain i where "find_seen seen trail n = Some i" "i < n" "seen ! lit_var (trail ! i)"
        "\<And>j. i < j \<Longrightarrow> j < n \<Longrightarrow> \<not> seen ! lit_var (trail ! j)"
      using Suc.IH by blast
    then show ?thesis using False Suc.prems(1) [of i] less_Suc_eq by auto
  qed
qed simp

text \<open>\<open>resolvent s index seen \<nu>\<close>: one of the seen literals below \<open>index\<close> is false in \<open>\<nu>\<close>.\<close>

definition resolvent :: "Solver \<Rightarrow> nat \<Rightarrow> bool list \<Rightarrow> (nat \<Rightarrow> bool) \<Rightarrow> bool" where
  "resolvent s index seen \<nu> \<longleftrightarrow>
     (\<exists>j < index. j < length (sv_trail s) \<and> seen ! lit_var (sv_trail s ! j) \<and> \<not> lit_true \<nu> (sv_trail s ! j))"

lemma resolvent_scanned:
  assumes s: "solver_inv s" and h: "holds \<nu> s" and d: "resolvent s index seen \<nu> \<or> (\<exists>q \<in> set qs. lit_true \<nu> q)"
    and q: "\<forall>q \<in> set qs. lit_negate q \<in> set (take index (sv_trail s))"
    and sub: "\<forall>v < num_vars s. seen ! v \<longrightarrow> seen' ! v" "\<forall>q \<in> set qs. 0 < lit_level s q \<longrightarrow> seen' ! lit_var q"
  shows "resolvent s index seen' \<nu>"
proof (cases "resolvent s index seen \<nu>")
  case True
  then obtain j where j: "j < index" "j < length (sv_trail s)" "seen ! lit_var (sv_trail s ! j)" "\<not> lit_true \<nu> (sv_trail s ! j)"
    by (auto simp: resolvent_def)
  then show ?thesis using sub(1) trail_lt [OF s nth_mem [OF j(2)]] by (auto simp: resolvent_def)
next
  case False
  then obtain q where qs: "q \<in> set qs" "lit_true \<nu> q" using d by blast
  have "lit_negate q \<in> set (take index (sv_trail s))" using q qs by blast
  then obtain j where j: "j < index" "j < length (sv_trail s)" "sv_trail s ! j = lit_negate q"
    by (auto simp: in_set_conv_nth)
  have "lit_level s q \<noteq> 0"
    using root_implied [OF s h j(2)] qs(2) unfolding j(3) by auto
  then show ?thesis using sub(2) qs j unfolding resolvent_def by (intro exI [of _ j]) simp
qed

lemma trail_var_inj:
  assumes "solver_inv s" "i < length (sv_trail s)" "j < length (sv_trail s)"
    "lit_var (sv_trail s ! i) = lit_var (sv_trail s ! j)"
  shows "i = j"
proof -
  have "distinct (map lit_var (sv_trail s))" using assms(1) by (simp add: solver_inv_def trail_ok_def)
  then show ?thesis using assms(2-4) by (metis length_map nth_eq_iff_index_eq nth_map)
qed

lemma seen_index:
  assumes "scan_ok s index seen marked learnt path_c" "v < num_vars s" "seen ! v"
  shows "\<exists>j < index. j < length (sv_trail s) \<and> v = lit_var (sv_trail s ! j)"
proof -
  have "v \<in> lit_var ` set (take index (sv_trail s))" using assms by (simp add: scan_ok_def)
  then obtain l where "l \<in> set (take index (sv_trail s))" "v = lit_var l" by blast
  then show ?thesis by (auto simp: in_set_conv_nth)
qed

text \<open>Dropping the last seen literal.\<close>

lemma scan_ok_pop:
  assumes sk: "scan_ok s index seen marked learnt path_c" and s: "solver_inv s"
    and i: "i < index" "index \<le> length (sv_trail s)" "seen ! lit_var (sv_trail s ! i)"
    and max: "\<And>j. i < j \<Longrightarrow> j < index \<Longrightarrow> \<not> seen ! lit_var (sv_trail s ! j)"
    and lev: "lit_level s (sv_trail s ! i) = decision_level s"
  shows "0 < path_c" "scan_ok s i (seen[lit_var (sv_trail s ! i) := False]) marked learnt (path_c - 1)"
proof -
  let ?v = "lit_var (sv_trail s ! i)"
  let ?A = "{u. u < num_vars s \<and> seen ! u \<and> decision_level s \<le> sv_level s ! u}"
  have il: "i < length (sv_trail s)" using i by simp
  have v: "?v < num_vars s" using trail_lt [OF s nth_mem [OF il]] .
  have len: "length seen = num_vars s" using sk by (simp add: scan_ok_def)
  have lv: "sv_level s ! ?v = decision_level s" using lev by (simp add: lit_level_def)
  have vA: "?v \<in> ?A" using v i(3) lv by simp
  have pc: "path_c = card ?A" using sk by (simp add: scan_ok_def)
  then show "0 < path_c" using vA card_gt_0_iff [of ?A] by auto
  have "{u. u < num_vars s \<and> seen[?v := False] ! u \<and> decision_level s \<le> sv_level s ! u} = ?A - {?v}"
    using len v by (auto simp: nth_list_update)
  then have card: "path_c - 1 = card {u. u < num_vars s \<and> seen[?v := False] ! u \<and> decision_level s \<le> sv_level s ! u}"
    using vA pc by simp
  have below: "u \<in> lit_var ` set (take i (sv_trail s))" if un: "u < num_vars s" "seen ! u" "u \<noteq> ?v" for u
  proof -
    obtain j where j: "j < index" "j < length (sv_trail s)" "u = lit_var (sv_trail s ! j)"
      using seen_index [OF sk un(1,2)] by blast
    then have "j < i" using max [of j] un by (metis nat_neq_iff)
    then have "sv_trail s ! j \<in> set (take i (sv_trail s))"
      using j by (metis in_set_conv_nth length_take min_less_iff_conj nth_take)
    then show ?thesis using j(3) by blast
  qed
  have ne: "lit_var q \<noteq> ?v" if "q \<in> set (tl learnt)" for q
    using sk that lv by (auto simp: scan_ok_def lit_level_def)
  show "scan_ok s i (seen[?v := False]) marked learnt (path_c - 1)"
    using sk len v below ne card unfolding scan_ok_def by (auto simp: nth_list_update)
qed

lemma analyze_loop_ok:
  assumes s: "solver_inv s" and D: "0 < decision_level s"
    and "scan_ok s index seen marked learnt path_c" "heap_inv u" "core u = core (s\<lparr>sv_seen := []\<rparr>)"
    and "index \<le> length (sv_trail s)"
    and "\<forall>q \<in> set (drop start (sv_clauses s ! confl)). lit_negate q \<in> set (take index (sv_trail s))"
    and "\<forall>\<nu>. holds \<nu> s \<longrightarrow> resolvent s index seen \<nu> \<or> (\<exists>q \<in> set (drop start (sv_clauses s ! confl)). lit_true \<nu> q)"
    and "0 < path_c \<or> (\<exists>q \<in> set (drop start (sv_clauses s ! confl)). lit_level s q = decision_level s)"
  shows "\<exists>u' seen' marked' learnt' pl. analyze_loop u seen marked learnt path_c start confl index
      = Some (u', seen', marked', learnt', pl) \<and> (\<exists>i. scan_ok s i seen' marked' learnt' 0) \<and> heap_inv u' \<and>
    core u' = core u \<and> set (sv_order u') = set (sv_order u) \<and> pl \<in> set (sv_trail s) \<and>
    lit_level s pl = decision_level s \<and>
    (\<forall>\<nu>. holds \<nu> s \<longrightarrow> (\<exists>q \<in> set (tl learnt'). lit_true \<nu> q) \<or> \<not> lit_true \<nu> pl)"
  using assms(3-)
proof (induction index arbitrary: u seen marked learnt path_c start confl rule: less_induct)
  case (less index)
  let ?qs = "drop start (sv_clauses s ! confl)"
  obtain u1 seen1 marked1 learnt1 pc1 where
    sc: "analyze_scan ?qs u seen marked learnt path_c = (u1, seen1, marked1, learnt1, pc1)"
    by (metis prod_cases5)
  note ss = analyze_scan_ok [OF less.prems(1) s less.prems(2,3,5) sc]
  then have sk: "scan_ok s index seen1 marked1 learnt1 pc1" and hu: "heap_inv u1" and cu: "core u1 = core u"
    and ord: "set (sv_order u1) = set (sv_order u)" and mono: "path_c \<le> pc1" by auto
  note cf = core_fields [OF trans [OF cu less.prems(3)]]
  have fields: "sv_clauses u = sv_clauses s" "sv_trail u1 = sv_trail s" "sv_reason u1 = sv_reason s"
    using core_fields(1) [OF less.prems(3)] cf(5,7) by simp_all
  have R: "resolvent s index seen1 \<nu>" if "holds \<nu> s" for \<nu>
    using resolvent_scanned [OF s that _ less.prems(5)] less.prems(6) that ss by blast
  have "0 < pc1"
  proof (cases "0 < path_c")
    case False
    then obtain q where q: "q \<in> set ?qs" "lit_level s q = decision_level s" using less.prems(7) by blast
    then have "lit_var q \<in> {v. v < num_vars s \<and> seen1 ! v \<and> decision_level s \<le> sv_level s ! v}"
      using ss D less.prems(5) trail_lt [OF s in_set_takeD, of "lit_negate q" index] by (auto simp: lit_level_def)
    then show ?thesis using sk card_gt_0_iff [of "{v. v < num_vars s \<and> seen1 ! v \<and> decision_level s \<le> sv_level s ! v}"]
      by (auto simp: scan_ok_def)
  qed (use mono in simp)
  then obtain v where v: "v < num_vars s" "seen1 ! v" "decision_level s \<le> sv_level s ! v"
    using sk card_gt_0_iff [of "{v. v < num_vars s \<and> seen1 ! v \<and> decision_level s \<le> sv_level s ! v}"]
    by (auto simp: scan_ok_def)
  then obtain j0 where j0: "j0 < index" "j0 < length (sv_trail s)" "v = lit_var (sv_trail s ! j0)"
    using seen_index [OF sk] by blast
  then obtain i where i: "find_seen seen1 (sv_trail s) index = Some i" "i < index" "seen1 ! lit_var (sv_trail s ! i)"
      "\<And>j. i < j \<Longrightarrow> j < index \<Longrightarrow> \<not> seen1 ! lit_var (sv_trail s ! j)"
    using find_seen_spec [of index seen1 "sv_trail s"] v(2) by blast
  let ?pl = "sv_trail s ! i"
  have il: "i < length (sv_trail s)" using i(2) less.prems(4) by simp
  have "j0 \<le> i" using i(4) [of j0] j0 v(2) by (metis not_le)
  then have lev: "lit_level s ?pl = decision_level s"
    using level_mono [OF s _ il, of j0] v(3) j0(3) level_le [OF s nth_mem [OF il]] by (auto simp: lit_level_def)
  note pop = scan_ok_pop [OF sk s i(2) less.prems(4) i(3,4) lev]
  let ?seen2 = "seen1[lit_var ?pl := False]"
  have step: "analyze_loop u seen marked learnt path_c start confl index =
      (if pc1 - 1 = 0 then Some (u1, ?seen2, marked1, learnt1, ?pl)
       else case sv_reason s ! lit_var ?pl of
         None \<Rightarrow> None | Some c \<Rightarrow> analyze_loop u1 ?seen2 marked1 learnt1 (pc1 - 1) 1 c i)"
    using pop(1) i(1) by (subst analyze_loop.simps) (simp add: sc fields Let_def)
  have R2: "resolvent s i ?seen2 \<nu> \<or> \<not> lit_true \<nu> ?pl" if hn: "holds \<nu> s" for \<nu>
  proof -
    obtain j where j: "j < index" "j < length (sv_trail s)" "seen1 ! lit_var (sv_trail s ! j)" "\<not> lit_true \<nu> (sv_trail s ! j)"
      using R [OF hn] by (auto simp: resolvent_def)
    show ?thesis
    proof (cases "j = i")
      case False
      then have "j < i" using i(4) [of j] j by (metis nat_neq_iff)
      moreover have "lit_var (sv_trail s ! j) \<noteq> lit_var ?pl" using trail_var_inj [OF s j(2) il] False by blast
      ultimately show ?thesis using j by (auto simp: resolvent_def)
    qed (use j in simp)
  qed
  show ?case
  proof (cases "pc1 - 1 = 0")
    case True
    have "(\<exists>q \<in> set (tl learnt1). lit_true \<nu> q) \<or> \<not> lit_true \<nu> ?pl" if hn: "holds \<nu> s" for \<nu>
    proof (cases "lit_true \<nu> ?pl")
      case lt: True
      then obtain j where j: "j < i" "j < length (sv_trail s)" "?seen2 ! lit_var (sv_trail s ! j)" "\<not> lit_true \<nu> (sv_trail s ! j)"
        using R2 [OF hn] by (auto simp: resolvent_def)
      let ?w = "lit_var (sv_trail s ! j)"
      have w: "?w < num_vars s" using trail_lt [OF s nth_mem [OF j(2)]] .
      have "card {u. u < num_vars s \<and> ?seen2 ! u \<and> decision_level s \<le> sv_level s ! u} = 0"
        using pop(2) True by (simp add: scan_ok_def)
      then have "\<not> decision_level s \<le> sv_level s ! ?w" using w j(3) by auto
      then have "?w \<in> lit_var ` set (tl learnt1)" using pop(2) w j(3) by (auto simp: scan_ok_def)
      then obtain q where q: "q \<in> set (tl learnt1)" "lit_var q = ?w" by auto
      have "lit_negate q \<in> set (sv_trail s)" using pop(2) q by (auto simp: scan_ok_def)
      then have "q \<noteq> sv_trail s ! j" using trail_consistent [OF s nth_mem [OF j(2)]] by auto
      then have "q = lit_negate (sv_trail s ! j)" using q(2) lit_var_eq by blast
      then have "lit_true \<nu> q" using j(4) by simp
      then show ?thesis using q(1) by blast
    qed simp
    moreover have "scan_ok s i ?seen2 marked1 learnt1 0" using pop(2) True by simp
    ultimately show ?thesis
      using True step hu cu ord lev nth_mem [OF il] by (simp add: lit_level_def) blast
  next
    case False
    moreover have "pc1 - 1 = card {u. u < num_vars s \<and> ?seen2 ! u \<and> decision_level s \<le> sv_level s ! u}"
      using pop(2) unfolding scan_ok_def by blast
    ultimately have "0 < card {u. u < num_vars s \<and> ?seen2 ! u \<and> decision_level s \<le> sv_level s ! u}" by linarith
    then obtain w where w: "w < num_vars s" "?seen2 ! w" "decision_level s \<le> sv_level s ! w"
      by (auto simp: card_gt_0_iff)
    then obtain j where j: "j < i" "j < length (sv_trail s)" "w = lit_var (sv_trail s ! j)"
      using seen_index [OF pop(2)] by blast
    have "lit_level s (sv_trail s ! j) = decision_level s"
      using w(3) j(3) level_le [OF s nth_mem [OF j(2)]] by (simp add: lit_level_def)
    then have ls: "level_start s < i" using level_current [OF s j(2)] j(1) by simp
    have "t \<le> level_start s" if "t \<in> set (sv_trail_lim s)" for t
    proof -
      have "sorted_wrt (<) (sv_trail_lim s)" using s by (simp add: solver_inv_def levels_ok_def)
      then show ?thesis using that
        by (cases "sv_trail_lim s" rule: rev_cases) (auto simp: level_start_def sorted_wrt_append less_imp_le)
    qed
    then have "i \<notin> set (sv_trail_lim s)" using ls by fastforce
    moreover have "case sv_reason s ! lit_var ?pl of
        None \<Rightarrow> i \<in> set (sv_trail_lim s) \<or> lit_level s ?pl = 0
      | Some c \<Rightarrow> c < length (sv_clauses s) \<and> sv_clauses s ! c ! 0 = ?pl \<and>
          (\<forall>m \<in> set (tl (sv_clauses s ! c)). lit_negate m \<in> set (take i (sv_trail s)))"
      using s il by (simp add: solver_inv_def reasons_ok_def)
    ultimately obtain c where c: "sv_reason s ! lit_var ?pl = Some c" "c < length (sv_clauses s)"
        "sv_clauses s ! c ! 0 = ?pl" "\<forall>m \<in> set (tl (sv_clauses s ! c)). lit_negate m \<in> set (take i (sv_trail s))"
      using lev D by (auto split: option.splits)
    have d1: "drop 1 (sv_clauses s ! c) = tl (sv_clauses s ! c)" by (simp add: drop_Suc)
    have R3: "resolvent s i ?seen2 \<nu> \<or> (\<exists>q \<in> set (tl (sv_clauses s ! c)). lit_true \<nu> q)" if hn: "holds \<nu> s" for \<nu>
    proof (cases "lit_true \<nu> ?pl")
      case False
      have "clause_true \<nu> (sv_clauses s ! c)" using hn c(2) by (simp add: holds_def)
      then obtain m where "m \<in> set (sv_clauses s ! c)" "lit_true \<nu> m" by (auto simp: clause_true_def)
      then show ?thesis using False c(3) by (cases "sv_clauses s ! c") auto
    qed (use R2 [OF hn] in blast)
    note ih = less.IH [OF i(2) pop(2) hu trans [OF cu less.prems(3)], of 1 c, unfolded d1]
    show ?thesis
      using ih c(4) il False step c(1) cu ord by (simp add: R3 less_imp_le)
  qed
qed

subsection \<open>The learnt clause\<close>

definition learnt_ok :: "Solver \<Rightarrow> Lit list \<Rightarrow> nat \<Rightarrow> bool" where
  "learnt_ok s learnt bt \<longleftrightarrow> learnt \<noteq> [] \<and> distinct (map lit_var learnt) \<and>
     (\<forall>l \<in> set learnt. lit_negate l \<in> set (sv_trail s)) \<and>
     lit_level s (learnt ! 0) = decision_level s \<and>
     (\<forall>l \<in> set (tl learnt). 0 < lit_level s l \<and> lit_level s l \<le> bt) \<and> bt < decision_level s \<and>
     (if length learnt = 1 then bt = 0 else lit_level s (learnt ! 1) = bt) \<and>
     (\<forall>\<nu>. holds \<nu> s \<longrightarrow> clause_true \<nu> learnt)"

lemma backjump_slot_max:
  assumes "2 \<le> length learnt"
  shows "1 \<le> backjump_slot s learnt \<and> backjump_slot s learnt < length learnt \<and>
    (\<forall>k. 1 \<le> k \<and> k < length learnt \<longrightarrow> lit_level s (learnt ! k) \<le> lit_level s (learnt ! backjump_slot s learnt))"
proof -
  let ?f = "\<lambda>k m. if lit_level s (learnt ! m) < lit_level s (learnt ! k) then k else m"
  have "1 \<le> fold ?f [2..<n] 1 \<and> fold ?f [2..<n] 1 < n \<and>
      (\<forall>k. 1 \<le> k \<and> k < n \<longrightarrow> lit_level s (learnt ! k) \<le> lit_level s (learnt ! fold ?f [2..<n] 1))" if "2 \<le> n" for n
    using that
  proof (induction n rule: nat_induct_at_least)
    case base
    show ?case by (auto simp: numeral_2_eq_2 less_Suc_eq)
  next
    case (Suc n)
    then have "fold ?f [2..<Suc n] 1 = ?f n (fold ?f [2..<n] 1)" by simp
    then show ?case using Suc by (auto simp: less_Suc_eq)
  qed
  then show ?thesis using assms by (simp add: backjump_slot_def)
qed

lemma clear_seen:
  "length (fold (\<lambda>v seen. seen[v := False]) vs seen) = length seen \<and>
   (\<forall>v < length seen. fold (\<lambda>v seen. seen[v := False]) vs seen ! v \<longleftrightarrow> seen ! v \<and> v \<notin> set vs)"
proof (induction vs arbitrary: seen)
  case (Cons w vs)
  have "seen[w := False] ! v \<longleftrightarrow> seen ! v \<and> v \<noteq> w" if "v < length seen" for v
    using that by (cases "v = w") simp_all
  then show ?case using Cons.IH [of "seen[w := False]"] by auto
qed simp

lemma analyze_ok:
  assumes s: "solver_inv s" "heap_inv s" "0 < decision_level s" "conflict_clause s confl"
    and seen: "\<forall>v < num_vars s. \<not> sv_seen s ! v"
  shows "\<exists>learnt bt t. analyze s confl = Some ((learnt, bt), t) \<and> core t = core s \<and> heap_inv t \<and>
    set (sv_order t) = set (sv_order s) \<and> learnt_ok s learnt bt"
proof -
  let ?s0 = "s\<lparr>sv_seen := []\<rparr>"
  have len: "length (sv_seen s) = num_vars s" using s(1) by (simp add: solver_inv_def sizes_ok_def)
  have sk: "scan_ok s (length (sv_trail s)) (sv_seen s) [] [0] 0"
    using seen len by (auto simp: scan_ok_def)
  have h0: "heap_inv ?s0" using s(2) heap_inv_cong [of ?s0 s] by simp
  have cc: "\<forall>q \<in> set (sv_clauses s ! confl). lit_negate q \<in> set (sv_trail s)"
      "\<exists>q \<in> set (sv_clauses s ! confl). lit_level s q = decision_level s" "confl < length (sv_clauses s)"
    using s(4) by (auto simp: conflict_clause_def)
  have F: "\<forall>\<nu>. holds \<nu> s \<longrightarrow> (\<exists>q \<in> set (sv_clauses s ! confl). lit_true \<nu> q)"
    using cc(3) by (simp add: holds_def clause_true_def)
  obtain u seen' marked' learnt' pl i where loop: "analyze_loop ?s0 (sv_seen s) [] [0] 0 0 confl (length (sv_trail s))
        = Some (u, seen', marked', learnt', pl)"
      and sk': "scan_ok s i seen' marked' learnt' 0" and u: "heap_inv u" "core u = core ?s0" "set (sv_order u) = set (sv_order s)"
      and pl: "pl \<in> set (sv_trail s)" "lit_level s pl = decision_level s"
      and imp: "\<forall>\<nu>. holds \<nu> s \<longrightarrow> (\<exists>q \<in> set (tl learnt'). lit_true \<nu> q) \<or> \<not> lit_true \<nu> pl"
    using analyze_loop_ok [OF s(1,3) sk h0, of 0 confl] cc F by auto
  define L where "L = learnt'[0 := lit_negate pl]"
  define sn where "sn = fold (\<lambda>v seen. seen[v := False]) marked' seen'"
  define t where "t = u\<lparr>sv_seen := sn\<rparr>"
  have ne: "learnt' \<noteq> []" "length seen' = num_vars s" using sk' by (auto simp: scan_ok_def)
  have "length sn = num_vars s \<and> (\<forall>v < num_vars s. \<not> sn ! v)"
    using clear_seen [of marked' seen'] sk' ne(2) by (auto simp: sn_def scan_ok_def)
  then have "sn = sv_seen s" using seen len by (intro nth_equalityI) auto
  then have ct: "core t = core s" using u(2) by (cases u; cases s) (simp add: t_def core_def)
  have ht: "heap_inv t" "set (sv_order t) = set (sv_order s)"
    using u heap_inv_cong [of t u] by (simp_all add: t_def)
  have lt: "lit_level t = lit_level s" using core_fields(4) [OF ct] by (simp add: lit_level_def fun_eq_iff)
  have L: "L = lit_negate pl # tl learnt'" using ne(1) by (cases learnt') (simp_all add: L_def)
  have tl_ok: "lit_negate q \<in> set (sv_trail s)" "0 < lit_level s q" "lit_level s q < decision_level s"
    if "q \<in> set (tl learnt')" for q using sk' that by (auto simp: scan_ok_def)
  have dl: "distinct (map lit_var L)"
    using sk' tl_ok(3) pl(2) unfolding L by (auto simp: scan_ok_def lit_level_def)
  have al: "\<forall>l \<in> set L. lit_negate l \<in> set (sv_trail s)" using tl_ok pl unfolding L by auto
  have cl: "clause_true \<nu> L" if "holds \<nu> s" for \<nu> using imp that unfolding L clause_true_def by auto
  show ?thesis
  proof (cases "length L = 1")
    case True
    then have "analyze s confl = Some ((L, 0), t)" using loop by (simp add: analyze_def L_def sn_def t_def Let_def)
    moreover have "tl learnt' = []" using True by (cases learnt') (simp_all add: L)
    then have "learnt_ok s L 0"
      using True dl al cl pl s(3) by (auto simp: learnt_ok_def L)
    ultimately show ?thesis using ct ht by blast
  next
    case False
    define m where "m = backjump_slot t L"
    define M where "M = L[1 := L ! m, m := L ! 1]"
    have l2: "2 \<le> length L" using False by (auto simp: L)
    have m: "1 \<le> m" "m < length L" "\<And>k. 1 \<le> k \<Longrightarrow> k < length L \<Longrightarrow> lit_level s (L ! k) \<le> lit_level s (L ! m)"
      using backjump_slot_max [OF l2, of t] by (auto simp: m_def lt)
    have "analyze s confl = Some ((L[1 := L ! backjump_slot t L, backjump_slot t L := L ! 1],
        lit_level t (L[1 := L ! backjump_slot t L, backjump_slot t L := L ! 1] ! 1)), t)"
      unfolding analyze_def loop option.case prod.case Let_def L_def [symmetric] sn_def [symmetric] t_def [symmetric]
      by (simp only: False if_False)
    then have a: "analyze s confl = Some ((M, lit_level s (M ! 1)), t)" by (simp only: M_def m_def lt)
    have one: "1 < length L" using l2 by linarith
    have M: "set M = set L" "set (tl M) = set (tl L)" "M ! 0 = L ! 0" "M ! 1 = L ! m" "length M = length L"
      using set_swap [OF one m(2)] set_tl_swap [of 1 m L] m one by (auto simp: M_def nth_list_update)
    have lm: "L ! m \<in> set (tl L)" using m(1,2) by (auto simp: L nth_Cons' intro!: nth_mem)
    have "lit_level s l \<le> lit_level s (L ! m)" if tm: "l \<in> set (tl L)" for l
    proof -
      obtain k where "k < length (tl L)" "l = tl L ! k" using tm unfolding in_set_conv_nth by blast
      then have "l = L ! Suc k" "Suc k < length L" unfolding L by simp_all
      then show ?thesis using m(3) [of "Suc k"] by simp
    qed
    then have up: "\<forall>l \<in> set (tl M). lit_level s l \<le> lit_level s (M ! 1)" unfolding M by blast
    have lo: "0 < lit_level s l" "lit_level s l < decision_level s" if "l \<in> set (tl L)" for l
      using tl_ok that by (simp_all add: L)
    have dM: "distinct (map lit_var M)" using dl distinct_map_swap [OF one m(2), of lit_var] by (simp add: M_def)
    have cM: "clause_true \<nu> M" if "holds \<nu> s" for \<nu> using cl [OF that] M(1) by (simp add: clause_true_def)
    have hM: "lit_level s (M ! 0) = decision_level s" "M \<noteq> []" "length M \<noteq> 1"
      using pl(2) M(3,5) False by (auto simp: L)
    have "learnt_ok s M (lit_level s (M ! 1))"
      unfolding learnt_ok_def using dM cM hM up al lo M(1,2) lo(2) [OF lm] M(4) by simp
    then show ?thesis using a ct ht by blast
  qed
qed

end
