(* ===== verification/SatSearch.thy ===== *)
theory SatSearch
  imports SatAnalyze
begin

text \<open>
  Backjumping, learning, deciding and the search loop: every step keeps the invariants and the
  formula, the search returns on every input with or without a conflict budget, and its verdicts
  are right.
\<close>

subsection \<open>Backjumping\<close>

definition queued :: "Solver \<Rightarrow> bool" where
  "queued s \<longleftrightarrow> heap_inv s \<and> (\<forall>v < num_vars s. sv_assign s ! v = None \<longrightarrow> v \<in> set (sv_order s))"

definition keeps :: "Solver \<Rightarrow> Solver \<Rightarrow> bool" where
  "keeps s t \<longleftrightarrow> sv_clauses t = sv_clauses s \<and> sv_watches t = sv_watches s \<and> sv_level t = sv_level s \<and>
     sv_trail_lim t = sv_trail_lim s \<and> sv_unsat t = sv_unsat s \<and> sv_seen t = sv_seen s \<and>
     num_vars t = num_vars s \<and> length (sv_reason t) = length (sv_reason s) \<and> length (sv_phase t) = length (sv_phase s)"

lemma queue_queued:
  assumes "heap_inv s" "v < num_vars s" "\<forall>w < num_vars s. w \<noteq> v \<and> sv_assign s ! w = None \<longrightarrow> w \<in> set (sv_order s)"
  shows "queued (queue s v)"
proof -
  note cf = core_fields [OF core_queue, of s v]
  have h: "slots_ok s" "v < length (sv_order_slot s)" "heap_ok s" using assms by (auto simp: heap_inv_def)
  note q = queue_props [OF h(1,2)] and hq = queue_heap [OF h]
  show ?thesis using assms q hq cf by (auto simp: queued_def heap_inv_def activities_ok_def)
qed

lemma trail_ok_pop:
  assumes "trail_ok s" "sv_trail s = xs @ [l]"
  shows "trail_ok (s\<lparr>sv_trail := xs, sv_phase := p, sv_assign := (sv_assign s)[lit_var l := None], sv_reason := r\<rparr>)"
    "sv_assign s ! lit_var l = Some (\<not> lit_is_negated l)"
proof -
  have t: "\<forall>v < num_vars s. \<forall>b. sv_assign s ! v = Some b \<longleftrightarrow> lit_new v (\<not> b) \<in> set (sv_trail s)"
      "lit_var l < num_vars s" "lit_var l \<notin> lit_var ` set xs"
    using assms by (auto simp: trail_ok_def lit_var_lt)
  show "sv_assign s ! lit_var l = Some (\<not> lit_is_negated l)" using t assms(2) by simp
  have "(sv_assign s)[lit_var l := None] ! v = Some b \<longleftrightarrow> lit_new v (\<not> b) \<in> set xs" if "v < num_vars s" for v b
  proof (cases "v = lit_var l")
    case True
    have "lit_new (lit_var l) (\<not> b) \<notin> set xs" using t(3) by (metis imageI lit_simps(5))
    then show ?thesis using True t(2) by simp
  next
    case False
    then have "lit_new v (\<not> b) \<noteq> l" by (metis lit_simps(5))
    then show ?thesis using False t(1) that assms(2) by simp
  qed
  then show "trail_ok (s\<lparr>sv_trail := xs, sv_phase := p, sv_assign := (sv_assign s)[lit_var l := None], sv_reason := r\<rparr>)"
    using assms by (auto simp: trail_ok_def)
qed

lemma cancel_loop_ok:
  assumes "trail_ok s" "queued s" "target \<le> length (sv_trail s)"
    and "length (sv_reason s) = num_vars s" "length (sv_phase s) = num_vars s"
  shows "\<exists>t. cancel_loop target s = Some t \<and> keeps s t \<and> trail_ok t \<and> queued t \<and>
    sv_trail t = take target (sv_trail s) \<and>
    (\<forall>l \<in> set (take target (sv_trail s)). sv_reason t ! lit_var l = sv_reason s ! lit_var l)"
  using assms
proof (induction "length (sv_trail s)" arbitrary: s rule: less_induct)
  case less
  show ?case
  proof (cases "target < length (sv_trail s)")
    case False
    then have "cancel_loop target s = Some s" by (subst cancel_loop.simps) simp
    then show ?thesis using less.prems False by (auto simp: keeps_def)
  next
    case True
    then obtain xs l where xl: "sv_trail s = xs @ [l]" by (metis list.size(3) not_less_zero rev_exhaust)
    let ?v = "lit_var l" and ?b = "\<not> lit_is_negated l"
    note tp = trail_ok_pop [OF less.prems(1) xl]
    define u where "u = s\<lparr>sv_trail := xs, sv_phase := (sv_phase s)[?v := ?b], sv_assign := (sv_assign s)[?v := None],
        sv_reason := (sv_reason s)[?v := None]\<rparr>"
    define w where "w = queue u ?v"
    have step: "cancel_loop target s = cancel_loop target w"
      using True tp(2) xl by (subst cancel_loop.simps) (simp add: u_def w_def Let_def)
    have v: "?v < num_vars s" using less.prems(1) xl by (auto simp: trail_ok_def lit_var_lt)
    have hu: "heap_inv u" using less.prems(2) heap_inv_cong [of u s] by (simp add: u_def queued_def)
    have "queued w"
      unfolding w_def using hu v less.prems(2) by (intro queue_queued) (auto simp: u_def queued_def nth_list_update)
    have cw: "core w = core u" by (simp add: w_def)
    note cf = core_fields [OF cw]
    have tw: "trail_ok w" using tp(1) cf(3,7) by (simp add: trail_ok_def u_def)
    have lw: "length (sv_trail w) < length (sv_trail s)" "target \<le> length (sv_trail w)" "sv_trail w = xs"
      using cf(7) xl True by (simp_all add: u_def)
    have nw: "num_vars w = num_vars s" "length (sv_reason w) = num_vars w" "length (sv_phase w) = num_vars w"
      using cf(3,5,6) less.prems by (simp_all add: u_def)
    obtain t where t: "cancel_loop target w = Some t" "keeps w t" "trail_ok t" "queued t" "sv_trail t = take target xs"
        "\<forall>m \<in> set (take target xs). sv_reason t ! lit_var m = sv_reason w ! lit_var m"
      using less.hyps [OF lw(1) tw \<open>queued w\<close> lw(2) nw(2,3)] lw(3) by auto
    have "?v \<notin> lit_var ` set xs" using less.prems(1) xl by (auto simp: trail_ok_def)
    then have "sv_reason w ! lit_var m = sv_reason s ! lit_var m" if "m \<in> set (take target xs)" for m
      using that cf(5) in_set_takeD [OF that] by (auto simp: u_def nth_list_update image_iff)
    moreover have "take target (sv_trail s) = take target xs" using xl lw by simp
    moreover have "keeps s t" using t(2) cf by (auto simp: keeps_def u_def)
    ultimately show ?thesis using t step by auto
  qed
qed

lemma lims_filter_take:
  assumes "sorted_wrt (<) ts" "level < length ts" "i < ts ! level"
  shows "filter (\<lambda>t. t \<le> i) ts = filter (\<lambda>t. t \<le> (i :: nat)) (take level ts)"
proof -
  have "t \<in> set (drop level ts) \<Longrightarrow> \<not> t \<le> i" for t
  proof -
    assume "t \<in> set (drop level ts)"
    then obtain k where k: "level + k < length ts" "t = ts ! (level + k)"
      by (metis add.commute in_set_conv_nth length_drop less_diff_conv nth_drop less_imp_le_nat assms(2))
    then have "ts ! level \<le> t" using assms(1) by (cases k) (auto simp: sorted_wrt_iff_nth_less less_imp_le)
    then show ?thesis using assms(3) by simp
  qed
  then have "filter (\<lambda>t. t \<le> i) (drop level ts) = []" by (simp add: filter_empty_conv)
  then show ?thesis by (metis append.right_neutral append_take_drop_id filter_append)
qed

lemma level_below:
  assumes "solver_inv s" "level < decision_level s" "i < length (sv_trail s)"
  shows "i < sv_trail_lim s ! level \<longleftrightarrow> lit_level s (sv_trail s ! i) \<le> level"
proof -
  let ?ts = "sv_trail_lim s"
  have ts: "sorted_wrt (<) ?ts" using assms(1) by (simp add: solver_inv_def levels_ok_def)
  have lv: "lit_level s (sv_trail s ! i) = length (filter (\<lambda>t. t \<le> i) ?ts)"
    using assms by (simp add: solver_inv_def levels_ok_def)
  show ?thesis
  proof (cases "i < ?ts ! level")
    case True
    have "length (filter (\<lambda>t. t \<le> i) ?ts) \<le> length (take level ?ts)"
      unfolding lims_filter_take [OF ts assms(2) True] by (rule length_filter_le)
    then show ?thesis using True lv by simp
  next
    case False
    have "t \<le> i" if tk: "t \<in> set (take (Suc level) ?ts)" for t
    proof -
      obtain k where "k \<le> level" "t = ?ts ! k"
        using tk by (auto simp: in_set_conv_nth less_Suc_eq_le)
      then have "t \<le> ?ts ! level" using ts assms(2) by (cases "k = level") (auto simp: sorted_wrt_iff_nth_less less_imp_le)
      then show ?thesis using False by simp
    qed
    then have "filter (\<lambda>t. t \<le> i) (take (Suc level) ?ts) = take (Suc level) ?ts" by (simp add: filter_id_conv)
    moreover have "length (filter (\<lambda>t. t \<le> i) (take (Suc level) ?ts)) \<le> length (filter (\<lambda>t. t \<le> i) ?ts)"
      by (metis append_take_drop_id filter_append le_add1 length_append)
    ultimately show ?thesis using False lv assms(2) by simp
  qed
qed

lemma sorted_nth_take:
  assumes "sorted_wrt (<) ts" "level < length ts"
  shows "t \<in> set (take level ts) \<longleftrightarrow> t \<in> set ts \<and> t < (ts ! level :: nat)"
proof
  assume t: "t \<in> set (take level ts)"
  then obtain k where "k < level" "t = ts ! k" by (auto simp: in_set_conv_nth)
  then show "t \<in> set ts \<and> t < ts ! level"
    using assms in_set_takeD [OF t] by (auto simp: sorted_wrt_iff_nth_less)
next
  assume "t \<in> set ts \<and> t < ts ! level"
  then obtain k where k: "k < length ts" "ts ! k = t" "t < ts ! level" by (auto simp: in_set_conv_nth)
  then have "k < level" using assms
    by (metis less_irrefl less_trans linorder_neqE_nat sorted_wrt_iff_nth_less)
  then show "t \<in> set (take level ts)" using k by (auto simp: in_set_conv_nth)
qed

lemma trail_prefix:
  assumes "solver_inv s" "level < decision_level s" "l \<in> set (sv_trail s)"
  shows "l \<in> set (take (sv_trail_lim s ! level) (sv_trail s)) \<longleftrightarrow> lit_level s l \<le> level"
proof -
  obtain i where i: "i < length (sv_trail s)" "sv_trail s ! i = l" using assms(3) by (auto simp: in_set_conv_nth)
  have d: "distinct (sv_trail s)" using assms(1) by (simp add: solver_inv_def trail_ok_def distinct_map)
  have "l \<in> set (take (sv_trail_lim s ! level) (sv_trail s)) \<longleftrightarrow> i < sv_trail_lim s ! level"
    using i d by (auto simp: in_set_conv_nth nth_eq_iff_index_eq)
  then show ?thesis using level_below [OF assms(1,2) i(1)] i(2) by simp
qed

lemma levels_ok_take:
  assumes "levels_ok s" "level < decision_level s" "sv_level t = sv_level s"
    and "sv_trail_lim t = take level (sv_trail_lim s)" "sv_trail t = take (sv_trail_lim s ! level) (sv_trail s)"
  shows "levels_ok t"
proof -
  let ?ts = "sv_trail_lim s"
  have ts: "sorted_wrt (<) ?ts" "?ts ! level < length (sv_trail s)"
    using assms(1,2) by (auto simp: levels_ok_def)
  have "lit_level t (sv_trail t ! i) = length (filter (\<lambda>t. t \<le> i) (sv_trail_lim t))" if "i < length (sv_trail t)" for i
  proof -
    have i: "i < ?ts ! level" "i < length (sv_trail s)" "sv_trail t ! i = sv_trail s ! i" using that assms(5) by auto
    then have "lit_level s (sv_trail s ! i) = length (filter (\<lambda>t. t \<le> i) ?ts)" using assms(1) by (simp add: levels_ok_def)
    then show ?thesis
      unfolding lims_filter_take [OF ts(1) assms(2) i(1)] using i(3) assms(3,4) by (simp add: lit_level_def)
  qed
  moreover have "sorted_wrt (<) (take level ?ts)" by (rule sorted_wrt_take [OF ts(1)])
  moreover have "\<forall>t \<in> set (take level ?ts). t < ?ts ! level" by (simp add: sorted_nth_take [OF ts(1) assms(2)])
  ultimately show ?thesis using assms(4,5) ts(2) by (simp add: levels_ok_def)
qed

lemma reasons_ok_take:
  assumes "solver_inv s" "level < decision_level s" "sv_clauses t = sv_clauses s" "sv_level t = sv_level s"
    and "sv_trail_lim t = take level (sv_trail_lim s)" "sv_trail t = take (sv_trail_lim s ! level) (sv_trail s)"
    and "\<forall>l \<in> set (sv_trail t). sv_reason t ! lit_var l = sv_reason s ! lit_var l"
  shows "reasons_ok t"
  unfolding reasons_ok_def
proof (intro allI impI)
  fix i assume i: "i < length (sv_trail t)"
  have is': "i < length (sv_trail s)" "i < sv_trail_lim s ! level" "sv_trail t ! i = sv_trail s ! i" using i assms(6) by auto
  have ts: "sorted_wrt (<) (sv_trail_lim s)" using assms(1) by (simp add: solver_inv_def levels_ok_def)
  have "i \<in> set (sv_trail_lim t) \<longleftrightarrow> i \<in> set (sv_trail_lim s)"
    using sorted_nth_take [OF ts assms(2), of i] is' assms(5) by simp
  moreover have "sv_reason t ! lit_var (sv_trail t ! i) = sv_reason s ! lit_var (sv_trail s ! i)"
    using assms(7) i is'(3) by (metis nth_mem)
  moreover have "take i (sv_trail t) = take i (sv_trail s)" using is' assms(6) by (simp add: min_def)
  moreover have "case sv_reason s ! lit_var (sv_trail s ! i) of
        None \<Rightarrow> i \<in> set (sv_trail_lim s) \<or> lit_level s (sv_trail s ! i) = 0
      | Some c \<Rightarrow> c < length (sv_clauses s) \<and> sv_clauses s ! c ! 0 = sv_trail s ! i \<and>
          (\<forall>l \<in> set (tl (sv_clauses s ! c)). lit_negate l \<in> set (take i (sv_trail s)))"
    using assms(1) is'(1) by (simp add: solver_inv_def reasons_ok_def)
  ultimately show "case sv_reason t ! lit_var (sv_trail t ! i) of
        None \<Rightarrow> i \<in> set (sv_trail_lim t) \<or> lit_level t (sv_trail t ! i) = 0
      | Some c \<Rightarrow> c < length (sv_clauses t) \<and> sv_clauses t ! c ! 0 = sv_trail t ! i \<and>
          (\<forall>l \<in> set (tl (sv_clauses t ! c)). lit_negate l \<in> set (take i (sv_trail t)))"
    using is'(3) assms(3,4) by (simp add: lit_level_def split: option.splits)
qed

text \<open>The state \<open>t\<close> is \<open>s\<close> with the levels above \<open>level\<close> undone.\<close>

definition undone :: "Solver \<Rightarrow> nat \<Rightarrow> Solver \<Rightarrow> bool" where
  "undone s level t \<longleftrightarrow> solver_inv t \<and> queued t \<and> sv_clauses t = sv_clauses s \<and> sv_watches t = sv_watches s \<and>
     sv_unsat t = sv_unsat s \<and> sv_seen t = sv_seen s \<and> num_vars t = num_vars s \<and> sv_level t = sv_level s \<and>
     sv_trail t = take (sv_trail_lim s ! level) (sv_trail s) \<and>
     sv_trail_lim t = take level (sv_trail_lim s) \<and> sv_qhead t = length (sv_trail t) \<and>
     units t = units s \<and> prop_to (length (sv_trail t)) t"

lemma units_take:
  assumes "solver_inv s" "level < decision_level s" "sv_level t = sv_level s"
    and "sv_trail t = take (sv_trail_lim s ! level) (sv_trail s)"
    and "\<forall>l \<in> set (sv_trail t). sv_reason t ! lit_var l = sv_reason s ! lit_var l"
  shows "units t = units s"
proof -
  have "l \<in> set (sv_trail t) \<longleftrightarrow> l \<in> set (sv_trail s)" if "lit_level s l = 0" for l
    using trail_prefix [OF assms(1,2), of l] that assms(4) by (auto dest: in_set_takeD)
  moreover have "lit_level t = lit_level s" using assms(3) by (simp add: lit_level_def fun_eq_iff)
  ultimately show ?thesis using assms(5) by (auto simp: units_def)
qed

lemma prop_to_take:
  assumes "solver_inv s" "level < decision_level s" "sv_level t = sv_level s" "sv_clauses t = sv_clauses s"
    and "sv_trail t = take (sv_trail_lim s ! level) (sv_trail s)" "prop_to (sv_trail_lim s ! level) s"
  shows "prop_to (length (sv_trail t)) t"
proof -
  let ?T = "take (sv_trail_lim s ! level) (sv_trail s)"
  have "watch_done t (length (sv_trail t)) c a b" if w: "watch_done s (sv_trail_lim s ! level) c a b" for c a b
  proof -
    have "sv_clauses s ! c ! b \<in> set ?T \<and> lit_level s (sv_clauses s ! c ! b) \<le> lit_level s (sv_clauses s ! c ! a)"
      if n: "lit_negate (sv_clauses s ! c ! a) \<in> set ?T"
    proof -
      have "lit_level s (sv_clauses s ! c ! a) \<le> level"
        using trail_prefix [OF assms(1,2) in_set_takeD [OF n]] n by simp
      then show ?thesis using w n trail_prefix [OF assms(1,2), of "sv_clauses s ! c ! b"] by (auto simp: watch_done_def)
    qed
    moreover have "take (length (sv_trail t)) (sv_trail t) = ?T" unfolding assms(5) by (rule take_all) simp
    ultimately show ?thesis unfolding watch_done_def using assms(3-5) by (simp add: lit_level_def)
  qed
  then show ?thesis using assms(4,6) by (simp add: prop_to_def)
qed

lemma cancel_until_ok:
  assumes s: "solver_inv s" "queued s" "level < decision_level s" "prop_to (sv_trail_lim s ! level) s"
  shows "\<exists>t. cancel_until s level = Some t \<and> undone s level t"
proof -
  let ?k = "sv_trail_lim s ! level"
  have k: "?k \<le> length (sv_trail s)" using s(1,3) by (auto simp: solver_inv_def levels_ok_def less_imp_le)
  have sz: "length (sv_reason s) = num_vars s" "length (sv_phase s) = num_vars s" "trail_ok s" "levels_ok s" "sizes_ok s" "clauses_ok s"
    using s(1) by (auto simp: solver_inv_def sizes_ok_def)
  obtain u where u: "cancel_loop ?k s = Some u" "keeps s u" "trail_ok u" "queued u" "sv_trail u = take ?k (sv_trail s)"
      "\<forall>l \<in> set (take ?k (sv_trail s)). sv_reason u ! lit_var l = sv_reason s ! lit_var l"
    using cancel_loop_ok [OF sz(3) s(2) k sz(1,2)] by blast
  define t where "t = u\<lparr>sv_trail_lim := take level (sv_trail_lim s), sv_qhead := length (sv_trail u)\<rparr>"
  have c: "cancel_until s level = Some t"
    using u(1,2) s(3) by (simp add: cancel_until_def t_def keeps_def)
  have f: "sv_clauses t = sv_clauses s" "sv_level t = sv_level s" "sv_trail_lim t = take level (sv_trail_lim s)"
      "sv_trail t = take ?k (sv_trail s)" "sv_watches t = sv_watches s" "sv_unsat t = sv_unsat s" "sv_seen t = sv_seen s"
      "num_vars t = num_vars s" "sv_qhead t = length (sv_trail t)" "length (sv_reason t) = num_vars s" "length (sv_phase t) = num_vars s"
    using u(2,5) sz by (auto simp: t_def keeps_def)
  have r: "\<forall>l \<in> set (sv_trail t). sv_reason t ! lit_var l = sv_reason s ! lit_var l"
    using u(6) by (simp add: t_def u(5))
  have "trail_ok t" using u(3) by (simp add: trail_ok_def t_def)
  then have "solver_inv t"
    using levels_ok_take [OF sz(4) s(3) f(2-4)] reasons_ok_take [OF s(1,3) f(1-4) r] sz(5,6) f
    by (simp add: solver_inv_def sizes_ok_def clauses_ok_def)
  moreover have "queued t" using u(4) heap_inv_cong [of t u] by (simp add: queued_def t_def)
  ultimately have "undone s level t"
    using f units_take [OF s(1,3) f(2,4) r] prop_to_take [OF s(1,3) f(2,1,4) s(4)] by (simp add: undone_def)
  then show ?thesis using c by blast
qed

subsection \<open>Learning\<close>

definition settled :: "Solver \<Rightarrow> bool" where
  "settled s \<longleftrightarrow> solver_inv s \<and> watch_ok (sv_clauses s) (sv_watches s) \<and> queued s \<and>
     sv_qhead s = length (sv_trail s) \<and> prop_to (length (sv_trail s)) s"

lemma undone_settled: "undone s level t \<Longrightarrow> watch_ok (sv_clauses s) (sv_watches s) \<Longrightarrow> settled t"
  unfolding undone_def settled_def by metis

text \<open>A clause that is asserting in \<open>s\<close>: all of it is false but the first literal, which is
  unassigned; its second literal is of the current level.\<close>

definition asserting :: "Solver \<Rightarrow> Lit list \<Rightarrow> bool" where
  "asserting s c \<longleftrightarrow> c \<noteq> [] \<and> distinct (map lit_var c) \<and> (\<forall>l \<in> set c. l < 2 * num_vars s) \<and>
     sv_assign s ! lit_var (c ! 0) = None \<and> (\<forall>l \<in> set (tl c). lit_negate l \<in> set (sv_trail s)) \<and>
     (if length c = 1 then decision_level s = 0 else lit_level s (c ! 1) = decision_level s) \<and>
     (\<forall>\<nu>. holds \<nu> s \<longrightarrow> clause_true \<nu> c)"

definition search_inv :: "Solver \<Rightarrow> bool" where
  "search_inv s \<longleftrightarrow> ready s \<and> queued s \<and> (\<forall>v < num_vars s. \<not> sv_seen s ! v) \<and> \<not> sv_unsat s"

lemma queued_assign: "queued s \<Longrightarrow> queued (assign_lit s l r lims)"
proof -
  assume q: "queued s"
  have "sv_assign s ! v = None" if "sv_assign (assign_lit s l r lims) ! v = None" "v < num_vars s" for v
    using that by (cases "v = lit_var l") (simp_all add: assign_lit_def)
  then show ?thesis using q heap_inv_cong [of "assign_lit s l r lims" s] by (auto simp: queued_def)
qed

lemma level_start_last: "solver_inv s \<Longrightarrow> sv_trail_lim s \<noteq> [] \<Longrightarrow> level_start s < length (sv_trail s)"
  by (simp add: solver_inv_def levels_ok_def level_start_def)

lemma learn_unit:
  assumes s: "settled s" "asserting s c" "length c = 1"
  shows "learn s c = assign_lit s (c ! 0) None (sv_trail_lim s)" "ready (learn s c)" "queued (learn s c)" "holds \<nu> (learn s c) = holds \<nu> s"
proof -
  have c: "c = [c ! 0]" using s(3) by (cases c) auto
  have a: "c ! 0 < 2 * num_vars s" "sv_assign s ! lit_var (c ! 0) = None" "sv_trail_lim s = []"
    using s(2,3) c by (auto simp: asserting_def)
  have f: "fresh_lit s (c ! 0) None (sv_trail_lim s)" using a s(1) by (simp add: fresh_lit_def settled_def)
  have inv: "solver_inv s" using s(1) by (simp add: settled_def)
  show e: "learn s c = assign_lit s (c ! 0) None (sv_trail_lim s)"
    using s(3) a(2) by (simp add: learn_def enqueue_cases value_lit_def)
  show "ready (learn s c)"
    using s(1) inv_assign [OF f] prop_to_assign [OF f le_refl] a(3) unfolding e ready_def settled_def
    by (simp add: level_start_def)
  show "queued (learn s c)" unfolding e using s(1) by (intro queued_assign) (simp_all add: settled_def)
  have "lit_true \<nu> (c ! 0)" if "holds \<nu> s"
  proof -
    have "clause_true \<nu> [c ! 0]" using s(2) that c unfolding asserting_def by metis
    then show ?thesis by (simp add: clause_true_def)
  qed
  then show "holds \<nu> (learn s c) = holds \<nu> s"
    unfolding e holds_def using units_assign [OF f] a(3) by (auto simp: holds_def)
qed

text \<open>The state after the learnt clause is appended and watched.\<close>

lemma watch_ok_append:
  assumes "watch_ok cls W" "\<forall>l \<in> set c. l < length W" "2 \<le> length c" "c ! 0 \<noteq> c ! 1"
  shows "watch_ok (cls @ [c]) (W[c ! 0 := W ! (c ! 0) @ [length cls], c ! 1 := W ! (c ! 1) @ [length cls]])"
proof -
  let ?W = "W[c ! 0 := W ! (c ! 0) @ [length cls], c ! 1 := W ! (c ! 1) @ [length cls]]"
  have l: "c ! 0 < length W" "c ! 1 < length W" using assms(2,3) by (auto intro!: bspec [OF assms(2)] nth_mem)
  have w: "?W ! l = W ! l @ (if l \<in> {c ! 0, c ! 1} then [length cls] else [])" if "l < length W" for l
    using that l assms(4) by (auto simp: nth_list_update)
  have old: "distinct (W ! l)" "\<forall>d \<in> set (W ! l). d < length cls \<and> (cls ! d ! 0 = l \<or> cls ! d ! 1 = l)" if "l < length W" for l
    using assms(1) that by (auto simp: watch_ok_def)
  have "distinct (?W ! l) \<and> (\<forall>d \<in> set (?W ! l). d < length (cls @ [c]) \<and> ((cls @ [c]) ! d ! 0 = l \<or> (cls @ [c]) ! d ! 1 = l))"
    if "l < length W" for l
    unfolding w [OF that] using old [OF that] by (auto simp: nth_append)
  moreover have "d \<in> set (?W ! ((cls @ [c]) ! d ! i))" if d: "d < length (cls @ [c])" and i: "i = 0 \<or> i = 1" for d i
  proof (cases "d = length cls")
    case True
    then show ?thesis using i l w by auto
  next
    case False
    then have "d < length cls" using d by simp
    moreover have "d \<in> set (W ! (cls ! d ! i))" using assms(1) \<open>d < length cls\<close> i by (auto simp: watch_ok_def)
    ultimately show ?thesis using l by (simp add: nth_append nth_list_update)
  qed
  ultimately show ?thesis unfolding watch_ok_def by simp
qed

lemma add_watched_clause_eq:
  "add_watched_clause s c = (length (sv_clauses s), s\<lparr>sv_clauses := sv_clauses s @ [c],
     sv_watches := (sv_watches s)[c ! 0 := sv_watches s ! (c ! 0) @ [length (sv_clauses s)],
       c ! 1 := (sv_watches s)[c ! 0 := sv_watches s ! (c ! 0) @ [length (sv_clauses s)]] ! (c ! 1) @ [length (sv_clauses s)]]\<rparr>)"
  by (simp add: add_watched_clause_def Let_def)

lemma learn_clause:
  assumes s: "settled s" "asserting s c" "length c \<noteq> 1"
  shows "ready (learn s c)" "queued (learn s c)" "holds \<nu> (learn s c) = holds \<nu> s"
    "sv_clauses (learn s c) = sv_clauses s @ [c]" "sv_trail (learn s c) = sv_trail s @ [c ! 0]"
    "sv_trail_lim (learn s c) = sv_trail_lim s" "sv_seen (learn s c) = sv_seen s" "sv_unsat (learn s c) = sv_unsat s"
    "num_vars (learn s c) = num_vars s"
proof -
  let ?n = "length (sv_clauses s)"
  define u where "u = snd (add_watched_clause s c)"
  define t where "t = assign_lit u (c ! 0) (Some ?n) (sv_trail_lim s)"
  obtain l0 l1 rest where c: "c = l0 # l1 # rest"
    using s(2,3) by (cases c rule: remdups_adj.cases) (auto simp: asserting_def)
  have a: "distinct (map lit_var c)" "\<forall>l \<in> set c. l < 2 * num_vars s" "sv_assign s ! lit_var l0 = None"
      "\<forall>l \<in> set (tl c). lit_negate l \<in> set (sv_trail s)" "lit_level s l1 = decision_level s" "\<forall>\<nu>. holds \<nu> s \<longrightarrow> clause_true \<nu> c"
    using s(2,3) c by (auto simp: asserting_def)
  have i: "solver_inv s" "watch_ok (sv_clauses s) (sv_watches s)" "queued s" "sv_qhead s = length (sv_trail s)" "prop_to (length (sv_trail s)) s"
    using s(1) by (auto simp: settled_def)
  have lw: "length (sv_watches s) = 2 * num_vars s" using i(1) by (simp add: solver_inv_def sizes_ok_def)
  have ne: "l0 \<noteq> l1" using a(1) c by auto
  let ?W = "(sv_watches s)[l0 := sv_watches s ! l0 @ [?n], l1 := sv_watches s ! l1 @ [?n]]"
  have u: "u = s\<lparr>sv_clauses := sv_clauses s @ [c], sv_watches := ?W\<rparr>"
    using c ne by (simp add: u_def add_watched_clause_eq)
  have lv: "lit_level u = lit_level s" by (simp add: u lit_level_def fun_eq_iff)
  have iu: "solver_inv u"
    using i(1) a(1,2) c unfolding u inv_defs
    by (auto simp: lit_level_def nth_append split: option.splits)
  have wu: "watch_ok (sv_clauses u) (sv_watches u)"
    using watch_ok_append [OF i(2), of c] a(2) lw c ne by (simp add: u)
  have fr: "fresh_lit u l0 (Some ?n) (sv_trail_lim u)"
    using iu a(2,3,4) c by (auto simp: fresh_lit_def u)
  have e: "learn s c = t"
    using s(3) a(3) c unfolding learn_def u_def t_def
    by (simp add: add_watched_clause_eq enqueue_cases value_lit_def)
  have t: "t = assign_lit u l0 (Some ?n) (sv_trail_lim u)" using c by (simp add: t_def u)
  show tf: "sv_clauses (learn s c) = sv_clauses s @ [c]" "sv_trail (learn s c) = sv_trail s @ [c ! 0]"
    "sv_trail_lim (learn s c) = sv_trail_lim s" "sv_seen (learn s c) = sv_seen s" "sv_unsat (learn s c) = sv_unsat s"
    "num_vars (learn s c) = num_vars s"
    unfolding e t by (simp_all add: u c)
  show "queued (learn s c)"
    unfolding e t using i(3) heap_inv_cong [of u s] by (intro queued_assign) (simp add: queued_def u)
  have uu: "units t = units s" unfolding t units_assign [OF fr] by (simp add: u units_def lit_level_def)
  show "holds \<nu> (learn s c) = holds \<nu> s"
    using a(6) tf(1) uu unfolding e by (auto simp: holds_def)
  have old: "watch_done t (length (sv_trail s)) d a b" if "d < ?n" "watch_done s (length (sv_trail s)) d a b" for d a b
    unfolding t using that lv by (intro watch_done_assign [OF fr]) (auto simp: watch_done_def u nth_append)
  have n0: "lit_negate l0 \<notin> set (sv_trail s)"
    using unassigned_iff [OF i(1), of "lit_var l0"] a(2,3) c by (auto simp: lit_var_lt image_iff)
  have n1: "lit_negate l1 \<in> set (sv_trail u)" using a(4) c by (simp add: u)
  have "lit_level t l1 = decision_level s" "lit_level t l0 = decision_level s"
    using assign_old(1) [OF fr n1] assign_new(1) [OF fr] a(5) lv by (simp_all add: t u)
  then have new: "watch_done t (length (sv_trail s)) ?n 0 1" "watch_done t (length (sv_trail s)) ?n 1 0"
    using n0 c by (simp_all add: watch_done_def t u)
  have "prop_to (length (sv_trail s)) t"
    using i(5) old new tf(1) unfolding prop_to_def e by (auto simp: less_Suc_eq)
  then show "ready (learn s c)"
    using inv_assign [OF fr] wu i(4) level_start_le [OF i(1)] unfolding e ready_def t by (simp add: u level_start_def split: if_splits)
qed

subsection \<open>Handling a conflict\<close>

text \<open>The learnt clause is not yet among the clauses: a clause with the same literals would have
  a false watch of a lower level, hence a true partner.\<close>

lemma learnt_new:
  assumes s: "solver_inv s" "prop_to (level_start s) s" "learnt_ok s c bt" "length c \<noteq> 1" "0 < decision_level s"
  shows "set c \<notin> set ` set (sv_clauses s)"
proof
  assume "set c \<in> set ` set (sv_clauses s)"
  then obtain k where k: "k < length (sv_clauses s)" "set (sv_clauses s ! k) = set c"
    by (auto simp: in_set_conv_nth image_iff)
  let ?d = "sv_clauses s ! k"
  have d: "2 \<le> length ?d" "distinct (map lit_var ?d)" using s(1) k(1) by (auto simp: solver_inv_def clauses_ok_def)
  have neg: "\<forall>l \<in> set ?d. lit_negate l \<in> set (sv_trail s)" using s(3) k(2) by (auto simp: learnt_ok_def)
  have low: "lit_level s l < decision_level s" if "l \<in> set c" "l \<noteq> c ! 0" for l
    using s(3) that by (cases c) (auto simp: learnt_ok_def)
  have "?d ! 0 \<noteq> ?d ! 1" using d by (metis (no_types, lifting) distinct_map length_greater_0_conv list.size(3) nth_eq_iff_index_eq
        one_le_numeral order_less_le_trans zero_less_one_class.zero_less_one zero_neq_one Suc_1 Suc_le_lessD One_nat_def)
  moreover have m: "?d ! 0 \<in> set ?d" "?d ! 1 \<in> set ?d" using d(1) by (auto intro: nth_mem)
  ultimately obtain a b where ab: "(a = 0 \<and> b = 1) \<or> (a = 1 \<and> b = (0::nat))" "?d ! a \<noteq> c ! 0" by metis
  have am: "?d ! a \<in> set ?d" "?d ! b \<in> set ?d" using ab(1) m by auto
  have "lit_level s (?d ! a) < decision_level s" using low am(1) ab(2) k(2) by blast
  have na: "lit_negate (?d ! a) \<in> set (sv_trail s)" using neg am by blast
  then obtain i where i: "i < length (sv_trail s)" "sv_trail s ! i = lit_negate (?d ! a)" by (auto simp: in_set_conv_nth)
  then have "\<not> level_start s \<le> i"
    using level_current [OF s(1) i(1)] \<open>lit_level s (?d ! a) < decision_level s\<close> by simp
  then have "lit_negate (?d ! a) \<in> set (take (level_start s) (sv_trail s))"
    using i by (auto simp: in_set_conv_nth)
  moreover have "watch_done s (level_start s) k a b" using s(2) k(1) ab(1) by (auto simp: prop_to_def)
  ultimately have "?d ! b \<in> set (sv_trail s)" by (simp add: watch_done_def)
  then show False using neg am(2) trail_consistent [OF s(1)] by blast
qed

text \<open>The state after a conflict: one more clause, or one more literal at level zero.\<close>

definition root_len :: "Solver \<Rightarrow> nat" where
  "root_len s = (if sv_trail_lim s = [] then length (sv_trail s) else hd (sv_trail_lim s))"

definition clause_sets :: "Solver \<Rightarrow> Lit set set" where
  "clause_sets s = set ` set (sv_clauses s)"

lemma core_cong:
  assumes "core t = core s"
  shows "solver_inv t = solver_inv s" "lit_level t = lit_level s" "units t = units s" "holds \<nu> t = holds \<nu> s"
    "prop_to k t = prop_to k s" "level_start t = level_start s" "ready t = ready s" "clause_sets t = clause_sets s"
    "root_len t = root_len s"
proof -
  note f = core_fields [OF assms]
  show l: "lit_level t = lit_level s" by (simp add: lit_level_def f fun_eq_iff)
  show i: "solver_inv t = solver_inv s" unfolding inv_defs l f by (rule refl)
  show u: "units t = units s" by (simp add: units_def l f)
  show "holds \<nu> t = holds \<nu> s" by (simp add: holds_def u f)
  show p: "prop_to k t = prop_to k s" for k by (simp add: prop_to_def watch_done_def l f)
  show ls: "level_start t = level_start s" by (simp add: level_start_def f)
  show "ready t = ready s" by (simp add: ready_def i p ls f)
  show "clause_sets t = clause_sets s" "root_len t = root_len s" by (simp_all add: clause_sets_def root_len_def f)
qed

text \<open>Progress of the search: more clauses, or as many and a longer level zero.\<close>

definition progress :: "Solver \<Rightarrow> Solver \<Rightarrow> bool" where
  "progress s t \<longleftrightarrow> clause_sets s \<subset> clause_sets t \<or> clause_sets s = clause_sets t \<and> root_len s < root_len t"

definition conflicting :: "Solver \<Rightarrow> nat \<Rightarrow> bool" where
  "conflicting s c \<longleftrightarrow> solver_inv s \<and> watch_ok (sv_clauses s) (sv_watches s) \<and> queued s \<and> prop_to (level_start s) s \<and>
     conflict_clause s c \<and> 0 < decision_level s \<and> (\<forall>v < num_vars s. \<not> sv_seen s ! v) \<and> \<not> sv_unsat s"

lemma lim_le_start: "solver_inv s \<Longrightarrow> k < decision_level s \<Longrightarrow> sv_trail_lim s ! k \<le> level_start s"
proof -
  assume s: "solver_inv s" "k < decision_level s"
  have "sorted_wrt (<) (sv_trail_lim s)" "sv_trail_lim s \<noteq> []" using s by (auto simp: solver_inv_def levels_ok_def)
  then show ?thesis using s(2)
    by (cases "k = decision_level s - 1") (auto simp: level_start_def last_conv_nth sorted_wrt_iff_nth_less intro!: less_imp_le)
qed

lemma backjump_asserting:
  assumes s: "solver_inv s" "learnt_ok s c bt" "undone s bt t"
  shows "asserting t c"
proof -
  note u = s(3) [unfolded undone_def]
  note k = s(2) [unfolded learnt_ok_def]
  have bt: "bt < decision_level s" using k by simp
  have lv: "lit_level t = lit_level s" using u by (simp add: lit_level_def fun_eq_iff)
  have tr: "sv_trail t = take (sv_trail_lim s ! bt) (sv_trail s)" using u by simp
  have lt: "\<forall>l \<in> set c. l < 2 * num_vars t"
  proof
    fix l assume "l \<in> set c"
    then have "lit_var (lit_negate l) < num_vars s" using k trail_lt [OF s(1)] by blast
    then show "l < 2 * num_vars t" using u by (simp add: lit_var_lt)
  qed
  have "lit_var (c ! 0) \<notin> lit_var ` set (sv_trail t)"
  proof
    assume "lit_var (c ! 0) \<in> lit_var ` set (sv_trail t)"
    then obtain m where m: "m \<in> set (sv_trail t)" "lit_var m = lit_var (c ! 0)" by auto
    have "lit_level s m \<le> bt" using m(1) trail_prefix [OF s(1) bt, of m] tr by (auto dest: in_set_takeD)
    then show False using m(2) k by (simp add: lit_level_def)
  qed
  moreover have "c ! 0 \<in> set c" using k by simp
  ultimately have "sv_assign t ! lit_var (c ! 0) = None"
    using unassigned_iff [of t "lit_var (c ! 0)"] u lt by (simp add: lit_var_lt)
  moreover have "\<forall>l \<in> set (tl c). lit_negate l \<in> set (sv_trail t)"
  proof
    fix l assume l: "l \<in> set (tl c)"
    then have "lit_negate l \<in> set (sv_trail s)" "lit_level s (lit_negate l) \<le> bt" using k by (auto dest: list.set_sel(2) [rotated])
    then show "lit_negate l \<in> set (sv_trail t)" using trail_prefix [OF s(1) bt] tr by simp
  qed
  moreover have "holds \<nu> t = holds \<nu> s" for \<nu> using u by (simp add: holds_def)
  ultimately show ?thesis using k u lt bt lv by (auto simp: asserting_def)
qed

lemma learn_progress:
  assumes s: "solver_inv s" "0 < decision_level s" "undone s bt t" "settled t" "asserting t c"
    and new: "length c \<noteq> 1 \<Longrightarrow> set c \<notin> clause_sets s" and one: "length c = 1 \<Longrightarrow> bt = 0"
  shows "progress s (learn t c)"
proof (cases "length c = 1")
  case True
  have "bt = 0" "sv_trail_lim s \<noteq> []" using one True s(2) by auto
  then have t: "sv_trail_lim t = []" "sv_trail t = take (hd (sv_trail_lim s)) (sv_trail s)" "sv_clauses t = sv_clauses s"
    using s(3) by (simp_all add: undone_def hd_conv_nth)
  have "hd (sv_trail_lim s) < length (sv_trail s)" using s(1) \<open>sv_trail_lim s \<noteq> []\<close> by (simp add: solver_inv_def levels_ok_def)
  then have "root_len (learn t c) = Suc (root_len s)"
    unfolding learn_unit(1) [OF s(4,5) True] root_len_def using t \<open>sv_trail_lim s \<noteq> []\<close> by simp
  moreover have "clause_sets (learn t c) = clause_sets s"
    unfolding learn_unit(1) [OF s(4,5) True] clause_sets_def using t by simp
  ultimately show ?thesis by (simp add: progress_def)
next
  case False
  have "clause_sets (learn t c) = insert (set c) (clause_sets s)"
    using learn_clause(4) [OF s(4,5) False] s(3) by (simp add: clause_sets_def undone_def)
  then show ?thesis using new [OF False] by (auto simp: progress_def)
qed

lemma learn_ok:
  assumes "settled t" "asserting t c"
  shows "ready (learn t c)" "queued (learn t c)" "holds \<nu> (learn t c) = holds \<nu> t" "num_vars (learn t c) = num_vars t"
    "sv_seen (learn t c) = sv_seen t" "sv_unsat (learn t c) = sv_unsat t"
  using learn_unit [OF assms] learn_clause [OF assms] by (cases "length c = 1"; simp)+

lemma resolve_conflict_ok:
  assumes s: "conflicting s confl"
  shows "\<exists>t. resolve_conflict s confl = Some t \<and> search_inv t \<and> num_vars t = num_vars s \<and> progress s t \<and>
    (\<forall>\<nu>. holds \<nu> t = holds \<nu> s)"
proof -
  note i = s [unfolded conflicting_def]
  have hi: "heap_inv s" using i by (simp add: queued_def)
  obtain c bt a where a: "analyze s confl = Some ((c, bt), a)" "core a = core s" "heap_inv a"
      "set (sv_order a) = set (sv_order s)" "learnt_ok s c bt"
    using analyze_ok [of s confl] i hi by blast
  note f = core_fields [OF a(2)] and g = core_cong [OF a(2)]
  have la: "learnt_ok a c bt" using a(5) unfolding learnt_ok_def f g .
  have bt: "bt < decision_level a" using la by (simp add: learnt_ok_def)
  have qa: "queued a" using i a(3,4) by (simp add: queued_def f)
  have "prop_to (sv_trail_lim a ! bt) a"
    using i lim_le_start [of a bt] bt g by (auto intro: prop_to_mono)
  then obtain t where t: "cancel_until a bt = Some t" "undone a bt t"
    using cancel_until_ok [of a bt] i qa bt g by blast
  have st: "settled t" using undone_settled [OF t(2)] i f by simp
  have as: "asserting t c" using backjump_asserting [OF _ la t(2)] i g by simp
  define w where "w = decay (learn t c)"
  have "resolve_conflict s confl = Some w" using a(1) t(1) by (simp add: resolve_conflict_def w_def)
  moreover have cw: "core w = core (learn t c)" by (simp add: w_def)
  note fw = core_fields [OF cw] and gw = core_cong [OF cw]
  have "queued w"
    using learn_ok(2) [OF st as] heap_inv_cong [of w "learn t c"] fw by (simp add: queued_def w_def decay_def)
  then have "search_inv w"
    using learn_ok [OF st as] gw fw i t(2) by (simp add: search_inv_def undone_def f)
  moreover have "num_vars w = num_vars s" using learn_ok(4) [OF st as] fw f t(2) by (simp add: undone_def)
  moreover have "progress s w"
  proof -
    have "set c \<notin> clause_sets a" if "length c \<noteq> 1"
      using learnt_new [of a c bt] la that i g f by (simp add: clause_sets_def)
    moreover have "length c = 1 \<Longrightarrow> bt = 0" using la by (simp add: learnt_ok_def)
    ultimately have "progress a (learn t c)" using learn_progress [OF _ _ t(2) st as] i g(1) f(9) by auto
    then show ?thesis by (simp add: progress_def g gw)
  qed
  moreover have "holds \<nu> w = holds \<nu> s" for \<nu>
    using learn_ok(3) [OF st as] gw(4) g(4) t(2) by (simp add: undone_def holds_def f)
  ultimately show ?thesis by blast
qed

subsection \<open>The search loop\<close>

lemma settled_ready: "settled s \<Longrightarrow> ready s"
  by (simp add: settled_def ready_def level_start_le)

lemma queued_frame:
  assumes "queued s" "frame s t" "solver_inv s" "solver_inv t"
  shows "queued t"
proof -
  obtain ys where ys: "sv_trail t = sv_trail s @ ys" "num_vars t = num_vars s" using assms(2) by (auto simp: frame_def)
  have "sv_assign s ! v = None" if "sv_assign t ! v = None" "v < num_vars s" for v
    using that unassigned_iff [OF assms(3), of v] unassigned_iff [OF assms(4), of v] ys by auto
  then show ?thesis using assms(1,2) heap_inv_cong [of t s] by (simp add: queued_def frame_def)
qed

lemma frame_measures:
  assumes "frame s t"
  shows "clause_sets t = clause_sets s" "root_len s \<le> root_len t" "length (sv_trail s) \<le> length (sv_trail t)"
proof -
  have "set (map set (sv_clauses t)) = set (map set (sv_clauses s))" using assms by (simp only: frame_def)
  then show "clause_sets t = clause_sets s" by (simp add: clause_sets_def)
  show "root_len s \<le> root_len t" "length (sv_trail s) \<le> length (sv_trail t)"
    using assms by (auto simp: frame_def root_len_def)
qed

lemma restart_ok:
  assumes s: "search_inv s"
  shows "\<exists>t. cancel_until s 0 = Some t \<and> search_inv t \<and> num_vars t = num_vars s \<and> clause_sets t = clause_sets s \<and>
    root_len t = root_len s \<and> (\<forall>\<nu>. holds \<nu> t = holds \<nu> s)"
proof (cases "sv_trail_lim s = []")
  case True
  then show ?thesis using s by (simp add: cancel_until_def)
next
  case False
  note r = s [unfolded search_inv_def ready_def]
  have "sv_trail_lim s ! 0 \<le> sv_qhead s" using lim_le_start [of s 0] r False by auto
  then obtain t where t: "cancel_until s 0 = Some t" "undone s 0 t"
    using cancel_until_ok [of s 0] r False by (auto intro: prop_to_mono)
  note u = t(2) [unfolded undone_def]
  have "settled t" using undone_settled [OF t(2)] r by blast
  then have "search_inv t" using u r by (simp add: search_inv_def settled_ready)
  moreover have "sv_trail_lim s ! 0 < length (sv_trail s)" using r False by (simp add: solver_inv_def levels_ok_def)
  then have "root_len t = root_len s" using u False by (simp add: root_len_def hd_conv_nth)
  ultimately show ?thesis using t(1) u by (simp add: clause_sets_def holds_def)
qed

lemma decide_ok:
  assumes s: "settled s" "search_inv s" "pick_branch s = (Some l, t)"
  shows "search_inv (decide t l)" "clause_sets (decide t l) = clause_sets s" "root_len (decide t l) = root_len s"
    "length (sv_trail (decide t l)) = Suc (length (sv_trail s))" "num_vars (decide t l) = num_vars s"
    "holds \<nu> (decide t l) = holds \<nu> s"
proof -
  note i = s(1) [unfolded settled_def queued_def heap_inv_def]
  have p: "core t = core s" "slots_ok t" "length (sv_order_slot t) = num_vars s" "sv_activity t = sv_activity s" "heap_ok t"
      "lit_var l < num_vars s" "sv_assign s ! lit_var l = None"
      "\<forall>v < num_vars s. sv_assign s ! v = None \<and> v \<noteq> lit_var l \<longrightarrow> v \<in> set (sv_order t)"
    using pick_branch_props [of s "Some l" t] i s(3) by auto
  note f = core_fields [OF p(1)] and g = core_cong [OF p(1)]
  let ?L = "sv_trail_lim t @ [length (sv_trail t)]"
  have d: "decide t l = assign_lit t l None ?L" using p(7) f by (intro decide_eq) (simp add: value_lit_def)
  have fr: "fresh_lit t l None ?L" using i p(6,7) f g by (simp add: fresh_lit_def lit_var_lt)
  have "heap_inv t" using i p f by (simp add: heap_inv_def activities_ok_def)
  moreover have "v \<in> set (sv_order t)" if "v < num_vars s" "sv_assign (assign_lit t l None ?L) ! v = None" for v
    using that p(6,8) f by (cases "v = lit_var l") (auto simp: assign_lit_def)
  ultimately have "queued (decide t l)"
    using heap_inv_cong [of "decide t l" t] f unfolding d by (simp add: queued_def)
  moreover have "ready (decide t l)"
    unfolding d ready_def using inv_assign [OF fr] prop_to_assign [OF fr le_refl] i f g by (simp add: level_start_def)
  ultimately show "search_inv (decide t l)" using s(2) f unfolding d by (simp add: search_inv_def)
  show "clause_sets (decide t l) = clause_sets s" "root_len (decide t l) = root_len s"
    "length (sv_trail (decide t l)) = Suc (length (sv_trail s))" "num_vars (decide t l) = num_vars s"
    unfolding d using f by (simp_all add: clause_sets_def root_len_def)
  show "holds \<nu> (decide t l) = holds \<nu> s"
    unfolding d holds_def units_assign [OF fr] using f g by simp
qed

lemma model_holds:
  assumes s: "settled s" "\<forall>v < num_vars s. sv_assign s ! v \<noteq> None"
  shows "holds (\<lambda>v. sv_model s ! v) s"
proof -
  note i = s(1) [unfolded settled_def]
  let ?\<nu> = "\<lambda>v. sv_model s ! v"
  have tr: "lit_true ?\<nu> l" if l: "l \<in> set (sv_trail s)" for l
  proof -
    have v: "lit_var l < num_vars s" using trail_lt [of s] i l by blast
    have "sv_assign s ! lit_var l = Some (\<not> lit_is_negated l)"
      using i v l by (simp add: solver_inv_def trail_ok_def)
    then show ?thesis using v by (simp add: lit_true_def sv_model_def)
  qed
  have "clause_true ?\<nu> c" if cm: "c \<in> set (sv_clauses s)" for c
  proof -
    obtain k where k: "k < length (sv_clauses s)" "sv_clauses s ! k = c" using cm by (auto simp: in_set_conv_nth)
    have c: "2 \<le> length c" "\<forall>l \<in> set c. l < 2 * num_vars s" using i cm by (auto simp: solver_inv_def clauses_ok_def)
    have m: "c ! 0 \<in> set c" "c ! 1 \<in> set c" using c(1) by (auto intro: nth_mem)
    have v: "lit_var (c ! 0) < num_vars s" using m c(2) by (simp add: lit_var_lt)
    have "c ! 0 \<in> set (sv_trail s) \<or> lit_negate (c ! 0) \<in> set (sv_trail s)"
    proof -
      have "lit_var (c ! 0) \<in> lit_var ` set (sv_trail s)" using unassigned_iff [of s] i v s(2) by blast
      then show ?thesis by (auto simp: lit_var_eq)
    qed
    moreover have "watch_done s (length (sv_trail s)) k 0 1" using i k by (simp add: prop_to_def)
    ultimately have "c ! 0 \<in> set (sv_trail s) \<or> c ! 1 \<in> set (sv_trail s)" using k(2) by (auto simp: watch_done_def)
    then show ?thesis using m tr by (auto simp: clause_true_def)
  qed
  then show ?thesis using tr by (auto simp: holds_def units_def)
qed

lemma root_conflict:
  assumes "solver_inv s" "conflict_clause s c" "decision_level s = 0"
  shows "\<not> holds \<nu> s"
proof
  assume h: "holds \<nu> s"
  have "\<not> lit_true \<nu> l" if "l \<in> set (sv_clauses s ! c)" for l
  proof -
    have "lit_negate l \<in> set (sv_trail s)" using assms(2) that by (simp add: conflict_clause_def)
    then obtain i where "i < length (sv_trail s)" "sv_trail s ! i = lit_negate l" by (auto simp: in_set_conv_nth)
    moreover have "lit_level s (lit_negate l) = 0"
      using level_le [OF assms(1) \<open>lit_negate l \<in> set (sv_trail s)\<close>] assms(3) by simp
    ultimately show ?thesis using root_implied [OF assms(1) h, of i] by simp
  qed
  moreover have "clause_true \<nu> (sv_clauses s ! c)" using h assms(2) by (simp add: holds_def conflict_clause_def)
  ultimately show False by (auto simp: clause_true_def)
qed

text \<open>The well-founded measure of the search over \<open>n\<close> variables.\<close>

definition search_measure :: "nat \<Rightarrow> Solver \<Rightarrow> nat \<times> nat \<times> nat" where
  "search_measure n s = (2 ^ (2 * n) - card (clause_sets s), n - root_len s, n - length (sv_trail s))"

abbreviation search_order :: "((nat \<times> nat \<times> nat) \<times> (nat \<times> nat \<times> nat)) set" where
  "search_order \<equiv> less_than <*lex*> less_than <*lex*> less_than"

lemma wf_search: "wf search_order"
  by (intro wf_lex_prod wf_less_than)

lemma clause_sets_bound:
  assumes "solver_inv s"
  shows "card (clause_sets s) \<le> 2 ^ (2 * num_vars s)" "clause_sets s \<subseteq> Pow {..<2 * num_vars s}"
proof -
  show sub: "clause_sets s \<subseteq> Pow {..<2 * num_vars s}" using assms by (auto simp: clause_sets_def solver_inv_def clauses_ok_def)
  have "card (clause_sets s) \<le> card (Pow {..<2 * num_vars s})" using sub by (intro card_mono) simp_all
  then show "card (clause_sets s) \<le> 2 ^ (2 * num_vars s)" by (simp add: card_Pow)
qed

lemma root_len_bound: "solver_inv s \<Longrightarrow> root_len s \<le> num_vars s"
  using trail_length [of s] by (auto simp: root_len_def solver_inv_def levels_ok_def dest!: hd_in_set)

lemma progress_measure:
  assumes "solver_inv t" "num_vars t = n" "progress s t" "clause_sets u = clause_sets t" "root_len u = root_len t"
    and "clause_sets s0 = clause_sets s" "root_len s0 \<le> root_len s"
  shows "(search_measure n u, search_measure n s0) \<in> search_order"
proof (cases "clause_sets s \<subset> clause_sets t")
  case True
  have "finite (clause_sets t)" by (simp add: clause_sets_def)
  then have "card (clause_sets s) < card (clause_sets t)" using True by (rule psubset_card_mono)
  moreover have "card (clause_sets t) \<le> 2 ^ (2 * n)" using clause_sets_bound(1) [OF assms(1)] assms(2) by simp
  ultimately have "2 ^ (2 * n) - card (clause_sets t) < 2 ^ (2 * n) - card (clause_sets s)"
    by (meson diff_less_mono2 less_le_trans)
  then show ?thesis using assms(4,6) by (simp add: search_measure_def)
next
  case False
  then have "clause_sets s = clause_sets t" "root_len s < root_len t" using assms(3) by (auto simp: progress_def)
  moreover have "root_len t \<le> n" using root_len_bound [OF assms(1)] assms(2) by simp
  ultimately have "n - root_len t < n - root_len s0" using assms(7) by linarith
  then show ?thesis using assms(4-6) \<open>clause_sets s = clause_sets t\<close> by (simp add: search_measure_def)
qed

text \<open>What a result of the search says about the formula.\<close>

definition verdict_ok :: "Solver \<Rightarrow> nat option \<Rightarrow> SatResult \<Rightarrow> bool" where
  "verdict_ok s budget r \<longleftrightarrow> (case r of
     Sat m \<Rightarrow> length m = num_vars s \<and> holds (\<lambda>v. m ! v) s
   | Unsat \<Rightarrow> \<forall>\<nu>. \<not> holds \<nu> s
   | Unknown \<Rightarrow> budget \<noteq> None)"

lemma verdict_ok_cong:
  "num_vars t = num_vars s \<Longrightarrow> (\<And>\<nu>. holds \<nu> t = holds \<nu> s) \<Longrightarrow> verdict_ok t b r = verdict_ok s b r"
  by (simp add: verdict_ok_def split: SatResult.splits)

lemma propagate_search:
  assumes "search_inv s"
  shows "\<exists>r t. propagate s = Some (r, t) \<and> num_vars t = num_vars s \<and> (\<forall>\<nu>. holds \<nu> t = holds \<nu> s) \<and>
    clause_sets t = clause_sets s \<and> root_len s \<le> root_len t \<and> length (sv_trail s) \<le> length (sv_trail t) \<and>
    solver_inv t \<and> (case r of None \<Rightarrow> settled t \<and> search_inv t
      | Some c \<Rightarrow> conflict_clause t c \<and> (decision_level t = 0 \<or> conflicting t c))"
proof -
  note i = assms [unfolded search_inv_def]
  obtain r t where t: "propagate s = Some (r, t)" "frame s t" "solver_inv t" "watch_ok (sv_clauses t) (sv_watches t)"
      "sv_qhead t = length (sv_trail t)"
      "case r of None \<Rightarrow> prop_to (length (sv_trail t)) t | Some c \<Rightarrow> conflict_clause t c \<and> prop_to (level_start t) t"
    using propagate_inv [of s] i by blast
  have q: "queued t" using queued_frame [OF _ t(2) _ t(3)] i by (simp add: ready_def)
  have f: "num_vars t = num_vars s" "sv_seen t = sv_seen s" "sv_unsat t = sv_unsat s" using t(2) by (simp_all add: frame_def)
  have "case r of None \<Rightarrow> settled t \<and> search_inv t
      | Some c \<Rightarrow> conflict_clause t c \<and> (decision_level t = 0 \<or> conflicting t c)"
    using t(3-6) q f i settled_ready [of t]
    by (auto simp: settled_def search_inv_def conflicting_def split: option.splits)
  then show ?thesis using t(1,3) f frame_holds [OF t(2)] frame_measures [OF t(2)] by blast
qed

lemma solve_loop_ok:
  assumes "search_inv s"
  shows "\<exists>r t. solve_loop s conflicts restart_no limit budget = Some (r, t) \<and> verdict_ok s budget r"
  using assms
proof (induction "search_measure (num_vars s) s" arbitrary: s conflicts restart_no limit rule: wf_induct_rule [OF wf_search])
  case (1 s)
  let ?n = "num_vars s"
  obtain r t where t: "propagate s = Some (r, t)" "num_vars t = ?n" "\<And>\<nu>. holds \<nu> t = holds \<nu> s"
      "clause_sets t = clause_sets s" "root_len s \<le> root_len t" "length (sv_trail s) \<le> length (sv_trail t)" "solver_inv t"
      "case r of None \<Rightarrow> settled t \<and> search_inv t
       | Some c \<Rightarrow> conflict_clause t c \<and> (decision_level t = 0 \<or> conflicting t c)"
    using propagate_search [OF "1.prems"] by blast
  have IH: "\<exists>r w. solve_loop u c rn l budget = Some (r, w) \<and> verdict_ok s budget r"
    if u: "(search_measure ?n u, search_measure ?n s) \<in> search_order" "num_vars u = ?n" "search_inv u" "\<And>\<nu>. holds \<nu> u = holds \<nu> s"
    for u c rn l
    using "1.hyps" [of u c rn l] u verdict_ok_cong [of u s budget] by simp
  show ?case
  proof (cases r)
    case None
    then have st: "settled t" "search_inv t" using t(8) by auto
    obtain b u where b: "pick_branch t = (b, u)" by fastforce
    show ?thesis
    proof (cases b)
      case None
      have "core u = core t" "\<forall>v < num_vars t. sv_assign t ! v \<noteq> None"
        using pick_branch_props [of t None u] b None st(1) by (auto simp: settled_def queued_def heap_inv_def)
      moreover have "sv_model u = sv_model t" using core_fields(3) [OF \<open>core u = core t\<close>] by (simp add: sv_model_def)
      ultimately have "verdict_ok s budget (Sat (sv_model u))"
        using model_holds [OF st(1)] t(2,3) by (simp add: verdict_ok_def) (simp add: sv_model_def)
      then show ?thesis using t(1) \<open>r = None\<close> b None by (subst solve_loop.simps) simp
    next
      case (Some l)
      note d = decide_ok [OF st, of l u]
      have "length (sv_trail t) < ?n" using trail_length [of "decide u l"] d b Some t(2) by (simp add: search_inv_def ready_def)
      then have "(search_measure ?n (decide u l), search_measure ?n s) \<in> search_order"
        using d(2-4) b Some t(4-6) by (simp add: search_measure_def) linarith
      then show ?thesis
        using IH [of "decide u l"] d b Some t(1-3) \<open>r = None\<close> by (subst solve_loop.simps) simp
    qed
  next
    case (Some c)
    show ?thesis
    proof (cases "decision_level t = 0")
      case True
      then have "verdict_ok s budget Unsat" using root_conflict [OF t(7)] t(3,8) Some by (simp add: verdict_ok_def)
      then show ?thesis using t(1) Some True by (subst solve_loop.simps) simp
    next
      case False
      then obtain u where u: "resolve_conflict t c = Some u" "search_inv u" "num_vars u = ?n" "progress t u" "\<And>\<nu>. holds \<nu> u = holds \<nu> s"
        using resolve_conflict_ok [of t c] t(2,3,8) Some by auto
      obtain w where w: "cancel_until u 0 = Some w" "search_inv w" "num_vars w = ?n" "clause_sets w = clause_sets u"
          "root_len w = root_len u" "\<And>\<nu>. holds \<nu> w = holds \<nu> s"
        using restart_ok [OF u(2)] u(3,5) by auto
      have iu: "solver_inv u" using u(2) by (simp add: search_inv_def ready_def)
      note pm = progress_measure [OF iu u(3,4) _ _ t(4) [symmetric] t(5)]
      obtain step where "luby (restart_no + 1) = Some step" using luby_eq by blast
      then show ?thesis
        using IH [OF pm u(3,2,5)] IH [OF pm w(3,2,6)] w(1,4,5) t(1) Some False u(1)
        by (subst solve_loop.simps) (auto simp: verdict_ok_def Let_def split: option.splits)
    qed
  qed
qed

end
