(* ===== verification/SatCorrect.thy ===== *)
theory SatCorrect
  imports SatSearch
begin

text \<open>
  The solver as its clients see it: a formula is built with \<open>new_var\<close> and \<open>add_clause\<close> from
  \<open>solver_new\<close>, then solved. \<open>models\<close> reads a state as the formula built so far; the interface
  \<open>cnf_builder\<close> says what each building step does to it and is interpreted on the solver.
  The properties say that the search returns and that its verdict is right.
\<close>

subsection \<open>States before a search\<close>

definition root_inv :: "Solver \<Rightarrow> bool" where
  "root_inv s \<longleftrightarrow> solver_inv s \<and> watch_ok (sv_clauses s) (sv_watches s) \<and> queued s \<and>
     (\<forall>v < num_vars s. \<not> sv_seen s ! v) \<and> sv_trail_lim s = [] \<and> sv_qhead s = 0"

definition models :: "(nat \<Rightarrow> bool) \<Rightarrow> Solver \<Rightarrow> bool" where
  "models \<nu> s \<longleftrightarrow> \<not> sv_unsat s \<and> holds \<nu> s"

lemma root_search: "root_inv s \<Longrightarrow> \<not> sv_unsat s \<Longrightarrow> search_inv s"
  by (simp add: root_inv_def search_inv_def ready_def level_start_def prop_to_def watch_done_def)

lemma solve_ok:
  assumes "root_inv s"
  shows "\<exists>r t. solve_with_budget s budget = Some (r, t) \<and>
    (case r of Sat m \<Rightarrow> length m = num_vars s \<and> models (\<lambda>v. m ! v) s
     | Unsat \<Rightarrow> \<forall>\<nu>. \<not> models \<nu> s | Unknown \<Rightarrow> budget \<noteq> None)"
proof (cases "sv_unsat s")
  case True
  then show ?thesis by (simp add: solve_with_budget_def models_def)
next
  case False
  obtain r t where "solve_loop s 0 0 (luby_spec 1 * 100) budget = Some (r, t)" "verdict_ok s budget r"
    using solve_loop_ok [OF root_search [OF assms False]] by blast
  then show ?thesis using False luby_eq [of 0] by (auto simp: solve_with_budget_def verdict_ok_def models_def split: SatResult.splits)
qed

subsection \<open>Fresh variables\<close>

lemma root_inv_new: "root_inv solver_new"
  by (simp add: root_inv_def solver_new_def inv_defs watch_ok_def queued_def heap_inv_def slots_ok_def heap_from_def activities_ok_def)

lemma models_new: "models \<nu> solver_new"
  by (simp add: models_def holds_def units_def solver_new_def)

definition grown :: "Solver \<Rightarrow> Solver" where
  "grown s = s\<lparr>sv_assign := sv_assign s @ [None], sv_level := sv_level s @ [0],
     sv_reason := sv_reason s @ [None], sv_phase := sv_phase s @ [False],
     sv_activity := sv_activity s @ [0], sv_watches := sv_watches s @ [[], []],
     sv_order_slot := sv_order_slot s @ [None], sv_seen := sv_seen s @ [False]\<rparr>"

lemma new_var_eq: "new_var s = (num_vars s, queue (grown s) (num_vars s))"
  by (simp add: new_var_def grown_def Let_def)

lemma grown_inv:
  assumes "solver_inv s"
  shows "solver_inv (grown s)" "units (grown s) = units s"
proof -
  have v: "lit_var l < num_vars s" if "l \<in> set (sv_trail s)" for l using trail_lt [OF assms that] .
  have lens: "length (sv_level s) = num_vars s" "length (sv_reason s) = num_vars s" using assms by (auto simp: solver_inv_def sizes_ok_def)
  have lv: "lit_level (grown s) l = lit_level s l" "sv_reason (grown s) ! lit_var l = sv_reason s ! lit_var l"
    if "l \<in> set (sv_trail s)" for l using v [OF that] lens by (simp_all add: grown_def lit_level_def nth_append)
  show "units (grown s) = units s" using lv by (auto simp: units_def) (auto simp: grown_def)
  have "trail_ok (grown s)"
  proof -
    have "lit_new (num_vars s) b \<notin> set (sv_trail s)" for b using v by fastforce
    then show ?thesis using assms by (auto simp: solver_inv_def trail_ok_def grown_def nth_append less_Suc_eq)
  qed
  moreover have "levels_ok (grown s)"
    using assms lv by (simp add: solver_inv_def levels_ok_def) (simp add: grown_def)
  moreover have "reasons_ok (grown s)"
    unfolding reasons_ok_def
  proof (intro allI impI)
    fix i assume "i < length (sv_trail (grown s))"
    then have i: "i < length (sv_trail s)" by (simp add: grown_def)
    have f: "sv_trail (grown s) = sv_trail s" "sv_trail_lim (grown s) = sv_trail_lim s" "sv_clauses (grown s) = sv_clauses s"
      by (simp_all add: grown_def)
    show "case sv_reason (grown s) ! lit_var (sv_trail (grown s) ! i) of
        None \<Rightarrow> i \<in> set (sv_trail_lim (grown s)) \<or> lit_level (grown s) (sv_trail (grown s) ! i) = 0
      | Some c \<Rightarrow> c < length (sv_clauses (grown s)) \<and> sv_clauses (grown s) ! c ! 0 = sv_trail (grown s) ! i \<and>
          (\<forall>l \<in> set (tl (sv_clauses (grown s) ! c)). lit_negate l \<in> set (take i (sv_trail (grown s))))"
      unfolding f lv(1) [OF nth_mem [OF i]] lv(2) [OF nth_mem [OF i]]
      using assms i by (simp add: solver_inv_def reasons_ok_def)
  qed
  moreover have "sizes_ok (grown s)" using assms by (simp add: solver_inv_def sizes_ok_def grown_def)
  moreover have "clauses_ok (grown s)"
    using assms by (auto simp: solver_inv_def clauses_ok_def grown_def intro!: less_SucI)
  ultimately show "solver_inv (grown s)" by (simp add: solver_inv_def)
qed

lemma grown_heap:
  assumes "heap_inv s"
  shows "heap_inv (grown s)"
proof -
  have lt: "v < num_vars s" if "v \<in> set (sv_order s)" for v
    using assms that by (auto simp: heap_inv_def slots_ok_def)
  have "slots_ok (grown s)"
    using assms lt unfolding heap_inv_def slots_ok_def
    by (auto simp: grown_def nth_append less_Suc_eq in_set_conv_nth)
  moreover have "heap_ok (grown s)"
    using assms lt unfolding heap_inv_def heap_from_def behind_def ahead_def
    by (auto simp: grown_def nth_append)
  ultimately show ?thesis using assms by (auto simp: heap_inv_def activities_ok_def grown_def f64_ok_def)
qed

lemma watch_ok_grow:
  assumes "watch_ok cls W" "\<forall>c \<in> set cls. 2 \<le> length c \<and> (\<forall>l \<in> set c. l < length W)"
  shows "watch_ok cls (W @ [[], []])"
proof -
  have "cls ! c ! 0 < length W" "cls ! c ! 1 < length W" if "c < length cls" for c
    using assms(2) that by (auto simp: all_set_conv_all_nth intro!: bspec [OF conjunct2 [OF assms(2) [rule_format]]] nth_mem)
  then show ?thesis using assms(1)
    by (auto simp: watch_ok_def nth_append less_Suc_eq)
qed

lemma new_var_ok:
  assumes "root_inv s"
  shows "fst (new_var s) = num_vars s" "root_inv (snd (new_var s))" "num_vars (snd (new_var s)) = Suc (num_vars s)"
    "models \<nu> (snd (new_var s)) = models \<nu> s"
proof -
  note r = assms [unfolded root_inv_def]
  let ?g = "grown s" and ?t = "queue (grown s) (num_vars s)"
  have ct: "core ?t = core ?g" by simp
  note f = core_fields [OF ct] and c = core_cong [OF ct]
  have gv: "num_vars ?g = Suc (num_vars s)" "sv_trail_lim ?g = sv_trail_lim s" "sv_qhead ?g = sv_qhead s"
      "sv_clauses ?g = sv_clauses s" "sv_unsat ?g = sv_unsat s" "sv_order ?g = sv_order s" "sv_watches ?g = sv_watches s @ [[], []]"
      "sv_seen ?g = sv_seen s @ [False]"
    by (simp_all add: grown_def)
  have sz: "length (sv_seen s) = num_vars s" "length (sv_watches s) = 2 * num_vars s"
      "\<forall>c \<in> set (sv_clauses s). 2 \<le> length c \<and> (\<forall>l \<in> set c. l < length (sv_watches s))"
    using r by (auto simp: solver_inv_def sizes_ok_def clauses_ok_def)
  have q: "queued ?t"
  proof (rule queue_queued)
    show "heap_inv ?g" using grown_heap r by (simp add: queued_def)
    show "\<forall>w < num_vars ?g. w \<noteq> num_vars s \<and> sv_assign ?g ! w = None \<longrightarrow> w \<in> set (sv_order ?g)"
      using r by (auto simp: queued_def grown_def nth_append less_Suc_eq)
  qed (simp add: gv)
  have "watch_ok (sv_clauses ?t) (sv_watches ?t)" using watch_ok_grow [of "sv_clauses s" "sv_watches s"] r sz f gv by simp
  moreover have "\<forall>v < num_vars ?t. \<not> sv_seen ?t ! v" using r sz f gv by (simp add: nth_append less_Suc_eq)
  ultimately show "root_inv (snd (new_var s))"
    using r grown_inv [of s] q f gv c by (simp add: root_inv_def new_var_eq)
  show "fst (new_var s) = num_vars s" "num_vars (snd (new_var s)) = Suc (num_vars s)"
    using f gv by (simp_all add: new_var_eq)
  show "models \<nu> (snd (new_var s)) = models \<nu> s"
    using r f gv c grown_inv(2) [of s] by (simp add: models_def new_var_eq holds_def)
qed

subsection \<open>Clauses\<close>

lemma dedup_clause_Some:
  assumes "dedup_clause ls cl = Some d" "distinct (map lit_var cl)"
  shows "distinct (map lit_var d) \<and> set d = set cl \<union> set ls"
  using assms
proof (induction ls cl rule: dedup_clause.induct)
  case (2 l ls cl)
  show ?case
  proof (cases "l \<in> set cl")
    case True
    then show ?thesis using 2 by (auto split: if_splits)
  next
    case False
    then have nd: "lit_negate l \<notin> set cl" "dedup_clause ls (cl @ [l]) = Some d" using "2.prems"(1) by (auto split: if_splits)
    then have "lit_var l \<notin> lit_var ` set cl" using False by (auto simp: lit_var_eq image_iff)
    then show ?thesis using "2.IH"(1) [OF nd(1) False nd(2)] "2.prems"(2) by auto
  qed
qed simp

lemma dedup_clause_None:
  "dedup_clause ls cl = None \<Longrightarrow> clause_true \<nu> (cl @ ls)"
proof (induction ls cl rule: dedup_clause.induct)
  case (2 l ls cl)
  show ?case
  proof (cases "lit_negate l \<in> set cl")
    case True
    then show ?thesis by (cases "lit_true \<nu> l") (auto simp: clause_true_def intro!: bexI [of _ "lit_negate l"])
  next
    case False
    then show ?thesis using 2 by (auto simp: clause_true_def split: if_splits)
  qed
qed simp

lemma root_value:
  assumes "root_inv s" "holds \<nu> s" "l \<in> set (sv_trail s)"
  shows "lit_true \<nu> l"
proof -
  note r = assms(1) [unfolded root_inv_def]
  obtain i where i: "i < length (sv_trail s)" "sv_trail s ! i = l" using assms(3) by (auto simp: in_set_conv_nth)
  have "lit_level s l = 0" using level_le [of s l] r assms(3) by simp
  then show ?thesis using root_implied [of s \<nu> i] r assms(2) i by simp
qed

text \<open>A clause of two or more literals over distinct variables is appended and watched.\<close>

lemma append_clause_ok:
  assumes "root_inv s" "2 \<le> length c" "distinct (map lit_var c)" "\<forall>l \<in> set c. l < 2 * num_vars s"
  shows "root_inv (snd (add_watched_clause s c))" "num_vars (snd (add_watched_clause s c)) = num_vars s"
    "models \<nu> (snd (add_watched_clause s c)) \<longleftrightarrow> models \<nu> s \<and> clause_true \<nu> c"
proof -
  note r = assms(1) [unfolded root_inv_def]
  let ?n = "length (sv_clauses s)"
  let ?W = "(sv_watches s)[c ! 0 := sv_watches s ! (c ! 0) @ [?n], c ! 1 := sv_watches s ! (c ! 1) @ [?n]]"
  have ne: "c ! 0 \<noteq> c ! 1" using assms(2,3) by (cases c rule: remdups_adj.cases) auto
  have u: "snd (add_watched_clause s c) = s\<lparr>sv_clauses := sv_clauses s @ [c], sv_watches := ?W\<rparr>"
    using ne by (simp add: add_watched_clause_eq)
  have lw: "length (sv_watches s) = 2 * num_vars s" using r by (simp add: solver_inv_def sizes_ok_def)
  have "solver_inv (s\<lparr>sv_clauses := sv_clauses s @ [c], sv_watches := ?W\<rparr>)"
    using r assms(2-4) unfolding inv_defs by (auto simp: lit_level_def nth_append split: option.splits)
  moreover have "watch_ok (sv_clauses s @ [c]) ?W" using watch_ok_append [of "sv_clauses s" "sv_watches s" c] r lw assms ne by simp
  moreover have "queued (s\<lparr>sv_clauses := sv_clauses s @ [c], sv_watches := ?W\<rparr>)"
    using r heap_inv_cong [of "s\<lparr>sv_clauses := sv_clauses s @ [c], sv_watches := ?W\<rparr>" s] by (simp add: queued_def)
  ultimately show "root_inv (snd (add_watched_clause s c))" using r unfolding u by (simp add: root_inv_def)
  show "num_vars (snd (add_watched_clause s c)) = num_vars s" unfolding u by simp
  show "models \<nu> (snd (add_watched_clause s c)) \<longleftrightarrow> models \<nu> s \<and> clause_true \<nu> c"
    unfolding u by (auto simp: models_def holds_def units_def lit_level_def)
qed

lemma root_inv_unsat: "root_inv (s\<lparr>sv_unsat := b\<rparr>) = root_inv s"
proof -
  have "solver_inv (s\<lparr>sv_unsat := b\<rparr>) = solver_inv s"
    by (simp add: inv_defs lit_level_def cong: option.case_cong)
  then show ?thesis using heap_inv_cong [of "s\<lparr>sv_unsat := b\<rparr>" s] by (simp add: root_inv_def queued_def)
qed

lemma assert_unit_ok:
  assumes "root_inv s" "\<not> sv_unsat s" "l < 2 * num_vars s" "enqueue s l None = (b, t)"
  defines "u \<equiv> if b then t else t\<lparr>sv_unsat := True\<rparr>"
  shows "root_inv u" "num_vars u = num_vars s" "models \<nu> u \<longleftrightarrow> models \<nu> s \<and> lit_true \<nu> l"
proof -
  note r = assms(1) [unfolded root_inv_def]
  have v: "lit_negate l \<in> set (sv_trail s) \<longleftrightarrow> value_lit s l = Some False" "l \<in> set (sv_trail s) \<longleftrightarrow> value_lit s l = Some True"
    using value_lit_iff [of s l] r assms(3) by auto
  consider "value_lit s l = None" | "value_lit s l = Some True" | "value_lit s l = Some False" by (cases "value_lit s l") auto
  then have "root_inv u \<and> num_vars u = num_vars s \<and> (models \<nu> u \<longleftrightarrow> models \<nu> s \<and> lit_true \<nu> l)"
  proof cases
    case 1
    have u: "u = assign_lit s l None (sv_trail_lim s)" using assms(4) 1 by (auto simp: u_def enqueue_cases)
    have fr: "fresh_lit s l None (sv_trail_lim s)" using 1 r assms(3) by (simp add: fresh_lit_def value_lit_def)
    show ?thesis
      using inv_assign [OF fr] queued_assign [of s l None "sv_trail_lim s"] r units_assign [OF fr]
      unfolding u by (auto simp: root_inv_def models_def holds_def)
  next
    case 2
    then have "u = s" using assms(4) by (simp add: u_def enqueue_cases)
    then show ?thesis using assms(1) root_value [OF assms(1), of \<nu> l] v 2 by (auto simp: models_def)
  next
    case 3
    then have u: "u = s\<lparr>sv_unsat := True\<rparr>" using assms(4) by (simp add: u_def enqueue_cases)
    show ?thesis using assms(1) root_value [OF assms(1), of \<nu> "lit_negate l"] v 3 by (auto simp: models_def u root_inv_unsat)
  qed
  then show "root_inv u" "num_vars u = num_vars s" "models \<nu> u \<longleftrightarrow> models \<nu> s \<and> lit_true \<nu> l" by auto
qed

lemma add_clause_ok:
  assumes "root_inv s" "\<forall>l \<in> set c. l < 2 * num_vars s"
  shows "root_inv (add_clause s c) \<and> num_vars (add_clause s c) = num_vars s \<and>
    (models \<nu> (add_clause s c) \<longleftrightarrow> models \<nu> s \<and> clause_true \<nu> c)"
proof (cases "sv_unsat s")
  case True
  then show ?thesis using assms(1) by (simp add: add_clause_def models_def)
next
  case False
  show ?thesis
  proof (cases "dedup_clause c []")
    case None
    then show ?thesis using False assms(1) dedup_clause_None [OF None, of \<nu>] by (simp add: add_clause_def)
  next
    case (Some d)
    then have d: "distinct (map lit_var d)" "set d = set c" using dedup_clause_Some [OF Some] by auto
    have ct: "clause_true \<nu> c \<longleftrightarrow> clause_true \<nu> d" by (simp add: clause_true_def d(2))
    have lt: "\<forall>l \<in> set d. l < 2 * num_vars s" using assms(2) d(2) by simp
    consider "d = []" | l where "d = [l]" | "2 \<le> length d"
      by (cases d rule: remdups_adj.cases) auto
    then show ?thesis
    proof cases
      case 1
      then show ?thesis using False Some ct assms(1)
        by (simp add: add_clause_def models_def clause_true_def root_inv_unsat)
    next
      case (2 l)
      obtain b t where e: "enqueue s l None = (b, t)" by fastforce
      have "add_clause s c = (if b then t else t\<lparr>sv_unsat := True\<rparr>)"
        using False Some 2 e by (auto simp: add_clause_def split: bool.splits)
      then show ?thesis using assert_unit_ok [OF assms(1) False _ e] lt ct 2 by (auto simp: clause_true_def)
    next
      case 3
      then have "add_clause s c = snd (add_watched_clause s d)" using False Some by (auto simp: add_clause_def)
      then show ?thesis using append_clause_ok [OF assms(1) 3 d(1) lt] ct by simp
    qed
  qed
qed

subsection \<open>The interface of a formula builder\<close>

text \<open>What a client that builds formulas relies on: a fresh variable is the next number and leaves
  the formula alone, a clause over known variables is conjoined, and the formula only speaks of
  known variables.\<close>

locale cnf_builder =
  fixes fresh :: "'s \<Rightarrow> nat \<times> 's" and add :: "'s \<Rightarrow> Lit list \<Rightarrow> 's"
    and vars :: "'s \<Rightarrow> nat" and sat :: "(nat \<Rightarrow> bool) \<Rightarrow> 's \<Rightarrow> bool" and ok :: "'s \<Rightarrow> bool"
  assumes fresh_law: "ok s \<Longrightarrow> fst (fresh s) = vars s \<and> ok (snd (fresh s)) \<and> vars (snd (fresh s)) = Suc (vars s) \<and>
      (sat \<nu> (snd (fresh s)) \<longleftrightarrow> sat \<nu> s)"
    and add_law: "ok s \<Longrightarrow> \<forall>l \<in> set c. l < 2 * vars s \<Longrightarrow> ok (add s c) \<and> vars (add s c) = vars s \<and>
      (sat \<nu> (add s c) \<longleftrightarrow> sat \<nu> s \<and> clause_true \<nu> c)"
    and local_law: "ok s \<Longrightarrow> \<forall>v < vars s. \<nu> v = \<mu> v \<Longrightarrow> sat \<nu> s \<Longrightarrow> sat \<mu> s"
begin

lemma adds_law:
  "ok s \<Longrightarrow> \<forall>c \<in> set cs. \<forall>l \<in> set c. l < 2 * vars s \<Longrightarrow>
    ok (foldl add s cs) \<and> vars (foldl add s cs) = vars s \<and>
    (sat \<nu> (foldl add s cs) \<longleftrightarrow> sat \<nu> s \<and> (\<forall>c \<in> set cs. clause_true \<nu> c))"
proof (induction cs arbitrary: s)
  case (Cons c cs)
  then have "ok (add s c) \<and> vars (add s c) = vars s" using add_law by simp
  then show ?case using Cons.IH [of "add s c"] Cons.prems add_law [of s c] by auto
qed simp

text \<open>A gate: a fresh variable whose value the clauses define from the old ones.\<close>

lemma gate_law:
  assumes s: "ok s" and cs: "\<forall>c \<in> set cs. \<forall>l \<in> set c. l < 2 * Suc (vars s)"
    and def: "\<And>\<nu>. (\<forall>c \<in> set cs. clause_true \<nu> c) \<longleftrightarrow> \<nu> (vars s) = f \<nu>"
    and f: "\<And>\<nu> \<mu>. \<forall>v < vars s. \<nu> v = \<mu> v \<Longrightarrow> f \<nu> = f \<mu>"
  defines "t \<equiv> foldl add (snd (fresh s)) cs"
  shows "ok t" "vars t = Suc (vars s)" "sat \<nu> t \<longleftrightarrow> sat \<nu> s \<and> \<nu> (vars s) = f \<nu>"
    "sat \<nu> s \<Longrightarrow> sat (\<nu>(vars s := f \<nu>)) t"
proof -
  have fr: "ok (snd (fresh s))" "vars (snd (fresh s)) = Suc (vars s)" using fresh_law [OF s] by auto
  have a: "ok t \<and> vars t = Suc (vars s)" and m: "\<And>\<nu>. sat \<nu> t \<longleftrightarrow> sat \<nu> s \<and> \<nu> (vars s) = f \<nu>"
    using adds_law [OF fr(1), of cs] cs def fresh_law [OF s] fr(2) by (auto simp: t_def)
  show "ok t" "vars t = Suc (vars s)" using a by auto
  show "sat \<nu> t \<longleftrightarrow> sat \<nu> s \<and> \<nu> (vars s) = f \<nu>" by (rule m)
  assume "sat \<nu> s"
  then have "sat (\<nu>(vars s := f \<nu>)) s" using local_law [OF s, of \<nu> "\<nu>(vars s := f \<nu>)"] by simp
  moreover have "f (\<nu>(vars s := f \<nu>)) = f \<nu>" using f by simp
  ultimately show "sat (\<nu>(vars s := f \<nu>)) t" using m by simp
qed

end

lemma models_local:
  assumes "root_inv s" "\<forall>v < num_vars s. \<nu> v = \<mu> v" "models \<nu> s"
  shows "models \<mu> s"
proof -
  note r = assms(1) [unfolded root_inv_def]
  have l: "lit_true \<nu> l = lit_true \<mu> l" if "l < 2 * num_vars s" for l
    using assms(2) that by (simp add: lit_true_def lit_var_lt)
  have "\<forall>c \<in> set (sv_clauses s). \<forall>l \<in> set c. l < 2 * num_vars s" "\<forall>l \<in> units s. l < 2 * num_vars s"
    using r by (auto simp: solver_inv_def clauses_ok_def units_def trail_ok_def)
  then show ?thesis using assms(3) l by (fastforce simp: models_def holds_def clause_true_def)
qed

interpretation cnf: cnf_builder new_var add_clause num_vars models root_inv
proof unfold_locales
  fix s c \<nu> \<mu>
  show "root_inv s \<Longrightarrow> fst (new_var s) = num_vars s \<and> root_inv (snd (new_var s)) \<and>
      num_vars (snd (new_var s)) = Suc (num_vars s) \<and> (models \<nu> (snd (new_var s)) \<longleftrightarrow> models \<nu> s)"
    using new_var_ok by blast
  show "root_inv s \<Longrightarrow> \<forall>l \<in> set c. l < 2 * num_vars s \<Longrightarrow> root_inv (add_clause s c) \<and>
      num_vars (add_clause s c) = num_vars s \<and> (models \<nu> (add_clause s c) \<longleftrightarrow> models \<nu> s \<and> clause_true \<nu> c)"
    by (rule add_clause_ok)
  show "root_inv s \<Longrightarrow> \<forall>v < num_vars s. \<nu> v = \<mu> v \<Longrightarrow> models \<nu> s \<Longrightarrow> models \<mu> s"
    by (rule models_local)
qed

subsection \<open>The solver decides the clauses it was given\<close>

text \<open>The states a client can build, with the clauses it added.\<close>

inductive built :: "Solver \<Rightarrow> Lit list list \<Rightarrow> bool" where
  built_new: "built solver_new []"
| built_var: "built s cs \<Longrightarrow> built (snd (new_var s)) cs"
| built_clause: "built s cs \<Longrightarrow> \<forall>l \<in> set c. l < 2 * num_vars s \<Longrightarrow> built (add_clause s c) (cs @ [c])"

lemma built_models: "built s cs \<Longrightarrow> root_inv s \<and> (\<forall>\<nu>. models \<nu> s \<longleftrightarrow> (\<forall>c \<in> set cs. clause_true \<nu> c))"
proof (induction rule: built.induct)
  case built_new
  then show ?case by (simp add: root_inv_new models_new)
next
  case (built_var s cs)
  then show ?case using cnf.fresh_law by blast
next
  case (built_clause s cs c)
  then show ?case using cnf.add_law [of s c] by auto
qed

text \<open>C3: a solver built from \<open>new_var\<close> and \<open>add_clause\<close> calls is decided by \<open>solve\<close>: the
  search returns without panicking, a model it reports gives every variable a value and satisfies
  every clause that was added, and it reports unsatisfiability only when no assignment satisfies
  them all.\<close>

theorem solve_decides:
  assumes "built s cs"
  shows "\<exists>r t. solve s = Some (r, t) \<and>
    (case r of Sat m \<Rightarrow> length m = num_vars s \<and> (\<forall>c \<in> set cs. clause_true (\<lambda>v. m ! v) c)
     | Unsat \<Rightarrow> \<forall>\<nu>. \<exists>c \<in> set cs. \<not> clause_true \<nu> c
     | Unknown \<Rightarrow> False)"
  using solve_ok [of s None] built_models [OF assms] by (auto simp: solve_def split: SatResult.splits)

text \<open>Two variables and the clauses of their equivalence.\<close>

definition two_vars :: Solver where
  "two_vars = add_clause (add_clause (snd (new_var (snd (new_var solver_new)))) [0, 3]) [1, 2]"

lemma num_vars_new: "num_vars solver_new = 0"
  by (simp add: solver_new_def)

lemma built_two_vars: "built two_vars [[0, 3], [1, 2]]"
proof -
  let ?a = "snd (new_var solver_new)" let ?b = "snd (new_var ?a)"
  have b: "built ?b []" by (intro built.intros)
  have n: "num_vars ?b = 2"
    using new_var_ok(3) [OF root_inv_new] new_var_ok(3) [of ?a] new_var_ok(2) [OF root_inv_new] num_vars_new by simp
  have "num_vars (add_clause ?b [0, 3]) = 2" using add_clause_ok [of ?b "[0, 3]"] built_models [OF b] n by simp
  then have "built (add_clause (add_clause ?b [0, 3]) [1, 2]) (([] @ [[0, 3]]) @ [[1, 2]])"
    using b n by (intro built.intros) auto
  then show ?thesis by (simp add: two_vars_def)
qed

theorem solve_decides_witness:
  "\<exists>r t. solve two_vars = Some (r, t) \<and>
    (case r of Sat m \<Rightarrow> length m = num_vars two_vars \<and> (\<forall>c \<in> set [[0, 3], [1, 2]]. clause_true (\<lambda>v. m ! v) c)
     | Unsat \<Rightarrow> \<forall>\<nu>. \<exists>c \<in> set [[0, 3], [1, 2]]. \<not> clause_true \<nu> c
     | Unknown \<Rightarrow> False)"
  by (rule solve_decides [OF built_two_vars])

text \<open>C27: with a budget of conflicts the search still returns; its verdicts are right, and it gives
  up only when a budget was set.\<close>

theorem solve_budget_sound:
  assumes "built s cs"
  shows "\<exists>r t. solve_with_budget s budget = Some (r, t) \<and>
    (case r of Sat m \<Rightarrow> length m = num_vars s \<and> (\<forall>c \<in> set cs. clause_true (\<lambda>v. m ! v) c)
     | Unsat \<Rightarrow> \<forall>\<nu>. \<exists>c \<in> set cs. \<not> clause_true \<nu> c
     | Unknown \<Rightarrow> budget \<noteq> None)"
  using solve_ok [of s budget] built_models [OF assms] by (auto split: SatResult.splits)

theorem solve_budget_sound_witness:
  "\<exists>r t. solve_with_budget two_vars (Some 1) = Some (r, t) \<and>
    (case r of Sat m \<Rightarrow> length m = num_vars two_vars \<and> (\<forall>c \<in> set [[0, 3], [1, 2]]. clause_true (\<lambda>v. m ! v) c)
     | Unsat \<Rightarrow> \<forall>\<nu>. \<exists>c \<in> set [[0, 3], [1, 2]]. \<not> clause_true \<nu> c
     | Unknown \<Rightarrow> Some (1 :: nat) \<noteq> None)"
  by (rule solve_budget_sound [OF built_two_vars])

subsection \<open>The steps of the search\<close>

text \<open>C8: propagation returns, keeps the meaning of the formula and only extends the trail. Without
  a conflict it is complete: every clause has a true literal or two unassigned ones, so nothing is
  left to infer; a conflict is a clause all of whose literals are false.\<close>

theorem propagate_complete:
  assumes "search_inv s"
  shows "\<exists>r t ys. propagate s = Some (r, t) \<and> (\<forall>\<nu>. holds \<nu> t = holds \<nu> s) \<and> sv_trail t = sv_trail s @ ys \<and>
    (case r of
       None \<Rightarrow> \<forall>c \<in> set (sv_clauses t). (\<exists>l \<in> set c. value_lit t l = Some True) \<or>
         (\<exists>l \<in> set c. \<exists>m \<in> set c. l \<noteq> m \<and> value_lit t l = None \<and> value_lit t m = None)
     | Some c \<Rightarrow> c < length (sv_clauses t) \<and> (\<forall>l \<in> set (sv_clauses t ! c). value_lit t l = Some False))"
proof -
  obtain r t where t: "propagate s = Some (r, t)" "frame s t" "solver_inv t"
      "case r of None \<Rightarrow> prop_to (length (sv_trail t)) t | Some c \<Rightarrow> conflict_clause t c \<and> prop_to (level_start t) t"
    using propagate_inv [of s] assms by (auto simp: search_inv_def)
  have lt: "l < 2 * num_vars t" "2 \<le> length c" "distinct (map lit_var c)" if "c \<in> set (sv_clauses t)" "l \<in> set c" for c l
    using t(3) that by (auto simp: solver_inv_def clauses_ok_def)
  have f: "value_lit t l = Some False" if "c < length (sv_clauses t)" "l \<in> set (sv_clauses t ! c)" "conflict_clause t c" for c l
    using value_lit_iff(2) [OF t(3) lt(1) [OF nth_mem [OF that(1)] that(2)]] that by (simp add: conflict_clause_def)
  have u: "(\<exists>l \<in> set c. value_lit t l = Some True) \<or>
      (\<exists>l \<in> set c. \<exists>m \<in> set c. l \<noteq> m \<and> value_lit t l = None \<and> value_lit t m = None)"
    if c: "c \<in> set (sv_clauses t)" and p: "prop_to (length (sv_trail t)) t" for c
  proof -
    obtain k where k: "k < length (sv_clauses t)" "sv_clauses t ! k = c" using c by (auto simp: in_set_conv_nth)
    have "c \<noteq> []" using t(3) c by (auto simp: solver_inv_def clauses_ok_def)
    then have "hd c \<in> set c" by simp
    note lt' = lt(2,3) [OF c this]
    have m: "c ! 0 \<in> set c" "c ! 1 \<in> set c" "c ! 0 \<noteq> c ! 1"
      using lt' by (cases c rule: remdups_adj.cases; auto)+
    note v = value_lit_iff [OF t(3) lt(1) [OF c m(1)]] value_lit_iff [OF t(3) lt(1) [OF c m(2)]]
    have "watch_done t (length (sv_trail t)) k 0 1" "watch_done t (length (sv_trail t)) k 1 0"
      using p k(1) by (auto simp: prop_to_def)
    then have w: "value_lit t (c ! 0) = Some False \<Longrightarrow> value_lit t (c ! 1) = Some True"
        "value_lit t (c ! 1) = Some False \<Longrightarrow> value_lit t (c ! 0) = Some True"
      using k(2) v by (auto simp: watch_done_def)
    have cs: "x = None \<or> x = Some True \<or> x = Some False" for x :: "bool option" by (cases x) auto
    show ?thesis using w cs [of "value_lit t (c ! 0)"] cs [of "value_lit t (c ! 1)"] m by metis
  qed
  obtain ys where "sv_trail t = sv_trail s @ ys" using t(2) by (auto simp: frame_def)
  moreover have "case r of
       None \<Rightarrow> \<forall>c \<in> set (sv_clauses t). (\<exists>l \<in> set c. value_lit t l = Some True) \<or>
         (\<exists>l \<in> set c. \<exists>m \<in> set c. l \<noteq> m \<and> value_lit t l = None \<and> value_lit t m = None)
     | Some c \<Rightarrow> c < length (sv_clauses t) \<and> (\<forall>l \<in> set (sv_clauses t ! c). value_lit t l = Some False)"
    using t(4) u f by (cases r) (auto simp: conflict_clause_def)
  ultimately show ?thesis using t(1) frame_holds [OF t(2)] by blast
qed

lemma search_two_vars: "search_inv two_vars"
proof (rule root_search)
  note b = built_models [OF built_two_vars]
  show "root_inv two_vars" using b by blast
  have "models (\<lambda>_. True) two_vars" using b by (simp add: clause_true_def lit_true_def lit_is_negated_def)
  then show "\<not> sv_unsat two_vars" by (simp add: models_def)
qed

theorem propagate_complete_witness:
  "\<exists>r t ys. propagate two_vars = Some (r, t) \<and> (\<forall>\<nu>. holds \<nu> t = holds \<nu> two_vars) \<and> sv_trail t = sv_trail two_vars @ ys \<and>
    (case r of
       None \<Rightarrow> \<forall>c \<in> set (sv_clauses t). (\<exists>l \<in> set c. value_lit t l = Some True) \<or>
         (\<exists>l \<in> set c. \<exists>m \<in> set c. l \<noteq> m \<and> value_lit t l = None \<and> value_lit t m = None)
     | Some c \<Rightarrow> c < length (sv_clauses t) \<and> (\<forall>l \<in> set (sv_clauses t ! c). value_lit t l = Some False))"
  by (rule propagate_complete [OF search_two_vars])

text \<open>C9: conflict analysis returns without panicking. The clause it learns follows from the formula,
  is false under the trail, has exactly one literal of the current decision level, in front; the
  level to jump back to is the highest of the others, whose literal comes second.\<close>

theorem analyze_first_uip:
  assumes "conflicting s confl"
  shows "\<exists>learnt bt t. analyze s confl = Some ((learnt, bt), t) \<and> learnt \<noteq> [] \<and>
    (\<forall>\<nu>. holds \<nu> s \<longrightarrow> clause_true \<nu> learnt) \<and>
    (\<forall>l \<in> set learnt. lit_negate l \<in> set (sv_trail s)) \<and>
    lit_level s (learnt ! 0) = decision_level s \<and>
    (\<forall>l \<in> set (tl learnt). 0 < lit_level s l \<and> lit_level s l \<le> bt) \<and> bt < decision_level s \<and>
    (if length learnt = 1 then bt = 0 else lit_level s (learnt ! 1) = bt)"
  using analyze_ok [of s confl] assms unfolding conflicting_def queued_def learnt_ok_def by metis

text \<open>A conflict: under the decision that the second variable is false, the two clauses force the
  first variable both ways.\<close>

definition two_ors :: Solver where
  "two_ors = add_clause (add_clause (snd (new_var (snd (new_var solver_new)))) [2, 0]) [2, 1]"

definition clashing :: Solver where
  "clashing = (case propagate (decide two_ors 3) of Some (_, s) \<Rightarrow> s | None \<Rightarrow> two_ors)"

lemmas solver_eval = new_var_def solver_new_def queue_def sift_up.simps ahead_def swap_slots_def add_clause_def
  add_watched_clause_def lit_negate_eq Let_def decide_def enqueue_def value_lit_def lit_var_def lit_is_negated_def
  propagate_lit_def visit_watch_def swap_lits_def push_watch_def find_watch_def nth_Cons'

lemma clashing_eq:
  "clashing = \<lparr>sv_clauses = [[0, 2], [1, 2]], sv_watches = [[0], [1], [0, 1], []],
     sv_assign = [Some True, Some False], sv_level = [1, 1], sv_reason = [Some 0, None], sv_phase = [False, False],
     sv_activity = [0, 0], sv_var_inc = f64_1, sv_trail = [3, 0], sv_qhead = 2, sv_trail_lim = [0],
     sv_unsat = False, sv_order = [1, 0], sv_order_slot = [Some 1, Some 0], sv_seen = [False, False]\<rparr>"
  unfolding clashing_def by (subst propagate.simps) (simp add: two_ors_def solver_eval)

lemma nth_two: "i < Suc (Suc 0) \<longleftrightarrow> i = 0 \<or> i = Suc 0"
  by (simp add: less_Suc_eq)

lemma conflicting_clashing: "conflicting clashing 1"
proof -
  have sz: "sizes_ok clashing" "trail_ok clashing" "levels_ok clashing" "clauses_ok clashing"
    by (auto simp: clashing_eq sizes_ok_def trail_ok_def levels_ok_def clauses_ok_def lit_level_def lit_var_def lit_new_def nth_two nth_Cons')
  moreover have "reasons_ok clashing"
    by (auto simp: clashing_eq reasons_ok_def lit_level_def lit_var_def lit_negate_eq nth_two nth_Cons')
  moreover have "watch_ok (sv_clauses clashing) (sv_watches clashing)"
    by (auto simp: clashing_eq watch_ok_def nth_two nth_Cons' less_Suc_eq)
  moreover have "slots_ok clashing" "heap_ok clashing" "activities_ok clashing"
    by (auto simp: clashing_eq slots_ok_def heap_from_def behind_def ahead_def activities_ok_def f64_ok_def nth_two nth_Cons')
  then have "queued clashing" by (auto simp: queued_def heap_inv_def clashing_eq nth_two)
  moreover have "prop_to (level_start clashing) clashing" by (simp add: clashing_eq level_start_def prop_to_def watch_done_def)
  moreover have "conflict_clause clashing 1"
    by (auto simp: clashing_eq conflict_clause_def lit_level_def lit_var_def lit_negate_eq)
  ultimately show ?thesis by (auto simp: conflicting_def solver_inv_def clashing_eq nth_two)
qed

theorem analyze_first_uip_witness:
  "\<exists>learnt bt t. analyze clashing 1 = Some ((learnt, bt), t) \<and> learnt \<noteq> [] \<and>
    (\<forall>\<nu>. holds \<nu> clashing \<longrightarrow> clause_true \<nu> learnt) \<and>
    (\<forall>l \<in> set learnt. lit_negate l \<in> set (sv_trail clashing)) \<and>
    lit_level clashing (learnt ! 0) = decision_level clashing \<and>
    (\<forall>l \<in> set (tl learnt). 0 < lit_level clashing l \<and> lit_level clashing l \<le> bt) \<and> bt < decision_level clashing \<and>
    (if length learnt = 1 then bt = 0 else lit_level clashing (learnt ! 1) = bt)"
  by (rule analyze_first_uip [OF conflicting_clashing])

text \<open>C10: the handling of a conflict returns, keeps the invariants of the search and the meaning of
  the formula, and makes progress: the clause database gains a clause with a new set of literals,
  or level zero gains a literal.\<close>

theorem resolve_conflict_progress:
  assumes "conflicting s confl"
  shows "\<exists>t. resolve_conflict s confl = Some t \<and> search_inv t \<and> (\<forall>\<nu>. holds \<nu> t = holds \<nu> s) \<and>
    (clause_sets s \<subset> clause_sets t \<or> clause_sets s = clause_sets t \<and> root_len s < root_len t)"
  using resolve_conflict_ok [OF assms] unfolding progress_def by blast

theorem resolve_conflict_progress_witness:
  "\<exists>t. resolve_conflict clashing 1 = Some t \<and> search_inv t \<and> (\<forall>\<nu>. holds \<nu> t = holds \<nu> clashing) \<and>
    (clause_sets clashing \<subset> clause_sets t \<or> clause_sets clashing = clause_sets t \<and> root_len clashing < root_len t)"
  by (rule resolve_conflict_progress [OF conflicting_clashing])

text \<open>The branching heuristic picks an unassigned variable that no other unassigned one is
  ahead of in the order of activity and index, with its saved polarity, and keeps every other
  unassigned variable queued; it picks nothing only when all variables are assigned.\<close>

theorem pick_branch_most_active:
  assumes "queued s"
  shows "case pick_branch s of
      (None, t) \<Rightarrow> \<forall>v < num_vars s. sv_assign s ! v \<noteq> None
    | (Some l, t) \<Rightarrow> lit_var l < num_vars s \<and> sv_assign s ! lit_var l = None \<and>
        lit_is_negated l = (\<not> sv_phase s ! lit_var l) \<and>
        (\<forall>v < num_vars s. sv_assign s ! v = None \<longrightarrow>
          (sv_activity s ! v < sv_activity s ! lit_var l \<or>
           sv_activity s ! v = sv_activity s ! lit_var l \<and> v \<le> lit_var l)) \<and>
        (\<forall>v < num_vars s. sv_assign s ! v = None \<and> v \<noteq> lit_var l \<longrightarrow> v \<in> set (sv_order t))"
proof -
  obtain r t where p: "pick_branch s = (r, t)" by fastforce
  have q: "slots_ok s" "length (sv_order_slot s) = num_vars s"
      "\<forall>v < num_vars s. sv_assign s ! v = None \<longrightarrow> v \<in> set (sv_order s)" "heap_ok s"
    using assms by (auto simp: queued_def heap_inv_def)
  show ?thesis using pick_branch_props [OF q(1-3) p] q(4) p by (cases r) (auto simp: ahead_def not_less)
qed

theorem pick_branch_most_active_witness:
  "case pick_branch two_vars of
      (None, t) \<Rightarrow> \<forall>v < num_vars two_vars. sv_assign two_vars ! v \<noteq> None
    | (Some l, t) \<Rightarrow> lit_var l < num_vars two_vars \<and> sv_assign two_vars ! lit_var l = None \<and>
        lit_is_negated l = (\<not> sv_phase two_vars ! lit_var l) \<and>
        (\<forall>v < num_vars two_vars. sv_assign two_vars ! v = None \<longrightarrow>
          (sv_activity two_vars ! v < sv_activity two_vars ! lit_var l \<or>
           sv_activity two_vars ! v = sv_activity two_vars ! lit_var l \<and> v \<le> lit_var l)) \<and>
        (\<forall>v < num_vars two_vars. sv_assign two_vars ! v = None \<and> v \<noteq> lit_var l \<longrightarrow> v \<in> set (sv_order t))"
  using pick_branch_most_active [of two_vars] search_two_vars by (simp add: search_inv_def)

text \<open>C28: raising an activity, with the rescaling of all activities past the limit and the rounding
  of doubles, keeps the priority queue: the slots invert the order, each variable is not ahead of
  its parent, and the queued variables are the same.\<close>

theorem bump_keeps_heap:
  assumes "heap_inv s" "v < num_vars s"
  shows "heap_inv (bump s v) \<and> set (sv_order (bump s v)) = set (sv_order s)"
  using heap_inv_bump [OF assms] by blast

theorem bump_keeps_heap_witness:
  "heap_inv (bump two_vars 1) \<and> set (sv_order (bump two_vars 1)) = set (sv_order two_vars)"
proof -
  have "heap_inv two_vars" using search_two_vars by (simp add: search_inv_def queued_def)
  moreover have "1 < num_vars two_vars" by (simp add: two_vars_def solver_eval)
  ultimately show ?thesis by (rule bump_keeps_heap)
qed

text \<open>The restart sequence is the Luby sequence: its two loops end without underflow and compute
  the recurrence.\<close>

theorem luby_is_luby: "luby x = Some (luby_spec (x + 1))"
  by (rule luby_eq)

end
