(* ===== verification/SymKind.thy ===== *)
theory SymKind
  imports Prelude
begin

text \<open>
  The operators of the semantic language (\<open>libs/symbolic/src/lang/mod.rs\<close>): one constructor per
  variant of \<open>SymKind\<close> in the source's order, under the source's names, \<open>NotK\<close> and \<open>IfK\<close> for
  the two that clash with the logic. Only the properties of the datatype itself are generated.
\<close>

datatype (plugins only: size) SymKind =
  Symbol | Constant | Add | Sub | Mul | Div | UDiv | SRem | URem | Neg | Eq | Ne | Lt | Le | Gt
  | Ge | ULt | ULe | UGt | UGe | ShiftLeft | ShiftRightArithmetic | ShiftRightLogic | Or | And
  | Xor | Xnor | NotK | Concat | Bitcast | IfK | Theta | Loop | Port | Switch | Clamp
  | LoadMemory | StoreMemory | ZExt | SExt | Extract | Log2Ceil | Sqrt | Fma | FAdd | FSub | FMul
  | FDiv | SIToFP | UIToFP | FPToSI | FPToUI | Map | Zip | IterConcat | Split | Reduce | Arg
  | LoadReserved | StoreConditional | AtomicRmw | Fence | StateAssign | StateStore
  | StateStoreConditional | StateFence | StateTrap | StateBlock | StateIf | StateTry
  | StateHandler | StateRead | FPEffect | Iota | FMin | FMax | AsFloat | FCvt | FAddRound
  | FSubRound | FMulRound | FDivRound | FmaRound | SqrtRound | FCvtRound | SIToFPRound
  | UIToFPRound | FPToSIRound | FPToUIRound | FPFlags | Undef | Poison | Freeze

end
