(* ===== verification/SymLang.thy ===== *)
theory SymLang
  imports SymKind APIntArith
begin

text \<open>
  The operator table of the semantic language (\<open>libs/symbolic/src/lang/ops.rs\<close>, with the tables
  and the atomic operations of \<open>lang/mod.rs\<close>): every scalar operator with its name, arity,
  commutativity, width rule, SMT-LIB spelling and evaluation rule, and \<open>eval_int\<close>, the
  interpreter of an operator on \<open>APInt\<close> operands. \<open>None\<close> is a panic. The properties say that
  what the table declares of an operator is true of its evaluation.
\<close>

subsection \<open>The table\<close>

datatype WidthRule = First | Bool | Sum

datatype SmtTemplate = Binary string | Compare string | ShiftT string | Unary string | ConcatT

datatype EvalRule =
  EAdd | ESub | EMul | ESDiv | EUDiv | ESRem | EURem | ENeg | EEq | ENe | ESLt | ESLe | ESGt | ESGe
  | EULt | EULe | EUGt | EUGe | EShl | EAShr | ELShr | EOr | EAnd | EXor | EXnor | ENot | EConcat

record ScalarOp =
  op_kind :: SymKind
  op_name :: string
  op_arity :: nat
  op_commutative :: bool
  op_width :: WidthRule
  op_smt :: SmtTemplate
  op_rust :: string
  op_eval :: EvalRule

definition op :: "SymKind \<Rightarrow> string \<Rightarrow> nat \<Rightarrow> bool \<Rightarrow> WidthRule \<Rightarrow> SmtTemplate \<Rightarrow> string \<Rightarrow> EvalRule \<Rightarrow> ScalarOp" where
  "op kind name arity commutative width smt rust eval =
     \<lparr>op_kind = kind, op_name = name, op_arity = arity, op_commutative = commutative, op_width = width,
      op_smt = smt, op_rust = rust, op_eval = eval\<rparr>"

definition SCALAR_OPS :: "ScalarOp list" where
  "SCALAR_OPS =
    [op Add ''add'' 2 True First (Binary ''bvadd'') ''Add'' EAdd,
     op Sub ''sub'' 2 False First (Binary ''bvsub'') ''Sub'' ESub,
     op Mul ''mul'' 2 True First (Binary ''bvmul'') ''Mul'' EMul,
     op Div ''div'' 2 False First (Binary ''bvsdiv'') ''Div'' ESDiv,
     op UDiv ''udiv'' 2 False First (Binary ''bvudiv'') ''UDiv'' EUDiv,
     op SRem ''srem'' 2 False First (Binary ''bvsrem'') ''SRem'' ESRem,
     op URem ''urem'' 2 False First (Binary ''bvurem'') ''URem'' EURem,
     op Neg ''neg'' 1 False First (Unary ''bvneg'') ''Neg'' ENeg,
     op Eq ''eq'' 2 True Bool (Compare ''='') ''Eq'' EEq,
     op Ne ''ne'' 2 True Bool (Compare ''distinct'') ''Ne'' ENe,
     op Lt ''lt'' 2 False Bool (Compare ''bvslt'') ''Lt'' ESLt,
     op Le ''le'' 2 False Bool (Compare ''bvsle'') ''Le'' ESLe,
     op Gt ''gt'' 2 False Bool (Compare ''bvsgt'') ''Gt'' ESGt,
     op Ge ''ge'' 2 False Bool (Compare ''bvsge'') ''Ge'' ESGe,
     op ULt ''ult'' 2 False Bool (Compare ''bvult'') ''ULt'' EULt,
     op ULe ''ule'' 2 False Bool (Compare ''bvule'') ''ULe'' EULe,
     op UGt ''ugt'' 2 False Bool (Compare ''bvugt'') ''UGt'' EUGt,
     op UGe ''uge'' 2 False Bool (Compare ''bvuge'') ''UGe'' EUGe,
     op ShiftLeft ''shl'' 2 False First (ShiftT ''bvshl'') ''ShiftLeft'' EShl,
     op ShiftRightArithmetic ''ashr'' 2 False First (ShiftT ''bvashr'') ''ShiftRightArithmetic'' EAShr,
     op ShiftRightLogic ''lshr'' 2 False First (ShiftT ''bvlshr'') ''ShiftRightLogic'' ELShr,
     op Or ''or'' 2 True First (Binary ''bvor'') ''Or'' EOr,
     op And ''and'' 2 True First (Binary ''bvand'') ''And'' EAnd,
     op Xor ''xor'' 2 True First (Binary ''bvxor'') ''Xor'' EXor,
     op Xnor ''xnor'' 2 True First (Binary ''bvxnor'') ''Xnor'' EXnor,
     op NotK ''not'' 1 False First (Unary ''bvnot'') ''Not'' ENot,
     op Concat ''concat'' 2 False Sum ConcatT ''Concat'' EConcat]"

definition scalar_op :: "SymKind \<Rightarrow> ScalarOp option" where
  "scalar_op kind = find (\<lambda>p. op_kind p = kind) SCALAR_OPS"

definition scalar_op_named :: "string \<Rightarrow> ScalarOp option" where
  "scalar_op_named name = find (\<lambda>p. op_name p = name) SCALAR_OPS"


subsection \<open>Evaluation\<close>

definition widen :: "APInt \<Rightarrow> nat \<Rightarrow> APInt option" where
  "widen value width =
     (if width \<le> ap_width value then Some value
      else if ap_signed value then ap_sign_extend value width
      else ap_zero_extend value width)"

definition coerce :: "APInt \<Rightarrow> APInt \<Rightarrow> (APInt \<times> APInt) option" where
  "coerce lhs rhs = do {
     let width = max (ap_width lhs) (ap_width rhs);
     lhs \<leftarrow> widen lhs width;
     rhs \<leftarrow> widen rhs width;
     Some (lhs, rhs)
   }"

definition shift_amount :: "APInt \<Rightarrow> nat \<Rightarrow> nat" where
  "shift_amount value width =
     (if 64 < ap_width value - ap_count_leading_zeros value then width
      else min (unat (ap_to_u64 value)) width)"

definition boolean :: "bool \<Rightarrow> APInt option" where
  "boolean value = ap_new 1 (if value then 1 else 0)"

text \<open>The two matches of \<open>eval_int\<close> and the function itself. \<open>unreachable!\<close> is a panic.\<close>

definition eval_unary :: "EvalRule \<Rightarrow> APInt \<Rightarrow> APInt option" where
  "eval_unary rule value = (case rule of ENeg \<Rightarrow> ap_neg value | ENot \<Rightarrow> ap_not value | _ \<Rightarrow> None)"

definition eval_binary :: "EvalRule \<Rightarrow> APInt \<Rightarrow> APInt \<Rightarrow> APInt option" where
  "eval_binary rule a b = do {
     (lhs, rhs) \<leftarrow> coerce a b;
     (case rule of
        EAdd \<Rightarrow> ap_add lhs rhs
      | ESub \<Rightarrow> ap_sub lhs rhs
      | EMul \<Rightarrow> ap_mul lhs rhs
      | ESDiv \<Rightarrow> ap_sdiv lhs rhs
      | EUDiv \<Rightarrow> ap_udiv lhs rhs
      | ESRem \<Rightarrow> ap_srem lhs rhs
      | EURem \<Rightarrow> ap_urem lhs rhs
      | EEq \<Rightarrow> boolean (ap_with_signed lhs False = ap_with_signed rhs False)
      | ENe \<Rightarrow> boolean (ap_with_signed lhs False \<noteq> ap_with_signed rhs False)
      | ESLt \<Rightarrow> Option.bind (ap_slt lhs rhs) boolean
      | ESLe \<Rightarrow> Option.bind (ap_sle lhs rhs) boolean
      | ESGt \<Rightarrow> Option.bind (ap_sgt lhs rhs) boolean
      | ESGe \<Rightarrow> Option.bind (ap_sge lhs rhs) boolean
      | EULt \<Rightarrow> Option.bind (ap_ult lhs rhs) boolean
      | EULe \<Rightarrow> Option.bind (ap_ule lhs rhs) boolean
      | EUGt \<Rightarrow> Option.bind (ap_ugt lhs rhs) boolean
      | EUGe \<Rightarrow> Option.bind (ap_uge lhs rhs) boolean
      | EShl \<Rightarrow> ap_shl lhs (shift_amount rhs (ap_width lhs))
      | EAShr \<Rightarrow> ap_ashr (ap_with_signed lhs True) (shift_amount rhs (ap_width lhs))
      | ELShr \<Rightarrow> ap_lshr lhs (shift_amount rhs (ap_width lhs))
      | EOr \<Rightarrow> ap_or lhs rhs
      | EAnd \<Rightarrow> ap_and lhs rhs
      | EXor \<Rightarrow> ap_xor lhs rhs
      | EXnor \<Rightarrow> Option.bind (ap_xor lhs rhs) ap_not
      | EConcat \<Rightarrow> do {
          let width = ap_width a + ap_width b;
          x \<leftarrow> ap_zero_extend a width;
          x \<leftarrow> ap_shl x (ap_width b);
          y \<leftarrow> ap_zero_extend b width;
          ap_or x y
        }
      | ENeg \<Rightarrow> None
      | ENot \<Rightarrow> None)
   }"

definition eval_int :: "ScalarOp \<Rightarrow> APInt list \<Rightarrow> APInt option" where
  "eval_int p operands =
     (if length operands \<noteq> op_arity p then None
      else if op_arity p = 1 then eval_unary (op_eval p) (operands ! 0)
      else if length operands < 2 then None
      else eval_binary (op_eval p) (operands ! 0) (operands ! 1))"

subsection \<open>The operators' declared algebra\<close>

definition kind_is_commutative :: "SymKind \<Rightarrow> bool" where
  "kind_is_commutative kind =
     (case scalar_op kind of
        Some p \<Rightarrow> op_commutative p
      | None \<Rightarrow> kind \<in> {Add, Mul, And, Or, Xor, FAdd, FMul})"

definition kind_offset_coefficient :: "SymKind \<Rightarrow> nat \<Rightarrow> int option" where
  "kind_offset_coefficient kind operand =
     (if kind = Add \<and> (operand = 0 \<or> operand = 1) \<or> kind = Sub \<and> operand = 0 then Some 1
      else if kind = Sub \<and> operand = 1 \<or> (kind = Neg \<or> kind = NotK) \<and> operand = 0 then Some (- 1)
      else None)"

definition kind_identity :: "SymKind \<Rightarrow> nat \<Rightarrow> u64 option" where
  "kind_identity kind operand =
     (if kind = Add \<and> (operand = 0 \<or> operand = 1) \<or> kind = Sub \<and> operand = 1 then Some 0 else None)"

definition kind_bias :: "SymKind \<Rightarrow> u64" where
  "kind_bias kind = (if kind = NotK then - 1 else 0)"

definition kind_arity :: "SymKind \<Rightarrow> nat" where
  "kind_arity kind =
     (case scalar_op kind of
        Some p \<Rightarrow> op_arity p
      | None \<Rightarrow>
          if kind \<in> {Symbol, Constant, Arg} then 0
          else if kind \<in> {NotK, Neg, Bitcast, Log2Ceil, Sqrt, AsFloat, Port, Freeze, FPFlags} then 1
          else if kind = IterConcat then 1
          else if kind \<in> {IfK, Clamp, Extract, LoadMemory, LoadReserved, Fence, Fma, SIToFP, UIToFP, FCvt,
            FAddRound, FSubRound, FMulRound, FDivRound, FPToSIRound, FPToUIRound} then 3
          else if kind \<in> {FmaRound, FCvtRound, SIToFPRound, UIToFPRound} then 4
          else if kind \<in> {StoreMemory, StoreConditional, Loop} then 4
          else if kind = AtomicRmw then 5
          else 2)"

definition kind_accepts_arity :: "SymKind \<Rightarrow> nat \<Rightarrow> bool" where
  "kind_accepts_arity kind n =
     (if kind = Split then n = 2 \<or> n = 3
      else if kind = Zip \<or> kind = Switch then 2 \<le> n
      else if kind = IterConcat then 1 \<le> n
      else if kind \<in> {StateAssign, StateStore, StateStoreConditional, StateFence, StateTrap, StateBlock,
        StateIf, StateTry, StateHandler, StateRead} then True
      else n = kind_arity kind)"

subsection \<open>Atomic operations, state fields and orderings\<close>

datatype AtomicRmwOp = RmwAdd | RmwSwap | RmwXor | RmwAnd | RmwOr | RmwMin | RmwMax | RmwMinU | RmwMaxU

datatype StateResourceKind = MemoryR | FpEnvironmentR

datatype StateFieldKind = WholeF | FpRoundingF | FpFlagsF | FpTrapsF

record StateFieldSchema =
  sf_bit_width :: "nat option"
  sf_maximum :: "nat option"

definition field_schema :: "StateResourceKind \<Rightarrow> StateFieldKind \<Rightarrow> StateFieldSchema option" where
  "field_schema resource field =
     (case (resource, field) of
        (MemoryR, WholeF) \<Rightarrow> Some \<lparr>sf_bit_width = None, sf_maximum = None\<rparr>
      | (FpEnvironmentR, FpRoundingF) \<Rightarrow> Some \<lparr>sf_bit_width = Some 3, sf_maximum = Some 4\<rparr>
      | (FpEnvironmentR, FpFlagsF) \<Rightarrow> Some \<lparr>sf_bit_width = Some 5, sf_maximum = Some 31\<rparr>
      | (FpEnvironmentR, FpTrapsF) \<Rightarrow> Some \<lparr>sf_bit_width = Some 5, sf_maximum = Some 31\<rparr>
      | _ \<Rightarrow> None)"

definition resource_from_code :: "u64 \<Rightarrow> StateResourceKind option" where
  "resource_from_code code = (if code = 0 then Some MemoryR else if code = 1 then Some FpEnvironmentR else None)"

definition field_from_code :: "u64 \<Rightarrow> StateFieldKind option" where
  "field_from_code code =
     (if code = 0 then Some WholeF else if code = 1 then Some FpRoundingF
      else if code = 2 then Some FpFlagsF else if code = 3 then Some FpTrapsF else None)"

definition rmw_from_code :: "u64 \<Rightarrow> AtomicRmwOp option" where
  "rmw_from_code code =
     (if code = 0 then Some RmwAdd else if code = 1 then Some RmwSwap else if code = 2 then Some RmwXor
      else if code = 3 then Some RmwAnd else if code = 4 then Some RmwOr else if code = 5 then Some RmwMin
      else if code = 6 then Some RmwMax else if code = 7 then Some RmwMinU else if code = 8 then Some RmwMaxU
      else None)"

definition rmw_apply :: "AtomicRmwOp \<Rightarrow> APInt \<Rightarrow> APInt \<Rightarrow> APInt option" where
  "rmw_apply rmw old val =
     (case rmw of
        RmwAdd \<Rightarrow> ap_add old val
      | RmwSwap \<Rightarrow> Some val
      | RmwXor \<Rightarrow> ap_xor old val
      | RmwAnd \<Rightarrow> ap_and old val
      | RmwOr \<Rightarrow> ap_or old val
      | RmwMin \<Rightarrow> map_option (\<lambda>c. if c then old else val) (ap_slt (ap_with_signed old True) (ap_with_signed val True))
      | RmwMax \<Rightarrow> map_option (\<lambda>c. if c then old else val) (ap_sgt (ap_with_signed old True) (ap_with_signed val True))
      | RmwMinU \<Rightarrow> map_option (\<lambda>c. if c then old else val) (ap_ult (ap_with_signed old False) (ap_with_signed val False))
      | RmwMaxU \<Rightarrow> map_option (\<lambda>c. if c then old else val) (ap_ugt (ap_with_signed old False) (ap_with_signed val False)))"

datatype MemOrdering = Relaxed | Acquire | Release | AcqRel | SeqCst

definition ordering_from_code :: "u64 \<Rightarrow> MemOrdering" where
  "ordering_from_code code =
     (if code = 1 then Acquire else if code = 2 then Release else if code = 3 then AcqRel
      else if code = 4 then SeqCst else Relaxed)"

subsection \<open>What a rule computes\<close>

text \<open>The signed reading of a number at a width, and each rule as arithmetic on the unsigned numbers
  \<open>x\<close> and \<open>y\<close> of its operands at width \<open>w\<close>. \<open>None\<close> is a division by zero.\<close>

definition signed_at :: "nat \<Rightarrow> int \<Rightarrow> int" where
  "signed_at w x = (if 2 ^ (w - 1) \<le> x then x - 2 ^ w else x)"

definition rule_value :: "EvalRule \<Rightarrow> nat \<Rightarrow> int \<Rightarrow> int \<Rightarrow> int option" where
  "rule_value rule w x y =
     (case rule of
        EAdd \<Rightarrow> Some (x + y)
      | ESub \<Rightarrow> Some (x - y)
      | EMul \<Rightarrow> Some (x * y)
      | ESDiv \<Rightarrow> if y = 0 then None else Some (signed_at w x sdiv signed_at w y)
      | EUDiv \<Rightarrow> if y = 0 then None else Some (x div y)
      | ESRem \<Rightarrow> if y = 0 then None else Some (signed_at w x smod signed_at w y)
      | EURem \<Rightarrow> if y = 0 then None else Some (x mod y)
      | EEq \<Rightarrow> Some (of_bool (x = y))
      | ENe \<Rightarrow> Some (of_bool (x \<noteq> y))
      | ESLt \<Rightarrow> Some (of_bool (signed_at w x < signed_at w y))
      | ESLe \<Rightarrow> Some (of_bool (signed_at w x \<le> signed_at w y))
      | ESGt \<Rightarrow> Some (of_bool (signed_at w y < signed_at w x))
      | ESGe \<Rightarrow> Some (of_bool (signed_at w y \<le> signed_at w x))
      | EULt \<Rightarrow> Some (of_bool (x < y))
      | EULe \<Rightarrow> Some (of_bool (x \<le> y))
      | EUGt \<Rightarrow> Some (of_bool (y < x))
      | EUGe \<Rightarrow> Some (of_bool (y \<le> x))
      | EShl \<Rightarrow> Some (x * 2 ^ nat y)
      | EAShr \<Rightarrow> Some (signed_at w x div 2 ^ nat y)
      | ELShr \<Rightarrow> Some (x div 2 ^ nat y)
      | EOr \<Rightarrow> Some (x OR y)
      | EAnd \<Rightarrow> Some (x AND y)
      | EXor \<Rightarrow> Some (x XOR y)
      | EXnor \<Rightarrow> Some (NOT (x XOR y))
      | EConcat \<Rightarrow> Some (x * 2 ^ w + y)
      | ENeg \<Rightarrow> Some (- x)
      | ENot \<Rightarrow> Some (NOT x))"

definition is_test :: "EvalRule \<Rightarrow> bool" where
  "is_test rule = (rule \<in> {EEq, ENe, ESLt, ESLe, ESGt, ESGe, EULt, EULe, EUGt, EUGe})"

definition at_width :: "nat \<Rightarrow> APInt \<Rightarrow> APInt" where
  "at_width w a = ap_of_int w (ap_signed a) (ap_num a)"

lemma signed_at_sval: "ap_wf a \<Longrightarrow> signed_at (ap_width a) (int (ap_uval a)) = ap_sval a"
proof -
  assume wf: "ap_wf a"
  have "bit (ap_uval a) (ap_width a - 1) \<longleftrightarrow> 2 ^ (ap_width a - 1) \<le> ap_uval a"
    using top_bit_ge [OF ap_uval_lt [OF wf] ap_wf_pos [OF wf]] .
  also have "\<dots> \<longleftrightarrow> (2 :: int) ^ (ap_width a - 1) \<le> int (ap_uval a)" by (metis of_nat_le_iff of_nat_numeral of_nat_power)
  finally show ?thesis by (simp add: signed_at_def ap_sval_def)
qed

lemma at_width_self: "ap_wf a \<Longrightarrow> at_width (ap_width a) a = a"
proof -
  assume wf: "ap_wf a"
  have "ap_num a mod 2 ^ ap_width a = int (ap_uval a) mod 2 ^ ap_width a" using ap_num_mod [OF wf] by (metis mod_mod_trivial)
  then show ?thesis unfolding at_width_def by (metis ap_of_int_cong ap_of_int_self wf)
qed

lemma widen_eq:
  assumes "ap_wf a" "ap_width a \<le> w"
  shows "widen a w = Some (at_width w a)"
proof (cases "ap_width a = w")
  case True
  then show ?thesis using assms at_width_self by (auto simp: widen_def)
next
  case False
  then have "0 < w" using assms by simp
  then show ?thesis using False assms
    by (auto simp: widen_def at_width_def ap_sign_extend_eq ap_zero_extend_eq ap_of_eq_int ap_num_def)
qed

lemma at_width_wf: "ap_wf a \<Longrightarrow> ap_width a \<le> w \<Longrightarrow> ap_wf (at_width w a)" "ap_width (at_width w a) = w"
  using ap_wf_pos [of a] by (simp_all add: at_width_def ap_of_int_wf)

lemma coerce_eq:
  assumes "ap_wf a" "ap_wf b"
  shows "coerce a b = Some (at_width (max (ap_width a) (ap_width b)) a, at_width (max (ap_width a) (ap_width b)) b)"
  using assms by (simp add: coerce_def widen_eq Let_def)

lemma coerce_same: "ap_wf a \<Longrightarrow> ap_wf b \<Longrightarrow> ap_width a = ap_width b \<Longrightarrow> coerce a b = Some (a, b)"
  using coerce_eq [of a b] at_width_self [of a] at_width_self [of b] by simp

text \<open>The amount a shift uses is the operand's number, capped at the width.\<close>

lemma low_word: "unat (ap_to_u64 a) = ap_uval a mod 2 ^ 64"
proof -
  have "unat (ap_value a) < 2 ^ 64" using unsigned_less [of "ap_value a"] by simp
  then show ?thesis by (simp add: ap_to_u64_def ap_uval_def ap_limbs_def)
qed

lemma shift_amount_eq:
  assumes "ap_wf b" "ap_width b = w" "w < 2 ^ 64"
  shows "shift_amount b w = min (ap_uval b) w"
proof (cases "ap_uval b = 0")
  case True
  then have "ap_count_leading_zeros b = w" using assms ap_is_zero_eq [of b] by (simp add: ap_count_leading_zeros_def)
  then show ?thesis using True assms by (simp add: shift_amount_def low_word)
next
  case nz: False
  obtain t where t: "ap_count_leading_zeros b = ap_width b - 1 - t" "t < ap_width b" "bit (ap_uval b) t"
      "\<And>i. t < i \<Longrightarrow> \<not> bit (ap_uval b) i"
    using ap_leading_top [OF assms(1) nz] by blast
  show ?thesis
  proof (cases "64 \<le> t")
    case True
    have "2 ^ t \<le> ap_uval b" using t(3) by (metis bit_iff_odd div_less even_zero not_less)
    moreover have "(2::nat) ^ 64 \<le> 2 ^ t" using True by (rule power_increasing) simp
    ultimately have "w < ap_uval b" using assms(3) by linarith
    then show ?thesis using True t(1,2) by (simp add: shift_amount_def)
  next
    case False
    have "take_bit 64 (ap_uval b) = ap_uval b"
      using t(4) False by (intro bit_eqI) (auto simp: bit_take_bit_iff intro: ccontr)
    then have "ap_uval b mod 2 ^ 64 = ap_uval b" by (simp only: take_bit_eq_mod)
    then show ?thesis using False t(1,2) assms(2) by (simp add: shift_amount_def low_word)
  qed
qed

lemma boolean_eq: "boolean c = Some (ap_of_int 1 False (of_bool c))"
  by (simp add: boolean_def ap_new_eq ap_of_eq_int)

lemma shl_capped: "(x * 2 ^ min k w) mod 2 ^ w = (x * 2 ^ k) mod (2 :: nat) ^ w"
proof (cases "k \<le> w")
  case False
  then have "(2 :: nat) ^ w dvd 2 ^ k" by (simp add: le_imp_power_dvd)
  then show ?thesis using False by (simp add: min_def)
qed (simp add: min_def)

lemma shr_capped: "x < 2 ^ w \<Longrightarrow> x div 2 ^ min k w = x div (2 :: nat) ^ k"
proof (cases "k \<le> w")
  case False
  assume "x < 2 ^ w"
  moreover have "(2 :: nat) ^ w \<le> 2 ^ k" using False by (intro power_increasing) auto
  ultimately have "x < 2 ^ k" by (rule less_le_trans)
  then show ?thesis using False \<open>x < 2 ^ w\<close> by (simp add: min_def)
qed (simp add: min_def)

lemma ashr_capped:
  assumes "- (2 ^ w) \<le> x" "x < 2 ^ w"
  shows "x div 2 ^ min k w = x div (2 :: int) ^ k"
proof (cases "k \<le> w")
  case False
  have "(2 :: int) ^ w \<le> 2 ^ k" using False by (intro power_increasing) auto
  then have le: "- (2 ^ k) \<le> x" "x < 2 ^ k" using assms by linarith+
  have "x div y = (if x < 0 then - 1 else 0)" if "- y \<le> x" "x < y" for y :: int
    using that int_div_pos_eq [of x y "- 1" "x + y"] by (auto simp: div_pos_pos_trivial)
  then show ?thesis using False le assms by (simp add: min_def)
qed (simp add: min_def)

text \<open>The two tables row by row.\<close>

lemma rule_value_simps:
  shows
    "rule_value EAdd w x y = (Some (x + y))" "rule_value ESub w x y = (Some (x - y))"
    "rule_value EMul w x y = (Some (x * y))" "rule_value ESDiv w x y = (if y = 0 then None else Some (signed_at w x sdiv signed_at w y))"
    "rule_value EUDiv w x y = (if y = 0 then None else Some (x div y))" "rule_value ESRem w x y = (if y = 0 then None else Some (signed_at w x smod signed_at w y))"
    "rule_value EURem w x y = (if y = 0 then None else Some (x mod y))" "rule_value EEq w x y = (Some (of_bool (x = y)))"
    "rule_value ENe w x y = (Some (of_bool (x \<noteq> y)))" "rule_value ESLt w x y = (Some (of_bool (signed_at w x < signed_at w y)))"
    "rule_value ESLe w x y = (Some (of_bool (signed_at w x \<le> signed_at w y)))" "rule_value ESGt w x y = (Some (of_bool (signed_at w y < signed_at w x)))"
    "rule_value ESGe w x y = (Some (of_bool (signed_at w y \<le> signed_at w x)))" "rule_value EULt w x y = (Some (of_bool (x < y)))"
    "rule_value EULe w x y = (Some (of_bool (x \<le> y)))" "rule_value EUGt w x y = (Some (of_bool (y < x)))"
    "rule_value EUGe w x y = (Some (of_bool (y \<le> x)))" "rule_value EShl w x y = (Some (x * 2 ^ nat y))"
    "rule_value EAShr w x y = (Some (signed_at w x div 2 ^ nat y))" "rule_value ELShr w x y = (Some (x div 2 ^ nat y))"
    "rule_value EOr w x y = (Some (x OR y))" "rule_value EAnd w x y = (Some (x AND y))"
    "rule_value EXor w x y = (Some (x XOR y))" "rule_value EXnor w x y = (Some (NOT (x XOR y)))"
    "rule_value EConcat w x y = (Some (x * 2 ^ w + y))" "rule_value ENeg w x y = (Some (- x))"
    "rule_value ENot w x y = (Some (NOT x))"
  by (simp_all only: rule_value_def EvalRule.case)

lemma eval_same_width:
  assumes "ap_wf a" "ap_wf b" "ap_width a = ap_width b"
  shows
    "eval_binary EAdd a b = ap_add a b" "eval_binary ESub a b = ap_sub a b"
    "eval_binary EMul a b = ap_mul a b" "eval_binary ESDiv a b = ap_sdiv a b"
    "eval_binary EUDiv a b = ap_udiv a b" "eval_binary ESRem a b = ap_srem a b"
    "eval_binary EURem a b = ap_urem a b" "eval_binary EEq a b = boolean (ap_with_signed a False = ap_with_signed b False)"
    "eval_binary ENe a b = boolean (ap_with_signed a False \<noteq> ap_with_signed b False)" "eval_binary ESLt a b = Option.bind (ap_slt a b) boolean"
    "eval_binary ESLe a b = Option.bind (ap_sle a b) boolean" "eval_binary ESGt a b = Option.bind (ap_sgt a b) boolean"
    "eval_binary ESGe a b = Option.bind (ap_sge a b) boolean" "eval_binary EULt a b = Option.bind (ap_ult a b) boolean"
    "eval_binary EULe a b = Option.bind (ap_ule a b) boolean" "eval_binary EUGt a b = Option.bind (ap_ugt a b) boolean"
    "eval_binary EUGe a b = Option.bind (ap_uge a b) boolean" "eval_binary EShl a b = ap_shl a (shift_amount b (ap_width a))"
    "eval_binary EAShr a b = ap_ashr (ap_with_signed a True) (shift_amount b (ap_width a))" "eval_binary ELShr a b = ap_lshr a (shift_amount b (ap_width a))"
    "eval_binary EOr a b = ap_or a b" "eval_binary EAnd a b = ap_and a b"
    "eval_binary EXor a b = ap_xor a b" "eval_binary EXnor a b = Option.bind (ap_xor a b) ap_not"
  by (simp_all only: eval_binary_def coerce_same [OF assms] Option.bind.simps prod.case EvalRule.case)

text \<open>On operands of one width, a rule gives the value of its arithmetic at that width, or the truth
  value of its test, and panics exactly on a division by zero.\<close>

definition rule_meets :: "EvalRule \<Rightarrow> APInt \<Rightarrow> APInt \<Rightarrow> bool" where
  "rule_meets rule a b \<longleftrightarrow>
     (case rule_value rule (ap_width a) (int (ap_uval a)) (int (ap_uval b)) of
        None \<Rightarrow> eval_binary rule a b = None
      | Some i \<Rightarrow> \<exists>s. eval_binary rule a b = Some (ap_of_int (if is_test rule then 1 else ap_width a) s i))"

lemma rule_meetsI:
  "rule_value rule (ap_width a) (int (ap_uval a)) (int (ap_uval b)) = Some i \<Longrightarrow> \<not> is_test rule \<Longrightarrow>
     eval_binary rule a b = Some (ap_of_int (ap_width a) s i) \<Longrightarrow> rule_meets rule a b"
  "rule_value rule (ap_width a) (int (ap_uval a)) (int (ap_uval b)) = None \<Longrightarrow>
     eval_binary rule a b = None \<Longrightarrow> rule_meets rule a b"
  "rule_value rule (ap_width a) (int (ap_uval a)) (int (ap_uval b)) = Some (of_bool c) \<Longrightarrow> is_test rule \<Longrightarrow>
     eval_binary rule a b = boolean c \<Longrightarrow> rule_meets rule a b"
  by (auto simp: rule_meets_def boolean_eq)

lemma rule_meets_ring:
  assumes "ap_wf a" "ap_wf b" "ap_width a = ap_width b"
  shows "rule_meets EAdd a b" "rule_meets ESub a b" "rule_meets EMul a b"
  by (rule rule_meetsI(1), simp_all add: rule_value_simps is_test_def eval_same_width [OF assms] ap_add_eq [OF assms]
      ap_sub_eq [OF assms] ap_mul_eq [OF assms])+

lemma rule_meets_division:
  assumes "ap_wf a" "ap_wf b" "ap_width a = ap_width b"
  shows "rule_meets ESDiv a b" "rule_meets EUDiv a b" "rule_meets ESRem a b" "rule_meets EURem a b"
proof -
  note e = eval_same_width [OF assms] ap_sdiv_def ap_udiv_def ap_srem_def ap_urem_def rule_value_simps is_test_def
  have sv: "signed_at (ap_width b) (int (ap_uval a)) = ap_sval a" "signed_at (ap_width b) (int (ap_uval b)) = ap_sval b"
    using assms signed_at_sval [of a] signed_at_sval [of b] by simp_all
  have "rule_meets ESDiv a b \<and> rule_meets EUDiv a b \<and> rule_meets ESRem a b \<and> rule_meets EURem a b"
  proof (cases "ap_uval b = 0")
    case True
    then show ?thesis using assms(2) by (intro conjI; intro rule_meetsI(2)) (simp_all add: e ap_divrem_zero)
  next
    case False
    note d = ap_udivrem_eq [OF assms False] ap_sdivrem_eq [OF assms False]
    show ?thesis
      by (intro conjI; rule rule_meetsI(1)) (simp_all add: False e d assms(3) sv of_nat_div of_nat_mod)
  qed
  then show "rule_meets ESDiv a b" "rule_meets EUDiv a b" "rule_meets ESRem a b" "rule_meets EURem a b" by simp_all
qed

lemma same_number: "ap_wf a \<Longrightarrow> ap_wf b \<Longrightarrow> ap_width a = ap_width b \<Longrightarrow>
    ap_with_signed a False = ap_with_signed b False \<longleftrightarrow> ap_uval a = ap_uval b"
  using ap_wf_pos [of b] ap_uval_lt [of a] ap_uval_lt [of b] by (simp add: ap_with_signed_eq ap_of_eq_iff)

lemma rule_meets_test:
  assumes "ap_wf a" "ap_wf b" "ap_width a = ap_width b" "is_test rule"
  shows "rule_meets rule a b"
proof -
  have sv: "signed_at (ap_width b) (int (ap_uval a)) = ap_sval a" "signed_at (ap_width b) (int (ap_uval b)) = ap_sval b"
    using assms(1-3) signed_at_sval [of a] signed_at_sval [of b] by simp_all
  have "rule \<in> {EEq, ENe, ESLt, ESLe, ESGt, ESGe, EULt, EULe, EUGt, EUGe}" using assms(4) by (simp only: is_test_def)
  then show ?thesis
    by (elim insertE emptyE; hypsubst; intro rule_meetsI(3))
      (simp_all add: rule_value_simps is_test_def eval_same_width [OF assms(1-3)] ap_predicates_eq [OF assms(1-3)]
        same_number [OF assms(1-3)] assms(3) sv)
qed

lemma xnor_number: "u < 2 ^ w \<Longrightarrow> v < 2 ^ w \<Longrightarrow> int (2 ^ w - 1 - (u XOR v)) mod 2 ^ w = NOT (int u XOR int v) mod 2 ^ w"
proof -
  assume "u < 2 ^ w" "v < 2 ^ w"
  then have "u XOR v < 2 ^ w" using bitwise_lt by blast
  then have "int (2 ^ w - 1 - (u XOR v)) = 2 ^ w - 1 - int (u XOR v)" by (simp add: of_nat_diff)
  also have "\<dots> = 2 ^ w + NOT (int u XOR int v)" by (simp add: not_eq_complement of_nat_xor_eq)
  finally show ?thesis by simp
qed

lemma rule_meets_bitwise:
  assumes "ap_wf a" "ap_wf b" "ap_width a = ap_width b"
  shows "rule_meets EOr a b" "rule_meets EAnd a b" "rule_meets EXor a b" "rule_meets EXnor a b"
proof -
  have w: "0 < ap_width b" "ap_uval a < 2 ^ ap_width b" "ap_uval b < 2 ^ ap_width b"
    using assms ap_wf_pos [of b] ap_uval_lt [of a] ap_uval_lt [of b] by simp_all
  have x: "ap_uval (ap_of (ap_width b) s (ap_uval a XOR ap_uval b)) = ap_uval a XOR ap_uval b" for s
    using w bitwise_lt [OF w(2,3)] by (simp add: ap_of_uval)
  have n: "ap_of (ap_width b) s (2 ^ ap_width b - 1 - (ap_uval a XOR ap_uval b)) =
      ap_of_int (ap_width b) s (NOT (int (ap_uval a) XOR int (ap_uval b)))" for s
    unfolding ap_of_eq_int [OF w(1)] by (rule ap_of_int_cong) (rule xnor_number [OF w(2,3)])
  show "rule_meets EOr a b" "rule_meets EAnd a b" "rule_meets EXor a b"
    by (rule rule_meetsI(1), simp_all add: rule_value_simps is_test_def eval_same_width [OF assms] ap_bitwise_eq [OF assms]
        ap_of_eq_int [OF w(1)] assms(3) of_nat_and_eq of_nat_or_eq of_nat_xor_eq)+
  show "rule_meets EXnor a b"
    by (rule rule_meetsI(1)) (simp_all add: rule_value_simps is_test_def eval_same_width [OF assms] ap_bitwise_eq [OF assms]
        assms(3) ap_not_eq [OF ap_of_wf [OF w(1)]] x n [unfolded One_nat_def] del: diff_diff_left)
qed

lemma rule_meets_shift:
  assumes "ap_wf a" "ap_wf b" "ap_width a = ap_width b" "ap_width b < 2 ^ 64"
  shows "rule_meets EShl a b" "rule_meets ELShr a b" "rule_meets EAShr a b"
proof -
  let ?w = "ap_width b" and ?u = "ap_uval a" and ?k = "ap_uval b"
  have w: "0 < ?w" "?u < 2 ^ ?w" using assms ap_wf_pos [of b] ap_uval_lt [of a] by simp_all
  note k = shift_amount_eq [OF assms(2) refl assms(4)]
  have l: "ap_of ?w s (?u * 2 ^ min ?k ?w) = ap_of_int ?w s (int ?u * 2 ^ ?k)" for s
    using ap_of_cong_mod [OF w(1) shl_capped [of ?u ?k ?w], of s] by (simp add: ap_of_eq_int [OF w(1)])
  have r: "ap_of ?w s (?u div 2 ^ min ?k ?w) = ap_of_int ?w s (int ?u div 2 ^ ?k)" for s
    using shr_capped [OF w(2), of ?k] by (simp add: ap_of_eq_int [OF w(1)] of_nat_div)
  show "rule_meets EShl a b" "rule_meets ELShr a b"
    by (rule rule_meetsI(1), simp_all add: rule_value_simps is_test_def eval_same_width [OF assms(1-3)]
        ap_shl_eq [OF assms(1)] ap_lshr_eq [OF assms(1)] assms(3) k l r)+
  let ?c = "ap_with_signed a True"
  have c: "ap_wf ?c" "ap_width ?c = ?w" "ap_uval ?c = ?u" "ap_num ?c = ap_sval a"
    using assms(1,3) w by (simp_all add: ap_with_signed_eq ap_of_wf ap_of_uval ap_num_def ap_sval_def)
  have sv: "signed_at ?w (int ?u) = ap_sval a" using assms(1,3) signed_at_sval [of a] by simp
  have rg: "- (2 ^ ?w) \<le> ap_sval a" "ap_sval a < 2 ^ ?w"
    using ap_sval_range(1,2) [OF assms(1)] power_increasing [of "?w - 1" ?w "2 :: int"] assms(3) by (auto simp del: power_increasing_iff)
  obtain s where s: "ap_ashr ?c (min ?k ?w) = Some (ap_of_int ?w s (ap_sval a div 2 ^ min ?k ?w))"
    using ap_ashr_int [OF c(1), of "min ?k ?w"] by (auto simp: c)
  show "rule_meets EAShr a b"
    by (rule rule_meetsI(1) [of _ _ _ _ s]) (simp_all add: rule_value_simps is_test_def eval_same_width [OF assms(1-3)] assms(3) k s
        sv ashr_capped [OF rg])
qed

subsection \<open>Properties\<close>

lemma rule_meets_all:
  assumes "ap_wf a" "ap_wf b" "ap_width a = ap_width b" "ap_width b < 2 ^ 64" "rule \<notin> {ENeg, ENot, EConcat}"
  shows "rule_meets rule a b"
  using assms(5) rule_meets_ring [OF assms(1-3)] rule_meets_division [OF assms(1-3)] rule_meets_test [OF assms(1-3), of rule]
    rule_meets_bitwise [OF assms(1-3)] rule_meets_shift [OF assms(1-4)]
  by (cases rule) (simp_all add: is_test_def)

lemmas table_simps = SCALAR_OPS_def op_def

text \<open>Every row of the table is one of these: what the properties read off the table, checked row by row.\<close>

definition row_ok :: "ScalarOp \<Rightarrow> bool" where
  "row_ok p \<longleftrightarrow> (op_arity p = 1 \<longleftrightarrow> op_eval p = ENeg \<or> op_eval p = ENot) \<and> (op_arity p = 1 \<or> op_arity p = 2) \<and>
     (op_width p = Bool \<longleftrightarrow> is_test (op_eval p)) \<and> (op_width p = Sum \<longleftrightarrow> op_eval p = EConcat) \<and>
     (op_commutative p \<longleftrightarrow> op_eval p \<in> {EAdd, EMul, EEq, ENe, EOr, EAnd, EXor, EXnor})"

lemma rows_ok: "p \<in> set SCALAR_OPS \<Longrightarrow> row_ok p"
  unfolding SCALAR_OPS_def set_simps
  by (elim insertE emptyE; hypsubst) (simp_all add: op_def row_ok_def is_test_def)

lemma eval_int_binary: "p \<in> set SCALAR_OPS \<Longrightarrow> op_arity p = 2 \<Longrightarrow> eval_int p [a, b] = eval_binary (op_eval p) a b"
  by (simp add: eval_int_def)

lemma eval_binary_coerced:
  fixes w a b
  assumes "ap_wf a" "ap_wf b" "rule \<noteq> EConcat"
  defines "w \<equiv> max (ap_width a) (ap_width b)"
  shows "eval_binary rule a b = eval_binary rule (at_width w a) (at_width w b)"
proof -
  have wf: "ap_wf (at_width w a)" "ap_wf (at_width w b)" "ap_width (at_width w a) = ap_width (at_width w b)"
    using assms by (simp_all add: at_width_wf)
  have c: "coerce a b = Some (at_width w a, at_width w b)" unfolding w_def by (rule coerce_eq [OF assms(1,2)])
  show ?thesis using assms(3)
    by (cases rule) (simp_all only: eval_binary_def c coerce_same [OF wf] Option.bind.simps prod.case EvalRule.case simp_thms)
qed

lemma or_disjoint: "y < 2 ^ k \<Longrightarrow> (x * 2 ^ k) OR y = x * 2 ^ k + (y :: nat)"
proof -
  assume "y < 2 ^ k"
  then have "y = take_bit k y" by (simp add: take_bit_eq_mod)
  then have "i < k" if "bit y i" for i using that by (metis bit_take_bit_iff)
  then have "push_bit k x AND y = 0" by (intro bit_eqI) (auto simp: bit_and_iff bit_push_bit_iff not_le [symmetric])
  then show ?thesis using disjunctive_add_eq_or [of "push_bit k x" y] by (simp add: push_bit_eq_mult)
qed

lemma stacked_lt: "u < 2 ^ m \<Longrightarrow> v < 2 ^ n \<Longrightarrow> u * 2 ^ n + v < (2 :: nat) ^ (m + n)"
proof -
  assume a: "u < 2 ^ m" "v < 2 ^ n"
  then have "(u + 1) * 2 ^ n \<le> 2 ^ m * (2 :: nat) ^ n" by (intro mult_right_mono) simp_all
  then show ?thesis using a(2) by (simp add: power_add)
qed

lemma concat_number:
  assumes "ap_wf a" "ap_wf b"
  shows "eval_binary EConcat a b = Some (ap_of (ap_width a + ap_width b) False (ap_uval a * 2 ^ ap_width b + ap_uval b))"
proof -
  let ?w = "ap_width a + ap_width b" and ?u = "ap_uval a" and ?v = "ap_uval b"
  have p: "0 < ?w" "0 < ap_width a" "0 < ap_width b" using assms by (simp_all add: ap_wf_pos)
  have lt: "?u < 2 ^ ap_width a" "?v < 2 ^ ap_width b" using assms by (simp_all add: ap_uval_lt)
  have "?u * 2 ^ ap_width b < 2 ^ ap_width a * 2 ^ ap_width b" using lt(1) by simp
  then have h: "?u * 2 ^ ap_width b < 2 ^ ?w" by (simp add: power_add)
  have u: "?u < 2 ^ ?w" "?v < 2 ^ ?w"
    using lt by (meson less_le_trans power_increasing le_add1 le_add2 one_le_numeral)+
  have zx: "ap_zero_extend a ?w = Some (ap_of ?w False ?u)" "ap_zero_extend b ?w = Some (ap_of ?w False ?v)"
    using assms by (simp_all add: ap_zero_extend_eq)
  have sh: "ap_shl (ap_of ?w False ?u) (ap_width b) = Some (ap_of ?w False (?u * 2 ^ ap_width b))"
    using ap_shl_eq [OF ap_of_wf [OF p(1)], of False ?u "ap_width b"] u p by (simp add: ap_of_uval)
  have orr: "ap_or (ap_of ?w False (?u * 2 ^ ap_width b)) (ap_of ?w False ?v) = Some (ap_of ?w False (?u * 2 ^ ap_width b + ?v))"
    using ap_bitwise_eq(2) [OF ap_of_wf [OF p(1)] ap_of_wf [OF p(1)], of False "?u * 2 ^ ap_width b" False ?v] h u or_disjoint [OF lt(2), of ?u] p
    by (simp add: ap_of_uval)
  show ?thesis
    by (simp add: eval_binary_def coerce_eq [OF assms] zx sh orr Let_def)
qed

lemma rows_found: "p \<in> set SCALAR_OPS \<Longrightarrow> scalar_op (op_kind p) = Some p \<and> scalar_op_named (op_name p) = Some p"
proof -
  have "list_all (\<lambda>p. scalar_op (op_kind p) = Some p \<and> scalar_op_named (op_name p) = Some p) SCALAR_OPS"
    by (simp add: scalar_op_def scalar_op_named_def SCALAR_OPS_def op_def)
  then show "p \<in> set SCALAR_OPS \<Longrightarrow> scalar_op (op_kind p) = Some p \<and> scalar_op_named (op_name p) = Some p" by (simp add: list_all_iff)
qed

lemma commutes_same:
  assumes "ap_wf a" "ap_wf b" "ap_width a = ap_width b" "rule \<in> {EAdd, EMul, EEq, ENe, EOr, EAnd, EXor, EXnor}"
  shows "eval_binary rule a b = eval_binary rule b a"
proof -
  note f = assms(1-3) and g = assms(2,1) assms(3) [symmetric]
  from assms(4) show ?thesis
    by (elim insertE emptyE; hypsubst)
      (simp_all add: eval_same_width [OF f] eval_same_width [OF g] ap_add_eq [OF f] ap_add_eq [OF g] ap_mul_eq [OF f] ap_mul_eq [OF g]
        ap_bitwise_eq [OF f] ap_bitwise_eq [OF g] assms(3) add.commute mult.commute and.commute or.commute xor.commute conj_commute eq_commute)
qed

text \<open>C31: every binary operator of the table evaluates to its arithmetic. On well-formed operands of
  one width, \<open>eval_int\<close> panics exactly where the operator divides by zero; otherwise its result
  is well formed, has the width the table's rule declares (one bit for a test), and its number is
  that of the rule on the unsigned numbers, reduced to that width. The unary operators negate and
  complement, and \<open>concat\<close> places its first operand above the second.\<close>

theorem scalar_eval_numeric:
  assumes "p \<in> set SCALAR_OPS" "ap_wf a" "ap_wf b" "ap_width b < 2 ^ 64"
  shows "(op_width p \<noteq> Sum \<and> op_arity p = 2 \<and> ap_width a = ap_width b \<longrightarrow>
      (case rule_value (op_eval p) (ap_width a) (int (ap_uval a)) (int (ap_uval b)) of
         None \<Rightarrow> eval_int p [a, b] = None
       | Some i \<Rightarrow> \<exists>r. eval_int p [a, b] = Some r \<and> ap_wf r \<and>
           ap_width r = (if op_width p = Bool then 1 else ap_width a) \<and> int (ap_uval r) = i mod 2 ^ ap_width r)) \<and>
    (op_arity p = 1 \<longrightarrow>
      (\<exists>i r. rule_value (op_eval p) (ap_width a) (int (ap_uval a)) 0 = Some i \<and> eval_int p [a] = Some r \<and> ap_wf r \<and>
        ap_width r = ap_width a \<and> int (ap_uval r) = i mod 2 ^ ap_width a)) \<and>
    (op_width p = Sum \<longrightarrow>
      (\<exists>r. eval_int p [a, b] = Some r \<and> ap_wf r \<and> ap_width r = ap_width a + ap_width b \<and>
        ap_uval r = ap_uval a * 2 ^ ap_width b + ap_uval b))"
proof (intro conjI impI)
  note row = rows_ok [OF assms(1), unfolded row_ok_def]
  have w: "0 < ap_width a" "0 < ap_width b" using assms by (simp_all add: ap_wf_pos)
  assume bin: "op_width p \<noteq> Sum \<and> op_arity p = 2 \<and> ap_width a = ap_width b"
  then have rule: "op_eval p \<notin> {ENeg, ENot, EConcat}" using row by auto
  have "rule_meets (op_eval p) a b" using bin rule assms by (intro rule_meets_all) auto
  then show "case rule_value (op_eval p) (ap_width a) (int (ap_uval a)) (int (ap_uval b)) of
         None \<Rightarrow> eval_int p [a, b] = None
       | Some i \<Rightarrow> \<exists>r. eval_int p [a, b] = Some r \<and> ap_wf r \<and>
           ap_width r = (if op_width p = Bool then 1 else ap_width a) \<and> int (ap_uval r) = i mod 2 ^ ap_width r"
    using bin row w unfolding rule_meets_def eval_int_binary [OF assms(1) conjunct1 [OF conjunct2 [OF bin]]]
    by (cases "rule_value (op_eval p) (ap_width a) (int (ap_uval a)) (int (ap_uval b))")
      (auto simp: ap_of_int_wf ap_of_int_uval)
next
  have w: "0 < ap_width a" using assms by (simp add: ap_wf_pos)
  assume un: "op_arity p = 1"
  then have "op_eval p = ENeg \<or> op_eval p = ENot" using rows_ok [OF assms(1)] by (simp add: row_ok_def)
  then show "\<exists>i r. rule_value (op_eval p) (ap_width a) (int (ap_uval a)) 0 = Some i \<and> eval_int p [a] = Some r \<and> ap_wf r \<and>
        ap_width r = ap_width a \<and> int (ap_uval r) = i mod 2 ^ ap_width a"
    using un w assms(2) xnor_number [OF ap_uval_lt [OF assms(2)], of 0]
    by (auto simp: eval_int_def eval_unary_def rule_value_simps ap_neg_eq ap_not_eq ap_of_int_wf ap_of_int_uval ap_of_wf ap_of_uval ap_of_eq_int)
next
  have w: "0 < ap_width a + ap_width b" using assms(2) ap_wf_pos [of a] by simp
  assume "op_width p = Sum"
  then have "op_eval p = EConcat" "op_arity p = 2" using rows_ok [OF assms(1)] by (auto simp: row_ok_def)
  moreover have "ap_uval a * 2 ^ ap_width b + ap_uval b < 2 ^ (ap_width a + ap_width b)"
    using ap_uval_lt [OF assms(2)] ap_uval_lt [OF assms(3)] by (rule stacked_lt)
  ultimately show "\<exists>r. eval_int p [a, b] = Some r \<and> ap_wf r \<and> ap_width r = ap_width a + ap_width b \<and>
        ap_uval r = ap_uval a * 2 ^ ap_width b + ap_uval b"
    using w by (simp add: eval_int_binary [OF assms(1)] concat_number [OF assms(2,3)] ap_of_wf ap_of_uval)
qed

theorem scalar_eval_numeric_witness:
  "\<exists>r. eval_int (op Add ''add'' 2 True First (Binary ''bvadd'') ''Add'' EAdd) [minus_one_72, three_72] = Some r \<and> ap_uval r = 2"
  using scalar_eval_numeric [of "op Add ''add'' 2 True First (Binary ''bvadd'') ''Add'' EAdd" minus_one_72 three_72]
  by (auto simp: SCALAR_OPS_def op_def wide_examples rule_value_simps)

text \<open>C32: what the table declares holds of the evaluation. An operator flagged commutative gives the
  same value, width and flag with its operands exchanged, at any widths; operands of different
  widths are first brought to the wider width keeping the numbers their flags read; and kinds and
  names identify their rows.\<close>

theorem scalar_table_sound:
  assumes "p \<in> set SCALAR_OPS" "ap_wf a" "ap_wf b"
  shows "(kind_is_commutative (op_kind p) \<longrightarrow> eval_int p [a, b] = eval_int p [b, a]) \<and>
    (op_arity p = 2 \<and> op_width p \<noteq> Sum \<longrightarrow>
      (\<exists>x y. eval_int p [a, b] = eval_int p [x, y] \<and> ap_wf x \<and> ap_wf y \<and> ap_width x = max (ap_width a) (ap_width b) \<and>
        ap_width y = ap_width x \<and> ap_num x = ap_num a \<and> ap_num y = ap_num b)) \<and>
    scalar_op (op_kind p) = Some p \<and> scalar_op_named (op_name p) = Some p"
proof (intro conjI impI)
  note row = rows_ok [OF assms(1), unfolded row_ok_def]
  let ?w = "max (ap_width a) (ap_width b)"
  have wf: "ap_wf (at_width ?w a)" "ap_wf (at_width ?w b)" "ap_width (at_width ?w a) = ap_width (at_width ?w b)"
    using assms by (simp_all add: at_width_wf)
  {
    assume "kind_is_commutative (op_kind p)"
    then have c: "op_commutative p" using rows_found [OF assms(1)] by (simp add: kind_is_commutative_def)
    then have r: "op_eval p \<in> {EAdd, EMul, EEq, ENe, EOr, EAnd, EXor, EXnor}" "op_arity p = 2" using row by auto
    then have "op_eval p \<noteq> EConcat" by auto
    then show "eval_int p [a, b] = eval_int p [b, a]"
      using eval_binary_coerced [OF assms(2,3)] eval_binary_coerced [OF assms(3,2)] commutes_same [OF wf r(1)]
      by (simp add: eval_int_binary [OF assms(1) r(2)] max.commute)
  next
    assume r: "op_arity p = 2 \<and> op_width p \<noteq> Sum"
    then have "op_eval p \<noteq> EConcat" using row by auto
    then have "eval_int p [a, b] = eval_int p [at_width ?w a, at_width ?w b]"
      using r eval_binary_coerced [OF assms(2,3)] by (simp add: eval_int_binary [OF assms(1)])
    moreover have "ap_num (at_width ?w a) = ap_num a" "ap_num (at_width ?w b) = ap_num b"
      using assms by (simp_all add: at_width_def ap_num_sign_extended)
    ultimately show "\<exists>x y. eval_int p [a, b] = eval_int p [x, y] \<and> ap_wf x \<and> ap_wf y \<and> ap_width x = ?w \<and>
        ap_width y = ap_width x \<and> ap_num x = ap_num a \<and> ap_num y = ap_num b"
      using wf at_width_wf(2) [of ?w a] at_width_wf(2) [of ?w b] by metis
  }
qed (use rows_found [OF assms(1)] in simp_all)

theorem scalar_table_sound_witness:
  "eval_int (op Xnor ''xnor'' 2 True First (Binary ''bvxnor'') ''Xnor'' EXnor) [minus_one_72, three_72] =
    eval_int (op Xnor ''xnor'' 2 True First (Binary ''bvxnor'') ''Xnor'' EXnor) [three_72, minus_one_72]"
proof -
  let ?p = "op Xnor ''xnor'' 2 True First (Binary ''bvxnor'') ''Xnor'' EXnor"
  have p: "?p \<in> set SCALAR_OPS" by (simp add: SCALAR_OPS_def)
  have "kind_is_commutative (op_kind ?p)" using rows_found [OF p] by (simp add: kind_is_commutative_def op_def)
  then show ?thesis using scalar_table_sound [OF p wide_examples(1,2)] by blast
qed

text \<open>The four kinds with offset coefficients, as integer arithmetic.\<close>

lemma scalar_op_row: "p \<in> set SCALAR_OPS \<Longrightarrow> op_kind p = k \<Longrightarrow> scalar_op k = Some q \<longleftrightarrow> q = p"
  using rows_found [of p] by auto

lemma linear_kinds:
  "scalar_op Add = Some p \<longleftrightarrow> p = op Add ''add'' 2 True First (Binary ''bvadd'') ''Add'' EAdd"
  "scalar_op Sub = Some p \<longleftrightarrow> p = op Sub ''sub'' 2 False First (Binary ''bvsub'') ''Sub'' ESub"
  "scalar_op Neg = Some p \<longleftrightarrow> p = op Neg ''neg'' 1 False First (Unary ''bvneg'') ''Neg'' ENeg"
  "scalar_op NotK = Some p \<longleftrightarrow> p = op NotK ''not'' 1 False First (Unary ''bvnot'') ''Not'' ENot"
  by (rule scalar_op_row, simp add: SCALAR_OPS_def, simp add: op_def)+

lemma linear_eval:
  assumes "ap_wf a" "ap_wf b" "ap_width a = w" "ap_width b = w"
  shows "eval_int (op Add ''add'' 2 True First (Binary ''bvadd'') ''Add'' EAdd) [a, b] =
      Some (ap_of_int w (ap_signed a \<and> ap_signed b) (int (ap_uval a) + int (ap_uval b)))"
    "eval_int (op Sub ''sub'' 2 False First (Binary ''bvsub'') ''Sub'' ESub) [a, b] =
      Some (ap_of_int w (ap_signed a \<and> ap_signed b) (int (ap_uval a) - int (ap_uval b)))"
    "eval_int (op Neg ''neg'' 1 False First (Unary ''bvneg'') ''Neg'' ENeg) [a] = Some (ap_of_int w (ap_signed a) (- int (ap_uval a)))"
    "eval_int (op NotK ''not'' 1 False First (Unary ''bvnot'') ''Not'' ENot) [a] = Some (ap_of_int w (ap_signed a) (- int (ap_uval a) - 1))"
proof -
  have e: "ap_width a = ap_width b" "0 < w" using assms ap_wf_pos [of a] by auto
  show "eval_int (op NotK ''not'' 1 False First (Unary ''bvnot'') ''Not'' ENot) [a] = Some (ap_of_int w (ap_signed a) (- int (ap_uval a) - 1))"
    using assms(1,3) e(2) xnor_number [OF ap_uval_lt [OF assms(1)], of 0]
    by (auto simp: eval_int_def op_def eval_unary_def ap_not_eq ap_of_eq_int not_eq_complement intro!: ap_of_int_cong)
qed (use assms eval_same_width [OF assms(1,2)] in \<open>simp_all add: eval_int_def op_def eval_unary_def ap_add_eq ap_sub_eq ap_neg_eq\<close>)

lemma length_1: "length xs = 1 \<Longrightarrow> \<exists>a. xs = [a]"
  by (cases xs) auto

lemma length_2: "length xs = 2 \<Longrightarrow> \<exists>a b. xs = [a, b]"
  by (cases xs; cases "tl xs") auto

definition linear_meets :: "ScalarOp \<Rightarrow> SymKind \<Rightarrow> APInt list \<Rightarrow> nat \<Rightarrow> int \<Rightarrow> APInt \<Rightarrow> nat \<Rightarrow> bool" where
  "linear_meets p k xs i c d w \<longleftrightarrow>
    (\<exists>s r r'. ap_add (xs ! i) d = Some s \<and> eval_int p xs = Some r \<and> eval_int p (xs[i := s]) = Some r' \<and>
      ap_width r' = w \<and> int (ap_uval r') = (int (ap_uval r) + c * int (ap_uval d)) mod 2 ^ w) \<and>
    (\<forall>v. kind_identity k i = Some v \<and> ap_uval (xs ! i) = unat v mod 2 ^ w \<longrightarrow>
      (\<exists>r. eval_int p xs = Some r \<and> ap_width r = w \<and> ap_uval r = ap_uval (xs ! (1 - i)))) \<and>
    ((\<forall>x \<in> set xs. ap_uval x = 0) \<and> w \<le> 64 \<longrightarrow>
      (\<exists>r. eval_int p xs = Some r \<and> ap_width r = w \<and> ap_uval r = unat (kind_bias k) mod 2 ^ w))"

lemma number_self: "ap_wf a \<Longrightarrow> int (ap_uval a) mod 2 ^ ap_width a = int (ap_uval a)"
  using ap_uval_lt [of a] by (simp flip: of_nat_less_iff)

lemma ones_mod: "w \<le> 64 \<Longrightarrow> int ((2 ^ 64 - 1) mod 2 ^ w) = (- 1) mod 2 ^ w"
proof -
  assume "w \<le> 64"
  then have "(2 :: int) ^ w dvd 2 ^ 64" by (rule le_imp_power_dvd)
  then have "(2 ^ 64 - 1) mod (2 :: int) ^ w = (- 1) mod 2 ^ w" by (metis diff_0 mod_diff_left_eq mod_0_imp_dvd dvd_imp_mod_0)
  then show ?thesis by (simp add: of_nat_mod)
qed

lemma uval_of_int_eq: "0 < w \<Longrightarrow> int n = i mod 2 ^ w \<Longrightarrow> ap_uval (ap_of_int w s i) = n"
  using ap_of_int_uval [of w s i] by linarith

lemma linear_binary:
  assumes "ap_wf a" "ap_wf b" "ap_wf d" "ap_width a = w" "ap_width b = w" "ap_width d = w"
  shows "linear_meets (op Add ''add'' 2 True First (Binary ''bvadd'') ''Add'' EAdd) Add [a, b] 0 1 d w"
    "linear_meets (op Add ''add'' 2 True First (Binary ''bvadd'') ''Add'' EAdd) Add [a, b] 1 1 d w"
    "linear_meets (op Sub ''sub'' 2 False First (Binary ''bvsub'') ''Sub'' ESub) Sub [a, b] 0 1 d w"
    "linear_meets (op Sub ''sub'' 2 False First (Binary ''bvsub'') ''Sub'' ESub) Sub [a, b] 1 (- 1) d w"
proof -
  have w: "0 < w" using assms ap_wf_pos [of a] by auto
  note sum = ap_add_eq [OF assms(1,3), unfolded assms(4,6), OF refl] ap_add_eq [OF assms(2,3), unfolded assms(5,6), OF refl]
  note ev = linear_eval [OF assms(1,2,4,5)] linear_eval [OF ap_of_int_wf [OF w] assms(2) _ assms(5)]
    linear_eval [OF assms(1) ap_of_int_wf [OF w] assms(4)]
  note num = number_self [OF assms(1), unfolded assms(4)] number_self [OF assms(2), unfolded assms(5)]
  have u: "ap_uval (ap_of_int w s (int (ap_uval x))) = ap_uval x" if "ap_wf x" "ap_width x = w" for s x
    using that number_self [of x] by (intro uval_of_int_eq [OF w]) simp
  have z: "ap_uval (ap_of_int w s 0) = 0" for s by (rule uval_of_int_eq [OF w]) simp
  note facts = linear_meets_def sum ev ap_of_int_uval [OF w] mod_simps kind_identity_def kind_bias_def u z assms
  show "linear_meets (op Add ''add'' 2 True First (Binary ''bvadd'') ''Add'' EAdd) Add [a, b] 0 1 d w"
    "linear_meets (op Add ''add'' 2 True First (Binary ''bvadd'') ''Add'' EAdd) Add [a, b] 1 1 d w"
    "linear_meets (op Sub ''sub'' 2 False First (Binary ''bvsub'') ''Sub'' ESub) Sub [a, b] 0 1 d w"
    "linear_meets (op Sub ''sub'' 2 False First (Binary ''bvsub'') ''Sub'' ESub) Sub [a, b] 1 (- 1) d w"
    by (auto simp: facts algebra_simps)
qed

lemma linear_unary:
  assumes "ap_wf a" "ap_wf d" "ap_width a = w" "ap_width d = w"
  shows "linear_meets (op Neg ''neg'' 1 False First (Unary ''bvneg'') ''Neg'' ENeg) Neg [a] 0 (- 1) d w"
    "linear_meets (op NotK ''not'' 1 False First (Unary ''bvnot'') ''Not'' ENot) NotK [a] 0 (- 1) d w"
proof -
  have w: "0 < w" using assms ap_wf_pos [of a] by auto
  note sum = ap_add_eq [OF assms(1,2), unfolded assms(3,4), OF refl]
  note ev = linear_eval(3,4) [OF assms(1,1,3,3)] linear_eval(3,4) [OF ap_of_int_wf [OF w] ap_of_int_wf [OF w], of _ _ w] 
  have z: "ap_uval (ap_of_int w s 0) = 0" for s by (rule uval_of_int_eq [OF w]) simp
  have b: "ap_uval (ap_of_int w s (- 1)) = unat (- 1 :: u64) mod 2 ^ w" if "w \<le> 64" for s
    using ones_mod [OF that] by (intro uval_of_int_eq [OF w]) (simp add: unsigned_minus_1_eq_mask mask_eq_exp_minus_1)
  have m: "(- (x mod 2 ^ w) - 1) mod 2 ^ w = (- x - 1) mod (2 ^ w :: int)" for x by (metis mod_minus_eq mod_diff_left_eq)
  note facts = linear_meets_def sum ev ap_of_int_uval [OF w] mod_simps kind_identity_def kind_bias_def
  show "linear_meets (op Neg ''neg'' 1 False First (Unary ''bvneg'') ''Neg'' ENeg) Neg [a] 0 (- 1) d w"
    "linear_meets (op NotK ''not'' 1 False First (Unary ''bvnot'') ''Not'' ENot) NotK [a] 0 (- 1) d w"
    using z by (auto simp: facts b m algebra_simps simp del: One_nat_def)
qed

text \<open>C33: the offset algebra of \<open>lang/mod.rs\<close> holds of the evaluation, modulo \<open>2 ^ w\<close>: adding \<open>d\<close>
  to an operand moves the result by its \<open>offset_coefficient\<close> times \<open>d\<close>; an \<open>identity\<close> constant makes
  a binary operator its other operand; and over zero operands an operator with offset
  coefficients gives its \<open>bias\<close>, up to 64 bits.\<close>

theorem offset_algebra:
  assumes "scalar_op k = Some p" "length xs = op_arity p" "\<forall>x \<in> set (d # xs). ap_wf x \<and> ap_width x = w"
    and "kind_offset_coefficient k i = Some c"
  shows "(\<exists>s r r'. ap_add (xs ! i) d = Some s \<and> eval_int p xs = Some r \<and> eval_int p (xs[i := s]) = Some r' \<and>
      ap_width r' = w \<and> int (ap_uval r') = (int (ap_uval r) + c * int (ap_uval d)) mod 2 ^ w) \<and>
    (\<forall>v. kind_identity k i = Some v \<and> ap_uval (xs ! i) = unat v mod 2 ^ w \<longrightarrow>
      (\<exists>r. eval_int p xs = Some r \<and> ap_width r = w \<and> ap_uval r = ap_uval (xs ! (1 - i)))) \<and>
    ((\<forall>x \<in> set xs. ap_uval x = 0) \<and> w \<le> 64 \<longrightarrow>
      (\<exists>r. eval_int p xs = Some r \<and> ap_width r = w \<and> ap_uval r = unat (kind_bias k) mod 2 ^ w))"
proof -
  have kinds: "k = Add \<and> (i = 0 \<or> i = 1) \<and> c = 1 \<or> k = Sub \<and> (i = 0 \<and> c = 1 \<or> i = 1 \<and> c = - 1) \<or> k = Neg \<and> i = 0 \<and> c = - 1 \<or>
      k = NotK \<and> i = 0 \<and> c = - 1"
    using assms(4) unfolding kind_offset_coefficient_def by (metis option.sel option.distinct(1))
  have d: "ap_wf d" "ap_width d = w" using assms(3) by simp_all
  have "linear_meets p k xs i c d w"
  proof (cases "k = Add \<or> k = Sub")
    case True
    then have "op_arity p = 2" using assms(1) by (elim disjE; hypsubst) (simp_all add: linear_kinds op_def)
    then obtain a b where xs: "xs = [a, b]" using assms(2) length_2 by metis
    then have "ap_wf a" "ap_wf b" "ap_width a = w" "ap_width b = w" using assms(3) by simp_all
    note bin = linear_binary [OF this(1,2) d(1) this(3,4) d(2)]
    show ?thesis using True
    proof
      assume "k = Add"
      then have "i = 0 \<or> i = 1" "c = 1" using kinds by simp_all
      then show ?thesis using bin(1,2) assms(1) \<open>k = Add\<close> by (elim disjE; hypsubst) (simp_all only: linear_kinds xs)
    next
      assume "k = Sub"
      then have "i = 0 \<and> c = 1 \<or> i = 1 \<and> c = - 1" using kinds by simp_all
      then show ?thesis using bin(3,4) assms(1) \<open>k = Sub\<close> by (elim disjE conjE; hypsubst) (simp_all only: linear_kinds xs)
    qed
  next
    case False
    then have k: "k = Neg \<or> k = NotK" "i = 0" "c = - 1" using kinds by blast+
    have "op_arity p = 1" using assms(1) k(1) by (elim disjE; hypsubst) (simp_all add: linear_kinds op_def)
    then obtain a where xs: "xs = [a]" using assms(2) length_1 by metis
    then have "ap_wf a" "ap_width a = w" using assms(3) by simp_all
    note un = linear_unary [OF this(1) d(1) this(2) d(2)]
    show ?thesis using k(1) un assms(1) by (elim disjE; hypsubst) (simp_all only: linear_kinds xs k(2,3))
  qed
  then show ?thesis unfolding linear_meets_def .
qed

theorem offset_algebra_witness:
  "\<exists>s r r'. ap_add minus_one_72 three_72 = Some s \<and>
    eval_int (op NotK ''not'' 1 False First (Unary ''bvnot'') ''Not'' ENot) [minus_one_72] = Some r \<and>
    eval_int (op NotK ''not'' 1 False First (Unary ''bvnot'') ''Not'' ENot) [s] = Some r' \<and>
    int (ap_uval r') = (int (ap_uval r) + (- 1) * 3) mod 2 ^ 72"
proof -
  let ?p = "op NotK ''not'' 1 False First (Unary ''bvnot'') ''Not'' ENot"
  have p: "scalar_op NotK = Some ?p" by (simp only: linear_kinds)
  have "length [minus_one_72] = op_arity ?p" by (simp add: op_def)
  moreover have "\<forall>x \<in> set (three_72 # [minus_one_72]). ap_wf x \<and> ap_width x = 72" by (simp add: wide_examples)
  moreover have "kind_offset_coefficient NotK 0 = Some (- 1)" by (simp add: kind_offset_coefficient_def)
  ultimately show ?thesis using offset_algebra [OF p] by (fastforce simp: wide_examples simp del: One_nat_def)
qed

text \<open>C34: each atomic read-modify-write operation, on well-formed values of one width, computes its
  operation on the numbers: wrapping addition, bitwise operations, the new value for a swap, and
  the smaller or larger of the two by the signed or the unsigned reading whatever their flags are.\<close>

theorem atomic_rmw_numeric:
  assumes "ap_wf old" "ap_wf val" "ap_width old = ap_width val"
  shows "\<exists>r. rmw_apply rmw old val = Some r \<and> ap_wf r \<and> ap_width r = ap_width old \<and>
    (case rmw of
       RmwAdd \<Rightarrow> ap_uval r = (ap_uval old + ap_uval val) mod 2 ^ ap_width old
     | RmwSwap \<Rightarrow> r = val
     | RmwXor \<Rightarrow> ap_uval r = ap_uval old XOR ap_uval val
     | RmwAnd \<Rightarrow> ap_uval r = ap_uval old AND ap_uval val
     | RmwOr \<Rightarrow> ap_uval r = ap_uval old OR ap_uval val
     | RmwMin \<Rightarrow> r \<in> {old, val} \<and> ap_sval r = min (ap_sval old) (ap_sval val)
     | RmwMax \<Rightarrow> r \<in> {old, val} \<and> ap_sval r = max (ap_sval old) (ap_sval val)
     | RmwMinU \<Rightarrow> r \<in> {old, val} \<and> ap_uval r = min (ap_uval old) (ap_uval val)
     | RmwMaxU \<Rightarrow> r \<in> {old, val} \<and> ap_uval r = max (ap_uval old) (ap_uval val))"
proof -
  have w: "0 < ap_width val" "ap_uval old < 2 ^ ap_width val" "ap_uval val < 2 ^ ap_width val"
    using assms ap_wf_pos [of val] ap_uval_lt [of old] ap_uval_lt [of val] by simp_all
  note bits = bitwise_lt [OF w(2,3)]
  have same: "ap_wf (ap_with_signed x s)" "ap_width (ap_with_signed x s) = ap_width x" "ap_uval (ap_with_signed x s) = ap_uval x"
      "ap_sval (ap_with_signed x s) = ap_sval x" if "ap_wf x" for x s
    using that ap_wf_pos [of x] ap_uval_lt [of x] by (simp_all add: ap_with_signed_eq ap_of_wf ap_of_uval ap_sval_def)
  note pred = ap_predicates_eq [OF same(1) [OF assms(1)] same(1) [OF assms(2)]]
  have add: "nat ((int (ap_uval old) + int (ap_uval val)) mod 2 ^ ap_width val) = (ap_uval old + ap_uval val) mod 2 ^ ap_width val"
    by (metis nat_int of_nat_add of_nat_mod of_nat_numeral of_nat_power)
  show ?thesis
    using assms w bits
    by (cases rmw) (auto simp: rmw_apply_def pred same ap_add_eq ap_bitwise_eq ap_of_wf ap_of_int_wf ap_of_uval ap_of_int_def add)
qed

theorem atomic_rmw_numeric_witness:
  "\<exists>r. rmw_apply RmwMin minus_one_72 three_72 = Some r \<and> r \<in> {minus_one_72, three_72} \<and>
    ap_sval r = min (ap_sval minus_one_72) (ap_sval three_72)"
  using atomic_rmw_numeric [of minus_one_72 three_72 RmwMin] by (auto simp: wide_examples)

end
