(* ===== verification/DagGraph.thy ===== *)
theory DagGraph
  imports Prelude "HOL-Library.Multiset"
begin

text \<open>
  The append-only graph of \<open>libs/adt/src/dag.rs\<close>: nodes in topological order, the children of a
  node in one contiguous run of \<open>edges\<close> between two \<open>edge_bounds\<close>, leaf payloads and
  annotations in dense side vectors reached through slots. \<open>NO_SLOT\<close> is \<open>None\<close>. An index out of
  range or a failed \<open>assert!\<close> is \<open>None\<close>.

  \<open>dag_view\<close> reads a graph as the list of its nodes with their children, payload and annotation;
  every operation refines the obvious one on that list. The traversals are related to reachability
  along the child relation.
\<close>

subsection \<open>The structure\<close>

record ('n, 'l, 'a) Dag =
  dag_nodes :: "'n list"
  dag_edge_bounds :: "nat list"
  dag_edges :: "nat list"
  dag_leaf_slots :: "nat option list"
  dag_leaves :: "'l list"
  dag_annotation_slots :: "nat option list"
  dag_annotations :: "'a list"

definition dag_new :: "('n, 'l, 'a) Dag" where
  "dag_new = \<lparr>dag_nodes = [], dag_edge_bounds = [0], dag_edges = [], dag_leaf_slots = [], dag_leaves = [],
     dag_annotation_slots = [], dag_annotations = []\<rparr>"

definition dag_len :: "('n, 'l, 'a) Dag \<Rightarrow> nat" where
  "dag_len g = length (dag_nodes g)"

definition dag_is_empty :: "('n, 'l, 'a) Dag \<Rightarrow> bool" where
  "dag_is_empty g = (dag_nodes g = [])"

definition dag_root :: "('n, 'l, 'a) Dag \<Rightarrow> nat option" where
  "dag_root g = (if length (dag_nodes g) < 1 then None else Some (length (dag_nodes g) - 1))"

definition get_node :: "('n, 'l, 'a) Dag \<Rightarrow> nat \<Rightarrow> 'n option" where
  "get_node g n = (if n < length (dag_nodes g) then Some (dag_nodes g ! n) else None)"

text \<open>\<open>slot\<close> and a slot's value: the outer \<open>None\<close> is the panic, the inner one an absent value.\<close>

definition get_slot :: "nat option list \<Rightarrow> 'b list \<Rightarrow> nat \<Rightarrow> 'b option option" where
  "get_slot slots values n =
     (if n < length slots then
        (case slots ! n of
           None \<Rightarrow> Some None
         | Some k \<Rightarrow> if k < length values then Some (Some (values ! k)) else None)
      else None)"

definition get_leaf_data :: "('n, 'l, 'a) Dag \<Rightarrow> nat \<Rightarrow> 'l option option" where
  "get_leaf_data g n = get_slot (dag_leaf_slots g) (dag_leaves g) n"

definition get_annotation :: "('n, 'l, 'a) Dag \<Rightarrow> nat \<Rightarrow> 'a option option" where
  "get_annotation g n = get_slot (dag_annotation_slots g) (dag_annotations g) n"

definition edge_range :: "('n, 'l, 'a) Dag \<Rightarrow> nat \<Rightarrow> (nat \<times> nat) option" where
  "edge_range g n =
     (if n + 1 < length (dag_edge_bounds g) then Some (dag_edge_bounds g ! n, dag_edge_bounds g ! (n + 1)) else None)"

definition children :: "('n, 'l, 'a) Dag \<Rightarrow> nat \<Rightarrow> nat list option" where
  "children g n =
     (case edge_range g n of
        None \<Rightarrow> None
      | Some (a, b) \<Rightarrow>
          if a \<le> b \<and> b \<le> length (dag_edges g) then Some (take (b - a) (drop a (dag_edges g))) else None)"

definition add_node :: "('n, 'l, 'a) Dag \<Rightarrow> 'n \<Rightarrow> nat \<times> ('n, 'l, 'a) Dag" where
  "add_node g n =
     (length (dag_nodes g),
      g\<lparr>dag_nodes := dag_nodes g @ [n], dag_edge_bounds := dag_edge_bounds g @ [length (dag_edges g)],
        dag_leaf_slots := dag_leaf_slots g @ [None], dag_annotation_slots := dag_annotation_slots g @ [None]\<rparr>)"

definition add_edge :: "('n, 'l, 'a) Dag \<Rightarrow> nat \<Rightarrow> nat \<Rightarrow> ('n, 'l, 'a) Dag option" where
  "add_edge g from to =
     (if from + 1 \<noteq> length (dag_nodes g) then None
      else if \<not> to < from then None
      else if dag_edge_bounds g = [] then None
      else
        (let last = length (dag_edge_bounds g) - 1
         in Some (g\<lparr>dag_edges := dag_edges g @ [to],
                    dag_edge_bounds := (dag_edge_bounds g)[last := dag_edge_bounds g ! last + 1]\<rparr>)))"

definition set_slot :: "nat option list \<Rightarrow> 'b list \<Rightarrow> nat \<Rightarrow> 'b \<Rightarrow> (nat option list \<times> 'b list) option" where
  "set_slot slots values n v =
     (if n < length slots then
        (case slots ! n of
           Some k \<Rightarrow> if k < length values then Some (slots, values[k := v]) else None
         | None \<Rightarrow> Some (slots[n := Some (length values)], values @ [v]))
      else None)"

definition set_leaf_data :: "('n, 'l, 'a) Dag \<Rightarrow> nat \<Rightarrow> 'l \<Rightarrow> ('n, 'l, 'a) Dag option" where
  "set_leaf_data g n d =
     map_option (\<lambda>(slots, leaves). g\<lparr>dag_leaf_slots := slots, dag_leaves := leaves\<rparr>)
       (set_slot (dag_leaf_slots g) (dag_leaves g) n d)"

definition set_annotation :: "('n, 'l, 'a) Dag \<Rightarrow> nat \<Rightarrow> 'a \<Rightarrow> ('n, 'l, 'a) Dag option" where
  "set_annotation g n a =
     map_option (\<lambda>(slots, anns). g\<lparr>dag_annotation_slots := slots, dag_annotations := anns\<rparr>)
       (set_slot (dag_annotation_slots g) (dag_annotations g) n a)"

text \<open>\<open>annotation_mut\<close> followed by the caller's update of the annotation it returns.\<close>

definition annotation_mut :: "'a \<Rightarrow> ('n, 'l, 'a) Dag \<Rightarrow> nat \<Rightarrow> ('a \<Rightarrow> 'a) \<Rightarrow> ('n, 'l, 'a) Dag option" where
  "annotation_mut dflt g n f =
     (if n < length (dag_annotation_slots g) then
        (let (slot, g) = (case dag_annotation_slots g ! n of
              Some slot \<Rightarrow> (slot, g)
            | None \<Rightarrow>
                (length (dag_annotations g),
                 g\<lparr>dag_annotation_slots := (dag_annotation_slots g)[n := Some (length (dag_annotations g))],
                   dag_annotations := dag_annotations g @ [dflt]\<rparr>))
         in if slot < length (dag_annotations g)
            then Some (g\<lparr>dag_annotations := (dag_annotations g)[slot := f (dag_annotations g ! slot)]\<rparr>) else None)
      else None)"

subsection \<open>Traversals\<close>

lemma unmarked_less: "i < length v \<Longrightarrow> \<not> v ! i \<Longrightarrow> length (filter Not (v[i := True])) < length (filter Not v)"
  by (induction v arbitrary: i) (auto split: nat.splits)

text \<open>The stack of the depth-first iterator; the top is the head. The result lists the nodes in the
  order the iterator yields them.\<close>

function preorder_loop :: "('n, 'l, 'a) Dag \<Rightarrow> bool list \<Rightarrow> nat list \<Rightarrow> nat list option" where
  "preorder_loop g visited [] = Some []"
| "preorder_loop g visited (node # stack) =
     (if length visited \<le> node then None
      else if visited ! node then preorder_loop g visited stack
      else case children g node of
        None \<Rightarrow> None
      | Some cs \<Rightarrow> map_option (Cons node) (preorder_loop g (visited[node := True]) (cs @ stack)))"
  by pat_completeness auto
termination
  by (relation "measures [\<lambda>(g, visited, stack). length (filter Not visited), \<lambda>(g, visited, stack). length stack]")
    (simp_all add: unmarked_less)

declare preorder_loop.simps [simp del]

definition preorder :: "('n, 'l, 'a) Dag \<Rightarrow> nat \<Rightarrow> nat list option" where
  "preorder g start = preorder_loop g (replicate (start + 1) False) [start]"

text \<open>The marks of one node's children, counting the new ones; a child below the floor is skipped.\<close>

fun mark_children :: "nat list \<Rightarrow> nat \<Rightarrow> bool list \<Rightarrow> nat \<Rightarrow> (bool list \<times> nat) option" where
  "mark_children [] floor reached pending = Some (reached, pending)"
| "mark_children (child # cs) floor reached pending =
     (if child < floor then mark_children cs floor reached pending
      else if length reached \<le> child - floor then None
      else mark_children cs floor (reached[child - floor := True])
             (if reached ! (child - floor) then pending else pending + 1))"

text \<open>The sweep from \<open>k + floor - 1\<close> down to the floor.\<close>

fun reachable_loop ::
  "('n, 'l, 'a) Dag \<Rightarrow> nat \<Rightarrow> nat \<Rightarrow> bool list \<Rightarrow> nat \<Rightarrow> nat \<Rightarrow> (bool list \<times> nat) option" where
  "reachable_loop g floor 0 reached pending low = Some (reached, low)"
| "reachable_loop g floor (Suc k) reached pending low =
     (if pending = 0 then Some (reached, low)
      else if length reached \<le> k then None
      else if \<not> reached ! k then reachable_loop g floor k reached pending low
      else case children g (k + floor) of
        None \<Rightarrow> None
      | Some cs \<Rightarrow>
          (case mark_children cs floor reached (pending - 1) of
             None \<Rightarrow> None
           | Some (reached, pending) \<Rightarrow> reachable_loop g floor k reached pending (k + floor)))"

definition reachable :: "('n, 'l, 'a) Dag \<Rightarrow> nat \<Rightarrow> nat \<Rightarrow> (nat \<times> bool list) option" where
  "reachable g start floor =
     (if start < floor then None
      else
        (let reached = (replicate (start + 1 - floor) False)[start - floor := True]
         in case reachable_loop g floor (start + 1 - floor) reached 1 start of
              None \<Rightarrow> None
            | Some (reached, low) \<Rightarrow> Some (low, drop (low - floor) reached)))"

definition postorder :: "('n, 'l, 'a) Dag \<Rightarrow> nat \<Rightarrow> nat list option" where
  "postorder g start =
     (case reachable g start 0 of
        None \<Rightarrow> None
      | Some (low, reached) \<Rightarrow> Some (filter (\<lambda>i. reached ! (i - low)) [low..<start + 1]))"

definition reaches :: "('n, 'l, 'a) Dag \<Rightarrow> nat \<Rightarrow> nat \<Rightarrow> bool option" where
  "reaches g from to =
     (if from < to then Some False
      else case reachable g from to of
        None \<Rightarrow> None
      | Some (low, reached) \<Rightarrow> Some (low = to \<and> reached ! 0))"

partial_function (option) subgraph_eq_loop ::
  "('n, 'l, 'a) Dag \<Rightarrow> ('n, 'l, 'b) Dag \<Rightarrow> (nat \<times> nat) list \<Rightarrow> bool option" where
  "subgraph_eq_loop g h pending =
     (case pending of
        [] \<Rightarrow> Some True
      | (lhs, rhs) # rest \<Rightarrow>
          (case (children g lhs, children h rhs, get_node g lhs, get_node h rhs, get_leaf_data g lhs, get_leaf_data h rhs) of
             (Some cs, Some ds, Some n, Some m, Some l, Some k) \<Rightarrow>
               (if n \<noteq> m \<or> l \<noteq> k \<or> length cs \<noteq> length ds then Some False
                else subgraph_eq_loop g h (rev (zip cs ds) @ rest))
           | _ \<Rightarrow> None))"

definition subgraph_eq :: "('n, 'l, 'a) Dag \<Rightarrow> nat \<Rightarrow> ('n, 'l, 'b) Dag \<Rightarrow> nat \<Rightarrow> bool option" where
  "subgraph_eq g root h other_root = subgraph_eq_loop g h [(root, other_root)]"

subsection \<open>The graph as a list of nodes\<close>

record ('n, 'l, 'a) NodeView =
  nv_node :: 'n
  nv_children :: "nat list"
  nv_leaf :: "'l option"
  nv_annotation :: "'a option"

definition kids :: "('n, 'l, 'a) Dag \<Rightarrow> nat \<Rightarrow> nat list" where
  "kids g n = take (dag_edge_bounds g ! (n + 1) - dag_edge_bounds g ! n) (drop (dag_edge_bounds g ! n) (dag_edges g))"

definition slot_value :: "nat option list \<Rightarrow> 'b list \<Rightarrow> nat \<Rightarrow> 'b option" where
  "slot_value slots values n = map_option (\<lambda>k. values ! k) (slots ! n)"

definition slots_wf :: "nat option list \<Rightarrow> 'b list \<Rightarrow> nat \<Rightarrow> bool" where
  "slots_wf slots values n \<longleftrightarrow> length slots = n \<and> (\<forall>i < n. \<forall>k. slots ! i = Some k \<longrightarrow> k < length values) \<and>
     (\<forall>i < n. \<forall>j < n. \<forall>k. slots ! i = Some k \<longrightarrow> slots ! j = Some k \<longrightarrow> i = j)"

definition dag_wf :: "('n, 'l, 'a) Dag \<Rightarrow> bool" where
  "dag_wf g \<longleftrightarrow> length (dag_edge_bounds g) = dag_len g + 1 \<and> sorted (dag_edge_bounds g) \<and>
     last (dag_edge_bounds g) = length (dag_edges g) \<and> (\<forall>i < dag_len g. \<forall>c \<in> set (kids g i). c < i) \<and>
     slots_wf (dag_leaf_slots g) (dag_leaves g) (dag_len g) \<and>
     slots_wf (dag_annotation_slots g) (dag_annotations g) (dag_len g)"

definition node_view :: "('n, 'l, 'a) Dag \<Rightarrow> nat \<Rightarrow> ('n, 'l, 'a) NodeView" where
  "node_view g i = \<lparr>nv_node = dag_nodes g ! i, nv_children = kids g i,
     nv_leaf = slot_value (dag_leaf_slots g) (dag_leaves g) i,
     nv_annotation = slot_value (dag_annotation_slots g) (dag_annotations g) i\<rparr>"

definition dag_view :: "('n, 'l, 'a) Dag \<Rightarrow> ('n, 'l, 'a) NodeView list" where
  "dag_view g = map (node_view g) [0..<dag_len g]"

lemma length_dag_view [simp]: "length (dag_view g) = dag_len g"
  by (simp add: dag_view_def)

lemma nth_dag_view [simp]: "i < dag_len g \<Longrightarrow> dag_view g ! i = node_view g i"
  by (simp add: dag_view_def)

lemma bounds_le:
  assumes "dag_wf g" "i < dag_len g"
  shows "dag_edge_bounds g ! i \<le> dag_edge_bounds g ! (i + 1)" "dag_edge_bounds g ! (i + 1) \<le> length (dag_edges g)"
proof -
  have b: "length (dag_edge_bounds g) = dag_len g + 1" "sorted (dag_edge_bounds g)" "last (dag_edge_bounds g) = length (dag_edges g)"
    using assms(1) by (auto simp: dag_wf_def)
  show "dag_edge_bounds g ! i \<le> dag_edge_bounds g ! (i + 1)" using b assms(2) by (intro sorted_nth_mono) auto
  have "dag_edge_bounds g ! (i + 1) \<le> dag_edge_bounds g ! dag_len g" using b assms(2) by (intro sorted_nth_mono) auto
  moreover have "dag_edge_bounds g ! dag_len g = length (dag_edges g)" using b by (metis add_diff_cancel_right' last_conv_nth length_0_conv add_is_0 zero_neq_one)
  ultimately show "dag_edge_bounds g ! (i + 1) \<le> length (dag_edges g)" by simp
qed

lemma children_eq: "dag_wf g \<Longrightarrow> children g i = (if i < dag_len g then Some (kids g i) else None)"
  using bounds_le [of g i] by (auto simp: children_def edge_range_def kids_def dag_wf_def)

lemma get_slot_eq: "slots_wf slots values n \<Longrightarrow> get_slot slots values i = (if i < n then Some (slot_value slots values i) else None)"
  by (auto simp: get_slot_def slots_wf_def slot_value_def split: option.splits)

lemma set_slot_eq:
  assumes "slots_wf slots values n"
  shows "if i < n then \<exists>slots' values'. set_slot slots values i v = Some (slots', values') \<and> slots_wf slots' values' n \<and>
      (\<forall>j < n. slot_value slots' values' j = (if j = i then Some v else slot_value slots values j))
    else set_slot slots values i v = None"
proof (cases "i < n")
  case True
  show ?thesis
  proof (cases "slots ! i")
    case None
    then have "set_slot slots values i v = Some (slots[i := Some (length values)], values @ [v])"
      using True assms by (simp add: set_slot_def slots_wf_def)
    moreover have "slots_wf (slots[i := Some (length values)]) (values @ [v]) n"
      using assms True by (auto simp: slots_wf_def nth_list_update less_SucI)
    moreover have "slot_value (slots[i := Some (length values)]) (values @ [v]) j = (if j = i then Some v else slot_value slots values j)"
      if "j < n" for j
      using assms True that by (cases "slots ! j") (auto simp: slot_value_def slots_wf_def nth_list_update nth_append)
    ultimately show ?thesis using True
      by (simp only: if_True) (rule exI [of _ "slots[i := Some (length values)]"], rule exI [of _ "values @ [v]"], simp)
  next
    case (Some k)
    then have k: "k < length values" using assms True by (simp add: slots_wf_def)
    then have "set_slot slots values i v = Some (slots, values[k := v])"
      using True assms Some by (simp add: set_slot_def slots_wf_def)
    moreover have "slots_wf slots (values[k := v]) n" using assms by (simp add: slots_wf_def)
    moreover have "slot_value slots (values[k := v]) j = (if j = i then Some v else slot_value slots values j)" if "j < n" for j
    proof (cases "j = i")
      case False
      then have "slots ! j \<noteq> Some k" using assms Some True that by (auto simp: slots_wf_def)
      then show ?thesis using False by (cases "slots ! j") (auto simp: slot_value_def)
    qed (use Some k in \<open>simp add: slot_value_def\<close>)
    ultimately show ?thesis using True
      by (simp only: if_True) (rule exI [of _ slots], rule exI [of _ "values[k := v]"], simp)
  qed
qed (use assms in \<open>simp add: set_slot_def slots_wf_def\<close>)

lemma last_bound: "dag_wf g \<Longrightarrow> dag_edge_bounds g ! dag_len g = length (dag_edges g)"
  unfolding dag_wf_def by (metis add_diff_cancel_right' last_conv_nth length_0_conv add_is_0 zero_neq_one)

lemma add_node_view:
  fixes x
  assumes "dag_wf g"
  defines "h \<equiv> snd (add_node g x)"
  shows "dag_wf h" "dag_view h = dag_view g @ [\<lparr>nv_node = x, nv_children = [], nv_leaf = None, nv_annotation = None\<rparr>]"
proof -
  have b: "length (dag_edge_bounds g) = dag_len g + 1" "sorted (dag_edge_bounds g)" "last (dag_edge_bounds g) = length (dag_edges g)"
    "slots_wf (dag_leaf_slots g) (dag_leaves g) (dag_len g)" "slots_wf (dag_annotation_slots g) (dag_annotations g) (dag_len g)"
    using assms(1) by (auto simp: dag_wf_def)
  have len: "dag_len h = Suc (dag_len g)" by (simp add: h_def add_node_def dag_len_def)
  have old: "node_view h i = node_view g i" "kids h i = kids g i" if "i < dag_len g" for i
    using that b by (auto simp: node_view_def kids_def slot_value_def slots_wf_def h_def add_node_def dag_len_def nth_append)
  have new: "kids h (dag_len g) = []"
    using b last_bound [OF assms(1)] by (simp add: kids_def h_def add_node_def nth_append)
  have nv: "node_view h (dag_len g) = \<lparr>nv_node = x, nv_children = [], nv_leaf = None, nv_annotation = None\<rparr>"
    using b new by (auto simp: node_view_def slot_value_def slots_wf_def h_def add_node_def dag_len_def nth_append)
  show "dag_view h = dag_view g @ [\<lparr>nv_node = x, nv_children = [], nv_leaf = None, nv_annotation = None\<rparr>]"
    using old nv by (simp add: dag_view_def len)
  have "\<forall>y \<in> set (dag_edge_bounds g). y \<le> length (dag_edges g)"
  proof
    fix y assume "y \<in> set (dag_edge_bounds g)"
    then obtain k where "k \<le> dag_len g" "y = dag_edge_bounds g ! k" using b(1) by (auto simp: in_set_conv_nth less_Suc_eq_le)
    then show "y \<le> length (dag_edges g)"
      using sorted_nth_mono [OF b(2), of k "dag_len g"] last_bound [OF assms(1)] b(1) by simp
  qed
  then have "sorted (dag_edge_bounds h)" using b(2) by (simp add: h_def add_node_def sorted_append)
  moreover have "\<forall>i < dag_len h. \<forall>c \<in> set (kids h i). c < i"
    using assms(1) old(2) new by (auto simp: len less_Suc_eq dag_wf_def)
  moreover have "slots_wf (dag_leaf_slots h) (dag_leaves h) (dag_len h)" "slots_wf (dag_annotation_slots h) (dag_annotations h) (dag_len h)"
    using b(4,5) unfolding len by (auto simp: slots_wf_def h_def add_node_def nth_append less_Suc_eq)
  ultimately show "dag_wf h" using b(1) len by (simp add: dag_wf_def) (simp add: h_def add_node_def)
qed

lemma add_edge_view:
  assumes "dag_wf g"
  shows "if m + 1 = dag_len g \<and> to < m
    then \<exists>h. add_edge g m to = Some h \<and> dag_wf h \<and>
      dag_view h = (dag_view g)[m := (node_view g m)\<lparr>nv_children := kids g m @ [to]\<rparr>]
    else add_edge g m to = None"
proof (cases "m + 1 = dag_len g \<and> to < m")
  case True
  let ?b = "dag_edge_bounds g" and ?n = "dag_len g"
  have b: "length ?b = ?n + 1" "sorted ?b" "?b ! ?n = length (dag_edges g)" "slots_wf (dag_leaf_slots g) (dag_leaves g) ?n"
      "slots_wf (dag_annotation_slots g) (dag_annotations g) ?n"
    using assms(1) last_bound [OF assms] by (auto simp: dag_wf_def)
  define h where "h = g\<lparr>dag_edges := dag_edges g @ [to], dag_edge_bounds := ?b[?n := ?b ! ?n + 1]\<rparr>"
  have h: "add_edge g m to = Some h" using True b by (auto simp: add_edge_def h_def dag_len_def Let_def)
  have len: "dag_len h = ?n" "length (dag_edge_bounds h) = ?n + 1" using b by (simp_all add: h_def dag_len_def)
  have bh: "dag_edge_bounds h ! i = (if i = ?n then length (dag_edges g) + 1 else ?b ! i)" if "i \<le> ?n" for i
    using that b by (simp add: h_def nth_list_update)
  have kold: "kids h i = kids g i" if "i < m" for i
  proof -
    have i: "i < ?n" "i + 1 < ?n" using that True by auto
    then show ?thesis using bounds_le [OF assms i(1)] bh [of i] bh [of "i + 1"] by (simp add: kids_def h_def)
  qed
  have f: "m < ?n" "m + 1 = ?n" using True by auto
  have knew: "kids h m = kids g m @ [to]"
    using bounds_le(1) [OF assms f(1)] f(2) bh [of m] bh [of ?n] b(3)
    by (simp add: kids_def h_def Suc_diff_le)
  have view: "node_view h i = (if i = m then (node_view g m)\<lparr>nv_children := kids g m @ [to]\<rparr> else node_view g i)"
    if "i < ?n" for i
    using that f kold [of i] knew by (auto simp: node_view_def) (simp_all add: h_def)
  have "dag_view h = (dag_view g)[m := (node_view g m)\<lparr>nv_children := kids g m @ [to]\<rparr>]"
    using view f by (intro nth_equalityI) (auto simp: len nth_list_update)
  moreover have "dag_wf h"
  proof -
    have "sorted (dag_edge_bounds h)"
      unfolding sorted_iff_nth_mono len
    proof (intro allI impI)
      fix i j assume ij: "i \<le> j" "j < ?n + 1"
      have "?b ! i \<le> ?b ! j" using ij b by (intro sorted_nth_mono) auto
      moreover have "?b ! i \<le> length (dag_edges g)" using sorted_nth_mono [OF b(2), of i ?n] ij b by simp
      ultimately show "dag_edge_bounds h ! i \<le> dag_edge_bounds h ! j" using ij bh [of i] bh [of j] by auto
    qed
    moreover have "last (dag_edge_bounds h) = length (dag_edges h)"
    proof -
      have "dag_edge_bounds h \<noteq> []" using len(2) by auto
      then have "last (dag_edge_bounds h) = dag_edge_bounds h ! ?n" using len(2) by (simp add: last_conv_nth)
      moreover have "length (dag_edges h) = length (dag_edges g) + 1" by (simp add: h_def)
      ultimately show ?thesis using bh [of ?n] by simp
    qed
    moreover have "\<forall>i < ?n. \<forall>c \<in> set (kids h i). c < i"
    proof (intro allI impI)
      fix i assume i: "i < ?n"
      have k: "\<forall>c \<in> set (kids g i). c < i" using assms i by (simp add: dag_wf_def)
      show "\<forall>c \<in> set (kids h i). c < i"
      proof (cases "i = m")
        case False
        then show ?thesis using i f kold [of i] k by simp
      qed (use knew k True in auto)
    qed
    ultimately show ?thesis using b(4,5) len by (simp add: dag_wf_def) (simp add: h_def)
  qed
  ultimately show ?thesis using True h by auto
next
  case False
  then show ?thesis by (auto simp: add_edge_def dag_len_def)
qed

lemma set_leaf_view:
  assumes "dag_wf g"
  shows "if n < dag_len g
    then \<exists>h. set_leaf_data g n d = Some h \<and> dag_wf h \<and> dag_view h = (dag_view g)[n := (node_view g n)\<lparr>nv_leaf := Some d\<rparr>]
    else set_leaf_data g n d = None"
proof -
  have w: "slots_wf (dag_leaf_slots g) (dag_leaves g) (dag_len g)" using assms by (simp add: dag_wf_def)
  note ss = set_slot_eq [OF w, of n d]
  show ?thesis
  proof (cases "n < dag_len g")
    case True
    then obtain sl vs where s: "set_slot (dag_leaf_slots g) (dag_leaves g) n d = Some (sl, vs)" "slots_wf sl vs (dag_len g)"
        "\<forall>j < dag_len g. slot_value sl vs j = (if j = n then Some d else slot_value (dag_leaf_slots g) (dag_leaves g) j)"
      using ss by auto
    define h where "h = g\<lparr>dag_leaf_slots := sl, dag_leaves := vs\<rparr>"
    have len: "dag_len h = dag_len g" "\<And>i. kids h i = kids g i" by (simp_all add: h_def dag_len_def kids_def)
    have "node_view h i = (if i = n then (node_view g n)\<lparr>nv_leaf := Some d\<rparr> else node_view g i)" if "i < dag_len g" for i
      using that s(3) len by (auto simp: node_view_def) (simp_all add: h_def)
    then have "dag_view h = (dag_view g)[n := (node_view g n)\<lparr>nv_leaf := Some d\<rparr>]"
      using True by (intro nth_equalityI) (auto simp: len nth_list_update)
    moreover have "dag_wf h" using assms s(2) len by (simp add: dag_wf_def) (simp add: h_def)
    moreover have "set_leaf_data g n d = Some h" using s(1) by (simp add: set_leaf_data_def h_def)
    ultimately show ?thesis using True by auto
  qed (use ss in \<open>simp add: set_leaf_data_def\<close>)
qed

lemma set_annotation_view:
  assumes "dag_wf g"
  shows "if n < dag_len g
    then \<exists>h. set_annotation g n a = Some h \<and> dag_wf h \<and> dag_view h = (dag_view g)[n := (node_view g n)\<lparr>nv_annotation := Some a\<rparr>]
    else set_annotation g n a = None"
proof -
  have w: "slots_wf (dag_annotation_slots g) (dag_annotations g) (dag_len g)" using assms by (simp add: dag_wf_def)
  note ss = set_slot_eq [OF w, of n a]
  show ?thesis
  proof (cases "n < dag_len g")
    case True
    then obtain sl vs where s: "set_slot (dag_annotation_slots g) (dag_annotations g) n a = Some (sl, vs)" "slots_wf sl vs (dag_len g)"
        "\<forall>j < dag_len g. slot_value sl vs j = (if j = n then Some a else slot_value (dag_annotation_slots g) (dag_annotations g) j)"
      using ss by auto
    define h where "h = g\<lparr>dag_annotation_slots := sl, dag_annotations := vs\<rparr>"
    have len: "dag_len h = dag_len g" "\<And>i. kids h i = kids g i" by (simp_all add: h_def dag_len_def kids_def)
    have "node_view h i = (if i = n then (node_view g n)\<lparr>nv_annotation := Some a\<rparr> else node_view g i)" if "i < dag_len g" for i
      using that s(3) len by (auto simp: node_view_def) (simp_all add: h_def)
    then have "dag_view h = (dag_view g)[n := (node_view g n)\<lparr>nv_annotation := Some a\<rparr>]"
      using True by (intro nth_equalityI) (auto simp: len nth_list_update)
    moreover have "dag_wf h" using assms s(2) len by (simp add: dag_wf_def) (simp add: h_def)
    moreover have "set_annotation g n a = Some h" using s(1) by (simp add: set_annotation_def h_def)
    ultimately show ?thesis using True by auto
  qed (use ss in \<open>simp add: set_annotation_def\<close>)
qed

text \<open>\<open>annotation_mut\<close> is a \<open>set_annotation\<close> of the updated value.\<close>

lemma annotation_mut_eq:
  assumes "dag_wf g"
  shows "annotation_mut dflt g n f = (if n < dag_len g
    then set_annotation g n (f (case nv_annotation (node_view g n) of None \<Rightarrow> dflt | Some a \<Rightarrow> a)) else None)"
proof -
  have w: "slots_wf (dag_annotation_slots g) (dag_annotations g) (dag_len g)" using assms by (simp add: dag_wf_def)
  then have l: "length (dag_annotation_slots g) = dag_len g"
    "\<And>k. n < dag_len g \<Longrightarrow> dag_annotation_slots g ! n = Some k \<Longrightarrow> k < length (dag_annotations g)" by (auto simp: slots_wf_def)
  show ?thesis
    using l by (cases "dag_annotation_slots g ! n")
      (auto simp: annotation_mut_def set_annotation_def set_slot_def node_view_def slot_value_def Let_def)
qed

subsection \<open>Reachability\<close>

definition child_rel :: "('n, 'l, 'a) Dag \<Rightarrow> (nat \<times> nat) set" where
  "child_rel g = {(i, c). i < dag_len g \<and> c \<in> set (kids g i)}"

lemma child_lt: "dag_wf g \<Longrightarrow> (i, c) \<in> child_rel g \<Longrightarrow> c < i"
  by (auto simp: child_rel_def dag_wf_def)

lemma reach_le:
  assumes "(i, j) \<in> (child_rel g)\<^sup>*" "dag_wf g"
  shows "j \<le> i"
  using assms by (induction rule: rtrancl_induct) (auto dest: child_lt)

lemma kids_lt: "dag_wf g \<Longrightarrow> i < dag_len g \<Longrightarrow> c \<in> set (kids g i) \<Longrightarrow> c < i"
  by (auto simp: dag_wf_def)

text \<open>The iterator's loop yields, once each, the nodes reachable from the stack by unvisited paths.
  Visited nodes are closed: their children are visited or on the stack.\<close>

lemma preorder_loop_ok:
  assumes "dag_wf g" "\<forall>n \<in> set stack. n < length visited" "length visited \<le> dag_len g"
    and "\<forall>i < length visited. visited ! i \<longrightarrow> (\<forall>c \<in> set (kids g i). visited ! c \<or> c \<in> set stack)"
  shows "\<exists>ns. preorder_loop g visited stack = Some ns \<and> distinct ns \<and> (\<forall>n \<in> set ns. n < length visited \<and> \<not> visited ! n) \<and>
    set ns \<subseteq> (child_rel g)\<^sup>* `` set stack \<and> (\<forall>n \<in> set stack. visited ! n \<or> n \<in> set ns) \<and>
    (\<forall>i < length visited. visited ! i \<or> i \<in> set ns \<longrightarrow> (\<forall>c \<in> set (kids g i). visited ! c \<or> c \<in> set ns))"
  using assms
proof (induction g visited stack rule: preorder_loop.induct)
  case (1 g visited)
  then show ?case by (auto simp: preorder_loop.simps)
next
  case (2 g visited node stack)
  have n: "node < length visited" "node < dag_len g" using 2(4,5) by auto
  show ?case
  proof (cases "visited ! node")
    case True
    have "\<forall>i < length visited. visited ! i \<longrightarrow> (\<forall>c \<in> set (kids g i). visited ! c \<or> c \<in> set stack)"
      using 2(6) True by auto
    then obtain ns where "preorder_loop g visited stack = Some ns" "distinct ns" "\<forall>n \<in> set ns. n < length visited \<and> \<not> visited ! n"
        "set ns \<subseteq> (child_rel g)\<^sup>* `` set stack" "\<forall>n \<in> set stack. visited ! n \<or> n \<in> set ns"
        "\<forall>i < length visited. visited ! i \<or> i \<in> set ns \<longrightarrow> (\<forall>c \<in> set (kids g i). visited ! c \<or> c \<in> set ns)"
      using 2(1) n True 2(3,4,5) by auto
    moreover have "preorder_loop g visited (node # stack) = preorder_loop g visited stack"
      using True n by (simp add: preorder_loop.simps)
    ultimately show ?thesis using True by auto
  next
    case False
    let ?v = "visited[node := True]" and ?cs = "kids g node"
    have c: "children g node = Some ?cs" using children_eq [OF 2(3)] n by simp
    have cl: "\<forall>c \<in> set ?cs. c < node" using kids_lt [OF 2(3)] n by blast
    have cv: "\<forall>i < length ?v. ?v ! i \<longrightarrow> (\<forall>c \<in> set (kids g i). ?v ! c \<or> c \<in> set (?cs @ stack))"
      using 2(6) n by (auto simp: nth_list_update)
    then obtain ns where ns: "preorder_loop g ?v (?cs @ stack) = Some ns" "distinct ns" "\<forall>m \<in> set ns. m < length visited \<and> \<not> ?v ! m"
        "set ns \<subseteq> (child_rel g)\<^sup>* `` set (?cs @ stack)" "\<forall>m \<in> set (?cs @ stack). ?v ! m \<or> m \<in> set ns"
        "\<forall>i < length visited. ?v ! i \<or> i \<in> set ns \<longrightarrow> (\<forall>c \<in> set (kids g i). ?v ! c \<or> c \<in> set ns)"
      using 2(2) [OF _ False c] n 2(3,4,5) cl by fastforce
    have run: "preorder_loop g visited (node # stack) = Some (node # ns)"
      using False n c ns(1) by (simp add: preorder_loop.simps)
    have nn: "node \<notin> set ns" using ns(3) n by auto
    have vv: "\<And>m. ?v ! m \<longleftrightarrow> visited ! m \<or> m = node" using n by (auto simp: nth_list_update)
    have "(child_rel g)\<^sup>* `` set ?cs \<subseteq> (child_rel g)\<^sup>* `` {node}"
      using n by (auto simp: child_rel_def intro: converse_rtrancl_into_rtrancl)
    then have "set (node # ns) \<subseteq> (child_rel g)\<^sup>* `` set (node # stack)" using ns(4) unfolding set_append Image_Un by (simp, blast)
    then show ?thesis using run ns(2,3,5,6) nn n False vv by auto
  qed
qed

lemma mark_children_ok:
  assumes "\<forall>c \<in> set cs. floor \<le> c \<longrightarrow> c - floor < k" "k \<le> length reached" "pending = card {i. i < k \<and> reached ! i}"
  shows "\<exists>r p. mark_children cs floor reached pending = Some (r, p) \<and> length r = length reached \<and>
    (\<forall>i < length reached. r ! i \<longleftrightarrow> reached ! i \<or> i + floor \<in> set cs) \<and> p = card {i. i < k \<and> r ! i}"
  using assms
proof (induction cs floor reached pending rule: mark_children.induct)
  case (2 c cs floor reached pending)
  show ?case
  proof (cases "c < floor")
    case True
    then show ?thesis using 2 by (auto 0 3)
  next
    case False
    let ?r = "reached[c - floor := True]" and ?p = "if reached ! (c - floor) then pending else pending + 1"
    have c: "c - floor < k" "\<not> length reached \<le> c - floor" using 2(3,4) False by auto
    have "?p = card {i. i < k \<and> ?r ! i}"
    proof (cases "reached ! (c - floor)")
      case True
      then have "?r = reached" using list_update_id [of reached "c - floor"] by simp
      then show ?thesis using True 2(5) by simp
    next
      case False
      have "{i. i < k \<and> ?r ! i} = insert (c - floor) {i. i < k \<and> reached ! i}" using c by (auto simp: nth_list_update)
      then show ?thesis using False 2(5) by simp
    qed
    then obtain r p where "mark_children cs floor ?r ?p = Some (r, p)" "length r = length ?r"
        "\<forall>i < length ?r. r ! i \<longleftrightarrow> ?r ! i \<or> i + floor \<in> set cs" "p = card {i. i < k \<and> r ! i}"
      using 2(2) [OF False c(2)] 2(3,4) by auto
    then show ?thesis using False c by (auto simp: nth_list_update)
  qed
qed auto

lemma reachable_loop_ok:
  fixes L :: nat
  assumes "dag_wf g" "start < dag_len g" "L = start + 1 - floor" "floor \<le> start" "k \<le> L" "length reached = L"
    and "\<forall>i < L. reached ! i \<longrightarrow> (start, i + floor) \<in> (child_rel g)\<^sup>*"
    and "\<forall>i. k \<le> i \<and> i < L \<and> reached ! i \<longrightarrow> (\<forall>c \<in> set (kids g (i + floor)). floor \<le> c \<longrightarrow> reached ! (c - floor))"
    and "pending = card {i. i < k \<and> reached ! i}" "reached ! (start - floor)"
    and "floor \<le> low" "low \<le> start" "reached ! (low - floor)" "\<forall>i. k \<le> i \<and> i < L \<and> reached ! i \<longrightarrow> low \<le> i + floor"
  shows "\<exists>r l. reachable_loop g floor k reached pending low = Some (r, l) \<and> length r = L \<and>
    (\<forall>i < L. r ! i \<longrightarrow> (start, i + floor) \<in> (child_rel g)\<^sup>*) \<and>
    (\<forall>i < L. r ! i \<longrightarrow> (\<forall>c \<in> set (kids g (i + floor)). floor \<le> c \<longrightarrow> r ! (c - floor))) \<and> r ! (start - floor) \<and>
    floor \<le> l \<and> l \<le> start \<and> r ! (l - floor) \<and> (\<forall>i < L. r ! i \<longrightarrow> l \<le> i + floor)"
  using assms(5-)
proof (induction k arbitrary: reached pending low)
  case 0
  then show ?case by auto
next
  case (Suc k)
  note p = Suc.prems
  show ?case
  proof (cases "pending = 0")
    case True
    then have "\<forall>i < Suc k. \<not> reached ! i" using p(5) by (auto simp: card_eq_0_iff)
    then have "\<forall>i. reached ! i \<longrightarrow> Suc k \<le> i" by (meson not_less_eq_eq not_le)
    then show ?thesis using True p by (auto 0 3)
  next
    case nz: False
    have kl: "\<not> length reached \<le> k" using p by simp
    show ?thesis
    proof (cases "reached ! k")
      case False
      have "{i. i < Suc k \<and> reached ! i} = {i. i < k \<and> reached ! i}" using False by (auto simp: less_Suc_eq)
      moreover have step: "\<forall>i. k \<le> i \<and> i < L \<and> reached ! i \<longrightarrow> Suc k \<le> i \<and> i < L \<and> reached ! i" using False by (metis Suc_leI le_neq_implies_less)
      have "\<forall>i. k \<le> i \<and> i < L \<and> reached ! i \<longrightarrow> (\<forall>c \<in> set (kids g (i + floor)). floor \<le> c \<longrightarrow> reached ! (c - floor))"
        "\<forall>i. k \<le> i \<and> i < L \<and> reached ! i \<longrightarrow> low \<le> i + floor"
        using p(4,10) step by blast+
      ultimately have "\<exists>r l. reachable_loop g floor k reached pending low = Some (r, l) \<and> length r = L \<and>
        (\<forall>i < L. r ! i \<longrightarrow> (start, i + floor) \<in> (child_rel g)\<^sup>*) \<and>
        (\<forall>i < L. r ! i \<longrightarrow> (\<forall>c \<in> set (kids g (i + floor)). floor \<le> c \<longrightarrow> r ! (c - floor))) \<and> r ! (start - floor) \<and>
        floor \<le> l \<and> l \<le> start \<and> r ! (l - floor) \<and> (\<forall>i < L. r ! i \<longrightarrow> l \<le> i + floor)"
        by (intro Suc.IH) (use p(1-3,5-9) in \<open>simp_all\<close>)
      then show ?thesis using nz kl False by simp
    next
      case True
      have kd: "k + floor < dag_len g" "k + floor \<le> start" using p(1) assms(2-4) by auto
      let ?cs = "kids g (k + floor)"
      have c: "children g (k + floor) = Some ?cs" using children_eq [OF assms(1)] kd by simp
      have cl: "\<forall>c \<in> set ?cs. floor \<le> c \<longrightarrow> c - floor < k" using kids_lt [OF assms(1) kd(1)] by fastforce
      have "{i. i < Suc k \<and> reached ! i} = insert k {i. i < k \<and> reached ! i}" using True by (auto simp: less_Suc_eq)
      then have "pending - 1 = card {i. i < k \<and> reached ! i}" using p(5) by simp
      then obtain r q where m: "mark_children ?cs floor reached (pending - 1) = Some (r, q)" "length r = L"
          "\<forall>i < L. r ! i \<longleftrightarrow> reached ! i \<or> i + floor \<in> set ?cs" "q = card {i. i < k \<and> r ! i}"
        using mark_children_ok [OF cl, of reached "pending - 1"] p by auto
      have up: "r ! i \<longleftrightarrow> reached ! i" if "k \<le> i" "i < L" for i
        using m(3) that cl kids_lt [OF assms(1) kd(1), of "i + floor"] by auto
      have mono: "reached ! i \<Longrightarrow> i < L \<Longrightarrow> r ! i" for i using m(3) by blast
      have rel: "(k + floor, c) \<in> child_rel g" if "c \<in> set ?cs" for c using that kd by (simp add: child_rel_def)
      have sound: "\<forall>i < L. r ! i \<longrightarrow> (start, i + floor) \<in> (child_rel g)\<^sup>*"
      proof (intro allI impI)
        fix i assume i: "i < L" "r ! i"
        then consider "reached ! i" | "i + floor \<in> set ?cs" using m(3) by blast
        then show "(start, i + floor) \<in> (child_rel g)\<^sup>*"
        proof cases
          case 2
          have "(start, k + floor) \<in> (child_rel g)\<^sup>*" using p(3) True kl p(2) by auto
          then show ?thesis using rel [OF 2] by (rule rtrancl_into_rtrancl)
        qed (use p(3) i in auto)
      qed
      have closed: "\<forall>i. k \<le> i \<and> i < L \<and> r ! i \<longrightarrow> (\<forall>c \<in> set (kids g (i + floor)). floor \<le> c \<longrightarrow> r ! (c - floor))"
      proof (intro allI impI ballI)
        fix i c assume i: "k \<le> i \<and> i < L \<and> r ! i" and c: "c \<in> set (kids g (i + floor))" "floor \<le> c"
        have "i + floor < dag_len g" using i assms(2-4) by auto
        then have cL: "c - floor < L" using kids_lt [OF assms(1) _ c(1)] i c(2) by auto
        show "r ! (c - floor)"
        proof (cases "i = k")
          case True
          then show ?thesis using m(3) c cL by auto
        next
          case False
          then have "Suc k \<le> i" using i by simp
          moreover have "reached ! i" using up i by blast
          ultimately have "reached ! (c - floor)" using p(4) i c by blast
          then show ?thesis using mono cL by blast
        qed
      qed
      have low: "\<forall>i. k \<le> i \<and> i < L \<and> r ! i \<longrightarrow> k + floor \<le> i + floor" by simp
      have st: "r ! (start - floor)" "r ! (k + floor - floor)" using mono p(6) True kl p(2) assms(3,4) by auto
      have "reachable_loop g floor (Suc k) reached pending low = reachable_loop g floor k r q (k + floor)"
        using nz kl True c m(1) by simp
      then show ?thesis using Suc.IH [of r q "k + floor"] p(1) m(2,4) sound closed st low kd by auto
    qed
  qed
qed


text \<open>What a sweep with a floor finds: the lowest reachable index and the marks from it up to the start.\<close>

lemma reachable_eq:
  assumes "dag_wf g" "start < dag_len g" "floor \<le> start"
  shows "\<exists>low r. reachable g start floor = Some (low, r) \<and> floor \<le> low \<and> low \<le> start \<and> length r = start + 1 - low \<and>
    (\<forall>i. low \<le> i \<and> i \<le> start \<longrightarrow> (r ! (i - low) \<longleftrightarrow> (start, i) \<in> (child_rel g)\<^sup>*)) \<and>
    (\<forall>i. floor \<le> i \<and> (start, i) \<in> (child_rel g)\<^sup>* \<longrightarrow> low \<le> i) \<and> (start, low) \<in> (child_rel g)\<^sup>*"
proof -
  define L where "L = start + 1 - floor"
  let ?r0 = "(replicate L False)[start - floor := True]"
  have sL: "start - floor < L" using assms(3) by (simp add: L_def)
  have r0: "?r0 ! i \<longleftrightarrow> i = start - floor" if "i < L" for i using that by (cases "i = start - floor") auto
  have one: "{i. i < L \<and> ?r0 ! i} = {start - floor}" using r0 sL by auto
  obtain r l where rl: "reachable_loop g floor L ?r0 1 start = Some (r, l)" "length r = L"
      and sound: "\<forall>i < L. r ! i \<longrightarrow> (start, i + floor) \<in> (child_rel g)\<^sup>*"
      and closed: "\<forall>i < L. r ! i \<longrightarrow> (\<forall>c \<in> set (kids g (i + floor)). floor \<le> c \<longrightarrow> r ! (c - floor))"
      and st: "r ! (start - floor)" and l: "floor \<le> l" "l \<le> start" "r ! (l - floor)" "\<forall>i < L. r ! i \<longrightarrow> l \<le> i + floor"
    using reachable_loop_ok [OF assms(1,2) L_def assms(3), of L ?r0 1 start] r0 sL one assms(3) by auto
  have complete: "floor \<le> i \<longrightarrow> r ! (i - floor)" if "(start, i) \<in> (child_rel g)\<^sup>*" for i
    using that
  proof (induction rule: rtrancl_induct)
    case (step i c)
    show ?case
    proof
      assume c: "floor \<le> c"
      have ic: "c < i" "i \<le> start" using child_lt [OF assms(1) step(2)] reach_le [OF step(1) assms(1)] by auto
      then have "r ! (i - floor)" "i - floor < L" using step(3) c by (auto simp: L_def)
      moreover have "c \<in> set (kids g (i - floor + floor))" using step(2) ic c by (simp add: child_rel_def)
      ultimately show "r ! (c - floor)" using closed c by blast
    qed
  qed (use st in simp)
  have marks: "r ! (i - floor) \<longleftrightarrow> (start, i) \<in> (child_rel g)\<^sup>*" if "floor \<le> i" "i \<le> start" for i
    using that complete [of i] sound [rule_format, of "i - floor"] by (auto simp: L_def)
  have run: "reachable g start floor = Some (l, drop (l - floor) r)"
    using rl(1) assms(3) by (simp add: reachable_def Let_def L_def)
  have "drop (l - floor) r ! (i - l) \<longleftrightarrow> (start, i) \<in> (child_rel g)\<^sup>*" if "l \<le> i" "i \<le> start" for i
    using that marks [of i] l(1) rl(2) by (simp add: L_def)
  moreover have "l \<le> i" if "floor \<le> i" "(start, i) \<in> (child_rel g)\<^sup>*" for i
    using l(4) [rule_format, of "i - floor"] complete [OF that(2)] reach_le [OF that(2) assms(1)] that(1) by (simp add: L_def)
  moreover have "(start, l) \<in> (child_rel g)\<^sup>*" using marks l by blast
  moreover have "length (drop (l - floor) r) = start + 1 - l" using rl(2) l(1,2) by (simp add: L_def)
  ultimately show ?thesis using run l(1,2) by blast
qed

subsection \<open>Unfolded trees\<close>

datatype ('n, 'l) Unfolded = Unfolded 'n "'l option" "('n, 'l) Unfolded list"

text \<open>The filter only serves the termination of the recursion: on a well-formed graph it keeps every child.\<close>

function unfold :: "('n, 'l, 'a) Dag \<Rightarrow> nat \<Rightarrow> ('n, 'l) Unfolded" where
  "unfold g i = Unfolded (dag_nodes g ! i) (slot_value (dag_leaf_slots g) (dag_leaves g) i)
     (map (unfold g) (filter (\<lambda>c. c < i) (kids g i)))"
  by pat_completeness auto
termination by (relation "measure snd") auto

declare unfold.simps [simp del]

fun weight :: "('n, 'l) Unfolded \<Rightarrow> nat" where
  "weight (Unfolded n l ts) = Suc (sum_list (map weight ts))"

lemma unfold_eq:
  "dag_wf g \<Longrightarrow> i < dag_len g \<Longrightarrow>
     unfold g i = Unfolded (dag_nodes g ! i) (slot_value (dag_leaf_slots g) (dag_leaves g) i) (map (unfold g) (kids g i))"
  using kids_lt [of g i] filter_True [of "kids g i" "\<lambda>c. c < i"] by (subst unfold.simps) simp

lemma zip_all_eq: "length cs = length ds \<Longrightarrow> map f cs = map h ds \<longleftrightarrow> (\<forall>(c, d) \<in> set (zip cs ds). f c = h d)"
  by (induction cs ds rule: list_induct2) auto

lemma zip_fst_weight: "length cs = length ds \<Longrightarrow> sum_list (map (\<lambda>(c, d). f c) (zip cs ds)) = sum_list (map f cs)"
  by (induction cs ds rule: list_induct2) auto

lemma subgraph_eq_loop_ok:
  assumes "dag_wf g" "dag_wf h" "\<forall>(a, b) \<in> set pending. a < dag_len g \<and> b < dag_len h"
  shows "subgraph_eq_loop g h pending = Some (\<forall>(a, b) \<in> set pending. unfold g a = unfold h b)"
  using assms(3)
proof (induction "sum_list (map (\<lambda>(a, b). weight (unfold g a)) pending)" arbitrary: pending rule: less_induct)
  case less
  show ?case
  proof (cases pending)
    case Nil
    then show ?thesis by (subst subgraph_eq_loop.simps) simp
  next
    case (Cons p rest)
    obtain a b where p: "p = (a, b)" by fastforce
    have ab: "a < dag_len g" "b < dag_len h" using less(2) by (auto simp: Cons p)
    let ?cs = "kids g a" and ?ds = "kids h b"
    let ?l = "slot_value (dag_leaf_slots g) (dag_leaves g) a" and ?k = "slot_value (dag_leaf_slots h) (dag_leaves h) b"
    have rd: "children g a = Some ?cs" "children h b = Some ?ds" "get_node g a = Some (dag_nodes g ! a)" "get_node h b = Some (dag_nodes h ! b)"
      "get_leaf_data g a = Some ?l" "get_leaf_data h b = Some ?k"
      using ab assms(1,2) get_slot_eq [of "dag_leaf_slots g" "dag_leaves g" "dag_len g"] get_slot_eq [of "dag_leaf_slots h" "dag_leaves h" "dag_len h"]
      by (simp_all add: children_eq get_node_def dag_len_def get_leaf_data_def) (simp_all add: dag_wf_def dag_len_def)
    note un = unfold_eq [OF assms(1) ab(1)] unfold_eq [OF assms(2) ab(2)]
    show ?thesis
    proof (cases "dag_nodes g ! a \<noteq> dag_nodes h ! b \<or> ?l \<noteq> ?k \<or> length ?cs \<noteq> length ?ds")
      case True
      then have "unfold g a \<noteq> unfold h b" unfolding un by (auto dest: map_eq_imp_length_eq)
      then show ?thesis using True by (subst subgraph_eq_loop.simps) (simp add: Cons p rd)
    next
      case False
      then have len: "length ?cs = length ?ds" by blast
      let ?next = "rev (zip ?cs ?ds) @ rest"
      have "sum_list (map (\<lambda>(a, b). weight (unfold g a)) ?next) < sum_list (map (\<lambda>(a, b). weight (unfold g a)) pending)"
        by (simp add: Cons p un(1) rev_map [symmetric] sum_list_rev zip_fst_weight [OF len] comp_def)
      moreover have "\<forall>(c, d) \<in> set ?next. c < dag_len g \<and> d < dag_len h"
        using less(2) kids_lt [OF assms(1) ab(1)] kids_lt [OF assms(2) ab(2)] ab
        by (fastforce simp: Cons dest: set_zip_leftD set_zip_rightD)
      ultimately have "subgraph_eq_loop g h ?next = Some (\<forall>(c, d) \<in> set ?next. unfold g c = unfold h d)" by (rule less(1))
      moreover have "subgraph_eq_loop g h pending = subgraph_eq_loop g h ?next"
        using False by (subst subgraph_eq_loop.simps) (simp add: Cons p rd)
      moreover have "unfold g a = unfold h b \<longleftrightarrow> (\<forall>(c, d) \<in> set (zip ?cs ?ds). unfold g c = unfold h d)"
        using False unfolding un by (simp add: zip_all_eq)
      ultimately show ?thesis by (auto simp: Cons p)
    qed
  qed
qed

subsection \<open>Properties\<close>

lemma preorder_eq:
  assumes "dag_wf g" "start < dag_len g"
  shows "\<exists>ns. preorder g start = Some ns \<and> distinct ns \<and> hd ns = start \<and> set ns = {n. (start, n) \<in> (child_rel g)\<^sup>*}"
proof -
  let ?v = "replicate (start + 1) False"
  have nv: "\<not> ?v ! i" if "i < start + 1" for i using that by (simp add: nth_replicate del: replicate_Suc)
  have v: "\<forall>n \<in> set [start]. n < length ?v" "length ?v \<le> dag_len g" using assms(2) by simp_all
  have cl: "\<forall>i < length ?v. ?v ! i \<longrightarrow> (\<forall>c \<in> set (kids g i). ?v ! c \<or> c \<in> set [start])"
    using nv unfolding length_replicate by blast
  obtain ns where ns: "preorder_loop g ?v [start] = Some ns" "distinct ns" "set ns \<subseteq> (child_rel g)\<^sup>* `` set [start]"
      "\<forall>n \<in> set [start]. ?v ! n \<or> n \<in> set ns" "\<forall>n \<in> set ns. n < length ?v \<and> \<not> ?v ! n"
      "\<forall>i < length ?v. ?v ! i \<or> i \<in> set ns \<longrightarrow> (\<forall>c \<in> set (kids g i). ?v ! c \<or> c \<in> set ns)"
    using preorder_loop_ok [OF assms(1) v cl] by blast
  have st: "start \<in> set ns" using ns(4) nv by auto
  have "n \<in> set ns" if "(start, n) \<in> (child_rel g)\<^sup>*" for n
    using that
  proof (induction rule: rtrancl_induct)
    case (step i c)
    have "c < i" "i \<le> start" using child_lt [OF assms(1) step(2)] reach_le [OF step(1) assms(1)] by auto
    then have "i < length ?v" "c < start + 1" by simp_all
    then show ?case using ns(6) [rule_format, of i c] step(2,3) nv [of c] by (simp add: child_rel_def del: replicate_Suc)
  qed (rule st)
  then have eq: "set ns = {n. (start, n) \<in> (child_rel g)\<^sup>*}" using ns(3) by auto
  have "hd ns = start"
    using ns(1) assms nv by (auto simp: preorder_loop.simps children_eq simp del: replicate_Suc)
  then show ?thesis using ns(1,2) eq by (simp add: preorder_def)
qed

lemma postorder_eq:
  assumes "dag_wf g" "start < dag_len g"
  shows "\<exists>ns. postorder g start = Some ns \<and> sorted_wrt (<) ns \<and> set ns = {n. (start, n) \<in> (child_rel g)\<^sup>*} \<and>
    (\<forall>p \<in> set ns. \<forall>c. (p, c) \<in> child_rel g \<longrightarrow> c \<in> set ns \<and> c < p)"
proof -
  obtain low r where r: "reachable g start 0 = Some (low, r)"
      "\<forall>i. low \<le> i \<and> i \<le> start \<longrightarrow> (r ! (i - low) \<longleftrightarrow> (start, i) \<in> (child_rel g)\<^sup>*)"
      "\<forall>i. (start, i) \<in> (child_rel g)\<^sup>* \<longrightarrow> low \<le> i"
    using reachable_eq [OF assms, of 0] by auto
  let ?ns = "filter (\<lambda>i. r ! (i - low)) [low..<start + 1]"
  have set: "set ?ns = {n. (start, n) \<in> (child_rel g)\<^sup>*}"
  proof (intro set_eqI iffI)
    fix x assume "x \<in> {n. (start, n) \<in> (child_rel g)\<^sup>*}"
    then show "x \<in> set ?ns" using r(2,3) reach_le [OF _ assms(1), of start x] by (simp add: less_Suc_eq_le del: upt_Suc)
  qed (use r(2) in \<open>auto simp: less_Suc_eq_le simp del: upt_Suc\<close>)
  have "postorder g start = Some ?ns" by (simp add: postorder_def r(1))
  moreover have "sorted_wrt (<) ?ns" by (simp add: sorted_wrt_filter del: upt_Suc)
  moreover have "\<forall>p \<in> set ?ns. \<forall>c. (p, c) \<in> child_rel g \<longrightarrow> c \<in> set ?ns \<and> c < p"
    unfolding set using child_lt [OF assms(1)] by (auto intro: rtrancl_into_rtrancl)
  ultimately show ?thesis using set by blast
qed

lemma reaches_eq:
  assumes "dag_wf g" "start < dag_len g"
  shows "reaches g start to = Some ((start, to) \<in> (child_rel g)\<^sup>*)"
proof (cases "start < to")
  case True
  then show ?thesis using reach_le [OF _ assms(1), of start to] by (auto simp: reaches_def)
next
  case False
  then obtain low r where r: "reachable g start to = Some (low, r)" "to \<le> low" "low \<le> start"
      "\<forall>i. low \<le> i \<and> i \<le> start \<longrightarrow> (r ! (i - low) \<longleftrightarrow> (start, i) \<in> (child_rel g)\<^sup>*)"
      "\<forall>i. to \<le> i \<and> (start, i) \<in> (child_rel g)\<^sup>* \<longrightarrow> low \<le> i"
    using reachable_eq [OF assms, of to] by auto
  have "low = to \<and> r ! 0 \<longleftrightarrow> (start, to) \<in> (child_rel g)\<^sup>*"
    using r(4) [rule_format, of low] r(5) [rule_format, of to] r(2,3) by auto
  then show ?thesis using False r(1) by (simp add: reaches_def)
qed

text \<open>The operations on the list of nodes that the graph's operations refine.\<close>

definition view_add_node :: "('n, 'l, 'a) NodeView list \<Rightarrow> 'n \<Rightarrow> ('n, 'l, 'a) NodeView list" where
  "view_add_node v n = v @ [\<lparr>nv_node = n, nv_children = [], nv_leaf = None, nv_annotation = None\<rparr>]"

definition view_add_edge :: "('n, 'l, 'a) NodeView list \<Rightarrow> nat \<Rightarrow> nat \<Rightarrow> ('n, 'l, 'a) NodeView list option" where
  "view_add_edge v m to = (if m + 1 = length v \<and> to < m then Some (v[m := (v ! m)\<lparr>nv_children := nv_children (v ! m) @ [to]\<rparr>]) else None)"

definition view_set_leaf :: "('n, 'l, 'a) NodeView list \<Rightarrow> nat \<Rightarrow> 'l \<Rightarrow> ('n, 'l, 'a) NodeView list option" where
  "view_set_leaf v n d = (if n < length v then Some (v[n := (v ! n)\<lparr>nv_leaf := Some d\<rparr>]) else None)"

definition view_set_annotation :: "('n, 'l, 'a) NodeView list \<Rightarrow> nat \<Rightarrow> 'a \<Rightarrow> ('n, 'l, 'a) NodeView list option" where
  "view_set_annotation v n a = (if n < length v then Some (v[n := (v ! n)\<lparr>nv_annotation := Some a\<rparr>]) else None)"

definition view_get :: "(('n, 'l, 'a) NodeView \<Rightarrow> 'b) \<Rightarrow> ('n, 'l, 'a) NodeView list \<Rightarrow> nat \<Rightarrow> 'b option" where
  "view_get f v n = (if n < length v then Some (f (v ! n)) else None)"

lemma dag_new_view: "dag_wf dag_new \<and> dag_view dag_new = []"
  by (simp add: dag_new_def dag_wf_def dag_len_def slots_wf_def dag_view_def)

lemma node_view_simps [simp]:
  "nv_node (node_view g i) = dag_nodes g ! i" "nv_children (node_view g i) = kids g i"
  "nv_leaf (node_view g i) = slot_value (dag_leaf_slots g) (dag_leaves g) i"
  "nv_annotation (node_view g i) = slot_value (dag_annotation_slots g) (dag_annotations g) i"
  by (simp_all add: node_view_def)

lemma view_gets:
  assumes "dag_wf g"
  shows "get_node g n = view_get nv_node (dag_view g) n" "children g n = view_get nv_children (dag_view g) n"
    "get_leaf_data g n = view_get nv_leaf (dag_view g) n" "get_annotation g n = view_get nv_annotation (dag_view g) n"
proof -
  have "slots_wf (dag_leaf_slots g) (dag_leaves g) (dag_len g)" "slots_wf (dag_annotation_slots g) (dag_annotations g) (dag_len g)"
    using assms by (simp_all add: dag_wf_def)
  then show "get_leaf_data g n = view_get nv_leaf (dag_view g) n" "get_annotation g n = view_get nv_annotation (dag_view g) n"
    by (simp_all add: get_leaf_data_def get_annotation_def get_slot_eq view_get_def)
qed (simp_all add: children_eq [OF assms] view_get_def get_node_def dag_len_def)

lemma view_sets:
  assumes "dag_wf g"
  shows "map_option dag_view (add_edge g m to) = view_add_edge (dag_view g) m to"
    "map_option dag_view (set_leaf_data g n d) = view_set_leaf (dag_view g) n d"
    "map_option dag_view (set_annotation g n a) = view_set_annotation (dag_view g) n a"
    "pred_option dag_wf (add_edge g m to)" "pred_option dag_wf (set_leaf_data g n d)" "pred_option dag_wf (set_annotation g n a)"
  using add_edge_view [OF assms, of m to] set_leaf_view [OF assms, of n d] set_annotation_view [OF assms, of n a]
  by (auto simp: view_add_edge_def view_set_leaf_def view_set_annotation_def split: if_splits)

text \<open>C11: the graph with its edge runs and side vectors behaves as a list of nodes, each with its
  children, payload and annotation: every operation keeps the layout well formed and does on the
  list what its name says, failing exactly where the abstract operation does, and every lookup
  reads that list.\<close>

theorem dag_refines_node_list:
  assumes "dag_wf g"
  shows "(dag_wf (snd (add_node g x)) \<and> dag_view (snd (add_node g x)) = view_add_node (dag_view g) x \<and>
      fst (add_node g x) = length (dag_view g)) \<and>
    (pred_option dag_wf (add_edge g m to) \<and> map_option dag_view (add_edge g m to) = view_add_edge (dag_view g) m to) \<and>
    (pred_option dag_wf (set_leaf_data g n d) \<and> map_option dag_view (set_leaf_data g n d) = view_set_leaf (dag_view g) n d) \<and>
    (pred_option dag_wf (set_annotation g n a) \<and>
      map_option dag_view (set_annotation g n a) = view_set_annotation (dag_view g) n a) \<and>
    annotation_mut dflt g n f =
      (case view_get nv_annotation (dag_view g) n of
         None \<Rightarrow> None
       | Some a \<Rightarrow> set_annotation g n (f (case a of None \<Rightarrow> dflt | Some a \<Rightarrow> a))) \<and>
    get_node g n = view_get nv_node (dag_view g) n \<and> children g n = view_get nv_children (dag_view g) n \<and>
    get_leaf_data g n = view_get nv_leaf (dag_view g) n \<and> get_annotation g n = view_get nv_annotation (dag_view g) n"
proof (intro conjI)
  show "annotation_mut dflt g n f = (case view_get nv_annotation (dag_view g) n of
         None \<Rightarrow> None | Some a \<Rightarrow> set_annotation g n (f (case a of None \<Rightarrow> dflt | Some a \<Rightarrow> a)))"
    by (simp add: annotation_mut_eq [OF assms] view_get_def)
qed (use add_node_view [OF assms, of x] view_sets [OF assms] view_gets [OF assms] in
  \<open>simp_all add: view_add_node_def\<close>, simp add: add_node_def dag_len_def)

text \<open>The diamond of the source's own tests, with a leaf payload on the shared node.\<close>

definition diamond :: "(nat, nat, nat) Dag" where
  "diamond = \<lparr>dag_nodes = [9, 1, 2, 3, 4], dag_edge_bounds = [0, 0, 0, 1, 2, 4], dag_edges = [1, 1, 2, 3],
     dag_leaf_slots = [None, Some 0, None, None, None], dag_leaves = [7],
     dag_annotation_slots = [None, None, None, None, None], dag_annotations = []\<rparr>"

lemma diamond_wf: "dag_wf diamond" "dag_len diamond = 5"
  by (simp_all add: dag_wf_def diamond_def dag_len_def kids_def slots_wf_def All_less_Suc numeral_eq_Suc)

theorem dag_refines_node_list_witness:
  "add_edge diamond 4 1 \<noteq> None \<and> map_option dag_view (add_edge diamond 4 1) = view_add_edge (dag_view diamond) 4 1 \<and>
    map_option dag_view (set_leaf_data diamond 2 5) = view_set_leaf (dag_view diamond) 2 5"
proof (intro conjI)
  show "add_edge diamond 4 1 \<noteq> None" by (simp add: add_edge_def diamond_def)
qed (simp_all only: dag_refines_node_list [OF diamond_wf(1)])

text \<open>C29: from any node the iterators \<open>preorder\<close> and \<open>postorder\<close> return, without panicking, exactly the
  nodes reachable along child edges: \<open>preorder\<close> each once and starting with the node itself,
  \<open>postorder\<close> in strictly increasing index order, so that every child precedes its parents; and
  \<open>reaches\<close> decides reachability.\<close>

theorem dag_traversals:
  assumes "dag_wf g" "start < dag_len g"
  shows "(\<exists>ns. preorder g start = Some ns \<and> distinct ns \<and> hd ns = start \<and> set ns = {n. (start, n) \<in> (child_rel g)\<^sup>*}) \<and>
    (\<exists>ns. postorder g start = Some ns \<and> sorted_wrt (<) ns \<and> set ns = {n. (start, n) \<in> (child_rel g)\<^sup>*} \<and>
      (\<forall>p \<in> set ns. \<forall>c. (p, c) \<in> child_rel g \<longrightarrow> c \<in> set ns \<and> c < p)) \<and>
    reaches g start to = Some ((start, to) \<in> (child_rel g)\<^sup>*)"
  using preorder_eq [OF assms] postorder_eq [OF assms] reaches_eq [OF assms] by blast

theorem dag_traversals_witness:
  "reaches diamond 4 1 = Some ((4, 1) \<in> (child_rel diamond)\<^sup>*) \<and> reaches diamond 4 1 = Some True \<and>
    postorder diamond 4 = Some [1, 2, 3, 4] \<and> preorder diamond 4 = Some [4, 2, 1, 3]"
proof (intro conjI)
  show "reaches diamond 4 1 = Some ((4, 1) \<in> (child_rel diamond)\<^sup>*)"
    using dag_traversals [OF diamond_wf(1), of 4 1] by (simp add: diamond_wf(2))
qed code_simp+

text \<open>C30: \<open>subgraph_eq\<close> always returns, and answers whether the two subgraphs unfold to the same
  tree of labels, leaf payloads and ordered children, however their nodes are shared or numbered.\<close>

theorem subgraph_eq_unfolds:
  assumes "dag_wf g" "dag_wf h" "a < dag_len g" "b < dag_len h"
  shows "subgraph_eq g a h b = Some (unfold g a = unfold h b)"
  using subgraph_eq_loop_ok [OF assms(1,2), of "[(a, b)]"] assms(3,4) by (simp add: subgraph_eq_def)

theorem subgraph_eq_unfolds_witness: "subgraph_eq diamond 2 diamond 3 = Some (unfold diamond 2 = unfold diamond 3)"
  by (rule subgraph_eq_unfolds) (simp_all add: diamond_wf)

end
