(* ===== verification/Circuits.thy ===== *)
theory Circuits
  imports SatCorrect SymKind "HOL-Library.State_Monad"
begin

text \<open>
  The circuits of the bit-blaster (\<open>libs/symbolic/src/bitblast/mod.rs\<close> and \<open>arith.rs\<close>) as
  computations over the solver's state: Tseitin gates, multiplexers, ripple-carry addition,
  subtraction, shift-and-add multiplication, restoring division, barrel shifts and comparisons.
  Vectors of literals are little-endian. \<open>one\<close> is the literal fixed to true. A circuit that may
  panic returns \<open>None\<close>.

  \<open>circuit m Q s\<close> says that \<open>m\<close>, run in \<open>s\<close>, extends the formula conservatively (every
  model of the old formula extends to one of the new, on the new variables only) and ends with a
  result and a state that satisfy \<open>Q\<close>.
\<close>

subsection \<open>Gates\<close>

definition fresh :: "(Solver, Lit) state" where
  "fresh = do { v \<leftarrow> State new_var; State_Monad.return (lit_new v False) }"

definition clause :: "Lit list \<Rightarrow> (Solver, unit) state" where
  "clause lits = State (\<lambda>s. ((), add_clause s lits))"

definition gate_and :: "Lit \<Rightarrow> Lit \<Rightarrow> (Solver, Lit) state" where
  "gate_and a b = do {
     y \<leftarrow> fresh;
     _ \<leftarrow> clause [lit_negate a, lit_negate b, y];
     _ \<leftarrow> clause [a, lit_negate y];
     _ \<leftarrow> clause [b, lit_negate y];
     State_Monad.return y
   }"

definition gate_or :: "Lit \<Rightarrow> Lit \<Rightarrow> (Solver, Lit) state" where
  "gate_or a b = do {
     y \<leftarrow> fresh;
     _ \<leftarrow> clause [a, b, lit_negate y];
     _ \<leftarrow> clause [lit_negate a, y];
     _ \<leftarrow> clause [lit_negate b, y];
     State_Monad.return y
   }"

definition gate_xor :: "Lit \<Rightarrow> Lit \<Rightarrow> (Solver, Lit) state" where
  "gate_xor a b = do {
     y \<leftarrow> fresh;
     _ \<leftarrow> clause [lit_negate a, lit_negate b, lit_negate y];
     _ \<leftarrow> clause [a, b, lit_negate y];
     _ \<leftarrow> clause [a, lit_negate b, y];
     _ \<leftarrow> clause [lit_negate a, b, y];
     State_Monad.return y
   }"

definition gate_mux :: "Lit \<Rightarrow> Lit \<Rightarrow> Lit \<Rightarrow> (Solver, Lit) state" where
  "gate_mux s a b = do {
     y \<leftarrow> fresh;
     _ \<leftarrow> clause [lit_negate s, lit_negate a, y];
     _ \<leftarrow> clause [lit_negate s, a, lit_negate y];
     _ \<leftarrow> clause [s, lit_negate b, y];
     _ \<leftarrow> clause [s, b, lit_negate y];
     State_Monad.return y
   }"

definition mux_bits :: "Lit \<Rightarrow> Lit list \<Rightarrow> Lit list \<Rightarrow> (Solver, Lit list) state" where
  "mux_bits s a b = traverse_list (\<lambda>(x, y). gate_mux s x y) (zip a b)"

fun eq_bits_from :: "Lit \<Rightarrow> (Lit \<times> Lit) list \<Rightarrow> (Solver, Lit) state" where
  "eq_bits_from acc [] = State_Monad.return acc"
| "eq_bits_from acc ((x, y) # xys) = do {
     xor \<leftarrow> gate_xor x y;
     acc \<leftarrow> gate_and acc (lit_negate xor);
     eq_bits_from acc xys
   }"

definition eq_bits :: "Lit \<Rightarrow> Lit list \<Rightarrow> Lit list \<Rightarrow> (Solver, Lit) state" where
  "eq_bits one a b = eq_bits_from one (zip a b)"

subsection \<open>Arithmetic\<close>

definition full_adder :: "Lit \<Rightarrow> Lit \<Rightarrow> Lit \<Rightarrow> (Solver, Lit \<times> Lit) state" where
  "full_adder ai bi carry = do {
     axb \<leftarrow> gate_xor ai bi;
     s \<leftarrow> gate_xor axb carry;
     ab \<leftarrow> gate_and ai bi;
     cx \<leftarrow> gate_and carry axb;
     carry \<leftarrow> gate_or ab cx;
     State_Monad.return (s, carry)
   }"

fun adder_bits :: "(Lit \<times> Lit) list \<Rightarrow> Lit \<Rightarrow> (Solver, Lit list \<times> Lit) state" where
  "adder_bits [] carry = State_Monad.return ([], carry)"
| "adder_bits ((ai, bi) # rest) carry = do {
     (s, carry) \<leftarrow> full_adder ai bi carry;
     (sum, carry) \<leftarrow> adder_bits rest carry;
     State_Monad.return (s # sum, carry)
   }"

definition adder :: "Lit list \<Rightarrow> Lit list \<Rightarrow> Lit \<Rightarrow> (Solver, Lit list \<times> Lit) state" where
  "adder a b carry_in = adder_bits (zip a b) carry_in"

definition invert :: "Lit list \<Rightarrow> Lit list" where
  "invert bits = map lit_negate bits"

definition sub_carry :: "Lit \<Rightarrow> Lit list \<Rightarrow> Lit list \<Rightarrow> (Solver, Lit list \<times> Lit) state" where
  "sub_carry one a b = adder a (invert b) one"

definition subtract :: "Lit \<Rightarrow> Lit list \<Rightarrow> Lit list \<Rightarrow> (Solver, Lit list) state" where
  "subtract one a b = do { (diff, _) \<leftarrow> sub_carry one a b; State_Monad.return diff }"

definition negate_bits :: "Lit \<Rightarrow> Lit list \<Rightarrow> (Solver, Lit list) state" where
  "negate_bits one a = do {
     (sum, _) \<leftarrow> adder (invert a) (replicate (length a) (lit_negate one)) one;
     State_Monad.return sum
   }"

fun multiply_rows :: "Lit \<Rightarrow> Lit list \<Rightarrow> Lit list \<Rightarrow> nat \<Rightarrow> Lit list \<Rightarrow> (Solver, Lit list option) state" where
  "multiply_rows one a acc i [] = State_Monad.return (Some acc)"
| "multiply_rows one a acc i (bi # bs) =
     (if length a < i then State_Monad.return None
      else do {
        ands \<leftarrow> traverse_list (\<lambda>aj. gate_and aj bi) (take (length a - i) a);
        (acc, _) \<leftarrow> adder acc (replicate i (lit_negate one) @ ands) (lit_negate one);
        multiply_rows one a acc (i + 1) bs
      })"

definition multiply :: "Lit \<Rightarrow> Lit list \<Rightarrow> Lit list \<Rightarrow> (Solver, Lit list option) state" where
  "multiply one a b = multiply_rows one a (replicate (length a) (lit_negate one)) 0 b"

definition uge :: "Lit \<Rightarrow> Lit list \<Rightarrow> Lit list \<Rightarrow> (Solver, Lit) state" where
  "uge one a b = do { (_, carry) \<leftarrow> sub_carry one a b; State_Monad.return carry }"

text \<open>The division loop from bit \<open>i - 1\<close> down: \<open>rem\<close> keeps a guard bit; an operand \<open>b\<close> shorter
  than \<open>a\<close> makes it too short for its own shift.\<close>

fun udivrem_loop ::
  "Lit \<Rightarrow> Lit list \<Rightarrow> Lit list \<Rightarrow> nat \<Rightarrow> Lit list \<Rightarrow> Lit list
    \<Rightarrow> (Solver, (Lit list \<times> Lit list) option) state" where
  "udivrem_loop one a b_ext 0 rem quot = State_Monad.return (Some (quot, rem))"
| "udivrem_loop one a b_ext (Suc i) rem quot =
     (if length rem \<le> length a then State_Monad.return None
      else do {
        let rem = a ! i # take (length a) rem @ drop (length a + 1) rem;
        (diff, ge) \<leftarrow> sub_carry one rem b_ext;
        rem \<leftarrow> mux_bits ge diff rem;
        udivrem_loop one a b_ext i rem (quot[i := ge])
      })"

definition udivrem :: "Lit \<Rightarrow> Lit list \<Rightarrow> Lit list \<Rightarrow> (Solver, (Lit list \<times> Lit list) option) state" where
  "udivrem one a b = do {
     let w = length a;
     let zero = lit_negate one;
     r \<leftarrow> udivrem_loop one a (b @ [zero]) w (replicate (w + 1) zero) (replicate w zero);
     State_Monad.return (map_option (\<lambda>(quot, rem). (quot, take w rem)) r)
   }"

text \<open>The magnitudes of two operands, and a value with its sign applied.\<close>

definition magnitudes :: "Lit \<Rightarrow> Lit list \<Rightarrow> Lit list \<Rightarrow> (Solver, Lit list \<times> Lit list) state" where
  "magnitudes one a b = do {
     neg_a \<leftarrow> negate_bits one a;
     neg_b \<leftarrow> negate_bits one b;
     mag_a \<leftarrow> mux_bits (last a) neg_a a;
     mag_b \<leftarrow> mux_bits (last b) neg_b b;
     State_Monad.return (mag_a, mag_b)
   }"

definition with_sign :: "Lit \<Rightarrow> Lit \<Rightarrow> Lit list \<Rightarrow> (Solver, Lit list option) state" where
  "with_sign one sign v = do {
     neg \<leftarrow> negate_bits one v;
     out \<leftarrow> mux_bits sign neg v;
     State_Monad.return (Some out)
   }"

definition divrem :: "Lit \<Rightarrow> Lit list \<Rightarrow> Lit list \<Rightarrow> bool \<Rightarrow> bool \<Rightarrow> (Solver, Lit list option) state" where
  "divrem one a b is_signed want_quotient =
     (if \<not> is_signed then do {
        qr \<leftarrow> udivrem one a b;
        State_Monad.return (map_option (\<lambda>(q, r). if want_quotient then q else r) qr)
      }
      else if a = [] \<or> b = [] then State_Monad.return None
      else do {
        (mag_a, mag_b) \<leftarrow> magnitudes one a b;
        qr \<leftarrow> udivrem one mag_a mag_b;
        case qr of
          None \<Rightarrow> State_Monad.return None
        | Some (q, r) \<Rightarrow>
            (if want_quotient then do {
               result_sign \<leftarrow> gate_xor (last a) (last b);
               with_sign one result_sign q
             }
             else with_sign one (last a) r)
      })"

subsection \<open>Comparisons\<close>

text \<open>The sign bit flipped; an empty vector has none, and the index panics.\<close>

definition flip_sign :: "Lit list \<Rightarrow> Lit list option" where
  "flip_sign v = (if v = [] then None else Some (v[length v - 1 := lit_negate (v ! (length v - 1))]))"

definition compare_bits :: "Lit \<Rightarrow> SymKind \<Rightarrow> Lit list \<Rightarrow> Lit list \<Rightarrow> (Solver, Lit option) state" where
  "compare_bits one kind a b =
     (let ge = (\<lambda>x y. do { g \<leftarrow> uge one x y; State_Monad.return (Some g) });
          lt = (\<lambda>x y. do { g \<leftarrow> uge one x y; State_Monad.return (Some (lit_negate g)) });
          flipped = (\<lambda>f x y. case (flip_sign x, flip_sign y) of
            (Some x, Some y) \<Rightarrow> f x y | _ \<Rightarrow> State_Monad.return None)
      in case kind of
           ULt \<Rightarrow> lt a b | UGe \<Rightarrow> ge a b | UGt \<Rightarrow> lt b a | ULe \<Rightarrow> ge b a
         | Lt \<Rightarrow> flipped lt a b | Ge \<Rightarrow> flipped ge a b | Gt \<Rightarrow> flipped lt b a | Le \<Rightarrow> flipped ge b a
         | _ \<Rightarrow> State_Monad.return None)"

subsection \<open>Shifts\<close>

datatype Shift = Left | Logical | Arithmetic

text \<open>\<open>while (1 << stages) < w\<close>.\<close>

function stages_from :: "nat \<Rightarrow> nat \<Rightarrow> nat" where
  "stages_from w stages = (if 2 ^ stages < w then stages_from w (stages + 1) else stages)"
  by pat_completeness auto
termination
proof (relation "measure (\<lambda>(w, k). w - k)", simp)
  fix w k :: nat
  assume "2 ^ k < w"
  then have "k < w" using less_exp [of k] by linarith
  then show "((w, k + 1), (w, k)) \<in> measure (\<lambda>(w, k). w - k)" by simp
qed

declare stages_from.simps [simp del]

definition shift_const :: "'a list \<Rightarrow> nat \<Rightarrow> Shift \<Rightarrow> 'a \<Rightarrow> 'a list" where
  "shift_const bits by kind fill =
     (let w = length bits
      in map (\<lambda>p. case kind of
           Left \<Rightarrow> if by \<le> p then bits ! (p - by) else fill
         | _ \<Rightarrow> if p + by < w then bits ! (p + by) else fill) [0..<w])"

fun shift_stages :: "Shift \<Rightarrow> Lit \<Rightarrow> nat \<Rightarrow> Lit list \<Rightarrow> Lit list \<Rightarrow> (Solver, Lit list) state" where
  "shift_stages kind fill k [] cur = State_Monad.return cur"
| "shift_stages kind fill k (amount_bit # rest) cur = do {
     cur \<leftarrow> mux_bits amount_bit (shift_const cur (2 ^ k) kind fill) cur;
     shift_stages kind fill (k + 1) rest cur
   }"

fun or_from :: "Lit \<Rightarrow> Lit list \<Rightarrow> (Solver, Lit) state" where
  "or_from acc [] = State_Monad.return acc"
| "or_from acc (b # bits) = do { acc \<leftarrow> gate_or acc b; or_from acc bits }"

definition shift_bits :: "Lit \<Rightarrow> Shift \<Rightarrow> Lit list \<Rightarrow> Lit list \<Rightarrow> (Solver, Lit list option) state" where
  "shift_bits one kind a amount =
     (if kind = Arithmetic \<and> a = [] then State_Monad.return None
      else
        (let w = length a;
             fill = (if kind = Arithmetic then last a else lit_negate one);
             stages = stages_from w 0
         in do {
           cur \<leftarrow> shift_stages kind fill 0 (take stages amount) a;
           if length amount < stages then State_Monad.return None
           else do {
             overflow \<leftarrow> or_from (lit_negate one) (drop stages amount);
             out \<leftarrow> mux_bits overflow (replicate w fill) cur;
             State_Monad.return (Some out)
           }
         }))"

subsection \<open>Conservative extensions\<close>

definition ext :: "Solver \<Rightarrow> Solver \<Rightarrow> bool" where
  "ext s t \<longleftrightarrow> root_inv t \<and> num_vars s \<le> num_vars t \<and> (\<forall>\<nu>. models \<nu> t \<longrightarrow> models \<nu> s) \<and>
     (\<forall>\<nu>. models \<nu> s \<longrightarrow> (\<exists>\<mu>. (\<forall>v < num_vars s. \<mu> v = \<nu> v) \<and> models \<mu> t))"

text \<open>\<open>circuit m B Q s\<close>: run in \<open>s\<close>, \<open>m\<close> extends the formula conservatively, returns literals
  that \<open>B\<close> bounds by the new number of variables, and in every model of the new formula the
  result satisfies \<open>Q\<close>.\<close>

definition circuit :: "(Solver, 'a) state \<Rightarrow> (nat \<Rightarrow> 'a \<Rightarrow> bool) \<Rightarrow> ((nat \<Rightarrow> bool) \<Rightarrow> 'a \<Rightarrow> bool) \<Rightarrow> Solver \<Rightarrow> bool" where
  "circuit m B Q s \<longleftrightarrow> (case run_state m s of (r, t) \<Rightarrow> ext s t \<and> B (num_vars t) r \<and> (\<forall>\<nu>. models \<nu> t \<longrightarrow> Q \<nu> r))"

abbreviation lit_in :: "nat \<Rightarrow> Lit \<Rightarrow> bool" where
  "lit_in n l \<equiv> l < 2 * n"

abbreviation lits_in :: "nat \<Rightarrow> Lit list \<Rightarrow> bool" where
  "lits_in n ls \<equiv> \<forall>l \<in> set ls. l < 2 * n"

lemma ext_refl: "root_inv s \<Longrightarrow> ext s s"
  by (auto simp: ext_def)

lemma ext_trans [trans]: "ext s t \<Longrightarrow> ext t u \<Longrightarrow> ext s u"
  unfolding ext_def by (metis le_trans order_less_le_trans)

lemma circuit_return: "root_inv s \<Longrightarrow> B (num_vars s) r \<Longrightarrow> (\<And>\<nu>. Q \<nu> r) \<Longrightarrow> circuit (State_Monad.return r) B Q s"
  by (simp add: circuit_def ext_refl)

lemma circuit_bind:
  assumes "circuit m B P s"
    and "\<And>r t. root_inv t \<Longrightarrow> num_vars s \<le> num_vars t \<Longrightarrow> B (num_vars t) r \<Longrightarrow> circuit (f r) C (\<lambda>\<nu> q. P \<nu> r \<longrightarrow> Q \<nu> q) t"
  shows "circuit (State_Monad.bind m f) C Q s"
proof -
  obtain r t where m: "run_state m s = (r, t)" by fastforce
  obtain q u where f: "run_state (f r) t = (q, u)" by fastforce
  have e: "ext s t" "B (num_vars t) r" "\<forall>\<nu>. models \<nu> t \<longrightarrow> P \<nu> r" using assms(1) m by (auto simp: circuit_def)
  then have "ext t u" "C (num_vars u) q" "\<forall>\<nu>. models \<nu> u \<longrightarrow> P \<nu> r \<longrightarrow> Q \<nu> q"
    using assms(2) [of t r] f by (auto simp: circuit_def ext_def)
  then show ?thesis using m f e ext_trans [OF e(1)] by (simp add: circuit_def ext_def)
qed

lemma circuit_mono:
  "circuit m B P s \<Longrightarrow> (\<And>r n. num_vars s \<le> n \<Longrightarrow> B n r \<Longrightarrow> C n r) \<Longrightarrow>
    (\<And>\<nu> r n. B n r \<Longrightarrow> P \<nu> r \<Longrightarrow> Q \<nu> r) \<Longrightarrow> circuit m C Q s"
  by (fastforce simp: circuit_def ext_def)

subsection \<open>Gates define their output\<close>

lemma lit_true_pos [simp]: "lit_true \<nu> (lit_new v False) = \<nu> v"
  by (simp add: lit_true_def)

lemma lit_true_local: "\<forall>v < n. \<nu> v = \<mu> v \<Longrightarrow> l < 2 * n \<Longrightarrow> lit_true \<nu> l = lit_true \<mu> l"
  by (simp add: lit_true_def lit_var_lt)

lemma new_lit_lt: "lit_new n b < Suc (Suc (2 * n))" "lit_negate (lit_new n b) < Suc (Suc (2 * n))"
proof -
  have "lit_new n b < 2 * Suc n" by (simp add: lit_new_def)
  then show "lit_new n b < Suc (Suc (2 * n))" "lit_negate (lit_new n b) < Suc (Suc (2 * n))"
    using lit_negate_lt [of "lit_new n b" "Suc n"] by simp_all
qed

lemma run_fresh: "root_inv s \<Longrightarrow> run_state fresh s = (lit_new (num_vars s) False, snd (new_var s))"
  using new_var_ok(1) [of s] by (cases "new_var s") (simp add: fresh_def)

lemma run_clause [simp]: "run_state (clause c) s = ((), add_clause s c)"
  by (simp add: clause_def)

lemma gate_circuit:
  assumes s: "root_inv s" and run: "run_state m s = (lit_new (num_vars s) False, foldl add_clause (snd (new_var s)) cs)"
    and cs: "\<forall>c \<in> set cs. \<forall>l \<in> set c. l < 2 * Suc (num_vars s)"
    and def: "\<And>\<nu>. (\<forall>c \<in> set cs. clause_true \<nu> c) \<longleftrightarrow> \<nu> (num_vars s) = f \<nu>"
    and f: "\<And>\<nu> \<mu>. \<forall>v < num_vars s. \<nu> v = \<mu> v \<Longrightarrow> f \<nu> = f \<mu>"
  shows "circuit m lit_in (\<lambda>\<nu> y. lit_true \<nu> y = f \<nu>) s"
proof -
  note g = cnf.gate_law [OF s cs def f]
  have "ext s (foldl add_clause (snd (new_var s)) cs)"
    using g(1-3) s g(4) unfolding ext_def by (metis fun_upd_other le_SucI less_irrefl order_refl)
  then show ?thesis using g(2,3) by (simp add: circuit_def run new_lit_lt)
qed

lemma fresh_circuit:
  assumes "root_inv s"
  shows "circuit fresh lit_in (\<lambda>\<nu> y. True) s"
proof -
  have "root_inv (snd (new_var s))" "num_vars (snd (new_var s)) = Suc (num_vars s)" "\<And>\<nu>. models \<nu> (snd (new_var s)) = models \<nu> s"
    using new_var_ok [OF assms] by auto
  then show ?thesis using assms by (auto simp: circuit_def run_fresh ext_def new_lit_lt)
qed

lemma gate_and_circuit:
  assumes "root_inv s" "lit_in (num_vars s) a" "lit_in (num_vars s) b"
  shows "circuit (gate_and a b) lit_in (\<lambda>\<nu> y. lit_true \<nu> y = (lit_true \<nu> a \<and> lit_true \<nu> b)) s"
proof (rule gate_circuit [OF assms(1)])
  let ?y = "lit_new (num_vars s) False"
  show "run_state (gate_and a b) s = (?y, foldl add_clause (snd (new_var s)) [[lit_negate a, lit_negate b, ?y], [a, lit_negate ?y], [b, lit_negate ?y]])"
    using assms(1) by (simp add: gate_and_def run_fresh)
qed (use assms lit_true_local in \<open>auto simp: clause_true_def new_lit_lt less_SucI\<close>)

lemma gate_or_circuit:
  assumes "root_inv s" "lit_in (num_vars s) a" "lit_in (num_vars s) b"
  shows "circuit (gate_or a b) lit_in (\<lambda>\<nu> y. lit_true \<nu> y = (lit_true \<nu> a \<or> lit_true \<nu> b)) s"
proof (rule gate_circuit [OF assms(1)])
  let ?y = "lit_new (num_vars s) False"
  show "run_state (gate_or a b) s = (?y, foldl add_clause (snd (new_var s)) [[a, b, lit_negate ?y], [lit_negate a, ?y], [lit_negate b, ?y]])"
    using assms(1) by (simp add: gate_or_def run_fresh)
qed (use assms lit_true_local in \<open>auto simp: clause_true_def new_lit_lt less_SucI\<close>)

lemma gate_xor_circuit:
  assumes "root_inv s" "lit_in (num_vars s) a" "lit_in (num_vars s) b"
  shows "circuit (gate_xor a b) lit_in (\<lambda>\<nu> y. lit_true \<nu> y = (lit_true \<nu> a \<noteq> lit_true \<nu> b)) s"
proof (rule gate_circuit [OF assms(1)])
  let ?y = "lit_new (num_vars s) False"
  show "run_state (gate_xor a b) s = (?y, foldl add_clause (snd (new_var s)) [[lit_negate a, lit_negate b, lit_negate ?y],
      [a, b, lit_negate ?y], [a, lit_negate b, ?y], [lit_negate a, b, ?y]])"
    using assms(1) by (simp add: gate_xor_def run_fresh)
qed (use assms lit_true_local in \<open>auto simp: clause_true_def new_lit_lt less_SucI\<close>)

lemma gate_mux_circuit:
  assumes "root_inv s" "lit_in (num_vars s) c" "lit_in (num_vars s) a" "lit_in (num_vars s) b"
  shows "circuit (gate_mux c a b) lit_in
    (\<lambda>\<nu> y. lit_true \<nu> y = (if lit_true \<nu> c then lit_true \<nu> a else lit_true \<nu> b)) s"
proof (rule gate_circuit [OF assms(1)])
  let ?y = "lit_new (num_vars s) False"
  show "run_state (gate_mux c a b) s = (?y, foldl add_clause (snd (new_var s)) [[lit_negate c, lit_negate a, ?y],
      [lit_negate c, a, lit_negate ?y], [c, lit_negate b, ?y], [c, b, lit_negate ?y]])"
    using assms(1) by (simp add: gate_mux_def run_fresh)
qed (use assms lit_true_local in \<open>auto simp: clause_true_def new_lit_lt less_SucI\<close>)

subsection \<open>Addition\<close>

text \<open>The number a little-endian list of bits writes.\<close>

primrec nat_of_bits :: "bool list \<Rightarrow> nat" where
  "nat_of_bits [] = 0"
| "nat_of_bits (b # bs) = of_bool b + 2 * nat_of_bits bs"

abbreviation vals :: "(nat \<Rightarrow> bool) \<Rightarrow> Lit list \<Rightarrow> bool list" where
  "vals \<nu> \<equiv> map (lit_true \<nu>)"

abbreviation num :: "(nat \<Rightarrow> bool) \<Rightarrow> Lit list \<Rightarrow> nat" where
  "num \<nu> ls \<equiv> nat_of_bits (vals \<nu> ls)"

lemmas bind_gate = circuit_bind [OF gate_and_circuit] circuit_bind [OF gate_or_circuit] circuit_bind [OF gate_xor_circuit]
  circuit_bind [OF gate_mux_circuit]

lemma full_adder_circuit:
  assumes "root_inv s" "lit_in (num_vars s) a" "lit_in (num_vars s) b" "lit_in (num_vars s) c"
  shows "circuit (full_adder a b c) (\<lambda>n (y, cy). lit_in n y \<and> lit_in n cy)
    (\<lambda>\<nu> (y, cy). of_bool (lit_true \<nu> y) + 2 * of_bool (lit_true \<nu> cy) =
      (of_bool (lit_true \<nu> a) + of_bool (lit_true \<nu> b) + of_bool (lit_true \<nu> c) :: nat)) s"
  unfolding full_adder_def
  by (intro bind_gate circuit_return) (use assms in \<open>auto simp: of_bool_def\<close>)

lemma circuit_bind_pair:
  assumes "circuit m B P s"
    and "\<And>a b t. root_inv t \<Longrightarrow> num_vars s \<le> num_vars t \<Longrightarrow> B (num_vars t) (a, b) \<Longrightarrow>
      circuit (f a b) C (\<lambda>\<nu> q. P \<nu> (a, b) \<longrightarrow> Q \<nu> q) t"
  shows "circuit (State_Monad.bind m (\<lambda>(a, b). f a b)) C Q s"
  by (rule circuit_bind [OF assms(1)]) (use assms(2) in \<open>auto split: prod.splits\<close>)

lemma adder_bits_circuit:
  assumes "root_inv s" "\<forall>(x, y) \<in> set ps. lit_in (num_vars s) x \<and> lit_in (num_vars s) y" "lit_in (num_vars s) c"
  shows "circuit (adder_bits ps c) (\<lambda>n (sum, cy). lits_in n sum \<and> lit_in n cy \<and> length sum = length ps)
    (\<lambda>\<nu> (sum, cy). num \<nu> sum + 2 ^ length ps * of_bool (lit_true \<nu> cy) =
      num \<nu> (map fst ps) + num \<nu> (map snd ps) + of_bool (lit_true \<nu> c)) s"
  using assms
proof (induction ps arbitrary: s c)
  case Nil
  then show ?case by (auto intro!: circuit_return)
next
  case (Cons p ps)
  obtain a b where p: "p = (a, b)" by (cases p)
  show ?case unfolding p adder_bits.simps
  proof (rule circuit_bind_pair [OF full_adder_circuit], goal_cases)
    case (5 y cy t)
    then show ?case
      by (intro circuit_bind_pair [OF Cons.IH])
        (use Cons.prems p in \<open>fastforce intro!: circuit_return simp: algebra_simps\<close>)+
  qed (use Cons.prems p in auto)
qed

lemma adder_circuit:
  assumes "root_inv s" "lits_in (num_vars s) a" "lits_in (num_vars s) b" "lit_in (num_vars s) c" "length a = length b"
  shows "circuit (adder a b c) (\<lambda>n (sum, cy). lits_in n sum \<and> lit_in n cy \<and> length sum = length b)
    (\<lambda>\<nu> (sum, cy). num \<nu> sum + 2 ^ length b * of_bool (lit_true \<nu> cy) =
      num \<nu> a + num \<nu> b + of_bool (lit_true \<nu> c)) s"
  unfolding adder_def
  by (rule circuit_mono [OF adder_bits_circuit]) (use assms in \<open>auto dest: set_zip_leftD set_zip_rightD\<close>)

subsection \<open>Numbers and bits\<close>

lemma nat_of_bits_lt: "nat_of_bits bs < 2 ^ length bs"
  by (induction bs) (auto simp: of_bool_def)

lemma nat_of_bits_append: "nat_of_bits (xs @ ys) = nat_of_bits xs + 2 ^ length xs * nat_of_bits ys"
  by (induction xs) (auto simp: algebra_simps)

lemma nat_of_bits_replicate [simp]: "nat_of_bits (replicate n False) = 0"
  by (induction n) auto

lemma nat_of_bits_ones: "nat_of_bits (replicate n True) = 2 ^ n - 1"
proof (induction n)
  case (Suc n)
  have "of_bool True + 2 * (m - 1) = 2 * m - 1" if "1 \<le> m" for m :: nat using that by simp
  then show ?case using Suc by simp
qed simp

lemma nat_of_bits_not: "nat_of_bits (map Not bs) = 2 ^ length bs - 1 - nat_of_bits bs"
proof (induction bs)
  case (Cons b bs)
  have "nat_of_bits bs < 2 ^ length bs" by (rule nat_of_bits_lt)
  then show ?case using Cons by (cases b) (simp_all add: diff_mult_distrib2)
qed simp

lemma nat_of_bits_inj: "length xs = length ys \<Longrightarrow> nat_of_bits xs = nat_of_bits ys \<longleftrightarrow> xs = ys"
proof (induction xs ys rule: list_induct2)
  case (Cons x xs y ys)
  have "of_bool x + 2 * a = of_bool y + 2 * b \<longleftrightarrow> x = y \<and> a = b" for a b :: nat
    by (cases x; cases y) (simp; presburger)+
  then show ?case using Cons by simp
qed simp

lemma nat_of_bits_take: "nat_of_bits (take k bs) = nat_of_bits bs mod 2 ^ k"
proof (induction bs arbitrary: k)
  case (Cons b bs)
  show ?case
  proof (cases k)
    case (Suc j)
    have "(of_bool b + 2 * a) mod (2 * m) = of_bool b + 2 * (a mod m)" for a m :: nat
      unfolding mod_mult2_eq by (cases b) simp_all
    then show ?thesis using Suc Cons by simp
  qed simp
qed simp

lemma nat_of_bits_drop: "nat_of_bits (drop k bs) = nat_of_bits bs div 2 ^ k"
proof (cases "k \<le> length bs")
  case True
  have "nat_of_bits bs = nat_of_bits (take k bs) + 2 ^ k * nat_of_bits (drop k bs)"
    using nat_of_bits_append [of "take k bs" "drop k bs"] True by simp
  moreover have "nat_of_bits (take k bs) < 2 ^ k" using nat_of_bits_lt [of "take k bs"] True by simp
  ultimately show ?thesis by simp
next
  case False
  then have "nat_of_bits bs < 2 ^ k" using nat_of_bits_lt [of bs] by (meson le_less_trans less_le_trans linear one_le_numeral power_increasing)
  then show ?thesis using False by simp
qed

lemma vals_invert [simp]: "vals \<nu> (invert ls) = map Not (vals \<nu> ls)"
  by (simp add: invert_def)

lemma num_invert: "num \<nu> (invert ls) = 2 ^ length ls - 1 - num \<nu> ls"
  by (simp only: vals_invert nat_of_bits_not length_map)

lemma num_lt: "num \<nu> ls < 2 ^ length ls"
  using nat_of_bits_lt [of "vals \<nu> ls"] by simp

subsection \<open>Selection and equality\<close>

lemma traverse_circuit:
  assumes "root_inv s"
    and "\<And>x t. x \<in> set xs \<Longrightarrow> root_inv t \<Longrightarrow> num_vars s \<le> num_vars t \<Longrightarrow> circuit (f x) lit_in (\<lambda>\<nu> y. lit_true \<nu> y = g \<nu> x) t"
  shows "circuit (traverse_list f xs) (\<lambda>n ys. lits_in n ys \<and> length ys = length xs) (\<lambda>\<nu> ys. vals \<nu> ys = map (g \<nu>) xs) s"
  using assms
proof (induction xs arbitrary: s)
  case Nil
  then show ?case by (auto intro!: circuit_return)
next
  case (Cons x xs)
  show ?case unfolding traverse_list.simps
  proof (rule circuit_bind, rule Cons.prems(2), goal_cases)
    case (4 y t)
    then show ?case
      by (intro circuit_bind [OF Cons.IH] circuit_return) (use Cons.prems in \<open>fastforce+\<close>)
  qed (use Cons.prems in auto)
qed

lemma mux_bits_circuit:
  assumes "root_inv s" "lit_in (num_vars s) c" "lits_in (num_vars s) a" "lits_in (num_vars s) b" "length a = length b"
  shows "circuit (mux_bits c a b) (\<lambda>n r. lits_in n r \<and> length r = length b)
    (\<lambda>\<nu> r. vals \<nu> r = (if lit_true \<nu> c then vals \<nu> a else vals \<nu> b)) s"
proof -
  have "circuit (mux_bits c a b) (\<lambda>n r. lits_in n r \<and> length r = length (zip a b))
      (\<lambda>\<nu> r. vals \<nu> r = map (\<lambda>(x, y). if lit_true \<nu> c then lit_true \<nu> x else lit_true \<nu> y) (zip a b)) s"
    unfolding mux_bits_def
  proof (rule traverse_circuit [OF assms(1)])
    fix p t
    assume p: "p \<in> set (zip a b)" and t: "root_inv t" "num_vars s \<le> num_vars t"
    obtain x y where xy: "p = (x, y)" by (cases p)
    have "x \<in> set a" "y \<in> set b" using p xy by (auto dest: set_zip_leftD set_zip_rightD)
    then have "lit_in (num_vars t) x" "lit_in (num_vars t) y" "lit_in (num_vars t) c" using assms t by fastforce+
    then show "circuit (case p of (x, y) \<Rightarrow> gate_mux c x y) lit_in
        (\<lambda>\<nu> z. lit_true \<nu> z = (case p of (x, y) \<Rightarrow> if lit_true \<nu> c then lit_true \<nu> x else lit_true \<nu> y)) t"
      using gate_mux_circuit [OF t(1)] by (simp add: xy)
  qed
  moreover have "map (\<lambda>(x, y). if lit_true \<nu> c then lit_true \<nu> x else lit_true \<nu> y) (zip a b) =
      (if lit_true \<nu> c then vals \<nu> a else vals \<nu> b)" for \<nu>
    using assms(5) by (auto simp: list_eq_iff_nth_eq)
  ultimately show ?thesis using assms(5) by (simp cong: if_cong)
qed

lemma eq_bits_from_circuit:
  assumes "root_inv s" "\<forall>(x, y) \<in> set ps. lit_in (num_vars s) x \<and> lit_in (num_vars s) y" "lit_in (num_vars s) acc"
  shows "circuit (eq_bits_from acc ps) lit_in
    (\<lambda>\<nu> e. lit_true \<nu> e = (lit_true \<nu> acc \<and> (\<forall>(x, y) \<in> set ps. lit_true \<nu> x = lit_true \<nu> y))) s"
  using assms
proof (induction ps arbitrary: s acc)
  case Nil
  then show ?case by (auto intro!: circuit_return)
next
  case (Cons p ps)
  obtain a b where p: "p = (a, b)" by (cases p)
  show ?case unfolding p eq_bits_from.simps
  proof (intro bind_gate, goal_cases)
    case (7 x t y u)
    then show ?case
      by (intro circuit_mono [OF Cons.IH]) (use Cons.prems p in \<open>fastforce+\<close>)
  qed (use Cons.prems p in auto)
qed

lemma eq_bits_circuit:
  assumes "root_inv s" "lits_in (num_vars s) a" "lits_in (num_vars s) b" "lit_in (num_vars s) one" "length a = length b"
  shows "circuit (eq_bits one a b) lit_in (\<lambda>\<nu> e. lit_true \<nu> one \<longrightarrow> (lit_true \<nu> e \<longleftrightarrow> vals \<nu> a = vals \<nu> b)) s"
proof -
  have "(\<forall>(x, y) \<in> set (zip a b). lit_true \<nu> x = lit_true \<nu> y) \<longleftrightarrow> vals \<nu> a = vals \<nu> b" for \<nu>
    using assms(5) by (induction a b rule: list_induct2) auto
  then show ?thesis
    unfolding eq_bits_def using assms
    by (intro circuit_mono [OF eq_bits_from_circuit]) (auto dest: set_zip_leftD set_zip_rightD)
qed

subsection \<open>Subtraction, negation, order\<close>

lemma num_mod: "num \<nu> d + 2 ^ k * c = x \<Longrightarrow> length d = k \<Longrightarrow> num \<nu> d = x mod 2 ^ k"
  using num_lt [of \<nu> d] by auto

lemma carry_order: "d + p * of_bool c = x + p - y \<Longrightarrow> d < p \<Longrightarrow> y < p \<Longrightarrow> c \<longleftrightarrow> y \<le> (x :: nat)"
  by (cases c) auto

lemma sub_carry_circuit:
  assumes "root_inv s" "lits_in (num_vars s) a" "lits_in (num_vars s) b" "lit_in (num_vars s) one" "length a = length b"
  shows "circuit (sub_carry one a b) (\<lambda>n (d, cy). lits_in n d \<and> lit_in n cy \<and> length d = length b)
    (\<lambda>\<nu> (d, cy). lit_true \<nu> one \<longrightarrow> num \<nu> d + 2 ^ length b * of_bool (lit_true \<nu> cy) = num \<nu> a + 2 ^ length b - num \<nu> b) s"
proof -
  have e: "num \<nu> (invert b) + 1 = 2 ^ length b - num \<nu> b" "num \<nu> b \<le> 2 ^ length b" for \<nu>
    using num_invert [of \<nu> b] num_lt [of \<nu> b] by simp_all
  show ?thesis unfolding sub_carry_def
  proof (rule circuit_mono [OF adder_circuit], goal_cases)
    case (6 r n)
    then show ?case by (auto simp: invert_def)
  next
    case (7 \<nu> r n)
    then show ?case using e [of \<nu>] by (auto simp: invert_def)
  qed (use assms in \<open>auto simp: invert_def\<close>)
qed

lemma subtract_circuit:
  assumes "root_inv s" "lits_in (num_vars s) a" "lits_in (num_vars s) b" "lit_in (num_vars s) one" "length a = length b"
  shows "circuit (subtract one a b) (\<lambda>n d. lits_in n d \<and> length d = length b)
    (\<lambda>\<nu> d. lit_true \<nu> one \<longrightarrow> num \<nu> d = (num \<nu> a + 2 ^ length b - num \<nu> b) mod 2 ^ length b) s"
  unfolding subtract_def
proof (rule circuit_bind_pair [OF sub_carry_circuit], goal_cases)
  case (6 d cy t)
  have "num \<nu> d = (num \<nu> a + 2 ^ length b - num \<nu> b) mod 2 ^ length b"
    if "num \<nu> d + 2 ^ length b * of_bool (lit_true \<nu> cy) = num \<nu> a + 2 ^ length b - num \<nu> b" for \<nu>
    using num_mod [OF that] 6 by simp
  then show ?case using 6 by (intro circuit_return) auto
qed (use assms in auto)

lemma uge_circuit:
  assumes "root_inv s" "lits_in (num_vars s) a" "lits_in (num_vars s) b" "lit_in (num_vars s) one" "length a = length b"
  shows "circuit (uge one a b) lit_in (\<lambda>\<nu> g. lit_true \<nu> one \<longrightarrow> (lit_true \<nu> g \<longleftrightarrow> num \<nu> b \<le> num \<nu> a)) s"
  unfolding uge_def
proof (rule circuit_bind_pair [OF sub_carry_circuit], goal_cases)
  case (6 d cy t)
  have "lit_true \<nu> cy \<longleftrightarrow> num \<nu> b \<le> num \<nu> a"
    if "num \<nu> d + 2 ^ length b * of_bool (lit_true \<nu> cy) = num \<nu> a + 2 ^ length b - num \<nu> b" for \<nu>
    using carry_order [OF that] num_lt [of \<nu> d] num_lt [of \<nu> b] 6 by simp
  then show ?case using 6 by (intro circuit_return) auto
qed (use assms in auto)

lemma negate_bits_circuit:
  assumes "root_inv s" "lits_in (num_vars s) a" "lit_in (num_vars s) one"
  shows "circuit (negate_bits one a) (\<lambda>n d. lits_in n d \<and> length d = length a)
    (\<lambda>\<nu> d. lit_true \<nu> one \<longrightarrow> num \<nu> d = (2 ^ length a - num \<nu> a) mod 2 ^ length a) s"
  unfolding negate_bits_def
proof (rule circuit_bind_pair [OF adder_circuit], goal_cases)
  case (6 d cy t)
  have e: "num \<nu> (invert a) + 1 = 2 ^ length a - num \<nu> a" for \<nu> using num_invert [of \<nu> a] num_lt [of \<nu> a] by simp
  have "num \<nu> d = (2 ^ length a - num \<nu> a) mod 2 ^ length a"
    if "num \<nu> d + 2 ^ length a * of_bool (lit_true \<nu> cy) = num \<nu> (invert a) + 1" for \<nu>
    using num_mod [OF that] 6 unfolding e by simp
  then show ?case using 6 by (intro circuit_return) (auto simp: map_replicate_const)
qed (use assms in \<open>auto simp: invert_def\<close>)


subsection \<open>Multiplication\<close>

text \<open>A result that is not a panic.\<close>

abbreviation returns :: "('a \<Rightarrow> bool) \<Rightarrow> 'a option \<Rightarrow> bool" where
  "returns P r \<equiv> \<exists>v. r = Some v \<and> P v"

lemma num_partial:
  assumes "vals \<nu> ands = map (\<lambda>l. lit_true \<nu> l \<and> c) (take (length a - i) a)" "i \<le> length a" "\<not> z"
  shows "nat_of_bits (replicate i z @ vals \<nu> ands) = (2 ^ i * (num \<nu> a * of_bool c)) mod 2 ^ length a"
proof -
  have "vals \<nu> ands = (if c then take (length a - i) (vals \<nu> a) else replicate (length a - i) False)"
    unfolding assms(1) by (auto simp: take_map list_eq_iff_nth_eq)
  then have "nat_of_bits (vals \<nu> ands) = (num \<nu> a * of_bool c) mod 2 ^ (length a - i)"
    using nat_of_bits_take [of "length a - i" "vals \<nu> a"] by simp
  then have "nat_of_bits (replicate i z @ vals \<nu> ands) = 2 ^ i * ((num \<nu> a * of_bool c) mod 2 ^ (length a - i))"
    using assms(3) by (simp add: nat_of_bits_append)
  also have "\<dots> = (2 ^ i * (num \<nu> a * of_bool c)) mod (2 ^ i * 2 ^ (length a - i))" by (rule mult_mod_right)
  also have "2 ^ i * 2 ^ (length a - i) = (2 :: nat) ^ length a" using assms(2) by (simp flip: power_add)
  finally show ?thesis .
qed

lemma multiply_rows_circuit:
  assumes "root_inv s" "lits_in (num_vars s) a" "lits_in (num_vars s) acc" "lits_in (num_vars s) bs" "lit_in (num_vars s) one"
    and "length acc = length a" "i + length bs \<le> length a"
  shows "circuit (multiply_rows one a acc i bs) (\<lambda>n. returns (\<lambda>r. lits_in n r \<and> length r = length a))
    (\<lambda>\<nu> r. lit_true \<nu> one \<longrightarrow> num \<nu> (the r) = (num \<nu> acc + num \<nu> a * (2 ^ i * num \<nu> bs)) mod 2 ^ length a) s"
  using assms
proof (induction bs arbitrary: s acc i)
  case Nil
  have "num \<nu> acc mod 2 ^ length a = num \<nu> acc" for \<nu> using num_lt [of \<nu> acc] Nil by simp
  then show ?case using Nil by (auto intro!: circuit_return)
next
  case (Cons b bs)
  have "\<not> length a < i" using Cons.prems by simp
  then show ?case unfolding multiply_rows.simps if_not_P [OF \<open>\<not> length a < i\<close>]
  proof (intro circuit_bind [OF traverse_circuit [where g = "\<lambda>\<nu> l. lit_true \<nu> l \<and> lit_true \<nu> b"]], goal_cases)
    case (2 l t)
    then show ?case using Cons.prems by (intro gate_and_circuit) (fastforce dest: in_set_takeD)+
  next
    case (3 ands t)
    let ?p = "replicate i (lit_negate one) @ ands"
    have lp: "length ?p = length a" using 3 Cons.prems by simp
    show ?case
    proof (rule circuit_bind_pair [OF adder_circuit], goal_cases)
      case (6 acc' cy u)
      have num: "num \<nu> (the r) = (num \<nu> acc + num \<nu> a * (2 ^ i * num \<nu> (b # bs))) mod 2 ^ length a"
        if v: "lit_true \<nu> one" "vals \<nu> ands = map (\<lambda>l. lit_true \<nu> l \<and> lit_true \<nu> b) (take (length a - i) a)"
          "num \<nu> acc' + 2 ^ length ?p * of_bool (lit_true \<nu> cy) = num \<nu> acc + num \<nu> ?p + of_bool (lit_true \<nu> (lit_negate one))"
          "num \<nu> (the r) = (num \<nu> acc' + num \<nu> a * (2 ^ (i + 1) * num \<nu> bs)) mod 2 ^ length a" for \<nu> r
      proof -
        have "num \<nu> ?p = (2 ^ i * (num \<nu> a * of_bool (lit_true \<nu> b))) mod 2 ^ length a"
          using num_partial [OF v(2), of False] Cons.prems(7) v(1) by (simp only: map_append map_replicate lit_true_negate) simp
        moreover have "num \<nu> acc' = (num \<nu> acc + num \<nu> ?p) mod 2 ^ length a"
          using num_mod [OF v(3)] 6 v(1) lp by simp
        ultimately have "num \<nu> acc' = (num \<nu> acc + 2 ^ i * (num \<nu> a * of_bool (lit_true \<nu> b))) mod 2 ^ length a"
          by (simp add: mod_simps)
        then show ?thesis unfolding v(4) by (simp add: mod_simps algebra_simps)
      qed
      have lt: "lits_in (num_vars u) a" "lits_in (num_vars u) bs" using 3 6 Cons.prems by fastforce+
      show ?case
      proof (rule circuit_mono [OF Cons.IH], goal_cases)
        case (9 \<nu> r n)
        then show ?case using num [of \<nu> r] by simp
      qed (use 3 6 lp lt Cons.prems in auto)
    qed (use 3 lp Cons.prems in fastforce)+
  qed (use Cons.prems in auto)
qed

lemma multiply_circuit:
  assumes "root_inv s" "lits_in (num_vars s) a" "lits_in (num_vars s) b" "lit_in (num_vars s) one" "length b \<le> length a"
  shows "circuit (multiply one a b) (\<lambda>n. returns (\<lambda>r. lits_in n r \<and> length r = length a))
    (\<lambda>\<nu> r. lit_true \<nu> one \<longrightarrow> num \<nu> (the r) = (num \<nu> a * num \<nu> b) mod 2 ^ length a) s"
  unfolding multiply_def
  by (rule circuit_mono [OF multiply_rows_circuit]) (use assms in \<open>auto simp: map_replicate_const\<close>)

subsection \<open>Division\<close>

text \<open>One step of the restoring division of \<open>x = r * 2 ^ (i + 1) + c * 2 ^ i + m\<close> by \<open>d\<close>: the
  remainder takes the next bit and gives up \<open>d\<close> when it can. Division by zero gives ones.\<close>

definition smt_udiv :: "nat \<Rightarrow> nat \<Rightarrow> nat \<Rightarrow> nat" where
  "smt_udiv w x d = (if d = 0 then 2 ^ w - 1 else x div d)"

lemma restoring_step:
  fixes r d m c i :: nat
  assumes "d = 0 \<or> r < d" "c \<le> 1"
  defines "r' \<equiv> 2 * r + c"
  defines "r'' \<equiv> (if d \<le> r' then r' - d else r')"
  shows "d = 0 \<or> r'' < d" "(r' * 2 ^ i + m) mod d = (r'' * 2 ^ i + m) mod d"
    "smt_udiv (Suc i) (r' * 2 ^ i + m) d = smt_udiv i (r'' * 2 ^ i + m) d + 2 ^ i * of_bool (d \<le> r')"
proof -
  show "d = 0 \<or> r'' < d" using assms(1,2) by (auto simp: r''_def r'_def)
  have e: "r' * 2 ^ i + m = r'' * 2 ^ i + m + d * (2 ^ i * of_bool (d \<le> r'))"
    by (auto simp: r''_def algebra_simps diff_mult_distrib2)
  show "(r' * 2 ^ i + m) mod d = (r'' * 2 ^ i + m) mod d" unfolding e by simp
  show "smt_udiv (Suc i) (r' * 2 ^ i + m) d = smt_udiv i (r'' * 2 ^ i + m) d + 2 ^ i * of_bool (d \<le> r')"
  proof (cases "d = 0")
    case True
    have "(1 :: nat) \<le> 2 ^ i" by simp
    then show ?thesis using True by (simp add: smt_udiv_def)
  next
    case False
    then show ?thesis unfolding e smt_udiv_def by simp
  qed
qed

lemma num_mod_Suc: "i < length a \<Longrightarrow> num \<nu> a mod 2 ^ Suc i = of_bool (lit_true \<nu> (a ! i)) * 2 ^ i + num \<nu> a mod 2 ^ i"
  using nat_of_bits_append [of "take i (vals \<nu> a)" "[lit_true \<nu> (a ! i)]"]
  by (simp add: nat_of_bits_take [symmetric] take_Suc_conv_app_nth del: power_Suc)

lemma udivrem_loop_circuit:
  assumes "root_inv s" "lits_in (num_vars s) a" "lits_in (num_vars s) b" "lits_in (num_vars s) rem" "lits_in (num_vars s) quot"
    and "lit_in (num_vars s) one" "length b = length a + 1" "length rem = length a + 1" "length quot = length a" "i \<le> length a"
  shows "circuit (udivrem_loop one a b i rem quot)
    (\<lambda>n. returns (\<lambda>(q, r). lits_in n q \<and> lits_in n r \<and> length q = length a \<and> length r = length a + 1 \<and> drop i q = drop i quot))
    (\<lambda>\<nu> r. lit_true \<nu> one \<longrightarrow> num \<nu> b < 2 ^ length a \<longrightarrow>
      num \<nu> rem * 2 ^ i + num \<nu> a mod 2 ^ i < 2 ^ length a \<or> num \<nu> rem < num \<nu> b \<longrightarrow>
      num \<nu> b = 0 \<or> num \<nu> rem < num \<nu> b \<longrightarrow>
      (case the r of (q, r) \<Rightarrow>
         num \<nu> r = (num \<nu> rem * 2 ^ i + num \<nu> a mod 2 ^ i) mod num \<nu> b \<and>
         num \<nu> (take i q) = smt_udiv i (num \<nu> rem * 2 ^ i + num \<nu> a mod 2 ^ i) (num \<nu> b))) s"
  using assms
proof (induction i arbitrary: s rem quot)
  case 0
  then show ?case by (auto intro!: circuit_return simp: smt_udiv_def)
next
  case (Suc i)
  define rem' where "rem' = a ! i # take (length a) rem"
  have np: "\<not> length rem \<le> length a" and dr: "drop (length a + 1) rem = []" using Suc.prems by simp_all
  have r: "length rem' = length a + 1" "lits_in (num_vars s) rem'" using Suc.prems by (auto simp: rem'_def dest: in_set_takeD)
  show ?case unfolding udivrem_loop.simps if_not_P [OF np] Let_def dr append_Nil2 rem'_def [symmetric]
  proof (rule circuit_bind_pair [OF sub_carry_circuit], goal_cases)
    case (6 diff ge t)
    have l6: "lits_in (num_vars t) rem'" using 6 r by fastforce
    show ?case
    proof (rule circuit_bind [OF mux_bits_circuit], goal_cases)
      case (6 rem'' u)
      note p = 6 \<open>case (diff, ge) of (d, cy) \<Rightarrow> lits_in (num_vars t) d \<and> lit_in (num_vars t) cy \<and> length d = length b\<close>
      have lt: "lits_in (num_vars u) a" "lits_in (num_vars u) b" "lits_in (num_vars u) (quot[i := ge])" "lit_in (num_vars u) one"
        using p Suc.prems \<open>num_vars s \<le> num_vars t\<close> by (fastforce dest: set_update_subset_insert [THEN subsetD])+
      have lq: "length (quot[i := ge]) = length a" "length rem'' = length a + 1" using p Suc.prems r by auto
      show ?case
      proof (rule circuit_mono [OF Suc.IH], goal_cases)
        case (11 q n)
        then obtain Q R where q: "q = Some (Q, R)" "drop i Q = drop i (quot[i := ge])" "length Q = length a" by auto
        have "drop (Suc i) Q = drop (Suc i) quot"
        proof -
          have "drop 1 (drop i Q) = drop 1 (drop i (quot[i := ge]))" using q(2) by simp
          then show ?thesis by simp
        qed
        then show ?case using 11 q by auto
      next
        case (12 \<nu> q n)
        then obtain Q R where q: "q = Some (Q, R)" "drop i Q = drop i (quot[i := ge])" "length Q = length a" by auto
        have il: "i < length a" using Suc.prems by simp
        let ?m = "num \<nu> a mod 2 ^ i" and ?c = "of_bool (lit_true \<nu> (a ! i)) :: nat"
        show ?case
        proof (intro impI, goal_cases)
          case 1
          have R: "num \<nu> rem < 2 ^ length a"
          proof -
            have "num \<nu> rem \<le> num \<nu> rem * 2 ^ Suc i" by simp
            then show ?thesis using 1 by linarith
          qed
          have rem': "num \<nu> rem' = 2 * num \<nu> rem + ?c"
            using nat_of_bits_take [of "length a" "vals \<nu> rem"] R by (simp add: rem'_def take_map)
          have X: "num \<nu> rem * 2 ^ Suc i + num \<nu> a mod 2 ^ Suc i = num \<nu> rem' * 2 ^ i + ?m"
            unfolding num_mod_Suc [OF il] rem' by (simp add: algebra_simps)
          have sub: "num \<nu> diff + 2 ^ length b * of_bool (lit_true \<nu> ge) = num \<nu> rem' + 2 ^ length b - num \<nu> b" using 1 by simp
          have ge: "lit_true \<nu> ge \<longleftrightarrow> num \<nu> b \<le> num \<nu> rem'"
            using carry_order [OF sub] num_lt [of \<nu> diff] num_lt [of \<nu> b] p by simp
          have r2: "num \<nu> rem'' = (if num \<nu> b \<le> num \<nu> rem' then num \<nu> rem' - num \<nu> b else num \<nu> rem')"
            using 1 ge sub num_lt [of \<nu> b] by (auto split: if_splits)
          note st1 = restoring_step(1) [where d = "num \<nu> b" and r = "num \<nu> rem" and c = ?c, folded rem', folded r2]
          note st = restoring_step(2,3) [where d = "num \<nu> b" and r = "num \<nu> rem" and c = ?c and i = i and m = ?m, folded rem', folded r2]
          have ok: "num \<nu> b = 0 \<or> num \<nu> rem'' < num \<nu> b" using st1 1 by simp
          have bd: "num \<nu> rem'' * 2 ^ i + ?m < 2 ^ length a \<or> num \<nu> rem'' < num \<nu> b"
          proof (cases "num \<nu> b = 0")
            case True
            then show ?thesis using 1 X r2 by simp
          qed (use ok in simp)
          have fin: "num \<nu> R = (num \<nu> rem'' * 2 ^ i + ?m) mod num \<nu> b"
              "num \<nu> (take i Q) = smt_udiv i (num \<nu> rem'' * 2 ^ i + ?m) (num \<nu> b)"
            using 12(2) 1(3,4) q(1) ok bd by simp_all
          have "drop i Q ! 0 = drop i (quot[i := ge]) ! 0" using q(2) by simp
          then have qi: "Q ! i = ge" using q(3) il Suc.prems(9) by simp
          have "num \<nu> (take (Suc i) Q) = num \<nu> (take i Q) + 2 ^ i * of_bool (lit_true \<nu> ge)"
            using q(3) il qi by (simp add: take_Suc_conv_app_nth nat_of_bits_append)
          then show ?case using fin st 1 q(1) ge unfolding X by simp
        qed
      qed (use p lt lq Suc.prems in auto)
    qed (use 6 r l6 Suc.prems in auto)
  qed (use r Suc.prems in auto)
qed

lemma udivrem_circuit:
  assumes "root_inv s" "lits_in (num_vars s) a" "lits_in (num_vars s) b" "lit_in (num_vars s) one" "length b = length a"
  shows "circuit (udivrem one a b) (\<lambda>n. returns (\<lambda>(q, r). lits_in n q \<and> lits_in n r \<and> length q = length a \<and> length r = length a))
    (\<lambda>\<nu> r. lit_true \<nu> one \<longrightarrow> (case the r of (q, r) \<Rightarrow>
       num \<nu> q = smt_udiv (length a) (num \<nu> a) (num \<nu> b) \<and> num \<nu> r = num \<nu> a mod num \<nu> b)) s"
  unfolding udivrem_def Let_def
proof (rule circuit_bind [OF udivrem_loop_circuit], goal_cases)
  case (11 r t)
  then obtain q m where r: "r = Some (q, m)" "lits_in (num_vars t) q" "lits_in (num_vars t) m" "length q = length a" "length m = length a + 1"
    by auto
  have "num \<nu> (take (length a) m) = num \<nu> a mod num \<nu> b" if "num \<nu> m = num \<nu> a mod num \<nu> b" for \<nu>
  proof -
    have "num \<nu> a mod num \<nu> b < 2 ^ length a" using num_lt [of \<nu> a] by (meson le_less_trans mod_less_eq_dividend)
    then show ?thesis using that nat_of_bits_take [of "length a" "vals \<nu> m"] by (simp add: take_map)
  qed
  then show ?case using 11 r num_lt [of _ a] num_lt [of _ b] assms(5)
    by (intro circuit_return) (auto simp: nat_of_bits_append map_replicate_const dest: in_set_takeD)
qed (use assms in auto)

subsection \<open>Signed division\<close>

lemma bit_nat_of_bits: "bit (nat_of_bits bs) i \<longleftrightarrow> i < length bs \<and> bs ! i"
proof (induction bs arbitrary: i)
  case (Cons b bs)
  have "bit (of_bool b + 2 * n) i \<longleftrightarrow> (if i = 0 then b else bit n (i - 1))" for n :: nat
    by (cases i) (auto simp: bit_0 bit_Suc)
  then show ?case using Cons by (auto simp: nth_Cons')
qed simp

lemma lit_true_last: "a \<noteq> [] \<Longrightarrow> lit_true \<nu> (last a) = bit (num \<nu> a) (length a - 1)"
  by (simp add: bit_nat_of_bits last_conv_nth)

definition smt_neg :: "nat \<Rightarrow> nat \<Rightarrow> nat" where
  "smt_neg w x = (2 ^ w - x) mod 2 ^ w"

definition smt_mag :: "nat \<Rightarrow> nat \<Rightarrow> nat" where
  "smt_mag w x = (if bit x (w - 1) then smt_neg w x else x)"

definition smt_sdiv :: "nat \<Rightarrow> nat \<Rightarrow> nat \<Rightarrow> nat" where
  "smt_sdiv w x y =
     (let q = smt_udiv w (smt_mag w x) (smt_mag w y)
      in if bit x (w - 1) \<noteq> bit y (w - 1) then smt_neg w q else q)"

definition smt_srem :: "nat \<Rightarrow> nat \<Rightarrow> nat \<Rightarrow> nat" where
  "smt_srem w x y =
     (let r = smt_mag w x mod smt_mag w y in if bit x (w - 1) then smt_neg w r else r)"

lemma neg_circuit:
  assumes "root_inv s" "lits_in (num_vars s) a" "lit_in (num_vars s) one"
  shows "circuit (negate_bits one a) (\<lambda>n d. lits_in n d \<and> length d = length a)
    (\<lambda>\<nu> d. lit_true \<nu> one \<longrightarrow> num \<nu> d = smt_neg (length a) (num \<nu> a)) s"
  using negate_bits_circuit [OF assms] by (simp add: smt_neg_def)

lemma mux_num_circuit:
  assumes "root_inv s" "lit_in (num_vars s) c" "lits_in (num_vars s) a" "lits_in (num_vars s) b" "length a = length b"
  shows "circuit (mux_bits c a b) (\<lambda>n r. lits_in n r \<and> length r = length b)
    (\<lambda>\<nu> r. num \<nu> r = (if lit_true \<nu> c then num \<nu> a else num \<nu> b)) s"
  by (rule circuit_mono [OF mux_bits_circuit]) (use assms in auto)

lemma with_sign_circuit:
  assumes "root_inv s" "lits_in (num_vars s) a" "lit_in (num_vars s) c" "lit_in (num_vars s) one"
  shows "circuit (with_sign one c a) (\<lambda>n. returns (\<lambda>r. lits_in n r \<and> length r = length a))
    (\<lambda>\<nu> r. lit_true \<nu> one \<longrightarrow> num \<nu> (the r) = (if lit_true \<nu> c then smt_neg (length a) (num \<nu> a) else num \<nu> a)) s"
  unfolding with_sign_def
  by (intro circuit_bind [OF neg_circuit] circuit_bind [OF mux_num_circuit] circuit_return)
    (use assms in \<open>auto simp: less_le_trans\<close>, fastforce?)

lemma lits_mono: "lits_in n ls \<Longrightarrow> n \<le> m \<Longrightarrow> lits_in m ls"
  by fastforce

lemma magnitudes_circuit:
  assumes "root_inv s" "lits_in (num_vars s) a" "lits_in (num_vars s) b" "lit_in (num_vars s) one" "a \<noteq> []" "b \<noteq> []"
  shows "circuit (magnitudes one a b) (\<lambda>n (x, y). lits_in n x \<and> lits_in n y \<and> length x = length a \<and> length y = length b)
    (\<lambda>\<nu> (x, y). lit_true \<nu> one \<longrightarrow> num \<nu> x = smt_mag (length a) (num \<nu> a) \<and> num \<nu> y = smt_mag (length b) (num \<nu> b)) s"
proof -
  have la: "lit_in (num_vars s) (last a)" "lit_in (num_vars s) (last b)" using assms by auto
  show ?thesis unfolding magnitudes_def
  proof (intro circuit_bind [OF neg_circuit], goal_cases)
    case (7 na t nb u)
    then have in7: "lits_in (num_vars u) na" "lits_in (num_vars u) a" "lits_in (num_vars u) b"
      using assms(2,3) by (meson lits_mono le_trans)+
    show ?case
    proof (intro circuit_bind [OF mux_num_circuit], goal_cases)
      case (11 ma v mb w)
      then have "lits_in (num_vars w) ma" by (meson lits_mono)
      then show ?case using 11 lit_true_last [OF assms(5)] lit_true_last [OF assms(6)]
        by (intro circuit_return) (simp_all add: smt_mag_def)
    qed (use 7 in7 la in \<open>auto intro: lits_mono\<close>)
  qed (use assms in \<open>auto intro: lits_mono\<close>)
qed

lemma divrem_unsigned_circuit:
  assumes "root_inv s" "lits_in (num_vars s) a" "lits_in (num_vars s) b" "lit_in (num_vars s) one" "length b = length a"
  shows "circuit (divrem one a b False want) (\<lambda>n. returns (\<lambda>r. lits_in n r \<and> length r = length a))
    (\<lambda>\<nu> r. lit_true \<nu> one \<longrightarrow> num \<nu> (the r) =
      (if want then smt_udiv (length a) (num \<nu> a) (num \<nu> b) else num \<nu> a mod num \<nu> b)) s"
  unfolding divrem_def
  by (simp, rule circuit_bind [OF udivrem_circuit]) (use assms in \<open>auto intro!: circuit_return\<close>)

lemma divrem_signed_circuit:
  assumes "root_inv s" "lits_in (num_vars s) a" "lits_in (num_vars s) b" "lit_in (num_vars s) one" "length b = length a" "a \<noteq> []"
  shows "circuit (divrem one a b True want) (\<lambda>n. returns (\<lambda>r. lits_in n r \<and> length r = length a))
    (\<lambda>\<nu> r. lit_true \<nu> one \<longrightarrow> num \<nu> (the r) =
      (if want then smt_sdiv (length a) (num \<nu> a) (num \<nu> b) else smt_srem (length a) (num \<nu> a) (num \<nu> b))) s"
proof -
  have b: "b \<noteq> []" using assms(5,6) by auto
  have la: "lit_in (num_vars s) (last a)" "lit_in (num_vars s) (last b)" using assms b by auto
  note sg = lit_true_last [OF assms(6)] lit_true_last [OF b, unfolded assms(5)]
  show ?thesis unfolding divrem_def using assms(6) b
  proof (simp, intro circuit_bind_pair [OF magnitudes_circuit] circuit_bind [OF udivrem_circuit], goal_cases)
    case (12 ma mb t r u)
    then obtain q m where r: "r = Some (q, m)" "lits_in (num_vars u) q" "lits_in (num_vars u) m" "length q = length a" "length m = length a"
      by auto
    have "num_vars s \<le> num_vars u" using 12 by simp
    then have in12: "lit_in (num_vars u) one" "lit_in (num_vars u) (last a)" "lit_in (num_vars u) (last b)"
      using la assms(4) by linarith+
    show ?case
    proof (cases want)
      case True
      show ?thesis unfolding r option.case prod.case if_P [OF True]
      proof (rule circuit_bind [OF gate_xor_circuit], goal_cases)
        case (4 g x)
        then show ?case using 12 r sg in12 assms(5)
          by (intro circuit_mono [OF with_sign_circuit]) (auto simp: smt_sdiv_def Let_def intro: lits_mono)
      qed (use 12 in12 in auto)
    next
      case False
      show ?thesis unfolding r option.case prod.case if_not_P [OF False]
        using 12 r sg in12 assms(5) False
        by (intro circuit_mono [OF with_sign_circuit]) (auto simp: smt_srem_def Let_def)
    qed
  qed (use assms in auto)
qed

subsection \<open>Comparisons\<close>

text \<open>The two's complement reading of an unsigned number of \<open>w\<close> bits.\<close>

definition signed_val :: "nat \<Rightarrow> nat \<Rightarrow> int" where
  "signed_val w x = (if bit x (w - 1) then int x - 2 ^ w else int x)"

lemma nat_of_bits_snoc: "nat_of_bits (bs @ [b]) = nat_of_bits bs + 2 ^ length bs * of_bool b"
  by (simp add: nat_of_bits_append)

lemma flip_sign_num:
  assumes "a \<noteq> []"
  shows "\<exists>f. flip_sign a = Some f \<and> length f = length a \<and> (\<forall>n. lits_in n a \<longrightarrow> lits_in n f) \<and>
    (\<forall>\<nu>. int (num \<nu> f) = signed_val (length a) (num \<nu> a) + 2 ^ (length a - 1))"
proof -
  obtain xs x where a: "a = xs @ [x]" using assms by (cases a rule: rev_cases) auto
  have f: "flip_sign a = Some (xs @ [lit_negate x])" by (simp add: flip_sign_def a)
  have sv: "signed_val (length a) (num \<nu> a) = (if lit_true \<nu> x then int (num \<nu> a) - 2 ^ length a else int (num \<nu> a))" for \<nu>
    using lit_true_last [OF assms, of \<nu>] a by (simp only: signed_val_def last_snoc)
  have "int (num \<nu> (xs @ [lit_negate x])) = signed_val (length a) (num \<nu> a) + 2 ^ (length a - 1)" for \<nu>
    unfolding sv by (cases "lit_true \<nu> x") (simp_all add: a nat_of_bits_snoc)
  then show ?thesis using f a by auto
qed

definition compare_spec :: "SymKind \<Rightarrow> nat \<Rightarrow> nat \<Rightarrow> nat \<Rightarrow> bool" where
  "compare_spec kind w x y =
     (case kind of
        ULt \<Rightarrow> x < y | UGe \<Rightarrow> y \<le> x | UGt \<Rightarrow> y < x | ULe \<Rightarrow> x \<le> y
      | Lt \<Rightarrow> signed_val w x < signed_val w y | Ge \<Rightarrow> signed_val w y \<le> signed_val w x
      | Gt \<Rightarrow> signed_val w y < signed_val w x | Le \<Rightarrow> signed_val w x \<le> signed_val w y | _ \<Rightarrow> False)"

lemma compare_spec_eqs:
  "compare_spec ULt w x y \<longleftrightarrow> x < y" "compare_spec UGe w x y \<longleftrightarrow> y \<le> x" "compare_spec UGt w x y \<longleftrightarrow> y < x"
  "compare_spec ULe w x y \<longleftrightarrow> x \<le> y" "compare_spec Lt w x y \<longleftrightarrow> signed_val w x < signed_val w y"
  "compare_spec Ge w x y \<longleftrightarrow> signed_val w y \<le> signed_val w x" "compare_spec Gt w x y \<longleftrightarrow> signed_val w y < signed_val w x"
  "compare_spec Le w x y \<longleftrightarrow> signed_val w x \<le> signed_val w y"
  by (simp_all add: compare_spec_def)

lemma compare_bits_eqs:
  assumes "flip_sign a = Some f" "flip_sign b = Some g"
  shows "compare_bits one ULt a b = do { g \<leftarrow> uge one a b; State_Monad.return (Some (lit_negate g)) }"
    "compare_bits one UGe a b = do { g \<leftarrow> uge one a b; State_Monad.return (Some g) }"
    "compare_bits one UGt a b = do { g \<leftarrow> uge one b a; State_Monad.return (Some (lit_negate g)) }"
    "compare_bits one ULe a b = do { g \<leftarrow> uge one b a; State_Monad.return (Some g) }"
    "compare_bits one Lt a b = do { g \<leftarrow> uge one f g; State_Monad.return (Some (lit_negate g)) }"
    "compare_bits one Ge a b = do { g \<leftarrow> uge one f g; State_Monad.return (Some g) }"
    "compare_bits one Gt a b = do { g \<leftarrow> uge one g f; State_Monad.return (Some (lit_negate g)) }"
    "compare_bits one Le a b = do { g \<leftarrow> uge one g f; State_Monad.return (Some g) }"
  using assms by (simp_all add: compare_bits_def Let_def)

lemma uge_Some_circuit:
  assumes "root_inv s" "lits_in (num_vars s) x" "lits_in (num_vars s) y" "lit_in (num_vars s) one" "length x = length y"
  shows "circuit (State_Monad.bind (uge one x y) (\<lambda>g. State_Monad.return (Some g))) (\<lambda>n. returns (lit_in n))
      (\<lambda>\<nu> r. lit_true \<nu> one \<longrightarrow> (lit_true \<nu> (the r) \<longleftrightarrow> num \<nu> y \<le> num \<nu> x)) s"
    "circuit (State_Monad.bind (uge one x y) (\<lambda>g. State_Monad.return (Some (lit_negate g)))) (\<lambda>n. returns (lit_in n))
      (\<lambda>\<nu> r. lit_true \<nu> one \<longrightarrow> (lit_true \<nu> (the r) \<longleftrightarrow> num \<nu> x < num \<nu> y)) s"
proof -
  note u = uge_circuit [OF assms]
  show "circuit (State_Monad.bind (uge one x y) (\<lambda>g. State_Monad.return (Some g))) (\<lambda>n. returns (lit_in n))
      (\<lambda>\<nu> r. lit_true \<nu> one \<longrightarrow> (lit_true \<nu> (the r) \<longleftrightarrow> num \<nu> y \<le> num \<nu> x)) s"
    by (rule circuit_bind [OF u]) (rule circuit_return; simp)
  show "circuit (State_Monad.bind (uge one x y) (\<lambda>g. State_Monad.return (Some (lit_negate g)))) (\<lambda>n. returns (lit_in n))
      (\<lambda>\<nu> r. lit_true \<nu> one \<longrightarrow> (lit_true \<nu> (the r) \<longleftrightarrow> num \<nu> x < num \<nu> y)) s"
    by (rule circuit_bind [OF u]) (rule circuit_return; simp add: not_le)
qed

lemma compare_bits_circuit:
  assumes "root_inv s" "lits_in (num_vars s) a" "lits_in (num_vars s) b" "lit_in (num_vars s) one" "length b = length a" "a \<noteq> []"
    and "kind \<in> {ULt, ULe, UGt, UGe, Lt, Le, Gt, Ge}"
  shows "circuit (compare_bits one kind a b) (\<lambda>n. returns (lit_in n))
    (\<lambda>\<nu> r. lit_true \<nu> one \<longrightarrow> (lit_true \<nu> (the r) \<longleftrightarrow> compare_spec kind (length a) (num \<nu> a) (num \<nu> b))) s"
proof -
  have b: "b \<noteq> []" using assms(5,6) by auto
  obtain f where f: "flip_sign a = Some f" "length f = length a" "lits_in (num_vars s) f"
      "\<And>\<nu>. int (num \<nu> f) = signed_val (length a) (num \<nu> a) + 2 ^ (length a - 1)"
    using flip_sign_num [OF assms(6)] assms(2) by metis
  obtain g where g: "flip_sign b = Some g" "length g = length a" "lits_in (num_vars s) g"
      "\<And>\<nu>. int (num \<nu> g) = signed_val (length a) (num \<nu> b) + 2 ^ (length a - 1)"
    using flip_sign_num [OF b] assms(3,5) by metis
  have o: "num \<nu> f \<le> num \<nu> g \<longleftrightarrow> signed_val (length a) (num \<nu> a) \<le> signed_val (length a) (num \<nu> b)"
    "num \<nu> g \<le> num \<nu> f \<longleftrightarrow> signed_val (length a) (num \<nu> b) \<le> signed_val (length a) (num \<nu> a)" for \<nu>
    using f(4) [of \<nu>] g(4) [of \<nu>] by linarith+
  note c = uge_Some_circuit [OF assms(1) _ _ assms(4)]
  note cs = c [OF assms(2,3)] c [OF assms(3,2)] c [OF f(3) g(3)] c [OF g(3) f(3)]
  note e = compare_bits_eqs [OF f(1) g(1)] compare_spec_eqs
  have l: "length a = length b" "length b = length a" "length f = length g" "length g = length f" using assms(5) f(2) g(2) by simp_all
  have o2: "num \<nu> f < num \<nu> g \<longleftrightarrow> signed_val (length a) (num \<nu> a) < signed_val (length a) (num \<nu> b)"
    "num \<nu> g < num \<nu> f \<longleftrightarrow> signed_val (length a) (num \<nu> b) < signed_val (length a) (num \<nu> a)" for \<nu>
    using f(4) [of \<nu>] g(4) [of \<nu>] by linarith+
  consider "kind = ULt" | "kind = ULe" | "kind = UGt" | "kind = UGe" | "kind = Lt" | "kind = Le" | "kind = Gt" | "kind = Ge"
    using assms(7) by blast
  then show ?thesis
  proof cases
    case 1 then show ?thesis using cs(2) [OF l(1)] by (simp only: e)
  next
    case 2 then show ?thesis using cs(3) [OF l(2)] by (simp only: e)
  next
    case 3 then show ?thesis using cs(4) [OF l(2)] by (simp only: e)
  next
    case 4 then show ?thesis using cs(1) [OF l(1)] by (simp only: e)
  next
    case 5 then show ?thesis using cs(6) [OF l(3)] by (simp only: e o2)
  next
    case 6 then show ?thesis using cs(7) [OF l(4)] by (simp only: e o)
  next
    case 7 then show ?thesis using cs(8) [OF l(4)] by (simp only: e o2)
  next
    case 8 then show ?thesis using cs(5) [OF l(3)] by (simp only: e o)
  qed
qed

subsection \<open>Shifts\<close>

lemma stages_from_ge: "w \<le> 2 ^ stages_from w k"
  by (induction w k rule: stages_from.induct) (subst stages_from.simps, auto simp: not_less)

lemma length_shift_const [simp]: "length (shift_const xs n kind fill) = length xs"
  by (simp add: shift_const_def Let_def)

lemma map_shift_const: "map f (shift_const xs n kind fill) = shift_const (map f xs) n kind (f fill)"
  by (auto simp: shift_const_def Let_def split: Shift.splits)

lemma shift_const_zero [simp]: "shift_const xs 0 kind fill = xs"
  by (cases kind) (auto simp: shift_const_def Let_def intro!: nth_equalityI)

lemma shift_const_add: "shift_const (shift_const xs m kind fill) n kind fill = shift_const xs (m + n) kind fill"
proof (cases kind)
  case Left
  then show ?thesis by (intro nth_equalityI) (auto simp: shift_const_def Let_def less_diff_conv2 add.commute)
qed (intro nth_equalityI; auto simp: shift_const_def Let_def add.assoc add.commute add.left_commute)+

lemma shift_const_all: "length xs \<le> n \<Longrightarrow> shift_const xs n kind fill = replicate (length xs) fill"
  by (cases kind) (auto simp: shift_const_def Let_def intro!: nth_equalityI)

lemma set_shift_const: "set (shift_const xs n kind fill) \<subseteq> insert fill (set xs)"
  by (auto simp: shift_const_def Let_def split: Shift.splits if_splits)

lemma shift_stages_circuit:
  assumes "root_inv s" "lits_in (num_vars s) amount" "lits_in (num_vars s) cur" "lit_in (num_vars s) fill"
  shows "circuit (shift_stages kind fill k amount cur) (\<lambda>n r. lits_in n r \<and> length r = length cur)
    (\<lambda>\<nu> r. vals \<nu> r = shift_const (vals \<nu> cur) (2 ^ k * num \<nu> amount) kind (lit_true \<nu> fill)) s"
  using assms
proof (induction amount arbitrary: s k cur)
  case Nil
  then show ?case by (auto intro!: circuit_return)
next
  case (Cons b bs)
  have sc: "lits_in (num_vars s) (shift_const cur (2 ^ k) kind fill)"
    using Cons.prems set_shift_const [of cur "2 ^ k" kind fill] by blast
  show ?case unfolding shift_stages.simps
  proof (rule circuit_bind [OF mux_bits_circuit], goal_cases)
    case (6 r t)
    have v: "vals \<nu> q = shift_const (vals \<nu> cur) (2 ^ k * num \<nu> (b # bs)) kind (lit_true \<nu> fill)"
      if "vals \<nu> r = (if lit_true \<nu> b then vals \<nu> (shift_const cur (2 ^ k) kind fill) else vals \<nu> cur)"
        "vals \<nu> q = shift_const (vals \<nu> r) (2 ^ (k + 1) * num \<nu> bs) kind (lit_true \<nu> fill)" for \<nu> q
      unfolding that by (simp add: map_shift_const shift_const_add algebra_simps)
    have in6: "lits_in (num_vars t) bs" "lit_in (num_vars t) fill" using 6 Cons.prems by fastforce+
    show ?case
    proof (rule circuit_mono [OF Cons.IH], goal_cases)
      case (6 \<nu> q n)
      then show ?case using v by blast
    qed (use 6 in6 in auto)
  qed (use Cons.prems sc in auto)
qed

lemma or_from_circuit:
  assumes "root_inv s" "lits_in (num_vars s) bs" "lit_in (num_vars s) acc"
  shows "circuit (or_from acc bs) lit_in (\<lambda>\<nu> y. lit_true \<nu> y = (lit_true \<nu> acc \<or> (\<exists>b \<in> set bs. lit_true \<nu> b))) s"
  using assms
proof (induction bs arbitrary: s acc)
  case Nil
  then show ?case by (auto intro!: circuit_return)
next
  case (Cons b bs)
  show ?case unfolding or_from.simps
  proof (rule circuit_bind [OF gate_or_circuit], goal_cases)
    case (4 y t)
    then have "lits_in (num_vars t) bs" using Cons.prems by fastforce
    then show ?case using 4 by (intro circuit_mono [OF Cons.IH]) auto
  qed (use Cons.prems in auto)
qed

lemma nat_of_bits_eq_0: "nat_of_bits bs = 0 \<longleftrightarrow> True \<notin> set bs"
  by (induction bs) auto

text \<open>The whole shifter: any amount, the overflowing ones included, shifts by its value.\<close>

lemma shift_bits_circuit:
  assumes "root_inv s" "lits_in (num_vars s) a" "lits_in (num_vars s) amount" "lit_in (num_vars s) one"
    and "kind = Arithmetic \<longrightarrow> a \<noteq> []" "stages_from (length a) 0 \<le> length amount"
  shows "circuit (shift_bits one kind a amount) (\<lambda>n. returns (\<lambda>r. lits_in n r \<and> length r = length a))
    (\<lambda>\<nu> r. lit_true \<nu> one \<longrightarrow> vals \<nu> (the r) =
      shift_const (vals \<nu> a) (num \<nu> amount) kind (kind = Arithmetic \<and> lit_true \<nu> (last a))) s"
proof -
  let ?k = "stages_from (length a) 0"
  let ?fill = "if kind = Arithmetic then last a else lit_negate one"
  have fill: "lit_in (num_vars s) ?fill" using assms by auto
  have np: "\<not> (kind = Arithmetic \<and> a = [])" "\<not> length amount < ?k" using assms by auto
  have take: "lits_in (num_vars s) (take ?k amount)" using assms(3) by (auto dest: in_set_takeD)
  have fin: "shift_const (vals \<nu> a) (num \<nu> amount) kind f =
      (if \<exists>b \<in> set (drop ?k amount). lit_true \<nu> b then replicate (length a) f
       else shift_const (vals \<nu> a) (num \<nu> (take ?k amount)) kind f)" for \<nu> f
  proof -
    have e: "num \<nu> amount = num \<nu> (take ?k amount) + 2 ^ ?k * num \<nu> (drop ?k amount)"
      using nat_of_bits_append [of "vals \<nu> (take ?k amount)" "vals \<nu> (drop ?k amount)"] assms(6)
      by (simp flip: map_append)
    have "length (vals \<nu> a) \<le> num \<nu> amount" if "num \<nu> (drop ?k amount) \<noteq> 0"
    proof -
      have "2 ^ ?k \<le> 2 ^ ?k * num \<nu> (drop ?k amount)" using that by simp
      then show ?thesis unfolding e using stages_from_ge [of "length a" 0] by (simp only: length_map)
    qed
    moreover have "num \<nu> (drop ?k amount) = 0 \<longleftrightarrow> \<not> (\<exists>b \<in> set (drop ?k amount). lit_true \<nu> b)"
      by (auto simp: nat_of_bits_eq_0)
    ultimately show ?thesis using e shift_const_all [of "vals \<nu> a" "num \<nu> amount"] by auto
  qed
  show ?thesis unfolding shift_bits_def Let_def if_not_P [OF np(1)] if_not_P [OF np(2)]
  proof (rule circuit_bind [OF shift_stages_circuit], goal_cases)
    case (5 cur t)
    have in5: "lits_in (num_vars t) (drop ?k amount)" "lit_in (num_vars t) one" "lit_in (num_vars t) ?fill"
      using 5 assms(3,4) fill by (fastforce dest: in_set_dropD)+
    show ?case
    proof (rule circuit_bind [OF or_from_circuit], goal_cases)
      case (4 ov u)
      have in4: "lits_in (num_vars u) cur" "lit_in (num_vars u) ?fill" using 4 5 in5 by fastforce+
      show ?case
      proof (rule circuit_bind [OF mux_bits_circuit], goal_cases)
        case (6 out x)
        then show ?case using 5
          by (intro circuit_return) (auto simp: fin map_replicate_const)
      qed (use 4 5 in4 in auto)
    qed (use 5 in5 in auto)
  qed (use assms take fill in auto)
qed

text \<open>The shifter in numbers: multiplication and division by a power of two, the arithmetic one
  rounding down.\<close>

lemma nth_shift_const:
  "i < length xs \<Longrightarrow> shift_const xs n kind fill ! i =
    (case kind of Left \<Rightarrow> if n \<le> i then xs ! (i - n) else fill | _ \<Rightarrow> if i + n < length xs then xs ! (i + n) else fill)"
  by (cases kind) (simp_all add: shift_const_def Let_def)

lemma shift_left_num: "nat_of_bits (shift_const bs n Left False) = (nat_of_bits bs * 2 ^ n) mod 2 ^ length bs"
proof (rule bit_eqI)
  fix i
  show "bit (nat_of_bits (shift_const bs n Left False)) i = bit ((nat_of_bits bs * 2 ^ n) mod 2 ^ length bs) i"
    unfolding push_bit_eq_mult [symmetric] take_bit_eq_mod [symmetric]
    by (auto simp: bit_nat_of_bits nth_shift_const bit_take_bit_iff bit_push_bit_iff split: if_splits)
qed

lemma shift_logical_num: "nat_of_bits (shift_const bs n Logical False) = nat_of_bits bs div 2 ^ n"
proof (rule bit_eqI)
  fix i
  show "bit (nat_of_bits (shift_const bs n Logical False)) i = bit (nat_of_bits bs div 2 ^ n) i"
    unfolding drop_bit_eq_div [symmetric]
    by (auto simp: bit_nat_of_bits nth_shift_const bit_drop_bit_eq add.commute split: if_splits)
qed

lemma signed_val_take_bit: "0 < w \<Longrightarrow> x < 2 ^ w \<Longrightarrow> signed_val w x = signed_take_bit (w - 1) (int x)"
proof -
  assume w: "0 < w" "x < 2 ^ w"
  have "int x < 2 ^ w" using w(2) by (metis of_nat_less_iff of_nat_numeral of_nat_power)
  then have t: "take_bit w (int x) = int x" by (simp add: take_bit_int_eq_self)
  obtain v where v: "w = Suc v" using w(1) by (cases w) auto
  have "signed_take_bit v (int x) = take_bit (Suc v) (int x) - 2 ^ Suc v * of_bool (bit (int x) v)"
    by (simp add: signed_take_bit_eq_take_bit_minus)
  then show ?thesis using t by (simp add: signed_val_def v bit_of_nat_iff_bit)
qed

lemma shift_arithmetic_num:
  assumes "bs \<noteq> []"
  shows "int (nat_of_bits (shift_const bs n Arithmetic (last bs))) =
    (signed_val (length bs) (nat_of_bits bs) div 2 ^ n) mod 2 ^ length bs"
proof (rule bit_eqI)
  fix i
  have sv: "signed_val (length bs) (nat_of_bits bs) = signed_take_bit (length bs - 1) (int (nat_of_bits bs))"
    using assms nat_of_bits_lt [of bs] by (intro signed_val_take_bit) auto
  have m: "min (n + i) (length bs - Suc 0) = (if n + i < length bs then n + i else length bs - 1)" using assms by auto
  show "bit (int (nat_of_bits (shift_const bs n Arithmetic (last bs)))) i =
      bit ((signed_val (length bs) (nat_of_bits bs) div 2 ^ n) mod 2 ^ length bs) i"
    unfolding sv drop_bit_eq_div [symmetric] take_bit_eq_mod [symmetric]
    using assms
    by (auto simp: bit_of_nat_iff_bit bit_nat_of_bits nth_shift_const bit_take_bit_iff bit_drop_bit_eq bit_signed_take_bit_iff m last_conv_nth add.commute [of i n] split: if_splits)
qed

end
