(* ===== verification/BlastFp.thy ===== *)
theory BlastFp
  imports Circuits
begin

text \<open>
  The floating-point circuits of the bit-blaster (\<open>libs/symbolic/src/bitblast/fp.rs\<close>): IEEE
  comparison, integer to float conversion rounding to nearest even, and float to integer
  conversion under a rounding mode, with the conditions under which the conversion is defined.
  Vectors of literals are little-endian: the fraction, then the exponent, then the sign.
  \<open>None\<close> is a panic.
\<close>

subsection \<open>Reductions, constants and shifts\<close>

definition or_reduce :: "Lit \<Rightarrow> Lit list \<Rightarrow> (Solver, Lit) state" where
  "or_reduce one bits = or_from (lit_negate one) bits"

definition nor :: "Lit \<Rightarrow> Lit list \<Rightarrow> (Solver, Lit) state" where
  "nor one bits = do { acc \<leftarrow> or_reduce one bits; State_Monad.return (lit_negate acc) }"

fun and_from :: "Lit \<Rightarrow> Lit list \<Rightarrow> (Solver, Lit) state" where
  "and_from acc [] = State_Monad.return acc"
| "and_from acc (b # bits) = do { acc \<leftarrow> gate_and acc b; and_from acc bits }"

text \<open>The bits of a number as literals; the callers keep \<open>w\<close> at most 64.\<close>

definition const_bits :: "Lit \<Rightarrow> nat \<Rightarrow> nat \<Rightarrow> Lit list" where
  "const_bits one value w = map (\<lambda>i. if bit value i then one else lit_negate one) [0..<w]"

definition shift_left_by :: "Lit list \<Rightarrow> nat \<Rightarrow> Lit \<Rightarrow> Lit list" where
  "shift_left_by bits by fill = map (\<lambda>p. if by \<le> p then bits ! (p - by) else fill) [0..<length bits]"

text \<open>One stage of \<open>shift_by_bits\<close>: the source index by checked subtraction or addition.\<close>

definition staged :: "Lit \<Rightarrow> Lit list \<Rightarrow> bool \<Rightarrow> nat \<Rightarrow> Lit list" where
  "staged one current left by =
     (let width = length current
      in map (\<lambda>index.
           (case (if left then if by \<le> index then Some (index - by) else None
                  else if index + by < width then Some (index + by) else None) of
              None \<Rightarrow> lit_negate one
            | Some source \<Rightarrow> current ! source)) [0..<width])"

fun shift_by_stages :: "Lit \<Rightarrow> bool \<Rightarrow> nat \<Rightarrow> Lit list \<Rightarrow> Lit list \<Rightarrow> (Solver, Lit list) state" where
  "shift_by_stages one left stage [] current = State_Monad.return current"
| "shift_by_stages one left stage (enabled # rest) current = do {
     current \<leftarrow> mux_bits enabled (staged one current left (2 ^ stage)) current;
     shift_by_stages one left (stage + 1) rest current
   }"

definition shift_by_bits :: "Lit \<Rightarrow> Lit list \<Rightarrow> Lit list \<Rightarrow> bool \<Rightarrow> (Solver, Lit list) state" where
  "shift_by_bits one bits amount left = do {
     let stages = stages_from (length bits) 0;
     current \<leftarrow> shift_by_stages one left 0 (take stages amount) bits;
     overflow \<leftarrow> or_reduce one (drop (min stages (length amount)) amount);
     mux_bits overflow (replicate (length bits) (lit_negate one)) current
   }"

subsection \<open>Comparison\<close>

definition float_format :: "nat \<Rightarrow> (nat \<times> nat) option" where
  "float_format width = (if width = 32 then Some (8, 23) else if width = 64 then Some (11, 52) else None)"

definition float_is_nan :: "Lit \<Rightarrow> Lit list \<Rightarrow> Lit list \<Rightarrow> (Solver, Lit) state" where
  "float_is_nan one fraction exponent = do {
     exponent_all_ones \<leftarrow> and_from one exponent;
     fraction_nonzero \<leftarrow> or_reduce one fraction;
     gate_and exponent_all_ones fraction_nonzero
   }"

definition float_is_zero :: "Lit \<Rightarrow> Lit list \<Rightarrow> Lit list \<Rightarrow> (Solver, Lit) state" where
  "float_is_zero one fraction exponent = do {
     fraction_zero \<leftarrow> nor one fraction;
     exponent_zero \<leftarrow> nor one exponent;
     gate_and fraction_zero exponent_zero
   }"

text \<open>The tests \<open>encode_float_compare\<close> makes of two vectors of one format: ordered, equal, both zero.\<close>

definition float_tests :: "Lit \<Rightarrow> nat \<Rightarrow> nat \<Rightarrow> Lit list \<Rightarrow> Lit list \<Rightarrow> (Solver, Lit \<times> Lit \<times> Lit) state" where
  "float_tests one exp_width mant_width lhs rhs = do {
     let lhs_fraction = take mant_width lhs;
     let lhs_exponent = take exp_width (drop mant_width lhs);
     let rhs_fraction = take mant_width rhs;
     let rhs_exponent = take exp_width (drop mant_width rhs);
     lhs_nan \<leftarrow> float_is_nan one lhs_fraction lhs_exponent;
     rhs_nan \<leftarrow> float_is_nan one rhs_fraction rhs_exponent;
     unordered \<leftarrow> gate_or lhs_nan rhs_nan;
     let ordered = lit_negate unordered;
     lhs_zero \<leftarrow> float_is_zero one lhs_fraction lhs_exponent;
     rhs_zero \<leftarrow> float_is_zero one rhs_fraction rhs_exponent;
     both_zero \<leftarrow> gate_and lhs_zero rhs_zero;
     bit_equal \<leftarrow> eq_bits one lhs rhs;
     equal_value \<leftarrow> gate_or bit_equal both_zero;
     ordered_equal \<leftarrow> gate_and ordered equal_value;
     State_Monad.return (ordered, ordered_equal, both_zero)
   }"

definition float_less :: "Lit \<Rightarrow> Lit \<Rightarrow> Lit \<Rightarrow> Lit list \<Rightarrow> Lit list \<Rightarrow> (Solver, Lit) state" where
  "float_less one ordered both_zero lhs rhs = do {
     let lhs_sign = last lhs;
     let rhs_sign = last rhs;
     signs_differ \<leftarrow> gate_xor lhs_sign rhs_sign;
     negative_before_positive \<leftarrow> gate_and lhs_sign signs_differ;
     positive_ge \<leftarrow> uge one (butlast lhs) (butlast rhs);
     negative_ge \<leftarrow> uge one (butlast rhs) (butlast lhs);
     same_sign_less \<leftarrow> gate_mux lhs_sign (lit_negate negative_ge) (lit_negate positive_ge);
     numeric_less \<leftarrow> gate_mux signs_differ negative_before_positive same_sign_less;
     nonzero_less \<leftarrow> gate_and (lit_negate both_zero) numeric_less;
     gate_and ordered nonzero_less
   }"

text \<open>The circuit of a comparison of two vectors of \<open>1 + exp_width + mant_width\<close> bits; a kind that is
  no comparison is unreachable.\<close>

definition float_compare :: "Lit \<Rightarrow> SymKind \<Rightarrow> nat \<Rightarrow> nat \<Rightarrow> Lit list \<Rightarrow> Lit list \<Rightarrow> (Solver, Lit option) state" where
  "float_compare one kind exp_width mant_width lhs rhs = do {
     (ordered, ordered_equal, both_zero) \<leftarrow> float_tests one exp_width mant_width lhs rhs;
     ordered_less \<leftarrow> float_less one ordered both_zero lhs rhs;
     neither_less_nor_equal \<leftarrow> gate_and (lit_negate ordered_less) (lit_negate ordered_equal);
     ordered_greater \<leftarrow> gate_and ordered neither_less_nor_equal;
     (case kind of
        Eq \<Rightarrow> State_Monad.return (Some ordered_equal)
      | Ne \<Rightarrow> State_Monad.return (Some (lit_negate ordered_equal))
      | Lt \<Rightarrow> State_Monad.return (Some ordered_less)
      | Le \<Rightarrow> do { r \<leftarrow> gate_and ordered (lit_negate ordered_greater); State_Monad.return (Some r) }
      | Gt \<Rightarrow> State_Monad.return (Some ordered_greater)
      | Ge \<Rightarrow> do { r \<leftarrow> gate_and ordered (lit_negate ordered_less); State_Monad.return (Some r) }
      | _ \<Rightarrow> State_Monad.return None)
   }"

subsection \<open>Integer to float\<close>

text \<open>\<open>while l < n { l <<= 1 }\<close>.\<close>

function pow2_from :: "nat \<Rightarrow> nat \<Rightarrow> nat" where
  "pow2_from n l = (if 0 < l \<and> l < n then pow2_from n (2 * l) else l)"
  by pat_completeness auto
termination by (relation "measure (\<lambda>(n, l). n - l)") auto

declare pow2_from.simps [simp del]

text \<open>The normalizing shift, from stage \<open>k - 1\<close> down, and the flags of the stages taken.\<close>

fun normalize :: "Lit \<Rightarrow> nat \<Rightarrow> Lit list \<Rightarrow> Lit list \<Rightarrow> (Solver, Lit list \<times> Lit list) state" where
  "normalize one 0 cur shift = State_Monad.return (cur, shift)"
| "normalize one (Suc k) cur shift = do {
     let by = 2 ^ k;
     high_zero \<leftarrow> nor one (drop (length cur - by) cur);
     let shifted = shift_left_by cur by (lit_negate one);
     cur \<leftarrow> mux_bits high_zero shifted cur;
     normalize one k cur (shift[k := high_zero])
   }"

text \<open>The rounding of a normalized register at \<open>m\<close> fraction bits: the fraction and the carry.\<close>

definition round_nearest :: "Lit \<Rightarrow> nat \<Rightarrow> Lit list \<Rightarrow> (Solver, Lit list \<times> Lit) state" where
  "round_nearest one m cur = do {
     let zero = lit_negate one;
     let l = length cur;
     let frac_lo = l - 1 - m;
     let guard = cur ! (frac_lo - 1);
     sticky \<leftarrow> or_reduce one (take (frac_lo - 1) cur);
     let frac_lsb = cur ! frac_lo;
     sticky_or_lsb \<leftarrow> gate_or sticky frac_lsb;
     round_up \<leftarrow> gate_and guard sticky_or_lsb;
     let significand = drop frac_lo cur @ [zero];
     (rounded, _) \<leftarrow> adder significand (replicate (length significand) zero) round_up;
     State_Monad.return (take m rounded, rounded ! (m + 1))
   }"

definition resize_bits :: "nat \<Rightarrow> 'a \<Rightarrow> 'a list \<Rightarrow> 'a list" where
  "resize_bits n fill bits = take n bits @ replicate (n - length bits) fill"

definition magnitude_of :: "Lit \<Rightarrow> Lit list \<Rightarrow> bool \<Rightarrow> (Solver, Lit \<times> Lit list) state" where
  "magnitude_of one value is_signed =
     (if is_signed then do {
        let sign = last value;
        neg \<leftarrow> negate_bits one value;
        magnitude \<leftarrow> mux_bits sign neg value;
        State_Monad.return (sign, magnitude)
      }
      else State_Monad.return (lit_negate one, value))"

definition int_to_float :: "Lit \<Rightarrow> Lit list \<Rightarrow> bool \<Rightarrow> nat \<Rightarrow> nat \<Rightarrow> (Solver, Lit list option) state" where
  "int_to_float one value is_signed e m =
     (if is_signed \<and> value = [] \<or> e = 0 \<or> 64 < e then State_Monad.return None
      else do {
        let zero = lit_negate one;
        (sign, magnitude) \<leftarrow> magnitude_of one value is_signed;
        let l = pow2_from (max (length value) (m + 2)) 1;
        let cur = resize_bits l zero magnitude;
        is_zero \<leftarrow> nor one cur;
        let stages = stages_from l 0;
        (cur, shift) \<leftarrow> normalize one stages cur (replicate stages zero);
        (fraction, overflow) \<leftarrow> round_nearest one m cur;
        let bias = 2 ^ (e - 1) - 1;
        let base = const_bits one (l - 1 + bias) e;
        unrounded \<leftarrow> subtract one base (resize_bits e zero shift);
        (biased, _) \<leftarrow> adder unrounded (replicate e zero) overflow;
        let out = fraction @ biased @ [sign];
        out \<leftarrow> mux_bits is_zero (replicate (length out) zero) out;
        State_Monad.return (Some out)
      })"

subsection \<open>Float to integer\<close>

record FloatToInt =
  fi_bits :: "Lit list"
  fi_width :: nat
  fi_exp_width :: nat
  fi_mant_width :: nat

definition fi_fraction :: "FloatToInt \<Rightarrow> Lit list" where
  "fi_fraction operand = take (fi_mant_width operand) (fi_bits operand)"

definition fi_exponent :: "FloatToInt \<Rightarrow> Lit list" where
  "fi_exponent operand = take (fi_exp_width operand) (drop (fi_mant_width operand) (fi_bits operand))"

definition fi_sign :: "FloatToInt \<Rightarrow> Lit" where
  "fi_sign operand = fi_bits operand ! (fi_mant_width operand + fi_exp_width operand)"

definition fi_bias :: "FloatToInt \<Rightarrow> nat" where
  "fi_bias operand = 2 ^ (fi_exp_width operand - 1) - 1"

fun shifted_out_from ::
  "Lit \<Rightarrow> Lit list \<Rightarrow> nat \<Rightarrow> Lit list \<Rightarrow> Lit \<Rightarrow> Lit \<Rightarrow> Lit \<Rightarrow> (Solver, Lit \<times> Lit \<times> Lit) state" where
  "shifted_out_from one amount i [] inexact half_bit below = State_Monad.return (inexact, half_bit, below)"
| "shifted_out_from one amount i (b # bits) inexact half_bit below = do {
     let index = const_bits one (i + 1) (length amount);
     in_remainder \<leftarrow> uge one amount index;
     is_half \<leftarrow> eq_bits one amount index;
     contributed \<leftarrow> gate_and in_remainder b;
     inexact \<leftarrow> gate_or inexact contributed;
     half_contrib \<leftarrow> gate_and is_half b;
     half_bit \<leftarrow> gate_or half_bit half_contrib;
     lower \<leftarrow> gate_and contributed (lit_negate is_half);
     below \<leftarrow> gate_or below lower;
     shifted_out_from one amount (i + 1) bits inexact half_bit below
   }"

definition shifted_out_bits :: "Lit \<Rightarrow> Lit list \<Rightarrow> Lit list \<Rightarrow> (Solver, Lit \<times> Lit \<times> Lit) state" where
  "shifted_out_bits one bits amount =
     (let zero = lit_negate one in shifted_out_from one amount 0 bits zero zero zero)"

definition float_to_int_increment ::
  "Lit \<Rightarrow> Lit list \<Rightarrow> Lit list \<Rightarrow> Lit \<Rightarrow> Lit \<Rightarrow> Lit \<Rightarrow> Lit list option \<Rightarrow> (Solver, Lit) state" where
  "float_to_int_increment one significand right_amount shift_left sign truncated_lsb mode = do {
     let mode = (case mode of Some m \<Rightarrow> m | None \<Rightarrow> const_bits one 1 3);
     (inexact, half_bit, below) \<leftarrow> shifted_out_bits one significand right_amount;
     greater \<leftarrow> gate_and half_bit below;
     tie \<leftarrow> gate_and half_bit (lit_negate below);
     tie_up \<leftarrow> gate_and tie truncated_lsb;
     rne \<leftarrow> gate_or greater tie_up;
     rdn \<leftarrow> gate_and inexact sign;
     rup \<leftarrow> gate_and inexact (lit_negate sign);
     rne_mode \<leftarrow> eq_bits one mode (const_bits one 0 (length mode));
     rdn_mode \<leftarrow> eq_bits one mode (const_bits one 2 (length mode));
     rup_mode \<leftarrow> eq_bits one mode (const_bits one 3 (length mode));
     rmm_mode \<leftarrow> eq_bits one mode (const_bits one 4 (length mode));
     choose_rne \<leftarrow> gate_and rne_mode rne;
     choose_rdn \<leftarrow> gate_and rdn_mode rdn;
     choose_rup \<leftarrow> gate_and rup_mode rup;
     choose_rmm \<leftarrow> gate_and rmm_mode half_bit;
     increment \<leftarrow> gate_or choose_rne choose_rdn;
     increment \<leftarrow> gate_or increment choose_rup;
     increment \<leftarrow> gate_or increment choose_rmm;
     gate_and increment (lit_negate shift_left)
   }"

text \<open>Whether the rounded magnitude fits the destination.\<close>

definition conversion_fits :: "Lit \<Rightarrow> bool \<Rightarrow> Lit \<Rightarrow> Lit list \<Rightarrow> Lit \<Rightarrow> (Solver, Lit) state" where
  "conversion_fits one is_signed sign rounded carry =
     (if is_signed then do {
        let msb = last rounded;
        lower \<leftarrow> or_reduce one (butlast rounded);
        positive_overflow \<leftarrow> gate_and (lit_negate sign) msb;
        mag_past_min \<leftarrow> gate_and msb lower;
        negative_overflow \<leftarrow> gate_and sign mag_past_min;
        signed_overflow \<leftarrow> gate_or positive_overflow negative_overflow;
        overflow \<leftarrow> gate_or carry signed_overflow;
        State_Monad.return (lit_negate overflow)
      }
      else do {
        nonzero \<leftarrow> or_reduce one rounded;
        negative \<leftarrow> gate_and sign nonzero;
        gate_and (lit_negate carry) (lit_negate negative)
      })"

text \<open>The circuit of \<open>encode_float_to_int\<close>: the result and the literal recorded in
  \<open>conversion_defined\<close>.\<close>

definition float_to_int ::
  "Lit \<Rightarrow> FloatToInt \<Rightarrow> bool \<Rightarrow> Lit list option \<Rightarrow> (Solver, (Lit list \<times> Lit) option) state" where
  "float_to_int one operand is_signed mode =
     (if is_signed \<and> fi_width operand = 0 \<or> 64 < (case mode of Some m \<Rightarrow> length m | None \<Rightarrow> 3)
      then State_Monad.return None
      else do {
        let zero = lit_negate one;
        exponent_is_zero \<leftarrow> nor one (fi_exponent operand);
        let implicit = lit_negate exponent_is_zero;
        let significand = fi_fraction operand @ [implicit];
        let work_width = max (fi_width operand) (length significand);
        let significand = resize_bits work_width zero significand;
        effective_exponent \<leftarrow> mux_bits exponent_is_zero (const_bits one 1 (fi_exp_width operand)) (fi_exponent operand);
        let effective_exponent = effective_exponent @ [zero];
        let base = const_bits one (fi_bias operand + fi_mant_width operand) (fi_exp_width operand + 1);
        shift_left \<leftarrow> uge one effective_exponent base;
        left_amount \<leftarrow> subtract one effective_exponent base;
        right_amount \<leftarrow> subtract one base effective_exponent;
        left \<leftarrow> shift_by_bits one significand left_amount True;
        right \<leftarrow> shift_by_bits one significand right_amount False;
        magnitude \<leftarrow> mux_bits shift_left left right;
        let magnitude = take (fi_width operand) magnitude;
        increment \<leftarrow> float_to_int_increment one significand right_amount shift_left (fi_sign operand)
          (if magnitude = [] then zero else hd magnitude) mode;
        (rounded, carry) \<leftarrow> adder magnitude (replicate (length magnitude) zero) increment;
        fits \<leftarrow> conversion_fits one is_signed (fi_sign operand) rounded carry;
        if \<not> is_signed then State_Monad.return (Some (rounded, fits))
        else do {
          negative \<leftarrow> negate_bits one rounded;
          out \<leftarrow> mux_bits (fi_sign operand) negative rounded;
          State_Monad.return (Some (out, fits))
        }
      })"

definition less_than_exponent :: "Lit \<Rightarrow> FloatToInt \<Rightarrow> nat \<Rightarrow> (Solver, Lit) state" where
  "less_than_exponent one operand limit = do {
     g \<leftarrow> uge one (fi_exponent operand) (const_bits one limit (fi_exp_width operand));
     State_Monad.return (lit_negate g)
   }"

text \<open>The exponents a conversion accepts: for a negative and for a positive operand.\<close>

definition exponent_ok :: "Lit \<Rightarrow> FloatToInt \<Rightarrow> bool \<Rightarrow> (Solver, Lit \<times> Lit) state" where
  "exponent_ok one operand is_signed =
     (if is_signed then do {
        let threshold = fi_bias operand + fi_width operand - 1;
        below \<leftarrow> less_than_exponent one operand threshold;
        at_threshold \<leftarrow> eq_bits one (fi_exponent operand) (const_bits one threshold (fi_exp_width operand));
        boundary_fraction_ok \<leftarrow>
          (if fi_width operand - 1 \<le> fi_mant_width operand then do {
             let limit = 2 ^ (fi_mant_width operand - (fi_width operand - 1));
             g \<leftarrow> uge one (fi_fraction operand) (const_bits one limit (fi_mant_width operand));
             State_Monad.return (lit_negate g)
           }
           else nor one (fi_fraction operand));
        boundary_ok \<leftarrow> gate_and at_threshold boundary_fraction_ok;
        negative_ok \<leftarrow> gate_or below boundary_ok;
        State_Monad.return (negative_ok, below)
      }
      else do {
        negative_ok \<leftarrow> less_than_exponent one operand (fi_bias operand);
        positive_ok \<leftarrow> less_than_exponent one operand (fi_bias operand + fi_width operand);
        State_Monad.return (negative_ok, positive_ok)
      })"

text \<open>\<open>float_to_int_defined\<close>, with the recorded literal and, for a conversion under a rounding mode,
  the mode's bits.\<close>

definition float_to_int_defined ::
  "Lit \<Rightarrow> FloatToInt \<Rightarrow> bool \<Rightarrow> Lit option \<Rightarrow> Lit list option \<Rightarrow> (Solver, Lit option) state" where
  "float_to_int_defined one operand is_signed fits mode =
     (if is_signed \<and> fi_width operand = 0 then State_Monad.return None
      else do {
        let all_ones = const_bits one (2 ^ fi_exp_width operand - 1) (fi_exp_width operand);
        infinite \<leftarrow> eq_bits one (fi_exponent operand) all_ones;
        (negative_ok, positive_ok) \<leftarrow> exponent_ok one operand is_signed;
        negative \<leftarrow> gate_and (fi_sign operand) negative_ok;
        positive \<leftarrow> gate_and (lit_negate (fi_sign operand)) positive_ok;
        in_range \<leftarrow> gate_or negative positive;
        defined \<leftarrow> gate_and (lit_negate infinite) in_range;
        defined \<leftarrow> (case fits of Some fits \<Rightarrow> gate_and defined fits | None \<Rightarrow> State_Monad.return defined);
        (case mode of
           None \<Rightarrow> State_Monad.return (Some defined)
         | Some mode \<Rightarrow>
             if 64 < length mode then State_Monad.return None
             else do {
               allowed \<leftarrow> uge one (const_bits one 4 (length mode)) mode;
               defined \<leftarrow> gate_and defined allowed;
               State_Monad.return (Some defined)
             })
      })"

subsection \<open>Reductions\<close>

lemma or_reduce_circuit:
  assumes "root_inv s" "lits_in (num_vars s) bs" "lit_in (num_vars s) one"
  shows "circuit (or_reduce one bs) lit_in (\<lambda>\<nu> y. lit_true \<nu> one \<longrightarrow> (lit_true \<nu> y \<longleftrightarrow> (\<exists>b \<in> set bs. lit_true \<nu> b))) s"
  unfolding or_reduce_def by (rule circuit_mono [OF or_from_circuit]) (use assms in auto)

lemma nor_circuit:
  assumes "root_inv s" "lits_in (num_vars s) bs" "lit_in (num_vars s) one"
  shows "circuit (nor one bs) lit_in (\<lambda>\<nu> y. lit_true \<nu> one \<longrightarrow> (lit_true \<nu> y \<longleftrightarrow> \<not> (\<exists>b \<in> set bs. lit_true \<nu> b))) s"
  unfolding nor_def by (rule circuit_bind [OF or_reduce_circuit]) (use assms in \<open>auto intro!: circuit_return\<close>)

lemma and_from_circuit:
  assumes "root_inv s" "lits_in (num_vars s) bs" "lit_in (num_vars s) acc"
  shows "circuit (and_from acc bs) lit_in (\<lambda>\<nu> y. lit_true \<nu> y = (lit_true \<nu> acc \<and> (\<forall>b \<in> set bs. lit_true \<nu> b))) s"
  using assms
proof (induction bs arbitrary: s acc)
  case Nil
  then show ?case by (auto intro!: circuit_return)
next
  case (Cons b bs)
  show ?case unfolding and_from.simps
  proof (rule circuit_bind [OF gate_and_circuit], goal_cases)
    case (4 y t)
    then have "lits_in (num_vars t) bs" using Cons.prems by fastforce
    then show ?case using 4 by (intro circuit_mono [OF Cons.IH]) auto
  qed (use Cons.prems in auto)
qed

lemma nat_of_bits_zero: "nat_of_bits bs = 0 \<longleftrightarrow> (\<forall>b \<in> set bs. \<not> b)"
  by (auto simp: nat_of_bits_eq_0)

lemma nat_of_bits_full: "nat_of_bits bs = 2 ^ length bs - 1 \<longleftrightarrow> (\<forall>b \<in> set bs. b)"
proof -
  have "nat_of_bits bs = 2 ^ length bs - 1 \<longleftrightarrow> nat_of_bits (map Not bs) = 0"
    unfolding nat_of_bits_not using nat_of_bits_lt [of bs] by linarith
  then show ?thesis by (simp add: nat_of_bits_zero)
qed

lemma nat_of_bits_const: "nat_of_bits (map (bit n) [0..<w]) = n mod 2 ^ w"
proof (rule bit_eqI)
  fix i
  show "bit (nat_of_bits (map (bit n) [0..<w])) i = bit (n mod 2 ^ w) i"
    by (auto simp: bit_nat_of_bits take_bit_eq_mod [symmetric] bit_take_bit_iff)
qed

lemma const_bits_facts:
  "length (const_bits one n w) = w" "lit_in k one \<Longrightarrow> lits_in k (const_bits one n w)"
  "lit_true \<nu> one \<Longrightarrow> num \<nu> (const_bits one n w) = n mod 2 ^ w"
proof -
  show "num \<nu> (const_bits one n w) = n mod 2 ^ w" if "lit_true \<nu> one"
  proof -
    have "vals \<nu> (const_bits one n w) = map (bit n) [0..<w]" using that by (simp add: const_bits_def)
    then show ?thesis by (simp only: nat_of_bits_const)
  qed
qed (auto simp: const_bits_def)

subsection \<open>IEEE comparison\<close>

text \<open>The fields of a number that holds a float, whether it is a NaN, and its value scaled by
  \<open>2 ^ (bias + m - 1)\<close>, an integer; an infinity scales to the value above every finite one.\<close>

definition fp_fraction :: "nat \<Rightarrow> nat \<Rightarrow> nat" where
  "fp_fraction m x = x mod 2 ^ m"

definition fp_exponent :: "nat \<Rightarrow> nat \<Rightarrow> nat \<Rightarrow> nat" where
  "fp_exponent e m x = x div 2 ^ m mod 2 ^ e"

definition fp_nan :: "nat \<Rightarrow> nat \<Rightarrow> nat \<Rightarrow> bool" where
  "fp_nan e m x \<longleftrightarrow> fp_exponent e m x = 2 ^ e - 1 \<and> fp_fraction m x \<noteq> 0"

definition fp_magnitude :: "nat \<Rightarrow> nat \<Rightarrow> nat" where
  "fp_magnitude m k = (if k div 2 ^ m = 0 then k mod 2 ^ m else (2 ^ m + k mod 2 ^ m) * 2 ^ (k div 2 ^ m - 1))"

definition fp_scaled :: "nat \<Rightarrow> nat \<Rightarrow> nat \<Rightarrow> int" where
  "fp_scaled e m x = (if bit x (e + m) then - 1 else 1) * int (fp_magnitude m (x mod 2 ^ (e + m)))"

definition fp_compare :: "SymKind \<Rightarrow> nat \<Rightarrow> nat \<Rightarrow> nat \<Rightarrow> nat \<Rightarrow> bool" where
  "fp_compare kind e m x y =
     (let ordered = (\<not> fp_nan e m x \<and> \<not> fp_nan e m y); a = fp_scaled e m x; b = fp_scaled e m y
      in case kind of
           Eq \<Rightarrow> ordered \<and> a = b | Ne \<Rightarrow> \<not> (ordered \<and> a = b) | Lt \<Rightarrow> ordered \<and> a < b
         | Le \<Rightarrow> ordered \<and> a \<le> b | Gt \<Rightarrow> ordered \<and> b < a | Ge \<Rightarrow> ordered \<and> b \<le> a | _ \<Rightarrow> False)"

lemma fp_magnitude_step: "fp_magnitude m k < fp_magnitude m (Suc k)"
proof -
  have p: "0 < (2 :: nat) ^ m" by simp
  show ?thesis
  proof (cases "Suc (k mod 2 ^ m) = 2 ^ m")
    case True
    then have n: "Suc k div 2 ^ m = Suc (k div 2 ^ m)" "Suc k mod 2 ^ m = 0"
      by (simp_all add: div_Suc mod_Suc)
    show ?thesis
    proof (cases "k div 2 ^ m = 0")
      case True
      then show ?thesis using n p by (simp add: fp_magnitude_def)
    next
      case False
      then obtain j where j: "k div 2 ^ m = Suc j" by (cases "k div 2 ^ m") auto
      have "(2 ^ m + k mod 2 ^ m) * 2 ^ j < (2 ^ m * 2) * 2 ^ j"
        using p by (intro mult_strict_right_mono) (auto simp: mult_2_right)
      then show ?thesis using n j by (simp add: fp_magnitude_def)
    qed
  next
    case False
    then have "Suc k div 2 ^ m = k div 2 ^ m" "Suc k mod 2 ^ m = Suc (k mod 2 ^ m)" by (simp_all add: div_Suc mod_Suc)
    then show ?thesis by (simp add: fp_magnitude_def)
  qed
qed

lemma fp_magnitude_mono: "fp_magnitude m k < fp_magnitude m l \<longleftrightarrow> k < l" "fp_magnitude m k = fp_magnitude m l \<longleftrightarrow> k = l"
  "fp_magnitude m k = 0 \<longleftrightarrow> k = 0"
proof -
  have lt: "fp_magnitude m k < fp_magnitude m l" if "k < l" for k l
    by (rule lift_Suc_mono_less [of "fp_magnitude m", OF fp_magnitude_step that])
  show "fp_magnitude m k < fp_magnitude m l \<longleftrightarrow> k < l" using lt by (metis less_asym less_irrefl linorder_neqE_nat)
  show eq: "fp_magnitude m k = fp_magnitude m l \<longleftrightarrow> k = l" for l using lt by (metis less_irrefl linorder_neqE_nat)
  show "fp_magnitude m k = 0 \<longleftrightarrow> k = 0" using eq [of 0] by (simp add: fp_magnitude_def)
qed

text \<open>The order of two floats by sign and magnitude bits, as the circuit decides it.\<close>

lemma fp_order:
  fixes x y e m :: nat
  defines "p \<equiv> x mod 2 ^ (e + m)" and "q \<equiv> y mod 2 ^ (e + m)"
  assumes "x < 2 ^ (e + m + 1)" "y < 2 ^ (e + m + 1)"
  shows "fp_scaled e m x = fp_scaled e m y \<longleftrightarrow> x = y \<or> p = 0 \<and> q = 0"
    "fp_scaled e m x < fp_scaled e m y \<longleftrightarrow> \<not> (p = 0 \<and> q = 0) \<and>
      (if bit x (e + m) \<noteq> bit y (e + m) then bit x (e + m) else if bit x (e + m) then q < p else p < q)"
proof -
  have split: "z = z mod 2 ^ (e + m) + of_bool (bit z (e + m)) * 2 ^ (e + m)" if "z < 2 ^ (e + m + 1)" for z :: nat
  proof -
    have "z div 2 ^ (e + m) < 2" using that by (simp add: less_mult_imp_div_less)
    then have "z div 2 ^ (e + m) = of_bool (bit z (e + m))" by (auto simp: bit_iff_odd less_2_cases_iff)
    then show ?thesis by (metis mod_div_mult_eq)
  qed
  have xy: "x = y \<longleftrightarrow> p = q \<and> bit x (e + m) = bit y (e + m)"
  proof
    assume h: "p = q \<and> bit x (e + m) = bit y (e + m)"
    show "x = y" by (subst split [OF assms(3)], subst split [OF assms(4)]) (use h in \<open>simp add: p_def q_def\<close>)
  qed (simp add: p_def q_def)
  have pq: "int (fp_magnitude m p) < int (fp_magnitude m q) \<longleftrightarrow> p < q" "int (fp_magnitude m q) < int (fp_magnitude m p) \<longleftrightarrow> q < p"
    "int (fp_magnitude m p) = int (fp_magnitude m q) \<longleftrightarrow> p = q" "int (fp_magnitude m p) = 0 \<longleftrightarrow> p = 0"
    "int (fp_magnitude m q) = 0 \<longleftrightarrow> q = 0"
    by (simp_all only: of_nat_less_iff of_nat_eq_iff of_nat_eq_0_iff fp_magnitude_mono)
  show "fp_scaled e m x = fp_scaled e m y \<longleftrightarrow> x = y \<or> p = 0 \<and> q = 0"
    unfolding fp_scaled_def p_def [symmetric] q_def [symmetric] xy
    using pq by (cases "bit x (e + m)"; cases "bit y (e + m)") (simp_all; linarith)+
  show "fp_scaled e m x < fp_scaled e m y \<longleftrightarrow> \<not> (p = 0 \<and> q = 0) \<and>
      (if bit x (e + m) \<noteq> bit y (e + m) then bit x (e + m) else if bit x (e + m) then q < p else p < q)"
    unfolding fp_scaled_def p_def [symmetric] q_def [symmetric]
    using pq by (cases "bit x (e + m)"; cases "bit y (e + m)") (simp_all; linarith)+
qed

text \<open>The two reductions of a float's fields, in numbers.\<close>

lemma fields:
  assumes "length a = e + m + 1"
  shows "num \<nu> (take m a) = fp_fraction m (num \<nu> a)" "num \<nu> (take e (drop m a)) = fp_exponent e m (num \<nu> a)"
    "num \<nu> (butlast a) = num \<nu> a mod 2 ^ (e + m)" "lit_true \<nu> (last a) = bit (num \<nu> a) (e + m)" "a \<noteq> []"
proof -
  show ne: "a \<noteq> []" using assms by auto
  show "num \<nu> (take m a) = fp_fraction m (num \<nu> a)" by (simp add: fp_fraction_def nat_of_bits_take take_map [symmetric])
  show "num \<nu> (take e (drop m a)) = fp_exponent e m (num \<nu> a)"
    by (simp add: fp_exponent_def nat_of_bits_take nat_of_bits_drop take_map [symmetric] drop_map [symmetric])
  show "num \<nu> (butlast a) = num \<nu> a mod 2 ^ (e + m)"
    using assms by (simp add: butlast_conv_take nat_of_bits_take take_map [symmetric])
  show "lit_true \<nu> (last a) = bit (num \<nu> a) (e + m)" using lit_true_last [OF ne] assms by simp
qed

lemma float_is_nan_circuit:
  assumes "root_inv s" "lits_in (num_vars s) a" "lit_in (num_vars s) one" "length a = e + m + 1"
  shows "circuit (float_is_nan one (take m a) (take e (drop m a))) lit_in
    (\<lambda>\<nu> y. lit_true \<nu> one \<longrightarrow> (lit_true \<nu> y \<longleftrightarrow> fp_nan e m (num \<nu> a))) s"
proof -
  have i: "lits_in (num_vars s) (take m a)" "lits_in (num_vars s) (take e (drop m a))"
    using assms(2) by (auto dest: in_set_takeD in_set_dropD)
  have n: "fp_nan e m (num \<nu> a) \<longleftrightarrow> (\<forall>b \<in> set (take e (drop m a)). lit_true \<nu> b) \<and> (\<exists>b \<in> set (take m a). lit_true \<nu> b)" for \<nu>
    using nat_of_bits_full [of "vals \<nu> (take e (drop m a))"] nat_of_bits_zero [of "vals \<nu> (take m a)"]
    unfolding fp_nan_def fields [OF assms(4), symmetric] by (simp add: assms(4))
  show ?thesis unfolding float_is_nan_def
  proof (rule circuit_bind [OF and_from_circuit], goal_cases)
    case (4 r t)
    have "lits_in (num_vars t) (take m a)" using lits_mono [OF i(1)] 4(2) by blast
    then show ?case
      by (intro circuit_bind [OF or_reduce_circuit] circuit_mono [OF gate_and_circuit]) (use 4 assms n in auto)
  qed (use assms i in auto)
qed

lemma float_is_zero_circuit:
  assumes "root_inv s" "lits_in (num_vars s) a" "lit_in (num_vars s) one" "length a = e + m + 1"
  shows "circuit (float_is_zero one (take m a) (take e (drop m a))) lit_in
    (\<lambda>\<nu> y. lit_true \<nu> one \<longrightarrow> (lit_true \<nu> y \<longleftrightarrow> num \<nu> a mod 2 ^ (e + m) = 0)) s"
proof -
  have i: "lits_in (num_vars s) (take m a)" "lits_in (num_vars s) (take e (drop m a))"
    using assms(2) by (auto dest: in_set_takeD in_set_dropD)
  have "butlast a = take m a @ take e (drop m a)" using assms(4) take_add [of m e a] by (simp add: butlast_conv_take add.commute)
  then have n: "num \<nu> a mod 2 ^ (e + m) = 0 \<longleftrightarrow> \<not> (\<exists>b \<in> set (take m a). lit_true \<nu> b) \<and> \<not> (\<exists>b \<in> set (take e (drop m a)). lit_true \<nu> b)" for \<nu>
    using nat_of_bits_zero [of "vals \<nu> (butlast a)"] fields(3) [OF assms(4), of \<nu>] by auto
  show ?thesis unfolding float_is_zero_def
  proof (rule circuit_bind [OF nor_circuit], goal_cases)
    case (4 r t)
    have "lits_in (num_vars t) (take e (drop m a))" using lits_mono [OF i(2)] 4(2) by blast
    then show ?case
      by (intro circuit_bind [OF nor_circuit] circuit_mono [OF gate_and_circuit]) (use 4 assms n in auto)
  qed (use assms i in auto)
qed

lemma float_tests_circuit:
  assumes "root_inv s" "lits_in (num_vars s) a" "lits_in (num_vars s) b" "lit_in (num_vars s) one"
    "length a = e + m + 1" "length b = e + m + 1"
  shows "circuit (float_tests one e m a b) (\<lambda>n (od, eq, z). lit_in n od \<and> lit_in n eq \<and> lit_in n z)
    (\<lambda>\<nu> (od, eq, z). lit_true \<nu> one \<longrightarrow> (lit_true \<nu> od \<longleftrightarrow> \<not> fp_nan e m (num \<nu> a) \<and> \<not> fp_nan e m (num \<nu> b)) \<and>
      (lit_true \<nu> eq \<longleftrightarrow> lit_true \<nu> od \<and> fp_scaled e m (num \<nu> a) = fp_scaled e m (num \<nu> b)) \<and>
      (lit_true \<nu> z \<longleftrightarrow> num \<nu> a mod 2 ^ (e + m) = 0 \<and> num \<nu> b mod 2 ^ (e + m) = 0)) s"
proof -
  have lt: "num \<nu> a < 2 ^ (e + m + 1)" "num \<nu> b < 2 ^ (e + m + 1)" for \<nu> using num_lt [of \<nu> a] num_lt [of \<nu> b] assms by simp_all
  have inj: "num \<nu> a = num \<nu> b \<longleftrightarrow> vals \<nu> a = vals \<nu> b" for \<nu> using assms by (intro nat_of_bits_inj) simp
  note sc = fp_order(1) [OF lt]
  have up: "lits_in n a" "lits_in n b" "lit_in n one" if "num_vars s \<le> n" for n
    using that assms(2-4) lits_mono by (blast, blast, simp)
  show ?thesis unfolding float_tests_def Let_def
    by (intro circuit_bind [OF float_is_nan_circuit] circuit_bind [OF float_is_zero_circuit] circuit_bind [OF eq_bits_circuit]
        bind_gate circuit_return) (simp_all add: assms up sc inj)
qed

lemma float_less_circuit:
  assumes "root_inv s" "lits_in (num_vars s) a" "lits_in (num_vars s) b" "lit_in (num_vars s) one"
    "length a = e + m + 1" "length b = e + m + 1" "lit_in (num_vars s) od" "lit_in (num_vars s) z"
  shows "circuit (float_less one od z a b) lit_in
    (\<lambda>\<nu> y. lit_true \<nu> one \<longrightarrow> (lit_true \<nu> z \<longleftrightarrow> num \<nu> a mod 2 ^ (e + m) = 0 \<and> num \<nu> b mod 2 ^ (e + m) = 0) \<longrightarrow>
      (lit_true \<nu> y \<longleftrightarrow> lit_true \<nu> od \<and> fp_scaled e m (num \<nu> a) < fp_scaled e m (num \<nu> b))) s"
proof -
  have lt: "num \<nu> a < 2 ^ (e + m + 1)" "num \<nu> b < 2 ^ (e + m + 1)" for \<nu> using num_lt [of \<nu> a] num_lt [of \<nu> b] assms by simp_all
  note sc = fp_order(2) [OF lt] and fa = fields(3-5) [OF assms(5)] and fb = fields(3-5) [OF assms(6)]
  have up: "lits_in n (butlast a)" "lits_in n (butlast b)" "lit_in n one" "lit_in n (last a)" "lit_in n (last b)" "lit_in n od" "lit_in n z"
    if "num_vars s \<le> n" for n
    using that assms(2-4,7,8) lits_mono fa(3) fb(3) by (auto dest: in_set_butlastD)
  show ?thesis unfolding float_less_def Let_def
    by (intro circuit_bind [OF uge_circuit] bind_gate circuit_mono [OF gate_and_circuit])
      (simp_all add: assms up sc fa(1,2) fb(1,2) not_le)
qed

text \<open>The comparison circuit decides the IEEE comparison of its kind.\<close>

lemma fp_compare_eqs:
  fixes e m x y
  defines "od \<equiv> \<not> fp_nan e m x \<and> \<not> fp_nan e m y"
  shows "fp_compare Eq e m x y \<longleftrightarrow> od \<and> fp_scaled e m x = fp_scaled e m y"
    "fp_compare Ne e m x y \<longleftrightarrow> \<not> (od \<and> fp_scaled e m x = fp_scaled e m y)"
    "fp_compare Lt e m x y \<longleftrightarrow> od \<and> fp_scaled e m x < fp_scaled e m y" "fp_compare Le e m x y \<longleftrightarrow> od \<and> fp_scaled e m x \<le> fp_scaled e m y"
    "fp_compare Gt e m x y \<longleftrightarrow> od \<and> fp_scaled e m y < fp_scaled e m x" "fp_compare Ge e m x y \<longleftrightarrow> od \<and> fp_scaled e m y \<le> fp_scaled e m x"
  by (auto simp: fp_compare_def Let_def od_def)

definition finish_compare :: "SymKind \<Rightarrow> Lit \<Rightarrow> Lit \<Rightarrow> Lit \<Rightarrow> Lit \<Rightarrow> (Solver, Lit option) state" where
  "finish_compare kind od eq ls gr =
     (case kind of
        Eq \<Rightarrow> State_Monad.return (Some eq)
      | Ne \<Rightarrow> State_Monad.return (Some (lit_negate eq))
      | Lt \<Rightarrow> State_Monad.return (Some ls)
      | Le \<Rightarrow> do { r \<leftarrow> gate_and od (lit_negate gr); State_Monad.return (Some r) }
      | Gt \<Rightarrow> State_Monad.return (Some gr)
      | Ge \<Rightarrow> do { r \<leftarrow> gate_and od (lit_negate ls); State_Monad.return (Some r) }
      | _ \<Rightarrow> State_Monad.return None)"

lemma finish_compare_circuit:
  assumes "root_inv s" "lit_in (num_vars s) od" "lit_in (num_vars s) eq" "lit_in (num_vars s) ls" "lit_in (num_vars s) gr"
    and "kind \<in> {Eq, Ne, Lt, Le, Gt, Ge}"
  shows "circuit (finish_compare kind od eq ls gr) (\<lambda>n. returns (lit_in n))
    (\<lambda>\<nu> r. lit_true \<nu> (the r) \<longleftrightarrow>
      (if kind = Eq then lit_true \<nu> eq else if kind = Ne then \<not> lit_true \<nu> eq else if kind = Lt then lit_true \<nu> ls
       else if kind = Gt then lit_true \<nu> gr else if kind = Le then lit_true \<nu> od \<and> \<not> lit_true \<nu> gr
       else lit_true \<nu> od \<and> \<not> lit_true \<nu> ls)) s"
proof -
  consider "kind = Eq" | "kind = Ne" | "kind = Lt" | "kind = Gt" | "kind = Le" | "kind = Ge" using assms(6) by blast
  then show ?thesis
  proof cases
    case 5
    then show ?thesis unfolding finish_compare_def by (simp, intro bind_gate circuit_return) (simp_all add: assms)
  next
    case 6
    then show ?thesis unfolding finish_compare_def by (simp, intro bind_gate circuit_return) (simp_all add: assms)
  qed (simp_all add: finish_compare_def assms circuit_return)
qed

lemma float_compare_circuit:
  assumes "root_inv s" "lits_in (num_vars s) a" "lits_in (num_vars s) b" "lit_in (num_vars s) one"
    "length a = e + m + 1" "length b = e + m + 1" "kind \<in> {Eq, Ne, Lt, Le, Gt, Ge}"
  shows "circuit (float_compare one kind e m a b) (\<lambda>n. returns (lit_in n))
    (\<lambda>\<nu> r. lit_true \<nu> one \<longrightarrow> (lit_true \<nu> (the r) \<longleftrightarrow> fp_compare kind e m (num \<nu> a) (num \<nu> b))) s"
proof -
  have up: "lits_in n a" "lits_in n b" "lit_in n one" if "num_vars s \<le> n" for n
    using that assms(2-4) lits_mono by (blast, blast, simp)
  have k: "(if kind = Eq then eq else if kind = Ne then \<not> eq else if kind = Lt then ls else if kind = Gt then gr
        else if kind = Le then od \<and> \<not> gr else od \<and> \<not> ls) \<longleftrightarrow> fp_compare kind e m x y"
    if "gr \<longleftrightarrow> od \<and> nn" "nn \<longleftrightarrow> \<not> ls \<and> \<not> eq" "ls \<longleftrightarrow> od \<and> fp_scaled e m x < fp_scaled e m y"
      "od \<longleftrightarrow> \<not> fp_nan e m x \<and> \<not> fp_nan e m y" "eq \<longleftrightarrow> od \<and> fp_scaled e m x = fp_scaled e m y" for od eq ls gr nn x y
    using assms(7) that by (elim insertE emptyE; hypsubst) (auto simp: fp_compare_eqs)
  show ?thesis unfolding float_compare_def finish_compare_def [symmetric]
  proof (rule circuit_bind [OF float_tests_circuit [OF assms(1-6)]], goal_cases)
    case (1 r t)
    obtain od eq z where r: "r = (od, eq, z)" by (cases r)
    have in1: "lit_in n od" "lit_in n eq" "lit_in n z" if "num_vars t \<le> n" for n using 1(3) r that by auto
    show ?case unfolding r prod.case
      by (intro circuit_bind [OF float_less_circuit [where e = e and m = m]] bind_gate circuit_mono [OF finish_compare_circuit])
        ((rule assms(7) | (simp add: assms(5,6) up in1 1; fail) | (intro impI, erule trans, rule k; simp))+)
  qed
qed

subsection \<open>Rounding to nearest, ties to even\<close>

text \<open>\<open>x / 2 ^ k\<close> rounded to the nearest integer, a tie to the even one; and \<open>n\<close> rounded to \<open>m + 1\<close>
  significant bits.\<close>

definition half_even :: "nat \<Rightarrow> nat \<Rightarrow> nat" where
  "half_even x k =
     (let q = x div 2 ^ k; r = x mod 2 ^ k
      in if 2 ^ k < 2 * r \<or> 2 * r = 2 ^ k \<and> odd q then q + 1 else q)"

definition round_even :: "nat \<Rightarrow> nat \<Rightarrow> nat" where
  "round_even m n =
     (let p = bit_length n - 1 in if p \<le> m then n else half_even n (p - m) * 2 ^ (p - m))"

lemma half_even_0 [simp]: "half_even x 0 = x"
  by (simp add: half_even_def)

lemma half_even_scale: "half_even (x * 2 ^ j) (k + j) = half_even x k"
proof -
  have "(x * 2 ^ j) div 2 ^ (k + j) = x div 2 ^ k" by (simp add: power_add)
  moreover have "(x * 2 ^ j) mod 2 ^ (k + j) = (x mod 2 ^ k) * 2 ^ j" by (simp add: power_add mult_mod_left)
  ultimately show ?thesis by (simp add: half_even_def Let_def power_add mult.assoc [symmetric])
qed

text \<open>Guard and sticky bits decide the rounding.\<close>

lemma half_even_guard:
  "half_even x (Suc k) = x div 2 ^ Suc k + of_bool (bit x k \<and> (x mod 2 ^ k \<noteq> 0 \<or> odd (x div 2 ^ Suc k)))"
proof -
  have r: "x mod 2 ^ Suc k = x mod 2 ^ k + 2 ^ k * of_bool (bit x k)"
    by (metis take_bit_Suc_from_most take_bit_eq_mod mult.commute add.commute)
  have l: "x mod 2 ^ k < 2 ^ k" by simp
  have "\<not> 2 ^ k < x mod 2 ^ k" "x mod 2 ^ k \<noteq> 2 ^ k" using less_not_sym [OF l] less_imp_neq [OF l] by blast+
  then show ?thesis unfolding half_even_def Let_def r by (cases "bit x k") auto
qed

lemma half_even_bounds: "2 ^ m * 2 ^ k \<le> x \<Longrightarrow> x < 2 ^ (m + 1) * 2 ^ k \<Longrightarrow> 2 ^ m \<le> half_even x k \<and> half_even x k \<le> 2 ^ (m + 1)"
proof -
  assume a: "2 ^ m * 2 ^ k \<le> x" "x < 2 ^ (m + 1) * 2 ^ k"
  have "2 ^ m \<le> x div 2 ^ k" using a(1) by (simp add: less_eq_div_iff_mult_less_eq)
  moreover have "x div 2 ^ k < 2 ^ (m + 1)" using a(2) by (simp add: less_mult_imp_div_less)
  ultimately show ?thesis by (auto simp: half_even_def Let_def)
qed

subsection \<open>Normalization\<close>

lemma num_update:
  "i < length xs \<Longrightarrow> \<not> lit_true \<nu> (xs ! i) \<Longrightarrow> num \<nu> (xs[i := y]) = num \<nu> xs + 2 ^ i * of_bool (lit_true \<nu> y)"
  by (induction xs arbitrary: i) (auto split: nat.splits)

lemma num_resize:
  "\<not> lit_true \<nu> z \<Longrightarrow> num \<nu> (resize_bits n z bits) = num \<nu> bits mod 2 ^ n" "length (resize_bits n z bits) = n"
proof -
  assume "\<not> lit_true \<nu> z"
  then show "num \<nu> (resize_bits n z bits) = num \<nu> bits mod 2 ^ n"
    by (simp add: resize_bits_def nat_of_bits_append nat_of_bits_take take_map [symmetric] map_replicate_const)
qed (simp add: resize_bits_def min_def)

lemma set_resize: "set (resize_bits n z bits) \<subseteq> insert z (set bits)"
  by (auto simp: resize_bits_def dest: in_set_takeD)

lemma pow2_from_eq: "0 < l \<Longrightarrow> n \<le> pow2_from n l \<and> (\<exists>k. pow2_from n l = l * 2 ^ k)"
proof (induction n l rule: pow2_from.induct)
  case (1 n l)
  show ?case
  proof (cases "l < n")
    case True
    then obtain k where "n \<le> pow2_from n (2 * l)" "pow2_from n (2 * l) = 2 * l * 2 ^ k" using 1 by auto
    then show ?thesis using True 1(2) by (subst (1 2) pow2_from.simps) (auto intro!: exI [of _ "Suc k"])
  next
    case False
    then show ?thesis by (subst (1 2) pow2_from.simps) (auto intro: exI [of _ 0])
  qed
qed

lemma stages_pow2: "j \<le> k \<Longrightarrow> stages_from (2 ^ k) j = k"
proof (induction "k - j" arbitrary: j)
  case 0
  then show ?case by (subst stages_from.simps) simp
next
  case (Suc d)
  then have "stages_from (2 ^ k) (j + 1) = k" by simp
  then show ?case using Suc by (subst stages_from.simps) simp
qed

lemma num_shift_left_by:
  assumes "\<not> lit_true \<nu> z"
  shows "num \<nu> (shift_left_by bits n z) = (num \<nu> bits * 2 ^ n) mod 2 ^ length bits"
proof -
  have "vals \<nu> (shift_left_by bits n z) = shift_const (vals \<nu> bits) n Left False"
    using assms by (auto simp: shift_left_by_def shift_const_def Let_def)
  then show ?thesis using shift_left_num [of "vals \<nu> bits" n] by simp
qed

lemma shift_left_by_facts: "length (shift_left_by bits n z) = length bits" "set (shift_left_by bits n z) \<subseteq> insert z (set bits)"
  by (auto simp: shift_left_by_def)

lemma top_zero:
  assumes "b \<le> length cur"
  shows "(\<exists>x \<in> set (drop (length cur - b) cur). lit_true \<nu> x) \<longleftrightarrow> 2 ^ (length cur - b) \<le> num \<nu> cur"
proof -
  have "num \<nu> (drop (length cur - b) cur) = num \<nu> cur div 2 ^ (length cur - b)"
    by (simp add: nat_of_bits_drop drop_map [symmetric])
  moreover have "num \<nu> (drop (length cur - b) cur) = 0 \<longleftrightarrow> \<not> (\<exists>x \<in> set (drop (length cur - b) cur). lit_true \<nu> x)"
    by (auto simp: nat_of_bits_zero)
  ultimately show ?thesis by (simp add: div_eq_0_iff) (auto simp: not_less)
qed

lemma normalize_step:
  assumes "x < 2 ^ l" "2 ^ k \<le> l" "2 ^ (l - 2 ^ Suc k) \<le> x" "2 ^ Suc k \<le> l"
  shows "if x < 2 ^ (l - 2 ^ k) then (x * 2 ^ 2 ^ k) mod 2 ^ l = x * 2 ^ 2 ^ k \<and> 2 ^ (l - 2 ^ k) \<le> x * 2 ^ 2 ^ k \<and> x * 2 ^ 2 ^ k < 2 ^ l
    else 2 ^ (l - 2 ^ k) \<le> (x :: nat)"
proof (cases "x < 2 ^ (l - 2 ^ k)")
  case True
  have e: "(2 :: nat) ^ (l - 2 ^ k) * 2 ^ 2 ^ k = 2 ^ l" using assms(2) by (simp flip: power_add)
  have f: "(2 :: nat) ^ (l - 2 ^ Suc k) * 2 ^ 2 ^ k = 2 ^ (l - 2 ^ k)" using assms(4) by (simp flip: power_add)
  have "x * 2 ^ 2 ^ k < 2 ^ (l - 2 ^ k) * 2 ^ 2 ^ k" using True by simp
  moreover have "2 ^ (l - 2 ^ Suc k) * 2 ^ 2 ^ k \<le> x * 2 ^ 2 ^ k" using assms(3) by simp
  ultimately show ?thesis using True unfolding e f by simp
qed simp

lemma normalize_circuit:
  assumes "root_inv s" "lits_in (num_vars s) cur" "lits_in (num_vars s) sh" "lit_in (num_vars s) one"
    and "2 ^ k \<le> length cur" "k \<le> length sh"
  shows "circuit (normalize one k cur sh) (\<lambda>n (c, h). lits_in n c \<and> lits_in n h \<and> length c = length cur \<and> length h = length sh)
    (\<lambda>\<nu> (c, h). lit_true \<nu> one \<longrightarrow> (\<forall>i < k. \<not> lit_true \<nu> (sh ! i)) \<longrightarrow> 2 ^ (length cur - 2 ^ k) \<le> num \<nu> cur \<longrightarrow>
      (\<exists>d. num \<nu> c = num \<nu> cur * 2 ^ d \<and> 2 ^ (length cur - 1) \<le> num \<nu> c \<and> num \<nu> h = num \<nu> sh + d)) s"
  using assms
proof (induction k arbitrary: s cur sh)
  case 0
  then show ?case by (auto intro!: circuit_return exI [of _ 0])
next
  case (Suc k)
  let ?b = "2 ^ k :: nat" and ?l = "length cur"
  let ?sl = "shift_left_by cur ?b (lit_negate one)"
  have bl: "?b \<le> ?l" "2 ^ Suc k \<le> ?l" using Suc.prems(5) by auto
  have up: "lits_in n cur" "lits_in n sh" "lit_in n one" "lits_in n (drop (?l - ?b) cur)" "lits_in n ?sl" if "num_vars s \<le> n" for n
    using that Suc.prems(2-4) lits_mono shift_left_by_facts(2) [of cur ?b "lit_negate one"] by (fastforce dest: in_set_dropD)+
  show ?case unfolding normalize.simps Let_def
  proof (rule circuit_bind [OF nor_circuit], goal_cases)
    case (4 hz t)
    show ?case
    proof (rule circuit_bind [OF mux_bits_circuit], goal_cases)
      case (6 c u)
      have lu: "lits_in (num_vars u) (sh[k := hz])" using 6 4 up(2) [of "num_vars u"] set_update_subset_insert [of sh k hz] by auto
      show ?case
      proof (rule circuit_mono [OF Suc.IH [of u c "sh[k := hz]"]], goal_cases)
        case (8 \<nu> r n)
        obtain d h where r: "r = (d, h)" by fastforce
        show ?case unfolding r prod.case
        proof (intro impI)
          assume a: "vals \<nu> c = (if lit_true \<nu> hz then vals \<nu> ?sl else vals \<nu> cur)"
            "lit_true \<nu> one \<longrightarrow> lit_true \<nu> hz = (\<not> (\<exists>x \<in> set (drop (?l - ?b) cur). lit_true \<nu> x))"
            "lit_true \<nu> one" "\<forall>i < Suc k. \<not> lit_true \<nu> (sh ! i)" "2 ^ (?l - 2 ^ Suc k) \<le> num \<nu> cur"
          have hz: "lit_true \<nu> hz \<longleftrightarrow> num \<nu> cur < 2 ^ (?l - ?b)" using a(2,3) top_zero [OF bl(1), of \<nu>] by (simp add: not_le)
          have c: "num \<nu> c = num \<nu> cur * 2 ^ (?b * of_bool (lit_true \<nu> hz))" "2 ^ (?l - ?b) \<le> num \<nu> c"
            using normalize_step [OF _ bl(1) a(5) bl(2)] num_lt [of \<nu> cur] a(1,3) num_shift_left_by [of \<nu> "lit_negate one" cur ?b] hz
            by (auto split: if_splits)
          have h: "num \<nu> (sh[k := hz]) = num \<nu> sh + ?b * of_bool (lit_true \<nu> hz)" using num_update [of k sh \<nu> hz] a(4) Suc.prems(6) by simp
          have "\<forall>i < k. \<not> lit_true \<nu> (sh[k := hz] ! i)" using a(4) by simp
          then obtain e where "num \<nu> d = num \<nu> c * 2 ^ e" "2 ^ (?l - 1) \<le> num \<nu> d" "num \<nu> h = num \<nu> (sh[k := hz]) + e"
            using 8(2) a(3) c(2) 6(3) r shift_left_by_facts(1) [of cur] by auto
          then show "\<exists>e. num \<nu> d = num \<nu> cur * 2 ^ e \<and> 2 ^ (?l - 1) \<le> num \<nu> d \<and> num \<nu> h = num \<nu> sh + e"
            using c(1) h by (intro exI [of _ "?b * of_bool (lit_true \<nu> hz) + e"]) (simp add: power_add mult.assoc)
        qed
      qed (use 6 4 lu up Suc.prems in \<open>auto simp: shift_left_by_facts\<close>)
    qed (use 4 up Suc.prems in \<open>auto simp: shift_left_by_facts\<close>)
  qed (use up Suc.prems in auto)
qed

lemma round_nearest_circuit:
  assumes "root_inv s" "lits_in (num_vars s) cur" "lit_in (num_vars s) one" "m + 2 \<le> length cur"
  shows "circuit (round_nearest one m cur) (\<lambda>n (f, v). lits_in n f \<and> lit_in n v \<and> length f = m)
    (\<lambda>\<nu> (f, v). lit_true \<nu> one \<longrightarrow>
      (let r = half_even (num \<nu> cur) (length cur - 1 - m) in num \<nu> f = r mod 2 ^ m \<and> (lit_true \<nu> v \<longleftrightarrow> bit r (m + 1)))) s"
proof -
  define fl where "fl = length cur - 1 - m"
  obtain k where k: "fl = Suc k" "fl < length cur" using assms(4) by (cases fl) (auto simp: fl_def)
  have fl: "length cur - fl = m + 1" using assms(4) by (simp add: fl_def)
  let ?z = "lit_negate one" and ?sig = "drop fl cur @ [lit_negate one]"
  have up: "lits_in n cur" "lit_in n one" "lits_in n (take (fl - 1) cur)" "lit_in n (cur ! fl)" "lit_in n (cur ! (fl - 1))"
      "\<forall>l \<in> set (drop fl cur). l < 2 * n" if "num_vars s \<le> n" for n
  proof -
    show c: "lits_in n cur" using that assms(2) lits_mono by blast
    show "lit_in n one" using that assms(3) by simp
    show "lits_in n (take (fl - 1) cur)" "\<forall>l \<in> set (drop fl cur). l < 2 * n" using c by (auto dest: in_set_takeD in_set_dropD)
    show "lit_in n (cur ! fl)" "lit_in n (cur ! (fl - 1))" using c k by auto
  qed
  have sig: "num \<nu> ?sig = num \<nu> cur div 2 ^ fl" if "lit_true \<nu> one" for \<nu>
    using that by (simp add: nat_of_bits_append nat_of_bits_drop drop_map [symmetric])
  have bits: "lit_true \<nu> (cur ! (fl - 1)) = bit (num \<nu> cur) k" "lit_true \<nu> (cur ! fl) = odd (num \<nu> cur div 2 ^ fl)"
    "(\<exists>b \<in> set (take (fl - 1) cur). lit_true \<nu> b) \<longleftrightarrow> num \<nu> cur mod 2 ^ k \<noteq> 0" for \<nu>
  proof -
    show "lit_true \<nu> (cur ! (fl - 1)) = bit (num \<nu> cur) k" using k by (simp add: bit_nat_of_bits)
    show "lit_true \<nu> (cur ! fl) = odd (num \<nu> cur div 2 ^ fl)" using k bit_nat_of_bits [of "vals \<nu> cur" fl] by (simp add: bit_iff_odd)
    have "num \<nu> (take k cur) = num \<nu> cur mod 2 ^ k" by (simp add: nat_of_bits_take take_map [symmetric])
    then show "(\<exists>b \<in> set (take (fl - 1) cur). lit_true \<nu> b) \<longleftrightarrow> num \<nu> cur mod 2 ^ k \<noteq> 0"
      using k nat_of_bits_zero [of "vals \<nu> (take k cur)"] by auto
  qed
  have fin: "num \<nu> (take m rounded) = half_even (num \<nu> cur) fl mod 2 ^ m \<and> (lit_true \<nu> (rounded ! (m + 1)) \<longleftrightarrow> bit (half_even (num \<nu> cur) fl) (m + 1))"
    if "length rounded = m + 2" "num \<nu> rounded + 2 ^ (m + 2) * of_bool cy = num \<nu> cur div 2 ^ fl + of_bool (bit (num \<nu> cur) k \<and> (num \<nu> cur mod 2 ^ k \<noteq> 0 \<or> odd (num \<nu> cur div 2 ^ fl)))"
    for \<nu> rounded and cy
  proof -
    have h: "half_even (num \<nu> cur) fl = num \<nu> rounded + 2 ^ (m + 2) * of_bool cy" using half_even_guard [of "num \<nu> cur" k] that(2) k by simp
    have "num \<nu> rounded mod 2 ^ m = (num \<nu> rounded + 2 ^ (m + 2) * of_bool cy) mod 2 ^ m"
      by (simp add: power_add mod_mult_self4 mult.assoc)
    moreover have "bit (num \<nu> rounded + 2 ^ (m + 2) * of_bool cy) (m + 1) = bit (num \<nu> rounded) (m + 1)"
      by (metis (no_types) bit_take_bit_iff take_bit_eq_mod mod_mult_self2 lessI add_Suc_right numeral_2_eq_2 One_nat_def)
    ultimately show ?thesis unfolding h using that(1) bit_nat_of_bits [of "vals \<nu> rounded" "m + 1"]
      by (simp add: nat_of_bits_take take_map [symmetric])
  qed
  let ?zs = "replicate (length ?sig) ?z"
  have fin': "num \<nu> (take m rounded) = half_even (num \<nu> cur) fl mod 2 ^ m \<and> (lit_true \<nu> (rounded ! (m + 1)) \<longleftrightarrow> bit (half_even (num \<nu> cur) fl) (m + 1))"
    if "length rounded = length ?zs" "lit_true \<nu> one"
      "num \<nu> rounded + 2 ^ length ?zs * of_bool (lit_true \<nu> cy) = num \<nu> ?sig + num \<nu> ?zs + of_bool (lit_true \<nu> rb)"
      "lit_true \<nu> rb = (lit_true \<nu> (cur ! (fl - 1)) \<and> lit_true \<nu> ra)" "lit_true \<nu> ra = (lit_true \<nu> r \<or> lit_true \<nu> (cur ! fl))"
      "lit_true \<nu> one \<longrightarrow> lit_true \<nu> r = (\<exists>b \<in> set (take (fl - 1) cur). lit_true \<nu> b)" for \<nu> rounded cy rb ra r
  proof (rule fin [where cy = "lit_true \<nu> cy"])
    have l: "length ?sig = m + 2" using fl by simp
    show "length rounded = m + 2" using that(1) l by simp
    have z: "num \<nu> ?zs = 0" using that(2) by (simp add: map_replicate_const)
    have rb: "lit_true \<nu> rb \<longleftrightarrow> bit (num \<nu> cur) k \<and> (num \<nu> cur mod 2 ^ k \<noteq> 0 \<or> odd (num \<nu> cur div 2 ^ fl))"
      using that(2,4-6) bits [of \<nu>] by blast
    show "num \<nu> rounded + 2 ^ (m + 2) * of_bool (lit_true \<nu> cy) = num \<nu> cur div 2 ^ fl +
        of_bool (bit (num \<nu> cur) k \<and> (num \<nu> cur mod 2 ^ k \<noteq> 0 \<or> odd (num \<nu> cur div 2 ^ fl)))"
      using that(3) [unfolded z sig [OF that(2)] rb] unfolding length_replicate l by (simp only: add_0_right)
  qed
  show ?thesis unfolding round_nearest_def Let_def fl_def [symmetric]
    by (intro circuit_bind [OF or_reduce_circuit] bind_gate circuit_bind_pair [OF adder_circuit] circuit_return)
      (((simp only: prod.case, intro impI, rule fin'; (assumption | simp)) | (simp add: up assms fl map_replicate_const del: One_nat_def; fail) |
        (auto simp: fl up map_replicate_const dest: in_set_takeD; fail))+)
qed

lemma magnitude_of_circuit:
  assumes "root_inv s" "lits_in (num_vars s) v" "lit_in (num_vars s) one" "sg \<longrightarrow> v \<noteq> []"
  shows "circuit (magnitude_of one v sg) (\<lambda>n (sn, mg). lit_in n sn \<and> lits_in n mg \<and> length mg = length v)
    (\<lambda>\<nu> (sn, mg). lit_true \<nu> one \<longrightarrow> (lit_true \<nu> sn \<longleftrightarrow> sg \<and> bit (num \<nu> v) (length v - 1)) \<and>
      num \<nu> mg = (if sg then smt_mag (length v) (num \<nu> v) else num \<nu> v)) s"
proof (cases sg)
  case True
  have up: "lits_in n v" "lit_in n one" "lit_in n (last v)" if "num_vars s \<le> n" for n
    using that assms lits_mono True by (blast, simp, meson last_in_set lits_mono)
  have b: "lit_true \<nu> (last v) = bit (num \<nu> v) (length v - 1)" for \<nu> using assms True by (intro lit_true_last) auto
  show ?thesis unfolding magnitude_of_def Let_def if_P [OF True]
    by (intro circuit_bind [OF neg_circuit] circuit_bind [OF mux_num_circuit] circuit_return)
      (simp_all add: up assms True b smt_mag_def)
next
  case False
  show ?thesis unfolding magnitude_of_def if_not_P [OF False] by (rule circuit_return) (use assms False in auto)
qed

text \<open>The significand and exponent of a normalized, rounded value scale back to the value.\<close>

lemma rounded_magnitude:
  assumes "2 ^ m \<le> r" "r \<le> 2 ^ (m + 1)" "0 < x"
  shows "fp_magnitude m (r mod 2 ^ m + 2 ^ m * (x + of_bool (bit r (m + 1)))) = r * 2 ^ (x - 1)"
proof (cases "r = 2 ^ (m + 1)")
  case True
  moreover have "bit ((2 :: nat) ^ (m + 1)) (m + 1)" by (subst bit_exp_iff) simp
  ultimately have "bit r (m + 1)" "r mod 2 ^ m = 0" by simp_all
  then show ?thesis using True assms(3) by (simp add: fp_magnitude_def) (cases x; simp)
next
  case False
  then have r: "r < 2 ^ (m + 1)" using assms(2) by simp
  then have "\<not> bit r (m + 1)" by (simp add: bit_iff_odd)
  moreover obtain f where f: "r = 2 ^ m + f" "f < 2 ^ m" using r assms(1) le_Suc_ex [OF assms(1)] by auto
  moreover have "(f + 2 ^ m * x) div 2 ^ m = x" "(f + 2 ^ m * x) mod 2 ^ m = f" using f(2) by simp_all
  ultimately show ?thesis using assms(3) by (simp add: fp_magnitude_def)
qed

lemma round_even_normal:
  assumes "2 ^ p \<le> n" "n < 2 ^ (p + 1)" "p + 1 \<le> l" "m + 1 \<le> l"
  shows "half_even (n * 2 ^ (l - 1 - p)) (l - 1 - m) * 2 ^ p = round_even m n * 2 ^ m"
proof -
  have bl: "bit_length n = p + 1" using assms(1,2) by (intro bit_length_unique) simp_all
  show ?thesis
  proof (cases "p \<le> m")
    case True
    have eq: "n * 2 ^ (l - 1 - p) = (n * 2 ^ (m - p)) * 2 ^ (l - 1 - m)" using True assms(3,4) by (simp flip: power_add mult.assoc add: mult.assoc)
    then have "half_even (n * 2 ^ (l - 1 - p)) (l - 1 - m) = n * 2 ^ (m - p)" using half_even_scale [of "n * 2 ^ (m - p)" "l - 1 - m" 0] by (simp only: eq add_0 half_even_0)
    then show ?thesis using True bl by (simp add: round_even_def mult.assoc flip: power_add)
  next
    case False
    have "half_even (n * 2 ^ (l - 1 - p)) (p - m + (l - 1 - p)) = half_even n (p - m)" by (rule half_even_scale)
    moreover have "p - m + (l - 1 - p) = l - 1 - m" using False assms(3) by simp
    ultimately show ?thesis using False bl by (simp add: round_even_def mult.assoc flip: power_add)
  qed
qed

lemma conversion_value:
  fixes n l m e d bias :: nat
  defines "r \<equiv> half_even (n * 2 ^ d) (l - 1 - m)"
  defines "x \<equiv> (((l - 1 + bias) mod 2 ^ e + 2 ^ e - d mod 2 ^ e) mod 2 ^ e + of_bool (bit r (m + 1))) mod 2 ^ e"
  assumes "0 < bias" "0 < n" "2 ^ (l - 1) \<le> n * 2 ^ d" "n * 2 ^ d < 2 ^ l" "m + 2 \<le> l" "l + bias < 2 ^ e - 1"
  shows "fp_magnitude m (r mod 2 ^ m + 2 ^ m * x) = round_even m n * 2 ^ (bias + m - 1)" "x < 2 ^ e - 1"
proof -
  have "2 ^ d \<le> n * 2 ^ d" using assms(4) by simp
  then have "(2 :: nat) ^ d < 2 ^ l" using assms(6) by linarith
  then have d: "d < l" by simp
  define p where "p = l - 1 - d"
  have pd: "p + d = l - 1" "p + 1 \<le> l" using d by (simp_all add: p_def)
  have "2 ^ p * 2 ^ d \<le> n * 2 ^ d" using assms(5) pd by (simp flip: power_add)
  then have n1: "2 ^ p \<le> n" by simp
  have "l = p + 1 + d" using pd d by linarith
  then have "(2 :: nat) ^ l = 2 ^ (p + 1) * 2 ^ d" by (simp only: power_add)
  then have n2: "n < 2 ^ (p + 1)" using assms(6) by simp
  have dl: "l - 1 - p = d" using pd by simp
  have re: "r * 2 ^ p = round_even m n * 2 ^ m"
    unfolding r_def using round_even_normal [OF n1 n2 pd(2), of m] assms(7) unfolding dl by simp
  have pw: "(2 :: nat) ^ (l - 1) = 2 ^ m * 2 ^ (l - 1 - m)" "(2 :: nat) ^ l = 2 ^ (m + 1) * 2 ^ (l - 1 - m)"
    using assms(7) by (simp_all only: flip: power_add) simp_all
  have rb: "2 ^ m \<le> r" "r \<le> 2 ^ (m + 1)" using half_even_bounds [of m "l - 1 - m" "n * 2 ^ d"] assms(5,6) unfolding pw r_def by auto
  have sm: "l - 1 + bias < 2 ^ e" "d < 2 ^ e" "p + bias < 2 ^ e" using assms(8) d pd by linarith+
  have "(l - 1 + bias) mod 2 ^ e + 2 ^ e - d mod 2 ^ e = (p + bias) + 2 ^ e" using sm pd by simp
  then have u: "((l - 1 + bias) mod 2 ^ e + 2 ^ e - d mod 2 ^ e) mod 2 ^ e = p + bias" using sm(3) by simp
  have "p + bias + of_bool (bit r (m + 1)) < 2 ^ e - 1" using assms(8) pd by (auto simp: of_bool_def)
  then have x: "x = p + bias + of_bool (bit r (m + 1))" "x < 2 ^ e - 1" unfolding x_def u by simp_all
  show "x < 2 ^ e - 1" by (rule x(2))
  have "fp_magnitude m (r mod 2 ^ m + 2 ^ m * x) = r * 2 ^ (p + bias - 1)"
    unfolding x using rounded_magnitude [OF rb, of "p + bias"] assms(3) by simp
  also have "\<dots> = r * 2 ^ p * 2 ^ (bias - 1)" using assms(3) by (simp add: mult.assoc flip: power_add)
  also have "\<dots> = round_even m n * 2 ^ (bias + m - 1)" unfolding re using assms(3) by (simp add: mult.assoc add.commute flip: power_add)
  finally show "fp_magnitude m (r mod 2 ^ m + 2 ^ m * x) = round_even m n * 2 ^ (bias + m - 1)" .
qed

text \<open>The number of a float assembled from its fields.\<close>

lemma assembled:
  fixes e m f x :: nat and sn :: bool
  assumes "f < 2 ^ m" "x < 2 ^ e"
  defines "y \<equiv> f + 2 ^ m * (x + 2 ^ e * of_bool sn)"
  shows "fp_scaled e m y = (if sn then - 1 else 1) * int (fp_magnitude m (f + 2 ^ m * x))" "fp_exponent e m y = x"
proof -
  have lt: "f + 2 ^ m * x < 2 ^ (e + m)"
  proof -
    have "f + 2 ^ m * x < 2 ^ m * (x + 1)" using assms(1) by simp
    also have "\<dots> \<le> 2 ^ m * 2 ^ e" using assms(2) by (intro mult_left_mono) simp_all
    finally show ?thesis by (simp add: power_add mult.commute)
  qed
  have y: "y = (f + 2 ^ m * x) + 2 ^ (e + m) * of_bool sn" by (simp add: y_def algebra_simps power_add)
  have "y mod 2 ^ (e + m) = f + 2 ^ m * x" "y div 2 ^ (e + m) = of_bool sn" using lt unfolding y by simp_all
  then show "fp_scaled e m y = (if sn then - 1 else 1) * int (fp_magnitude m (f + 2 ^ m * x))"
    by (simp add: fp_scaled_def bit_iff_odd)
  have "y div 2 ^ m = x + 2 ^ e * of_bool sn" using assms(1) by (simp add: y_def)
  then show "fp_exponent e m y = x" using assms(2) by (simp add: fp_exponent_def)
qed

text \<open>The width of the conversion's register, and the specification of a conversion: the float \<open>y\<close> is finite and
  its number, scaled by \<open>2 ^ (bias + m - 1)\<close> so that it is an integer, is the operand rounded to \<open>m + 1\<close>
  significant bits, ties to even.\<close>

definition conversion_width :: "nat \<Rightarrow> nat \<Rightarrow> nat" where
  "conversion_width w m = pow2_from (max w (m + 2)) 1"

lemma conversion_width:
  obtains k where "conversion_width w m = 2 ^ k" "w \<le> 2 ^ k" "m + 2 \<le> 2 ^ k"
  using pow2_from_eq [of 1 "max w (m + 2)"] unfolding conversion_width_def by fastforce

definition converted :: "nat \<Rightarrow> nat \<Rightarrow> bool \<Rightarrow> nat \<Rightarrow> nat \<Rightarrow> bool" where
  "converted e m sn n y \<longleftrightarrow>
     fp_scaled e m y = (if sn then - 1 else 1) * int (round_even m n * 2 ^ (2 ^ (e - 1) - 1 + m - 1)) \<and> fp_exponent e m y < 2 ^ e - 1"

lemma converted_0: "2 \<le> e \<Longrightarrow> converted e m sn 0 0"
proof -
  assume "2 \<le> e"
  then have "(2 :: nat) ^ 2 \<le> 2 ^ e" by (intro power_increasing) simp_all
  moreover have "round_even m 0 = 0" by (simp add: round_even_def bit_length.simps)
  moreover have "fp_scaled e m 0 = 0" by (simp add: fp_scaled_def fp_magnitude_def)
  ultimately show ?thesis by (simp add: converted_def fp_exponent_def)
qed

lemma converted_bits:
  fixes b :: nat
  assumes "2 \<le> e" "l + (2 ^ (e - 1) - 1) < 2 ^ e - 1" "m + 2 \<le> l"
    and "zf \<longleftrightarrow> n = 0" "0 < n \<Longrightarrow> \<exists>d. c = n * 2 ^ d \<and> 2 ^ (l - 1) \<le> c \<and> h = d" "c < 2 ^ l"
    and "f = half_even c (l - 1 - m) mod 2 ^ m" "ov \<longleftrightarrow> bit (half_even c (l - 1 - m)) (m + 1)"
    and "u = ((l - 1 + (2 ^ (e - 1) - 1)) mod 2 ^ e + 2 ^ e - h mod 2 ^ e) mod 2 ^ e"
    and "b + 2 ^ e * of_bool cy = u + of_bool ov" "b < 2 ^ e"
    and "y = (if zf then 0 else f + 2 ^ m * (b + 2 ^ e * of_bool sn))"
  shows "converted e m sn n y"
proof (cases "n = 0")
  case True
  then show ?thesis using assms(4,12) converted_0 [OF assms(1)] by simp
next
  case False
  define bias where "bias = (2 :: nat) ^ (e - 1) - 1"
  have "(2 :: nat) ^ 1 \<le> 2 ^ (e - 1)" using assms(1) by (intro power_increasing) simp_all
  then have bias: "0 < bias" by (simp add: bias_def)
  obtain d where d: "c = n * 2 ^ d" "2 ^ (l - 1) \<le> n * 2 ^ d" "h = d" using assms(5) False by auto
  have "b = (u + of_bool ov) mod 2 ^ e" using arg_cong [OF assms(10), of "\<lambda>x. x mod 2 ^ e"] assms(11) by simp
  then have b: "b = (((l - 1 + bias) mod 2 ^ e + 2 ^ e - d mod 2 ^ e) mod 2 ^ e + of_bool (bit (half_even (n * 2 ^ d) (l - 1 - m)) (m + 1))) mod 2 ^ e"
    by (simp only: assms(8,9) d bias_def)
  note cv = conversion_value [OF bias _ d(2) _ assms(3), of e, folded b]
  have c: "n * 2 ^ d < 2 ^ l" "l + bias < 2 ^ e - 1" "0 < n" using assms(2,6) d False by (simp_all add: bias_def)
  have y: "y = half_even (n * 2 ^ d) (l - 1 - m) mod 2 ^ m + 2 ^ m * (b + 2 ^ e * of_bool sn)" using assms(4,7,12) False d(1) by simp
  show ?thesis unfolding converted_def y assembled [OF mod_less_divisor [OF zero_less_power [OF zero_less_numeral]] assms(11)]
    using cv [OF c(3,1,2)] by (simp add: bias_def)
qed

lemma int_to_float_circuit:
  assumes "root_inv s" "lits_in (num_vars s) v" "lit_in (num_vars s) one" "sg \<longrightarrow> v \<noteq> []" "2 \<le> e" "e \<le> 64"
    and "conversion_width (length v) m + (2 ^ (e - 1) - 1) < 2 ^ e - 1"
  shows "circuit (int_to_float one v sg e m) (\<lambda>n. returns (\<lambda>r. lits_in n r \<and> length r = m + e + 1))
    (\<lambda>\<nu> r. lit_true \<nu> one \<longrightarrow> converted e m (sg \<and> bit (num \<nu> v) (length v - 1))
      (if sg then smt_mag (length v) (num \<nu> v) else num \<nu> v) (num \<nu> (the r))) s"
proof -
  obtain k where k: "conversion_width (length v) m = 2 ^ k" "length v \<le> 2 ^ k" "m + 2 \<le> 2 ^ k" by (rule conversion_width)
  let ?l = "2 ^ k :: nat" and ?z = "lit_negate one"
  have st: "stages_from ?l 0 = k" by (rule stages_pow2) simp
  have g: "\<not> (sg \<and> v = [] \<or> e = 0 \<or> 64 < e)" using assms by auto
  have up: "lits_in n v" "lit_in n one" if "num_vars s \<le> n" for n
    using that assms lits_mono by (blast, simp)
  have rs: "lits_in n (resize_bits j ?z xs)" if "num_vars s \<le> n" "lits_in n xs" for n j xs
    using set_resize [of j ?z xs] up(2) [OF that(1)] that(2) by auto
  have rep: "lits_in n (replicate j ?z)" if "num_vars s \<le> n" for n j using up(2) [OF that] by simp
  have cb: "lits_in n (const_bits one x j)" if "num_vars s \<le> n" for n x j using up(2) [OF that] by (rule const_bits_facts)
  have fin: "converted e m (sg \<and> bit (num \<nu> v) (length v - 1)) (if sg then smt_mag (length v) (num \<nu> v) else num \<nu> v) (num \<nu> r)"
    if a: "lit_true \<nu> one" "length mg = length v" "lit_true \<nu> one \<longrightarrow> (lit_true \<nu> sn \<longleftrightarrow> sg \<and> bit (num \<nu> v) (length v - 1)) \<and>
      num \<nu> mg = (if sg then smt_mag (length v) (num \<nu> v) else num \<nu> v)"
     and z: "lit_true \<nu> one \<longrightarrow> (lit_true \<nu> zf \<longleftrightarrow> \<not> (\<exists>b \<in> set (resize_bits ?l ?z mg). lit_true \<nu> b))"
     and nm: "lit_true \<nu> one \<longrightarrow> (\<forall>i < k. \<not> lit_true \<nu> (replicate k ?z ! i)) \<longrightarrow> 2 ^ (length (resize_bits ?l ?z mg) - 2 ^ k) \<le> num \<nu> (resize_bits ?l ?z mg) \<longrightarrow>
      (\<exists>d. num \<nu> c = num \<nu> (resize_bits ?l ?z mg) * 2 ^ d \<and> 2 ^ (length (resize_bits ?l ?z mg) - 1) \<le> num \<nu> c \<and> num \<nu> h = num \<nu> (replicate k ?z) + d)"
     and cl: "length c = length (resize_bits ?l ?z mg)"
     and rn: "lit_true \<nu> one \<longrightarrow> (let r = half_even (num \<nu> c) (length c - 1 - m) in num \<nu> f = r mod 2 ^ m \<and> (lit_true \<nu> ov \<longleftrightarrow> bit r (m + 1)))"
     and fl: "length f = m"
     and su: "lit_true \<nu> one \<longrightarrow> num \<nu> u = (num \<nu> (const_bits one (?l - 1 + (2 ^ (e - 1) - 1)) e) + 2 ^ length (resize_bits e ?z h) - num \<nu> (resize_bits e ?z h)) mod 2 ^ length (resize_bits e ?z h)"
     and ad: "num \<nu> b + 2 ^ length (replicate e ?z) * of_bool (lit_true \<nu> cy) = num \<nu> u + num \<nu> (replicate e ?z) + of_bool (lit_true \<nu> ov)"
     and bl: "length b = length (replicate e ?z)"
     and mx: "num \<nu> r = (if lit_true \<nu> zf then num \<nu> (replicate (length (f @ b @ [sn])) ?z) else num \<nu> (f @ b @ [sn]))"
    for \<nu> sn mg zf c h f ov u b cy r
  proof -
    define n where "n = (if sg then smt_mag (length v) (num \<nu> v) else num \<nu> v)"
    have z0: "\<not> lit_true \<nu> ?z" using a by simp
    have mg: "num \<nu> mg = n" "(sg \<and> bit (num \<nu> v) (length v - 1)) = lit_true \<nu> sn" using a by (simp_all add: n_def)
    have "num \<nu> mg < 2 ^ length v" using num_lt [of \<nu> mg] a(2) by simp
    also have "\<dots> \<le> 2 ^ ?l" using k(2) by (intro power_increasing) simp_all
    finally have rz: "num \<nu> (resize_bits ?l ?z mg) = n" "length (resize_bits ?l ?z mg) = ?l" using num_resize(1) [OF z0, of ?l mg] num_resize(2) [of ?l ?z mg] mg by simp_all
    have rp: "num \<nu> (replicate j ?z) = 0" for j using z0 by (simp add: map_replicate_const)
    show ?thesis unfolding n_def [symmetric] mg(2)
    proof (rule converted_bits [where c = "num \<nu> c" and h = "num \<nu> h" and l = ?l and f = "num \<nu> f" and b = "num \<nu> b" and u = "num \<nu> u"])
      show "lit_true \<nu> zf \<longleftrightarrow> n = 0" using z a(1) nat_of_bits_zero [of "vals \<nu> (resize_bits ?l ?z mg)"] rz(1) by auto
      show "\<exists>d. num \<nu> c = n * 2 ^ d \<and> 2 ^ (?l - 1) \<le> num \<nu> c \<and> num \<nu> h = d" if "0 < n" using nm a(1) that by (simp add: rz rp)
      show "num \<nu> c < 2 ^ ?l" using num_lt [of \<nu> c] cl rz(2) by simp
      show "num \<nu> f = half_even (num \<nu> c) (?l - 1 - m) mod 2 ^ m" "lit_true \<nu> ov \<longleftrightarrow> bit (half_even (num \<nu> c) (?l - 1 - m)) (m + 1)"
        using rn a(1) cl rz(2) by (simp_all add: Let_def)
      show "num \<nu> u = ((?l - 1 + (2 ^ (e - 1) - 1)) mod 2 ^ e + 2 ^ e - num \<nu> h mod 2 ^ e) mod 2 ^ e"
        using su a(1) num_resize(1) [OF z0, of e h] num_resize(2) [of e ?z h] const_bits_facts(3) [OF a(1)] by simp
      show "num \<nu> b + 2 ^ e * of_bool (lit_true \<nu> cy) = num \<nu> u + of_bool (lit_true \<nu> ov)" using ad unfolding rp by simp
      show "num \<nu> b < 2 ^ e" using num_lt [of \<nu> b] bl by simp
      show "num \<nu> r = (if lit_true \<nu> zf then 0 else num \<nu> f + 2 ^ m * (num \<nu> b + 2 ^ e * of_bool (lit_true \<nu> sn)))"
        using mx bl fl unfolding rp by (simp add: nat_of_bits_append)
    qed (use assms k in simp_all)
  qed
  show ?thesis unfolding int_to_float_def if_not_P [OF g] Let_def conversion_width_def [symmetric] k(1) st
  proof (rule circuit_bind_pair [OF magnitude_of_circuit], goal_cases)
    case m: (5 sn mg s1)
    show ?case
    proof (rule circuit_bind [OF nor_circuit], goal_cases)
      case z: (4 zf s2)
      show ?case
      proof (rule circuit_bind_pair [OF normalize_circuit], goal_cases)
        case n: (7 c h s3)
        show ?case
        proof (rule circuit_bind_pair [OF round_nearest_circuit], goal_cases)
          case r: (5 f ov s4)
          show ?case
          proof (rule circuit_bind [OF subtract_circuit], goal_cases)
            case u: (6 u s5)
            show ?case
            proof (rule circuit_bind_pair [OF adder_circuit], goal_cases)
              case b: (6 b cy s6)
              show ?case
              proof (rule circuit_bind [OF mux_num_circuit], goal_cases)
                case x: (6 r s7)
                show ?case
                proof (rule circuit_return, goal_cases)
                  case (3 \<nu>)
                  show ?case by (simp only: prod.case option.sel, intro impI, rule fin; (assumption | use m z n r u b x in simp))
                qed (use m z n r u b x in simp_all)
              next
                case 3
                show ?case by (rule rep) (use m z n r u b in simp)
              next
                case 4
                show ?case using m z n r u b lits_mono [of f "num_vars s4" "num_vars s6"] by auto
              qed (use m z n r u b in simp_all)
            next
              case 3
              show ?case by (rule rep) (use m z n r u in simp)
            qed (use r u in \<open>simp_all add: num_resize\<close>)
          next
            case 2
            show ?case by (rule cb) (use m z n r in simp)
          next
            case 3
            show ?case by (rule rs) (use m z n r lits_mono [of h "num_vars s3" "num_vars s4"] in simp_all)
          qed (use m z n r up in \<open>simp_all add: num_resize const_bits_facts\<close>)
        qed (use m z n up k in \<open>simp_all add: num_resize\<close>)
      next
        case 2
        show ?case by (rule rs) (use m z lits_mono [of mg "num_vars s1" "num_vars s2"] in simp_all)
      next
        case 3
        show ?case by (rule rep) (use m z in simp)
      qed (use m z up in \<open>simp_all add: num_resize\<close>)
    next
      case 2
      show ?case by (rule rs) (use m in simp_all)
    qed (use m up in simp_all)
  qed (use assms in simp_all)
qed

end
