(* ===== verification/Bitblast.thy ===== *)
theory Bitblast
  imports BlastFp DagGraph APIntArith
begin

text \<open>
  The bit-blaster of \<open>libs/symbolic/src/bitblast/mod.rs\<close>: the encoding of every node of a formula
  graph as a vector of literals and a definedness literal, the loop over the nodes, and the
  queries answered by the solver. \<open>BlastFp\<close> and \<open>Circuits\<close> hold the circuits it calls. The
  payload types of values and of floating-point constants are parameters: the blaster reads only
  symbol numbers and integer constants. An outcome is a result, an error of \<open>BitblastError\<close>, or a
  panic.
\<close>

subsection \<open>Formulas, errors and the blaster's state\<close>

datatype ('v, 'f) SymPayload = SymbolId nat | ValueP 'v | IntP APInt | FloatP 'f

type_synonym ('v, 'f) formula = "(SymKind, ('v, 'f) SymPayload, unit) Dag"

datatype BitblastError = Unsupported SymKind | UnknownWidth nat | BadConstant nat

datatype 'a outcome = Done 'a | Failed BitblastError | Panicked

primrec and_then :: "'a outcome \<Rightarrow> ('a \<Rightarrow> 'b outcome) \<Rightarrow> 'b outcome" where
  "and_then (Done a) f = f a"
| "and_then (Failed e) f = Failed e"
| "and_then Panicked f = Panicked"

record Blaster =
  bl_solver :: Solver
  bl_one :: Lit
  bl_bits :: "Lit list list"
  bl_defined :: "Lit list"
  bl_sym_bits :: "nat \<rightharpoonup> Lit list"
  bl_state_reads :: "nat \<times> nat \<rightharpoonup> Lit list"
  bl_conversion_defined :: "nat \<rightharpoonup> Lit"

definition blaster_new :: Blaster where
  "blaster_new =
     (let (v, solver) = new_var solver_new; one = lit_new v False
      in \<lparr>bl_solver = add_clause solver [one], bl_one = one, bl_bits = [], bl_defined = [],
          bl_sym_bits = Map.empty, bl_state_reads = Map.empty, bl_conversion_defined = Map.empty\<rparr>)"

text \<open>A circuit run on the blaster's solver; one that may panic; and one whose literal is wrapped.\<close>

definition exec :: "(Solver, 'a) state \<Rightarrow> Blaster \<Rightarrow> ('a \<times> Blaster) outcome" where
  "exec m b = (case run_state m (bl_solver b) of (r, s) \<Rightarrow> Done (r, b\<lparr>bl_solver := s\<rparr>))"

definition exec_opt :: "(Solver, 'a option) state \<Rightarrow> Blaster \<Rightarrow> ('a \<times> Blaster) outcome" where
  "exec_opt m b = and_then (exec m b) (\<lambda>(r, b). case r of None \<Rightarrow> Panicked | Some x \<Rightarrow> Done (x, b))"

definition single :: "(Lit \<times> Blaster) outcome \<Rightarrow> (Lit list \<times> Blaster) outcome" where
  "single r = and_then r (\<lambda>(l, b). Done ([l], b))"

subsection \<open>Reading the graph\<close>

definition bl_width :: "nat option list \<Rightarrow> nat \<Rightarrow> nat outcome" where
  "bl_width widths i =
     (case (if i < length widths then widths ! i else None) of
        Some w \<Rightarrow> Done w
      | None \<Rightarrow> Failed (UnknownWidth i))"

definition const_u64 :: "('v, 'f) formula \<Rightarrow> nat \<Rightarrow> nat outcome" where
  "const_u64 g i =
     (case get_leaf_data g i of
        None \<Rightarrow> Panicked
      | Some (Some (IntP v)) \<Rightarrow> Done (unat (ap_to_u64 v))
      | Some _ \<Rightarrow> Failed (BadConstant i))"

definition node_children :: "('v, 'f) formula \<Rightarrow> nat \<Rightarrow> nat list outcome" where
  "node_children g i = (case children g i of None \<Rightarrow> Panicked | Some cs \<Rightarrow> Done cs)"

definition nth_or_panic :: "'a list \<Rightarrow> nat \<Rightarrow> 'a outcome" where
  "nth_or_panic xs k = (if k < length xs then Done (xs ! k) else Panicked)"

definition nth_child :: "('v, 'f) formula \<Rightarrow> nat \<Rightarrow> nat \<Rightarrow> nat outcome" where
  "nth_child g i k = and_then (node_children g i) (\<lambda>cs. nth_or_panic cs k)"

definition child_bits :: "('v, 'f) formula \<Rightarrow> Blaster \<Rightarrow> nat \<Rightarrow> nat \<Rightarrow> Lit list outcome" where
  "child_bits g b i k = and_then (nth_child g i k) (nth_or_panic (bl_bits b))"

definition binop_bits :: "('v, 'f) formula \<Rightarrow> Blaster \<Rightarrow> nat \<Rightarrow> (Lit list \<times> Lit list) outcome" where
  "binop_bits g b i = and_then (child_bits g b i 0) (\<lambda>x. and_then (child_bits g b i 1) (\<lambda>y. Done (x, y)))"

definition with_binop :: "('v, 'f) formula \<Rightarrow> Blaster \<Rightarrow> nat \<Rightarrow> (Lit list \<Rightarrow> Lit list \<Rightarrow> 'a outcome) \<Rightarrow> 'a outcome" where
  "with_binop g b i f = and_then (binop_bits g b i) (\<lambda>(x, y). f x y)"

definition is_float_comparison :: "('v, 'f) formula \<Rightarrow> bool list \<Rightarrow> nat \<Rightarrow> bool" where
  "is_float_comparison g floats i =
     (case children g i of
        Some (child # _) \<Rightarrow> child < length floats \<and> floats ! child
      | _ \<Rightarrow> False)"

subsection \<open>Leaves\<close>

definition fresh_bits :: "nat \<Rightarrow> (Solver, Lit list) state" where
  "fresh_bits w = traverse_list (\<lambda>_. fresh) [0..<w]"

definition encode_symbol :: "('v, 'f) formula \<Rightarrow> nat option list \<Rightarrow> Blaster \<Rightarrow> nat \<Rightarrow> (Lit list \<times> Blaster) outcome" where
  "encode_symbol g widths b i =
     and_then (bl_width widths i) (\<lambda>w.
     and_then (exec (fresh_bits w) b) (\<lambda>(bits, b).
       case get_leaf_data g i of
         None \<Rightarrow> Panicked
       | Some (Some (SymbolId sid)) \<Rightarrow> Done (bits, b\<lparr>bl_sym_bits := (bl_sym_bits b)(sid \<mapsto> bits)\<rparr>)
       | Some _ \<Rightarrow> Done (bits, b)))"

definition encode_state_read :: "('v, 'f) formula \<Rightarrow> nat option list \<Rightarrow> Blaster \<Rightarrow> nat \<Rightarrow> (Lit list \<times> Blaster) outcome" where
  "encode_state_read g widths b i =
     and_then (nth_child g i 1) (\<lambda>r. and_then (const_u64 g r) (\<lambda>resource.
     and_then (nth_child g i 2) (\<lambda>f. and_then (const_u64 g f) (\<lambda>field.
     and_then (bl_width widths i) (\<lambda>w.
       case bl_state_reads b (resource, field) of
         Some bits \<Rightarrow>
           (if length bits = w then Done (bits, b)
            else and_then (exec (fresh_bits w) b) (\<lambda>(bits, b).
              Done (bits, b\<lparr>bl_state_reads := (bl_state_reads b)((resource, field) \<mapsto> bits)\<rparr>)))
       | None \<Rightarrow>
           and_then (exec (fresh_bits w) b) (\<lambda>(bits, b).
             Done (bits, b\<lparr>bl_state_reads := (bl_state_reads b)((resource, field) \<mapsto> bits)\<rparr>)))))))"

text \<open>Bit \<open>i\<close> of a constant: the limb that holds it, if there is one.\<close>

definition limb_bit :: "u64 list \<Rightarrow> nat \<Rightarrow> bool" where
  "limb_bit limbs i = (i div 64 < length limbs \<and> bit (limbs ! (i div 64)) (i mod 64))"

definition encode_constant :: "('v, 'f) formula \<Rightarrow> nat option list \<Rightarrow> Blaster \<Rightarrow> nat \<Rightarrow> (Lit list \<times> Blaster) outcome" where
  "encode_constant g widths b i =
     and_then (bl_width widths i) (\<lambda>w.
       case get_leaf_data g i of
         None \<Rightarrow> Panicked
       | Some (Some (IntP v)) \<Rightarrow>
           Done (map (\<lambda>k. if limb_bit (ap_limbs v) k then bl_one b else lit_negate (bl_one b)) [0..<w], b)
       | Some _ \<Rightarrow> Failed (BadConstant i))"

subsection \<open>Operators\<close>

definition bitwise :: "(Lit \<Rightarrow> Lit \<Rightarrow> (Solver, Lit) state) \<Rightarrow> Lit list \<Rightarrow> Lit list \<Rightarrow> (Solver, Lit list) state" where
  "bitwise gate a b = traverse_list (\<lambda>(x, y). gate x y) (zip a b)"

definition encode_extract :: "('v, 'f) formula \<Rightarrow> Blaster \<Rightarrow> nat \<Rightarrow> (Lit list \<times> Blaster) outcome" where
  "encode_extract g b i =
     and_then (child_bits g b i 0) (\<lambda>value.
     and_then (nth_child g i 1) (\<lambda>h. and_then (const_u64 g h) (\<lambda>hi.
     and_then (nth_child g i 2) (\<lambda>l. and_then (const_u64 g l) (\<lambda>lo.
       if hi + 1 < lo \<or> length value \<le> hi then Panicked
       else Done (take (hi + 1 - lo) (drop lo value), b))))))"

definition encode_extend :: "('v, 'f) formula \<Rightarrow> nat option list \<Rightarrow> Blaster \<Rightarrow> nat \<Rightarrow> bool \<Rightarrow> (Lit list \<times> Blaster) outcome" where
  "encode_extend g widths b i is_signed =
     and_then (child_bits g b i 0) (\<lambda>value.
     and_then (bl_width widths i) (\<lambda>target.
       if is_signed \<and> value = [] then Panicked
       else Done (resize_bits target (if is_signed then last value else lit_negate (bl_one b)) value, b)))"

definition encode_ite :: "('v, 'f) formula \<Rightarrow> Blaster \<Rightarrow> nat \<Rightarrow> (Lit list \<times> Blaster) outcome" where
  "encode_ite g b i =
     and_then (child_bits g b i 0) (\<lambda>cond. and_then (nth_or_panic cond 0) (\<lambda>c.
     and_then (child_bits g b i 1) (\<lambda>x. and_then (child_bits g b i 2) (\<lambda>y.
       exec (mux_bits c x y) b))))"

text \<open>The arms of a switch below the last one, from the highest index \<open>k - 1\<close> down.\<close>

fun selected_from :: "nat \<Rightarrow> nat \<Rightarrow> Lit \<Rightarrow> Lit list \<Rightarrow> (Solver, Lit) state" where
  "selected_from arm k acc [] = State_Monad.return acc"
| "selected_from arm k acc (lit # index) = do {
     acc \<leftarrow> gate_and acc (if k < 64 \<and> bit arm k then lit else lit_negate lit);
     selected_from arm (k + 1) acc index
   }"

fun switch_arms :: "Lit \<Rightarrow> Lit list \<Rightarrow> Lit list list \<Rightarrow> nat \<Rightarrow> Lit list \<Rightarrow> (Solver, Lit list) state" where
  "switch_arms one index arms 0 out = State_Monad.return out"
| "switch_arms one index arms (Suc arm) out = do {
     selected \<leftarrow> selected_from arm 0 one index;
     out \<leftarrow> mux_bits selected (arms ! arm) out;
     switch_arms one index arms arm out
   }"

definition encode_switch :: "('v, 'f) formula \<Rightarrow> Blaster \<Rightarrow> nat \<Rightarrow> (Lit list \<times> Blaster) outcome" where
  "encode_switch g b i =
     and_then (node_children g i) (\<lambda>cs.
       if length cs < 2 \<or> (\<exists>c \<in> set cs. length (bl_bits b) \<le> c) then Panicked
       else
         (let arms = map (\<lambda>c. bl_bits b ! c) (tl cs)
          in exec (switch_arms (bl_one b) (bl_bits b ! hd cs) arms (length arms - 1) (last arms)) b))"

definition encode_freeze :: "('v, 'f) formula \<Rightarrow> Blaster \<Rightarrow> nat \<Rightarrow> (Lit list \<times> Blaster) outcome" where
  "encode_freeze g b i =
     and_then (nth_child g i 0) (\<lambda>child.
     and_then (nth_or_panic (bl_bits b) child) (\<lambda>value.
     and_then (exec (fresh_bits (length value)) b) (\<lambda>(arbitrary, b).
     and_then (nth_or_panic (bl_defined b) child) (\<lambda>d.
       exec (mux_bits d value arbitrary) b))))"

subsection \<open>Floating point\<close>

definition encode_float_compare :: "('v, 'f) formula \<Rightarrow> Blaster \<Rightarrow> nat \<Rightarrow> SymKind \<Rightarrow> (Lit list \<times> Blaster) outcome" where
  "encode_float_compare g b i kind =
     and_then (child_bits g b i 0) (\<lambda>lhs. and_then (child_bits g b i 1) (\<lambda>rhs.
       case float_format (length lhs) of
         None \<Rightarrow> Failed (UnknownWidth i)
       | Some (exp_width, mant_width) \<Rightarrow>
           if length rhs \<noteq> length lhs then Failed (UnknownWidth i)
           else single (exec_opt (float_compare (bl_one b) kind exp_width mant_width lhs rhs) b)))"

definition encode_int_to_float :: "('v, 'f) formula \<Rightarrow> Blaster \<Rightarrow> nat \<Rightarrow> bool \<Rightarrow> (Lit list \<times> Blaster) outcome" where
  "encode_int_to_float g b i is_signed =
     and_then (child_bits g b i 0) (\<lambda>value.
     and_then (nth_child g i 1) (\<lambda>e. and_then (const_u64 g e) (\<lambda>exp.
     and_then (nth_child g i 2) (\<lambda>m. and_then (const_u64 g m) (\<lambda>mant.
       exec_opt (int_to_float (bl_one b) value is_signed exp mant) b)))))"

definition float_to_int_operand :: "('v, 'f) formula \<Rightarrow> Blaster \<Rightarrow> nat \<Rightarrow> FloatToInt outcome" where
  "float_to_int_operand g b i =
     and_then (child_bits g b i 0) (\<lambda>bits.
     and_then (nth_child g i 1) (\<lambda>w. and_then (const_u64 g w) (\<lambda>width.
     and_then (nth_child g i 0) (\<lambda>c.
       case float_format (length bits) of
         None \<Rightarrow> Failed (UnknownWidth c)
       | Some (e, m) \<Rightarrow> Done \<lparr>fi_bits = bits, fi_width = width, fi_exp_width = e, fi_mant_width = m\<rparr>))))"

definition encode_float_to_int ::
  "('v, 'f) formula \<Rightarrow> Blaster \<Rightarrow> nat \<Rightarrow> bool \<Rightarrow> Lit list option \<Rightarrow> (Lit list \<times> Blaster) outcome" where
  "encode_float_to_int g b i is_signed mode =
     and_then (float_to_int_operand g b i) (\<lambda>operand.
     and_then (exec_opt (float_to_int (bl_one b) operand is_signed mode) b) (\<lambda>((out, fits), b).
       Done (out, b\<lparr>bl_conversion_defined := (bl_conversion_defined b)(i \<mapsto> fits)\<rparr>)))"

subsection \<open>A node\<close>

definition is_comparison :: "SymKind \<Rightarrow> bool" where
  "is_comparison kind = (kind \<in> {Eq, Ne, Lt, Le, Gt, Ge})"

definition encode ::
  "('v, 'f) formula \<Rightarrow> nat option list \<Rightarrow> bool list \<Rightarrow> Blaster \<Rightarrow> nat \<Rightarrow> (Lit list \<times> Blaster) outcome" where
  "encode g widths floats b i =
     (let one = bl_one b;
          binop = with_binop g b i
      in case get_node g i of
           None \<Rightarrow> Panicked
         | Some kind \<Rightarrow>
             if is_comparison kind \<and> is_float_comparison g floats i then encode_float_compare g b i kind
             else if kind = Symbol then encode_symbol g widths b i
             else if kind = StateBlock then Done ([one], b)
             else if kind = StateRead then encode_state_read g widths b i
             else if kind = Constant then encode_constant g widths b i
             else if kind = NotK then and_then (child_bits g b i 0) (\<lambda>x. Done (map lit_negate x, b))
             else if kind = And then binop (\<lambda>x y. exec (bitwise gate_and x y) b)
             else if kind = Or then binop (\<lambda>x y. exec (bitwise gate_or x y) b)
             else if kind = Xor then binop (\<lambda>x y. exec (bitwise gate_xor x y) b)
             else if kind = Add then
               binop (\<lambda>x y. and_then (exec (adder x y (lit_negate one)) b) (\<lambda>((sum, _), b). Done (sum, b)))
             else if kind = Sub then binop (\<lambda>x y. exec (subtract one x y) b)
             else if kind = Neg then and_then (child_bits g b i 0) (\<lambda>x. exec (negate_bits one x) b)
             else if kind = Mul then binop (\<lambda>x y. exec_opt (multiply one x y) b)
             else if kind = UDiv then binop (\<lambda>x y. exec_opt (divrem one x y False True) b)
             else if kind = URem then binop (\<lambda>x y. exec_opt (divrem one x y False False) b)
             else if kind = Div then binop (\<lambda>x y. exec_opt (divrem one x y True True) b)
             else if kind = SRem then binop (\<lambda>x y. exec_opt (divrem one x y True False) b)
             else if kind = ShiftLeft then binop (\<lambda>x y. exec_opt (shift_bits one Left x y) b)
             else if kind = ShiftRightLogic then binop (\<lambda>x y. exec_opt (shift_bits one Logical x y) b)
             else if kind = ShiftRightArithmetic then binop (\<lambda>x y. exec_opt (shift_bits one Arithmetic x y) b)
             else if kind = Eq then binop (\<lambda>x y. single (exec (eq_bits one x y) b))
             else if kind = Ne then
               binop (\<lambda>x y. and_then (exec (eq_bits one x y) b) (\<lambda>(eq, b). Done ([lit_negate eq], b)))
             else if kind \<in> {ULt, ULe, UGt, UGe, Lt, Le, Gt, Ge} then
               binop (\<lambda>x y. single (exec_opt (compare_bits one kind x y) b))
             else if kind = Concat then binop (\<lambda>x y. Done (y @ x, b))
             else if kind = AsFloat \<or> kind = Bitcast then and_then (child_bits g b i 0) (\<lambda>x. Done (x, b))
             else if kind = Extract then encode_extract g b i
             else if kind = ZExt then encode_extend g widths b i False
             else if kind = SExt then encode_extend g widths b i True
             else if kind = IfK then encode_ite g b i
             else if kind = Poison then and_then (child_bits g b i 1) (\<lambda>x. Done (x, b))
             else if kind = Freeze then encode_freeze g b i
             else if kind = Switch then encode_switch g b i
             else if kind = SIToFPRound \<or> kind = UIToFPRound then
               and_then (nth_child g i 3) (\<lambda>m. and_then (const_u64 g m) (\<lambda>mode.
                 if mode = 0 then encode_int_to_float g b i (kind = SIToFPRound) else Failed (Unsupported kind)))
             else if kind = FPToSIRound \<or> kind = FPToUIRound then
               and_then (child_bits g b i 2) (\<lambda>mode. encode_float_to_int g b i (kind = FPToSIRound) (Some mode))
             else if kind = SIToFP then encode_int_to_float g b i True
             else if kind = UIToFP then encode_int_to_float g b i False
             else if kind = FPToSI then encode_float_to_int g b i True None
             else if kind = FPToUI then encode_float_to_int g b i False None
             else Failed (Unsupported kind))"

subsection \<open>Definedness\<close>

text \<open>A select is defined where its condition and the arm it takes are.\<close>

definition select_defined :: "Lit \<Rightarrow> Lit \<Rightarrow> Lit \<Rightarrow> Lit \<Rightarrow> (Solver, Lit) state" where
  "select_defined taken c x y = do { arm \<leftarrow> gate_mux taken x y; gate_and c arm }"

definition conversion_in_range :: "('v, 'f) formula \<Rightarrow> Blaster \<Rightarrow> nat \<Rightarrow> Lit \<Rightarrow> bool \<Rightarrow> bool \<Rightarrow> (Lit \<times> Blaster) outcome" where
  "conversion_in_range g b i d is_signed rounds =
     and_then (float_to_int_operand g b i) (\<lambda>operand.
     and_then (if rounds then and_then (child_bits g b i 2) (\<lambda>m. Done (Some m)) else Done None) (\<lambda>mode.
     and_then (exec_opt (float_to_int_defined (bl_one b) operand is_signed (bl_conversion_defined b i) mode) b)
       (\<lambda>(in_range, b). exec (gate_and d in_range) b)))"

definition encode_defined :: "('v, 'f) formula \<Rightarrow> Blaster \<Rightarrow> nat \<Rightarrow> (Lit \<times> Blaster) outcome" where
  "encode_defined g b i =
     and_then (node_children g i) (\<lambda>cs.
       case get_node g i of
         None \<Rightarrow> Panicked
       | Some kind \<Rightarrow>
           if kind = FPFlags \<or> kind = Freeze then Done (bl_one b, b)
           else if \<exists>c \<in> set cs. length (bl_bits b) \<le> c \<or> length (bl_defined b) \<le> c then Panicked
           else if kind = IfK then
             (case cs of
                [c, x, y] \<Rightarrow>
                  and_then (nth_or_panic (bl_bits b ! c) 0) (\<lambda>taken.
                    exec (select_defined taken (bl_defined b ! c) (bl_defined b ! x) (bl_defined b ! y)) b)
              | _ \<Rightarrow> Failed (Unsupported IfK))
           else
             and_then (exec (and_from (bl_one b) (map (\<lambda>c. bl_defined b ! c) cs)) b) (\<lambda>(d, b).
               if kind = Poison then
                 and_then (nth_or_panic cs 0) (\<lambda>c. and_then (nth_or_panic (bl_bits b ! c) 0) (\<lambda>condition.
                   exec (gate_and d (lit_negate condition)) b))
               else if kind = FPToSI \<or> kind = FPToSIRound then
                 conversion_in_range g b i d True (kind = FPToSIRound)
               else if kind = FPToUI \<or> kind = FPToUIRound then
                 conversion_in_range g b i d False (kind = FPToUIRound)
               else Done (d, b)))"

subsection \<open>The formula\<close>

record Blasted =
  bd_solver :: Solver
  bd_root_bit :: Lit
  bd_sym_bits :: "nat \<rightharpoonup> Lit list"
  bd_node_bits :: "Lit list list"
  bd_node_defined :: "Lit list"

definition blast_node :: "('v, 'f) formula \<Rightarrow> nat option list \<Rightarrow> bool list \<Rightarrow> Blaster \<Rightarrow> nat \<Rightarrow> Blaster outcome" where
  "blast_node g widths floats b i =
     and_then (encode g widths floats b i) (\<lambda>(bits, b).
     let b = b\<lparr>bl_bits := bl_bits b @ [bits]\<rparr>
     in and_then (encode_defined g b i) (\<lambda>(d, b).
          Done (b\<lparr>bl_defined := bl_defined b @ [d]\<rparr>)))"

fun blast_nodes :: "('v, 'f) formula \<Rightarrow> nat option list \<Rightarrow> bool list \<Rightarrow> nat \<Rightarrow> Blaster outcome" where
  "blast_nodes g widths floats 0 = Done blaster_new"
| "blast_nodes g widths floats (Suc n) =
     and_then (blast_nodes g widths floats n) (\<lambda>b. blast_node g widths floats b n)"

definition blast_into :: "('v, 'f) formula \<Rightarrow> nat option list \<Rightarrow> bool list \<Rightarrow> Blasted outcome" where
  "blast_into g widths floats =
     and_then (blast_nodes g widths floats (dag_len g)) (\<lambda>b.
       case dag_root g of
         None \<Rightarrow> Panicked
       | Some root \<Rightarrow>
           and_then (nth_or_panic (bl_bits b) root) (\<lambda>bits. and_then (nth_or_panic bits 0) (\<lambda>root_bit.
             Done \<lparr>bd_solver = bl_solver b, bd_root_bit = root_bit, bd_sym_bits = bl_sym_bits b,
                   bd_node_bits = bl_bits b, bd_node_defined = bl_defined b\<rparr>)))"

definition blast :: "('v, 'f) formula \<Rightarrow> nat option list \<Rightarrow> Blasted outcome" where
  "blast g widths = blast_into g widths []"

subsection \<open>Queries\<close>

datatype SolveOutcome = SatModel "nat \<rightharpoonup> bool list" | UnsatFormula | UnknownFormula

definition lit_value :: "Solver \<Rightarrow> Lit \<Rightarrow> bool" where
  "lit_value s l = (sv_value s (lit_var l) \<noteq> lit_is_negated l)"

definition finish_solve :: "Blasted \<Rightarrow> SolveOutcome option" where
  "finish_solve bd =
     (case solve (bd_solver bd) of
        None \<Rightarrow> None
      | Some (Sat _, s) \<Rightarrow> Some (SatModel (\<lambda>sid. map_option (map (lit_value s)) (bd_sym_bits bd sid)))
      | Some (Unsat, _) \<Rightarrow> Some UnsatFormula
      | Some (Unknown, _) \<Rightarrow> Some UnknownFormula)"

definition solve_formula :: "Blasted \<Rightarrow> SolveOutcome option" where
  "solve_formula bd = finish_solve (bd\<lparr>bd_solver := add_clause (bd_solver bd) [bd_root_bit bd]\<rparr>)"

definition solve_defined_equivalence :: "Blasted \<Rightarrow> nat \<Rightarrow> nat \<Rightarrow> SolveOutcome option" where
  "solve_defined_equivalence bd lhs rhs =
     (if lhs < length (bd_node_defined bd) \<and> rhs < length (bd_node_defined bd) then
        (let s = add_clause (bd_solver bd) [bd_node_defined bd ! lhs]
         in finish_solve (bd\<lparr>bd_solver := add_clause s [lit_negate (bd_node_defined bd ! rhs), bd_root_bit bd]\<rparr>))
      else None)"

end
