(* ===== verification/BlastSem.thy ===== *)
theory BlastSem
  imports Bitblast
begin

text \<open>
  What a formula graph means, independently of circuits: the reference semantics that
  \<open>BitblastCorrect\<close> proves the bit-blaster of \<open>libs/symbolic/src/bitblast/mod.rs\<close> to implement.
  \<open>node_width\<close> is the typing the encoder relies on: the width of a node's vector from those of its
  operands, \<open>None\<close> where the encoder would fail or panic. A run assigns bits and definedness to the
  nodes in order: a symbol is free, a read of a state field repeats what the last read of the field gave, a
  freeze of an undefined value is arbitrary, and every other node computes SMT-LIB's function of
  its operands.
\<close>

definition bits_of :: "nat \<Rightarrow> nat \<Rightarrow> bool list" where
  "bits_of w n = map (bit n) [0..<w]"

lemma length_bits_of [simp]: "length (bits_of w n) = w"
  by (simp add: bits_of_def)

lemma nat_of_bits_of [simp]: "nat_of_bits (bits_of w n) = n mod 2 ^ w"
  by (simp add: bits_of_def nat_of_bits_const)

lemma bits_of_eqI: "length xs = w \<Longrightarrow> nat_of_bits xs = n mod 2 ^ w \<Longrightarrow> xs = bits_of w n"
  using nat_of_bits_inj [of xs "bits_of w n"] by simp

lemma bits_of_num: "length xs = w \<Longrightarrow> nat_of_bits xs = n \<Longrightarrow> xs = bits_of w n"
  using nat_of_bits_lt [of xs] by (auto intro: bits_of_eqI)

subsection \<open>Typing\<close>

definition width_of :: "nat option list \<Rightarrow> nat \<Rightarrow> nat option" where
  "width_of widths i = (if i < length widths then widths ! i else None)"

definition const_of :: "('v, 'f) formula \<Rightarrow> nat \<Rightarrow> nat option" where
  "const_of g c = (case const_u64 g c of Done n \<Rightarrow> Some n | _ \<Rightarrow> None)"

definition shift_kinds :: "SymKind set" where
  "shift_kinds = {ShiftLeft, ShiftRightLogic, ShiftRightArithmetic}"

definition order_kinds :: "SymKind set" where
  "order_kinds = {ULt, ULe, UGt, UGe, Lt, Le, Gt, Ge}"

text \<open>The width of an operator of one, two or three operands, of widths \<open>a\<close>, \<open>b\<close> and \<open>c\<close>.\<close>

definition unary_width :: "SymKind \<Rightarrow> nat option \<Rightarrow> nat \<Rightarrow> nat option" where
  "unary_width k target a =
     (if k \<in> {NotK, Neg, AsFloat, Bitcast, Freeze} then Some a
      else if k = ZExt \<or> k = SExt \<and> 0 < a then target
      else None)"

definition binary_width :: "SymKind \<Rightarrow> bool \<Rightarrow> nat \<Rightarrow> nat \<Rightarrow> nat option" where
  "binary_width k flt a b =
     (if is_comparison k \<and> flt then (if a = b \<and> float_format a \<noteq> None then Some 1 else None)
      else if k \<in> {And, Or, Xor, Add, Sub, Mul, UDiv, URem} then (if a = b then Some a else None)
      else if k \<in> {Div, SRem} then (if a = b \<and> 0 < a then Some a else None)
      else if k \<in> shift_kinds then (if 0 < a \<and> stages_from a 0 \<le> b then Some a else None)
      else if k \<in> {Eq, Ne} then (if a = b then Some 1 else None)
      else if k \<in> order_kinds then (if a = b \<and> 0 < a then Some 1 else None)
      else if k = Concat then Some (a + b)
      else if k = Poison then (if 0 < a then Some b else None)
      else None)"

definition ternary_width :: "('v, 'f) formula \<Rightarrow> SymKind \<Rightarrow> nat option \<Rightarrow> nat \<Rightarrow> nat \<Rightarrow> nat \<Rightarrow> nat \<Rightarrow> nat \<Rightarrow> nat option" where
  "ternary_width g k target y z a b c =
     (if k = IfK then (if 0 < a \<and> b = c then Some b else None)
      else if k \<in> {Extract, StateRead} then
        (case (const_of g y, const_of g z) of
           (Some hi, Some lo) \<Rightarrow>
             if k = StateRead then target
             else if lo \<le> hi + 1 \<and> hi < a then Some (hi + 1 - lo) else None
         | _ \<Rightarrow> None)
      else None)"

definition switch_width :: "nat list \<Rightarrow> nat option" where
  "switch_width ws =
     (case ws of
        _ # w # rest \<Rightarrow> if length rest < 2 ^ 64 \<and> (\<forall>x \<in> set rest. x = w) then Some w else None
      | _ \<Rightarrow> None)"

definition op_vector_width :: "('v, 'f) formula \<Rightarrow> bool \<Rightarrow> SymKind \<Rightarrow> nat option \<Rightarrow> nat list \<Rightarrow> nat list \<Rightarrow> nat option" where
  "op_vector_width g flt k target cs ws =
     (if k = Switch then switch_width ws
      else case (cs, ws) of
        ([x], [a]) \<Rightarrow> unary_width k target a
      | ([x, y], [a, b]) \<Rightarrow> binary_width k flt a b
      | ([x, y, z], [a, b, c]) \<Rightarrow> ternary_width g k target y z a b c
      | _ \<Rightarrow> None)"

definition node_width :: "('v, 'f) formula \<Rightarrow> nat option list \<Rightarrow> bool list \<Rightarrow> nat list \<Rightarrow> nat \<Rightarrow> nat option" where
  "node_width g widths floats ws i =
     (case (get_node g i, children g i, get_leaf_data g i) of
        (Some k, Some cs, Some leaf) \<Rightarrow>
          if \<exists>c \<in> set cs. length ws \<le> c then None
          else if k = Symbol then width_of widths i
          else if k = StateBlock then Some 1
          else if k = Constant then (case leaf of Some (IntP _) \<Rightarrow> width_of widths i | _ \<Rightarrow> None)
          else op_vector_width g (is_float_comparison g floats i) k (width_of widths i) cs (map (\<lambda>c. ws ! c) cs)
      | _ \<Rightarrow> None)"

text \<open>The widths of the first \<open>n\<close> nodes.\<close>

fun node_widths :: "('v, 'f) formula \<Rightarrow> nat option list \<Rightarrow> bool list \<Rightarrow> nat \<Rightarrow> nat list option" where
  "node_widths g widths floats 0 = Some []"
| "node_widths g widths floats (Suc n) =
     (case node_widths g widths floats n of
        None \<Rightarrow> None
      | Some ws \<Rightarrow> map_option (\<lambda>w. ws @ [w]) (node_width g widths floats ws n))"

text \<open>A formula the blaster accepts: every node is typed, and the root is at least one bit wide.\<close>

definition well_typed :: "('v, 'f) formula \<Rightarrow> nat option list \<Rightarrow> bool list \<Rightarrow> bool" where
  "well_typed g widths floats =
     (case node_widths g widths floats (dag_len g) of None \<Rightarrow> False | Some ws \<Rightarrow> ws \<noteq> [] \<and> 0 < last ws)"

subsection \<open>Values\<close>

definition shift_value :: "SymKind \<Rightarrow> bool list \<Rightarrow> nat \<Rightarrow> bool list" where
  "shift_value k x n =
     (let w = length x; a = nat_of_bits x
      in bits_of w (if k = ShiftLeft then a * 2 ^ n
           else if k = ShiftRightLogic then a div 2 ^ n
           else nat ((signed_val w a div 2 ^ n) mod 2 ^ w)))"

definition unary_value :: "SymKind \<Rightarrow> nat \<Rightarrow> bool list \<Rightarrow> bool list" where
  "unary_value k target x =
     (if k = NotK then map Not x
      else if k = Neg then bits_of (length x) (smt_neg (length x) (nat_of_bits x))
      else if k = ZExt then bits_of target (nat_of_bits x)
      else if k = SExt then bits_of target (nat (signed_val (length x) (nat_of_bits x) mod 2 ^ target))
      else x)"

definition binary_value :: "SymKind \<Rightarrow> bool \<Rightarrow> bool list \<Rightarrow> bool list \<Rightarrow> bool list" where
  "binary_value k flt x y =
     (let w = length x; a = nat_of_bits x; b = nat_of_bits y
      in if is_comparison k \<and> flt then
           [case float_format w of Some (e, m) \<Rightarrow> fp_compare k e m a b | None \<Rightarrow> False]
         else if k \<in> shift_kinds then shift_value k x b
         else if k = Eq then [a = b]
         else if k = Ne then [a \<noteq> b]
         else if k \<in> order_kinds then [compare_spec k w a b]
         else if k = Concat then y @ x
         else if k = Poison then y
         else bits_of w
           (if k = And then a AND b
            else if k = Or then a OR b
            else if k = Xor then a XOR b
            else if k = Add then a + b
            else if k = Sub then a + 2 ^ w - b
            else if k = Mul then a * b
            else if k = UDiv then smt_udiv w a b
            else if k = URem then a mod b
            else if k = Div then smt_sdiv w a b
            else smt_srem w a b))"

definition ternary_value :: "('v, 'f) formula \<Rightarrow> SymKind \<Rightarrow> nat \<Rightarrow> nat \<Rightarrow> bool list \<Rightarrow> bool list \<Rightarrow> bool list \<Rightarrow> bool list" where
  "ternary_value g k y z a b c =
     (if k = IfK then (if hd a then b else c)
      else
        (let hi = the (const_of g y); lo = the (const_of g z)
         in bits_of (hi + 1 - lo) (nat_of_bits a div 2 ^ lo)))"

definition switch_value :: "bool list list \<Rightarrow> bool list" where
  "switch_value vs =
     (let arms = tl vs; index = nat_of_bits (hd vs)
      in if index < length arms then arms ! index else last arms)"

definition op_value :: "('v, 'f) formula \<Rightarrow> bool \<Rightarrow> SymKind \<Rightarrow> nat \<Rightarrow> nat list \<Rightarrow> bool list list \<Rightarrow> bool list" where
  "op_value g flt k target cs vs =
     (if k = Switch then switch_value vs
      else case (cs, vs) of
        ([x], [a]) \<Rightarrow> unary_value k target a
      | ([x, y], [a, b]) \<Rightarrow> binary_value k flt a b
      | ([x, y, z], [a, b, c]) \<Rightarrow> ternary_value g k y z a b c
      | _ \<Rightarrow> [])"

subsection \<open>Runs\<close>

record Run =
  rn_vals :: "bool list list"
  rn_defs :: "bool list"
  rn_syms :: "nat \<rightharpoonup> bool list"
  rn_reads :: "nat \<times> nat \<rightharpoonup> bool list"

definition run_start :: Run where
  "run_start = \<lparr>rn_vals = [], rn_defs = [], rn_syms = Map.empty, rn_reads = Map.empty\<rparr>"

text \<open>The state field a node reads.\<close>

definition read_key :: "('v, 'f) formula \<Rightarrow> nat list \<Rightarrow> nat \<times> nat" where
  "read_key g cs = (the (const_of g (cs ! 1)), the (const_of g (cs ! 2)))"

text \<open>Whether \<open>v\<close> is a value of node \<open>i\<close> after the run \<open>r\<close> of the nodes before it.\<close>

definition node_value :: "('v, 'f) formula \<Rightarrow> nat option list \<Rightarrow> bool list \<Rightarrow> Run \<Rightarrow> nat \<Rightarrow> bool list \<Rightarrow> bool" where
  "node_value g widths floats r i v =
     (let k = the (get_node g i); cs = the (children g i); w = the (width_of widths i)
      in if k = Symbol then length v = w
         else if k = StateBlock then v = [True]
         else if k = Constant then
           (case the (get_leaf_data g i) of Some (IntP n) \<Rightarrow> v = bits_of w (limbs_val (ap_limbs n)) | _ \<Rightarrow> False)
         else if k = StateRead then
           (case rn_reads r (read_key g cs) of
              Some old \<Rightarrow> if length old = w then v = old else length v = w
            | None \<Rightarrow> length v = w)
         else if k = Freeze then
           (if rn_defs r ! hd cs then v = rn_vals r ! hd cs else length v = length (rn_vals r ! hd cs))
         else v = op_value g (is_float_comparison g floats i) k w cs (map (\<lambda>c. rn_vals r ! c) cs))"

text \<open>Whether node \<open>i\<close> is defined: poison passes through every operator but a select, which
  looks at the arm it takes only, and a freeze.\<close>

definition node_defined :: "('v, 'f) formula \<Rightarrow> Run \<Rightarrow> nat \<Rightarrow> bool" where
  "node_defined g r i =
     (let k = the (get_node g i); cs = the (children g i); d = (\<lambda>c. rn_defs r ! c)
      in if k = Freeze then True
         else if k = IfK then d (cs ! 0) \<and> (if hd (rn_vals r ! (cs ! 0)) then d (cs ! 1) else d (cs ! 2))
         else (\<forall>c \<in> set cs. d c) \<and> \<not> (k = Poison \<and> hd (rn_vals r ! (cs ! 0))))"

definition record_node :: "('v, 'f) formula \<Rightarrow> nat \<Rightarrow> Run \<Rightarrow> bool list \<Rightarrow> Run" where
  "record_node g i r v =
     (let k = the (get_node g i); cs = the (children g i)
      in r\<lparr>rn_vals := rn_vals r @ [v], rn_defs := rn_defs r @ [node_defined g r i],
           rn_syms := (if k = Symbol then
               (case the (get_leaf_data g i) of Some (SymbolId sid) \<Rightarrow> (rn_syms r)(sid \<mapsto> v) | _ \<Rightarrow> rn_syms r)
             else rn_syms r),
           rn_reads := (if k = StateRead then (rn_reads r)(read_key g cs \<mapsto> v) else rn_reads r)\<rparr>)"

inductive runs :: "('v, 'f) formula \<Rightarrow> nat option list \<Rightarrow> bool list \<Rightarrow> nat \<Rightarrow> Run \<Rightarrow> bool"
  for g widths floats where
  start: "runs g widths floats 0 run_start"
| node: "runs g widths floats n r \<Longrightarrow> node_value g widths floats r n v \<Longrightarrow>
    runs g widths floats (Suc n) (record_node g n r v)"

inductive_simps runs_0 [simp]: "runs g widths floats 0 r"
inductive_simps runs_Suc: "runs g widths floats (Suc n) r"

end
