(* ===== verification/BlastOps.thy ===== *)
theory BlastOps
  imports BlastSem
begin

text \<open>
  The bit-blaster's operators against the reference semantics: a valuation of the solver reads a
  run off the blaster (\<open>run_of\<close>), \<open>represents\<close> says that the models of the solver are a set of
  runs, and for every operator the vector its circuit returns is worth the operator's value
  (\<open>yields\<close>).
\<close>

section \<open>Runs and models\<close>

text \<open>The run that a valuation of the solver's variables reads off the blaster.\<close>

definition run_of :: "(nat \<Rightarrow> bool) \<Rightarrow> Blaster \<Rightarrow> Run" where
  "run_of \<nu> b = \<lparr>rn_vals = map (vals \<nu>) (bl_bits b), rn_defs = vals \<nu> (bl_defined b),
     rn_syms = map_option (vals \<nu>) \<circ> bl_sym_bits b, rn_reads = map_option (vals \<nu>) \<circ> bl_state_reads b\<rparr>"

definition lits_ok :: "nat \<Rightarrow> Blaster \<Rightarrow> bool" where
  "lits_ok n b \<longleftrightarrow> (\<forall>x \<in> set (bl_bits b). lits_in n x) \<and> lits_in n (bl_defined b) \<and> lit_in n (bl_one b) \<and>
     (\<forall>x \<in> ran (bl_sym_bits b). lits_in n x) \<and> (\<forall>x \<in> ran (bl_state_reads b). lits_in n x)"

definition represents :: "Blaster \<Rightarrow> Run set \<Rightarrow> bool" where
  "represents b R \<longleftrightarrow> root_inv (bl_solver b) \<and> lits_ok (num_vars (bl_solver b)) b \<and>
     (\<forall>\<nu>. models \<nu> (bl_solver b) \<longrightarrow> lit_true \<nu> (bl_one b)) \<and> {run_of \<nu> b | \<nu>. models \<nu> (bl_solver b)} = R"

text \<open>\<open>r\<close> in the solver \<open>t\<close> is a choice of values from \<open>S\<close>: in every model a value of the
  run, and every value of every run in some model.\<close>

definition chooses :: "Blaster \<Rightarrow> Lit list \<Rightarrow> Solver \<Rightarrow> (Run \<Rightarrow> bool list \<Rightarrow> bool) \<Rightarrow> bool" where
  "chooses b r t S \<longleftrightarrow> ext (bl_solver b) t \<and> lits_in (num_vars t) r \<and>
     (\<forall>\<nu>. models \<nu> t \<longrightarrow> S (run_of \<nu> b) (vals \<nu> r)) \<and>
     (\<forall>\<nu> x. models \<nu> (bl_solver b) \<longrightarrow> S (run_of \<nu> b) x \<longrightarrow>
       (\<exists>\<mu>. (\<forall>v < num_vars (bl_solver b). \<mu> v = \<nu> v) \<and> models \<mu> t \<and> vals \<mu> r = x))"

lemma vals_local: "\<forall>v < n. \<mu> v = \<nu> v \<Longrightarrow> lits_in n ls \<Longrightarrow> vals \<mu> ls = vals \<nu> ls"
  using lit_true_local by simp

lemma map_vals_local:
  "\<forall>v < n. \<mu> v = \<nu> v \<Longrightarrow> \<forall>x \<in> ran m. lits_in n x \<Longrightarrow> map_option (vals \<mu>) \<circ> m = map_option (vals \<nu>) \<circ> m"
proof (rule HOL.ext)
  fix k
  assume "\<forall>v < n. \<mu> v = \<nu> v" "\<forall>x \<in> ran m. lits_in n x"
  then show "(map_option (vals \<mu>) \<circ> m) k = (map_option (vals \<nu>) \<circ> m) k"
    using vals_local [of n \<mu> \<nu> "the (m k)"] ranI [of m k] by (cases "m k") (simp_all del: map_eq_conv)
qed

lemma run_of_local:
  assumes "lits_ok n b" "\<forall>v < n. \<mu> v = \<nu> v"
  shows "run_of \<mu> b = run_of \<nu> b"
proof -
  have "map (vals \<mu>) (bl_bits b) = map (vals \<nu>) (bl_bits b)"
    using assms by (intro map_cong [OF refl] vals_local [OF assms(2)]) (auto simp: lits_ok_def)
  moreover have "vals \<mu> (bl_defined b) = vals \<nu> (bl_defined b)" using assms by (intro vals_local) (auto simp: lits_ok_def)
  ultimately show ?thesis using assms(1) map_vals_local [OF assms(2)] unfolding run_of_def lits_ok_def by (metis (no_types))
qed

lemma lits_ok_mono: "lits_ok n b \<Longrightarrow> n \<le> m \<Longrightarrow> lits_ok m b"
  unfolding lits_ok_def using lits_mono by (metis (no_types) mult_le_mono2 order_less_le_trans)

lemma run_of_solver [simp]: "run_of \<nu> (b\<lparr>bl_solver := t\<rparr>) = run_of \<nu> b"
  by (simp add: run_of_def)

lemma lits_ok_solver [simp]: "lits_ok n (b\<lparr>bl_solver := t\<rparr>) = lits_ok n b"
  by (simp add: lits_ok_def)

lemma represents_lits: "represents b R \<Longrightarrow> num_vars (bl_solver b) \<le> n \<Longrightarrow> c < length (bl_bits b) \<Longrightarrow> lits_in n (bl_bits b ! c)"
  unfolding represents_def lits_ok_def by (meson lits_mono nth_mem)

text \<open>A circuit that computes a function of the run chooses that function's value.\<close>

lemma chooses_circuit:
  assumes "represents b R" "circuit m (\<lambda>n r. lits_in n (h r)) (\<lambda>\<nu> r. lit_true \<nu> (bl_one b) \<longrightarrow> vals \<nu> (h r) = F (run_of \<nu> b)) (bl_solver b)"
    and "run_state m (bl_solver b) = (r, t)"
  shows "chooses b (h r) t (\<lambda>q x. x = F q)"
proof -
  have e: "ext (bl_solver b) t" "lits_in (num_vars t) (h r)" "\<And>\<nu>. models \<nu> t \<Longrightarrow> lit_true \<nu> (bl_one b) \<longrightarrow> vals \<nu> (h r) = F (run_of \<nu> b)"
    using assms(2,3) by (auto simp: circuit_def)
  have one: "lit_true \<nu> (bl_one b)" if "models \<nu> t" for \<nu> using assms(1) e(1) that by (simp add: represents_def ext_def)
  have "\<exists>\<mu>. (\<forall>v < num_vars (bl_solver b). \<mu> v = \<nu> v) \<and> models \<mu> t \<and> vals \<mu> (h r) = F (run_of \<nu> b)" if m: "models \<nu> (bl_solver b)" for \<nu>
  proof -
    obtain \<mu> where \<mu>: "\<forall>v < num_vars (bl_solver b). \<mu> v = \<nu> v" "models \<mu> t" using e(1) m unfolding ext_def by blast
    have "run_of \<mu> b = run_of \<nu> b" using assms(1) \<mu>(1) by (auto simp: represents_def intro: run_of_local)
    then show ?thesis using e(3) [OF \<mu>(2)] one [OF \<mu>(2)] \<mu> by auto
  qed
  then show ?thesis using e one by (simp add: chooses_def)
qed

text \<open>The models after a choice are the runs extended by it.\<close>

lemma represents_choice:
  assumes "represents b R" "chooses b r t S"
    and "\<And>\<nu>. run_of \<nu> c = f (run_of \<nu> b) (vals \<nu> r)" "bl_solver c = t" "bl_one c = bl_one b"
    and "lits_ok (num_vars t) c"
  shows "represents c {f q x | q x. q \<in> R \<and> S q x}"
proof -
  have e: "ext (bl_solver b) t" using assms(2) by (simp add: chooses_def)
  have m: "models \<nu> (bl_solver b)" if "models \<nu> t" for \<nu> using e that by (simp add: ext_def)
  have R: "R = {run_of \<nu> b | \<nu>. models \<nu> (bl_solver b)}" using assms(1) by (simp add: represents_def)
  have lo: "lits_ok (num_vars (bl_solver b)) b" using assms(1) by (simp add: represents_def)
  have "{run_of \<nu> c | \<nu>. models \<nu> t} = {f q x | q x. q \<in> R \<and> S q x}"
  proof (intro set_eqI iffI)
    fix q assume "q \<in> {run_of \<nu> c | \<nu>. models \<nu> t}"
    then obtain \<nu> where "models \<nu> t" "q = f (run_of \<nu> b) (vals \<nu> r)" using assms(3) by auto
    then show "q \<in> {f q x | q x. q \<in> R \<and> S q x}" using assms(2) m unfolding R chooses_def by blast
  next
    fix q assume "q \<in> {f q x | q x. q \<in> R \<and> S q x}"
    then obtain \<nu> x where a: "models \<nu> (bl_solver b)" "S (run_of \<nu> b) x" "q = f (run_of \<nu> b) x" unfolding R by blast
    then obtain \<mu> where \<mu>: "\<forall>v < num_vars (bl_solver b). \<mu> v = \<nu> v" "models \<mu> t" "vals \<mu> r = x"
      using assms(2) unfolding chooses_def by blast
    then have "run_of \<mu> c = q" using assms(3) [of \<mu>] run_of_local [OF lo \<mu>(1)] a(3) by simp
    then show "q \<in> {run_of \<nu> c | \<nu>. models \<nu> t}" using \<mu>(2) by blast
  qed
  moreover have "lit_true \<nu> (bl_one c)" if "models \<nu> t" for \<nu> using m [OF that] assms(1,5) by (simp add: represents_def)
  ultimately show ?thesis using e assms(4,6) by (simp add: represents_def ext_def)
qed

text \<open>Fresh bits choose any value of their width.\<close>

lemma run_fresh_list:
  assumes "root_inv s"
  shows "\<exists>t. run_state (traverse_list (\<lambda>_. fresh) xs) s = (map (\<lambda>j. lit_new (num_vars s + j) False) [0..<length xs], t) \<and>
    root_inv t \<and> num_vars t = num_vars s + length xs \<and> (\<forall>\<nu>. models \<nu> t = models \<nu> s)"
  using assms
proof (induction xs arbitrary: s)
  case (Cons x xs)
  let ?t = "snd (new_var s)"
  have t: "root_inv ?t" "num_vars ?t = Suc (num_vars s)" "\<And>\<nu>. models \<nu> ?t = models \<nu> s" using new_var_ok [OF Cons.prems] by auto
  obtain u where u: "run_state (traverse_list (\<lambda>_. fresh) xs) ?t = (map (\<lambda>j. lit_new (num_vars ?t + j) False) [0..<length xs], u)"
      "root_inv u" "num_vars u = num_vars ?t + length xs" "\<forall>\<nu>. models \<nu> u = models \<nu> ?t"
    using Cons.IH [OF t(1)] by blast
  have "[0..<Suc (length xs)] = 0 # map Suc [0..<length xs]" by (simp add: upt_conv_Cons map_Suc_upt del: upt_Suc)
  then show ?case using u t by (simp add: run_fresh [OF Cons.prems] comp_def del: upt_Suc)
qed simp

lemma chooses_fresh:
  assumes "represents b R"
  shows "\<exists>r t. run_state (fresh_bits w) (bl_solver b) = (r, t) \<and> length r = w \<and> chooses b r t (\<lambda>q x. length x = w)"
proof -
  let ?s = "bl_solver b"
  let ?n = "num_vars ?s"
  let ?r = "map (\<lambda>j. lit_new (?n + j) False) [0..<w]"
  have s: "root_inv ?s" using assms by (simp add: represents_def)
  obtain t where t: "run_state (fresh_bits w) ?s = (?r, t)" "root_inv t" "num_vars t = ?n + w" "\<And>\<nu>. models \<nu> t = models \<nu> ?s"
    using run_fresh_list [OF s, of "[0..<w]"] by (auto simp: fresh_bits_def)
  have rin: "lits_in (num_vars t) ?r" using t(3) by (auto simp: lit_new_def)
  have "\<exists>\<mu>. (\<forall>v < ?n. \<mu> v = \<nu> v) \<and> models \<mu> t \<and> vals \<mu> ?r = x" if "models \<nu> ?s" "length x = w" for \<nu> x
  proof -
    let ?\<mu> = "\<lambda>v. if v < ?n then \<nu> v else x ! (v - ?n)"
    have "models ?\<mu> t" unfolding t(4) using that(1) by (rule models_local [OF s, rotated]) simp
    moreover have "vals ?\<mu> ?r = x" using that(2) by (auto intro!: nth_equalityI)
    ultimately show ?thesis by (intro exI [of _ ?\<mu>]) auto
  qed
  then have "chooses b ?r t (\<lambda>q x. length x = w)" using t rin by (auto simp: chooses_def ext_def)
  then show ?thesis using t(1) by auto
qed

section \<open>Operators\<close>

text \<open>The outcome of an encoding: in every model the vector returned is worth \<open>G\<close>.\<close>

definition yields :: "Blaster \<Rightarrow> nat \<Rightarrow> ((nat \<Rightarrow> bool) \<Rightarrow> bool list) \<Rightarrow> (Lit list \<times> Blaster) outcome \<Rightarrow> bool" where
  "yields b w G res \<longleftrightarrow> (\<exists>r t. res = Done (r, b\<lparr>bl_solver := t\<rparr>) \<and> ext (bl_solver b) t \<and> lits_in (num_vars t) r \<and> length r = w \<and>
     (\<forall>\<nu>. models \<nu> t \<longrightarrow> lit_true \<nu> (bl_one b) \<longrightarrow> vals \<nu> r = G \<nu>))"

lemma yields_exec:
  assumes "circuit m (\<lambda>n r. lits_in n (h r) \<and> length (h r) = w) (\<lambda>\<nu> r. lit_true \<nu> (bl_one b) \<longrightarrow> vals \<nu> (h r) = G \<nu>) (bl_solver b)"
  shows "yields b w G (and_then (exec m b) (\<lambda>(r, b). Done (h r, b)))"
  using assms by (cases "run_state m (bl_solver b)") (auto simp: yields_def exec_def circuit_def)

lemma exec_bind: "and_then (exec m b) (\<lambda>(r, b). Done (r, b)) = exec m b" "and_then (exec_opt n b) (\<lambda>(r, b). Done (r, b)) = exec_opt n b"
  by (auto simp: exec_def exec_opt_def split: prod.splits option.splits)

lemma yields_exec_opt:
  assumes "circuit m (\<lambda>n. returns (\<lambda>r. lits_in n (h r) \<and> length (h r) = w)) (\<lambda>\<nu> r. lit_true \<nu> (bl_one b) \<longrightarrow> vals \<nu> (h (the r)) = G \<nu>) (bl_solver b)"
  shows "yields b w G (and_then (exec_opt m b) (\<lambda>(r, b). Done (h r, b)))"
  using assms by (cases "run_state m (bl_solver b)") (auto simp: yields_def exec_opt_def exec_def circuit_def)

lemmas yields_run = yields_exec [where h = "\<lambda>r. r", unfolded exec_bind] yields_exec_opt [where h = "\<lambda>r. r", unfolded exec_bind]
lemmas yields_single = yields_exec [where h = "\<lambda>l. [l]", folded single_def] yields_exec_opt [where h = "\<lambda>l. [l]", folded single_def]

lemma yields_Done:
  assumes "root_inv (bl_solver b)" "lits_in (num_vars (bl_solver b)) r" "length r = w" "\<And>\<nu>. lit_true \<nu> (bl_one b) \<Longrightarrow> vals \<nu> r = G \<nu>"
  shows "yields b w G (Done (r, b))"
proof -
  have "b\<lparr>bl_solver := bl_solver b\<rparr> = b" by simp
  then show ?thesis unfolding yields_def using assms ext_refl by metis
qed

lemma child_bits_nth:
  "children g i = Some cs \<Longrightarrow> k < length cs \<Longrightarrow> cs ! k < length (bl_bits b) \<Longrightarrow> child_bits g b i k = Done (bl_bits b ! (cs ! k))"
  "children g i = Some cs \<Longrightarrow> k < length cs \<Longrightarrow> nth_child g i k = Done (cs ! k)"
  by (simp_all add: child_bits_def nth_child_def node_children_def nth_or_panic_def)

lemma binop_bits_eq:
  "children g i = Some [x, y] \<Longrightarrow> x < length (bl_bits b) \<Longrightarrow> y < length (bl_bits b) \<Longrightarrow>
    with_binop g b i f = f (bl_bits b ! x) (bl_bits b ! y)"
  by (simp add: with_binop_def binop_bits_def child_bits_nth)

text \<open>The operands of a node, as a circuit reads them.\<close>

definition operand :: "Blaster \<Rightarrow> Lit list \<Rightarrow> bool" where
  "operand b a \<longleftrightarrow> root_inv (bl_solver b) \<and> lit_in (num_vars (bl_solver b)) (bl_one b) \<and> lits_in (num_vars (bl_solver b)) a"

lemma operandD: "operand b a \<Longrightarrow> root_inv (bl_solver b)" "operand b a \<Longrightarrow> lit_in (num_vars (bl_solver b)) (bl_one b)"
  "operand b a \<Longrightarrow> lits_in (num_vars (bl_solver b)) a"
  by (simp_all add: operand_def)

lemma represents_operand: "represents b R \<Longrightarrow> c < length (bl_bits b) \<Longrightarrow> operand b (bl_bits b ! c)"
  using represents_lits [of b R "num_vars (bl_solver b)" c] unfolding operand_def represents_def lits_ok_def by blast

lemma vals_resize: "vals \<nu> (resize_bits n z xs) = resize_bits n (lit_true \<nu> z) (vals \<nu> xs)"
  by (simp add: resize_bits_def take_map)

lemma nth_resize_bits: "i < n \<Longrightarrow> resize_bits n z xs ! i = (if i < length xs then xs ! i else z)"
  by (simp add: resize_bits_def nth_append)

lemma length_resize_bits [simp]: "length (resize_bits n z xs) = n"
  by (simp add: resize_bits_def min_def)

lemma zero_extend_num: "nat_of_bits (resize_bits n False xs) = nat_of_bits xs mod 2 ^ n"
  by (simp add: resize_bits_def nat_of_bits_append nat_of_bits_take)

lemma sign_extend_num:
  assumes "xs \<noteq> []"
  shows "int (nat_of_bits (resize_bits n (last xs) xs)) = signed_val (length xs) (nat_of_bits xs) mod 2 ^ n"
proof (rule bit_eqI)
  fix i
  have sv: "signed_val (length xs) (nat_of_bits xs) = signed_take_bit (length xs - 1) (int (nat_of_bits xs))"
    using assms nat_of_bits_lt [of xs] by (intro signed_val_take_bit) auto
  have m: "min i (length xs - Suc 0) = (if i < length xs then i else length xs - 1)" using assms by auto
  show "bit (int (nat_of_bits (resize_bits n (last xs) xs))) i = bit (signed_val (length xs) (nat_of_bits xs) mod 2 ^ n) i"
    unfolding sv take_bit_eq_mod [symmetric] using assms
    by (auto simp: bit_of_nat_iff_bit bit_nat_of_bits nth_resize_bits bit_take_bit_iff bit_signed_take_bit_iff m last_conv_nth split: if_splits)
qed

lemma extend_yields:
  assumes "operand b x" "sg \<longrightarrow> x \<noteq> []"
  shows "yields b w (\<lambda>\<nu>. bits_of w (if sg then nat (signed_val (length x) (num \<nu> x) mod 2 ^ w) else num \<nu> x))
    (Done (resize_bits w (if sg then last x else lit_negate (bl_one b)) x, b))"
proof (rule yields_Done)
  note od = operandD [OF assms(1)]
  let ?z = "if sg then last x else lit_negate (bl_one b)"
  show "root_inv (bl_solver b)" by (rule od(1))
  show "lits_in (num_vars (bl_solver b)) (resize_bits w ?z x)" using set_resize [of w ?z x] od(2,3) assms(2) by auto
  show "vals \<nu> (resize_bits w ?z x) = bits_of w (if sg then nat (signed_val (length x) (num \<nu> x) mod 2 ^ w) else num \<nu> x)"
    if "lit_true \<nu> (bl_one b)" for \<nu>
  proof (rule bits_of_eqI)
    have "nat_of_bits (resize_bits w (lit_true \<nu> (last x)) (vals \<nu> x)) = nat (signed_val (length x) (num \<nu> x) mod 2 ^ w)" if "x \<noteq> []"
      using sign_extend_num [of "vals \<nu> x" w] that by (simp add: last_map)
    moreover have "nat (i mod 2 ^ w) < 2 ^ w" for i :: int by (simp add: nat_less_iff)
    ultimately show "num \<nu> (resize_bits w ?z x) = (if sg then nat (signed_val (length x) (num \<nu> x) mod 2 ^ w) else num \<nu> x) mod 2 ^ w"
      using that assms(2) unfolding vals_resize by (auto simp: zero_extend_num)
  qed simp
qed simp

lemma unary_yields:
  assumes "get_node g i = Some k" "children g i = Some [x]" "x < length (bl_bits b)" "represents b R"
    and "unary_width k (width_of widths i) (length (bl_bits b ! x)) = Some w" "k \<noteq> Freeze"
  shows "yields b w (\<lambda>\<nu>. unary_value k (the (width_of widths i)) (vals \<nu> (bl_bits b ! x))) (encode g widths floats b i)"
proof -
  let ?x = "bl_bits b ! x"
  note o = represents_operand [OF assms(4,3)] 
  note od = operandD [OF o]
  have cb: "child_bits g b i 0 = Done ?x" using assms(2,3) by (simp add: child_bits_nth)
  consider "k \<in> {NotK, AsFloat, Bitcast}" "w = length ?x" | "k = Neg" "w = length ?x" | "k \<in> {ZExt, SExt}" "k = SExt \<Longrightarrow> ?x \<noteq> []" "width_of widths i = Some w"
    using assms(5,6) by (auto simp: unary_width_def split: if_splits)
  then show ?thesis
  proof cases
    case 1
    then show ?thesis using assms(1) od
      by (auto simp: encode_def is_comparison_def cb unary_value_def intro!: yields_Done)
  next
    case 2
    have "yields b w (\<lambda>\<nu>. bits_of (length ?x) (smt_neg (length ?x) (num \<nu> ?x))) (exec (negate_bits (bl_one b) ?x) b)"
      by (rule yields_run, rule circuit_mono [OF neg_circuit [OF od(1,3,2)]]) (auto simp: 2 smt_neg_def intro!: bits_of_eqI)
    then show ?thesis using assms(1) 2 by (simp add: encode_def is_comparison_def cb unary_value_def)
  next
    case 3
    have bw: "bl_width widths i = Done w" using 3(3) by (auto simp: bl_width_def width_of_def split: if_splits)
    have e: "encode g widths floats b i = Done (resize_bits w (if k = SExt then last ?x else lit_negate (bl_one b)) ?x, b)"
      using 3 assms(1) by (auto simp: encode_def is_comparison_def encode_extend_def cb bw)
    show ?thesis unfolding e using extend_yields [OF o, of "k = SExt" w] 3 by (auto simp: unary_value_def)
  qed
qed

text \<open>The bitwise gates.\<close>

lemma bitwise_circuit:
  assumes "root_inv s" "lits_in (num_vars s) a" "lits_in (num_vars s) b" "length a = length b"
    and "\<And>x y t. root_inv t \<Longrightarrow> lit_in (num_vars t) x \<Longrightarrow> lit_in (num_vars t) y \<Longrightarrow>
      circuit (gate x y) lit_in (\<lambda>\<nu> r. lit_true \<nu> r = f (lit_true \<nu> x) (lit_true \<nu> y)) t"
    and "\<And>x y i. bit (F x y :: nat) i \<longleftrightarrow> f (bit x i) (bit (y :: nat) i)"
  shows "circuit (bitwise gate a b) (\<lambda>n r. lits_in n r \<and> length r = length a)
    (\<lambda>\<nu> r. vals \<nu> r = bits_of (length a) (F (num \<nu> a) (num \<nu> b))) s"
proof -
  have m: "map (\<lambda>(x, y). f (lit_true \<nu> x) (lit_true \<nu> y)) (zip a b) = bits_of (length a) (F (num \<nu> a) (num \<nu> b))" for \<nu>
    using assms(4,6) by (auto simp: bits_of_def bit_nat_of_bits intro!: nth_equalityI)
  have "circuit (bitwise gate a b) (\<lambda>n r. lits_in n r \<and> length r = length (zip a b))
      (\<lambda>\<nu> r. vals \<nu> r = map (\<lambda>(x, y). f (lit_true \<nu> x) (lit_true \<nu> y)) (zip a b)) s"
    unfolding bitwise_def
  proof (intro traverse_circuit [OF assms(1)])
    fix p t assume p: "p \<in> set (zip a b)" "root_inv t" "num_vars s \<le> num_vars t"
    obtain x y where xy: "p = (x, y)" by fastforce
    have "lit_in (num_vars t) x" "lit_in (num_vars t) y" using p assms(2,3) unfolding xy by (meson lits_mono set_zip_leftD set_zip_rightD)+
    then show "circuit (case p of (x, y) \<Rightarrow> gate x y) lit_in (\<lambda>\<nu> r. lit_true \<nu> r = (case p of (x, y) \<Rightarrow> f (lit_true \<nu> x) (lit_true \<nu> y))) t"
      using assms(5) [OF p(2)] xy by simp
  qed
  then show ?thesis using assms(4) by (simp only: m length_zip min.idem)
qed

lemmas bitwise_circuits =
  bitwise_circuit [where f = "(\<and>)" and F = "\<lambda>x y. and x y", OF _ _ _ _ gate_and_circuit bit_and_iff]
  bitwise_circuit [where f = "(\<or>)" and F = "\<lambda>x y. or x y", OF _ _ _ _ gate_or_circuit bit_or_iff]
  bitwise_circuit [where f = "\<lambda>x y. x \<noteq> y" and F = "\<lambda>x y. xor x y", OF _ _ _ _ gate_xor_circuit bit_xor_iff]

text \<open>The arithmetic operators of two operands of one width.\<close>

definition same_width_kinds :: "SymKind set" where
  "same_width_kinds = {And, Or, Xor, Add, Sub, Mul, UDiv, URem, Div, SRem}"

lemma arith_yields:
  assumes "get_node g i = Some k" "children g i = Some [x, y]" "x < length (bl_bits b)" "y < length (bl_bits b)" "represents b R"
    and "length (bl_bits b ! x) = length (bl_bits b ! y)" "k \<in> same_width_kinds" "k \<in> {Div, SRem} \<Longrightarrow> bl_bits b ! x \<noteq> []"
  shows "yields b (length (bl_bits b ! x)) (\<lambda>\<nu>. binary_value k flt (vals \<nu> (bl_bits b ! x)) (vals \<nu> (bl_bits b ! y))) (encode g widths floats b i)"
proof -
  let ?x = "bl_bits b ! x" and ?y = "bl_bits b ! y" and ?one = "bl_one b"
  let ?w = "length ?x"
  let ?G = "\<lambda>f \<nu>. bits_of ?w (f (num \<nu> ?x) (num \<nu> ?y))"
  note ox = operandD [OF represents_operand [OF assms(5,3)]] and oy = operandD [OF represents_operand [OF assms(5,4)]]
  note wb = binop_bits_eq [OF assms(2-4)]
  note bs = encode_def is_comparison_def Let_def assms(1) wb binary_value_def shift_kinds_def order_kinds_def
  have bin: "yields b ?w (?G and) (exec (bitwise gate_and ?x ?y) b)" "yields b ?w (?G or) (exec (bitwise gate_or ?x ?y) b)"
    "yields b ?w (?G xor) (exec (bitwise gate_xor ?x ?y) b)"
    by (rule yields_run, rule circuit_mono, rule bitwise_circuits; use ox oy assms(6) in simp)+
  have add: "yields b ?w (?G (+)) (and_then (exec (adder ?x ?y (lit_negate ?one)) b) (\<lambda>((sum, _), b). Done (sum, b)))"
  proof -
    have "yields b ?w (?G (+)) (and_then (exec (adder ?x ?y (lit_negate ?one)) b) (\<lambda>(r, b). Done (fst r, b)))"
      by (rule yields_exec, rule circuit_mono [OF adder_circuit]) (use ox oy assms(6) in \<open>auto intro!: bits_of_eqI intro: num_mod\<close>)
    then show ?thesis by (simp add: case_prod_unfold)
  qed
  have sub: "yields b ?w (?G (\<lambda>m n. m + 2 ^ ?w - n)) (exec (subtract ?one ?x ?y) b)"
    by (rule yields_run, rule circuit_mono [OF subtract_circuit]) (use ox oy assms(6) in \<open>auto intro!: bits_of_eqI\<close>)
  have mul: "yields b ?w (?G (*)) (exec_opt (multiply ?one ?x ?y) b)"
    by (rule yields_run, rule circuit_mono [OF multiply_circuit]) (use ox oy assms(6) in \<open>auto intro!: bits_of_eqI\<close>)
  have udiv: "yields b ?w (?G (if want then smt_udiv ?w else (mod))) (exec_opt (divrem ?one ?x ?y False want) b)" for want
    by (rule yields_run, rule circuit_mono [OF divrem_unsigned_circuit]) (use ox oy assms(6) in \<open>auto intro!: bits_of_num\<close>)
  have sdiv: "yields b ?w (?G (if want then smt_sdiv ?w else smt_srem ?w)) (exec_opt (divrem ?one ?x ?y True want) b)" if "?x \<noteq> []" for want
    by (rule yields_run, rule circuit_mono [OF divrem_signed_circuit]) (use ox oy assms(6) that in \<open>auto intro!: bits_of_num\<close>)
  consider "k = And" | "k = Or" | "k = Xor" | "k = Add" | "k = Sub" | "k = Mul" | "k = UDiv" | "k = URem" | "k = Div" "?x \<noteq> []" | "k = SRem" "?x \<noteq> []"
    using assms(7,8) by (auto simp: same_width_kinds_def)
  then show ?thesis
  proof cases
    case 1 then show ?thesis using bin(1) by (simp add: bs)
  next
    case 2 then show ?thesis using bin(2) by (simp add: bs)
  next
    case 3 then show ?thesis using bin(3) by (simp add: bs)
  next
    case 4 then show ?thesis using add by (simp add: bs)
  next
    case 5 then show ?thesis using sub by (simp add: bs)
  next
    case 6 then show ?thesis using mul by (simp add: bs)
  next
    case 7 then show ?thesis using udiv [of True] by (simp add: bs)
  next
    case 8 then show ?thesis using udiv [of False] by (simp add: bs)
  next
    case 9 then show ?thesis using sdiv [of True] by (simp add: bs)
  next
    case 10 then show ?thesis using sdiv [of False] by (simp add: bs)
  qed
qed

lemma shift_yields:
  assumes "get_node g i = Some k" "children g i = Some [x, y]" "x < length (bl_bits b)" "y < length (bl_bits b)" "represents b R"
    and "bl_bits b ! x \<noteq> []" "stages_from (length (bl_bits b ! x)) 0 \<le> length (bl_bits b ! y)" "k \<in> shift_kinds"
  shows "yields b (length (bl_bits b ! x)) (\<lambda>\<nu>. shift_value k (vals \<nu> (bl_bits b ! x)) (num \<nu> (bl_bits b ! y))) (encode g widths floats b i)"
proof -
  let ?x = "bl_bits b ! x" and ?y = "bl_bits b ! y" and ?one = "bl_one b"
  note ox = operandD [OF represents_operand [OF assms(5,3)]] and oy = operandD [OF represents_operand [OF assms(5,4)]]
  define kind where "kind = (if k = ShiftLeft then Left else if k = ShiftRightLogic then Logical else Arithmetic)"
  have v: "shift_const (vals \<nu> ?x) n kind (kind = Arithmetic \<and> lit_true \<nu> (last ?x)) = shift_value k (vals \<nu> ?x) n" for \<nu> n
  proof -
    have a: "int (nat_of_bits (shift_const (vals \<nu> ?x) n Arithmetic (lit_true \<nu> (last ?x)))) = (signed_val (length ?x) (num \<nu> ?x) div 2 ^ n) mod 2 ^ length ?x"
      using shift_arithmetic_num [of "vals \<nu> ?x" n] assms(6) by (simp add: last_map)
    have l: "nat_of_bits (shift_const (vals \<nu> ?x) n knd f) mod 2 ^ length ?x = nat_of_bits (shift_const (vals \<nu> ?x) n knd f)" for knd f
      using nat_of_bits_lt [of "shift_const (vals \<nu> ?x) n knd f"] by simp
    show ?thesis unfolding shift_value_def Let_def
      by (rule bits_of_eqI) (use a l [of Logical False] l [of Arithmetic "lit_true \<nu> (last ?x)"] in
        \<open>auto simp: kind_def shift_left_num shift_logical_num simp flip: a\<close>)
  qed
  have "yields b (length ?x) (\<lambda>\<nu>. shift_value k (vals \<nu> ?x) (num \<nu> ?y)) (exec_opt (shift_bits ?one kind ?x ?y) b)"
    by (rule yields_run, rule circuit_mono [OF shift_bits_circuit]) (use ox oy assms(6,7) in \<open>auto simp: v\<close>)
  then show ?thesis using assms(8) by (auto simp: encode_def is_comparison_def assms(1) binop_bits_eq [OF assms(2-4)] shift_kinds_def kind_def)
qed

lemma compare_yields:
  assumes "get_node g i = Some k" "children g i = Some [x, y]" "x < length (bl_bits b)" "y < length (bl_bits b)" "represents b R"
    and "length (bl_bits b ! x) = length (bl_bits b ! y)" "is_float_comparison g floats i = flt"
    and "if is_comparison k \<and> flt then float_format (length (bl_bits b ! x)) = Some (e, m)
      else k \<in> {Eq, Ne} \<or> k \<in> order_kinds \<and> bl_bits b ! x \<noteq> []"
  shows "yields b 1 (\<lambda>\<nu>. binary_value k flt (vals \<nu> (bl_bits b ! x)) (vals \<nu> (bl_bits b ! y))) (encode g widths floats b i)"
proof -
  let ?x = "bl_bits b ! x" and ?y = "bl_bits b ! y" and ?one = "bl_one b"
  note ox = operandD [OF represents_operand [OF assms(5,3)]] and oy = operandD [OF represents_operand [OF assms(5,4)]]
  have cb: "child_bits g b i 0 = Done ?x" "child_bits g b i (Suc 0) = Done ?y" using child_bits_nth(1) [OF assms(2)] assms(3,4) by simp_all
  note wb = binop_bits_eq [OF assms(2-4)]
  have eq: "yields b 1 (\<lambda>\<nu>. [num \<nu> ?x = num \<nu> ?y]) (single (exec (eq_bits ?one ?x ?y) b))"
    by (rule yields_single, rule circuit_mono [OF eq_bits_circuit]) (use ox oy assms(6) in \<open>auto simp: nat_of_bits_inj\<close>)
  have ne: "yields b 1 (\<lambda>\<nu>. [num \<nu> ?x \<noteq> num \<nu> ?y]) (and_then (exec (eq_bits ?one ?x ?y) b) (\<lambda>(eq, b). Done ([lit_negate eq], b)))"
    by (rule yields_exec, rule circuit_mono [OF eq_bits_circuit]) (use ox oy assms(6) in \<open>auto simp: nat_of_bits_inj\<close>)
  show ?thesis
  proof (cases "is_comparison k \<and> flt")
    case True
    have l: "length ?x = e + m + 1" "length ?y = e + m + 1" using assms(6,8) True by (auto simp: float_format_def split: if_splits)
    have "yields b 1 (\<lambda>\<nu>. [fp_compare k e m (num \<nu> ?x) (num \<nu> ?y)]) (single (exec_opt (float_compare ?one k e m ?x ?y) b))"
      by (rule yields_single, rule circuit_mono [OF float_compare_circuit]) (use ox oy l True in \<open>auto simp: is_comparison_def\<close>)
    then show ?thesis using True assms(6-8) by (simp add: encode_def assms(1) encode_float_compare_def cb binary_value_def)
  next
    case False
    have "yields b 1 (\<lambda>\<nu>. [compare_spec k (length ?x) (num \<nu> ?x) (num \<nu> ?y)]) (single (exec_opt (compare_bits ?one k ?x ?y) b))"
      if "k \<in> order_kinds" "?x \<noteq> []"
      by (rule yields_single, rule circuit_mono [OF compare_bits_circuit]) (use ox oy assms(6) that in \<open>auto simp: order_kinds_def\<close>)
    then show ?thesis using False assms(7,8) eq ne
      by (cases k) (auto simp: encode_def assms(1) wb binary_value_def shift_kinds_def order_kinds_def is_comparison_def)
  qed
qed

lemma binary_yields:
  assumes "get_node g i = Some k" "children g i = Some [x, y]" "x < length (bl_bits b)" "y < length (bl_bits b)" "represents b R"
    and "is_float_comparison g floats i = flt" "binary_width k flt (length (bl_bits b ! x)) (length (bl_bits b ! y)) = Some w"
  shows "yields b w (\<lambda>\<nu>. binary_value k flt (vals \<nu> (bl_bits b ! x)) (vals \<nu> (bl_bits b ! y))) (encode g widths floats b i)"
proof -
  let ?x = "bl_bits b ! x" and ?y = "bl_bits b ! y"
  note ox = operandD [OF represents_operand [OF assms(5,3)]] and oy = operandD [OF represents_operand [OF assms(5,4)]]
  have cb: "child_bits g b i (Suc 0) = Done ?y" using child_bits_nth(1) [OF assms(2)] assms(4) by simp
  note wb = binop_bits_eq [OF assms(2-4)]
  note bw = assms(7) [unfolded binary_width_def]
  consider (cmp) e m where "length ?x = length ?y" "w = 1"
      "if is_comparison k \<and> flt then float_format (length ?x) = Some (e, m) else k \<in> {Eq, Ne} \<or> k \<in> order_kinds \<and> ?x \<noteq> []"
    | (same) "\<not> (is_comparison k \<and> flt)" "k \<in> same_width_kinds" "length ?x = length ?y" "w = length ?x" "k \<in> {Div, SRem} \<Longrightarrow> ?x \<noteq> []"
    | (shift) "k \<in> shift_kinds" "?x \<noteq> []" "stages_from (length ?x) 0 \<le> length ?y" "w = length ?x"
    | (conc) "k = Concat" "w = length ?x + length ?y" | (poison) "k = Poison" "w = length ?y"
  proof (cases "is_comparison k \<and> flt")
    case True
    then obtain e m where "length ?x = length ?y" "w = 1" "float_format (length ?x) = Some (e, m)"
      using bw by (auto split: if_splits)
    then show ?thesis using True by (intro cmp [of e m]) auto
  next
    case False
    note bw' = bw [unfolded if_not_P [OF False]]
    consider "k \<in> {And, Or, Xor, Add, Sub, Mul, UDiv, URem}" | "k \<in> {Div, SRem}" | "k \<in> shift_kinds" | "k \<in> {Eq, Ne}" | "k \<in> order_kinds" | "k = Concat" | "k = Poison"
      using bw' by (metis option.distinct(1))
    then show ?thesis
    proof cases
      case 1 then show ?thesis using bw' False by (intro same) (auto simp: same_width_kinds_def split: if_splits)
    next
      case 2 then show ?thesis using bw' False by (intro same) (auto simp: same_width_kinds_def split: if_splits)
    next
      case 3 then show ?thesis using bw' by (intro shift) (auto simp: shift_kinds_def split: if_splits)
    next
      case 4 then show ?thesis using bw' False by (intro cmp [of 0 0]) (auto simp: shift_kinds_def split: if_splits)
    next
      case 5 then show ?thesis using bw' False by (intro cmp [of 0 0]) (auto simp: shift_kinds_def order_kinds_def split: if_splits)
    next
      case 6 then show ?thesis using bw' by (intro conc) (auto simp: shift_kinds_def order_kinds_def)
    next
      case 7 then show ?thesis using bw' by (intro poison) (auto simp: shift_kinds_def order_kinds_def split: if_splits)
    qed
  qed
  then show ?thesis
  proof cases
    case (cmp e m)
    then show ?thesis using compare_yields [OF assms(1-5) cmp(1) assms(6) cmp(3)] by simp
  next
    case same
    then show ?thesis using arith_yields [OF assms(1-5) same(3,2,5)] by simp
  next
    case shift
    then show ?thesis using shift_yields [OF assms(1-5) shift(2,3,1)] by (auto simp: binary_value_def is_comparison_def shift_kinds_def Let_def)
  next
    case conc
    have "yields b (length ?x + length ?y) (\<lambda>\<nu>. vals \<nu> ?y @ vals \<nu> ?x) (Done (?y @ ?x, b))"
      by (rule yields_Done) (use ox oy in auto)
    then show ?thesis using conc by (simp add: encode_def is_comparison_def assms(1) wb binary_value_def shift_kinds_def order_kinds_def)
  next
    case poison
    have "yields b (length ?y) (\<lambda>\<nu>. vals \<nu> ?y) (Done (?y, b))" by (rule yields_Done) (use oy in auto)
    then show ?thesis using poison by (simp add: encode_def is_comparison_def assms(1) cb binary_value_def shift_kinds_def order_kinds_def)
  qed
qed

lemma ternary_yields:
  assumes "get_node g i = Some k" "children g i = Some [x, y, z]" "\<forall>c \<in> {x, y, z}. c < length (bl_bits b)" "represents b R"
    and "ternary_width g k t y z (length (bl_bits b ! x)) (length (bl_bits b ! y)) (length (bl_bits b ! z)) = Some w" "k \<noteq> StateRead"
  shows "yields b w (\<lambda>\<nu>. ternary_value g k y z (vals \<nu> (bl_bits b ! x)) (vals \<nu> (bl_bits b ! y)) (vals \<nu> (bl_bits b ! z)))
    (encode g widths floats b i)"
proof -
  let ?x = "bl_bits b ! x" and ?y = "bl_bits b ! y" and ?z = "bl_bits b ! z"
  have o: "operand b ?x" "operand b ?y" "operand b ?z" using represents_operand [OF assms(4)] assms(3) by auto
  note ox = operandD [OF o(1)] and oy = operandD [OF o(2)] and oz = operandD [OF o(3)]
  have cb: "child_bits g b i 0 = Done ?x" "child_bits g b i (Suc 0) = Done ?y" "child_bits g b i 2 = Done ?z"
    "nth_child g i (Suc 0) = Done y" "nth_child g i 2 = Done z"
    using child_bits_nth [OF assms(2)] assms(3) by simp_all
  consider (sel) "k = IfK" "?x \<noteq> []" "w = length ?z" "length ?y = length ?z"
    | (slice) hi lo where "k = Extract" "const_of g y = Some hi" "const_of g z = Some lo" "lo \<le> hi + 1" "hi < length ?x" "w = hi + 1 - lo"
    using assms(5,6) by (auto simp: ternary_width_def split: if_splits option.splits)
  then show ?thesis
  proof cases
    case sel
    have h: "?x ! 0 \<in> set ?x" "lit_true \<nu> (?x ! 0) = hd (vals \<nu> ?x)" for \<nu> using sel(2) by (auto simp: hd_map hd_conv_nth)
    have "yields b w (\<lambda>\<nu>. if hd (vals \<nu> ?x) then vals \<nu> ?y else vals \<nu> ?z) (exec (mux_bits (?x ! 0) ?y ?z) b)"
      by (rule yields_run, rule circuit_mono [OF mux_bits_circuit]) (use ox oy oz sel h in auto)
    then show ?thesis using sel by (simp add: encode_def is_comparison_def assms(1) encode_ite_def cb nth_or_panic_def ternary_value_def)
  next
    case slice
    have c: "const_u64 g y = Done hi" "const_u64 g z = Done lo" using slice(2,3) by (auto simp: const_of_def split: outcome.splits)
    have "yields b w (\<lambda>\<nu>. bits_of (hi + 1 - lo) (num \<nu> ?x div 2 ^ lo)) (Done (take (hi + 1 - lo) (drop lo ?x), b))"
    proof (rule yields_Done)
      show "vals \<nu> (take (hi + 1 - lo) (drop lo ?x)) = bits_of (hi + 1 - lo) (num \<nu> ?x div 2 ^ lo)" for \<nu>
        using slice by (intro bits_of_eqI) (auto simp: take_map [symmetric] drop_map [symmetric] nat_of_bits_take nat_of_bits_drop)
    qed (use ox slice in \<open>auto dest: in_set_takeD in_set_dropD\<close>)
    then show ?thesis using slice
      by (simp add: encode_def is_comparison_def assms(1) encode_extract_def cb c ternary_value_def)
  qed
qed

text \<open>A switch takes the arm its index names, and the last one beyond.\<close>

lemma selected_from_circuit:
  assumes "root_inv s" "lit_in (num_vars s) acc" "lits_in (num_vars s) index"
  shows "circuit (selected_from arm k acc index) lit_in
    (\<lambda>\<nu> y. lit_true \<nu> y \<longleftrightarrow> lit_true \<nu> acc \<and> (\<forall>j < length index. lit_true \<nu> (index ! j) \<longleftrightarrow> k + j < 64 \<and> bit arm (k + j))) s"
  using assms
proof (induction index arbitrary: s k acc)
  case Nil
  then show ?case by (auto intro!: circuit_return)
next
  case (Cons l index)
  have a: "(\<forall>j < Suc n. P j) \<longleftrightarrow> P 0 \<and> (\<forall>j < n. P (Suc j))" for n and P :: "nat \<Rightarrow> bool" by (auto simp: less_Suc_eq_0_disj)
  show ?case unfolding selected_from.simps
  proof (rule circuit_bind [OF gate_and_circuit], goal_cases)
    case (4 y t)
    show ?case by (rule circuit_mono [OF Cons.IH]) (use 4 Cons.prems in \<open>auto simp: a\<close>)
  qed (use Cons.prems in auto)
qed

lemma selected_num:
  assumes "arm < 2 ^ 64"
  shows "(\<forall>j < length index. lit_true \<nu> (index ! j) \<longleftrightarrow> j < 64 \<and> bit arm j) \<longleftrightarrow> num \<nu> index = arm mod 2 ^ length index"
proof -
  have b: "j < 64" if "bit arm j" for j
  proof -
    have "bit (take_bit 64 arm) j" unfolding take_bit_nat_eq_self [OF assms] by (rule that)
    then show ?thesis unfolding bit_take_bit_iff by (rule conjunct1)
  qed
  have "num \<nu> index = arm mod 2 ^ length index \<longleftrightarrow> vals \<nu> index = bits_of (length index) arm"
    using nat_of_bits_inj [of "vals \<nu> index" "bits_of (length index) arm"] by simp
  also have "\<dots> \<longleftrightarrow> (\<forall>j < length index. lit_true \<nu> (index ! j) \<longleftrightarrow> j < 64 \<and> bit arm j)"
    unfolding list_eq_iff_nth_eq using b by (simp add: bits_of_def cong: conj_cong) blast
  finally show ?thesis by (rule sym)
qed

lemma switch_arms_circuit:
  assumes "root_inv s" "lit_in (num_vars s) one" "lits_in (num_vars s) index" "\<forall>a \<in> set arms. lits_in (num_vars s) a \<and> length a = length out"
    and "lits_in (num_vars s) out" "n \<le> length arms" "n \<le> 2 ^ 64"
  shows "circuit (switch_arms one index arms n out) (\<lambda>m r. lits_in m r \<and> length r = length out)
    (\<lambda>\<nu> r. lit_true \<nu> one \<longrightarrow> vals \<nu> r = (if num \<nu> index < n then vals \<nu> (arms ! num \<nu> index) else vals \<nu> out)) s"
  using assms
proof (induction n arbitrary: s out)
  case 0
  then show ?case by (auto intro!: circuit_return)
next
  case (Suc n)
  have up: "lits_in m index" "lit_in m one" "lits_in m out" "\<forall>a \<in> set arms. lits_in m a \<and> length a = length out" if "num_vars s \<le> m" for m
    using that Suc.prems lits_mono by (meson, simp, meson, metis)
  have n: "n < length arms" "n < 2 ^ 64" using Suc.prems(6,7) by simp_all
  have l: "num \<nu> index = n \<longrightarrow> n mod 2 ^ length index = n" "n mod 2 ^ length index \<le> n" for \<nu>
    using num_lt [of \<nu> index] by auto
  show ?case unfolding switch_arms.simps
  proof (rule circuit_bind [OF selected_from_circuit], goal_cases)
    case (4 sel t)
    show ?case
    proof (rule circuit_bind [OF mux_bits_circuit], goal_cases)
      case (6 r u)
      show ?case
      proof (rule circuit_mono [OF Suc.IH], goal_cases)
        case (9 \<nu> q m)
        consider "num \<nu> index < n" | "num \<nu> index = n" "n mod 2 ^ length index = n" | "n < num \<nu> index" "num \<nu> index \<noteq> n mod 2 ^ length index"
          using l(1) [of \<nu>] l(2) by linarith
        then show ?case using 9(2) selected_num [OF n(2), of index \<nu>] by cases auto
      qed (use 6 4 up n in auto)
    qed (use 4 up [of "num_vars t"] n nth_mem [OF n(1)] in auto)
  qed (use up Suc.prems in auto)
qed

lemma switch_yields:
  assumes "get_node g i = Some Switch" "children g i = Some cs" "\<forall>c \<in> set cs. c < length (bl_bits b)" "represents b R"
    and "switch_width (map (\<lambda>c. length (bl_bits b ! c)) cs) = Some w"
  shows "yields b w (\<lambda>\<nu>. switch_value (map (\<lambda>c. vals \<nu> (bl_bits b ! c)) cs)) (encode g widths floats b i)"
proof -
  obtain x c rest where cs: "cs = x # c # rest" "length (bl_bits b ! c) = w" "length rest < 2 ^ 64" "\<forall>d \<in> set rest. length (bl_bits b ! d) = w"
    using assms(5) by (auto simp: switch_width_def split: list.splits if_splits)
  let ?bits = "\<lambda>c. bl_bits b ! c"
  let ?arms = "map ?bits (c # rest)"
  let ?out = "last ?arms"
  have o: "operand b (?bits d)" if "d \<in> set cs" for d using represents_operand [OF assms(4)] assms(3) that by blast
  have op: "root_inv (bl_solver b)" "lit_in (num_vars (bl_solver b)) (bl_one b)" "lits_in (num_vars (bl_solver b)) (?bits x)"
    using operandD [OF o, of x] cs(1) by simp_all
  have out: "?out \<in> set ?arms" by (rule last_in_set) simp
  have arms: "length ?out = w" "lits_in (num_vars (bl_solver b)) ?out" "\<forall>a \<in> set ?arms. lits_in (num_vars (bl_solver b)) a \<and> length a = length ?out"
  proof -
    have a: "\<forall>a \<in> set ?arms. lits_in (num_vars (bl_solver b)) a \<and> length a = w" using cs operandD(3) [OF o] by auto
    then show "length ?out = w" "lits_in (num_vars (bl_solver b)) ?out" using out by blast+
    then show "\<forall>a \<in> set ?arms. lits_in (num_vars (bl_solver b)) a \<and> length a = length ?out" using a by blast
  qed
  have "yields b w (\<lambda>\<nu>. switch_value (map (\<lambda>c. vals \<nu> (?bits c)) cs)) (exec (switch_arms (bl_one b) (?bits x) ?arms (length ?arms - 1) ?out) b)"
  proof (rule yields_run, rule circuit_mono [OF switch_arms_circuit], goal_cases)
    case (9 \<nu> r n)
    have l: "last (map (vals \<nu>) ?arms) = vals \<nu> ?out" by (rule last_map) simp
    have e: "last (map (vals \<nu>) ?arms) = map (vals \<nu>) ?arms ! length rest" by (subst last_conv_nth) simp_all
    have n: "map (vals \<nu>) ?arms ! j = vals \<nu> (?arms ! j)" if "j < Suc (length rest)" for j using that by (intro nth_map) simp
    have "switch_value (map (\<lambda>c. vals \<nu> (?bits c)) cs) = (if num \<nu> (?bits x) < length rest then vals \<nu> (?arms ! num \<nu> (?bits x)) else vals \<nu> ?out)"
      using l e n [of "num \<nu> (?bits x)"] unfolding cs(1) switch_value_def Let_def by (auto simp: comp_def less_Suc_eq)
    then show ?case using 9(2) by simp
  qed (use op arms cs(3) in \<open>simp_all del: last.simps\<close>)
  moreover have "\<not> (length cs < 2 \<or> (\<exists>c \<in> set cs. length (bl_bits b) \<le> c))" using assms(3) cs(1) by auto
  ultimately show ?thesis
    by (simp add: encode_def is_comparison_def encode_switch_def node_children_def assms(1,2)) (simp add: cs(1))
qed

end
