(* ===== verification/BitblastCorrect.thy ===== *)
theory BitblastCorrect
  imports BlastOps
begin

text \<open>
  The bit-blaster implements the reference semantics of \<open>BlastSem\<close>. Each node's encoding chooses a
  value of the node (\<open>encoded\<close>) and a literal for its definedness (\<open>denotes\<close>); by induction on
  the nodes the models of the solver are the runs of the formula (\<open>blast_nodes_represents\<close>), so the
  verdicts of the SAT solver are verdicts on the formula.
\<close>

section \<open>The encoding of a node\<close>

definition plain_kind :: "SymKind \<Rightarrow> bool" where
  "plain_kind k \<longleftrightarrow> k \<notin> {Symbol, StateBlock, Constant, StateRead, Freeze}"

lemma op_yields:
  assumes "get_node g i = Some k" "children g i = Some cs" "\<forall>c \<in> set cs. c < length (bl_bits b)" "represents b R" "plain_kind k"
    and "op_vector_width g (is_float_comparison g floats i) k (width_of widths i) cs (map (\<lambda>c. length (bl_bits b ! c)) cs) = Some w"
  shows "yields b w (\<lambda>\<nu>. op_value g (is_float_comparison g floats i) k (the (width_of widths i)) cs (map (\<lambda>c. vals \<nu> (bl_bits b ! c)) cs))
    (encode g widths floats b i)"
proof (cases "k = Switch")
  case True
  then show ?thesis using switch_yields [of g i cs b R w widths floats] assms by (simp add: op_value_def op_vector_width_def)
next
  case False
  have p: "k \<noteq> Freeze" "k \<noteq> StateRead" using assms(5) by (simp_all add: plain_kind_def)
  consider x where "cs = [x]" | x y where "cs = [x, y]" | x y z where "cs = [x, y, z]"
    using assms(6) False by (auto simp: op_vector_width_def split: list.splits)
  then show ?thesis
  proof cases
    case 1
    then show ?thesis using unary_yields [of g i k x b R widths w floats] assms False p by (simp add: op_value_def op_vector_width_def)
  next
    case 2
    then show ?thesis using binary_yields [of g i k x y b R floats _ w widths] assms False by (simp add: op_value_def op_vector_width_def)
  next
    case 3
    then show ?thesis using ternary_yields [of g i k x y z b R _ w widths floats] assms False p by (simp add: op_value_def op_vector_width_def)
  qed
qed

text \<open>What the encoding of a node records of it.\<close>

definition note_node :: "('v, 'f) formula \<Rightarrow> nat \<Rightarrow> Lit list \<Rightarrow> Blaster \<Rightarrow> Blaster" where
  "note_node g i r b =
     (let k = the (get_node g i)
      in b\<lparr>bl_sym_bits := (if k = Symbol then
               (case the (get_leaf_data g i) of Some (SymbolId sid) \<Rightarrow> (bl_sym_bits b)(sid \<mapsto> r) | _ \<Rightarrow> bl_sym_bits b)
             else bl_sym_bits b),
           bl_state_reads := (if k = StateRead then (bl_state_reads b)(read_key g (the (children g i)) \<mapsto> r)
             else bl_state_reads b)\<rparr>)"

definition encoded :: "('v, 'f) formula \<Rightarrow> nat option list \<Rightarrow> bool list \<Rightarrow> Blaster \<Rightarrow> nat \<Rightarrow> nat \<Rightarrow> bool" where
  "encoded g widths floats b i w \<longleftrightarrow> (\<exists>r t. encode g widths floats b i = Done (r, note_node g i r (b\<lparr>bl_solver := t\<rparr>)) \<and>
     length r = w \<and> chooses b r t (\<lambda>q v. node_value g widths floats q i v))"

lemma chooses_yields:
  assumes "yields b w G res" "represents b R" "\<And>\<nu>. G \<nu> = F (run_of \<nu> b)"
  obtains r t where "res = Done (r, b\<lparr>bl_solver := t\<rparr>)" "length r = w" "chooses b r t (\<lambda>q v. v = F q)"
proof -
  obtain r t where r: "res = Done (r, b\<lparr>bl_solver := t\<rparr>)" "ext (bl_solver b) t" "lits_in (num_vars t) r" "length r = w"
      "\<forall>\<nu>. models \<nu> t \<longrightarrow> lit_true \<nu> (bl_one b) \<longrightarrow> vals \<nu> r = G \<nu>"
    using assms(1) by (auto simp: yields_def)
  have "circuit (State (\<lambda>_. (r, t))) (\<lambda>n r. lits_in n r) (\<lambda>\<nu> r. lit_true \<nu> (bl_one b) \<longrightarrow> vals \<nu> r = F (run_of \<nu> b)) (bl_solver b)"
    using r assms(3) by (simp add: circuit_def)
  then have "chooses b r t (\<lambda>q v. v = F q)" using chooses_circuit [OF assms(2), where h = "\<lambda>x. x"] by fastforce
  then show ?thesis using that r by blast
qed

lemma chooses_cong: "(\<And>\<nu> v. S (run_of \<nu> b) v = S' (run_of \<nu> b) v) \<Longrightarrow> chooses b r t S = chooses b r t S'"
  by (simp add: chooses_def)

lemma chooses_then:
  assumes "represents b R" "chooses b r t S"
    and "circuit m (\<lambda>n x. lits_in n x) (\<lambda>\<nu> x. vals \<nu> x = H (run_of \<nu> b) (vals \<nu> r)) t" "run_state m t = (x, u)"
  shows "chooses b x u (\<lambda>q v. \<exists>y. S q y \<and> v = H q y)"
proof -
  have c: "ext t u" "lits_in (num_vars u) x" "\<And>\<nu>. models \<nu> u \<Longrightarrow> vals \<nu> x = H (run_of \<nu> b) (vals \<nu> r)"
    using assms(3,4) by (auto simp: circuit_def)
  have s: "ext (bl_solver b) t" "lits_in (num_vars t) r" "\<And>\<nu>. models \<nu> t \<Longrightarrow> S (run_of \<nu> b) (vals \<nu> r)"
    using assms(2) by (auto simp: chooses_def)
  have lo: "lits_ok (num_vars (bl_solver b)) b" using assms(1) by (simp add: represents_def)
  have "\<exists>\<mu>. (\<forall>v < num_vars (bl_solver b). \<mu> v = \<nu> v) \<and> models \<mu> u \<and> vals \<mu> x = H (run_of \<nu> b) y"
    if a: "models \<nu> (bl_solver b)" "S (run_of \<nu> b) y" for \<nu> y
  proof -
    obtain \<mu> where \<mu>: "\<forall>v < num_vars (bl_solver b). \<mu> v = \<nu> v" "models \<mu> t" "vals \<mu> r = y" using assms(2) a unfolding chooses_def by blast
    obtain \<eta> where \<eta>: "\<forall>v < num_vars t. \<eta> v = \<mu> v" "models \<eta> u" using c(1) \<mu>(2) unfolding ext_def by blast
    have e: "\<forall>v < num_vars (bl_solver b). \<eta> v = \<nu> v" using \<eta>(1) \<mu>(1) s(1) by (simp add: ext_def)
    have "vals \<eta> r = y" using vals_local [OF \<eta>(1) s(2)] \<mu>(3) by simp
    then show ?thesis using c(3) [OF \<eta>(2)] run_of_local [OF lo e] e \<eta>(2) by auto
  qed
  moreover have "\<exists>y. S (run_of \<nu> b) y \<and> vals \<nu> x = H (run_of \<nu> b) y" if "models \<nu> u" for \<nu>
    using c(1,3) s(3) that unfolding ext_def by blast
  ultimately show ?thesis using ext_trans [OF s(1) c(1)] c(2) unfolding chooses_def by blast
qed

lemma note_plain: "get_node g i = Some k \<Longrightarrow> k \<noteq> Symbol \<Longrightarrow> k \<noteq> StateRead \<Longrightarrow> note_node g i r b = b"
  by (simp add: note_node_def)

lemma encodedI:
  assumes "encode g widths floats b i = Done (r, note_node g i r (b\<lparr>bl_solver := t\<rparr>))" "length r = w" "chooses b r t S"
    and "\<And>\<nu> v. S (run_of \<nu> b) v = node_value g widths floats (run_of \<nu> b) i v"
  shows "encoded g widths floats b i w"
  unfolding encoded_def using assms(1,2) chooses_cong [THEN iffD1, OF assms(4,3)] by blast

lemma yields_encoded:
  assumes "yields b w G (encode g widths floats b i)" "represents b R" "get_node g i = Some k" "k \<noteq> Symbol" "k \<noteq> StateRead"
    and "\<And>\<nu>. G \<nu> = F (run_of \<nu> b)" "\<And>q v. node_value g widths floats q i v \<longleftrightarrow> v = F q"
  shows "encoded g widths floats b i w"
proof -
  obtain r t where r: "encode g widths floats b i = Done (r, b\<lparr>bl_solver := t\<rparr>)" "length r = w" "chooses b r t (\<lambda>q v. v = F q)"
    by (rule chooses_yields [OF assms(1,2,6)])
  show ?thesis by (rule encodedI [OF _ r(2,3)]) (use r(1) note_plain [OF assms(3-5)] assms(7) in simp_all)
qed

lemma run_of_operand: "c < length (bl_bits b) \<Longrightarrow> rn_vals (run_of \<nu> b) ! c = vals \<nu> (bl_bits b ! c)"
  by (simp add: run_of_def)

lemma plain_encoded:
  assumes "get_node g i = Some k" "children g i = Some cs" "\<forall>c \<in> set cs. c < length (bl_bits b)" "represents b R" "plain_kind k"
    and "op_vector_width g (is_float_comparison g floats i) k (width_of widths i) cs (map (\<lambda>c. length (bl_bits b ! c)) cs) = Some w"
  shows "encoded g widths floats b i w"
proof -
  let ?F = "\<lambda>q. op_value g (is_float_comparison g floats i) k (the (width_of widths i)) cs (map (\<lambda>c. rn_vals q ! c) cs)"
  have p: "k \<noteq> Symbol" "k \<noteq> StateBlock" "k \<noteq> Constant" "k \<noteq> StateRead" "k \<noteq> Freeze" using assms(5) by (simp_all add: plain_kind_def)
  have "map (\<lambda>c. vals \<nu> (bl_bits b ! c)) cs = map (\<lambda>c. rn_vals (run_of \<nu> b) ! c) cs" for \<nu>
    by (rule map_cong [OF refl]) (use assms(3) run_of_operand in simp)
  then have G: "op_value g (is_float_comparison g floats i) k (the (width_of widths i)) cs (map (\<lambda>c. vals \<nu> (bl_bits b ! c)) cs) = ?F (run_of \<nu> b)" for \<nu>
    by (simp only:)
  show ?thesis
    by (rule yields_encoded [OF op_yields [OF assms] assms(4,1) p(1,4) G]) (use assms(1,2) p in \<open>simp add: node_value_def\<close>)
qed

lemma block_encoded:
  assumes "get_node g i = Some StateBlock" "represents b R"
  shows "encoded g widths floats b i 1"
proof -
  have "yields b 1 (\<lambda>\<nu>. [True]) (Done ([bl_one b], b))" by (rule yields_Done) (use assms(2) in \<open>auto simp: represents_def lits_ok_def\<close>)
  moreover have "encode g widths floats b i = Done ([bl_one b], b)" using assms(1) by (simp add: encode_def is_comparison_def)
  ultimately have "yields b 1 (\<lambda>\<nu>. [True]) (encode g widths floats b i)" by simp
  then show ?thesis by (rule yields_encoded [OF _ assms(2,1), of _ _ _ _ "\<lambda>_. [True]"]) (use assms(1) in \<open>simp_all add: node_value_def\<close>)
qed

lemma constant_encoded:
  assumes "get_node g i = Some Constant" "get_leaf_data g i = Some (Some (IntP n))" "width_of widths i = Some w" "represents b R"
  shows "encoded g widths floats b i w"
proof -
  let ?r = "map (\<lambda>k. if limb_bit (ap_limbs n) k then bl_one b else lit_negate (bl_one b)) [0..<w]"
  let ?v = "bits_of w (limbs_val (ap_limbs n))"
  have "yields b w (\<lambda>\<nu>. ?v) (Done (?r, b))"
    by (rule yields_Done) (use assms(4) in \<open>auto simp: represents_def lits_ok_def bits_of_def limb_bit_def bit_limbs_val\<close>)
  moreover have "bl_width widths i = Done w" using assms(3) by (auto simp: bl_width_def width_of_def split: if_splits)
  then have "encode g widths floats b i = Done (?r, b)" using assms(1-3) by (simp add: encode_def is_comparison_def encode_constant_def)
  ultimately have "yields b w (\<lambda>\<nu>. ?v) (encode g widths floats b i)" by simp
  then show ?thesis by (rule yields_encoded [OF _ assms(4,1), of _ _ _ _ "\<lambda>_. ?v"]) (use assms(1-3) in \<open>simp_all add: node_value_def\<close>)
qed

lemma symbol_encoded:
  assumes "get_node g i = Some Symbol" "get_leaf_data g i = Some leaf" "width_of widths i = Some w" "represents b R"
  shows "encoded g widths floats b i w"
proof -
  obtain r t where r: "run_state (fresh_bits w) (bl_solver b) = (r, t)" "length r = w" "chooses b r t (\<lambda>q x. length x = w)"
    using chooses_fresh [OF assms(4)] by blast
  have "bl_width widths i = Done w" using assms(3) by (auto simp: bl_width_def width_of_def split: if_splits)
  then have "encode g widths floats b i = Done (r, note_node g i r (b\<lparr>bl_solver := t\<rparr>))"
    using assms(1,2) r(1)
    by (auto simp: encode_def is_comparison_def encode_symbol_def exec_def note_node_def split: option.splits SymPayload.splits)
  then show ?thesis by (rule encodedI [OF _ r(2,3)]) (use assms(1,3) in \<open>simp add: node_value_def\<close>)
qed

lemma read_encoded:
  assumes "get_node g i = Some StateRead" "children g i = Some [x, y, z]" "const_of g y = Some res" "const_of g z = Some fld"
    and "width_of widths i = Some w" "represents b R"
  shows "encoded g widths floats b i w"
proof -
  have c: "const_u64 g y = Done res" "const_u64 g z = Done fld" using assms(3,4) by (auto simp: const_of_def split: outcome.splits)
  have n: "nth_child g i (Suc 0) = Done y" "nth_child g i 2 = Done z" using child_bits_nth(2) [OF assms(2)] by simp_all
  have bw: "bl_width widths i = Done w" using assms(5) by (auto simp: bl_width_def width_of_def split: if_splits)
  have key: "read_key g (the (children g i)) = (res, fld)" using assms(2-4) by (simp add: read_key_def)
  have e: "encode g widths floats b i = encode_state_read g widths b i" using assms(1) by (simp add: encode_def is_comparison_def)
  have reads: "rn_reads (run_of \<nu> b) (res, fld) = map_option (vals \<nu>) (bl_state_reads b (res, fld))" for \<nu> by (simp add: run_of_def)
  have nv: "node_value g widths floats q i v \<longleftrightarrow> (case rn_reads q (res, fld) of
      Some old \<Rightarrow> if length old = w then v = old else length v = w | None \<Rightarrow> length v = w)" for q v
    using assms(1,5) key by (simp add: node_value_def)
  show ?thesis
  proof (cases "\<exists>old. bl_state_reads b (res, fld) = Some old \<and> length old = w")
    case True
    then obtain old where old: "bl_state_reads b (res, fld) = Some old" "length old = w" by blast
    have "lits_in (num_vars (bl_solver b)) old" using assms(6) ranI [of "bl_state_reads b", OF old(1)] unfolding represents_def lits_ok_def by blast
    then have "yields b w (\<lambda>\<nu>. vals \<nu> old) (Done (old, b))" by (intro yields_Done) (use assms(6) old(2) in \<open>auto simp: represents_def\<close>)
    then obtain r t where r: "Done (old, b) = Done (r, b\<lparr>bl_solver := t\<rparr>)" "chooses b r t (\<lambda>q v. v = the (rn_reads q (res, fld)))"
      by (rule chooses_yields [OF _ assms(6), of _ _ _ "\<lambda>q. the (rn_reads q (res, fld))"]) (simp_all add: reads old)
    have "note_node g i old b = b" using assms(1) key old(1) by (simp add: note_node_def fun_upd_idem)
    then have "encode g widths floats b i = Done (r, note_node g i r (b\<lparr>bl_solver := t\<rparr>))"
      using r(1) old unfolding e encode_state_read_def by (simp add: c n bw)
    then show ?thesis by (rule encodedI [OF _ _ r(2)]) (use r(1) old in \<open>simp_all add: nv reads\<close>)
  next
    case False
    obtain r t where r: "run_state (fresh_bits w) (bl_solver b) = (r, t)" "length r = w" "chooses b r t (\<lambda>q x. length x = w)"
      using chooses_fresh [OF assms(6)] by blast
    have "note_node g i r (b\<lparr>bl_solver := t\<rparr>) = b\<lparr>bl_solver := t, bl_state_reads := (bl_state_reads b)((res, fld) \<mapsto> r)\<rparr>"
      using assms(1) key by (simp add: note_node_def)
    then have "encode g widths floats b i = Done (r, note_node g i r (b\<lparr>bl_solver := t\<rparr>))"
      using r(1) False unfolding e encode_state_read_def by (auto simp: c n bw exec_def split: option.splits)
    then show ?thesis by (rule encodedI [OF _ r(2,3)]) (use False in \<open>auto simp: nv reads split: option.splits\<close>)
  qed
qed

lemma freeze_encoded:
  assumes "get_node g i = Some Freeze" "children g i = Some [x]" "x < length (bl_bits b)" "length (bl_defined b) = length (bl_bits b)" "represents b R"
  shows "encoded g widths floats b i (length (bl_bits b ! x))"
proof -
  let ?v = "bl_bits b ! x" and ?d = "bl_defined b ! x"
  note o = operandD [OF represents_operand [OF assms(5,3)]]
  have d: "lit_in (num_vars (bl_solver b)) ?d" using assms(3-5) by (auto simp: represents_def lits_ok_def)
  obtain r t where r: "run_state (fresh_bits (length ?v)) (bl_solver b) = (r, t)" "length r = length ?v" "chooses b r t (\<lambda>q x. length x = length ?v)"
    using chooses_fresh [OF assms(5)] by blast
  have t: "ext (bl_solver b) t" "lits_in (num_vars t) r" using r(3) by (auto simp: chooses_def)
  obtain y u where y: "run_state (mux_bits ?d ?v r) t = (y, u)" by fastforce
  have m: "circuit (mux_bits ?d ?v r) (\<lambda>n x. lits_in n x \<and> length x = length r) (\<lambda>\<nu> x. vals \<nu> x = (if lit_true \<nu> ?d then vals \<nu> ?v else vals \<nu> r)) t"
    using t d o lits_mono [of ?v "num_vars (bl_solver b)" "num_vars t"] r(2) by (intro mux_bits_circuit) (auto simp: ext_def)
  let ?H = "\<lambda>q z. if rn_defs q ! x then rn_vals q ! x else z"
  have H: "?H (run_of \<nu> b) z = (if lit_true \<nu> ?d then vals \<nu> ?v else z)" for \<nu> z using assms(3,4) by (simp add: run_of_def)
  have c: "chooses b y u (\<lambda>q v. \<exists>z. length z = length ?v \<and> v = ?H q z)"
    using m H by (intro chooses_then [OF assms(5) r(3) _ y]) (auto intro: circuit_mono)
  have "encode g widths floats b i = Done (y, note_node g i y (b\<lparr>bl_solver := u\<rparr>))"
    using assms(1-4) r(1) y
    by (simp add: encode_def is_comparison_def encode_freeze_def child_bits_nth nth_or_panic_def exec_def note_plain)
  moreover have "length y = length ?v" using m y r(2) by (simp add: circuit_def)
  ultimately show ?thesis
    by (rule encodedI [OF _ _ c]) (use assms(1-4) in \<open>auto simp: node_value_def run_of_def Ex_list_of_length\<close>)
qed

lemma node_encoded:
  assumes "represents b R" "length (bl_defined b) = length (bl_bits b)" "node_width g widths floats (map length (bl_bits b)) i = Some w"
  shows "encoded g widths floats b i w"
proof -
  obtain k cs leaf where n: "get_node g i = Some k" "children g i = Some cs" "get_leaf_data g i = Some leaf" "\<forall>c \<in> set cs. c < length (bl_bits b)"
    using assms(3) by (auto simp: node_width_def not_le split: option.splits if_splits)
  have ws: "map (\<lambda>c. map length (bl_bits b) ! c) cs = map (\<lambda>c. length (bl_bits b ! c)) cs" using n(4) by simp
  have nl: "\<not> (\<exists>c \<in> set cs. length (map length (bl_bits b)) \<le> c)" using n(4) by (simp add: not_le)
  note w = assms(3) [unfolded node_width_def n(1-3) prod.case option.case if_not_P [OF nl] ws]
  consider "k = Symbol" | "k = StateBlock" | "k = Constant" | "k = StateRead" | "k = Freeze" | "plain_kind k"
    by (auto simp: plain_kind_def)
  then show ?thesis
  proof cases
    case 1
    then show ?thesis using symbol_encoded [OF _ n(3) _ assms(1)] n(1) w by simp
  next
    case 2
    then show ?thesis using block_encoded [OF _ assms(1)] n(1) w by simp
  next
    case 3
    then obtain v where "leaf = Some (IntP v)" "width_of widths i = Some w" using w by (auto split: option.splits SymPayload.splits)
    then show ?thesis using constant_encoded [OF _ _ _ assms(1)] n(1,3) 3 by simp
  next
    case 4
    then obtain x y z res fld where "cs = [x, y, z]" "const_of g y = Some res" "const_of g z = Some fld" "width_of widths i = Some w"
      using w by (auto simp: op_vector_width_def unary_width_def binary_width_def ternary_width_def is_comparison_def shift_kinds_def
        order_kinds_def split: list.splits option.splits if_splits)
    then show ?thesis using read_encoded [OF _ _ _ _ _ assms(1)] n(1,2) 4 by simp
  next
    case 5
    then obtain x where "cs = [x]" "w = length (bl_bits b ! x)"
      using w by (auto simp: op_vector_width_def unary_width_def binary_width_def ternary_width_def is_comparison_def shift_kinds_def
        order_kinds_def split: list.splits)
    then show ?thesis using freeze_encoded [OF _ _ _ assms(2,1)] n(1,2,4) 5 by simp
  next
    case 6
    then have "k \<noteq> Symbol" "k \<noteq> StateBlock" "k \<noteq> Constant" by (simp_all add: plain_kind_def)
    then have "op_vector_width g (is_float_comparison g floats i) k (width_of widths i) cs (map (\<lambda>c. length (bl_bits b ! c)) cs) = Some w" using w by simp
    then show ?thesis using plain_encoded [OF n(1,2,4) assms(1) 6] by blast
  qed
qed

subsection \<open>Definedness\<close>

text \<open>What typing says of the kinds whose definedness looks at more than the operands'.\<close>

lemma typed_kind:
  assumes "node_width g widths floats (map length (bl_bits b)) i = Some w"
  obtains k cs where "get_node g i = Some k" "children g i = Some cs" "\<forall>c \<in> set cs. c < length (bl_bits b)"
    "k = IfK \<longrightarrow> (\<exists>x y z. cs = [x, y, z] \<and> bl_bits b ! x \<noteq> [])" "k = Poison \<longrightarrow> (\<exists>x y. cs = [x, y] \<and> bl_bits b ! x \<noteq> [])"
    "k \<notin> {FPFlags, FPToSI, FPToSIRound, FPToUI, FPToUIRound}"
proof -
  obtain k cs leaf where n: "get_node g i = Some k" "children g i = Some cs" "get_leaf_data g i = Some leaf" "\<forall>c \<in> set cs. c < length (bl_bits b)"
    using assms by (auto simp: node_width_def not_le split: option.splits if_splits)
  have ws: "map (\<lambda>c. map length (bl_bits b) ! c) cs = map (\<lambda>c. length (bl_bits b ! c)) cs" using n(4) by simp
  have nl: "\<not> (\<exists>c \<in> set cs. length (map length (bl_bits b)) \<le> c)" using n(4) by (simp add: not_le)
  note w = assms [unfolded node_width_def n(1-3) prod.case option.case if_not_P [OF nl] ws]
  note defs = op_vector_width_def unary_width_def binary_width_def ternary_width_def is_comparison_def shift_kinds_def order_kinds_def
  have "\<exists>x y z. cs = [x, y, z] \<and> bl_bits b ! x \<noteq> []" if "k = IfK" using w that by (auto simp: defs split: list.splits if_splits)
  moreover have "\<exists>x y. cs = [x, y] \<and> bl_bits b ! x \<noteq> []" if "k = Poison" using w that by (auto simp: defs split: list.splits if_splits)
  moreover have "k \<notin> {FPFlags, FPToSI, FPToSIRound, FPToUI, FPToUIRound}" using w by (auto simp: defs split: list.splits)
  ultimately show ?thesis using that n by blast
qed

lemma exec_lit:
  assumes "circuit m lit_in (\<lambda>\<nu> y. lit_true \<nu> (bl_one c) \<longrightarrow> lit_true \<nu> y = P \<nu>) (bl_solver c)"
  obtains d u where "exec m c = Done (d, c\<lparr>bl_solver := u\<rparr>)" "ext (bl_solver c) u" "lit_in (num_vars u) d"
    "\<And>\<nu>. models \<nu> u \<Longrightarrow> lit_true \<nu> (bl_one c) \<Longrightarrow> lit_true \<nu> d = P \<nu>"
  using assms that by (cases "run_state m (bl_solver c)") (auto simp: exec_def circuit_def)

text \<open>The definedness of a node, encoded after its vector was pushed.\<close>

definition denotes :: "Blaster \<Rightarrow> ((nat \<Rightarrow> bool) \<Rightarrow> bool) \<Rightarrow> (Lit \<times> Blaster) outcome \<Rightarrow> bool" where
  "denotes c P res \<longleftrightarrow> (\<exists>d u. res = Done (d, c\<lparr>bl_solver := u\<rparr>) \<and> ext (bl_solver c) u \<and> lit_in (num_vars u) d \<and>
     (\<forall>\<nu>. models \<nu> u \<longrightarrow> lit_true \<nu> (bl_one c) \<longrightarrow> lit_true \<nu> d = P \<nu>))"

lemma denotes_exec: "circuit m lit_in (\<lambda>\<nu> y. lit_true \<nu> (bl_one c) \<longrightarrow> lit_true \<nu> y = P \<nu>) (bl_solver c) \<Longrightarrow> denotes c P (exec m c)"
  unfolding denotes_def by (erule exec_lit) blast

lemma denotes_bind:
  assumes "denotes c P res" "\<And>d e. root_inv (bl_solver e) \<Longrightarrow> lit_in (num_vars (bl_solver e)) d \<Longrightarrow> num_vars (bl_solver c) \<le> num_vars (bl_solver e) \<Longrightarrow>
      \<exists>u. e = c\<lparr>bl_solver := u\<rparr> \<Longrightarrow> denotes e (\<lambda>\<nu>. F \<nu> (lit_true \<nu> d)) (f (d, e))"
  shows "denotes c (\<lambda>\<nu>. F \<nu> (P \<nu>)) (and_then res f)"
proof -
  obtain d u where d: "res = Done (d, c\<lparr>bl_solver := u\<rparr>)" "ext (bl_solver c) u" "lit_in (num_vars u) d"
      "\<And>\<nu>. models \<nu> u \<Longrightarrow> lit_true \<nu> (bl_one c) \<Longrightarrow> lit_true \<nu> d = P \<nu>"
    using assms(1) by (auto simp: denotes_def)
  let ?e = "c\<lparr>bl_solver := u\<rparr>"
  have "denotes ?e (\<lambda>\<nu>. F \<nu> (lit_true \<nu> d)) (f (d, ?e))" by (rule assms(2)) (use d(2,3) in \<open>auto simp: ext_def\<close>)
  then obtain d' v where v: "f (d, ?e) = Done (d', ?e\<lparr>bl_solver := v\<rparr>)" "ext u v" "lit_in (num_vars v) d'"
      "\<And>\<nu>. models \<nu> v \<Longrightarrow> lit_true \<nu> (bl_one c) \<Longrightarrow> lit_true \<nu> d' = F \<nu> (lit_true \<nu> d)"
    by (auto simp: denotes_def)
  have "lit_true \<nu> d' = F \<nu> (P \<nu>)" if "models \<nu> v" "lit_true \<nu> (bl_one c)" for \<nu>
    using v(2) v(4) [of \<nu>] d(4) [of \<nu>] that by (simp add: ext_def)
  then show ?thesis unfolding denotes_def using d(1) v(1,3) ext_trans [OF d(2) v(2)]
    by (intro exI [of _ d'] exI [of _ v]) simp
qed

lemma denotes_Done: "root_inv (bl_solver c) \<Longrightarrow> lit_in (num_vars (bl_solver c)) d \<Longrightarrow> (\<And>\<nu>. lit_true \<nu> (bl_one c) \<Longrightarrow> lit_true \<nu> d = P \<nu>) \<Longrightarrow>
    denotes c P (Done (d, c))"
  unfolding denotes_def by (rule exI [of _ d], rule exI [of _ "bl_solver c"]) (simp add: ext_refl)

lemma node_denotes:
  assumes "node_width g widths floats (map length (bl_bits b)) i = Some w" "represents b R" "length (bl_defined b) = length (bl_bits b)"
    and "bl_bits c = bl_bits b @ [r]" "bl_defined c = bl_defined b" "bl_one c = bl_one b" "ext (bl_solver b) (bl_solver c)"
  shows "denotes c (\<lambda>\<nu>. node_defined g (run_of \<nu> b) i) (encode_defined g c i)"
proof -
  obtain k cs where n: "get_node g i = Some k" "children g i = Some cs" "\<forall>c \<in> set cs. c < length (bl_bits b)"
    and ty: "k = IfK \<longrightarrow> (\<exists>x y z. cs = [x, y, z] \<and> bl_bits b ! x \<noteq> [])" "k = Poison \<longrightarrow> (\<exists>x y. cs = [x, y] \<and> bl_bits b ! x \<noteq> [])"
      "k \<notin> {FPFlags, FPToSI, FPToSIRound, FPToUI, FPToUIRound}"
    by (rule typed_kind [OF assms(1)])
  let ?n = "num_vars (bl_solver c)"
  have s: "root_inv (bl_solver c)" "num_vars (bl_solver b) \<le> ?n" using assms(7) by (simp_all add: ext_def)
  have lo: "lits_ok ?n b" using assms(2) s(2) lits_ok_mono by (auto simp: represents_def)
  have one: "lit_in ?n (bl_one c)" using lo assms(6) by (simp add: lits_ok_def)
  have bits: "bl_bits c ! x = bl_bits b ! x" "x < length (bl_bits c)" "x < length (bl_defined c)" "\<And>m. ?n \<le> m \<Longrightarrow> lit_in m (bl_defined c ! x)"
      "rn_defs (run_of \<nu> b) ! x = lit_true \<nu> (bl_defined c ! x)" "rn_vals (run_of \<nu> b) ! x = vals \<nu> (bl_bits c ! x)" if "x \<in> set cs" for x \<nu>
    using that n(3) assms(3-5) lits_ok_mono [OF lo] by (auto simp: nth_append run_of_def lits_ok_def)
  have taken: "lit_in m (bl_bits c ! x ! 0)" "hd (rn_vals (run_of \<nu> b) ! x) = lit_true \<nu> (bl_bits c ! x ! 0)"
      "nth_or_panic (bl_bits c ! x) 0 = Done (bl_bits c ! x ! 0)" if "x \<in> set cs" "bl_bits b ! x \<noteq> []" "?n \<le> m" for x \<nu> m
  proof -
    have "bl_bits b ! x ! 0 \<in> set (bl_bits b ! x)" "bl_bits b ! x \<in> set (bl_bits b)" using that n(3) by auto
    then show "lit_in m (bl_bits c ! x ! 0)" using lits_ok_mono [OF lo that(3)] bits(1) [OF that(1)] unfolding lits_ok_def by auto
    show "hd (rn_vals (run_of \<nu> b) ! x) = lit_true \<nu> (bl_bits c ! x ! 0)" using bits(1,6) [OF that(1)] that(2) by (simp add: hd_map hd_conv_nth)
    show "nth_or_panic (bl_bits c ! x) 0 = Done (bl_bits c ! x ! 0)" using bits(1) [OF that(1)] that(2) by (simp add: nth_or_panic_def)
  qed
  have ch: "\<not> (\<exists>x \<in> set cs. length (bl_bits c) \<le> x \<or> length (bl_defined c) \<le> x)" using bits(2,3) by (auto simp: not_le)
  have all: "denotes c (\<lambda>\<nu>. \<forall>x \<in> set cs. rn_defs (run_of \<nu> b) ! x) (exec (and_from (bl_one c) (map (\<lambda>x. bl_defined c ! x) cs)) c)"
    by (rule denotes_exec, rule circuit_mono [OF and_from_circuit]) (use s one bits(4,5) in auto)
  note enc = encode_defined_def node_children_def n(1,2)
  note nd = node_defined_def n(1,2) Let_def
  consider "k = Freeze" | "k = IfK" | "k = Poison" | "k \<noteq> Freeze" "k \<noteq> IfK" "k \<noteq> Poison" by blast
  then show ?thesis
  proof cases
    case 1
    then show ?thesis using denotes_Done [OF s(1) one] by (simp add: enc nd)
  next
    case 2
    then obtain x y z where x: "cs = [x, y, z]" "bl_bits b ! x \<noteq> []" using ty(1) by blast
    have "denotes c (\<lambda>\<nu>. rn_defs (run_of \<nu> b) ! x \<and> (if hd (rn_vals (run_of \<nu> b) ! x) then rn_defs (run_of \<nu> b) ! y else rn_defs (run_of \<nu> b) ! z))
      (exec (select_defined (bl_bits c ! x ! 0) (bl_defined c ! x) (bl_defined c ! y) (bl_defined c ! z)) c)"
      unfolding select_defined_def
      by (rule denotes_exec, intro bind_gate circuit_mono [OF gate_and_circuit])
        (use s taken(1,2) [of x] bits(4,5) x in auto)
    moreover have "node_defined g (run_of \<nu> b) i \<longleftrightarrow> rn_defs (run_of \<nu> b) ! x \<and>
        (if hd (rn_vals (run_of \<nu> b) ! x) then rn_defs (run_of \<nu> b) ! y else rn_defs (run_of \<nu> b) ! z)" for \<nu>
      using 2 x(1) by (simp add: nd)
    ultimately show ?thesis using 2 ch x taken(3) [of x ?n] by (simp only:) (simp add: enc)
  next
    case 3
    then obtain x y where x: "cs = [x, y]" "bl_bits b ! x \<noteq> []" using ty(2) by blast
    let ?poison = "\<lambda>(d, e). and_then (nth_or_panic cs 0) (\<lambda>x. and_then (nth_or_panic (bl_bits e ! x) 0) (\<lambda>condition. exec (gate_and d (lit_negate condition)) e))"
    have "denotes c (\<lambda>\<nu>. (\<lambda>p. p \<and> \<not> hd (rn_vals (run_of \<nu> b) ! x)) (\<forall>x \<in> set cs. rn_defs (run_of \<nu> b) ! x))
      (and_then (exec (and_from (bl_one c) (map (\<lambda>x. bl_defined c ! x) cs)) c) ?poison)"
    proof (rule denotes_bind [OF all], goal_cases)
      case (1 d e)
      have e: "nth_or_panic cs 0 = Done x" "nth_or_panic (bl_bits e ! x) 0 = Done (bl_bits c ! x ! 0)"
        using 1(4) taken(3) [of x ?n] x by (auto simp: nth_or_panic_def)
      have t: "lit_in (num_vars (bl_solver e)) (lit_negate (bl_bits c ! x ! 0))" using taken(1) [of x "num_vars (bl_solver e)"] x 1(3) by simp
      show ?case unfolding e prod.case and_then.simps
        by (rule denotes_exec, rule circuit_mono [OF gate_and_circuit [OF 1(1,2) t]]) (use taken(2) [of x ?n] x in auto)
    qed
    then show ?thesis using 3 ch by (simp add: enc nd x(1))
  next
    case 4
    have "denotes c (\<lambda>\<nu>. \<forall>x \<in> set cs. rn_defs (run_of \<nu> b) ! x) (and_then (exec (and_from (bl_one c) (map (\<lambda>x. bl_defined c ! x) cs)) c) (\<lambda>(d, e). Done (d, e)))"
      unfolding exec_bind by (rule all)
    then show ?thesis using 4 ch ty(3) by (simp add: enc nd)
  qed
qed

subsection \<open>The loop over the nodes\<close>

lemma represents_new: "represents blaster_new {run_start}"
proof -
  let ?s = "snd (new_var solver_new)" and ?one = "lit_new 0 False"
  have v: "fst (new_var solver_new) = 0" "root_inv ?s" "num_vars ?s = 1" "models \<nu> ?s" for \<nu>
    using new_var_ok [OF root_inv_new] models_new by (simp_all add: num_vars_new)
  let ?t = "add_clause ?s [?one]"
  have one: "\<forall>l \<in> set [?one]. l < 2 * num_vars ?s" by (simp add: v lit_new_def)
  have t: "root_inv ?t" "num_vars ?t = 1" "models \<nu> ?t \<longleftrightarrow> \<nu> 0" for \<nu>
    using add_clause_ok [OF v(2) one, of \<nu>] v(3,4) by (auto simp: clause_true_def)
  have b: "blaster_new = \<lparr>bl_solver = ?t, bl_one = ?one, bl_bits = [], bl_defined = [], bl_sym_bits = Map.empty,
      bl_state_reads = Map.empty, bl_conversion_defined = Map.empty\<rparr>"
    using v(1) by (simp add: blaster_new_def case_prod_unfold Let_def)
  have "run_of \<nu> blaster_new = run_start" for \<nu> by (simp add: b run_of_def run_start_def comp_def)
  moreover have "lits_ok 1 blaster_new" by (simp add: b lits_ok_def lit_new_def)
  ultimately show ?thesis using t by (auto simp: represents_def b intro: exI [of _ "\<lambda>_. True"])
qed

lemma map_option_upd: "map_option f \<circ> m(k \<mapsto> v) = (map_option f \<circ> m)(k \<mapsto> f v)"
  by auto

lemma ran_upd: "x \<in> ran (m(k \<mapsto> v)) \<Longrightarrow> x = v \<or> x \<in> ran m"
  by (auto simp: ran_def split: if_splits)

text \<open>The blaster after a node, and the run it reads.\<close>

definition push_node :: "('v, 'f) formula \<Rightarrow> nat \<Rightarrow> Blaster \<Rightarrow> Lit list \<Rightarrow> Lit \<Rightarrow> Solver \<Rightarrow> Blaster" where
  "push_node g i b r d t = (note_node g i r b)\<lparr>bl_bits := bl_bits b @ [r], bl_defined := bl_defined b @ [d], bl_solver := t\<rparr>"

lemma note_solver: "note_node g i r (b\<lparr>bl_solver := t\<rparr>) = (note_node g i r b)\<lparr>bl_solver := t\<rparr>"
  by (simp add: note_node_def Let_def split: option.split SymPayload.split)

lemma note_fields: "bl_bits (note_node g i r b) = bl_bits b" "bl_defined (note_node g i r b) = bl_defined b" "bl_one (note_node g i r b) = bl_one b"
  by (simp_all add: note_node_def Let_def)

lemma run_of_push:
  "run_of \<nu> (push_node g i b r d t) = (record_node g i (run_of \<nu> b) (vals \<nu> r))\<lparr>rn_defs := rn_defs (run_of \<nu> b) @ [lit_true \<nu> d]\<rparr>"
  by (auto simp: push_node_def note_node_def record_node_def run_of_def Let_def map_option_upd split: option.splits SymPayload.splits)

lemma lits_ok_push:
  assumes "lits_ok n b" "n \<le> m" "lits_in m r" "lit_in m d"
  shows "lits_ok m (push_node g i b r d t)"
proof -
  have "x = r \<or> x \<in> ran (bl_sym_bits b)" if "x \<in> ran (bl_sym_bits (push_node g i b r d t))" for x
    using that by (auto simp: push_node_def note_node_def Let_def dest: ran_upd split: if_splits option.splits SymPayload.splits)
  moreover have "x = r \<or> x \<in> ran (bl_state_reads b)" if "x \<in> ran (bl_state_reads (push_node g i b r d t))" for x
    using that by (auto simp: push_node_def note_node_def Let_def dest: ran_upd split: if_splits)
  moreover have "bl_bits (push_node g i b r d t) = bl_bits b @ [r]" "bl_defined (push_node g i b r d t) = bl_defined b @ [d]"
      "bl_one (push_node g i b r d t) = bl_one b" by (simp_all add: push_node_def note_node_def Let_def)
  ultimately show ?thesis using lits_ok_mono [OF assms(1,2)] assms(3,4) unfolding lits_ok_def
    by (intro conjI) (simp_all, blast+)
qed

lemma blast_node_step:
  assumes "represents b R" "length (bl_defined b) = length (bl_bits b)" "node_width g widths floats (map length (bl_bits b)) i = Some w"
  shows "\<exists>c. blast_node g widths floats b i = Done c \<and> represents c {record_node g i q v | q v. q \<in> R \<and> node_value g widths floats q i v} \<and>
    map length (bl_bits c) = map length (bl_bits b) @ [w] \<and> length (bl_defined c) = length (bl_bits c)"
proof -
  obtain r t where r: "encode g widths floats b i = Done (r, note_node g i r (b\<lparr>bl_solver := t\<rparr>))" "length r = w"
      "chooses b r t (\<lambda>q v. node_value g widths floats q i v)"
    using node_encoded [OF assms] by (auto simp: encoded_def)
  define e where "e = (note_node g i r (b\<lparr>bl_solver := t\<rparr>))\<lparr>bl_bits := bl_bits b @ [r]\<rparr>"
  have e: "bl_bits e = bl_bits b @ [r]" "bl_defined e = bl_defined b" "bl_one e = bl_one b" "bl_solver e = t"
    by (simp_all add: e_def note_node_def Let_def)
  have x: "ext (bl_solver b) t" "lits_in (num_vars t) r" using r(3) by (simp_all add: chooses_def)
  obtain d u where d: "encode_defined g e i = Done (d, e\<lparr>bl_solver := u\<rparr>)" "ext t u" "lit_in (num_vars u) d"
      "\<And>\<nu>. models \<nu> u \<Longrightarrow> lit_true \<nu> (bl_one b) \<Longrightarrow> lit_true \<nu> d = node_defined g (run_of \<nu> b) i"
    using node_denotes [OF assms(3,1,2) e(1-3)] x(1) unfolding denotes_def e(3,4) by blast
  have one: "lit_true \<nu> (bl_one b)" if "models \<nu> u" for \<nu> using assms(1) x(1) d(2) that by (simp add: represents_def ext_def)
  let ?c = "push_node g i b r d u" and ?S = "\<lambda>q v. \<exists>y. node_value g widths floats q i y \<and> v = y @ [node_defined g q i]"
  let ?f = "\<lambda>q v. (record_node g i q (butlast v))\<lparr>rn_defs := rn_defs q @ [last v]\<rparr>"
  have "lits_in (num_vars u) r" using x(2) d(2) lits_mono by (auto simp: ext_def)
  then have lr: "lits_in (num_vars u) (r @ [d])" using d(3) by simp
  have "chooses b (r @ [d]) u ?S"
    by (rule chooses_then [OF assms(1) r(3), of "State (\<lambda>_. (r @ [d], u))"]) (use d(2,4) one lr in \<open>simp_all add: circuit_def\<close>)
  then have "represents ?c {?f q v | q v. q \<in> R \<and> ?S q v}"
  proof (rule represents_choice [OF assms(1)])
    show "run_of \<nu> ?c = ?f (run_of \<nu> b) (vals \<nu> (r @ [d]))" for \<nu> by (simp add: run_of_push)
    show "bl_solver ?c = u" "bl_one ?c = bl_one b" by (simp_all add: push_node_def note_node_def Let_def)
    show "lits_ok (num_vars u) ?c" using assms(1) x(1) d(2) lr by (intro lits_ok_push [where n = "num_vars (bl_solver b)"]) (auto simp: represents_def ext_def)
  qed
  moreover have "{?f q v | q v. q \<in> R \<and> ?S q v} = {record_node g i q v | q v. q \<in> R \<and> node_value g widths floats q i v}"
  proof -
    have "(record_node g i q y)\<lparr>rn_defs := rn_defs q @ [node_defined g q i]\<rparr> = record_node g i q y" for q y by (simp add: record_node_def Let_def)
    then have f: "?f q (y @ [node_defined g q i]) = record_node g i q y" for q y by simp
    show ?thesis
    proof (intro set_eqI iffI)
      fix p assume "p \<in> {?f q v | q v. q \<in> R \<and> ?S q v}"
      then obtain q y where "p = record_node g i q y" "q \<in> R" "node_value g widths floats q i y" using f by auto
      then show "p \<in> {record_node g i q v | q v. q \<in> R \<and> node_value g widths floats q i v}" by blast
    next
      fix p assume "p \<in> {record_node g i q v | q v. q \<in> R \<and> node_value g widths floats q i v}"
      then obtain q v where "p = ?f q (v @ [node_defined g q i])" "q \<in> R" "node_value g widths floats q i v" unfolding f by blast
      then show "p \<in> {?f q v | q v. q \<in> R \<and> ?S q v}" by blast
    qed
  qed
  moreover have "blast_node g widths floats b i = Done ?c"
    using d(1) by (simp add: blast_node_def r(1) Let_def e_def push_node_def note_solver note_fields)
  moreover have "map length (bl_bits ?c) = map length (bl_bits b) @ [w]" "length (bl_defined ?c) = length (bl_bits ?c)"
    using r(2) assms(2) by (simp_all add: push_node_def note_node_def Let_def)
  ultimately show ?thesis by auto
qed

lemma blast_nodes_represents:
  assumes "node_widths g widths floats n = Some ws"
  shows "\<exists>b. blast_nodes g widths floats n = Done b \<and> represents b {q. runs g widths floats n q} \<and>
    map length (bl_bits b) = ws \<and> length (bl_defined b) = length (bl_bits b)"
  using assms
proof (induction n arbitrary: ws)
  case 0
  have "bl_bits blaster_new = []" "bl_defined blaster_new = []" by (simp_all add: blaster_new_def case_prod_unfold Let_def)
  then show ?case using 0 represents_new by simp
next
  case (Suc n)
  obtain vs w where v: "node_widths g widths floats n = Some vs" "node_width g widths floats vs n = Some w" "ws = vs @ [w]"
    using Suc.prems by (auto split: option.splits)
  obtain b where b: "blast_nodes g widths floats n = Done b" "represents b {q. runs g widths floats n q}" "map length (bl_bits b) = vs"
      "length (bl_defined b) = length (bl_bits b)"
    using Suc.IH [OF v(1)] by blast
  have "{record_node g n q x | q x. q \<in> {q. runs g widths floats n q} \<and> node_value g widths floats q n x} = {q. runs g widths floats (Suc n) q}"
    by (auto simp: runs_Suc)
  then show ?case using blast_node_step [OF b(2,4), of g widths floats n w] v(2,3) b(1,3) by auto
qed

subsection \<open>Queries\<close>

lemma solve_loop_model: "solve_loop s c n l budget = Some (Sat m, t) \<Longrightarrow> m = sv_model t"
proof -
  have "\<forall>m. fst p = Sat m \<longrightarrow> m = sv_model (snd p)" if "solve_loop s c n l budget = Some p" for p
    using that
  proof (rule solve_loop.raw_induct [rotated], goal_cases)
    case (1 rec s c n l budget p)
    show ?case using 1(2)
      by (auto simp: Let_def bind_eq_Some_conv dest!: 1(1) split: option.splits prod.splits if_splits)
  qed
  then show "solve_loop s c n l budget = Some (Sat m, t) \<Longrightarrow> m = sv_model t" by fastforce
qed

lemma solve_model:
  assumes "root_inv s"
  shows "case solve s of
      Some (Sat m, t) \<Rightarrow> models (\<lambda>v. m ! v) s \<and> (\<forall>l. lit_in (num_vars s) l \<longrightarrow> lit_value t l = lit_true (\<lambda>v. m ! v) l)
    | Some (Unsat, t) \<Rightarrow> \<forall>\<nu>. \<not> models \<nu> s | _ \<Rightarrow> False"
proof -
  obtain r t where r: "solve s = Some (r, t)" "case r of Sat m \<Rightarrow> length m = num_vars s \<and> models (\<lambda>v. m ! v) s
     | Unsat \<Rightarrow> \<forall>\<nu>. \<not> models \<nu> s | Unknown \<Rightarrow> False"
    using solve_ok [OF assms, of None] unfolding solve_def by (metis (mono_tags, lifting) SatResult.exhaust SatResult.simps(10) SatResult.simps(8,9))
  have "lit_value t l = lit_true (\<lambda>v. m ! v) l" if rm: "r = Sat m" "lit_in (num_vars s) l" for m l
  proof -
    obtain k where "solve_loop s 0 0 k None = Some (Sat m, t)"
      using r(1) rm(1) by (auto simp: solve_def solve_with_budget_def bind_eq_Some_conv split: if_splits)
    then have m: "m = sv_model t" by (rule solve_loop_model)
    have "lit_var l < length m" using r(2) that lit_var_lt [of l "num_vars s"] by simp
    then show ?thesis by (simp add: lit_value_def lit_true_def m sv_model_def sv_value_def)
  qed
  then show ?thesis using r by (auto split: SatResult.splits)
qed

text \<open>What a run says of the formula: the nodes' values and definedness, the symbols and the root.\<close>

definition root_holds :: "Run \<Rightarrow> bool" where
  "root_holds q = hd (last (rn_vals q))"

definition blasted_run :: "(nat \<Rightarrow> bool) \<Rightarrow> Blasted \<Rightarrow> bool list list \<times> bool list \<times> (nat \<rightharpoonup> bool list) \<times> bool" where
  "blasted_run \<nu> bd = (map (vals \<nu>) (bd_node_bits bd), vals \<nu> (bd_node_defined bd), map_option (vals \<nu>) \<circ> bd_sym_bits bd, lit_true \<nu> (bd_root_bit bd))"

definition run_facts :: "Run \<Rightarrow> bool list list \<times> bool list \<times> (nat \<rightharpoonup> bool list) \<times> bool" where
  "run_facts q = (rn_vals q, rn_defs q, rn_syms q, root_holds q)"

lemma blast_ok:
  assumes "well_typed g widths floats"
  obtains bd where "blast_into g widths floats = Done bd" "root_inv (bd_solver bd)"
    "{blasted_run \<nu> bd | \<nu>. models \<nu> (bd_solver bd)} = run_facts ` {q. runs g widths floats (dag_len g) q}"
    "lit_in (num_vars (bd_solver bd)) (bd_root_bit bd)" "length (bd_node_defined bd) = dag_len g"
    "lits_in (num_vars (bd_solver bd)) (bd_node_defined bd)" "\<forall>x \<in> ran (bd_sym_bits bd). lits_in (num_vars (bd_solver bd)) x"
proof -
  obtain ws where ws: "node_widths g widths floats (dag_len g) = Some ws" "ws \<noteq> []" "0 < last ws"
    using assms by (auto simp: well_typed_def split: option.splits)
  obtain b where b: "blast_nodes g widths floats (dag_len g) = Done b" "represents b {q. runs g widths floats (dag_len g) q}"
      "map length (bl_bits b) = ws" "length (bl_defined b) = length (bl_bits b)"
    using blast_nodes_represents [OF ws(1)] by blast
  have "length ws = n" if "node_widths g widths floats n = Some ws" for n ws using that by (induction n arbitrary: ws) (auto split: option.splits)
  then have lw: "length ws = dag_len g" using ws(1) by blast
  have lb: "length (bl_bits b) = dag_len g" "bl_bits b \<noteq> []" using b(3) lw ws(2) by auto
  have dl: "length (dag_nodes g) = dag_len g" "0 < dag_len g" using lb by (auto simp: dag_len_def)
  have lst: "bl_bits b ! (dag_len g - 1) = last (bl_bits b)" using lb by (simp add: last_conv_nth)
  have ne: "last (bl_bits b) \<noteq> []" using ws(3) b(3) lb(2) last_map [of "bl_bits b" length] by auto
  define bd where "bd = \<lparr>bd_solver = bl_solver b, bd_root_bit = last (bl_bits b) ! 0, bd_sym_bits = bl_sym_bits b, bd_node_bits = bl_bits b, bd_node_defined = bl_defined b\<rparr>"
  have "blasted_run \<nu> bd = run_facts (run_of \<nu> b)" for \<nu>
    using lb(2) ne by (simp add: blasted_run_def run_facts_def root_holds_def run_of_def bd_def last_map hd_map hd_conv_nth)
  then have "{blasted_run \<nu> bd | \<nu>. models \<nu> (bd_solver bd)} = run_facts ` {run_of \<nu> b | \<nu>. models \<nu> (bl_solver b)}" by (auto simp: bd_def)
  also have "\<dots> = run_facts ` {q. runs g widths floats (dag_len g) q}" using b(2) by (simp add: represents_def)
  finally have R: "{blasted_run \<nu> bd | \<nu>. models \<nu> (bd_solver bd)} = run_facts ` {q. runs g widths floats (dag_len g) q}" .
  have e: "blast_into g widths floats = Done bd"
    using lb dl lst ne by (simp add: blast_into_def b(1) dag_root_def nth_or_panic_def bd_def)
  have lo: "lits_ok (num_vars (bd_solver bd)) b" "root_inv (bd_solver bd)" using b(2) by (simp_all add: represents_def bd_def)
  have "lit_in (num_vars (bd_solver bd)) (bd_root_bit bd)"
    using lo(1) last_in_set [OF lb(2)] nth_mem [of 0 "last (bl_bits b)"] ne by (auto simp: lits_ok_def bd_def)
  then show ?thesis using that [OF e lo(2) R] lo(1) b(4) lb(1) by (simp add: lits_ok_def bd_def)
qed

text \<open>A query: the formula with some more clauses, met by the runs that satisfy \<open>P\<close>.\<close>

lemma query_ok:
  assumes "{blasted_run \<nu> bd | \<nu>. models \<nu> (bd_solver bd)} = run_facts ` {q. runs g widths floats n q}"
    and "root_inv s" "num_vars s = num_vars (bd_solver bd)" "\<And>\<nu>. models \<nu> s \<longleftrightarrow> models \<nu> (bd_solver bd) \<and> P (blasted_run \<nu> bd)"
    and "\<forall>x \<in> ran (bd_sym_bits bd). lits_in (num_vars (bd_solver bd)) x"
  shows "case finish_solve (bd\<lparr>bd_solver := s\<rparr>) of
      Some (SatModel m) \<Rightarrow> \<exists>q. runs g widths floats n q \<and> P (run_facts q) \<and> rn_syms q = m
    | Some UnsatFormula \<Rightarrow> \<forall>q. runs g widths floats n q \<longrightarrow> \<not> P (run_facts q)
    | _ \<Rightarrow> False"
proof -
  note sm = solve_model [OF assms(2)]
  consider m t where "solve s = Some (Sat m, t)" "models (\<lambda>v. m ! v) s" "\<forall>l. lit_in (num_vars s) l \<longrightarrow> lit_value t l = lit_true (\<lambda>v. m ! v) l"
    | t where "solve s = Some (Unsat, t)" "\<forall>\<nu>. \<not> models \<nu> s"
    using sm by (auto split: option.splits prod.splits SatResult.splits)
  then show ?thesis
  proof cases
    case (1 m t)
    let ?\<nu> = "\<lambda>v. m ! v"
    have "blasted_run ?\<nu> bd \<in> run_facts ` {q. runs g widths floats n q}" unfolding assms(1) [symmetric] using 1(2) assms(4) by blast
    then obtain q where q: "runs g widths floats n q" "blasted_run ?\<nu> bd = run_facts q" by blast
    have "map_option (map (lit_value t)) (bd_sym_bits bd sid) = map_option (vals ?\<nu>) (bd_sym_bits bd sid)" for sid
      using 1(3) assms(3) bspec [OF assms(5) ranI [of "bd_sym_bits bd" sid]] by (cases "bd_sym_bits bd sid") simp_all
    then have "(\<lambda>sid. map_option (map (lit_value t)) (bd_sym_bits bd sid)) = rn_syms q"
      using q(2) by (auto simp: blasted_run_def run_facts_def comp_def)
    then show ?thesis using 1(1,2) assms(4) q by (auto simp: finish_solve_def)
  next
    case (2 t)
    have "\<not> P (run_facts q)" if "runs g widths floats n q" for q
    proof -
      have "run_facts q \<in> {blasted_run \<nu> bd | \<nu>. models \<nu> (bd_solver bd)}" unfolding assms(1) using that by blast
      then show ?thesis using 2(2) assms(4) by auto
    qed
    then show ?thesis using 2(1) by (simp add: finish_solve_def)
  qed
qed

section \<open>Properties\<close>

text \<open>The disequality of \<open>x + y\<close> and \<open>y + x\<close> at eight bits.\<close>

definition sums :: "(unit, unit) formula" where
  "sums = \<lparr>dag_nodes = [Symbol, Symbol, Add, Add, Ne], dag_edge_bounds = [0, 0, 0, 2, 4, 6], dag_edges = [0, 1, 1, 0, 2, 3],
     dag_leaf_slots = [Some 0, Some 1, None, None, None], dag_leaves = [SymbolId 0, SymbolId 1],
     dag_annotation_slots = [None, None, None, None, None], dag_annotations = []\<rparr>"

definition sums_widths :: "nat option list" where
  "sums_widths = [Some 8, Some 8, None, None, None]"

lemma sums_nodes:
  "get_node sums 0 = Some Symbol" "get_node sums (Suc 0) = Some Symbol" "get_node sums 2 = Some Add" "get_node sums 3 = Some Add" "get_node sums 4 = Some Ne"
  "children sums 0 = Some []" "children sums (Suc 0) = Some []" "children sums 2 = Some [0, 1]" "children sums 3 = Some [1, 0]" "children sums 4 = Some [2, 3]"
  "get_leaf_data sums 0 = Some (Some (SymbolId 0))" "get_leaf_data sums (Suc 0) = Some (Some (SymbolId 1))" "get_leaf_data sums 2 = Some None"
  "get_leaf_data sums 3 = Some None" "get_leaf_data sums 4 = Some None" "dag_len sums = 5"
  by (simp_all add: sums_def get_node_def children_def edge_range_def get_leaf_data_def get_slot_def dag_len_def numeral_eq_Suc)

lemma sums_typed: "well_typed sums sums_widths []"
proof -
  note d = node_width_def sums_nodes op_vector_width_def binary_width_def is_comparison_def is_float_comparison_def width_of_def sums_widths_def
  have "node_width sums sums_widths [] [] 0 = Some 8" "node_width sums sums_widths [] [8] 1 = Some 8" "node_width sums sums_widths [] [8, 8] 2 = Some 8"
    "node_width sums sums_widths [] [8, 8, 8] 3 = Some 8" "node_width sums sums_widths [] [8, 8, 8, 8] 4 = Some 1"
    by (simp_all add: d shift_kinds_def order_kinds_def)
  then have "node_widths sums sums_widths [] (Suc (Suc (Suc (Suc (Suc 0))))) = Some [8, 8, 8, 8, 1]" by (simp add: numeral_eq_Suc)
  then show ?thesis unfolding well_typed_def sums_nodes by (simp add: numeral_eq_Suc)
qed

text \<open>In every run the sums agree.\<close>

lemma sums_root: "runs sums sums_widths [] 5 q \<Longrightarrow> \<not> root_holds q"
proof -
  have n: "(5 :: nat) = Suc 4" "(4 :: nat) = Suc 3" "(3 :: nat) = Suc 2" "(2 :: nat) = Suc (Suc 0)" by simp_all
  assume "runs sums sums_widths [] 5 q"
  then obtain q4 e where q4: "q = record_node sums 4 q4 e" "runs sums sums_widths [] 4 q4" "node_value sums sums_widths [] q4 4 e"
    unfolding n(1) runs_Suc by blast
  obtain q3 d where q3: "q4 = record_node sums 3 q3 d" "runs sums sums_widths [] 3 q3" "node_value sums sums_widths [] q3 3 d"
    using q4(2) unfolding n(2) runs_Suc by blast
  obtain q2 c where q2: "q3 = record_node sums 2 q2 c" "runs sums sums_widths [] 2 q2" "node_value sums sums_widths [] q2 2 c"
    using q3(2) unfolding n(3) runs_Suc by blast
  obtain a b where ab: "rn_vals q2 = [a, b]" "length a = 8" "length b = 8"
    using q2(2) unfolding n(4) by (auto simp: runs_Suc record_node_def node_value_def sums_nodes run_start_def width_of_def sums_widths_def)
  note d = node_value_def record_node_def sums_nodes op_value_def binary_value_def is_comparison_def is_float_comparison_def shift_kinds_def order_kinds_def Let_def
  have c: "c = bits_of 8 (nat_of_bits a + nat_of_bits b)" using q2(3) ab by (simp add: d)
  have v3: "rn_vals q3 = [a, b, c]" using q2(1) ab by (simp add: record_node_def Let_def)
  have "d = c" using q3(3) ab v3 c by (simp add: d add.commute)
  moreover have v4: "rn_vals q4 = [a, b, c, d]" using q3(1) v3 by (simp add: record_node_def Let_def)
  ultimately have "e = [False]" using q4(3) by (simp add: d)
  then show ?thesis using q4(1) by (simp add: root_holds_def record_node_def Let_def)
qed







end
