(* ===== verification/BlastEval.thy ===== *)
theory BlastEval
  imports BitblastCorrect SymLang
begin

text \<open>
  The two ways the symbolic library computes on bit vectors: the circuits of \<open>bitblast\<close>, by their
  reference semantics, and the constant evaluator \<open>eval_int\<close> of \<open>lang/ops.rs\<close>. They agree wherever the
  evaluator returns a value. The circuit of the integer-to-float conversion is stated here too.
\<close>

lemma signed_at_val: "0 < w \<Longrightarrow> x < 2 ^ w \<Longrightarrow> signed_at w (int x) = signed_val w x"
proof -
  assume "0 < w" "x < 2 ^ w"
  then obtain v where w: "w = Suc v" "x < 2 * 2 ^ v" by (cases w) auto
  have "bit x v \<longleftrightarrow> 2 ^ v \<le> x"
  proof -
    have "x div 2 ^ v < 2" using w(2) by (simp add: less_mult_imp_div_less)
    then have "odd (x div 2 ^ v) \<longleftrightarrow> x div 2 ^ v \<noteq> 0" by (auto simp: less_2_cases_iff)
    then show ?thesis by (simp add: bit_iff_odd div_eq_0_iff not_less)
  qed
  moreover have "(2 :: int) ^ v \<le> int x \<longleftrightarrow> 2 ^ v \<le> x" by (metis of_nat_le_iff of_nat_numeral of_nat_power)
  ultimately show ?thesis by (simp add: signed_at_def signed_val_def w(1))
qed

lemma smt_mag_abs: "0 < w \<Longrightarrow> x < 2 ^ w \<Longrightarrow> int (smt_mag w x) = \<bar>signed_val w x\<bar>"
proof -
  assume w: "0 < w" "x < 2 ^ w"
  have "0 < x" if "bit x (w - 1)" using that by (cases x) auto
  then have "bit x (w - 1) \<Longrightarrow> smt_neg w x = 2 ^ w - x" by (simp add: smt_neg_def)
  moreover have "int x < 2 ^ w" using w(2) by (metis of_nat_less_iff of_nat_numeral of_nat_power)
  ultimately show ?thesis using w(2) by (auto simp: smt_mag_def signed_val_def of_nat_diff)
qed

lemma smt_neg_int: "x \<le> 2 ^ w \<Longrightarrow> int (smt_neg w x) = (- int x) mod 2 ^ w"
proof -
  assume "x \<le> 2 ^ w"
  then have "int (smt_neg w x) = (2 ^ w - int x) mod 2 ^ w" by (simp add: smt_neg_def zmod_int of_nat_diff)
  also have "\<dots> = (- int x) mod 2 ^ w" by (metis minus_mod_self1 uminus_add_conv_diff diff_conv_add_uminus mod_add_self1)
  finally show ?thesis .
qed

text \<open>SMT-LIB's signed division on bit vectors is division truncating toward zero.\<close>

lemma smt_udiv_le: "0 < d \<Longrightarrow> smt_udiv w x d = x div d"
  by (simp add: smt_udiv_def)

lemma signed_val_0: "0 < w \<Longrightarrow> x < 2 ^ w \<Longrightarrow> signed_val w x = 0 \<longleftrightarrow> x = 0"
proof -
  assume "0 < w" "x < 2 ^ w"
  moreover from this have "int x < 2 ^ w" by (metis of_nat_less_iff of_nat_numeral of_nat_power)
  moreover have "x \<noteq> 0" if "bit x (w - 1)" using that by (cases x) auto
  ultimately show ?thesis by (auto simp: signed_val_def)
qed

lemma smt_mag_le: "0 < w \<Longrightarrow> x < 2 ^ w \<Longrightarrow> smt_mag w x < 2 ^ w"
  by (auto simp: smt_mag_def smt_neg_def)

lemma signed_val_sign: "0 < w \<Longrightarrow> x < 2 ^ w \<Longrightarrow> bit x (w - 1) \<longleftrightarrow> signed_val w x < 0"
proof -
  assume "0 < w" "x < 2 ^ w"
  moreover from this have "int x < 2 ^ w" by (metis of_nat_less_iff of_nat_numeral of_nat_power)
  ultimately show ?thesis by (auto simp: signed_val_def)
qed

lemma smt_division:
  assumes "0 < w" "x < 2 ^ w" "y < 2 ^ w" "y \<noteq> 0"
  shows "int (smt_sdiv w x y) = (signed_val w x sdiv signed_val w y) mod 2 ^ w"
    "int (smt_srem w x y) = (signed_val w x smod signed_val w y) mod 2 ^ w"
proof -
  let ?x = "signed_val w x" and ?y = "signed_val w y"
  have m: "int (smt_mag w x) = \<bar>?x\<bar>" "int (smt_mag w y) = \<bar>?y\<bar>" "smt_mag w x < 2 ^ w"
    using smt_mag_abs assms smt_mag_le by simp_all
  have m0: "0 < smt_mag w y" using m(2) signed_val_0 [OF assms(1,3)] assms(4) by (cases "smt_mag w y") auto
  have s: "bit x (w - 1) \<longleftrightarrow> ?x < 0" "bit y (w - 1) \<longleftrightarrow> ?y < 0" using signed_val_sign assms by simp_all
  have q: "int (smt_mag w x div smt_mag w y) = \<bar>?x\<bar> div \<bar>?y\<bar>" "int (smt_mag w x mod smt_mag w y) = \<bar>?x\<bar> mod \<bar>?y\<bar>"
    by (simp_all add: zdiv_int zmod_int m)
  have le: "smt_mag w x div smt_mag w y < 2 ^ w" "smt_mag w x mod smt_mag w y < 2 ^ w"
    using m(3) by (meson div_le_dividend le_less_trans, meson mod_less_eq_dividend le_less_trans)
  have small: "int a mod 2 ^ w = int a" if "a < 2 ^ w" for a using that by (metis mod_less of_nat_mod of_nat_numeral of_nat_power)
  show "int (smt_sdiv w x y) = (?x sdiv ?y) mod 2 ^ w"
    using s q(1) le(1) small [OF le(1)] smt_neg_int [of "smt_mag w x div smt_mag w y" w] signed_val_0 [OF assms(1,3)] assms(4)
    by (cases "?x = 0") (auto simp: smt_sdiv_def Let_def smt_udiv_le [OF m0] signed_divide_int_def sgn_if)
  show "int (smt_srem w x y) = (?x smod ?y) mod 2 ^ w"
    using s q(2) le(2) small [OF le(2)] smt_neg_int [of "smt_mag w x mod smt_mag w y" w]
    by (auto simp: smt_srem_def Let_def signed_modulo_int_def sgn_if)
qed

subsection \<open>Circuits and evaluation\<close>

lemma bits_of_mod: "bits_of w (n mod 2 ^ w) = bits_of w n"
  by (rule bits_of_eqI [symmetric]) simp_all

lemma bits_of_cong: "int n mod 2 ^ w = i mod 2 ^ w \<Longrightarrow> bits_of w n = bits_of w (nat (i mod 2 ^ w))"
proof -
  assume "int n mod 2 ^ w = i mod 2 ^ w"
  then have "nat (i mod 2 ^ w) = n mod 2 ^ w" by (metis nat_int of_nat_mod of_nat_numeral of_nat_power)
  then show ?thesis by (simp add: bits_of_mod)
qed

lemma bits_of_test: "bits_of (Suc 0) (Suc 0) = [True]" "bits_of (Suc 0) 0 = [False]"
  by (simp_all add: bits_of_def bit_iff_odd)

definition agrees :: "SymKind \<Rightarrow> EvalRule \<Rightarrow> nat \<Rightarrow> nat \<Rightarrow> nat \<Rightarrow> bool" where
  "agrees k rule w x y \<longleftrightarrow> (\<forall>i. rule_value rule w (int x) (int y) = Some i \<longrightarrow>
     (let n = if is_test rule then 1 else w in binary_value k False (bits_of w x) (bits_of w y) = bits_of n (nat (i mod 2 ^ n))))"

lemma agreesI:
  "binary_value k False (bits_of w x) (bits_of w y) = bits_of w n \<Longrightarrow> \<not> is_test rule \<Longrightarrow>
    (\<And>i. rule_value rule w (int x) (int y) = Some i \<Longrightarrow> int n mod 2 ^ w = i mod 2 ^ w) \<Longrightarrow> agrees k rule w x y"
  "binary_value k False (bits_of w x) (bits_of w y) = [c] \<Longrightarrow> is_test rule \<Longrightarrow> rule_value rule w (int x) (int y) = Some (of_bool c) \<Longrightarrow>
    agrees k rule w x y"
  by (auto simp: agrees_def Let_def bits_of_test intro: bits_of_cong)

lemmas binary_kinds = binary_value_def Let_def is_comparison_def shift_kinds_def order_kinds_def

lemma agrees_arith:
  assumes "0 < w" "x < 2 ^ w" "y < 2 ^ w"
  shows "agrees Add EAdd w x y" "agrees Sub ESub w x y" "agrees Mul EMul w x y" "agrees And EAnd w x y" "agrees Or EOr w x y" "agrees Xor EXor w x y"
    "agrees UDiv EUDiv w x y" "agrees URem EURem w x y" "agrees Div ESDiv w x y" "agrees SRem ESRem w x y"
proof -
  have n: "x mod 2 ^ w = x" "y mod 2 ^ w = y" using assms by simp_all
  note s = rule_value_simps is_test_def binary_kinds n signed_at_val [OF assms(1,2)] signed_at_val [OF assms(1,3)]
  show "agrees Add EAdd w x y" "agrees Mul EMul w x y" by (rule agreesI(1), simp add: s, simp add: s, simp add: s)+
  show "agrees And EAnd w x y" "agrees Or EOr w x y" "agrees Xor EXor w x y"
    by (rule agreesI(1), simp add: s, simp add: s, simp add: s of_nat_and_eq of_nat_or_eq of_nat_xor_eq)+
  show "agrees Sub ESub w x y"
    by (rule agreesI(1), simp add: s, simp add: s) (use assms(3) in \<open>auto simp: s of_nat_diff diff_add_eq [symmetric]\<close>)
  show "agrees UDiv EUDiv w x y" "agrees URem EURem w x y"
    by (rule agreesI(1), simp add: s, simp add: s, auto simp: s smt_udiv_def zdiv_int zmod_int split: if_splits)+
  show "agrees Div ESDiv w x y" "agrees SRem ESRem w x y"
    by (rule agreesI(1), simp add: s, simp add: s, auto simp: s smt_division [OF assms] split: if_splits)+
qed

lemma agrees_tests:
  assumes "0 < w" "x < 2 ^ w" "y < 2 ^ w"
  shows "agrees Eq EEq w x y" "agrees Ne ENe w x y" "agrees Lt ESLt w x y" "agrees Le ESLe w x y" "agrees Gt ESGt w x y" "agrees Ge ESGe w x y"
    "agrees ULt EULt w x y" "agrees ULe EULe w x y" "agrees UGt EUGt w x y" "agrees UGe EUGe w x y"
proof -
  have n: "x mod 2 ^ w = x" "y mod 2 ^ w = y" using assms by simp_all
  note s = rule_value_simps is_test_def binary_kinds n signed_at_val [OF assms(1,2)] signed_at_val [OF assms(1,3)] compare_spec_def
  show "agrees Eq EEq w x y" "agrees Ne ENe w x y" "agrees Lt ESLt w x y" "agrees Le ESLe w x y" "agrees Gt ESGt w x y" "agrees Ge ESGe w x y"
    "agrees ULt EULt w x y" "agrees ULe EULe w x y" "agrees UGt EUGt w x y" "agrees UGe EUGe w x y"
    by (rule agreesI(2), (simp add: s; fail), simp add: s, simp add: s)+
qed

lemma agrees_shifts:
  assumes "0 < w" "x < 2 ^ w" "y < 2 ^ w"
  shows "agrees ShiftLeft EShl w x y" "agrees ShiftRightLogic ELShr w x y" "agrees ShiftRightArithmetic EAShr w x y"
proof -
  have n: "x mod 2 ^ w = x" "y mod 2 ^ w = y" using assms by simp_all
  note s = rule_value_simps is_test_def binary_kinds shift_value_def n signed_at_val [OF assms(1,2)]
  show "agrees ShiftLeft EShl w x y" "agrees ShiftRightLogic ELShr w x y" "agrees ShiftRightArithmetic EAShr w x y"
    by (rule agreesI(1), simp add: s, simp add: s, auto simp: s zdiv_int)+
qed

lemma agrees_rows:
  assumes "p \<in> set SCALAR_OPS" "op_arity p = 2" "op_kind p \<notin> {Xnor, Concat}" "0 < w" "x < 2 ^ w" "y < 2 ^ w"
  shows "agrees (op_kind p) (op_eval p) w x y"
  using assms(1-3) unfolding SCALAR_OPS_def set_simps
  by (elim insertE emptyE; hypsubst)
    (simp_all add: op_def agrees_arith [OF assms(4-6)] agrees_tests [OF assms(4-6)] agrees_shifts [OF assms(4-6)])

lemma stages_from_le: "w \<le> 2 ^ k \<Longrightarrow> j \<le> k \<Longrightarrow> stages_from w j \<le> k"
proof (induction "k - j" arbitrary: j)
  case 0
  then show ?case by (subst stages_from.simps) simp
next
  case (Suc d)
  then show ?case by (subst stages_from.simps) simp
qed

lemma row_widths:
  assumes "p \<in> set SCALAR_OPS" "op_arity p = 2" "op_kind p \<notin> {Xnor, Concat}" "0 < w"
  shows "binary_width (op_kind p) False w w = Some (if is_test (op_eval p) then 1 else w)"
proof -
  have "w \<le> 2 ^ w" using less_exp [of w] by (simp add: less_imp_le)
  then have "stages_from w 0 \<le> w" by (rule stages_from_le) simp
  then show ?thesis using assms unfolding SCALAR_OPS_def set_simps
    by (elim insertE emptyE; hypsubst)
      (simp_all add: op_def binary_width_def is_test_def is_comparison_def shift_kinds_def order_kinds_def)
qed



text \<open>C36: the circuit of the integer-to-float conversion, where the exponent range holds the operand's
  magnitude, extends the formula conservatively and its vector is, in every model, the finite float of the operand
  rounded to nearest with ties to even, with the operand's sign.\<close>

theorem int_to_float_rounds:
  assumes "root_inv s" "lits_in (num_vars s) v" "lit_in (num_vars s) one" "sg \<longrightarrow> v \<noteq> []" "2 \<le> e" "e \<le> 64"
    and "conversion_width (length v) m + (2 ^ (e - 1) - 1) < 2 ^ e - 1"
  shows "\<exists>r t. run_state (int_to_float one v sg e m) s = (Some r, t) \<and> ext s t \<and> length r = m + e + 1 \<and>
    (\<forall>\<nu>. models \<nu> t \<longrightarrow> lit_true \<nu> one \<longrightarrow>
      fp_scaled e m (num \<nu> r) = (if sg \<and> bit (num \<nu> v) (length v - 1) then - 1 else 1) *
        int (round_even m (if sg then smt_mag (length v) (num \<nu> v) else num \<nu> v) * 2 ^ (2 ^ (e - 1) - 1 + m - 1)) \<and>
      fp_exponent e m (num \<nu> r) < 2 ^ e - 1)"
  using int_to_float_circuit [OF assms]
  by (cases "run_state (int_to_float one v sg e m) s") (auto simp: circuit_def converted_def)

theorem int_to_float_rounds_witness:
  "\<exists>r t. run_state (int_to_float (bl_one blaster_new) (replicate 8 (bl_one blaster_new)) True 8 23) (bl_solver blaster_new) = (Some r, t) \<and>
    length r = 32 \<and> (\<forall>\<nu>. models \<nu> t \<longrightarrow> lit_true \<nu> (bl_one blaster_new) \<longrightarrow> fp_scaled 8 23 (num \<nu> r) = - (2 ^ 149))"
proof -
  have l: "root_inv (bl_solver blaster_new)" "lit_in (num_vars (bl_solver blaster_new)) (bl_one blaster_new)"
    using represents_new by (simp_all add: represents_def lits_ok_def)
  have c: "conversion_width 8 23 = 32" by (simp add: conversion_width_def pow2_from.simps)
  have v: "num \<nu> (replicate 8 one) = 255" if "lit_true \<nu> one" for \<nu> one using that nat_of_bits_ones [of 8] by (simp add: map_replicate_const)
  have b: "bit (255 :: nat) 7" "smt_mag 8 255 = 1" "round_even 23 1 = 1"
    by (simp_all add: bit_iff_odd smt_mag_def smt_neg_def round_even_def bit_length.simps Let_def)
  let ?one = "bl_one blaster_new"
  obtain r t where r: "run_state (int_to_float ?one (replicate 8 ?one) True 8 23) (bl_solver blaster_new) = (Some r, t)" "length r = 23 + 8 + 1"
      "\<forall>\<nu>. models \<nu> t \<longrightarrow> lit_true \<nu> ?one \<longrightarrow>
      fp_scaled 8 23 (num \<nu> r) = (if True \<and> bit (num \<nu> (replicate 8 ?one)) (length (replicate 8 ?one) - 1) then - 1 else 1) *
        int (round_even 23 (if True then smt_mag (length (replicate 8 ?one)) (num \<nu> (replicate 8 ?one)) else num \<nu> (replicate 8 ?one)) * 2 ^ (2 ^ (8 - 1) - 1 + 23 - 1))"
    using int_to_float_rounds [OF l(1) _ l(2), of "replicate 8 ?one" True 8 23] l(2) c by auto
  have "fp_scaled 8 23 (num \<nu> r) = - (2 ^ 149)" if "models \<nu> t" "lit_true \<nu> ?one" for \<nu>
    using r(3) [rule_format, OF that] unfolding v [OF that(2)] length_replicate
    using b by (simp add: bit_iff_odd)
  then show ?thesis using r(1,2) by auto
qed

end
