(* ===== verification/UnionFind.thy ===== *)
theory UnionFind
  imports Prelude
begin

text \<open>
  The union-find with offsets of \<open>libs/relational/src/unionfind.rs\<close>, which partitions the ids of a
  database into sets and places every id at a constant offset from its set's representative, modulo
  the width of the set's carrier. Ids (\<open>u32\<close>) are natural numbers, of which a structure holds fewer than
  \<open>2 ^ 32\<close>; offsets are 64-bit words. An index out of range is the result \<open>None\<close>; the loops that
  follow parents are partial functions, shown to return on every reachable structure.
\<close>

subsection \<open>State\<close>

record Ref =
  ref_id :: nat
  ref_offset :: u64

datatype Merge = Same | Merged (mg_survivor: nat) (mg_absorbed: nat) | Contradiction

record UnionFind =
  uf_parent :: "nat list"
  uf_delta :: "u64 list"
  uf_mask :: "u64 list"
  uf_pinned :: "bool list"
  uf_conflict :: "bool list"
  uf_shifted :: bool
  uf_flat_below :: nat

definition u32_max :: nat where
  "u32_max = 2 ^ 32 - 1"

text \<open>The mask of a carrier of \<open>width\<close> bits.\<close>

definition carrier_mask :: "nat \<Rightarrow> u64" where
  "carrier_mask width = (if width = 0 then 0 else drop_bit (64 - min width 64) (- 1))"

definition uf_new :: UnionFind where
  "uf_new = \<lparr>uf_parent = [], uf_delta = [], uf_mask = [], uf_pinned = [], uf_conflict = [], uf_shifted = False,
     uf_flat_below = u32_max\<rparr>"

definition uf_clear :: "UnionFind \<Rightarrow> UnionFind" where
  "uf_clear uf = uf\<lparr>uf_parent := [], uf_delta := [], uf_mask := [], uf_pinned := [], uf_conflict := [], uf_shifted := False,
     uf_flat_below := u32_max\<rparr>"

definition uf_push :: "UnionFind \<Rightarrow> u64 \<Rightarrow> bool \<Rightarrow> nat \<times> UnionFind" where
  "uf_push uf msk pinned =
     (let id = length (uf_parent uf)
      in (id, uf\<lparr>uf_parent := uf_parent uf @ [id], uf_delta := uf_delta uf @ [0], uf_mask := uf_mask uf @ [msk],
            uf_pinned := uf_pinned uf @ [pinned], uf_conflict := uf_conflict uf @ [False]\<rparr>))"

definition uf_len :: "UnionFind \<Rightarrow> nat" where
  "uf_len uf = length (uf_parent uf)"

definition uf_is_empty :: "UnionFind \<Rightarrow> bool" where
  "uf_is_empty uf = (uf_parent uf = [])"

definition uf_extend_to :: "UnionFind \<Rightarrow> nat \<Rightarrow> UnionFind" where
  "uf_extend_to uf len =
     uf\<lparr>uf_parent := uf_parent uf @ [length (uf_parent uf)..<len], uf_delta := resize (uf_delta uf) len 0,
        uf_mask := resize (uf_mask uf) len 0, uf_pinned := resize (uf_pinned uf) len False,
        uf_conflict := resize (uf_conflict uf) len False\<rparr>"

subsection \<open>Finding\<close>

partial_function (option) uf_root :: "UnionFind \<Rightarrow> nat \<Rightarrow> nat option" where
  [code]: "uf_root uf cur =
     (if \<not> cur < length (uf_parent uf) then None
      else if uf_parent uf ! cur \<noteq> cur then uf_root uf (uf_parent uf ! cur)
      else Some cur)"

partial_function (option) find_loop :: "UnionFind \<Rightarrow> nat \<Rightarrow> u64 \<Rightarrow> Ref option" where
  [code]: "find_loop uf cur offset =
     (if \<not> cur < length (uf_parent uf) then None
      else if uf_parent uf ! cur \<noteq> cur then
        (if cur < length (uf_delta uf) then find_loop uf (uf_parent uf ! cur) (offset + uf_delta uf ! cur) else None)
      else if cur < length (uf_mask uf) then Some \<lparr>ref_id = cur, ref_offset = offset AND uf_mask uf ! cur\<rparr>
      else None)"

definition uf_find :: "UnionFind \<Rightarrow> Ref \<Rightarrow> Ref option" where
  "uf_find uf r =
     (if \<not> uf_shifted uf \<and> ref_offset r = 0
      then map_option (\<lambda>id. \<lparr>ref_id = id, ref_offset = 0\<rparr>) (uf_root uf (ref_id r))
      else find_loop uf (ref_id r) (ref_offset r))"

definition uf_mask_at :: "UnionFind \<Rightarrow> nat \<Rightarrow> u64 option" where
  "uf_mask_at uf i = Option.bind (uf_root uf i) (nth_opt (uf_mask uf))"

definition uf_is_zero :: "UnionFind \<Rightarrow> nat \<Rightarrow> bool option" where
  "uf_is_zero uf i = Option.bind (uf_root uf i) (nth_opt (uf_pinned uf))"

definition uf_pinned_at :: "UnionFind \<Rightarrow> nat \<Rightarrow> bool option" where
  "uf_pinned_at uf i = nth_opt (uf_pinned uf) i"

definition uf_is_conflicted :: "UnionFind \<Rightarrow> nat \<Rightarrow> bool option" where
  "uf_is_conflicted uf i = Option.bind (uf_root uf i) (nth_opt (uf_conflict uf))"

definition uf_parents :: "UnionFind \<Rightarrow> nat list" where
  "uf_parents uf = uf_parent uf"

definition uf_deltas :: "UnionFind \<Rightarrow> u64 list option" where
  "uf_deltas uf = (if uf_shifted uf then Some (uf_delta uf) else None)"

definition uf_masks :: "UnionFind \<Rightarrow> u64 list" where
  "uf_masks uf = uf_mask uf"

subsection \<open>Merging\<close>

text \<open>The link of two representatives, the first surviving.\<close>

definition uf_link :: "UnionFind \<Rightarrow> Ref \<Rightarrow> Ref \<Rightarrow> (Merge \<times> UnionFind) option" where
  "uf_link uf survivor absorbed =
     (let s = ref_id survivor; x = ref_id absorbed
      in do {
        ms \<leftarrow> nth_opt (uf_mask uf) s;
        mx \<leftarrow> nth_opt (uf_mask uf) x;
        let msk = ms OR mx;
        let delta = (ref_offset survivor - ref_offset absorbed) AND msk;
        parents \<leftarrow> set_opt (uf_parent uf) x s;
        deltas \<leftarrow> set_opt (uf_delta uf) x delta;
        masks \<leftarrow> set_opt (uf_mask uf) s msk;
        cs \<leftarrow> nth_opt (uf_conflict uf) s;
        cx \<leftarrow> nth_opt (uf_conflict uf) x;
        conflicts \<leftarrow> set_opt (uf_conflict uf) s (cs \<or> cx);
        Some (Merged s x,
          uf\<lparr>uf_parent := parents, uf_delta := deltas, uf_mask := masks, uf_conflict := conflicts,
             uf_shifted := (uf_shifted uf \<or> delta \<noteq> 0), uf_flat_below := min (uf_flat_below uf) x\<rparr>)
      })"

definition uf_union :: "UnionFind \<Rightarrow> Ref \<Rightarrow> Ref \<Rightarrow> (Merge \<times> UnionFind) option" where
  "uf_union uf a b = do {
     a \<leftarrow> uf_find uf a;
     b \<leftarrow> uf_find uf b;
     if ref_id a = ref_id b then
       (if ref_offset a = ref_offset b then Some (Same, uf)
        else do {
          conflicts \<leftarrow> set_opt (uf_conflict uf) (ref_id a) True;
          Some (Contradiction, uf\<lparr>uf_conflict := conflicts\<rparr>)
        })
     else do {
       pa \<leftarrow> nth_opt (uf_pinned uf) (ref_id a);
       pb \<leftarrow> nth_opt (uf_pinned uf) (ref_id b);
       if pa \<and> pb then do {
         conflicts \<leftarrow> set_opt (uf_conflict uf) (ref_id a) True;
         conflicts \<leftarrow> set_opt conflicts (ref_id b) True;
         Some (Contradiction, uf\<lparr>uf_conflict := conflicts\<rparr>)
       }
       else if pa \<or> \<not> pb \<and> ref_id a < ref_id b then uf_link uf a b
       else uf_link uf b a
     }
   }"

subsection \<open>Flattening\<close>

text \<open>The rows of a column whose cell the map sends elsewhere, or which lie outside the map, ascending
  (\<open>simd::select_moved\<close>).\<close>

definition MAX_GATHER :: nat where
  "MAX_GATHER = 2 ^ 29"

definition select_moved :: "nat list \<Rightarrow> nat list \<Rightarrow> nat list option" where
  "select_moved column m =
     (if length m \<le> MAX_GATHER
      then Some (filter (\<lambda>row. length m \<le> column ! row \<or> m ! (column ! row) \<noteq> column ! row) [0..<length column])
      else None)"

definition flatten_step :: "UnionFind \<Rightarrow> nat \<Rightarrow> UnionFind option" where
  "flatten_step uf i = do {
     parent \<leftarrow> nth_opt (uf_parent uf) i;
     root \<leftarrow> nth_opt (uf_parent uf) parent;
     uf \<leftarrow> (if uf_shifted uf then do {
              di \<leftarrow> nth_opt (uf_delta uf) i;
              dp \<leftarrow> nth_opt (uf_delta uf) parent;
              m \<leftarrow> nth_opt (uf_mask uf) root;
              Some (uf\<lparr>uf_delta := (uf_delta uf)[i := (di + dp) AND m]\<rparr>)
            }
            else Some uf);
     Some (uf\<lparr>uf_parent := (uf_parent uf)[i := root]\<rparr>)
   }"

fun flatten_loop :: "UnionFind \<Rightarrow> nat list \<Rightarrow> UnionFind option" where
  "flatten_loop uf [] = Some uf"
| "flatten_loop uf (i # steps) = Option.bind (flatten_step uf i) (\<lambda>uf. flatten_loop uf steps)"

definition uf_flatten :: "UnionFind \<Rightarrow> UnionFind option" where
  "uf_flatten uf =
     (let from = min (uf_flat_below uf) (length (uf_parent uf)); uf = uf\<lparr>uf_flat_below := u32_max\<rparr>
      in Option.bind (select_moved (drop from (uf_parent uf)) (uf_parent uf))
           (\<lambda>steps. flatten_loop uf (map (\<lambda>i. from + i) steps)))"

subsection \<open>Masks and congruences\<close>

definition is_carrier :: "u64 \<Rightarrow> bool" where
  "is_carrier m \<longleftrightarrow> (\<exists>k \<le> 64. m = mask k)"

lemma carrier_mask_eq: "carrier_mask w = mask (min w 64)"
proof (rule bit_word_eqI)
  fix n assume "n < LENGTH(64)"
  then show "bit (carrier_mask w) n = bit (mask (min w 64) :: u64) n"
    by (auto simp: carrier_mask_def bit_drop_bit_eq bit_mask_iff)
qed

definition cong :: "u64 \<Rightarrow> u64 \<Rightarrow> u64 \<Rightarrow> bool" where
  "cong m x y \<longleftrightarrow> x AND m = y AND m"

lemma cong_refl [simp]: "cong m x x"
  by (simp add: cong_def)

lemma cong_sym: "cong m x y \<longleftrightarrow> cong m y x"
  by (auto simp: cong_def)

lemma cong_subst: "cong m x x' \<Longrightarrow> cong m y y' \<Longrightarrow> cong m x y \<longleftrightarrow> cong m x' y'"
  by (simp add: cong_def)

lemma cong_trans: "cong m x y \<Longrightarrow> cong m y z \<Longrightarrow> cong m x z"
  by (simp add: cong_def)

lemma cong_uint:
  assumes "k \<le> 64"
  shows "cong (mask k) x y \<longleftrightarrow> uint x mod 2 ^ k = uint y mod 2 ^ k"
proof -
  have "uint (z AND mask k) = uint z mod 2 ^ k" for z :: u64
    unfolding take_bit_eq_mask [symmetric] unsigned_take_bit_eq by (rule take_bit_eq_mod)
  then show ?thesis unfolding cong_def word_uint_eq_iff by simp
qed

lemma uint_mod:
  fixes x y :: u64
  assumes "k \<le> 64"
  shows "uint (x + y) mod 2 ^ k = (uint x + uint y) mod 2 ^ k" "uint (x - y) mod 2 ^ k = (uint x - uint y) mod 2 ^ k"
proof -
  have "(2 :: int) ^ k dvd 2 ^ LENGTH(64)" using assms by (intro le_imp_power_dvd) simp
  then show "uint (x + y) mod 2 ^ k = (uint x + uint y) mod 2 ^ k" "uint (x - y) mod 2 ^ k = (uint x - uint y) mod 2 ^ k"
    unfolding uint_word_ariths by (simp_all only: mod_mod_cancel)
qed

lemma cong_add: "is_carrier m \<Longrightarrow> cong m x x' \<Longrightarrow> cong m y y' \<Longrightarrow> cong m (x + y) (x' + y')"
  unfolding is_carrier_def by (auto simp: cong_uint uint_mod intro: mod_add_cong)

lemma cong_diff: "is_carrier m \<Longrightarrow> cong m x x' \<Longrightarrow> cong m y y' \<Longrightarrow> cong m (x - y) (x' - y')"
  unfolding is_carrier_def by (auto simp: cong_uint uint_mod intro: mod_diff_cong)

lemma cong_and [simp]: "cong m (x AND m) y \<longleftrightarrow> cong m x y" "cong m x (y AND m) \<longleftrightarrow> cong m x y"
  by (simp_all add: cong_def and.assoc)

lemma cong_cancel: "is_carrier m \<Longrightarrow> cong m (x + z) (y + z) \<longleftrightarrow> cong m x y"
  using cong_add [of m x y z z] cong_diff [of m "x + z" "y + z" z z] by auto

subsection \<open>The invariant\<close>

abbreviation len :: "UnionFind \<Rightarrow> nat" where
  "len uf \<equiv> length (uf_parent uf)"

definition uf_inv :: "UnionFind \<Rightarrow> bool" where
  "uf_inv uf \<longleftrightarrow> length (uf_delta uf) = len uf \<and> length (uf_mask uf) = len uf \<and> length (uf_pinned uf) = len uf \<and>
     length (uf_conflict uf) = len uf \<and> len uf \<le> u32_max \<and> uf_flat_below uf \<le> u32_max \<and>
     (\<forall>i < len uf.
        uf_parent uf ! i < len uf \<and> (uf_pinned uf ! i \<longrightarrow> uf_parent uf ! i = i) \<and>
        (uf_parent uf ! i \<noteq> i \<longrightarrow> uf_parent uf ! i < i \<or> uf_pinned uf ! (uf_parent uf ! i)) \<and>
        (uf_parent uf ! i = i \<longrightarrow> uf_delta uf ! i = 0) \<and>
        (i < uf_flat_below uf \<longrightarrow> uf_parent uf ! (uf_parent uf ! i) = uf_parent uf ! i) \<and>
        (\<not> uf_shifted uf \<longrightarrow> uf_delta uf ! i = 0) \<and>
        is_carrier (uf_mask uf ! i) \<and> uf_mask uf ! (uf_parent uf ! i) = uf_mask uf ! i \<and>
        uf_delta uf ! i AND uf_mask uf ! i = uf_delta uf ! i)"

lemma uf_invD:
  assumes "uf_inv uf" "i < len uf"
  shows "uf_parent uf ! i < len uf" "uf_pinned uf ! i \<Longrightarrow> uf_parent uf ! i = i"
    "uf_parent uf ! i \<noteq> i \<Longrightarrow> uf_parent uf ! i < i \<or> uf_pinned uf ! (uf_parent uf ! i)"
    "uf_parent uf ! i = i \<Longrightarrow> uf_delta uf ! i = 0" "i < uf_flat_below uf \<Longrightarrow> uf_parent uf ! (uf_parent uf ! i) = uf_parent uf ! i"
    "\<not> uf_shifted uf \<Longrightarrow> uf_delta uf ! i = 0" "is_carrier (uf_mask uf ! i)" "uf_mask uf ! (uf_parent uf ! i) = uf_mask uf ! i"
    "uf_delta uf ! i AND uf_mask uf ! i = uf_delta uf ! i"
  using assms by (auto simp: uf_inv_def)

lemma uf_inv_lengths:
  assumes "uf_inv uf"
  shows "length (uf_delta uf) = len uf" "length (uf_mask uf) = len uf" "length (uf_pinned uf) = len uf" "length (uf_conflict uf) = len uf"
    "len uf \<le> u32_max" "uf_flat_below uf \<le> u32_max"
  using assms by (simp_all add: uf_inv_def)

text \<open>Induction along the parents: they descend, or end at a pinned root.\<close>

lemma parent_induct [consumes 2, case_names step]:
  assumes "uf_inv uf" "i < len uf"
    and step: "\<And>i. i < len uf \<Longrightarrow> (uf_parent uf ! i \<noteq> i \<Longrightarrow> P (uf_parent uf ! i)) \<Longrightarrow> P i"
  shows "P i"
  using assms(2)
proof (induction "if uf_parent uf ! i = i then 0 else i + 1" arbitrary: i rule: less_induct)
  case less
  note d = uf_invD [OF assms(1) less.prems]
  show ?case
  proof (rule step [OF less.prems])
    assume p: "uf_parent uf ! i \<noteq> i"
    have "uf_parent uf ! (uf_parent uf ! i) = uf_parent uf ! i" if "uf_pinned uf ! (uf_parent uf ! i)"
      using uf_invD(2) [OF assms(1) d(1) that] .
    then show "P (uf_parent uf ! i)" using d(1) d(3) [OF p] p by (intro less.hyps) auto
  qed
qed

text \<open>Where the parents of an id lead, and the sum of the offsets on the way.\<close>

inductive leads :: "UnionFind \<Rightarrow> nat \<Rightarrow> nat \<Rightarrow> u64 \<Rightarrow> bool" for uf where
  stop: "uf_parent uf ! i = i \<Longrightarrow> leads uf i i 0"
| go: "uf_parent uf ! i \<noteq> i \<Longrightarrow> leads uf (uf_parent uf ! i) r s \<Longrightarrow> leads uf i r (uf_delta uf ! i + s)"

inductive_simps leads_simps: "leads uf i r s"

lemma leads_det: "leads uf i r s \<Longrightarrow> leads uf i r' s' \<Longrightarrow> r' = r \<and> s' = s"
proof (induction arbitrary: r' s' rule: leads.induct)
  case (stop i)
  show ?case using stop(2,1) by (cases rule: leads.cases) simp_all
next
  case (go i r s)
  show ?case using go.prems go.hyps(1) go.IH by (cases rule: leads.cases) auto
qed

lemma leads_total:
  assumes "uf_inv uf" "i < len uf"
  obtains r s where "leads uf i r s"
proof -
  have "\<exists>r s. leads uf i r s"
    using assms
  proof (induction rule: parent_induct)
    case (step i)
    then show ?case by (cases "uf_parent uf ! i = i") (auto intro: leads.intros)
  qed
  then show ?thesis using that by blast
qed

lemma leads_facts:
  assumes "uf_inv uf" "leads uf i r s" "i < len uf"
  shows "r < len uf" "uf_parent uf ! r = r" "uf_mask uf ! r = uf_mask uf ! i" "uf_root uf i = Some r"
    "find_loop uf i d = Some \<lparr>ref_id = r, ref_offset = (d + s) AND uf_mask uf ! i\<rparr>" "\<not> uf_shifted uf \<Longrightarrow> s = 0"
    "uf_pinned uf ! r \<or> r \<le> i" "uf_pinned uf ! i \<Longrightarrow> r = i"
proof -
  have "r < len uf \<and> uf_parent uf ! r = r \<and> uf_mask uf ! r = uf_mask uf ! i \<and> uf_root uf i = Some r \<and>
      (\<forall>d. find_loop uf i d = Some \<lparr>ref_id = r, ref_offset = (d + s) AND uf_mask uf ! i\<rparr>) \<and> (\<not> uf_shifted uf \<longrightarrow> s = 0) \<and>
      (uf_pinned uf ! r \<or> r \<le> i) \<and> (uf_pinned uf ! i \<longrightarrow> r = i)"
    using assms(2,3)
  proof (induction rule: leads.induct)
    case (stop i)
    then show ?case using uf_inv_lengths [OF assms(1)] by (simp add: uf_root.simps [of uf i] find_loop.simps [of uf i])
  next
    case (go i r s)
    note d = uf_invD [OF assms(1) go.prems] and l = uf_inv_lengths [OF assms(1)]
    note ih = go.IH [OF d(1)]
    have "uf_pinned uf ! r \<or> r \<le> i" using ih d(3) [OF go.hyps(1)] by auto
    moreover have "\<not> uf_pinned uf ! i" using d(2) go.hyps(1) by blast
    ultimately show ?case using ih d(6,8) go.hyps(1) go.prems l
      by (simp add: uf_root.simps [of uf i] find_loop.simps [of uf i] add.assoc)
  qed
  then show "r < len uf" "uf_parent uf ! r = r" "uf_mask uf ! r = uf_mask uf ! i" "uf_root uf i = Some r"
    "find_loop uf i d = Some \<lparr>ref_id = r, ref_offset = (d + s) AND uf_mask uf ! i\<rparr>" "\<not> uf_shifted uf \<Longrightarrow> s = 0"
    "uf_pinned uf ! r \<or> r \<le> i" "uf_pinned uf ! i \<Longrightarrow> r = i" by blast+
qed

lemma find_leads:
  assumes "uf_inv uf" "leads uf (ref_id a) r s" "ref_id a < len uf"
  shows "uf_find uf a = Some \<lparr>ref_id = r, ref_offset = (ref_offset a + s) AND uf_mask uf ! ref_id a\<rparr>"
  using leads_facts [OF assms] by (simp add: uf_find_def)

subsection \<open>What a structure says\<close>

text \<open>An interpretation gives every id an object and a number on it; a reference is the number shifted by
  its offset. An equation holds when the objects are one and the numbers agree modulo the carrier.\<close>

type_synonym interp = "nat \<Rightarrow> nat \<times> u64"

definition equates :: "u64 \<Rightarrow> interp \<Rightarrow> Ref \<Rightarrow> Ref \<Rightarrow> bool" where
  "equates m v a b \<longleftrightarrow> fst (v (ref_id a)) = fst (v (ref_id b)) \<and>
     cong m (snd (v (ref_id a)) + ref_offset a) (snd (v (ref_id b)) + ref_offset b)"

definition sat :: "UnionFind \<Rightarrow> interp \<Rightarrow> bool" where
  "sat uf v \<longleftrightarrow> (\<forall>i < len uf. fst (v i) = fst (v (uf_parent uf ! i)) \<and>
     cong (uf_mask uf ! i) (snd (v i)) (snd (v (uf_parent uf ! i)) + uf_delta uf ! i))"

lemma sat_leads:
  assumes "uf_inv uf" "sat uf v" "leads uf i r s" "i < len uf"
  shows "fst (v i) = fst (v r) \<and> cong (uf_mask uf ! i) (snd (v i)) (snd (v r) + s)"
  using assms(3,4)
proof (induction rule: leads.induct)
  case (go i r s)
  note d = uf_invD [OF assms(1) go.prems]
  have "cong (uf_mask uf ! i) (snd (v (uf_parent uf ! i)) + uf_delta uf ! i) (snd (v r) + s + uf_delta uf ! i)"
    using go.IH [OF d(1)] d(8) by (intro cong_add [OF d(7)]) simp_all
  then show ?case using go.IH [OF d(1)] assms(2) go.prems cong_trans by (fastforce simp: sat_def algebra_simps)
qed simp

text \<open>The representatives' values are free.\<close>

lemma sat_free:
  assumes "uf_inv uf"
  obtains v where "sat uf v" "\<And>i r s. i < len uf \<Longrightarrow> leads uf i r s \<Longrightarrow> v i = (fst (u r), snd (u r) + s)"
proof -
  define v where "v i = (let p = (SOME p. leads uf i (fst p) (snd p)) in (fst (u (fst p)), snd (u (fst p)) + snd p))" for i
  have v: "v i = (fst (u r), snd (u r) + s)" if "leads uf i r s" for i r s
  proof -
    have "leads uf i (fst (SOME p. leads uf i (fst p) (snd p))) (snd (SOME p. leads uf i (fst p) (snd p)))"
      by (rule someI [of "\<lambda>p. leads uf i (fst p) (snd p)" "(r, s)"]) (simp add: that)
    then show ?thesis using leads_det [OF that] by (simp add: v_def Let_def)
  qed
  have "sat uf v"
    unfolding sat_def
  proof (intro allI impI)
    fix i assume i: "i < len uf"
    obtain r s where l: "leads uf i r s" by (rule leads_total [OF assms i])
    show "fst (v i) = fst (v (uf_parent uf ! i)) \<and> cong (uf_mask uf ! i) (snd (v i)) (snd (v (uf_parent uf ! i)) + uf_delta uf ! i)"
      using l uf_invD(4) [OF assms i]
    proof (cases rule: leads.cases)
      case (go s')
      then show ?thesis using v [OF l] v [OF go(3)] by (simp add: algebra_simps)
    qed simp
  qed
  then show ?thesis using that v by blast
qed

text \<open>Linking the representative \<open>x\<close> below \<open>s\<close> adds the one equation.\<close>

lemma link_ok:
  assumes "uf_inv uf" "s < len uf" "x < len uf" "uf_parent uf ! s = s" "uf_parent uf ! x = x" "s \<noteq> x"
    and "uf_mask uf ! s = uf_mask uf ! x" "\<not> uf_pinned uf ! x" "uf_pinned uf ! s \<or> s < x"
  shows "\<exists>uf'. uf_link uf \<lparr>ref_id = s, ref_offset = p\<rparr> \<lparr>ref_id = x, ref_offset = q\<rparr> = Some (Merged s x, uf') \<and> uf_inv uf' \<and>
    len uf' = len uf \<and> uf_mask uf' = uf_mask uf \<and> uf_pinned uf' = uf_pinned uf \<and>
    (\<forall>v. sat uf' v \<longleftrightarrow> sat uf v \<and> equates (uf_mask uf ! s) v \<lparr>ref_id = s, ref_offset = p\<rparr> \<lparr>ref_id = x, ref_offset = q\<rparr>)"
proof -
  let ?m = "uf_mask uf ! s"
  let ?d = "(p - q) AND ?m"
  note l = uf_inv_lengths [OF assms(1)]
  have m: "?m OR uf_mask uf ! x = ?m" "is_carrier ?m" using assms(7) uf_invD(7) [OF assms(1,2)] by simp_all
  have mm: "(uf_mask uf)[s := uf_mask uf ! x] = uf_mask uf" using assms(7) by (metis list_update_id)
  define uf' where "uf' = uf\<lparr>uf_parent := (uf_parent uf)[x := s], uf_delta := (uf_delta uf)[x := ?d],
     uf_mask := uf_mask uf, uf_conflict := (uf_conflict uf)[s := uf_conflict uf ! s \<or> uf_conflict uf ! x],
     uf_shifted := (uf_shifted uf \<or> ?d \<noteq> 0), uf_flat_below := min (uf_flat_below uf) x\<rparr>"
  have link: "uf_link uf \<lparr>ref_id = s, ref_offset = p\<rparr> \<lparr>ref_id = x, ref_offset = q\<rparr> = Some (Merged s x, uf')"
    using assms(2,3) l m(1) unfolding uf'_def by (simp add: uf_link_def nth_opt_def set_opt_def assms(7) mm Let_def)
  have np: "uf_parent uf ! i \<noteq> x" if "i < len uf" "i < x \<or> uf_parent uf ! i = i" "i \<noteq> x" for i
    using uf_invD(3) [OF assms(1) that(1)] that(2,3) assms(8) by auto
  have "uf_inv uf'"
    unfolding uf_inv_def
  proof (intro conjI allI impI)
    fix i assume "i < len uf'"
    then have i: "i < len uf" by (simp add: uf'_def)
    note d = uf_invD [OF assms(1) i]
    show "uf_parent uf' ! i < len uf'" "uf_pinned uf' ! i \<Longrightarrow> uf_parent uf' ! i = i" "uf_parent uf' ! i = i \<Longrightarrow> uf_delta uf' ! i = 0"
        "is_carrier (uf_mask uf' ! i)" "uf_delta uf' ! i AND uf_mask uf' ! i = uf_delta uf' ! i" "\<not> uf_shifted uf' \<Longrightarrow> uf_delta uf' ! i = 0"
        "uf_mask uf' ! (uf_parent uf' ! i) = uf_mask uf' ! i"
      using d i assms l m by (auto simp: uf'_def nth_list_update and.assoc)
    show "uf_parent uf' ! i < i \<or> uf_pinned uf' ! (uf_parent uf' ! i)" if "uf_parent uf' ! i \<noteq> i"
      using d(3) i assms(3,9) that by (cases "i = x") (auto simp: uf'_def)
    show "uf_parent uf' ! (uf_parent uf' ! i) = uf_parent uf' ! i" if "i < uf_flat_below uf'"
      using d(1,5) i np [OF i] that by (cases "i = x") (auto simp: uf'_def)
  qed (use l in \<open>simp_all add: uf'_def\<close>)
  moreover have "sat uf' v \<longleftrightarrow> sat uf v \<and> equates ?m v \<lparr>ref_id = s, ref_offset = p\<rparr> \<lparr>ref_id = x, ref_offset = q\<rparr>" for v
  proof -
    let ?eq = "\<lambda>uf i. fst (v i) = fst (v (uf_parent uf ! i)) \<and> cong (uf_mask uf ! i) (snd (v i)) (snd (v (uf_parent uf ! i)) + uf_delta uf ! i)"
    have o: "?eq uf' i \<longleftrightarrow> ?eq uf i" if "i \<noteq> x" for i using that by (simp add: uf'_def)
    have "?eq uf x" using assms(5) uf_invD(4) [OF assms(1,3)] by simp
    moreover have "?eq uf' x \<longleftrightarrow> equates ?m v \<lparr>ref_id = s, ref_offset = p\<rparr> \<lparr>ref_id = x, ref_offset = q\<rparr>"
    proof -
      have "cong ?m (snd (v x)) (snd (v s) + ?d) \<longleftrightarrow> cong ?m (snd (v x)) (snd (v s) + (p - q))"
        by (rule cong_subst [OF cong_refl]) (simp add: cong_add [OF m(2)])
      also have "\<dots> \<longleftrightarrow> cong ?m (snd (v x) + q) (snd (v s) + (p - q) + q)" by (rule cong_cancel [OF m(2), symmetric])
      also have "snd (v s) + (p - q) + q = snd (v s) + p" by simp
      finally have "cong ?m (snd (v x)) (snd (v s) + ?d) \<longleftrightarrow> cong ?m (snd (v s) + p) (snd (v x) + q)" unfolding cong_sym [of ?m "snd (v s) + p"] .
      then show ?thesis using assms(3,7) l(1) by (auto simp: uf'_def equates_def)
    qed
    moreover have "len uf' = len uf" by (simp add: uf'_def)
    ultimately have "(\<forall>i < len uf'. ?eq uf' i) \<longleftrightarrow> (\<forall>i < len uf. ?eq uf i) \<and> equates ?m v \<lparr>ref_id = s, ref_offset = p\<rparr> \<lparr>ref_id = x, ref_offset = q\<rparr>"
      using assms(3) o by (metis (no_types, lifting))
    then show ?thesis unfolding sat_def .
  qed
  ultimately show ?thesis using link by (auto simp: uf'_def)
qed

text \<open>Finding both sides of an equation does not change it.\<close>

lemma find_equates:
  assumes "uf_inv uf" "ref_id a < len uf" "ref_id b < len uf" "uf_mask uf ! ref_id a = uf_mask uf ! ref_id b"
  obtains i p j q where "uf_find uf a = Some \<lparr>ref_id = i, ref_offset = p\<rparr>" "uf_find uf b = Some \<lparr>ref_id = j, ref_offset = q\<rparr>"
    "i < len uf" "j < len uf" "uf_parent uf ! i = i" "uf_parent uf ! j = j" "uf_root uf (ref_id a) = Some i" "uf_root uf (ref_id b) = Some j"
    "uf_mask uf ! i = uf_mask uf ! ref_id a" "uf_mask uf ! j = uf_mask uf ! ref_id a"
    "p AND uf_mask uf ! ref_id a = p" "q AND uf_mask uf ! ref_id a = q"
    "\<forall>v. sat uf v \<longrightarrow> equates (uf_mask uf ! ref_id a) v a b = equates (uf_mask uf ! ref_id a) v \<lparr>ref_id = i, ref_offset = p\<rparr> \<lparr>ref_id = j, ref_offset = q\<rparr>"
proof -
  let ?m = "uf_mask uf ! ref_id a"
  obtain i s where i: "leads uf (ref_id a) i s" by (rule leads_total [OF assms(1,2)])
  obtain j t where j: "leads uf (ref_id b) j t" by (rule leads_total [OF assms(1,3)])
  note fi = leads_facts [OF assms(1) i assms(2)] and fj = leads_facts [OF assms(1) j assms(3)]
  define p where "p = (ref_offset a + s) AND ?m"
  define q where "q = (ref_offset b + t) AND ?m"
  have f: "uf_find uf a = Some \<lparr>ref_id = i, ref_offset = p\<rparr>" "uf_find uf b = Some \<lparr>ref_id = j, ref_offset = q\<rparr>"
    using find_leads [OF assms(1) i assms(2)] find_leads [OF assms(1) j assms(3)] assms(4) by (simp_all add: p_def q_def)
  have c: "is_carrier ?m" using uf_invD(7) [OF assms(1,2)] .
  have eq: "equates ?m v a b \<longleftrightarrow> equates ?m v \<lparr>ref_id = i, ref_offset = p\<rparr> \<lparr>ref_id = j, ref_offset = q\<rparr>" if "sat uf v" for v
  proof -
    have "cong ?m (snd (v (ref_id a)) + ref_offset a) (snd (v i) + s + ref_offset a)" "cong ?m (snd (v (ref_id b)) + ref_offset b) (snd (v j) + t + ref_offset b)"
      using sat_leads [OF assms(1) that i assms(2)] sat_leads [OF assms(1) that j assms(3)] assms(4) cong_add [OF c _ cong_refl] by simp_all
    moreover have "cong ?m (snd (v i) + p) (snd (v i) + s + ref_offset a)" "cong ?m (snd (v j) + q) (snd (v j) + t + ref_offset b)"
      using cong_add [OF c cong_refl [of ?m "snd (v i)"], of p "ref_offset a + s"] cong_add [OF c cong_refl [of ?m "snd (v j)"], of q "ref_offset b + t"]
      by (simp_all add: p_def q_def algebra_simps)
    ultimately have "cong ?m (snd (v (ref_id a)) + ref_offset a) (snd (v (ref_id b)) + ref_offset b) \<longleftrightarrow> cong ?m (snd (v i) + p) (snd (v j) + q)"
      unfolding cong_def by argo
    then show ?thesis using sat_leads [OF assms(1) that i assms(2)] sat_leads [OF assms(1) that j assms(3)] by (simp add: equates_def)
  qed
  have pq: "p AND ?m = p" "q AND ?m = q" by (simp_all add: p_def q_def and.assoc)
  have m: "uf_mask uf ! i = ?m" "uf_mask uf ! j = ?m" using fi(3) fj(3) assms(4) by simp_all
  show ?thesis by (rule that [OF f fi(1) fj(1) fi(2) fj(2) fi(4) fj(4) m pq]) (use eq in blast)
qed

lemma union_ok:
  assumes "uf_inv uf" "ref_id a < len uf" "ref_id b < len uf" "uf_mask uf ! ref_id a = uf_mask uf ! ref_id b"
  shows "\<exists>mg uf'. uf_union uf a b = Some (mg, uf') \<and> uf_inv uf' \<and> len uf' = len uf \<and> uf_mask uf' = uf_mask uf \<and> uf_pinned uf' = uf_pinned uf \<and>
    (case mg of
       Same \<Rightarrow> uf' = uf \<and> (\<forall>v. sat uf v \<longrightarrow> equates (uf_mask uf ! ref_id a) v a b)
     | Merged s x \<Rightarrow> \<forall>v. sat uf' v \<longleftrightarrow> sat uf v \<and> equates (uf_mask uf ! ref_id a) v a b
     | Contradiction \<Rightarrow> (\<forall>v. sat uf' v = sat uf v) \<and>
         ((\<forall>v. sat uf v \<longrightarrow> \<not> equates (uf_mask uf ! ref_id a) v a b) \<or> uf_is_zero uf (ref_id a) = Some True \<and> uf_is_zero uf (ref_id b) = Some True))"
proof -
  let ?m = "uf_mask uf ! ref_id a"
  note l = uf_inv_lengths [OF assms(1)]
  obtain i p j q where f: "uf_find uf a = Some \<lparr>ref_id = i, ref_offset = p\<rparr>" "uf_find uf b = Some \<lparr>ref_id = j, ref_offset = q\<rparr>"
    and ij: "i < len uf" "j < len uf" "uf_parent uf ! i = i" "uf_parent uf ! j = j" "uf_root uf (ref_id a) = Some i" "uf_root uf (ref_id b) = Some j"
    and m: "uf_mask uf ! i = ?m" "uf_mask uf ! j = ?m" "p AND ?m = p" "q AND ?m = q"
    and eqs: "\<forall>v. sat uf v \<longrightarrow> equates ?m v a b = equates ?m v \<lparr>ref_id = i, ref_offset = p\<rparr> \<lparr>ref_id = j, ref_offset = q\<rparr>"
    by (rule find_equates [OF assms])
  note eq = eqs [rule_format]
  have c: "is_carrier ?m" using uf_invD(7) [OF assms(1,2)] .
  have conf: "uf_inv (uf\<lparr>uf_conflict := cs\<rparr>) \<and> (\<forall>v. sat (uf\<lparr>uf_conflict := cs\<rparr>) v = sat uf v)" if "length cs = len uf" for cs
    using assms(1) that by (simp add: uf_inv_def sat_def)
  consider "i = j" "p = q" | "i = j" "p \<noteq> q" | "i \<noteq> j" "uf_pinned uf ! i" "uf_pinned uf ! j"
    | "i \<noteq> j" "\<not> uf_pinned uf ! j" "uf_pinned uf ! i \<or> i < j" | "i \<noteq> j" "\<not> uf_pinned uf ! i" "uf_pinned uf ! j \<or> j < i" "\<not> (uf_pinned uf ! i \<or> \<not> uf_pinned uf ! j \<and> i < j)"
    using nat_neq_iff [of i j] by blast
  then show ?thesis
  proof cases
    case 1
    have "equates ?m v a b" if "sat uf v" for v using eq [OF that] 1 by (simp add: equates_def)
    then show ?thesis using 1 assms(1) by (simp add: uf_union_def f)
  next
    case 2
    have "\<not> cong ?m p q" using 2 m(3,4) by (simp add: cong_def)
    then have "\<not> equates ?m v a b" if "sat uf v" for v
      using eq [OF that] 2(1) cong_cancel [OF c, of p "snd (v i)" q] by (simp add: equates_def add.commute)
    then show ?thesis using 2 ij(1) l conf [of "(uf_conflict uf)[i := True]"] by (simp add: uf_union_def f set_opt_def)
  next
    case 3
    then have "uf_is_zero uf (ref_id a) = Some True" "uf_is_zero uf (ref_id b) = Some True"
      using ij l by (simp_all add: uf_is_zero_def nth_opt_def)
    then show ?thesis using 3 ij l conf [of "(uf_conflict uf)[i := True, j := True]"] by (simp add: uf_union_def f set_opt_def nth_opt_def)
  next
    case 4
    obtain uf' where "uf_link uf \<lparr>ref_id = i, ref_offset = p\<rparr> \<lparr>ref_id = j, ref_offset = q\<rparr> = Some (Merged i j, uf')" "uf_inv uf'"
      "len uf' = len uf" "uf_mask uf' = uf_mask uf" "uf_pinned uf' = uf_pinned uf"
      "\<forall>v. sat uf' v \<longleftrightarrow> sat uf v \<and> equates (uf_mask uf ! i) v \<lparr>ref_id = i, ref_offset = p\<rparr> \<lparr>ref_id = j, ref_offset = q\<rparr>"
      using link_ok [OF assms(1) ij(1-4) 4(1) _ 4(2,3), of p q] m(1,2) by metis
    then show ?thesis using 4 ij(1,2) m(1,2) l eq by (auto simp: uf_union_def f nth_opt_def)
  next
    case 5
    obtain uf' where "uf_link uf \<lparr>ref_id = j, ref_offset = q\<rparr> \<lparr>ref_id = i, ref_offset = p\<rparr> = Some (Merged j i, uf')" "uf_inv uf'"
      "len uf' = len uf" "uf_mask uf' = uf_mask uf" "uf_pinned uf' = uf_pinned uf"
      "\<forall>v. sat uf' v \<longleftrightarrow> sat uf v \<and> equates (uf_mask uf ! j) v \<lparr>ref_id = j, ref_offset = q\<rparr> \<lparr>ref_id = i, ref_offset = p\<rparr>"
      using link_ok [OF assms(1) ij(2,1,4,3) 5(1) [symmetric] _ 5(2,3), of q p] m(1,2) by metis
    moreover have "equates ?m v \<lparr>ref_id = j, ref_offset = q\<rparr> \<lparr>ref_id = i, ref_offset = p\<rparr> \<longleftrightarrow> equates ?m v \<lparr>ref_id = i, ref_offset = p\<rparr> \<lparr>ref_id = j, ref_offset = q\<rparr>" for v
      using cong_sym by (auto simp: equates_def)
    ultimately show ?thesis using 5 ij(1,2) m(1,2) l eq by (auto simp: uf_union_def f nth_opt_def)
  qed
qed

subsection \<open>Flattening points every id at its representative\<close>

text \<open>The structure after the ids below \<open>k\<close> were pointed at their representatives \<open>R\<close>, at the offsets \<open>S\<close>.\<close>

definition flat_to :: "UnionFind \<Rightarrow> (nat \<Rightarrow> nat) \<Rightarrow> (nat \<Rightarrow> u64) \<Rightarrow> nat \<Rightarrow> UnionFind" where
  "flat_to uf R S k = uf\<lparr>uf_flat_below := u32_max, uf_parent := map (\<lambda>j. if j < k then R j else uf_parent uf ! j) [0..<len uf],
     uf_delta := map (\<lambda>j. if j < k then S j AND uf_mask uf ! j else uf_delta uf ! j) [0..<len uf]\<rparr>"

definition places :: "UnionFind \<Rightarrow> (nat \<Rightarrow> nat) \<Rightarrow> (nat \<Rightarrow> u64) \<Rightarrow> bool" where
  "places uf R S \<longleftrightarrow> (\<forall>i < len uf. leads uf i (R i) (S i))"

lemma places_exist: "uf_inv uf \<Longrightarrow> \<exists>R S. places uf R S"
proof -
  assume "uf_inv uf"
  then have "\<forall>i. \<exists>p. i < len uf \<longrightarrow> leads uf i (fst p) (snd p)" by (metis leads_total fst_conv snd_conv)
  then obtain P where "\<forall>i < len uf. leads uf i (fst (P i)) (snd (P i))" by metis
  then show ?thesis unfolding places_def by (intro exI [of _ "\<lambda>i. fst (P i)"] exI [of _ "\<lambda>i. snd (P i)"])
qed

lemma leads_parent:
  assumes "uf_inv uf" "places uf R S" "i < len uf"
  shows "R (uf_parent uf ! i) = R i" "S i = uf_delta uf ! i + S (uf_parent uf ! i)"
    "uf_parent uf ! (uf_parent uf ! i) = uf_parent uf ! i \<Longrightarrow> R i = uf_parent uf ! i \<and> S i = uf_delta uf ! i"
proof -
  have l: "leads uf i (R i) (S i)" "leads uf (uf_parent uf ! i) (R (uf_parent uf ! i)) (S (uf_parent uf ! i))"
    using assms uf_invD(1) [OF assms(1,3)] by (simp_all add: places_def)
  have st: "R j = j \<and> S j = 0" if "uf_parent uf ! j = j" "j < len uf" for j
    using leads_det [OF leads.stop [OF that(1)], of "R j" "S j"] assms(2) that(2) by (simp add: places_def)
  show e: "R (uf_parent uf ! i) = R i" "S i = uf_delta uf ! i + S (uf_parent uf ! i)"
  proof (atomize (full), cases "uf_parent uf ! i = i")
    case True
    then show "R (uf_parent uf ! i) = R i \<and> S i = uf_delta uf ! i + S (uf_parent uf ! i)" using uf_invD(4) [OF assms(1,3)] by simp
  next
    case False
    show "R (uf_parent uf ! i) = R i \<and> S i = uf_delta uf ! i + S (uf_parent uf ! i)"
      using leads_det [OF leads.go [OF False l(2)] l(1)] by simp
  qed
  show "R i = uf_parent uf ! i \<and> S i = uf_delta uf ! i" if "uf_parent uf ! (uf_parent uf ! i) = uf_parent uf ! i"
    using st [OF that uf_invD(1) [OF assms(1,3)]] e by simp
qed

lemma flat_start:
  assumes "uf_inv uf" "places uf R S" "k \<le> uf_flat_below uf"
  shows "flat_to uf R S k = uf\<lparr>uf_flat_below := u32_max\<rparr>"
proof -
  have "R j = uf_parent uf ! j \<and> S j AND uf_mask uf ! j = uf_delta uf ! j" if "j < len uf" "j < k" for j
    using leads_parent(3) [OF assms(1,2) that(1)] uf_invD(5,9) [OF assms(1) that(1)] that(2) assms(3) by simp
  then have "map (\<lambda>j. if j < k then R j else uf_parent uf ! j) [0..<len uf] = uf_parent uf"
    "map (\<lambda>j. if j < k then S j AND uf_mask uf ! j else uf_delta uf ! j) [0..<len uf] = uf_delta uf"
    using uf_inv_lengths(1) [OF assms(1)] by (auto intro!: nth_equalityI)
  then show ?thesis by (simp add: flat_to_def)
qed

definition moved :: "UnionFind \<Rightarrow> nat \<Rightarrow> bool" where
  "moved uf i \<longleftrightarrow> uf_parent uf ! (uf_parent uf ! i) \<noteq> uf_parent uf ! i"

lemma prefix_next:
  "k < n \<Longrightarrow> map (\<lambda>j. if j < Suc k then f j else g j) [0..<n] = (map (\<lambda>j. if j < k then f j else g j) [0..<n])[k := f k]"
  by (auto intro!: nth_equalityI simp: nth_list_update less_Suc_eq)

lemma prefix_keep:
  "k < n \<Longrightarrow> (map (\<lambda>j. if j < k then f j else g j) [0..<n])[k := g k] = map (\<lambda>j. if j < k then f j else g j) [0..<n]"
  by (auto intro!: nth_equalityI simp: nth_list_update)

lemma flat_step:
  assumes "uf_inv uf" "places uf R S" "k < len uf"
  shows "if moved uf k then flatten_step (flat_to uf R S k) k = Some (flat_to uf R S (Suc k)) else flat_to uf R S (Suc k) = flat_to uf R S k"
proof -
  let ?p = "uf_parent uf ! k" and ?w = "flat_to uf R S k"
  note d = uf_invD [OF assms(1,3)] and lp = leads_parent [OF assms]
  have nxt: "flat_to uf R S (Suc k) = ?w\<lparr>uf_parent := (uf_parent ?w)[k := R k], uf_delta := (uf_delta ?w)[k := S k AND uf_mask uf ! k]\<rparr>"
    unfolding flat_to_def by (simp add: prefix_next [OF assms(3)])
  show ?thesis
  proof (cases "moved uf k")
    case False
    then have "R k = ?p" "S k AND uf_mask uf ! k = uf_delta uf ! k" using lp(3) d(9) by (simp_all add: moved_def)
    then show ?thesis using False nxt by (simp add: flat_to_def prefix_keep [OF assms(3)] prefix_keep [OF assms(3), of "\<lambda>j. S j AND uf_mask uf ! j" "\<lambda>j. uf_delta uf ! j"])
  next
    case True
    have "?p \<noteq> k" "\<not> uf_pinned uf ! ?p" using True uf_invD(2) [OF assms(1) d(1)] by (auto simp: moved_def)
    then have pk: "?p < k" using d(3) by blast
    have w: "uf_parent ?w ! k = ?p" "uf_parent ?w ! ?p = R k" "uf_delta ?w ! k = uf_delta uf ! k" "uf_delta ?w ! ?p = S ?p AND uf_mask uf ! k"
        "uf_mask ?w ! R k = uf_mask uf ! k" "R k < len uf" "len ?w = len uf" "length (uf_delta ?w) = len uf" "length (uf_mask ?w) = len uf" "uf_shifted ?w = uf_shifted uf"
      using assms(3) d(1,8) lp(1) pk leads_facts(1,3) [OF assms(1) _ assms(3), of "R k" "S k"] assms(2) uf_inv_lengths(2) [OF assms(1)]
      by (simp_all add: flat_to_def places_def)
    have "cong (uf_mask uf ! k) (uf_delta uf ! k + (S ?p AND uf_mask uf ! k)) (uf_delta uf ! k + S ?p)" by (intro cong_add [OF d(7)]) simp_all
    then have sk: "(uf_delta uf ! k + (S ?p AND uf_mask uf ! k)) AND uf_mask uf ! k = S k AND uf_mask uf ! k" using lp(2) by (simp add: cong_def)
    have ns: "(uf_delta ?w)[k := S k AND uf_mask uf ! k] = uf_delta ?w" if "\<not> uf_shifted uf"
      using leads_facts(6) [OF assms(1) _ assms(3) that, of "R k" "S k"] assms(2,3) d(6) [OF that] w(3) by (simp add: places_def) (metis list_update_id)
    show ?thesis using True assms(3) d(1) w sk ns unfolding nxt
      by (cases "uf_shifted uf") (simp_all add: flatten_step_def nth_opt_def)
  qed
qed

lemma flat_loop:
  assumes "uf_inv uf" "places uf R S" "k \<le> len uf"
  shows "flatten_loop (flat_to uf R S k) (filter (moved uf) [k..<len uf]) = Some (flat_to uf R S (len uf))"
  using assms(3)
proof (induction "len uf - k" arbitrary: k)
  case (Suc m)
  then have k: "k < len uf" "[k..<len uf] = k # [Suc k..<len uf]" by (auto simp: upt_conv_Cons)
  have "flatten_loop (flat_to uf R S (Suc k)) (filter (moved uf) [Suc k..<len uf]) = Some (flat_to uf R S (len uf))"
    using Suc k(1) by (intro Suc.hyps) auto
  then show ?case using flat_step [OF assms(1,2) k(1)] k(2) by (simp split: if_splits)
qed simp

lemma moved_rows:
  assumes "uf_inv uf" "k \<le> len uf"
  shows "map (\<lambda>i. k + i) (filter (\<lambda>row. len uf \<le> drop k (uf_parent uf) ! row \<or> uf_parent uf ! (drop k (uf_parent uf) ! row) \<noteq> drop k (uf_parent uf) ! row)
      [0..<length (drop k (uf_parent uf))]) = filter (moved uf) [k..<len uf]"
proof -
  have "[k..<len uf] = map (\<lambda>i. k + i) [0..<len uf - k]" using assms(2) map_add_upt [of k "len uf - k"] by (simp add: add.commute)
  moreover have "filter (\<lambda>row. len uf \<le> drop k (uf_parent uf) ! row \<or> uf_parent uf ! (drop k (uf_parent uf) ! row) \<noteq> drop k (uf_parent uf) ! row) [0..<len uf - k] =
      filter (\<lambda>i. moved uf (k + i)) [0..<len uf - k]"
    using uf_invD(1) [OF assms(1)] by (intro filter_cong) (auto simp: moved_def less_diff_conv add.commute not_less [symmetric])
  ultimately show ?thesis by (simp add: filter_map comp_def)
qed

lemma flatten_ok:
  assumes "uf_inv uf" "len uf \<le> MAX_GATHER" "places uf R S"
  shows "uf_flatten uf = Some (flat_to uf R S (len uf))"
proof -
  let ?k = "min (uf_flat_below uf) (len uf)" and ?w = "uf\<lparr>uf_flat_below := u32_max\<rparr>"
  have "flatten_loop ?w (filter (moved uf) [?k..<len uf]) = Some (flat_to uf R S (len uf))"
    using flat_loop [OF assms(1,3), of ?k] flat_start [OF assms(1,3), of ?k] by simp
  then show ?thesis using moved_rows [OF assms(1), of ?k] assms(2) by (simp add: uf_flatten_def Let_def select_moved_def)
qed

lemma flat_facts:
  assumes "uf_inv uf" "places uf R S" "len uf \<le> MAX_GATHER"
  defines "w \<equiv> flat_to uf R S (len uf)"
  shows "uf_inv w" "len w = len uf" "uf_mask w = uf_mask uf" "uf_pinned w = uf_pinned uf" "i < len uf \<Longrightarrow> uf_parent w ! i = R i"
    "i < len uf \<Longrightarrow> uf_delta w ! i = S i AND uf_mask uf ! i" "i < len uf \<Longrightarrow> leads w i (R i) (S i AND uf_mask uf ! i)" "sat w v \<longleftrightarrow> sat uf v"
proof -
  note l = uf_inv_lengths [OF assms(1)]
  have w: "len w = len uf" "uf_mask w = uf_mask uf" "uf_pinned w = uf_pinned uf" "uf_flat_below w = u32_max" "uf_shifted w = uf_shifted uf"
    "length (uf_delta w) = len uf" "length (uf_conflict w) = len uf"
    using l by (simp_all add: w_def flat_to_def)
  have pd: "uf_parent w ! i = R i" "uf_delta w ! i = S i AND uf_mask uf ! i" if "i < len uf" for i using that by (simp_all add: w_def flat_to_def)
  have lf: "R i < len uf" "uf_parent uf ! R i = R i" "uf_mask uf ! R i = uf_mask uf ! i" "\<not> uf_shifted uf \<Longrightarrow> S i = 0" "uf_pinned uf ! R i \<or> R i \<le> i"
      "uf_pinned uf ! i \<Longrightarrow> R i = i" if "i < len uf" for i
    using leads_facts [OF assms(1) _ that, of "R i" "S i"] assms(2) that by (auto simp: places_def)
  have rr: "R (R i) = R i" if "i < len uf" for i
    using leads_det [OF leads.stop [OF lf(2) [OF that]], of "R (R i)" "S (R i)"] lf(1) [OF that] assms(2) by (simp add: places_def)
  have r0: "S i = 0" if "i < len uf" "R i = i" for i
    using leads_det [OF leads.stop, of uf i "R i" "S i"] lf(2) [OF that(1)] that assms(2) unfolding places_def by metis
  show "len w = len uf" "uf_mask w = uf_mask uf" "uf_pinned w = uf_pinned uf" by (fact w)+
  show "i < len uf \<Longrightarrow> uf_parent w ! i = R i" "i < len uf \<Longrightarrow> uf_delta w ! i = S i AND uf_mask uf ! i" by (fact pd)+
  show "i < len uf \<Longrightarrow> leads w i (R i) (S i AND uf_mask uf ! i)"
  proof (cases "R i = i")
    case True
    assume i: "i < len uf"
    then show ?thesis using leads.stop [of w i] pd [OF i] r0 [OF i True] True by simp
  next
    case False
    assume i: "i < len uf"
    have "leads w (R i) (R i) 0" using pd(1) [OF lf(1) [OF i]] rr [OF i] by (intro leads.stop) simp
    then show ?thesis using leads.go [of w i "R i" 0] pd [OF i] False by simp
  qed
  show "uf_inv w"
    unfolding uf_inv_def w
  proof (intro conjI allI impI)
    fix i assume i: "i < len uf"
    show "uf_parent w ! i < len uf" "uf_pinned uf ! i \<Longrightarrow> uf_parent w ! i = i" "uf_parent w ! i = i \<Longrightarrow> uf_delta w ! i = 0"
      "uf_parent w ! (uf_parent w ! i) = uf_parent w ! i" "\<not> uf_shifted uf \<Longrightarrow> uf_delta w ! i = 0" "is_carrier (uf_mask uf ! i)"
      "uf_mask uf ! (uf_parent w ! i) = uf_mask uf ! i" "uf_delta w ! i AND uf_mask uf ! i = uf_delta w ! i"
      using lf [OF i] rr [OF i] r0 [OF i] pd [OF i] pd(1) [of "R i"] uf_invD(7) [OF assms(1) i] by (simp_all add: and.assoc)
    show "uf_parent w ! i < i \<or> uf_pinned uf ! (uf_parent w ! i)" if "uf_parent w ! i \<noteq> i"
      using lf(5) [OF i] pd(1) [OF i] that by auto
  qed (use l in simp_all)
  show "sat w v \<longleftrightarrow> sat uf v"
  proof
    assume v: "sat uf v"
    show "sat w v"
      unfolding sat_def w
    proof (intro allI impI)
      fix i assume i: "i < len uf"
      have "cong (uf_mask uf ! i) (snd (v (R i)) + (S i AND uf_mask uf ! i)) (snd (v (R i)) + S i)" by (intro cong_add [OF uf_invD(7) [OF assms(1) i]]) simp_all
      then show "fst (v i) = fst (v (uf_parent w ! i)) \<and> cong (uf_mask uf ! i) (snd (v i)) (snd (v (uf_parent w ! i)) + uf_delta w ! i)"
        using sat_leads [OF assms(1) v _ i, of "R i" "S i"] assms(2) i pd [OF i] by (simp add: places_def cong_def)
    qed
  next
    assume v: "sat w v"
    have e: "fst (v i) = fst (v (R i)) \<and> cong (uf_mask uf ! i) (snd (v i)) (snd (v (R i)) + S i)" if i: "i < len uf" for i
    proof -
      have "cong (uf_mask uf ! i) (snd (v (R i)) + (S i AND uf_mask uf ! i)) (snd (v (R i)) + S i)" by (intro cong_add [OF uf_invD(7) [OF assms(1) i]]) simp_all
      then show ?thesis using v i pd [OF i] w(1,2) by (simp add: sat_def cong_def)
    qed
    show "sat uf v"
      unfolding sat_def
    proof (intro allI impI)
      fix i assume i: "i < len uf"
      let ?p = "uf_parent uf ! i" and ?m = "uf_mask uf ! i"
      note d = uf_invD [OF assms(1) i] and lp = leads_parent [OF assms(1,2) i]
      have "cong ?m (snd (v ?p) + uf_delta uf ! i) (snd (v (R i)) + S ?p + uf_delta uf ! i)"
        using e [OF d(1)] lp(1) d(8) by (intro cong_add [OF d(7)]) simp_all
      then have "cong ?m (snd (v ?p) + uf_delta uf ! i) (snd (v (R i)) + S i)" using lp(2) by (simp add: algebra_simps)
      then show "fst (v i) = fst (v ?p) \<and> cong ?m (snd (v i)) (snd (v ?p) + uf_delta uf ! i)"
        using e [OF i] e [OF d(1)] lp(1) by (simp add: cong_def)
    qed
  qed
qed

section \<open>Properties\<close>

text \<open>The structures a program can build, with the equations it asserted: ids are minted on a carrier of some
  width, references on one carrier are united, and the structure is flattened at any time.\<close>

inductive history :: "UnionFind \<Rightarrow> (Ref \<times> Ref) list \<Rightarrow> bool" where
  new: "history uf_new []"
| push: "history uf eqs \<Longrightarrow> len uf < u32_max \<Longrightarrow> history (snd (uf_push uf (carrier_mask w) p)) eqs"
| union: "history uf eqs \<Longrightarrow> ref_id a < len uf \<Longrightarrow> ref_id b < len uf \<Longrightarrow> uf_mask uf ! ref_id a = uf_mask uf ! ref_id b \<Longrightarrow>
    uf_union uf a b = Some (mg, uf') \<Longrightarrow> history uf' (if mg = Contradiction then eqs else (a, b) # eqs)"
| flatten: "history uf eqs \<Longrightarrow> len uf \<le> MAX_GATHER \<Longrightarrow> uf_flatten uf = Some uf' \<Longrightarrow> history uf' eqs"

definition models_eqs :: "UnionFind \<Rightarrow> (Ref \<times> Ref) list \<Rightarrow> interp \<Rightarrow> bool" where
  "models_eqs uf eqs v \<longleftrightarrow> (\<forall>(a, b) \<in> set eqs. equates (uf_mask uf ! ref_id a) v a b)"

lemma push_inv:
  assumes "uf_inv uf" "len uf < u32_max"
  shows "uf_inv (snd (uf_push uf (carrier_mask w) p)) \<and> (\<forall>v. sat (snd (uf_push uf (carrier_mask w) p)) v = sat uf v)"
proof -
  let ?u = "snd (uf_push uf (carrier_mask w) p)"
  note l = uf_inv_lengths [OF assms(1)]
  have u: "uf_parent ?u = uf_parent uf @ [len uf]" "uf_delta ?u = uf_delta uf @ [0]" "uf_mask ?u = uf_mask uf @ [carrier_mask w]"
    "uf_pinned ?u = uf_pinned uf @ [p]" "uf_conflict ?u = uf_conflict uf @ [False]" "uf_shifted ?u = uf_shifted uf" "uf_flat_below ?u = uf_flat_below uf"
    by (simp_all add: uf_push_def Let_def)
  have c: "is_carrier (carrier_mask w)" unfolding is_carrier_def carrier_mask_eq by (intro exI [of _ "min w 64"]) simp
  have "uf_inv ?u"
    unfolding uf_inv_def u
  proof (intro conjI allI impI)
    fix i assume i: "i < length (uf_parent uf @ [len uf])"
    note a = nth_append l
    consider "i < len uf" | "i = len uf" using i by fastforce
    note cases = this
    show "(uf_parent uf @ [len uf]) ! i < length (uf_parent uf @ [len uf])"
      using cases by cases (use uf_invD [OF assms(1)] in \<open>auto simp: a less_SucI\<close>)
    show "(uf_parent uf @ [len uf]) ! i = i" if "(uf_pinned uf @ [p]) ! i"
      using cases by cases (use that uf_invD [OF assms(1)] in \<open>auto simp: a\<close>)
    show "(uf_parent uf @ [len uf]) ! i < i \<or> (uf_pinned uf @ [p]) ! ((uf_parent uf @ [len uf]) ! i)" if "(uf_parent uf @ [len uf]) ! i \<noteq> i"
      using cases by cases (use that uf_invD(1,3) [OF assms(1), of i] in \<open>auto simp: a\<close>)
    show "(uf_delta uf @ [0]) ! i = 0" if "(uf_parent uf @ [len uf]) ! i = i"
      using cases by cases (use that uf_invD [OF assms(1)] in \<open>auto simp: a\<close>)
    show "(uf_parent uf @ [len uf]) ! ((uf_parent uf @ [len uf]) ! i) = (uf_parent uf @ [len uf]) ! i" if "i < uf_flat_below uf"
      using cases by cases (use that uf_invD(1,5) [OF assms(1), of i] in \<open>auto simp: a\<close>)
    show "(uf_delta uf @ [0]) ! i = 0" if "\<not> uf_shifted uf"
      using cases by cases (use that uf_invD [OF assms(1)] in \<open>auto simp: a\<close>)
    show "is_carrier ((uf_mask uf @ [carrier_mask w]) ! i)"
      using cases by cases (use c uf_invD [OF assms(1)] in \<open>auto simp: a\<close>)
    show "(uf_mask uf @ [carrier_mask w]) ! ((uf_parent uf @ [len uf]) ! i) = (uf_mask uf @ [carrier_mask w]) ! i"
      using cases by cases (use uf_invD(1,8) [OF assms(1), of i] in \<open>auto simp: a\<close>)
    show "(uf_delta uf @ [0]) ! i AND (uf_mask uf @ [carrier_mask w]) ! i = (uf_delta uf @ [0]) ! i"
      using cases by cases (use uf_invD [OF assms(1)] in \<open>auto simp: a\<close>)
  qed (use l assms(2) in simp_all)
  moreover have "sat ?u v = sat uf v" for v
    unfolding sat_def u using uf_invD(1) [OF assms(1)] l by (simp add: nth_append less_Suc_eq cong: conj_cong)
  ultimately show ?thesis by blast
qed

lemma history_ok:
  assumes "history uf eqs"
  shows "uf_inv uf \<and> (\<forall>(a, b) \<in> set eqs. ref_id a < len uf \<and> ref_id b < len uf \<and> uf_mask uf ! ref_id a = uf_mask uf ! ref_id b) \<and>
    (\<forall>v. sat uf v \<longleftrightarrow> models_eqs uf eqs v)"
  using assms
proof (induction rule: history.induct)
  case new
  then show ?case by (simp add: uf_new_def uf_inv_def sat_def models_eqs_def)
next
  case (push uf eqs w p)
  have m: "len (snd (uf_push uf (carrier_mask w) p)) = Suc (len uf)" "i < len uf \<Longrightarrow> uf_mask (snd (uf_push uf (carrier_mask w) p)) ! i = uf_mask uf ! i" for i
    using push.IH uf_inv_lengths(2) [of uf] by (simp_all add: uf_push_def Let_def nth_append)
  have "models_eqs (snd (uf_push uf (carrier_mask w) p)) eqs v = models_eqs uf eqs v" for v
    using push.IH m(2) unfolding models_eqs_def by (intro ball_cong) auto
  then show ?case using push_inv [of uf w p] push m by (fastforce simp: less_SucI)
next
  case (union uf eqs a b mg uf')
  note u = union_ok [of uf a b]
  have u: "uf_inv uf'" "len uf' = len uf" "uf_mask uf' = uf_mask uf" "case mg of Same \<Rightarrow> uf' = uf \<and> (\<forall>v. sat uf v \<longrightarrow> equates (uf_mask uf ! ref_id a) v a b)
     | Merged s x \<Rightarrow> \<forall>v. sat uf' v \<longleftrightarrow> sat uf v \<and> equates (uf_mask uf ! ref_id a) v a b
     | Contradiction \<Rightarrow> \<forall>v. sat uf' v = sat uf v"
    using union_ok [of uf a b] union by (auto split: Merge.splits)
  have "models_eqs uf' es v = models_eqs uf es v" for es v using u(3) by (simp add: models_eqs_def)
  then show ?case using union u by (cases mg) (auto simp: models_eqs_def)
next
  case (flatten uf eqs uf')
  obtain R S where p: "places uf R S" using places_exist flatten.IH by blast
  have e: "uf' = flat_to uf R S (len uf)" using flatten_ok [OF _ _ p] flatten by simp
  note f = flat_facts [OF _ p]
  have "models_eqs uf' es v = models_eqs uf es v" for es v using flat_facts(3) [OF _ p] flatten e by (simp add: models_eqs_def)
  then show ?case using flatten e flat_facts(1-3,8) [OF _ p] by auto
qed

text \<open>Three ids of an eight-bit carrier, the second two above the first.\<close>

definition three_ids :: UnionFind where
  "three_ids = snd (uf_push (snd (uf_push (snd (uf_push uf_new (carrier_mask 8) False)) (carrier_mask 8) False)) (carrier_mask 8) True)"

lemma three_ids: "history three_ids []" "len three_ids = 3" "uf_mask three_ids = [carrier_mask 8, carrier_mask 8, carrier_mask 8]"
  "uf_parent three_ids = [0, 1, 2]" "uf_delta three_ids = [0, 0, 0]" "uf_pinned three_ids = [False, False, True]" "uf_conflict three_ids = [False, False, False]"
  "\<not> uf_shifted three_ids"
  unfolding three_ids_def by (intro history.intros; simp add: uf_push_def uf_new_def u32_max_def Let_def)
    (simp_all add: uf_push_def uf_new_def)

text \<open>C17: uniting two references on one carrier always returns and keeps the invariant. \<open>Same\<close> means the equation
  already followed; a merge adds exactly the equation to what the structure says; a contradiction
  changes nothing but conflict flags, and is reported only where the equation is refuted or both sides are zeros.\<close>

theorem uf_union_adds_equation:
  assumes "uf_inv uf" "ref_id a < len uf" "ref_id b < len uf" "uf_mask uf ! ref_id a = uf_mask uf ! ref_id b"
  shows "\<exists>mg uf'. uf_union uf a b = Some (mg, uf') \<and> uf_inv uf' \<and> uf_len uf' = uf_len uf \<and>
    (case mg of
       Same \<Rightarrow> uf' = uf \<and> (\<forall>v. sat uf v \<longrightarrow> equates (uf_mask uf ! ref_id a) v a b)
     | Merged s x \<Rightarrow> \<forall>v. sat uf' v \<longleftrightarrow> sat uf v \<and> equates (uf_mask uf ! ref_id a) v a b
     | Contradiction \<Rightarrow> (\<forall>v. sat uf' v = sat uf v) \<and>
         ((\<forall>v. sat uf v \<longrightarrow> \<not> equates (uf_mask uf ! ref_id a) v a b) \<or> uf_is_zero uf (ref_id a) = Some True \<and> uf_is_zero uf (ref_id b) = Some True))"
  using union_ok [OF assms] unfolding uf_len_def by blast

theorem uf_union_adds_equation_witness:
  "\<exists>uf'. uf_union three_ids \<lparr>ref_id = 1, ref_offset = 0\<rparr> \<lparr>ref_id = 0, ref_offset = 2\<rparr> = Some (Merged 0 1, uf') \<and>
    (\<forall>v. sat uf' v \<longleftrightarrow> sat three_ids v \<and> equates (carrier_mask 8) v \<lparr>ref_id = 1, ref_offset = 0\<rparr> \<lparr>ref_id = 0, ref_offset = 2\<rparr>)"
proof -
  let ?a = "\<lparr>ref_id = 1, ref_offset = 0\<rparr>" and ?b = "\<lparr>ref_id = 0, ref_offset = 2\<rparr>"
  have "uf_root three_ids (Suc 0) = Some (Suc 0)" "find_loop three_ids 0 2 = Some \<lparr>ref_id = 0, ref_offset = 2 AND carrier_mask 8\<rparr>"
    by (simp_all add: uf_root.simps [of three_ids] find_loop.simps [of three_ids] three_ids)
  then obtain uf' where "uf_union three_ids ?a ?b = Some (Merged 0 1, uf')"
    by (simp add: uf_union_def uf_find_def three_ids nth_opt_def set_opt_def uf_link_def Let_def)
  moreover have "uf_inv three_ids" using history_ok [OF three_ids(1)] by blast
  ultimately show ?thesis using uf_union_adds_equation [of three_ids ?a ?b] by (auto simp: three_ids)
qed



text \<open>C37: following parents always ends, and the representative of a set is a function of the set: its pinned
  member if it has one, and its smallest id otherwise.\<close>

theorem uf_root_canonical:
  assumes "history uf eqs" "i < len uf"
  shows "\<exists>r < len uf. uf_root uf i = Some r \<and> uf_root uf r = Some r \<and>
    (\<forall>j < len uf. uf_root uf j = Some r \<longrightarrow> (if uf_pinned uf ! r then uf_pinned uf ! j \<longrightarrow> j = r else \<not> uf_pinned uf ! j \<and> r \<le> j))"
proof -
  have inv: "uf_inv uf" using history_ok [OF assms(1)] by blast
  obtain r s where l: "leads uf i r s" by (rule leads_total [OF inv assms(2)])
  note f = leads_facts [OF inv l assms(2)]
  have "if uf_pinned uf ! r then uf_pinned uf ! j \<longrightarrow> j = r else \<not> uf_pinned uf ! j \<and> r \<le> j" if j: "j < len uf" "uf_root uf j = Some r" for j
  proof -
    obtain r' t where lj: "leads uf j r' t" by (rule leads_total [OF inv j(1)])
    then show ?thesis using leads_facts(4,7,8) [OF inv lj j(1)] j(2) by auto
  qed
  then show ?thesis using f(1,4) leads_facts(4) [OF inv leads.stop [OF f(2)] f(1)] by blast
qed

theorem uf_root_canonical_witness: "\<exists>r < 3. uf_root three_ids 2 = Some r \<and> uf_root three_ids r = Some r"
  using uf_root_canonical [OF three_ids(1), of 2] by (auto simp: three_ids)

text \<open>C38: flattening returns, keeps the invariant and every answer of find, and afterwards the parent and delta
  vectors are a table of every id's representative and offset.\<close>

theorem uf_flatten_tabulates:
  assumes "uf_inv uf" "len uf \<le> MAX_GATHER"
  shows "\<exists>w. uf_flatten uf = Some w \<and> uf_inv w \<and> uf_len w = uf_len uf \<and>
    (\<forall>a. ref_id a < len uf \<longrightarrow> uf_find w a = uf_find uf a) \<and>
    (\<forall>i < len uf. uf_find uf \<lparr>ref_id = i, ref_offset = 0\<rparr> = Some \<lparr>ref_id = uf_parents w ! i, ref_offset = uf_delta w ! i\<rparr>)"
proof -
  obtain R S where p: "places uf R S" using places_exist [OF assms(1)] by blast
  note f = flat_facts [OF assms(1) p assms(2)]
  let ?w = "flat_to uf R S (len uf)"
  have l: "leads uf i (R i) (S i)" if "i < len uf" for i using p that by (simp add: places_def)
  have "uf_find ?w a = uf_find uf a" if a: "ref_id a < len uf" for a
  proof -
    have "cong (uf_mask uf ! ref_id a) (ref_offset a + (S (ref_id a) AND uf_mask uf ! ref_id a)) (ref_offset a + S (ref_id a))"
      by (rule cong_add [OF uf_invD(7) [OF assms(1) a]]) simp_all
    then show ?thesis using find_leads [OF assms(1) l [OF a] a] find_leads [OF f(1) f(7) [OF a]] a f(2,3) by (simp add: cong_def)
  qed
  moreover have "uf_find uf \<lparr>ref_id = i, ref_offset = 0\<rparr> = Some \<lparr>ref_id = uf_parents ?w ! i, ref_offset = uf_delta ?w ! i\<rparr>" if "i < len uf" for i
    using find_leads [OF assms(1), of "\<lparr>ref_id = i, ref_offset = 0\<rparr>" "R i" "S i"] l [OF that] that f(5,6) [OF that] by (simp add: uf_parents_def)
  ultimately show ?thesis using flatten_ok [OF assms(1,2) p] f(1,2) by (auto simp: uf_len_def)
qed

theorem uf_flatten_tabulates_witness:
  "\<exists>w. uf_flatten three_ids = Some w \<and> uf_inv w \<and> uf_find three_ids \<lparr>ref_id = 2, ref_offset = 0\<rparr> = Some \<lparr>ref_id = uf_parents w ! 2, ref_offset = uf_delta w ! 2\<rparr>"
  using uf_flatten_tabulates [of three_ids] history_ok [OF three_ids(1)] by (auto simp: three_ids MAX_GATHER_def)

end
