(* ===== verification/AffineForm.thy ===== *)
theory AffineForm
  imports Prelude
begin

text \<open>
  The affine expressions of \<open>core/src/analysis/affine/form.rs\<close>: dense coefficients over the counters of a
  loop nest and over its symbols, and a constant, all \<open>i128\<close>. Sums and products saturate where the code
  saturates; the one product that does not (by the sign of a combination) overflows on \<open>i128::MIN\<close> and
  is then \<open>None\<close>. The lemmas relate a form to the integer it names: the range of a form that fits a
  width bounds that integer, and a combination whose range fits is exact, although its coefficients
  may have saturated.
\<close>

subsection \<open>128-bit signed arithmetic\<close>

definition i128_max :: int where
  "i128_max = 2 ^ 127 - 1"

definition i128_min :: int where
  "i128_min = - (2 ^ 127)"

definition is_i128 :: "int \<Rightarrow> bool" where
  "is_i128 x \<longleftrightarrow> i128_min \<le> x \<and> x \<le> i128_max"

text \<open>An operation that overflows when its exact result is not an \<open>i128\<close>.\<close>

definition checked :: "int \<Rightarrow> int option" where
  "checked x = (if is_i128 x then Some x else None)"

definition saturated :: "int \<Rightarrow> int" where
  "saturated x = max i128_min (min i128_max x)"

definition saturating_add :: "int \<Rightarrow> int \<Rightarrow> int" where
  "saturating_add a b = saturated (a + b)"

definition saturating_mul :: "int \<Rightarrow> int \<Rightarrow> int" where
  "saturating_mul a b = saturated (a * b)"

subsection \<open>Forms\<close>

record AffineForm =
  af_counters :: "int list"
  af_symbols :: "int list"
  af_constant :: int

definition form_default :: AffineForm where
  "form_default = \<lparr>af_counters = [], af_symbols = [], af_constant = 0\<rparr>"

definition grow_counters :: "nat \<Rightarrow> AffineForm \<Rightarrow> AffineForm" where
  "grow_counters len f =
     (if length (af_counters f) < len then f\<lparr>af_counters := resize (af_counters f) len 0\<rparr> else f)"

definition grow_symbols :: "nat \<Rightarrow> AffineForm \<Rightarrow> AffineForm" where
  "grow_symbols len f =
     (if length (af_symbols f) < len then f\<lparr>af_symbols := resize (af_symbols f) len 0\<rparr> else f)"

definition form_constant :: "int \<Rightarrow> AffineForm" where
  "form_constant v = form_default\<lparr>af_constant := v\<rparr>"

definition set_counter_coefficient :: "nat \<Rightarrow> int \<Rightarrow> AffineForm \<Rightarrow> AffineForm" where
  "set_counter_coefficient depth v f =
     (let f = grow_counters (depth + 1) f in f\<lparr>af_counters := (af_counters f)[depth := v]\<rparr>)"

definition form_counter :: "nat \<Rightarrow> AffineForm" where
  "form_counter depth =
     (let f = grow_counters (depth + 1) form_default in f\<lparr>af_counters := (af_counters f)[depth := 1]\<rparr>)"

definition form_symbol :: "nat \<Rightarrow> AffineForm" where
  "form_symbol index =
     (let f = grow_symbols (index + 1) form_default in f\<lparr>af_symbols := (af_symbols f)[index := 1]\<rparr>)"

definition coefficient_at :: "int list \<Rightarrow> nat \<Rightarrow> int" where
  "coefficient_at cs i = (if i < length cs then cs ! i else 0)"

definition counter_coefficient :: "AffineForm \<Rightarrow> nat \<Rightarrow> int" where
  "counter_coefficient f depth = coefficient_at (af_counters f) depth"

definition symbol_coefficient :: "AffineForm \<Rightarrow> nat \<Rightarrow> int" where
  "symbol_coefficient f index = coefficient_at (af_symbols f) index"

definition form_is_constant :: "AffineForm \<Rightarrow> bool" where
  "form_is_constant f \<longleftrightarrow> list_all (\<lambda>c. c = 0) (af_counters f @ af_symbols f)"

definition as_constant :: "AffineForm \<Rightarrow> int option" where
  "as_constant f = (if form_is_constant f then Some (af_constant f) else None)"

definition is_uniform :: "AffineForm \<Rightarrow> bool" where
  "is_uniform f \<longleftrightarrow> list_all (\<lambda>c. c = 0) (af_counters f)"

text \<open>The loop over two coefficient lists, the first grown to at least the second's length.\<close>

fun combine_terms :: "int \<Rightarrow> int list \<Rightarrow> int list \<Rightarrow> int list option" where
  "combine_terms sg (x # xs) (y # ys) = do {
     v \<leftarrow> checked (sg * y);
     rest \<leftarrow> combine_terms sg xs ys;
     Some (saturating_add x v # rest)
   }"
| "combine_terms sg xs _ = Some xs"

definition form_combine :: "int \<Rightarrow> AffineForm \<Rightarrow> AffineForm \<Rightarrow> AffineForm option" where
  "form_combine sg f g =
     (let f = grow_symbols (length (af_symbols g)) (grow_counters (length (af_counters g)) f)
      in do {
        cs \<leftarrow> combine_terms sg (af_counters f) (af_counters g);
        ss \<leftarrow> combine_terms sg (af_symbols f) (af_symbols g);
        v \<leftarrow> checked (sg * af_constant g);
        Some \<lparr>af_counters = cs, af_symbols = ss, af_constant = saturating_add (af_constant f) v\<rparr>
      })"

definition form_add :: "AffineForm \<Rightarrow> AffineForm \<Rightarrow> AffineForm option" where
  "form_add = form_combine 1"

definition form_sub :: "AffineForm \<Rightarrow> AffineForm \<Rightarrow> AffineForm option" where
  "form_sub = form_combine (- 1)"

definition same_slopes :: "AffineForm \<Rightarrow> AffineForm \<Rightarrow> bool option" where
  "same_slopes f g = map_option form_is_constant (form_sub f g)"

definition form_scale :: "int \<Rightarrow> AffineForm \<Rightarrow> AffineForm" where
  "form_scale factor f =
     \<lparr>af_counters = map (\<lambda>c. saturating_mul c factor) (af_counters f),
      af_symbols = map (\<lambda>c. saturating_mul c factor) (af_symbols f),
      af_constant = saturating_mul (af_constant f) factor\<rparr>"

definition checked_scale :: "int \<Rightarrow> AffineForm \<Rightarrow> AffineForm option" where
  "checked_scale factor f =
     (if list_all (\<lambda>c. checked (c * factor) \<noteq> None) (af_counters f @ af_symbols f @ [af_constant f])
      then Some (form_scale factor f) else None)"

text \<open>The loop of \<open>range\<close>: coefficients against intervals, \<open>(0, 0)\<close> where the intervals run out.\<close>

fun range_terms :: "int list \<Rightarrow> (int \<times> int) list \<Rightarrow> int \<times> int \<Rightarrow> int \<times> int" where
  "range_terms [] rs acc = acc"
| "range_terms (c # cs) rs (low, high) =
     (let (mn, mx) = (case rs of [] \<Rightarrow> (0, 0) | r # _ \<Rightarrow> r);
          a = saturating_mul c mn;
          b = saturating_mul c mx
      in range_terms cs (tl rs) (saturating_add low (min a b), saturating_add high (max a b)))"

definition form_range :: "AffineForm \<Rightarrow> (int \<times> int) list \<Rightarrow> (int \<times> int) list \<Rightarrow> int \<times> int" where
  "form_range f counters symbols =
     range_terms (af_symbols f) symbols
       (range_terms (af_counters f) counters (af_constant f, af_constant f))"

definition form_fits :: "nat \<Rightarrow> int \<times> int \<Rightarrow> bool" where
  "form_fits width r =
     (if width = 0 \<or> width > 127 then False
      else (let bound = 2 ^ (width - 1) in fst r \<ge> - bound \<and> snd r < bound))"

subsection \<open>The integer a form names\<close>

definition weighted :: "int list \<Rightarrow> (nat \<Rightarrow> int) \<Rightarrow> int" where
  "weighted cs x = (\<Sum>i<length cs. cs ! i * x i)"

definition form_value :: "AffineForm \<Rightarrow> (nat \<Rightarrow> int) \<Rightarrow> (nat \<Rightarrow> int) \<Rightarrow> int" where
  "form_value f ds ss = af_constant f + weighted (af_counters f) ds + weighted (af_symbols f) ss"

definition interval_at :: "(int \<times> int) list \<Rightarrow> nat \<Rightarrow> int \<times> int" where
  "interval_at rs i = (if i < length rs then rs ! i else (0, 0))"

definition within :: "(int \<times> int) list \<Rightarrow> (nat \<Rightarrow> int) \<Rightarrow> bool" where
  "within rs x \<longleftrightarrow> (\<forall>i. fst (interval_at rs i) \<le> x i \<and> x i \<le> snd (interval_at rs i))"

text \<open>Intervals that hold zero: those of iteration numbers and of values of a width.\<close>

definition around_zero :: "(int \<times> int) list \<Rightarrow> bool" where
  "around_zero rs \<longleftrightarrow> list_all (\<lambda>(mn, mx). mn \<le> 0 \<and> 0 \<le> mx) rs"

definition form_i128 :: "AffineForm \<Rightarrow> bool" where
  "form_i128 f \<longleftrightarrow> list_all is_i128 (af_counters f) \<and> list_all is_i128 (af_symbols f) \<and> is_i128 (af_constant f)"

lemma i128_zero [simp]: "is_i128 0" "is_i128 1" "is_i128 (- 1)"
  by (simp_all add: is_i128_def i128_min_def i128_max_def)

lemma checked_eq_Some [simp]: "checked x = Some y \<longleftrightarrow> is_i128 x \<and> y = x"
  by (auto simp: checked_def)

lemma is_i128_saturated [simp]: "is_i128 (saturated x)"
  by (simp add: is_i128_def saturated_def i128_min_def i128_max_def)

lemma saturated_id: "is_i128 x \<Longrightarrow> saturated x = x"
  by (simp add: is_i128_def saturated_def)

lemma saturated_inner: "\<lbrakk>- (2 ^ 126) \<le> saturated x; saturated x \<le> 2 ^ 126\<rbrakk> \<Longrightarrow> saturated x = x"
  by (auto simp: saturated_def i128_min_def i128_max_def max_def min_def split: if_splits)

lemma saturated_le: "\<lbrakk>is_i128 y; x \<le> y\<rbrakk> \<Longrightarrow> saturated x \<le> y"
  by (auto simp: saturated_def is_i128_def)

lemma saturated_ge: "\<lbrakk>is_i128 y; y \<le> x\<rbrakk> \<Longrightarrow> y \<le> saturated x"
  by (auto simp: saturated_def is_i128_def)

lemma interval_at_Cons [simp]:
  "interval_at [] i = (0, 0)"
  "interval_at (r # rs) 0 = r"
  "interval_at (r # rs) (Suc i) = interval_at rs i"
  by (simp_all add: interval_at_def)

lemma within_Suc: "within rs x \<Longrightarrow> within (tl rs) (\<lambda>i. x (Suc i))"
  by (cases rs) (auto simp: within_def dest: spec [of _ "Suc _"])

lemma around_zero_tl: "around_zero rs \<Longrightarrow> around_zero (tl rs)"
  by (cases rs) (auto simp: around_zero_def)

lemma interval_at_tl: "interval_at (tl rs) i = interval_at rs (Suc i)"
  by (cases rs) simp_all

lemma around_zero_at: "around_zero rs \<Longrightarrow> fst (interval_at rs i) \<le> 0 \<and> 0 \<le> snd (interval_at rs i)"
  by (auto simp: around_zero_def interval_at_def list_all_length split_beta)

lemma weighted_Nil [simp]: "weighted [] x = 0"
  by (simp add: weighted_def)

lemma weighted_Cons: "weighted (c # cs) x = c * x 0 + weighted cs (\<lambda>i. x (Suc i))"
  by (simp add: weighted_def sum.lessThan_Suc_shift del: sum.lessThan_Suc)

subsection \<open>Ranges\<close>

lemma range_terms_step:
  "range_terms (c # cs) rs (low, high) =
     range_terms cs (tl rs)
       (saturating_add low (min (saturating_mul c (fst (interval_at rs 0))) (saturating_mul c (snd (interval_at rs 0)))),
        saturating_add high (max (saturating_mul c (fst (interval_at rs 0))) (saturating_mul c (snd (interval_at rs 0)))))"
  by (cases rs) (simp_all add: Let_def split_beta)

lemma saturating_mul_signs:
  assumes "mn \<le> 0" "0 \<le> mx"
  shows "min (saturating_mul c mn) (saturating_mul c mx) \<le> 0" "0 \<le> max (saturating_mul c mn) (saturating_mul c mx)"
proof -
  have z: "is_i128 0" by simp
  have "c * mn \<le> 0 \<and> 0 \<le> c * mx \<or> 0 \<le> c * mn \<and> c * mx \<le> 0"
    using assms by (cases "0 \<le> c") (auto simp: mult_nonneg_nonpos mult_nonpos_nonpos mult_nonpos_nonneg)
  then show "min (saturating_mul c mn) (saturating_mul c mx) \<le> 0" "0 \<le> max (saturating_mul c mn) (saturating_mul c mx)"
    using saturated_le [OF z] saturated_ge [OF z] by (auto simp: saturating_mul_def min_le_iff_disj le_max_iff_disj)
qed

lemma range_terms_mono:
  assumes "around_zero rs" "is_i128 low" "is_i128 high"
  shows "fst (range_terms cs rs (low, high)) \<le> low \<and> high \<le> snd (range_terms cs rs (low, high))"
  using assms
proof (induction cs arbitrary: rs low high)
  case (Cons c cs)
  have az: "fst (interval_at rs 0) \<le> 0" "0 \<le> snd (interval_at rs 0)"
    using around_zero_at [OF Cons.prems(1), of 0] by simp_all
  note sg = saturating_mul_signs [OF az, of c]
  let ?a = "saturating_mul c (fst (interval_at rs 0))" and ?b = "saturating_mul c (snd (interval_at rs 0))"
  have "saturating_add low (min ?a ?b) \<le> low" "high \<le> saturating_add high (max ?a ?b)"
    using sg Cons.prems by (auto simp: saturating_add_def intro!: saturated_le saturated_ge)
  moreover have "is_i128 (saturating_add low (min ?a ?b))" "is_i128 (saturating_add high (max ?a ?b))"
    by (simp_all add: saturating_add_def)
  ultimately show ?case
    using Cons.IH [OF around_zero_tl [OF Cons.prems(1)], of "saturating_add low (min ?a ?b)" "saturating_add high (max ?a ?b)"]
    unfolding range_terms_step by linarith
qed simp

text \<open>A product that the range of a fitting form does not let saturate.\<close>

lemma bounded_products:
  assumes B: "B \<le> 2 ^ 125"
    and ab: "- 2 * B < min (saturating_mul c mn) (saturating_mul c mx)" "max (saturating_mul c mn) (saturating_mul c mx) < 2 * B"
    and mn: "mn \<le> 0" "0 \<le> mx" and x: "mn \<le> x" "x \<le> mx"
  shows "min (saturating_mul c mn) (saturating_mul c mx) \<le> c * x" "c * x \<le> max (saturating_mul c mn) (saturating_mul c mx)"
    and "(mn, mx) \<noteq> (0, 0) \<Longrightarrow> \<bar>c\<bar> < 2 * B"
proof -
  have inner: "saturated y = y" if "- 2 * B < saturated y" "saturated y < 2 * B" for y
    using that B by (intro saturated_inner; simp)
  have eq: "saturating_mul c mn = c * mn" "saturating_mul c mx = c * mx"
    unfolding saturating_mul_def by (rule inner; use ab in \<open>simp add: saturating_mul_def\<close>)+
  have "c * mn \<le> c * x \<and> c * x \<le> c * mx \<or> c * mx \<le> c * x \<and> c * x \<le> c * mn"
    using x by (cases "0 \<le> c") (auto simp: mult_left_mono mult_left_mono_neg)
  then show "min (saturating_mul c mn) (saturating_mul c mx) \<le> c * x" "c * x \<le> max (saturating_mul c mn) (saturating_mul c mx)"
    unfolding eq by auto
  have prod: "\<bar>c * mn\<bar> < 2 * B" "\<bar>c * mx\<bar> < 2 * B"
    using ab unfolding eq by auto
  show "\<bar>c\<bar> < 2 * B" if "(mn, mx) \<noteq> (0, 0)"
  proof -
    have big: "\<bar>c\<bar> \<le> \<bar>c * k\<bar>" if "k \<noteq> 0" for k
      using that mult_left_mono [of 1 "\<bar>k\<bar>" "\<bar>c\<bar>"] by (simp add: abs_mult)
    from that consider "mn \<noteq> 0" | "mx \<noteq> 0" by auto
    then show ?thesis
      using big [of mn] big [of mx] prod by cases linarith+
  qed
qed

lemma range_terms_exact:
  assumes "around_zero rs" "within rs x" "is_i128 low" "is_i128 high" "low \<le> high"
    and "- B \<le> fst (range_terms cs rs (low, high))" "snd (range_terms cs rs (low, high)) < B" "B \<le> 2 ^ 125"
  shows "fst (range_terms cs rs (low, high)) \<le> low + weighted cs x \<and> high + weighted cs x \<le> snd (range_terms cs rs (low, high)) \<and>
    (\<forall>i<length cs. interval_at rs i \<noteq> (0, 0) \<longrightarrow> \<bar>cs ! i\<bar> < 2 * B)"
  using assms
proof (induction cs arbitrary: rs low high x)
  case (Cons c cs)
  let ?mn = "fst (interval_at rs 0)" and ?mx = "snd (interval_at rs 0)"
  let ?a = "saturating_mul c ?mn" and ?b = "saturating_mul c ?mx"
  let ?low = "saturating_add low (min ?a ?b)" and ?high = "saturating_add high (max ?a ?b)"
  have az: "?mn \<le> 0" "0 \<le> ?mx"
    using around_zero_at [OF Cons.prems(1), of 0] by simp_all
  have x0: "?mn \<le> x 0" "x 0 \<le> ?mx"
    using Cons.prems(2) by (auto simp: within_def)
  note sg = saturating_mul_signs [OF az, of c]
  have i: "is_i128 ?low" "is_i128 ?high"
    by (simp_all add: saturating_add_def)
  have fin: "- B \<le> fst (range_terms cs (tl rs) (?low, ?high))" "snd (range_terms cs (tl rs) (?low, ?high)) < B"
    using Cons.prems(6,7) by (simp_all only: range_terms_step)
  have mono: "- B \<le> ?low" "?high < B"
    using range_terms_mono [OF around_zero_tl [OF Cons.prems(1)] i, of cs] fin by linarith+
  have down: "?low \<le> low" "high \<le> ?high"
    using sg Cons.prems(3,4) by (auto simp: saturating_add_def intro!: saturated_le saturated_ge)
  have eq: "?low = low + min ?a ?b" "?high = high + max ?a ?b"
    unfolding saturating_add_def
    using mono down Cons.prems(5,8) by (intro saturated_inner; simp add: saturating_add_def)+
  have ab: "- 2 * B < min ?a ?b" "max ?a ?b < 2 * B"
    using mono down eq Cons.prems(5) by linarith+
  note P = bounded_products [OF Cons.prems(8) ab az x0]
  have le: "?low \<le> ?high"
    using down Cons.prems(5) by linarith
  have IH: "fst (range_terms cs (tl rs) (?low, ?high)) \<le> ?low + weighted cs (\<lambda>i. x (Suc i)) \<and>
      ?high + weighted cs (\<lambda>i. x (Suc i)) \<le> snd (range_terms cs (tl rs) (?low, ?high)) \<and>
      (\<forall>i<length cs. interval_at (tl rs) i \<noteq> (0, 0) \<longrightarrow> \<bar>cs ! i\<bar> < 2 * B)"
    by (rule Cons.IH [OF around_zero_tl [OF Cons.prems(1)] within_Suc [OF Cons.prems(2)] i le fin Cons.prems(8)])
  have nth: "\<forall>i<length (c # cs). interval_at rs i \<noteq> (0, 0) \<longrightarrow> \<bar>(c # cs) ! i\<bar> < 2 * B"
    using IH P(3) by (auto simp: less_Suc_eq_0_disj interval_at_tl prod_eq_iff)
  show ?case
    unfolding range_terms_step weighted_Cons
    using IH P(1,2) eq nth by (intro conjI) linarith+
qed (auto simp: within_def)

lemma range_terms_i128:
  "\<lbrakk>is_i128 low; is_i128 high\<rbrakk> \<Longrightarrow>
     is_i128 (fst (range_terms cs rs (low, high))) \<and> is_i128 (snd (range_terms cs rs (low, high)))"
  by (induction cs arbitrary: rs low high) (simp_all add: range_terms_step saturating_add_def del: range_terms.simps(2))

text \<open>A form whose range fits a width of at most 126 bits: its range bounds the integer it names, its
  constant is no limit of \<open>i128\<close>, and neither is a coefficient whose variable may be nonzero.\<close>

lemma fitting_form:
  assumes fits: "form_fits w (form_range f cr sr)" and w: "w \<le> 126" and ok: "form_i128 f"
    and cr: "around_zero cr" "within cr ds" and sr: "around_zero sr" "within sr ss"
  shows "fst (form_range f cr sr) \<le> form_value f ds ss \<and> form_value f ds ss \<le> snd (form_range f cr sr)"
    and "\<bar>af_constant f\<bar> \<le> 2 ^ 125"
    and "i < length (af_counters f) \<Longrightarrow> interval_at cr i \<noteq> (0, 0) \<Longrightarrow> \<bar>af_counters f ! i\<bar> < 2 ^ 126"
    and "i < length (af_symbols f) \<Longrightarrow> interval_at sr i \<noteq> (0, 0) \<Longrightarrow> \<bar>af_symbols f ! i\<bar> < 2 ^ 126"
proof -
  define low where "low = fst (range_terms (af_counters f) cr (af_constant f, af_constant f))"
  define high where "high = snd (range_terms (af_counters f) cr (af_constant f, af_constant f))"
  define B :: int where "B = 2 ^ 125"
  have c: "is_i128 (af_constant f)" using ok by (simp add: form_i128_def)
  have i: "is_i128 low" "is_i128 high"
    unfolding low_def high_def using range_terms_i128 [OF c c] by simp_all
  have r: "form_range f cr sr = range_terms (af_symbols f) sr (low, high)"
    by (simp add: form_range_def low_def high_def)
  have lh: "low \<le> af_constant f" "af_constant f \<le> high"
    using range_terms_mono [OF cr(1) c c] by (simp_all add: low_def high_def)
  have "(2::int) ^ (w - 1) \<le> B"
    unfolding B_def using w by (intro power_increasing) auto
  then have b: "- B \<le> fst (range_terms (af_symbols f) sr (low, high))" "snd (range_terms (af_symbols f) sr (low, high)) < B"
    using fits by (auto simp: form_fits_def r Let_def split: if_splits)
  have s: "low + weighted (af_symbols f) ss \<ge> fst (range_terms (af_symbols f) sr (low, high))"
    "high + weighted (af_symbols f) ss \<le> snd (range_terms (af_symbols f) sr (low, high))"
    "\<forall>i<length (af_symbols f). interval_at sr i \<noteq> (0, 0) \<longrightarrow> \<bar>af_symbols f ! i\<bar> < 2 * B"
    using range_terms_exact [OF sr i _ b] lh by (auto simp: B_def)
  have b2: "- B \<le> low" "high < B"
    using range_terms_mono [OF sr(1) i, of "af_symbols f"] b by linarith+
  have t: "low \<le> af_constant f + weighted (af_counters f) ds" "af_constant f + weighted (af_counters f) ds \<le> high"
    "\<forall>i<length (af_counters f). interval_at cr i \<noteq> (0, 0) \<longrightarrow> \<bar>af_counters f ! i\<bar> < 2 * B"
    using range_terms_exact [OF cr c c _ b2 [unfolded low_def high_def]] by (auto simp: B_def low_def high_def)
  show "fst (form_range f cr sr) \<le> form_value f ds ss \<and> form_value f ds ss \<le> snd (form_range f cr sr)"
    using s t by (simp add: r form_value_def)
  show "\<bar>af_constant f\<bar> \<le> 2 ^ 125"
    using b2 lh by (simp add: B_def)
  show "i < length (af_counters f) \<Longrightarrow> interval_at cr i \<noteq> (0, 0) \<Longrightarrow> \<bar>af_counters f ! i\<bar> < 2 ^ 126"
    using t(3) by (simp add: B_def)
  show "i < length (af_symbols f) \<Longrightarrow> interval_at sr i \<noteq> (0, 0) \<Longrightarrow> \<bar>af_symbols f ! i\<bar> < 2 ^ 126"
    using s(3) by (simp add: B_def)
qed

subsection \<open>Values of the operations\<close>

lemma weighted_coefficients: "length cs \<le> n \<Longrightarrow> weighted cs x = (\<Sum>i<n. coefficient_at cs i * x i)"
proof -
  assume le: "length cs \<le> n"
  have "(\<Sum>i<n. coefficient_at cs i * x i) = (\<Sum>i<length cs. coefficient_at cs i * x i)"
    by (rule sum.mono_neutral_right) (use le in \<open>auto simp: coefficient_at_def\<close>)
  then show ?thesis
    by (simp add: weighted_def coefficient_at_def)
qed

lemma coefficient_at_resize [simp]: "length cs \<le> n \<Longrightarrow> coefficient_at (resize cs n 0) i = coefficient_at cs i"
  by (auto simp: coefficient_at_def nth_resize)

lemma weighted_resize [simp]: "length cs \<le> n \<Longrightarrow> weighted (resize cs n 0) x = weighted cs x"
  using weighted_coefficients [of cs n x] weighted_coefficients [of "resize cs n 0" n x] by simp

lemma weighted_update: "i < length cs \<Longrightarrow> weighted (cs[i := v]) x = weighted cs x + (v - cs ! i) * x i"
proof (induction cs arbitrary: i x)
  case (Cons c cs)
  show ?case
  proof (cases i)
    case (Suc j)
    then show ?thesis
      using Cons.IH [of j "\<lambda>i. x (Suc i)"] Cons.prems by (simp add: weighted_Cons)
  qed (simp add: weighted_Cons algebra_simps)
qed simp

lemma weighted_zeros: "list_all (\<lambda>c. c = 0) cs \<Longrightarrow> weighted cs x = 0"
  by (auto simp: weighted_def list_all_length)

lemma list_all_resize: "\<lbrakk>list_all P xs; P v\<rbrakk> \<Longrightarrow> list_all P (resize xs n v)"
  by (auto simp: resize_def list_all_iff dest: in_set_takeD)

lemma form_grown [simp]:
  "form_value (grow_counters n f) ds ss = form_value f ds ss"
  "form_value (grow_symbols n f) ds ss = form_value f ds ss"
  "length (af_counters (grow_counters n f)) = max n (length (af_counters f))"
  "length (af_symbols (grow_symbols n f)) = max n (length (af_symbols f))"
  "af_symbols (grow_counters n f) = af_symbols f"
  "af_counters (grow_symbols n f) = af_counters f"
  "af_constant (grow_counters n f) = af_constant f"
  "af_constant (grow_symbols n f) = af_constant f"
  "form_i128 f \<Longrightarrow> form_i128 (grow_counters n f)"
  "form_i128 f \<Longrightarrow> form_i128 (grow_symbols n f)"
  by (simp_all add: grow_counters_def grow_symbols_def form_value_def form_i128_def list_all_resize)

lemma form_constant_value [simp]: "form_value (form_constant v) ds ss = v"
  by (simp add: form_constant_def form_default_def form_value_def)

lemma form_counter_value [simp]: "form_value (form_counter d) ds ss = ds d"
  by (simp add: form_counter_def form_default_def grow_counters_def Let_def form_value_def weighted_update nth_resize)

lemma form_symbol_value [simp]: "form_value (form_symbol i) ds ss = ss i"
  by (simp add: form_symbol_def form_default_def grow_symbols_def Let_def form_value_def weighted_update nth_resize)

lemma set_counter_coefficient_value:
  "form_value (set_counter_coefficient d v f) ds ss = form_value f ds ss + (v - counter_coefficient f d) * ds d"
  by (auto simp: set_counter_coefficient_def Let_def form_value_def weighted_update grow_counters_def counter_coefficient_def
      coefficient_at_def nth_resize)

lemma constant_form_value: "as_constant f = Some v \<Longrightarrow> form_value f ds ss = v"
  by (simp add: as_constant_def form_is_constant_def form_value_def weighted_zeros split: if_splits)

lemma uniform_form_value: "is_uniform f \<Longrightarrow> form_value f ds ss = form_value f ds' ss"
  by (simp add: is_uniform_def form_value_def weighted_zeros)

lemma form_default_i128 [simp]: "form_i128 form_default"
  by (simp add: form_default_def form_i128_def)

lemma form_basics_i128 [simp]:
  "is_i128 v \<Longrightarrow> form_i128 (form_constant v)"
  "form_i128 (form_counter d)"
  "form_i128 (form_symbol i)"
  by (auto simp: form_constant_def form_counter_def form_symbol_def form_default_def form_i128_def grow_counters_def
      grow_symbols_def Let_def list_all_length nth_list_update nth_resize)

subsection \<open>Combinations\<close>

lemma combine_terms_nth:
  assumes "combine_terms sg xs ys = Some r" "length ys \<le> length xs" "list_all is_i128 xs"
  shows "length r = length xs \<and> list_all is_i128 r \<and>
    (\<forall>i<length xs. r ! i = saturated (xs ! i + sg * coefficient_at ys i))"
  using assms
proof (induction sg xs ys arbitrary: r rule: combine_terms.induct)
  case (1 sg x xs y ys)
  then show ?case
    by (auto simp: saturating_add_def nth_Cons coefficient_at_def split: bind_splits nat.splits)
qed (auto simp: list_all_length coefficient_at_def saturated_id)

lemma combine_terms_defined: "list_all (\<lambda>y. is_i128 (sg * y)) ys \<Longrightarrow> \<exists>r. combine_terms sg xs ys = Some r"
  by (induction sg xs ys rule: combine_terms.induct) (auto simp: checked_def)

lemma weighted_combine:
  assumes r: "length r = length xs" "length ys \<le> length xs" "\<forall>i<length xs. r ! i = saturated (xs ! i + sg * coefficient_at ys i)"
    and b: "\<forall>i<length r. x i \<noteq> 0 \<longrightarrow> \<bar>r ! i\<bar> < 2 ^ 126"
  shows "weighted r x = weighted xs x + sg * weighted ys x"
proof -
  have "r ! i * x i = (xs ! i + sg * coefficient_at ys i) * x i" if "i < length xs" for i
  proof (cases "x i = 0")
    case False
    then have "\<bar>saturated (xs ! i + sg * coefficient_at ys i)\<bar> < 2 ^ 126"
      using b r that by simp
    then have "saturated (xs ! i + sg * coefficient_at ys i) = xs ! i + sg * coefficient_at ys i"
      by (intro saturated_inner) linarith+
    then show ?thesis using r that by simp
  qed simp
  then have "weighted r x = (\<Sum>i<length xs. (xs ! i + sg * coefficient_at ys i) * x i)"
    unfolding weighted_def r(1) by (intro sum.cong) auto
  also have "\<dots> = weighted xs x + sg * (\<Sum>i<length xs. coefficient_at ys i * x i)"
    by (simp add: weighted_def sum.distrib algebra_simps sum_distrib_left)
  finally show ?thesis
    using weighted_coefficients [OF r(2)] by simp
qed

lemma form_combine_parts:
  assumes h: "form_combine sg f g = Some h" and f: "form_i128 f"
  shows "form_i128 h"
    and "af_constant h = saturated (af_constant f + sg * af_constant g)"
    and "\<forall>i<length (af_counters h). x i \<noteq> 0 \<longrightarrow> \<bar>af_counters h ! i\<bar> < 2 ^ 126 \<Longrightarrow>
      weighted (af_counters h) x = weighted (af_counters f) x + sg * weighted (af_counters g) x"
    and "\<forall>i<length (af_symbols h). y i \<noteq> 0 \<longrightarrow> \<bar>af_symbols h ! i\<bar> < 2 ^ 126 \<Longrightarrow>
      weighted (af_symbols h) y = weighted (af_symbols f) y + sg * weighted (af_symbols g) y"
proof -
  define f' where "f' = grow_symbols (length (af_symbols g)) (grow_counters (length (af_counters g)) f)"
  have f': "form_i128 f'" "length (af_counters g) \<le> length (af_counters f')" "length (af_symbols g) \<le> length (af_symbols f')"
    "af_constant f' = af_constant f"
    using f by (simp_all add: f'_def)
  have w: "weighted (af_counters f') x = weighted (af_counters f) x" "weighted (af_symbols f') y = weighted (af_symbols f) y" for x y
    by (simp_all add: f'_def grow_counters_def grow_symbols_def)
  obtain cs ss where cs: "combine_terms sg (af_counters f') (af_counters g) = Some cs"
    and ss: "combine_terms sg (af_symbols f') (af_symbols g) = Some ss"
    and h': "h = \<lparr>af_counters = cs, af_symbols = ss, af_constant = saturating_add (af_constant f) (sg * af_constant g)\<rparr>"
    using h f'(4) by (auto simp: form_combine_def Let_def f'_def split: bind_splits)
  note C = combine_terms_nth [OF cs f'(2)] and S = combine_terms_nth [OF ss f'(3)]
  have l: "list_all is_i128 (af_counters f')" "list_all is_i128 (af_symbols f')"
    using f'(1) by (simp_all add: form_i128_def)
  show "form_i128 h"
    using C [OF l(1)] S [OF l(2)] by (simp add: h' form_i128_def saturating_add_def)
  show "af_constant h = saturated (af_constant f + sg * af_constant g)"
    by (simp add: h' saturating_add_def)
  show "\<forall>i<length (af_counters h). x i \<noteq> 0 \<longrightarrow> \<bar>af_counters h ! i\<bar> < 2 ^ 126 \<Longrightarrow>
      weighted (af_counters h) x = weighted (af_counters f) x + sg * weighted (af_counters g) x"
    using weighted_combine [of cs "af_counters f'" "af_counters g" sg x] C [OF l(1)] f'(2) by (simp add: h' w)
  show "\<forall>i<length (af_symbols h). y i \<noteq> 0 \<longrightarrow> \<bar>af_symbols h ! i\<bar> < 2 ^ 126 \<Longrightarrow>
      weighted (af_symbols h) y = weighted (af_symbols f) y + sg * weighted (af_symbols g) y"
    using weighted_combine [of ss "af_symbols f'" "af_symbols g" sg y] S [OF l(2)] f'(3) by (simp add: h' w)
qed

text \<open>A combination whose range fits a width of at most 126 bits names the combination of the integers.\<close>

lemma fitting_combination:
  assumes h: "form_combine sg f g = Some h" and ok: "form_i128 f"
    and fits: "form_fits w (form_range h cr sr)" and w: "w \<le> 126"
    and cr: "around_zero cr" "within cr ds" and sr: "around_zero sr" "within sr ss"
  shows "form_value h ds ss = form_value f ds ss + sg * form_value g ds ss"
proof -
  note P = form_combine_parts [OF h ok]
  note F = fitting_form [OF fits w P(1) cr sr]
  have cz: "ds i \<noteq> 0 \<Longrightarrow> interval_at cr i \<noteq> (0, 0)" "ss i \<noteq> 0 \<Longrightarrow> interval_at sr i \<noteq> (0, 0)" for i
    using cr(2) sr(2) by (auto simp: within_def dest!: spec [of _ i])
  have c: "weighted (af_counters h) ds = weighted (af_counters f) ds + sg * weighted (af_counters g) ds"
    using F(3) cz(1) by (intro P(3)) blast
  have s: "weighted (af_symbols h) ss = weighted (af_symbols f) ss + sg * weighted (af_symbols g) ss"
    using F(4) cz(2) by (intro P(4)) blast
  have "saturated (af_constant f + sg * af_constant g) = af_constant f + sg * af_constant g"
    using F(2) unfolding P(2) by (intro saturated_inner; simp)
  then show ?thesis
    by (simp add: form_value_def c s P(2) algebra_simps)
qed

lemma form_combine_defined:
  assumes "list_all (\<lambda>y. is_i128 (sg * y)) (af_counters g)" "list_all (\<lambda>y. is_i128 (sg * y)) (af_symbols g)"
    "is_i128 (sg * af_constant g)"
  shows "\<exists>h. form_combine sg f g = Some h"
proof -
  define f' where "f' = grow_symbols (length (af_symbols g)) (grow_counters (length (af_counters g)) f)"
  obtain cs where "combine_terms sg (af_counters f') (af_counters g) = Some cs"
    using combine_terms_defined [OF assms(1)] by blast
  moreover obtain ss where "combine_terms sg (af_symbols f') (af_symbols g) = Some ss"
    using combine_terms_defined [OF assms(2)] by blast
  ultimately show ?thesis
    using assms(3) by (simp add: form_combine_def Let_def checked_def f'_def [symmetric])
qed

lemma form_add_defined: "form_i128 g \<Longrightarrow> \<exists>h. form_add f g = Some h"
  unfolding form_add_def by (rule form_combine_defined) (auto simp: form_i128_def)

subsection \<open>Products\<close>

lemma weighted_map: "weighted (map (\<lambda>c. c * k) cs) x = k * weighted cs x"
  by (simp add: weighted_def sum_distrib_left algebra_simps)

lemma checked_scale_value:
  assumes "checked_scale k f = Some h"
  shows "form_value h ds ss = k * form_value f ds ss \<and> form_i128 h"
proof -
  have k: "list_all (\<lambda>c. is_i128 (c * k)) (af_counters f)" "list_all (\<lambda>c. is_i128 (c * k)) (af_symbols f)" "is_i128 (af_constant f * k)"
    and h: "h = form_scale k f"
    using assms by (auto simp: checked_scale_def checked_def list_all_iff split: if_splits)
  have m: "map (\<lambda>c. saturating_mul c k) cs = map (\<lambda>c. c * k) cs" if "list_all (\<lambda>c. is_i128 (c * k)) cs" for cs
    using that by (auto simp: saturating_mul_def saturated_id list_all_iff)
  have "h = \<lparr>af_counters = map (\<lambda>c. c * k) (af_counters f), af_symbols = map (\<lambda>c. c * k) (af_symbols f),
      af_constant = af_constant f * k\<rparr>"
    unfolding h form_scale_def m [OF k(1)] m [OF k(2)] by (simp add: saturating_mul_def saturated_id k(3))
  then show ?thesis
    using k by (simp add: form_value_def form_i128_def weighted_map algebra_simps list_all_iff)
qed

text \<open>The bound of 126 bits is sharp: at 127 bits a form with a saturated coefficient fits, although the sum
  it stands for has left the width.\<close>

lemma saturated_width_127:
  "form_add \<lparr>af_counters = [i128_max], af_symbols = [], af_constant = - (2 ^ 126)\<rparr> (form_counter 0) =
     Some \<lparr>af_counters = [i128_max], af_symbols = [], af_constant = - (2 ^ 126)\<rparr> \<and>
   form_fits 127 (form_range \<lparr>af_counters = [i128_max], af_symbols = [], af_constant = - (2 ^ 126)\<rparr> [(0, 1)] []) \<and>
   - (2 ^ 126) + (i128_max + 1) * 1 \<ge> 2 ^ (127 - 1)"
  by code_simp

end
