(* ===== verification/Dependence.thy ===== *)
theory Dependence
  imports AffineForm
begin

text \<open>
  The single-equation dependence test of \<open>core/src/analysis/affine/dependence.rs\<close>: the distances between
  iterations that one linear equation admits, enumerated over direction vectors and summarised per
  depth. Arithmetic is \<open>i128\<close> and plain: an overflow is the result \<open>None\<close>, which the theorem excludes for
  coefficients, extents and targets of the sizes an iteration space has. The test is shown to miss no
  distance: whatever the equation admits is inside the summary.
\<close>

subsection \<open>Components and directions\<close>

datatype Sign = SignPositive | SignNegative

datatype Component = Distance int | Direction Sign | AnyDistance

datatype Dir = DirZero | DirPositive | DirNegative

definition unbounded :: int where
  "unbounded = 2 ^ 62"

fun all_directions :: "nat \<Rightarrow> Dir list list" where
  "all_directions 0 = [[]]"
| "all_directions (Suc n) =
     concat (map (\<lambda>prefix. map (\<lambda>d. prefix @ [d]) [DirZero, DirPositive, DirNegative]) (all_directions n))"

definition enumerate_directions :: "nat \<Rightarrow> Dir list list" where
  "enumerate_directions depth =
     filter (\<lambda>ds. case find (\<lambda>d. d \<noteq> DirZero) ds of None \<Rightarrow> False | Some d \<Rightarrow> d = DirPositive) (all_directions depth)"

definition dir_span :: "int list \<Rightarrow> Dir list \<Rightarrow> nat \<Rightarrow> (int \<times> int) option" where
  "dir_span extents directions depth = do {
     d \<leftarrow> nth_opt directions depth;
     (case d of
        DirZero \<Rightarrow> Some (0, 0)
      | DirPositive \<Rightarrow> map_option (\<lambda>e. (1, e)) (nth_opt extents depth)
      | DirNegative \<Rightarrow> Option.bind (nth_opt extents depth) (\<lambda>e. map_option (\<lambda>n. (n, - 1)) (checked (- e))))
   }"

subsection \<open>Arithmetic\<close>

function gcd_loop :: "int \<Rightarrow> int \<Rightarrow> int" where
  "gcd_loop a b = (if b = 0 then a else gcd_loop b (a mod b))"
  by pat_completeness auto
termination
  by (relation "measure (\<lambda>(a, b). nat \<bar>b\<bar>)") (auto simp: abs_mod_less)

declare gcd_loop.simps [simp del]

definition dep_gcd :: "int \<Rightarrow> int \<Rightarrow> int option" where
  "dep_gcd a b = do { a \<leftarrow> checked \<bar>a\<bar>; b \<leftarrow> checked \<bar>b\<bar>; Some (gcd_loop a b) }"

definition floor_div :: "int \<Rightarrow> int \<Rightarrow> int option" where
  "floor_div a b =
     (if b = 0 then None
      else if b < 0 then do { a \<leftarrow> checked (- a); b \<leftarrow> checked (- b); Some (a div b) }
      else Some (a div b))"

definition ceil_div :: "int \<Rightarrow> int \<Rightarrow> int option" where
  "ceil_div a b = do { a \<leftarrow> checked (- a); q \<leftarrow> floor_div a b; checked (- q) }"

definition divides_something :: "int \<Rightarrow> int \<Rightarrow> int \<Rightarrow> bool option" where
  "divides_something divisor low high =
     (if divisor = 0 then Some (low \<le> 0 \<and> 0 \<le> high)
      else map_option (\<lambda>m. m \<ge> low) (checked (high div divisor * divisor)))"

subsection \<open>The test\<close>

fun sum_range_from ::
  "int list \<Rightarrow> int list \<Rightarrow> Dir list \<Rightarrow> nat option \<Rightarrow> nat \<Rightarrow> int \<times> int \<Rightarrow> (int \<times> int) option" where
  "sum_range_from [] extents directions skip depth acc = Some acc"
| "sum_range_from (c # cs) extents directions skip depth (low, high) =
     (if skip = Some depth then sum_range_from cs extents directions skip (depth + 1) (low, high)
      else do {
        (first, last) \<leftarrow> dir_span extents directions depth;
        a \<leftarrow> checked (c * first);
        b \<leftarrow> checked (c * last);
        low \<leftarrow> checked (low + min a b);
        high \<leftarrow> checked (high + max a b);
        sum_range_from cs extents directions skip (depth + 1) (low, high)
      })"

definition sum_range :: "int list \<Rightarrow> int list \<Rightarrow> Dir list \<Rightarrow> nat option \<Rightarrow> (int \<times> int) option" where
  "sum_range coefficients extents directions skip = sum_range_from coefficients extents directions skip 0 (0, 0)"

fun divisor_from :: "int list \<Rightarrow> Dir list \<Rightarrow> nat \<Rightarrow> int \<Rightarrow> int option" where
  "divisor_from [] directions depth acc = Some acc"
| "divisor_from (c # cs) directions depth acc = do {
     d \<leftarrow> nth_opt directions depth;
     acc \<leftarrow> (if d \<noteq> DirZero then dep_gcd acc c else Some acc);
     divisor_from cs directions (depth + 1) acc
   }"

fun any_target :: "int \<Rightarrow> int \<times> int \<Rightarrow> (int \<times> int) list \<Rightarrow> bool option" where
  "any_target divisor box [] = Some False"
| "any_target divisor (low, high) ((first, final) # targets) =
     (let (first, final) = (max first low, min final high)
      in do {
        hit \<leftarrow> (if first \<le> final then divides_something divisor first final else Some False);
        if hit then Some True else any_target divisor (low, high) targets
      })"

definition admits :: "int list \<Rightarrow> int list \<Rightarrow> (int \<times> int) list \<Rightarrow> Dir list \<Rightarrow> bool option" where
  "admits coefficients extents targets directions = do {
     box \<leftarrow> sum_range coefficients extents directions None;
     divisor \<leftarrow> divisor_from coefficients directions 0 0;
     any_target divisor box targets
   }"

text \<open>The interval a target leaves for the distance at one depth.\<close>

definition target_interval :: "int \<Rightarrow> int \<times> int \<Rightarrow> int \<times> int \<Rightarrow> (int \<times> int) option" where
  "target_interval coefficient rest target = do {
     product_low \<leftarrow> checked (fst target - snd rest);
     product_high \<leftarrow> checked (snd target - fst rest);
     if coefficient > 0 then do {
       a \<leftarrow> ceil_div product_low coefficient;
       b \<leftarrow> floor_div product_high coefficient;
       Some (a, b)
     } else do {
       a \<leftarrow> ceil_div product_high coefficient;
       b \<leftarrow> floor_div product_low coefficient;
       Some (a, b)
     }
   }"

fun span_loop ::
  "int \<Rightarrow> int \<times> int \<Rightarrow> int \<times> int \<Rightarrow> (int \<times> int) list \<Rightarrow> int \<times> int \<Rightarrow> (int \<times> int) option" where
  "span_loop coefficient rest box [] acc = Some acc"
| "span_loop coefficient rest (first, final) (target # targets) (low, high) = do {
     (a, b) \<leftarrow> target_interval coefficient rest target;
     let (a, b) = (max a first, min b final);
     span_loop coefficient rest (first, final) targets
       (if a \<le> b then (min low a, max high b) else (low, high))
   }"

definition reachable_span ::
  "int list \<Rightarrow> int list \<Rightarrow> (int \<times> int) list \<Rightarrow> Dir list \<Rightarrow> nat \<Rightarrow> (int \<times> int) option" where
  "reachable_span coefficients extents targets directions depth = do {
     (first, last) \<leftarrow> dir_span extents directions depth;
     coefficient \<leftarrow> nth_opt coefficients depth;
     if coefficient = 0 then Some (first, last)
     else do {
       rest \<leftarrow> sum_range coefficients extents directions (Some depth);
       (low, high) \<leftarrow> span_loop coefficient rest (first, last) targets (i128_max, i128_min);
       Some (if low > high then (first, last) else (low, high))
     }
   }"

fun summarize_loop ::
  "int list \<Rightarrow> int list \<Rightarrow> (int \<times> int) list \<Rightarrow> nat \<Rightarrow> Dir list list \<Rightarrow> int \<times> int \<Rightarrow> (int \<times> int) option" where
  "summarize_loop coefficients extents targets depth [] acc = Some acc"
| "summarize_loop coefficients extents targets depth (directions # admitted) (low, high) = do {
     (first, last) \<leftarrow> reachable_span coefficients extents targets directions depth;
     summarize_loop coefficients extents targets depth admitted (min low first, max high last)
   }"

definition summarize ::
  "int list \<Rightarrow> int list \<Rightarrow> (int \<times> int) list \<Rightarrow> Dir list list \<Rightarrow> nat \<Rightarrow> Component option" where
  "summarize coefficients extents targets admitted depth = do {
     (low, high) \<leftarrow> summarize_loop coefficients extents targets depth admitted (i128_max, i128_min);
     Some (if low = high then Distance low
           else if low > 0 then Direction SignPositive
           else if high < 0 then Direction SignNegative
           else AnyDistance)
   }"

definition unwrap_extents :: "int option list \<Rightarrow> int list" where
  "unwrap_extents extents = map (\<lambda>e. case e of Some x \<Rightarrow> x | None \<Rightarrow> unbounded) extents"

definition distances ::
  "int list \<Rightarrow> int option list \<Rightarrow> (int \<times> int) list \<Rightarrow> Component list option option" where
  "distances coefficients extents targets =
     (let depth = length coefficients;
          extents = unwrap_extents extents
      in do {
        admitted \<leftarrow> filter_opt (admits coefficients extents targets) (enumerate_directions depth);
        if admitted = [] then Some None
        else map_option Some (map_opt (summarize coefficients extents targets admitted) [0..<depth])
      })"

subsection \<open>What the test decides\<close>

text \<open>A distance vector \<open>x\<close> of \<open>depth\<close> components, positive in the lexicographic order of the loops.\<close>

definition lex_positive :: "nat \<Rightarrow> (nat \<Rightarrow> int) \<Rightarrow> bool" where
  "lex_positive depth x \<longleftrightarrow> (\<exists>d<depth. x d > 0 \<and> (\<forall>e<d. x e = 0))"

definition solves :: "int list \<Rightarrow> (int \<times> int) list \<Rightarrow> (nat \<Rightarrow> int) \<Rightarrow> bool" where
  "solves coefficients targets x \<longleftrightarrow>
     (\<exists>(low, high)\<in>set targets. low \<le> weighted coefficients x \<and> weighted coefficients x \<le> high)"

fun component_admits :: "Component \<Rightarrow> int \<Rightarrow> bool" where
  "component_admits (Distance k) v \<longleftrightarrow> v = k"
| "component_admits (Direction SignPositive) v \<longleftrightarrow> 0 < v"
| "component_admits (Direction SignNegative) v \<longleftrightarrow> v < 0"
| "component_admits AnyDistance v \<longleftrightarrow> True"

text \<open>The sizes for which no intermediate result overflows: at most six loops (\<open>MAX_DEPTH\<close>), each moving
  the address by less than \<open>2 ^ 123\<close> bytes over its extent.\<close>

definition distance_bounds :: "int list \<Rightarrow> int list \<Rightarrow> (int \<times> int) list \<Rightarrow> bool" where
  "distance_bounds coefficients extents targets \<longleftrightarrow>
     length extents = length coefficients \<and> length coefficients \<le> 6 \<and>
     (\<forall>i<length coefficients. \<bar>extents ! i\<bar> \<le> 2 ^ 126 \<and> \<bar>coefficients ! i\<bar> * max 1 \<bar>extents ! i\<bar> \<le> 2 ^ 123) \<and>
     (\<forall>(low, high)\<in>set targets. \<bar>low\<bar> \<le> 2 ^ 126 \<and> \<bar>high\<bar> \<le> 2 ^ 126)"

definition dir_of :: "int \<Rightarrow> Dir" where
  "dir_of x = (if x = 0 then DirZero else if 0 < x then DirPositive else DirNegative)"

fun span_of :: "int \<Rightarrow> Dir \<Rightarrow> int \<times> int" where
  "span_of e DirZero = (0, 0)"
| "span_of e DirPositive = (1, e)"
| "span_of e DirNegative = (- e, - 1)"

subsection \<open>Direction vectors\<close>

lemma set_all_directions: "set (all_directions n) = {ds. length ds = n}"
proof (induction n)
  case (Suc n)
  have "\<exists>p. length p = n \<and> (\<exists>d. ds = p @ [d])" if "length ds = Suc n" for ds :: "Dir list"
    using that by (cases ds rule: rev_cases) auto
  moreover have "d \<in> set [DirZero, DirPositive, DirNegative]" for d
    by (cases d) auto
  ultimately show ?case
    using Suc.IH by (fastforce simp: image_iff)
qed simp

lemma find_map_upt:
  assumes "d < n" "P (f d)" "\<And>e. e < d \<Longrightarrow> \<not> P (f e)"
  shows "find P (map f [0..<n]) = Some (f d)"
  using assms by (subst find_Some_iff) (auto intro!: exI [of _ d])

lemma enumerate_contains:
  assumes "lex_positive n x"
  shows "map (\<lambda>i. dir_of (x i)) [0..<n] \<in> set (enumerate_directions n)"
proof -
  obtain d where d: "d < n" "x d > 0" "\<forall>e<d. x e = 0"
    using assms by (auto simp: lex_positive_def)
  then have "find (\<lambda>d. d \<noteq> DirZero) (map (\<lambda>i. dir_of (x i)) [0..<n]) = Some (dir_of (x d))"
    by (intro find_map_upt) (auto simp: dir_of_def)
  then show ?thesis
    using d by (simp add: enumerate_directions_def set_all_directions dir_of_def)
qed

lemma enumerate_length: "ds \<in> set (enumerate_directions n) \<Longrightarrow> length ds = n"
  by (simp add: enumerate_directions_def set_all_directions)

lemma span_of_bound: "\<bar>fst (span_of e d)\<bar> \<le> max 1 \<bar>e\<bar> \<and> \<bar>snd (span_of e d)\<bar> \<le> max 1 \<bar>e\<bar>"
  by (cases d) auto

lemma span_of_dir: "\<bar>x\<bar> \<le> e \<Longrightarrow> fst (span_of e (dir_of x)) \<le> x \<and> x \<le> snd (span_of e (dir_of x))"
  by (auto simp: dir_of_def)

lemma is_i128_abs: "\<bar>x\<bar> \<le> 7 * 2 ^ 124 \<Longrightarrow> is_i128 x"
  by (auto simp: is_i128_def i128_min_def i128_max_def abs_le_iff)

lemma dir_span_eq:
  "\<lbrakk>i < length ds; i < length es; \<bar>es ! i\<bar> \<le> 2 ^ 126\<rbrakk> \<Longrightarrow> dir_span es ds i = Some (span_of (es ! i) (ds ! i))"
  by (cases "ds ! i") (auto simp: dir_span_def nth_opt_def checked_def intro!: is_i128_abs)

subsection \<open>Sums\<close>

lemma product_bound: "\<bar>k\<bar> \<le> m \<Longrightarrow> \<bar>c\<bar> * m \<le> P \<Longrightarrow> \<bar>c * k\<bar> \<le> (P::int)"
  using mult_left_mono [of "\<bar>k\<bar>" m "\<bar>c\<bar>"] by (simp add: abs_mult)

lemma product_between:
  fixes c :: int
  shows "\<lbrakk>f \<le> x; x \<le> l\<rbrakk> \<Longrightarrow> min (c * f) (c * l) \<le> c * x \<and> c * x \<le> max (c * f) (c * l)"
  by (cases "0 \<le> c") (auto simp: min_le_iff_disj le_max_iff_disj mult_left_mono mult_left_mono_neg)

lemma sum_range_from_spec:
  fixes P :: int
  assumes "P = 2 ^ 123"
    and "\<And>i. i < length cs \<Longrightarrow> depth + i < length es \<and> depth + i < length ds \<and> \<bar>es ! (depth + i)\<bar> \<le> 2 ^ 126 \<and>
      \<bar>cs ! i\<bar> * max 1 \<bar>es ! (depth + i)\<bar> \<le> P"
    and "\<bar>low\<bar> \<le> int k * P" "\<bar>high\<bar> \<le> int k * P" "k + length cs \<le> 6"
  shows "\<exists>l h. sum_range_from cs es ds skip depth (low, high) = Some (l, h) \<and>
    \<bar>l\<bar> \<le> int (k + length cs) * P \<and> \<bar>h\<bar> \<le> int (k + length cs) * P \<and>
    (\<forall>x. (\<forall>i<length cs. fst (span_of (es ! (depth + i)) (ds ! (depth + i))) \<le> x (depth + i) \<and>
            x (depth + i) \<le> snd (span_of (es ! (depth + i)) (ds ! (depth + i)))) \<longrightarrow>
       l \<le> low + weighted cs (\<lambda>i. if skip = Some (depth + i) then 0 else x (depth + i)) \<and>
       high + weighted cs (\<lambda>i. if skip = Some (depth + i) then 0 else x (depth + i)) \<le> h)"
  using assms(2-)
proof (induction cs arbitrary: depth low high k)
  case (Cons c cs)
  have e: "depth < length es" "depth < length ds" "\<bar>es ! depth\<bar> \<le> 2 ^ 126" "\<bar>c\<bar> * max 1 \<bar>es ! depth\<bar> \<le> P"
    using Cons.prems(1) [of 0] by auto
  have tl: "i < length cs \<Longrightarrow> Suc depth + i < length es \<and> Suc depth + i < length ds \<and> \<bar>es ! (Suc depth + i)\<bar> \<le> 2 ^ 126 \<and>
      \<bar>cs ! i\<bar> * max 1 \<bar>es ! (Suc depth + i)\<bar> \<le> P" for i
    using Cons.prems(1) [of "Suc i"] by auto
  define f l where "f = fst (span_of (es ! depth) (ds ! depth))" and "l = snd (span_of (es ! depth) (ds ! depth))"
  have sp: "dir_span es ds depth = Some (f, l)"
    using dir_span_eq [OF e(2,1,3)] by (simp add: f_def l_def)
  have p: "\<bar>c * f\<bar> \<le> P" "\<bar>c * l\<bar> \<le> P"
    using product_bound e(4) span_of_bound f_def l_def by metis+
  define low' high' where "low' = (if skip = Some depth then low else low + min (c * f) (c * l))"
    and "high' = (if skip = Some depth then high else high + max (c * f) (c * l))"
  have P0: "0 < P" using assms(1) by simp
  have k: "\<bar>low'\<bar> \<le> int (Suc k) * P" "\<bar>high'\<bar> \<le> int (Suc k) * P"
    using p Cons.prems(2,3) P0 by (auto simp: low'_def high'_def algebra_simps)
  have "int (Suc k) * P \<le> 6 * P"
    using Cons.prems(4) P0 by (intro mult_right_mono) auto
  then have i: "is_i128 (c * f)" "is_i128 (c * l)" "is_i128 low'" "is_i128 high'"
    using p k assms(1) by (auto intro!: is_i128_abs)
  have step: "sum_range_from (c # cs) es ds skip depth (low, high) = sum_range_from cs es ds skip (Suc depth) (low', high')"
    using i by (cases "skip = Some depth") (simp_all add: sp checked_def low'_def high'_def)
  obtain L H where IH: "sum_range_from cs es ds skip (Suc depth) (low', high') = Some (L, H)"
    "\<bar>L\<bar> \<le> int (Suc k + length cs) * P" "\<bar>H\<bar> \<le> int (Suc k + length cs) * P"
    "\<forall>x. (\<forall>i<length cs. fst (span_of (es ! (Suc depth + i)) (ds ! (Suc depth + i))) \<le> x (Suc depth + i) \<and>
            x (Suc depth + i) \<le> snd (span_of (es ! (Suc depth + i)) (ds ! (Suc depth + i)))) \<longrightarrow>
       L \<le> low' + weighted cs (\<lambda>i. if skip = Some (Suc depth + i) then 0 else x (Suc depth + i)) \<and>
       high' + weighted cs (\<lambda>i. if skip = Some (Suc depth + i) then 0 else x (Suc depth + i)) \<le> H"
    using Cons.IH [OF tl k] Cons.prems(4) by auto
  have "L \<le> low + weighted (c # cs) (\<lambda>i. if skip = Some (depth + i) then 0 else x (depth + i)) \<and>
      high + weighted (c # cs) (\<lambda>i. if skip = Some (depth + i) then 0 else x (depth + i)) \<le> H"
    if x: "\<forall>i<length (c # cs). fst (span_of (es ! (depth + i)) (ds ! (depth + i))) \<le> x (depth + i) \<and>
            x (depth + i) \<le> snd (span_of (es ! (depth + i)) (ds ! (depth + i)))" for x
  proof -
    have "f \<le> x depth" "x depth \<le> l"
      using x [rule_format, of 0] by (simp_all add: f_def l_def)
    from product_between [OF this, of c]
    have "low' \<le> low + c * (if skip = Some depth then 0 else x depth)" "high + c * (if skip = Some depth then 0 else x depth) \<le> high'"
      by (auto simp: low'_def high'_def)
    moreover have "\<forall>i<length cs. fst (span_of (es ! (Suc depth + i)) (ds ! (Suc depth + i))) \<le> x (Suc depth + i) \<and>
            x (Suc depth + i) \<le> snd (span_of (es ! (Suc depth + i)) (ds ! (Suc depth + i)))"
      using x [rule_format, of "Suc _"] by simp
    then have "L \<le> low' + weighted cs (\<lambda>i. if skip = Some (Suc depth + i) then 0 else x (Suc depth + i)) \<and>
        high' + weighted cs (\<lambda>i. if skip = Some (Suc depth + i) then 0 else x (Suc depth + i)) \<le> H"
      using IH(4) by blast
    ultimately show ?thesis
      unfolding weighted_Cons add_Suc add_Suc_right add_0_right by linarith
  qed
  then show ?case
    using IH(1-3) unfolding step by auto
qed (use assms(1) in auto)

lemma sum_range_spec:
  assumes b: "distance_bounds cs es ts" and ds: "length ds = length cs"
  shows "\<exists>l h. sum_range cs es ds skip = Some (l, h) \<and> \<bar>l\<bar> \<le> 6 * 2 ^ 123 \<and> \<bar>h\<bar> \<le> 6 * 2 ^ 123 \<and>
    (\<forall>x. (\<forall>i<length cs. \<bar>x i\<bar> \<le> es ! i \<and> ds ! i = dir_of (x i)) \<longrightarrow>
       l \<le> weighted cs (\<lambda>i. if skip = Some i then 0 else x i) \<and> weighted cs (\<lambda>i. if skip = Some i then 0 else x i) \<le> h)"
proof -
  have le: "length cs \<le> 6" using b by (simp add: distance_bounds_def)
  obtain l h where r: "sum_range_from cs es ds skip 0 (0, 0) = Some (l, h)"
    "\<bar>l\<bar> \<le> int (0 + length cs) * 2 ^ 123" "\<bar>h\<bar> \<le> int (0 + length cs) * 2 ^ 123"
    "\<forall>x. (\<forall>i<length cs. fst (span_of (es ! (0 + i)) (ds ! (0 + i))) \<le> x (0 + i) \<and>
            x (0 + i) \<le> snd (span_of (es ! (0 + i)) (ds ! (0 + i)))) \<longrightarrow>
       l \<le> 0 + weighted cs (\<lambda>i. if skip = Some (0 + i) then 0 else x (0 + i)) \<and>
       0 + weighted cs (\<lambda>i. if skip = Some (0 + i) then 0 else x (0 + i)) \<le> h"
    using sum_range_from_spec [of "2 ^ 123" cs 0 es ds 0 0 0 skip] b ds by (auto simp: distance_bounds_def)
  have "int (0 + length cs) * 2 ^ 123 \<le> 6 * (2 ^ 123)"
    using le by simp
  with r(2,3) have "\<bar>l\<bar> \<le> 6 * 2 ^ 123" "\<bar>h\<bar> \<le> 6 * 2 ^ 123"
    by linarith+
  moreover have "l \<le> weighted cs (\<lambda>i. if skip = Some i then 0 else x i) \<and> weighted cs (\<lambda>i. if skip = Some i then 0 else x i) \<le> h"
    if "\<forall>i<length cs. \<bar>x i\<bar> \<le> es ! i \<and> ds ! i = dir_of (x i)" for x
    using r(4) [unfolded add_0, rule_format, of x] that span_of_dir by simp
  ultimately show ?thesis
    using r(1) by (auto simp: sum_range_def)
qed

subsection \<open>Divisors\<close>

lemma gcd_loop_eq: "\<lbrakk>0 \<le> a; 0 \<le> b\<rbrakk> \<Longrightarrow> gcd_loop a b = gcd a b"
proof (induction a b rule: gcd_loop.induct)
  case (1 a b)
  then show ?case
    by (cases "b = 0") (simp_all add: gcd_loop.simps [of a] gcd_red_int [symmetric])
qed

lemma gcd_le_bound: "\<lbrakk>0 \<le> a; a \<le> P; \<bar>b\<bar> \<le> P\<rbrakk> \<Longrightarrow> gcd a b \<le> (P::int)"
  by (cases "a = 0") (auto intro: order_trans [OF gcd_le1_int])

lemma divisor_from_spec:
  assumes "\<forall>i<length cs. depth + i < length ds \<and> \<bar>cs ! i\<bar> \<le> 2 ^ 123" "0 \<le> acc" "acc \<le> 2 ^ 123"
  shows "\<exists>g. divisor_from cs ds depth acc = Some g \<and> 0 \<le> g \<and> g \<le> 2 ^ 123 \<and> g dvd acc \<and>
    (\<forall>i<length cs. ds ! (depth + i) \<noteq> DirZero \<longrightarrow> g dvd cs ! i)"
  using assms
proof (induction cs arbitrary: depth acc)
  case (Cons c cs)
  have c: "depth < length ds" "\<bar>c\<bar> \<le> 2 ^ 123"
    using Cons.prems(1) by auto
  have tl: "\<forall>i<length cs. Suc depth + i < length ds \<and> \<bar>cs ! i\<bar> \<le> 2 ^ 123"
    using Cons.prems(1) [rule_format, of "Suc _"] by simp
  define a where "a = (if ds ! depth \<noteq> DirZero then gcd acc c else acc)"
  have i: "is_i128 \<bar>acc\<bar>" "is_i128 \<bar>c\<bar>"
    using Cons.prems(2,3) c(2) by (auto intro!: is_i128_abs)
  have a: "0 \<le> a" "a \<le> 2 ^ 123" "a dvd acc" "ds ! depth \<noteq> DirZero \<Longrightarrow> a dvd c"
    using Cons.prems(2,3) c(2) by (auto simp: a_def intro: gcd_le_bound)
  have step: "divisor_from (c # cs) ds depth acc = divisor_from cs ds (Suc depth) a"
    using c(1) i Cons.prems(2) by (simp add: nth_opt_def dep_gcd_def checked_def a_def gcd_loop_eq)
  obtain g where g: "divisor_from cs ds (Suc depth) a = Some g" "0 \<le> g" "g \<le> 2 ^ 123" "g dvd a"
    "\<forall>i<length cs. ds ! (Suc depth + i) \<noteq> DirZero \<longrightarrow> g dvd cs ! i"
    using Cons.IH [OF tl a(1,2)] by blast
  have "\<forall>i<length (c # cs). ds ! (depth + i) \<noteq> DirZero \<longrightarrow> g dvd (c # cs) ! i"
    using g(4,5) a(4) by (auto simp: less_Suc_eq_0_disj intro: dvd_trans)
  then show ?case
    unfolding step using g dvd_trans [OF g(4) a(3)] by blast
qed simp

lemma divisor_divides:
  assumes "\<forall>i<length cs. dir_of (x i) \<noteq> DirZero \<longrightarrow> g dvd cs ! i"
  shows "g dvd weighted cs x"
  unfolding weighted_def
proof (rule dvd_sum)
  fix i assume "i \<in> {..<length cs}"
  then show "g dvd cs ! i * x i"
    using assms by (cases "x i = 0") (auto simp: dir_of_def)
qed

lemma divides_something_spec:
  assumes "0 \<le> g" "g \<le> 2 ^ 123" "\<bar>high\<bar> \<le> 6 * 2 ^ 123"
  shows "\<exists>r. divides_something g low high = Some r \<and> (\<forall>s. g dvd s \<longrightarrow> low \<le> s \<longrightarrow> s \<le> high \<longrightarrow> r)"
proof (cases "g = 0")
  case False
  then have g: "0 < g" using assms(1) by simp
  have m: "high div g * g = high - high mod g" "0 \<le> high mod g" "high mod g < g"
    using g by (simp_all add: minus_mod_eq_div_mult [symmetric])
  then have i: "is_i128 (high div g * g)"
    using assms(2,3) by (intro is_i128_abs) (simp only: m(1), simp add: abs_le_iff)
  have "s \<le> high div g * g" if "g dvd s" "s \<le> high" for s
    using that g by (metis dvd_div_mult_self mult_right_mono order_less_imp_le zdiv_mono1)
  then show ?thesis
    using i False by (force simp: divides_something_def checked_def)
qed (auto simp: divides_something_def)

lemma any_target_spec:
  assumes "0 \<le> g" "g \<le> 2 ^ 123" "\<bar>low\<bar> \<le> 6 * 2 ^ 123" "\<bar>high\<bar> \<le> 6 * 2 ^ 123"
  shows "\<exists>r. any_target g (low, high) ts = Some r \<and>
    (\<forall>s. g dvd s \<longrightarrow> low \<le> s \<longrightarrow> s \<le> high \<longrightarrow> (\<exists>(a, b)\<in>set ts. a \<le> s \<and> s \<le> b) \<longrightarrow> r)"
proof (induction ts)
  case (Cons t ts)
  obtain a b where t: "t = (a, b)" by fastforce
  let ?f = "max a low" and ?l = "min b high"
  obtain r where r: "any_target g (low, high) ts = Some r"
    "\<forall>s. g dvd s \<longrightarrow> low \<le> s \<longrightarrow> s \<le> high \<longrightarrow> (\<exists>(a, b)\<in>set ts. a \<le> s \<and> s \<le> b) \<longrightarrow> r"
    using Cons.IH by blast
  show ?case
  proof (cases "?f \<le> ?l")
    case True
    then have "\<bar>?l\<bar> \<le> 6 * 2 ^ 123" using assms(3,4) by auto
    then obtain q where q: "divides_something g ?f ?l = Some q" "\<forall>s. g dvd s \<longrightarrow> ?f \<le> s \<longrightarrow> s \<le> ?l \<longrightarrow> q"
      using divides_something_spec [OF assms(1,2)] by blast
    then show ?thesis
      using r True by (auto simp: t Let_def)
  next
    case False
    then show ?thesis
      using r by (fastforce simp: t Let_def)
  qed
qed (auto intro: exI [of _ False])

subsection \<open>Admission\<close>

lemma bounds_coefficient: "distance_bounds cs es ts \<Longrightarrow> i < length cs \<Longrightarrow> \<bar>cs ! i\<bar> \<le> 2 ^ 123"
proof -
  assume "distance_bounds cs es ts" "i < length cs"
  then have "\<bar>cs ! i\<bar> * max 1 \<bar>es ! i\<bar> \<le> 2 ^ 123"
    by (simp add: distance_bounds_def)
  moreover have "\<bar>cs ! i\<bar> \<le> \<bar>cs ! i\<bar> * max 1 \<bar>es ! i\<bar>"
    using mult_left_mono [of 1 "max 1 \<bar>es ! i\<bar>" "\<bar>cs ! i\<bar>"] by simp
  ultimately show ?thesis by linarith
qed

lemma admits_spec:
  assumes b: "distance_bounds cs es ts" and ds: "length ds = length cs"
  shows "\<exists>r. admits cs es ts ds = Some r \<and>
    (\<forall>x. (\<forall>i<length cs. \<bar>x i\<bar> \<le> es ! i \<and> ds ! i = dir_of (x i)) \<longrightarrow> solves cs ts x \<longrightarrow> r)"
proof -
  obtain l h where lh: "sum_range cs es ds None = Some (l, h)" "\<bar>l\<bar> \<le> 6 * 2 ^ 123" "\<bar>h\<bar> \<le> 6 * 2 ^ 123"
    "\<forall>x. (\<forall>i<length cs. \<bar>x i\<bar> \<le> es ! i \<and> ds ! i = dir_of (x i)) \<longrightarrow> l \<le> weighted cs x \<and> weighted cs x \<le> h"
    using sum_range_spec [OF b ds, of None] by auto
  obtain g where g: "divisor_from cs ds 0 0 = Some g" "0 \<le> g" "g \<le> 2 ^ 123"
    "\<forall>i<length cs. ds ! i \<noteq> DirZero \<longrightarrow> g dvd cs ! i"
    using divisor_from_spec [of cs 0 ds 0] bounds_coefficient [OF b] ds by auto
  obtain r where r: "any_target g (l, h) ts = Some r"
    "\<forall>s. g dvd s \<longrightarrow> l \<le> s \<longrightarrow> s \<le> h \<longrightarrow> (\<exists>(a, b)\<in>set ts. a \<le> s \<and> s \<le> b) \<longrightarrow> r"
    using any_target_spec [OF g(2,3) lh(2,3)] by blast
  have r' if x: "\<forall>i<length cs. \<bar>x i\<bar> \<le> es ! i \<and> ds ! i = dir_of (x i)" and "solves cs ts x" and r': "r' = r" for x r'
    unfolding r' using r(2) [rule_format, of "weighted cs x"] divisor_divides [of cs x g] g(4) lh(4) that
    by (auto simp: solves_def)
  then show ?thesis
    using lh(1) g(1) r(1) by (auto simp: admits_def)
qed

subsection \<open>Reachable distances\<close>

lemma abs_div_le: "0 < b \<Longrightarrow> \<bar>a div b\<bar> \<le> \<bar>a :: int\<bar>"
  using zdiv_mono2 [of a 1 b] zdiv_mono2_neg [of a 1 b] pos_imp_zdiv_nonneg_iff [of b a] by (cases "0 \<le> a") auto

lemma div_le_iff: "0 < c \<Longrightarrow> (v \<le> p div c) = (c * v \<le> (p::int))"
proof
  assume c: "0 < c" and "v \<le> p div c"
  then have "c * v \<le> c * (p div c)" by simp
  also have "\<dots> \<le> p"
    using pos_mod_sign [OF c, of p] by (simp add: minus_mod_eq_mult_div [symmetric])
  finally show "c * v \<le> p" .
next
  assume "0 < c" "c * v \<le> p"
  then show "v \<le> p div c"
    using zdiv_mono1 [of "c * v" p c] by simp
qed

text \<open>Rounded quotients against products.\<close>

lemma floor_div_spec:
  assumes "c \<noteq> 0" "\<bar>c\<bar> \<le> 2 ^ 123" "\<bar>p\<bar> \<le> 7 * 2 ^ 124"
  shows "\<exists>q. floor_div p c = Some q \<and> \<bar>q\<bar> \<le> \<bar>p\<bar> \<and> (\<forall>v. (if 0 < c then c * v \<le> p else p \<le> c * v) \<longrightarrow> v \<le> q)"
proof (cases "0 < c")
  case True
  then show ?thesis
    using abs_div_le [OF True, of p] by (auto simp: floor_div_def div_le_iff)
next
  case False
  then have c: "0 < - c" using assms(1) by simp
  have "is_i128 (- p)" "is_i128 (- c)"
    using assms(2,3) by (auto intro!: is_i128_abs)
  then show ?thesis
    using False c abs_div_le [OF c, of "- p"] div_le_iff [OF c, of _ "- p"] assms(1) by (auto simp: floor_div_def checked_def)
qed

lemma ceil_div_spec:
  assumes "c \<noteq> 0" "\<bar>c\<bar> \<le> 2 ^ 123" "\<bar>p\<bar> \<le> 7 * 2 ^ 124"
  shows "\<exists>q. ceil_div p c = Some q \<and> (\<forall>v. (if 0 < c then p \<le> c * v else c * v \<le> p) \<longrightarrow> q \<le> v)"
proof -
  obtain q where q: "floor_div (- p) c = Some q" "\<bar>q\<bar> \<le> \<bar>p\<bar>"
    "\<forall>v. (if 0 < c then c * v \<le> - p else - p \<le> c * v) \<longrightarrow> v \<le> q"
    using floor_div_spec [OF assms(1,2), of "- p"] assms(3) by auto
  have "is_i128 (- p)" "is_i128 (- q)"
    using assms(3) q(2) by (auto intro!: is_i128_abs)
  moreover have "- q \<le> v" if "if 0 < c then p \<le> c * v else c * v \<le> p" for v
    using q(3) [rule_format, of "- v"] that by (auto split: if_splits)
  ultimately show ?thesis
    using q(1) by (auto simp: ceil_div_def checked_def)
qed

lemma target_interval_spec:
  assumes "c \<noteq> 0" "\<bar>c\<bar> \<le> 2 ^ 123" "\<bar>l\<bar> \<le> 6 * 2 ^ 123" "\<bar>h\<bar> \<le> 6 * 2 ^ 123" "\<bar>a\<bar> \<le> 2 ^ 126" "\<bar>b\<bar> \<le> 2 ^ 126"
  shows "\<exists>q r. target_interval c (l, h) (a, b) = Some (q, r) \<and>
    (\<forall>v rest. l \<le> rest \<longrightarrow> rest \<le> h \<longrightarrow> a \<le> c * v + rest \<longrightarrow> c * v + rest \<le> b \<longrightarrow> q \<le> v \<and> v \<le> r)"
proof -
  have p: "\<bar>a - h\<bar> \<le> 7 * 2 ^ 124" "\<bar>b - l\<bar> \<le> 7 * 2 ^ 124"
    using assms(3-) by auto
  have i: "is_i128 (a - h)" "is_i128 (b - l)"
    using p by (auto intro: is_i128_abs)
  let ?u = "if 0 < c then a - h else b - l" and ?w = "if 0 < c then b - l else a - h"
  have uw: "\<bar>?u\<bar> \<le> 7 * 2 ^ 124" "\<bar>?w\<bar> \<le> 7 * 2 ^ 124"
    using p by simp_all
  obtain q where q: "ceil_div ?u c = Some q" "\<forall>v. (if 0 < c then ?u \<le> c * v else c * v \<le> ?u) \<longrightarrow> q \<le> v"
    using ceil_div_spec [OF assms(1,2) uw(1)] by blast
  obtain r where r: "floor_div ?w c = Some r" "\<forall>v. (if 0 < c then c * v \<le> ?w else ?w \<le> c * v) \<longrightarrow> v \<le> r"
    using floor_div_spec [OF assms(1,2) uw(2)] by blast
  have "target_interval c (l, h) (a, b) = Some (q, r)"
    using q(1) r(1) i by (simp add: target_interval_def checked_def split: if_splits)
  moreover have "q \<le> v \<and> v \<le> r" if "l \<le> rest" "rest \<le> h" "a \<le> c * v + rest" "c * v + rest \<le> b" for v rest
    using q(2) [rule_format, of v] r(2) [rule_format, of v] that by (auto split: if_splits)
  ultimately show ?thesis by blast
qed

lemma span_loop_spec:
  assumes "c \<noteq> 0" "\<bar>c\<bar> \<le> 2 ^ 123" "\<bar>l\<bar> \<le> 6 * 2 ^ 123" "\<bar>h\<bar> \<le> 6 * 2 ^ 123"
    and "\<forall>(a, b)\<in>set ts. \<bar>a\<bar> \<le> 2 ^ 126 \<and> \<bar>b\<bar> \<le> 2 ^ 126"
  shows "\<exists>q r. span_loop c (l, h) (first, final) ts (low, high) = Some (q, r) \<and> q \<le> low \<and> high \<le> r \<and>
    (\<forall>v rest. l \<le> rest \<longrightarrow> rest \<le> h \<longrightarrow> first \<le> v \<longrightarrow> v \<le> final \<longrightarrow>
       (\<exists>(a, b)\<in>set ts. a \<le> c * v + rest \<and> c * v + rest \<le> b) \<longrightarrow> q \<le> v \<and> v \<le> r)"
  using assms(5)
proof (induction ts arbitrary: low high)
  case (Cons t ts)
  obtain a b where t: "t = (a, b)" by fastforce
  obtain q r where qr: "target_interval c (l, h) (a, b) = Some (q, r)"
    "\<forall>v rest. l \<le> rest \<longrightarrow> rest \<le> h \<longrightarrow> a \<le> c * v + rest \<longrightarrow> c * v + rest \<le> b \<longrightarrow> q \<le> v \<and> v \<le> r"
    using target_interval_spec [OF assms(1-4), of a b] Cons.prems by (auto simp: t)
  define acc where "acc = (if max q first \<le> min r final then (min low (max q first), max high (min r final)) else (low, high))"
  have step: "span_loop c (l, h) (first, final) (t # ts) (low, high) = span_loop c (l, h) (first, final) ts acc"
    by (simp add: t qr(1) acc_def Let_def)
  obtain q' r' where IH: "span_loop c (l, h) (first, final) ts (fst acc, snd acc) = Some (q', r')" "q' \<le> fst acc" "snd acc \<le> r'"
    "\<forall>v rest. l \<le> rest \<longrightarrow> rest \<le> h \<longrightarrow> first \<le> v \<longrightarrow> v \<le> final \<longrightarrow>
       (\<exists>(a, b)\<in>set ts. a \<le> c * v + rest \<and> c * v + rest \<le> b) \<longrightarrow> q' \<le> v \<and> v \<le> r'"
    using Cons.IH [of "fst acc" "snd acc"] Cons.prems by auto
  have acc: "fst acc \<le> low" "high \<le> snd acc"
    by (auto simp: acc_def)
  have hit: "fst acc \<le> v \<and> v \<le> snd acc" if "l \<le> rest" "rest \<le> h" "first \<le> v" "v \<le> final" "a \<le> c * v + rest" "c * v + rest \<le> b" for v rest
    using qr(2) [rule_format, OF that(1,2,5,6)] that(3,4) by (auto simp: acc_def)
  have all: "\<forall>v rest. l \<le> rest \<longrightarrow> rest \<le> h \<longrightarrow> first \<le> v \<longrightarrow> v \<le> final \<longrightarrow>
       (\<exists>(a, b)\<in>set (t # ts). a \<le> c * v + rest \<and> c * v + rest \<le> b) \<longrightarrow> q' \<le> v \<and> v \<le> r'"
    using IH(4) order_trans [OF IH(2)] order_trans [OF _ IH(3)] hit unfolding t set_simps by blast
  show ?case
    unfolding step using IH(1) order_trans [OF IH(2) acc(1)] order_trans [OF acc(2) IH(3)] all by auto
qed simp

lemma weighted_split:
  "d < length cs \<Longrightarrow> weighted cs x = cs ! d * x d + weighted cs (\<lambda>i. if Some d = Some i then 0 else x i)"
proof (induction cs arbitrary: d x)
  case (Cons c cs)
  show ?case
  proof (cases d)
    case (Suc e)
    then show ?thesis
      using Cons.IH [of e "\<lambda>i. x (Suc i)"] Cons.prems by (simp add: weighted_Cons)
  qed (simp add: weighted_Cons)
qed simp

lemma reachable_span_spec:
  assumes b: "distance_bounds cs es ts" and ds: "length ds = length cs" and d: "d < length cs"
  shows "\<exists>q r. reachable_span cs es ts ds d = Some (q, r) \<and>
    (\<forall>x. (\<forall>i<length cs. \<bar>x i\<bar> \<le> es ! i \<and> ds ! i = dir_of (x i)) \<longrightarrow> solves cs ts x \<longrightarrow> q \<le> x d \<and> x d \<le> r)"
proof -
  obtain f l where fl: "span_of (es ! d) (ds ! d) = (f, l)" by fastforce
  have sp: "dir_span es ds d = Some (f, l)"
    using dir_span_eq [of d ds es] b ds d fl by (simp add: distance_bounds_def)
  have inside: "f \<le> x d \<and> x d \<le> l" if "\<forall>i<length cs. \<bar>x i\<bar> \<le> es ! i \<and> ds ! i = dir_of (x i)" for x
    using that d span_of_dir [of "x d" "es ! d"] fl by auto
  show ?thesis
  proof (cases "cs ! d = 0")
    case True
    then show ?thesis
      using sp d inside by (auto simp: reachable_span_def nth_opt_def)
  next
    case False
    obtain p q where rest: "sum_range cs es ds (Some d) = Some (p, q)" "\<bar>p\<bar> \<le> 6 * 2 ^ 123" "\<bar>q\<bar> \<le> 6 * 2 ^ 123"
      "\<forall>x. (\<forall>i<length cs. \<bar>x i\<bar> \<le> es ! i \<and> ds ! i = dir_of (x i)) \<longrightarrow>
         p \<le> weighted cs (\<lambda>i. if Some d = Some i then 0 else x i) \<and> weighted cs (\<lambda>i. if Some d = Some i then 0 else x i) \<le> q"
      using sum_range_spec [OF b ds, of "Some d"] by blast
    have tb: "\<forall>(a, b)\<in>set ts. \<bar>a\<bar> \<le> 2 ^ 126 \<and> \<bar>b\<bar> \<le> 2 ^ 126"
      using b by (simp add: distance_bounds_def)
    obtain u w where loop: "span_loop (cs ! d) (p, q) (f, l) ts (i128_max, i128_min) = Some (u, w)"
      "\<forall>v rest. p \<le> rest \<longrightarrow> rest \<le> q \<longrightarrow> f \<le> v \<longrightarrow> v \<le> l \<longrightarrow>
         (\<exists>(a, b)\<in>set ts. a \<le> cs ! d * v + rest \<and> cs ! d * v + rest \<le> b) \<longrightarrow> u \<le> v \<and> v \<le> w"
      using span_loop_spec [OF False bounds_coefficient [OF b d] rest(2,3) tb, of f l i128_max i128_min] by blast
    have "u \<le> x d \<and> x d \<le> w"
      if x: "\<forall>i<length cs. \<bar>x i\<bar> \<le> es ! i \<and> ds ! i = dir_of (x i)" and s: "solves cs ts x" for x
      using loop(2) [rule_format, of "weighted cs (\<lambda>i. if Some d = Some i then 0 else x i)" "x d"] rest(4) [THEN spec, THEN mp, OF x]
        inside [OF x] s weighted_split [OF d, of x] by (simp add: solves_def)
    then show ?thesis
      using sp d False rest(1) loop(1) inside by (auto simp: reachable_span_def nth_opt_def)
  qed
qed

subsection \<open>The summary\<close>

lemma summarize_loop_spec:
  assumes b: "distance_bounds cs es ts" and d: "d < length cs" and "\<forall>ds\<in>set dss. length ds = length cs"
  shows "\<exists>q r. summarize_loop cs es ts d dss (low, high) = Some (q, r) \<and> q \<le> low \<and> high \<le> r \<and>
    (\<forall>x. map (\<lambda>i. dir_of (x i)) [0..<length cs] \<in> set dss \<longrightarrow> (\<forall>i<length cs. \<bar>x i\<bar> \<le> es ! i) \<longrightarrow> solves cs ts x \<longrightarrow>
       q \<le> x d \<and> x d \<le> r)"
  using assms(3)
proof (induction dss arbitrary: low high)
  case (Cons ds dss)
  have len: "length ds = length cs"
    using Cons.prems by simp
  obtain f l where fl: "reachable_span cs es ts ds d = Some (f, l)"
    "\<forall>x. (\<forall>i<length cs. \<bar>x i\<bar> \<le> es ! i \<and> ds ! i = dir_of (x i)) \<longrightarrow> solves cs ts x \<longrightarrow> f \<le> x d \<and> x d \<le> l"
    using reachable_span_spec [OF b len d] by blast
  obtain q r where IH: "summarize_loop cs es ts d dss (min low f, max high l) = Some (q, r)" "q \<le> min low f" "max high l \<le> r"
    "\<forall>x. map (\<lambda>i. dir_of (x i)) [0..<length cs] \<in> set dss \<longrightarrow> (\<forall>i<length cs. \<bar>x i\<bar> \<le> es ! i) \<longrightarrow> solves cs ts x \<longrightarrow>
       q \<le> x d \<and> x d \<le> r"
    using Cons.IH [of "min low f" "max high l"] Cons.prems by auto
  have here: "q \<le> x d \<and> x d \<le> r"
    if "ds = map (\<lambda>i. dir_of (x i)) [0..<length cs]" "\<forall>i<length cs. \<bar>x i\<bar> \<le> es ! i" "solves cs ts x" for x
    using fl(2) [rule_format, of x] IH(2,3) that by (auto simp: nth_map)
  have "\<forall>x. map (\<lambda>i. dir_of (x i)) [0..<length cs] \<in> set (ds # dss) \<longrightarrow> (\<forall>i<length cs. \<bar>x i\<bar> \<le> es ! i) \<longrightarrow> solves cs ts x \<longrightarrow>
       q \<le> x d \<and> x d \<le> r"
    using IH(4) here by auto
  then show ?case
    using fl(1) IH(1-3) by auto
qed simp

lemma summarize_spec:
  assumes b: "distance_bounds cs es ts" and d: "d < length cs" and len: "\<forall>ds\<in>set dss. length ds = length cs"
  shows "\<exists>c. summarize cs es ts dss d = Some c \<and>
    (\<forall>x. map (\<lambda>i. dir_of (x i)) [0..<length cs] \<in> set dss \<longrightarrow> (\<forall>i<length cs. \<bar>x i\<bar> \<le> es ! i) \<longrightarrow> solves cs ts x \<longrightarrow>
       component_admits c (x d))"
proof -
  obtain q r where qr: "summarize_loop cs es ts d dss (i128_max, i128_min) = Some (q, r)"
    "\<forall>x. map (\<lambda>i. dir_of (x i)) [0..<length cs] \<in> set dss \<longrightarrow> (\<forall>i<length cs. \<bar>x i\<bar> \<le> es ! i) \<longrightarrow> solves cs ts x \<longrightarrow>
       q \<le> x d \<and> x d \<le> r"
    using summarize_loop_spec [OF b d len, of i128_max i128_min] by blast
  define c where "c = (if q = r then Distance q else if q > 0 then Direction SignPositive
      else if r < 0 then Direction SignNegative else AnyDistance)"
  have "summarize cs es ts dss d = Some c"
    using qr(1) by (simp add: summarize_def c_def)
  moreover have "component_admits c v" if "q \<le> v" "v \<le> r" for v
    using that by (auto simp: c_def)
  ultimately show ?thesis
    using qr(2) by blast
qed

lemma distances_spec:
  assumes b: "distance_bounds cs (unwrap_extents es) ts"
  shows "\<exists>r. distances cs es ts = Some r \<and>
    (\<forall>x. lex_positive (length cs) x \<longrightarrow> (\<forall>i<length cs. \<bar>x i\<bar> \<le> unwrap_extents es ! i) \<longrightarrow> solves cs ts x \<longrightarrow>
       (\<exists>comps. r = Some comps \<and> length comps = length cs \<and> (\<forall>d<length cs. component_admits (comps ! d) (x d))))"
proof -
  let ?es = "unwrap_extents es" and ?n = "length cs"
  let ?adm = "\<lambda>ds. the (admits cs ?es ts ds)"
  let ?dirs = "\<lambda>x. map (\<lambda>i. dir_of (x i)) [0..<?n]"
  let ?ok = "\<lambda>x. \<forall>i<?n. \<bar>x i\<bar> \<le> ?es ! i"
  have adm: "admits cs ?es ts ds = Some (?adm ds)" if "ds \<in> set (enumerate_directions ?n)" for ds
    using admits_spec [OF b enumerate_length [OF that]] by auto
  define dss where "dss = filter ?adm (enumerate_directions ?n)"
  have f: "filter_opt (admits cs ?es ts) (enumerate_directions ?n) = Some dss"
    unfolding dss_def by (rule filter_opt_total) (rule adm)
  have len: "\<forall>ds\<in>set dss. length ds = ?n"
    by (auto simp: dss_def enumerate_length)
  have member: "?dirs x \<in> set dss" if "lex_positive ?n x" "?ok x" "solves cs ts x" for x
    using admits_spec [OF b enumerate_length [OF enumerate_contains [OF that(1)]]] enumerate_contains [OF that(1)] that(2,3)
    by (auto simp: dss_def)
  define comp where "comp d = the (summarize cs ?es ts dss d)" for d
  have comp: "summarize cs ?es ts dss d = Some (comp d)"
    "?dirs x \<in> set dss \<Longrightarrow> ?ok x \<Longrightarrow> solves cs ts x \<Longrightarrow> component_admits (comp d) (x d)" if "d < ?n" for d x
    using summarize_spec [OF b that len] unfolding comp_def by auto
  have m: "map_opt (summarize cs ?es ts dss) [0..<?n] = Some (map comp [0..<?n])"
    by (rule map_opt_total) (simp add: comp(1))
  have r: "distances cs es ts = Some (if dss = [] then None else Some (map comp [0..<?n]))"
    by (simp add: distances_def Let_def f m)
  have "\<exists>comps. (if dss = [] then None else Some (map comp [0..<?n])) = Some comps \<and> length comps = ?n \<and>
      (\<forall>d<?n. component_admits (comps ! d) (x d))" if "lex_positive ?n x" "?ok x" "solves cs ts x" for x
    using member [OF that] comp(2) that by auto
  then show ?thesis
    using r by blast
qed

text \<open>C15: the dependence test of a nest of at most six loops returns without an overflow, and it misses no
  dependence: every lexicographically positive distance within the extents (an unknown trip count is
  taken as \<open>2 ^ 62\<close>) whose weighted sum falls in a target interval is described, at every depth, by the
  components it returns.\<close>

theorem distances_sound:
  assumes "distance_bounds cs (unwrap_extents es) ts"
  shows "\<exists>r. distances cs es ts = Some r \<and>
    (\<forall>x. lex_positive (length cs) x \<longrightarrow> (\<forall>i<length cs. \<bar>x i\<bar> \<le> unwrap_extents es ! i) \<longrightarrow> solves cs ts x \<longrightarrow>
       (\<exists>comps. r = Some comps \<and> length comps = length cs \<and> (\<forall>d<length cs. component_admits (comps ! d) (x d))))"
  using distances_spec [OF assms] .

text \<open>Ten iterations over words of four bytes, each read one iteration after it is written: the only distance
  is 1.\<close>

theorem distances_sound_witness:
  "distance_bounds [4] (unwrap_extents [Some 9]) [(1, 7)] \<and>
   (\<exists>comps. distances [4] [Some 9] [(1, 7)] = Some (Some comps) \<and> component_admits (comps ! 0) 1)"
proof
  show b: "distance_bounds [4] (unwrap_extents [Some 9]) [(1, 7)]"
    by (simp add: distance_bounds_def unwrap_extents_def)
  let ?x = "\<lambda>i::nat. if i = 0 then 1 else (0::int)"
  have x: "lex_positive (length [4::int]) ?x" "\<forall>i<length [4::int]. \<bar>?x i\<bar> \<le> unwrap_extents [Some 9] ! i"
    "solves [4] [(1, 7)] ?x"
    by (auto simp: lex_positive_def unwrap_extents_def solves_def weighted_def)
  from distances_sound [OF b] x
  show "\<exists>comps. distances [4] [Some 9] [(1, 7)] = Some (Some comps) \<and> component_admits (comps ! 0) 1"
    by fastforce
qed

end
