(* ===== verification/AffineNest.thy ===== *)
theory AffineNest
  imports Dependence
begin

text \<open>
  The affine view of a counted loop nest: how \<open>core/src/analysis/affine/build.rs\<close> reads subscripts as forms
  over iteration numbers and symbols, and how \<open>pairs.rs\<close> classifies a pair of accesses. The IR is read
  through a \<open>Nest\<close>: what defines a value, its width, which values the nest defines. Following definitions
  takes fuel, and running out of it is \<open>Unfinished\<close>, apart from the overflow of plain \<open>i128\<close> arithmetic
  (\<open>Overflowed\<close>, which also stands for an operand that is not there).
\<close>

subsection \<open>Results\<close>

datatype 'a run = Returned 'a | Overflowed | Unfinished

fun run_bind :: "'a run \<Rightarrow> ('a \<Rightarrow> 'b run) \<Rightarrow> 'b run" where
  "run_bind (Returned x) f = f x"
| "run_bind Overflowed f = Overflowed"
| "run_bind Unfinished f = Unfinished"

fun or_overflow :: "'a option \<Rightarrow> 'a run" where
  "or_overflow (Some x) = Returned x"
| "or_overflow None = Overflowed"

subsection \<open>The view\<close>

record Loop =
  lp_lower :: AffineForm
  lp_upper :: AffineForm
  lp_step :: AffineForm
  lp_width :: nat
  lp_trip :: "int option"

datatype Offset = AffineOffset AffineForm | NonAffine

record Access =
  ac_write :: bool
  ac_chains :: "nat list"
  ac_base :: nat
  ac_offset :: Offset
  ac_extent :: nat
  ac_wrapping :: bool

record Extremes =
  ex_base :: nat
  ex_low :: AffineForm
  ex_high :: AffineForm

datatype Dependence = Independent | Distances "Component list" | Conditional Extremes Extremes | Unknown

record Pair =
  pr_left :: nat
  pr_right :: nat
  pr_dependence :: Dependence

record Builder =
  bu_loops :: "Loop list"
  bu_iteration_ranges :: "(int \<times> int) list"
  bu_counters :: "(nat \<times> nat) list"
  bu_symbols :: "nat list"
  bu_symbol_ranges :: "(int \<times> int) list"
  bu_accesses :: "Access list"
  bu_opaque :: bool

text \<open>What a value's defining operation is to the builder: a literal and its \<open>to_i64\<close>, one of the operations
  it follows, or another one.\<close>

datatype Opcode = ConstantLike int | ExtSIOp | TruncIOp | AddIOp | SubIOp | MulIOp | ShlIOp | PtrAddOp | OtherOp

record Operation =
  op_code :: Opcode
  op_operands :: "nat list"

record Nest =
  nest_definition :: "nat \<Rightarrow> Operation option"
  nest_width :: "nat \<Rightarrow> nat"
  nest_interior :: "nat \<Rightarrow> bool"

subsection \<open>Trip counts and ranges\<close>

definition width_range :: "nat \<Rightarrow> int \<times> int" where
  "width_range width =
     (if width = 0 \<or> width > 127 then (- (2 ^ 125), 2 ^ 125 - 1)
      else (let bound = 2 ^ (width - 1) in (- bound, bound - 1)))"

definition iteration_range :: "int option \<Rightarrow> nat \<Rightarrow> (int \<times> int) option" where
  "iteration_range trip width =
     (case trip of
        Some trip \<Rightarrow> map_option (\<lambda>n. (0, max n 0)) (checked (trip - 1))
      | None \<Rightarrow> if width = 0 \<or> width > 126 then Some (0, 2 ^ 125 - 1) else Some (0, 2 ^ width - 1))"

definition trip_count :: "AffineForm \<Rightarrow> AffineForm \<Rightarrow> AffineForm \<Rightarrow> int option option" where
  "trip_count lower upper step =
     (case (as_constant lower, as_constant upper, as_constant step) of
        (Some lower, Some upper, Some step) \<Rightarrow>
          if step \<le> 0 then Some None
          else if upper \<le> lower then Some (Some 0)
          else do {
            n \<leftarrow> checked (upper - lower);
            t \<leftarrow> checked (n div step + of_bool (n mod step \<noteq> 0));
            Some (Some t)
          }
      | _ \<Rightarrow> Some None)"

definition last_iteration :: "Loop \<Rightarrow> AffineForm option option" where
  "last_iteration l =
     (case lp_trip l of
        Some trip \<Rightarrow> map_option (\<lambda>n. Some (form_constant n)) (checked (trip - 1))
      | None \<Rightarrow>
          if as_constant (lp_step l) = Some 1
          then do {
            d \<leftarrow> form_sub (lp_upper l) (lp_lower l);
            map_option Some (form_sub d (form_constant 1))
          }
          else Some None)"

definition iteration :: "Loop list \<Rightarrow> nat \<Rightarrow> AffineForm option option" where
  "iteration loops depth = do {
     level \<leftarrow> nth_opt loops depth;
     (case as_constant (lp_step level) of
        None \<Rightarrow> Some None
      | Some step \<Rightarrow>
          if step \<le> 0 then Some None
          else
            (case lp_trip level of
               Some trip \<Rightarrow>
                 (case as_constant (lp_lower level) of
                    None \<Rightarrow> Some None
                  | Some lower \<Rightarrow> do {
                      p \<leftarrow> checked (step * trip);
                      final \<leftarrow> checked (lower + p);
                      if form_fits (lp_width level) (final, final)
                      then map_option Some (form_add (lp_lower level) (form_scale step (form_counter depth)))
                      else Some None
                    })
             | None \<Rightarrow>
                 if step = 1 then map_option Some (form_add (lp_lower level) (form_scale step (form_counter depth)))
                 else Some None))
   }"

text \<open>A trip count is the number of iterations a counted loop makes.\<close>

lemma trip_count_counts:
  assumes "trip_count lower upper step = Some (Some t)" "0 \<le> k"
  shows "\<exists>l u s. as_constant lower = Some l \<and> as_constant upper = Some u \<and> as_constant step = Some s \<and> 0 < s \<and>
    (l + s * k < u \<longleftrightarrow> k < t)"
proof -
  obtain l u s where lus: "as_constant lower = Some l" "as_constant upper = Some u" "as_constant step = Some s" "0 < s"
    and t: "t = (if u \<le> l then 0 else (u - l) div s + of_bool ((u - l) mod s \<noteq> 0))"
    using assms(1) by (auto simp: trip_count_def split: option.splits if_splits bind_splits)
  have "l + s * k < u \<longleftrightarrow> k < t"
  proof (cases "u \<le> l")
    case True
    moreover have "0 \<le> s * k" using lus(4) assms(2) by simp
    ultimately show ?thesis using assms(2) t by simp
  next
    case False
    define q r where "q = (u - l) div s" and "r = (u - l) mod s"
    have qr: "u - l = s * q + r" "0 \<le> r" "r < s"
      using lus(4) by (simp_all add: q_def r_def)
    consider "k < q" | "k = q" | "q < k" by linarith
    then have "k < q + of_bool (r \<noteq> 0) \<longleftrightarrow> s * k < s * q + r"
    proof cases
      case 1
      then have "s * (k + 1) \<le> s * q" using lus(4) by (intro mult_left_mono) auto
      then show ?thesis using 1 qr lus(4) by (simp add: algebra_simps)
    next
      case 3
      then have "s * (q + 1) \<le> s * k" using lus(4) by (intro mult_left_mono) auto
      then show ?thesis using 3 qr lus(4) by (simp add: algebra_simps of_bool_def)
    qed (use qr in auto)
    then have "k < (u - l) div s + of_bool ((u - l) mod s \<noteq> 0) \<longleftrightarrow> s * k < u - l"
      unfolding q_def [symmetric] r_def [symmetric] using qr(1) by linarith
    then show ?thesis using False t by (auto simp: algebra_simps)
  qed
  then show ?thesis using lus by blast
qed

subsection \<open>Pairs of accesses\<close>

text \<open>One bound of an access's bytes: each counter at the end of its loop that makes the offset least
  (\<open>take_low\<close>) or greatest.\<close>

fun extreme_form :: "bool \<Rightarrow> Loop list \<Rightarrow> nat \<Rightarrow> AffineForm \<Rightarrow> AffineForm option option" where
  "extreme_form take_low [] depth f = Some (Some f)"
| "extreme_form take_low (l # loops) depth f = do {
     lst \<leftarrow> last_iteration l;
     (case lst of
        None \<Rightarrow> Some None
      | Some la \<Rightarrow>
          (let c = counter_coefficient f depth;
               f = set_counter_coefficient depth 0 f
           in if c = 0 \<or> (c > 0) = take_low then extreme_form take_low loops (depth + 1) f
              else do {
                f \<leftarrow> form_add f (form_scale c la);
                extreme_form take_low loops (depth + 1) f
              }))
   }"

definition extremes :: "Loop list \<Rightarrow> Access \<Rightarrow> AffineForm \<Rightarrow> Extremes option option" where
  "extremes loops access offset = do {
     low \<leftarrow> extreme_form True loops 0 offset;
     high \<leftarrow> extreme_form False loops 0 offset;
     (case (low, high) of
        (Some low, Some high) \<Rightarrow>
          if is_uniform low \<and> is_uniform high
          then do {
            high \<leftarrow> form_add high (form_constant (int (ac_extent access) - 1));
            Some (Some \<lparr>ex_base = ac_base access, ex_low = low, ex_high = high\<rparr>)
          }
          else Some None
      | _ \<Rightarrow> Some None)
   }"

text \<open>The intervals in which the weighted distance makes the bytes of the two accesses meet, in either
  order of the iterations.\<close>

definition meeting_targets :: "int \<Rightarrow> int \<Rightarrow> int \<Rightarrow> (int \<times> int) list option" where
  "meeting_targets gap left_extent right_extent = do {
     a \<leftarrow> checked (gap - right_extent); a \<leftarrow> checked (a + 1);
     b \<leftarrow> checked (gap + left_extent); b \<leftarrow> checked (b - 1);
     n \<leftarrow> checked (- gap);
     c \<leftarrow> checked (n - left_extent); c \<leftarrow> checked (c + 1);
     d \<leftarrow> checked (n + right_extent); d \<leftarrow> checked (d - 1);
     Some [(a, b), (c, d)]
   }"

definition dependence :: "Loop list \<Rightarrow> bool \<Rightarrow> Access \<Rightarrow> Access \<Rightarrow> Dependence option" where
  "dependence loops opaque a b =
     (case (ac_offset a, ac_offset b) of
        (AffineOffset left, AffineOffset right) \<Rightarrow>
          if opaque \<or> ac_wrapping a \<or> ac_wrapping b then Some Unknown
          else if ac_base a \<noteq> ac_base b then do {
            el \<leftarrow> extremes loops a left;
            er \<leftarrow> extremes loops b right;
            Some (case (el, er) of (Some el, Some er) \<Rightarrow> Conditional el er | _ \<Rightarrow> Unknown)
          }
          else do {
            same \<leftarrow> same_slopes left right;
            if \<not> same then Some Unknown
            else do {
              let coefficients = map (counter_coefficient left) [0..<length loops];
              gap \<leftarrow> checked (af_constant left - af_constant right);
              targets \<leftarrow> meeting_targets gap (int (ac_extent a)) (int (ac_extent b));
              extents \<leftarrow> map_opt (\<lambda>l. case lp_trip l of None \<Rightarrow> Some None
                                     | Some trip \<Rightarrow> map_option Some (checked (trip - 1))) loops;
              r \<leftarrow> distances coefficients extents targets;
              Some (case r of Some components \<Rightarrow> Distances components | None \<Rightarrow> Independent)
            }
          }
      | _ \<Rightarrow> Some Unknown)"

text \<open>The pairs of \<open>left\<close> with the accesses from \<open>right\<close> on, then the whole table.\<close>

fun pairs_with :: "Builder \<Rightarrow> nat \<Rightarrow> Access \<Rightarrow> nat \<Rightarrow> Access list \<Rightarrow> Pair list option" where
  "pairs_with bu left a right [] = Some []"
| "pairs_with bu left a right (b # bs) =
     (if set (ac_chains a) \<inter> set (ac_chains b) = {} \<or> \<not> (ac_write a \<or> ac_write b)
      then pairs_with bu left a (right + 1) bs
      else do {
        d \<leftarrow> dependence (bu_loops bu) (bu_opaque bu) a b;
        rest \<leftarrow> pairs_with bu left a (right + 1) bs;
        Some (\<lparr>pr_left = left, pr_right = right, pr_dependence = d\<rparr> # rest)
      })"

fun pairs_from :: "Builder \<Rightarrow> nat \<Rightarrow> Access list \<Rightarrow> Pair list option" where
  "pairs_from bu left [] = Some []"
| "pairs_from bu left (a # as) = do {
     here \<leftarrow> pairs_with bu left a (left + 1) as;
     rest \<leftarrow> pairs_from bu (left + 1) as;
     Some (here @ rest)
   }"

definition pairs :: "Builder \<Rightarrow> Pair list option" where
  "pairs bu = pairs_from bu 0 (bu_accesses bu)"

subsection \<open>Iterations and the bytes they touch\<close>

definition in_space :: "Loop list \<Rightarrow> (nat \<Rightarrow> int) \<Rightarrow> bool" where
  "in_space loops x \<longleftrightarrow>
     (\<forall>d. if d < length loops
          then 0 \<le> x d \<and> (case lp_trip (loops ! d) of Some t \<Rightarrow> x d < t | None \<Rightarrow> x d \<le> unbounded)
          else x d = 0)"

definition touches :: "AffineForm \<Rightarrow> nat \<Rightarrow> (nat \<Rightarrow> int) \<Rightarrow> (nat \<Rightarrow> int) \<Rightarrow> int \<Rightarrow> bool" where
  "touches f extent x ss byte \<longleftrightarrow> form_value f x ss \<le> byte \<and> byte < form_value f x ss + int extent"

definition loop_extent :: "Loop \<Rightarrow> int" where
  "loop_extent l = (case lp_trip l of Some t \<Rightarrow> t - 1 | None \<Rightarrow> unbounded)"

text \<open>Sizes for which reading a pair does not overflow: at most six loops, constants and slopes below
  \<open>2 ^ 124\<close>, extents below \<open>2 ^ 64\<close>, and each loop moving the address by less than \<open>2 ^ 123\<close>.\<close>

definition small_form :: "AffineForm \<Rightarrow> bool" where
  "small_form f \<longleftrightarrow> list_all (\<lambda>c. \<bar>c\<bar> \<le> 2 ^ 124) (af_counters f @ af_symbols f @ [af_constant f])"

definition pair_bounds :: "Loop list \<Rightarrow> AffineForm \<Rightarrow> AffineForm \<Rightarrow> Access \<Rightarrow> Access \<Rightarrow> bool" where
  "pair_bounds loops f g a b \<longleftrightarrow>
     small_form f \<and> small_form g \<and> length loops \<le> 6 \<and> ac_extent a < 2 ^ 64 \<and> ac_extent b < 2 ^ 64 \<and>
     (\<forall>d<length loops. \<bar>loop_extent (loops ! d)\<bar> \<le> 2 ^ 126 \<and>
        \<bar>counter_coefficient f d\<bar> * max 1 \<bar>loop_extent (loops ! d)\<bar> \<le> 2 ^ 123)"

lemma saturated_zero: "saturated x = 0 \<longleftrightarrow> x = 0"
  by (auto simp: saturated_def i128_min_def i128_max_def max_def min_def split: if_splits)

lemma small_i128: "\<bar>x\<bar> \<le> 2 ^ 124 \<Longrightarrow> is_i128 x \<and> is_i128 (- x)"
  by (auto intro!: is_i128_abs)

lemma small_form_i128: "small_form f \<Longrightarrow> form_i128 f"
  unfolding small_form_def form_i128_def list_all_iff by (simp add: small_i128)

lemma small_form_sub: "small_form g \<Longrightarrow> \<exists>h. form_sub f g = Some h"
  unfolding form_sub_def small_form_def list_all_iff
  by (rule form_combine_defined) (simp_all add: small_i128 list_all_iff)

lemma coefficient_at_zero: "list_all (\<lambda>c. c = 0) cs \<Longrightarrow> coefficient_at cs i = 0"
  by (auto simp: coefficient_at_def list_all_length)

lemma combine_terms_zero:
  assumes "combine_terms (- 1) xs ys = Some r" "list_all (\<lambda>c. c = 0) r" "length ys \<le> length xs" "list_all is_i128 xs"
  shows "coefficient_at xs i = coefficient_at ys i"
proof (cases "i < length xs")
  case True
  then have "saturated (xs ! i + - 1 * coefficient_at ys i) = 0"
    using combine_terms_nth [OF assms(1,3,4)] assms(2) by (auto simp: list_all_length)
  then show ?thesis
    using True by (simp add: saturated_zero coefficient_at_def)
qed (use assms(3) in \<open>simp add: coefficient_at_def\<close>)

lemma same_slopes_coefficients:
  assumes "same_slopes f g = Some True" "form_i128 f"
  shows "counter_coefficient f i = counter_coefficient g i \<and> symbol_coefficient f i = symbol_coefficient g i"
proof -
  define f' where "f' = grow_symbols (length (af_symbols g)) (grow_counters (length (af_counters g)) f)"
  have f': "form_i128 f'" "length (af_counters g) \<le> length (af_counters f')" "length (af_symbols g) \<le> length (af_symbols f')"
    using assms(2) by (simp_all add: f'_def)
  have coef: "coefficient_at (af_counters f') i = coefficient_at (af_counters f) i"
    "coefficient_at (af_symbols f') i = coefficient_at (af_symbols f) i"
    by (simp_all add: f'_def grow_counters_def grow_symbols_def)
  obtain cs ss where cs: "combine_terms (- 1) (af_counters f') (af_counters g) = Some cs"
    and ss: "combine_terms (- 1) (af_symbols f') (af_symbols g) = Some ss"
    and z: "list_all (\<lambda>c. c = 0) cs" "list_all (\<lambda>c. c = 0) ss"
    using assms(1)
    by (auto simp: same_slopes_def form_sub_def form_combine_def Let_def f'_def form_is_constant_def split: bind_splits)
  show ?thesis
    using combine_terms_zero [OF cs z(1) f'(2)] combine_terms_zero [OF ss z(2) f'(3)] f'(1) coef
    by (simp add: form_i128_def counter_coefficient_def symbol_coefficient_def)
qed

lemma weighted_coefficients_eq:
  assumes "\<And>i. coefficient_at cs i = coefficient_at ds i"
  shows "weighted cs x = weighted ds x"
  using weighted_coefficients [of cs "max (length cs) (length ds)" x] weighted_coefficients [of ds "max (length cs) (length ds)" x] assms
  by simp

lemma weighted_truncate:
  assumes "\<And>i. n \<le> i \<Longrightarrow> x i = 0"
  shows "weighted (map (coefficient_at cs) [0..<n]) x = weighted cs x"
proof -
  let ?m = "max n (length cs)"
  have "weighted cs x = (\<Sum>i<?m. coefficient_at cs i * x i)"
    by (rule weighted_coefficients) simp
  also have "\<dots> = (\<Sum>i<n. coefficient_at cs i * x i)"
    by (rule sum.mono_neutral_right) (use assms in auto)
  finally show ?thesis
    by (simp add: weighted_def)
qed

lemma weighted_diff: "weighted cs (\<lambda>i. x i - y i) = weighted cs x - weighted cs y"
  by (simp add: weighted_def algebra_simps sum_subtractf)

text \<open>Two accesses with equal slopes meet exactly when the weighted distance is in the first target; read
  backwards, in the second.\<close>

lemma same_slopes_difference:
  assumes s: "same_slopes f g = Some True" "form_i128 f" and z: "\<And>i. n \<le> i \<Longrightarrow> x i = 0" "\<And>i. n \<le> i \<Longrightarrow> y i = 0"
  shows "form_value f x ss - form_value g y ss =
    af_constant f - af_constant g - weighted (map (counter_coefficient f) [0..<n]) (\<lambda>i. y i - x i)"
proof -
  have c: "weighted (af_counters g) v = weighted (af_counters f) v" "weighted (af_symbols g) v = weighted (af_symbols f) v" for v
    using same_slopes_coefficients [OF s]
    by (auto simp: counter_coefficient_def symbol_coefficient_def intro!: weighted_coefficients_eq)
  have "weighted (map (counter_coefficient f) [0..<n]) (\<lambda>i. y i - x i) = weighted (af_counters f) (\<lambda>i. y i - x i)"
    unfolding counter_coefficient_def by (rule weighted_truncate) (simp add: z)
  then show ?thesis
    by (simp add: form_value_def c weighted_diff)
qed

lemma meeting_targets_eq:
  assumes "\<bar>gap\<bar> \<le> 2 ^ 125" "0 \<le> el" "el < 2 ^ 64" "0 \<le> er" "er < 2 ^ 64"
  shows "meeting_targets gap el er = Some [(gap - er + 1, gap + el - 1), (- gap - el + 1, - gap + er - 1)]"
proof -
  have "is_i128 (gap - er)" "is_i128 (gap - er + 1)" "is_i128 (gap + el)" "is_i128 (gap + el - 1)" "is_i128 (- gap)"
    "is_i128 (- gap - el)" "is_i128 (- gap - el + 1)" "is_i128 (- gap + er)" "is_i128 (- gap + er - 1)"
    using assms by (auto intro!: is_i128_abs)
  then show ?thesis
    by (simp add: meeting_targets_def checked_def)
qed

lemma lex_sign:
  assumes "d < n" "x d \<noteq> (0 :: int)"
  shows "lex_positive n x \<or> lex_positive n (\<lambda>i. - x i)"
proof -
  define e where "e = (LEAST e. x e \<noteq> 0)"
  have e: "x e \<noteq> 0" "e \<le> d"
    unfolding e_def using LeastI [of "\<lambda>e. x e \<noteq> 0" d] Least_le [of "\<lambda>e. x e \<noteq> 0" d] assms(2) by simp_all
  have "x k = 0" if "k < e" for k
    using not_less_Least that unfolding e_def by blast
  then show ?thesis
    using e assms(1) unfolding lex_positive_def by (cases "0 < x e") (auto intro!: exI [of _ e])
qed

subsection \<open>Soundness of the pair\<close>

definition admitted_at :: "Component list \<Rightarrow> nat \<Rightarrow> (nat \<Rightarrow> int) \<Rightarrow> bool" where
  "admitted_at comps n x \<longleftrightarrow> length comps = n \<and> (\<forall>d<n. component_admits (comps ! d) (x d))"

text \<open>What a verdict says about the iterations \<open>x\<close> of the first access and \<open>y\<close> of the second that meet.\<close>

fun verdict_admits :: "Dependence \<Rightarrow> nat \<Rightarrow> (nat \<Rightarrow> int) \<Rightarrow> (nat \<Rightarrow> int) \<Rightarrow> bool" where
  "verdict_admits Independent n x y \<longleftrightarrow> (\<forall>d<n. x d = y d)"
| "verdict_admits (Distances comps) n x y \<longleftrightarrow>
     (\<forall>d<n. x d = y d) \<or>
     lex_positive n (\<lambda>d. y d - x d) \<and> admitted_at comps n (\<lambda>d. y d - x d) \<or>
     lex_positive n (\<lambda>d. x d - y d) \<and> admitted_at comps n (\<lambda>d. x d - y d)"
| "verdict_admits (Conditional el er) n x y \<longleftrightarrow> True"
| "verdict_admits Unknown n x y \<longleftrightarrow> True"

lemma extents_eq:
  assumes "\<And>d. d < length loops \<Longrightarrow> \<bar>loop_extent (loops ! d)\<bar> \<le> 2 ^ 126"
  shows "\<exists>es. map_opt (\<lambda>l. case lp_trip l of None \<Rightarrow> Some None | Some trip \<Rightarrow> map_option Some (checked (trip - 1))) loops = Some es \<and>
    unwrap_extents es = map loop_extent loops"
proof -
  let ?e = "\<lambda>l. map_option (\<lambda>t. t - 1) (lp_trip l)"
  have "map_opt (\<lambda>l. case lp_trip l of None \<Rightarrow> Some None | Some trip \<Rightarrow> map_option Some (checked (trip - 1))) loops = Some (map ?e loops)"
  proof (rule map_opt_total)
    fix l assume "l \<in> set loops"
    then obtain d where "d < length loops" "l = loops ! d"
      by (auto simp: in_set_conv_nth)
    then have "\<bar>loop_extent l\<bar> \<le> 2 ^ 126" using assms by simp
    then show "(case lp_trip l of None \<Rightarrow> Some None | Some trip \<Rightarrow> map_option Some (checked (trip - 1))) = Some (?e l)"
      by (auto simp: loop_extent_def checked_def intro: is_i128_abs split: option.splits)
  qed
  moreover have "unwrap_extents (map ?e loops) = map loop_extent loops"
    by (auto simp: unwrap_extents_def loop_extent_def split: option.splits)
  ultimately show ?thesis by blast
qed

lemma in_space_distance:
  assumes "in_space loops x" "in_space loops y" "d < length loops"
  shows "\<bar>y d - x d\<bar> \<le> loop_extent (loops ! d)"
  using assms [unfolded in_space_def] by (auto simp: loop_extent_def split: option.splits dest!: spec [of _ d])

text \<open>The weighted distance of two iterations that meet, and of the same two read backwards.\<close>

lemma meeting_solves:
  assumes s: "same_slopes f g = Some True" "form_i128 f" and sp: "in_space loops x" "in_space loops y"
    and t: "touches f ea x ss byte" "touches g eb y ss byte"
  defines "cs \<equiv> map (counter_coefficient f) [0..<length loops]" and "gap \<equiv> af_constant f - af_constant g"
  shows "solves cs [(gap - int eb + 1, gap + int ea - 1), (- gap - int ea + 1, - gap + int eb - 1)] (\<lambda>i. y i - x i)"
    and "solves cs [(gap - int eb + 1, gap + int ea - 1), (- gap - int ea + 1, - gap + int eb - 1)] (\<lambda>i. x i - y i)"
proof -
  have z: "length loops \<le> i \<Longrightarrow> x i = 0" "length loops \<le> i \<Longrightarrow> y i = 0" for i
    using sp by (auto simp: in_space_def dest!: spec [of _ i])
  have "form_value f x ss - form_value g y ss = gap - weighted cs (\<lambda>i. y i - x i)"
    unfolding cs_def gap_def by (rule same_slopes_difference [OF s]) (auto simp: z)
  moreover have "weighted cs (\<lambda>i. x i - y i) = - weighted cs (\<lambda>i. y i - x i)"
    by (simp add: weighted_diff)
  moreover have "- int ea < form_value f x ss - form_value g y ss" "form_value f x ss - form_value g y ss < int eb"
    using t by (auto simp: touches_def)
  ultimately show "solves cs [(gap - int eb + 1, gap + int ea - 1), (- gap - int ea + 1, - gap + int eb - 1)] (\<lambda>i. y i - x i)"
    "solves cs [(gap - int eb + 1, gap + int ea - 1), (- gap - int ea + 1, - gap + int eb - 1)] (\<lambda>i. x i - y i)"
    by (auto simp: solves_def)
qed

lemma dependence_same_base:
  assumes off: "ac_offset a = AffineOffset f" "ac_offset b = AffineOffset g"
    and ok: "\<not> opaque" "\<not> ac_wrapping a" "\<not> ac_wrapping b" "ac_base a = ac_base b"
    and bd: "pair_bounds loops f g a b"
  shows "\<exists>r. dependence loops opaque a b = Some r \<and>
    (\<forall>x y ss byte. in_space loops x \<longrightarrow> in_space loops y \<longrightarrow> touches f (ac_extent a) x ss byte \<longrightarrow> touches g (ac_extent b) y ss byte \<longrightarrow>
       verdict_admits r (length loops) x y)"
proof -
  let ?n = "length loops"
  define cs where "cs = map (counter_coefficient f) [0..<?n]"
  define gap where "gap = af_constant f - af_constant g"
  define ts where "ts = [(gap - int (ac_extent b) + 1, gap + int (ac_extent a) - 1), (- gap - int (ac_extent a) + 1, - gap + int (ac_extent b) - 1)]"
  note B = bd [unfolded pair_bounds_def]
  have f: "form_i128 f" using B small_form_i128 by blast
  obtain h where h: "form_sub f g = Some h" using small_form_sub B by blast
  show ?thesis
  proof (cases "form_is_constant h")
    case False
    then have "dependence loops opaque a b = Some Unknown"
      using off ok h by (simp add: dependence_def same_slopes_def)
    then show ?thesis by (intro exI [of _ Unknown]) simp
  next
    case True
    then have slopes: "same_slopes f g = Some True" by (simp add: same_slopes_def h)
    have g: "\<bar>gap\<bar> \<le> 2 ^ 125"
      using B by (auto simp: gap_def small_form_def)
    then have gi: "is_i128 gap" by (auto intro!: is_i128_abs)
    have t: "meeting_targets gap (int (ac_extent a)) (int (ac_extent b)) = Some ts"
      unfolding ts_def using B by (intro meeting_targets_eq [OF g]) auto
    obtain es where es: "map_opt (\<lambda>l. case lp_trip l of None \<Rightarrow> Some None | Some trip \<Rightarrow> map_option Some (checked (trip - 1))) loops = Some es"
      "unwrap_extents es = map loop_extent loops"
      using extents_eq [of loops] B by blast
    have ab: "int (ac_extent a) < 2 ^ 64" "int (ac_extent b) < 2 ^ 64"
      using B by (simp_all add: of_nat_less_iff [symmetric] del: of_nat_less_iff)
    have db: "distance_bounds cs (unwrap_extents es) ts"
      using B g ab by (auto simp: distance_bounds_def es(2) cs_def ts_def)
    obtain r where r: "distances cs es ts = Some r"
      "\<forall>v. lex_positive (length cs) v \<longrightarrow> (\<forall>i<length cs. \<bar>v i\<bar> \<le> unwrap_extents es ! i) \<longrightarrow> solves cs ts v \<longrightarrow>
         (\<exists>comps. r = Some comps \<and> length comps = length cs \<and> (\<forall>d<length cs. component_admits (comps ! d) (v d)))"
      using distances_spec [OF db] by (elim exE conjE) (rule that)
    define w where "w = (case r of Some components \<Rightarrow> Distances components | None \<Rightarrow> Independent)"
    have eq: "dependence loops opaque a b = Some w"
      using off ok slopes gi t es(1) r(1) by (simp add: dependence_def gap_def [symmetric] cs_def [symmetric] checked_def w_def)
    have n: "length cs = ?n" by (simp add: cs_def)
    have "verdict_admits w ?n x y"
      if sp: "in_space loops x" "in_space loops y" and t: "touches f (ac_extent a) x ss byte" "touches g (ac_extent b) y ss byte" for x y ss byte
    proof (cases "\<forall>d<?n. x d = y d")
      case True
      then show ?thesis by (simp add: w_def split: option.splits)
    next
      case False
      then obtain d where d: "d < ?n" "y d - x d \<noteq> 0" by auto
      have M: "solves cs ts (\<lambda>i. y i - x i)" "solves cs ts (\<lambda>i. x i - y i)"
        unfolding cs_def gap_def ts_def by (rule meeting_solves [OF slopes f sp t])+
      have dist: "\<forall>i<?n. \<bar>y i - x i\<bar> \<le> unwrap_extents es ! i" "\<forall>i<?n. \<bar>x i - y i\<bar> \<le> unwrap_extents es ! i"
        using in_space_distance [OF sp] in_space_distance [OF sp(2,1)] by (simp_all add: es(2))
      from lex_sign [of d ?n "\<lambda>i. y i - x i"] d consider "lex_positive ?n (\<lambda>i. y i - x i)" | "lex_positive ?n (\<lambda>i. x i - y i)" by fastforce
      then show ?thesis
      proof cases
        case 1
        then show ?thesis using r(2) [rule_format, of "\<lambda>i. y i - x i"] M(1) dist(1) n by (auto simp: w_def admitted_at_def)
      next
        case 2
        then show ?thesis using r(2) [rule_format, of "\<lambda>i. x i - y i"] M(2) dist(2) n by (auto simp: w_def admitted_at_def)
      qed
    qed
    then show ?thesis
      using eq by blast
  qed
qed

subsection \<open>The table of pairs\<close>

definition small_loop :: "Loop \<Rightarrow> bool" where
  "small_loop l \<longleftrightarrow> small_form (lp_lower l) \<and> form_i128 (lp_upper l) \<and> \<bar>loop_extent l\<bar> \<le> 2 ^ 126"

definition small_access :: "Loop list \<Rightarrow> Access \<Rightarrow> bool" where
  "small_access loops a \<longleftrightarrow>
     ac_extent a < 2 ^ 64 \<and>
     (\<forall>f. ac_offset a = AffineOffset f \<longrightarrow>
        small_form f \<and>
        (\<forall>d<length loops. \<bar>counter_coefficient f d\<bar> * max 1 \<bar>loop_extent (loops ! d)\<bar> \<le> 2 ^ 123))"

definition nest_bounds :: "Loop list \<Rightarrow> Access list \<Rightarrow> bool" where
  "nest_bounds loops as \<longleftrightarrow>
     length loops \<le> 6 \<and> list_all small_loop loops \<and> list_all (small_access loops) as"

lemma form_scale_i128: "form_i128 (form_scale k f)"
  by (simp add: form_scale_def form_i128_def saturating_mul_def list_all_iff)

lemma set_counter_coefficient_i128: "\<lbrakk>form_i128 f; is_i128 v\<rbrakk> \<Longrightarrow> form_i128 (set_counter_coefficient d v f)"
  using form_grown(9) [of f "d + 1"]
  by (auto simp: set_counter_coefficient_def Let_def form_i128_def list_all_iff dest!: set_update_subset_insert [THEN subsetD])

lemma form_add_i128: "\<lbrakk>form_i128 f; form_i128 g\<rbrakk> \<Longrightarrow> \<exists>h. form_add f g = Some h \<and> form_i128 h"
  using form_add_defined [of g f] form_combine_parts(1) [of 1 f g] by (auto simp: form_add_def)

lemma form_sub_i128: "\<lbrakk>form_i128 f; small_form g\<rbrakk> \<Longrightarrow> \<exists>h. form_sub f g = Some h \<and> form_i128 h"
  using small_form_sub [of g f] form_combine_parts(1) [of "- 1" f g] by (auto simp: form_sub_def)

lemma last_iteration_total:
  assumes "small_loop l"
  shows "\<exists>r. last_iteration l = Some r \<and> (\<forall>f. r = Some f \<longrightarrow> form_i128 f)"
proof (cases "lp_trip l")
  case None
  have "small_form (form_constant 1)"
    by (simp add: small_form_def form_constant_def form_default_def)
  moreover obtain d where d: "form_sub (lp_upper l) (lp_lower l) = Some d" "form_i128 d"
    using form_sub_i128 assms by (auto simp: small_loop_def)
  ultimately obtain h where "form_sub d (form_constant 1) = Some h" "form_i128 h"
    using form_sub_i128 by blast
  then show ?thesis
    using None d by (auto simp: last_iteration_def)
next
  case (Some t)
  then have "is_i128 (t - 1)"
    using assms by (auto simp: small_loop_def loop_extent_def intro: is_i128_abs)
  then show ?thesis
    using Some by (simp add: last_iteration_def checked_def)
qed

lemma extreme_form_total:
  assumes "list_all small_loop loops" "form_i128 f"
  shows "\<exists>r. extreme_form lo loops depth f = Some r \<and> (\<forall>h. r = Some h \<longrightarrow> form_i128 h)"
  using assms
proof (induction loops arbitrary: depth f)
  case (Cons l loops)
  obtain r where r: "last_iteration l = Some r" "\<forall>f. r = Some f \<longrightarrow> form_i128 f"
    using last_iteration_total Cons.prems by auto
  show ?case
  proof (cases r)
    case None
    then show ?thesis using r by simp
  next
    case (Some la)
    let ?f = "set_counter_coefficient depth 0 f" and ?c = "counter_coefficient f depth"
    have f: "form_i128 ?f"
      using set_counter_coefficient_i128 Cons.prems by simp
    obtain g where g: "form_add ?f (form_scale ?c la) = Some g" "form_i128 g"
      using form_add_i128 [OF f form_scale_i128] by blast
    show ?thesis
      using Cons.IH [OF _ f] Cons.IH [OF _ g(2)] Cons.prems(1) r(1) Some g(1) by (auto simp: Let_def)
  qed
qed simp

lemma extremes_total:
  assumes "list_all small_loop loops" "form_i128 f" "ac_extent a < 2 ^ 64"
  shows "\<exists>r. extremes loops a f = Some r"
proof -
  obtain low where low: "extreme_form True loops 0 f = Some low"
    using extreme_form_total [OF assms(1,2)] by blast
  obtain high where high: "extreme_form False loops 0 f = Some high" "\<forall>h. high = Some h \<longrightarrow> form_i128 h"
    using extreme_form_total [OF assms(1,2)] by blast
  have "int (ac_extent a) < 2 ^ 64"
    using assms(3) by (simp add: of_nat_less_iff [symmetric] del: of_nat_less_iff)
  then have "form_i128 (form_constant (int (ac_extent a) - 1))"
    by (intro form_basics_i128(1) is_i128_abs) auto
  then show ?thesis
    using form_add_i128 low high by (cases low; cases high) (fastforce simp: extremes_def)+
qed

lemma dependence_spec:
  assumes n: "length loops \<le> 6" "list_all small_loop loops" and a: "small_access loops a" and b: "small_access loops b"
  shows "\<exists>r. dependence loops opaque a b = Some r \<and>
    (\<forall>f g x y ss byte. ac_offset a = AffineOffset f \<longrightarrow> ac_offset b = AffineOffset g \<longrightarrow> ac_base a = ac_base b \<longrightarrow>
       in_space loops x \<longrightarrow> in_space loops y \<longrightarrow> touches f (ac_extent a) x ss byte \<longrightarrow> touches g (ac_extent b) y ss byte \<longrightarrow>
       verdict_admits r (length loops) x y)"
proof (cases "\<exists>f g. ac_offset a = AffineOffset f \<and> ac_offset b = AffineOffset g")
  case False
  then have "dependence loops opaque a b = Some Unknown"
    by (auto simp: dependence_def split: Offset.splits)
  then show ?thesis by (intro exI [of _ Unknown]) simp
next
  case True
  then obtain f g where off: "ac_offset a = AffineOffset f" "ac_offset b = AffineOffset g" by blast
  have small: "small_form f" "small_form g" using a b off by (simp_all add: small_access_def)
  consider "opaque \<or> ac_wrapping a \<or> ac_wrapping b" | "\<not> opaque" "\<not> ac_wrapping a" "\<not> ac_wrapping b" "ac_base a \<noteq> ac_base b"
    | "\<not> opaque" "\<not> ac_wrapping a" "\<not> ac_wrapping b" "ac_base a = ac_base b" by blast
  then show ?thesis
  proof cases
    case 1
    then show ?thesis using off by (intro exI [of _ Unknown]) (simp add: dependence_def)
  next
    case 2
    obtain el er where "extremes loops a f = Some el" "extremes loops b g = Some er"
      using extremes_total [OF n(2) small_form_i128] small a b by (metis small_access_def)
    then show ?thesis using 2 off by (simp add: dependence_def)
  next
    case 3
    have "pair_bounds loops f g a b"
      using n a b off small by (auto simp: pair_bounds_def small_access_def small_loop_def list_all_length)
    from dependence_same_base [OF off 3 this] show ?thesis
      using off by auto
  qed
qed

definition conflicting :: "Access \<Rightarrow> Access \<Rightarrow> bool" where
  "conflicting a b \<longleftrightarrow> set (ac_chains a) \<inter> set (ac_chains b) \<noteq> {} \<and> (ac_write a \<or> ac_write b)"

definition listed :: "Builder \<Rightarrow> Pair list \<Rightarrow> nat \<Rightarrow> nat \<Rightarrow> Access \<Rightarrow> Access \<Rightarrow> bool" where
  "listed bu ps i j a b \<longleftrightarrow>
     (\<exists>p\<in>set ps. pr_left p = i \<and> pr_right p = j \<and> dependence (bu_loops bu) (bu_opaque bu) a b = Some (pr_dependence p))"

lemma listed_append [simp]: "listed bu (ps @ qs) i j a b \<longleftrightarrow> listed bu ps i j a b \<or> listed bu qs i j a b"
  by (auto simp: listed_def)

lemma listed_Cons: "listed bu ps i j a b \<Longrightarrow> listed bu (p # ps) i j a b"
  by (auto simp: listed_def)

lemma pairs_with_Cons:
  "pairs_with bu left a right (b # bs) =
     (if conflicting a b
      then Option.bind (dependence (bu_loops bu) (bu_opaque bu) a b) (\<lambda>d.
           map_option (\<lambda>rest. \<lparr>pr_left = left, pr_right = right, pr_dependence = d\<rparr> # rest) (pairs_with bu left a (Suc right) bs))
      else pairs_with bu left a (Suc right) bs)"
  by (auto simp: conflicting_def map_conv_bind_option split: bind_splits)

lemma pairs_with_spec:
  assumes "length (bu_loops bu) \<le> 6" "list_all small_loop (bu_loops bu)" "small_access (bu_loops bu) a"
    and "list_all (small_access (bu_loops bu)) bs"
  shows "\<exists>ps. pairs_with bu left a right bs = Some ps \<and>
    (\<forall>i<length bs. conflicting a (bs ! i) \<longrightarrow> listed bu ps left (right + i) a (bs ! i))"
  using assms(4)
proof (induction bs arbitrary: right)
  case (Cons b bs)
  obtain ps where ps: "pairs_with bu left a (Suc right) bs = Some ps"
    "\<forall>i<length bs. conflicting a (bs ! i) \<longrightarrow> listed bu ps left (Suc right + i) a (bs ! i)"
    using Cons.IH [of "Suc right"] Cons.prems by auto
  obtain d where d: "dependence (bu_loops bu) (bu_opaque bu) a b = Some d"
    using dependence_spec [OF assms(1-3), of b "bu_opaque bu"] Cons.prems by auto
  define qs where "qs = (if conflicting a b then \<lparr>pr_left = left, pr_right = right, pr_dependence = d\<rparr> # ps else ps)"
  have eq: "pairs_with bu left a right (b # bs) = Some qs"
    using ps(1) d by (simp add: pairs_with_Cons qs_def del: pairs_with.simps)
  have "listed bu qs left (right + i) a ((b # bs) ! i)" if "i < length (b # bs)" "conflicting a ((b # bs) ! i)" for i
  proof (cases i)
    case 0
    then show ?thesis using that d by (simp add: qs_def listed_def)
  next
    case (Suc k)
    then show ?thesis using that ps(2) by (auto simp: qs_def listed_Cons)
  qed
  then show ?case
    using eq by blast
qed simp

lemma pairs_from_spec:
  assumes "length (bu_loops bu) \<le> 6" "list_all small_loop (bu_loops bu)" "list_all (small_access (bu_loops bu)) as"
  shows "\<exists>ps. pairs_from bu left as = Some ps \<and>
    (\<forall>i j. i < j \<longrightarrow> j < length as \<longrightarrow> conflicting (as ! i) (as ! j) \<longrightarrow> listed bu ps (left + i) (left + j) (as ! i) (as ! j))"
  using assms(3)
proof (induction as arbitrary: left)
  case (Cons a as)
  have a: "small_access (bu_loops bu) a" "list_all (small_access (bu_loops bu)) as"
    using Cons.prems by simp_all
  obtain qs where qs: "pairs_with bu left a (left + 1) as = Some qs"
    "\<forall>i<length as. conflicting a (as ! i) \<longrightarrow> listed bu qs left (left + 1 + i) a (as ! i)"
    using pairs_with_spec [OF assms(1,2) a, of left "left + 1"] by blast
  obtain ps where ps: "pairs_from bu (left + 1) as = Some ps"
    "\<forall>i j. i < j \<longrightarrow> j < length as \<longrightarrow> conflicting (as ! i) (as ! j) \<longrightarrow> listed bu ps (left + 1 + i) (left + 1 + j) (as ! i) (as ! j)"
    using Cons.IH [OF a(2), of "left + 1"] by blast
  have "listed bu (qs @ ps) (left + i) (left + j) ((a # as) ! i) ((a # as) ! j)"
    if ij: "i < j" "j < length (a # as)" "conflicting ((a # as) ! i) ((a # as) ! j)" for i j
  proof -
    obtain k where k: "j = Suc k" "k < length as"
      using ij by (cases j) auto
    show ?thesis
    proof (cases i)
      case 0
      then show ?thesis using qs(2) ij k by simp
    next
      case (Suc m)
      then show ?thesis using ps(2) [rule_format, of m k] ij k by simp
    qed
  qed
  then show ?case
    using qs(1) ps(1) by (auto simp del: pairs_with.simps)
qed simp

text \<open>C14: the table of pairs of a nest is built without an overflow and misses nothing: two accesses at
  offsets of one object, on a common chain and one of them a write, that touch the same byte in
  iterations \<open>x\<close> and \<open>y\<close> are listed with a verdict that admits it, that is, \<open>Unknown\<close>, or \<open>Independent\<close> for
  one and the same iteration, or distances that describe the later iteration minus the earlier one.\<close>

theorem nest_pairs_sound:
  assumes "nest_bounds (bu_loops bu) (bu_accesses bu)"
  shows "\<exists>ps. pairs bu = Some ps \<and>
    (\<forall>i j f g x y ss byte. i < j \<longrightarrow> j < length (bu_accesses bu) \<longrightarrow> conflicting (bu_accesses bu ! i) (bu_accesses bu ! j) \<longrightarrow>
       ac_base (bu_accesses bu ! i) = ac_base (bu_accesses bu ! j) \<longrightarrow>
       ac_offset (bu_accesses bu ! i) = AffineOffset f \<longrightarrow> ac_offset (bu_accesses bu ! j) = AffineOffset g \<longrightarrow>
       in_space (bu_loops bu) x \<longrightarrow> in_space (bu_loops bu) y \<longrightarrow>
       touches f (ac_extent (bu_accesses bu ! i)) x ss byte \<longrightarrow> touches g (ac_extent (bu_accesses bu ! j)) y ss byte \<longrightarrow>
       (\<exists>p\<in>set ps. pr_left p = i \<and> pr_right p = j \<and> verdict_admits (pr_dependence p) (length (bu_loops bu)) x y))"
proof -
  let ?as = "bu_accesses bu"
  have n: "length (bu_loops bu) \<le> 6" "list_all small_loop (bu_loops bu)" "list_all (small_access (bu_loops bu)) ?as"
    using assms by (simp_all add: nest_bounds_def)
  obtain ps where ps: "pairs bu = Some ps"
    "\<forall>i j. i < j \<longrightarrow> j < length ?as \<longrightarrow> conflicting (?as ! i) (?as ! j) \<longrightarrow> listed bu ps i j (?as ! i) (?as ! j)"
    using pairs_from_spec [OF n, of 0] by (auto simp: pairs_def)
  have "\<exists>p\<in>set ps. pr_left p = i \<and> pr_right p = j \<and> verdict_admits (pr_dependence p) (length (bu_loops bu)) x y"
    if ij: "i < j" "j < length ?as" "conflicting (?as ! i) (?as ! j)" "ac_base (?as ! i) = ac_base (?as ! j)"
      and off: "ac_offset (?as ! i) = AffineOffset f" "ac_offset (?as ! j) = AffineOffset g"
      and sp: "in_space (bu_loops bu) x" "in_space (bu_loops bu) y"
      and t: "touches f (ac_extent (?as ! i)) x ss byte" "touches g (ac_extent (?as ! j)) y ss byte" for i j f g x y ss byte
  proof -
    obtain p where p: "p \<in> set ps" "pr_left p = i" "pr_right p = j"
      "dependence (bu_loops bu) (bu_opaque bu) (?as ! i) (?as ! j) = Some (pr_dependence p)"
      using ps(2) ij unfolding listed_def by blast
    have s: "small_access (bu_loops bu) (?as ! i)" "small_access (bu_loops bu) (?as ! j)"
      using n(3) ij by (simp_all add: list_all_length)
    have "verdict_admits (pr_dependence p) (length (bu_loops bu)) x y"
      using dependence_spec [OF n(1,2) s, of "bu_opaque bu"] p(4) off ij(4) sp t by auto
    then show ?thesis
      using p by blast
  qed
  then show ?thesis
    using ps(1) by blast
qed

text \<open>Ten iterations, each writing a word and reading the word before it.\<close>

definition prefix_loop :: Loop where
  "prefix_loop = \<lparr>lp_lower = form_constant 0, lp_upper = form_constant 10, lp_step = form_constant 1, lp_width = 64, lp_trip = Some 10\<rparr>"

definition word_at :: "bool \<Rightarrow> int \<Rightarrow> Access" where
  "word_at write k = \<lparr>ac_write = write, ac_chains = [7], ac_base = 3,
     ac_offset = AffineOffset \<lparr>af_counters = [4], af_symbols = [], af_constant = k\<rparr>, ac_extent = 4, ac_wrapping = False\<rparr>"

definition prefix_nest :: Builder where
  "prefix_nest = \<lparr>bu_loops = [prefix_loop], bu_iteration_ranges = [(0, 9)], bu_counters = [(5, 0)], bu_symbols = [],
     bu_symbol_ranges = [], bu_accesses = [word_at True 0, word_at False (- 4)], bu_opaque = False\<rparr>"

theorem nest_pairs_sound_witness:
  "nest_bounds (bu_loops prefix_nest) (bu_accesses prefix_nest) \<and>
   (\<exists>ps. pairs prefix_nest = Some ps \<and>
      (\<exists>p\<in>set ps. pr_left p = 0 \<and> pr_right p = 1 \<and> verdict_admits (pr_dependence p) 1 (\<lambda>_. 0) (\<lambda>d. if d = 0 then 1 else 0)))"
proof
  show b: "nest_bounds (bu_loops prefix_nest) (bu_accesses prefix_nest)"
    by (simp add: nest_bounds_def prefix_nest_def prefix_loop_def word_at_def small_loop_def small_access_def small_form_def
        form_constant_def form_default_def form_i128_def loop_extent_def counter_coefficient_def coefficient_at_def
        is_i128_def i128_max_def i128_min_def)
  let ?y = "\<lambda>d::nat. if d = 0 then 1 else (0::int)"
  have "conflicting (bu_accesses prefix_nest ! 0) (bu_accesses prefix_nest ! 1)" "(1::nat) < length (bu_accesses prefix_nest)"
    "in_space (bu_loops prefix_nest) (\<lambda>_. 0)" "in_space (bu_loops prefix_nest) ?y"
    "length (bu_loops prefix_nest) = 1" "ac_base (bu_accesses prefix_nest ! 0) = ac_base (bu_accesses prefix_nest ! 1)"
    "touches \<lparr>af_counters = [4], af_symbols = [], af_constant = 0\<rparr> (ac_extent (bu_accesses prefix_nest ! 0)) (\<lambda>_. 0) (\<lambda>_. 0) 0"
    "touches \<lparr>af_counters = [4], af_symbols = [], af_constant = - 4\<rparr> (ac_extent (bu_accesses prefix_nest ! 1)) ?y (\<lambda>_. 0) 0"
    "ac_offset (bu_accesses prefix_nest ! 0) = AffineOffset \<lparr>af_counters = [4], af_symbols = [], af_constant = 0\<rparr>"
    "ac_offset (bu_accesses prefix_nest ! 1) = AffineOffset \<lparr>af_counters = [4], af_symbols = [], af_constant = - 4\<rparr>"
    by (auto simp: conflicting_def prefix_nest_def prefix_loop_def word_at_def in_space_def touches_def form_value_def weighted_def)
  then show "\<exists>ps. pairs prefix_nest = Some ps \<and>
      (\<exists>p\<in>set ps. pr_left p = 0 \<and> pr_right p = 1 \<and> verdict_admits (pr_dependence p) 1 (\<lambda>_. 0) ?y)"
    using nest_pairs_sound [OF b] by (metis zero_less_one)
qed

end
