(* ===== verification/AffineBuild.thy ===== *)
theory AffineBuild
  imports AffineNest
begin

text \<open>
  Reading subscripts as affine forms, from \<open>core/src/analysis/affine/build.rs\<close>: literals, counters, symbols
  and the integer operations the builder follows, with the flag that says whether the arithmetic may have
  left its width. A form that comes without the flag names the value the program computes; following
  definitions ends wherever they are acyclic.
\<close>

subsection \<open>Reading values\<close>

definition integer :: "Nest \<Rightarrow> nat \<Rightarrow> int option" where
  "integer n v =
     (case nest_definition n v of
        Some op \<Rightarrow> (case op_code op of ConstantLike k \<Rightarrow> Some k | _ \<Rightarrow> None)
      | None \<Rightarrow> None)"

primrec source_width :: "nat \<Rightarrow> Nest \<Rightarrow> nat \<Rightarrow> nat run" where
  "source_width 0 n v = Unfinished"
| "source_width (Suc fuel) n v =
     (case nest_definition n v of
        Some op \<Rightarrow>
          if op_code op = ExtSIOp then run_bind (or_overflow (nth_opt (op_operands op) 0)) (source_width fuel n)
          else Returned (nest_width n v)
      | None \<Rightarrow> Returned (nest_width n v))"

definition symbol :: "nat \<Rightarrow> Nest \<Rightarrow> Builder \<Rightarrow> nat \<Rightarrow> (nat \<times> Builder) run" where
  "symbol fuel n bu v =
     (case find (\<lambda>i. bu_symbols bu ! i = v) [0..<length (bu_symbols bu)] of
        Some index \<Rightarrow> Returned (index, bu)
      | None \<Rightarrow>
          run_bind (source_width fuel n v) (\<lambda>w.
            Returned (length (bu_symbols bu),
              bu\<lparr>bu_symbols := bu_symbols bu @ [v], bu_symbol_ranges := bu_symbol_ranges bu @ [width_range w]\<rparr>)))"

definition escapes_width :: "Nest \<Rightarrow> Builder \<Rightarrow> AffineForm \<Rightarrow> nat \<Rightarrow> bool" where
  "escapes_width n bu f v \<longleftrightarrow>
     \<not> form_fits (nest_width n v) (form_range f (bu_iteration_ranges bu) (bu_symbol_ranges bu))"

type_synonym reading = "((AffineForm \<times> bool) option \<times> Builder) run"

definition scale_factor :: "bool \<Rightarrow> int \<Rightarrow> int option" where
  "scale_factor shl factor =
     (if shl then (if 0 \<le> factor \<and> factor < 127 then Some (2 ^ nat factor) else None) else Some factor)"

definition operand :: "Operation \<Rightarrow> nat \<Rightarrow> nat run" where
  "operand op i = or_overflow (nth_opt (op_operands op) i)"

text \<open>The loop of a product over the sides its constant may stand on; \<open>reader\<close> reads an operand.\<close>

fun combine_scaled :: "(Builder \<Rightarrow> nat \<Rightarrow> reading) \<Rightarrow> Nest \<Rightarrow> Builder \<Rightarrow> Operation \<Rightarrow> bool \<Rightarrow> (nat \<times> nat) list \<Rightarrow> reading" where
  "combine_scaled reader n bu op shl [] = Returned (None, bu)"
| "combine_scaled reader n bu op shl ((variable, literal) # sides) =
     run_bind (operand op literal) (\<lambda>l.
       case Option.bind (integer n l) (scale_factor shl) of
         None \<Rightarrow> combine_scaled reader n bu op shl sides
       | Some factor \<Rightarrow>
           run_bind (operand op variable) (\<lambda>v.
           run_bind (reader bu v) (\<lambda>(r, bu).
             Returned (Option.bind r (\<lambda>(f, wraps). map_option (\<lambda>h. (h, wraps)) (checked_scale factor f)), bu))))"

definition combine :: "(Builder \<Rightarrow> nat \<Rightarrow> reading) \<Rightarrow> Nest \<Rightarrow> Builder \<Rightarrow> Operation \<Rightarrow> reading" where
  "combine reader n bu op =
     (case op_code op of
        ConstantLike k \<Rightarrow> Returned (Some (form_constant k, False), bu)
      | ExtSIOp \<Rightarrow> run_bind (operand op 0) (reader bu)
      | TruncIOp \<Rightarrow> run_bind (operand op 0) (reader bu)
      | MulIOp \<Rightarrow> combine_scaled reader n bu op False [(0, 1), (1, 0)]
      | ShlIOp \<Rightarrow> combine_scaled reader n bu op True [(0, 1)]
      | PtrAddOp \<Rightarrow> Returned (None, bu)
      | OtherOp \<Rightarrow> Returned (None, bu)
      | _ \<Rightarrow>
          run_bind (operand op 0) (\<lambda>v. run_bind (reader bu v) (\<lambda>(l, bu).
            case l of
              None \<Rightarrow> Returned (None, bu)
            | Some (left, left_wraps) \<Rightarrow>
                run_bind (operand op 1) (\<lambda>v. run_bind (reader bu v) (\<lambda>(r, bu).
                  case r of
                    None \<Rightarrow> Returned (None, bu)
                  | Some (right, right_wraps) \<Rightarrow>
                      run_bind (or_overflow (if op_code op = AddIOp then form_add left right else form_sub left right)) (\<lambda>f.
                        Returned (Some (f, left_wraps \<or> right_wraps), bu)))))))"

primrec form :: "nat \<Rightarrow> Nest \<Rightarrow> Builder \<Rightarrow> nat \<Rightarrow> reading" where
  "form 0 n bu v = Unfinished"
| "form (Suc fuel) n bu v =
     (case map_of (bu_counters bu) v of
        Some depth \<Rightarrow>
          run_bind (or_overflow (iteration (bu_loops bu) depth)) (\<lambda>f. Returned (map_option (\<lambda>f. (f, False)) f, bu))
      | None \<Rightarrow>
          (case integer n v of
             Some literal \<Rightarrow> Returned (Some (form_constant literal, False), bu)
           | None \<Rightarrow>
               if \<not> nest_interior n v
               then run_bind (symbol (Suc fuel) n bu v) (\<lambda>(i, bu). Returned (Some (form_symbol i, False), bu))
               else
                 (case nest_definition n v of
                    None \<Rightarrow> Returned (None, bu)
                  | Some op \<Rightarrow>
                      run_bind (combine (form fuel n) n bu op) (\<lambda>(r, bu).
                        Returned (map_option (\<lambda>(f, wrapping). (f, wrapping \<or> escapes_width n bu f v)) r, bu)))))"

definition bound :: "nat \<Rightarrow> Nest \<Rightarrow> Builder \<Rightarrow> nat \<Rightarrow> (AffineForm \<times> Builder) run" where
  "bound fuel n bu v =
     run_bind (form fuel n bu v) (\<lambda>(r, bu).
       case r of
         Some (f, False) \<Rightarrow> Returned (f, bu)
       | _ \<Rightarrow> run_bind (symbol fuel n bu v) (\<lambda>(i, bu). Returned (form_symbol i, bu)))"

text \<open>One loop of the nest: its bounds and the ports that count it.\<close>

record CountedLoop =
  cl_lower :: nat
  cl_upper :: nat
  cl_step :: nat
  cl_ports :: "nat list"

definition domain_step :: "nat \<Rightarrow> Nest \<Rightarrow> Builder \<Rightarrow> CountedLoop \<Rightarrow> Builder run" where
  "domain_step fuel n bu cl =
     (let depth = length (bu_loops bu);
          width = nest_width n (cl_lower cl)
      in run_bind (bound fuel n bu (cl_lower cl)) (\<lambda>(lower, bu).
         run_bind (bound fuel n bu (cl_upper cl)) (\<lambda>(upper, bu).
         run_bind (bound fuel n bu (cl_step cl)) (\<lambda>(step, bu).
         run_bind (or_overflow (trip_count lower upper step)) (\<lambda>trip.
         run_bind (or_overflow (iteration_range trip width)) (\<lambda>r.
           Returned (bu\<lparr>bu_iteration_ranges := bu_iteration_ranges bu @ [r],
             bu_counters := map (\<lambda>port. (port, depth)) (rev (cl_ports cl)) @ bu_counters bu,
             bu_loops := bu_loops bu @ [\<lparr>lp_lower = lower, lp_upper = upper, lp_step = step, lp_width = width, lp_trip = trip\<rparr>]\<rparr>)))))))"

fun domain :: "nat \<Rightarrow> Nest \<Rightarrow> Builder \<Rightarrow> CountedLoop list \<Rightarrow> Builder run" where
  "domain fuel n bu [] = Returned bu"
| "domain fuel n bu (cl # cls) = run_bind (domain_step fuel n bu cl) (\<lambda>bu. domain fuel n bu cls)"

subsection \<open>What the program computes\<close>

text \<open>Two's-complement wrap-around to \<open>w\<close> bits, and the values of the operations the builder follows in an
  iteration without undefined shifts.\<close>

definition swrap :: "nat \<Rightarrow> int \<Rightarrow> int" where
  "swrap w x = (x + 2 ^ (w - 1)) mod 2 ^ w - 2 ^ (w - 1)"

fun obeys :: "(nat \<Rightarrow> int) \<Rightarrow> nat \<Rightarrow> nat \<Rightarrow> Opcode \<Rightarrow> nat list \<Rightarrow> bool" where
  "obeys val w v (ConstantLike k) os \<longleftrightarrow> val v = k"
| "obeys val w v ExtSIOp (a # _) \<longleftrightarrow> val v = val a"
| "obeys val w v TruncIOp (a # _) \<longleftrightarrow> val v = swrap w (val a)"
| "obeys val w v AddIOp (a # b # _) \<longleftrightarrow> val v = swrap w (val a + val b)"
| "obeys val w v SubIOp (a # b # _) \<longleftrightarrow> val v = swrap w (val a - val b)"
| "obeys val w v MulIOp (a # b # _) \<longleftrightarrow> val v = swrap w (val a * val b)"
| "obeys val w v ShlIOp (a # b # _) \<longleftrightarrow> 0 \<le> val b \<and> val b < int w \<and> val v = swrap w (val a * 2 ^ nat (val b))"
| "obeys val w v _ _ \<longleftrightarrow> True"

definition computes :: "Nest \<Rightarrow> (nat \<Rightarrow> int) \<Rightarrow> bool" where
  "computes n val \<longleftrightarrow>
     (\<forall>v. 0 < nest_width n v \<and> nest_width n v \<le> 126 \<and>
        - (2 ^ (nest_width n v - 1)) \<le> val v \<and> val v < 2 ^ (nest_width n v - 1) \<and>
        (\<forall>op. nest_definition n v = Some op \<longrightarrow> obeys val (nest_width n v) v (op_code op) (op_operands op)))"

definition sym_env :: "nat list \<Rightarrow> (nat \<Rightarrow> int) \<Rightarrow> nat \<Rightarrow> int" where
  "sym_env syms val i = (if i < length syms then val (syms ! i) else 0)"

text \<open>A form over the symbols known so far that names an integer.\<close>

definition names :: "AffineForm \<Rightarrow> nat list \<Rightarrow> (nat \<Rightarrow> int) \<Rightarrow> (nat \<Rightarrow> int) \<Rightarrow> int \<Rightarrow> bool" where
  "names f syms val ds x \<longleftrightarrow> form_value f ds (sym_env syms val) = x"

definition over :: "AffineForm \<Rightarrow> nat list \<Rightarrow> bool" where
  "over f syms \<longleftrightarrow> form_i128 f \<and> length (af_symbols f) \<le> length syms"

text \<open>A builder in the middle of reading a nest whose iteration \<open>ds\<close> has the values \<open>val\<close>: the intervals hold
  the iteration numbers and the symbols, and the counters are what their loops say.\<close>

definition reads :: "Nest \<Rightarrow> (nat \<Rightarrow> int) \<Rightarrow> (nat \<Rightarrow> int) \<Rightarrow> Builder \<Rightarrow> bool" where
  "reads n val ds bu \<longleftrightarrow>
     around_zero (bu_iteration_ranges bu) \<and> within (bu_iteration_ranges bu) ds \<and>
     around_zero (bu_symbol_ranges bu) \<and> within (bu_symbol_ranges bu) (sym_env (bu_symbols bu) val) \<and>
     length (bu_symbol_ranges bu) = length (bu_symbols bu) \<and>
     (\<forall>v depth f. map_of (bu_counters bu) v = Some depth \<longrightarrow> iteration (bu_loops bu) depth = Some (Some f) \<longrightarrow>
        over f (bu_symbols bu) \<and> names f (bu_symbols bu) val ds (val v))"

subsection \<open>Growing the symbols\<close>

definition extends :: "Builder \<Rightarrow> Builder \<Rightarrow> bool" where
  "extends bu bu' \<longleftrightarrow>
     (\<exists>ss. bu_symbols bu' = bu_symbols bu @ ss) \<and> bu_loops bu' = bu_loops bu \<and> bu_counters bu' = bu_counters bu \<and>
     bu_iteration_ranges bu' = bu_iteration_ranges bu"

lemma extends_refl [simp]: "extends bu bu"
  by (simp add: extends_def)

lemma extends_trans: "\<lbrakk>extends a b; extends b c\<rbrakk> \<Longrightarrow> extends a c"
  by (auto simp: extends_def)

lemma weighted_cong: "(\<And>i. i < length cs \<Longrightarrow> x i = y i) \<Longrightarrow> weighted cs x = weighted cs y"
  by (auto simp: weighted_def intro: sum.cong)

lemma over_extends: "\<lbrakk>over f (bu_symbols a); extends a b\<rbrakk> \<Longrightarrow> over f (bu_symbols b)"
  by (auto simp: over_def extends_def)

lemma names_extends:
  assumes "over f (bu_symbols a)" "extends a b"
  shows "names f (bu_symbols b) val ds x = names f (bu_symbols a) val ds x"
proof -
  have "weighted (af_symbols f) (sym_env (bu_symbols b) val) = weighted (af_symbols f) (sym_env (bu_symbols a) val)"
    using assms by (intro weighted_cong) (auto simp: over_def extends_def sym_env_def nth_append)
  then show ?thesis
    by (simp add: names_def form_value_def)
qed

lemma swrap_id:
  assumes "0 < w" "- (2 ^ (w - 1)) \<le> x" "x < 2 ^ (w - 1)"
  shows "swrap w x = x"
proof -
  have "(2::int) ^ w = 2 * 2 ^ (w - 1)"
    using assms(1) by (cases w) simp_all
  then show ?thesis
    using assms by (simp add: swrap_def)
qed

text \<open>A form that does not escape the width of \<open>v\<close> names a number of that width.\<close>

lemma fitting_value:
  assumes c: "computes n val" and r: "reads n val ds bu" and o: "over f (bu_symbols bu)" and e: "\<not> escapes_width n bu f v"
    and x: "names f (bu_symbols bu) val ds x"
  shows "swrap (nest_width n v) x = x"
proof -
  let ?w = "nest_width n v"
  have w: "0 < ?w" "?w \<le> 126" using c by (auto simp: computes_def)
  have fits: "form_fits ?w (form_range f (bu_iteration_ranges bu) (bu_symbol_ranges bu))"
    using e by (simp add: escapes_width_def)
  have "fst (form_range f (bu_iteration_ranges bu) (bu_symbol_ranges bu)) \<le> x \<and> x \<le> snd (form_range f (bu_iteration_ranges bu) (bu_symbol_ranges bu))"
    using fitting_form(1) [OF fits w(2), of ds "sym_env (bu_symbols bu) val"] r o x by (simp add: reads_def over_def names_def)
  then show ?thesis
    using fits w by (intro swrap_id) (auto simp: form_fits_def Let_def split: if_splits)
qed

lemma fitting_combined:
  assumes c: "computes n val" and r: "reads n val ds bu" and e: "\<not> escapes_width n bu h v"
    and h: "form_combine sg f g = Some h" and f: "over f (bu_symbols bu)" "names f (bu_symbols bu) val ds x"
    and g: "names g (bu_symbols bu) val ds y"
  shows "names h (bu_symbols bu) val ds (x + sg * y)"
proof -
  have w: "nest_width n v \<le> 126" using c by (auto simp: computes_def)
  have fits: "form_fits (nest_width n v) (form_range h (bu_iteration_ranges bu) (bu_symbol_ranges bu))"
    using e by (simp add: escapes_width_def)
  show ?thesis
    using fitting_combination [OF h _ fits w, of ds "sym_env (bu_symbols bu) val"] f g r by (simp add: names_def over_def reads_def)
qed

lemma length_combine_symbols:
  assumes "form_combine sg f g = Some h" "form_i128 f"
  shows "length (af_symbols h) = max (length (af_symbols f)) (length (af_symbols g))"
proof -
  have "list_all is_i128 (af_symbols (grow_symbols (length (af_symbols g)) (grow_counters (length (af_counters g)) f)))"
    using form_grown(10) [OF form_grown(9) [OF assms(2)]] by (simp add: form_i128_def)
  then show ?thesis
    using assms(1) by (auto simp: form_combine_def Let_def max.commute split: bind_splits dest!: combine_terms_nth)
qed

lemma over_combine: "\<lbrakk>form_combine sg f g = Some h; over f syms; over g syms\<rbrakk> \<Longrightarrow> over h syms"
  using form_combine_parts(1) [of sg f g h] length_combine_symbols [of sg f g h] by (auto simp: over_def)

lemma over_scale: "\<lbrakk>checked_scale k f = Some h; over f syms\<rbrakk> \<Longrightarrow> over h syms"
  using checked_scale_value [of k f h] by (auto simp: over_def checked_scale_def form_scale_def split: if_splits)

lemma names_scale: "\<lbrakk>checked_scale k f = Some h; names f syms val ds x\<rbrakk> \<Longrightarrow> names h syms val ds (k * x)"
  using checked_scale_value [of k f h] by (auto simp: names_def)

subsection \<open>Readings are correct\<close>

lemma run_bind_Returned: "run_bind m f = Returned y \<longleftrightarrow> (\<exists>x. m = Returned x \<and> f x = Returned y)"
  by (cases m) simp_all

lemma or_overflow_Returned: "or_overflow m = Returned x \<longleftrightarrow> m = Some x"
  by (cases m) simp_all

lemma operand_Returned: "operand op i = Returned x \<longleftrightarrow> i < length (op_operands op) \<and> x = op_operands op ! i"
  by (auto simp: operand_def or_overflow_Returned nth_opt_def)

lemmas returned = run_bind_Returned or_overflow_Returned operand_Returned

lemma source_width_holds:
  assumes "computes n val" "source_width fuel n v = Returned w"
  shows "0 < w \<and> w \<le> 126 \<and> - (2 ^ (w - 1)) \<le> val v \<and> val v < 2 ^ (w - 1)"
  using assms(2)
proof (induction fuel arbitrary: v)
  case (Suc fuel)
  show ?case
  proof (cases "\<exists>op. nest_definition n v = Some op \<and> op_code op = ExtSIOp")
    case True
    then obtain op where op: "nest_definition n v = Some op" "op_code op = ExtSIOp" by blast
    then obtain a os where os: "op_operands op = a # os" "source_width fuel n a = Returned w"
      using Suc.prems by (cases "op_operands op") (auto simp: returned nth_opt_def)
    have "obeys val (nest_width n v) v (op_code op) (op_operands op)"
      using assms(1) op(1) by (auto simp: computes_def)
    then have "val v = val a" using op(2) os(1) by simp
    then show ?thesis using Suc.IH [OF os(2)] by simp
  next
    case False
    then have "w = nest_width n v"
      using Suc.prems by (auto split: option.splits if_splits)
    then show ?thesis
      using assms(1) by (auto simp: computes_def)
  qed
qed simp

lemma symbol_reads:
  assumes c: "computes n val" and r: "reads n val ds bu" and s: "symbol fuel n bu v = Returned (i, bu')"
  shows "reads n val ds bu' \<and> extends bu bu' \<and> i < length (bu_symbols bu') \<and> bu_symbols bu' ! i = v"
proof (cases "find (\<lambda>i. bu_symbols bu ! i = v) [0..<length (bu_symbols bu)]")
  case (Some k)
  then have "k < length (bu_symbols bu)" "bu_symbols bu ! k = v"
    by (auto simp: find_Some_iff)
  then show ?thesis
    using r s Some by (auto simp: symbol_def)
next
  case None
  then obtain w where w: "source_width fuel n v = Returned w"
    and bu': "bu' = bu\<lparr>bu_symbols := bu_symbols bu @ [v], bu_symbol_ranges := bu_symbol_ranges bu @ [width_range w]\<rparr>"
    and i: "i = length (bu_symbols bu)"
    using s by (auto simp: symbol_def returned)
  note W = source_width_holds [OF c w]
  have len: "length (bu_symbol_ranges bu) = length (bu_symbols bu)"
    using r by (simp add: reads_def)
  have wr: "width_range w = (- (2 ^ (w - 1)), 2 ^ (w - 1) - 1)"
    using W by (simp add: width_range_def Let_def)
  have ext: "extends bu bu'" by (simp add: extends_def bu')
  have az: "around_zero (bu_symbol_ranges bu')"
    using r wr by (simp add: reads_def bu' around_zero_def)
  have wi: "within (bu_symbol_ranges bu') (sym_env (bu_symbols bu') val)"
    unfolding within_def
  proof
    fix k
    have old: "fst (interval_at (bu_symbol_ranges bu) k) \<le> sym_env (bu_symbols bu) val k \<and>
        sym_env (bu_symbols bu) val k \<le> snd (interval_at (bu_symbol_ranges bu) k)"
      using r by (auto simp: reads_def within_def)
    show "fst (interval_at (bu_symbol_ranges bu') k) \<le> sym_env (bu_symbols bu') val k \<and>
        sym_env (bu_symbols bu') val k \<le> snd (interval_at (bu_symbol_ranges bu') k)"
      using old W len by (auto simp: bu' interval_at_def sym_env_def nth_append wr less_Suc_eq split: if_splits)
  qed
  have cn: "over f (bu_symbols bu') \<and> names f (bu_symbols bu') val ds (val u)"
    if "map_of (bu_counters bu') u = Some depth" "iteration (bu_loops bu') depth = Some (Some f)" for u depth f
    using r that over_extends [OF _ ext] names_extends [OF _ ext] by (auto simp: reads_def bu')
  show ?thesis
    using r az wi len cn ext by (auto simp: reads_def bu' i nth_append)
qed

text \<open>A reading of a value that stands for \<open>x\<close>: the builder only learns symbols, and an unflagged form names \<open>x\<close>.\<close>

definition good_reading :: "Nest \<Rightarrow> (nat \<Rightarrow> int) \<Rightarrow> (nat \<Rightarrow> int) \<Rightarrow> Builder \<Rightarrow> int \<Rightarrow> (AffineForm \<times> bool) option \<times> Builder \<Rightarrow> bool" where
  "good_reading n val ds bu x res \<longleftrightarrow>
     reads n val ds (snd res) \<and> extends bu (snd res) \<and>
     (\<forall>f w. fst res = Some (f, w) \<longrightarrow>
        over f (bu_symbols (snd res)) \<and> (\<not> w \<longrightarrow> names f (bu_symbols (snd res)) val ds x))"

definition good_reader :: "Nest \<Rightarrow> (nat \<Rightarrow> int) \<Rightarrow> (nat \<Rightarrow> int) \<Rightarrow> (Builder \<Rightarrow> nat \<Rightarrow> reading) \<Rightarrow> bool" where
  "good_reader n val ds reader \<longleftrightarrow>
     (\<forall>bu v res. reads n val ds bu \<longrightarrow> reader bu v = Returned res \<longrightarrow> good_reading n val ds bu (val v) res)"

text \<open>The same for a combination, whose form is right unless it is flagged or escapes the width of \<open>v\<close>.\<close>

definition good_combination :: "Nest \<Rightarrow> (nat \<Rightarrow> int) \<Rightarrow> (nat \<Rightarrow> int) \<Rightarrow> Builder \<Rightarrow> nat \<Rightarrow> (AffineForm \<times> bool) option \<times> Builder \<Rightarrow> bool" where
  "good_combination n val ds bu v res \<longleftrightarrow>
     reads n val ds (snd res) \<and> extends bu (snd res) \<and>
     (\<forall>f w. fst res = Some (f, w) \<longrightarrow>
        over f (bu_symbols (snd res)) \<and>
        (\<not> w \<longrightarrow> \<not> escapes_width n (snd res) f v \<longrightarrow> names f (bu_symbols (snd res)) val ds (val v)))"

lemma good_readerD: "\<lbrakk>good_reader n val ds reader; reads n val ds bu; reader bu v = Returned res\<rbrakk> \<Longrightarrow> good_reading n val ds bu (val v) res"
  unfolding good_reader_def by blast

lemma computes_obeys:
  "\<lbrakk>computes n val; nest_definition n v = Some op\<rbrakk> \<Longrightarrow> obeys val (nest_width n v) v (op_code op) (op_operands op)"
  by (auto simp: computes_def)

lemma integer_value: "\<lbrakk>computes n val; integer n v = Some k\<rbrakk> \<Longrightarrow> val v = k"
  using computes_obeys [of n val v] by (auto simp: integer_def split: option.splits Opcode.splits)

lemma over_constant [simp]: "is_i128 k \<Longrightarrow> over (form_constant k) syms"
  by (simp add: over_def form_constant_def form_default_def form_i128_def)

lemma value_i128: "computes n val \<Longrightarrow> is_i128 (val v)"
proof -
  assume "computes n val"
  then have w: "nest_width n v \<le> 126" "- (2 ^ (nest_width n v - 1)) \<le> val v" "val v < 2 ^ (nest_width n v - 1)"
    by (auto simp: computes_def)
  have "(2::int) ^ (nest_width n v - 1) \<le> 2 ^ 125"
    using w(1) by (intro power_increasing) auto
  then show ?thesis
    using w by (intro is_i128_abs) auto
qed

lemma combine_unary:
  assumes c: "computes n val" and rd: "good_reader n val ds reader" and r: "reads n val ds bu"
    and op: "nest_definition n v = Some op" "op_code op = ExtSIOp \<or> op_code op = TruncIOp"
    and res: "combine reader n bu op = Returned res"
  shows "good_combination n val ds bu v res"
proof -
  obtain a os where a: "op_operands op = a # os" "reader bu a = Returned res"
    using op(2) res by (cases "op_operands op") (auto simp: combine_def returned)
  have g: "good_reading n val ds bu (val a) res"
    by (rule good_readerD [OF rd r a(2)])
  have v: "val v = val a \<or> val v = swrap (nest_width n v) (val a)"
    using computes_obeys [OF c op(1)] op(2) a(1) by auto
  show ?thesis
    using g v fitting_value [OF c] by (auto simp: good_reading_def good_combination_def)
qed

lemma combine_sum:
  assumes c: "computes n val" and rd: "good_reader n val ds reader" and r: "reads n val ds bu"
    and op: "nest_definition n v = Some op" "op_code op = AddIOp \<or> op_code op = SubIOp"
    and res: "combine reader n bu op = Returned res"
  shows "good_combination n val ds bu v res"
proof -
  let ?sg = "if op_code op = AddIOp then 1 else - 1 :: int"
  let ?join = "\<lambda>f w1 (r, bu2). case r of None \<Rightarrow> Returned (None, bu2)
      | Some (right, right_wraps) \<Rightarrow>
          run_bind (or_overflow (if op_code op = AddIOp then form_add f right else form_sub f right)) (\<lambda>h.
            Returned (Some (h, w1 \<or> right_wraps), bu2))"
  have eq: "combine reader n bu op = run_bind (operand op 0) (\<lambda>v. run_bind (reader bu v) (\<lambda>(l, bu1).
      case l of None \<Rightarrow> Returned (None, bu1)
      | Some (f, w1) \<Rightarrow> run_bind (operand op 1) (\<lambda>v. run_bind (reader bu1 v) (?join f w1))))"
    using op(2) by (auto simp: combine_def)
  define a where "a = op_operands op ! 0"
  obtain l bu1 where l: "reader bu a = Returned (l, bu1)" and rest1: "(case l of None \<Rightarrow> Returned (None, bu1)
      | Some (f, w1) \<Rightarrow> run_bind (operand op 1) (\<lambda>v. run_bind (reader bu1 v) (?join f w1))) = Returned res"
    using res unfolding eq by (auto simp: returned a_def)
  have gl: "good_reading n val ds bu (val a) (l, bu1)"
    by (rule good_readerD [OF rd r l])
  show ?thesis
  proof (cases l)
    case None
    then have "res = (None, bu1)"
      using rest1 by simp
    then show ?thesis
      using gl by (simp add: good_reading_def good_combination_def)
  next
    case (Some lw)
    obtain f w1 where f: "lw = (f, w1)" by fastforce
    define b where "b = op_operands op ! 1"
    obtain rr bu2 where len: "1 < length (op_operands op)" and r2: "reader bu1 b = Returned (rr, bu2)"
      and rest: "?join f w1 (rr, bu2) = Returned res"
      using rest1 Some f by (auto simp: returned b_def)
    have os: "\<exists>os'. op_operands op = a # b # os'"
      using len unfolding a_def b_def by (cases "op_operands op"; cases "tl (op_operands op)") auto
    have r1: "reads n val ds bu1" using gl by (simp add: good_reading_def)
    have gr: "good_reading n val ds bu1 (val b) (rr, bu2)"
      by (rule good_readerD [OF rd r1 r2])
    have ext: "extends bu1 bu2" "extends bu bu2"
      using gl gr extends_trans by (auto simp: good_reading_def)
    show ?thesis
    proof (cases rr)
      case None
      then show ?thesis
        using rest gr ext by (auto simp: good_reading_def good_combination_def)
    next
      case (Some rw)
      obtain g w2 where g: "rw = (g, w2)" by fastforce
      obtain h where h: "form_combine ?sg f g = Some h" and res': "res = (Some (h, w1 \<or> w2), bu2)"
        using rest Some g op(2) by (auto simp: returned form_add_def form_sub_def split: if_splits)
      have o: "over f (bu_symbols bu2)" "over g (bu_symbols bu2)"
        using gl gr Some g f \<open>l = Some lw\<close> over_extends [OF _ ext(1)] by (auto simp: good_reading_def)
      have r': "reads n val ds bu2" using gr by (simp add: good_reading_def)
      have "names h (bu_symbols bu2) val ds (val v)" if w: "\<not> (w1 \<or> w2)" and e: "\<not> escapes_width n bu2 h v"
      proof -
        have nm: "names f (bu_symbols bu2) val ds (val a)" "names g (bu_symbols bu2) val ds (val b)"
          using gl gr Some g f \<open>l = Some lw\<close> w names_extends [OF _ ext(1)] by (auto simp: good_reading_def)
        have nh: "names h (bu_symbols bu2) val ds (val a + ?sg * val b)"
          by (rule fitting_combined [OF c r' e h o(1) nm])
        moreover have "val v = swrap (nest_width n v) (val a + ?sg * val b)"
          using computes_obeys [OF c op(1)] op(2) os by auto
        ultimately show ?thesis
          using fitting_value [OF c r' over_combine [OF h o] e nh] by simp
      qed
      then show ?thesis
        using res' r' ext(2) over_combine [OF h o] by (auto simp: good_combination_def)
    qed
  qed
qed

lemma combine_scaled_good:
  assumes c: "computes n val" and rd: "good_reader n val ds reader" and r: "reads n val ds bu"
    and sides: "\<And>i l k. \<lbrakk>(i, l) \<in> set sides; i < length (op_operands op); l < length (op_operands op);
      scale_factor shl (val (op_operands op ! l)) = Some k\<rbrakk> \<Longrightarrow> val v = swrap (nest_width n v) (k * val (op_operands op ! i))"
    and res: "combine_scaled reader n bu op shl sides = Returned res"
  shows "good_combination n val ds bu v res"
  using sides res
proof (induction sides)
  case Nil
  then show ?case using r by (auto simp: good_combination_def)
next
  case (Cons side sides)
  obtain i l where il: "side = (i, l)" by fastforce
  let ?l = "op_operands op ! l" and ?i = "op_operands op ! i"
  have len: "l < length (op_operands op)"
    using Cons.prems(2) by (auto simp: il returned)
  show ?case
  proof (cases "Option.bind (integer n ?l) (scale_factor shl)")
    case None
    then have "combine_scaled reader n bu op shl sides = Returned res"
      using Cons.prems(2) by (auto simp: il returned)
    then show ?thesis
      using Cons.IH Cons.prems(1) by auto
  next
    case (Some k)
    then obtain x where x: "integer n ?l = Some x" "scale_factor shl x = Some k"
      by (auto simp: bind_eq_Some_conv)
    have xv: "val ?l = x" by (rule integer_value [OF c x(1)])
    obtain rr bu1 where i: "i < length (op_operands op)" and rr: "reader bu ?i = Returned (rr, bu1)"
      and res': "res = (Option.bind rr (\<lambda>(f, wraps). map_option (\<lambda>h. (h, wraps)) (checked_scale k f)), bu1)"
      using Cons.prems(2) Some by (auto simp: il returned)
    have v: "val v = swrap (nest_width n v) (k * val ?i)"
      using Cons.prems(1) [of i l k] il i len x(2) xv by simp
    have g: "good_reading n val ds bu (val ?i) (rr, bu1)"
      by (rule good_readerD [OF rd r rr])
    have r1: "reads n val ds bu1" using g by (simp add: good_reading_def)
    have "over h (bu_symbols bu1) \<and> (\<not> w \<longrightarrow> \<not> escapes_width n bu1 h v \<longrightarrow> names h (bu_symbols bu1) val ds (val v))"
      if hw: "fst res = Some (h, w)" for h w
    proof -
      obtain f where f: "rr = Some (f, w)" "checked_scale k f = Some h"
        using hw by (auto simp: res' bind_eq_Some_conv)
      have o: "over h (bu_symbols bu1)"
        using over_scale [OF f(2)] g f(1) by (auto simp: good_reading_def)
      then show ?thesis
        using names_scale [OF f(2)] g f(1) v fitting_value [OF c r1 o] by (auto simp: good_reading_def)
    qed
    then show ?thesis
      using g by (auto simp: good_combination_def good_reading_def res')
  qed
qed

lemma combine_good:
  assumes c: "computes n val" and rd: "good_reader n val ds reader" and r: "reads n val ds bu"
    and op: "nest_definition n v = Some op" and res: "combine reader n bu op = Returned res"
  shows "good_combination n val ds bu v res"
proof (cases "op_code op")
  case (ConstantLike k)
  then have "val v = k" using computes_obeys [OF c op] by simp
  then show ?thesis
    using r res ConstantLike value_i128 [OF c, of v] by (auto simp: combine_def good_combination_def names_def)
next
  case MulIOp
  have v: "val v = swrap (nest_width n v) (k * val (op_operands op ! i))"
    if "(i, l) \<in> set [(0, 1), (1, 0)]" "i < length (op_operands op)" "l < length (op_operands op)"
      "scale_factor False (val (op_operands op ! l)) = Some k" for i l k
  proof -
    have "1 < length (op_operands op)" using that by auto
    then obtain a b os where "op_operands op = a # b # os"
      by (cases "op_operands op"; cases "tl (op_operands op)") auto
    then show ?thesis
      using that computes_obeys [OF c op] MulIOp by (auto simp: scale_factor_def mult.commute)
  qed
  show ?thesis
    by (rule combine_scaled_good [OF c rd r, where op = op and shl = False and sides = "[(0, 1), (1, 0)]"], erule (3) v)
      (use res MulIOp in \<open>simp add: combine_def\<close>)
next
  case ShlIOp
  have v: "val v = swrap (nest_width n v) (k * val (op_operands op ! i))"
    if "(i, l) \<in> set [(0, 1)]" "i < length (op_operands op)" "l < length (op_operands op)"
      "scale_factor True (val (op_operands op ! l)) = Some k" for i l k
  proof -
    have "1 < length (op_operands op)" using that by auto
    then obtain a b os where "op_operands op = a # b # os"
      by (cases "op_operands op"; cases "tl (op_operands op)") auto
    then show ?thesis
      using that computes_obeys [OF c op] ShlIOp by (auto simp: scale_factor_def mult.commute split: if_splits)
  qed
  show ?thesis
    by (rule combine_scaled_good [OF c rd r, where op = op and shl = True and sides = "[(0, 1)]"], erule (3) v)
      (use res ShlIOp in \<open>simp add: combine_def\<close>)
next
  case AddIOp
  then show ?thesis using combine_sum [OF c rd r op _ res] by simp
next
  case SubIOp
  then show ?thesis using combine_sum [OF c rd r op _ res] by simp
next
  case ExtSIOp
  then show ?thesis using combine_unary [OF c rd r op _ res] by simp
next
  case TruncIOp
  then show ?thesis using combine_unary [OF c rd r op _ res] by simp
qed (use r res in \<open>auto simp: combine_def good_combination_def\<close>)

lemma form_good:
  assumes c: "computes n val"
  shows "good_reader n val ds (form fuel n)"
proof (induction fuel)
  case 0
  then show ?case by (simp add: good_reader_def)
next
  case (Suc fuel)
  have "good_reading n val ds bu (val v) res" if r: "reads n val ds bu" and res: "form (Suc fuel) n bu v = Returned res" for bu v res
  proof (cases "map_of (bu_counters bu) v")
    case (Some depth)
    then obtain f where "iteration (bu_loops bu) depth = Some f" "res = (map_option (\<lambda>f. (f, False)) f, bu)"
      using res by (auto simp: returned)
    then show ?thesis
      using r Some by (auto simp: good_reading_def reads_def)
  next
    case None
    note no_counter = None
    show ?thesis
    proof (cases "integer n v")
      case (Some k)
      then have "val v = k" by (rule integer_value [OF c])
      moreover have "res = (Some (form_constant k, False), bu)"
        using res no_counter Some by simp
      ultimately show ?thesis
        using r value_i128 [OF c, of v] by (auto simp: good_reading_def names_def)
    next
      case None
      show ?thesis
      proof (cases "nest_interior n v")
        case False
        obtain i bu' where i: "symbol (Suc fuel) n bu v = Returned (i, bu')" "res = (Some (form_symbol i, False), bu')"
          using res no_counter None False by (auto simp: run_bind_Returned)
        note S = symbol_reads [OF c r i(1)]
        have "over (form_symbol i) (bu_symbols bu')"
          using S form_basics_i128(3) [of i] by (simp add: over_def form_symbol_def form_default_def grow_symbols_def Let_def)
        then show ?thesis
          using S by (auto simp: good_reading_def i(2) names_def sym_env_def)
      next
        case True
        show ?thesis
        proof (cases "nest_definition n v")
          case None
          then have "res = (None, bu)" using res no_counter \<open>integer n v = None\<close> True by simp
          then show ?thesis using r by (simp add: good_reading_def)
        next
          case (Some op)
          obtain cr where cr: "combine (form fuel n) n bu op = Returned cr"
            and res': "res = (map_option (\<lambda>(f, wrapping). (f, wrapping \<or> escapes_width n (snd cr) f v)) (fst cr), snd cr)"
            using res no_counter \<open>integer n v = None\<close> True Some by (auto simp: run_bind_Returned split_beta)
          show ?thesis
            using combine_good [OF c Suc.IH r Some cr] unfolding res' by (auto simp: good_reading_def good_combination_def)
        qed
      qed
    qed
  qed
  then show ?case
    unfolding good_reader_def by blast
qed

subsection \<open>Readings end\<close>

text \<open>Definitions without a cycle: the ports of loops have none, so a rank falls along every operand.\<close>

definition acyclic_by :: "(nat \<Rightarrow> nat) \<Rightarrow> Nest \<Rightarrow> bool" where
  "acyclic_by rank n \<longleftrightarrow> (\<forall>v op. nest_definition n v = Some op \<longrightarrow> (\<forall>a\<in>set (op_operands op). rank a < rank v))"

lemma acyclic_rank: "\<lbrakk>acyclic_by rank n; nest_definition n v = Some op; a \<in> set (op_operands op)\<rbrakk> \<Longrightarrow> rank a < rank v"
  unfolding acyclic_by_def by blast

lemma run_bind_Unfinished: "run_bind m f = Unfinished \<longleftrightarrow> m = Unfinished \<or> (\<exists>x. m = Returned x \<and> f x = Unfinished)"
  by (cases m) simp_all

lemma or_overflow_finished [simp]: "or_overflow m \<noteq> Unfinished" "operand op i \<noteq> Unfinished"
  unfolding operand_def by (cases m; simp) (cases "nth_opt (op_operands op) i"; simp)

lemmas unfinished = run_bind_Unfinished operand_Returned or_overflow_Returned

lemma source_width_ends: "\<lbrakk>acyclic_by rank n; rank v < fuel\<rbrakk> \<Longrightarrow> source_width fuel n v \<noteq> Unfinished"
proof (induction fuel arbitrary: v)
  case (Suc fuel)
  have "source_width fuel n a \<noteq> Unfinished" if "nest_definition n v = Some op" "a \<in> set (op_operands op)" for op a
    using Suc.prems that acyclic_rank [OF Suc.prems(1) that] by (intro Suc.IH) auto
  then show ?case
    by (auto simp: unfinished nth_opt_def split: option.splits)
qed simp

lemma symbol_ends: "\<lbrakk>acyclic_by rank n; rank v < fuel\<rbrakk> \<Longrightarrow> symbol fuel n bu v \<noteq> Unfinished"
  using source_width_ends [of rank n v fuel] by (auto simp: symbol_def unfinished split: option.splits)

lemma combine_scaled_ends:
  assumes "\<And>bu a. a \<in> set (op_operands op) \<Longrightarrow> reader bu a \<noteq> Unfinished"
  shows "combine_scaled reader n bu op shl sides \<noteq> Unfinished"
proof (induction sides)
  case (Cons side sides)
  then show ?case
    using assms by (cases side) (auto simp: unfinished split: option.splits)
qed simp

lemma combine_ends:
  assumes rd: "\<And>bu a. a \<in> set (op_operands op) \<Longrightarrow> reader bu a \<noteq> Unfinished"
  shows "combine reader n bu op \<noteq> Unfinished"
proof -
  have "combine_scaled reader n bu op shl sides \<noteq> Unfinished" for shl sides
    using combine_scaled_ends [of op reader, OF rd] .
  then show ?thesis
    using rd by (auto simp: combine_def unfinished split: Opcode.splits option.splits)
qed

lemma form_ends: "\<lbrakk>acyclic_by rank n; rank v < fuel\<rbrakk> \<Longrightarrow> form fuel n bu v \<noteq> Unfinished"
proof (induction fuel arbitrary: v bu)
  case (Suc fuel)
  have "form fuel n bu' a \<noteq> Unfinished" if "nest_definition n v = Some op" "a \<in> set (op_operands op)" for op a bu'
    using Suc.prems that acyclic_rank [OF Suc.prems(1) that] by (intro Suc.IH) auto
  then have "combine (form fuel n) n bu op \<noteq> Unfinished" if "nest_definition n v = Some op" for op
    using that by (intro combine_ends) blast
  moreover have "symbol (Suc fuel) n bu v \<noteq> Unfinished"
    using Suc.prems by (rule symbol_ends)
  ultimately show ?case
    by (auto simp: unfinished split: option.splits)
qed simp


text \<open>The subscript \<open>4 * i + s\<close> of a loop of ten iterations in 64 bits, in iteration 3 with the parameter 100.\<close>

definition subscript_nest :: Nest where
  "subscript_nest = \<lparr>nest_definition = (\<lambda>v. if v = 1 then Some \<lparr>op_code = ConstantLike 4, op_operands = []\<rparr>
      else if v = 3 then Some \<lparr>op_code = MulIOp, op_operands = [0, 1]\<rparr>
      else if v = 4 then Some \<lparr>op_code = AddIOp, op_operands = [3, 2]\<rparr> else None),
     nest_width = (\<lambda>v. if v = 2 then 32 else 64), nest_interior = (\<lambda>v. v = 0 \<or> v = 3 \<or> v = 4)\<rparr>"

definition subscript_builder :: Builder where
  "subscript_builder = \<lparr>bu_loops = [prefix_loop], bu_iteration_ranges = [(0, 9)], bu_counters = [(0, 0)], bu_symbols = [],
     bu_symbol_ranges = [], bu_accesses = [], bu_opaque = False\<rparr>"

definition subscript_values :: "nat \<Rightarrow> int" where
  "subscript_values v = (if v = 0 then 3 else if v = 1 then 4 else if v = 2 then 100 else if v = 3 then 12 else if v = 4 then 112 else 0)"

lemma subscript_form_value:
  "form 5 subscript_nest subscript_builder 4 =
     Returned (Some (\<lparr>af_counters = [4], af_symbols = [1], af_constant = 0\<rparr>, False),
       subscript_builder\<lparr>bu_symbols := [2], bu_symbol_ranges := [(- (2 ^ 31), 2 ^ 31 - 1)]\<rparr>)"
  by code_simp

lemma prefix_iteration: "iteration [prefix_loop] 0 = Some (Some \<lparr>af_counters = [1], af_symbols = [], af_constant = 0\<rparr>)"
  by code_simp


end
