(* ===== verification/Copies.thy ===== *)
theory Copies
  imports Prelude
begin

text \<open>
  Register classes (\<open>core/src/backend/regalloc.rs\<close>) and the sequencing of parallel copies
  (\<open>core/src/backend/regalloc/copies.rs\<close>): moves between physical registers that are meant to happen at once are
  ordered, cycles are broken through a scratch register or a stack slot. A class is the fields of its
  record that the code compares and reads; register indices and widths (\<open>u16\<close>) are natural numbers. The
  sequence is run on a machine whose files are arrays of units, and does what the parallel copy does.
\<close>

subsection \<open>Register classes\<close>

record RegClass =
  rc_name :: string
  rc_file :: string
  rc_registers :: "nat list"
  rc_group_width :: nat
  rc_bit_offset :: nat

type_synonym PhysReg = "RegClass \<times> nat"

definition rc_contains :: "RegClass \<Rightarrow> nat \<Rightarrow> bool" where
  "rc_contains c index \<longleftrightarrow> index \<in> set (rc_registers c)"

definition shares_view_with :: "RegClass \<Rightarrow> RegClass \<Rightarrow> bool" where
  "shares_view_with a b \<longleftrightarrow>
     rc_file a = rc_file b \<and> rc_bit_offset a = rc_bit_offset b \<and> rc_group_width a = rc_group_width b"

definition is_subclass_of :: "RegClass \<Rightarrow> RegClass \<Rightarrow> bool" where
  "is_subclass_of a b \<longleftrightarrow> shares_view_with a b \<and> list_all (rc_contains b) (rc_registers a)"

definition reg_span :: "PhysReg \<Rightarrow> string \<times> nat \<times> nat" where
  "reg_span r = (rc_file (fst r), snd r, max (rc_group_width (fst r)) 1)"

definition overlaps :: "PhysReg \<Rightarrow> PhysReg \<Rightarrow> bool" where
  "overlaps a b =
     (case (reg_span a, reg_span b) of
        ((fa, sa, wa), (fb, sb, wb)) \<Rightarrow> fa = fb \<and> sa < sb + wb \<and> sb < sa + wa)"

record AbiInfo =
  abi_caller_saved :: "PhysReg list"
  abi_callee_saved :: "PhysReg list"
  abi_sp :: PhysReg
  abi_ra :: "PhysReg option"
  abi_reserved :: "PhysReg list"

definition abi_roles :: "AbiInfo \<Rightarrow> PhysReg list" where
  "abi_roles abi = abi_sp abi # (case abi_ra abi of None \<Rightarrow> [] | Some r \<Rightarrow> [r]) @ abi_reserved abi"

fun allocation_loop :: "AbiInfo \<Rightarrow> RegClass \<Rightarrow> PhysReg list \<Rightarrow> PhysReg list \<Rightarrow> PhysReg list" where
  "allocation_loop abi c [] result = result"
| "allocation_loop abi c (register # rest) result =
     (let candidate = (c, snd register)
      in if rc_file (fst register) = rc_file c \<and> rc_contains c (snd register) \<and>
            snd register mod max (rc_group_width c) 1 = 0 \<and>
            \<not> list_ex (overlaps candidate) (abi_roles abi) \<and> candidate \<notin> set result
         then allocation_loop abi c rest (result @ [candidate])
         else allocation_loop abi c rest result)"

definition allocation_order :: "AbiInfo \<Rightarrow> RegClass \<Rightarrow> PhysReg list" where
  "allocation_order abi c = allocation_loop abi c (abi_caller_saved abi @ abi_callee_saved abi) []"

text \<open>The registers a cycle may be broken through; \<open>assigned\<close> are the registers some value took.\<close>

definition unsaved :: "AbiInfo \<Rightarrow> PhysReg list \<Rightarrow> PhysReg \<Rightarrow> bool" where
  "unsaved abi assigned register \<longleftrightarrow>
     list_ex (\<lambda>saved. overlaps saved register \<and> \<not> list_ex (\<lambda>taken. overlaps taken saved) assigned) (abi_callee_saved abi)"

definition scratch :: "AbiInfo \<Rightarrow> PhysReg list \<Rightarrow> RegClass \<Rightarrow> PhysReg list" where
  "scratch abi assigned c = filter (\<lambda>register. \<not> unsaved abi assigned register) (allocation_order abi c)"

subsection \<open>Sequencing\<close>

datatype Source = RegSource PhysReg | SlotSource nat | ConstSource nat

datatype Step = MoveStep PhysReg | ReplayStep nat | StoreStep nat | ReloadStep nat

type_synonym moves = "(PhysReg \<times> Source) list"

fun src_overlaps :: "Source \<Rightarrow> PhysReg \<Rightarrow> bool" where
  "src_overlaps (RegSource src) r = overlaps src r"
| "src_overlaps _ r = False"

definition moves_read :: "moves \<Rightarrow> PhysReg \<Rightarrow> bool" where
  "moves_read moves dst \<longleftrightarrow> list_ex (\<lambda>(_, src). src_overlaps src dst) moves"

fun emitted :: "PhysReg \<times> Source \<Rightarrow> PhysReg \<times> Step" where
  "emitted (dst, RegSource src) = (dst, MoveStep src)"
| "emitted (dst, SlotSource slot) = (dst, ReloadStep slot)"
| "emitted (dst, ConstSource def) = (dst, ReplayStep def)"

fun reading_of :: "PhysReg \<Rightarrow> bool \<Rightarrow> moves \<Rightarrow> PhysReg option" where
  "reading_of blocked exact [] = None"
| "reading_of blocked exact ((_, src) # moves) =
     (case src of
        RegSource r \<Rightarrow> if r = blocked \<or> \<not> exact \<and> overlaps r blocked then Some r else reading_of blocked exact moves
      | _ \<Rightarrow> reading_of blocked exact moves)"

definition reading :: "moves \<Rightarrow> PhysReg \<Rightarrow> PhysReg option" where
  "reading moves blocked =
     (case reading_of blocked True moves of
        Some r \<Rightarrow> Some r
      | None \<Rightarrow> reading_of blocked False moves)"

definition reg_busy :: "PhysReg list \<Rightarrow> moves \<Rightarrow> PhysReg \<Rightarrow> bool" where
  "reg_busy live moves register \<longleftrightarrow>
     list_ex (\<lambda>other. overlaps other register) live \<or>
     list_ex (\<lambda>(dst, src). overlaps dst register \<or> src_overlaps src register) moves"

text \<open>The first slot no move is still to be reloaded from; the search ends within as many slots as there are
  moves.\<close>

definition free_slot :: "moves \<Rightarrow> nat" where
  "free_slot moves = the (find (\<lambda>slot. SlotSource slot \<notin> snd ` set moves) [0..<length moves + 1])"

definition redirect :: "PhysReg \<Rightarrow> Source \<Rightarrow> moves \<Rightarrow> moves" where
  "redirect aside to moves = map (\<lambda>(dst, src). (dst, if src = RegSource aside then to else src)) moves"

definition remove_at :: "nat \<Rightarrow> 'a list \<Rightarrow> 'a list" where
  "remove_at i xs = take i xs @ drop (Suc i) xs"

text \<open>The loop ends: a move is emitted, or a source that a destination would overwrite is replaced by one that
  none does.\<close>

definition blocked_by :: "PhysReg list \<Rightarrow> Source \<Rightarrow> bool" where
  "blocked_by dsts src \<longleftrightarrow> list_ex (src_overlaps src) dsts"

definition sequence_size :: "moves \<Rightarrow> nat" where
  "sequence_size moves = length moves + length (filter (blocked_by (map fst moves)) (map snd moves))"

lemma overlaps_sym: "overlaps a b \<longleftrightarrow> overlaps b a"
  by (auto simp: overlaps_def reg_span_def)

lemma reading_of_Some:
  "reading_of blocked exact moves = Some r \<Longrightarrow> RegSource r \<in> snd ` set moves \<and> (r = blocked \<or> overlaps r blocked)"
  by (induction blocked exact moves rule: reading_of.induct) (auto split: Source.splits if_splits)

lemma overlaps_refl [simp]: "overlaps r r"
  by (simp add: overlaps_def reg_span_def)

lemma reading_Some: "reading moves blocked = Some r \<Longrightarrow> RegSource r \<in> snd ` set moves \<and> overlaps r blocked"
  using reading_of_Some [of blocked True moves r] reading_of_Some [of blocked False moves r]
  by (auto simp: reading_def split: option.splits)

lemma set_remove_at: "set (remove_at i xs) \<subseteq> set xs"
  by (auto simp: remove_at_def dest: in_set_takeD in_set_dropD)

lemma split_at: "i < length xs \<Longrightarrow> xs = take i xs @ xs ! i # drop (Suc i) xs"
  by (rule id_take_nth_drop)

lemma remove_at_smaller:
  assumes i: "i < length moves"
  shows "sequence_size (remove_at i moves) < sequence_size moves"
proof -
  have mono: "blocked_by (map fst (remove_at i moves)) src \<Longrightarrow> blocked_by (map fst moves) src" for src
    using set_remove_at [of i moves] by (auto simp: blocked_by_def list_ex_iff)
  have sub: "length (filter P ys) \<le> length (filter Q ys)" if "\<And>y. P y \<Longrightarrow> Q y" for P Q and ys :: "Source list"
    using that by (induction ys) auto
  have "length (filter (blocked_by (map fst (remove_at i moves))) (map snd (remove_at i moves))) \<le>
      length (filter (blocked_by (map fst moves)) (map snd (remove_at i moves)))"
    by (rule sub) (rule mono)
  also have "\<dots> \<le> length (filter (blocked_by (map fst moves)) (map snd (take i moves @ moves ! i # drop (Suc i) moves)))"
    by (simp add: remove_at_def)
  also have "\<dots> = length (filter (blocked_by (map fst moves)) (map snd moves))"
    by (simp only: split_at [OF i, symmetric])
  finally show ?thesis
    using i by (simp add: sequence_size_def remove_at_def)
qed

lemma redirect_parts [simp]:
  "map fst (redirect aside to moves) = map fst moves"
  "map snd (redirect aside to moves) = map (\<lambda>src. if src = RegSource aside then to else src) (map snd moves)"
  "length (redirect aside to moves) = length moves"
  by (auto simp: redirect_def)

lemma redirect_smaller:
  assumes aside: "RegSource aside \<in> set (map snd moves)" "blocked_by (map fst moves) (RegSource aside)"
    and to: "\<not> blocked_by (map fst moves) to"
  shows "sequence_size (redirect aside to moves) < sequence_size moves"
proof -
  let ?b = "blocked_by (map fst moves)" and ?r = "\<lambda>src. if src = RegSource aside then to else src"
  have le: "length (filter ?b (map ?r ss)) \<le> length (filter ?b ss)" for ss
    using to by (induction ss) auto
  have "length (filter ?b (map ?r ss)) < length (filter ?b ss)" if "RegSource aside \<in> set ss" for ss
    using that
  proof (induction ss)
    case (Cons s ss)
    then show ?case
      using le [of ss] aside(2) to by (cases "s = RegSource aside") auto
  qed simp
  from this [OF aside(1)] show ?thesis
    unfolding sequence_size_def redirect_parts by simp
qed

lemma not_busy_unblocked: "\<not> reg_busy live moves r \<Longrightarrow> \<not> blocked_by (map fst moves) (RegSource r)"
  by (auto simp: reg_busy_def blocked_by_def list_ex_iff overlaps_sym split_beta)

lemma slot_unblocked [simp]: "\<not> blocked_by dsts (SlotSource slot)"
  by (simp add: blocked_by_def list_ex_iff)

lemma reading_blocked:
  "\<lbrakk>reading moves (fst (moves ! 0)) = Some r; moves \<noteq> []\<rbrakk> \<Longrightarrow>
     RegSource r \<in> set (map snd moves) \<and> blocked_by (map fst moves) (RegSource r)"
  using reading_Some [of moves "fst (moves ! 0)" r] by (cases moves) (auto simp: blocked_by_def)

function sequence :: "PhysReg list \<Rightarrow> (RegClass \<Rightarrow> PhysReg list) \<Rightarrow> moves \<Rightarrow> (PhysReg \<times> Step) list option" where
  "sequence live scr moves =
     (if moves = [] then Some []
      else
        (case find (\<lambda>i. \<not> moves_read moves (fst (moves ! i))) [0..<length moves] of
           Some at \<Rightarrow> map_option (Cons (emitted (moves ! at))) (sequence live scr (remove_at at moves))
         | None \<Rightarrow>
             (case reading moves (fst (moves ! 0)) of
                None \<Rightarrow> None
              | Some aside \<Rightarrow>
                  (case find (\<lambda>register. \<not> reg_busy live moves register) (scr (fst aside)) of
                     Some free \<Rightarrow>
                       map_option (Cons (free, MoveStep aside)) (sequence live scr (redirect aside (RegSource free) moves))
                   | None \<Rightarrow>
                       map_option (Cons (aside, StoreStep (free_slot moves)))
                         (sequence live scr (redirect aside (SlotSource (free_slot moves)) moves))))))"
  by pat_completeness auto
termination
proof (relation "measure (\<lambda>(live, scr, moves). sequence_size moves)")
  fix live scr moves at
  assume "find (\<lambda>i. \<not> moves_read moves (fst (moves ! i))) [0..<length moves] = Some at"
  then show "((live, scr, remove_at at moves), live, scr, moves) \<in> measure (\<lambda>(live, scr, moves). sequence_size moves)"
    by (auto simp: find_Some_iff intro: remove_at_smaller)
next
  fix live :: "PhysReg list" and moves aside and scr :: "RegClass \<Rightarrow> PhysReg list"
  assume "moves \<noteq> []" "reading moves (fst (moves ! 0)) = Some aside"
  note R = reading_blocked [OF this(2,1)]
  show "((live, scr, redirect aside (SlotSource (free_slot moves)) moves), live, scr, moves) \<in> measure (\<lambda>(live, scr, moves). sequence_size moves)"
    by (simp add: redirect_smaller [OF conjunct1 [OF R] conjunct2 [OF R]])
  fix free
  assume "find (\<lambda>register. \<not> reg_busy live moves register) (scr (fst aside)) = Some free"
  then have "\<not> reg_busy live moves free" by (auto simp: find_Some_iff)
  then show "((live, scr, redirect aside (RegSource free) moves), live, scr, moves) \<in> measure (\<lambda>(live, scr, moves). sequence_size moves)"
    by (simp add: redirect_smaller [OF conjunct1 [OF R] conjunct2 [OF R]] not_busy_unblocked)
qed simp_all

declare sequence.simps [simp del]

subsection \<open>The machine\<close>

text \<open>The units of every file, and the stack slots with the units stored in them. \<open>rom\<close> are the units a
  replayed definition computes.\<close>

record 'v machine =
  m_units :: "string \<times> nat \<Rightarrow> 'v"
  m_slots :: "nat \<Rightarrow> 'v list"

definition reg_width :: "PhysReg \<Rightarrow> nat" where
  "reg_width r = max (rc_group_width (fst r)) 1"

definition read_units :: "(string \<times> nat \<Rightarrow> 'v) \<Rightarrow> PhysReg \<Rightarrow> 'v list" where
  "read_units u r = map (\<lambda>k. u (rc_file (fst r), snd r + k)) [0..<reg_width r]"

definition write_units :: "PhysReg \<Rightarrow> 'v list \<Rightarrow> (string \<times> nat \<Rightarrow> 'v) \<Rightarrow> string \<times> nat \<Rightarrow> 'v" where
  "write_units r vs u =
     (\<lambda>(f, j). if f = rc_file (fst r) \<and> snd r \<le> j \<and> j < snd r + reg_width r then vs ! (j - snd r) else u (f, j))"

fun run_step :: "(nat \<Rightarrow> nat \<Rightarrow> 'v) \<Rightarrow> PhysReg \<times> Step \<Rightarrow> 'v machine \<Rightarrow> 'v machine" where
  "run_step rom (dst, MoveStep src) m = m\<lparr>m_units := write_units dst (read_units (m_units m) src) (m_units m)\<rparr>"
| "run_step rom (dst, ReplayStep d) m =
     m\<lparr>m_units := write_units dst (map (rom d) [0..<reg_width dst]) (m_units m)\<rparr>"
| "run_step rom (reg, StoreStep slot) m = m\<lparr>m_slots := (m_slots m)(slot := read_units (m_units m) reg)\<rparr>"
| "run_step rom (dst, ReloadStep slot) m = m\<lparr>m_units := write_units dst (m_slots m slot) (m_units m)\<rparr>"

definition run_steps :: "(nat \<Rightarrow> nat \<Rightarrow> 'v) \<Rightarrow> (PhysReg \<times> Step) list \<Rightarrow> 'v machine \<Rightarrow> 'v machine" where
  "run_steps rom steps m = fold (run_step rom) steps m"

text \<open>What a move's source holds, as the units of its destination.\<close>

fun source_units :: "(nat \<Rightarrow> nat \<Rightarrow> 'v) \<Rightarrow> 'v machine \<Rightarrow> PhysReg \<Rightarrow> Source \<Rightarrow> 'v list" where
  "source_units rom m dst (RegSource src) = read_units (m_units m) src"
| "source_units rom m dst (SlotSource slot) = m_slots m slot"
| "source_units rom m dst (ConstSource d) = map (rom d) [0..<reg_width dst]"

lemma length_read_units [simp]: "length (read_units u r) = reg_width r"
  by (simp add: read_units_def)

lemma read_write_same:
  assumes "length vs = reg_width r"
  shows "read_units (write_units r vs u) r = vs"
  using assms by (intro nth_equalityI) (auto simp: read_units_def write_units_def)

lemma overlaps_unit:
  "overlaps a b \<longleftrightarrow> rc_file (fst a) = rc_file (fst b) \<and> snd a < snd b + reg_width b \<and> snd b < snd a + reg_width a"
  by (simp add: overlaps_def reg_span_def reg_width_def)

lemma read_write_other: "\<not> overlaps r s \<Longrightarrow> read_units (write_units r vs u) s = read_units u s"
  by (auto simp: read_units_def write_units_def overlaps_unit)

subsection \<open>Sequences of parallel copies\<close>

definition disjoint_dsts :: "moves \<Rightarrow> bool" where
  "disjoint_dsts moves \<longleftrightarrow> (\<forall>i j. i < j \<longrightarrow> j < length moves \<longrightarrow> \<not> overlaps (fst (moves ! i)) (fst (moves ! j)))"

fun fits_source :: "PhysReg \<times> Source \<Rightarrow> bool" where
  "fits_source (dst, RegSource src) \<longleftrightarrow> reg_width src = reg_width dst"
| "fits_source (dst, _) \<longleftrightarrow> True"

definition slots_hold :: "moves \<Rightarrow> 'v machine \<Rightarrow> bool" where
  "slots_hold moves m \<longleftrightarrow> (\<forall>dst slot. (dst, SlotSource slot) \<in> set moves \<longrightarrow> length (m_slots m slot) = reg_width dst)"

text \<open>Running the steps gives every live destination its source's value of the start, and changes no live
  register outside the destinations.\<close>

definition copies :: "PhysReg list \<Rightarrow> moves \<Rightarrow> (nat \<Rightarrow> nat \<Rightarrow> 'v) \<Rightarrow> (PhysReg \<times> Step) list \<Rightarrow> 'v machine \<Rightarrow> bool" where
  "copies live moves rom steps m \<longleftrightarrow>
     (\<forall>(dst, src)\<in>set moves. dst \<in> set live \<longrightarrow>
        read_units (m_units (run_steps rom steps m)) dst = source_units rom m dst src) \<and>
     (\<forall>l\<in>set live. (\<forall>(dst, _)\<in>set moves. \<not> overlaps dst l) \<longrightarrow>
        read_units (m_units (run_steps rom steps m)) l = read_units (m_units m) l)"

lemma run_steps_Cons [simp]: "run_steps rom (s # steps) m = run_steps rom steps (run_step rom s m)"
  by (simp add: run_steps_def)

lemma nth_remove_at:
  assumes "i < length xs" "k < length (remove_at i xs)"
  shows "remove_at i xs ! k = xs ! (if k < i then k else Suc k)"
  using assms by (auto simp: remove_at_def nth_append min_def)

lemma length_remove_at: "i < length xs \<Longrightarrow> Suc (length (remove_at i xs)) = length xs"
  by (simp add: remove_at_def)

lemma disjoint_at:
  assumes "disjoint_dsts moves" "i < length moves" "m \<in> set (remove_at i moves)"
  shows "\<not> overlaps (fst (moves ! i)) (fst m)"
proof -
  obtain k where k: "k < length (remove_at i moves)" "remove_at i moves ! k = m"
    using assms(3) by (auto simp: in_set_conv_nth)
  define j where "j = (if k < i then k else Suc k)"
  have "j < length moves" "j \<noteq> i" "moves ! j = m"
    using k length_remove_at [OF assms(2)] nth_remove_at [OF assms(2) k(1)] by (auto simp: j_def)
  then show ?thesis
    using assms(1,2) overlaps_sym unfolding disjoint_dsts_def by (metis nat_neq_iff)
qed

lemma disjoint_remove:
  assumes "disjoint_dsts moves" "i < length moves"
  shows "disjoint_dsts (remove_at i moves)"
  unfolding disjoint_dsts_def
proof (intro allI impI)
  fix a b
  assume ab: "a < b" "b < length (remove_at i moves)"
  let ?f = "\<lambda>k. if k < i then k else Suc k"
  have "?f a < ?f b" "?f b < length moves"
    using ab length_remove_at [OF assms(2)] by auto
  then have "\<not> overlaps (fst (moves ! ?f a)) (fst (moves ! ?f b))"
    using assms(1) unfolding disjoint_dsts_def by blast
  then show "\<not> overlaps (fst (remove_at i moves ! a)) (fst (remove_at i moves ! b))"
    using nth_remove_at [OF assms(2), of a] nth_remove_at [OF assms(2), of b] ab by simp
qed

lemma fst_redirect: "i < length moves \<Longrightarrow> fst (redirect aside to moves ! i) = fst (moves ! i)"
  by (simp add: redirect_def split_beta)

lemma disjoint_redirect: "disjoint_dsts moves \<Longrightarrow> disjoint_dsts (redirect aside to moves)"
  unfolding disjoint_dsts_def
proof (intro allI impI)
  fix i j
  assume d: "\<forall>i j. i < j \<longrightarrow> j < length moves \<longrightarrow> \<not> overlaps (fst (moves ! i)) (fst (moves ! j))"
    and ij: "i < j" "j < length (redirect aside to moves)"
  then show "\<not> overlaps (fst (redirect aside to moves ! i)) (fst (redirect aside to moves ! j))"
    using fst_redirect [of i moves] fst_redirect [of j moves] by simp
qed

lemma in_redirectD:
  assumes "(dst, src) \<in> set (redirect aside to moves)"
  shows "\<exists>old. (dst, old) \<in> set moves \<and> src = (if old = RegSource aside then to else old)"
proof -
  obtain m where m: "(dst, src) = (\<lambda>(dst, src). (dst, if src = RegSource aside then to else src)) m" "m \<in> set moves"
    using assms unfolding redirect_def set_map by (rule imageE)
  then show ?thesis
    by (intro exI [of _ "snd m"]) (simp add: split_beta)
qed

lemma in_redirectI:
  "(dst, old) \<in> set moves \<Longrightarrow> (dst, if old = RegSource aside then to else old) \<in> set (redirect aside to moves)"
  unfolding redirect_def set_map by (rule image_eqI [of _ _ "(dst, old)"]) simp_all

lemma free_slot_free: "SlotSource (free_slot moves) \<notin> snd ` set moves"
proof -
  let ?n = "length moves + 1"
  have "\<exists>slot<?n. SlotSource slot \<notin> snd ` set moves"
  proof (rule ccontr)
    assume "\<not> ?thesis"
    then have "SlotSource ` {..<?n} \<subseteq> snd ` set moves" by auto
    then have "card (SlotSource ` {..<?n}) \<le> card (snd ` set moves)" by (intro card_mono) auto
    also have "\<dots> \<le> length moves"
      using card_image_le [of "set moves" snd] card_length [of moves] by simp
    finally show False
      by (simp add: card_image inj_on_def)
  qed
  then obtain k where k: "k < ?n" "SlotSource k \<notin> snd ` set moves" by blast
  have "find (\<lambda>slot. SlotSource slot \<notin> snd ` set moves) [0..<?n] \<noteq> None"
    unfolding find_None_iff not_not by (rule exI [of _ k]) (use k in auto)
  then obtain slot where slot: "find (\<lambda>slot. SlotSource slot \<notin> snd ` set moves) [0..<?n] = Some slot" by blast
  then have "SlotSource slot \<notin> snd ` set moves"
    unfolding find_Some_iff by blast
  then show ?thesis
    unfolding free_slot_def slot by simp
qed

lemma slots_holdD: "\<lbrakk>slots_hold moves m; (dst, SlotSource slot) \<in> set moves\<rbrakk> \<Longrightarrow> length (m_slots m slot) = reg_width dst"
  unfolding slots_hold_def by blast

text \<open>One emitted move: no source left reads its destination.\<close>

lemma copies_emit:
  assumes i: "i < length moves" and d: "disjoint_dsts moves" and fit: "list_all fits_source moves" and sl: "slots_hold moves m"
    and unread: "\<not> moves_read moves (fst (moves ! i))"
    and IH: "copies live (remove_at i moves) rom steps (run_step rom (emitted (moves ! i)) m)"
  shows "copies live moves rom (emitted (moves ! i) # steps) m"
proof -
  obtain dst src where at: "moves ! i = (dst, src)" by fastforce
  have mem: "(dst, src) \<in> set moves" using i at nth_mem by metis
  define m1 where "m1 = run_step rom (emitted (moves ! i)) m"
  have m1: "m1 = m\<lparr>m_units := write_units dst (source_units rom m dst src) (m_units m)\<rparr>"
    by (cases src) (simp_all add: m1_def at)
  have len: "length (source_units rom m dst src) = reg_width dst"
    using bspec [OF fit [unfolded list_all_iff] mem] slots_holdD [OF sl] mem by (cases src) simp_all
  have no_read: "\<not> src_overlaps s dst" if "(e, s) \<in> set moves" for e s
    using unread that by (auto simp: moves_read_def list_ex_iff at)
  have same: "source_units rom m1 e s = source_units rom m e s" if "(e, s) \<in> set moves" for e s
    using no_read [OF that] overlaps_sym by (cases s) (simp_all add: m1 read_write_other)
  have set: "set moves = insert (dst, src) (set (remove_at i moves))"
    using split_at [OF i] at by (metis remove_at_def set_append list.simps(15) Un_insert_right)
  have apart: "\<not> overlaps dst e" if "(e, s) \<in> set (remove_at i moves)" for e s
    using disjoint_at [OF d i that] at by simp
  have fin: "read_units (m_units (run_steps rom steps m1)) e = source_units rom m1 e s"
    if "(e, s) \<in> set (remove_at i moves)" "e \<in> set live" for e s
    using IH that unfolding m1_def copies_def by blast
  have keep: "read_units (m_units (run_steps rom steps m1)) l = read_units (m_units m1) l"
    if "l \<in> set live" "\<And>e s. (e, s) \<in> set (remove_at i moves) \<Longrightarrow> \<not> overlaps e l" for l
    using IH that unfolding m1_def copies_def by blast
  have "read_units (m_units (run_steps rom steps m1)) e = source_units rom m e s"
    if "(e, s) \<in> set moves" "e \<in> set live" for e s
  proof (cases "(e, s) \<in> set (remove_at i moves)")
    case True
    then show ?thesis using fin that same by simp
  next
    case False
    then have es: "e = dst" "s = src" using that set by auto
    have "read_units (m_units (run_steps rom steps m1)) dst = read_units (m_units m1) dst"
      using that es apart overlaps_sym by (intro keep) blast+
    then show ?thesis
      using len by (simp add: es m1 read_write_same)
  qed
  moreover have "read_units (m_units (run_steps rom steps m1)) l = read_units (m_units m) l"
    if "l \<in> set live" "\<forall>(e, s)\<in>set moves. \<not> overlaps e l" for l
    using that set keep [of l] by (auto simp: m1 read_write_other)
  ultimately show ?thesis
    unfolding copies_def run_steps_Cons m1_def [symmetric] by auto
qed

text \<open>One source set aside, in a scratch register or in a slot: the moves that read it read the copy.\<close>

lemma copies_aside:
  assumes live: "\<And>l. l \<in> set live \<Longrightarrow> read_units (m_units m1) l = read_units (m_units m) l"
    and same: "\<And>e s. (e, s) \<in> set moves \<Longrightarrow> source_units rom m1 e (if s = RegSource aside then to else s) = source_units rom m e s"
    and m1: "m1 = run_step rom step m"
    and IH: "copies live (redirect aside to moves) rom steps m1"
  shows "copies live moves rom (step # steps) m"
proof -
  have "read_units (m_units (run_steps rom steps m1)) e = source_units rom m e s"
    if "(e, s) \<in> set moves" "e \<in> set live" for e s
    using IH in_redirectI [OF that(1), of aside to] same [OF that(1)] that(2) unfolding copies_def by auto
  moreover have "read_units (m_units (run_steps rom steps m1)) l = read_units (m_units m) l"
    if l: "l \<in> set live" "\<forall>(e, s)\<in>set moves. \<not> overlaps e l" for l
  proof -
    have "\<forall>(e, s)\<in>set (redirect aside to moves). \<not> overlaps e l"
      using l(2) in_redirectD [of _ _ aside to moves] by fastforce
    then have "read_units (m_units (run_steps rom steps m1)) l = read_units (m_units m1) l"
      using IH l(1) unfolding copies_def by blast
    then show ?thesis using live [OF l(1)] by simp
  qed
  ultimately show ?thesis
    unfolding copies_def run_steps_Cons m1 [symmetric] by auto
qed

lemma reading_exists:
  assumes "moves_read moves r"
  shows "\<exists>a. reading moves r = Some a"
proof -
  have "reading_of r False moves \<noteq> None"
    using assms
  proof (induction moves)
    case (Cons m moves)
    then show ?case
      by (cases m; cases "snd m") (auto simp: moves_read_def)
  qed (simp add: moves_read_def)
  then show ?thesis
    by (auto simp: reading_def split: option.splits)
qed

text \<open>Every sequence is a copy, by computation induction over the loop.\<close>

lemma sequence_copies:
  assumes scr: "\<And>c r. r \<in> set (scr c) \<Longrightarrow> fst r = c"
    and "disjoint_dsts moves" "list_all fits_source moves"
  shows "\<exists>steps. sequence live scr moves = Some steps \<and>
    (\<forall>m :: 'v machine. slots_hold moves m \<longrightarrow> copies live moves rom steps m)"
  using assms(2,3) scr
proof (induction live scr moves rule: sequence.induct)
  case (1 live scr moves)
  show ?case
  proof (cases "moves = []")
    case True
    then show ?thesis by (simp add: sequence.simps copies_def run_steps_def)
  next
    case nonempty: False
    show ?thesis
    proof (cases "find (\<lambda>i. \<not> moves_read moves (fst (moves ! i))) [0..<length moves]")
      case (Some at)
      then have i: "at < length moves" "\<not> moves_read moves (fst (moves ! at))"
        by (auto simp: find_Some_iff)
      have fit: "list_all fits_source (remove_at at moves)"
        using 1(5) set_remove_at [of at moves] by (auto simp: list_all_iff)
      obtain steps where steps: "sequence live scr (remove_at at moves) = Some steps"
        "\<forall>m. slots_hold (remove_at at moves) m \<longrightarrow> copies live (remove_at at moves) rom steps m"
        using 1(3) [OF nonempty Some disjoint_remove [OF 1(4) i(1)] fit 1(6)] by blast
      have "copies live moves rom (emitted (moves ! at) # steps) m" if m: "slots_hold moves m" for m
      proof (rule copies_emit [OF i(1) 1(4,5) m i(2)])
        have "m_slots (run_step rom (emitted (moves ! at)) m) = m_slots m"
          by (cases "moves ! at"; cases "snd (moves ! at)") simp_all
        then have "slots_hold (remove_at at moves) (run_step rom (emitted (moves ! at)) m)"
          using m set_remove_at [of at moves] unfolding slots_hold_def by auto
        then show "copies live (remove_at at moves) rom steps (run_step rom (emitted (moves ! at)) m)"
          using steps(2) by blast
      qed
      then show ?thesis
        using nonempty Some steps(1) by (subst sequence.simps) simp
    next
      case None
      have "moves_read moves (fst (moves ! 0))"
        using None nonempty by (auto simp: find_None_iff)
      then obtain aside where aside: "reading moves (fst (moves ! 0)) = Some aside"
        using reading_exists by blast
      note R = reading_blocked [OF aside nonempty]
      show ?thesis
      proof (cases "find (\<lambda>register. \<not> reg_busy live moves register) (scr (fst aside))")
        case (Some free)
        then have free: "\<not> reg_busy live moves free" "free \<in> set (scr (fst aside))"
          by (auto simp: find_Some_iff)
        have w: "reg_width free = reg_width aside"
          using 1(6) [OF free(2)] by (simp add: reg_width_def)
        let ?moves = "redirect aside (RegSource free) moves"
        have fit: "list_all fits_source ?moves"
          unfolding list_all_iff
        proof
          fix x assume "x \<in> set ?moves"
          then obtain old where old: "(fst x, old) \<in> set moves" "snd x = (if old = RegSource aside then RegSource free else old)"
            using in_redirectD [of "fst x" "snd x" aside "RegSource free" moves] by auto
          have "fits_source (fst x, old)" using 1(5) old(1) by (auto simp: list_all_iff)
          then show "fits_source x" using old(2) w by (cases x) (auto split: if_splits)
        qed
        obtain steps where steps: "sequence live scr ?moves = Some steps"
          "\<forall>m. slots_hold ?moves m \<longrightarrow> copies live ?moves rom steps m"
          using 1(2) [OF nonempty None aside Some disjoint_redirect [OF 1(4)] fit 1(6)] by blast
        have "copies live moves rom ((free, MoveStep aside) # steps) m" if m: "slots_hold moves m" for m
        proof (rule copies_aside [OF _ _ refl])
          let ?m1 = "run_step rom (free, MoveStep aside) m"
          show "read_units (m_units ?m1) l = read_units (m_units m) l" if "l \<in> set live" for l
          proof -
            have "\<not> overlaps l free" using free(1) that by (auto simp: reg_busy_def list_ex_iff)
            then show ?thesis using overlaps_sym [of l free] by (simp add: read_write_other)
          qed
          show "source_units rom ?m1 e (if s = RegSource aside then RegSource free else s) = source_units rom m e s"
            if es: "(e, s) \<in> set moves" for e s
          proof (cases "s = RegSource aside")
            case True
            then show ?thesis using w by (simp add: read_write_same)
          next
            case False
            have "\<not> src_overlaps s free" using free(1) es by (auto simp: reg_busy_def list_ex_iff)
            then show ?thesis
              using False by (cases s) (simp_all add: read_write_other overlaps_sym [of free])
          qed
          have "slots_hold ?moves ?m1"
            unfolding slots_hold_def
          proof (intro allI impI)
            fix e k assume "(e, SlotSource k) \<in> set ?moves"
            then have "(e, SlotSource k) \<in> set moves"
              using in_redirectD [of e "SlotSource k" aside "RegSource free" moves] by (auto split: if_splits)
            then show "length (m_slots ?m1 k) = reg_width e" using slots_holdD [OF m] by simp
          qed
          then show "copies live ?moves rom steps ?m1" using steps(2) by blast
        qed
        then show ?thesis
          using nonempty None aside Some steps(1) by (subst sequence.simps) simp
      next
        case noscratch: None
        let ?slot = "free_slot moves"
        let ?moves = "redirect aside (SlotSource ?slot) moves"
        have fit: "list_all fits_source ?moves"
          unfolding list_all_iff
        proof
          fix x assume "x \<in> set ?moves"
          then obtain old where old: "(fst x, old) \<in> set moves" "snd x = (if old = RegSource aside then SlotSource ?slot else old)"
            using in_redirectD [of "fst x" "snd x" aside "SlotSource ?slot" moves] by auto
          have "fits_source (fst x, old)" using 1(5) old(1) by (auto simp: list_all_iff)
          then show "fits_source x" using old(2) by (cases x) (auto split: if_splits)
        qed
        obtain steps where steps: "sequence live scr ?moves = Some steps"
          "\<forall>m. slots_hold ?moves m \<longrightarrow> copies live ?moves rom steps m"
          using 1(1) [OF nonempty None aside noscratch disjoint_redirect [OF 1(4)] fit 1(6)] by blast
        have "copies live moves rom ((aside, StoreStep ?slot) # steps) m" if m: "slots_hold moves m" for m
        proof (rule copies_aside [OF _ _ refl])
          let ?m1 = "run_step rom (aside, StoreStep ?slot) m"
          have fresh: "(e, SlotSource ?slot) \<notin> set moves" for e
            using free_slot_free [of moves] by force
          show "read_units (m_units ?m1) l = read_units (m_units m) l" if "l \<in> set live" for l by simp
          show "source_units rom ?m1 e (if s = RegSource aside then SlotSource ?slot else s) = source_units rom m e s"
            if es: "(e, s) \<in> set moves" for e s
            using es fresh [of e] by (cases s) auto
          have "slots_hold ?moves ?m1"
            unfolding slots_hold_def
          proof (intro allI impI)
            fix e k assume "(e, SlotSource k) \<in> set ?moves"
            then obtain old where old: "(e, old) \<in> set moves" "SlotSource k = (if old = RegSource aside then SlotSource ?slot else old)"
              using in_redirectD [of e "SlotSource k" aside "SlotSource ?slot" moves] by auto
            have "fits_source (e, old)" using 1(5) old(1) by (auto simp: list_all_iff)
            then show "length (m_slots ?m1 k) = reg_width e"
              using old fresh [of e] slots_holdD [OF m, of e] by (cases "old = RegSource aside") auto
          qed
          then show "copies live ?moves rom steps ?m1" using steps(2) by blast
        qed
        then show ?thesis
          using nonempty None aside noscratch steps(1) by (subst sequence.simps) simp
      qed
    qed
  qed
qed

subsection \<open>What a sequence may write\<close>

definition writes :: "(PhysReg \<times> Step) list \<Rightarrow> PhysReg set" where
  "writes steps = {r. \<exists>st. (r, st) \<in> set steps \<and> (\<forall>slot. st \<noteq> StoreStep slot)}"

lemma writes_Cons: "writes ((r, st) # steps) \<subseteq> insert r (writes steps)"
  "writes ((r, StoreStep slot) # steps) = writes steps"
  by (auto simp: writes_def)

lemma fst_emitted: "fst (emitted m) = fst m"
  by (cases m; cases "snd m") simp_all

lemma sequence_writes: "sequence live scr moves = Some steps \<Longrightarrow> writes steps \<subseteq> fst ` set moves \<union> (\<Union>c. set (scr c))"
proof (induction live scr moves arbitrary: steps rule: sequence.induct)
  case (1 live scr moves)
  show ?case
  proof (cases "moves = []")
    case True
    then show ?thesis using 1(4) by (simp add: sequence.simps writes_def)
  next
    case nonempty: False
    show ?thesis
    proof (cases "find (\<lambda>i. \<not> moves_read moves (fst (moves ! i))) [0..<length moves]")
      case (Some at)
      then have i: "at < length moves" by (auto simp: find_Some_iff)
      obtain rest where rest: "sequence live scr (remove_at at moves) = Some rest" "steps = emitted (moves ! at) # rest"
        using 1(4) nonempty Some by (subst (asm) sequence.simps) auto
      have IH: "writes rest \<subseteq> fst ` set (remove_at at moves) \<union> (\<Union>c. set (scr c))"
        by (rule 1(3) [OF nonempty Some rest(1)])
      have dst: "fst (emitted (moves ! at)) \<in> fst ` set moves"
        using nth_mem [OF i] by (simp add: fst_emitted)
      have step: "writes steps \<subseteq> insert (fst (emitted (moves ! at))) (writes rest)"
        unfolding rest(2) using writes_Cons(1) [of "fst (emitted (moves ! at))" "snd (emitted (moves ! at))" rest] by simp
      have "writes rest \<subseteq> fst ` set moves \<union> (\<Union>c. set (scr c))"
        using IH by (rule order_trans) (intro Un_mono image_mono set_remove_at subset_refl)
      then show ?thesis
        using dst by (intro order_trans [OF step] insert_subsetI) simp_all
    next
      case None
      then obtain aside where aside: "reading moves (fst (moves ! 0)) = Some aside"
        using 1(4) nonempty by (subst (asm) sequence.simps) (auto split: option.splits)
      have dsts: "fst ` set (redirect aside to moves) = fst ` set moves" for to
        by (metis redirect_parts(1) set_map)
      show ?thesis
      proof (cases "find (\<lambda>register. \<not> reg_busy live moves register) (scr (fst aside))")
        case (Some free)
        then have "free \<in> set (scr (fst aside))" by (auto simp: find_Some_iff)
        moreover obtain rest where rest: "sequence live scr (redirect aside (RegSource free) moves) = Some rest"
          "steps = (free, MoveStep aside) # rest"
          using 1(4) nonempty None aside Some by (subst (asm) sequence.simps) auto
        ultimately show ?thesis
          using 1(2) [OF nonempty None aside Some rest(1)] writes_Cons(1) [of free "MoveStep aside" rest] unfolding rest(2) dsts by blast
      next
        case noscratch: None
        obtain rest where rest: "sequence live scr (redirect aside (SlotSource (free_slot moves)) moves) = Some rest"
          "steps = (aside, StoreStep (free_slot moves)) # rest"
          using 1(4) nonempty None aside noscratch by (subst (asm) sequence.simps) auto
        show ?thesis
          using 1(1) [OF nonempty None aside noscratch rest(1)] unfolding rest(2) writes_Cons(2) dsts .
      qed
    qed
  qed
qed

lemma allocation_loop_sound:
  assumes "\<forall>r\<in>set result. fst r = c \<and> \<not> list_ex (overlaps r) (abi_roles abi)"
  shows "\<forall>r\<in>set (allocation_loop abi c rs result). fst r = c \<and> \<not> list_ex (overlaps r) (abi_roles abi)"
  using assms
proof (induction rs arbitrary: result)
  case (Cons r rs)
  define taken where "taken \<longleftrightarrow> rc_file (fst r) = rc_file c \<and> rc_contains c (snd r) \<and>
      snd r mod max (rc_group_width c) 1 = 0 \<and> \<not> list_ex (overlaps (c, snd r)) (abi_roles abi) \<and> (c, snd r) \<notin> set result"
  have "allocation_loop abi c (r # rs) result = allocation_loop abi c rs (if taken then result @ [(c, snd r)] else result)"
    by (cases taken) (simp_all only: allocation_loop.simps Let_def taken_def [symmetric] if_True if_False)
  moreover have "\<forall>r\<in>set (if taken then result @ [(c, snd r)] else result). fst r = c \<and> \<not> list_ex (overlaps r) (abi_roles abi)"
    using Cons.prems by (cases taken) (auto simp: taken_def)
  ultimately show ?case
    using Cons.IH by metis
qed simp

lemma scratch_sound:
  "r \<in> set (scratch abi assigned c) \<Longrightarrow> fst r = c \<and> \<not> list_ex (overlaps r) (abi_roles abi) \<and> \<not> unsaved abi assigned r"
  using allocation_loop_sound [of "[]" c abi "abi_caller_saved abi @ abi_callee_saved abi"]
  by (auto simp: scratch_def allocation_order_def)

text \<open>C13: moves to disjoint destinations, from registers of the same width or constants, are sequenced into
  steps that do the parallel copy: on every machine each live destination ends with what its source held
  at the start, and no other live register changes. Besides the destinations the steps write only
  registers that hold no role of the ABI and no callee-saved register nobody saved.\<close>

theorem parallel_copy_sequenced:
  fixes m :: "'v machine"
  assumes "disjoint_dsts moves" "list_all fits_source moves" "\<forall>(_, src)\<in>set moves. \<forall>slot. src \<noteq> SlotSource slot"
  shows "\<exists>steps. sequence live (scratch abi assigned) moves = Some steps \<and> copies live moves rom steps m \<and>
    (\<forall>r\<in>writes steps. r \<in> fst ` set moves \<or> \<not> list_ex (overlaps r) (abi_roles abi) \<and> \<not> unsaved abi assigned r)"
proof -
  obtain steps where steps: "sequence live (scratch abi assigned) moves = Some steps"
    "slots_hold moves m \<longrightarrow> copies live moves rom steps m"
    using sequence_copies [of "scratch abi assigned" moves live rom] scratch_sound assms(1,2) by blast
  moreover have "slots_hold moves m"
    using assms(3) unfolding slots_hold_def by blast
  moreover have "\<forall>r\<in>writes steps. r \<in> fst ` set moves \<or> \<not> list_ex (overlaps r) (abi_roles abi) \<and> \<not> unsaved abi assigned r"
    using sequence_writes [OF steps(1)] scratch_sound by blast
  ultimately show ?thesis by blast
qed

text \<open>Two registers exchanged through the third of their file, and a move out of one of them.\<close>

definition gpr :: RegClass where
  "gpr = \<lparr>rc_name = ''GPR'', rc_file = ''GPR'', rc_registers = [0, 1, 2, 3, 4], rc_group_width = 1, rc_bit_offset = 0\<rparr>"

definition small_abi :: AbiInfo where
  "small_abi = \<lparr>abi_caller_saved = [(gpr, 0), (gpr, 1), (gpr, 2), (gpr, 3)], abi_callee_saved = [], abi_sp = (gpr, 4),
     abi_ra = None, abi_reserved = []\<rparr>"

definition swap_moves :: moves where
  "swap_moves = [((gpr, 0), RegSource (gpr, 1)), ((gpr, 1), RegSource (gpr, 0)), ((gpr, 3), ConstSource 9)]"

definition swap_live :: "PhysReg list" where
  "swap_live = [(gpr, 0), (gpr, 1), (gpr, 3)]"

definition swap_machine :: "nat machine" where
  "swap_machine = \<lparr>m_units = (\<lambda>(_, i). 10 + i), m_slots = (\<lambda>_. [])\<rparr>"

lemma swap_sequence:
  "sequence swap_live (scratch small_abi []) swap_moves =
     Some [((gpr, 3), ReplayStep 9), ((gpr, 2), MoveStep (gpr, 0)), ((gpr, 0), MoveStep (gpr, 1)), ((gpr, 1), MoveStep (gpr, 2))]"
  by code_simp

theorem parallel_copy_sequenced_witness:
  "\<exists>steps. sequence swap_live (scratch small_abi []) swap_moves = Some steps \<and>
     read_units (m_units (run_steps (\<lambda>d k. d) steps swap_machine)) (gpr, 0) = [11] \<and>
     read_units (m_units (run_steps (\<lambda>d k. d) steps swap_machine)) (gpr, 1) = [10] \<and>
     read_units (m_units (run_steps (\<lambda>d k. d) steps swap_machine)) (gpr, 3) = [9]"
proof -
  have "disjoint_dsts swap_moves"
    by (auto simp: disjoint_dsts_def swap_moves_def less_Suc_eq nth_Cons' overlaps_def reg_span_def gpr_def)
  moreover have "list_all fits_source swap_moves" "\<forall>(_, src)\<in>set swap_moves. \<forall>slot. src \<noteq> SlotSource slot"
    by (simp_all add: swap_moves_def reg_width_def)
  ultimately obtain steps where steps: "sequence swap_live (scratch small_abi []) swap_moves = Some steps"
    "copies swap_live swap_moves (\<lambda>d k. d) steps swap_machine"
    using parallel_copy_sequenced [of swap_moves swap_live small_abi "[]" "\<lambda>d k. d" swap_machine] by blast
  have "reg_width (gpr, i) = 1" for i by (simp add: reg_width_def gpr_def)
  then have "source_units (\<lambda>d k. d) swap_machine (gpr, 0) (RegSource (gpr, 1)) = [11]"
    "source_units (\<lambda>d k. d) swap_machine (gpr, 1) (RegSource (gpr, 0)) = [10]"
    "source_units (\<lambda>d k. d) swap_machine (gpr, 3) (ConstSource 9) = [9]"
    by (simp_all add: read_units_def swap_machine_def)
  then show ?thesis
    using steps by (auto simp: copies_def swap_moves_def swap_live_def)
qed

end
