(* ===== verification/DataFlow.thy ===== *)
theory DataFlow
  imports Prelude
begin

text \<open>
  The monotone fixed-point solver of \<open>core/src/analysis/solver.rs\<close>. The traits of the solver are locales: a
  join semilattice of bounded height, and a domain whose seed and transfer only raise facts. In them the
  solver returns and leaves the least solution.
\<close>

subsection \<open>Facts and the solver\<close>

record ('n, 'f) Facts =
  fx_facts :: "'n \<Rightarrow> 'f option"
  fx_worklist :: "'n list"

definition facts_default :: "('n, 'f) Facts" where
  "facts_default = \<lparr>fx_facts = (\<lambda>_. None), fx_worklist = []\<rparr>"

text \<open>The operations are arguments of the solver as they are methods of its traits: \<open>btm\<close> and \<open>jn\<close> of the
  lattice, \<open>seed\<close> and \<open>transfer\<close> of the domain. The worklist is a stack, its top first.\<close>

definition fact_of :: "'f \<Rightarrow> ('n, 'f) Facts \<Rightarrow> 'n \<Rightarrow> 'f" where
  "fact_of btm fx node = (case fx_facts fx node of None \<Rightarrow> btm | Some f \<Rightarrow> f)"

definition raise_fact :: "'f \<Rightarrow> ('f \<Rightarrow> 'f \<Rightarrow> 'f) \<Rightarrow> 'n \<Rightarrow> 'f \<Rightarrow> ('n, 'f) Facts \<Rightarrow> ('n, 'f) Facts" where
  "raise_fact btm jn node fct fx =
     (let current = fact_of btm fx node;
          joined = jn current fct
      in if joined \<noteq> current
         then fx\<lparr>fx_facts := (fx_facts fx)(node \<mapsto> joined), fx_worklist := node # fx_worklist fx\<rparr>
         else fx)"

partial_function (option) drain :: "('n \<Rightarrow> ('n, 'f) Facts \<Rightarrow> ('n, 'f) Facts) \<Rightarrow> ('n, 'f) Facts \<Rightarrow> ('n, 'f) Facts option" where
  [code]: "drain transfer fx =
     (case fx_worklist fx of
        [] \<Rightarrow> Some fx
      | node # rest \<Rightarrow> drain transfer (transfer node (fx\<lparr>fx_worklist := rest\<rparr>)))"

definition solve_facts ::
  "(('n, 'f) Facts \<Rightarrow> ('n, 'f) Facts) \<Rightarrow> ('n \<Rightarrow> ('n, 'f) Facts \<Rightarrow> ('n, 'f) Facts) \<Rightarrow> ('n, 'f) Facts option" where
  "solve_facts seed transfer = drain transfer (seed facts_default)"

subsection \<open>The contract of a lattice\<close>

locale fact_lattice =
  fixes btm :: 'f and jn :: "'f \<Rightarrow> 'f \<Rightarrow> 'f" and height :: "'f \<Rightarrow> nat" and bound :: nat
  assumes btm_join: "jn btm x = x"
    and join_assoc: "jn (jn x y) z = jn x (jn y z)"
    and join_comm: "jn x y = jn y x"
    and join_idem: "jn x x = x"
    and height_rises: "jn x y \<noteq> x \<Longrightarrow> height x < height (jn x y)"
    and height_bound: "height x \<le> bound"
begin

definition below :: "'f \<Rightarrow> 'f \<Rightarrow> bool" where
  "below x y \<longleftrightarrow> jn x y = y"

lemma below_refl: "below x x"
  by (simp add: below_def join_idem)

lemma below_trans: "\<lbrakk>below x y; below y z\<rbrakk> \<Longrightarrow> below x z"
  by (metis below_def join_assoc)

lemma below_antisym: "\<lbrakk>below x y; below y x\<rbrakk> \<Longrightarrow> x = y"
  by (metis below_def join_comm)

lemma btm_below: "below btm x"
  by (simp add: below_def btm_join)

lemma below_join: "below x (jn x y)" "below y (jn x y)"
  by (metis below_def join_assoc join_idem, metis below_def join_assoc join_comm join_idem)

lemma join_below: "\<lbrakk>below x z; below y z\<rbrakk> \<Longrightarrow> below (jn x y) z"
  by (simp add: below_def join_assoc)

abbreviation fct :: "('n, 'f) Facts \<Rightarrow> 'n \<Rightarrow> 'f" where
  "fct \<equiv> fact_of btm"

abbreviation raising :: "('n \<times> 'f) list \<Rightarrow> ('n, 'f) Facts \<Rightarrow> ('n, 'f) Facts" where
  "raising flows \<equiv> fold (\<lambda>(m, f). raise_fact btm jn m f) flows"

lemma fact_raise: "fct (raise_fact btm jn node f fx) n = (if n = node then jn (fct fx node) f else fct fx n)"
  by (auto simp: raise_fact_def fact_of_def Let_def)

lemma raise_grows: "below (fct fx n) (fct (raise_fact btm jn node f fx) n)"
  by (simp add: fact_raise below_refl below_join)

lemma raising_grows: "below (fct fx n) (fct (raising flows fx) n)"
proof (induction flows arbitrary: fx)
  case (Cons p flows)
  then show ?case
    by (cases p) (simp, meson below_trans raise_grows)
qed (simp add: below_refl)

lemma raising_reaches: "(m, f) \<in> set flows \<Longrightarrow> below f (fct (raising flows fx) m)"
proof (induction flows arbitrary: fx)
  case (Cons p flows)
  obtain m' f' where p: "p = (m', f')" by fastforce
  show ?case
  proof (cases "(m, f) = p")
    case True
    have "below f (fct (raise_fact btm jn m f fx) m)"
      by (simp add: fact_raise below_join)
    then show ?thesis
      using True p by (simp, meson below_trans raising_grows)
  next
    case False
    then have "(m, f) \<in> set flows" using Cons.prems by auto
    then show ?thesis
      using Cons.IH p by simp
  qed
qed simp

text \<open>Raising queues exactly the nodes whose fact it changes.\<close>

lemma raise_worklist:
  "set (fx_worklist (raise_fact btm jn node f fx)) = set (fx_worklist fx) \<union> (if jn (fct fx node) f \<noteq> fct fx node then {node} else {})"
  by (auto simp: raise_fact_def Let_def)

lemma raising_keeps_queue: "set (fx_worklist fx) \<subseteq> set (fx_worklist (raising flows fx))"
proof (induction flows arbitrary: fx)
  case (Cons p flows)
  have "set (fx_worklist fx) \<subseteq> set (fx_worklist (raise_fact btm jn (fst p) (snd p) fx))"
    by (simp add: raise_worklist)
  then show ?case
    using Cons.IH [of "raise_fact btm jn (fst p) (snd p) fx"] by (simp add: split_beta)
qed simp

lemma raising_queues: "fct (raising flows fx) n \<noteq> fct fx n \<Longrightarrow> n \<in> set (fx_worklist (raising flows fx))"
proof (induction flows arbitrary: fx)
  case (Cons p flows)
  let ?fx = "raise_fact btm jn (fst p) (snd p) fx"
  have step: "raising (p # flows) fx = raising flows ?fx"
    by (simp add: split_beta)
  show ?case
  proof (cases "fct ?fx n = fct fx n")
    case True
    then show ?thesis
      using Cons.IH [of ?fx] Cons.prems unfolding step by simp
  next
    case False
    then have "n \<in> set (fx_worklist ?fx)"
      by (auto simp: fact_raise raise_worklist split: if_splits)
    then show ?thesis
      using raising_keeps_queue [of ?fx flows] unfolding step by blast
  qed
qed simp

lemma raising_queue_bound: "set (fx_worklist (raising flows fx)) \<subseteq> set (fx_worklist fx) \<union> fst ` set flows"
proof (induction flows arbitrary: fx)
  case (Cons p flows)
  let ?fx = "raise_fact btm jn (fst p) (snd p) fx"
  have "set (fx_worklist ?fx) \<subseteq> insert (fst p) (set (fx_worklist fx))"
    by (auto simp: raise_worklist)
  then show ?case
    using Cons.IH [of ?fx] by (auto simp: split_beta)
qed simp

lemma raising_below:
  "\<lbrakk>\<And>n. below (fct fx n) (g n); \<And>m f. (m, f) \<in> set flows \<Longrightarrow> below f (g m)\<rbrakk> \<Longrightarrow> below (fct (raising flows fx) n) (g n)"
proof (induction flows arbitrary: fx)
  case (Cons p flows)
  obtain m f where p: "p = (m, f)" by fastforce
  have "below (fct (raise_fact btm jn m f fx) n) (g n)" for n
    using Cons.prems p by (simp add: fact_raise join_below)
  then show ?case
    using Cons.IH [of "raise_fact btm jn m f fx"] Cons.prems(2) p by simp
qed simp

text \<open>What is left of the height over a finite set of nodes, and the worklist, shrink.\<close>

definition room :: "'n set \<Rightarrow> ('n, 'f) Facts \<Rightarrow> nat" where
  "room N fx = (\<Sum>n\<in>N. bound - height (fct fx n))"

lemma raising_room:
  assumes N: "finite N" "fst ` set flows \<subseteq> N"
  shows "room N (raising flows fx) + length (fx_worklist (raising flows fx)) \<le> room N fx + length (fx_worklist fx)"
  using N(2)
proof (induction flows arbitrary: fx)
  case (Cons p flows)
  obtain m f where p: "p = (m, f)" by fastforce
  have m: "m \<in> N" using Cons.prems p by simp
  let ?fx = "raise_fact btm jn m f fx"
  have "room N ?fx + length (fx_worklist ?fx) \<le> room N fx + length (fx_worklist fx)"
  proof (cases "jn (fct fx m) f = fct fx m")
    case True
    then show ?thesis by (simp add: raise_fact_def Let_def)
  next
    case False
    have h: "height (fct fx m) < height (fct ?fx m)" "height (fct ?fx m) \<le> bound"
      using height_rises [OF False] height_bound by (simp_all add: fact_raise)
    have "room N ?fx = (bound - height (fct ?fx m)) + (\<Sum>n\<in>N - {m}. bound - height (fct fx n))"
      unfolding room_def by (subst sum.remove [OF N(1) m]) (simp add: fact_raise)
    moreover have "room N fx = (bound - height (fct fx m)) + (\<Sum>n\<in>N - {m}. bound - height (fct fx n))"
      unfolding room_def by (rule sum.remove [OF N(1) m])
    moreover have "length (fx_worklist ?fx) = Suc (length (fx_worklist fx))"
      using False by (simp add: raise_fact_def Let_def)
    ultimately show ?thesis using h by linarith
  qed
  then show ?case
    using Cons.IH [of ?fx] Cons.prems unfolding p by simp
qed simp

end

subsection \<open>The contract of a domain\<close>

text \<open>A domain over a finite set of nodes whose seed raises \<open>seeds\<close> and whose transfer at a node raises what
  \<open>flows\<close> says of the node's fact: monotone, and nothing from the bottom fact.\<close>

locale fact_domain = fact_lattice btm jn height bound
  for btm :: 'f and jn and height and bound +
  fixes seed :: "('n, 'f) Facts \<Rightarrow> ('n, 'f) Facts" and transfer :: "'n \<Rightarrow> ('n, 'f) Facts \<Rightarrow> ('n, 'f) Facts"
    and seeds :: "('n \<times> 'f) list" and flows :: "'n \<Rightarrow> 'f \<Rightarrow> ('n \<times> 'f) list" and nodes :: "'n set"
  assumes seed_raises: "seed fx = fold (\<lambda>(m, f). raise_fact btm jn m f) seeds fx"
    and transfer_raises: "transfer n fx = fold (\<lambda>(m, f). raise_fact btm jn m f) (flows n (fact_of btm fx n)) fx"
    and nodes_finite: "finite nodes"
    and seeds_nodes: "fst ` set seeds \<subseteq> nodes"
    and flows_nodes: "n \<in> nodes \<Longrightarrow> fst ` set (flows n f) \<subseteq> nodes"
    and flows_bottom: "(m, f) \<in> set (flows n btm) \<Longrightarrow> f = btm"
    and flows_mono: "\<lbrakk>jn f g = g; (m, x) \<in> set (flows n f)\<rbrakk> \<Longrightarrow> \<exists>y. (m, y) \<in> set (flows n g) \<and> jn x y = y"
begin

definition solution :: "('n \<Rightarrow> 'f) \<Rightarrow> bool" where
  "solution g \<longleftrightarrow>
     (\<forall>(m, f)\<in>set seeds. below f (g m)) \<and> (\<forall>n. \<forall>(m, f)\<in>set (flows n (g n)). below f (g m))"

text \<open>Every node outside the worklist has been propagated, and nothing exceeds a solution.\<close>

definition settled :: "('n, 'f) Facts \<Rightarrow> bool" where
  "settled fx \<longleftrightarrow>
     set (fx_worklist fx) \<subseteq> nodes \<and> (\<forall>(m, f)\<in>set seeds. below f (fct fx m)) \<and>
     (\<forall>n. n \<notin> set (fx_worklist fx) \<longrightarrow> (\<forall>(m, f)\<in>set (flows n (fct fx n)). below f (fct fx m))) \<and>
     (\<forall>g n. solution g \<longrightarrow> below (fct fx n) (g n))"

lemma settled_seed: "settled (seed facts_default)"
proof -
  let ?d = "facts_default :: ('n, 'f) Facts" and ?s = "seed facts_default"
  have d: "fct ?d n = btm" for n by (simp add: facts_default_def fact_of_def)
  have w: "set (fx_worklist ?s) \<subseteq> nodes"
    using raising_queue_bound [of seeds ?d] seeds_nodes by (simp add: seed_raises facts_default_def)
  have s: "\<forall>(m, f)\<in>set seeds. below f (fct ?s m)"
    using raising_reaches [of _ _ seeds ?d] by (auto simp: seed_raises)
  have q: "below f (fct ?s m)" if "n \<notin> set (fx_worklist ?s)" "(m, f) \<in> set (flows n (fct ?s n))" for n m f
  proof -
    have "fct ?s n = btm"
      using raising_queues [of seeds ?d n] that(1) d by (auto simp: seed_raises)
    then show ?thesis
      using flows_bottom [of m f n] that(2) btm_below by simp
  qed
  have g: "below (fct ?s n) (g n)" if "solution g" for g n
    unfolding seed_raises by (rule raising_below) (use that d btm_below in \<open>auto simp: solution_def\<close>)
  show ?thesis
    unfolding settled_def using w s q g by blast
qed

lemma settled_transfer:
  assumes s: "settled fx" and w: "fx_worklist fx = node # rest"
  shows "settled (transfer node (fx\<lparr>fx_worklist := rest\<rparr>))"
proof -
  let ?fx = "fx\<lparr>fx_worklist := rest\<rparr>"
  let ?fl = "flows node (fct ?fx node)"
  let ?t = "transfer node ?fx"
  have t: "?t = raising ?fl ?fx" by (simp add: transfer_raises)
  have same: "fct ?fx n = fct fx n" for n by (simp add: fact_of_def)
  have node: "node \<in> nodes" "set rest \<subseteq> nodes" using s w by (auto simp: settled_def)
  have grows: "below (fct fx n) (fct ?t n)" for n
    using raising_grows [of ?fx n ?fl] by (simp add: t same)
  have w': "set (fx_worklist ?t) \<subseteq> nodes"
    using raising_queue_bound [of ?fl ?fx] flows_nodes [OF node(1), of "fct ?fx node"] node(2) unfolding t by auto
  have sd: "\<forall>(m, f)\<in>set seeds. below f (fct ?t m)"
    using s grows unfolding settled_def by (fast intro: below_trans)
  have q: "below f (fct ?t m)" if n: "n \<notin> set (fx_worklist ?t)" and f: "(m, f) \<in> set (flows n (fct ?t n))" for n m f
  proof -
    have eq: "fct ?t n = fct fx n"
      using raising_queues [of ?fl ?fx n] n unfolding t same by blast
    show ?thesis
    proof (cases "n = node")
      case True
      then show ?thesis
        using raising_reaches [of m f ?fl ?fx] f eq unfolding t same by simp
    next
      case False
      moreover have "n \<notin> set rest"
        using raising_keeps_queue [of ?fx ?fl] n unfolding t by auto
      ultimately have "below f (fct fx m)"
        using s w f eq unfolding settled_def by auto
      then show ?thesis using grows below_trans by blast
    qed
  qed
  have g: "below (fct ?t n) (g n)" if sol: "solution g" for g n
    unfolding t
  proof (rule raising_below)
    have le: "below (fct fx k) (g k)" for k using s sol by (simp add: settled_def)
    then show "below (fct ?fx k) (g k)" for k by (simp add: same)
    fix m f assume "(m, f) \<in> set ?fl"
    then obtain y where y: "(m, y) \<in> set (flows node (g node))" "below f y"
      using flows_mono [OF le [of node, unfolded below_def]] unfolding same below_def by blast
    have "below y (g m)" using sol y(1) unfolding solution_def by blast
    then show "below f (g m)" using below_trans [OF y(2)] by blast
  qed
  show ?thesis
    unfolding settled_def using w' sd q g by blast
qed

lemma drain_returns: "settled fx \<Longrightarrow> \<exists>fx'. drain transfer fx = Some fx' \<and> settled fx' \<and> fx_worklist fx' = []"
proof (induction "room nodes fx + length (fx_worklist fx)" arbitrary: fx rule: less_induct)
  case less
  show ?case
  proof (cases "fx_worklist fx")
    case Nil
    then show ?thesis using less.prems by (simp add: drain.simps)
  next
    case (Cons node rest)
    let ?fx = "fx\<lparr>fx_worklist := rest\<rparr>"
    have node: "node \<in> nodes" using less.prems Cons by (simp add: settled_def)
    have "room nodes (transfer node ?fx) + length (fx_worklist (transfer node ?fx)) \<le> room nodes ?fx + length rest"
      using raising_room [OF nodes_finite flows_nodes [OF node], of "fct ?fx node" ?fx] by (simp add: transfer_raises)
    moreover have "room nodes ?fx = room nodes fx" by (simp add: room_def fact_of_def)
    ultimately have "room nodes (transfer node ?fx) + length (fx_worklist (transfer node ?fx)) < room nodes fx + length (fx_worklist fx)"
      using Cons by simp
    from less.hyps [OF this settled_transfer [OF less.prems Cons]] show ?thesis
      using Cons by (subst drain.simps) simp
  qed
qed

text \<open>The solver returns the least solution.\<close>

lemma solve_least:
  "\<exists>fx. solve_facts seed transfer = Some fx \<and> solution (fct fx) \<and> (\<forall>g n. solution g \<longrightarrow> below (fct fx n) (g n))"
proof -
  obtain fx where fx: "drain transfer (seed facts_default) = Some fx" "settled fx" "fx_worklist fx = []"
    using drain_returns [OF settled_seed] by blast
  then show ?thesis
    unfolding solve_facts_def solution_def settled_def by (intro exI [of _ fx]) simp
qed

end

end
