(* ===== verification/Escape.thy ===== *)
theory Escape
  imports DataFlow
begin

text \<open>
  The escape analysis (\<open>core/src/analysis/escape_facts.rs\<close>) and the stack slots that read it
  (\<open>core/src/analysis/slots.rs\<close>). The IR is read through a context: the operations of the function, the
  operation that defines a value, and which values are pointers. The verdict on a pointer is the worst use
  of any pointer derived from it, and a slot that does not escape is touched by its collected accesses only.
\<close>

subsection \<open>Verdicts\<close>

datatype Escape = Local | Captured | Escapes

fun escape_rank :: "Escape \<Rightarrow> nat" where
  "escape_rank Local = 0"
| "escape_rank Captured = 1"
| "escape_rank Escapes = 2"

instantiation Escape :: linorder
begin

definition less_eq_Escape :: "Escape \<Rightarrow> Escape \<Rightarrow> bool" where
  "less_eq_Escape a b \<longleftrightarrow> escape_rank a \<le> escape_rank b"

definition less_Escape :: "Escape \<Rightarrow> Escape \<Rightarrow> bool" where
  "less_Escape a b \<longleftrightarrow> escape_rank a < escape_rank b"

instance
proof
  fix a b :: Escape
  show "a \<le> b \<Longrightarrow> b \<le> a \<Longrightarrow> a = b"
    by (cases a; cases b) (simp_all add: less_eq_Escape_def)
qed (auto simp: less_eq_Escape_def less_Escape_def)

end

definition escape_join :: "Escape \<Rightarrow> Escape \<Rightarrow> Escape" where
  "escape_join a b = max a b"

interpretation esc_lattice: fact_lattice Local escape_join escape_rank 2
proof
  fix x y z :: Escape
  have l: "Local \<le> x" by (simp add: less_eq_Escape_def)
  then show "escape_join Local x = x" by (simp add: escape_join_def max_def)
  show "escape_join (escape_join x y) z = escape_join x (escape_join y z)" by (simp add: escape_join_def max.assoc)
  show "escape_join x y = escape_join y x" by (simp add: escape_join_def max.commute)
  show "escape_join x x = x" by (simp add: escape_join_def)
  show "escape_join x y \<noteq> x \<Longrightarrow> escape_rank x < escape_rank (escape_join x y)"
    by (cases x; cases y) (auto simp: escape_join_def max_def less_eq_Escape_def)
  show "escape_rank x \<le> 2" by (cases x) simp_all
qed

subsection \<open>The analysis\<close>

text \<open>An operation as the analyses see it: whether it is pointer arithmetic (with its base), a comparison, an
  allocation, and the memory access it declares.\<close>

datatype EscKind = PtrAddKind nat | CmpKind | OtherKind

record MemAccess =
  ma_location :: nat
  ma_value :: nat
  ma_write :: bool

record EscOp =
  eo_kind :: EscKind
  eo_access :: "MemAccess option"
  eo_value_operands :: "nat list"
  eo_region_results :: "nat list"
  eo_allocates :: "nat option"

record EscContext =
  ec_ops :: "EscOp list"
  ec_defs :: "(nat \<times> EscOp) list"
  ec_pointers :: "nat list"

definition is_pointer :: "EscContext \<Rightarrow> nat \<Rightarrow> bool" where
  "is_pointer c v \<longleftrightarrow> v \<in> set (ec_pointers c)"

definition use_of :: "EscOp \<Rightarrow> nat \<Rightarrow> Escape" where
  "use_of op v =
     (case eo_kind op of
        PtrAddKind _ \<Rightarrow> Local
      | CmpKind \<Rightarrow> Local
      | OtherKind \<Rightarrow>
          (case eo_access op of
             None \<Rightarrow> Escapes
           | Some a \<Rightarrow>
               if ma_write a \<and> ma_value a = v then Captured
               else if ma_location a = v then Local
               else Escapes))"

type_synonym escape_table = "(nat, Escape) Facts"

definition escape_seed_op :: "EscContext \<Rightarrow> EscOp \<Rightarrow> escape_table \<Rightarrow> escape_table" where
  "escape_seed_op c op fx =
     (let fx = fold (\<lambda>v fx. if is_pointer c v then raise_fact Local escape_join v (use_of op v) fx else fx) (eo_value_operands op) fx
      in fold (\<lambda>v fx. if is_pointer c v then raise_fact Local escape_join v Escapes fx else fx) (eo_region_results op) fx)"

definition escape_seed :: "EscContext \<Rightarrow> escape_table \<Rightarrow> escape_table" where
  "escape_seed c fx = fold (escape_seed_op c) (ec_ops c) fx"

definition escape_transfer :: "EscContext \<Rightarrow> nat \<Rightarrow> escape_table \<Rightarrow> escape_table" where
  "escape_transfer c v fx =
     (case map_of (ec_defs c) v of
        None \<Rightarrow> fx
      | Some op \<Rightarrow>
          (case eo_kind op of
             PtrAddKind base \<Rightarrow> raise_fact Local escape_join base (fact_of Local fx v) fx
           | _ \<Rightarrow> fx))"

definition escape_facts :: "EscContext \<Rightarrow> escape_table option" where
  "escape_facts c = solve_facts (escape_seed c) (escape_transfer c)"

definition escape_of :: "escape_table \<Rightarrow> nat \<Rightarrow> Escape" where
  "escape_of fx pointer = fact_of Local fx pointer"

subsection \<open>The analysis as a domain\<close>

definition op_uses :: "EscContext \<Rightarrow> EscOp \<Rightarrow> (nat \<times> Escape) list" where
  "op_uses c op =
     map (\<lambda>v. (v, use_of op v)) (filter (is_pointer c) (eo_value_operands op)) @
     map (\<lambda>v. (v, Escapes)) (filter (is_pointer c) (eo_region_results op))"

definition uses :: "EscContext \<Rightarrow> (nat \<times> Escape) list" where
  "uses c = concat (map (op_uses c) (ec_ops c))"

definition base_of :: "EscContext \<Rightarrow> nat \<Rightarrow> nat option" where
  "base_of c v =
     (case map_of (ec_defs c) v of
        None \<Rightarrow> None
      | Some op \<Rightarrow> (case eo_kind op of PtrAddKind base \<Rightarrow> Some base | _ \<Rightarrow> None))"

definition escape_flows :: "EscContext \<Rightarrow> nat \<Rightarrow> Escape \<Rightarrow> (nat \<times> Escape) list" where
  "escape_flows c v e = (case base_of c v of None \<Rightarrow> [] | Some base \<Rightarrow> [(base, e)])"

definition escape_nodes :: "EscContext \<Rightarrow> nat set" where
  "escape_nodes c = fst ` set (uses c) \<union> {base. \<exists>v\<in>fst ` set (ec_defs c). base_of c v = Some base}"

lemma fold_filter_raise:
  "fold (\<lambda>v fx. if P v then raise_fact Local escape_join v (f v) fx else fx) vs fx =
   fold (\<lambda>(m, e). raise_fact Local escape_join m e) (map (\<lambda>v. (v, f v)) (filter P vs)) fx"
  by (induction vs arbitrary: fx) simp_all

lemma fold_concat_map: "fold f (concat (map g xs)) s = fold (\<lambda>x. fold f (g x)) xs s"
  by (induction xs arbitrary: s) simp_all

lemma escape_seed_raises: "escape_seed c fx = fold (\<lambda>(m, e). raise_fact Local escape_join m e) (uses c) fx"
proof -
  have "escape_seed_op c op fx = fold (\<lambda>(m, e). raise_fact Local escape_join m e) (op_uses c op) fx" for op fx
    by (simp add: escape_seed_op_def op_uses_def fold_filter_raise Let_def)
  then have "escape_seed c fx = fold (\<lambda>op. fold (\<lambda>(m, e). raise_fact Local escape_join m e) (op_uses c op)) (ec_ops c) fx"
    unfolding escape_seed_def by (intro fold_cong) (auto simp: fun_eq_iff)
  also have "\<dots> = fold (\<lambda>(m, e). raise_fact Local escape_join m e) (uses c) fx"
    unfolding uses_def by (rule fold_concat_map [symmetric])
  finally show ?thesis .
qed

interpretation esc: fact_domain Local escape_join escape_rank 2
  "escape_seed c" "escape_transfer c" "uses c" "escape_flows c" "escape_nodes c" for c
proof
  show "escape_seed c fx = fold (\<lambda>(m, f). raise_fact Local escape_join m f) (uses c) fx" for fx
    by (rule escape_seed_raises)
  show "escape_transfer c n fx = fold (\<lambda>(m, f). raise_fact Local escape_join m f) (escape_flows c n (fact_of Local fx n)) fx" for n fx
    by (auto simp: escape_transfer_def escape_flows_def base_of_def split: option.splits EscKind.splits)
  have "{base. \<exists>v\<in>fst ` set (ec_defs c). base_of c v = Some base} \<subseteq> (\<lambda>v. the (base_of c v)) ` fst ` set (ec_defs c)"
    by force
  then have "finite {base. \<exists>v\<in>fst ` set (ec_defs c). base_of c v = Some base}"
    by (rule finite_subset) simp
  then show "finite (escape_nodes c)"
    by (simp add: escape_nodes_def)
  show "fst ` set (uses c) \<subseteq> escape_nodes c"
    by (simp add: escape_nodes_def)
  show "fst ` set (escape_flows c n f) \<subseteq> escape_nodes c" for n f
  proof (cases "base_of c n")
    case (Some base)
    then have "n \<in> fst ` set (ec_defs c)"
      by (force simp: base_of_def split: option.splits dest: map_of_SomeD)
    then show ?thesis
      using Some by (auto simp: escape_flows_def escape_nodes_def)
  qed (simp add: escape_flows_def)
  show "(m, f) \<in> set (escape_flows c n Local) \<Longrightarrow> f = Local" for m f n
    by (auto simp: escape_flows_def split: option.splits)
  show "\<lbrakk>escape_join f g = g; (m, x) \<in> set (escape_flows c n f)\<rbrakk> \<Longrightarrow> \<exists>y. (m, y) \<in> set (escape_flows c n g) \<and> escape_join x y = y" for f g m x n
    by (auto simp: escape_flows_def split: option.splits)
qed

subsection \<open>The verdict is the worst use of a derived pointer\<close>

text \<open>\<open>derived c q p\<close>: the pointer \<open>q\<close> is \<open>p\<close> itself or reaches it down the \<open>ptradd\<close> chain.\<close>

inductive derived :: "EscContext \<Rightarrow> nat \<Rightarrow> nat \<Rightarrow> bool" for c where
  derived_self: "derived c p p"
| derived_ptradd: "\<lbrakk>base_of c q = Some b; derived c b p\<rbrakk> \<Longrightarrow> derived c q p"

lemma derived_trans_base: "\<lbrakk>derived c q p; base_of c p = Some b\<rbrakk> \<Longrightarrow> derived c q b"
  by (induction rule: derived.induct) (auto intro: derived.intros)

lemma below_le: "esc_lattice.below x y \<longleftrightarrow> x \<le> y"
  by (auto simp: esc_lattice.below_def escape_join_def max_def)

lemma Local_least [simp]: "Local \<le> x"
  by (simp add: less_eq_Escape_def)

lemma escape_solution:
  "esc.solution c g \<longleftrightarrow> (\<forall>(m, f)\<in>set (uses c). f \<le> g m) \<and> (\<forall>n b. base_of c n = Some b \<longrightarrow> g n \<le> g b)"
  unfolding esc.solution_def by (auto simp: escape_flows_def below_le split: option.splits)

text \<open>The worst use as a function, to be compared with what the solver leaves.\<close>

definition reaches_use :: "EscContext \<Rightarrow> nat \<Rightarrow> Escape \<Rightarrow> bool" where
  "reaches_use c p e \<longleftrightarrow> (\<exists>q f. derived c q p \<and> (q, f) \<in> set (uses c) \<and> e \<le> f)"

definition worst_use :: "EscContext \<Rightarrow> nat \<Rightarrow> Escape" where
  "worst_use c p = (if reaches_use c p Escapes then Escapes else if reaches_use c p Captured then Captured else Local)"

lemma reaches_use_mono: "\<lbrakk>reaches_use c p e; e' \<le> e\<rbrakk> \<Longrightarrow> reaches_use c p e'"
  unfolding reaches_use_def by (meson order_trans)

lemma le_worst_use: "e \<le> worst_use c p \<longleftrightarrow> e = Local \<or> reaches_use c p e"
proof -
  have "reaches_use c p Escapes \<Longrightarrow> reaches_use c p Captured"
    by (erule reaches_use_mono) (simp add: less_eq_Escape_def)
  then show ?thesis
    by (cases e) (auto simp: worst_use_def less_eq_Escape_def)
qed

lemma worst_use_solution: "esc.solution c (worst_use c)"
  unfolding escape_solution
proof (intro conjI ballI allI impI, clarify)
  fix m f assume "(m, f) \<in> set (uses c)"
  then have "reaches_use c m f"
    unfolding reaches_use_def by (meson derived_self order_refl)
  then show "f \<le> worst_use c m" by (simp add: le_worst_use)
next
  fix n b assume b: "base_of c n = Some b"
  have "reaches_use c n e \<Longrightarrow> reaches_use c b e" for e
    unfolding reaches_use_def using derived_trans_base [OF _ b] by blast
  moreover have "worst_use c n = Local \<or> reaches_use c n (worst_use c n)"
    using le_worst_use [of "worst_use c n" c n] by simp
  ultimately show "worst_use c n \<le> worst_use c b"
    using le_worst_use [of "worst_use c n" c b] by auto
qed

lemma worst_use_least: "esc.solution c g \<Longrightarrow> worst_use c p \<le> g p"
proof -
  assume g: "esc.solution c g"
  have up: "derived c q p' \<Longrightarrow> g q \<le> g p'" for q p'
    by (induction rule: derived.induct) (use g in \<open>auto simp: escape_solution intro: order_trans\<close>)
  have "worst_use c p = Local \<or> reaches_use c p (worst_use c p)"
    using le_worst_use [of "worst_use c p" c p] by simp
  then show ?thesis
  proof
    assume "reaches_use c p (worst_use c p)"
    then obtain q f where "derived c q p" "(q, f) \<in> set (uses c)" "worst_use c p \<le> f"
      unfolding reaches_use_def by blast
    moreover from this have "f \<le> g q" using g by (auto simp: escape_solution)
    ultimately show ?thesis using up by (meson order_trans)
  qed simp
qed

lemma escape_facts_worst: "\<exists>fx. escape_facts c = Some fx \<and> (\<forall>p. escape_of fx p = worst_use c p)"
proof -
  obtain fx where fx: "solve_facts (escape_seed c) (escape_transfer c) = Some fx"
      "esc.solution c (fact_of Local fx)"
      "\<And>g n. esc.solution c g \<Longrightarrow> esc_lattice.below (fact_of Local fx n) (g n)"
    using esc.solve_least [of c] by blast
  have "escape_of fx p = worst_use c p" for p
    using fx(3) [OF worst_use_solution, of p] worst_use_least [OF fx(2), of p]
    by (simp add: escape_of_def below_le)
  then show ?thesis using fx(1) by (auto simp: escape_facts_def)
qed

text \<open>C18: the escape analysis returns on every function, and the verdict it leaves on a pointer is at least
  \<open>e\<close> exactly when \<open>e\<close> is \<open>Local\<close> or some pointer derived from it through any chain of \<open>ptradd\<close> has a use
  that is at least as bad as \<open>e\<close>: the verdict is the worst use of any derived pointer, neither missing a use
  nor inventing one.\<close>

theorem escape_worst_use:
  "\<exists>fx. escape_facts c = Some fx \<and>
     (\<forall>p e. e \<le> escape_of fx p \<longleftrightarrow> e = Local \<or> (\<exists>q f. derived c q p \<and> (q, f) \<in> set (uses c) \<and> e \<le> f))"
  using escape_facts_worst [of c] by (auto simp: le_worst_use reaches_use_def)

subsection \<open>Stack slots\<close>

record SlotState =
  ss_alloca :: "nat option"
  ss_stores :: "nat list"
  ss_loads :: "nat list"
  ss_escapes :: bool

definition slot_default :: SlotState where
  "slot_default = \<lparr>ss_alloca = None, ss_stores = [], ss_loads = [], ss_escapes = False\<rparr>"

type_synonym slots = "nat \<Rightarrow> SlotState option"

text \<open>The walk down the \<open>ptradd\<close> chain, which does not return on a cyclic one.\<close>

partial_function (option) slot_base :: "EscContext \<Rightarrow> nat \<Rightarrow> nat option" where
  [code]: "slot_base c base =
     (case base_of c base of
        None \<Rightarrow> Some base
      | Some b \<Rightarrow> slot_base c b)"

definition open_slot :: "escape_table \<Rightarrow> nat \<times> EscOp \<Rightarrow> slots \<Rightarrow> slots" where
  "open_slot fx io sl =
     (case eo_allocates (snd io) of
        None \<Rightarrow> sl
      | Some pointer \<Rightarrow>
          (let slot = (case sl pointer of None \<Rightarrow> slot_default | Some st \<Rightarrow> st)
           in sl(pointer \<mapsto> slot\<lparr>ss_alloca := Some (fst io), ss_escapes := (escape_of fx pointer \<noteq> Local)\<rparr>)))"

definition push_access :: "nat \<Rightarrow> MemAccess \<Rightarrow> SlotState \<Rightarrow> SlotState" where
  "push_access i a st =
     (if ma_write a then st\<lparr>ss_stores := ss_stores st @ [i]\<rparr> else st\<lparr>ss_loads := ss_loads st @ [i]\<rparr>)"

fun collect_accesses :: "EscContext \<Rightarrow> (nat \<times> EscOp) list \<Rightarrow> slots \<Rightarrow> slots option" where
  "collect_accesses c [] sl = Some sl"
| "collect_accesses c ((i, op) # ops) sl =
     (if eo_allocates op \<noteq> None then collect_accesses c ops sl
      else case eo_access op of
        None \<Rightarrow> collect_accesses c ops sl
      | Some a \<Rightarrow>
          (case slot_base c (ma_location a) of
             None \<Rightarrow> None
           | Some b \<Rightarrow>
               (case sl b of
                  None \<Rightarrow> collect_accesses c ops sl
                | Some st \<Rightarrow> collect_accesses c ops (sl(b \<mapsto> push_access i a st)))))"

definition collect_slots :: "EscContext \<Rightarrow> escape_table \<Rightarrow> (nat \<times> EscOp) list \<Rightarrow> slots option" where
  "collect_slots c fx ops = collect_accesses c ops (fold (open_slot fx) ops (\<lambda>_. None))"

text \<open>The type a collected access names; \<open>None\<close> is the panic of \<open>expect\<close>. The types are read in order and no
  further than the first that differs.\<close>

definition named_type :: "(nat \<Rightarrow> 't) \<Rightarrow> (nat \<times> EscOp) list \<Rightarrow> nat \<Rightarrow> 't option" where
  "named_type ty ops i = Option.bind (map_of ops i) (\<lambda>op. map_option (\<lambda>a. ty (ma_value a)) (eo_access op))"

fun all_named :: "(nat \<Rightarrow> 't) \<Rightarrow> (nat \<times> EscOp) list \<Rightarrow> 't \<Rightarrow> nat list \<Rightarrow> bool option" where
  "all_named ty ops t [] = Some True"
| "all_named ty ops t (i # is) =
     (case named_type ty ops i of
        None \<Rightarrow> None
      | Some other \<Rightarrow> if other = t then all_named ty ops t is else Some False)"

definition agreed_value_type :: "(nat \<Rightarrow> 't) \<Rightarrow> (nat \<times> EscOp) list \<Rightarrow> SlotState \<Rightarrow> 't option option" where
  "agreed_value_type ty ops st =
     (case ss_loads st @ ss_stores st of
        [] \<Rightarrow> Some None
      | i # is \<Rightarrow>
          (case named_type ty ops i of
             None \<Rightarrow> None
           | Some t \<Rightarrow> map_option (\<lambda>b. if b then Some t else None) (all_named ty ops t is)))"

subsection \<open>A slot lists the accesses of every pointer derived from it\<close>

lemma slot_base_root:
  assumes rank: "\<And>v b. base_of c v = Some b \<Longrightarrow> rank b < (rank v :: nat)"
  shows "\<exists>r. slot_base c q = Some r \<and> derived c q r \<and> base_of c r = None"
proof (induction "rank q" arbitrary: q rule: less_induct)
  case less
  show ?case
  proof (cases "base_of c q")
    case None
    then show ?thesis by (simp add: slot_base.simps derived_self)
  next
    case (Some b)
    from less.hyps [OF rank [OF Some]] show ?thesis
      using Some by (subst slot_base.simps) (auto intro: derived_ptradd)
  qed
qed

lemma derived_root: "\<lbrakk>derived c q p; base_of c p = None\<rbrakk> \<Longrightarrow> slot_base c q = Some p"
  by (induction rule: derived.induct) (simp_all add: slot_base.simps)

lemma slot_base_derived:
  assumes rank: "\<And>v b. base_of c v = Some b \<Longrightarrow> rank b < (rank v :: nat)" and p: "base_of c p = None"
  shows "slot_base c q = Some p \<longleftrightarrow> derived c q p"
  using slot_base_root [of c rank q, OF rank] derived_root [OF _ p] by fastforce

definition accesses_slot :: "EscContext \<Rightarrow> bool \<Rightarrow> nat \<Rightarrow> EscOp \<Rightarrow> bool" where
  "accesses_slot c w p op \<longleftrightarrow>
     eo_allocates op = None \<and>
     (case eo_access op of None \<Rightarrow> False | Some a \<Rightarrow> ma_write a = w \<and> slot_base c (ma_location a) = Some p)"

lemma collect_accesses_exact:
  assumes base: "\<And>q. slot_base c q \<noteq> None"
  shows "\<exists>sl'. collect_accesses c ops sl = Some sl' \<and>
    (\<forall>p. sl' p = map_option (\<lambda>st. st
       \<lparr>ss_stores := ss_stores st @ map fst (filter (\<lambda>io. accesses_slot c True p (snd io)) ops),
        ss_loads := ss_loads st @ map fst (filter (\<lambda>io. accesses_slot c False p (snd io)) ops)\<rparr>) (sl p))"
proof (induction ops arbitrary: sl)
  case Nil
  then show ?case by (simp add: option.map_ident)
next
  case (Cons io ops)
  obtain i op where io: "io = (i, op)" by fastforce
  show ?case
  proof (cases "eo_allocates op = None \<and> eo_access op \<noteq> None")
    case False
    then have "collect_accesses c (io # ops) sl = collect_accesses c ops sl" "\<not> accesses_slot c w p op" for w p
      unfolding io by (auto simp: accesses_slot_def)
    then show ?thesis using Cons.IH [of sl] by (simp add: io)
  next
    case True
    then obtain a where a: "eo_allocates op = None" "eo_access op = Some a" by blast
    obtain b where b: "slot_base c (ma_location a) = Some b" using base by blast
    let ?sl = "case sl b of None \<Rightarrow> sl | Some st \<Rightarrow> sl(b \<mapsto> push_access i a st)"
    have step: "collect_accesses c (io # ops) sl = collect_accesses c ops ?sl"
      unfolding io by (simp add: a b split: option.splits)
    have acc: "accesses_slot c w p op \<longleftrightarrow> ma_write a = w \<and> p = b" for w p
      using a b by (auto simp: accesses_slot_def)
    have sl: "?sl p = (if p = b then map_option (push_access i a) (sl p) else sl p)" for p
      by (cases "sl b") simp_all
    from Cons.IH [of ?sl] obtain sl' where "collect_accesses c ops ?sl = Some sl'"
      and sl': "sl' p = map_option (\<lambda>st. st
         \<lparr>ss_stores := ss_stores st @ map fst (filter (\<lambda>io. accesses_slot c True p (snd io)) ops),
          ss_loads := ss_loads st @ map fst (filter (\<lambda>io. accesses_slot c False p (snd io)) ops)\<rparr>) (?sl p)" for p
      by blast
    moreover have "sl' p = map_option (\<lambda>st. st
         \<lparr>ss_stores := ss_stores st @ map fst (filter (\<lambda>io. accesses_slot c True p (snd io)) (io # ops)),
          ss_loads := ss_loads st @ map fst (filter (\<lambda>io. accesses_slot c False p (snd io)) (io # ops))\<rparr>) (sl p)" for p
      unfolding sl' sl by (cases "sl p"; cases "p = b") (auto simp: io acc push_access_def)
    ultimately show ?thesis unfolding step by blast
  qed
qed

text \<open>A slot just opened has no accesses and the verdict of its pointer.\<close>

definition fresh_slots :: "escape_table \<Rightarrow> slots \<Rightarrow> bool" where
  "fresh_slots fx sl \<longleftrightarrow>
     (\<forall>p st. sl p = Some st \<longrightarrow> ss_stores st = [] \<and> ss_loads st = [] \<and> ss_escapes st = (escape_of fx p \<noteq> Local))"

lemma fresh_open: "fresh_slots fx sl \<Longrightarrow> fresh_slots fx (fold (open_slot fx) ops sl)"
proof (induction ops arbitrary: sl)
  case (Cons io ops)
  have "fresh_slots fx (open_slot fx io sl)"
    using Cons.prems by (auto simp: fresh_slots_def open_slot_def slot_default_def Let_def split: option.splits)
  then show ?case using Cons.IH by simp
qed simp

lemma opened_dom: "dom (fold (open_slot fx) ops sl) = dom sl \<union> {p. \<exists>io\<in>set ops. eo_allocates (snd io) = Some p}"
proof (induction ops arbitrary: sl)
  case (Cons io ops)
  have "dom (open_slot fx io sl) = dom sl \<union> {p. eo_allocates (snd io) = Some p}"
    by (auto simp: open_slot_def Let_def split: option.splits)
  then show ?case by (auto simp: Cons.IH)
qed simp

lemma collect_slots_exact:
  assumes rank: "\<And>v b. base_of c v = Some b \<Longrightarrow> rank b < (rank v :: nat)"
  shows "\<exists>sl. collect_slots c fx ops = Some sl \<and> dom sl = {p. \<exists>io\<in>set ops. eo_allocates (snd io) = Some p} \<and>
    (\<forall>p st. sl p = Some st \<longrightarrow>
       ss_stores st = map fst (filter (\<lambda>io. accesses_slot c True p (snd io)) ops) \<and>
       ss_loads st = map fst (filter (\<lambda>io. accesses_slot c False p (snd io)) ops) \<and>
       ss_escapes st = (escape_of fx p \<noteq> Local))"
proof -
  let ?sl = "fold (open_slot fx) ops (\<lambda>_. None)"
  have base: "slot_base c q \<noteq> None" for q
    using slot_base_root [of c rank q, OF rank] by auto
  have fresh: "fresh_slots fx ?sl"
    by (rule fresh_open) (simp add: fresh_slots_def)
  obtain sl where sl: "collect_accesses c ops ?sl = Some sl"
    "\<And>p. sl p = map_option (\<lambda>st. st
       \<lparr>ss_stores := ss_stores st @ map fst (filter (\<lambda>io. accesses_slot c True p (snd io)) ops),
        ss_loads := ss_loads st @ map fst (filter (\<lambda>io. accesses_slot c False p (snd io)) ops)\<rparr>) (?sl p)"
    using collect_accesses_exact [of c ops ?sl, OF base] by blast
  have "dom sl = dom ?sl"
    by (auto simp: sl(2) dom_def)
  then have "dom sl = {p. \<exists>io\<in>set ops. eo_allocates (snd io) = Some p}"
    by (simp add: opened_dom)
  moreover have "ss_stores st = map fst (filter (\<lambda>io. accesses_slot c True p (snd io)) ops) \<and>
       ss_loads st = map fst (filter (\<lambda>io. accesses_slot c False p (snd io)) ops) \<and>
       ss_escapes st = (escape_of fx p \<noteq> Local)" if "sl p = Some st" for p st
    using that fresh unfolding sl(2) fresh_slots_def by auto
  ultimately show ?thesis
    using sl(1) by (auto simp: collect_slots_def)
qed

lemma collected_access:
  assumes rank: "\<And>v b. base_of c v = Some b \<Longrightarrow> rank b < (rank v :: nat)" and p: "base_of c p = None"
  shows "accesses_slot c w p op \<longleftrightarrow>
    eo_allocates op = None \<and> (\<exists>a. eo_access op = Some a \<and> ma_write a = w \<and> derived c (ma_location a) p)"
  by (auto simp: accesses_slot_def slot_base_derived [of c rank, OF rank p] split: option.splits)

lemma local_pointer_use:
  assumes fx: "escape_facts c = Some fx" and l: "escape_of fx p = Local" and q: "derived c q p"
  shows "(q, f) \<in> set (uses c) \<Longrightarrow> f = Local"
proof -
  assume "(q, f) \<in> set (uses c)"
  then have "reaches_use c p f" using q unfolding reaches_use_def by blast
  moreover have "worst_use c p = Local" using escape_facts_worst [of c] fx l by auto
  ultimately have "f \<le> Local" using le_worst_use [of f c p] by simp
  then show "f = Local" by (simp add: antisym)
qed

lemma use_in_uses:
  assumes "op \<in> set (ec_ops c)" "is_pointer c q"
  shows "q \<in> set (eo_value_operands op) \<Longrightarrow> (q, use_of op q) \<in> set (uses c)"
    and "q \<in> set (eo_region_results op) \<Longrightarrow> (q, Escapes) \<in> set (uses c)"
  using assms by (auto simp: uses_def op_uses_def)

text \<open>C19: a slot that does not escape is touched only by what was collected for it. When pointers are
  computed in SSA order the collection returns; and of a slot whose pointer is not itself a \<open>ptradd\<close> and whose
  escape flag is clear, every operation of the function that is among those collected from and that takes a
  pointer derived from the slot is pointer arithmetic, a comparison, or a load or store that only names the
  pointer as its location and is listed among the slot's loads or stores; no region gives such a pointer as
  its result.\<close>

theorem nonescaping_slot_accesses:
  assumes rank: "\<forall>v b. base_of c v = Some b \<longrightarrow> rank b < (rank v :: nat)"
    and fx: "escape_facts c = Some fx"
  shows "\<exists>sl. collect_slots c fx ops = Some sl \<and>
    (\<forall>p st i op q.
       sl p = Some st \<and> \<not> ss_escapes st \<and> base_of c p = None \<and>
       (i, op) \<in> set ops \<and> op \<in> set (ec_ops c) \<and> eo_allocates op = None \<and> is_pointer c q \<and> derived c q p \<longrightarrow>
       q \<notin> set (eo_region_results op) \<and>
       (q \<in> set (eo_value_operands op) \<longrightarrow>
          eo_kind op \<noteq> OtherKind \<or>
          (\<exists>a. eo_access op = Some a \<and> ma_location a = q \<and> (ma_write a \<longrightarrow> ma_value a \<noteq> q) \<and>
               i \<in> set (if ma_write a then ss_stores st else ss_loads st))))"
proof -
  have r: "base_of c v = Some b \<Longrightarrow> rank b < rank v" for v b using rank by blast
  obtain sl where sl: "collect_slots c fx ops = Some sl"
    and st: "\<And>p st. sl p = Some st \<Longrightarrow>
       ss_stores st = map fst (filter (\<lambda>io. accesses_slot c True p (snd io)) ops) \<and>
       ss_loads st = map fst (filter (\<lambda>io. accesses_slot c False p (snd io)) ops) \<and>
       ss_escapes st = (escape_of fx p \<noteq> Local)"
    using collect_slots_exact [of c rank fx ops, OF r] by blast
  have "q \<notin> set (eo_region_results op) \<and>
       (q \<in> set (eo_value_operands op) \<longrightarrow>
          eo_kind op \<noteq> OtherKind \<or>
          (\<exists>a. eo_access op = Some a \<and> ma_location a = q \<and> (ma_write a \<longrightarrow> ma_value a \<noteq> q) \<and>
               i \<in> set (if ma_write a then ss_stores st else ss_loads st)))"
    if h: "sl p = Some st" "\<not> ss_escapes st" "base_of c p = None" "(i, op) \<in> set ops" "op \<in> set (ec_ops c)"
      "eo_allocates op = None" "is_pointer c q" "derived c q p" for p st i op q
  proof -
    have only_local: "(q, f) \<in> set (uses c) \<Longrightarrow> f = Local" for f
      using local_pointer_use [OF fx _ h(8)] st [OF h(1)] h(2) by blast
    have "q \<notin> set (eo_region_results op)"
      using use_in_uses(2) [OF h(5,7)] only_local [of Escapes] by auto
    moreover have "\<exists>a. eo_access op = Some a \<and> ma_location a = q \<and> (ma_write a \<longrightarrow> ma_value a \<noteq> q) \<and>
               i \<in> set (if ma_write a then ss_stores st else ss_loads st)"
      if operand: "q \<in> set (eo_value_operands op)" and other: "eo_kind op = OtherKind"
    proof -
      have "use_of op q = Local"
        using use_in_uses(1) [OF h(5,7) operand] only_local by blast
      then obtain a where a: "eo_access op = Some a" "ma_location a = q" "ma_write a \<longrightarrow> ma_value a \<noteq> q"
        using other by (auto simp: use_of_def split: option.splits if_splits)
      then have "accesses_slot c (ma_write a) p op"
        using h(6,8) by (auto simp: collected_access [of c rank, OF r h(3)])
      then show ?thesis
        using a st [OF h(1)] h(4) by force
    qed
    ultimately show ?thesis by blast
  qed
  then show ?thesis using sl by blast
qed

lemma all_named_iff:
  assumes "\<And>i. i \<in> set is \<Longrightarrow> named_type ty ops i \<noteq> None"
  shows "all_named ty ops t is = Some (\<forall>i\<in>set is. named_type ty ops i = Some t)"
  using assms by (induction "is") fastforce+

lemma agreed_iff:
  assumes named: "\<And>i. i \<in> set (ss_loads st @ ss_stores st) \<Longrightarrow> named_type ty ops i \<noteq> None"
  shows "\<exists>r. agreed_value_type ty ops st = Some r \<and>
    (\<forall>t. r = Some t \<longleftrightarrow> (\<lambda>i. the (named_type ty ops i)) ` set (ss_loads st @ ss_stores st) = {t})"
proof (cases "ss_loads st @ ss_stores st")
  case (Cons i "is")
  obtain t where t: "named_type ty ops i = Some t" using named Cons by fastforce
  have "all_named ty ops t is = Some (\<forall>i\<in>set is. named_type ty ops i = Some t)"
    by (rule all_named_iff) (use named Cons in auto)
  moreover have "(\<forall>i\<in>set is. named_type ty ops i = Some t) \<longleftrightarrow> (\<forall>i\<in>set is. the (named_type ty ops i) = t)"
    using named Cons by fastforce
  ultimately show ?thesis
    unfolding agreed_value_type_def Cons using t by auto
qed (auto simp: agreed_value_type_def)

text \<open>C40: over the slots collected from operations with distinct ids, the reading of the agreed value type
  never hits its \<open>expect\<close>, and it gives a type exactly when the values that loads and stores through pointers
  derived from the slot name have that one type: none when they disagree or when nothing accesses the slot.\<close>

theorem agreed_type_never_panics:
  assumes rank: "\<forall>v b. base_of c v = Some b \<longrightarrow> rank b < (rank v :: nat)"
    and ids: "distinct (map fst ops)"
    and sl: "collect_slots c fx ops = Some sl" "sl p = Some st" "base_of c p = None"
  shows "\<exists>r. agreed_value_type ty ops st = Some r \<and>
    (\<forall>t. r = Some t \<longleftrightarrow>
       {ty (ma_value a) | i op a. (i, op) \<in> set ops \<and> eo_allocates op = None \<and> eo_access op = Some a \<and>
                                  derived c (ma_location a) p} = {t})"
proof -
  have r: "base_of c v = Some b \<Longrightarrow> rank b < rank v" for v b using rank by blast
  have lists: "ss_stores st = map fst (filter (\<lambda>io. accesses_slot c True p (snd io)) ops)"
      "ss_loads st = map fst (filter (\<lambda>io. accesses_slot c False p (snd io)) ops)"
    using collect_slots_exact [of c rank fx ops, OF r] sl(1,2) by auto
  have named: "named_type ty ops i = Some (ty (ma_value a))" if "(i, op) \<in> set ops" "eo_access op = Some a" for i op a
    using that ids by (simp add: named_type_def)
  have mem: "i \<in> set (ss_loads st @ ss_stores st) \<longleftrightarrow>
    (\<exists>op a. (i, op) \<in> set ops \<and> eo_allocates op = None \<and> eo_access op = Some a \<and> derived c (ma_location a) p)" for i
    unfolding lists by (force simp: collected_access [of c rank, OF r sl(3)])
  have "(\<lambda>i. the (named_type ty ops i)) ` set (ss_loads st @ ss_stores st) =
    {ty (ma_value a) | i op a. (i, op) \<in> set ops \<and> eo_allocates op = None \<and> eo_access op = Some a \<and>
                               derived c (ma_location a) p}"
    unfolding image_def Bex_def mem using named by fastforce
  moreover have "named_type ty ops i \<noteq> None" if "i \<in> set (ss_loads st @ ss_stores st)" for i
    using that named unfolding mem by fastforce
  ultimately show ?thesis
    using agreed_iff [of st ty ops] by simp
qed

subsection \<open>A function with one local and one escaping allocation\<close>

text \<open>Values 1 and 2 are allocated; 3 is a \<open>ptradd\<close> of 1 that is stored through, 1 is loaded from, and 2 is
  passed to a call.\<close>

definition demo_op :: "EscKind \<Rightarrow> MemAccess option \<Rightarrow> nat list \<Rightarrow> nat option \<Rightarrow> EscOp" where
  "demo_op k a vs al = \<lparr>eo_kind = k, eo_access = a, eo_value_operands = vs, eo_region_results = [], eo_allocates = al\<rparr>"

definition demo_ops :: "(nat \<times> EscOp) list" where
  "demo_ops =
    [(10, demo_op OtherKind None [] (Some 1)),
     (11, demo_op OtherKind None [] (Some 2)),
     (12, demo_op (PtrAddKind 1) None [1, 7] None),
     (13, demo_op OtherKind (Some \<lparr>ma_location = 3, ma_value = 8, ma_write = True\<rparr>) [8, 3] None),
     (14, demo_op OtherKind (Some \<lparr>ma_location = 1, ma_value = 4, ma_write = False\<rparr>) [1] None),
     (15, demo_op OtherKind None [2, 4] None)]"

definition demo_context :: EscContext where
  "demo_context = \<lparr>ec_ops = map snd demo_ops,
     ec_defs = [(1, snd (demo_ops ! 0)), (2, snd (demo_ops ! 1)), (3, snd (demo_ops ! 2)), (4, snd (demo_ops ! 4))],
     ec_pointers = [1, 2, 3]\<rparr>"

lemmas demo_simps = demo_context_def demo_ops_def demo_op_def escape_facts_def solve_facts_def escape_seed_def
  escape_seed_op_def escape_transfer_def use_of_def is_pointer_def raise_fact_def fact_of_def facts_default_def
  escape_join_def max_def less_eq_Escape_def escape_of_def base_of_def Let_def

lemma demo_rank: "\<forall>v b. base_of demo_context v = Some b \<longrightarrow> b < v"
  by (auto simp: demo_simps split: if_splits)

lemma demo_facts: "escape_facts demo_context = Some \<lparr>fx_facts = [2 \<mapsto> Escapes], fx_worklist = []\<rparr>"
  by (simp add: demo_simps drain.simps)

definition demo_slot :: SlotState where
  "demo_slot = \<lparr>ss_alloca = Some 10, ss_stores = [13], ss_loads = [14], ss_escapes = False\<rparr>"

lemma demo_slots:
  "collect_slots demo_context \<lparr>fx_facts = [2 \<mapsto> Escapes], fx_worklist = []\<rparr> demo_ops =
   Some [2 \<mapsto> \<lparr>ss_alloca = Some 11, ss_stores = [], ss_loads = [], ss_escapes = True\<rparr>, 1 \<mapsto> demo_slot]"
  by (simp add: collect_slots_def open_slot_def push_access_def slot_default_def slot_base.simps demo_slot_def demo_simps)

lemma demo_derived: "derived demo_context 3 1"
  by (rule derived_ptradd [OF _ derived_self]) (simp add: demo_simps)

theorem nonescaping_slot_accesses_witness:
  "\<exists>sl. collect_slots demo_context (the (escape_facts demo_context)) demo_ops = Some sl \<and> sl 1 = Some demo_slot \<and>
     13 \<in> set (ss_stores demo_slot)"
proof -
  obtain sl where sl: "collect_slots demo_context (the (escape_facts demo_context)) demo_ops = Some sl" "sl 1 = Some demo_slot"
    unfolding demo_facts demo_slots option.sel by (metis fun_upd_same)
  have st: "\<not> ss_escapes demo_slot" by (simp add: demo_slot_def)
  define op where "op = demo_op OtherKind (Some \<lparr>ma_location = 3, ma_value = 8, ma_write = True\<rparr>) [8, 3] None"
  have op: "base_of demo_context 1 = None" "(13, op) \<in> set demo_ops" "op \<in> set (ec_ops demo_context)" "eo_allocates op = None"
    "is_pointer demo_context 3" "3 \<in> set (eo_value_operands op)" "eo_kind op = OtherKind"
    "eo_access op = Some \<lparr>ma_location = 3, ma_value = 8, ma_write = True\<rparr>"
    unfolding op_def by (simp_all add: demo_simps)
  obtain sl' where sl': "collect_slots demo_context (the (escape_facts demo_context)) demo_ops = Some sl'"
    and use: "\<And>p st i op q. sl' p = Some st \<and> \<not> ss_escapes st \<and> base_of demo_context p = None \<and>
       (i, op) \<in> set demo_ops \<and> op \<in> set (ec_ops demo_context) \<and> eo_allocates op = None \<and> is_pointer demo_context q \<and>
       derived demo_context q p \<Longrightarrow> q \<in> set (eo_value_operands op) \<Longrightarrow> eo_kind op \<noteq> OtherKind \<or>
          (\<exists>a. eo_access op = Some a \<and> i \<in> set (if ma_write a then ss_stores st else ss_loads st))"
    using nonescaping_slot_accesses [OF demo_rank demo_facts, of demo_ops] unfolding demo_facts option.sel by blast
  have "13 \<in> set (ss_stores demo_slot)"
    using use [of 1 demo_slot 13 op 3] sl sl' st op demo_derived by auto
  then show ?thesis using sl by blast
qed

theorem agreed_type_never_panics_witness:
  "\<exists>r. agreed_value_type (\<lambda>v. v mod 4) demo_ops demo_slot = Some r \<and>
     (r = Some 0 \<longleftrightarrow> {ma_value a mod 4 | i op a. (i, op) \<in> set demo_ops \<and> eo_allocates op = None \<and> eo_access op = Some a \<and>
                                  derived demo_context (ma_location a) 1} = {0})"
proof -
  have "base_of demo_context 1 = None" "distinct (map fst demo_ops)"
    by (simp_all add: demo_simps)
  then show ?thesis
    using agreed_type_never_panics [OF demo_rank _ demo_slots, of 1 demo_slot "\<lambda>v. v mod 4"] by auto
qed

end
