(* ===== verification/Pbqp.thy ===== *)
theory Pbqp
  imports Prelude "HOL-Library.Product_Lexorder"
begin

text \<open>
  The PBQP solver of register assignment (\<open>core/src/backend/pbqp.rs\<close>): cost matrices, problems, the reductions
  RE, R0, R1 and R2, merging of implied neighbours, heuristic decisions and back propagation. A cost is the
  natural number of the \<open>u64\<close>, additions saturate; a failed assertion and a missing live edge are \<open>None\<close>.
  Matrices are shared copy-on-write in the code and values here. The stacks \<open>pending\<close> and \<open>reduced\<close> have their
  top first. Indices into the solver's vectors are in range by the invariant of \<open>PbqpInv\<close>.
\<close>

subsection \<open>Costs\<close>

definition U64_MAX :: nat where
  "U64_MAX = 2 ^ 64 - 1"

definition INF_COST :: nat where
  "INF_COST = U64_MAX div 4"

definition saturating_add :: "nat \<Rightarrow> nat \<Rightarrow> nat" where
  "saturating_add lhs rhs = min (lhs + rhs) U64_MAX"

definition cost_add :: "nat \<Rightarrow> nat \<Rightarrow> nat" where
  "cost_add lhs rhs = min (saturating_add lhs rhs) INF_COST"

definition min_sum :: "nat list \<Rightarrow> nat list \<Rightarrow> nat" where
  "min_sum lhs rhs =
     (let sums = map (\<lambda>(l, r). saturating_add l r) (zip lhs rhs)
      in if sums = [] then INF_COST else min (min_list sums) INF_COST)"

text \<open>\<open>Iterator::min_by_key\<close> over the pairs of position and cost: the first of the cheapest.\<close>

definition first_min :: "nat list \<Rightarrow> nat \<times> nat" where
  "first_min costs =
     (if costs = [] then (0, INF_COST)
      else let m = min_list costs in (length (takeWhile (\<lambda>c. c \<noteq> m) costs), m))"

subsection \<open>Matrices\<close>

record Matrix =
  mx_rows :: nat
  mx_cols :: nat
  mx_costs :: "nat list"

definition mx_zero :: "nat \<Rightarrow> nat \<Rightarrow> Matrix" where
  "mx_zero rows cols = \<lparr>mx_rows = rows, mx_cols = cols, mx_costs = replicate (rows * cols) 0\<rparr>"

definition mx_get :: "Matrix \<Rightarrow> nat \<Rightarrow> nat \<Rightarrow> nat" where
  "mx_get m row col = mx_costs m ! (row * mx_cols m + col)"

definition mx_set :: "nat \<Rightarrow> nat \<Rightarrow> nat \<Rightarrow> Matrix \<Rightarrow> Matrix" where
  "mx_set row col cost m = m\<lparr>mx_costs := (mx_costs m)[row * mx_cols m + col := cost]\<rparr>"

definition mx_row :: "Matrix \<Rightarrow> nat \<Rightarrow> nat list" where
  "mx_row m row = take (mx_cols m) (drop (row * mx_cols m) (mx_costs m))"

text \<open>A row changed in place through \<open>row_mut\<close>.\<close>

definition mx_map_row :: "(nat \<Rightarrow> nat) \<Rightarrow> nat \<Rightarrow> Matrix \<Rightarrow> Matrix" where
  "mx_map_row f row m =
     m\<lparr>mx_costs := take (row * mx_cols m) (mx_costs m) @ map f (mx_row m row) @ drop (row * mx_cols m + mx_cols m) (mx_costs m)\<rparr>"

definition transposed :: "Matrix \<Rightarrow> Matrix" where
  "transposed m =
     fold (\<lambda>row. fold (\<lambda>col. mx_set col row (mx_get m row col)) [0..<mx_cols m]) [0..<mx_rows m]
       (mx_zero (mx_cols m) (mx_rows m))"

subsection \<open>Problems\<close>

record Problem =
  pb_costs :: "nat list list"
  pb_edges :: "((nat \<times> nat) \<times> Matrix) list"

definition pb_default :: Problem where
  "pb_default = \<lparr>pb_costs = [], pb_edges = []\<rparr>"

definition pb_add_node :: "Problem \<Rightarrow> nat list \<Rightarrow> (Problem \<times> nat) option" where
  "pb_add_node p costs =
     (if costs = [] then None else Some (p\<lparr>pb_costs := pb_costs p @ [costs]\<rparr>, length (pb_costs p)))"

text \<open>\<open>iter_mut().zip\<close>: what the shorter side does not reach stays as it was.\<close>

definition zip_update :: "('a \<Rightarrow> 'b \<Rightarrow> 'a) \<Rightarrow> 'a list \<Rightarrow> 'b list \<Rightarrow> 'a list" where
  "zip_update f xs ys = map (\<lambda>(x, y). f x y) (zip xs ys) @ drop (length ys) xs"

definition add_costs :: "Matrix \<Rightarrow> Matrix \<Rightarrow> Matrix" where
  "add_costs existing added = existing\<lparr>mx_costs := zip_update cost_add (mx_costs existing) (mx_costs added)\<rparr>"

definition pb_add_edge :: "Problem \<Rightarrow> nat \<Rightarrow> nat \<Rightarrow> Matrix \<Rightarrow> Problem option" where
  "pb_add_edge p lhs rhs matrix =
     (if lhs = rhs then None
      else
        (let (key, matrix) = (if lhs < rhs then ((lhs, rhs), matrix) else ((rhs, lhs), transposed matrix))
         in do {
              l \<leftarrow> nth_opt (pb_costs p) (fst key);
              r \<leftarrow> nth_opt (pb_costs p) (snd key);
              if mx_rows matrix = length l \<and> mx_cols matrix = length r
              then Some
                (if map_of (pb_edges p) key = None
                 then p\<lparr>pb_edges := pb_edges p @ [(key, matrix)]\<rparr>
                 else p\<lparr>pb_edges := map (\<lambda>(k, m). if k = key then (k, add_costs m matrix) else (k, m)) (pb_edges p)\<rparr>)
              else None
            }))"

subsection \<open>The solver's state\<close>

record PbEdge =
  pe_lhs :: nat
  pe_rhs :: nat
  pe_matrix :: Matrix
  pe_live :: bool

datatype Reduced = R0 nat | R1 nat nat | R2 nat nat nat

record PbSolver =
  ps_costs :: "nat list list"
  ps_edges :: "PbEdge list"
  ps_adjacency :: "nat list list"
  ps_between :: "nat \<times> nat \<Rightarrow> nat option"
  ps_alive :: "bool list"
  ps_pending :: "nat list"
  ps_reduced :: "Reduced list"
  ps_choices :: "nat list"

definition edge_cost :: "PbSolver \<Rightarrow> nat \<Rightarrow> nat \<Rightarrow> nat \<Rightarrow> nat \<Rightarrow> nat" where
  "edge_cost s edge node own other =
     (let e = ps_edges s ! edge
      in if pe_lhs e = node then mx_get (pe_matrix e) own other else mx_get (pe_matrix e) other own)"

definition other_end :: "PbSolver \<Rightarrow> nat \<Rightarrow> nat \<Rightarrow> nat" where
  "other_end s edge node = (let e = ps_edges s ! edge in if pe_lhs e = node then pe_rhs e else pe_lhs e)"

definition finite_count :: "PbSolver \<Rightarrow> nat \<Rightarrow> nat" where
  "finite_count s node = length (filter (\<lambda>cost. cost < INF_COST) (ps_costs s ! node))"

definition edge_key :: "nat \<Rightarrow> nat \<Rightarrow> nat \<times> nat" where
  "edge_key lhs rhs = (min lhs rhs, max lhs rhs)"

definition swap_remove :: "'a list \<Rightarrow> nat \<Rightarrow> 'a list" where
  "swap_remove xs i = butlast (xs[i := List.last xs])"

text \<open>One end of \<open>unlink\<close>: the edge leaves the node's list, and a node of low degree is queued.\<close>

definition unlink_end :: "nat \<Rightarrow> nat \<Rightarrow> PbSolver \<Rightarrow> PbSolver option" where
  "unlink_end edge node s =
     (let es = ps_adjacency s ! node
      in if edge \<in> set es
         then
           (let es = swap_remove es (length (takeWhile (\<lambda>e. e \<noteq> edge) es))
            in Some (s\<lparr>ps_adjacency := (ps_adjacency s)[node := es],
                       ps_pending := (if length es \<le> 2 then node # ps_pending s else ps_pending s)\<rparr>))
         else None)"

definition unlink :: "nat \<Rightarrow> PbSolver \<Rightarrow> PbSolver option" where
  "unlink edge s =
     (let lhs = pe_lhs (ps_edges s ! edge); rhs = pe_rhs (ps_edges s ! edge)
      in do {
           s \<leftarrow> unlink_end edge lhs (s\<lparr>ps_edges := (ps_edges s)[edge := (ps_edges s ! edge)\<lparr>pe_live := False\<rparr>]\<rparr>);
           s \<leftarrow> unlink_end edge rhs s;
           Some (s\<lparr>ps_between := (ps_between s)(edge_key lhs rhs := None)\<rparr>)
         })"

subsection \<open>Normalization (RE)\<close>

definition reduced_by :: "nat \<Rightarrow> nat \<Rightarrow> nat" where
  "reduced_by least cost = (if INF_COST \<le> cost then INF_COST else cost - least)"

definition least_or_zero :: "nat list \<Rightarrow> nat" where
  "least_or_zero costs = (if costs = [] then 0 else min_list costs)"

definition normalize_row :: "nat list \<Rightarrow> nat \<Rightarrow> nat list \<times> Matrix \<Rightarrow> nat list \<times> Matrix" where
  "normalize_row rhs row um =
     (let (u, m) = um;
          (u, m) =
            (if u ! row < INF_COST
             then
               (let least = least_or_zero (map fst (filter (\<lambda>(_, other). other < INF_COST) (zip (mx_row m row) rhs)))
                in if least \<noteq> 0
                   then (u[row := cost_add (u ! row) least], mx_map_row (reduced_by least) row m)
                   else (u, m))
             else (u, m))
      in if INF_COST \<le> u ! row \<and> list_ex (\<lambda>cost. cost \<noteq> 0) (mx_row m row)
         then (u, mx_map_row (\<lambda>_. 0) row m)
         else (u, m))"

definition mx_map_col :: "(nat \<Rightarrow> nat) \<Rightarrow> nat \<Rightarrow> nat \<Rightarrow> Matrix \<Rightarrow> Matrix" where
  "mx_map_col f rows col m = fold (\<lambda>row m. mx_set row col (f (mx_get m row col)) m) [0..<rows] m"

definition normalize_col :: "nat list \<Rightarrow> nat \<Rightarrow> nat list \<times> Matrix \<Rightarrow> nat list \<times> Matrix" where
  "normalize_col lhs col vm =
     (let (v, m) = vm;
          rows = length lhs;
          (v, m) =
            (if v ! col < INF_COST
             then
               (let least = least_or_zero (map (\<lambda>row. mx_get m row col) (filter (\<lambda>row. lhs ! row < INF_COST) [0..<rows]))
                in if least \<noteq> 0
                   then (v[col := cost_add (v ! col) least], mx_map_col (reduced_by least) rows col m)
                   else (v, m))
             else (v, m))
      in if INF_COST \<le> v ! col \<and> list_ex (\<lambda>row. mx_get m row col \<noteq> 0) [0..<rows]
         then (v, mx_map_col (\<lambda>_. 0) rows col m)
         else (v, m))"

definition normalize_edge :: "nat \<Rightarrow> PbSolver \<Rightarrow> PbSolver option" where
  "normalize_edge edge s =
     (let e = ps_edges s ! edge;
          lhs = pe_lhs e; rhs = pe_rhs e;
          u = ps_costs s ! lhs; v = ps_costs s ! rhs;
          (u, m) = fold (normalize_row v) [0..<length u] (u, pe_matrix e);
          (v, m) = fold (normalize_col u) [0..<length v] (v, m);
          s = s\<lparr>ps_costs := (ps_costs s)[lhs := u, rhs := v], ps_edges := (ps_edges s)[edge := e\<lparr>pe_matrix := m\<rparr>]\<rparr>
      in if list_all (\<lambda>cost. cost = 0) (mx_costs m) then unlink edge s else Some s)"

definition link :: "nat \<Rightarrow> nat \<Rightarrow> Matrix \<Rightarrow> PbSolver \<Rightarrow> PbSolver option" where
  "link lhs rhs matrix s =
     (let i = length (ps_edges s);
          adjacency = (ps_adjacency s)[lhs := ps_adjacency s ! lhs @ [i]];
          adjacency = adjacency[rhs := adjacency ! rhs @ [i]]
      in normalize_edge i
           (s\<lparr>ps_edges := ps_edges s @ [\<lparr>pe_lhs = lhs, pe_rhs = rhs, pe_matrix = matrix, pe_live = True\<rparr>],
              ps_adjacency := adjacency,
              ps_between := (ps_between s)(edge_key lhs rhs \<mapsto> i)\<rparr>))"

definition charge :: "nat \<Rightarrow> nat \<Rightarrow> Matrix \<Rightarrow> PbSolver \<Rightarrow> PbSolver option" where
  "charge lhs rhs delta s =
     (case ps_between s (edge_key lhs rhs) of
        Some edge \<Rightarrow>
          (let e = ps_edges s ! edge;
               delta = (if pe_lhs e = lhs then delta else transposed delta)
           in normalize_edge edge (s\<lparr>ps_edges := (ps_edges s)[edge := e\<lparr>pe_matrix := add_costs (pe_matrix e) delta\<rparr>]\<rparr>))
      | None \<Rightarrow> link lhs rhs delta s)"

text \<open>The edges of a node, as they were listed, normalized while they are live.\<close>

fun normalize_live :: "nat list \<Rightarrow> PbSolver \<Rightarrow> PbSolver option" where
  "normalize_live [] s = Some s"
| "normalize_live (edge # es) s =
     (if pe_live (ps_edges s ! edge)
      then do { s \<leftarrow> normalize_edge edge s; normalize_live es s }
      else normalize_live es s)"

definition charge_node :: "nat \<Rightarrow> nat list \<Rightarrow> PbSolver \<Rightarrow> PbSolver option" where
  "charge_node node costs s =
     (let s = s\<lparr>ps_costs := (ps_costs s)[node := zip_update cost_add (ps_costs s ! node) costs]\<rparr>
      in do {
           s \<leftarrow> (if finite_count s node \<le> 1 then normalize_live (ps_adjacency s ! node) s else Some s);
           Some (s\<lparr>ps_pending := node # ps_pending s\<rparr>)
         })"

subsection \<open>Optimal reductions\<close>

definition laid_out :: "PbSolver \<Rightarrow> nat \<Rightarrow> nat \<Rightarrow> nat list" where
  "laid_out s edge outer =
     (let e = ps_edges s ! edge
      in if pe_lhs e = outer then mx_costs (pe_matrix e) else mx_costs (transposed (pe_matrix e)))"

text \<open>\<open>chunks_exact\<close>: the remainder is dropped.\<close>

function chunks_exact :: "nat \<Rightarrow> 'a list \<Rightarrow> 'a list list" where
  "chunks_exact k xs = (if k = 0 \<or> length xs < k then [] else take k xs # chunks_exact k (drop k xs))"
  by pat_completeness auto
termination
  by (relation "measure (\<lambda>(k, xs). length xs)") auto

declare chunks_exact.simps [simp del]

definition reduce_zero :: "nat \<Rightarrow> PbSolver \<Rightarrow> PbSolver" where
  "reduce_zero node s = s\<lparr>ps_alive := (ps_alive s)[node := False], ps_reduced := R0 node # ps_reduced s\<rparr>"

definition reduce_one :: "nat \<Rightarrow> PbSolver \<Rightarrow> PbSolver option" where
  "reduce_one node s =
     (let edge = ps_adjacency s ! node ! 0;
          neighbor = other_end s edge node;
          own = ps_costs s ! node;
          delta = map (min_sum own) (chunks_exact (length own) (laid_out s edge neighbor))
      in do {
           s \<leftarrow> unlink edge (s\<lparr>ps_alive := (ps_alive s)[node := False]\<rparr>);
           charge_node neighbor delta (s\<lparr>ps_reduced := R1 node edge # ps_reduced s\<rparr>)
         })"

definition two_delta :: "nat list \<Rightarrow> nat list \<Rightarrow> nat list \<Rightarrow> nat \<Rightarrow> nat \<Rightarrow> Matrix" where
  "two_delta own lays_left lays_right rows cols =
     (let k = length own;
          through_left = concat (map (\<lambda>costs. map (\<lambda>(cost, own). cost_add cost own) (zip costs own)) (chunks_exact k lays_left))
      in fold (\<lambda>(l, tl). fold (\<lambda>(r, tr). mx_set l r (min_sum tl tr)) (List.enumerate 0 (chunks_exact k lays_right)))
           (List.enumerate 0 (chunks_exact k through_left)) (mx_zero rows cols))"

definition reduce_two :: "nat \<Rightarrow> PbSolver \<Rightarrow> PbSolver option" where
  "reduce_two node s =
     (let first = ps_adjacency s ! node ! 0; second = ps_adjacency s ! node ! 1;
          left = other_end s first node; right = other_end s second node;
          delta = two_delta (ps_costs s ! node) (laid_out s first left) (laid_out s second right)
                    (length (ps_costs s ! left)) (length (ps_costs s ! right))
      in do {
           s \<leftarrow> unlink first (s\<lparr>ps_alive := (ps_alive s)[node := False]\<rparr>);
           s \<leftarrow> unlink second s;
           charge left right delta (s\<lparr>ps_reduced := R2 node first second # ps_reduced s\<rparr>)
         })"

definition reduce_pending :: "nat \<Rightarrow> PbSolver \<Rightarrow> PbSolver option" where
  "reduce_pending node s =
     (if \<not> ps_alive s ! node then Some s
      else
        (let degree = length (ps_adjacency s ! node)
         in if degree = 0 then Some (reduce_zero node s)
            else if degree = 1 then reduce_one node s
            else if degree = 2 then reduce_two node s
            else Some s))"

partial_function (option) reduce_optimally :: "PbSolver \<Rightarrow> PbSolver option" where
  [code]: "reduce_optimally s =
     (case ps_pending s of
        [] \<Rightarrow> Some s
      | node # rest \<Rightarrow>
          do {
            s \<leftarrow> reduce_pending node (s\<lparr>ps_pending := rest\<rparr>);
            reduce_optimally s
          })"

subsection \<open>Merging (RM) and decisions (RN)\<close>

text \<open>The single finite alternative of the neighbour for one alternative of the node; \<open>None\<close> when there are
  two.\<close>

definition implied_by :: "PbSolver \<Rightarrow> nat \<Rightarrow> nat \<Rightarrow> nat \<Rightarrow> nat option" where
  "implied_by s node edge own =
     (if INF_COST \<le> ps_costs s ! node ! own then Some 0
      else
        (let neighbor = other_end s edge node
         in case filter (\<lambda>other. cost_add (edge_cost s edge node own other) (ps_costs s ! neighbor ! other) < INF_COST)
                   [0..<length (ps_costs s ! neighbor)] of
              [] \<Rightarrow> Some 0
            | [first] \<Rightarrow> Some first
            | _ \<Rightarrow> None))"

definition implied :: "PbSolver \<Rightarrow> nat \<Rightarrow> nat \<Rightarrow> nat list option" where
  "implied s node edge = map_opt (implied_by s node edge) [0..<length (ps_costs s ! node)]"

definition merge_delta :: "PbSolver \<Rightarrow> nat \<Rightarrow> nat \<Rightarrow> nat \<Rightarrow> nat list \<Rightarrow> nat \<Rightarrow> Matrix" where
  "merge_delta s node neighbor far imp target =
     fold (\<lambda>(own, chosen) m.
        if ps_costs s ! node ! own < INF_COST
        then fold (\<lambda>other. mx_set own other (edge_cost s far neighbor chosen other)) [0..<length (ps_costs s ! target)] m
        else m)
      (List.enumerate 0 imp) (mx_zero (length (ps_costs s ! node)) (length (ps_costs s ! target)))"

fun merge_edges :: "nat \<Rightarrow> nat \<Rightarrow> nat \<Rightarrow> nat list \<Rightarrow> nat list \<Rightarrow> PbSolver \<Rightarrow> PbSolver option" where
  "merge_edges node neighbor edge imp [] s = Some s"
| "merge_edges node neighbor edge imp (far # es) s =
     (if far = edge then merge_edges node neighbor edge imp es s
      else
        (let target = other_end s far neighbor;
             delta = merge_delta s node neighbor far imp target
         in do {
              s \<leftarrow> unlink far s;
              s \<leftarrow> charge node target delta s;
              merge_edges node neighbor edge imp es s
            }))"

partial_function (option) merge_implied :: "nat \<Rightarrow> nat \<Rightarrow> PbSolver \<Rightarrow> PbSolver option" where
  [code]: "merge_implied node index s =
     (if ps_alive s ! node \<and> index < length (ps_adjacency s ! node)
      then
        (let edge = ps_adjacency s ! node ! index;
             neighbor = other_end s edge node
         in case (if 1 < length (ps_adjacency s ! neighbor) then implied s node edge else None) of
              None \<Rightarrow> merge_implied node (index + 1) s
            | Some imp \<Rightarrow>
                do {
                  s \<leftarrow> merge_edges node neighbor edge imp (ps_adjacency s ! neighbor) s;
                  s \<leftarrow> (if ps_alive s ! neighbor \<and> length (ps_adjacency s ! neighbor) = 1 then reduce_one neighbor s else Some s);
                  merge_implied node 0 s
                })
      else Some s)"

definition decide_totals :: "PbSolver \<Rightarrow> nat \<Rightarrow> nat list" where
  "decide_totals s node =
     fold (\<lambda>edge totals.
        (let theirs = ps_costs s ! other_end s edge node
         in zip_update (\<lambda>total costs. cost_add total (min_sum costs theirs)) totals
              (chunks_exact (length theirs) (laid_out s edge node))))
      (ps_adjacency s ! node) (ps_costs s ! node)"

fun decide_edges :: "nat \<Rightarrow> nat \<Rightarrow> nat list \<Rightarrow> PbSolver \<Rightarrow> PbSolver option" where
  "decide_edges node choice [] s = Some s"
| "decide_edges node choice (edge # es) s =
     (let neighbor = other_end s edge node;
          delta = map (\<lambda>other. edge_cost s edge node choice other) [0..<length (ps_costs s ! neighbor)]
      in do {
           s \<leftarrow> unlink edge s;
           s \<leftarrow> charge_node neighbor delta s;
           decide_edges node choice es s
         })"

definition decide_node :: "nat \<Rightarrow> PbSolver \<Rightarrow> PbSolver option" where
  "decide_node node s =
     (let choice = fst (first_min (decide_totals s node))
      in decide_edges node choice (ps_adjacency s ! node)
           (s\<lparr>ps_choices := (ps_choices s)[node := choice], ps_alive := (ps_alive s)[node := False]\<rparr>))"

subsection \<open>Back propagation and the run\<close>

definition best_response :: "PbSolver \<Rightarrow> nat \<Rightarrow> (nat \<times> nat) list \<Rightarrow> nat \<times> nat" where
  "best_response s node fixed =
     first_min (map (\<lambda>own. fold (\<lambda>(edge, other) total. cost_add total (edge_cost s edge node own other)) fixed (ps_costs s ! node ! own))
       [0..<length (ps_costs s ! node)])"

fun reduced_node :: "Reduced \<Rightarrow> nat" where
  "reduced_node (R0 node) = node"
| "reduced_node (R1 node edge) = node"
| "reduced_node (R2 node first second) = node"

fun reduced_edges :: "Reduced \<Rightarrow> nat list" where
  "reduced_edges (R0 node) = []"
| "reduced_edges (R1 node edge) = [edge]"
| "reduced_edges (R2 node first second) = [first, second]"

definition back_step :: "PbSolver \<Rightarrow> Reduced \<Rightarrow> nat list \<Rightarrow> nat list" where
  "back_step s r choices =
     (let node = reduced_node r;
          fixed = map (\<lambda>edge. (edge, choices ! other_end s edge node)) (reduced_edges r)
      in choices[node := fst (best_response s node fixed)])"

definition back_propagate :: "PbSolver \<Rightarrow> nat list" where
  "back_propagate s = fold (back_step s) (ps_reduced s) (ps_choices s)"

definition skip_dead :: "PbSolver \<Rightarrow> nat list \<Rightarrow> nat \<Rightarrow> nat" where
  "skip_dead s order at = at + length (takeWhile (\<lambda>node. \<not> ps_alive s ! node) (drop at order))"

text \<open>The loop of \<open>run\<close>, up to the back propagation.\<close>

partial_function (option) run_loop :: "nat list \<Rightarrow> nat \<Rightarrow> PbSolver \<Rightarrow> PbSolver option" where
  [code]: "run_loop order at s =
     do {
       s \<leftarrow> reduce_optimally s;
       let at = skip_dead s order at;
       if length order \<le> at then Some s
       else
         (let node = order ! at
          in do {
               s \<leftarrow> merge_implied node 0 s;
               s \<leftarrow> (if ps_alive s ! node \<and> 2 < length (ps_adjacency s ! node) then decide_node node s else Some s);
               run_loop order at s
             })
     }"

fun link_all :: "((nat \<times> nat) \<times> Matrix) list \<Rightarrow> PbSolver \<Rightarrow> PbSolver option" where
  "link_all [] s = Some s"
| "link_all (((lhs, rhs), matrix) # es) s = do { s \<leftarrow> link lhs rhs matrix s; link_all es s }"

definition pb_solver_start :: "Problem \<Rightarrow> PbSolver" where
  "pb_solver_start p =
     (let count = length (pb_costs p)
      in \<lparr>ps_costs = pb_costs p, ps_edges = [], ps_adjacency = replicate count [], ps_between = (\<lambda>_. None),
          ps_alive = replicate count True, ps_pending = [0..<count], ps_reduced = [], ps_choices = replicate count 0\<rparr>)"

definition pb_solver_new :: "Problem \<Rightarrow> PbSolver option" where
  "pb_solver_new p = link_all (sort_key fst (pb_edges p)) (pb_solver_start p)"

definition pb_run :: "nat list \<Rightarrow> PbSolver \<Rightarrow> nat list option" where
  "pb_run order s = map_option back_propagate (run_loop order 0 s)"

record Solution =
  so_choices :: "nat list"
  so_infeasible :: "nat list"

definition rank_order :: "nat \<Rightarrow> nat list \<Rightarrow> nat list" where
  "rank_order count order = order @ filter (\<lambda>node. node \<notin> set order) [0..<count]"

definition ranks :: "nat list \<Rightarrow> nat list" where
  "ranks ranked = fold (\<lambda>(position, node) rank. rank[node := position]) (List.enumerate 0 ranked) (replicate (length ranked) 0)"

definition at_fault :: "Problem \<Rightarrow> nat list \<Rightarrow> nat list \<Rightarrow> bool list" where
  "at_fault p rank choices =
     (let stuck = map (\<lambda>node. INF_COST \<le> pb_costs p ! node ! (choices ! node)) [0..<length choices]
      in fold (\<lambda>((lhs, rhs), matrix) fault.
           if \<not> stuck ! lhs \<and> \<not> stuck ! rhs \<and> INF_COST \<le> mx_get matrix (choices ! lhs) (choices ! rhs)
           then fault[(if rank ! rhs < rank ! lhs then lhs else rhs) := True]
           else fault)
         (pb_edges p) stuck)"

definition pb_solve :: "Problem \<Rightarrow> nat list \<Rightarrow> Solution option" where
  "pb_solve p order =
     (if list_all (\<lambda>node. node < length (pb_costs p)) order
      then
        (let ranked = rank_order (length (pb_costs p)) order;
             rank = ranks ranked
         in do {
              s \<leftarrow> pb_solver_new p;
              choices \<leftarrow> pb_run ranked s;
              let fault = at_fault p rank choices;
              Some \<lparr>so_choices = choices,
                    so_infeasible = sort_key (\<lambda>node. rank ! node) (filter (\<lambda>node. fault ! node) [0..<length (pb_costs p)])\<rparr>
            })
      else None)"

end
