(* ===== verification/PbqpCosts.thy ===== *)
theory PbqpCosts
  imports Pbqp
begin

text \<open>
  Costs and matrices of the PBQP solver. Costs are added up to the cap \<open>INF_COST\<close>, matrices are read as functions
  of two alternatives, and normalizing an edge keeps the capped cost of every pair of alternatives of its ends.
\<close>

subsection \<open>Capped costs\<close>

definition cap :: "nat \<Rightarrow> nat" where
  "cap x = min x INF_COST"

lemma inf_le_max: "INF_COST \<le> U64_MAX"
  by (simp add: INF_COST_def U64_MAX_def)

lemma cost_add_cap: "cost_add a b = cap (a + b)"
  using inf_le_max by (simp add: cost_add_def saturating_add_def cap_def)

lemma cap_add [simp]: "cap (cap a + b) = cap (a + b)" "cap (a + cap b) = cap (a + b)"
  by (auto simp: cap_def)

lemma cap_cap [simp]: "cap (cap a) = cap a"
  by (simp add: cap_def)

lemma cap_inf: "INF_COST \<le> a \<Longrightarrow> cap a = INF_COST"
  by (simp add: cap_def)

lemma cap_mono: "a \<le> b \<Longrightarrow> cap a \<le> cap b"
  by (auto simp: cap_def)

lemma cap_cong_add: "\<lbrakk>cap a = cap b; cap c = cap d\<rbrakk> \<Longrightarrow> cap (a + c) = cap (b + d)"
  by (metis cap_add)

lemma min_list_in: "xs \<noteq> [] \<Longrightarrow> min_list xs \<in> set (xs :: nat list)"
  by (simp add: min_list_Min)

lemma min_list_le: "x \<in> set xs \<Longrightarrow> min_list xs \<le> (x :: nat)"
  by (subst min_list_Min) auto

lemma min_sum_list:
  assumes "length xs = length ys" "xs \<noteq> []"
  shows "min_sum xs ys = min_list (map (\<lambda>i. cap (xs ! i + ys ! i)) [0..<length xs])"
proof -
  let ?s = "map (\<lambda>(l, r). saturating_add l r) (zip xs ys)"
  have ne: "?s \<noteq> []" using assms by (cases xs; cases ys) auto
  have sat: "min (saturating_add a b) INF_COST = cap (a + b)" for a b
    using cost_add_cap by (simp add: cost_add_def)
  have "map (\<lambda>i. cap (xs ! i + ys ! i)) [0..<length xs] = map (\<lambda>c. min c INF_COST) ?s"
    using assms by (intro nth_equalityI) (simp_all add: sat)
  moreover have "min_list (map (\<lambda>c. min c INF_COST) cs) = min (min_list cs) INF_COST" if "cs \<noteq> []" for cs
    using that
  proof (induction cs)
    case (Cons c cs)
    then show ?case by (cases cs) (simp_all add: min.assoc min.left_commute)
  qed simp
  ultimately show ?thesis
    using ne by (simp add: min_sum_def Let_def del: map_map)
qed

lemma min_sum_attained:
  assumes "length xs = length ys" "xs \<noteq> []"
  shows "\<exists>i<length xs. min_sum xs ys = cap (xs ! i + ys ! i)"
  using min_list_in [of "map (\<lambda>i. cap (xs ! i + ys ! i)) [0..<length xs]"] assms
  by (simp add: min_sum_list image_iff) fastforce

lemma min_sum_le:
  assumes "length xs = length ys" "i < length xs"
  shows "min_sum xs ys \<le> cap (xs ! i + ys ! i)"
proof -
  have "xs \<noteq> []" using assms by auto
  then show ?thesis using assms by (subst min_sum_list) (auto intro!: min_list_le)
qed

lemma takeWhile_shorter: "\<lbrakk>x \<in> set xs; \<not> P x\<rbrakk> \<Longrightarrow> length (takeWhile P xs) < length xs"
  by (induction xs) auto

lemma first_min_spec:
  assumes "xs \<noteq> []"
  shows "fst (first_min xs) < length xs" "xs ! fst (first_min xs) = min_list xs"
proof -
  have lt: "length (takeWhile (\<lambda>c. c \<noteq> min_list xs) xs) < length xs"
    by (rule takeWhile_shorter [OF min_list_in [OF assms]]) simp
  then show "fst (first_min xs) < length xs" using assms by (simp add: first_min_def Let_def)
  show "xs ! fst (first_min xs) = min_list xs"
    using nth_length_takeWhile [OF lt] assms by (simp add: first_min_def Let_def)
qed

lemma first_min_le: "i < length xs \<Longrightarrow> xs ! fst (first_min xs) \<le> xs ! i"
  using first_min_spec(2) [of xs] by (force intro: min_list_le)

subsection \<open>Matrices\<close>

definition mx_wf :: "Matrix \<Rightarrow> bool" where
  "mx_wf m \<longleftrightarrow> length (mx_costs m) = mx_rows m * mx_cols m"

lemma mx_index: "\<lbrakk>row < rows; col < cols\<rbrakk> \<Longrightarrow> row * cols + col < rows * (cols :: nat)"
proof -
  assume "row < rows" "col < cols"
  then have "row * cols + col < Suc row * cols" by simp
  also have "\<dots> \<le> rows * cols" using \<open>row < rows\<close> by (intro mult_le_mono1) simp
  finally show ?thesis .
qed

lemma mx_index_inj: "\<lbrakk>col < cols; col' < cols\<rbrakk> \<Longrightarrow> row * cols + col = row' * cols + col' \<longleftrightarrow> row = row' \<and> col = (col' :: nat)"
  by (metis add.commute div_mult_self1_is_m mod_mult_self1 mod_less div_mult_self3 div_less add_0 gr_zeroI not_less_zero)

lemma mx_zero_wf [simp]: "mx_wf (mx_zero r c)" "mx_rows (mx_zero r c) = r" "mx_cols (mx_zero r c) = c"
  by (simp_all add: mx_zero_def mx_wf_def)

lemma mx_get_zero: "\<lbrakk>i < r; j < c\<rbrakk> \<Longrightarrow> mx_get (mx_zero r c) i j = 0"
  using mx_index [of i r j c] by (simp add: mx_get_def mx_zero_def)

lemma mx_set_parts [simp]: "mx_rows (mx_set i j c m) = mx_rows m" "mx_cols (mx_set i j c m) = mx_cols m"
  "mx_wf (mx_set i j c m) = mx_wf m"
  by (simp_all add: mx_set_def mx_wf_def)

lemma mx_get_set:
  "\<lbrakk>mx_wf m; i < mx_rows m; j < mx_cols m; i' < mx_rows m; j' < mx_cols m\<rbrakk> \<Longrightarrow>
   mx_get (mx_set i j c m) i' j' = (if i = i' \<and> j = j' then c else mx_get m i' j')"
  using mx_index [of i "mx_rows m" j "mx_cols m"]
  by (auto simp: mx_get_def mx_set_def mx_wf_def nth_list_update mx_index_inj)

text \<open>Writing a list of distinct positions.\<close>

lemma mx_set_all_parts [simp]:
  "mx_rows (fold (\<lambda>(i, j, c). mx_set i j c) ps m) = mx_rows m"
  "mx_cols (fold (\<lambda>(i, j, c). mx_set i j c) ps m) = mx_cols m"
  "mx_wf (fold (\<lambda>(i, j, c). mx_set i j c) ps m) = mx_wf m"
  by (induction ps arbitrary: m) (auto simp: split_beta)

lemma mx_get_set_all:
  assumes "mx_wf m" "\<And>i j c. (i, j, c) \<in> set ps \<Longrightarrow> i < mx_rows m \<and> j < mx_cols m"
    and "i < mx_rows m" "j < mx_cols m"
    and "\<And>c. (i, j, c) \<in> set ps \<Longrightarrow> c = v" "(\<forall>c. (i, j, c) \<notin> set ps) \<Longrightarrow> mx_get m i j = v"
  shows "mx_get (fold (\<lambda>(i, j, c). mx_set i j c) ps m) i j = v"
  using assms
proof (induction ps arbitrary: m)
  case (Cons p ps)
  obtain a b c where p: "p = (a, b, c)" by (cases p)
  have "mx_get (fold (\<lambda>(i, j, c). mx_set i j c) ps (mx_set a b c m)) i j = v"
  proof (rule Cons.IH)
    show "(\<forall>c. (i, j, c) \<notin> set ps) \<Longrightarrow> mx_get (mx_set a b c m) i j = v"
      using Cons.prems(6) p Cons.prems(5) [of c] Cons.prems(2) [of a b c] Cons.prems(1,3,4) by (auto simp: mx_get_set)
  qed (use Cons.prems p in auto)
  then show ?case by (simp add: p)
qed simp

lemma fold_nested_set:
  "fold (\<lambda>x. fold (\<lambda>y. mx_set (f x y) (g x y) (h x y)) (ys x)) xs m =
   fold (\<lambda>(i, j, c). mx_set i j c) (concat (map (\<lambda>x. map (\<lambda>y. (f x y, g x y, h x y)) (ys x)) xs)) m"
proof -
  have inner: "fold (\<lambda>y. mx_set (f x y) (g x y) (h x y)) zs m = fold (\<lambda>(i, j, c). mx_set i j c) (map (\<lambda>y. (f x y, g x y, h x y)) zs) m" for x zs m
    by (induction zs arbitrary: m) simp_all
  show ?thesis by (induction xs arbitrary: m) (simp_all add: inner)
qed

lemma transposed_parts [simp]:
  "mx_rows (transposed m) = mx_cols m" "mx_cols (transposed m) = mx_rows m" "mx_wf (transposed m)"
  unfolding transposed_def fold_nested_set by simp_all

lemma mx_get_transposed:
  assumes "i < mx_rows m" "j < mx_cols m"
  shows "mx_get (transposed m) j i = mx_get m i j"
  unfolding transposed_def fold_nested_set by (rule mx_get_set_all) (use assms in \<open>force+\<close>)

lemma mx_row_length: "\<lbrakk>mx_wf m; i < mx_rows m\<rbrakk> \<Longrightarrow> length (mx_row m i) = mx_cols m"
proof -
  assume "mx_wf m" "i < mx_rows m"
  then have "i * mx_cols m + mx_cols m \<le> length (mx_costs m)"
    by (metis mx_wf_def Suc_leI add.commute mult_Suc mult_le_mono1)
  then show ?thesis by (simp add: mx_row_def)
qed

lemma mx_row_nth: "\<lbrakk>mx_wf m; i < mx_rows m; j < mx_cols m\<rbrakk> \<Longrightarrow> mx_row m i ! j = mx_get m i j"
  using mx_index [of i "mx_rows m" j "mx_cols m"] by (simp add: mx_row_def mx_get_def mx_wf_def)

lemma mx_map_row_parts [simp]: "mx_rows (mx_map_row f i m) = mx_rows m" "mx_cols (mx_map_row f i m) = mx_cols m"
  by (simp_all add: mx_map_row_def)

lemma mx_map_row_wf:
  assumes "mx_wf m" "i < mx_rows m"
  shows "mx_wf (mx_map_row f i m)"
proof -
  have "i * mx_cols m + mx_cols m \<le> length (mx_costs m)"
    using assms by (metis mx_wf_def Suc_leI add.commute mult_Suc mult_le_mono1)
  then show ?thesis
    using assms by (simp add: mx_wf_def mx_map_row_def mx_row_def)
qed

lemma mx_get_map_row:
  assumes "mx_wf m" "i < mx_rows m" "i' < mx_rows m" "j < mx_cols m"
  shows "mx_get (mx_map_row f i m) i' j = (if i' = i then f (mx_get m i' j) else mx_get m i' j)"
proof -
  let ?c = "mx_cols m" and ?xs = "mx_costs m"
  have le: "i * ?c + ?c \<le> length ?xs"
    using assms by (metis mx_wf_def Suc_leI add.commute mult_Suc mult_le_mono1)
  consider "i' < i" | "i' = i" | "i < i'" by linarith
  then show ?thesis
  proof cases
    case 1
    then have "i' * ?c + j < i * ?c" using mx_index [OF 1 assms(4)] by simp
    then show ?thesis using 1 le by (simp add: mx_get_def mx_map_row_def nth_append)
  next
    case 2
    then show ?thesis
      using le assms mx_row_length [OF assms(1,2)] mx_row_nth [OF assms(1,2,4)]
      by (simp add: mx_get_def mx_map_row_def nth_append)
  next
    case 3
    then have "i * ?c + ?c \<le> i' * ?c" by (metis Suc_leI add.commute mult_Suc mult_le_mono1)
    moreover from this have "\<not> i' * ?c + j - i * ?c < ?c" by linarith
    ultimately show ?thesis
      using 3 le assms(4) mx_row_length [OF assms(1,2)]
      by (simp add: mx_get_def mx_map_row_def nth_append)
  qed
qed

lemma mx_map_col_parts [simp]: "mx_rows (mx_map_col f r j m) = mx_rows m" "mx_cols (mx_map_col f r j m) = mx_cols m"
  "mx_wf (mx_map_col f r j m) = mx_wf m"
  unfolding mx_map_col_def by (induction r) auto

lemma mx_get_map_col:
  assumes "mx_wf m" "r \<le> mx_rows m" "j < mx_cols m" "i' < mx_rows m" "j' < mx_cols m"
  shows "mx_get (mx_map_col f r j m) i' j' = (if j' = j \<and> i' < r then f (mx_get m i' j') else mx_get m i' j')"
  using assms(2,4,5)
proof (induction r arbitrary: i' j')
  case (Suc r)
  have "mx_map_col f (Suc r) j m = mx_set r j (f (mx_get (mx_map_col f r j m) r j)) (mx_map_col f r j m)"
    by (simp add: mx_map_col_def)
  moreover have "mx_get (mx_map_col f r j m) r j = mx_get m r j"
    using Suc assms(3) by simp
  ultimately show ?case
    using Suc.prems Suc.IH [of i' j'] assms(1,3) by (auto simp: mx_get_set less_Suc_eq)
qed (simp add: mx_map_col_def)

lemma chunks_exact_rows:
  assumes "mx_wf m" "0 < mx_cols m"
  shows "chunks_exact (mx_cols m) (mx_costs m) = map (mx_row m) [0..<mx_rows m]"
proof -
  have "length xs = r * k \<Longrightarrow> 0 < k \<Longrightarrow> chunks_exact k xs = map (\<lambda>i. take k (drop (i * k) xs)) [0..<r]" for r k and xs :: "nat list"
  proof (induction r arbitrary: xs)
    case (Suc r)
    have "chunks_exact k xs = take k xs # chunks_exact k (drop k xs)"
      using Suc.prems by (subst chunks_exact.simps) simp
    also have "chunks_exact k (drop k xs) = map (\<lambda>i. take k (drop (i * k) (drop k xs))) [0..<r]"
      using Suc by simp
    also have "\<dots> = map (\<lambda>i. take k (drop (Suc i * k) xs)) [0..<r]"
      by (simp add: add.commute)
    finally show ?case
      by (simp only: upt_conv_Cons [OF zero_less_Suc] list.map mult_0 drop_0 map_Suc_upt [symmetric] map_map o_def)
  qed (subst chunks_exact.simps, simp)
  then show ?thesis
    using assms by (simp add: mx_wf_def mx_row_def [abs_def])
qed

lemma zip_update_length [simp]: "length (zip_update f xs ys) = length xs"
  by (simp add: zip_update_def)

lemma zip_update_nth: "\<lbrakk>i < length xs; i < length ys\<rbrakk> \<Longrightarrow> zip_update f xs ys ! i = f (xs ! i) (ys ! i)"
  by (simp add: zip_update_def nth_append)

lemma add_costs_parts [simp]:
  "mx_rows (add_costs m d) = mx_rows m" "mx_cols (add_costs m d) = mx_cols m" "mx_wf (add_costs m d) = mx_wf m"
  by (simp_all add: add_costs_def mx_wf_def)

lemma mx_get_add_costs:
  "\<lbrakk>mx_wf m; mx_wf d; mx_rows d = mx_rows m; mx_cols d = mx_cols m; i < mx_rows m; j < mx_cols m\<rbrakk> \<Longrightarrow>
   mx_get (add_costs m d) i j = cap (mx_get m i j + mx_get d i j)"
  using mx_index [of i "mx_rows m" j "mx_cols m"]
  by (simp add: add_costs_def mx_get_def mx_wf_def zip_update_nth cost_add_cap)

subsection \<open>Normalization keeps the cost of every pair of alternatives\<close>

text \<open>\<open>pair_cost u v m i j\<close>: what the two ends and their edge cost together, up to the cap.\<close>

definition pair_cost :: "nat list \<Rightarrow> nat list \<Rightarrow> Matrix \<Rightarrow> nat \<Rightarrow> nat \<Rightarrow> nat" where
  "pair_cost u v m i j = cap (u ! i + v ! j + mx_get m i j)"

definition fits_costs :: "nat list \<Rightarrow> nat list \<Rightarrow> Matrix \<Rightarrow> bool" where
  "fits_costs u v m \<longleftrightarrow> mx_wf m \<and> mx_rows m = length u \<and> mx_cols m = length v"

definition same_pairs :: "nat list \<Rightarrow> nat list \<Rightarrow> Matrix \<Rightarrow> nat list \<Rightarrow> nat list \<Rightarrow> Matrix \<Rightarrow> bool" where
  "same_pairs u v m u' v' m' \<longleftrightarrow>
     fits_costs u' v' m' \<and> length u' = length u \<and> length v' = length v \<and>
     (\<forall>i<length u. \<forall>j<length v. pair_cost u' v' m' i j = pair_cost u v m i j)"

lemma same_pairs_trans: "\<lbrakk>same_pairs u v m u' v' m'; same_pairs u' v' m' u'' v'' m''\<rbrakk> \<Longrightarrow> same_pairs u v m u'' v'' m''"
  by (simp add: same_pairs_def)

lemma same_pairs_refl: "fits_costs u v m \<Longrightarrow> same_pairs u v m u v m"
  by (simp add: same_pairs_def)

text \<open>Moving \<open>least\<close> from a finite cost \<open>c\<close> to \<open>u\<close> keeps the sum up to the cap; a row of an infinite \<open>u\<close> does not matter.\<close>

lemma moved_cost:
  assumes "v < INF_COST \<Longrightarrow> least \<le> c"
  shows "cap (cost_add u least + v + reduced_by least c) = cap (u + v + c)"
proof (cases "v < INF_COST")
  case True
  then show ?thesis
    using assms by (auto simp: cost_add_cap cap_def reduced_by_def min_def)
next
  case False
  then show ?thesis by (simp add: cap_inf)
qed

lemma row_min_le:
  assumes "mx_wf m" "i < mx_rows m" "j < mx_cols m" "length v = mx_cols m" "v ! j < INF_COST"
  shows "least_or_zero (map fst (filter (\<lambda>(_, other). other < INF_COST) (zip (mx_row m i) v))) \<le> mx_get m i j"
proof -
  have "(mx_get m i j, v ! j) \<in> set (zip (mx_row m i) v)"
    using assms mx_row_length [OF assms(1,2)] mx_row_nth [OF assms(1-3)]
    unfolding set_zip by (intro CollectI exI [of _ j]) simp
  then have "mx_get m i j \<in> set (map fst (filter (\<lambda>(_, other). other < INF_COST) (zip (mx_row m i) v)))"
    using assms(5) by force
  then show ?thesis unfolding least_or_zero_def using min_list_le by auto
qed

lemma col_min_le:
  assumes "i < length u" "u ! i < INF_COST"
  shows "least_or_zero (map (\<lambda>row. mx_get m row j) (filter (\<lambda>row. u ! row < INF_COST) [0..<length u])) \<le> mx_get m i j"
proof -
  have "mx_get m i j \<in> set (map (\<lambda>row. mx_get m row j) (filter (\<lambda>row. u ! row < INF_COST) [0..<length u]))"
    using assms by auto
  then show ?thesis unfolding least_or_zero_def using min_list_le by auto
qed

lemma move_row:
  assumes fits: "fits_costs u v m" and r: "r < length u"
    and le: "\<And>j. \<lbrakk>j < length v; v ! j < INF_COST\<rbrakk> \<Longrightarrow> least \<le> mx_get m r j"
  shows "same_pairs u v m (u[r := cost_add (u ! r) least]) v (mx_map_row (reduced_by least) r m)"
  using assms moved_cost [of _ least]
  by (auto simp: same_pairs_def fits_costs_def pair_cost_def mx_map_row_wf mx_get_map_row nth_list_update)

lemma move_col:
  assumes fits: "fits_costs u v m" and c: "c < length v"
    and le: "\<And>i. \<lbrakk>i < length u; u ! i < INF_COST\<rbrakk> \<Longrightarrow> least \<le> mx_get m i c"
  shows "same_pairs u v m u (v[c := cost_add (v ! c) least]) (mx_map_col (reduced_by least) (length u) c m)"
  using assms moved_cost [of _ least]
  by (auto simp: same_pairs_def fits_costs_def pair_cost_def mx_get_map_col nth_list_update add.commute)

lemma clear_row:
  assumes "fits_costs u v m" "r < length u" "INF_COST \<le> u ! r"
  shows "same_pairs u v m u v (mx_map_row (\<lambda>_. 0) r m)"
  using assms by (auto simp: same_pairs_def fits_costs_def pair_cost_def mx_map_row_wf mx_get_map_row cap_inf)

lemma clear_col:
  assumes "fits_costs u v m" "c < length v" "INF_COST \<le> v ! c"
  shows "same_pairs u v m u v (mx_map_col (\<lambda>_. 0) (length u) c m)"
  using assms by (auto simp: same_pairs_def fits_costs_def pair_cost_def mx_get_map_col cap_inf)

lemma normalize_row_same:
  assumes fits: "fits_costs u v m" and r: "r < length u" and n: "normalize_row v r (u, m) = (u', m')"
  shows "same_pairs u v m u' v m'"
proof -
  let ?least = "least_or_zero (map fst (filter (\<lambda>(_, other). other < INF_COST) (zip (mx_row m r) v)))"
  obtain u1 m1 where um: "(u1, m1) = (if u ! r < INF_COST \<and> ?least \<noteq> 0 then (u[r := cost_add (u ! r) ?least], mx_map_row (reduced_by ?least) r m) else (u, m))"
    by (metis surj_pair)
  have le: "\<lbrakk>j < length v; v ! j < INF_COST\<rbrakk> \<Longrightarrow> ?least \<le> mx_get m r j" for j
    by (rule row_min_le) (use fits r in \<open>auto simp: fits_costs_def\<close>)
  have one: "same_pairs u v m u1 v m1"
    using um move_row [OF fits r le] same_pairs_refl [OF fits] by (auto split: if_splits)
  have "(u', m') = (if INF_COST \<le> u1 ! r \<and> list_ex (\<lambda>cost. cost \<noteq> 0) (mx_row m1 r) then (u1, mx_map_row (\<lambda>_. 0) r m1) else (u1, m1))"
    using n um by (auto simp: normalize_row_def Let_def split: if_splits)
  moreover have "fits_costs u1 v m1" "r < length u1" using one r by (auto simp: same_pairs_def)
  ultimately have "same_pairs u1 v m1 u' v m'"
    using clear_row [of u1 v m1 r] same_pairs_refl [of u1 v m1] by (auto split: if_splits)
  then show ?thesis by (rule same_pairs_trans [OF one])
qed

lemma normalize_col_same:
  assumes fits: "fits_costs u v m" and c: "c < length v" and n: "normalize_col u c (v, m) = (v', m')"
  shows "same_pairs u v m u v' m'"
proof -
  let ?least = "least_or_zero (map (\<lambda>row. mx_get m row c) (filter (\<lambda>row. u ! row < INF_COST) [0..<length u]))"
  obtain v1 m1 where vm: "(v1, m1) = (if v ! c < INF_COST \<and> ?least \<noteq> 0 then (v[c := cost_add (v ! c) ?least], mx_map_col (reduced_by ?least) (length u) c m) else (v, m))"
    by (metis surj_pair)
  have one: "same_pairs u v m u v1 m1"
    using vm move_col [OF fits c col_min_le] same_pairs_refl [OF fits] by (auto split: if_splits)
  have "(v', m') = (if INF_COST \<le> v1 ! c \<and> list_ex (\<lambda>row. mx_get m1 row c \<noteq> 0) [0..<length u] then (v1, mx_map_col (\<lambda>_. 0) (length u) c m1) else (v1, m1))"
    using n vm by (auto simp: normalize_col_def Let_def split: if_splits)
  moreover have "fits_costs u v1 m1" "c < length v1" using one c by (auto simp: same_pairs_def)
  ultimately have "same_pairs u v1 m1 u v' m'"
    using clear_col [of u v1 m1 c] same_pairs_refl [of u v1 m1] by (auto split: if_splits)
  then show ?thesis by (rule same_pairs_trans [OF one])
qed

lemma normalize_rows_same:
  assumes "fits_costs u v m" "\<forall>r\<in>set rs. r < length u" "fold (normalize_row v) rs (u, m) = (u', m')"
  shows "same_pairs u v m u' v m'"
  using assms
proof (induction rs arbitrary: u m)
  case (Cons r rs)
  obtain u1 m1 where n: "normalize_row v r (u, m) = (u1, m1)" by fastforce
  have one: "same_pairs u v m u1 v m1"
    by (rule normalize_row_same [OF Cons.prems(1) _ n]) (use Cons.prems(2) in simp)
  have "same_pairs u1 v m1 u' v m'"
    by (rule Cons.IH) (use one Cons.prems n in \<open>auto simp: same_pairs_def\<close>)
  then show ?case by (rule same_pairs_trans [OF one])
qed (simp add: same_pairs_refl)

lemma normalize_cols_same:
  assumes "fits_costs u v m" "\<forall>c\<in>set cs. c < length v" "fold (normalize_col u) cs (v, m) = (v', m')"
  shows "same_pairs u v m u v' m'"
  using assms
proof (induction cs arbitrary: v m)
  case (Cons c cs)
  obtain v1 m1 where n: "normalize_col u c (v, m) = (v1, m1)" by fastforce
  have one: "same_pairs u v m u v1 m1"
    by (rule normalize_col_same [OF Cons.prems(1) _ n]) (use Cons.prems(2) in simp)
  have "same_pairs u v1 m1 u v' m'"
    by (rule Cons.IH) (use one Cons.prems n in \<open>auto simp: same_pairs_def\<close>)
  then show ?case by (rule same_pairs_trans [OF one])
qed (simp add: same_pairs_refl)

end
