(* ===== verification/PbqpInv.thy ===== *)
theory PbqpInv
  imports PbqpCosts
begin

text \<open>
  The invariant of the PBQP solver's state, and the operations on edges: every one returns, keeps the invariant,
  leaves what is already reduced alone, and changes the capped cost of an assignment by what it charges.
\<close>

subsection \<open>The invariant\<close>

abbreviation node_count :: "PbSolver \<Rightarrow> nat" where
  "node_count s \<equiv> length (ps_costs s)"

definition edge_ok :: "nat list list \<Rightarrow> PbEdge \<Rightarrow> bool" where
  "edge_ok costs e \<longleftrightarrow>
     pe_lhs e \<noteq> pe_rhs e \<and> pe_lhs e < length costs \<and> pe_rhs e < length costs \<and>
     fits_costs (costs ! pe_lhs e) (costs ! pe_rhs e) (pe_matrix e)"

definition live_edges :: "PbSolver \<Rightarrow> nat set" where
  "live_edges s = {e. e < length (ps_edges s) \<and> pe_live (ps_edges s ! e)}"

definition live_nodes :: "PbSolver \<Rightarrow> nat set" where
  "live_nodes s = {v. v < node_count s \<and> ps_alive s ! v}"

definition touches :: "PbSolver \<Rightarrow> nat \<Rightarrow> nat \<Rightarrow> bool" where
  "touches s v e \<longleftrightarrow> pe_lhs (ps_edges s ! e) = v \<or> pe_rhs (ps_edges s ! e) = v"

definition key_of :: "PbSolver \<Rightarrow> nat \<Rightarrow> nat \<times> nat" where
  "key_of s e = edge_key (pe_lhs (ps_edges s ! e)) (pe_rhs (ps_edges s ! e))"

definition lists_edges :: "PbSolver \<Rightarrow> bool" where
  "lists_edges s \<longleftrightarrow>
     (\<forall>v<node_count s. distinct (ps_adjacency s ! v) \<and> set (ps_adjacency s ! v) = {e \<in> live_edges s. touches s v e})"

definition finds_edges :: "PbSolver \<Rightarrow> bool" where
  "finds_edges s \<longleftrightarrow> (\<forall>k e. ps_between s k = Some e \<longleftrightarrow> e \<in> live_edges s \<and> k = key_of s e)"

definition ps_wf :: "PbSolver \<Rightarrow> bool" where
  "ps_wf s \<longleftrightarrow>
     length (ps_adjacency s) = node_count s \<and> length (ps_alive s) = node_count s \<and> length (ps_choices s) = node_count s \<and>
     (\<forall>v<node_count s. ps_costs s ! v \<noteq> []) \<and>
     (\<forall>e<length (ps_edges s). edge_ok (ps_costs s) (ps_edges s ! e)) \<and>
     lists_edges s \<and> finds_edges s \<and> set (ps_pending s) \<subseteq> {..<node_count s}"

text \<open>The ends of live edges are alive, apart from a node just taken out; and a live node of low degree is queued.\<close>

definition ends_alive :: "nat set \<Rightarrow> PbSolver \<Rightarrow> bool" where
  "ends_alive X s \<longleftrightarrow>
     (\<forall>e\<in>live_edges s. \<forall>v\<in>{pe_lhs (ps_edges s ! e), pe_rhs (ps_edges s ! e)}. v \<in> X \<or> ps_alive s ! v)"

definition low_queued :: "PbSolver \<Rightarrow> bool" where
  "low_queued s \<longleftrightarrow> (\<forall>v\<in>live_nodes s. length (ps_adjacency s ! v) \<le> 2 \<longrightarrow> v \<in> set (ps_pending s))"

text \<open>What an operation on edges leaves alone.\<close>

definition keeps :: "PbSolver \<Rightarrow> PbSolver \<Rightarrow> bool" where
  "keeps s s' \<longleftrightarrow>
     ps_alive s' = ps_alive s \<and> ps_reduced s' = ps_reduced s \<and> ps_choices s' = ps_choices s \<and>
     map length (ps_costs s') = map length (ps_costs s) \<and>
     length (ps_edges s) \<le> length (ps_edges s') \<and>
     (\<forall>e<length (ps_edges s).
        pe_lhs (ps_edges s' ! e) = pe_lhs (ps_edges s ! e) \<and> pe_rhs (ps_edges s' ! e) = pe_rhs (ps_edges s ! e) \<and>
        (\<not> pe_live (ps_edges s ! e) \<longrightarrow> ps_edges s' ! e = ps_edges s ! e)) \<and>
     (\<forall>v<node_count s. \<not> ps_alive s ! v \<longrightarrow> ps_costs s' ! v = ps_costs s ! v) \<and>
     (low_queued s \<longrightarrow> low_queued s')"

lemma keeps_refl [simp]: "keeps s s"
  by (simp add: keeps_def)

lemma keeps_count: "keeps s s' \<Longrightarrow> node_count s' = node_count s"
  unfolding keeps_def by (metis length_map)

lemma keeps_edge:
  assumes "keeps s s'" "e < length (ps_edges s)"
  shows "e < length (ps_edges s')" "pe_lhs (ps_edges s' ! e) = pe_lhs (ps_edges s ! e)"
    "pe_rhs (ps_edges s' ! e) = pe_rhs (ps_edges s ! e)" "\<not> pe_live (ps_edges s ! e) \<Longrightarrow> ps_edges s' ! e = ps_edges s ! e"
  using assms unfolding keeps_def by auto

lemma keeps_trans: "\<lbrakk>keeps s t; keeps t u\<rbrakk> \<Longrightarrow> keeps s u"
proof -
  assume st: "keeps s t" and tu: "keeps t u"
  have "pe_lhs (ps_edges u ! e) = pe_lhs (ps_edges s ! e) \<and> pe_rhs (ps_edges u ! e) = pe_rhs (ps_edges s ! e) \<and>
     (\<not> pe_live (ps_edges s ! e) \<longrightarrow> ps_edges u ! e = ps_edges s ! e)" if "e < length (ps_edges s)" for e
    using keeps_edge [OF st that] keeps_edge [OF tu keeps_edge(1) [OF st that]] by simp
  moreover have "ps_costs u ! v = ps_costs s ! v" if "v < node_count s" "\<not> ps_alive s ! v" for v
    using st tu that keeps_count [OF st] unfolding keeps_def by simp
  ultimately show "keeps s u"
    using st tu unfolding keeps_def [of s u] by (simp add: keeps_def)
qed

lemma keeps_length: "\<lbrakk>keeps s s'; v < node_count s\<rbrakk> \<Longrightarrow> length (ps_costs s' ! v) = length (ps_costs s ! v)"
  unfolding keeps_def by (metis length_map nth_map)

text \<open>The cost of an assignment of alternatives in what is left of the graph.\<close>

definition edge_at :: "PbSolver \<Rightarrow> (nat \<Rightarrow> nat) \<Rightarrow> nat \<Rightarrow> nat" where
  "edge_at s f e = mx_get (pe_matrix (ps_edges s ! e)) (f (pe_lhs (ps_edges s ! e))) (f (pe_rhs (ps_edges s ! e)))"

definition pq_total :: "PbSolver \<Rightarrow> (nat \<Rightarrow> nat) \<Rightarrow> nat" where
  "pq_total s f = (\<Sum>v\<in>live_nodes s. ps_costs s ! v ! f v) + (\<Sum>e\<in>live_edges s. edge_at s f e)"

definition assigns :: "PbSolver \<Rightarrow> (nat \<Rightarrow> nat) \<Rightarrow> bool" where
  "assigns s f \<longleftrightarrow> (\<forall>v<node_count s. f v < length (ps_costs s ! v))"

lemma keeps_assigns: "keeps s s' \<Longrightarrow> assigns s' f = assigns s f"
  by (simp add: assigns_def keeps_count keeps_length)

lemma finite_live [simp]: "finite (live_edges s)" "finite (live_nodes s)"
  by (simp_all add: live_edges_def live_nodes_def)

subsection \<open>Unlinking\<close>

lemma nth_update_if: "xs[i := a] ! j = (if j = i \<and> i < length xs then a else xs ! j)"
  by (cases "i < length xs") (auto simp: nth_list_update list_update_beyond not_less)

lemma swap_remove_set:
  assumes "i < length xs" "distinct xs"
  shows "set (swap_remove xs i) = set xs - {xs ! i}" "distinct (swap_remove xs i)" "length (swap_remove xs i) = length xs - 1"
proof -
  obtain ys z where xs: "xs = ys @ [z]" using assms by (cases xs rule: rev_cases) auto
  have z: "z \<notin> set ys" "distinct ys" using assms xs by auto
  have sr: "swap_remove xs i = (if i < length ys then ys[i := z] else ys)"
    using assms unfolding xs swap_remove_def by (simp add: list_update_append1 list_update_append)
  have "distinct (ys[i := z])" using z by (intro distinct_list_update) auto
  then show "distinct (swap_remove xs i)" using z by (simp add: sr)
  show "length (swap_remove xs i) = length xs - 1" by (simp add: swap_remove_def)
  show "set (swap_remove xs i) = set xs - {xs ! i}"
  proof (cases "i < length ys")
    case True
    then have "ys ! i \<noteq> z" using z nth_mem by blast
    then show ?thesis
      using True z unfolding sr unfolding xs by (auto simp: set_update_distinct nth_append)
  next
    case False
    then have "i = length ys" using assms xs by simp
    then show ?thesis using z unfolding sr unfolding xs by auto
  qed
qed

definition without_edge :: "nat \<Rightarrow> nat list \<Rightarrow> nat list" where
  "without_edge edge es = swap_remove es (length (takeWhile (\<lambda>e. e \<noteq> edge) es))"

lemma without_edge_set:
  assumes "edge \<in> set es" "distinct es"
  shows "set (without_edge edge es) = set es - {edge}" "distinct (without_edge edge es)"
    "length (without_edge edge es) = length es - 1"
proof -
  let ?i = "length (takeWhile (\<lambda>e. e \<noteq> edge) es)"
  have i: "?i < length es" by (rule takeWhile_shorter [OF assms(1)]) simp
  have "es ! ?i = edge" using nth_length_takeWhile [OF i] by simp
  then show "set (without_edge edge es) = set es - {edge}" "distinct (without_edge edge es)"
    "length (without_edge edge es) = length es - 1"
    using swap_remove_set [OF i assms(2)] by (simp_all add: without_edge_def)
qed

definition unlinked :: "nat \<Rightarrow> PbSolver \<Rightarrow> PbSolver" where
  "unlinked edge s =
     (let lhs = pe_lhs (ps_edges s ! edge); rhs = pe_rhs (ps_edges s ! edge);
          l = without_edge edge (ps_adjacency s ! lhs); r = without_edge edge (ps_adjacency s ! rhs);
          low = (\<lambda>v es. if length es \<le> 2 then [v] else [])
      in s\<lparr>ps_edges := (ps_edges s)[edge := (ps_edges s ! edge)\<lparr>pe_live := False\<rparr>],
           ps_adjacency := (ps_adjacency s)[lhs := l, rhs := r],
           ps_pending := low rhs r @ low lhs l @ ps_pending s,
           ps_between := (ps_between s)(edge_key lhs rhs := None)\<rparr>)"

lemma live_edge_ends:
  assumes "ps_wf s" "e \<in> live_edges s"
  shows "pe_lhs (ps_edges s ! e) < node_count s" "pe_rhs (ps_edges s ! e) < node_count s"
    "pe_lhs (ps_edges s ! e) \<noteq> pe_rhs (ps_edges s ! e)"
    "e \<in> set (ps_adjacency s ! pe_lhs (ps_edges s ! e))" "e \<in> set (ps_adjacency s ! pe_rhs (ps_edges s ! e))"
proof -
  have "edge_ok (ps_costs s) (ps_edges s ! e)"
    using assms by (auto simp: ps_wf_def live_edges_def)
  then show "pe_lhs (ps_edges s ! e) < node_count s" "pe_rhs (ps_edges s ! e) < node_count s"
    "pe_lhs (ps_edges s ! e) \<noteq> pe_rhs (ps_edges s ! e)"
    by (auto simp: edge_ok_def)
  then show "e \<in> set (ps_adjacency s ! pe_lhs (ps_edges s ! e))" "e \<in> set (ps_adjacency s ! pe_rhs (ps_edges s ! e))"
    using assms by (auto simp: ps_wf_def lists_edges_def touches_def)
qed

lemma unlink_is:
  assumes "ps_wf s" "e \<in> live_edges s"
  shows "unlink e s = Some (unlinked e s)"
  using live_edge_ends [OF assms]
  by (simp add: unlink_def unlink_end_def unlinked_def without_edge_def Let_def)

lemma unlinked_parts [simp]:
  "ps_costs (unlinked e s) = ps_costs s" "ps_alive (unlinked e s) = ps_alive s" "ps_reduced (unlinked e s) = ps_reduced s"
  "ps_choices (unlinked e s) = ps_choices s" "length (ps_edges (unlinked e s)) = length (ps_edges s)"
  "live_nodes (unlinked e s) = live_nodes s"
  by (simp_all add: unlinked_def Let_def live_nodes_def)

lemma unlinked_nth:
  "ps_edges (unlinked e s) ! k = (if k = e \<and> e < length (ps_edges s) then (ps_edges s ! e)\<lparr>pe_live := False\<rparr> else ps_edges s ! k)"
  by (auto simp: unlinked_def Let_def nth_update_if)

lemma unlinked_ends [simp]:
  "pe_lhs (ps_edges (unlinked e s) ! k) = pe_lhs (ps_edges s ! k)" "pe_rhs (ps_edges (unlinked e s) ! k) = pe_rhs (ps_edges s ! k)"
  "pe_matrix (ps_edges (unlinked e s) ! k) = pe_matrix (ps_edges s ! k)"
  "touches (unlinked e s) v k = touches s v k" "key_of (unlinked e s) k = key_of s k"
  by (simp_all add: unlinked_nth touches_def key_of_def)

lemma live_unlinked: "live_edges (unlinked e s) = live_edges s - {e}"
  by (auto simp: live_edges_def unlinked_nth)

lemma unlinked_adjacency:
  assumes "ps_wf s" "e \<in> live_edges s" "v < node_count s"
  shows "ps_adjacency (unlinked e s) ! v = (if touches s v e then without_edge e (ps_adjacency s ! v) else ps_adjacency s ! v)"
  using live_edge_ends [OF assms(1,2)] assms
  by (auto simp: unlinked_def Let_def touches_def ps_wf_def nth_list_update)

lemma unlinked_queue:
  assumes "ps_wf s" "e \<in> live_edges s" "v < node_count s" "touches s v e" "length (ps_adjacency (unlinked e s) ! v) \<le> 2"
  shows "v \<in> set (ps_pending (unlinked e s))"
  using live_edge_ends [OF assms(1,2)] assms
  by (auto simp: unlinked_def Let_def touches_def ps_wf_def nth_list_update split: if_splits)

lemma unlinked_pending: "set (ps_pending (unlinked e s)) \<subseteq> set (ps_pending s) \<union> {v. touches s v e}"
  "set (ps_pending s) \<subseteq> set (ps_pending (unlinked e s))"
  by (auto simp: unlinked_def Let_def touches_def)

lemma unlinked_wf:
  assumes wf: "ps_wf s" and e: "e \<in> live_edges s"
  shows "ps_wf (unlinked e s)"
proof -
  let ?s = "unlinked e s"
  have adj: "distinct (ps_adjacency s ! v)" "set (ps_adjacency s ! v) = {k \<in> live_edges s. touches s v k}" if "v < node_count s" for v
    using wf that by (auto simp: ps_wf_def lists_edges_def)
  have "lists_edges ?s"
    unfolding lists_edges_def
  proof (intro allI impI)
    fix v assume "v < node_count ?s"
    then have v: "v < node_count s" by simp
    show "distinct (ps_adjacency ?s ! v) \<and> set (ps_adjacency ?s ! v) = {k \<in> live_edges ?s. touches ?s v k}"
    proof (cases "touches s v e")
      case True
      then have "e \<in> set (ps_adjacency s ! v)" using adj(2) [OF v] e by blast
      from without_edge_set(1,2) [OF this adj(1) [OF v]] show ?thesis
        unfolding unlinked_adjacency [OF wf e v] using True adj(2) [OF v] by (auto simp: live_unlinked)
    next
      case False
      then show ?thesis
        unfolding unlinked_adjacency [OF wf e v] using adj [OF v] by (auto simp: live_unlinked)
    qed
  qed
  moreover have "finds_edges ?s"
  proof -
    have f: "ps_between s k = Some i \<longleftrightarrow> i \<in> live_edges s \<and> k = key_of s i" for k i
      using wf unfolding ps_wf_def finds_edges_def by blast
    have b: "ps_between ?s = (ps_between s)(key_of s e := None)"
      by (simp add: unlinked_def Let_def key_of_def)
    have e': "ps_between s (key_of s e) = Some e" using f e by blast
    have "ps_between ?s k = Some i \<longleftrightarrow> i \<in> live_edges s - {e} \<and> k = key_of s i" for k i
    proof (cases "k = key_of s e")
      case True
      then show ?thesis using f [of k i] e' b by auto
    next
      case False
      then show ?thesis using f [of k i] b by auto
    qed
    then show ?thesis
      unfolding finds_edges_def live_unlinked unlinked_ends by blast
  qed
  moreover have "set (ps_pending ?s) \<subseteq> {..<node_count s}"
    using unlinked_pending(1) [of e s] wf live_edge_ends [OF wf e] by (auto simp: ps_wf_def touches_def)
  moreover have "edge_ok (ps_costs ?s) (ps_edges ?s ! k)" if "k < length (ps_edges ?s)" for k
    using wf that by (auto simp: ps_wf_def edge_ok_def)
  moreover have "length (ps_adjacency ?s) = node_count s" using wf by (simp add: unlinked_def Let_def ps_wf_def)
  ultimately show ?thesis using wf by (simp add: ps_wf_def)
qed

lemma unlinked_keeps:
  assumes wf: "ps_wf s" and e: "e \<in> live_edges s"
  shows "keeps s (unlinked e s)"
proof -
  have "low_queued (unlinked e s)" if "low_queued s"
    unfolding low_queued_def
  proof (intro ballI impI)
    fix v assume v: "v \<in> live_nodes (unlinked e s)" and low: "length (ps_adjacency (unlinked e s) ! v) \<le> 2"
    then have n: "v < node_count s" "v \<in> live_nodes s" by (auto simp: live_nodes_def)
    show "v \<in> set (ps_pending (unlinked e s))"
    proof (cases "touches s v e")
      case True
      then show ?thesis using unlinked_queue [OF wf e n(1) _ low] by blast
    next
      case False
      then have "v \<in> set (ps_pending s)"
        using that n low unlinked_adjacency [OF wf e n(1)] by (simp add: low_queued_def)
      then show ?thesis using unlinked_pending(2) by blast
    qed
  qed
  then show ?thesis
    using e by (auto simp: keeps_def unlinked_nth live_edges_def)
qed

lemma unlinked_total:
  assumes "e \<in> live_edges s"
  shows "pq_total s f = pq_total (unlinked e s) f + edge_at s f e"
proof -
  have "edge_at (unlinked e s) f = edge_at s f"
    by (simp add: edge_at_def [abs_def])
  then show ?thesis
    using assms by (simp add: pq_total_def live_unlinked sum.remove [of "live_edges s" e])
qed

lemma unlinked_ends_alive: "ends_alive X s \<Longrightarrow> ends_alive X (unlinked e s)"
  by (auto simp: ends_alive_def live_unlinked)

subsection \<open>What charging changes\<close>

text \<open>\<open>charged P s s' d\<close>: the state goes on from \<open>s\<close> to \<open>s'\<close>, every assignment costs \<open>d\<close> more up to the cap, and edges come
  and go only between nodes whose key is in \<open>P\<close>.\<close>

definition outside :: "(nat \<times> nat) set \<Rightarrow> PbSolver \<Rightarrow> nat set" where
  "outside P s = {e \<in> live_edges s. key_of s e \<notin> P}"

definition charged :: "(nat \<times> nat) set \<Rightarrow> PbSolver \<Rightarrow> PbSolver \<Rightarrow> ((nat \<Rightarrow> nat) \<Rightarrow> nat) \<Rightarrow> bool" where
  "charged P s s' d \<longleftrightarrow>
     ps_wf s' \<and> keeps s s' \<and> (\<forall>f. assigns s f \<longrightarrow> cap (pq_total s' f) = cap (pq_total s f + d f)) \<and>
     (\<forall>X. ends_alive X s \<longrightarrow> ends_alive X s') \<and> outside P s' = outside P s"

lemma charged_refl: "ps_wf s \<Longrightarrow> charged P s s (\<lambda>_. 0)"
  by (simp add: charged_def)

lemma charged_trans:
  assumes "charged P s t d" "charged P t u d'"
  shows "charged P s u (\<lambda>f. d f + d' f)"
proof -
  have "cap (pq_total u f) = cap (pq_total s f + (d f + d' f))" if "assigns s f" for f
  proof -
    have "cap (pq_total u f) = cap (pq_total t f + d' f)"
      using assms that by (auto simp: charged_def keeps_assigns)
    also have "\<dots> = cap (pq_total s f + d f + d' f)"
      using assms(1) that by (intro cap_cong_add) (auto simp: charged_def)
    finally show ?thesis by (simp add: add.assoc)
  qed
  then show ?thesis
    using assms keeps_trans unfolding charged_def by blast
qed

lemma keeps_key: "\<lbrakk>keeps s s'; e < length (ps_edges s)\<rbrakk> \<Longrightarrow> key_of s' e = key_of s e"
  by (simp add: key_of_def keeps_edge)

lemma charged_mono:
  assumes "charged P s s' d" "P \<subseteq> Q"
  shows "charged Q s s' d"
proof -
  have k: "e \<in> live_edges s \<Longrightarrow> key_of s' e = key_of s e" for e
    using assms(1) keeps_key [of s s' e] by (auto simp: charged_def live_edges_def)
  have "outside Q t = {e \<in> outside P t. key_of t e \<notin> Q}" for t
    using assms(2) by (auto simp: outside_def)
  moreover have "outside P s' = outside P s" using assms(1) by (simp add: charged_def)
  ultimately have "outside Q s' = {e \<in> outside P s. key_of s' e \<notin> Q}" "outside Q s = {e \<in> outside P s. key_of s e \<notin> Q}"
    by simp_all
  then have "outside Q s' = outside Q s"
    using k by (auto simp: outside_def)
  then show ?thesis using assms(1) by (simp add: charged_def)
qed

subsection \<open>Normalizing an edge\<close>

definition recosted :: "nat \<Rightarrow> nat list \<Rightarrow> nat list \<Rightarrow> Matrix \<Rightarrow> PbSolver \<Rightarrow> PbSolver" where
  "recosted edge u v m s =
     (let e = ps_edges s ! edge
      in s\<lparr>ps_costs := (ps_costs s)[pe_lhs e := u, pe_rhs e := v], ps_edges := (ps_edges s)[edge := e\<lparr>pe_matrix := m\<rparr>]\<rparr>)"

lemma recosted_parts [simp]:
  "ps_adjacency (recosted e u v m s) = ps_adjacency s" "ps_alive (recosted e u v m s) = ps_alive s"
  "ps_reduced (recosted e u v m s) = ps_reduced s" "ps_choices (recosted e u v m s) = ps_choices s"
  "ps_pending (recosted e u v m s) = ps_pending s" "ps_between (recosted e u v m s) = ps_between s"
  "length (ps_edges (recosted e u v m s)) = length (ps_edges s)" "node_count (recosted e u v m s) = node_count s"
  by (simp_all add: recosted_def Let_def)

lemma recosted_nth:
  "ps_edges (recosted e u v m s) ! k = (if k = e \<and> e < length (ps_edges s) then (ps_edges s ! e)\<lparr>pe_matrix := m\<rparr> else ps_edges s ! k)"
  by (simp add: recosted_def Let_def nth_update_if)

lemma recosted_same [simp]:
  "pe_lhs (ps_edges (recosted e u v m s) ! k) = pe_lhs (ps_edges s ! k)"
  "pe_rhs (ps_edges (recosted e u v m s) ! k) = pe_rhs (ps_edges s ! k)"
  "pe_live (ps_edges (recosted e u v m s) ! k) = pe_live (ps_edges s ! k)"
  by (simp_all add: recosted_nth)

lemma recosted_graph [simp]:
  "touches (recosted e u v m s) x k = touches s x k" "key_of (recosted e u v m s) k = key_of s k"
  "live_edges (recosted e u v m s) = live_edges s" "live_nodes (recosted e u v m s) = live_nodes s"
  "ends_alive X (recosted e u v m s) = ends_alive X s" "low_queued (recosted e u v m s) = low_queued s"
  "lists_edges (recosted e u v m s) = lists_edges s" "finds_edges (recosted e u v m s) = finds_edges s"
proof -
  show t: "touches (recosted e u v m s) x k = touches s x k" for x k by (simp add: touches_def)
  show k: "key_of (recosted e u v m s) k = key_of s k" for k by (simp add: key_of_def)
  show l: "live_edges (recosted e u v m s) = live_edges s" by (simp add: live_edges_def)
  show n: "live_nodes (recosted e u v m s) = live_nodes s" by (simp add: live_nodes_def)
  show "ends_alive X (recosted e u v m s) = ends_alive X s" by (simp add: ends_alive_def l)
  show "low_queued (recosted e u v m s) = low_queued s" by (simp add: low_queued_def n)
  show "lists_edges (recosted e u v m s) = lists_edges s" by (simp add: lists_edges_def t l)
  show "finds_edges (recosted e u v m s) = finds_edges s" by (simp add: finds_edges_def k l)
qed

definition edge_alive :: "PbSolver \<Rightarrow> nat \<Rightarrow> bool" where
  "edge_alive s e \<longleftrightarrow> e \<in> live_edges s \<and> ps_alive s ! pe_lhs (ps_edges s ! e) \<and> ps_alive s ! pe_rhs (ps_edges s ! e)"

lemma recosted_costs:
  assumes "ps_wf s" "e \<in> live_edges s" "x < node_count s"
  shows "ps_costs (recosted e u v m s) ! x =
    (if x = pe_lhs (ps_edges s ! e) then u else if x = pe_rhs (ps_edges s ! e) then v else ps_costs s ! x)"
  using live_edge_ends [OF assms(1,2)] by (auto simp: recosted_def Let_def nth_list_update)

lemma recosted_wf:
  assumes wf: "ps_wf s" and e: "e \<in> live_edges s"
    and fits: "fits_costs u v m" "length u = length (ps_costs s ! pe_lhs (ps_edges s ! e))" "length v = length (ps_costs s ! pe_rhs (ps_edges s ! e))"
  shows "ps_wf (recosted e u v m s)" "map length (ps_costs (recosted e u v m s)) = map length (ps_costs s)"
proof -
  note ends = live_edge_ends [OF wf e]
  have len: "length (ps_costs (recosted e u v m s) ! x) = length (ps_costs s ! x)" if "x < node_count s" for x
    using recosted_costs [OF wf e that] fits by auto
  then show "map length (ps_costs (recosted e u v m s)) = map length (ps_costs s)"
    by (intro nth_equalityI) simp_all
  have "edge_ok (ps_costs (recosted e u v m s)) (ps_edges (recosted e u v m s) ! k)" if k: "k < length (ps_edges s)" for k
  proof -
    have ok: "edge_ok (ps_costs s) (ps_edges s ! k)" using wf k by (simp add: ps_wf_def)
    then have l: "pe_lhs (ps_edges s ! k) < node_count s" "pe_rhs (ps_edges s ! k) < node_count s" by (auto simp: edge_ok_def)
    show ?thesis
    proof (cases "k = e")
      case True
      then show ?thesis
        using k fits ends recosted_costs [OF wf e, of _ u v m] by (simp add: edge_ok_def recosted_nth)
    next
      case False
      then show ?thesis
        using ok len [OF l(1)] len [OF l(2)] by (simp add: edge_ok_def recosted_nth fits_costs_def)
    qed
  qed
  moreover have "ps_costs (recosted e u v m s) ! x \<noteq> []" if "x < node_count s" for x
    using len [OF that] wf that by (metis length_0_conv ps_wf_def)
  ultimately show "ps_wf (recosted e u v m s)"
    using wf by (simp add: ps_wf_def)
qed

lemma recosted_keeps:
  assumes wf: "ps_wf s" and e: "edge_alive s e"
    and fits: "fits_costs u v m" "length u = length (ps_costs s ! pe_lhs (ps_edges s ! e))" "length v = length (ps_costs s ! pe_rhs (ps_edges s ! e))"
  shows "keeps s (recosted e u v m s)"
proof -
  have live: "e \<in> live_edges s" using e by (simp add: edge_alive_def)
  show ?thesis
    using recosted_wf(2) [OF wf live fits] recosted_costs [OF wf live] e
    by (auto simp: keeps_def recosted_nth edge_alive_def live_edges_def)
qed

text \<open>The part of the cost that an edge and its two ends carry, and the rest.\<close>

definition rest_total :: "PbSolver \<Rightarrow> nat \<Rightarrow> (nat \<Rightarrow> nat) \<Rightarrow> nat" where
  "rest_total s e f =
     (\<Sum>x\<in>live_nodes s - {pe_lhs (ps_edges s ! e), pe_rhs (ps_edges s ! e)}. ps_costs s ! x ! f x) +
     (\<Sum>k\<in>live_edges s - {e}. edge_at s f k)"

lemma total_split:
  assumes wf: "ps_wf s" and e: "edge_alive s e"
  shows "pq_total s f =
    ps_costs s ! pe_lhs (ps_edges s ! e) ! f (pe_lhs (ps_edges s ! e)) +
    ps_costs s ! pe_rhs (ps_edges s ! e) ! f (pe_rhs (ps_edges s ! e)) + edge_at s f e + rest_total s e f"
proof -
  let ?l = "pe_lhs (ps_edges s ! e)" and ?r = "pe_rhs (ps_edges s ! e)" and ?c = "\<lambda>x. ps_costs s ! x ! f x"
  have live: "e \<in> live_edges s" using e by (simp add: edge_alive_def)
  have mem: "?l \<in> live_nodes s" "?r \<in> live_nodes s - {?l}"
    using live_edge_ends [OF wf live] e by (auto simp: live_nodes_def edge_alive_def)
  have "sum ?c (live_nodes s) = ?c ?l + (?c ?r + sum ?c (live_nodes s - {?l} - {?r}))"
    using mem by (subst sum.remove [of _ ?l], simp, simp, subst sum.remove [of _ ?r]) simp_all
  moreover have "live_nodes s - {?l} - {?r} = live_nodes s - {?l, ?r}" by blast
  moreover have "sum (edge_at s f) (live_edges s) = edge_at s f e + sum (edge_at s f) (live_edges s - {e})"
    using live by (simp add: sum.remove)
  ultimately show ?thesis by (simp add: pq_total_def rest_total_def)
qed

lemma recosted_rest:
  assumes wf: "ps_wf s" and e: "e \<in> live_edges s"
  shows "rest_total (recosted e u v m s) e f = rest_total s e f"
  unfolding rest_total_def recosted_same recosted_graph
  using recosted_costs [OF wf e] by (intro arg_cong2 [where f = plus] sum.cong) (auto simp: live_nodes_def edge_at_def recosted_nth)

lemma recosted_total:
  assumes wf: "ps_wf s" and e: "edge_alive s e" and f: "assigns s f"
    and same: "same_pairs (ps_costs s ! pe_lhs (ps_edges s ! e)) (ps_costs s ! pe_rhs (ps_edges s ! e)) (pe_matrix (ps_edges s ! e)) u v m"
  shows "cap (pq_total (recosted e u v m s) f) = cap (pq_total s f)"
proof -
  let ?s = "recosted e u v m s" and ?l = "pe_lhs (ps_edges s ! e)" and ?r = "pe_rhs (ps_edges s ! e)"
  have live: "e \<in> live_edges s" using e by (simp add: edge_alive_def)
  note ends = live_edge_ends [OF wf live]
  have fits: "fits_costs u v m" "length u = length (ps_costs s ! ?l)" "length v = length (ps_costs s ! ?r)"
    using same by (auto simp: same_pairs_def)
  have wf': "ps_wf ?s" by (rule recosted_wf(1) [OF wf live fits])
  have e': "edge_alive ?s e" using e by (simp add: edge_alive_def)
  have "pair_cost u v m (f ?l) (f ?r) = pair_cost (ps_costs s ! ?l) (ps_costs s ! ?r) (pe_matrix (ps_edges s ! e)) (f ?l) (f ?r)"
    using same f ends by (auto simp: same_pairs_def assigns_def)
  moreover have "ps_costs ?s ! ?l = u" "ps_costs ?s ! ?r = v" "edge_at ?s f e = mx_get m (f ?l) (f ?r)"
    using recosted_costs [OF wf live] ends live by (auto simp: edge_at_def recosted_nth live_edges_def)
  ultimately show ?thesis
    unfolding total_split [OF wf e] total_split [OF wf' e'] recosted_rest [OF wf live] recosted_same
    by - (rule cap_cong_add, auto simp: pair_cost_def edge_at_def)
qed

lemma normalize_charged:
  assumes wf: "ps_wf s" and e: "edge_alive s e"
  shows "\<exists>s'. normalize_edge e s = Some s' \<and> charged {key_of s e} s s' (\<lambda>_. 0) \<and> length (ps_edges s') = length (ps_edges s)"
proof -
  let ?e = "ps_edges s ! e"
  let ?u = "ps_costs s ! pe_lhs ?e" and ?v = "ps_costs s ! pe_rhs ?e"
  have live: "e \<in> live_edges s" using e by (simp add: edge_alive_def)
  have fits: "fits_costs ?u ?v (pe_matrix ?e)"
    using wf live by (auto simp: ps_wf_def edge_ok_def live_edges_def)
  obtain u m1 where rows: "fold (normalize_row ?v) [0..<length ?u] (?u, pe_matrix ?e) = (u, m1)" by fastforce
  obtain v m where cols: "fold (normalize_col u) [0..<length ?v] (?v, m1) = (v, m)" by fastforce
  have one: "same_pairs ?u ?v (pe_matrix ?e) u ?v m1"
    by (rule normalize_rows_same [OF fits _ rows]) simp
  have two: "same_pairs u ?v m1 u v m"
    by (rule normalize_cols_same [OF _ _ cols]) (use one in \<open>auto simp: same_pairs_def\<close>)
  have same: "same_pairs ?u ?v (pe_matrix ?e) u v m" by (rule same_pairs_trans [OF one two])
  then have f: "fits_costs u v m" "length u = length ?u" "length v = length ?v" by (auto simp: same_pairs_def)
  let ?s = "recosted e u v m s"
  have n: "normalize_edge e s = (if list_all (\<lambda>cost. cost = 0) (mx_costs m) then unlink e ?s else Some ?s)"
    using rows cols by (simp add: normalize_edge_def recosted_def Let_def)
  note wf' = recosted_wf(1) [OF wf live f]
  have ch: "charged {key_of s e} s ?s (\<lambda>_. 0)"
    unfolding charged_def using wf' recosted_keeps [OF wf e f] recosted_total [OF wf e _ same] by (simp add: outside_def)
  show ?thesis
  proof (cases "list_all (\<lambda>cost. cost = 0) (mx_costs m)")
    case True
    have live': "e \<in> live_edges ?s" using live by simp
    have zero: "edge_at ?s g e = 0" if "assigns s g" for g
    proof -
      have "g (pe_lhs ?e) < mx_rows m" "g (pe_rhs ?e) < mx_cols m"
        using that f live_edge_ends [OF wf live] by (auto simp: assigns_def fits_costs_def)
      from mx_index [OF this] have "mx_get m (g (pe_lhs ?e)) (g (pe_rhs ?e)) = 0"
        using True f(1) by (simp add: mx_get_def fits_costs_def mx_wf_def list_all_length)
      then show ?thesis using live by (simp add: edge_at_def recosted_nth live_edges_def)
    qed
    have "charged {key_of s e} ?s (unlinked e ?s) (\<lambda>_. 0)"
      unfolding charged_def
      using unlinked_wf [OF wf' live'] unlinked_keeps [OF wf' live'] unlinked_total [OF live'] zero unlinked_ends_alive
        keeps_assigns [OF recosted_keeps [OF wf e f]]
      by (auto simp: outside_def live_unlinked)
    from charged_trans [OF ch this] show ?thesis
      using n True unlink_is [OF wf' live'] by simp
  next
    case False
    then show ?thesis using n ch by simp
  qed
qed

end
