(* ===== verification/PbqpCharge.thy ===== *)
theory PbqpCharge
  imports PbqpInv
begin

text \<open>
  Charging an edge and charging a node of the PBQP solver, on top of normalization: each returns and adds what
  it charges to the capped cost of every assignment.
\<close>

subsection \<open>Linking\<close>

definition linked :: "nat \<Rightarrow> nat \<Rightarrow> Matrix \<Rightarrow> PbSolver \<Rightarrow> PbSolver" where
  "linked lhs rhs m s =
     s\<lparr>ps_edges := ps_edges s @ [\<lparr>pe_lhs = lhs, pe_rhs = rhs, pe_matrix = m, pe_live = True\<rparr>],
       ps_adjacency := (ps_adjacency s)[lhs := ps_adjacency s ! lhs @ [length (ps_edges s)], rhs := ps_adjacency s ! rhs @ [length (ps_edges s)]],
       ps_between := (ps_between s)(edge_key lhs rhs \<mapsto> length (ps_edges s))\<rparr>"

lemma link_is: "lhs \<noteq> rhs \<Longrightarrow> link lhs rhs m s = normalize_edge (length (ps_edges s)) (linked lhs rhs m s)"
  by (simp add: link_def linked_def Let_def)

definition can_charge :: "nat \<Rightarrow> nat \<Rightarrow> Matrix \<Rightarrow> PbSolver \<Rightarrow> bool" where
  "can_charge lhs rhs m s \<longleftrightarrow>
     lhs \<noteq> rhs \<and> lhs \<in> live_nodes s \<and> rhs \<in> live_nodes s \<and> fits_costs (ps_costs s ! lhs) (ps_costs s ! rhs) m"

lemma linked_parts [simp]:
  "ps_costs (linked lhs rhs m s) = ps_costs s" "ps_alive (linked lhs rhs m s) = ps_alive s"
  "ps_reduced (linked lhs rhs m s) = ps_reduced s" "ps_choices (linked lhs rhs m s) = ps_choices s"
  "ps_pending (linked lhs rhs m s) = ps_pending s" "live_nodes (linked lhs rhs m s) = live_nodes s"
  "length (ps_edges (linked lhs rhs m s)) = Suc (length (ps_edges s))"
  by (simp_all add: linked_def live_nodes_def)

lemma linked_nth:
  "k < length (ps_edges s) \<Longrightarrow> ps_edges (linked lhs rhs m s) ! k = ps_edges s ! k"
  "ps_edges (linked lhs rhs m s) ! length (ps_edges s) = \<lparr>pe_lhs = lhs, pe_rhs = rhs, pe_matrix = m, pe_live = True\<rparr>"
  by (simp_all add: linked_def nth_append)

lemma live_linked: "live_edges (linked lhs rhs m s) = insert (length (ps_edges s)) (live_edges s)"
  by (auto simp: live_edges_def linked_nth less_Suc_eq)

lemma live_edge_bound: "e \<in> live_edges s \<Longrightarrow> e < length (ps_edges s)"
  by (simp add: live_edges_def)

lemma linked_graph:
  "e \<in> live_edges s \<Longrightarrow> touches (linked lhs rhs m s) v e = touches s v e"
  "touches (linked lhs rhs m s) v (length (ps_edges s)) \<longleftrightarrow> v = lhs \<or> v = rhs"
  "e \<in> live_edges s \<Longrightarrow> key_of (linked lhs rhs m s) e = key_of s e"
  "key_of (linked lhs rhs m s) (length (ps_edges s)) = edge_key lhs rhs"
  by (auto simp: touches_def key_of_def linked_nth live_edges_def)

lemma linked_adjacency:
  assumes wf: "ps_wf s" and can: "can_charge lhs rhs m s" and v: "v < node_count s"
  shows "ps_adjacency (linked lhs rhs m s) ! v = ps_adjacency s ! v @ (if v = lhs \<or> v = rhs then [length (ps_edges s)] else [])"
  using assms by (auto simp: linked_def ps_wf_def can_charge_def live_nodes_def nth_list_update)

lemma linked_wf:
  assumes wf: "ps_wf s" and can: "can_charge lhs rhs m s" and new: "ps_between s (edge_key lhs rhs) = None"
  shows "ps_wf (linked lhs rhs m s)"
proof -
  let ?s = "linked lhs rhs m s" and ?i = "length (ps_edges s)"
  have adj: "distinct (ps_adjacency s ! v)" "set (ps_adjacency s ! v) = {k \<in> live_edges s. touches s v k}" if "v < node_count s" for v
    using wf that by (auto simp: ps_wf_def lists_edges_def)
  have fresh: "?i \<notin> live_edges s" by (simp add: live_edges_def)
  have "lists_edges ?s"
    unfolding lists_edges_def
  proof (intro allI impI)
    fix v assume "v < node_count ?s"
    then have v: "v < node_count s" by simp
    have "{k \<in> live_edges ?s. touches ?s v k} = {k \<in> live_edges s. touches s v k} \<union> (if v = lhs \<or> v = rhs then {?i} else {})"
      unfolding live_linked by (auto simp: linked_graph)
    then show "distinct (ps_adjacency ?s ! v) \<and> set (ps_adjacency ?s ! v) = {k \<in> live_edges ?s. touches ?s v k}"
      unfolding linked_adjacency [OF wf can v] using adj [OF v] fresh by simp
  qed
  moreover have "finds_edges ?s"
  proof -
    have f: "ps_between s k = Some i \<longleftrightarrow> i \<in> live_edges s \<and> k = key_of s i" for k i
      using wf unfolding ps_wf_def finds_edges_def by blast
    have b: "ps_between ?s = (ps_between s)(edge_key lhs rhs \<mapsto> ?i)" by (simp add: linked_def)
    have "ps_between ?s k = Some i \<longleftrightarrow> i \<in> live_edges ?s \<and> k = key_of ?s i" for k i
    proof (cases "i = ?i")
      case True
      then show ?thesis
        using f [of k ?i] fresh unfolding b True live_linked linked_graph(4) by auto
    next
      case False
      have "ps_between ?s k = Some i \<longleftrightarrow> k \<noteq> edge_key lhs rhs \<and> ps_between s k = Some i"
        using False unfolding b by auto
      then show ?thesis
        using False f [of k i] new linked_graph(3) [of i s lhs rhs m] by (cases "k = edge_key lhs rhs") (auto simp: live_linked)
    qed
    then show ?thesis unfolding finds_edges_def by blast
  qed
  moreover have "edge_ok (ps_costs ?s) (ps_edges ?s ! k)" if "k < length (ps_edges ?s)" for k
    using wf that can by (auto simp: ps_wf_def edge_ok_def less_Suc_eq linked_nth can_charge_def live_nodes_def)
  moreover have "length (ps_adjacency ?s) = node_count s" using wf by (simp add: linked_def ps_wf_def)
  ultimately show ?thesis using wf by (simp add: ps_wf_def)
qed

lemma linked_keeps:
  assumes wf: "ps_wf s" and can: "can_charge lhs rhs m s"
  shows "keeps s (linked lhs rhs m s)"
proof -
  have "low_queued (linked lhs rhs m s)" if "low_queued s"
    unfolding low_queued_def
  proof (intro ballI impI)
    fix v assume "v \<in> live_nodes (linked lhs rhs m s)" "length (ps_adjacency (linked lhs rhs m s) ! v) \<le> 2"
    moreover from this have "v < node_count s" by (simp add: live_nodes_def)
    ultimately show "v \<in> set (ps_pending (linked lhs rhs m s))"
      using that linked_adjacency [OF wf can, of v] by (auto simp: low_queued_def)
  qed
  then show ?thesis by (simp add: keeps_def linked_nth)
qed

lemma linked_total: "pq_total (linked lhs rhs m s) f = pq_total s f + mx_get m (f lhs) (f rhs)"
proof -
  have "(\<Sum>e\<in>live_edges s. edge_at (linked lhs rhs m s) f e) = (\<Sum>e\<in>live_edges s. edge_at s f e)"
    by (rule sum.cong) (auto simp: edge_at_def linked_nth live_edges_def)
  moreover have "length (ps_edges s) \<notin> live_edges s" by (simp add: live_edges_def)
  ultimately show ?thesis
    by (simp add: pq_total_def live_linked edge_at_def [of _ _ "length (ps_edges s)"] linked_nth)
qed

lemma linked_charged:
  assumes wf: "ps_wf s" and can: "can_charge lhs rhs m s" and new: "ps_between s (edge_key lhs rhs) = None"
  shows "charged {edge_key lhs rhs} s (linked lhs rhs m s) (\<lambda>f. mx_get m (f lhs) (f rhs))"
proof -
  have "outside {edge_key lhs rhs} (linked lhs rhs m s) = outside {edge_key lhs rhs} s"
    by (auto simp: outside_def live_linked linked_graph)
  moreover have "ends_alive X (linked lhs rhs m s)" if "ends_alive X s" for X
    using that can by (auto simp: ends_alive_def live_linked linked_nth can_charge_def live_nodes_def live_edge_bound)
  ultimately show ?thesis
    unfolding charged_def using linked_wf [OF assms] linked_keeps [OF wf can] linked_total by simp
qed

subsection \<open>Charging an edge\<close>

lemma edge_key_iff: "edge_key a b = edge_key c d \<longleftrightarrow> a = c \<and> b = d \<or> a = d \<and> b = c"
  by (auto simp: edge_key_def min_def max_def)

lemma charged_then_normalized:
  assumes ch: "charged {key_of t e} s t d" and e: "edge_alive t e"
  shows "\<exists>s'. normalize_edge e t = Some s' \<and> charged {key_of t e} s s' d"
proof -
  obtain s' where s': "normalize_edge e t = Some s'" "charged {key_of t e} t s' (\<lambda>_. 0)"
    using normalize_charged [OF _ e] ch by (auto simp: charged_def)
  then show ?thesis using charged_trans [OF ch s'(2)] by simp
qed

lemma charge_existing:
  assumes wf: "ps_wf s" and can: "can_charge lhs rhs d s" and e: "edge_alive s e" "key_of s e = edge_key lhs rhs"
  shows "\<exists>s'. charge lhs rhs d s = Some s' \<and> charged {edge_key lhs rhs} s s' (\<lambda>f. mx_get d (f lhs) (f rhs))"
proof -
  let ?e = "ps_edges s ! e" let ?l = "pe_lhs ?e" and ?r = "pe_rhs ?e"
  have live: "e \<in> live_edges s" using e(1) by (simp add: edge_alive_def)
  note ends = live_edge_ends [OF wf live]
  define d' where "d' = (if ?l = lhs then d else transposed d)"
  have lr: "?l = lhs \<and> ?r = rhs \<or> ?l = rhs \<and> ?r = lhs"
    using e(2) by (auto simp: key_of_def edge_key_iff)
  have fits: "fits_costs (ps_costs s ! ?l) (ps_costs s ! ?r) (pe_matrix ?e)"
    using wf live by (auto simp: ps_wf_def edge_ok_def live_edges_def)
  have fits': "fits_costs (ps_costs s ! ?l) (ps_costs s ! ?r) d'"
    using lr can ends(3) by (auto simp: d'_def fits_costs_def can_charge_def)
  let ?m = "add_costs (pe_matrix ?e) d'"
  have fm: "fits_costs (ps_costs s ! ?l) (ps_costs s ! ?r) ?m" using fits by (simp add: fits_costs_def)
  let ?t = "recosted e (ps_costs s ! ?l) (ps_costs s ! ?r) ?m s"
  have c: "charge lhs rhs d s = normalize_edge e ?t"
  proof -
    have "ps_between s (edge_key lhs rhs) = Some e"
      using wf live e(2) unfolding ps_wf_def finds_edges_def by metis
    then show ?thesis by (simp add: charge_def recosted_def Let_def d'_def)
  qed
  have wf': "ps_wf ?t" by (rule recosted_wf(1) [OF wf live fm refl refl])
  have e': "edge_alive ?t e" using e(1) by (simp add: edge_alive_def)
  have "cap (pq_total ?t f) = cap (pq_total s f + mx_get d (f lhs) (f rhs))" if f: "assigns s f" for f
  proof -
    have a: "f ?l < mx_rows (pe_matrix ?e)" "f ?r < mx_cols (pe_matrix ?e)"
      using f ends fits by (auto simp: assigns_def fits_costs_def)
    have "mx_get d' (f ?l) (f ?r) = mx_get d (f lhs) (f rhs)"
      using lr ends(3) can f by (auto simp: d'_def mx_get_transposed can_charge_def fits_costs_def assigns_def live_nodes_def)
    then have at: "edge_at ?t f e = cap (edge_at s f e + mx_get d (f lhs) (f rhs))"
      using a fits fits' live by (simp add: edge_at_def recosted_nth live_edge_bound mx_get_add_costs fits_costs_def)
    have "ps_costs ?t ! x = ps_costs s ! x" if "x < node_count s" for x
      using recosted_costs [OF wf live that] by auto
    then have t: "pq_total ?t f = ps_costs s ! ?l ! f ?l + ps_costs s ! ?r ! f ?r + edge_at ?t f e + rest_total s e f"
      using total_split [OF wf' e', of f] recosted_rest [OF wf live] ends by simp
    have "cap (pq_total ?t f) = cap (ps_costs s ! ?l ! f ?l + ps_costs s ! ?r ! f ?r + rest_total s e f + cap (edge_at s f e + mx_get d (f lhs) (f rhs)))"
      by (simp only: t at ac_simps)
    also have "\<dots> = cap (pq_total s f + mx_get d (f lhs) (f rhs))"
      unfolding cap_add total_split [OF wf e(1)] by (simp only: ac_simps)
    finally show ?thesis .
  qed
  then have "charged {key_of ?t e} s ?t (\<lambda>f. mx_get d (f lhs) (f rhs))"
    unfolding charged_def using wf' recosted_keeps [OF wf e(1) fm refl refl] by (simp add: outside_def)
  from charged_then_normalized [OF this e'] show ?thesis
    using c e(2) by simp
qed

lemma charge_charged:
  assumes wf: "ps_wf s" and can: "can_charge lhs rhs d s"
  shows "\<exists>s'. charge lhs rhs d s = Some s' \<and> charged {edge_key lhs rhs} s s' (\<lambda>f. mx_get d (f lhs) (f rhs))"
proof (cases "ps_between s (edge_key lhs rhs)")
  case None
  let ?t = "linked lhs rhs d s" and ?i = "length (ps_edges s)"
  have "edge_alive ?t ?i"
    using can by (simp add: edge_alive_def live_linked linked_nth can_charge_def live_nodes_def)
  from charged_then_normalized [OF _ this] linked_charged [OF wf can None]
  show ?thesis
    using can None link_is [of lhs rhs d s] by (auto simp: charge_def linked_graph can_charge_def)
next
  case (Some e)
  then have e: "e \<in> live_edges s" "key_of s e = edge_key lhs rhs"
    using wf unfolding ps_wf_def finds_edges_def by auto
  then have "edge_alive s e"
    using can by (auto simp: edge_alive_def key_of_def edge_key_iff can_charge_def live_nodes_def)
  then show ?thesis by (rule charge_existing [OF wf can _ e(2)])
qed

subsection \<open>Charging a node\<close>

lemma normalize_shrinks:
  assumes "keeps s s'" "length (ps_edges s') = length (ps_edges s)"
  shows "live_edges s' \<subseteq> live_edges s"
proof
  fix e assume "e \<in> live_edges s'"
  then have "e < length (ps_edges s)" "pe_live (ps_edges s' ! e)" using assms(2) by (auto simp: live_edges_def)
  then show "e \<in> live_edges s" using keeps_edge(4) [OF assms(1), of e] by (cases "pe_live (ps_edges s ! e)") (auto simp: live_edges_def)
qed

lemma keeps_edge_alive:
  assumes "keeps s s'" "e \<in> live_edges s'" "edge_alive s e"
  shows "edge_alive s' e"
proof -
  have "e < length (ps_edges s)" using assms(3) by (simp add: edge_alive_def live_edges_def)
  then show ?thesis
    using keeps_edge(2,3) [OF assms(1)] assms by (auto simp: edge_alive_def keeps_def)
qed

lemma normalize_live_charged:
  assumes "ps_wf s" "\<And>e. e \<in> set es \<Longrightarrow> e < length (ps_edges s)" "\<And>e. \<lbrakk>e \<in> set es; e \<in> live_edges s\<rbrakk> \<Longrightarrow> edge_alive s e"
  shows "\<exists>s'. normalize_live es s = Some s' \<and> charged (key_of s ` set es) s s' (\<lambda>_. 0) \<and> length (ps_edges s') = length (ps_edges s)"
  using assms
proof (induction es arbitrary: s)
  case Nil
  then show ?case by (simp add: charged_refl)
next
  case (Cons e es)
  show ?case
  proof (cases "e \<in> live_edges s")
    case False
    then have "normalize_live (e # es) s = normalize_live es s"
      using Cons.prems(2) by (simp add: live_edges_def)
    moreover obtain s' where "normalize_live es s = Some s'" "charged (key_of s ` set es) s s' (\<lambda>_. 0)"
        "length (ps_edges s') = length (ps_edges s)"
      using Cons.IH [of s] Cons.prems by auto
    ultimately show ?thesis
      using charged_mono [of "key_of s ` set es" s s' "\<lambda>_. 0" "key_of s ` set (e # es)"] by auto
  next
    case True
    obtain t where t: "normalize_edge e s = Some t" "charged {key_of s e} s t (\<lambda>_. 0)" "length (ps_edges t) = length (ps_edges s)"
      using normalize_charged [OF Cons.prems(1) Cons.prems(3) [OF _ True]] by auto
    have k: "keeps s t" "ps_wf t" using t(2) by (auto simp: charged_def)
    have "edge_alive t i" if "i \<in> set es" "i \<in> live_edges t" for i
      using keeps_edge_alive [OF k(1) that(2)] Cons.prems(3) [of i] normalize_shrinks [OF k(1) t(3)] that by auto
    then obtain s' where s': "normalize_live es t = Some s'" "charged (key_of t ` set es) t s' (\<lambda>_. 0)"
        "length (ps_edges s') = length (ps_edges t)"
      using Cons.IH [of t] Cons.prems(2) k(2) t(3) by auto
    have "key_of t ` set es = key_of s ` set es"
      using keeps_key [OF k(1)] Cons.prems(2) by (intro image_cong) auto
    then have "charged (key_of s ` set (e # es)) t s' (\<lambda>_. 0)" "charged (key_of s ` set (e # es)) s t (\<lambda>_. 0)"
      using charged_mono [OF s'(2), of "key_of s ` set (e # es)"] charged_mono [OF t(2), of "key_of s ` set (e # es)"]
      by (simp_all add: subset_insertI)
    then have "charged (key_of s ` set (e # es)) s s' (\<lambda>_. 0)"
      using charged_trans [of _ s t _ s'] by force
    then show ?thesis
      using True t(1,3) s'(1,3) by (simp add: live_edges_def)
  qed
qed

definition node_keys :: "nat \<Rightarrow> (nat \<times> nat) set" where
  "node_keys v = {k. fst k = v \<or> snd k = v}"

lemma touches_key: "touches s v e \<longleftrightarrow> key_of s e \<in> node_keys v"
  by (auto simp: touches_def key_of_def node_keys_def edge_key_def min_def max_def)

definition recharged :: "nat \<Rightarrow> nat list \<Rightarrow> PbSolver \<Rightarrow> PbSolver" where
  "recharged v cs s = s\<lparr>ps_costs := (ps_costs s)[v := zip_update cost_add (ps_costs s ! v) cs]\<rparr>"

lemma recharged_charged:
  assumes wf: "ps_wf s" and v: "v \<in> live_nodes s" and len: "length cs = length (ps_costs s ! v)"
  shows "charged {} s (recharged v cs s) (\<lambda>f. cs ! f v)"
proof -
  let ?s = "recharged v cs s"
  have parts [simp]: "ps_edges ?s = ps_edges s" "ps_adjacency ?s = ps_adjacency s" "ps_alive ?s = ps_alive s"
    "ps_between ?s = ps_between s" "ps_reduced ?s = ps_reduced s" "ps_choices ?s = ps_choices s" "ps_pending ?s = ps_pending s"
    "node_count ?s = node_count s"
    by (simp_all add: recharged_def)
  have graph [simp]: "live_edges ?s = live_edges s" "live_nodes ?s = live_nodes s" "touches ?s = touches s" "key_of ?s = key_of s"
    "edge_at ?s = edge_at s"
    by (simp_all add: live_edges_def live_nodes_def touches_def key_of_def edge_at_def fun_eq_iff)
  have n: "v < node_count s" "ps_alive s ! v" using v by (auto simp: live_nodes_def)
  have costs: "ps_costs ?s ! x = (if x = v then zip_update cost_add (ps_costs s ! v) cs else ps_costs s ! x)" for x
    using n by (simp add: recharged_def nth_update_if)
  have lens: "length (ps_costs ?s ! x) = length (ps_costs s ! x)" for x by (simp add: costs)
  have "edge_ok (ps_costs ?s) e = edge_ok (ps_costs s) e" for e
    by (simp add: edge_ok_def fits_costs_def lens)
  moreover have "ps_costs ?s ! x \<noteq> [] \<longleftrightarrow> ps_costs s ! x \<noteq> []" for x
    using lens [of x] by (metis length_0_conv)
  ultimately have "ps_wf ?s" using wf by (simp add: ps_wf_def lists_edges_def finds_edges_def)
  moreover have "map length (ps_costs ?s) = map length (ps_costs s)"
    by (rule nth_equalityI) (simp_all add: lens)
  then have "keeps s ?s" using n by (simp add: keeps_def low_queued_def costs)
  moreover have "cap (pq_total ?s f) = cap (pq_total s f + cs ! f v)" if "assigns s f" for f
  proof -
    have fv: "f v < length (ps_costs s ! v)" using that n by (simp add: assigns_def)
    let ?E = "\<Sum>e\<in>live_edges s. edge_at s f e" and ?R = "\<Sum>x\<in>live_nodes s - {v}. ps_costs s ! x ! f x"
    have "(\<Sum>x\<in>live_nodes s - {v}. ps_costs ?s ! x ! f x) = ?R" by (rule sum.cong) (simp_all add: costs)
    moreover have "ps_costs ?s ! v ! f v = cap (ps_costs s ! v ! f v + cs ! f v)"
      using fv len by (simp add: costs zip_update_nth cost_add_cap)
    ultimately have t: "pq_total ?s f = cap (ps_costs s ! v ! f v + cs ! f v) + (?R + ?E)"
      using v by (simp add: pq_total_def sum.remove [of "live_nodes s" v])
    have "pq_total s f = ps_costs s ! v ! f v + (?R + ?E)"
      using v by (simp add: pq_total_def sum.remove [of "live_nodes s" v])
    then show ?thesis unfolding t cap_add by (simp only: ac_simps)
  qed
  ultimately show ?thesis
    by (simp add: charged_def outside_def ends_alive_def)
qed

lemma push_pending:
  assumes "ps_wf s" "v < node_count s"
  shows "charged {} s (s\<lparr>ps_pending := v # ps_pending s\<rparr>) (\<lambda>_. 0)"
  using assms
  by (simp add: charged_def keeps_def ps_wf_def lists_edges_def finds_edges_def live_edges_def live_nodes_def touches_def [abs_def]
      key_of_def [abs_def] pq_total_def edge_at_def outside_def ends_alive_def low_queued_def)

lemma charge_node_charged:
  assumes wf: "ps_wf s" and v: "v \<in> live_nodes s" and len: "length cs = length (ps_costs s ! v)"
    and alive: "\<And>e. \<lbrakk>e \<in> live_edges s; touches s v e\<rbrakk> \<Longrightarrow> edge_alive s e"
  shows "\<exists>s'. charge_node v cs s = Some s' \<and> charged (node_keys v) s s' (\<lambda>f. cs ! f v) \<and> length (ps_edges s') = length (ps_edges s)"
proof -
  let ?t = "recharged v cs s"
  have one: "charged {} s ?t (\<lambda>f. cs ! f v)" by (rule recharged_charged [OF wf v len])
  have n: "v < node_count s" using v by (simp add: live_nodes_def)
  have wf': "ps_wf ?t" using one by (simp add: charged_def)
  have same: "ps_edges ?t = ps_edges s" "ps_adjacency ?t = ps_adjacency s" "ps_alive ?t = ps_alive s" "node_count ?t = node_count s"
    by (simp_all add: recharged_def)
  have es: "e \<in> live_edges s" "touches s v e" if "e \<in> set (ps_adjacency s ! v)" for e
    using that wf n by (auto simp: ps_wf_def lists_edges_def)
  have "\<exists>u. (if finite_count ?t v \<le> 1 then normalize_live (ps_adjacency ?t ! v) ?t else Some ?t) = Some u \<and>
      charged (node_keys v) ?t u (\<lambda>_. 0) \<and> length (ps_edges u) = length (ps_edges ?t)"
  proof (cases "finite_count ?t v \<le> 1")
    case True
    have sub: "key_of ?t ` set (ps_adjacency s ! v) \<subseteq> node_keys v"
      using es by (auto simp: touches_key key_of_def same)
    have "\<exists>u. normalize_live (ps_adjacency s ! v) ?t = Some u \<and> charged (key_of ?t ` set (ps_adjacency s ! v)) ?t u (\<lambda>_. 0) \<and>
        length (ps_edges u) = length (ps_edges ?t)"
    proof (rule normalize_live_charged [OF wf'])
      show "e < length (ps_edges ?t)" if "e \<in> set (ps_adjacency s ! v)" for e
        using es [OF that] by (simp add: same live_edges_def)
      show "edge_alive ?t e" if "e \<in> set (ps_adjacency s ! v)" for e
        using alive [OF es [OF that]] by (simp add: edge_alive_def same live_edges_def)
    qed
    then show ?thesis using True charged_mono [OF _ sub] by (auto simp: same)
  qed (simp add: charged_refl wf')
  then obtain u where u: "(if finite_count ?t v \<le> 1 then normalize_live (ps_adjacency ?t ! v) ?t else Some ?t) = Some u"
      "charged (node_keys v) ?t u (\<lambda>_. 0)" "length (ps_edges u) = length (ps_edges ?t)" by blast
  have "ps_wf u" "v < node_count u"
    using u(2) n keeps_count [of ?t u] same(4) by (auto simp: charged_def)
  note three = charged_mono [OF push_pending [OF this] empty_subsetI, of "node_keys v"]
  have "charged (node_keys v) s (u\<lparr>ps_pending := v # ps_pending u\<rparr>) (\<lambda>f. cs ! f v)"
    using charged_trans [OF charged_trans [OF charged_mono [OF one empty_subsetI] u(2)] three] by simp
  moreover have "charge_node v cs s = Some (u\<lparr>ps_pending := v # ps_pending u\<rparr>)"
    unfolding charge_node_def Let_def recharged_def [symmetric] using u(1) by simp
  ultimately show ?thesis using u(3) same(1) by simp
qed

end
