(* ===== verification/PbqpReduce.thy ===== *)
theory PbqpReduce
  imports PbqpCharge
begin

text \<open>
  The optimal reductions of the PBQP solver. Taking a node out of the graph charges its neighbours the cheapest
  it can cost them, and back propagation gives it an alternative of that cost, so a solution of the reduced
  graph extends to one of the graph with the same capped cost.
\<close>

subsection \<open>Taking a node out\<close>

definition deadened :: "nat \<Rightarrow> PbSolver \<Rightarrow> PbSolver" where
  "deadened node s = s\<lparr>ps_alive := (ps_alive s)[node := False]\<rparr>"

lemma deadened_parts [simp]:
  "ps_costs (deadened node s) = ps_costs s" "ps_edges (deadened node s) = ps_edges s"
  "ps_adjacency (deadened node s) = ps_adjacency s" "ps_between (deadened node s) = ps_between s"
  "ps_pending (deadened node s) = ps_pending s" "ps_reduced (deadened node s) = ps_reduced s"
  "ps_choices (deadened node s) = ps_choices s" "length (ps_alive (deadened node s)) = length (ps_alive s)"
  "live_edges (deadened node s) = live_edges s" "touches (deadened node s) = touches s" "key_of (deadened node s) = key_of s"
  "edge_at (deadened node s) = edge_at s"
  by (simp_all add: deadened_def live_edges_def touches_def key_of_def edge_at_def fun_eq_iff)

lemma live_deadened: "ps_wf s \<Longrightarrow> live_nodes (deadened node s) = live_nodes s - {node}"
  by (auto simp: live_nodes_def deadened_def ps_wf_def nth_update_if)

lemma deadened_wf [simp]: "ps_wf (deadened node s) = ps_wf s"
  by (simp add: ps_wf_def lists_edges_def finds_edges_def)

lemma deadened_total:
  assumes "ps_wf s" "node \<in> live_nodes s"
  shows "pq_total s f = pq_total (deadened node s) f + ps_costs s ! node ! f node"
  using assms by (simp add: pq_total_def live_deadened sum.remove [of "live_nodes s" node])

lemma deadened_ends:
  assumes "ends_alive {} s"
  shows "ends_alive {node} (deadened node s)"
  using assms by (auto simp: ends_alive_def deadened_def nth_update_if live_edges_def)

definition edgeless :: "PbSolver \<Rightarrow> nat \<Rightarrow> bool" where
  "edgeless s v \<longleftrightarrow> (\<forall>e\<in>live_edges s. \<not> touches s v e)"

lemma total_indep:
  assumes "v \<notin> live_nodes s" "edgeless s v"
  shows "pq_total s (f(v := x)) = pq_total s f"
proof -
  have "(\<Sum>u\<in>live_nodes s. ps_costs s ! u ! (f(v := x)) u) = (\<Sum>u\<in>live_nodes s. ps_costs s ! u ! f u)"
    using assms(1) by (intro sum.cong) auto
  moreover have "(\<Sum>e\<in>live_edges s. edge_at s (f(v := x)) e) = (\<Sum>e\<in>live_edges s. edge_at s f e)"
    using assms(2) by (intro sum.cong) (auto simp: edgeless_def touches_def edge_at_def)
  ultimately show ?thesis by (simp add: pq_total_def)
qed

lemma ends_edgeless: "\<lbrakk>ends_alive {v} s; edgeless s v\<rbrakk> \<Longrightarrow> ends_alive {} s"
  by (auto simp: ends_alive_def edgeless_def touches_def)

lemma alive_from_ends: "\<lbrakk>ends_alive {} s; e \<in> live_edges s\<rbrakk> \<Longrightarrow> edge_alive s e"
  by (simp add: ends_alive_def edge_alive_def)

lemma edge_at_cost:
  assumes "touches s v e"
  shows "edge_at s f e = edge_cost s e v (f v) (f (other_end s e v))"
  using assms by (auto simp: edge_at_def edge_cost_def other_end_def touches_def Let_def)

lemma other_end_live:
  assumes "ps_wf s" "e \<in> live_edges s" "touches s v e"
  shows "other_end s e v < node_count s" "other_end s e v \<noteq> v" "key_of s e = edge_key v (other_end s e v)"
    "touches s (other_end s e v) e"
  using live_edge_ends [OF assms(1,2)] assms(3)
  by (auto simp: other_end_def touches_def key_of_def edge_key_iff Let_def)

subsection \<open>Stacks and solutions\<close>

definition stack_ok :: "PbSolver \<Rightarrow> bool" where
  "stack_ok s \<longleftrightarrow>
     (\<forall>r\<in>set (ps_reduced s). reduced_node r < node_count s \<and> \<not> ps_alive s ! reduced_node r \<and>
        (\<forall>e\<in>set (reduced_edges r). e < length (ps_edges s) \<and> \<not> pe_live (ps_edges s ! e)))"

definition pq_inv :: "PbSolver \<Rightarrow> bool" where
  "pq_inv s \<longleftrightarrow> ps_wf s \<and> ends_alive {} s \<and> stack_ok s"

text \<open>What back propagation reads of a reduction.\<close>

definition reads_same :: "PbSolver \<Rightarrow> PbSolver \<Rightarrow> Reduced \<Rightarrow> bool" where
  "reads_same s s' r \<longleftrightarrow>
     ps_costs s' ! reduced_node r = ps_costs s ! reduced_node r \<and>
     (\<forall>e\<in>set (reduced_edges r).
        pe_lhs (ps_edges s' ! e) = pe_lhs (ps_edges s ! e) \<and> pe_rhs (ps_edges s' ! e) = pe_rhs (ps_edges s ! e) \<and>
        pe_matrix (ps_edges s' ! e) = pe_matrix (ps_edges s ! e))"

lemma back_step_cong:
  assumes "reads_same s s' r"
  shows "back_step s' r ch = back_step s r ch"
proof -
  have o: "other_end s' e v = other_end s e v" "edge_cost s' e v a b = edge_cost s e v a b" if "e \<in> set (reduced_edges r)" for e v a b
    using assms that by (simp_all add: reads_same_def other_end_def edge_cost_def Let_def)
  define es where "es = reduced_edges r"
  have m: "map (\<lambda>edge. (edge, ch ! other_end s' edge v)) es = map (\<lambda>edge. (edge, ch ! other_end s edge v)) es" for v
    using o unfolding es_def by simp
  have "fold (\<lambda>(edge, other) total. cost_add total (edge_cost s' edge v own other)) (map (\<lambda>e. (e, g e)) zs) c =
      fold (\<lambda>(edge, other) total. cost_add total (edge_cost s edge v own other)) (map (\<lambda>e. (e, g e)) zs) c"
    if "set zs \<subseteq> set es" for zs v own g c
    using that o unfolding es_def by (induction zs arbitrary: c) auto
  from this [OF subset_refl] show ?thesis
    using assms m unfolding back_step_def best_response_def Let_def reads_same_def es_def by (simp cong: map_cong)
qed

lemma back_fold_cong: "(\<And>r. r \<in> set rs \<Longrightarrow> reads_same s s' r) \<Longrightarrow> fold (back_step s') rs ch = fold (back_step s) rs ch"
proof (induction rs arbitrary: ch)
  case (Cons r rs)
  then show ?case using back_step_cong [of s s' r] by simp
qed simp

definition full_choice :: "PbSolver \<Rightarrow> nat list \<Rightarrow> bool" where
  "full_choice s ch \<longleftrightarrow> length ch = node_count s \<and> assigns s (nth ch)"

text \<open>\<open>solves c s\<close>: \<open>c\<close> is a cost on all nodes. What is left in \<open>s\<close> bounds it from below, and a choice for what is left
  extends, by back propagation, to one that costs no more.\<close>

definition solves :: "((nat \<Rightarrow> nat) \<Rightarrow> nat) \<Rightarrow> PbSolver \<Rightarrow> bool" where
  "solves c s \<longleftrightarrow>
     (\<exists>K. (\<forall>f. assigns s f \<longrightarrow> cap (K + pq_total s f) \<le> cap (c f)) \<and>
          (\<forall>ch. full_choice s ch \<longrightarrow>
             full_choice s (fold (back_step s) (ps_reduced s) ch) \<and>
             cap (c (nth (fold (back_step s) (ps_reduced s) ch))) \<le> cap (K + pq_total s (nth ch))))"

lemma cap_add_mono: "cap a \<le> cap b \<Longrightarrow> cap (k + a) \<le> cap (k + b)"
  by (auto simp: cap_def min_def split: if_splits)

lemma solves_step:
  assumes sol: "solves c s" and red: "ps_reduced s' = rs @ ps_reduced s"
    and same: "\<And>r. r \<in> set (ps_reduced s) \<Longrightarrow> reads_same s s' r"
    and lens: "map length (ps_costs s') = map length (ps_costs s)"
    and lower: "\<And>f. assigns s f \<Longrightarrow> cap (k + pq_total s' f) \<le> cap (pq_total s f)"
    and upper: "\<And>ch. full_choice s ch \<Longrightarrow>
      full_choice s (fold (back_step s') rs ch) \<and> cap (pq_total s (nth (fold (back_step s') rs ch))) \<le> cap (k + pq_total s' (nth ch))"
  shows "solves c s'"
proof -
  obtain K where lo: "\<And>f. assigns s f \<Longrightarrow> cap (K + pq_total s f) \<le> cap (c f)"
    and up: "\<And>ch. full_choice s ch \<Longrightarrow> full_choice s (fold (back_step s) (ps_reduced s) ch) \<and>
             cap (c (nth (fold (back_step s) (ps_reduced s) ch))) \<le> cap (K + pq_total s (nth ch))"
    using sol unfolding solves_def by blast
  have n: "node_count s' = node_count s" using lens by (metis length_map)
  have "length (ps_costs s' ! v) = length (ps_costs s ! v)" if "v < node_count s" for v
    using lens that n by (metis nth_map)
  then have as: "assigns s' f = assigns s f" for f by (simp add: assigns_def n)
  then have full: "full_choice s' ch = full_choice s ch" for ch by (simp add: full_choice_def n)
  have bp: "fold (back_step s') (ps_reduced s') ch = fold (back_step s) (ps_reduced s) (fold (back_step s') rs ch)" for ch
    using back_fold_cong [OF same] by (simp add: red)
  have "cap (K + k + pq_total s' f) \<le> cap (c f)" if "assigns s f" for f
    using cap_add_mono [OF lower [OF that], of K] lo [OF that] by (simp add: add.assoc)
  moreover have "full_choice s (fold (back_step s') (ps_reduced s') ch) \<and>
     cap (c (nth (fold (back_step s') (ps_reduced s') ch))) \<le> cap (K + k + pq_total s' (nth ch))" if "full_choice s ch" for ch
  proof -
    let ?ch = "fold (back_step s') rs ch"
    have f: "full_choice s ?ch" using upper [OF that] by blast
    have "cap (K + pq_total s (nth ?ch)) \<le> cap (K + k + pq_total s' (nth ch))"
      using cap_add_mono [OF conjunct2 [OF upper [OF that]], of K] by (simp add: add.assoc)
    then show ?thesis
      using up [OF f] unfolding bp by auto
  qed
  ultimately show ?thesis
    unfolding solves_def as full by blast
qed

lemma keeps_reads:
  assumes "keeps s s'" "stack_ok s" "r \<in> set (ps_reduced s)"
  shows "reads_same s s' r"
proof -
  have r: "reduced_node r < node_count s" "\<not> ps_alive s ! reduced_node r"
    "\<And>e. e \<in> set (reduced_edges r) \<Longrightarrow> e < length (ps_edges s) \<and> \<not> pe_live (ps_edges s ! e)"
    using assms(2,3) by (auto simp: stack_ok_def)
  then show ?thesis
    using assms(1) by (auto simp: reads_same_def keeps_def)
qed

lemma keeps_stack:
  assumes "keeps s s'" "stack_ok s"
  shows "stack_ok s'"
proof -
  have "e < length (ps_edges s') \<and> \<not> pe_live (ps_edges s' ! e)" if "e < length (ps_edges s)" "\<not> pe_live (ps_edges s ! e)" for e
    using keeps_edge [OF assms(1) that(1)] that by simp
  moreover have "ps_alive s' = ps_alive s" "ps_reduced s' = ps_reduced s" using assms(1) by (simp_all add: keeps_def)
  ultimately show ?thesis
    using assms(2) keeps_count [OF assms(1)] by (simp add: stack_ok_def)
qed

definition response :: "PbSolver \<Rightarrow> nat \<Rightarrow> (nat \<times> nat) list \<Rightarrow> nat \<Rightarrow> nat" where
  "response s v fixed own = fold (\<lambda>(edge, other) total. cost_add total (edge_cost s edge v own other)) fixed (ps_costs s ! v ! own)"

lemma best_response_min:
  assumes "ps_costs s ! v \<noteq> []"
  shows "fst (best_response s v fixed) < length (ps_costs s ! v)"
    "own < length (ps_costs s ! v) \<Longrightarrow> response s v fixed (fst (best_response s v fixed)) \<le> response s v fixed own"
proof -
  let ?xs = "map (response s v fixed) [0..<length (ps_costs s ! v)]"
  have b: "best_response s v fixed = first_min ?xs" by (simp add: best_response_def response_def [abs_def])
  have ne: "?xs \<noteq> []" using assms by simp
  show lt: "fst (best_response s v fixed) < length (ps_costs s ! v)"
    using first_min_spec(1) [OF ne] by (simp add: b)
  show "response s v fixed (fst (best_response s v fixed)) \<le> response s v fixed own" if "own < length (ps_costs s ! v)"
    using first_min_le [of own ?xs] that lt by (simp add: b)
qed

text \<open>What an alternative of a node costs with its edges, before the cap.\<close>

definition resp_sum :: "PbSolver \<Rightarrow> nat \<Rightarrow> nat list \<Rightarrow> (nat \<Rightarrow> nat) \<Rightarrow> nat \<Rightarrow> nat" where
  "resp_sum s v es f own = ps_costs s ! v ! own + (\<Sum>e\<leftarrow>es. edge_cost s e v own (f (other_end s e v)))"

lemma cap_response: "cap (response s v (map (\<lambda>e. (e, f (other_end s e v))) es) own) = cap (resp_sum s v es f own)"
proof -
  have "cap (fold (\<lambda>(edge, other) total. cost_add total (edge_cost s edge v own other)) (map (\<lambda>e. (e, f (other_end s e v))) es) c) =
      cap (c + (\<Sum>e\<leftarrow>es. edge_cost s e v own (f (other_end s e v))))" for c
    by (induction es arbitrary: c) (simp_all add: cost_add_cap add.assoc)
  then show ?thesis by (simp add: response_def resp_sum_def)
qed

lemma full_choice_update: "\<lbrakk>full_choice s ch; x < length (ps_costs s ! v)\<rbrakk> \<Longrightarrow> full_choice s (ch[v := x])"
  by (auto simp: full_choice_def assigns_def nth_update_if)

lemma nth_fun_upd: "v < length ch \<Longrightarrow> nth (ch[v := x]) = (nth ch)(v := x)"
  by (auto simp: fun_eq_iff nth_list_update)

lemma reduction_bounds:
  assumes wf: "ps_wf s" and node: "node < node_count s" and r: "reduced_node r = node" "reduced_edges r = es" "reads_same s s' r"
    and others: "\<And>e. e \<in> set es \<Longrightarrow> other_end s e node \<noteq> node"
    and tot: "\<And>f. pq_total s f = pq_total t f + resp_sum s node es f (f node)"
    and indep: "\<And>f x. pq_total t (f(node := x)) = pq_total t f"
    and eq: "\<And>f. assigns s f \<Longrightarrow> cap (k + pq_total s' f) = cap (pq_total t f + d f)"
    and d_le: "\<And>f own. \<lbrakk>assigns s f; own < length (ps_costs s ! node)\<rbrakk> \<Longrightarrow> cap (d f) \<le> cap (resp_sum s node es f own)"
    and d_att: "\<And>f. assigns s f \<Longrightarrow> \<exists>own<length (ps_costs s ! node). cap (resp_sum s node es f own) \<le> cap (d f)"
  shows "assigns s f \<Longrightarrow> cap (k + pq_total s' f) \<le> cap (pq_total s f)"
    and "full_choice s ch \<Longrightarrow> full_choice s (back_step s' r ch) \<and> cap (pq_total s (nth (back_step s' r ch))) \<le> cap (k + pq_total s' (nth ch))"
proof -
  show "cap (k + pq_total s' f) \<le> cap (pq_total s f)" if f: "assigns s f"
    using cap_add_mono [OF d_le [OF f, of "f node"], of "pq_total t f"] f node by (simp add: eq tot assigns_def)
  assume ch: "full_choice s ch"
  let ?f = "nth ch" let ?fixed = "map (\<lambda>e. (e, ?f (other_end s e node))) es"
  let ?b = "fst (best_response s node ?fixed)"
  have a: "assigns s ?f" and len: "length ch = node_count s" using ch by (auto simp: full_choice_def)
  have ne: "ps_costs s ! node \<noteq> []" using wf node by (simp add: ps_wf_def)
  have step: "back_step s' r ch = ch[node := ?b]"
    unfolding back_step_cong [OF r(3)] by (simp add: back_step_def r Let_def)
  have full: "full_choice s (ch[node := ?b])"
    by (rule full_choice_update [OF ch best_response_min(1) [OF ne]])
  obtain own where own: "own < length (ps_costs s ! node)" "cap (resp_sum s node es ?f own) \<le> cap (d ?f)"
    using d_att [OF a] by blast
  have "cap (resp_sum s node es ?f ?b) \<le> cap (resp_sum s node es ?f own)"
    using cap_mono [OF best_response_min(2) [OF ne own(1), of ?fixed]] by (simp add: cap_response)
  then have le: "cap (resp_sum s node es ?f ?b) \<le> cap (d ?f)" using own(2) by simp
  have g: "nth (ch[node := ?b]) = ?f(node := ?b)" using len node by (simp add: nth_fun_upd)
  have "map (\<lambda>e. edge_cost s e node ?b ((?f(node := ?b)) (other_end s e node))) es = map (\<lambda>e. edge_cost s e node ?b (?f (other_end s e node))) es"
    using others by (intro map_cong) auto
  then have "pq_total s (nth (ch[node := ?b])) = pq_total t ?f + resp_sum s node es ?f ?b"
    unfolding tot g indep by (simp only: resp_sum_def fun_upd_same)
  then show "full_choice s (back_step s' r ch) \<and> cap (pq_total s (nth (back_step s' r ch))) \<le> cap (k + pq_total s' (nth ch))"
    using full cap_add_mono [OF le, of "pq_total t ?f"] by (simp add: step eq [OF a])
qed

subsection \<open>Laying out an edge\<close>

lemma chunks_exact_concat: "\<lbrakk>0 < k; \<And>r. r \<in> set rows \<Longrightarrow> length r = k\<rbrakk> \<Longrightarrow> chunks_exact k (concat rows) = rows"
proof (induction rows)
  case Nil
  then show ?case by (simp add: chunks_exact.simps)
next
  case (Cons r rows)
  then have "length r = k" by simp
  then have "chunks_exact k (concat (r # rows)) = r # chunks_exact k (concat rows)"
    using Cons.prems(1) by (subst chunks_exact.simps) simp
  then show ?case using Cons by simp
qed

lemma laid_out_rows:
  assumes wf: "ps_wf s" and e: "e \<in> live_edges s" "touches s v e"
  shows "chunks_exact (length (ps_costs s ! v)) (laid_out s e (other_end s e v)) =
    map (\<lambda>i. map (\<lambda>j. edge_cost s e v j i) [0..<length (ps_costs s ! v)]) [0..<length (ps_costs s ! other_end s e v)]"
proof -
  let ?e = "ps_edges s ! e" and ?o = "other_end s e v"
  note ends = live_edge_ends [OF wf e(1)]
  define m where "m = (if pe_lhs ?e = ?o then pe_matrix ?e else transposed (pe_matrix ?e))"
  have fits: "fits_costs (ps_costs s ! pe_lhs ?e) (ps_costs s ! pe_rhs ?e) (pe_matrix ?e)"
    using wf e(1) by (auto simp: ps_wf_def edge_ok_def live_edges_def)
  have m: "mx_wf m" "mx_rows m = length (ps_costs s ! ?o)" "mx_cols m = length (ps_costs s ! v)"
    using fits e(2) ends(3) by (auto simp: m_def fits_costs_def other_end_def touches_def Let_def)
  have get: "mx_get m i j = edge_cost s e v j i" if "i < mx_rows m" "j < mx_cols m" for i j
    using that m fits e(2) ends(3)
    by (auto simp: m_def edge_cost_def fits_costs_def other_end_def touches_def Let_def mx_get_transposed)
  have laid: "laid_out s e ?o = mx_costs m" by (simp add: laid_out_def m_def Let_def)
  have v: "v < node_count s" using e(2) ends by (auto simp: touches_def)
  have "chunks_exact (mx_cols m) (mx_costs m) = map (mx_row m) [0..<mx_rows m]"
    by (rule chunks_exact_rows [OF m(1)]) (use wf v m in \<open>simp add: ps_wf_def\<close>)
  also have "\<dots> = map (\<lambda>i. map (\<lambda>j. edge_cost s e v j i) [0..<mx_cols m]) [0..<mx_rows m]"
    using m(1) get mx_row_length [OF m(1)] mx_row_nth [OF m(1)] by (intro map_cong refl nth_equalityI) auto
  finally show ?thesis
    unfolding m by (simp only: laid)
qed

subsection \<open>A node with its edges taken out\<close>

definition pushed :: "Reduced \<Rightarrow> PbSolver \<Rightarrow> PbSolver" where
  "pushed r s = s\<lparr>ps_reduced := r # ps_reduced s\<rparr>"

lemma pushed_parts [simp]:
  "ps_costs (pushed r s) = ps_costs s" "ps_edges (pushed r s) = ps_edges s" "ps_adjacency (pushed r s) = ps_adjacency s"
  "ps_between (pushed r s) = ps_between s" "ps_alive (pushed r s) = ps_alive s" "ps_pending (pushed r s) = ps_pending s"
  "ps_reduced (pushed r s) = r # ps_reduced s" "ps_choices (pushed r s) = ps_choices s"
  by (simp_all add: pushed_def)

lemma pushed_graph [simp]:
  "live_edges (pushed r s) = live_edges s" "live_nodes (pushed r s) = live_nodes s" "touches (pushed r s) = touches s"
  "key_of (pushed r s) = key_of s" "pq_total (pushed r s) = pq_total s" "assigns (pushed r s) = assigns s"
  "ends_alive X (pushed r s) = ends_alive X s" "low_queued (pushed r s) = low_queued s" "ps_wf (pushed r s) = ps_wf s"
  by (simp_all add: live_edges_def live_nodes_def touches_def key_of_def pq_total_def edge_at_def assigns_def ends_alive_def
      low_queued_def ps_wf_def lists_edges_def finds_edges_def fun_eq_iff)

lemma unlink_all_facts:
  assumes "ps_wf u" "distinct es" "set es \<subseteq> live_edges u"
  shows "ps_wf (fold unlinked es u) \<and> keeps u (fold unlinked es u) \<and> live_edges (fold unlinked es u) = live_edges u - set es \<and>
    ps_costs (fold unlinked es u) = ps_costs u \<and> live_nodes (fold unlinked es u) = live_nodes u \<and>
    (\<forall>i. pe_matrix (ps_edges (fold unlinked es u) ! i) = pe_matrix (ps_edges u ! i)) \<and>
    (\<forall>f. pq_total u f = pq_total (fold unlinked es u) f + (\<Sum>e\<leftarrow>es. edge_at u f e)) \<and>
    (\<forall>X. ends_alive X u \<longrightarrow> ends_alive X (fold unlinked es u)) \<and>
    length (ps_edges (fold unlinked es u)) = length (ps_edges u)"
  using assms
proof (induction es arbitrary: u)
  case (Cons e es)
  let ?u = "unlinked e u" let ?w = "fold unlinked es ?u"
  have e: "e \<in> live_edges u" "ps_wf ?u" "set es \<subseteq> live_edges ?u" "distinct es"
    using Cons.prems unlinked_wf [of u e] by (auto simp: live_unlinked)
  have at: "edge_at ?u = edge_at u" by (simp add: edge_at_def fun_eq_iff)
  note IH = Cons.IH [OF e(2,4,3)]
  have "keeps u ?w" using keeps_trans [OF unlinked_keeps [OF Cons.prems(1) e(1)]] IH by blast
  moreover have "live_edges ?w = live_edges u - set (e # es)" using IH by (auto simp: live_unlinked)
  moreover have "pq_total u f = pq_total ?w f + (\<Sum>i\<leftarrow>e # es. edge_at u f i)" for f
    using IH unlinked_total [OF e(1), of f] by (simp add: at)
  moreover have "ends_alive X u \<longrightarrow> ends_alive X ?w" for X using IH unlinked_ends_alive by blast
  ultimately show ?case using IH by simp
qed simp

lemma unlink_all:
  assumes "ps_wf u" "distinct es" "set es \<subseteq> live_edges u"
  shows "ps_wf (fold unlinked es u)" "keeps u (fold unlinked es u)" "live_edges (fold unlinked es u) = live_edges u - set es"
    "ps_costs (fold unlinked es u) = ps_costs u" "live_nodes (fold unlinked es u) = live_nodes u"
    "pe_matrix (ps_edges (fold unlinked es u) ! i) = pe_matrix (ps_edges u ! i)"
    "pq_total u f = pq_total (fold unlinked es u) f + (\<Sum>e\<leftarrow>es. edge_at u f e)"
    "ends_alive X u \<Longrightarrow> ends_alive X (fold unlinked es u)"
    "length (ps_edges (fold unlinked es u)) = length (ps_edges u)"
  using unlink_all_facts [OF assms] by blast+

definition taken :: "nat \<Rightarrow> PbSolver \<Rightarrow> PbSolver" where
  "taken node s = fold unlinked (ps_adjacency s ! node) (deadened node s)"

lemma taken_facts:
  assumes inv: "pq_inv s" and node: "node \<in> live_nodes s"
  shows "ps_wf (taken node s)" "keeps (deadened node s) (taken node s)" "ps_costs (taken node s) = ps_costs s"
    "live_edges (taken node s) = {e \<in> live_edges s. \<not> touches s node e}" "live_nodes (taken node s) = live_nodes s - {node}"
    "pe_matrix (ps_edges (taken node s) ! i) = pe_matrix (ps_edges s ! i)"
    "pq_total s f = pq_total (taken node s) f + resp_sum s node (ps_adjacency s ! node) f (f node)"
    "ends_alive {} (taken node s)" "edgeless (taken node s) node"
    "length (ps_edges (taken node s)) = length (ps_edges s)"
proof -
  let ?u = "deadened node s" and ?es = "ps_adjacency s ! node"
  have wf: "ps_wf s" and ends: "ends_alive {} s" using inv by (auto simp: pq_inv_def)
  have n: "node < node_count s" using node by (simp add: live_nodes_def)
  have es: "distinct ?es" "set ?es = {e \<in> live_edges s. touches s node e}"
    using wf n by (auto simp: ps_wf_def lists_edges_def)
  then have sub: "set ?es \<subseteq> live_edges ?u" by auto
  have wf': "ps_wf ?u" using wf by simp
  note all = unlink_all [OF wf' es(1) sub, folded taken_def]
  show "ps_wf (taken node s)" "keeps ?u (taken node s)" "ps_costs (taken node s) = ps_costs s"
    "pe_matrix (ps_edges (taken node s) ! i) = pe_matrix (ps_edges s ! i)"
    "length (ps_edges (taken node s)) = length (ps_edges s)"
    using all by simp_all
  show live: "live_edges (taken node s) = {e \<in> live_edges s. \<not> touches s node e}" using all(3) es by auto
  show "live_nodes (taken node s) = live_nodes s - {node}" using all(5) live_deadened [OF wf] by simp
  have "touches (taken node s) v e = touches s v e" if "e \<in> live_edges s" for v e
    using keeps_edge(2,3) [OF all(2), of e] that by (simp add: touches_def live_edges_def)
  then show el: "edgeless (taken node s) node" by (auto simp: edgeless_def live)
  show "ends_alive {} (taken node s)"
    by (rule ends_edgeless [OF all(8) [OF deadened_ends [OF ends]] el])
  have "(\<Sum>e\<leftarrow>?es. edge_at s f e) = (\<Sum>e\<leftarrow>?es. edge_cost s e node (f node) (f (other_end s e node)))"
    using es(2) edge_at_cost [of s node] by (intro arg_cong [where f = sum_list] map_cong) auto
  then show "pq_total s f = pq_total (taken node s) f + resp_sum s node ?es f (f node)"
    using all(7) [of f] deadened_total [OF wf node, of f] by (simp add: resp_sum_def)
qed

text \<open>What a reduction leaves: the invariant, one node fewer, and the same problem.\<close>

definition reduced_from :: "nat \<Rightarrow> PbSolver \<Rightarrow> PbSolver \<Rightarrow> bool" where
  "reduced_from node s s' \<longleftrightarrow>
     pq_inv s' \<and> live_nodes s' = live_nodes s - {node} \<and> map length (ps_costs s') = map length (ps_costs s) \<and>
     ps_choices s' = ps_choices s \<and> (low_queued (deadened node s) \<longrightarrow> low_queued s') \<and> (\<forall>c. solves c s \<longrightarrow> solves c s')"

lemma reduced_from_charged:
  assumes inv: "pq_inv s" and node: "node \<in> live_nodes s"
    and r: "reduced_node r = node" "reduced_edges r = ps_adjacency s ! node"
    and ch: "charged P (pushed r (taken node s)) s' d'" and d: "\<And>f. d f = k + d' f"
    and d_le: "\<And>f own. \<lbrakk>assigns s f; own < length (ps_costs s ! node)\<rbrakk> \<Longrightarrow> cap (d f) \<le> cap (resp_sum s node (ps_adjacency s ! node) f own)"
    and d_att: "\<And>f. assigns s f \<Longrightarrow> \<exists>own<length (ps_costs s ! node). cap (resp_sum s node (ps_adjacency s ! node) f own) \<le> cap (d f)"
  shows "reduced_from node s s'"
proof -
  let ?t = "taken node s" and ?u = "deadened node s" and ?es = "ps_adjacency s ! node"
  note tk = taken_facts [OF inv node]
  have wf: "ps_wf s" and n: "node < node_count s" "ps_alive s ! node" using inv node by (auto simp: pq_inv_def live_nodes_def)
  have es: "set ?es = {e \<in> live_edges s. touches s node e}" using wf n by (auto simp: ps_wf_def lists_edges_def)
  have keep: "keeps (pushed r ?t) s'" and wf': "ps_wf s'" using ch by (auto simp: charged_def)
  have red: "ps_reduced ?t = ps_reduced s" "ps_alive ?t = (ps_alive s)[node := False]" "ps_choices ?t = ps_choices s"
    using tk(2) by (auto simp: keeps_def deadened_def)
  have "stack_ok s" using inv by (simp add: pq_inv_def)
  then have "stack_ok ?u" by (auto simp: stack_ok_def deadened_def nth_update_if)
  then have "stack_ok ?t" by (rule keeps_stack [OF tk(2)])
  moreover have "\<not> ps_alive ?t ! node" using n wf by (simp add: red ps_wf_def)
  moreover have "e < length (ps_edges ?t) \<and> \<not> pe_live (ps_edges ?t ! e)" if "e \<in> set ?es" for e
    using that tk(4,10) unfolding es by (auto simp: live_edges_def)
  ultimately have stack: "stack_ok (pushed r ?t)"
    using n r tk(3) by (auto simp: stack_ok_def)
  have rt: "reads_same s (pushed r ?t) q" if "q \<in> set (r # ps_reduced s)" for q
  proof -
    have "e < length (ps_edges s)" if "e \<in> set (reduced_edges q)" for e
      using \<open>q \<in> _\<close> that r(2) es \<open>stack_ok s\<close> by (auto simp: stack_ok_def live_edges_def)
    then show ?thesis
      using keeps_edge(2,3) [OF tk(2)] tk(3,6) by (simp add: reads_same_def)
  qed
  have reads: "reads_same s s' q" if "q \<in> set (r # ps_reduced s)" for q
    using rt [OF that] keeps_reads [OF keep stack, of q] that red(1) by (simp add: reads_same_def)
  have lens: "map length (ps_costs s') = map length (ps_costs s)" using keep tk(3) by (simp add: keeps_def)
  have as: "assigns ?t f = assigns s f" for f by (simp add: assigns_def tk(3))
  have eq: "cap (k + pq_total s' f) = cap (pq_total ?t f + d f)" if "assigns s f" for f
  proof -
    have "cap (pq_total s' f) = cap (pq_total ?t f + d' f)" using ch that as by (simp add: charged_def)
    then show ?thesis unfolding d by (metis (no_types) add.left_commute cap_add(2))
  qed
  have others: "other_end s e node \<noteq> node" if "e \<in> set ?es" for e
    using that other_end_live(2) [OF wf, of e node] es by blast
  have indep: "pq_total ?t (f(node := x)) = pq_total ?t f" for f x
    by (rule total_indep) (use tk(5,9) in auto)
  note bounds = reduction_bounds [OF wf n(1) r(1,2) reads [of r, simplified] others tk(7) indep eq d_le d_att]
  have "solves c s'" if "solves c s" for c
    by (rule solves_step [OF that, of s' "[r]" k])
      (use keep red(1) reads lens bounds in \<open>auto simp: keeps_def\<close>)
  moreover have "pq_inv s'"
    unfolding pq_inv_def using wf' keeps_stack [OF keep stack] ch tk(8) by (auto simp: charged_def)
  moreover have "live_nodes s' = live_nodes s - {node}"
    using keep keeps_count [OF keep] tk(5) by (simp add: live_nodes_def keeps_def tk(3))
  moreover have "low_queued s'" if "low_queued ?u"
    using that keep tk(2) by (simp add: keeps_def)
  moreover have "ps_choices s' = ps_choices s" using keep red(3) by (simp add: keeps_def)
  ultimately show ?thesis using lens by (simp add: reduced_from_def)
qed

end
