(* ===== verification/PbqpOptimal.thy ===== *)
theory PbqpOptimal
  imports PbqpReduce "HOL-Library.Multiset"
begin

text \<open>
  The reductions R0, R1 and R2 of the PBQP solver are exact, the loop that applies them ends, and a problem that
  they eliminate is solved to optimality.
\<close>

subsection \<open>The three reductions\<close>

lemma key_unique: "\<lbrakk>ps_wf s; e \<in> live_edges s; e' \<in> live_edges s; key_of s e = key_of s e'\<rbrakk> \<Longrightarrow> e = e'"
  unfolding ps_wf_def finds_edges_def by (metis option.inject)

lemma adjacent_facts:
  assumes inv: "pq_inv s" and node: "node \<in> live_nodes s" and e: "e \<in> set (ps_adjacency s ! node)"
  shows "e \<in> live_edges s" "touches s node e" "other_end s e node \<in> live_nodes s - {node}"
    "key_of s e = edge_key node (other_end s e node)"
proof -
  have wf: "ps_wf s" and n: "node < node_count s" using inv node by (auto simp: pq_inv_def live_nodes_def)
  show l: "e \<in> live_edges s" "touches s node e" using e wf n by (auto simp: ps_wf_def lists_edges_def)
  note o = other_end_live [OF wf l]
  have "edge_alive s e" using alive_from_ends inv l(1) by (simp add: pq_inv_def)
  then show "other_end s e node \<in> live_nodes s - {node}"
    using o(1,2,4) by (auto simp: live_nodes_def edge_alive_def touches_def)
  show "key_of s e = edge_key node (other_end s e node)" by (rule o(3))
qed

lemma node_nonempty: "\<lbrakk>pq_inv s; node \<in> live_nodes s\<rbrakk> \<Longrightarrow> ps_costs s ! node \<noteq> []"
  by (simp add: pq_inv_def ps_wf_def live_nodes_def)

lemma reduce_zero_exact:
  assumes inv: "pq_inv s" and node: "node \<in> live_nodes s" and adj: "ps_adjacency s ! node = []"
  shows "reduced_from node s (reduce_zero node s)"
proof -
  have t: "reduce_zero node s = pushed (R0 node) (taken node s)"
    by (simp add: reduce_zero_def pushed_def taken_def adj deadened_def)
  have ne: "ps_costs s ! node \<noteq> []" by (rule node_nonempty [OF inv node])
  show ?thesis
    unfolding t
  proof (rule reduced_from_charged [OF inv node, where k = "min_list (ps_costs s ! node)"])
    show "charged {} (pushed (R0 node) (taken node s)) (pushed (R0 node) (taken node s)) (\<lambda>_. 0)"
      using charged_refl taken_facts(1) [OF inv node] by simp
    show "cap (min_list (ps_costs s ! node)) \<le> cap (resp_sum s node (ps_adjacency s ! node) f own)"
      if "own < length (ps_costs s ! node)" for f own
      using that by (auto simp: resp_sum_def adj intro!: cap_mono min_list_le)
    have "min_list (ps_costs s ! node) \<in> set (ps_costs s ! node)" by (rule min_list_in [OF ne])
    then show "\<exists>own<length (ps_costs s ! node). cap (resp_sum s node (ps_adjacency s ! node) f own) \<le> cap (min_list (ps_costs s ! node))" for f
      by (force simp: in_set_conv_nth resp_sum_def adj)
  qed (simp_all add: adj)
qed

lemma reduce_one_exact:
  assumes inv: "pq_inv s" and node: "node \<in> live_nodes s" and adj: "ps_adjacency s ! node = [e]"
  shows "\<exists>s'. reduce_one node s = Some s' \<and> reduced_from node s s'"
proof -
  let ?nb = "other_end s e node" and ?own = "ps_costs s ! node" and ?u = "deadened node s" and ?t = "taken node s"
  note tk = taken_facts [OF inv node] and e = adjacent_facts [OF inv node, of e, unfolded adj, simplified]
  have wf: "ps_wf s" using inv by (simp add: pq_inv_def)
  have ne: "?own \<noteq> []" by (rule node_nonempty [OF inv node])
  define row where "row i = map (\<lambda>j. edge_cost s e node j i) [0..<length ?own]" for i
  define delta where "delta = map (\<lambda>i. min_sum ?own (row i)) [0..<length (ps_costs s ! ?nb)]"
  have d: "map (min_sum ?own) (chunks_exact (length ?own) (laid_out s e ?nb)) = delta"
    unfolding laid_out_rows [OF wf e(1,2)] by (simp add: delta_def row_def)
  have un: "unlink e ?u = Some ?t"
    using unlink_is [of ?u e] wf e(1) by (simp add: taken_def adj)
  have "\<exists>s'. charge_node ?nb delta (pushed (R1 node e) ?t) = Some s' \<and>
      charged (node_keys ?nb) (pushed (R1 node e) ?t) s' (\<lambda>f. delta ! f ?nb) \<and> length (ps_edges s') = length (ps_edges (pushed (R1 node e) ?t))"
    by (rule charge_node_charged)
      (use tk(1,3,5,8) e(3) in \<open>simp_all add: delta_def alive_from_ends\<close>)
  then obtain s' where s': "charge_node ?nb delta (pushed (R1 node e) ?t) = Some s'"
      "charged (node_keys ?nb) (pushed (R1 node e) ?t) s' (\<lambda>f. delta ! f ?nb)" by blast
  have at: "delta ! f ?nb = min_sum ?own (row (f ?nb))" "length (row i) = length ?own"
      "own < length ?own \<Longrightarrow> row (f ?nb) ! own = edge_cost s e node own (f ?nb)" if "assigns s f" for f i own
    using that e(3) by (auto simp: delta_def row_def assigns_def live_nodes_def)
  have "reduced_from node s s'"
  proof (rule reduced_from_charged [OF inv node _ _ s'(2), where k = 0])
    show "cap (delta ! f ?nb) \<le> cap (resp_sum s node (ps_adjacency s ! node) f own)" if "assigns s f" "own < length ?own" for f own
      using cap_mono [OF min_sum_le [of ?own "row (f ?nb)" own]] at [OF that(1)] that(2) by (simp add: resp_sum_def adj)
    show "\<exists>own<length ?own. cap (resp_sum s node (ps_adjacency s ! node) f own) \<le> cap (delta ! f ?nb)" if asg: "assigns s f" for f
    proof -
      obtain own where "own < length ?own" "min_sum ?own (row (f ?nb)) = cap (?own ! own + row (f ?nb) ! own)"
        using min_sum_attained [of ?own "row (f ?nb)"] at(2) [OF asg] ne by auto
      then show ?thesis using at [OF asg] by (auto simp: resp_sum_def adj)
    qed
  qed (simp_all add: adj)
  moreover have "reduce_one node s = Some s'"
    using un s'(1) by (simp add: reduce_one_def adj Let_def d pushed_def deadened_def)
  ultimately show ?thesis by blast
qed

lemma two_delta_get:
  assumes L: "chunks_exact k lays_left = map ll [0..<rows]" "\<And>i. i < rows \<Longrightarrow> length (ll i) = k"
    and R: "chunks_exact k lays_right = map rr [0..<cols]" and k: "length own = k" "0 < k"
  defines "m \<equiv> two_delta own lays_left lays_right rows cols"
  shows "mx_wf m" "mx_rows m = rows" "mx_cols m = cols"
    "\<lbrakk>l < rows; r < cols\<rbrakk> \<Longrightarrow> mx_get m l r = min_sum (map (\<lambda>(cost, own). cost_add cost own) (zip (ll l) own)) (rr r)"
proof -
  define tl where "tl i = map (\<lambda>(cost, own). cost_add cost own) (zip (ll i) own)" for i
  have "chunks_exact k (concat (map tl [0..<rows])) = map tl [0..<rows]"
    by (rule chunks_exact_concat [OF k(2)]) (use L(2) k in \<open>auto simp: tl_def\<close>)
  moreover have "concat (map (\<lambda>costs. map (\<lambda>(cost, own). cost_add cost own) (zip costs own)) (chunks_exact k lays_left)) = concat (map tl [0..<rows])"
    by (simp add: L(1) tl_def [abs_def] comp_def)
  moreover have en: "List.enumerate 0 (map g [0..<n]) = map (\<lambda>i. (i, g i)) [0..<n]" for g :: "nat \<Rightarrow> nat list" and n
    by (rule nth_equalityI) (simp_all add: nth_enumerate_eq)
  ultimately have m: "m = fold (\<lambda>l. fold (\<lambda>r. mx_set l r (min_sum (tl l) (rr r))) [0..<cols]) [0..<rows] (mx_zero rows cols)"
    unfolding m_def two_delta_def Let_def k(1) by (simp add: R fold_map comp_def)
  show "mx_wf m" "mx_rows m = rows" "mx_cols m = cols" unfolding m fold_nested_set by simp_all
  show "mx_get m l r = min_sum (map (\<lambda>(cost, own). cost_add cost own) (zip (ll l) own)) (rr r)" if "l < rows" "r < cols"
    unfolding m fold_nested_set tl_def [symmetric] by (rule mx_get_set_all) (use that in force)+
qed

lemma reduce_two_exact:
  assumes inv: "pq_inv s" and node: "node \<in> live_nodes s" and adj: "ps_adjacency s ! node = [e1, e2]"
  shows "\<exists>s'. reduce_two node s = Some s' \<and> reduced_from node s s'"
proof -
  let ?l = "other_end s e1 node" and ?r = "other_end s e2 node" and ?own = "ps_costs s ! node"
  let ?u = "deadened node s" and ?t = "taken node s"
  let ?p = "pushed (R2 node e1 e2) ?t"
  note tk = taken_facts [OF inv node]
  note e1 = adjacent_facts [OF inv node, of e1, unfolded adj, simplified] and e2 = adjacent_facts [OF inv node, of e2, unfolded adj, simplified]
  have wf: "ps_wf s" using inv by (simp add: pq_inv_def)
  have ne: "?own \<noteq> []" by (rule node_nonempty [OF inv node])
  have "distinct (ps_adjacency s ! node)" using wf node by (auto simp: ps_wf_def lists_edges_def live_nodes_def)
  then have dist: "e1 \<noteq> e2" by (simp add: adj)
  have lr: "?l \<noteq> ?r" using key_unique [OF wf e1(1) e2(1)] e1(4) e2(4) dist by auto
  define row1 where "row1 i = map (\<lambda>j. edge_cost s e1 node j i) [0..<length ?own]" for i
  define row2 where "row2 i = map (\<lambda>j. edge_cost s e2 node j i) [0..<length ?own]" for i
  define delta where "delta = two_delta ?own (laid_out s e1 ?l) (laid_out s e2 ?r) (length (ps_costs s ! ?l)) (length (ps_costs s ! ?r))"
  define through where "through i = map (\<lambda>(cost, own). cost_add cost own) (zip (row1 i) ?own)" for i
  note two = two_delta_get [OF laid_out_rows [OF wf e1(1,2)] _ laid_out_rows [OF wf e2(1,2)] refl, folded row1_def row2_def delta_def through_def, simplified ne length_map]
  have un1: "unlink e1 ?u = Some (unlinked e1 ?u)" and wf1: "ps_wf (unlinked e1 ?u)"
    using unlink_is [of ?u e1] unlinked_wf [of ?u e1] wf e1(1) by simp_all
  have un2: "unlink e2 (unlinked e1 ?u) = Some ?t"
    using unlink_is [OF wf1, of e2] e2(1) dist by (simp add: taken_def adj live_unlinked)
  have can: "can_charge ?l ?r delta ?p"
    using lr e1(3) e2(3) tk(3,5) two ne by (simp add: can_charge_def fits_costs_def row1_def)
  then obtain s' where s': "charge ?l ?r delta ?p = Some s'" "charged {edge_key ?l ?r} ?p s' (\<lambda>f. mx_get delta (f ?l) (f ?r))"
    using charge_charged [of ?p ?l ?r delta] tk(1) by auto
  have at: "mx_get delta (f ?l) (f ?r) = min_sum (through (f ?l)) (row2 (f ?r))"
      "length (through i) = length ?own" "length (row2 i) = length ?own"
      "own < length ?own \<Longrightarrow> through (f ?l) ! own = cap (?own ! own + edge_cost s e1 node own (f ?l))"
      "own < length ?own \<Longrightarrow> row2 (f ?r) ! own = edge_cost s e2 node own (f ?r)" if "assigns s f" for f i own
    using that e1(3) e2(3) two(4) [of "f ?l" "f ?r"] ne
    by (auto simp: row1_def row2_def through_def assigns_def live_nodes_def cost_add_cap add.commute)
  have resp: "cap (through (f ?l) ! own + row2 (f ?r) ! own) = cap (resp_sum s node (ps_adjacency s ! node) f own)"
    if "assigns s f" "own < length ?own" for f own
    using at(4,5) [OF that] by (simp add: resp_sum_def adj add.assoc)
  have "reduced_from node s s'"
  proof (rule reduced_from_charged [OF inv node _ _ s'(2), where k = 0])
    show "cap (mx_get delta (f ?l) (f ?r)) \<le> cap (resp_sum s node (ps_adjacency s ! node) f own)" if "assigns s f" "own < length ?own" for f own
      using cap_mono [OF min_sum_le [of "through (f ?l)" "row2 (f ?r)" own]] at(1-3) [OF that(1)] that(2) resp [OF that] by simp
    show "\<exists>own<length ?own. cap (resp_sum s node (ps_adjacency s ! node) f own) \<le> cap (mx_get delta (f ?l) (f ?r))" if asg: "assigns s f" for f
    proof -
      have "through (f ?l) \<noteq> []" using at(2) [OF asg, of "f ?l"] ne by (metis length_0_conv)
      then obtain own where "own < length ?own" "min_sum (through (f ?l)) (row2 (f ?r)) = cap (through (f ?l) ! own + row2 (f ?r) ! own)"
        using min_sum_attained [of "through (f ?l)" "row2 (f ?r)"] at(2,3) [OF asg] by auto
      then show ?thesis using at(1) [OF asg] resp [OF asg] by auto
    qed
  qed (simp_all add: adj)
  moreover have "reduce_two node s = Some s'"
    using un1 un2 s'(1) unfolding delta_def by (simp add: reduce_two_def adj Let_def pushed_def deadened_def)
  ultimately show ?thesis by blast
qed

subsection \<open>The loop of reductions\<close>

definition reaches :: "PbSolver \<Rightarrow> PbSolver \<Rightarrow> bool" where
  "reaches s s' \<longleftrightarrow>
     pq_inv s' \<and> low_queued s' \<and> live_nodes s' \<subseteq> live_nodes s \<and> map length (ps_costs s') = map length (ps_costs s) \<and>
     ps_choices s' = ps_choices s \<and> (\<forall>c. solves c s \<longrightarrow> solves c s')"

lemma reaches_refl: "\<lbrakk>pq_inv s; low_queued s\<rbrakk> \<Longrightarrow> reaches s s"
  by (simp add: reaches_def)

lemma reaches_trans: "\<lbrakk>reaches s t; reaches t u\<rbrakk> \<Longrightarrow> reaches s u"
  unfolding reaches_def by auto

text \<open>Taking the top off the queue.\<close>

definition popped :: "nat list \<Rightarrow> PbSolver \<Rightarrow> PbSolver" where
  "popped rest s = s\<lparr>ps_pending := rest\<rparr>"

lemma popped_parts [simp]:
  "ps_costs (popped rest s) = ps_costs s" "ps_edges (popped rest s) = ps_edges s" "ps_adjacency (popped rest s) = ps_adjacency s"
  "ps_between (popped rest s) = ps_between s" "ps_alive (popped rest s) = ps_alive s" "ps_pending (popped rest s) = rest"
  "ps_reduced (popped rest s) = ps_reduced s" "ps_choices (popped rest s) = ps_choices s"
  "live_nodes (popped rest s) = live_nodes s" "live_edges (popped rest s) = live_edges s" "edge_at (popped rest s) = edge_at s"
  "touches (popped rest s) = touches s" "key_of (popped rest s) = key_of s" "ends_alive X (popped rest s) = ends_alive X s"
  by (simp_all add: popped_def live_nodes_def live_edges_def edge_at_def touches_def key_of_def ends_alive_def fun_eq_iff)

lemma popped_inv: "\<lbrakk>pq_inv s; set rest \<subseteq> set (ps_pending s)\<rbrakk> \<Longrightarrow> pq_inv (popped rest s)"
  by (auto simp: pq_inv_def ps_wf_def lists_edges_def finds_edges_def stack_ok_def)

lemma popped_solves: "solves c s \<Longrightarrow> solves c (popped rest s)"
proof -
  have "reads_same s (popped rest s) r" for r by (simp add: reads_same_def)
  moreover have "pq_total (popped rest s) = pq_total s" by (simp add: pq_total_def fun_eq_iff)
  ultimately show "solves c s \<Longrightarrow> solves c (popped rest s)"
    by (intro solves_step [of c s "popped rest s" "[]" 0]) simp_all
qed

lemma popped_low:
  assumes "low_queued s" "ps_pending s = node # rest" "node \<notin> live_nodes s \<or> 2 < length (ps_adjacency s ! node)"
  shows "low_queued (popped rest s)"
  using assms by (auto simp: low_queued_def)

lemma deadened_popped_low:
  assumes "low_queued s" "ps_pending s = node # rest" "ps_wf s"
  shows "low_queued (deadened node (popped rest s))"
proof -
  have "live_nodes (deadened node (popped rest s)) = live_nodes s - {node}"
    using assms(3) live_deadened [of "popped rest s" node] by (auto simp: live_nodes_def deadened_def nth_update_if ps_wf_def)
  then show ?thesis using assms(1,2) by (auto simp: low_queued_def)
qed

lemma reduced_reaches:
  assumes "reduced_from node (popped rest s) s'" "low_queued (deadened node (popped rest s))" "node \<in> live_nodes s"
  shows "reaches s s' \<and> card (live_nodes s') < card (live_nodes s)"
  using assms popped_solves card_Diff1_less [OF finite_live(2) assms(3)] by (auto simp: reduced_from_def reaches_def)

lemma short_list: "xs = [] \<or> (\<exists>a. xs = [a]) \<or> (\<exists>a b. xs = [a, b]) \<or> 2 < length xs"
proof (cases xs)
  case (Cons a ys)
  then show ?thesis by (cases ys; cases "List.tl ys") auto
qed simp

lemma reduce_pending_reaches:
  assumes inv: "pq_inv s" and low: "low_queued s" and p: "ps_pending s = node # rest"
  shows "\<exists>s'. reduce_pending node (popped rest s) = Some s' \<and> reaches s s' \<and>
    (s' = popped rest s \<or> card (live_nodes s') < card (live_nodes s))"
proof -
  let ?u = "popped rest s"
  have wf: "ps_wf s" using inv by (simp add: pq_inv_def)
  have invu: "pq_inv ?u" by (rule popped_inv [OF inv]) (auto simp: p)
  have n: "node < node_count s" using wf p by (simp add: ps_wf_def)
  have idle: "reaches s ?u" if "node \<notin> live_nodes s \<or> 2 < length (ps_adjacency s ! node)"
    unfolding reaches_def using invu popped_low [OF low p that] popped_solves by simp
  have lowu: "low_queued (deadened node ?u)" by (rule deadened_popped_low [OF low p wf])
  show ?thesis
  proof (cases "ps_alive s ! node")
    case False
    then show ?thesis using idle by (simp add: reduce_pending_def live_nodes_def)
  next
    case True
    then have live: "node \<in> live_nodes ?u" "node \<in> live_nodes s" using n by (simp_all add: live_nodes_def)
    consider "ps_adjacency s ! node = []" | e where "ps_adjacency s ! node = [e]" | e1 e2 where "ps_adjacency s ! node = [e1, e2]"
      | "2 < length (ps_adjacency s ! node)"
      using short_list by blast
    then show ?thesis
    proof cases
      case 1
      then show ?thesis
        using True reduced_reaches [OF reduce_zero_exact [OF invu live(1)] lowu live(2)] by (simp add: reduce_pending_def)
    next
      case (2 e)
      then obtain s' where "reduce_one node ?u = Some s'" "reduced_from node ?u s'"
        using reduce_one_exact [OF invu live(1)] by auto
      then show ?thesis using 2 True reduced_reaches [OF _ lowu live(2)] by (simp add: reduce_pending_def)
    next
      case (3 e1 e2)
      then obtain s' where "reduce_two node ?u = Some s'" "reduced_from node ?u s'"
        using reduce_two_exact [OF invu live(1)] by auto
      then show ?thesis using 3 True reduced_reaches [OF _ lowu live(2)] by (simp add: reduce_pending_def)
    next
      case 4
      then show ?thesis using True idle by (auto simp: reduce_pending_def Let_def)
    qed
  qed
qed

lemma reduce_optimally_reaches:
  "\<lbrakk>pq_inv s; low_queued s\<rbrakk> \<Longrightarrow> \<exists>s'. reduce_optimally s = Some s' \<and> reaches s s' \<and> ps_pending s' = []"
proof (induction s rule: wf_induct [OF wf_measures [of "[\<lambda>s. card (live_nodes s), \<lambda>s. length (ps_pending s)]"]])
  case (1 s)
  show ?case
  proof (cases "ps_pending s")
    case Nil
    then show ?thesis using 1 by (subst reduce_optimally.simps) (simp add: reaches_refl)
  next
    case (Cons node rest)
    obtain t where t: "reduce_pending node (popped rest s) = Some t" "reaches s t"
        "t = popped rest s \<or> card (live_nodes t) < card (live_nodes s)"
      using reduce_pending_reaches [OF 1(2,3) Cons] by blast
    have "(t, s) \<in> measures [\<lambda>s. card (live_nodes s), \<lambda>s. length (ps_pending s)]"
      using t(3) Cons by auto
    moreover have "pq_inv t" "low_queued t" using t(2) by (auto simp: reaches_def)
    ultimately obtain s' where "reduce_optimally t = Some s'" "reaches t s'" "ps_pending s' = []"
      using 1(1) by blast
    moreover have "reduce_optimally s = reduce_optimally t"
      using Cons t(1) by (subst reduce_optimally.simps) (simp add: popped_def)
    ultimately show ?thesis using reaches_trans [OF t(2)] by auto
  qed
qed

subsection \<open>Problems and the solver built from one\<close>

definition pb_wf :: "Problem \<Rightarrow> bool" where
  "pb_wf p \<longleftrightarrow>
     (\<forall>v<length (pb_costs p). pb_costs p ! v \<noteq> []) \<and> distinct (map fst (pb_edges p)) \<and>
     (\<forall>l r m. ((l, r), m) \<in> set (pb_edges p) \<longrightarrow> l < r \<and> r < length (pb_costs p) \<and> fits_costs (pb_costs p ! l) (pb_costs p ! r) m)"

definition valid_choice :: "Problem \<Rightarrow> (nat \<Rightarrow> nat) \<Rightarrow> bool" where
  "valid_choice p f \<longleftrightarrow> (\<forall>v<length (pb_costs p). f v < length (pb_costs p ! v))"

text \<open>What an assignment costs: its node costs and the costs of all edges.\<close>

definition pb_cost :: "Problem \<Rightarrow> (nat \<Rightarrow> nat) \<Rightarrow> nat" where
  "pb_cost p f =
     (\<Sum>v<length (pb_costs p). pb_costs p ! v ! f v) + (\<Sum>((l, r), m)\<leftarrow>pb_edges p. mx_get m (f l) (f r))"

lemma pb_default_wf: "pb_wf pb_default"
  by (simp add: pb_wf_def pb_default_def)

lemma pb_add_node_wf: "\<lbrakk>pb_wf p; pb_add_node p costs = Some (p', v)\<rbrakk> \<Longrightarrow> pb_wf p'"
  by (fastforce simp: pb_wf_def pb_add_node_def nth_append less_Suc_eq split: if_splits)

lemma pb_add_edge_wf:
  assumes wf: "pb_wf p" and add: "pb_add_edge p lhs rhs m = Some p'" and m: "mx_wf m"
  shows "pb_wf p'"
proof -
  define key where "key = (if lhs < rhs then (lhs, rhs) else (rhs, lhs))"
  define m' where "m' = (if lhs < rhs then m else transposed m)"
  have ne: "lhs \<noteq> rhs" using add by (auto simp: pb_add_edge_def)
  have ok: "fst key < length (pb_costs p)" "snd key < length (pb_costs p)" "fits_costs (pb_costs p ! fst key) (pb_costs p ! snd key) m'"
    using add m by (auto simp: pb_add_edge_def key_def m'_def nth_opt_def fits_costs_def split: if_splits)
  have p': "p' = (if map_of (pb_edges p) key = None then p\<lparr>pb_edges := pb_edges p @ [(key, m')]\<rparr>
      else p\<lparr>pb_edges := map (\<lambda>(k, m). if k = key then (k, add_costs m m') else (k, m)) (pb_edges p)\<rparr>)"
    unfolding m'_def key_def using add by (auto simp: pb_add_edge_def nth_opt_def split: if_splits)
  have lt: "fst key < snd key" using ne by (auto simp: key_def)
  show ?thesis
  proof (cases "map_of (pb_edges p) key = None")
    case True
    then show ?thesis
      using wf p' ok lt by (cases key) (auto simp: pb_wf_def map_of_eq_None_iff)
  next
    case False
    let ?es = "map (\<lambda>(k, m). if k = key then (k, add_costs m m') else (k, m)) (pb_edges p)"
    have "map fst ?es = map fst (pb_edges p)" by (auto simp: comp_def split_beta)
    moreover have "l < r \<and> r < length (pb_costs p) \<and> fits_costs (pb_costs p ! l) (pb_costs p ! r) n" if "((l, r), n) \<in> set ?es" for l r n
      using that wf by (auto simp: pb_wf_def fits_costs_def split: if_splits)
    moreover have "pb_edges p' = ?es" "pb_costs p' = pb_costs p" using p' False by auto
    ultimately show ?thesis
      using wf by (simp add: pb_wf_def del: map_map)
  qed
qed

lemma start_facts:
  assumes "pb_wf p"
  shows "pq_inv (pb_solver_start p)" "low_queued (pb_solver_start p)" "live_nodes (pb_solver_start p) = {..<length (pb_costs p)}"
    "pq_total (pb_solver_start p) f = (\<Sum>v<length (pb_costs p). pb_costs p ! v ! f v)"
proof -
  let ?s = "pb_solver_start p"
  have e: "live_edges ?s = {}" by (simp add: pb_solver_start_def live_edges_def Let_def)
  show l: "live_nodes ?s = {..<length (pb_costs p)}" by (auto simp: pb_solver_start_def live_nodes_def Let_def)
  show "pq_inv ?s" using assms e
    by (auto simp: pq_inv_def ps_wf_def pb_wf_def lists_edges_def finds_edges_def ends_alive_def stack_ok_def pb_solver_start_def Let_def)
  show "low_queued ?s" unfolding low_queued_def l by (simp add: pb_solver_start_def Let_def)
  show "pq_total ?s f = (\<Sum>v<length (pb_costs p). pb_costs p ! v ! f v)"
    unfolding pq_total_def l e by (simp add: pb_solver_start_def Let_def)
qed

text \<open>A key without an edge stays without one while other keys are charged.\<close>

lemma absent_key:
  assumes wf: "ps_wf s" and ch: "charged P s s' d" and k: "k \<notin> P" "ps_between s k = None"
  shows "ps_between s' k = None"
proof (rule ccontr)
  assume "ps_between s' k \<noteq> None"
  then obtain e where "ps_between s' k = Some e" by blast
  then have e: "e \<in> live_edges s'" "k = key_of s' e"
    using ch unfolding charged_def ps_wf_def finds_edges_def by auto
  then have "e \<in> outside P s" using ch k(1) by (auto simp: charged_def outside_def)
  then have "e \<in> live_edges s" "key_of s e = k"
    using ch keeps_key [of s s' e] e(2) by (auto simp: charged_def outside_def live_edges_def)
  then have "ps_between s k = Some e" using wf unfolding ps_wf_def finds_edges_def by blast
  then show False using k(2) by simp
qed

lemma link_charged:
  assumes wf: "ps_wf s" and can: "can_charge l r m s" and new: "ps_between s (edge_key l r) = None"
  shows "\<exists>s'. link l r m s = Some s' \<and> charged {edge_key l r} s s' (\<lambda>f. mx_get m (f l) (f r))"
  using charge_charged [OF wf can] new by (simp add: charge_def)

lemma link_all_charged:
  assumes "ps_wf s" "distinct (map fst es)"
    and "\<And>l r m. ((l, r), m) \<in> set es \<Longrightarrow> l < r \<and> l \<in> live_nodes s \<and> r \<in> live_nodes s \<and> fits_costs (ps_costs s ! l) (ps_costs s ! r) m \<and>
       ps_between s (l, r) = None"
  shows "\<exists>s'. link_all es s = Some s' \<and> charged UNIV s s' (\<lambda>f. \<Sum>((l, r), m)\<leftarrow>es. mx_get m (f l) (f r))"
  using assms
proof (induction es arbitrary: s)
  case Nil
  then show ?case by (simp add: charged_refl)
next
  case (Cons x es)
  obtain l r m where x: "x = ((l, r), m)" by (metis surj_pair)
  have h: "l < r" "can_charge l r m s" "ps_between s (l, r) = None"
    using Cons.prems(3) [of l r m] x by (auto simp: can_charge_def)
  have key: "edge_key l r = (l, r)" using h(1) by (simp add: edge_key_def min_def max_def)
  obtain t where t: "link l r m s = Some t" "charged {(l, r)} s t (\<lambda>f. mx_get m (f l) (f r))"
    using link_charged [OF Cons.prems(1) h(2)] h(3) key by auto
  have k: "keeps s t" "ps_wf t" using t(2) by (auto simp: charged_def)
  have ln: "live_nodes t = live_nodes s" using k(1) keeps_count [OF k(1)] by (simp add: live_nodes_def keeps_def)
  have "\<exists>s'. link_all es t = Some s' \<and> charged UNIV t s' (\<lambda>f. \<Sum>((l, r), m)\<leftarrow>es. mx_get m (f l) (f r))"
  proof (rule Cons.IH [OF k(2)])
    show "distinct (map fst es)" using Cons.prems(2) by simp
    fix l' r' m' assume i: "((l', r'), m') \<in> set es"
    then have ne: "(l', r') \<noteq> (l, r)" using Cons.prems(2) x by (force simp: rev_image_eqI)
    have p: "l' < r'" "l' \<in> live_nodes s" "r' \<in> live_nodes s" "fits_costs (ps_costs s ! l') (ps_costs s ! r') m'" "ps_between s (l', r') = None"
      using Cons.prems(3) [of l' r' m'] i by auto
    then have "fits_costs (ps_costs t ! l') (ps_costs t ! r') m'"
      using keeps_length [OF k(1)] by (simp add: fits_costs_def live_nodes_def)
    moreover have "ps_between t (l', r') = None" using absent_key [OF Cons.prems(1) t(2) _ p(5)] ne by simp
    ultimately show "l' < r' \<and> l' \<in> live_nodes t \<and> r' \<in> live_nodes t \<and> fits_costs (ps_costs t ! l') (ps_costs t ! r') m' \<and> ps_between t (l', r') = None"
      using p ln by simp
  qed
  then obtain s' where s': "link_all es t = Some s'" "charged UNIV t s' (\<lambda>f. \<Sum>((l, r), m)\<leftarrow>es. mx_get m (f l) (f r))" by blast
  have "charged UNIV s s' (\<lambda>f. mx_get m (f l) (f r) + (\<Sum>((l, r), m)\<leftarrow>es. mx_get m (f l) (f r)))"
    by (rule charged_trans [OF charged_mono [OF t(2)] s'(2)]) simp
  then show ?case using t(1) s'(1) x by simp
qed

lemma solver_new:
  assumes wf: "pb_wf p"
  shows "\<exists>s. pb_solver_new p = Some s \<and> pq_inv s \<and> low_queued s \<and> live_nodes s = {..<length (pb_costs p)} \<and>
    map length (ps_costs s) = map length (pb_costs p) \<and> ps_choices s = replicate (length (pb_costs p)) 0 \<and> solves (pb_cost p) s"
proof -
  let ?s = "pb_solver_start p" and ?es = "sort_key fst (pb_edges p)"
  note st = start_facts [OF wf]
  have c: "ps_costs ?s = pb_costs p" "ps_between ?s = (\<lambda>_. None)" "ps_reduced ?s = []" "ps_choices ?s = replicate (length (pb_costs p)) 0"
    by (simp_all add: pb_solver_start_def Let_def)
  have "distinct (map fst (sort_key fst xs)) = distinct (map fst xs)" for xs :: "((nat \<times> nat) \<times> Matrix) list"
    by (metis mset_map mset_sort sort_key_def mset_eq_imp_distinct_iff)
  then have "distinct (map fst ?es)" using wf by (simp add: pb_wf_def)
  then obtain s where s: "link_all ?es ?s = Some s" "charged UNIV ?s s (\<lambda>f. \<Sum>((l, r), m)\<leftarrow>?es. mx_get m (f l) (f r))"
    using link_all_charged [of ?s ?es] st(1,3) wf c by (fastforce simp: pq_inv_def pb_wf_def)
  have k: "keeps ?s s" using s(2) by (simp add: charged_def)
  have inv: "pq_inv s"
    using s(2) st(1) keeps_stack [OF k] by (auto simp: pq_inv_def charged_def)
  have lens: "map length (ps_costs s) = map length (pb_costs p)" using k c by (simp add: keeps_def)
  have as: "assigns ?s f = valid_choice p f" "assigns s f = valid_choice p f" for f
    using keeps_assigns [OF k] by (simp_all add: assigns_def valid_choice_def c)
  have "(\<Sum>((l, r), m)\<leftarrow>?es. mx_get m (f l) (f r)) = (\<Sum>((l, r), m)\<leftarrow>pb_edges p. mx_get m (f l) (f r))" for f
    by (metis (no_types) mset_map mset_sort sum_mset_sum_list)
  then have tot: "cap (pq_total s f) = cap (pb_cost p f)" if "valid_choice p f" for f
    using s(2) that st(4) as by (simp add: charged_def pb_cost_def)
  have red: "ps_reduced s = []" using k c by (simp add: keeps_def)
  have "solves (pb_cost p) s"
    unfolding solves_def red using tot as by (intro exI [of _ 0]) (auto simp: full_choice_def)
  moreover have "live_nodes s = {..<length (pb_costs p)}"
    using k keeps_count [OF k] st(3) by (simp add: live_nodes_def keeps_def)
  moreover have "low_queued s" using k st(2) by (simp add: keeps_def)
  ultimately show ?thesis
    using s(1) inv lens k c by (simp add: pb_solver_new_def keeps_def)
qed

lemma eliminated_optimal:
  assumes inv: "pq_inv s" and empty: "live_nodes s = {}" and sol: "solves c s" and ch: "full_choice s (ps_choices s)"
  shows "full_choice s (back_propagate s)" "assigns s f \<Longrightarrow> cap (c (nth (back_propagate s))) \<le> cap (c f)"
proof -
  have "live_edges s = {}"
    using inv empty live_edge_ends [of s] by (auto simp: pq_inv_def ends_alive_def live_nodes_def)
  then have "pq_total s g = 0" for g by (simp add: pq_total_def empty)
  then show "full_choice s (back_propagate s)" "assigns s f \<Longrightarrow> cap (c (nth (back_propagate s))) \<le> cap (c f)"
    using sol ch unfolding solves_def back_propagate_def by (auto intro: order_trans)
qed

end
