(* ===== verification/PbqpSolve.thy ===== *)
theory PbqpSolve
  imports PbqpOptimal
begin

text \<open>
  Merging, deciding and the run of the PBQP solver: every loop ends without a panic, every node is given one of
  its alternatives, and the run is optimal on problems that the reductions eliminate.
\<close>

subsection \<open>Progress\<close>

definition advances :: "PbSolver \<Rightarrow> PbSolver \<Rightarrow> bool" where
  "advances s s' \<longleftrightarrow>
     pq_inv s' \<and> low_queued s' \<and> live_nodes s' \<subseteq> live_nodes s \<and> map length (ps_costs s') = map length (ps_costs s) \<and>
     (full_choice s (ps_choices s) \<longrightarrow> full_choice s' (ps_choices s'))"

lemma full_choice_lens: "map length (ps_costs s') = map length (ps_costs s) \<Longrightarrow> full_choice s' ch = full_choice s ch"
proof -
  assume l: "map length (ps_costs s') = map length (ps_costs s)"
  then have n: "node_count s' = node_count s" by (metis length_map)
  have "length (ps_costs s' ! v) = length (ps_costs s ! v)" if "v < node_count s" for v
    using l that n by (metis nth_map)
  then show ?thesis by (auto simp: full_choice_def assigns_def n)
qed

lemma advances_trans: "\<lbrakk>advances s t; advances t u\<rbrakk> \<Longrightarrow> advances s u"
  unfolding advances_def by auto

lemma advances_refl: "\<lbrakk>pq_inv s; low_queued s\<rbrakk> \<Longrightarrow> advances s s"
  by (simp add: advances_def)

lemma reaches_advances: "reaches s s' \<Longrightarrow> advances s s'"
  using full_choice_lens [of s' s] by (simp add: reaches_def advances_def)

lemma keeps_live_nodes: "keeps s s' \<Longrightarrow> live_nodes s' = live_nodes s"
  using keeps_count [of s s'] by (simp add: live_nodes_def keeps_def)

lemma keeps_touches: "\<lbrakk>keeps s s'; e < length (ps_edges s)\<rbrakk> \<Longrightarrow> touches s' v e = touches s v e"
  by (simp add: touches_def keeps_edge)

lemma keeps_advances:
  assumes "pq_inv s" "low_queued s" "keeps s s'" "ps_wf s'" "ends_alive {} s'"
  shows "advances s s'"
  using assms keeps_stack [OF assms(3)] keeps_live_nodes [OF assms(3)] full_choice_lens [of s' s]
  by (auto simp: advances_def pq_inv_def keeps_def)

lemma low_deadened: "\<lbrakk>low_queued s; ps_wf s\<rbrakk> \<Longrightarrow> low_queued (deadened v s)"
  by (simp add: low_queued_def live_deadened)

lemma reduced_advances:
  assumes "reduced_from v s s'" "low_queued s" "ps_wf s" "v \<in> live_nodes s"
  shows "advances s s' \<and> card (live_nodes s') < card (live_nodes s)"
  using assms low_deadened [OF assms(2,3)] full_choice_lens [of s' s] card_Diff1_less [OF finite_live(2) assms(4)]
  by (auto simp: reduced_from_def advances_def)

subsection \<open>Merging\<close>

lemma merge_delta_fits: "fits_costs (ps_costs s ! node) (ps_costs s ! target) (merge_delta s node neighbor far imp target)"
proof -
  have inner: "fits_costs u v (fold (\<lambda>other. mx_set own other (c other)) os m) = fits_costs u v m" for u v own c os m
    by (induction os arbitrary: m) (simp_all add: fits_costs_def)
  have "fits_costs u v (fold (\<lambda>(own, chosen) m. if P own then fold (\<lambda>other. mx_set own other (c chosen other)) os m else m) xs m) = fits_costs u v m"
    for u v P c os and xs :: "(nat \<times> nat) list" and m
    by (induction xs arbitrary: m) (simp_all add: inner split_beta)
  then show ?thesis by (simp add: merge_delta_def fits_costs_def)
qed

definition node_edges :: "PbSolver \<Rightarrow> nat \<Rightarrow> nat set" where
  "node_edges s v = {e \<in> live_edges s. touches s v e}"

lemma adjacency_edges: "\<lbrakk>ps_wf s; v < node_count s\<rbrakk> \<Longrightarrow> set (ps_adjacency s ! v) = node_edges s v \<and> distinct (ps_adjacency s ! v)"
  by (simp add: ps_wf_def lists_edges_def node_edges_def)

lemma charged_node_edges:
  assumes ch: "charged P s s' d" and wf: "ps_wf s" and P: "P \<inter> node_keys v = {}"
  shows "node_edges s' v = node_edges s v"
proof -
  have k: "key_of s' e = key_of s e" if "e \<in> live_edges s" for e
    using ch keeps_key [of s s' e] that by (auto simp: charged_def live_edges_def)
  have o: "outside P s' = outside P s" using ch by (simp add: charged_def)
  have "node_edges t v = {e \<in> outside P t. key_of t e \<in> node_keys v}" for t
    using P by (auto simp: node_edges_def outside_def touches_key)
  then have "node_edges s' v = {e \<in> outside P s. key_of s' e \<in> node_keys v}" "node_edges s v = {e \<in> outside P s. key_of s e \<in> node_keys v}"
    using o by simp_all
  then show ?thesis using k by (auto simp: outside_def)
qed

lemma merge_edges_advances:
  assumes "pq_inv s" "low_queued s" "node \<in> live_nodes s" "nb \<in> live_nodes s" "node \<noteq> nb"
    and "edge \<in> live_edges s" "key_of s edge = edge_key node nb" "distinct es" "set es \<subseteq> node_edges s nb"
  shows "\<exists>s'. merge_edges node nb edge imp es s = Some s' \<and> advances s s' \<and> ps_alive s' = ps_alive s \<and>
    node_edges s' nb = node_edges s nb - (set es - {edge})"
  using assms
proof (induction es arbitrary: s)
  case Nil
  then show ?case by (simp add: advances_refl)
next
  case (Cons far es)
  note inv = Cons.prems(1) and low = Cons.prems(2)
  have wf: "ps_wf s" and ends: "ends_alive {} s" using inv by (auto simp: pq_inv_def)
  show ?case
  proof (cases "far = edge")
    case True
    then show ?thesis using Cons.IH [of s] Cons.prems by auto
  next
    case False
    have far: "far \<in> live_edges s" "touches s nb far" using Cons.prems(9) by (auto simp: node_edges_def)
    let ?t = "other_end s far nb" and ?u = "unlinked far s"
    note o = other_end_live [OF wf far]
    have t: "?t \<in> live_nodes s" "?t \<noteq> nb"
      using o alive_from_ends [OF ends far(1)] by (auto simp: live_nodes_def edge_alive_def touches_def)
    have tn: "?t \<noteq> node"
    proof
      assume "?t = node"
      then have "key_of s far = key_of s edge" using o(3) Cons.prems(7) by (simp add: edge_key_def min.commute max.commute)
      then show False using key_unique [OF wf far(1) Cons.prems(6)] False by simp
    qed
    let ?d = "merge_delta s node nb far imp ?t"
    note un = unlink_is [OF wf far(1)] unlinked_wf [OF wf far(1)] unlinked_keeps [OF wf far(1)]
    have can: "can_charge node ?t ?d ?u"
      using t tn Cons.prems(3) merge_delta_fits [of s node ?t] by (simp add: can_charge_def)
    obtain s1 where s1: "charge node ?t ?d ?u = Some s1" "charged {edge_key node ?t} ?u s1 (\<lambda>f. mx_get ?d (f node) (f ?t))"
      using charge_charged [OF un(2) can] by blast
    have k: "keeps s s1" using keeps_trans [OF un(3)] s1(2) by (simp add: charged_def)
    have adv: "advances s s1"
      by (rule keeps_advances [OF inv low k]) (use s1(2) unlinked_ends_alive [OF ends] in \<open>auto simp: charged_def\<close>)
    have nk: "{edge_key node ?t} \<inter> node_keys nb = {}"
      using Cons.prems(5) t(2) by (auto simp: node_keys_def edge_key_def min_def max_def)
    have ne: "node_edges s1 nb = node_edges s nb - {far}"
      unfolding charged_node_edges [OF s1(2) un(2) nk] by (auto simp: node_edges_def live_unlinked)
    have live1: "live_nodes s1 = live_nodes s" by (rule keeps_live_nodes [OF k])
    have "edge \<in> node_edges s nb"
      using Cons.prems(6,7) by (auto simp: node_edges_def touches_key node_keys_def edge_key_def min_def max_def)
    then have e1: "edge \<in> live_edges s1" "key_of s1 edge = edge_key node nb"
      using ne False keeps_key [OF k, of edge] Cons.prems(6,7) by (auto simp: node_edges_def live_edges_def)
    have inv1: "pq_inv s1" "low_queued s1" using adv by (auto simp: advances_def)
    have sub: "distinct es" "set es \<subseteq> node_edges s1 nb" using Cons.prems(8,9) ne by auto
    obtain s' where s': "merge_edges node nb edge imp es s1 = Some s'" "advances s1 s'" "ps_alive s' = ps_alive s1"
        "node_edges s' nb = node_edges s1 nb - (set es - {edge})"
      using Cons.IH [OF inv1 _ _ Cons.prems(5) e1 sub] Cons.prems(3,4) unfolding live1 by blast
    have "ps_alive s1 = ps_alive s" using k by (simp add: keeps_def)
    moreover have "merge_edges node nb edge imp (far # es) s = Some s'"
      using False un(1) s1(1) s'(1) by (simp add: Let_def)
    ultimately show ?thesis
      using advances_trans [OF adv s'(2)] s'(3,4) ne False by auto
  qed
qed

lemma singleton_list: "\<lbrakk>distinct xs; set xs = {a}\<rbrakk> \<Longrightarrow> xs = [a]"
  by (cases xs; cases "List.tl xs") auto

lemma merge_one_advances:
  assumes inv: "pq_inv s" and low: "low_queued s" and node: "node \<in> live_nodes s" and e: "edge \<in> set (ps_adjacency s ! node)"
  defines "nb \<equiv> other_end s edge node"
  shows "\<exists>t s'. merge_edges node nb edge imp (ps_adjacency s ! nb) s = Some t \<and>
    (if ps_alive t ! nb \<and> length (ps_adjacency t ! nb) = 1 then reduce_one nb t else Some t) = Some s' \<and>
    advances s s' \<and> card (live_nodes s') < card (live_nodes s)"
proof -
  note a = adjacent_facts [OF inv node e, folded nb_def]
  have wf: "ps_wf s" using inv by (simp add: pq_inv_def)
  have nb: "nb \<in> live_nodes s" "node \<noteq> nb" "nb < node_count s" using a(3) by (auto simp: live_nodes_def)
  have tb: "edge \<in> node_edges s nb"
    using a(1,4) by (auto simp: node_edges_def touches_key node_keys_def edge_key_def min_def max_def)
  note adj = adjacency_edges [OF wf nb(3)]
  obtain t where t: "merge_edges node nb edge imp (ps_adjacency s ! nb) s = Some t" "advances s t" "ps_alive t = ps_alive s"
      "node_edges t nb = node_edges s nb - (set (ps_adjacency s ! nb) - {edge})"
    using merge_edges_advances [OF inv low node nb(1,2) a(1,4)] adj by blast
  have one: "node_edges t nb = {edge}" using t(4) adj tb by auto
  have inv': "pq_inv t" "low_queued t" "ps_wf t" using t(2) by (auto simp: advances_def pq_inv_def)
  have n: "node_count t = node_count s" using t(2) unfolding advances_def by (metis length_map)
  have live: "nb \<in> live_nodes t" using nb(1) t(3) n by (simp add: live_nodes_def)
  have adj1: "ps_adjacency t ! nb = [edge]"
    by (rule singleton_list) (use adjacency_edges [OF inv'(3), of nb] nb(3) n one in simp_all)
  obtain s' where s': "reduce_one nb t = Some s'" "reduced_from nb t s'"
    using reduce_one_exact [OF inv'(1) live adj1] by blast
  have "card (live_nodes t) \<le> card (live_nodes s)"
    using t(2) by (intro card_mono) (simp_all add: advances_def)
  then have "advances s s'" "card (live_nodes s') < card (live_nodes s)"
    using reduced_advances [OF s'(2) inv'(2,3) live] advances_trans [OF t(2)] by auto
  moreover have "ps_alive t ! nb" using live by (simp add: live_nodes_def)
  ultimately show ?thesis using t(1) s'(1) adj1 by simp
qed

lemma merge_implied_advances:
  "\<lbrakk>pq_inv s; low_queued s; node < node_count s\<rbrakk> \<Longrightarrow>
   \<exists>s'. merge_implied node index s = Some s' \<and> advances s s' \<and> (s' = s \<or> card (live_nodes s') < card (live_nodes s))"
proof (induction "(s, index)" arbitrary: s index
    rule: wf_induct_rule [OF wf_measures [of "[\<lambda>(s, index). card (live_nodes s), \<lambda>(s, index). length (ps_adjacency s ! node) - index]"]])
  case (1 s index)
  note inv = 1(2) and low = 1(3) and n = 1(4)
  show ?case
  proof (cases "ps_alive s ! node \<and> index < length (ps_adjacency s ! node)")
    case False
    then have "merge_implied node index s = Some s" by (subst merge_implied.simps, subst if_not_P) simp_all
    then show ?thesis by (simp add: advances_refl inv low)
  next
    case True
    let ?e = "ps_adjacency s ! node ! index" let ?nb = "other_end s ?e node"
    let ?imp = "if 1 < length (ps_adjacency s ! ?nb) then implied s node ?e else None"
    have node: "node \<in> live_nodes s" using True n by (simp add: live_nodes_def)
    have e: "?e \<in> set (ps_adjacency s ! node)" using True by simp
    show ?thesis
    proof (cases ?imp)
      case None
      then have "merge_implied node index s = merge_implied node (Suc index) s"
        using True by (subst merge_implied.simps) (simp add: Let_def)
      then show ?thesis using 1(1) [of s "Suc index"] inv low n True by auto
    next
      case (Some imp)
      obtain t s1 where t: "merge_edges node ?nb ?e imp (ps_adjacency s ! ?nb) s = Some t"
          "(if ps_alive t ! ?nb \<and> length (ps_adjacency t ! ?nb) = 1 then reduce_one ?nb t else Some t) = Some s1"
          "advances s s1" "card (live_nodes s1) < card (live_nodes s)"
        using merge_one_advances [OF inv low node e] by blast
      have "merge_implied node index s = merge_implied node 0 s1"
        using True Some t(1,2) by (subst merge_implied.simps) (simp add: Let_def)
      moreover have "node < node_count s1" using t(3) n unfolding advances_def by (metis length_map)
      moreover have "pq_inv s1" "low_queued s1" using t(3) by (auto simp: advances_def)
      ultimately obtain s' where "merge_implied node index s = Some s'" "advances s1 s'" "s' = s1 \<or> card (live_nodes s') < card (live_nodes s1)"
        using 1(1) [of s1 0] t(4) by auto
      then show ?thesis using advances_trans [OF t(3)] t(4) by auto
    qed
  qed
qed

subsection \<open>Deciding\<close>

lemma decide_totals_length: "length (decide_totals s node) = length (ps_costs s ! node)"
proof -
  have "length (fold (\<lambda>edge totals. zip_update (g edge) totals (h edge)) es totals) = length totals"
    for g :: "nat \<Rightarrow> nat \<Rightarrow> nat list \<Rightarrow> nat" and h es totals
    by (induction es arbitrary: totals) simp_all
  then show ?thesis by (simp add: decide_totals_def Let_def)
qed

lemma decide_edges_keeps:
  assumes "ps_wf s" "ends_alive {node} s" "node \<notin> live_nodes s" "distinct es" "set es = node_edges s node"
  shows "\<exists>s'. decide_edges node choice es s = Some s' \<and> ps_wf s' \<and> keeps s s' \<and> ends_alive {} s'"
  using assms
proof (induction es arbitrary: s)
  case Nil
  then show ?case using ends_edgeless [of node s] by (auto simp: node_edges_def edgeless_def)
next
  case (Cons edge es)
  note wf = Cons.prems(1) and ends = Cons.prems(2)
  have e: "edge \<in> live_edges s" "touches s node edge" using Cons.prems(5) by (auto simp: node_edges_def)
  let ?nb = "other_end s edge node" and ?u = "unlinked edge s"
  let ?d = "map (\<lambda>other. edge_cost s edge node choice other) [0..<length (ps_costs s ! ?nb)]"
  note o = other_end_live [OF wf e]
  note un = unlink_is [OF wf e(1)] unlinked_wf [OF wf e(1)] unlinked_keeps [OF wf e(1)]
  have nb: "?nb \<in> live_nodes s" using o ends e(1) by (auto simp: live_nodes_def ends_alive_def touches_def)
  have alive: "edge_alive ?u i" if i: "i \<in> live_edges ?u" "touches ?u ?nb i" for i
  proof -
    have live: "i \<in> live_edges s" "i \<noteq> edge" "touches s ?nb i" using i by (auto simp: live_unlinked)
    have "\<not> touches s node i"
    proof
      assume "touches s node i"
      then have "key_of s i = key_of s edge" using live(3) o(2,3) by (auto simp: touches_def key_of_def edge_key_iff)
      then show False using key_unique [OF wf live(1) e(1)] live(2) by simp
    qed
    then show ?thesis using ends live(1) i(1) by (auto simp: edge_alive_def ends_alive_def touches_def)
  qed
  have "\<exists>s1. charge_node ?nb ?d ?u = Some s1 \<and> charged (node_keys ?nb) ?u s1 (\<lambda>f. ?d ! f ?nb) \<and> length (ps_edges s1) = length (ps_edges ?u)"
    by (rule charge_node_charged [OF un(2)]) (use nb alive in simp_all)
  then obtain s1 where s1: "charge_node ?nb ?d ?u = Some s1" "charged (node_keys ?nb) ?u s1 (\<lambda>f. ?d ! f ?nb)"
      "length (ps_edges s1) = length (ps_edges ?u)" by blast
  have ku: "keeps ?u s1" and wf1: "ps_wf s1" using s1(2) by (auto simp: charged_def)
  have k: "keeps s s1" by (rule keeps_trans [OF un(3) ku])
  have "node_edges s1 node = node_edges s node - {edge}"
  proof (intro equalityI subsetI)
    fix i assume i: "i \<in> node_edges s1 node"
    then have "i \<in> live_edges ?u" using normalize_shrinks [OF ku s1(3)] by (auto simp: node_edges_def)
    moreover from this have "touches s node i" using i keeps_touches [OF k, of i node] by (auto simp: node_edges_def live_unlinked live_edges_def)
    ultimately show "i \<in> node_edges s node - {edge}" by (auto simp: node_edges_def live_unlinked)
  next
    fix i assume "i \<in> node_edges s node - {edge}"
    then have i: "i \<in> live_edges s" "touches s node i" "i \<noteq> edge" by (auto simp: node_edges_def)
    have "\<not> touches s ?nb i"
    proof
      assume "touches s ?nb i"
      then have "key_of s i = key_of s edge" using i(2) o(2,3) by (auto simp: touches_def key_of_def edge_key_iff)
      then show False using key_unique [OF wf i(1) e(1)] i(3) by simp
    qed
    then have "i \<in> outside (node_keys ?nb) ?u" using i by (simp add: outside_def live_unlinked touches_key)
    then have "i \<in> live_edges s1" using s1(2) by (auto simp: charged_def outside_def)
    then show "i \<in> node_edges s1 node" using i keeps_touches [OF k, of i node] by (simp add: node_edges_def live_edges_def)
  qed
  moreover have "ends_alive {node} s1" using s1(2) unlinked_ends_alive [OF ends] by (simp add: charged_def)
  ultimately obtain s' where "decide_edges node choice es s1 = Some s'" "ps_wf s'" "keeps s1 s'" "ends_alive {} s'"
    using Cons.IH [of s1] wf1 keeps_live_nodes [OF k] Cons.prems(3-5) by auto
  then show ?case
    using un(1) s1(1) keeps_trans [OF k] by (simp add: Let_def)
qed

lemma decide_advances:
  assumes inv: "pq_inv s" and low: "low_queued s" and node: "node \<in> live_nodes s"
  shows "\<exists>s'. decide_node node s = Some s' \<and> advances s s' \<and> card (live_nodes s') < card (live_nodes s)"
proof -
  let ?c = "fst (first_min (decide_totals s node))"
  let ?u = "(deadened node s)\<lparr>ps_choices := (ps_choices s)[node := ?c]\<rparr>"
  have wf: "ps_wf s" and ends: "ends_alive {} s" and stack: "stack_ok s" using inv by (auto simp: pq_inv_def)
  have n: "node < node_count s" using node by (simp add: live_nodes_def)
  have c: "?c < length (ps_costs s ! node)"
    using first_min_spec(1) [of "decide_totals s node"] decide_totals_length [of s node] node_nonempty [OF inv node] by fastforce
  have g: "live_edges ?u = live_edges s" "touches ?u = touches s" "key_of ?u = key_of s" "live_nodes ?u = live_nodes s - {node}"
    using live_deadened [OF wf, of node] by (simp_all add: live_edges_def touches_def key_of_def live_nodes_def deadened_def fun_eq_iff)
  have wfu: "ps_wf ?u" using wf g by (simp add: ps_wf_def lists_edges_def finds_edges_def)
  have endsu: "ends_alive {node} ?u" using deadened_ends [OF ends, of node] g by (simp add: ends_alive_def)
  have stacku: "stack_ok ?u" using stack by (auto simp: stack_ok_def deadened_def nth_update_if)
  have lowu: "low_queued ?u" using low g by (simp add: low_queued_def)
  obtain s' where s': "decide_edges node ?c (ps_adjacency s ! node) ?u = Some s'" "ps_wf s'" "keeps ?u s'" "ends_alive {} s'"
    using decide_edges_keeps [OF wfu endsu, of "ps_adjacency s ! node" ?c] adjacency_edges [OF wf n] g by (auto simp: node_edges_def)
  have "pq_inv s'" "low_queued s'"
    using s'(2,4) keeps_stack [OF s'(3) stacku] s'(3) lowu by (auto simp: pq_inv_def keeps_def)
  moreover have lens: "map length (ps_costs s') = map length (ps_costs s)" using s'(3) by (simp add: keeps_def)
  moreover have "full_choice s' (ps_choices s')" if "full_choice s (ps_choices s)"
    using full_choice_update [OF that c, of ] full_choice_lens [OF lens] s'(3) by (simp add: keeps_def)
  moreover have "live_nodes s' = live_nodes s - {node}" using keeps_live_nodes [OF s'(3)] g by simp
  moreover have "s\<lparr>ps_choices := (ps_choices s)[node := ?c], ps_alive := (ps_alive s)[node := False]\<rparr> = ?u"
    by (rule PbSolver.equality) (simp_all add: deadened_def)
  then have "decide_node node s = Some s'" using s'(1) by (simp add: decide_node_def Let_def)
  ultimately show ?thesis
    using card_Diff1_less [OF finite_live(2) node] by (auto simp: advances_def)
qed

subsection \<open>The run\<close>

lemma skip_dead_alive:
  assumes "skip_dead s order at < length order"
  shows "ps_alive s ! (order ! skip_dead s order at)"
proof -
  let ?ys = "drop at order" let ?k = "length (takeWhile (\<lambda>node. \<not> ps_alive s ! node) ?ys)"
  have k: "?k < length ?ys" using assms by (simp add: skip_dead_def)
  have "ps_alive s ! (?ys ! ?k)" using nth_length_takeWhile [OF k] by simp
  then show ?thesis using k by (simp add: skip_dead_def)
qed

lemma run_loop_advances:
  "\<lbrakk>pq_inv s; low_queued s; \<forall>v\<in>set order. v < node_count s\<rbrakk> \<Longrightarrow> \<exists>s'. run_loop order at s = Some s' \<and> advances s s'"
proof (induction "card (live_nodes s)" arbitrary: s at rule: less_induct)
  case less
  obtain s1 where s1: "reduce_optimally s = Some s1" "reaches s s1" "ps_pending s1 = []"
    using reduce_optimally_reaches [OF less.prems(1,2)] by blast
  have adv1: "advances s s1" by (rule reaches_advances [OF s1(2)])
  have inv1: "pq_inv s1" "low_queued s1" "node_count s1 = node_count s"
    using adv1 unfolding advances_def by (auto dest: map_eq_imp_length_eq)
  let ?at = "skip_dead s1 order at"
  show ?case
  proof (cases "length order \<le> ?at")
    case True
    then show ?thesis using s1(1) adv1 by (subst run_loop.simps) (simp add: Let_def)
  next
    case False
    let ?v = "order ! ?at"
    have v: "?v \<in> live_nodes s1"
      using False skip_dead_alive [of s1 order at] less.prems(3) inv1(3) by (simp add: live_nodes_def)
    then have deg: "2 < length (ps_adjacency s1 ! ?v)"
      using inv1(2) s1(3) by (auto simp: low_queued_def not_less [symmetric])
    obtain s2 where s2: "merge_implied ?v 0 s1 = Some s2" "advances s1 s2" "s2 = s1 \<or> card (live_nodes s2) < card (live_nodes s1)"
      using merge_implied_advances [OF inv1(1,2), of ?v 0] v by (auto simp: live_nodes_def)
    have inv2: "pq_inv s2" "low_queued s2" using s2(2) by (auto simp: advances_def)
    have n2: "node_count s2 = node_count s1" using s2(2) unfolding advances_def by (metis length_map)
    let ?cond = "ps_alive s2 ! ?v \<and> 2 < length (ps_adjacency s2 ! ?v)"
    have "\<exists>s3. (if ?cond then decide_node ?v s2 else Some s2) = Some s3 \<and> advances s2 s3 \<and> card (live_nodes s3) < card (live_nodes s1)"
    proof (cases ?cond)
      case True
      then have "?v \<in> live_nodes s2" using v n2 by (simp add: live_nodes_def)
      from decide_advances [OF inv2 this] show ?thesis using True s2(3) by auto
    next
      case False
      then have "s2 \<noteq> s1" using deg v by (auto simp: live_nodes_def)
      then show ?thesis using False s2(3) advances_refl [OF inv2] by auto
    qed
    then obtain s3 where s3: "(if ?cond then decide_node ?v s2 else Some s2) = Some s3" "advances s2 s3"
        "card (live_nodes s3) < card (live_nodes s1)" by blast
    have adv3: "advances s s3" using advances_trans [OF adv1 advances_trans [OF s2(2) s3(2)]] .
    then have inv3: "pq_inv s3" "low_queued s3" by (auto simp: advances_def)
    have n3: "node_count s3 = node_count s" using adv3 unfolding advances_def by (metis length_map)
    have "card (live_nodes s1) \<le> card (live_nodes s)" using adv1 by (intro card_mono) (simp_all add: advances_def)
    then obtain s' where "run_loop order ?at s3 = Some s'" "advances s3 s'"
      using less.hyps [of s3 ?at] s3(3) inv3 n3 less.prems(3) by auto
    moreover have "run_loop order at s = run_loop order ?at s3"
      using s1(1) s2(1) s3(1) False by (subst run_loop.simps) (simp add: Let_def)
    ultimately show ?thesis using advances_trans [OF adv3] by auto
  qed
qed

lemma back_propagate_full:
  assumes wf: "ps_wf s" and stack: "stack_ok s" and ch: "full_choice s (ps_choices s)"
  shows "full_choice s (back_propagate s)"
proof -
  have "full_choice s (fold (back_step s) rs ch)" if "\<forall>r\<in>set rs. reduced_node r < node_count s" "full_choice s ch" for rs ch
    using that
  proof (induction rs arbitrary: ch)
    case (Cons r rs)
    have "ps_costs s ! reduced_node r \<noteq> []" using wf Cons.prems(1) by (simp add: ps_wf_def)
    then have "full_choice s (back_step s r ch)"
      unfolding back_step_def Let_def by (intro full_choice_update [OF Cons.prems(2)] best_response_min(1))
    then show ?case using Cons by simp
  qed simp
  then show ?thesis using stack ch by (simp add: back_propagate_def stack_ok_def)
qed

subsection \<open>Solving a problem\<close>

lemma rank_order_bounds: "\<lbrakk>list_all (\<lambda>v. v < n) order; v \<in> set (rank_order n order)\<rbrakk> \<Longrightarrow> v < n"
  by (auto simp: rank_order_def list_all_iff)

lemma solve_runs:
  assumes wf: "pb_wf p" and order: "list_all (\<lambda>v. v < length (pb_costs p)) order"
  shows "\<exists>s s'. pb_solver_new p = Some s \<and> run_loop (rank_order (length (pb_costs p)) order) 0 s = Some s' \<and>
    length (back_propagate s') = length (pb_costs p) \<and> valid_choice p (nth (back_propagate s'))"
proof -
  let ?n = "length (pb_costs p)"
  obtain s where s: "pb_solver_new p = Some s" "pq_inv s" "low_queued s" "map length (ps_costs s) = map length (pb_costs p)"
      "ps_choices s = replicate ?n 0"
    using solver_new [OF wf] by blast
  have n: "node_count s = ?n" using s(4) by (metis length_map)
  have as: "full_choice t ch \<longleftrightarrow> length ch = ?n \<and> valid_choice p (nth ch)" if "map length (ps_costs t) = map length (pb_costs p)" for t ch
  proof -
    have "node_count t = ?n" using that by (metis length_map)
    moreover have "length (ps_costs t ! v) = length (pb_costs p ! v)" if "v < ?n" for v
      using \<open>map length (ps_costs t) = _\<close> that calculation by (metis nth_map)
    ultimately show ?thesis by (auto simp: full_choice_def assigns_def valid_choice_def)
  qed
  have "full_choice s (ps_choices s)"
    using wf unfolding as [OF s(4)] s(5) by (auto simp: valid_choice_def pb_wf_def)
  moreover obtain s' where s': "run_loop (rank_order ?n order) 0 s = Some s'" "advances s s'"
    using run_loop_advances [OF s(2,3), of "rank_order ?n order" 0] rank_order_bounds [OF order] n by auto
  ultimately have "full_choice s' (back_propagate s')"
    by (intro back_propagate_full) (auto simp: advances_def pq_inv_def)
  moreover have "map length (ps_costs s') = map length (pb_costs p)" using s'(2) s(4) by (simp add: advances_def)
  ultimately show ?thesis using s(1) s'(1) as by blast
qed

text \<open>The nodes at fault: those that are stuck, and one end of every edge that is infinite between others.\<close>

lemma at_fault_none:
  assumes len: "length ch = n" and es: "\<And>l r m. ((l, r), m) \<in> set (pb_edges p) \<Longrightarrow> l < n \<and> r < n"
  shows "(\<forall>v<n. \<not> at_fault p rank ch ! v) \<longleftrightarrow>
    (\<forall>v<n. pb_costs p ! v ! (ch ! v) < INF_COST) \<and>
    (\<forall>l r m. ((l, r), m) \<in> set (pb_edges p) \<longrightarrow> mx_get m (ch ! l) (ch ! r) < INF_COST)"
proof -
  define stuck where "stuck = map (\<lambda>v. INF_COST \<le> pb_costs p ! v ! (ch ! v)) [0..<length ch]"
  let ?bad = "\<lambda>((l, r), m). \<not> stuck ! l \<and> \<not> stuck ! r \<and> INF_COST \<le> mx_get m (ch ! l) (ch ! r)"
  let ?step = "\<lambda>((l, r), m) fault. if \<not> stuck ! l \<and> \<not> stuck ! r \<and> INF_COST \<le> mx_get m (ch ! l) (ch ! r)
           then fault[(if rank ! r < rank ! l then l else r) := True] else fault"
  have "(\<forall>v<n. \<not> fold ?step xs fault ! v) \<longleftrightarrow> (\<forall>v<n. \<not> fault ! v) \<and> (\<forall>x\<in>set xs. \<not> ?bad x)"
    if "length fault = n" "\<And>l r m. ((l, r), m) \<in> set xs \<Longrightarrow> l < n \<and> r < n" for xs fault
    using that
  proof (induction xs arbitrary: fault)
    case (Cons x xs)
    obtain l r m where x: "x = ((l, r), m)" by (metis surj_pair)
    have lr: "l < n" "r < n" using Cons.prems(2) [of l r m] x by auto
    have "(\<forall>v<n. \<not> ?step x fault ! v) \<longleftrightarrow> (\<forall>v<n. \<not> fault ! v) \<and> \<not> ?bad x"
      using lr Cons.prems(1) unfolding x by (auto simp: nth_update_if)
    moreover have "length (?step x fault) = n" using Cons.prems(1) unfolding x by simp
    ultimately show ?case using Cons.IH [of "?step x fault"] Cons.prems(2) by auto
  qed simp
  from this [of stuck "pb_edges p"] es len have "(\<forall>v<n. \<not> at_fault p rank ch ! v) \<longleftrightarrow> (\<forall>v<n. \<not> stuck ! v) \<and> (\<forall>x\<in>set (pb_edges p). \<not> ?bad x)"
    by (simp add: at_fault_def stuck_def Let_def)
  moreover have "stuck ! v \<longleftrightarrow> INF_COST \<le> pb_costs p ! v ! (ch ! v)" if "v < n" for v
    using that len by (simp add: stuck_def)
  moreover have "(\<forall>x\<in>set (pb_edges p). \<not> ?bad x) \<longleftrightarrow>
      (\<forall>l r m. ((l, r), m) \<in> set (pb_edges p) \<longrightarrow> mx_get m (ch ! l) (ch ! r) < INF_COST)" if "\<forall>v<n. \<not> stuck ! v"
    using that es by (auto simp: not_le dest: leD)
  ultimately show ?thesis
    by (auto simp: not_le)
qed


text \<open>C12: the optimal reductions are optimal. When RE, R0, R1 and R2 alone take every node out of the graph of a
  problem, the choices that back propagation makes cost no more than any other choice of alternatives, node and
  edge costs summed up to the infinite cost.\<close>

theorem pbqp_reductions_optimal:
  assumes "pb_wf p" "list_all (\<lambda>v. v < length (pb_costs p)) order"
    and "pb_solver_new p = Some s" "reduce_optimally s = Some s'" "list_all Not (ps_alive s')"
  shows "\<exists>sol. pb_solve p order = Some sol \<and>
    (\<forall>f. valid_choice p f \<longrightarrow> min (pb_cost p (nth (so_choices sol))) INF_COST \<le> min (pb_cost p f) INF_COST)"
proof -
  let ?n = "length (pb_costs p)" let ?order = "rank_order ?n order"
  have s: "pq_inv s" "low_queued s" "map length (ps_costs s) = map length (pb_costs p)" "ps_choices s = replicate ?n 0" "solves (pb_cost p) s"
    using solver_new [OF assms(1)] assms(3) by auto
  have r: "reaches s s'" using reduce_optimally_reaches [OF s(1,2)] assms(4) by auto
  then have inv: "pq_inv s'" and lens: "map length (ps_costs s') = map length (pb_costs p)" and sol: "solves (pb_cost p) s'"
      and ch: "ps_choices s' = replicate ?n 0"
    using s by (auto simp: reaches_def)
  have n: "node_count s' = ?n" using lens by (metis length_map)
  have dead: "\<not> ps_alive s' ! v" if "v < ?n" for v
    using assms(5) that inv n by (simp add: list_all_length pq_inv_def ps_wf_def)
  have tw: "takeWhile (\<lambda>node. \<not> ps_alive s' ! node) ?order = ?order"
    using dead rank_order_bounds [OF assms(2)] by (simp add: takeWhile_eq_all_conv)
  have "skip_dead s' ?order 0 = length ?order" unfolding skip_dead_def drop_0 tw by simp
  then have run: "run_loop ?order 0 s = Some s'"
    using assms(4) by (subst run_loop.simps) (simp add: Let_def)
  have len: "length (ps_costs s' ! v) = length (pb_costs p ! v)" if "v < ?n" for v
    using lens that n by (metis nth_map)
  have "full_choice s' (ps_choices s')"
    using assms(1) len unfolding ch by (auto simp: full_choice_def assigns_def n pb_wf_def)
  moreover have "live_nodes s' = {}" using dead n by (auto simp: live_nodes_def)
  ultimately have opt: "cap (pb_cost p (nth (back_propagate s'))) \<le> cap (pb_cost p f)" if "valid_choice p f" for f
    using eliminated_optimal(2) [OF inv _ sol] that len by (simp add: assigns_def valid_choice_def n)
  then show ?thesis
    using assms(2,3) run by (simp add: pb_solve_def pb_run_def Let_def cap_def)
qed

subsection \<open>Two values that must not share a register\<close>

definition demo_problem :: Problem where
  "demo_problem = \<lparr>pb_costs = [[0, 3], [0, 1]], pb_edges = [((0, 1), \<lparr>mx_rows = 2, mx_cols = 2, mx_costs = [INF_COST, 0, 0, INF_COST]\<rparr>)]\<rparr>"

lemma inf_value: "INF_COST = 4611686018427387903"
  by (simp add: INF_COST_def U64_MAX_def)

lemma demo_wf: "pb_wf demo_problem" "list_all (\<lambda>v. v < length (pb_costs demo_problem)) [1]"
  by (auto simp: demo_problem_def pb_wf_def fits_costs_def mx_wf_def less_Suc_eq numeral_2_eq_2)


text \<open>Up to three nodes, no node ever has three neighbours, and the reductions suffice.\<close>

lemma small_eliminated:
  assumes inv: "pq_inv s" and low: "low_queued s" "ps_pending s = []" and small: "node_count s \<le> 3"
  shows "live_nodes s = {}"
proof (rule ccontr)
  assume "live_nodes s \<noteq> {}"
  then obtain v where v: "v \<in> live_nodes s" by blast
  let ?es = "ps_adjacency s ! v"
  have wf: "ps_wf s" and n: "v < node_count s" using inv v by (auto simp: pq_inv_def live_nodes_def)
  note f = adjacent_facts [OF inv v]
  have "inj_on (\<lambda>e. other_end s e v) (set ?es)"
    using f(1,4) key_unique [OF wf] by (intro inj_onI) metis
  moreover have "(\<lambda>e. other_end s e v) ` set ?es \<subseteq> {..<node_count s} - {v}"
    using f(3) by (auto simp: live_nodes_def)
  ultimately have "card (set ?es) \<le> card ({..<node_count s} - {v})"
    by (metis card_inj_on_le finite_Diff finite_lessThan)
  moreover have "card (set ?es) = length ?es" using adjacency_edges [OF wf n] distinct_card by blast
  ultimately have "length ?es \<le> 2" using n small by simp
  then show False using low v by (simp add: low_queued_def)
qed

lemma demo_eliminated:
  "\<exists>s s'. pb_solver_new demo_problem = Some s \<and> reduce_optimally s = Some s' \<and> list_all Not (ps_alive s')"
proof -
  obtain s where s: "pb_solver_new demo_problem = Some s" "pq_inv s" "low_queued s" "map length (ps_costs s) = map length (pb_costs demo_problem)"
    using solver_new [OF demo_wf(1)] by blast
  obtain s' where s': "reduce_optimally s = Some s'" "reaches s s'" "ps_pending s' = []"
    using reduce_optimally_reaches [OF s(2,3)] by blast
  have n: "node_count s' = 2"
    using s(4) s'(2) by (auto simp: reaches_def demo_problem_def dest: map_eq_imp_length_eq)
  then have "live_nodes s' = {}" using s'(2,3) by (intro small_eliminated) (auto simp: reaches_def)
  moreover have "length (ps_alive s') = node_count s'" using s'(2) by (simp add: reaches_def pq_inv_def ps_wf_def)
  ultimately show ?thesis using s(1) s'(1) by (auto simp: live_nodes_def list_all_length)
qed

theorem pbqp_reductions_optimal_witness:
  "\<exists>sol. pb_solve demo_problem [1] = Some sol \<and> min (pb_cost demo_problem (nth (so_choices sol))) INF_COST \<le> 1"
proof -
  obtain s s' where s: "pb_solver_new demo_problem = Some s" "reduce_optimally s = Some s'" "list_all Not (ps_alive s')"
    using demo_eliminated by blast
  have "valid_choice demo_problem (\<lambda>v. v)" "min (pb_cost demo_problem (\<lambda>v. v)) INF_COST = 1"
    by (auto simp: valid_choice_def demo_problem_def pb_cost_def mx_get_def inf_value less_Suc_eq numeral_2_eq_2)
  then show ?thesis
    using pbqp_reductions_optimal [OF demo_wf s] by fastforce
qed

end
