(* ===== verification/Spec2Isabelle.thy ===== *)
theory Spec2Isabelle
  imports APIntText SatCorrect SymLang DagGraph BitblastCorrect BlastEval UnionFind AffineBuild Copies Escape PbqpSolve
begin

text \<open>
  \<^bold>\<open>The numeric and logical core of TIR.\<close> TIR is a compiler tool chain built around an intermediate
  representation. What its parts share, and what its proofs of rewrites rest on, is a stack of small
  components: arbitrary-width integers, a CDCL SAT solver, a language of bit-vector formulas with an
  evaluator and a bit-blaster into that solver, a union-find with offsets under the relational engine,
  the affine dependence test of its loop passes, the PBQP solver and the sequencing of parallel copies in its
  register allocator, and the fixed-point solver of its data-flow analyses. This development models these components from their
  sources and proves them correct, each in the theories named below, and the compositions of the stack:
  a query on a formula is decided by the circuits and the solver together.

  \<^bold>\<open>Conventions.\<close> A 64-bit limb is a \<open>64 word\<close>; \<open>u32\<close>, \<open>usize\<close> and the indices of vectors are natural numbers;
  \<open>i128\<close> is an integer with saturation and overflow written out. A panic (failed assertion, index out of
  range, overflow of plain arithmetic) is the value \<open>None\<close>, or \<open>Panicked\<close> where the function also has
  errors, which are \<open>Failed\<close> with the source's error constructors. Loops that the code runs to a fixed point
  are \<open>partial_function (option)\<close>, and the theorems say that they return. Mutable structures are records
  that every operation returns updated. Hash maps whose order is not observed are maps. The
  activities of the solver (\<open>f64\<close>) are the natural multiples of \<open>2 ^ -1074\<close> they are, each operation rounded
  to 53 bits.

  \<^bold>\<open>Integers\<close> (\<open>libs/adt/src/apint.rs\<close>). \<open>Limbs\<close>: carry chains, schoolbook multiplication, shifts and restoring
  division on limb vectors, as numbers. \<open>APInt\<close>: the structure (width, sign flag, one word or limbs), its
  constructors, extensions, shifts and bitwise operations, with the invariant that unused bits are zero.
  \<open>APIntArith\<close>: arithmetic is the ring modulo \<open>2 ^ width\<close>, division is Euclidean or truncating, comparisons are those
  of the numbers, \<open>Ord\<close> is a total order, and the bit counts count. \<open>APIntText\<close>: printing in three bases and parsing,
  which invert each other.

  \<^bold>\<open>SAT solver\<close> (\<open>libs/symbolic/src/sat/mod.rs\<close>). \<open>SatBase\<close> and \<open>SatSolver\<close>: state and operations (clause
  addition, two-watched-literal propagation, first-UIP analysis, backjumping, Luby restarts, phase
  saving, the VSIDS heap of \<open>SatHeap\<close>). \<open>SatInv\<close>: the invariant of the trail, levels, reasons and watches;
  \<open>SatPropagate\<close>, \<open>SatAnalyze\<close>, \<open>SatSearch\<close>: every operation preserves it, propagation is complete, the learnt clause
  is entailed and asserting, and a lexicographic measure on trails makes the search end. \<open>SatCorrect\<close>: \<open>solve\<close>
  decides satisfiability, and the locale \<open>cnf_builder\<close> is the interface through which clauses are added.

  \<^bold>\<open>Formulas.\<close> \<open>DagGraph\<close> (\<open>libs/adt/src/dag.rs\<close>): the append-only graph refines a list of nodes, its traversals
  end and its equality compares unfoldings. \<open>SymKind\<close>, \<open>SymLang\<close> (\<open>libs/symbolic/src/lang/ops.rs\<close> and \<open>mod.rs\<close>): the
  kinds of the language, the table of scalar operators and their evaluation, which agree with
  arithmetic; commutativity, identities, offsets and atomic operations. \<open>Circuits\<close>, \<open>BlastFp\<close>, \<open>Bitblast\<close>
  (\<open>libs/symbolic/src/bitblast\<close>): gates, integer and float circuits, the encoding of a graph and the two
  queries. \<open>BlastSem\<close>: the reference semantics, runs of a formula with undefined bits. \<open>BlastOps\<close>,
  \<open>BitblastCorrect\<close>: models of the clauses are the runs, so the queries decide the formula and the
  refinement of one node by another. \<open>BlastEval\<close>: the circuits agree with the evaluator, and the
  integer-to-float circuit rounds to nearest even.

  \<^bold>\<open>Union-find\<close> (\<open>libs/relational/src/unionfind.rs\<close>). \<open>UnionFind\<close>: the structure is read as the set of equations
  asserted so far; \<open>find\<close> decides what follows from them, \<open>union\<close> adds one, flattening changes no answer.

  \<^bold>\<open>Loop nests\<close> (\<open>core/src/analysis/affine\<close>). \<open>AffineForm\<close>: the coefficients saturate, and a form whose range
  fits a width of at most 126 bits is exact nevertheless. \<open>Dependence\<close>: the dependence test returns without
  overflow and misses no distance between iterations. \<open>AffineBuild\<close>: reading a value of the program as a form
  ends, and an unflagged form names the value computed. \<open>AffineNest\<close>: trip counts, extremes and the table of
  pairs, in which two accesses that meet in a byte are listed with a verdict that admits their iterations.

  \<^bold>\<open>Parallel copies\<close> (\<open>core/src/backend/regalloc.rs\<close>, \<open>regalloc/copies.rs\<close>). \<open>Copies\<close>: register classes and their
  overlap, the allocation order, and the sequencing of a parallel copy with cycles broken through a scratch
  register: running the steps one by one is the parallel copy, and they write nothing that must be kept.

  \<^bold>\<open>Register assignment\<close> (\<open>core/src/backend/pbqp.rs\<close>). \<open>Pbqp\<close>: problems, cost matrices and the solver with its
  reductions (RE, R0, R1, R2), merging, decisions and back propagation. \<open>PbqpCosts\<close>: costs up to the infinite one,
  matrices as functions, normalization of an edge. \<open>PbqpInv\<close>, \<open>PbqpCharge\<close>: the invariant of the graph, which every
  operation keeps, and what each adds to the cost of an assignment. \<open>PbqpReduce\<close>, \<open>PbqpOptimal\<close>: the reductions are exact,
  so a problem they eliminate is solved to optimality. \<open>PbqpSolve\<close>: merging and deciding keep the invariant, and
  the whole run ends with an alternative for every node. That deciding in dominance order colours chordal
  graphs is not shown.

  \<^bold>\<open>Data flow\<close> (\<open>core/src/analysis\<close>). \<open>DataFlow\<close> (\<open>solver.rs\<close>): the worklist solver; the traits \<open>Lattice\<close> and
  \<open>FactDomain\<close> are the locales \<open>fact_lattice\<close> and \<open>fact_domain\<close>, in which the solver returns the least solution.
  \<open>Escape\<close> (\<open>escape_facts.rs\<close>, \<open>slots.rs\<close>): the escape analysis interprets them, its verdict on a pointer is the
  worst use of any pointer derived from it, and a stack slot that does not escape is touched only by the
  loads and stores collected for it.

  \<^bold>\<open>Not modelled.\<close> The IR store and its dialects, passes, instruction selection and code emission work on
  a mutable arena with dynamic interfaces and on generated tables; the front ends (C, TMDL, SMT-LIB), file
  formats, the simulators, SIMD kernels, hash tables and command-line tools are input and output around
  the components above. \<open>blast_with_types\<close> and the interpreter with memory need width inference, which
  is an argument of the bit-blaster here.
\<close>

end
